(* ===== verification/Rust_Prelude.thy ===== *)
theory Rust_Prelude
  imports Main "HOL-Library.Monad_Syntax"
begin

text \<open>
  The fragment of Rust the component theories share.

  A computation that may panic has type \<open>'a option\<close>: \<open>None\<close> is a panic (a failed
  \<open>assert!\<close> or \<open>debug_assert!\<close>, an \<open>expect\<close> on the wrong variant, an index out of
  range, an arithmetic overflow), \<open>Some v\<close> a normal return.  This is the development
  profile of the workspace, where overflow checks and debug assertions are on; a run that
  does not panic there computes the same values in every other profile.  A function
  returning \<open>Result<T, E>\<close> has type \<open>('e + 'a) option\<close>, with \<open>Inl\<close> for \<open>Err\<close> and
  \<open>Inr\<close> for \<open>Ok\<close>.  \<open>usize\<close> and \<open>u64\<close> are \<open>nat\<close> below \<open>2 ^ 64\<close>, \<open>isize\<close> is
  \<open>int\<close> in the two's complement range of 64 bits.
\<close>

type_synonym usize = nat
type_synonym isize = int

named_theorems rust_defs \<open>definitions of the Rust primitives, unfolded to evaluate a program\<close>
named_theorems rust_simps \<open>facts that decide the checks of the Rust primitives\<close>

subsection \<open>Checked arithmetic\<close>

definition usize_lim :: nat where
  "usize_lim = 2 ^ 64"

definition u32_lim :: nat where
  "u32_lim = 2 ^ 32"

definition isize_lim :: int where
  "isize_lim = 2 ^ 63"

definition in_isize :: "int \<Rightarrow> bool" where
  "in_isize x \<longleftrightarrow> - isize_lim \<le> x \<and> x < isize_lim"

definition uadd :: "usize \<Rightarrow> usize \<Rightarrow> usize option" where
  "uadd a b = (if a + b < usize_lim then Some (a + b) else None)"

definition umul :: "usize \<Rightarrow> usize \<Rightarrow> usize option" where
  "umul a b = (if a * b < usize_lim then Some (a * b) else None)"

definition usub :: "usize \<Rightarrow> usize \<Rightarrow> usize option" where
  "usub a b = (if b \<le> a then Some (a - b) else None)"

definition iadd :: "isize \<Rightarrow> isize \<Rightarrow> isize option" where
  "iadd a b = (if in_isize (a + b) then Some (a + b) else None)"

definition isub :: "isize \<Rightarrow> isize \<Rightarrow> isize option" where
  "isub a b = (if in_isize (a - b) then Some (a - b) else None)"

definition imul :: "isize \<Rightarrow> isize \<Rightarrow> isize option" where
  "imul a b = (if in_isize (a * b) then Some (a * b) else None)"

definition ineg :: "isize \<Rightarrow> isize option" where
  "ineg a = (if in_isize (- a) then Some (- a) else None)"

text \<open>\<open>as\<close> casts between the two 64-bit types keep the bit pattern.\<close>

definition as_isize :: "usize \<Rightarrow> isize" where
  "as_isize n = (if int n < isize_lim then int n else int n - 2 * isize_lim)"

definition as_usize :: "isize \<Rightarrow> usize" where
  "as_usize x = nat (x mod (2 * isize_lim))"

text \<open>\<open>usize::div_ceil\<close>; the divisor is checked by the callers, as the primitive panics on 0.\<close>

definition div_ceil :: "usize \<Rightarrow> usize \<Rightarrow> usize" where
  "div_ceil a b = (if a mod b = 0 then a div b else Suc (a div b))"

definition udiv_ceil :: "usize \<Rightarrow> usize \<Rightarrow> usize option" where
  "udiv_ceil a b = (if b = 0 then None else Some (div_ceil a b))"

definition rassert :: "bool \<Rightarrow> unit option" where
  "rassert b = (if b then Some () else None)"

subsection \<open>Slices and vectors\<close>

definition vec_get :: "'a list \<Rightarrow> usize \<Rightarrow> 'a option" where
  "vec_get xs i = (if i < length xs then Some (xs ! i) else None)"

definition vec_set :: "'a list \<Rightarrow> usize \<Rightarrow> 'a \<Rightarrow> 'a list option" where
  "vec_set xs i v = (if i < length xs then Some (xs[i := v]) else None)"

definition vec_swap :: "'a list \<Rightarrow> usize \<Rightarrow> usize \<Rightarrow> 'a list option" where
  "vec_swap xs i j =
     (if i < length xs \<and> j < length xs then Some (xs[i := xs ! j, j := xs ! i]) else None)"

definition vec_insert :: "'a list \<Rightarrow> usize \<Rightarrow> 'a \<Rightarrow> 'a list option" where
  "vec_insert xs i v = (if i \<le> length xs then Some (take i xs @ v # drop i xs) else None)"

definition vec_remove :: "'a list \<Rightarrow> usize \<Rightarrow> ('a \<times> 'a list) option" where
  "vec_remove xs i =
     (if i < length xs then Some (xs ! i, take i xs @ drop (Suc i) xs) else None)"

text \<open>\<open>&xs[a..b]\<close>\<close>

definition sub_slice :: "'a list \<Rightarrow> usize \<Rightarrow> usize \<Rightarrow> 'a list option" where
  "sub_slice xs a b =
     (if a \<le> b \<and> b \<le> length xs then Some (take (b - a) (drop a xs)) else None)"

text \<open>\<open>iter().map(f).collect()\<close> and \<open>for x in xs { acc = f(acc, x) }\<close> with a body that may panic.\<close>

fun mmap :: "('a \<Rightarrow> 'b option) \<Rightarrow> 'a list \<Rightarrow> 'b list option" where
  "mmap f [] = Some []"
| "mmap f (x # xs) = do { y \<leftarrow> f x; ys \<leftarrow> mmap f xs; Some (y # ys) }"

fun mfold :: "('a \<Rightarrow> 's \<Rightarrow> 's option) \<Rightarrow> 'a list \<Rightarrow> 's \<Rightarrow> 's option" where
  "mfold f [] s = Some s"
| "mfold f (x # xs) s = do { s' \<leftarrow> f x s; mfold f xs s' }"

text \<open>\<open>iter().product::<usize>()\<close>: the running product is checked at every step.\<close>

definition uproduct :: "usize list \<Rightarrow> usize option" where
  "uproduct xs = mfold (\<lambda>x acc. umul acc x) xs 1"

text \<open>
  \<open>iter.collect::<Vec<_>>()\<close> over an iterator given by its \<open>next\<close>; an iterator that never ends
  has no result, so a theorem that this is \<open>Some xs\<close> includes that the iteration ends.
\<close>

partial_function (option) iter_collect :: "('s \<Rightarrow> ('a option \<times> 's) option) \<Rightarrow> 's \<Rightarrow> 'a list option" where
  "iter_collect nxt s =
     Option.bind (nxt s) (\<lambda>r.
       (case fst r of
          None \<Rightarrow> Some []
        | Some x \<Rightarrow> Option.bind (iter_collect nxt (snd r)) (\<lambda>xs. Some (x # xs))))"

text \<open>The \<open>?\<close> operator inside a function that may also panic.\<close>

definition try_op :: "('e + 'a) option \<Rightarrow> ('a \<Rightarrow> ('e + 'b) option) \<Rightarrow> ('e + 'b) option" where
  "try_op r f = do { v \<leftarrow> r; (case v of Inl e \<Rightarrow> Some (Inl e) | Inr a \<Rightarrow> f a) }"

lemmas [rust_defs] =
  uadd_def umul_def usub_def iadd_def isub_def imul_def ineg_def in_isize_def
  as_isize_def as_usize_def div_ceil_def udiv_ceil_def rassert_def
  vec_get_def vec_set_def vec_swap_def vec_insert_def vec_remove_def sub_slice_def
  usize_lim_def u32_lim_def isize_lim_def

subsection \<open>Facts about the primitives\<close>

lemma uadd_Some [simp]: "uadd a b = Some c \<longleftrightarrow> c = a + b \<and> a + b < usize_lim"
  by (auto simp: uadd_def)

lemma umul_Some [simp]: "umul a b = Some c \<longleftrightarrow> c = a * b \<and> a * b < usize_lim"
  by (auto simp: umul_def)

lemma usub_Some [simp]: "usub a b = Some c \<longleftrightarrow> c = a - b \<and> b \<le> a"
  by (auto simp: usub_def)

lemma iadd_Some [simp]: "iadd a b = Some c \<longleftrightarrow> c = a + b \<and> in_isize (a + b)"
  by (auto simp: iadd_def)

lemma imul_Some [simp]: "imul a b = Some c \<longleftrightarrow> c = a * b \<and> in_isize (a * b)"
  by (auto simp: imul_def)

lemma rassert_Some [simp]: "rassert b = Some u \<longleftrightarrow> b"
  by (simp add: rassert_def)

lemma vec_get_Some [simp]: "vec_get xs i = Some v \<longleftrightarrow> i < length xs \<and> v = xs ! i"
  by (auto simp: vec_get_def)

lemma vec_set_Some [simp]: "vec_set xs i v = Some ys \<longleftrightarrow> i < length xs \<and> ys = xs[i := v]"
  by (auto simp: vec_set_def)

lemma uadd_ok [rust_simps]: "a + b < usize_lim \<Longrightarrow> uadd a b = Some (a + b)"
  and umul_ok [rust_simps]: "a * b < usize_lim \<Longrightarrow> umul a b = Some (a * b)"
  and usub_ok [rust_simps]: "b \<le> a \<Longrightarrow> usub a b = Some (a - b)"
  and iadd_ok [rust_simps]: "in_isize (x + y) \<Longrightarrow> iadd x y = Some (x + y)"
  and isub_ok [rust_simps]: "in_isize (x - y) \<Longrightarrow> isub x y = Some (x - y)"
  and imul_ok [rust_simps]: "in_isize (x * y) \<Longrightarrow> imul x y = Some (x * y)"
  and vec_get_ok [rust_simps]: "i < length xs \<Longrightarrow> vec_get xs i = Some (xs ! i)"
  and vec_set_ok [rust_simps]: "i < length xs \<Longrightarrow> vec_set xs i v = Some (xs[i := v])"
  and rassert_ok [rust_simps]: "P \<Longrightarrow> rassert P = Some ()"
  by (simp_all add: uadd_def umul_def usub_def iadd_def isub_def imul_def vec_get_def vec_set_def
      rassert_def)

lemma as_isize_small [rust_simps]: "int n < isize_lim \<Longrightarrow> as_isize n = int n"
  by (simp add: as_isize_def)

lemma as_usize_small [rust_simps]: "0 \<le> x \<Longrightarrow> x < 2 * isize_lim \<Longrightarrow> as_usize x = nat x"
  by (simp add: as_usize_def)

lemma isize_lim_pos [simp]: "0 < isize_lim"
  by (simp add: isize_lim_def)

lemma usize_lim_pos [simp]: "0 < usize_lim"
  by (simp add: usize_lim_def)

lemma int_usize_lim: "int usize_lim = 2 * isize_lim"
  by (simp add: usize_lim_def isize_lim_def)

lemma as_usize_as_isize: "n < usize_lim \<Longrightarrow> as_usize (as_isize n) = n"
proof -
  assume "n < usize_lim"
  then have lt: "int n < 2 * isize_lim"
    using int_usize_lim by linarith
  show ?thesis
  proof (cases "int n < isize_lim")
    case True
    with lt show ?thesis by (simp add: as_isize_def as_usize_def)
  next
    case False
    have "(int n - 2 * isize_lim) mod (2 * isize_lim) = int n mod (2 * isize_lim)"
      by (metis minus_mod_self2)
    with False lt show ?thesis by (simp add: as_isize_def as_usize_def)
  qed
qed

lemma mmap_pure: "(\<And>x. x \<in> set xs \<Longrightarrow> f x = Some (g x)) \<Longrightarrow> mmap f xs = Some (map g xs)"
  by (induction xs) auto

lemma mmap_length: "mmap f xs = Some ys \<Longrightarrow> length ys = length xs"
  by (induction xs arbitrary: ys) (auto split: bind_splits)

lemma mmap_nth: "mmap f xs = Some ys \<Longrightarrow> i < length xs \<Longrightarrow> f (xs ! i) = Some (ys ! i)"
  by (induction xs arbitrary: ys i) (auto split: bind_splits simp: nth_Cons split: nat.splits)

lemma mfold_append: "mfold f (xs @ ys) s = do { s' \<leftarrow> mfold f xs s; mfold f ys s' }"
  by (induction xs arbitrary: s) (auto split: bind_splits)

lemma mfold_pure:
  "(\<And>x s. x \<in> set xs \<Longrightarrow> f x s = Some (g x s)) \<Longrightarrow> mfold f xs s = Some (fold g xs s)"
  by (induction xs arbitrary: s) auto

text \<open>An invariant of the loop, with the body total under it.\<close>

lemma mfold_invariant:
  assumes "P s"
    and "\<And>x s. x \<in> set xs \<Longrightarrow> P s \<Longrightarrow> \<exists>s'. f x s = Some s' \<and> P s'"
  shows "\<exists>s'. mfold f xs s = Some s' \<and> P s'"
  using assms
proof (induction xs arbitrary: s)
  case (Cons x xs)
  from Cons.prems obtain s1 where "f x s = Some s1" "P s1"
    by (metis list.set_intros(1))
  with Cons show ?case
    by (metis bind.bind_lunit list.set_intros(2) mfold.simps(2))
qed simp

text \<open>Counting loops \<open>for i in a..n\<close> and \<open>for i in (0..n).rev()\<close> with an indexed invariant.\<close>

lemma mfold_upt:
  assumes "a \<le> n" and "Q a s"
    and "\<And>i s. a \<le> i \<Longrightarrow> i < n \<Longrightarrow> Q i s \<Longrightarrow> \<exists>s'. f i s = Some s' \<and> Q (Suc i) s'"
  shows "\<exists>s'. mfold f [a..<n] s = Some s' \<and> Q n s'"
  using assms
proof (induction n rule: dec_induct)
  case (step n)
  then obtain s1 where s1: "mfold f [a..<n] s = Some s1" "Q n s1"
    by (metis less_SucI)
  with step obtain s2 where "f n s1 = Some s2" "Q (Suc n) s2" by blast
  with s1 step.hyps show ?case by (auto simp: mfold_append)
qed simp

lemma mfold_rev_upt:
  assumes "Q n s"
    and "\<And>i s. i < n \<Longrightarrow> Q (Suc i) s \<Longrightarrow> \<exists>s'. f i s = Some s' \<and> Q i s'"
  shows "\<exists>s'. mfold f (rev [0..<n]) s = Some s' \<and> Q 0 s'"
  using assms
proof (induction n arbitrary: s)
  case (Suc n)
  from Suc.prems obtain s1 where "f n s = Some s1" "Q n s1" by blast
  with Suc.IH [of s1] Suc.prems(2) show ?case by auto
qed simp

text \<open>An iterator that yields \<open>f k, f (k + 1), ..., f (n - 1)\<close> from the states \<open>st k\<close>.\<close>

lemma iter_collect_upt:
  assumes "k \<le> n" and "\<And>i. k \<le> i \<Longrightarrow> i < n \<Longrightarrow> nxt (st i) = Some (Some (f i), st (Suc i))"
    and "\<exists>s'. nxt (st n) = Some (None, s')"
  shows "iter_collect nxt (st k) = Some (map f [k..<n])"
  using assms
proof (induction k rule: inc_induct)
  case base
  then show ?case by (subst iter_collect.simps) auto
next
  case (step k)
  then show ?case by (subst iter_collect.simps) (simp add: upt_conv_Cons)
qed

subsection \<open>Products of dimensions\<close>

text \<open>
  \<open>fits xs\<close>: no running product of \<open>xs\<close>, from either end, leaves the range of \<open>usize\<close>.
  It is stronger than the product being in range only when some factor is 0.
\<close>

primrec nz_prod :: "nat list \<Rightarrow> nat" where
  "nz_prod [] = 1"
| "nz_prod (x # xs) = max 1 x * nz_prod xs"

definition fits :: "nat list \<Rightarrow> bool" where
  "fits xs \<longleftrightarrow> nz_prod xs < usize_lim"

lemma nz_prod_pos [simp]: "0 < nz_prod xs"
  by (induction xs) auto

lemma nz_prod_append [simp]: "nz_prod (xs @ ys) = nz_prod xs * nz_prod ys"
  by (induction xs) auto

lemma prod_list_le_nz_prod: "prod_list xs \<le> nz_prod xs"
  by (induction xs) (auto intro: mult_le_mono)

lemma nz_prod_positive: "\<forall>x \<in> set xs. 0 < x \<Longrightarrow> nz_prod xs = prod_list xs"
  by (induction xs) (auto simp: max_def)

lemma fits_Nil [simp]: "fits []"
  by (simp add: fits_def usize_lim_def)

lemma factor_lt: "(a::nat) * b < c \<Longrightarrow> 0 < b \<Longrightarrow> a < c"
  by (cases b) auto

lemma fits_appendD1: "fits (xs @ ys) \<Longrightarrow> fits xs"
  unfolding fits_def by (metis factor_lt nz_prod_append nz_prod_pos)

lemma fits_appendD2: "fits (xs @ ys) \<Longrightarrow> fits ys"
  unfolding fits_def by (metis factor_lt mult.commute nz_prod_append nz_prod_pos)

lemma fits_ConsD: "fits (x # xs) \<Longrightarrow> fits xs"
  using fits_appendD2 [of "[x]" xs] by simp

lemma fits_rev [simp]: "fits (rev xs) \<longleftrightarrow> fits xs"
proof -
  have "nz_prod (rev xs) = nz_prod xs"
    by (induction xs) (auto simp: mult.commute)
  then show ?thesis by (simp add: fits_def)
qed

lemma fits_prod: "fits xs \<Longrightarrow> prod_list xs < usize_lim"
  using prod_list_le_nz_prod [of xs] by (simp add: fits_def)

lemma fits_positive: "\<forall>x \<in> set xs. 0 < x \<Longrightarrow> fits xs \<longleftrightarrow> prod_list xs < usize_lim"
  by (simp add: fits_def nz_prod_positive)

lemma mfold_umul:
  "a * nz_prod xs < usize_lim \<Longrightarrow> mfold (\<lambda>x acc. umul acc x) xs a = Some (a * prod_list xs)"
proof (induction xs arbitrary: a)
  case (Cons x xs)
  have "a * x * nz_prod xs \<le> a * nz_prod (x # xs)"
    by (auto simp: mult.assoc intro!: mult_le_mono)
  also have "\<dots> < usize_lim" by (rule Cons.prems)
  finally have *: "a * x * nz_prod xs < usize_lim" .
  then have "a * x < usize_lim"
    by (rule factor_lt) simp
  with * show ?case
    by (simp add: Cons.IH umul_ok mult.assoc)
qed (simp add: mult.commute)

lemma uproduct_fits [rust_simps]: "fits xs \<Longrightarrow> uproduct xs = Some (prod_list xs)"
  using mfold_umul [of 1 xs] by (simp add: uproduct_def fits_def)

lemma prod_list_pos: "(\<forall>x \<in> set xs. 0 < x) \<longleftrightarrow> 0 < prod_list (xs :: nat list)"
  by (induction xs) auto

subsection \<open>Rounding division\<close>

lemma div_ceil_0 [simp]: "div_ceil 0 b = 0"
  by (simp add: div_ceil_def)

lemma div_ceil_le_iff: "0 < b \<Longrightarrow> div_ceil a b \<le> n \<longleftrightarrow> a \<le> n * b"
proof -
  assume b: "0 < b"
  have eq: "a = b * (a div b) + a mod b" by simp
  show ?thesis
  proof (cases "a mod b = 0")
    case True
    with b show ?thesis
      by (metis div_ceil_def div_le_mono div_times_less_eq_dividend dual_order.trans
          mod_0_imp_dvd dvd_div_mult_self mult_le_mono1 nonzero_mult_div_cancel_right not_gr_zero)
  next
    case False
    have "Suc (a div b) \<le> n \<longleftrightarrow> a div b < n" by (rule Suc_le_eq)
    also have "\<dots> \<longleftrightarrow> a < n * b"
      using b by (simp add: less_mult_imp_div_less div_less_iff_less_mult)
    also have "\<dots> \<longleftrightarrow> a \<le> n * b"
    proof -
      have "a \<noteq> n * b" using False by auto
      then show ?thesis by linarith
    qed
    finally show ?thesis using False by (simp add: div_ceil_def)
  qed
qed

lemma less_div_ceil_iff: "0 < b \<Longrightarrow> n < div_ceil a b \<longleftrightarrow> n * b < a"
  using div_ceil_le_iff [of b a n] by linarith

lemma div_ceil_mono: "0 < b \<Longrightarrow> a \<le> c \<Longrightarrow> div_ceil a b \<le> div_ceil c b"
  by (meson div_ceil_le_iff le_trans order_refl)

lemma div_ceil_mult [simp]: "0 < b \<Longrightarrow> div_ceil (n * b) b = n"
  by (simp add: div_ceil_def)

lemma div_ceil_upper: "0 < b \<Longrightarrow> a \<le> div_ceil a b * b"
  using div_ceil_le_iff [of b a "div_ceil a b"] by simp

lemma div_less_div_ceil: "0 < b \<Longrightarrow> i < a \<Longrightarrow> i div b < div_ceil a b"
  by (meson div_times_less_eq_dividend le_less_trans less_div_ceil_iff)

end
