(* ===== verification/Row_Major.thy ===== *)
theory Row_Major
  imports Rust_Prelude
begin

text \<open>
  The mathematics the tensor components refer to: coordinates of a shape, their row-major
  rank, and the position a coordinate vector has under a list of strides.  Nothing here
  models code; the component theories prove that their routines compute these functions.
\<close>

text \<open>\<open>in_shape ds cs\<close>: \<open>cs\<close> is a coordinate vector of a tensor with dimensions \<open>ds\<close>.\<close>

fun in_shape :: "nat list \<Rightarrow> nat list \<Rightarrow> bool" where
  "in_shape [] [] = True"
| "in_shape (d # ds) (c # cs) = (c < d \<and> in_shape ds cs)"
| "in_shape _ _ = False"

text \<open>Row-major rank of a coordinate vector, and its inverse.\<close>

fun ravel :: "nat list \<Rightarrow> nat list \<Rightarrow> nat" where
  "ravel (d # ds) (c # cs) = c * prod_list ds + ravel ds cs"
| "ravel _ _ = 0"

primrec unravel :: "nat list \<Rightarrow> nat \<Rightarrow> nat list" where
  "unravel [] k = []"
| "unravel (d # ds) k = k div prod_list ds mod d # unravel ds k"

text \<open>Signed and unsigned inner product of coordinates with strides.\<close>

fun idot :: "nat list \<Rightarrow> int list \<Rightarrow> int" where
  "idot (c # cs) (s # ss) = int c * s + idot cs ss"
| "idot _ _ = 0"

fun udot :: "nat list \<Rightarrow> nat list \<Rightarrow> nat" where
  "udot (c # cs) (s # ss) = c * s + udot cs ss"
| "udot _ _ = 0"

primrec rm_strides :: "nat list \<Rightarrow> nat list" where
  "rm_strides [] = []"
| "rm_strides (d # ds) = prod_list ds # rm_strides ds"

text \<open>Position of the \<open>k\<close>-th element (in row-major order) of a view with unsigned strides.\<close>

definition upos :: "nat list \<Rightarrow> nat list \<Rightarrow> nat \<Rightarrow> nat" where
  "upos ds ss k = udot (unravel ds k) ss"

subsection \<open>Coordinates\<close>

lemma in_shape_length: "in_shape ds cs \<Longrightarrow> length cs = length ds"
  by (induction ds cs rule: in_shape.induct) auto

lemma in_shape_iff: "in_shape ds cs \<longleftrightarrow> length cs = length ds \<and> (\<forall>i < length ds. cs ! i < ds ! i)"
proof (induction ds cs rule: in_shape.induct)
  case (2 d ds c cs)
  then show ?case by (auto simp: less_Suc_eq_0_disj nth_Cons split: nat.splits)
qed auto

lemma in_shape_append:
  "length cs = length ds \<Longrightarrow>
   in_shape (ds @ ds') (cs @ cs') \<longleftrightarrow> in_shape ds cs \<and> in_shape ds' cs'"
proof (induction ds arbitrary: cs)
  case (Cons d ds)
  then show ?case by (cases cs) auto
qed auto

lemma in_shape_drop: "in_shape ds cs \<Longrightarrow> in_shape (drop j ds) (drop j cs)"
  by (auto simp: in_shape_iff)

lemma in_shape_prod_pos: "in_shape ds cs \<Longrightarrow> 0 < prod_list ds"
  by (induction ds cs rule: in_shape.induct) auto

lemma length_unravel [simp]: "length (unravel ds k) = length ds"
  by (induction ds arbitrary: k) auto

lemma length_rm_strides [simp]: "length (rm_strides ds) = length ds"
  by (induction ds) auto

lemma ravel_less: "in_shape ds cs \<Longrightarrow> ravel ds cs < prod_list ds"
proof (induction ds cs rule: in_shape.induct)
  case (2 d ds c cs)
  then have "c + 1 \<le> d" "ravel ds cs < prod_list ds" by auto
  then have "c * prod_list ds + ravel ds cs < (c + 1) * prod_list ds" by simp
  also have "\<dots> \<le> d * prod_list ds"
    using \<open>c + 1 \<le> d\<close> by (rule mult_le_mono1)
  finally show ?case by simp
qed auto

lemma ravel_snoc: "length cs = length ds \<Longrightarrow> ravel (ds @ [d]) (cs @ [c]) = ravel ds cs * d + c"
proof (induction ds arbitrary: cs)
  case (Cons a ds)
  then show ?case by (cases cs) (auto simp: algebra_simps)
qed simp

lemma unravel_snoc: "unravel (ds @ [d]) k = unravel ds (k div d) @ [k mod d]"
  by (induction ds arbitrary: k) (auto simp: div_mult2_eq [symmetric] mult.commute)

lemma in_shape_unravel: "k < prod_list ds \<Longrightarrow> in_shape ds (unravel ds k)"
proof (induction ds arbitrary: k rule: rev_induct)
  case (snoc d ds)
  then have "0 < d" by (cases d) auto
  with snoc show ?case
    by (simp add: unravel_snoc in_shape_append less_mult_imp_div_less)
qed simp

lemma ravel_unravel [simp]: "k < prod_list ds \<Longrightarrow> ravel ds (unravel ds k) = k"
proof (induction ds arbitrary: k rule: rev_induct)
  case (snoc d ds)
  then show ?case
    by (simp add: unravel_snoc ravel_snoc less_mult_imp_div_less)
qed simp

lemma unravel_ravel [simp]: "in_shape ds cs \<Longrightarrow> unravel ds (ravel ds cs) = cs"
proof (induction ds arbitrary: cs rule: rev_induct)
  case (snoc d ds)
  then obtain cs' c where "cs = cs' @ [c]" "length cs' = length ds"
    by (metis in_shape_length length_Suc_conv_rev length_append_singleton)
  with snoc show ?case
    by (simp add: unravel_snoc ravel_snoc in_shape_append)
qed (auto elim: in_shape.elims)

lemma ravel_inject:
  "in_shape ds cs \<Longrightarrow> in_shape ds cs' \<Longrightarrow> ravel ds cs = ravel ds cs' \<longleftrightarrow> cs = cs'"
  by (metis unravel_ravel)

lemma udot_rm_strides: "length cs = length ds \<Longrightarrow> udot cs (rm_strides ds) = ravel ds cs"
proof (induction ds arbitrary: cs)
  case (Cons d ds)
  then show ?case by (cases cs) auto
qed (simp add: udot.elims)

subsection \<open>Positions, innermost dimension last\<close>

lemma udot_append:
  "length cs = length ss \<Longrightarrow> udot (cs @ cs') (ss @ ss') = udot cs ss + udot cs' ss'"
  by (induction cs ss rule: udot.induct) auto

lemma idot_append:
  "length cs = length ss \<Longrightarrow> idot (cs @ cs') (ss @ ss') = idot cs ss + idot cs' ss'"
  by (induction cs ss rule: idot.induct) auto

lemma upos_snoc:
  "length ds = length ss \<Longrightarrow> upos (ds @ [d]) (ss @ [s]) k = upos ds ss (k div d) + (k mod d) * s"
  by (simp add: upos_def unravel_snoc udot_append)

lemma upos_Nil [simp]: "upos [] ss k = 0"
  by (simp add: upos_def)

lemma upos_rm_strides: "k < prod_list ds \<Longrightarrow> upos ds (rm_strides ds) k = k"
  by (simp add: upos_def udot_rm_strides)

lemma idot_map_int: "idot cs (map int ss) = int (udot cs ss)"
  by (induction cs ss rule: udot.induct) auto

lemma idot_conv_sum:
  "length cs = length ss \<Longrightarrow> idot cs ss = (\<Sum>i < length ss. int (cs ! i) * ss ! i)"
proof (induction cs ss rule: idot.induct)
  case (1 c cs s ss)
  then show ?case
    by (simp add: sum.lessThan_Suc_shift del: sum.lessThan_Suc)
qed auto

lemma idot_zero: "idot (replicate n 0) ss = 0"
  by (induction n arbitrary: ss; case_tac ss) auto

end
