(* ===== verification/Tensor_Index.thy ===== *)
theory Tensor_Index
  imports Row_Major
begin

text \<open>
  \<open>ruda-core/src/tensor/indexing/wrapping.rs\<close>: canonicalisation of possibly negative
  indices and the row-major ravelling of a coordinate vector.  An argument of the trait
  \<open>AsIndex\<close> is given by its value \<open>as_index()\<close>, an \<open>isize\<close>.
\<close>

datatype index_kind = Element | Dimension

datatype bounds_error =
    Generic string
  | Index index_kind isize isize isize \<comment> \<open>kind, index, and the bounds \<open>lo..hi\<close>\<close>

record index_wrap =
  iw_kind :: index_kind
  iw_wrap_scalar :: bool

definition IndexWrap_index :: index_wrap where
  "IndexWrap_index = \<lparr>iw_kind = Element, iw_wrap_scalar = False\<rparr>"

definition IndexWrap_dim :: index_wrap where
  "IndexWrap_dim = \<lparr>iw_kind = Dimension, iw_wrap_scalar = False\<rparr>"

definition with_wrap_scalar :: "index_wrap \<Rightarrow> bool \<Rightarrow> index_wrap" where
  "with_wrap_scalar w b = w\<lparr>iw_wrap_scalar := b\<rparr>"

definition try_wrap :: "isize \<Rightarrow> usize \<Rightarrow> index_kind \<Rightarrow> bool \<Rightarrow> (bounds_error + usize) option" where
  "try_wrap source_idx source_size kind wrap_scalar =
     (if \<not> 0 < source_size \<and> \<not> wrap_scalar then Some (Inl (Index kind source_idx 0 0))
      else
        let sz = (if 0 < source_size then source_size else 1) in
        if 0 \<le> source_idx \<and> as_usize source_idx < sz then Some (Inr (as_usize source_idx))
        else do {
          idx \<leftarrow> (if source_idx < 0 then iadd source_idx (as_isize sz) else Some source_idx);
          (if idx < 0 \<or> sz \<le> as_usize idx
           then Some (Inl (Index kind source_idx 0 (as_isize sz)))
           else Some (Inr (as_usize idx)))
        })"

definition expect_wrap :: "isize \<Rightarrow> usize \<Rightarrow> index_kind \<Rightarrow> bool \<Rightarrow> usize option" where
  "expect_wrap idx sz kind wrap_scalar = do {
     r \<leftarrow> try_wrap idx sz kind wrap_scalar;
     (case r of Inl _ \<Rightarrow> None | Inr i \<Rightarrow> Some i)
   }"

definition IndexWrap_try_wrap :: "index_wrap \<Rightarrow> isize \<Rightarrow> usize \<Rightarrow> (bounds_error + usize) option" where
  "IndexWrap_try_wrap w idx sz = try_wrap idx sz (iw_kind w) (iw_wrap_scalar w)"

definition IndexWrap_expect_wrap :: "index_wrap \<Rightarrow> isize \<Rightarrow> usize \<Rightarrow> usize option" where
  "IndexWrap_expect_wrap w idx sz = expect_wrap idx sz (iw_kind w) (iw_wrap_scalar w)"

definition expect_elem :: "isize \<Rightarrow> usize \<Rightarrow> usize option" where
  "expect_elem idx sz = IndexWrap_expect_wrap IndexWrap_index idx sz"

definition expect_dim :: "isize \<Rightarrow> usize \<Rightarrow> usize option" where
  "expect_dim idx sz = IndexWrap_expect_wrap IndexWrap_dim idx sz"

text \<open>
  \<open>wrap_index\<close>: \<open>rem_euclid\<close> by \<open>size as isize\<close>, whose result is never negative; it panics
  when \<open>isize::MIN\<close> is divided by \<open>-1\<close>, the cast of the largest \<open>usize\<close>.
\<close>

definition rem_euclid :: "isize \<Rightarrow> isize \<Rightarrow> isize option" where
  "rem_euclid a b =
     (if b = 0 \<or> (a = - isize_lim \<and> b = -1) then None else Some (a mod \<bar>b\<bar>))"

definition wrap_index :: "isize \<Rightarrow> usize \<Rightarrow> usize option" where
  "wrap_index idx sz =
     (if sz = 0 then Some 0
      else do {
        wrapped \<leftarrow> rem_euclid idx (as_isize sz);
        (if wrapped < 0 then do { w \<leftarrow> iadd wrapped (as_isize sz); Some (as_usize w) }
         else Some (as_usize wrapped))
      })"

definition ravel_index :: "isize list \<Rightarrow> usize list \<Rightarrow> usize option" where
  "ravel_index indices shape = do {
     rassert (length shape = length indices);
     (ravel_idx, stride) \<leftarrow>
       mfold (\<lambda>i (ravel_idx, stride). do {
           dim \<leftarrow> vec_get shape i;
           idx \<leftarrow> vec_get indices i;
           coord \<leftarrow> IndexWrap_expect_wrap IndexWrap_index idx dim;
           t \<leftarrow> umul coord stride;
           ravel_idx' \<leftarrow> uadd ravel_idx t;
           stride' \<leftarrow> umul stride dim;
           Some (ravel_idx', stride')
         }) (rev [0..<length shape]) (0, 1);
     Some ravel_idx
   }"

lemmas index_defs [rust_defs] =
  try_wrap_def expect_wrap_def IndexWrap_index_def IndexWrap_dim_def with_wrap_scalar_def
  IndexWrap_try_wrap_def IndexWrap_expect_wrap_def expect_elem_def expect_dim_def
  rem_euclid_def wrap_index_def ravel_index_def

subsection \<open>Canonical indices\<close>

text \<open>The specification: an index counts from the start, or from the end when negative.\<close>

definition norm_index :: "isize \<Rightarrow> usize \<Rightarrow> usize" where
  "norm_index i n = nat (if i < 0 then i + int n else i)"

lemma as_usize_nonneg: "0 \<le> x \<Longrightarrow> x < isize_lim \<Longrightarrow> as_usize x = nat x"
  by (simp add: as_usize_def)

lemma try_wrap_general:
  assumes "in_isize i" and "0 < sz" and "int sz < isize_lim"
  shows "try_wrap i sz kind b =
    Some (if - int sz \<le> i \<and> i < int sz then Inr (norm_index i sz)
          else Inl (Index kind i 0 (int sz)))"
proof (cases "i < 0")
  case True
  with assms have "in_isize (i + int sz)" by (simp add: in_isize_def)
  with True assms show ?thesis
    by (auto simp: try_wrap_def norm_index_def rust_simps as_usize_nonneg Let_def in_isize_def)
next
  case False
  with assms show ?thesis
    by (auto simp: try_wrap_def norm_index_def rust_simps as_usize_nonneg Let_def in_isize_def)
qed

text \<open>On every dimension of at most \<open>isize::MAX\<close> elements \<open>try_wrap\<close> never panics: it
  accepts exactly the indices of \<open>-size..size\<close>, returning the canonical non-negative index,
  and answers any other index with the error that names the index and the bounds.\<close>

theorem try_wrap_correct:
  assumes "in_isize i" and "0 < sz" and "int sz < isize_lim"
  shows "try_wrap i sz kind b =
    Some (if - int sz \<le> i \<and> i < int sz then Inr (norm_index i sz)
          else Inl (Index kind i 0 (int sz)))"
  using assms by (rule try_wrap_general)

theorem try_wrap_correct_witness:
  "try_wrap (-1) 3 Dimension False = Some (Inr 2) \<and>
   try_wrap (-4) 3 Element False = Some (Inl (Index Element (-4) 0 3))"
  using try_wrap_correct [of "-1" 3 Dimension False] try_wrap_correct [of "-4" 3 Element False]
  by (simp add: in_isize_def isize_lim_def norm_index_def)

lemma expect_elem_ok:
  assumes "- int sz \<le> i" "i < int sz" "int sz < isize_lim"
  shows "IndexWrap_expect_wrap IndexWrap_index i sz = Some (norm_index i sz)"
proof -
  have "in_isize i" "0 < sz" using assms by (auto simp: in_isize_def)
  with assms show ?thesis
    by (simp add: IndexWrap_expect_wrap_def IndexWrap_index_def expect_wrap_def try_wrap_general)
qed

lemma norm_index_less: "- int sz \<le> i \<Longrightarrow> i < int sz \<Longrightarrow> norm_index i sz < sz"
  by (auto simp: norm_index_def)

subsection \<open>Ravelling\<close>

lemma ravel_index_general:
  assumes fit: "fits shape" and dims: "\<forall>d \<in> set shape. int d < isize_lim"
    and len: "length indices = length shape"
    and rng: "\<forall>i < length shape. - int (shape ! i) \<le> indices ! i \<and> indices ! i < int (shape ! i)"
  defines "cs \<equiv> map2 norm_index indices shape"
  shows "ravel_index indices shape = Some (ravel shape cs)" and "in_shape shape cs"
proof -
  show ins: "in_shape shape cs"
    using len rng by (auto simp: cs_def in_shape_iff norm_index_less)
  let ?body = "\<lambda>i (ravel_idx, stride). do {
           dim \<leftarrow> vec_get shape i;
           idx \<leftarrow> vec_get indices i;
           coord \<leftarrow> IndexWrap_expect_wrap IndexWrap_index idx dim;
           t \<leftarrow> umul coord stride;
           ravel_idx' \<leftarrow> uadd ravel_idx t;
           stride' \<leftarrow> umul stride dim;
           Some (ravel_idx', stride')
         }"
  define Q where "Q = (\<lambda>j s. s = (ravel (drop j shape) (drop j cs), prod_list (drop j shape)))"
  have "\<exists>s'. mfold ?body (rev [0..<length shape]) (0, 1) = Some s' \<and> Q 0 s'"
  proof (rule mfold_rev_upt)
    show "Q (length shape) (0, 1)" by (simp add: Q_def)
    fix j s assume j: "j < length shape" and Q: "Q (Suc j) s"
    let ?d = "shape ! j" and ?c = "norm_index (indices ! j) (shape ! j)"
    let ?P = "prod_list (drop (Suc j) shape)" and ?R = "ravel (drop (Suc j) shape) (drop (Suc j) cs)"
    have dj: "drop j shape = ?d # drop (Suc j) shape" "drop j cs = ?c # drop (Suc j) cs"
      using j len Cons_nth_drop_Suc [of j cs]
      by (auto simp: Cons_nth_drop_Suc cs_def)
    have "fits (drop j shape)"
      using fit by (metis append_take_drop_id fits_appendD2)
    then have p: "?d * ?P < usize_lim"
      using dj fits_prod by fastforce
    have "in_shape (drop j shape) (drop j cs)"
      using ins by (rule in_shape_drop)
    then have r: "?c * ?P + ?R < ?d * ?P"
      using ravel_less dj by fastforce
    have c: "IndexWrap_expect_wrap IndexWrap_index (indices ! j) ?d = Some ?c"
      using j rng dims by (intro expect_elem_ok) auto
    show "\<exists>s'. ?body j s = Some s' \<and> Q j s'"
      using j len Q c p r dj
      by (simp add: Q_def rust_simps mult.commute add.commute)
  qed
  then show "ravel_index indices shape = Some (ravel shape cs)"
    using len by (auto simp: ravel_index_def Q_def rassert_ok)
qed

text \<open>Ravelling is the inverse of the row-major enumeration: for every \<open>k\<close> below the
  number of elements, the coordinates of the \<open>k\<close>-th element ravel back to \<open>k\<close>, without
  panicking.\<close>

theorem ravel_index_roundtrip:
  assumes "fits shape" and "\<forall>d \<in> set shape. int d < isize_lim" and "k < prod_list shape"
  shows "ravel_index (map int (unravel shape k)) shape = Some k"
proof -
  let ?cs = "unravel shape k"
  have ins: "in_shape shape ?cs" using assms(3) by (rule in_shape_unravel)
  then have eq: "map2 norm_index (map int ?cs) shape = ?cs"
    by (auto intro!: nth_equalityI simp: norm_index_def)
  have "ravel_index (map int ?cs) shape = Some (ravel shape (map2 norm_index (map int ?cs) shape))"
    using assms(1,2) ins by (intro ravel_index_general) (auto simp: in_shape_iff)
  with assms(3) eq show ?thesis by simp
qed

theorem ravel_index_roundtrip_witness:
  "ravel_index (map int (unravel [2, 3, 4] 17)) [2, 3, 4] = Some 17 \<and> unravel [2, 3, 4] 17 = [1, 1, 1]"
  using ravel_index_roundtrip [of "[2, 3, 4]" 17]
  by (simp add: fits_def usize_lim_def isize_lim_def)

text \<open>\<open>wrap_index\<close> reduces any index into the dimension.\<close>

lemma wrap_index_mod:
  assumes "0 < sz" and "int sz < isize_lim"
  shows "wrap_index i sz = Some (nat (i mod int sz))"
proof -
  have "\<not> i mod int sz < 0" "i mod int sz < isize_lim"
    using assms by (simp_all add: not_less order.strict_trans [OF pos_mod_bound])
  with assms show ?thesis
    by (simp add: wrap_index_def rem_euclid_def rust_simps as_usize_nonneg)
qed

end
