(* ===== verification/Tensor_Shape.thy ===== *)
theory Tensor_Shape
  imports Tensor_Index
begin

text \<open>
  \<open>ruda-core/src/tensor/shape.rs\<close>: shapes and the shape arithmetic of the tensor
  operations.  \<open>Shape\<close> wraps one vector of dimensions and dereferences to it, so it is the
  list of dimensions here.  The formatted text of \<open>MetadataError::Invalid\<close> is represented by
  a constructor per message with the values it prints.
\<close>

type_synonym shape = "usize list"

datatype invalid_reason =
    ShapeEmpty
  | RepeatedInfer
  | NegativeDimension
  | ElementCountDiffers shape shape
  | CannotInfer shape "isize list"

datatype metadata_error =
    RankMismatch usize usize
  | IncompatibleDims usize usize usize
  | OutOfBounds usize usize
  | IncompatibleShapes shape shape
  | Invalid invalid_reason

type_synonym 'a shape_result = "(metadata_error + 'a) option"

subsection \<open>Accessors and edits\<close>

definition num_elements :: "shape \<Rightarrow> usize option" where
  "num_elements self = uproduct self"

definition rank :: "shape \<Rightarrow> usize" where
  "rank self = length self"

text \<open>\<open>dims::<D>()\<close> copies the first \<open>D\<close> dimensions.\<close>

definition dims_array :: "usize \<Rightarrow> shape \<Rightarrow> usize list option" where
  "dims_array D self = sub_slice self 0 D"

definition flatten :: "shape \<Rightarrow> shape option" where
  "flatten self = do { n \<leftarrow> num_elements self; Some [n] }"

definition flatten_dims :: "shape \<Rightarrow> isize \<Rightarrow> isize \<Rightarrow> shape option" where
  "flatten_dims self start_dim end_dim = do {
     start \<leftarrow> expect_dim start_dim (rank self);
     stop \<leftarrow> expect_dim end_dim (rank self);
     rassert (start \<le> stop);
     existing \<leftarrow> sub_slice self start (Suc stop);
     flattened_size \<leftarrow> uproduct existing;
     Some (take start self @ flattened_size # drop (Suc stop) self)
   }"

definition shape_ravel_index :: "shape \<Rightarrow> isize list \<Rightarrow> usize option" where
  "shape_ravel_index self indices = ravel_index indices self"

definition into_ranges :: "shape \<Rightarrow> (usize \<times> usize) list" where
  "into_ranges self = map (\<lambda>d. (0, d)) self"

definition shape_insert :: "shape \<Rightarrow> usize \<Rightarrow> usize \<Rightarrow> shape option" where
  "shape_insert self i n = vec_insert self i n"

definition shape_remove :: "shape \<Rightarrow> usize \<Rightarrow> (usize \<times> shape) option" where
  "shape_remove self i = vec_remove self i"

definition shape_push :: "shape \<Rightarrow> usize \<Rightarrow> shape" where
  "shape_push self n = self @ [n]"

definition shape_extend :: "shape \<Rightarrow> usize list \<Rightarrow> shape" where
  "shape_extend self ns = self @ ns"

definition swapped :: "shape \<Rightarrow> usize \<Rightarrow> usize \<Rightarrow> shape shape_result" where
  "swapped self dim1 dim2 =
     (if rank self \<le> dim1 then Some (Inl (OutOfBounds dim1 (rank self)))
      else if rank self \<le> dim2 then Some (Inl (OutOfBounds dim2 (rank self)))
      else do { d \<leftarrow> vec_swap self dim1 dim2; Some (Inr d) })"

definition permute :: "shape \<Rightarrow> usize list \<Rightarrow> shape shape_result" where
  "permute self axes =
     (if length axes \<noteq> rank self then Some (Inl (RankMismatch (rank self) (length axes)))
      else do {
        rassert (\<forall>i \<in> set axes. i < rank self);
        d \<leftarrow> mmap (vec_get self) axes;
        Some (Inr d)
      })"

definition repeat :: "shape \<Rightarrow> usize \<Rightarrow> usize \<Rightarrow> shape shape_result" where
  "repeat self dim n_times =
     (if rank self \<le> dim then Some (Inl (OutOfBounds dim (rank self)))
      else do { d \<leftarrow> umul (self ! dim) n_times; Some (Inr (self[dim := d])) })"

definition reduce :: "shape \<Rightarrow> usize \<Rightarrow> shape shape_result" where
  "reduce self dim =
     (if rank self \<le> dim then Some (Inl (OutOfBounds dim (rank self)))
      else Some (Inr (self[dim := 1])))"

subsection \<open>Concatenation\<close>

fun cat_loop :: "usize \<Rightarrow> shape \<Rightarrow> shape list \<Rightarrow> shape shape_result" where
  "cat_loop dim shape [] = Some (Inr shape)"
| "cat_loop dim shape (s # iter) =
     (if rank s \<noteq> rank shape then Some (Inl (RankMismatch (rank shape) (rank s)))
      else if take dim s \<noteq> take dim shape \<or> drop (Suc dim) s \<noteq> drop (Suc dim) shape
      then Some (Inl (IncompatibleShapes shape s))
      else do { d \<leftarrow> uadd (shape ! dim) (s ! dim); cat_loop dim (shape[dim := d]) iter })"

definition cat :: "shape list \<Rightarrow> usize \<Rightarrow> shape shape_result" where
  "cat shapes dim =
     (case shapes of
        [] \<Rightarrow> Some (Inl (Invalid ShapeEmpty))
      | first # iter \<Rightarrow>
          if rank first \<le> dim then Some (Inl (OutOfBounds dim (rank first)))
          else cat_loop dim first iter)"

subsection \<open>Broadcasting\<close>

text \<open>The inner loop over one more shape, from dimension \<open>dim\<close> on.\<close>

fun broadcast_dims :: "usize \<Rightarrow> usize list \<Rightarrow> usize list \<Rightarrow> metadata_error + usize list" where
  "broadcast_dims dim (a # lhs) (b # rhs) =
     (if a = b then map_sum id ((#) a) (broadcast_dims (Suc dim) lhs rhs)
      else if a = 1 then map_sum id ((#) b) (broadcast_dims (Suc dim) lhs rhs)
      else if b = 1 then map_sum id ((#) a) (broadcast_dims (Suc dim) lhs rhs)
      else Inl (IncompatibleDims a b dim))"
| "broadcast_dims dim lhs rhs = Inr lhs"

fun broadcast_loop :: "shape \<Rightarrow> shape list \<Rightarrow> metadata_error + shape" where
  "broadcast_loop broadcasted [] = Inr broadcasted"
| "broadcast_loop broadcasted (shape # iter) =
     (if rank shape \<noteq> rank broadcasted
      then Inl (RankMismatch (rank broadcasted) (rank shape))
      else (case broadcast_dims 0 broadcasted shape of
              Inl e \<Rightarrow> Inl e
            | Inr b \<Rightarrow> broadcast_loop b iter))"

definition broadcast_many :: "shape list \<Rightarrow> metadata_error + shape" where
  "broadcast_many shapes =
     (case shapes of [] \<Rightarrow> Inl (Invalid ShapeEmpty) | s # iter \<Rightarrow> broadcast_loop s iter)"

definition broadcast :: "shape \<Rightarrow> shape \<Rightarrow> metadata_error + shape" where
  "broadcast self other = broadcast_many [self, other]"

text \<open>\<open>expand\<close>: the zipped reversed dimensions are visited from the last one; \<open>i\<close> counts them.\<close>

fun expand_loop :: "usize \<Rightarrow> usize \<Rightarrow> (usize \<times> usize) list \<Rightarrow> metadata_error option" where
  "expand_loop target_rank i [] = None"
| "expand_loop target_rank i ((dim_target, dim_self) # rest) =
     (if dim_self \<noteq> dim_target \<and> dim_self \<noteq> 1
      then Some (IncompatibleDims dim_self dim_target (target_rank - i - 1))
      else expand_loop target_rank (Suc i) rest)"

definition expand :: "shape \<Rightarrow> shape \<Rightarrow> metadata_error + shape" where
  "expand self target =
     (if rank target < rank self then Inl (RankMismatch (rank self) (rank target))
      else (case expand_loop (rank target) 0 (zip (rev target) (rev self)) of
              Some e \<Rightarrow> Inl e
            | None \<Rightarrow> Inr target))"

subsection \<open>Reshape\<close>

text \<open>
  The loop over the requested dimensions, with the state \<open>(infer_index, dims, new_size)\<close>:
  a positive size is taken, 0 copies the dimension at the same index, one -1 is left to be
  inferred.
\<close>

type_synonym reshape_state = "usize option \<times> usize list \<times> usize"

fun reshape_loop :: "shape \<Rightarrow> usize \<Rightarrow> isize list \<Rightarrow> reshape_state \<Rightarrow> reshape_state shape_result" where
  "reshape_loop self idx [] st = Some (Inr st)"
| "reshape_loop self idx (s # args) (infer_index, dims, new_size) =
     (if 0 < s then do {
        new_size' \<leftarrow> umul new_size (as_usize s);
        reshape_loop self (Suc idx) args (infer_index, dims @ [as_usize s], new_size')
      }
      else if s = 0 then do {
        d \<leftarrow> vec_get self idx;
        new_size' \<leftarrow> umul new_size d;
        reshape_loop self (Suc idx) args (infer_index, dims @ [d], new_size')
      }
      else if s = -1 then
        (case infer_index of
           None \<Rightarrow> reshape_loop self (Suc idx) args (Some idx, dims @ [1], new_size)
         | Some _ \<Rightarrow> Some (Inl (Invalid RepeatedInfer)))
      else Some (Inl (Invalid NegativeDimension)))"

text \<open>\<open>n.is_multiple_of(0)\<close> is \<open>n == 0\<close>; the division by \<open>new_size\<close> panics on 0.\<close>

definition reshape :: "shape \<Rightarrow> isize list \<Rightarrow> shape shape_result" where
  "reshape self args = try_op (reshape_loop self 0 args (None, [], 1)) (\<lambda>(infer_index, dims, new_size). do {
     source_size \<leftarrow> num_elements self;
     (case infer_index of
        None \<Rightarrow>
          if source_size \<noteq> new_size then Some (Inl (Invalid (ElementCountDiffers self dims)))
          else Some (Inr dims)
      | Some idx \<Rightarrow>
          if \<not> new_size dvd source_size then Some (Inl (Invalid (CannotInfer self args)))
          else if new_size = 0 then None
          else do { dims' \<leftarrow> vec_set dims idx (source_size div new_size); Some (Inr dims') })
   })"

subsection \<open>Matrix multiplication\<close>

definition calculate_matmul_output :: "shape \<Rightarrow> shape \<Rightarrow> shape shape_result" where
  "calculate_matmul_output lhs rhs =
     (let r = rank lhs in
      if r \<noteq> rank rhs then Some (Inl (RankMismatch r (rank rhs)))
      else do {
        r1 \<leftarrow> usub r 1;
        lhs_k \<leftarrow> vec_get lhs r1;
        r2 \<leftarrow> usub r 2;
        rhs_k \<leftarrow> vec_get rhs r2;
        (if lhs_k \<noteq> rhs_k then Some (Inl (IncompatibleShapes lhs rhs))
         else (case (if 2 < r then broadcast (take r2 lhs) (take r2 rhs) else Inr []) of
                 Inl e \<Rightarrow> Some (Inl e)
               | Inr shape \<Rightarrow> do {
                   m \<leftarrow> vec_get lhs r2;
                   n \<leftarrow> vec_get rhs r1;
                   Some (Inr (shape_extend shape [m, n]))
                 }))
      })"

lemmas shape_defs [rust_defs] =
  num_elements_def rank_def dims_array_def flatten_def flatten_dims_def shape_ravel_index_def
  into_ranges_def shape_insert_def shape_remove_def shape_push_def shape_extend_def swapped_def
  permute_def repeat_def reduce_def cat_def broadcast_many_def broadcast_def expand_def
  reshape_def calculate_matmul_output_def

subsection \<open>Broadcasting is a least upper bound\<close>

text \<open>\<open>expands a b\<close>: a tensor of shape \<open>a\<close> can be read as one of the same rank with shape \<open>b\<close>.\<close>

definition expands :: "shape \<Rightarrow> shape \<Rightarrow> bool" where
  "expands = list_all2 (\<lambda>a b. a = b \<or> a = 1)"

lemma expands_Nil [simp]: "expands [] u \<longleftrightarrow> u = []"
  and expands_Cons: "expands (a # s) u \<longleftrightarrow> (\<exists>v us. u = v # us \<and> (a = v \<or> a = 1) \<and> expands s us)"
  by (auto simp: expands_def list_all2_Cons1)

lemma expands_Cons_Cons [simp]: "expands (a # s) (b # t) \<longleftrightarrow> (a = b \<or> a = 1) \<and> expands s t"
  by (simp add: expands_def)

lemma expands_length: "expands s t \<Longrightarrow> length s = length t"
  unfolding expands_def by (rule list_all2_lengthD)

lemma expand_loop_None:
  "expand_loop r i ps = None \<longleftrightarrow> (\<forall>(t, s) \<in> set ps. s = t \<or> s = 1)"
  by (induction r i ps rule: expand_loop.induct) auto

lemma expand_Inr_iff:
  "expand s t = Inr u \<longleftrightarrow>
   u = t \<and> length s \<le> length t \<and> expands s (drop (length t - length s) t)"
proof (cases "length s \<le> length t")
  case True
  let ?t = "drop (length t - length s) t"
  have t: "rev t = rev ?t @ rev (take (length t - length s) t)"
    by (metis append_take_drop_id rev_append)
  have "zip (rev t) (rev s) = zip (rev ?t) (rev s)"
    using True by (subst t) (simp add: zip_append1)
  also have "\<dots> = rev (zip ?t s)"
    using True by (simp add: zip_rev)
  finally have z: "set (zip (rev t) (rev s)) = set (zip ?t s)" by simp
  have "(\<forall>(t, s) \<in> set (zip ?t s). s = t \<or> s = 1) \<longleftrightarrow> expands s ?t"
    using True by (fastforce simp: expands_def list_all2_iff set_zip)
  then have "expand_loop (length t) 0 (zip (rev t) (rev s)) = None \<longleftrightarrow> expands s ?t"
    by (simp only: expand_loop_None z)
  with True show ?thesis
    by (cases "expand_loop (length t) 0 (zip (rev t) (rev s))") (auto simp: expand_def rank_def)
qed (simp add: expand_def rank_def)

lemma expand_same_rank: "length s = length t \<Longrightarrow> expand s t = Inr t \<longleftrightarrow> expands s t"
  by (simp add: expand_Inr_iff)

lemma expands_refl: "expands s s"
  by (simp add: expands_def list_all2_same)

lemma expands_trans: "expands a b \<Longrightarrow> expands b c \<Longrightarrow> expands a c"
  unfolding expands_def by (erule (1) list_all2_trans [rotated]) auto

lemma broadcast_dims_upper:
  "length a = length b \<Longrightarrow> broadcast_dims i a b = Inr c \<Longrightarrow> expands a c \<and> expands b c"
proof (induction i a b arbitrary: c rule: broadcast_dims.induct)
  case (1 dim a lhs b rhs)
  then show ?case
    by (cases "broadcast_dims (Suc dim) lhs rhs") (auto split: if_splits)
qed auto

lemma broadcast_dims_least:
  "expands a u \<Longrightarrow> expands b u \<Longrightarrow> \<exists>c. broadcast_dims i a b = Inr c \<and> expands c u"
proof (induction i a b arbitrary: u rule: broadcast_dims.induct)
  case (1 dim a lhs b rhs)
  from "1.prems" obtain v us where u: "u = v # us" "expands lhs us" "expands rhs us"
    and v: "a = v \<or> a = 1" "b = v \<or> b = 1"
    by (auto simp: expands_Cons)
  consider "a = b" | "a \<noteq> b" "a = 1" | "a \<noteq> b" "a \<noteq> 1" "b = 1" using v by auto
  then show ?case
  proof cases
    case 1
    with "1.IH"(1) u v show ?thesis by fastforce
  next
    case 2
    with "1.IH"(2) u v show ?thesis by fastforce
  next
    case 3
    with "1.IH"(3) u v show ?thesis by fastforce
  qed
qed (auto simp: expands_Cons)

lemma broadcast_loop_upper:
  "broadcast_loop b ss = Inr t \<Longrightarrow> expands b t \<and> (\<forall>s \<in> set ss. expands s t)"
proof (induction b ss rule: broadcast_loop.induct)
  case (2 b s ss)
  then obtain c where c: "length s = length b" "broadcast_dims 0 b s = Inr c" "broadcast_loop c ss = Inr t"
    by (auto simp: rank_def split: if_splits sum.splits)
  with "2.IH" have "expands c t" "\<forall>s \<in> set ss. expands s t"
    by (auto simp: rank_def)
  with broadcast_dims_upper [of b s 0 c] c show ?case
    by (auto intro: expands_trans)
qed (simp add: expands_refl)

lemma broadcast_loop_least:
  "expands b u \<Longrightarrow> \<forall>s \<in> set ss. expands s u \<Longrightarrow> \<exists>t. broadcast_loop b ss = Inr t \<and> expands t u"
proof (induction b ss rule: broadcast_loop.induct)
  case (2 b s ss)
  from "2.prems" have len: "length s = length b"
    using expands_length by fastforce
  obtain c where c: "broadcast_dims 0 b s = Inr c" "expands c u"
    using broadcast_dims_least [of b u s 0] "2.prems" by auto
  with "2.IH" [of c] "2.prems" len show ?case
    by (auto simp: rank_def)
qed simp

text \<open>C40. Broadcasting several shapes of one rank computes their least upper bound in the
  order given by \<open>expand\<close>: a shape \<open>u\<close> of that rank is reachable from every input by \<open>expand\<close>
  exactly when \<open>broadcast_many\<close> succeeds and its result expands to \<open>u\<close>.\<close>

theorem broadcast_many_least_upper_bound:
  assumes "ss \<noteq> []" and "\<forall>s \<in> set ss. rank s = rank u"
  shows "(\<forall>s \<in> set ss. expand s u = Inr u) \<longleftrightarrow>
         (\<exists>t. broadcast_many ss = Inr t \<and> rank t = rank u \<and> expand t u = Inr u)"
proof -
  from assms(1) obtain b bs where ss: "ss = b # bs" by (cases ss) auto
  have exp: "\<And>s. rank s = rank u \<Longrightarrow> expand s u = Inr u \<longleftrightarrow> expands s u"
    by (simp add: expand_same_rank rank_def)
  show ?thesis
  proof
    assume "\<forall>s \<in> set ss. expand s u = Inr u"
    then obtain t where t: "broadcast_loop b bs = Inr t" "expands t u"
      using assms(2) exp broadcast_loop_least [of b u bs] by (auto simp: ss)
    then have "rank t = rank u" by (auto simp: rank_def dest: expands_length)
    with t exp show "\<exists>t. broadcast_many ss = Inr t \<and> rank t = rank u \<and> expand t u = Inr u"
      by (auto simp: broadcast_many_def ss)
  next
    assume "\<exists>t. broadcast_many ss = Inr t \<and> rank t = rank u \<and> expand t u = Inr u"
    then obtain t where "broadcast_loop b bs = Inr t" "expands t u"
      using exp by (auto simp: broadcast_many_def ss)
    with broadcast_loop_upper [of b bs t] exp assms(2) show "\<forall>s \<in> set ss. expand s u = Inr u"
      by (auto simp: ss intro: expands_trans)
  qed
qed

theorem broadcast_many_least_upper_bound_witness:
  "broadcast_many [[1, 3], [2, 1], [2, 3]] = Inr [2, 3] \<and> expand [1, 3] [2, 3] = Inr [2, 3] \<and>
   ((\<forall>s \<in> set [[1, 3], [2, 1]]. expand s [2, 3] = Inr [2, 3]) \<longleftrightarrow>
    (\<exists>t. broadcast_many [[1, 3], [2, 1]] = Inr t \<and> rank t = rank [2, 3] \<and> expand t [2, 3] = Inr [2, 3]))"
  using broadcast_many_least_upper_bound [of "[[1, 3], [2, 1]]" "[2, 3]"]
  by (simp add: rust_defs)

subsection \<open>Reshape\<close>

lemma uproduct_SomeD: "uproduct xs = Some n \<Longrightarrow> n = prod_list xs"
proof -
  have "mfold (\<lambda>x acc. umul acc x) xs a = Some n \<Longrightarrow> n = a * prod_list xs" for a
    by (induction xs arbitrary: a) (fastforce split: bind_splits simp: mult.assoc)+
  from this [of 1] show "uproduct xs = Some n \<Longrightarrow> n = prod_list xs"
    by (simp add: uproduct_def)
qed

text \<open>What the loop has established about the dimensions it collected.\<close>

definition reshape_dim_ok :: "shape \<Rightarrow> isize \<Rightarrow> usize \<Rightarrow> usize \<Rightarrow> bool" where
  "reshape_dim_ok self a i d \<longleftrightarrow> (0 < a \<longrightarrow> d = as_usize a) \<and> (a = 0 \<longrightarrow> i < length self \<and> d = self ! i)"

lemma reshape_loop_Inr:
  assumes "reshape_loop self (length dims) args (infer, dims, n) = Some (Inr (infer', dims', n'))"
    and "n = prod_list dims" and "\<And>i. infer = Some i \<Longrightarrow> i < length dims \<and> dims ! i = 1"
  shows "\<exists>ds. dims' = dims @ ds \<and> length ds = length args \<and> n' = prod_list dims' \<and>
    (\<forall>i < length args. reshape_dim_ok self (args ! i) (length dims + i) (ds ! i)) \<and>
    (\<forall>i. infer' = Some i \<longrightarrow> i < length dims' \<and> dims' ! i = 1 \<and>
       (infer = Some i \<or> length dims \<le> i \<and> args ! (i - length dims) = -1))"
  using assms
proof (induction args arbitrary: dims infer n)
  case (Cons a args)
  have step: "?case" if
    call: "reshape_loop self (length (dims @ [d])) args (infer1, dims @ [d], n1) = Some (Inr (infer', dims', n'))"
    and n1: "n1 = prod_list (dims @ [d])" and ok: "reshape_dim_ok self a (length dims) d"
    and i1: "\<And>i. infer1 = Some i \<Longrightarrow> i < length (dims @ [d]) \<and> (dims @ [d]) ! i = 1"
    and i0: "\<And>i. infer1 = Some i \<Longrightarrow> infer = Some i \<or> (i = length dims \<and> a = -1)" for d n1 infer1
  proof -
    from Cons.IH [OF call n1 i1] obtain ds where ds:
      "dims' = (dims @ [d]) @ ds" "length ds = length args" "n' = prod_list dims'"
      "\<forall>i < length args. reshape_dim_ok self (args ! i) (length (dims @ [d]) + i) (ds ! i)"
      "\<forall>i. infer' = Some i \<longrightarrow> i < length dims' \<and> dims' ! i = 1 \<and>
         (infer1 = Some i \<or> length (dims @ [d]) \<le> i \<and> args ! (i - length (dims @ [d])) = -1)"
      by blast
    have "\<forall>i. infer' = Some i \<longrightarrow> i < length dims' \<and> dims' ! i = 1 \<and>
         (infer = Some i \<or> length dims \<le> i \<and> (a # args) ! (i - length dims) = -1)"
      using ds(5) i0 by (auto simp: nth_Cons split: nat.splits)
         (metis Suc_diff_le diff_Suc_Suc nat.inject)+
    then show ?thesis
      using ds ok by (intro exI [of _ "d # ds"]) (auto simp: nth_Cons split: nat.splits)
  qed
  from Cons.prems(1) consider (pos) "0 < a" | (zero) "a = 0" | (infer) "a = -1" "infer = None"
    by (auto split: if_splits option.splits)
  then show ?case
  proof cases
    case pos
    with Cons.prems show ?thesis
      by (intro step [of "as_usize a" infer]) (auto split: bind_splits simp: reshape_dim_ok_def nth_append)
  next
    case zero
    with Cons.prems show ?thesis
      by (intro step [of "self ! length dims" infer])
         (auto split: bind_splits simp: reshape_dim_ok_def nth_append)
  next
    case infer
    with Cons.prems show ?thesis
      by (intro step [of 1 "Some (length dims)"]) (auto simp: reshape_dim_ok_def nth_append)
  qed
qed auto

lemma prod_list_update1:
  "i < length ds \<Longrightarrow> ds ! i = 1 \<Longrightarrow> prod_list (ds[i := d]) = prod_list ds * (d::nat)"
  by (induction ds arbitrary: i) (auto simp: nth_Cons split: nat.splits)

lemma reshape_Inr:
  assumes "reshape self args = Some (Inr t)"
  shows "prod_list t = prod_list self" and "length t = length args"
    and "\<forall>i < length args. (0 < args ! i \<longrightarrow> t ! i = as_usize (args ! i)) \<and>
           (args ! i = 0 \<longrightarrow> i < length self \<and> t ! i = self ! i)"
proof -
  from assms obtain infer dims n m where
    loop: "reshape_loop self (length ([]::nat list)) args (None, [], 1) = Some (Inr (infer, dims, n))"
    and m: "uproduct self = Some m"
    and res: "case infer of None \<Rightarrow> m = n \<and> t = dims
      | Some i \<Rightarrow> n dvd m \<and> n \<noteq> 0 \<and> i < length dims \<and> t = dims[i := m div n]"
    by (auto simp: reshape_def try_op_def num_elements_def split: bind_splits sum.splits option.splits if_splits)
  from reshape_loop_Inr [OF loop] have
    d: "length dims = length args" "n = prod_list dims"
       "\<And>i. i < length args \<Longrightarrow> reshape_dim_ok self (args ! i) i (dims ! i)"
       "\<And>i. infer = Some i \<Longrightarrow> i < length dims \<and> dims ! i = 1 \<and> args ! i = -1"
    by auto
  have mp: "m = prod_list self" using m by (rule uproduct_SomeD)
  show "prod_list t = prod_list self"
    using res d mp by (auto split: option.splits simp: prod_list_update1)
  show "length t = length args"
    using res d by (auto split: option.splits)
  show "\<forall>i < length args. (0 < args ! i \<longrightarrow> t ! i = as_usize (args ! i)) \<and>
           (args ! i = 0 \<longrightarrow> i < length self \<and> t ! i = self ! i)"
    using res d(1,3,4) by (auto split: option.splits simp: reshape_dim_ok_def nth_list_update)
qed

text \<open>A successful \<open>reshape\<close> keeps the number of elements, has one dimension per argument,
  and honours the arguments: a positive one is the dimension itself, 0 is the dimension of the
  source at that index.\<close>

theorem reshape_sound:
  assumes "reshape self args = Some (Inr t)"
  shows "prod_list t = prod_list self \<and> length t = length args \<and>
    (\<forall>i < length args. (0 < args ! i \<longrightarrow> t ! i = as_usize (args ! i)) \<and>
       (args ! i = 0 \<longrightarrow> i < length self \<and> t ! i = self ! i))"
  using reshape_Inr [OF assms] by blast

theorem reshape_sound_witness:
  "reshape [2, 3, 4] [0, -1, 2] = Some (Inr [2, 6, 2]) \<and>
   prod_list [2, 6, 2] = prod_list [2, 3, 4::nat]"
proof -
  have e: "reshape [2, 3, 4] [0, -1, 2] = Some (Inr [2, 6, 2])"
    by (simp add: rust_defs try_op_def uproduct_def)
  from reshape_sound [OF e] e show ?thesis by simp
qed

lemma reshape_loop_positive:
  assumes "\<forall>a \<in> set args. 0 < a \<and> a < isize_lim"
    and "n * nz_prod (map nat args) < usize_lim"
  shows "reshape_loop self i args (infer, dims, n) =
    Some (Inr (infer, dims @ map nat args, n * prod_list (map nat args)))"
  using assms
proof (induction args arbitrary: i dims n)
  case (Cons a args)
  have "max 1 (nat a) = nat a" using Cons.prems(1) by (auto simp: max_def)
  then have *: "n * nat a * nz_prod (map nat args) < usize_lim"
    using Cons.prems(2) by (simp add: mult.assoc)
  then have "n * nat a < usize_lim" by (rule factor_lt) simp
  with * Cons show ?case
    by (simp add: as_usize_nonneg umul_ok mult.assoc)
qed simp

text \<open>Reshaping to explicit positive sizes succeeds exactly when the element counts agree.\<close>

lemma reshape_explicit:
  assumes "\<forall>a \<in> set args. 0 < a \<and> a < isize_lim" and "fits (map nat args)" and "fits self"
  shows "reshape self args = Some (if prod_list (map nat args) = prod_list self then Inr (map nat args)
      else Inl (Invalid (ElementCountDiffers self (map nat args))))"
  using assms reshape_loop_positive [of args 1 self 0 None "[]"]
  by (auto simp: reshape_def try_op_def num_elements_def rust_simps fits_def)

text \<open>Inferring a dimension of an empty tensor panics: keeping a dimension of size 0 and asking
  for -1 passes the divisibility test, since 0 is a multiple of 0, and then divides by 0,
  although the function reports its other failures as errors.\<close>

theorem reshape_empty_infer_panics:
  assumes "fits self"
  shows "reshape (0 # self) [0, -1] = None"
proof -
  have "fits (0 # self)" using assms by (simp add: fits_def)
  then have "uproduct (0 # self) = Some 0" using uproduct_fits by fastforce
  then show ?thesis
    by (simp add: reshape_def try_op_def num_elements_def rust_defs)
qed

theorem reshape_empty_infer_panics_witness: "reshape [0, 3] [0, -1] = None"
  using reshape_empty_infer_panics [of "[3]"] by (simp add: fits_def usize_lim_def)

subsection \<open>Concatenation, permutation and matrix multiplication\<close>

lemma cat_loop_Inr:
  assumes "cat_loop dim b ss = Some (Inr t)" and "dim < length b"
  shows "length t = length b \<and> take dim t = take dim b \<and> drop (Suc dim) t = drop (Suc dim) b \<and>
    t ! dim = b ! dim + (\<Sum>s \<leftarrow> ss. s ! dim) \<and>
    (\<forall>s \<in> set ss. length s = length b \<and> take dim s = take dim b \<and> drop (Suc dim) s = drop (Suc dim) b)"
  using assms
proof (induction ss arbitrary: b)
  case (Cons s ss)
  then have s: "length s = length b" "take dim s = take dim b" "drop (Suc dim) s = drop (Suc dim) b"
    and rec: "cat_loop dim (b[dim := b ! dim + s ! dim]) ss = Some (Inr t)"
    by (auto simp: rank_def split: if_splits bind_splits)
  from Cons.IH [OF rec] Cons.prems(2) s show ?case
    by simp
qed simp

text \<open>The extent of a concatenation: the number of elements adds up along the dimension.\<close>

lemma prod_list_split: "dim < length s \<Longrightarrow> prod_list s = prod_list (take dim s) * (s ! dim) * prod_list (drop (Suc dim) (s :: nat list))"
  by (metis id_take_nth_drop mult.assoc prod_list.Cons prod_list.append)

text \<open>\<open>cat\<close> of shapes along \<open>dim\<close>: the result differs from every input at \<open>dim\<close> only, its
  extent there is the sum of theirs, and its number of elements is the sum of the numbers of
  elements of the inputs.\<close>

theorem cat_sound:
  assumes "cat ss dim = Some (Inr t)"
  shows "dim < rank t \<and> t ! dim = (\<Sum>s \<leftarrow> ss. s ! dim) \<and>
    (\<forall>s \<in> set ss. rank s = rank t \<and> (\<forall>i < rank t. i \<noteq> dim \<longrightarrow> s ! i = t ! i)) \<and>
    prod_list t = (\<Sum>s \<leftarrow> ss. prod_list s)"
proof -
  from assms obtain b bs where ss: "ss = b # bs" and dim: "dim < length b"
    and loop: "cat_loop dim b bs = Some (Inr t)"
    by (auto simp: cat_def rank_def split: list.splits if_splits)
  note r = cat_loop_Inr [OF loop dim]
  have tails: "\<forall>s \<in> set ss. length s = length t \<and> take dim s = take dim t \<and> drop (Suc dim) s = drop (Suc dim) t"
    using r by (auto simp: ss)
  have sum: "t ! dim = (\<Sum>s \<leftarrow> ss. s ! dim)" using r by (simp add: ss)
  have nth: "s ! i = t ! i" if "s \<in> set ss" "i < length t" "i \<noteq> dim" for s i
  proof -
    have "s = take dim t @ s ! dim # drop (Suc dim) t"
      using tails that(1) dim r id_take_nth_drop [of dim s] by simp
    moreover have "t = take dim t @ t ! dim # drop (Suc dim) t"
      using dim r by (intro id_take_nth_drop) simp
    ultimately show ?thesis
      using that(2,3) by (metis (no_types, lifting) nth_append nth_Cons' diff_is_0_eq length_take
          less_imp_le_nat linorder_neqE_nat min_def not_le zero_less_diff)
  qed
  have "(\<Sum>s \<leftarrow> ss. prod_list s) = (\<Sum>s \<leftarrow> ss. prod_list (take dim t) * (s ! dim) * prod_list (drop (Suc dim) t))"
    using tails dim r by (intro arg_cong [of _ _ sum_list] map_cong) (auto simp: prod_list_split [of dim])
  also have "\<dots> = prod_list (take dim t) * (\<Sum>s \<leftarrow> ss. s ! dim) * prod_list (drop (Suc dim) t)"
    by (simp add: sum_list_const_mult sum_list_mult_const)
  also have "\<dots> = prod_list t"
    using sum prod_list_split [of dim t] r dim by simp
  finally have "prod_list t = (\<Sum>s \<leftarrow> ss. prod_list s)" by simp
  with sum tails nth dim r show ?thesis by (simp add: rank_def)
qed

theorem cat_sound_witness:
  "cat [[2, 3], [2, 5]] 1 = Some (Inr [2, 8]) \<and> [2, 8::nat] ! 1 = (\<Sum>s \<leftarrow> [[2, 3], [2, 5]]. s ! 1)"
proof -
  have e: "cat [[2, 3], [2, 5]] 1 = Some (Inr [2, 8])"
    by (simp add: rust_defs)
  from cat_sound [OF e] e show ?thesis by simp
qed

lemma permute_Inr: "permute self axes = Some (Inr t) \<longleftrightarrow>
  length axes = length self \<and> (\<forall>i \<in> set axes. i < length self) \<and> t = map (nth self) axes"
proof (cases "length axes = length self \<and> (\<forall>i \<in> set axes. i < length self)")
  case True
  then have "mmap (vec_get self) axes = Some (map (nth self) axes)"
    by (intro mmap_pure) (simp add: vec_get_def)
  with True have "permute self axes = Some (Inr (map (nth self) axes))"
    by (simp add: permute_def rank_def rassert_def)
  with True show ?thesis by (simp add: eq_commute)
next
  case False
  then have "permute self axes \<noteq> Some (Inr t)"
    by (auto simp: permute_def rank_def rassert_def)
  with False show ?thesis by blast
qed

lemma matmul_output:
  assumes "length lhs = length rhs" and "2 \<le> length lhs"
  shows "calculate_matmul_output lhs rhs = Some
    (let r = length lhs in
     if lhs ! (r - 1) \<noteq> rhs ! (r - 2) then Inl (IncompatibleShapes lhs rhs)
     else map_sum id (\<lambda>b. b @ [lhs ! (r - 2), rhs ! (r - 1)])
            (if r = 2 then Inr [] else broadcast (take (r - 2) lhs) (take (r - 2) rhs)))"
  using assms
  by (auto simp: calculate_matmul_output_def rank_def Let_def rust_simps shape_extend_def
      split: sum.splits)

end
