(* ===== verification/Tensor_Slice.thy ===== *)
theory Tensor_Slice
  imports Tensor_Shape
begin

text \<open>
  Slice specifications: the directory \<open>ruda-core/src/tensor/slice\<close>.  Strings are lists of
  ASCII characters; \<open>isize\<close> parsing and printing are those of the Rust standard library.
\<close>

record slice =
  sl_start :: isize
  sl_end :: "isize option"
  sl_step :: isize

subsection \<open>Construction\<close>

definition Slice_new :: "isize \<Rightarrow> isize option \<Rightarrow> isize \<Rightarrow> slice option" where
  "Slice_new start end' step = do {
     rassert (step \<noteq> 0);
     Some \<lparr>sl_start = start, sl_end = end', sl_step = step\<rparr>
   }"

definition Slice_full :: "slice option" where
  "Slice_full = Slice_new 0 None 1"

definition handle_signed_inclusive_end :: "isize \<Rightarrow> isize option option" where
  "handle_signed_inclusive_end end' =
     (if end' = -1 then Some None else do { e \<leftarrow> iadd end' 1; Some (Some e) })"

definition Slice_index :: "isize \<Rightarrow> slice option" where
  "Slice_index idx = do {
     e \<leftarrow> handle_signed_inclusive_end idx;
     Some \<lparr>sl_start = idx, sl_end = e, sl_step = 1\<rparr>
   }"

definition with_step :: "isize \<Rightarrow> isize option \<Rightarrow> isize \<Rightarrow> slice option" where
  "with_step start end' step = do {
     rassert (step \<noteq> 0);
     Some \<lparr>sl_start = start, sl_end = end', sl_step = step\<rparr>
   }"

definition from_range_stepped :: "slice \<Rightarrow> isize \<Rightarrow> slice option" where
  "from_range_stepped rng step = do {
     rassert (step \<noteq> 0);
     Some (rng\<lparr>sl_step := step\<rparr>)
   }"

definition is_reversed :: "slice \<Rightarrow> bool" where
  "is_reversed self \<longleftrightarrow> sl_step self < 0"

definition bound_to :: "slice \<Rightarrow> usize \<Rightarrow> slice option" where
  "bound_to self sz = do {
     let bounds = as_isize sz;
     bounds' \<leftarrow>
       (case sl_end self of
          Some e \<Rightarrow>
            if 0 < e then Some (min e bounds)
            else do { b \<leftarrow> iadd bounds 1; b' \<leftarrow> ineg b; Some (max e b') }
        | None \<Rightarrow>
            if is_reversed self then do { b \<leftarrow> iadd bounds 1; ineg b }
            else Some bounds);
     Some (self\<lparr>sl_end := Some bounds'\<rparr>)
   }"

text \<open>The \<open>From\<close> conversions of the range types and of an index.\<close>

definition from_range :: "isize \<Rightarrow> isize \<Rightarrow> slice" where
  "from_range a b = \<lparr>sl_start = a, sl_end = Some b, sl_step = 1\<rparr>"

definition from_range_inclusive :: "isize \<Rightarrow> isize \<Rightarrow> slice option" where
  "from_range_inclusive a b = do {
     e \<leftarrow> handle_signed_inclusive_end b;
     Some \<lparr>sl_start = a, sl_end = e, sl_step = 1\<rparr>
   }"

definition from_range_from :: "isize \<Rightarrow> slice" where
  "from_range_from a = \<lparr>sl_start = a, sl_end = None, sl_step = 1\<rparr>"

definition from_range_to :: "isize \<Rightarrow> slice" where
  "from_range_to b = \<lparr>sl_start = 0, sl_end = Some b, sl_step = 1\<rparr>"

definition from_range_to_inclusive :: "isize \<Rightarrow> slice option" where
  "from_range_to_inclusive b = do {
     e \<leftarrow> handle_signed_inclusive_end b;
     Some \<lparr>sl_start = 0, sl_end = e, sl_step = 1\<rparr>
   }"

definition from_range_full :: slice where
  "from_range_full = \<lparr>sl_start = 0, sl_end = None, sl_step = 1\<rparr>"

definition from_usize :: "usize \<Rightarrow> slice option" where
  "from_usize i = Slice_index (as_isize i)"

subsection \<open>Ranges and sizes\<close>

definition convert_signed_index :: "isize \<Rightarrow> usize \<Rightarrow> usize option" where
  "convert_signed_index index sz =
     (if index < 0 then do { x \<leftarrow> iadd (as_isize sz) index; Some (as_usize (max x 0)) }
      else Some (min (as_usize index) sz))"

definition to_range :: "slice \<Rightarrow> usize \<Rightarrow> (usize \<times> usize) option" where
  "to_range self sz = do {
     start \<leftarrow> convert_signed_index (sl_start self) sz;
     end' \<leftarrow> (case sl_end self of Some e \<Rightarrow> convert_signed_index e sz | None \<Rightarrow> Some sz);
     Some (start, end')
   }"

definition to_range_and_step :: "slice \<Rightarrow> usize \<Rightarrow> ((usize \<times> usize) \<times> isize) option" where
  "to_range_and_step self sz = do { r \<leftarrow> to_range self sz; Some (r, sl_step self) }"

definition unsigned_abs :: "isize \<Rightarrow> usize" where
  "unsigned_abs x = nat \<bar>x\<bar>"

definition output_size :: "slice \<Rightarrow> usize \<Rightarrow> usize option" where
  "output_size self dim_size = do {
     (a, b) \<leftarrow> to_range self dim_size;
     (if b \<le> a then Some 0
      else if unsigned_abs (sl_step self) = 1 then Some (b - a)
      else udiv_ceil (b - a) (unsigned_abs (sl_step self)))
   }"

text \<open>\<open>SliceOps::slice\<close> and \<open>SliceArg::into_slices\<close>; missing slices are full.\<close>

fun slice_dims :: "slice list \<Rightarrow> shape \<Rightarrow> shape option" where
  "slice_dims (s # ss) (d # ds) = do {
     n \<leftarrow> output_size s d;
     ns \<leftarrow> slice_dims ss ds;
     Some (n # ns)
   }"
| "slice_dims _ ds = Some ds"

definition shape_slice :: "shape \<Rightarrow> slice list \<Rightarrow> shape shape_result" where
  "shape_slice self slices =
     (if rank self < length slices then Some (Inl (RankMismatch (rank self) (length slices)))
      else do { ds \<leftarrow> slice_dims slices self; Some (Inr ds) })"

definition clamp_slice :: "slice \<Rightarrow> usize \<Rightarrow> slice option" where
  "clamp_slice s dim_size = do {
     (a, b) \<leftarrow> to_range s dim_size;
     Slice_new (as_isize a) (Some (as_isize b)) (sl_step s)
   }"

definition into_slices :: "slice list \<Rightarrow> shape \<Rightarrow> slice list option" where
  "into_slices self shape = do {
     rassert (length self \<le> rank shape);
     mmap (\<lambda>(i, dim_size). do {
         s \<leftarrow> (if length self \<le> i then Slice_full else vec_get self i);
         clamp_slice s dim_size
       }) (enumerate 0 shape)
   }"

subsection \<open>Iteration\<close>

record slice_iter =
  si_slice :: slice
  si_current :: isize

definition slice_into_iter :: "slice \<Rightarrow> slice_iter" where
  "slice_into_iter s = \<lparr>si_slice = s, si_current = sl_start s\<rparr>"

definition slice_next :: "slice_iter \<Rightarrow> (isize option \<times> slice_iter) option" where
  "slice_next self = do {
     let next = si_current self;
     current \<leftarrow> iadd (si_current self) (sl_step (si_slice self));
     let self' = self\<lparr>si_current := current\<rparr>;
     Some (case sl_end (si_slice self) of
        Some e \<Rightarrow>
          if is_reversed (si_slice self)
          then (if next \<le> e then (None, self') else (Some next, self'))
          else (if e \<le> next then (None, self') else (Some next, self'))
      | None \<Rightarrow> (Some next, self'))
   }"

definition slice_into_vec :: "slice \<Rightarrow> isize list option" where
  "slice_into_vec self = do {
     rassert (sl_end self \<noteq> None);
     iter_collect slice_next (slice_into_iter self)
   }"

subsection \<open>What a slice selects\<close>

definition slice_ok :: "slice \<Rightarrow> bool" where
  "slice_ok s \<longleftrightarrow> sl_step s \<noteq> 0 \<and> in_isize (sl_start s) \<and> in_isize (sl_step s) \<and>
     (case sl_end s of Some e \<Rightarrow> in_isize e | None \<Rightarrow> True)"

definition clamp_index :: "isize \<Rightarrow> usize \<Rightarrow> usize" where
  "clamp_index i sz = (if i < 0 then nat (int sz + i) else min (nat i) sz)"

definition slice_start :: "slice \<Rightarrow> usize \<Rightarrow> usize" where
  "slice_start s sz = clamp_index (sl_start s) sz"

definition slice_stop :: "slice \<Rightarrow> usize \<Rightarrow> usize" where
  "slice_stop s sz = (case sl_end s of Some e \<Rightarrow> clamp_index e sz | None \<Rightarrow> sz)"

definition slice_len :: "slice \<Rightarrow> usize \<Rightarrow> usize" where
  "slice_len s sz =
     (if slice_stop s sz \<le> slice_start s sz then 0
      else div_ceil (slice_stop s sz - slice_start s sz) (unsigned_abs (sl_step s)))"

lemma clamp_index_le [simp]: "clamp_index i sz \<le> sz"
  by (auto simp: clamp_index_def)

lemma slice_start_le [simp]: "slice_start s sz \<le> sz"
  by (simp add: slice_start_def)

lemma slice_stop_le [simp]: "slice_stop s sz \<le> sz"
  by (simp add: slice_stop_def split: option.splits)

lemma convert_signed_index_ok:
  "in_isize i \<Longrightarrow> int sz < isize_lim \<Longrightarrow> convert_signed_index i sz = Some (clamp_index i sz)"
  by (auto simp: convert_signed_index_def clamp_index_def rust_simps in_isize_def max_def)

lemma to_range_ok:
  "slice_ok s \<Longrightarrow> int sz < isize_lim \<Longrightarrow> to_range s sz = Some (slice_start s sz, slice_stop s sz)"
  by (auto simp: to_range_def slice_ok_def slice_start_def slice_stop_def convert_signed_index_ok
      split: option.splits)

lemma unsigned_abs_pos: "x \<noteq> 0 \<Longrightarrow> 0 < unsigned_abs x"
  by (simp add: unsigned_abs_def)

lemma output_size_ok:
  assumes "slice_ok s" "int sz < isize_lim"
  shows "output_size s sz = Some (slice_len s sz)"
proof -
  have "0 < unsigned_abs (sl_step s)"
    using assms(1) by (simp add: slice_ok_def unsigned_abs_pos)
  then show ?thesis
    using assms by (auto simp: output_size_def to_range_ok slice_len_def udiv_ceil_def div_ceil_def)
qed

lemma progression_set:
  assumes "0 < (t::nat)"
  shows "{i. a \<le> i \<and> i < b \<and> (i - a) mod t = 0} = (\<lambda>k. a + k * t) ` {..<div_ceil (b - a) t}"
proof (intro set_eqI iffI)
  fix i assume "i \<in> {i. a \<le> i \<and> i < b \<and> (i - a) mod t = 0}"
  then have i: "a \<le> i" "i < b" "(i - a) mod t = 0" by auto
  then have eq: "i = a + (i - a) div t * t" by auto
  moreover have "(i - a) div t < div_ceil (b - a) t"
    using assms i by (intro div_less_div_ceil) auto
  ultimately show "i \<in> (\<lambda>k. a + k * t) ` {..<div_ceil (b - a) t}" by blast
next
  fix i assume "i \<in> (\<lambda>k. a + k * t) ` {..<div_ceil (b - a) t}"
  then obtain k where k: "i = a + k * t" "k < div_ceil (b - a) t" by auto
  then have "k * t < b - a" using assms by (simp add: less_div_ceil_iff)
  with k show "i \<in> {i. a \<le> i \<and> i < b \<and> (i - a) mod t = 0}" by auto
qed

lemma progression_card:
  assumes "0 < (t::nat)"
  shows "card {i. a \<le> i \<and> i < b \<and> (i - a) mod t = 0} = div_ceil (b - a) t"
  using assms by (simp add: progression_set card_image inj_on_def)

text \<open>
  The size of a slice: \<open>output_size\<close> is the number of indices of the dimension that the
  clamped range contains and the step selects, for every step sign, every negative or
  out-of-range bound, and the empty range.
\<close>

theorem output_size_counts:
  assumes "slice_ok s" "int sz < isize_lim"
  shows "\<exists>a b. to_range s sz = Some (a, b) \<and> a \<le> sz \<and> b \<le> sz \<and>
    output_size s sz = Some (card {i. a \<le> i \<and> i < b \<and> (i - a) mod unsigned_abs (sl_step s) = 0})"
proof (intro exI conjI)
  have "0 < unsigned_abs (sl_step s)"
    using assms(1) by (simp add: slice_ok_def unsigned_abs_pos)
  then show "output_size s sz = Some (card {i. slice_start s sz \<le> i \<and> i < slice_stop s sz \<and>
      (i - slice_start s sz) mod unsigned_abs (sl_step s) = 0})"
    by (simp add: output_size_ok [OF assms] progression_card slice_len_def)
qed (simp_all add: to_range_ok [OF assms])

theorem output_size_counts_witness:
  "\<exists>a b. to_range \<lparr>sl_start = -7, sl_end = Some (-1), sl_step = -2\<rparr> 10 = Some (a, b) \<and> a \<le> 10 \<and> b \<le> 10 \<and>
    output_size \<lparr>sl_start = -7, sl_end = Some (-1), sl_step = -2\<rparr> 10 =
      Some (card {i. a \<le> i \<and> i < b \<and> (i - a) mod unsigned_abs (-2) = 0})"
  using output_size_counts [of "\<lparr>sl_start = -7, sl_end = Some (-1), sl_step = -2\<rparr>" 10]
  by (simp add: slice_ok_def in_isize_def isize_lim_def)

lemma slice_dims_ok:
  assumes "length ss \<le> length ds" "\<forall>s \<in> set ss. slice_ok s" "\<forall>d \<in> set ds. int d < isize_lim"
  shows "slice_dims ss ds = Some (map2 slice_len ss ds @ drop (length ss) ds)"
  using assms by (induction ss ds rule: slice_dims.induct) (auto simp: output_size_ok)

lemma full_ok: "slice_ok \<lparr>sl_start = 0, sl_end = None, sl_step = 1\<rparr>"
  by (simp add: slice_ok_def in_isize_def isize_lim_def)

lemma slice_len_full [simp]: "slice_len \<lparr>sl_start = 0, sl_end = None, sl_step = 1\<rparr> d = d"
  by (simp add: slice_len_def slice_start_def slice_stop_def clamp_index_def unsigned_abs_def div_ceil_def)

definition clamped :: "slice \<Rightarrow> usize \<Rightarrow> slice" where
  "clamped s d = \<lparr>sl_start = int (slice_start s d), sl_end = Some (int (slice_stop s d)), sl_step = sl_step s\<rparr>"

lemma clamped_range [simp]:
  "slice_start (clamped s d) d = slice_start s d" "slice_stop (clamped s d) d = slice_stop s d"
  using slice_start_le [of s d] slice_stop_le [of s d]
  by (simp_all add: clamped_def slice_start_def slice_stop_def clamp_index_def min_def split: option.splits)

lemma clamped_len [simp]: "slice_len (clamped s d) d = slice_len s d"
  by (simp add: slice_len_def) (simp add: clamped_def)

lemma slice_bounds_isize [simp]:
  assumes "int d < isize_lim"
  shows "int (slice_start s d) < isize_lim" "int (slice_stop s d) < isize_lim"
  using assms slice_start_le [of s d] slice_stop_le [of s d] by linarith+

lemma clamp_slice_ok:
  "slice_ok s \<Longrightarrow> int d < isize_lim \<Longrightarrow> clamp_slice s d = Some (clamped s d)"
  by (simp add: clamp_slice_def to_range_ok Slice_new_def slice_ok_def rust_simps clamped_def)

lemma clamped_ok: "slice_ok s \<Longrightarrow> int d < isize_lim \<Longrightarrow> slice_ok (clamped s d)"
  by (auto simp: slice_ok_def clamped_def in_isize_def intro: order.trans [of _ 0])

text \<open>The slice of dimension \<open>i\<close>, full when none is given.\<close>

definition nth_slice :: "slice list \<Rightarrow> usize \<Rightarrow> slice" where
  "nth_slice ss i = (if i < length ss then ss ! i else \<lparr>sl_start = 0, sl_end = None, sl_step = 1\<rparr>)"

lemma nth_slice_ok: "\<forall>s \<in> set ss. slice_ok s \<Longrightarrow> slice_ok (nth_slice ss i)"
  by (simp add: nth_slice_def full_ok)

lemma into_slices_ok:
  assumes "length ss \<le> length ds" "\<forall>s \<in> set ss. slice_ok s" "\<forall>d \<in> set ds. int d < isize_lim"
  shows "into_slices ss ds = Some (map (\<lambda>i. clamped (nth_slice ss i) (ds ! i)) [0..<length ds])"
proof -
  have "mmap (\<lambda>(i, dim_size). do {
         s \<leftarrow> (if length ss \<le> i then Slice_full else vec_get ss i);
         clamp_slice s dim_size
       }) (enumerate 0 ds) = Some (map (\<lambda>(i, d). clamped (nth_slice ss i) d) (enumerate 0 ds))"
  proof (rule mmap_pure)
    fix x assume "x \<in> set (enumerate 0 ds)"
    then obtain i where x: "x = (i, ds ! i)" "i < length ds"
      by (intro that [of "fst x"]) (auto simp: in_set_enumerate_eq prod_eq_iff)
    have "(if length ss \<le> i then Slice_full else vec_get ss i) = Some (nth_slice ss i)"
      by (simp add: Slice_full_def Slice_new_def rust_simps nth_slice_def)
    then show "(case x of (i, dim_size) \<Rightarrow> do {
         s \<leftarrow> (if length ss \<le> i then Slice_full else vec_get ss i);
         clamp_slice s dim_size
       }) = Some (case x of (i, d) \<Rightarrow> clamped (nth_slice ss i) d)"
      using assms x by (simp add: clamp_slice_ok nth_slice_ok)
  qed
  also have "map (\<lambda>(i, d). clamped (nth_slice ss i) d) (enumerate 0 ds) =
      map (\<lambda>i. clamped (nth_slice ss i) (ds ! i)) [0..<length ds]"
    by (rule nth_equalityI) (auto simp: nth_enumerate_eq)
  finally show ?thesis
    using assms(1) by (simp add: into_slices_def rank_def rust_simps)
qed

text \<open>
  Normalising slice arguments changes nothing: \<open>into_slices\<close> gives one in-range slice per
  dimension, and slicing the shape with the normalised slices gives the same output shape as
  slicing it with the original ones.
\<close>

theorem into_slices_faithful:
  assumes "length ss \<le> length ds" "\<forall>s \<in> set ss. slice_ok s" "\<forall>d \<in> set ds. int d < isize_lim"
  shows "\<exists>ts ds'. into_slices ss ds = Some ts \<and> length ts = length ds \<and>
    shape_slice ds ts = Some (Inr ds') \<and> shape_slice ds ss = Some (Inr ds')"
proof -
  let ?ts = "map (\<lambda>i. clamped (nth_slice ss i) (ds ! i)) [0..<length ds]"
  have ok: "\<forall>t \<in> set ?ts. slice_ok t"
    using assms by (auto intro!: clamped_ok nth_slice_ok)
  have "map2 slice_len ?ts ds = map2 slice_len ss ds @ drop (length ss) ds"
    using assms(1) by (intro nth_equalityI) (auto simp: nth_append nth_slice_def)
  then have "slice_dims ?ts ds = slice_dims ss ds"
    using slice_dims_ok [OF _ ok assms(3)] slice_dims_ok [OF assms] by simp
  then show ?thesis
    using assms by (simp add: into_slices_ok shape_slice_def rank_def slice_dims_ok [OF assms])
qed

theorem into_slices_faithful_witness:
  "\<exists>ts ds'. into_slices [\<lparr>sl_start = -2, sl_end = None, sl_step = 1\<rparr>] [3, 4] = Some ts \<and>
    length ts = length [3::nat, 4] \<and> shape_slice [3, 4] ts = Some (Inr ds') \<and>
    shape_slice [3, 4] [\<lparr>sl_start = -2, sl_end = None, sl_step = 1\<rparr>] = Some (Inr ds')"
  by (rule into_slices_faithful) (simp_all add: slice_ok_def in_isize_def isize_lim_def)

subsection \<open>Iterating a slice\<close>

text \<open>Number of steps from \<open>a\<close> towards \<open>b\<close>, in the direction of the step.\<close>

definition steps_between :: "int \<Rightarrow> int \<Rightarrow> int \<Rightarrow> nat" where
  "steps_between a b t = div_ceil (nat (if t < 0 then a - b else b - a)) (unsigned_abs t)"

lemma steps_between_less:
  assumes "t \<noteq> 0"
  shows "k < steps_between a b t \<longleftrightarrow> (if t < 0 then b < a + int k * t else a + int k * t < b)"
proof (cases "t < 0")
  case True
  have "k < steps_between a b t \<longleftrightarrow> k * nat (- t) < nat (a - b)"
    using True by (simp add: steps_between_def unsigned_abs_def less_div_ceil_iff)
  also have "\<dots> \<longleftrightarrow> int (k * nat (- t)) < a - b" by linarith
  also have "int (k * nat (- t)) = - (int k * t)" using True by simp
  finally show ?thesis using True by auto
next
  case False
  have "k < steps_between a b t \<longleftrightarrow> k * nat t < nat (b - a)"
    using False assms by (simp add: steps_between_def unsigned_abs_def less_div_ceil_iff)
  also have "\<dots> \<longleftrightarrow> int (k * nat t) < b - a" by linarith
  also have "int (k * nat t) = int k * t" using False by simp
  finally show ?thesis using False by auto
qed

lemma in_isize_between: "in_isize a \<Longrightarrow> in_isize c \<Longrightarrow> min a c \<le> x \<Longrightarrow> x \<le> max a c \<Longrightarrow> in_isize x"
  by (auto simp: in_isize_def min_def max_def split: if_splits)

lemma progression_between:
  assumes "k \<le> (n::nat)"
  shows "min a (a + int n * t) \<le> a + int k * t \<and> a + int k * t \<le> max a (a + int n * t)"
proof (cases "0 \<le> t")
  case True
  then have "0 \<le> int k * t" "int k * t \<le> int n * t"
    using assms by (simp_all add: mult_right_mono)
  then show ?thesis by simp
next
  case False
  then have "int k * t \<le> 0" "int n * t \<le> int k * t"
    using assms by (simp_all add: mult_right_mono_neg mult_nonneg_nonpos)
  then show ?thesis by simp
qed

text \<open>
  Iterating a bounded slice: \<open>into_vec\<close> ends and yields the arithmetic progression from
  the start, with the step of the slice, up to but excluding the end, in the direction of the
  step; the one side condition is that the iterator's look-ahead past the last element stays
  in the range of \<open>isize\<close>.
\<close>

theorem slice_into_vec_progression:
  assumes "sl_end s = Some e" "sl_step s \<noteq> 0" "in_isize (sl_start s)"
    and n: "n = steps_between (sl_start s) e (sl_step s)"
    and lookahead: "in_isize (sl_start s + int (Suc n) * sl_step s)"
  shows "slice_into_vec s = Some (map (\<lambda>k. sl_start s + int k * sl_step s) [0..<n])"
proof -
  let ?st = "\<lambda>k. \<lparr>si_slice = s, si_current = sl_start s + int k * sl_step s\<rparr>"
  have range: "iadd (sl_start s + int k * sl_step s) (sl_step s) = Some (sl_start s + int (Suc k) * sl_step s)"
    if "k \<le> n" for k
  proof -
    have "in_isize (sl_start s + int (Suc k) * sl_step s)"
      using progression_between [of "Suc k" "Suc n" "sl_start s" "sl_step s"] that
      by (intro in_isize_between [OF assms(3) lookahead]) auto
    then show ?thesis by (simp add: iadd_def algebra_simps)
  qed
  have "iter_collect slice_next (?st 0) = Some (map (\<lambda>k. sl_start s + int k * sl_step s) [0..<n])"
  proof (rule iter_collect_upt)
    fix i :: nat assume "i < n"
    then show "slice_next (?st i) = Some (Some (sl_start s + int i * sl_step s), ?st (Suc i))"
      using steps_between_less [OF assms(2), of i "sl_start s" e] n assms(1)
      by (auto simp: slice_next_def is_reversed_def Let_def range simp del: iadd_Some of_nat_Suc
          split: if_splits)
  next
    show "\<exists>s'. slice_next (?st n) = Some (None, s')"
      using steps_between_less [OF assms(2), of n "sl_start s" e] n assms(1)
      by (auto simp: slice_next_def is_reversed_def Let_def range simp del: iadd_Some of_nat_Suc
          split: if_splits)
  qed simp
  then show ?thesis
    using assms(1) by (simp add: slice_into_vec_def slice_into_iter_def rust_simps)
qed

theorem slice_into_vec_progression_witness:
  "slice_into_vec \<lparr>sl_start = 9, sl_end = Some 1, sl_step = -3\<rparr> = Some (map (\<lambda>k. 9 + int k * -3) [0..<3])"
  using slice_into_vec_progression [of "\<lparr>sl_start = 9, sl_end = Some 1, sl_step = -3\<rparr>" 1 3]
  by (simp add: steps_between_def unsigned_abs_def div_ceil_def in_isize_def isize_lim_def)

end
