(* ===== verification/Tensor_Text.thy ===== *)
theory Tensor_Text
  imports Tensor_Slice
begin

text \<open>
  The textual forms of slices and shapes: \<open>slice/parse.rs\<close> and the \<open>Display\<close> and \<open>FromStr\<close>
  implementations of \<open>shape.rs\<close>, over the string primitives of the Rust standard library
  they call.  Both parsers read back what is printed.
\<close>

subsection \<open>Strings of the standard library\<close>

definition is_ws :: "char \<Rightarrow> bool" where
  "is_ws c \<longleftrightarrow> (let n = (of_char c :: nat) in n = 32 \<or> 9 \<le> n \<and> n \<le> 13)"

definition trim :: "string \<Rightarrow> string" where
  "trim s = rev (dropWhile is_ws (rev (dropWhile is_ws s)))"

fun split_once :: "string \<Rightarrow> string \<Rightarrow> (string \<times> string) option" where
  "split_once p [] = (if p = [] then Some ([], []) else None)"
| "split_once p (c # cs) =
     (if take (length p) (c # cs) = p then Some ([], drop (length p) (c # cs))
      else map_option (apfst (Cons c)) (split_once p cs))"

fun split_on :: "char \<Rightarrow> string \<Rightarrow> string list" where
  "split_on d [] = [[]]"
| "split_on d (c # cs) = (if c = d then [] # split_on d cs else (c # hd (split_on d cs)) # tl (split_on d cs))"

definition strip_prefix :: "string \<Rightarrow> string \<Rightarrow> string option" where
  "strip_prefix p s = (if take (length p) s = p then Some (drop (length p) s) else None)"

definition strip_suffix :: "string \<Rightarrow> string \<Rightarrow> string option" where
  "strip_suffix p s = map_option rev (strip_prefix (rev p) (rev s))"

text \<open>Decimal integers: \<open>Display\<close> and \<open>from_str\<close> with the error kinds of \<open>ParseIntError\<close>.\<close>

datatype int_error = EmptyInt | InvalidDigit | PosOverflow | NegOverflow

definition digit_char :: "nat \<Rightarrow> char" where
  "digit_char d = char_of (48 + d)"

definition to_digit :: "char \<Rightarrow> nat option" where
  "to_digit c = (let n = of_char c in if 48 \<le> n \<and> n \<le> 57 then Some (n - 48) else None)"

fun show_nat :: "nat \<Rightarrow> string" where
  "show_nat n = (if n < 10 then [digit_char n] else show_nat (n div 10) @ [digit_char (n mod 10)])"

declare show_nat.simps [simp del]

definition show_int :: "int \<Rightarrow> string" where
  "show_int x = (if x < 0 then CHR ''-'' # show_nat (nat (- x)) else show_nat (nat x))"

fun parse_digits :: "bool \<Rightarrow> (int \<Rightarrow> bool) \<Rightarrow> string \<Rightarrow> int \<Rightarrow> int_error + int" where
  "parse_digits neg ok [] acc = Inr acc"
| "parse_digits neg ok (c # cs) acc =
     (case to_digit c of
        None \<Rightarrow> Inl InvalidDigit
      | Some d \<Rightarrow>
          let acc' = (if neg then 10 * acc - int d else 10 * acc + int d) in
          if ok acc' then parse_digits neg ok cs acc'
          else Inl (if neg then NegOverflow else PosOverflow))"

definition parse_isize :: "string \<Rightarrow> int_error + isize" where
  "parse_isize s =
     (case s of
        [] \<Rightarrow> Inl EmptyInt
      | c # cs \<Rightarrow>
          if cs = [] \<and> (c = CHR ''+'' \<or> c = CHR ''-'') then Inl InvalidDigit
          else if c = CHR ''-'' then parse_digits True in_isize cs 0
          else if c = CHR ''+'' then parse_digits False in_isize cs 0
          else parse_digits False in_isize s 0)"

definition parse_usize :: "string \<Rightarrow> int_error + usize" where
  "parse_usize s =
     (case s of
        [] \<Rightarrow> Inl EmptyInt
      | c # cs \<Rightarrow>
          if cs = [] \<and> (c = CHR ''+'' \<or> c = CHR ''-'') then Inl InvalidDigit
          else map_sum id nat (parse_digits False (\<lambda>x. x < int usize_lim) (if c = CHR ''+'' then cs else s) 0))"

definition int_error_text :: "int_error \<Rightarrow> string" where
  "int_error_text e =
     (case e of
        EmptyInt \<Rightarrow> ''cannot parse integer from empty string''
      | InvalidDigit \<Rightarrow> ''invalid digit found in string''
      | PosOverflow \<Rightarrow> ''number too large to fit in target type''
      | NegOverflow \<Rightarrow> ''number too small to fit in target type'')"

subsection \<open>Slices\<close>

datatype expression_error =
    ParseError string string
  | InvalidExpression string string

definition slice_display :: "slice \<Rightarrow> string option" where
  "slice_display self = do {
     single \<leftarrow>
       (case sl_end self of
          Some e \<Rightarrow> if sl_step self = 1 then do { p \<leftarrow> isub e 1; Some (sl_start self = p) } else Some False
        | None \<Rightarrow> Some False);
     Some (if single then show_int (sl_start self)
       else (if sl_start self \<noteq> 0 then show_int (sl_start self) else []) @ ''..'' @
         (case sl_end self of Some e \<Rightarrow> show_int e | None \<Rightarrow> []) @
         (if sl_step self \<noteq> 1 then '';'' @ show_int (sl_step self) else []))
   }"

definition slice_parse_int :: "string \<Rightarrow> string \<Rightarrow> (expression_error + isize) option" where
  "slice_parse_int source v =
     Some (case parse_isize v of
        Inl e \<Rightarrow> Inl (ParseError (''Invalid integer: '' @ [CHR 0x27] @ v @ [CHR 0x27] @ '': '' @ int_error_text e) source)
      | Inr i \<Rightarrow> Inr i)"

definition slice_from_str :: "string \<Rightarrow> (expression_error + slice) option" where
  "slice_from_str source = (
     let s = trim source in
     try_op (case split_once '';'' s of
               Some (hd', tl') \<Rightarrow> try_op (slice_parse_int source tl') (\<lambda>step. Some (Inr (step, hd')))
             | None \<Rightarrow> Some (Inr (1, s))) (\<lambda>(step, s).
     if s = [] then Some (Inl (ParseError ''Empty expression'' source))
     else
       try_op (case split_once ''..'' s of
                 Some (start_s, end_s) \<Rightarrow>
                   try_op (if start_s \<noteq> [] then slice_parse_int source start_s else Some (Inr 0)) (\<lambda>start.
                   if end_s = [] then Some (Inr (start, None))
                   else (case strip_prefix ''='' end_s of
                       Some end_s' \<Rightarrow> try_op (slice_parse_int source end_s') (\<lambda>e.
                         do { e' \<leftarrow> iadd e 1; Some (Inr (start, Some e')) })
                     | None \<Rightarrow> try_op (slice_parse_int source end_s) (\<lambda>e. Some (Inr (start, Some e)))))
               | None \<Rightarrow>
                   try_op (slice_parse_int source s) (\<lambda>start.
                   do { e \<leftarrow> iadd start 1; Some (Inr (start, Some e)) })) (\<lambda>(start, e).
       if step = 0 then Some (Inl (InvalidExpression ''Step cannot be zero'' source))
       else do { r \<leftarrow> Slice_new start e step; Some (Inr r) })))"

subsection \<open>Shapes\<close>

fun join_dims :: "usize list \<Rightarrow> string" where
  "join_dims [] = []"
| "join_dims [d] = show_nat d"
| "join_dims (d # ds) = show_nat d @ '', '' @ join_dims ds"

definition shape_display :: "shape \<Rightarrow> string" where
  "shape_display self = ''['' @ join_dims self @ '']''"

text \<open>The loop over the two pairs of delimiters; a matched pair ends it.\<close>

fun strip_delims :: "string \<Rightarrow> (string \<times> string) list \<Rightarrow> string \<Rightarrow> expression_error + string" where
  "strip_delims source [] s = Inr s"
| "strip_delims source ((open', close) # ds) s =
     (case strip_prefix open' s of
        Some p \<Rightarrow>
          (case strip_suffix close p of
             Some p' \<Rightarrow> Inr (trim p')
           | None \<Rightarrow> Inl (ParseError ''Unbalanced delimiters'' source))
      | None \<Rightarrow> strip_delims source ds s)"

fun parse_dims :: "string \<Rightarrow> string list \<Rightarrow> expression_error + usize list" where
  "parse_dims source [] = Inr []"
| "parse_dims source (d # ds) =
     (case parse_usize (trim d) of
        Inl _ \<Rightarrow> Inl (ParseError ''Unable to parse shape'' source)
      | Inr n \<Rightarrow> (case parse_dims source ds of Inl e \<Rightarrow> Inl e | Inr ns \<Rightarrow> Inr (n # ns)))"

definition shape_from_str :: "string \<Rightarrow> (expression_error + shape) option" where
  "shape_from_str source =
     (case strip_delims source [(''['', '']''), (''('', '')'')] (trim source) of
        Inl e \<Rightarrow> Some (Inl e)
      | Inr s \<Rightarrow>
          if s = [] then Some (Inr [])
          else (case parse_dims source (split_on (CHR '','') s) of
              Inl e \<Rightarrow> Some (Inl e)
            | Inr dims \<Rightarrow> do { rassert (dims \<noteq> []); Some (Inr dims) }))"

subsection \<open>Printing and reading integers\<close>

lemma to_digit_char [simp]: "d < 10 \<Longrightarrow> to_digit (digit_char d) = Some d"
  by (simp add: to_digit_def digit_char_def Let_def)

lemma parse_digits_append:
  "parse_digits neg ok (xs @ ys) acc =
     (case parse_digits neg ok xs acc of Inl e \<Rightarrow> Inl e | Inr a \<Rightarrow> parse_digits neg ok ys a)"
  by (induction xs arbitrary: acc) (auto split: option.splits simp: Let_def)

definition num_char :: "char \<Rightarrow> bool" where
  "num_char c \<longleftrightarrow> to_digit c \<noteq> None"

lemma num_char_digit [simp]: "d < 10 \<Longrightarrow> num_char (digit_char d)"
  by (simp add: num_char_def)

lemma show_nat_chars: "c \<in> set (show_nat n) \<Longrightarrow> num_char c"
proof (induction n rule: show_nat.induct)
  case (1 n)
  then show ?case by (subst (asm) (2) show_nat.simps) (auto split: if_splits)
qed

lemma show_nat_ne [simp]: "show_nat n \<noteq> []"
  by (subst show_nat.simps) simp

lemma parse_show_nat:
  assumes "\<And>m. m \<le> n \<Longrightarrow> ok (if neg then - int m else int m)"
  shows "parse_digits neg ok (show_nat n) 0 = Inr (if neg then - int n else int n)"
  using assms
proof (induction n rule: show_nat.induct)
  case (1 n)
  show ?case
  proof (cases "n < 10")
    case True
    then show ?thesis
      using "1.prems" [of n] by (subst show_nat.simps) (auto simp: Let_def)
  next
    case False
    have ih: "parse_digits neg ok (show_nat (n div 10)) 0 =
        Inr (if neg then - int (n div 10) else int (n div 10))"
      using 1 False by simp
    have "int n = 10 * int (n div 10) + int (n mod 10)" by presburger
    then show ?thesis
      using False "1.prems" [of n] ih
      by (subst show_nat.simps) (auto simp: Let_def parse_digits_append)
  qed
qed

lemma parse_show_int:
  assumes "in_isize x"
  shows "parse_isize (show_int x) = Inr x"
proof (cases "x < 0")
  case True
  have "parse_digits True in_isize (show_nat (nat (- x))) 0 = Inr x"
    using parse_show_nat [of "nat (- x)" in_isize True] True assms by (auto simp: in_isize_def)
  with True show ?thesis by (simp add: parse_isize_def show_int_def)
next
  case False
  obtain c cs where c: "show_nat (nat x) = c # cs" by (cases "show_nat (nat x)") auto
  then have "num_char c" using show_nat_chars [of c "nat x"] by simp
  then have "c \<noteq> CHR ''-''" "c \<noteq> CHR ''+''" by (auto simp: num_char_def to_digit_def)
  moreover have "parse_digits False in_isize (show_nat (nat x)) 0 = Inr x"
    using parse_show_nat [of "nat x" in_isize False] False assms by (auto simp: in_isize_def)
  ultimately show ?thesis using False c by (simp add: parse_isize_def show_int_def)
qed

lemma parse_show_usize:
  assumes "n < usize_lim"
  shows "parse_usize (show_nat n) = Inr n"
proof -
  obtain c cs where c: "show_nat n = c # cs" by (cases "show_nat n") auto
  then have "num_char c" using show_nat_chars [of c n] by simp
  then have "c \<noteq> CHR ''-''" "c \<noteq> CHR ''+''" by (auto simp: num_char_def to_digit_def)
  moreover have "parse_digits False (\<lambda>x. x < int usize_lim) (show_nat n) 0 = Inr (int n)"
    using parse_show_nat [of n "\<lambda>x. x < int usize_lim" False] assms by auto
  ultimately show ?thesis using c by (simp add: parse_usize_def)
qed

subsection \<open>Trimming and splitting\<close>

lemma trim_ends: "s = [] \<or> \<not> is_ws (hd s) \<and> \<not> is_ws (last s) \<Longrightarrow> trim s = s"
  using dropWhile_eq_self_iff [of is_ws s] dropWhile_eq_self_iff [of is_ws "rev s"]
  by (auto simp: trim_def hd_rev)

lemma trim_plain: "\<forall>c \<in> set s. \<not> is_ws c \<Longrightarrow> trim s = s"
  by (intro trim_ends) auto

lemma split_once_None: "d \<notin> set s \<Longrightarrow> split_once (d # p) s = None"
  by (induction s) auto

lemma split_once_Some: "d \<notin> set a \<Longrightarrow> split_once (d # p) (a @ (d # p) @ b) = Some (a, b)"
  by (induction a) auto

lemma split_on_plain: "d \<notin> set s \<Longrightarrow> split_on d s = [s]"
  by (induction s) auto

lemma split_on_append: "d \<notin> set a \<Longrightarrow> split_on d (a @ d # b) = a # split_on d b"
  by (induction a) auto

definition int_char :: "char \<Rightarrow> bool" where
  "int_char c \<longleftrightarrow> num_char c \<or> c = CHR ''-''"

lemma show_int_chars: "c \<in> set (show_int x) \<Longrightarrow> int_char c"
  by (auto simp: show_int_def int_char_def dest: show_nat_chars split: if_splits)

lemma show_int_ne [simp]: "show_int x \<noteq> []"
  by (simp add: show_int_def)

lemma int_char_not:
  "int_char c \<Longrightarrow> \<not> is_ws c \<and> c \<noteq> CHR ''.'' \<and> c \<noteq> CHR '';'' \<and> c \<noteq> CHR '','' \<and> c \<noteq> CHR ''=''"
  by (auto simp: int_char_def num_char_def to_digit_def is_ws_def Let_def split: if_splits)

lemma show_int_not:
  "CHR ''.'' \<notin> set (show_int x)" "CHR '';'' \<notin> set (show_int x)" "c \<in> set (show_int x) \<Longrightarrow> \<not> is_ws c"
  using show_int_chars int_char_not by blast+

lemma slice_parse_show [simp]: "in_isize x \<Longrightarrow> slice_parse_int src (show_int x) = Some (Inr x)"
  by (simp add: slice_parse_int_def parse_show_int)

lemma strip_eq_show [simp]: "strip_prefix ''='' (show_int x) = None"
proof -
  obtain c cs where c: "show_int x = c # cs" by (cases "show_int x") auto
  then have "int_char c" using show_int_chars [of c x] by simp
  then show ?thesis using int_char_not [of c] c by (auto simp: strip_prefix_def)
qed

subsection \<open>Round trips\<close>

lemma slice_from_str_index:
  assumes "in_isize i" "in_isize (i + 1)"
  shows "slice_from_str (show_int i) = Some (Inr \<lparr>sl_start = i, sl_end = Some (i + 1), sl_step = 1\<rparr>)"
  using assms
  by (simp add: slice_from_str_def trim_plain show_int_not split_once_None try_op_def
      iadd_ok Slice_new_def rassert_def)

text \<open>
  Slices read back what they print: for every slice with a non-zero step, the text of
  \<open>Display\<close> parses to the same slice (the one excluded end, \<open>isize::MIN\<close>, overflows the
  printer's test for a single index).
\<close>

theorem slice_text_roundtrip:
  assumes ok: "slice_ok s" and min: "sl_end s \<noteq> Some (- isize_lim)"
  shows "\<exists>t. slice_display s = Some t \<and> slice_from_str t = Some (Inr s)"
proof -
  obtain st en sp where s: "s = \<lparr>sl_start = st, sl_end = en, sl_step = sp\<rparr>" by (cases s)
  have r: "in_isize st" "in_isize sp" "sp \<noteq> 0" "\<And>e. en = Some e \<Longrightarrow> in_isize e"
    using ok by (auto simp: s slice_ok_def)
  show ?thesis
  proof (cases "sp = 1 \<and> en = Some (st + 1)")
    case True
    then have "slice_display s = Some (show_int st)"
      using r by (simp add: slice_display_def s isub_def)
    moreover have "slice_from_str (show_int st) = Some (Inr s)"
      using r True by (simp add: slice_from_str_index s)
    ultimately show ?thesis by blast
  next
    case False
    let ?a = "(if st \<noteq> 0 then show_int st else [])"
    let ?e = "(case en of Some e \<Rightarrow> show_int e | None \<Rightarrow> [])"
    let ?p = "(if sp \<noteq> 1 then '';'' @ show_int sp else [])"
    have disp: "slice_display s = Some (?a @ ''..'' @ ?e @ ?p)"
      using False r(4) min
      by (auto simp: slice_display_def s isub_def in_isize_def split: option.splits)
    have trim: "trim (?a @ ''..'' @ ?e @ ?p) = ?a @ ''..'' @ ?e @ ?p"
      by (rule trim_plain) (auto simp: show_int_not is_ws_def split: option.splits dest: show_int_not(3))
    have semi: "(case split_once '';'' (?a @ ''..'' @ ?e @ ?p) of
         Some (h, tl') \<Rightarrow> try_op (slice_parse_int src tl') (\<lambda>step. Some (Inr (step, h)))
       | None \<Rightarrow> Some (Inr (1, ?a @ ''..'' @ ?e @ ?p))) = Some (Inr (sp, ?a @ ''..'' @ ?e))" for src
    proof -
      have no: "CHR '';'' \<notin> set (?a @ ''..'' @ ?e)" by (auto simp: show_int_not split: option.splits)
      show ?thesis
      proof (cases "sp = 1")
        case True
        with no show ?thesis by (simp add: split_once_None)
      next
        case False
        with no r show ?thesis
          using split_once_Some [of "CHR '';''" "?a @ ''..'' @ ?e" "[]" "show_int sp"]
          by (simp add: try_op_def)
      qed
    qed
    have dots: "split_once ''..'' (?a @ ''..'' @ ?e) = Some (?a, ?e)"
      using split_once_Some [of "CHR ''.''" ?a "''.''" ?e] by (simp add: show_int_not)
    have "slice_from_str (?a @ ''..'' @ ?e @ ?p) = Some (Inr s)"
      unfolding slice_from_str_def Let_def trim semi
      using r dots by (auto simp: try_op_def s Slice_new_def rassert_def split: option.splits)
    with disp show ?thesis by blast
  qed
qed

theorem slice_text_roundtrip_witness:
  "\<exists>t. slice_display \<lparr>sl_start = -3, sl_end = None, sl_step = -2\<rparr> = Some t \<and>
     slice_from_str t = Some (Inr \<lparr>sl_start = -3, sl_end = None, sl_step = -2\<rparr>)"
  by (rule slice_text_roundtrip) (simp_all add: slice_ok_def in_isize_def isize_lim_def)

text \<open>
  A negative index is not read the way it is built: the text of an index \<open>i < 0\<close> parses to
  the range from \<open>i\<close> up to \<open>i + 1\<close>, which for the last element (\<open>i = -1\<close>) ends at 0 and selects
  nothing, while \<open>Slice::index(-1)\<close> selects the last element of every non-empty dimension.
\<close>

theorem slice_parse_last_empty:
  assumes "0 < sz" "int sz < isize_lim"
  shows "\<exists>p q. slice_from_str ''-1'' = Some (Inr p) \<and> output_size p sz = Some 0 \<and>
    Slice_index (-1) = Some q \<and> output_size q sz = Some 1"
proof -
  let ?p = "\<lparr>sl_start = -1, sl_end = Some 0, sl_step = 1\<rparr>"
  let ?q = "\<lparr>sl_start = -1, sl_end = None, sl_step = 1\<rparr>"
  have "show_int (-1) = ''-1''"
    by code_simp
  then have "slice_from_str ''-1'' = Some (Inr ?p)"
    using slice_from_str_index [of "-1"] by (simp add: in_isize_def isize_lim_def)
  moreover have "slice_ok ?p" "slice_ok ?q"
    by (simp_all add: slice_ok_def in_isize_def isize_lim_def)
  moreover have "nat (int sz - 1) = sz - 1" by simp
  then have "slice_len ?p sz = 0" "slice_len ?q sz = 1"
    using assms
    by (simp_all add: slice_len_def slice_start_def slice_stop_def clamp_index_def unsigned_abs_def
        div_ceil_def nat_less_iff)
  ultimately show ?thesis
    using assms by (simp add: Slice_index_def handle_signed_inclusive_end_def output_size_ok)
qed

theorem slice_parse_last_empty_witness:
  "\<exists>p q. slice_from_str ''-1'' = Some (Inr p) \<and> output_size p 4 = Some 0 \<and>
    Slice_index (-1) = Some q \<and> output_size q 4 = Some 1"
  by (rule slice_parse_last_empty) (simp_all add: isize_lim_def)

lemma num_char_not:
  "num_char c \<Longrightarrow> \<not> is_ws c \<and> c \<noteq> CHR '','' \<and> c \<noteq> CHR ''['' \<and> c \<noteq> CHR '']''"
  by (auto simp: num_char_def to_digit_def is_ws_def Let_def split: if_splits)

lemma show_nat_not: "CHR '','' \<notin> set (show_nat n)" "c \<in> set (show_nat n) \<Longrightarrow> \<not> is_ws c"
  using show_nat_chars num_char_not by blast+

lemma trim_show_nat [simp]: "trim (show_nat n) = show_nat n" "trim (CHR '' '' # show_nat n) = show_nat n"
proof -
  show "trim (show_nat n) = show_nat n" by (rule trim_plain) (simp add: show_nat_not)
  then show "trim (CHR '' '' # show_nat n) = show_nat n" by (simp add: trim_def is_ws_def)
qed

lemma parse_join_dims:
  assumes "ds \<noteq> []" "\<forall>d \<in> set ds. d < usize_lim"
  shows "parse_dims src (split_on (CHR '','') (join_dims ds)) = Inr ds \<and>
    parse_dims src (split_on (CHR '','') (CHR '' '' # join_dims ds)) = Inr ds"
  using assms
proof (induction ds rule: join_dims.induct)
  case (2 d)
  then show ?case
    by (simp add: split_on_plain show_nat_not parse_show_usize)
next
  case (3 d e ds)
  have "split_on (CHR '','') (join_dims (d # e # ds)) =
      show_nat d # split_on (CHR '','') (CHR '' '' # join_dims (e # ds))"
    using split_on_append [of "CHR '',''" "show_nat d" "CHR '' '' # join_dims (e # ds)"]
    by (simp add: show_nat_not)
  with 3 show ?case by (simp add: parse_show_usize)
qed simp

lemma show_nat_ends [simp]: "num_char (hd (show_nat n))" "num_char (last (show_nat n))"
  using show_nat_chars [of "hd (show_nat n)" n] show_nat_chars [of "last (show_nat n)" n] by simp_all

lemma join_dims_ends: "ds \<noteq> [] \<Longrightarrow> join_dims ds \<noteq> [] \<and> num_char (hd (join_dims ds)) \<and> num_char (last (join_dims ds))"
proof (induction ds rule: join_dims.induct)
  case (2 d)
  then show ?case by simp
next
  case (3 d e ds)
  then show ?case by simp
qed simp

text \<open>
  Shapes read back what they print: for every shape, of any rank including 0, parsing the
  text of \<open>Display\<close> gives the shape.
\<close>

theorem shape_text_roundtrip:
  assumes "\<forall>d \<in> set ds. d < usize_lim"
  shows "shape_from_str (shape_display ds) = Some (Inr ds)"
proof -
  have disp: "trim (shape_display ds) = CHR ''['' # join_dims ds @ '']''"
    by (subst trim_ends) (auto simp: shape_display_def is_ws_def)
  have inner: "trim (join_dims ds) = join_dims ds"
    using join_dims_ends [of ds] num_char_not by (intro trim_ends) (cases "ds = []"; auto)
  have "strip_delims src [(''['', '']''), (''('', '')'')] (CHR ''['' # join_dims ds @ '']'') =
      Inr (join_dims ds)" for src
    using inner by (simp add: strip_prefix_def strip_suffix_def)
  then show ?thesis
    unfolding shape_from_str_def disp
    using assms join_dims_ends [of ds] parse_join_dims [of ds]
    by (cases "ds = []") (simp_all add: rassert_def del: strip_delims.simps)
qed

theorem shape_text_roundtrip_witness:
  "shape_from_str (shape_display [2, 3, 4]) = Some (Inr [2, 3, 4])"
  by (rule shape_text_roundtrip) (simp add: usize_lim_def)

end
