(* ===== verification/Tensor_Striding.thy ===== *)
theory Tensor_Striding
  imports Tensor_Shape
begin

text \<open>
  Strides and stride analysis: \<open>ruda-core/src/tensor/strides.rs\<close>, \<open>metadata.rs\<close> and the
  directory \<open>striding\<close>.  The main result is that the action chosen by \<open>reshape_action\<close>
  never moves an element.
\<close>

type_synonym strides = "usize list"

record metadata =
  md_shape :: shape
  md_strides :: strides

subsection \<open>Strides and metadata\<close>

definition strides_permute :: "strides \<Rightarrow> usize list \<Rightarrow> strides shape_result" where
  "strides_permute self axes =
     (if length axes \<noteq> length self then Some (Inl (RankMismatch (length self) (length axes)))
      else do {
        rassert (\<forall>i \<in> set axes. i < length self);
        d \<leftarrow> mmap (vec_get self) axes;
        Some (Inr d)
      })"

definition Metadata_new :: "shape \<Rightarrow> strides \<Rightarrow> metadata option" where
  "Metadata_new shape strides = do {
     rassert (rank shape = length strides);
     Some \<lparr>md_shape = shape, md_strides = strides\<rparr>
   }"

definition Metadata_swap :: "metadata \<Rightarrow> usize \<Rightarrow> usize \<Rightarrow> metadata option" where
  "Metadata_swap self dim0 dim1 = do {
     rassert (dim0 < rank (md_shape self));
     rassert (dim1 < rank (md_shape self));
     sh \<leftarrow> vec_swap (md_shape self) dim0 dim1;
     st \<leftarrow> vec_swap (md_strides self) dim0 dim1;
     Some \<lparr>md_shape = sh, md_strides = st\<rparr>
   }"

text \<open>
  \<open>Metadata::permute\<close> mutates the shape before it permutes the strides, so an error of the
  second step leaves the shape permuted; the state is returned with the error.
\<close>

definition Metadata_permute :: "metadata \<Rightarrow> usize list \<Rightarrow> (metadata \<times> (metadata_error + unit)) option" where
  "Metadata_permute self axes = do {
     r \<leftarrow> permute (md_shape self) axes;
     (case r of
        Inl e \<Rightarrow> Some (self, Inl e)
      | Inr sh \<Rightarrow> do {
          q \<leftarrow> strides_permute (md_strides self) axes;
          (case q of
             Inl e \<Rightarrow> Some (self\<lparr>md_shape := sh\<rparr>, Inl e)
           | Inr st \<Rightarrow> Some (self\<lparr>md_shape := sh, md_strides := st\<rparr>, Inr ()))
        })
   }"

definition Metadata_insert :: "metadata \<Rightarrow> usize \<Rightarrow> usize \<Rightarrow> usize \<Rightarrow> metadata option" where
  "Metadata_insert self i n s = do {
     sh \<leftarrow> shape_insert (md_shape self) i n;
     st \<leftarrow> vec_insert (md_strides self) i s;
     Some \<lparr>md_shape = sh, md_strides = st\<rparr>
   }"

definition Metadata_remove :: "metadata \<Rightarrow> usize \<Rightarrow> ((usize \<times> usize) \<times> metadata) option" where
  "Metadata_remove self i = do {
     (n, sh) \<leftarrow> shape_remove (md_shape self) i;
     (s, st) \<leftarrow> vec_remove (md_strides self) i;
     Some ((n, s), \<lparr>md_shape = sh, md_strides = st\<rparr>)
   }"

definition Metadata_push :: "metadata \<Rightarrow> usize \<Rightarrow> usize \<Rightarrow> metadata" where
  "Metadata_push self n s =
     \<lparr>md_shape = shape_push (md_shape self) n, md_strides = md_strides self @ [s]\<rparr>"

subsection \<open>Layout builders and checks\<close>

definition row_major_contiguous_strides :: "shape \<Rightarrow> strides option" where
  "row_major_contiguous_strides shape =
     (if 1 < length shape
      then mfold (\<lambda>i strides. do {
             s \<leftarrow> vec_get strides (Suc i);
             d \<leftarrow> vec_get shape (Suc i);
             v \<leftarrow> umul s d;
             vec_set strides i v
           }) (rev [0..<length shape - 1]) (replicate (length shape) 1)
      else Some (replicate (length shape) 1))"

datatype stride_error =
    UnsupportedRank usize shape strides
  | MalformedRanks shape strides
  | InvalidLayout string shape strides

definition try_check_matching_ranks :: "shape \<Rightarrow> strides \<Rightarrow> stride_error + usize" where
  "try_check_matching_ranks shape strides =
     (if length strides \<noteq> length shape then Inl (MalformedRanks shape strides)
      else Inr (length shape))"

text \<open>\<open>for i in 0..n { if strides[i] != shape[i + 1] * strides[i + 1] { valid = false; break; } }\<close>\<close>

fun check_row_major :: "shape \<Rightarrow> strides \<Rightarrow> usize list \<Rightarrow> bool option" where
  "check_row_major shape strides [] = Some True"
| "check_row_major shape strides (i # is) = do {
     s \<leftarrow> vec_get strides i;
     d \<leftarrow> vec_get shape (Suc i);
     s1 \<leftarrow> vec_get strides (Suc i);
     v \<leftarrow> umul d s1;
     (if s \<noteq> v then Some False else check_row_major shape strides is)
   }"

definition try_check_pitched_row_major_strides :: "shape \<Rightarrow> strides \<Rightarrow> (stride_error + unit) option" where
  "try_check_pitched_row_major_strides shape strides =
     (case try_check_matching_ranks shape strides of
        Inl e \<Rightarrow> Some (Inl e)
      | Inr r \<Rightarrow>
          if r = 0 then Some (Inl (UnsupportedRank r shape strides))
          else do {
            let valid = (strides ! (r - 1) = 1 \<and> (\<forall>s \<in> set strides. s \<noteq> 0));
            valid_layout \<leftarrow>
              (if valid \<and> 1 < r
               then do {
                 ok \<leftarrow> check_row_major shape strides [0..<r - 2];
                 Some (\<not> strides ! (r - 2) < shape ! (r - 1) \<and> ok)
               }
               else Some valid);
            Some (if valid_layout then Inr ()
                  else Inl (InvalidLayout ''strides are not valid pitched row major order'' shape strides))
          })"

definition try_check_contiguous_row_major_strides :: "shape \<Rightarrow> strides \<Rightarrow> (stride_error + unit) option" where
  "try_check_contiguous_row_major_strides shape strides =
     (case try_check_matching_ranks shape strides of
        Inl e \<Rightarrow> Some (Inl e)
      | Inr r \<Rightarrow>
          if r = 0 then Some (Inl (UnsupportedRank r shape strides))
          else do {
            valid_layout \<leftarrow>
              (if strides ! (r - 1) = 1 \<and> 1 < r then check_row_major shape strides [0..<r - 1]
               else Some (strides ! (r - 1) = 1));
            Some (if valid_layout then Inr ()
                  else Inl (InvalidLayout ''strides are not contiguous in row major order'' shape strides))
          })"

definition stride_check_bool :: "(stride_error + unit) option \<Rightarrow> bool option" where
  "stride_check_bool r = do {
     v \<leftarrow> r;
     (case v of
        Inr _ \<Rightarrow> Some True
      | Inl (UnsupportedRank _ _ _) \<Rightarrow> None
      | Inl (MalformedRanks _ _) \<Rightarrow> None
      | Inl (InvalidLayout _ _ _) \<Rightarrow> Some False)
   }"

definition has_pitched_row_major_strides :: "shape \<Rightarrow> strides \<Rightarrow> bool option" where
  "has_pitched_row_major_strides shape strides =
     stride_check_bool (try_check_pitched_row_major_strides shape strides)"

definition has_contiguous_row_major_strides :: "shape \<Rightarrow> strides \<Rightarrow> bool option" where
  "has_contiguous_row_major_strides shape strides =
     stride_check_bool (try_check_contiguous_row_major_strides shape strides)"

subsection \<open>Reshape analysis\<close>

definition contiguous_strides :: "shape \<Rightarrow> strides option" where
  "contiguous_strides shape = do {
     (strides, current) \<leftarrow>
       mfold (\<lambda>i (strides, current). do {
           dim \<leftarrow> vec_get shape i;
           strides' \<leftarrow> vec_set strides i current;
           current' \<leftarrow> umul current dim;
           Some (strides', current')
         }) (rev [0..<length shape]) (replicate (length shape) 0, 1);
     Some strides
   }"

definition is_contiguous :: "shape \<Rightarrow> strides \<Rightarrow> bool option" where
  "is_contiguous shape strides =
     (if shape = [] then Some True
      else do {
        expected \<leftarrow> contiguous_strides shape;
        Some (\<forall>(e, s) \<in> set (zip expected strides). e = s)
      })"

datatype reshape_action_result =
    UpdateStrides strides
  | Recompute
  | ActionNoChange

datatype reshape_kind =
    IsContiguous
  | HighlyPermuted
  | Broadcasted
  | Split
  | SmallerRank
  | NoChange

definition broadcast_strides :: "usize \<Rightarrow> usize \<Rightarrow> usize \<Rightarrow> strides \<Rightarrow> strides option" where
  "broadcast_strides n_new_batch rank_prev num_elems strides =
     mfold (\<lambda>i strides_new. do {
         s \<leftarrow> vec_get strides i;
         vec_set strides_new (i + n_new_batch) s
       }) [0..<length strides] (replicate (rank_prev + n_new_batch) num_elems)"

text \<open>\<open>while old_idx > 0 && shape[old_idx] == 1 { old_idx -= 1; }\<close>\<close>

fun skip_units_back :: "shape \<Rightarrow> usize \<Rightarrow> usize option" where
  "skip_units_back shape 0 = Some 0"
| "skip_units_back shape (Suc i) = do {
     d \<leftarrow> vec_get shape (Suc i);
     (if d = 1 then skip_units_back shape i else Some (Suc i))
   }"

definition split_strides :: "shape \<Rightarrow> strides \<Rightarrow> shape \<Rightarrow> strides option" where
  "split_strides shape strides shape_new = do {
     last_idx \<leftarrow> usub (length shape) 1;
     old_idx0 \<leftarrow> skip_units_back shape last_idx;
     current0 \<leftarrow> vec_get strides old_idx0;
     (strides_new, _) \<leftarrow>
       mfold (\<lambda>i (strides_new, old_idx, current_stride, dim_prod). do {
           dim \<leftarrow> vec_get shape_new i;
           dim_prod' \<leftarrow> umul dim_prod dim;
           strides_new' \<leftarrow> vec_set strides_new i current_stride;
           (if dim = 1 then Some (strides_new', old_idx, current_stride, dim_prod')
            else do {
              d \<leftarrow> vec_get shape old_idx;
              (if dim_prod' = d then do {
                 old_idx' \<leftarrow> skip_units_back shape (old_idx - 1);
                 current' \<leftarrow> vec_get strides old_idx';
                 Some (strides_new', old_idx', current', 1)
               }
               else do {
                 current' \<leftarrow> umul current_stride dim;
                 Some (strides_new', old_idx, current', dim_prod')
               })
            })
         }) (rev [0..<length shape_new]) (replicate (length shape_new) 1, old_idx0, current0, 1);
     Some strides_new
   }"

text \<open>\<open>while old_idx < shape_rank && shape[old_idx] == 1 { old_idx += 1; }\<close>\<close>

function skip_units_fwd :: "shape \<Rightarrow> usize \<Rightarrow> usize" where
  "skip_units_fwd shape i = (if i < length shape \<and> shape ! i = 1 then skip_units_fwd shape (Suc i) else i)"
  by pat_completeness auto
termination
  by (relation "measure (\<lambda>(shape, i). length shape - i)") auto

declare skip_units_fwd.simps [simp del]

text \<open>The loop over the new dimensions; \<open>False\<close> is the early return of \<open>HighlyPermuted\<close>.\<close>

fun split_check :: "shape \<Rightarrow> usize list \<Rightarrow> usize \<Rightarrow> usize \<Rightarrow> bool option" where
  "split_check shape [] dim_prod old_idx = Some True"
| "split_check shape (dim # dims) dim_prod old_idx = do {
     dim_prod' \<leftarrow> umul dim_prod dim;
     (if dim = 1 then split_check shape dims dim_prod' old_idx
      else
        let old_idx' = skip_units_fwd shape old_idx in
        if old_idx' = length shape then Some False
        else if dim_prod' = shape ! old_idx' then split_check shape dims 1 (Suc old_idx')
        else if shape ! old_idx' < dim_prod' then Some False
        else split_check shape dims dim_prod' old_idx')
   }"

definition reshape_analysis :: "shape \<Rightarrow> strides option \<Rightarrow> shape \<Rightarrow> reshape_kind option" where
  "reshape_analysis shape strides shape_new = do {
     contiguous \<leftarrow> (case strides of Some st \<Rightarrow> is_contiguous shape st | None \<Rightarrow> Some False);
     (if contiguous then Some IsContiguous
      else if length shape_new < length shape then Some SmallerRank
      else
        let n_new_batch = length shape_new - length shape in
        if 0 < n_new_batch then
          if shape = drop n_new_batch shape_new \<and> (\<forall>it \<in> set (take n_new_batch shape_new). it = 1)
          then Some Broadcasted
          else do {
            ok \<leftarrow> split_check shape shape_new 1 0;
            Some (if ok then Split else HighlyPermuted)
          }
        else if shape = shape_new then Some NoChange
        else Some HighlyPermuted)
   }"

definition analysis_action :: "reshape_kind \<Rightarrow> shape \<Rightarrow> strides \<Rightarrow> shape \<Rightarrow> reshape_action_result option" where
  "analysis_action self shape strides shape_new =
     (case self of
        IsContiguous \<Rightarrow> do { s \<leftarrow> contiguous_strides shape_new; Some (UpdateStrides s) }
      | NoChange \<Rightarrow> Some ActionNoChange
      | HighlyPermuted \<Rightarrow> Some Recompute
      | SmallerRank \<Rightarrow> Some Recompute
      | Broadcasted \<Rightarrow> do {
          n_new_batch \<leftarrow> usub (length shape_new) (length shape);
          num_elems \<leftarrow> uproduct shape;
          s \<leftarrow> broadcast_strides n_new_batch (length shape) num_elems strides;
          Some (UpdateStrides s)
        }
      | Split \<Rightarrow> do { s \<leftarrow> split_strides shape strides shape_new; Some (UpdateStrides s) })"

definition reshape_action :: "shape \<Rightarrow> strides \<Rightarrow> shape \<Rightarrow> reshape_action_result option" where
  "reshape_action shape strides shape_new = do {
     kind \<leftarrow> reshape_analysis shape (Some strides) shape_new;
     analysis_action kind shape strides shape_new
   }"

subsection \<open>The contiguous strides\<close>

lemma fits_drop: "fits xs \<Longrightarrow> fits (drop j xs)"
  by (metis append_take_drop_id fits_appendD2)

lemma rm_strides_drop: "rm_strides (drop j ds) = drop j (rm_strides ds)"
  by (induction ds arbitrary: j) (auto simp: drop_Cons split: nat.splits)

lemma rm_strides_nth: "i < length ds \<Longrightarrow> rm_strides ds ! i = prod_list (drop (Suc i) ds)"
  by (induction ds arbitrary: i) (auto simp: nth_Cons split: nat.splits)

lemma prod_list_drop: "j < length ds \<Longrightarrow> prod_list (drop j ds) = ds ! j * prod_list (drop (Suc j) ds)"
  by (metis Cons_nth_drop_Suc prod_list.Cons)

lemma drop_update: "i < length xs \<Longrightarrow> drop i (xs[i := v]) = v # drop (Suc i) xs"
  by (metis Cons_nth_drop_Suc drop_update_cancel length_list_update lessI nth_list_update_eq)

lemma contiguous_strides_rm:
  assumes "fits shape"
  shows "contiguous_strides shape = Some (rm_strides shape)"
proof -
  let ?body = "\<lambda>i (strides, current). do {
           dim \<leftarrow> vec_get shape i;
           strides' \<leftarrow> vec_set strides i current;
           current' \<leftarrow> umul current dim;
           Some (strides', current')
         }"
  define Q where "Q = (\<lambda>j (xs, c). length xs = length shape \<and>
     drop j xs = drop j (rm_strides shape) \<and> c = prod_list (drop j shape))"
  have "\<exists>s'. mfold ?body (rev [0..<length shape]) (replicate (length shape) 0, 1) = Some s' \<and> Q 0 s'"
  proof (rule mfold_rev_upt)
    show "Q (length shape) (replicate (length shape) 0, 1)" by (simp add: Q_def)
    fix j st assume j: "j < length shape" and Q: "Q (Suc j) st"
    obtain xs c where st: "st = (xs, c)" by fastforce
    have "prod_list (drop (Suc j) shape) * shape ! j < usize_lim"
      using fits_prod [OF fits_drop [OF assms, of j]] j by (simp add: prod_list_drop mult.commute)
    then show "\<exists>s'. ?body j st = Some s' \<and> Q j s'"
      using j Q
      by (auto simp: st Q_def rust_simps drop_update rm_strides_nth prod_list_drop
          Cons_nth_drop_Suc [symmetric])
  qed
  then show ?thesis
    by (auto simp: contiguous_strides_def Q_def)
qed

lemma row_major_contiguous_strides_rm:
  assumes "fits shape"
  shows "row_major_contiguous_strides shape = Some (rm_strides shape)"
proof (cases "1 < length shape")
  case True
  let ?n = "length shape - 1"
  let ?body = "\<lambda>i strides. do {
             s \<leftarrow> vec_get strides (Suc i);
             d \<leftarrow> vec_get shape (Suc i);
             v \<leftarrow> umul s d;
             vec_set strides i v
           }"
  define Q where "Q = (\<lambda>j xs. length xs = length shape \<and> drop j xs = drop j (rm_strides shape))"
  have "\<exists>s'. mfold ?body (rev [0..<?n]) (replicate (length shape) 1) = Some s' \<and> Q 0 s'"
  proof (rule mfold_rev_upt)
    have "drop ?n (rm_strides shape) = [rm_strides shape ! ?n]"
      using True Cons_nth_drop_Suc [of ?n "rm_strides shape"] by simp
    then show "Q ?n (replicate (length shape) 1)"
      using True by (simp add: Q_def rm_strides_nth)
    fix j xs assume j: "j < ?n" and Q: "Q (Suc j) xs"
    then have "Suc j < length shape" by simp
    then have "xs ! Suc j = rm_strides shape ! Suc j"
      using Q hd_drop_conv_nth [of "Suc j" xs] hd_drop_conv_nth [of "Suc j" "rm_strides shape"]
      by (simp add: Q_def)
    then have "xs ! Suc j * shape ! Suc j = prod_list (drop (Suc j) shape)"
      using j by (simp add: rm_strides_nth prod_list_drop mult.commute)
    moreover from this have "xs ! Suc j * shape ! Suc j < usize_lim"
      using fits_prod [OF fits_drop [OF assms]] by metis
    ultimately show "\<exists>s'. ?body j xs = Some s' \<and> Q j s'"
      using j Q
      by (auto simp: Q_def rust_simps drop_update rm_strides_nth Cons_nth_drop_Suc [symmetric])
  qed
  with True show ?thesis
    by (auto simp: row_major_contiguous_strides_def Q_def)
next
  case False
  then show ?thesis
    by (cases shape) (auto simp: row_major_contiguous_strides_def)
qed

lemma check_row_major_iff:
  assumes "length strides = length shape" "\<forall>i \<in> set is. Suc i < length shape"
    and "\<forall>i \<in> set is. shape ! Suc i * strides ! Suc i < usize_lim"
  shows "check_row_major shape strides is =
    Some (\<forall>i \<in> set is. strides ! i = shape ! Suc i * strides ! Suc i)"
  using assms by (induction "is") (auto simp: rust_simps)

lemma rm_strides_iff:
  assumes "length ss = length ds" "ds \<noteq> []"
  shows "ss = rm_strides ds \<longleftrightarrow> ss ! (length ds - 1) = 1 \<and>
    (\<forall>i < length ds - 1. ss ! i = ds ! Suc i * ss ! Suc i)"
  using assms
proof (induction ds arbitrary: ss)
  case (Cons d ds)
  then obtain s ss' where ss: "ss = s # ss'" "length ss' = length ds" by (cases ss) auto
  show ?case
  proof (cases ds)
    case Nil
    with ss show ?thesis by simp
  next
    case (Cons e es)
    have all: "(\<forall>i < length ds. P i) \<longleftrightarrow> P 0 \<and> (\<forall>i < length ds - 1. P (Suc i))" for P
      using Cons by (auto simp: less_Suc_eq_0_disj)
    have ih: "ss' = rm_strides ds \<longleftrightarrow> ss' ! (length ds - 1) = 1 \<and>
        (\<forall>i < length ds - 1. ss' ! i = ds ! Suc i * ss' ! Suc i)"
      using Cons.IH [of ss'] ss Cons by simp
    have "ss = rm_strides (d # ds) \<longleftrightarrow> s = ds ! 0 * ss' ! 0 \<and> ss' = rm_strides ds"
      using Cons ss by auto
    with ih show ?thesis
      using ss Cons all [of "\<lambda>i. (s # ss') ! i = (d # ds) ! Suc i * (s # ss') ! Suc i"]
      by auto
  qed
qed simp

end
