(* ===== verification/Tensor_Reshape.thy ===== *)
theory Tensor_Reshape
  imports Tensor_Striding
begin

text \<open>
  Soundness of the stride analysis of \<open>striding/reshape.rs\<close>: whenever \<open>reshape_action\<close>
  answers that new strides suffice, every element keeps its position in the buffer.
\<close>

subsection \<open>Products and positions of suffixes\<close>

lemma prod_list_drop_mono:
  assumes "0 < prod_list (ds :: nat list)" "a \<le> b"
  shows "prod_list (drop b ds) \<le> prod_list (drop a ds)"
proof -
  have "drop a ds = take (b - a) (drop a ds) @ drop b ds"
    using assms(2) by (metis append_take_drop_id drop_drop le_add_diff_inverse2)
  then have eq: "prod_list (drop a ds) = prod_list (take (b - a) (drop a ds)) * prod_list (drop b ds)"
    by (metis prod_list.append)
  have "0 < prod_list (drop a ds)"
    using assms(1) by (metis append_take_drop_id nat_0_less_mult_iff prod_list.append)
  then have "1 \<le> prod_list (take (b - a) (drop a ds))"
    using eq by (metis Suc_leI nat_0_less_mult_iff One_nat_def)
  then show ?thesis
    using eq mult_le_mono1 by fastforce
qed

lemma prod_list_take_mono:
  assumes "0 < prod_list (ds :: nat list)" "a \<le> b"
  shows "prod_list (take a ds) \<le> prod_list (take b ds)"
proof -
  have eq: "take b ds = take a ds @ take (b - a) (drop a ds)"
    using assms(2) by (metis le_add_diff_inverse take_add)
  have "0 < prod_list (take b ds)"
    using assms(1) by (metis append_take_drop_id nat_0_less_mult_iff prod_list.append)
  then have "1 \<le> prod_list (take (b - a) (drop a ds))"
    unfolding eq by (simp add: Suc_leI)
  then show ?thesis
    unfolding eq using mult_le_mono2 by fastforce
qed

lemma prod_list_take_Suc: "j < length ds \<Longrightarrow> prod_list (take (Suc j) ds) = prod_list (take j ds) * ds ! j"
  by (simp add: take_Suc_conv_app_nth)

lemma prod_list_take_drop: "prod_list (take j ds) * prod_list (drop j ds) = prod_list (ds :: nat list)"
  by (metis append_take_drop_id prod_list.append)

lemma prod_list_drop_pos: "0 < prod_list (ds :: nat list) \<Longrightarrow> 0 < prod_list (drop j ds)"
  by (metis prod_list_take_drop nat_0_less_mult_iff)

lemma prod_list_take_pos: "0 < prod_list (ds :: nat list) \<Longrightarrow> 0 < prod_list (take j ds)"
  by (metis prod_list_take_drop nat_0_less_mult_iff)

lemma nth_le_prod_list:
  assumes "i < length ds" "0 < prod_list ds"
  shows "ds ! i \<le> prod_list (ds :: nat list)"
proof -
  have "ds ! i * 1 \<le> ds ! i * prod_list (drop (Suc i) ds)"
    using prod_list_drop_pos [OF assms(2), of "Suc i"] by (intro mult_le_mono2) simp
  also have "\<dots> \<le> prod_list ds"
    using prod_list_drop [OF assms(1)] prod_list_drop_mono [OF assms(2), of 0 i] by simp
  finally show ?thesis by simp
qed

lemma upos_drop:
  assumes "j < length ds" "length ss = length ds"
  shows "upos (drop j ds) (drop j ss) k =
    (k div prod_list (drop (Suc j) ds)) mod ds ! j * ss ! j + upos (drop (Suc j) ds) (drop (Suc j) ss) k"
  using assms by (simp add: upos_def Cons_nth_drop_Suc [symmetric])

lemma mod_split: "(m div a mod b) * (s * a) + m mod a * s = m mod (a * b) * (s::nat)"
  by (simp add: mod_mult2_eq algebra_simps)

lemma udot_nth_le: "i < length cs \<Longrightarrow> i < length ss \<Longrightarrow> cs ! i * ss ! i \<le> udot cs ss"
proof (induction cs ss arbitrary: i rule: udot.induct)
  case (1 c cs s ss)
  then show ?case by (cases i) (auto intro: trans_le_add2)
qed auto

subsection \<open>The forward check\<close>

text \<open>Every boundary between two old dimensions is a boundary between two new ones.\<close>

definition boundaries :: "shape \<Rightarrow> shape \<Rightarrow> usize \<Rightarrow> bool" where
  "boundaries old new n \<longleftrightarrow> (\<forall>i \<le> n. \<exists>b. prod_list (take b new) = prod_list (take i old))"

lemma boundaries_Suc:
  "boundaries old new (Suc n) \<longleftrightarrow>
   boundaries old new n \<and> (\<exists>b. prod_list (take b new) = prod_list (take (Suc n) old))"
  by (auto simp: boundaries_def le_Suc_eq)

lemma skip_units_fwd_spec:
  assumes "i \<le> length old" "boundaries old new i"
  shows "i \<le> skip_units_fwd old i \<and> skip_units_fwd old i \<le> length old \<and>
    prod_list (take (skip_units_fwd old i) old) = prod_list (take i old) \<and>
    boundaries old new (skip_units_fwd old i) \<and>
    (skip_units_fwd old i < length old \<longrightarrow> old ! skip_units_fwd old i \<noteq> 1)"
  using assms
proof (induction old i rule: skip_units_fwd.induct)
  case (1 old i)
  show ?case
  proof (cases "i < length old \<and> old ! i = 1")
    case True
    then have p: "prod_list (take (Suc i) old) = prod_list (take i old)"
      by (simp add: prod_list_take_Suc)
    then have "boundaries old new (Suc i)"
      using 1 by (auto simp: boundaries_Suc) (auto simp: boundaries_def)
    with 1 True p show ?thesis
      by (subst (1 2 3 4 5 6) skip_units_fwd.simps) auto
  next
    case False
    with 1 show ?thesis by (subst (1 2 3 4 5 6) skip_units_fwd.simps) auto
  qed
qed

lemma skip_units_fwd_stop: "i < length old \<Longrightarrow> old ! i \<noteq> 1 \<Longrightarrow> skip_units_fwd old i = i"
  by (subst skip_units_fwd.simps) simp

lemma split_check_boundaries:
  assumes "new = pre @ dims" "prod_list pre = prod_list (take i old) * dp" "i \<le> length old"
    and "dp = 1 \<or> i < length old \<and> dp < old ! i"
    and "boundaries old new i"
    and "0 < prod_list new" "prod_list new = prod_list old" "prod_list new < usize_lim"
  shows "\<exists>r. split_check old dims dp i = Some r \<and> (r \<longrightarrow> boundaries old new (length old))"
  using assms
proof (induction dims arbitrary: pre i dp)
  case Nil
  have "dp = 1"
  proof (rule ccontr)
    assume "dp \<noteq> 1"
    with Nil have i: "i < length old" "dp < old ! i" by auto
    moreover have "0 < prod_list (take i old)"
      using Nil.prems(6,7) by (intro prod_list_take_pos) metis
    ultimately have "prod_list (take i old) * dp < prod_list (take (Suc i) old)"
      by (simp only: prod_list_take_Suc mult_less_cancel1)
    also have "\<dots> \<le> prod_list old"
      using prod_list_take_mono [of old "Suc i" "length old"] Nil i by simp
    finally show False using Nil by simp
  qed
  with Nil have all: "prod_list (take i old) = prod_list old" by simp
  have "\<exists>b. prod_list (take b new) = prod_list (take j old)" if "j \<le> length old" for j
  proof (cases "j \<le> i")
    case True
    with Nil show ?thesis by (simp add: boundaries_def)
  next
    case False
    then have "prod_list (take j old) = prod_list old"
      using all prod_list_take_mono [of old i j] prod_list_take_mono [of old j "length old"] Nil that
      by simp
    with Nil show ?thesis by (intro exI [of _ "length new"]) simp
  qed
  then show ?case by (auto simp: boundaries_def)
next
  case (Cons d dims)
  let ?i = "skip_units_fwd old i"
  have pre': "prod_list (pre @ [d]) = prod_list (take i old) * (dp * d)"
    using Cons by simp
  have new': "new = (pre @ [d]) @ dims" using Cons by simp
  have pos: "0 < prod_list (pre @ [d])" "0 < prod_list dims" "prod_list new = prod_list (pre @ [d]) * prod_list dims"
    using Cons.prems(1,6) unfolding new' by auto
  then have "prod_list (pre @ [d]) < usize_lim"
    using Cons.prems by (metis factor_lt)
  moreover have "1 \<le> prod_list (take i old)"
    using Cons prod_list_take_pos [of old i] by simp
  ultimately have lim: "dp * d < usize_lim"
    using pre' by (metis factor_lt mult.commute less_eq_Suc_le One_nat_def)
  show ?case
  proof (cases "d = 1")
    case True
    with Cons.IH [OF new' pre'] Cons.prems lim show ?thesis by (simp add: umul_ok)
  next
    case False
    have sk: "i \<le> ?i" "?i \<le> length old" "prod_list (take ?i old) = prod_list (take i old)"
        "boundaries old new ?i" "?i < length old \<longrightarrow> old ! ?i \<noteq> 1"
      using skip_units_fwd_spec [OF Cons.prems(3,5)] by auto
    have pre'': "prod_list (pre @ [d]) = prod_list (take ?i old) * (dp * d)"
      using pre' sk by simp
    show ?thesis
    proof (cases "?i = length old \<or> old ! ?i < dp * d")
      case True
      then have "split_check old (d # dims) dp i = Some False"
        using False lim by (auto simp: umul_ok Let_def)
      then show ?thesis by (intro exI [of _ False]) blast
    next
      case le: False
      then have i: "?i < length old" using sk by simp
      show ?thesis
      proof (cases "dp * d = old ! ?i")
        case True
        then have p: "prod_list (pre @ [d]) = prod_list (take (Suc ?i) old) * 1"
          using pre'' i by (simp add: prod_list_take_Suc)
        then have "boundaries old new (Suc ?i)"
          unfolding boundaries_Suc using sk new'
          by (intro conjI exI [of _ "length (pre @ [d])"]) auto
        with Cons.IH [OF new' p] Cons.prems i True False lim show ?thesis
          by (simp add: umul_ok)
      next
        case neq: False
        with Cons.IH [OF new' pre''] Cons.prems sk i le False lim show ?thesis
          by (simp add: umul_ok)
      qed
    qed
  qed
qed

subsection \<open>The backward pass\<close>

lemma skip_units_back_spec:
  assumes "i < length old" "length st = length old"
  shows "\<exists>o'. skip_units_back old i = Some o' \<and> o' \<le> i \<and> (o' = 0 \<or> old ! o' \<noteq> 1) \<and>
    prod_list (drop (Suc o') old) = prod_list (drop (Suc i) old) \<and>
    (\<forall>k. upos (drop (Suc o') old) (drop (Suc o') st) k = upos (drop (Suc i) old) (drop (Suc i) st) k)"
  using assms
proof (induction i)
  case (Suc i)
  show ?case
  proof (cases "old ! Suc i = 1")
    case True
    with Suc have "prod_list (drop (Suc i) old) = prod_list (drop (Suc (Suc i)) old)"
      "\<And>k. upos (drop (Suc i) old) (drop (Suc i) st) k =
         upos (drop (Suc (Suc i)) old) (drop (Suc (Suc i)) st) k"
      by (simp_all add: prod_list_drop upos_drop)
    with Suc True show ?thesis by (auto simp: vec_get_ok)
  next
    case False
    with Suc.prems show ?thesis by (auto simp: vec_get_ok)
  qed
qed auto

text \<open>
  The state of the backward loop before index \<open>j\<close>: inside old dimension \<open>i\<close>, of which a
  factor \<open>dp\<close> is already split off, or past the last old dimension.
\<close>

definition split_inside :: "shape \<Rightarrow> strides \<Rightarrow> shape \<Rightarrow> nat \<Rightarrow> strides \<Rightarrow> nat \<Rightarrow> nat \<Rightarrow> nat \<Rightarrow> bool" where
  "split_inside old st new j xs i cur dp \<longleftrightarrow>
     0 < dp \<and> dp < old ! i \<and> cur = st ! i * dp \<and>
     prod_list (drop j new) = prod_list (drop (Suc i) old) * dp \<and>
     (\<forall>k. upos (drop j new) (drop j xs) k =
        (k div prod_list (drop (Suc i) old)) mod dp * st ! i + upos (drop (Suc i) old) (drop (Suc i) st) k)"

definition split_done :: "shape \<Rightarrow> strides \<Rightarrow> shape \<Rightarrow> nat \<Rightarrow> strides \<Rightarrow> nat \<Rightarrow> bool" where
  "split_done old st new j xs dp \<longleftrightarrow>
     dp = 1 \<and> prod_list (drop j new) = prod_list old \<and>
     (\<forall>k. upos (drop j new) (drop j xs) k = upos old st k)"

definition split_inv :: "shape \<Rightarrow> strides \<Rightarrow> shape \<Rightarrow> nat \<Rightarrow> strides \<times> nat \<times> nat \<times> nat \<Rightarrow> bool" where
  "split_inv old st new j = (\<lambda>(xs, i, cur, dp).
     length xs = length new \<and> i < length old \<and>
     (split_inside old st new j xs i cur dp \<or> split_done old st new j xs dp))"

text \<open>When the suffix from old dimension \<open>m\<close> on is done, the loop resynchronises below it.\<close>

lemma split_inv_resync:
  assumes "i < length old" "length st = length old" "length xs = length new" "0 < prod_list old"
    and fin: "prod_list (drop j new) = prod_list (drop m old)"
      "\<And>k. upos (drop j new) (drop j xs) k = upos (drop m old) (drop m st) k"
    and m: "m = Suc i \<or> m = 0 \<and> i = 0"
  shows "\<exists>o'. skip_units_back old i = Some o' \<and> o' < length old \<and>
    split_inv old st new j (xs, o', st ! o', 1)"
proof (cases "m = 0")
  case True
  with m assms show ?thesis by (auto simp: split_inv_def split_done_def)
next
  case False
  with m have m: "m = Suc i" by simp
  obtain o' where o': "skip_units_back old i = Some o'" "o' \<le> i" "o' = 0 \<or> old ! o' \<noteq> 1"
    "prod_list (drop (Suc o') old) = prod_list (drop m old)"
    "\<And>k. upos (drop (Suc o') old) (drop (Suc o') st) k = upos (drop m old) (drop m st) k"
    using skip_units_back_spec [OF assms(1,2)] m by auto
  have len: "o' < length old" using o' assms by simp
  have "split_inv old st new j (xs, o', st ! o', 1)"
  proof (cases "old ! o' = 1")
    case True
    with o' have z: "o' = 0" by simp
    have "prod_list old = prod_list (drop m old)" "\<And>k. upos old st k = upos (drop m old) (drop m st) k"
      using True z len o'(4,5) prod_list_drop [of 0 old] upos_drop [of 0 old st] assms(2) by simp_all
    with fin len assms show ?thesis by (simp add: split_inv_def split_done_def)
  next
    case False
    have "old ! o' \<noteq> 0"
      using assms(4) len prod_list_pos [of old] by (metis nth_mem less_numeral_extra(3))
    with False have "1 < old ! o'" by simp
    with fin len o' assms show ?thesis by (simp add: split_inv_def split_inside_def)
  qed
  with o' len show ?thesis by auto
qed

lemma split_step_unit:
  assumes "split_inv old st new (Suc j) (xs, i, cur, dp)" "j < length new" "new ! j = 1"
  shows "split_inv old st new j (xs[j := v], i, cur, dp)"
proof -
  have "length xs = length new" using assms(1) by (simp add: split_inv_def)
  with assms(2,3) have "prod_list (drop j new) = prod_list (drop (Suc j) new)"
    "\<And>k. upos (drop j new) (drop j (xs[j := v])) k = upos (drop (Suc j) new) (drop (Suc j) xs) k"
    by (simp_all add: prod_list_drop upos_drop)
  with assms(1) show ?thesis
    by (simp add: split_inv_def split_inside_def split_done_def)
qed

lemma boundary_bound:
  assumes b: "boundaries old new (length old)" and i: "i < length old"
    and eq: "prod_list new = prod_list old" and pos: "0 < prod_list old"
    and in1: "prod_list (drop (Suc j) new) = prod_list (drop (Suc i) old) * dp" "dp < old ! i"
    and j: "j < length new"
  shows "dp * new ! j \<le> old ! i"
proof -
  let ?P = "prod_list (drop (Suc i) old)"
  obtain b where "prod_list (take b new) = prod_list (take i old)"
    using b i unfolding boundaries_def by (meson less_imp_le_nat)
  then have b: "prod_list (drop b new) = prod_list (drop i old)"
    using eq pos prod_list_take_drop [of b new] prod_list_take_drop [of i old] prod_list_take_pos [of old i]
    by (metis mult_cancel1 nat_neq_iff)
  have P: "0 < ?P" using pos by (rule prod_list_drop_pos)
  have old: "prod_list (drop i old) = ?P * old ! i"
    using i by (simp add: prod_list_drop)
  then have "prod_list (drop (Suc j) new) < prod_list (drop b new)"
    using in1 b P by simp
  then have "b \<le> j"
    using prod_list_drop_mono [of new "Suc j" b] eq pos by (metis leD not_less_eq_eq)
  then have "prod_list (drop j new) \<le> prod_list (drop b new)"
    using prod_list_drop_mono [of new b j] eq pos by simp
  then have "?P * (dp * new ! j) \<le> ?P * old ! i"
    using j b old in1 by (simp add: prod_list_drop ac_simps)
  with P show ?thesis by simp
qed

lemma split_step_pos:
  assumes "split_inside old st new (Suc j) xs i cur dp" "j < length new" "length xs = length new"
  shows "upos (drop j new) (drop j (xs[j := cur])) k =
      (k div prod_list (drop (Suc i) old)) mod (dp * new ! j) * st ! i +
      upos (drop (Suc i) old) (drop (Suc i) st) k"
proof -
  let ?m = "k div prod_list (drop (Suc i) old)"
  have "(k div (prod_list (drop (Suc i) old) * dp)) mod new ! j * (st ! i * dp) + ?m mod dp * st ! i =
      ?m mod (dp * new ! j) * st ! i"
    using mod_split [of ?m dp "new ! j" "st ! i"] by (simp add: div_mult2_eq)
  with assms show ?thesis
    by (simp add: upos_drop split_inside_def)
qed

text \<open>What the split case of the analysis hands to \<open>split_strides\<close>.\<close>

definition split_ok :: "shape \<Rightarrow> strides \<Rightarrow> shape \<Rightarrow> bool" where
  "split_ok old st new \<longleftrightarrow> boundaries old new (length old) \<and> length st = length old \<and> old \<noteq> [] \<and>
     prod_list new = prod_list old \<and> 0 < prod_list old \<and> prod_list old < usize_lim \<and>
     udot (map (\<lambda>d. d - 1) old) st < usize_lim"

lemma split_inside_step:
  assumes ok: "split_ok old st new" and i: "i < length old" and xs: "length xs = length new"
    and inside: "split_inside old st new (Suc j) xs i cur dp" and j: "j < length new" "new ! j \<noteq> 1"
  shows "dp * new ! j < usize_lim \<and>
    (if dp * new ! j = old ! i
     then \<exists>o'. skip_units_back old (i - 1) = Some o' \<and> o' < length old \<and>
       split_inv old st new j (xs[j := cur], o', st ! o', 1)
     else cur * new ! j < usize_lim \<and>
       split_inv old st new j (xs[j := cur], i, cur * new ! j, dp * new ! j))"
proof -
  let ?d = "dp * new ! j"
  note ok' = ok [unfolded split_ok_def] and in' = inside [unfolded split_inside_def]
  have le: "?d \<le> old ! i"
    using ok' in' i j by (intro boundary_bound) auto
  have "old ! i \<le> prod_list old"
    using i ok' by (intro nth_le_prod_list) auto
  then have lim: "?d < usize_lim" using le ok' by linarith
  have suffix: "prod_list (drop j new) = prod_list (drop (Suc i) old) * ?d"
    using in' j by (simp add: prod_list_drop)
  note up = split_step_pos [OF inside j(1) xs]
  show ?thesis
  proof (cases "?d = old ! i")
    case True
    have "\<exists>o'. skip_units_back old (i - 1) = Some o' \<and> o' < length old \<and>
        split_inv old st new j (xs[j := cur], o', st ! o', 1)"
    proof (rule split_inv_resync [where m = i])
      show "prod_list (drop j new) = prod_list (drop i old)"
        using suffix True by (simp add: prod_list_drop [OF i] mult.commute)
      show "upos (drop j new) (drop j (xs[j := cur])) k = upos (drop i old) (drop i st) k" for k
        using up True ok' by (simp add: upos_drop [OF i])
    qed (use i ok' xs in auto)
    with True lim show ?thesis by simp
  next
    case False
    with le have lt: "?d < old ! i" by simp
    have "st ! i * ?d \<le> st ! i * (old ! i - 1)"
      using lt by (intro mult_le_mono2) simp
    also have "\<dots> \<le> udot (map (\<lambda>d. d - 1) old) st"
      using udot_nth_le [of i "map (\<lambda>d. d - 1) old" st] i ok' by (simp add: mult.commute)
    finally have "cur * new ! j < usize_lim"
      using in' ok' by (simp add: mult.assoc)
    moreover have "0 < ?d"
      using suffix ok' prod_list_drop_pos [of new j] by (metis nat_0_less_mult_iff)
    then have "split_inside old st new j (xs[j := cur]) i (cur * new ! j) ?d"
      using lt suffix up in' by (simp add: split_inside_def)
    then have "split_inv old st new j (xs[j := cur], i, cur * new ! j, ?d)"
      using i xs by (simp add: split_inv_def)
    ultimately show ?thesis using False lim by simp
  qed
qed

lemma split_inv_dp:
  "split_ok old st new \<Longrightarrow> split_inv old st new j (xs, i, cur, dp) \<Longrightarrow> dp < usize_lim"
  using nth_le_prod_list [of i old]
  by (auto simp: split_inv_def split_ok_def split_inside_def split_done_def usize_lim_def)

lemma split_done_units:
  assumes ok: "split_ok old st new" and sd: "split_done old st new (Suc j) xs dp" and j: "j < length new"
  shows "new ! j = 1"
proof -
  have p: "prod_list (drop (Suc j) new) = prod_list new" "0 < prod_list new"
    using ok sd by (auto simp: split_ok_def split_done_def)
  then have "new ! j * prod_list new \<le> 1 * prod_list new"
    using prod_list_drop_mono [of new 0 j] prod_list_drop [OF j] by simp
  then have "new ! j \<le> 1" using p(2) by (simp only: mult_le_cancel2)
  moreover have "0 < new ! j"
    using p(2) j prod_list_pos [of new] by (metis nth_mem)
  ultimately show ?thesis by simp
qed

lemma split_inside_not_0:
  assumes "split_ok old st new" "i < length old"
  shows "\<not> split_inside old st new 0 xs i cur dp"
proof
  assume "split_inside old st new 0 xs i cur dp"
  then have "prod_list new = prod_list (drop (Suc i) old) * dp" "dp < old ! i"
    by (simp_all add: split_inside_def)
  moreover have "0 < prod_list (drop (Suc i) old)"
    using assms(1) by (intro prod_list_drop_pos) (simp add: split_ok_def)
  ultimately have "prod_list new < prod_list (drop (Suc i) old) * old ! i"
    by (simp only: mult_less_cancel1)
  also have "\<dots> \<le> prod_list old"
    using prod_list_drop_mono [of old 0 i] prod_list_drop [OF assms(2)] assms(1)
    by (simp add: split_ok_def mult.commute)
  finally show False using assms(1) by (simp add: split_ok_def)
qed

lemma split_strides_sound:
  assumes ok: "split_ok old st new"
  shows "\<exists>s. split_strides old st new = Some s \<and> length s = length new \<and>
    (\<forall>k. upos new s k = upos old st k)"
proof -
  note ok' = ok [unfolded split_ok_def]
  let ?body = "\<lambda>i (strides_new, old_idx, current_stride, dim_prod). do {
           dim \<leftarrow> vec_get new i;
           dim_prod' \<leftarrow> umul dim_prod dim;
           strides_new' \<leftarrow> vec_set strides_new i current_stride;
           (if dim = 1 then Some (strides_new', old_idx, current_stride, dim_prod')
            else do {
              d \<leftarrow> vec_get old old_idx;
              (if dim_prod' = d then do {
                 old_idx' \<leftarrow> skip_units_back old (old_idx - 1);
                 current' \<leftarrow> vec_get st old_idx';
                 Some (strides_new', old_idx', current', 1)
               }
               else do {
                 current' \<leftarrow> umul current_stride dim;
                 Some (strides_new', old_idx, current', dim_prod')
               })
            })
         }"
  let ?xs = "replicate (length new) 1"
  have "\<exists>o'. skip_units_back old (length old - 1) = Some o' \<and> o' < length old \<and>
      split_inv old st new (length new) (?xs, o', st ! o', 1)"
    by (rule split_inv_resync [where m = "length old"]) (use ok' in auto)
  then obtain o0 where o0: "skip_units_back old (length old - 1) = Some o0" "o0 < length old"
      "split_inv old st new (length new) (?xs, o0, st ! o0, 1)" by auto
  have "\<exists>s'. mfold ?body (rev [0..<length new]) (?xs, o0, st ! o0, 1) = Some s' \<and> split_inv old st new 0 s'"
  proof (rule mfold_rev_upt, rule o0(3))
    fix j s assume j: "j < length new" and Q: "split_inv old st new (Suc j) s"
    obtain xs i cur dp where s: "s = (xs, i, cur, dp)" by (cases s)
    have xs: "length xs = length new" and i: "i < length old"
      using Q by (auto simp: s split_inv_def)
    show "\<exists>s'. ?body j s = Some s' \<and> split_inv old st new j s'"
    proof (cases "new ! j = 1")
      case True
      have "dp < usize_lim" using split_inv_dp [OF ok Q [unfolded s]] .
      with True split_step_unit [OF Q [unfolded s] j True] j xs show ?thesis
        by (simp add: s rust_simps)
    next
      case False
      then have "\<not> split_done old st new (Suc j) xs dp"
        using split_done_units [OF ok _ j] by auto
      with Q have "split_inside old st new (Suc j) xs i cur dp"
        by (simp add: s split_inv_def)
      from split_inside_step [OF ok i xs this j False] show ?thesis
        using False j xs i ok' by (auto simp: s rust_simps split: if_splits)
    qed
  qed
  then obtain xs i cur dp where fold: "mfold ?body (rev [0..<length new]) (?xs, o0, st ! o0, 1) = Some (xs, i, cur, dp)"
    and inv: "split_inv old st new 0 (xs, i, cur, dp)" by (metis prod_cases4)
  then have "\<not> split_inside old st new 0 xs i cur dp"
    using split_inside_not_0 [OF ok] by (simp add: split_inv_def)
  with inv have "length xs = length new" "\<forall>k. upos new xs k = upos old st k"
    by (auto simp: split_inv_def split_done_def)
  moreover have "split_strides old st new = Some xs"
    unfolding split_strides_def using o0 ok' fold by (simp add: rust_simps Suc_le_eq)
  ultimately show ?thesis by simp
qed

subsection \<open>The other cases and the theorem\<close>

lemma broadcast_strides_eq:
  "length st = r \<Longrightarrow> broadcast_strides n r e st = Some (replicate n e @ st)"
proof -
  assume len: "length st = r"
  have "\<exists>xs. mfold (\<lambda>i xs. do { s \<leftarrow> vec_get st i; vec_set xs (i + n) s }) [0..<length st]
       (replicate (r + n) e) = Some xs \<and> xs = replicate n e @ take (length st) st @ replicate (r - length st) e"
  proof (rule mfold_upt)
    show "replicate (r + n) e = replicate n e @ take 0 st @ replicate (r - 0) e"
      by (simp add: replicate_add [symmetric] add.commute)
    fix i xs assume "i < length st" "xs = replicate n e @ take i st @ replicate (r - i) e"
    moreover from this len obtain m where "r - i = Suc m" by (cases "r - i") auto
    ultimately show "\<exists>s'. (do { s \<leftarrow> vec_get st i; vec_set xs (i + n) s }) = Some s' \<and>
        s' = replicate n e @ take (Suc i) st @ replicate (r - Suc i) e"
      using len by (auto simp: rust_simps list_update_append take_Suc_conv_app_nth min_def)
  qed simp
  with len show ?thesis by (simp add: broadcast_strides_def)
qed

lemma upos_units:
  "\<forall>d \<in> set us. d = 1 \<Longrightarrow> upos (us @ ds) (replicate (length us) e @ ss) k = upos ds ss k"
  by (induction us) (auto simp: upos_def)

lemma zip_all_eq: "length xs = length ys \<Longrightarrow> (\<forall>(x, y) \<in> set (zip xs ys). x = y) \<longleftrightarrow> xs = ys"
  by (induction xs ys rule: list_induct2) auto

lemma is_contiguous_iff:
  assumes "fits shape" "length strides = length shape"
  shows "is_contiguous shape strides = Some (strides = rm_strides shape)"
proof (cases "shape = []")
  case True
  with assms show ?thesis by (simp add: is_contiguous_def)
next
  case False
  have "is_contiguous shape strides = Some (rm_strides shape = strides)"
    using False zip_all_eq [of "rm_strides shape" strides] assms(2)
    unfolding is_contiguous_def contiguous_strides_rm [OF assms(1)] by simp
  then show ?thesis by (simp only: eq_commute)
qed

lemma fits_same_prod:
  "fits old \<Longrightarrow> 0 < prod_list old \<Longrightarrow> prod_list new = prod_list old \<Longrightarrow> fits new"
  using prod_list_pos [of new] prod_list_pos [of old] fits_positive [of new] fits_positive [of old] by simp

text \<open>What an action promises about the buffer positions of the elements.\<close>

definition action_sound :: "shape \<Rightarrow> strides \<Rightarrow> shape \<Rightarrow> reshape_action_result \<Rightarrow> bool" where
  "action_sound shape strides shape_new a =
     (case a of
        UpdateStrides s \<Rightarrow> length s = length shape_new \<and>
          (\<forall>k < prod_list shape. upos shape_new s k = upos shape strides k)
      | ActionNoChange \<Rightarrow> shape_new = shape
      | Recompute \<Rightarrow> True)"

lemma reshape_split_sound:
  assumes "length st = length old" "fits old" "0 < prod_list old" "prod_list new = prod_list old"
    and "udot (map (\<lambda>d. d - 1) old) st < usize_lim" "old \<noteq> []"
  shows "\<exists>r. split_check old new 1 0 = Some r \<and>
    (r \<longrightarrow> (\<exists>s. split_strides old st new = Some s \<and> action_sound old st new (UpdateStrides s)))"
proof -
  have "\<exists>r. split_check old new 1 0 = Some r \<and> (r \<longrightarrow> boundaries old new (length old))"
    by (rule split_check_boundaries [of new "[]"])
      (use assms fits_prod [OF assms(2)] in \<open>auto simp: boundaries_def intro: exI [of _ 0]\<close>)
  moreover have "split_ok old st new" if "boundaries old new (length old)"
    using that assms fits_prod [OF assms(2)] by (simp add: split_ok_def)
  ultimately show ?thesis
    using split_strides_sound [of old st new] by (fastforce simp: action_sound_def)
qed

text \<open>
  C18. Reshaping a strided tensor: for a tensor whose last element is addressable and a new
  shape with the same (non-zero) number of elements, \<open>reshape_action\<close> does not panic, and
  when it answers with new strides, the k-th element in row-major order of the reshaped view
  sits at exactly the buffer position it had before, for every k; \<open>NoChange\<close> is answered only
  for an unchanged shape.
\<close>

theorem reshape_action_sound:
  assumes len: "length strides = length shape" and fits: "fits shape" and pos: "0 < prod_list shape"
    and elems: "prod_list shape_new = prod_list shape"
    and addressable: "udot (map (\<lambda>d. d - 1) shape) strides < usize_lim"
  shows "\<exists>a. reshape_action shape strides shape_new = Some a \<and> action_sound shape strides shape_new a"
proof (cases "strides = rm_strides shape")
  case True
  have "contiguous_strides shape_new = Some (rm_strides shape_new)"
    using fits_same_prod [OF fits pos elems] by (rule contiguous_strides_rm)
  with True show ?thesis
    by (simp add: reshape_action_def reshape_analysis_def analysis_action_def is_contiguous_iff
        len fits action_sound_def upos_rm_strides elems)
next
  case False
  with len have ne: "shape \<noteq> []" by auto
  let ?n = "length shape_new - length shape"
  have contig: "is_contiguous shape strides = Some False"
    using False by (simp add: is_contiguous_iff fits len)
  consider (smaller) "length shape_new < length shape"
    | (bcast) "length shape < length shape_new" "shape = drop ?n shape_new" "\<forall>it \<in> set (take ?n shape_new). it = 1"
    | (split) "length shape < length shape_new"
        "\<not> (shape = drop ?n shape_new \<and> (\<forall>it \<in> set (take ?n shape_new). it = 1))"
    | (same) "length shape_new = length shape" by linarith
  then show ?thesis
  proof cases
    case bcast
    have "upos shape_new (replicate ?n (prod_list shape) @ strides) k = upos shape strides k" for k
      using upos_units [OF bcast(3), of shape "prod_list shape" strides k] bcast(1,2)
      by (metis append_take_drop_id diff_le_self length_take min.absorb2)
    with bcast len fits show ?thesis
      by (simp add: reshape_action_def reshape_analysis_def analysis_action_def contig rust_simps
          broadcast_strides_eq action_sound_def Let_def)
  next
    case split
    from reshape_split_sound [OF len fits pos elems addressable ne] split show ?thesis
      by (auto simp: reshape_action_def reshape_analysis_def analysis_action_def contig Let_def
          action_sound_def split: if_splits)
  qed (auto simp: reshape_action_def reshape_analysis_def analysis_action_def contig
      action_sound_def Let_def)
qed

theorem reshape_action_sound_witness:
  "\<exists>a. reshape_action [4, 6] [1, 4] [2, 2, 3, 2] = Some a \<and> action_sound [4, 6] [1, 4] [2, 2, 3, 2] a"
  using reshape_action_sound [of "[1, 4]" "[4, 6]" "[2, 2, 3, 2]"]
  by (simp add: fits_def usize_lim_def)

text \<open>
  The row-major check of \<open>layout_validation.rs\<close> accepts exactly the strides the builders of
  \<open>layout_builders.rs\<close> and \<open>reshape.rs\<close> produce: for matching non-zero ranks, the predicate
  holds iff the given strides are the ones \<open>contiguous_strides\<close> computes.
\<close>

theorem has_contiguous_row_major_strides_iff:
  assumes len: "length strides = length shape" and ne: "shape \<noteq> []" and fits: "fits shape"
    and lim: "\<forall>i < length shape. shape ! i * strides ! i < usize_lim"
  shows "has_contiguous_row_major_strides shape strides = Some (Some strides = contiguous_strides shape)"
proof -
  have "check_row_major shape strides [0..<length shape - 1] =
      Some (\<forall>i \<in> set [0..<length shape - 1]. strides ! i = shape ! Suc i * strides ! Suc i)"
    using len lim by (intro check_row_major_iff) auto
  then have chk: "check_row_major shape strides [0..<length shape - 1] =
      Some (\<forall>i < length shape - 1. strides ! i = shape ! Suc i * strides ! Suc i)"
    by (simp add: atLeast0LessThan lessThan_def)
  have iff: "Some strides = contiguous_strides shape \<longleftrightarrow> strides ! (length shape - 1) = 1 \<and>
      (\<forall>i < length shape - 1. strides ! i = shape ! Suc i * strides ! Suc i)"
    using rm_strides_iff [OF len ne] contiguous_strides_rm [OF fits] by simp
  show ?thesis
    unfolding iff using len ne chk
    by (cases "1 < length shape"; cases "length shape = 1")
      (simp_all add: has_contiguous_row_major_strides_def try_check_contiguous_row_major_strides_def
        stride_check_bool_def try_check_matching_ranks_def)
qed

theorem has_contiguous_row_major_strides_iff_witness:
  "has_contiguous_row_major_strides [2, 3] [3, 2] = Some (Some [3, 2] = contiguous_strides [2, 3])"
  using has_contiguous_row_major_strides_iff [of "[3, 2]" "[2, 3]"]
  by (simp add: fits_def usize_lim_def less_Suc_eq)

end
