(* ===== verification/Tensor_Layout.thy ===== *)
theory Tensor_Layout
  imports Tensor_Reshape Tensor_Slice
begin

text \<open>
  Views of a host buffer: \<open>ruda-core/src/tensor/host/layout.rs\<close> and \<open>strided_index.rs\<close>.  A
  layout is a shape, signed strides and a start offset.  Every zero-copy operation is a
  \<open>view\<close>: it re-addresses elements of the original layout; the iterators visit exactly the
  addressed positions, in row-major order.
\<close>

record layout =
  ly_shape :: shape
  ly_strides :: "isize list"
  ly_offset :: usize

subsection \<open>Construction and queries\<close>

definition contiguous_strides_usize :: "shape \<Rightarrow> usize list option" where
  "contiguous_strides_usize shape =
     mfold (\<lambda>i strides. do {
         s \<leftarrow> vec_get strides (i + 1);
         d \<leftarrow> vec_get shape (i + 1);
         v \<leftarrow> umul s d;
         vec_set strides i v
       }) (rev [0..<length shape - 1]) (replicate (length shape) 1)"

definition slice_base_offset :: "usize \<Rightarrow> shape \<Rightarrow> usize list \<Rightarrow> usize \<Rightarrow> usize option" where
  "slice_base_offset slice_idx shape strides dim = do {
     (offset, _) \<leftarrow> mfold (\<lambda>d (offset, remaining).
         if d = dim then Some (offset, remaining)
         else do {
           s \<leftarrow> vec_get shape d;
           rassert (s \<noteq> 0);
           st \<leftarrow> vec_get strides d;
           p \<leftarrow> umul (remaining mod s) st;
           offset' \<leftarrow> uadd offset p;
           Some (offset', remaining div s)
         }) (rev [0..<length shape]) (0, slice_idx);
     Some offset
   }"

definition layout_contiguous :: "shape \<Rightarrow> layout option" where
  "layout_contiguous shape = do {
     strides \<leftarrow> contiguous_strides_usize shape;
     Some \<lparr>ly_shape = shape, ly_strides = map as_isize strides, ly_offset = 0\<rparr>
   }"

definition layout_new :: "shape \<Rightarrow> isize list \<Rightarrow> usize \<Rightarrow> layout option" where
  "layout_new shape strides start_offset = do {
     rassert (rank shape = length strides);
     Some \<lparr>ly_shape = shape, ly_strides = strides, ly_offset = start_offset\<rparr>
   }"

definition layout_num_elements :: "layout \<Rightarrow> usize option" where
  "layout_num_elements self = num_elements (ly_shape self)"

text \<open>The innermost-first loop over the dimensions, with its early exit.\<close>

fun layout_contig_loop :: "layout \<Rightarrow> usize list \<Rightarrow> isize \<Rightarrow> bool option" where
  "layout_contig_loop self [] expected_stride = Some True"
| "layout_contig_loop self (i # is) expected_stride = do {
     s \<leftarrow> vec_get (ly_strides self) i;
     (if s \<noteq> expected_stride then Some False
      else do {
        d \<leftarrow> vec_get (ly_shape self) i;
        e \<leftarrow> imul expected_stride (as_isize d);
        layout_contig_loop self is e
      })
   }"

definition layout_is_contiguous :: "layout \<Rightarrow> bool option" where
  "layout_is_contiguous self =
     (if rank (ly_shape self) = 0 then Some True
      else layout_contig_loop self (rev [0..<rank (ly_shape self)]) 1)"

definition contiguous_offsets :: "layout \<Rightarrow> (usize \<times> usize) option option" where
  "contiguous_offsets self = do {
     c \<leftarrow> layout_is_contiguous self;
     (if c then do {
        n \<leftarrow> layout_num_elements self;
        e \<leftarrow> uadd (ly_offset self) n;
        Some (Some (ly_offset self, e))
      }
      else Some None)
   }"

subsection \<open>Zero-copy views\<close>

definition layout_transpose :: "layout \<Rightarrow> usize \<Rightarrow> usize \<Rightarrow> layout option" where
  "layout_transpose self dim1 dim2 = do {
     dims \<leftarrow> vec_swap (ly_shape self) dim1 dim2;
     strides \<leftarrow> vec_swap (ly_strides self) dim1 dim2;
     Some \<lparr>ly_shape = dims, ly_strides = strides, ly_offset = ly_offset self\<rparr>
   }"

definition layout_permute :: "layout \<Rightarrow> usize list \<Rightarrow> layout option" where
  "layout_permute self axes = do {
     rassert (length axes = rank (ly_shape self));
     new_dims \<leftarrow> mmap (vec_get (ly_shape self)) axes;
     new_strides \<leftarrow> mmap (vec_get (ly_strides self)) axes;
     Some \<lparr>ly_shape = new_dims, ly_strides = new_strides, ly_offset = ly_offset self\<rparr>
   }"

text \<open>The body of the loop over the flipped axes.\<close>

definition flip_body :: "layout \<Rightarrow> usize \<Rightarrow> isize list \<times> isize \<Rightarrow> (isize list \<times> isize) option" where
  "flip_body self = (\<lambda>axis (new_strides, offset_adjustment). do {
     rassert (axis < rank (ly_shape self));
     dim_size \<leftarrow> vec_get (ly_shape self) axis;
     (if 1 < dim_size then do {
        dm \<leftarrow> isub (as_isize dim_size) 1;
        st \<leftarrow> vec_get (ly_strides self) axis;
        p \<leftarrow> imul dm st;
        adj \<leftarrow> iadd offset_adjustment p;
        ns \<leftarrow> vec_get new_strides axis;
        ns' \<leftarrow> ineg ns;
        new_strides' \<leftarrow> vec_set new_strides axis ns';
        Some (new_strides', adj)
      }
      else Some (new_strides, offset_adjustment))
   })"

definition layout_flip :: "layout \<Rightarrow> usize list \<Rightarrow> layout option" where
  "layout_flip self axes = do {
     (new_strides, offset_adjustment) \<leftarrow> mfold (flip_body self) axes (ly_strides self, 0);
     new_start \<leftarrow> iadd (as_isize (ly_offset self)) offset_adjustment;
     rassert (0 \<le> new_start);
     Some \<lparr>ly_shape = ly_shape self, ly_strides = new_strides, ly_offset = as_usize new_start\<rparr>
   }"

definition layout_narrow :: "layout \<Rightarrow> usize \<Rightarrow> usize \<Rightarrow> usize \<Rightarrow> layout option" where
  "layout_narrow self dim start len = do {
     stop \<leftarrow> uadd start len;
     d \<leftarrow> vec_get (ly_shape self) dim;
     rassert (stop \<le> d);
     dims \<leftarrow> vec_set (ly_shape self) dim len;
     st \<leftarrow> vec_get (ly_strides self) dim;
     p \<leftarrow> imul st (as_isize start);
     new_offset \<leftarrow> iadd (as_isize (ly_offset self)) p;
     rassert (0 \<le> new_offset);
     Some \<lparr>ly_shape = dims, ly_strides = ly_strides self, ly_offset = as_usize new_offset\<rparr>
   }"

text \<open>Normalisation of the bounds of one slice, as written in \<open>Layout::slice\<close>.\<close>

definition norm_start :: "isize \<Rightarrow> slice \<Rightarrow> usize option" where
  "norm_start dim_size s =
     (if sl_start s < 0 then do { x \<leftarrow> iadd dim_size (sl_start s); Some (as_usize (max x 0)) }
      else Some (min (as_usize (sl_start s)) (as_usize dim_size)))"

definition norm_end :: "isize \<Rightarrow> slice \<Rightarrow> usize option" where
  "norm_end dim_size s =
     (case sl_end s of
        Some e \<Rightarrow>
          if e < 0 then do { x \<leftarrow> iadd dim_size e; Some (as_usize (max x 0)) }
          else Some (min (as_usize e) (as_usize dim_size))
      | None \<Rightarrow> Some (as_usize dim_size))"

definition slice_step :: "layout \<Rightarrow> nat \<times> slice \<Rightarrow> shape \<times> isize list \<times> isize \<times> bool
    \<Rightarrow> (shape \<times> isize list \<times> isize \<times> bool) option" where
  "slice_step self = (\<lambda>(dim, s) (new_dims, new_strides, new_offset, needs_copy). do {
     d \<leftarrow> vec_get (ly_shape self) dim;
     let dim_size = as_isize d;
     stride \<leftarrow> vec_get (ly_strides self) dim;
     start \<leftarrow> norm_start dim_size s;
     end' \<leftarrow> norm_end dim_size s;
     let step = sl_step s;
     let abs_step = unsigned_abs step;
     len \<leftarrow> (if start < end' then udiv_ceil (end' - start) abs_step else Some 0);
     new_dims' \<leftarrow> vec_set new_dims dim len;
     (if 0 < step then do {
        st \<leftarrow> imul stride step;
        new_strides' \<leftarrow> vec_set new_strides dim st;
        p \<leftarrow> imul stride (as_isize start);
        new_offset' \<leftarrow> iadd new_offset p;
        Some (new_dims', new_strides', new_offset', needs_copy)
      }
      else do {
        new_strides' \<leftarrow> vec_set new_strides dim stride;
        Some (new_dims', new_strides', new_offset, True)
      })
   })"

definition layout_slice :: "layout \<Rightarrow> slice list \<Rightarrow> (layout \<times> bool) option" where
  "layout_slice self slices = do {
     (new_dims, new_strides, new_offset, needs_copy) \<leftarrow>
       mfold (slice_step self) (enumerate 0 (take (rank (ly_shape self)) slices))
         (ly_shape self, ly_strides self, as_isize (ly_offset self), False);
     rassert (0 \<le> new_offset);
     Some (\<lparr>ly_shape = new_dims, ly_strides = new_strides, ly_offset = as_usize new_offset\<rparr>, needs_copy)
   }"

definition layout_reshape :: "layout \<Rightarrow> shape \<Rightarrow> layout option option" where
  "layout_reshape self new_shape = do {
     c \<leftarrow> layout_is_contiguous self;
     (if \<not> c \<or> ly_offset self \<noteq> 0 then Some None
      else do {
        n \<leftarrow> layout_num_elements self;
        m \<leftarrow> num_elements new_shape;
        rassert (n = m);
        l \<leftarrow> layout_contiguous new_shape;
        Some (Some l)
      })
   }"

subsection \<open>Addressing\<close>

definition offset_loop :: "layout \<Rightarrow> usize list \<Rightarrow> isize option" where
  "offset_loop self indices =
     mfold (\<lambda>(i, idx) offset. do {
         s \<leftarrow> vec_get (ly_strides self) i;
         p \<leftarrow> imul (as_isize idx) s;
         iadd offset p
       }) (enumerate 0 indices) (as_isize (ly_offset self))"

definition layout_index :: "layout \<Rightarrow> usize list \<Rightarrow> usize option" where
  "layout_index self indices = do {
     rassert (length indices = rank (ly_shape self));
     offset \<leftarrow> offset_loop self indices;
     rassert (0 \<le> offset);
     Some (as_usize offset)
   }"

definition inner_stride :: "layout \<Rightarrow> usize" where
  "inner_stride self = (if ly_strides self = [] then 1 else unsigned_abs (last (ly_strides self)))"

definition has_contiguous_inner :: "layout \<Rightarrow> bool" where
  "has_contiguous_inner self \<longleftrightarrow> inner_stride self = 1"

definition as_2d_strides :: "layout \<Rightarrow> (usize \<times> usize \<times> isize \<times> isize) option option" where
  "as_2d_strides self =
     (if rank (ly_shape self) \<noteq> 2 then Some None
      else do {
        d0 \<leftarrow> vec_get (ly_shape self) 0;
        d1 \<leftarrow> vec_get (ly_shape self) 1;
        s0 \<leftarrow> vec_get (ly_strides self) 0;
        s1 \<leftarrow> vec_get (ly_strides self) 1;
        Some (Some (d0, d1, s0, s1))
      })"

definition has_positive_strides :: "layout \<Rightarrow> bool" where
  "has_positive_strides self \<longleftrightarrow> (\<forall>s \<in> set (ly_strides self). 0 \<le> s)"

subsection \<open>Strided blocks\<close>

datatype strided_blocks =
    SingleBlock (sb_start: usize) (sb_len: usize)
  | MultipleBlocks (mb_layout: layout) (mb_block_len: usize) (mb_num_blocks: usize)

fun block_len_loop :: "layout \<Rightarrow> usize list \<Rightarrow> usize \<Rightarrow> isize \<Rightarrow> usize option" where
  "block_len_loop self [] block_len expected_stride = Some block_len"
| "block_len_loop self (i # is) block_len expected_stride = do {
     s \<leftarrow> vec_get (ly_strides self) i;
     (if s = expected_stride then do {
        d \<leftarrow> vec_get (ly_shape self) i;
        b \<leftarrow> umul block_len d;
        e \<leftarrow> imul expected_stride (as_isize d);
        block_len_loop self is b e
      }
      else Some block_len)
   }"

definition layout_strided_blocks :: "layout \<Rightarrow> strided_blocks option" where
  "layout_strided_blocks self = do {
     n \<leftarrow> layout_num_elements self;
     (if n = 0 then Some (SingleBlock 0 0)
      else do {
        c \<leftarrow> layout_is_contiguous self;
        (if c then Some (SingleBlock (ly_offset self) n)
         else do {
           block_len \<leftarrow> block_len_loop self (rev [0..<rank (ly_shape self)]) 1 1;
           (if block_len = n then Some (SingleBlock (ly_offset self) n)
            else do {
              rassert (block_len \<noteq> 0);
              Some (MultipleBlocks self block_len (n div block_len))
            })
         })
      })
   }"

definition block_len :: "strided_blocks \<Rightarrow> usize" where
  "block_len b = (case b of SingleBlock _ len \<Rightarrow> len | MultipleBlocks _ bl _ \<Rightarrow> bl)"

datatype block_start_iter =
    SingleIter usize bool
  | MultipleIter layout "usize list" usize usize

fun outer_dims_loop :: "layout \<Rightarrow> usize list \<Rightarrow> isize \<Rightarrow> usize option" where
  "outer_dims_loop self [] expected_stride = Some 0"
| "outer_dims_loop self (i # is) expected_stride = do {
     s \<leftarrow> vec_get (ly_strides self) i;
     (if s = expected_stride then do {
        d \<leftarrow> vec_get (ly_shape self) i;
        e \<leftarrow> imul expected_stride (as_isize d);
        outer_dims_loop self is e
      }
      else Some (i + 1))
   }"

definition block_starts :: "strided_blocks \<Rightarrow> block_start_iter option" where
  "block_starts b =
     (case b of
        SingleBlock start _ \<Rightarrow> Some (SingleIter start False)
      | MultipleBlocks l bl nb \<Rightarrow> do {
          outer_dims \<leftarrow> outer_dims_loop l (rev [0..<rank (ly_shape l)]) 1;
          Some (MultipleIter l (replicate outer_dims 0) nb bl)
        })"

text \<open>The odometer \<open>for d in (0..outer_dims).rev()\<close> with its \<open>break\<close>.\<close>

fun advance_index :: "shape \<Rightarrow> nat \<Rightarrow> usize list \<Rightarrow> usize list option" where
  "advance_index shape 0 multi_index = Some multi_index"
| "advance_index shape (Suc d) multi_index = do {
     x \<leftarrow> vec_get multi_index d;
     x' \<leftarrow> uadd x 1;
     dim \<leftarrow> vec_get shape d;
     (if x' < dim then vec_set multi_index d x'
      else do {
        m \<leftarrow> vec_set multi_index d 0;
        advance_index shape d m
      })
   }"

definition block_next :: "block_start_iter \<Rightarrow> (usize option \<times> block_start_iter) option" where
  "block_next self =
     (case self of
        SingleIter start fin \<Rightarrow>
          if fin then Some (None, self) else Some (Some start, SingleIter start True)
      | MultipleIter l multi_index remaining bl \<Rightarrow>
          if remaining = 0 then Some (None, self)
          else do {
            offset \<leftarrow> offset_loop l multi_index;
            m \<leftarrow> advance_index (ly_shape l) (length multi_index) multi_index;
            Some (Some (as_usize offset), MultipleIter l m (remaining - 1) bl)
          })"

subsection \<open>Strided iteration\<close>

record strided_iter =
  it_storage_index :: isize
  it_multi_index :: "usize list"
  it_layout :: layout
  it_remaining :: usize

definition StridedIter_new :: "layout \<Rightarrow> strided_iter option" where
  "StridedIter_new layout = do {
     n \<leftarrow> layout_num_elements layout;
     Some \<lparr>it_storage_index = as_isize (ly_offset layout),
           it_multi_index = replicate (rank (ly_shape layout)) 0,
           it_layout = layout, it_remaining = n\<rparr>
   }"

fun strided_advance :: "layout \<Rightarrow> nat \<Rightarrow> usize list \<times> isize \<Rightarrow> (usize list \<times> isize) option" where
  "strided_advance l 0 (multi_index, storage_index) = Some (multi_index, storage_index)"
| "strided_advance l (Suc d) (multi_index, storage_index) = do {
     x \<leftarrow> vec_get multi_index d;
     x' \<leftarrow> uadd x 1;
     dim \<leftarrow> vec_get (ly_shape l) d;
     st \<leftarrow> vec_get (ly_strides l) d;
     (if x' < dim then do {
        m \<leftarrow> vec_set multi_index d x';
        s \<leftarrow> iadd storage_index st;
        Some (m, s)
      }
      else do {
        m \<leftarrow> vec_set multi_index d 0;
        dm \<leftarrow> isub (as_isize dim) 1;
        p \<leftarrow> imul dm st;
        s \<leftarrow> isub storage_index p;
        strided_advance l d (m, s)
      })
   }"

definition strided_next :: "strided_iter \<Rightarrow> (usize option \<times> strided_iter) option" where
  "strided_next self =
     (if it_remaining self = 0 then Some (None, self)
      else do {
        rassert (0 \<le> it_storage_index self);
        let idx = as_usize (it_storage_index self);
        (m, s) \<leftarrow> strided_advance (it_layout self) (rank (ly_shape (it_layout self)))
          (it_multi_index self, it_storage_index self);
        Some (Some idx, self\<lparr>it_multi_index := m, it_storage_index := s,
          it_remaining := it_remaining self - 1\<rparr>)
      })"

end
