(* ===== verification/Tensor_View.thy ===== *)
theory Tensor_View
  imports Tensor_Layout "HOL-Library.Multiset"
begin

text \<open>
  Correctness of the layouts of \<open>host/layout.rs\<close>: a layout that is within its buffer stays
  within it under every zero-copy operation, addressing never overflows, and the two iterators
  enumerate the addressed positions in row-major order.
\<close>

definition lpos :: "layout \<Rightarrow> usize list \<Rightarrow> int" where
  "lpos l cs = int (ly_offset l) + idot cs (ly_strides l)"

definition shape_ok :: "layout \<Rightarrow> bool" where
  "shape_ok l \<longleftrightarrow> length (ly_strides l) = length (ly_shape l) \<and> 0 < prod_list (ly_shape l) \<and>
     int (prod_list (ly_shape l)) < isize_lim \<and> (\<forall>s \<in> set (ly_strides l). in_isize s)"

text \<open>\<open>view_ok n l\<close>: a non-empty layout all of whose elements lie in a buffer of \<open>n\<close> elements.\<close>

definition view_ok :: "nat \<Rightarrow> layout \<Rightarrow> bool" where
  "view_ok n l \<longleftrightarrow> shape_ok l \<and> int n < isize_lim \<and>
     (\<forall>cs. in_shape (ly_shape l) cs \<longrightarrow> 0 \<le> lpos l cs \<and> lpos l cs < int n)"

subsection \<open>Positions\<close>

lemma idot_update:
  assumes "d < length cs" "length cs = length ss"
  shows "idot (cs[d := v]) ss = idot cs ss + (int v - int (cs ! d)) * ss ! d"
  using assms
proof (induction cs ss arbitrary: d rule: idot.induct)
  case (1 c cs s ss)
  then show ?case by (cases d) (auto simp: algebra_simps)
qed auto

lemma idot_pad [simp]: "idot (cs @ replicate k 0) ss = idot cs ss"
  by (induction cs ss rule: idot.induct) (auto simp: idot_zero)

lemma idot_split:
  "length as = j \<Longrightarrow> j \<le> length ss \<Longrightarrow> idot (as @ cs) ss = idot as ss + idot cs (drop j ss)"
  by (induction as ss arbitrary: j rule: idot.induct) auto

lemma idot_take_Suc:
  "i < length cs \<Longrightarrow> i < length ss \<Longrightarrow> idot (take (Suc i) cs) ss = idot (take i cs) ss + int (cs ! i) * ss ! i"
proof (induction cs ss arbitrary: i rule: idot.induct)
  case (1 c cs s ss)
  then show ?case by (cases i) auto
qed auto

lemma lpos_update:
  "d < length cs \<Longrightarrow> length cs = length (ly_strides l) \<Longrightarrow>
   lpos l (cs[d := v]) = lpos l cs + (int v - int (cs ! d)) * ly_strides l ! d"
  by (simp add: lpos_def idot_update)

lemma view_okD:
  assumes "view_ok n l"
  shows "length (ly_strides l) = length (ly_shape l)" "0 < prod_list (ly_shape l)"
    "int (prod_list (ly_shape l)) < isize_lim" "int n < isize_lim" "shape_ok l"
    "\<And>s. s \<in> set (ly_strides l) \<Longrightarrow> in_isize s"
  using assms by (auto simp: view_ok_def shape_ok_def)

lemma view_pos:
  assumes "view_ok n l" "in_shape (ly_shape l) cs"
  shows "0 \<le> lpos l cs" "lpos l cs < int n" "in_isize (lpos l cs)" "in_isize (- lpos l cs)"
  using assms by (auto simp: view_ok_def in_isize_def)

lemma view_diff:
  assumes "view_ok n l" "in_shape (ly_shape l) cs" "in_shape (ly_shape l) cs'"
  shows "in_isize (lpos l cs - lpos l cs')"
  using assms view_pos [OF assms(1,2)] view_pos [OF assms(1,3)] view_okD(4) [OF assms(1)]
  by (simp add: in_isize_def)

lemma view_dim:
  assumes "view_ok n l" "d \<in> set (ly_shape l)"
  shows "0 < d" "int d < isize_lim" "d < usize_lim"
proof -
  obtain i where i: "i < length (ly_shape l)" "d = ly_shape l ! i"
    using assms(2) by (metis in_set_conv_nth)
  then have "d \<le> prod_list (ly_shape l)"
    using nth_le_prod_list [OF i(1)] view_okD [OF assms(1)] by simp
  then show "int d < isize_lim" using view_okD(3) [OF assms(1)] by linarith
  then show "d < usize_lim" using int_usize_lim isize_lim_pos by linarith
  show "0 < d" using assms(2) view_okD(2) [OF assms(1)] prod_list_pos [of "ly_shape l"] by blast
qed

lemma view_fits:
  assumes "view_ok n l"
  shows "fits (ly_shape l)"
proof -
  have "prod_list (ly_shape l) < usize_lim"
    using view_okD(3) [OF assms] int_usize_lim isize_lim_pos by linarith
  then show ?thesis
    using view_dim(1) [OF assms] by (subst fits_positive) auto
qed

lemma in_shape_update: "in_shape ds cs \<Longrightarrow> d < length ds \<Longrightarrow> v < ds ! d \<Longrightarrow> in_shape ds (cs[d := v])"
  by (auto simp: in_shape_iff nth_list_update)

lemma in_shape_pad:
  assumes "\<forall>d \<in> set ds. 0 < d" "in_shape (take k ds) cs" "k \<le> length ds"
  shows "in_shape ds (cs @ replicate (length ds - k) 0)"
  using assms by (auto simp: in_shape_iff nth_append)

lemma view_prefix:
  assumes "view_ok n l" "in_shape (take k (ly_shape l)) cs" "k \<le> length (ly_shape l)"
  shows "in_shape (ly_shape l) (cs @ replicate (length (ly_shape l) - k) 0)"
    "lpos l (cs @ replicate (length (ly_shape l) - k) 0) = lpos l cs"
  using assms view_dim(1) [OF assms(1)] by (auto intro: in_shape_pad simp: lpos_def)

subsection \<open>Addressing\<close>

lemma enumerate_map: "enumerate 0 xs = map (\<lambda>i. (i, xs ! i)) [0..<length xs]"
  by (rule nth_equalityI) (auto simp: nth_enumerate_eq)

lemma mfold_map: "mfold f (map g xs) = mfold (\<lambda>x. f (g x)) xs"
proof (rule ext)
  show "mfold f (map g xs) s = mfold (\<lambda>x. f (g x)) xs s" for s
    by (induction xs arbitrary: s) (auto split: bind_splits)
qed

lemma view_offset:
  assumes v: "view_ok n l"
  shows "ly_offset l < n" "as_isize (ly_offset l) = int (ly_offset l)"
proof -
  have z: "in_shape (ly_shape l) (replicate (length (ly_shape l)) 0)"
    using view_prefix(1) [OF v, of 0 "[]"] by simp
  then show "ly_offset l < n"
    using view_pos(2) [OF v z] by (simp add: lpos_def idot_zero)
  then show "as_isize (ly_offset l) = int (ly_offset l)"
    using view_okD(4) [OF v] by (intro as_isize_small) linarith
qed

lemma offset_loop_prefix:
  assumes v: "view_ok n l" and cs: "in_shape (take k (ly_shape l)) cs" "k \<le> length (ly_shape l)"
  shows "offset_loop l cs = Some (lpos l cs)"
proof -
  let ?f = "\<lambda>i offset. do {
         s \<leftarrow> vec_get (ly_strides l) i;
         p \<leftarrow> imul (as_isize (cs ! i)) s;
         iadd offset p
       }"
  have len: "length cs = k" using in_shape_length [OF cs(1)] cs(2) by simp
  have pre: "in_isize (lpos l (take i cs))" "in_isize (lpos l (take (Suc i) cs) - lpos l (take i cs))" if "i < k" for i
  proof -
    have sub: "in_shape (take j (ly_shape l)) (take j cs)" if "j \<le> k" for j
      using cs that by (auto simp: in_shape_iff)
    note a = view_prefix [OF v sub [of i]] and b = view_prefix [OF v sub [of "Suc i"]]
    show "in_isize (lpos l (take i cs))"
      using view_pos(3) [OF v a(1)] a(2) that cs(2) by simp
    show "in_isize (lpos l (take (Suc i) cs) - lpos l (take i cs))"
      using view_diff [OF v b(1) a(1)] a(2) b(2) that cs(2) by simp
  qed
  have "\<exists>off. mfold ?f [0..<length cs] (as_isize (ly_offset l)) = Some off \<and> off = lpos l (take (length cs) cs)"
  proof (rule mfold_upt)
    show "as_isize (ly_offset l) = lpos l (take 0 cs)"
      using view_offset(2) [OF v] by (simp add: lpos_def)
    fix i off assume i: "i < length cs" and off: "off = lpos l (take i cs)"
    have st: "i < length (ly_strides l)" using i len cs(2) view_okD(1) [OF v] by simp
    have "cs ! i < ly_shape l ! i" using cs i len by (auto simp: in_shape_iff)
    then have ci: "int (cs ! i) < isize_lim"
      using view_dim(2) [OF v, of "ly_shape l ! i"] i len cs(2) by simp
    have step: "lpos l (take (Suc i) cs) = lpos l (take i cs) + int (cs ! i) * ly_strides l ! i"
      using i st by (simp add: lpos_def idot_take_Suc)
    have "in_isize (int (cs ! i) * ly_strides l ! i)"
      using pre(2) [of i] i len step by simp
    moreover have "in_isize (lpos l (take (Suc i) cs))"
    proof (cases "Suc i < k")
      case True
      then show ?thesis using pre(1) [of "Suc i"] by simp
    next
      case False
      then have "take (Suc i) cs = cs" using len by simp
      then show ?thesis
        using view_pos(3) [OF v view_prefix(1) [OF v cs]] view_prefix(2) [OF v cs] by simp
    qed
    ultimately show "\<exists>s'. ?f i off = Some s' \<and> s' = lpos l (take (Suc i) cs)"
      using off st ci step by (simp add: rust_simps)
  qed simp
  then show ?thesis
    by (simp add: offset_loop_def enumerate_map mfold_map)
qed

lemma layout_index_ok:
  assumes v: "view_ok n l" and cs: "in_shape (ly_shape l) cs"
  shows "layout_index l cs = Some (nat (lpos l cs))" "nat (lpos l cs) < n"
proof -
  have "offset_loop l cs = Some (lpos l cs)"
    using offset_loop_prefix [OF v, of "length (ly_shape l)" cs] cs by simp
  moreover have "length cs = rank (ly_shape l)" using in_shape_length [OF cs] by (simp add: rank_def)
  ultimately show "layout_index l cs = Some (nat (lpos l cs))"
    using view_pos [OF v cs] view_okD(4) [OF v]
    by (simp add: layout_index_def rust_simps)
  show "nat (lpos l cs) < n" using view_pos [OF v cs] by simp
qed

subsection \<open>The odometer\<close>

lemma take_Suc_snoc: "d < length xs \<Longrightarrow> take (Suc d) xs = take d xs @ [xs ! d]"
  by (simp add: take_Suc_conv_app_nth)

lemma advance_index_spec:
  assumes "d \<le> length m" "length m \<le> length shape" "in_shape (take d shape) (take d m)"
    and "\<forall>x \<in> set shape. x < usize_lim"
  shows "advance_index shape d m =
    Some (unravel (take d shape) ((ravel (take d shape) (take d m) + 1) mod prod_list (take d shape)) @ drop d m)"
  using assms
proof (induction d arbitrary: m)
  case (Suc d)
  let ?q = "ravel (take d shape) (take d m)" and ?P = "prod_list (take d shape)"
  let ?x = "m ! d" and ?D = "shape ! d"
  have len: "d < length m" "d < length shape" using Suc.prems by auto
  have sh: "in_shape (take d shape) (take d m)" "?x < ?D"
    using Suc.prems(3) len by (auto simp: take_Suc_snoc in_shape_append)
  have q: "?q < ?P" using sh(1) by (rule ravel_less)
  have ravel: "ravel (take (Suc d) shape) (take (Suc d) m) = ?q * ?D + ?x"
    using len by (simp add: take_Suc_snoc ravel_snoc)
  have prod: "prod_list (take (Suc d) shape) = ?P * ?D"
    using len by (simp add: take_Suc_snoc)
  have unr: "unravel (take (Suc d) shape) k = unravel (take d shape) (k div ?D) @ [k mod ?D]" for k
    using len by (simp add: take_Suc_snoc unravel_snoc)
  have "?D < usize_lim" using len Suc.prems(4) by simp
  then have add: "uadd ?x 1 = Some (?x + 1)"
    using sh(2) by (intro uadd_ok) simp
  show ?case
  proof (cases "?x + 1 < ?D")
    case True
    have "?q * ?D + ?x + 1 < (?q + 1) * ?D" using True by simp
    also have "\<dots> \<le> ?P * ?D" using q by (intro mult_le_mono1) simp
    finally have "(?q * ?D + ?x + 1) mod (?P * ?D) = ?q * ?D + (?x + 1)" by simp
    moreover have "(?q * ?D + (?x + 1)) div ?D = ?q" "(?q * ?D + (?x + 1)) mod ?D = ?x + 1"
      using True div_mult_self3 [of ?D ?q "?x + 1"] mod_mult_self3 [of ?q ?D "?x + 1"] by simp_all
    ultimately have "unravel (take (Suc d) shape) ((?q * ?D + ?x + 1) mod (?P * ?D)) = take d m @ [?x + 1]"
      unfolding unr using sh(1) by simp
    moreover have "m[d := ?x + 1] = take d m @ [?x + 1] @ drop (Suc d) m"
      using len by (simp add: upd_conv_take_nth_drop)
    ultimately show ?thesis
      using True add len by (simp add: ravel prod rust_simps)
  next
    case False
    with sh(2) have x: "?x + 1 = ?D" by simp
    have "?q * ?D + ?x + 1 = (?q + 1) * ?D" using x by simp
    then have "(?q * ?D + ?x + 1) mod (?P * ?D) = ((?q + 1) mod ?P) * ?D"
      by (simp only: mod_mult_mult2)
    then have "unravel (take (Suc d) shape) ((?q * ?D + ?x + 1) mod (?P * ?D)) =
        unravel (take d shape) ((?q + 1) mod ?P) @ [0]"
      unfolding unr using sh(2) by simp
    moreover have "advance_index shape d (m[d := 0]) =
        Some (unravel (take d shape) ((?q + 1) mod ?P) @ 0 # drop (Suc d) m)"
      using Suc.IH [of "m[d := 0]"] Suc.prems sh len by (simp add: drop_update)
    ultimately show ?thesis
      using False add len by (simp add: ravel prod rust_simps)
  qed
qed simp

lemma strided_advance_spec:
  assumes "view_ok n l" "d \<le> length (ly_shape l)" "in_shape (ly_shape l) m"
  shows "\<exists>m'. advance_index (ly_shape l) d m = Some m' \<and>
    strided_advance l d (m, lpos l m) = Some (m', lpos l m')"
  using assms(2,3)
proof (induction d arbitrary: m)
  case (Suc d)
  have len: "length m = length (ly_shape l)" "d < length (ly_shape l)" "length (ly_strides l) = length (ly_shape l)"
    using Suc.prems in_shape_length view_okD(1) [OF assms(1)] by auto
  have x: "m ! d < ly_shape l ! d" using Suc.prems len by (simp add: in_shape_iff)
  note dim = view_dim [OF assms(1), OF nth_mem [OF len(2)]]
  have add: "uadd (m ! d) 1 = Some (m ! d + 1)"
    using x dim by (intro uadd_ok) simp
  show ?case
  proof (cases "m ! d + 1 < ly_shape l ! d")
    case True
    have "in_shape (ly_shape l) (m[d := m ! d + 1])"
      using Suc.prems len True by (intro in_shape_update) auto
    moreover have "lpos l (m[d := m ! d + 1]) = lpos l m + ly_strides l ! d"
      using len by (simp add: lpos_update)
    ultimately have "in_isize (lpos l m + ly_strides l ! d)"
      using view_pos(3) [OF assms(1)] by metis
    with True add len \<open>lpos l (m[d := m ! d + 1]) = _\<close> show ?thesis
      by (simp add: rust_simps)
  next
    case False
    with x have xe: "int (m ! d) = int (ly_shape l ! d) - 1" by simp
    let ?m = "m[d := 0]" and ?p = "(int (ly_shape l ! d) - 1) * ly_strides l ! d"
    have sh: "in_shape (ly_shape l) ?m"
      using Suc.prems len dim by (intro in_shape_update) auto
    have pos: "lpos l ?m = lpos l m - ?p"
      using len by (simp add: lpos_update xe left_diff_distrib)
    have "in_isize ?p"
      using view_diff [OF assms(1) Suc.prems(2) sh] pos by simp
    moreover have "in_isize (lpos l m - ?p)"
      using view_pos(3) [OF assms(1) sh] pos by simp
    moreover have "in_isize (int (ly_shape l ! d) - 1)"
      using dim by (simp add: in_isize_def)
    moreover obtain m' where "advance_index (ly_shape l) d ?m = Some m'"
      "strided_advance l d (?m, lpos l ?m) = Some (m', lpos l m')"
      using Suc.IH [OF _ sh] Suc.prems by auto
    ultimately show ?thesis
      using False add len dim(2) pos by (simp add: rust_simps)
  qed
qed simp

subsection \<open>Strided iteration\<close>

lemma unravel_0: "unravel ds 0 = replicate (length ds) 0"
  by (induction ds) auto

text \<open>The positions of a layout in row-major order.\<close>

definition positions :: "layout \<Rightarrow> usize list" where
  "positions l = map (\<lambda>k. nat (lpos l (unravel (ly_shape l) k))) [0..<prod_list (ly_shape l)]"

text \<open>
  The strided iterator: for a layout within its buffer, with strides of either sign, the
  iterator ends and yields the buffer position of every element in row-major order, all of
  them inside the buffer, with no overflow in its running storage index.
\<close>

theorem strided_iter_collect:
  assumes v: "view_ok n l"
  shows "\<exists>it. StridedIter_new l = Some it \<and> iter_collect strided_next it = Some (positions l) \<and>
    (\<forall>p \<in> set (positions l). p < n)"
proof -
  let ?N = "prod_list (ly_shape l)" and ?r = "length (ly_shape l)"
  let ?m = "\<lambda>k. unravel (ly_shape l) (k mod ?N)"
  let ?st = "\<lambda>k. \<lparr>it_storage_index = lpos l (?m k), it_multi_index = ?m k, it_layout = l,
     it_remaining = ?N - k\<rparr>"
  have N: "0 < ?N" using view_okD(2) [OF v] .
  have sh: "in_shape (ly_shape l) (?m k)" for k
    using N by (intro in_shape_unravel) simp
  have lim: "\<forall>x \<in> set (ly_shape l). x < usize_lim" using view_dim(3) [OF v] by blast
  have adv: "advance_index (ly_shape l) ?r (?m k) = Some (?m (Suc k))" for k
    using advance_index_spec [of ?r "?m k" "ly_shape l"] sh [of k] lim N by (simp add: mod_Suc_eq)
  have sadv: "strided_advance l ?r (?m k, lpos l (?m k)) = Some (?m (Suc k), lpos l (?m (Suc k)))" for k
    using strided_advance_spec [OF v le_refl sh [of k]] adv [of k] by simp
  have nxt: "strided_next (?st k) = Some (Some (nat (lpos l (?m k))), ?st (Suc k))" if "k < ?N" for k
    using that sadv [of k] view_pos [OF v sh [of k]] view_okD(4) [OF v]
    by (simp add: strided_next_def rank_def rust_simps)
  have "iter_collect strided_next (?st 0) = Some (map (\<lambda>k. nat (lpos l (?m k))) [0..<?N])"
    using nxt by (intro iter_collect_upt) (auto simp: strided_next_def)
  moreover have "map (\<lambda>k. nat (lpos l (?m k))) [0..<?N] = positions l"
    by (simp add: positions_def)
  moreover have "StridedIter_new l = Some (?st 0)"
    using view_fits [OF v] view_offset(2) [OF v]
    by (simp add: StridedIter_new_def layout_num_elements_def num_elements_def rank_def rust_simps
        lpos_def unravel_0 idot_zero)
  moreover have "\<forall>p \<in> set (positions l). p < n"
    using layout_index_ok(2) [OF v in_shape_unravel] by (auto simp: positions_def)
  ultimately show ?thesis by auto
qed

subsection \<open>Strided blocks\<close>

lemma unravel_append: "unravel (xs @ ys) k = unravel xs (k div prod_list ys) @ unravel ys k"
  by (induction xs) (auto simp: div_mult2_eq [symmetric] mult.commute)

lemma unravel_mod: "unravel ds (k mod prod_list ds) = unravel ds k"
proof (induction ds arbitrary: k)
  case (Cons d ds)
  let ?P = "prod_list ds"
  have "unravel ds (k mod (d * ?P)) = unravel ds (k mod (d * ?P) mod ?P)"
    using Cons.IH [of "k mod (d * ?P)"] by simp
  also have "k mod (d * ?P) mod ?P = k mod ?P" by (simp add: mod_mod_cancel)
  also have "unravel ds (k mod ?P) = unravel ds k" by (rule Cons.IH)
  finally have "unravel ds (k mod (d * ?P)) = unravel ds k" .
  moreover have "k mod (d * ?P) div ?P mod d = k div ?P mod d"
  proof (cases "?P = 0")
    case False
    have "k mod (d * ?P) div ?P = (?P * (k div ?P mod d) + k mod ?P) div ?P"
      by (subst mult.commute) (simp only: mod_mult2_eq)
    also have "\<dots> = k div ?P mod d" using False by simp
    finally show ?thesis by simp
  qed simp
  ultimately show ?case by simp
qed simp

lemma upt_shift: "[a..<a + n] = map (\<lambda>t. a + t) [0..<n]"
  by (rule nth_equalityI) auto

lemma concat_blocks:
  "concat (map (\<lambda>b. map (\<lambda>t. f (b * P + t)) [0..<P]) [0..<m]) = map f [0..<m * P]"
proof (induction m)
  case (Suc m)
  have "[0..<Suc m * P] = [0..<m * P] @ [m * P..<m * P + P]"
    by (metis add.commute le_add1 mult_Suc upt_add_eq_append zero_le)
  moreover have "[m * P..<m * P + P] = map (\<lambda>t. m * P + t) [0..<P]"
    by (rule upt_shift)
  ultimately show ?case using Suc by simp
qed simp

text \<open>How far outwards the strides follow the contiguous pattern; the three loops compute it.\<close>

fun contig_from :: "layout \<Rightarrow> nat \<Rightarrow> nat" where
  "contig_from l 0 = 0"
| "contig_from l (Suc i) =
     (if ly_strides l ! i = int (prod_list (drop (Suc i) (ly_shape l))) then contig_from l i else Suc i)"

lemma in_isize_int: "int m < isize_lim \<Longrightarrow> in_isize (int m)"
  using isize_lim_pos by (simp add: in_isize_def)

lemma contig_loops:
  assumes v: "view_ok n l" and j: "j \<le> length (ly_shape l)"
  shows "layout_contig_loop l (rev [0..<j]) (int (prod_list (drop j (ly_shape l)))) = Some (contig_from l j = 0)"
    and "block_len_loop l (rev [0..<j]) (prod_list (drop j (ly_shape l))) (int (prod_list (drop j (ly_shape l)))) =
      Some (prod_list (drop (contig_from l j) (ly_shape l)))"
    and "outer_dims_loop l (rev [0..<j]) (int (prod_list (drop j (ly_shape l)))) = Some (contig_from l j)"
proof -
  have step: "i < length (ly_strides l)" "as_isize (ly_shape l ! i) = int (ly_shape l ! i)"
      "imul (int (prod_list (drop (Suc i) (ly_shape l)))) (int (ly_shape l ! i)) = Some (int (prod_list (drop i (ly_shape l))))"
      "umul (prod_list (drop (Suc i) (ly_shape l))) (ly_shape l ! i) = Some (prod_list (drop i (ly_shape l)))"
    if i: "i < length (ly_shape l)" for i
  proof -
    show "i < length (ly_strides l)" using i view_okD(1) [OF v] by simp
    show "as_isize (ly_shape l ! i) = int (ly_shape l ! i)"
      using i view_dim(2) [OF v] by (intro as_isize_small) simp
    have "prod_list (drop i (ly_shape l)) \<le> prod_list (ly_shape l)"
      using prod_list_drop_mono [of "ly_shape l" 0 i] view_okD(2) [OF v] by simp
    then have "int (prod_list (drop i (ly_shape l))) < isize_lim" using view_okD(3) [OF v] by linarith
    moreover from this have "prod_list (drop i (ly_shape l)) < usize_lim"
      using int_usize_lim isize_lim_pos by linarith
    ultimately show "imul (int (prod_list (drop (Suc i) (ly_shape l)))) (int (ly_shape l ! i)) =
        Some (int (prod_list (drop i (ly_shape l))))"
      "umul (prod_list (drop (Suc i) (ly_shape l))) (ly_shape l ! i) = Some (prod_list (drop i (ly_shape l)))"
      using prod_list_drop [OF i] in_isize_int [of "prod_list (drop i (ly_shape l))"]
      by (simp_all add: mult.commute)
  qed
  show "layout_contig_loop l (rev [0..<j]) (int (prod_list (drop j (ly_shape l)))) = Some (contig_from l j = 0)"
    using j by (induction j) (simp_all add: step rust_simps)
  show "block_len_loop l (rev [0..<j]) (prod_list (drop j (ly_shape l))) (int (prod_list (drop j (ly_shape l)))) =
      Some (prod_list (drop (contig_from l j) (ly_shape l)))"
    using j by (induction j) (simp_all add: step rust_simps)
  show "outer_dims_loop l (rev [0..<j]) (int (prod_list (drop j (ly_shape l)))) = Some (contig_from l j)"
    using j by (induction j) (simp_all add: step rust_simps)
qed

lemma contig_from_le: "contig_from l j \<le> j"
  by (induction j) auto

lemma contig_from_strides:
  assumes "length (ly_strides l) = length (ly_shape l)" "j \<le> length (ly_shape l)"
    and "drop j (ly_strides l) = map int (rm_strides (drop j (ly_shape l)))"
  shows "drop (contig_from l j) (ly_strides l) = map int (rm_strides (drop (contig_from l j) (ly_shape l)))"
  using assms(2,3)
proof (induction j)
  case (Suc i)
  show ?case
  proof (cases "ly_strides l ! i = int (prod_list (drop (Suc i) (ly_shape l)))")
    case True
    have "drop i (ly_strides l) = ly_strides l ! i # drop (Suc i) (ly_strides l)"
      "drop i (ly_shape l) = ly_shape l ! i # drop (Suc i) (ly_shape l)"
      using Suc.prems(1) assms(1) by (metis Cons_nth_drop_Suc Suc_le_lessD)+
    then have "drop i (ly_strides l) = map int (rm_strides (drop i (ly_shape l)))"
      using True Suc.prems by simp
    with Suc True show ?thesis by simp
  qed (use Suc in simp)
qed simp

text \<open>An element is its block plus its place in the block.\<close>

lemma lpos_block:
  assumes v: "view_ok n l" and j: "j \<le> length (ly_shape l)"
    and rm: "drop j (ly_strides l) = map int (rm_strides (drop j (ly_shape l)))"
  shows "lpos l (unravel (ly_shape l) k) =
    lpos l (unravel (take j (ly_shape l)) (k div prod_list (drop j (ly_shape l)))) + int (k mod prod_list (drop j (ly_shape l)))"
proof -
  let ?in = "drop j (ly_shape l)" and ?out = "take j (ly_shape l)"
  have P: "0 < prod_list ?in" using view_okD(2) [OF v] by (rule prod_list_drop_pos)
  have "idot (unravel ?in k) (map int (rm_strides ?in)) = int (k mod prod_list ?in)"
    using P upos_rm_strides [of "k mod prod_list ?in" ?in]
    by (simp add: idot_map_int upos_def unravel_mod)
  moreover have "unravel (ly_shape l) k = unravel ?out (k div prod_list ?in) @ unravel ?in k"
    using unravel_append [of ?out ?in k] by simp
  moreover have "idot (unravel ?out b @ cs) (ly_strides l) =
      idot (unravel ?out b) (ly_strides l) + idot cs (drop j (ly_strides l))" for b cs
    using j view_okD(1) [OF v] by (intro idot_split) auto
  ultimately show ?thesis by (simp add: lpos_def rm)
qed

text \<open>The positions covered by a list of blocks.\<close>

definition cover :: "usize list \<Rightarrow> usize \<Rightarrow> usize list" where
  "cover starts len = concat (map (\<lambda>s. [s..<s + len]) starts)"

lemma positions_blocks:
  assumes v: "view_ok n l" and j: "j \<le> length (ly_shape l)"
    and rm: "drop j (ly_strides l) = map int (rm_strides (drop j (ly_shape l)))"
  shows "positions l = cover (map (\<lambda>b. nat (lpos l (unravel (take j (ly_shape l)) b)))
      [0..<prod_list (take j (ly_shape l))]) (prod_list (drop j (ly_shape l)))"
proof -
  let ?P = "prod_list (drop j (ly_shape l))" and ?M = "prod_list (take j (ly_shape l))"
  let ?f = "\<lambda>k. nat (lpos l (unravel (ly_shape l) k))"
  let ?s = "\<lambda>b. nat (lpos l (unravel (take j (ly_shape l)) b))"
  have "map (\<lambda>t. ?f (b * ?P + t)) [0..<?P] = [?s b..<?s b + ?P]" if b: "b < ?M" for b
  proof -
    have "in_shape (take j (ly_shape l)) (unravel (take j (ly_shape l)) b)"
      using b by (rule in_shape_unravel)
    then have nn: "0 \<le> lpos l (unravel (take j (ly_shape l)) b)"
      using view_prefix [OF v _ j] view_pos(1) [OF v] by metis
    have "?f (b * ?P + t) = ?s b + t" if "t < ?P" for t
      using lpos_block [OF v j rm, of "b * ?P + t"] that nn by (simp add: nat_add_distrib)
    then have "map (\<lambda>t. ?f (b * ?P + t)) [0..<?P] = map (\<lambda>t. ?s b + t) [0..<?P]" by simp
    also have "\<dots> = [?s b..<?s b + ?P]" by (rule upt_shift [symmetric])
    finally show ?thesis .
  qed
  then have "map (\<lambda>b. map (\<lambda>t. ?f (b * ?P + t)) [0..<?P]) [0..<?M] = map (\<lambda>b. [?s b..<?s b + ?P]) [0..<?M]"
    by simp
  then have "map ?f [0..<?M * ?P] = concat (map (\<lambda>b. [?s b..<?s b + ?P]) [0..<?M])"
    by (rule trans [OF concat_blocks [symmetric] arg_cong [of _ _ concat]])
  then have "map ?f [0..<prod_list (ly_shape l)] = concat (map (\<lambda>b. [?s b..<?s b + ?P]) [0..<?M])"
    unfolding prod_list_take_drop .
  then show ?thesis by (simp add: positions_def cover_def comp_def)
qed

lemma block_iter_collect:
  assumes v: "view_ok n l" and j: "j \<le> length (ly_shape l)"
  shows "iter_collect block_next (MultipleIter l (replicate j 0) (prod_list (take j (ly_shape l))) bl) =
    Some (map (\<lambda>b. nat (lpos l (unravel (take j (ly_shape l)) b))) [0..<prod_list (take j (ly_shape l))])"
proof -
  let ?ds = "take j (ly_shape l)" and ?M = "prod_list (take j (ly_shape l))"
  let ?m = "\<lambda>k. unravel ?ds (k mod ?M)"
  let ?st = "\<lambda>k. MultipleIter l (?m k) (?M - k) bl"
  have M: "0 < ?M" using view_okD(2) [OF v] by (rule prod_list_take_pos)
  have sh: "in_shape ?ds (?m k)" for k using M by (intro in_shape_unravel) simp
  have lim: "\<forall>x \<in> set (ly_shape l). x < usize_lim" using view_dim(3) [OF v] by blast
  have adv: "advance_index (ly_shape l) j (?m k) = Some (?m (Suc k))" for k
    using advance_index_spec [of j "?m k" "ly_shape l"] sh [of k] lim M j by (simp add: mod_Suc_eq)
  have off: "offset_loop l (?m k) = Some (lpos l (?m k))" for k
    by (rule offset_loop_prefix [OF v sh j])
  have us: "as_usize (lpos l (?m k)) = nat (lpos l (?m k))" for k
    using view_pos [OF v view_prefix(1) [OF v sh j]] view_prefix(2) [OF v sh j] view_okD(4) [OF v]
    by (intro as_usize_small) (metis, metis order.strict_trans isize_lim_pos mult_2 less_add_same_cancel1)
  have "block_next (?st k) = Some (Some (nat (lpos l (?m k))), ?st (Suc k))" if "k < ?M" for k
    using that adv [of k] off [of k] us [of k] j by (simp add: block_next_def)
  then have "iter_collect block_next (?st 0) = Some (map (\<lambda>k. nat (lpos l (?m k))) [0..<?M])"
    by (intro iter_collect_upt) (auto simp: block_next_def)
  moreover have "map (\<lambda>k. nat (lpos l (?m k))) [0..<?M] = map (\<lambda>b. nat (lpos l (unravel ?ds b))) [0..<?M]"
    by simp
  ultimately show ?thesis using j by (simp add: unravel_0)
qed

text \<open>
  Block iteration visits the same positions: the blocks of \<open>strided_blocks\<close>, laid end to
  end in the order of \<open>block_starts\<close>, are exactly the positions of the layout in row-major
  order, so the fast path of the kernels and the element-wise iterator agree.
\<close>

theorem strided_blocks_cover:
  assumes v: "view_ok n l"
  shows "\<exists>b it starts. layout_strided_blocks l = Some b \<and> block_starts b = Some it \<and>
    iter_collect block_next it = Some starts \<and> cover starts (block_len b) = positions l"
proof -
  let ?r = "length (ly_shape l)" and ?N = "prod_list (ly_shape l)"
  define j where "j = contig_from l ?r"
  have j: "j \<le> ?r" by (simp add: j_def contig_from_le)
  have rm: "drop j (ly_strides l) = map int (rm_strides (drop j (ly_shape l)))"
    unfolding j_def using view_okD(1) [OF v] by (intro contig_from_strides) simp_all
  note loops = contig_loops [OF v le_refl, folded j_def, simplified]
  have n: "layout_num_elements l = Some ?N" "0 < ?N"
    using view_fits [OF v] view_okD(2) [OF v] by (simp_all add: layout_num_elements_def num_elements_def rust_simps)
  have cont: "layout_is_contiguous l = Some (j = 0)"
    using loops(1) by (cases "ly_shape l = []") (auto simp: layout_is_contiguous_def rank_def j_def)
  have single: "iter_collect block_next (SingleIter s False) = Some [s]" for s
    using iter_collect_upt [of 0 1 block_next "\<lambda>k. SingleIter s (0 < k)" "\<lambda>_. s"]
    by (simp add: block_next_def)
  show ?thesis
  proof (cases "j = 0 \<or> prod_list (drop j (ly_shape l)) = ?N")
    case True
    have M: "prod_list (take j (ly_shape l)) = 1"
      using True prod_list_take_drop [of j "ly_shape l"] n(2) by auto
    have P: "prod_list (drop j (ly_shape l)) = ?N"
      using True by auto
    have "positions l = cover [nat (lpos l (unravel (take j (ly_shape l)) 0))] ?N"
      using positions_blocks [OF v j rm] by (simp add: M P)
    also have "lpos l (unravel (take j (ly_shape l)) 0) = int (ly_offset l)"
      by (simp add: lpos_def unravel_0 idot_zero)
    finally have pos: "cover [ly_offset l] ?N = positions l" by simp
    have "layout_strided_blocks l = Some (SingleBlock (ly_offset l) ?N)"
      using True n cont loops(2) by (auto simp: layout_strided_blocks_def rank_def)
    with pos single show ?thesis
      by (auto simp: block_starts_def block_len_def)
  next
    case False
    let ?P = "prod_list (drop j (ly_shape l))"
    have P: "0 < ?P" using n(2) by (rule prod_list_drop_pos)
    have "?N div ?P = prod_list (take j (ly_shape l))"
      using prod_list_take_drop [of j "ly_shape l"] P by (metis nonzero_mult_div_cancel_right nat_less_le)
    then have "layout_strided_blocks l = Some (MultipleBlocks l ?P (prod_list (take j (ly_shape l))))"
      using False n cont loops(2) P by (auto simp: layout_strided_blocks_def rank_def rust_simps)
    moreover have "block_starts (MultipleBlocks l ?P m) = Some (MultipleIter l (replicate j 0) m ?P)" for m
      using loops(3) by (simp add: block_starts_def rank_def)
    ultimately show ?thesis
      using block_iter_collect [OF v j, of ?P] positions_blocks [OF v j rm] by (simp add: block_len_def)
  qed
qed

subsection \<open>Contiguous layouts\<close>

lemma contiguous_strides_usize_rm:
  "fits shape \<Longrightarrow> contiguous_strides_usize shape = Some (rm_strides shape)"
  using row_major_contiguous_strides_rm [of shape]
  by (cases "1 < length shape")
    (auto simp: contiguous_strides_usize_def row_major_contiguous_strides_def split: if_splits)

lemma rm_strides_le: "0 < prod_list ds \<Longrightarrow> s \<in> set (rm_strides ds) \<Longrightarrow> s \<le> prod_list ds"
  by (metis in_set_conv_nth length_rm_strides rm_strides_nth prod_list_drop_mono [of ds 0] drop0 zero_le)

lemma layout_contiguous_ok:
  assumes "0 < prod_list shape" "int (prod_list shape) < isize_lim"
  shows "\<exists>l. layout_contiguous shape = Some l \<and> ly_shape l = shape \<and> ly_offset l = 0 \<and>
    ly_strides l = map int (rm_strides shape) \<and> view_ok (prod_list shape) l"
proof -
  have lim: "prod_list shape < usize_lim" using assms int_usize_lim isize_lim_pos by linarith
  have fits: "fits shape" using assms(1) lim by (subst fits_positive) (auto simp: prod_list_pos)
  have st: "int s < isize_lim" if "s \<in> set (rm_strides shape)" for s
    using rm_strides_le [OF assms(1) that] assms(2) by linarith
  let ?l = "\<lparr>ly_shape = shape, ly_strides = map int (rm_strides shape), ly_offset = 0\<rparr>"
  have "map as_isize (rm_strides shape) = map int (rm_strides shape)"
    using st by (intro map_cong) (auto simp: rust_simps)
  then have "layout_contiguous shape = Some ?l"
    by (simp add: layout_contiguous_def contiguous_strides_usize_rm fits)
  moreover have "view_ok (prod_list shape) ?l"
    unfolding view_ok_def shape_ok_def lpos_def using assms st ravel_less
    by (auto simp: idot_map_int udot_rm_strides in_shape_length intro: in_isize_int)
  ultimately show ?thesis by simp
qed

lemma contig_from_rm:
  assumes "ly_strides l = map int (rm_strides (ly_shape l))" "j \<le> length (ly_shape l)"
  shows "contig_from l j = 0"
  using assms(2) by (induction j) (simp_all add: assms(1) rm_strides_nth)

lemma layout_is_contiguous_ok:
  assumes v: "view_ok n l"
  shows "layout_is_contiguous l = Some (ly_strides l = map int (rm_strides (ly_shape l)))"
proof -
  have "layout_is_contiguous l = Some (contig_from l (length (ly_shape l)) = 0)"
    using contig_loops(1) [OF v le_refl] view_okD(1) [OF v]
    by (cases "ly_shape l = []") (simp_all add: layout_is_contiguous_def rank_def)
  moreover have "contig_from l (length (ly_shape l)) = 0 \<longleftrightarrow> ly_strides l = map int (rm_strides (ly_shape l))"
    using contig_from_strides [of l "length (ly_shape l)"] contig_from_rm [of l "length (ly_shape l)"]
      view_okD(1) [OF v] by auto
  ultimately show ?thesis by simp
qed

lemma positions_contiguous:
  "ly_strides l = map int (rm_strides (ly_shape l)) \<Longrightarrow>
   positions l = map (\<lambda>k. ly_offset l + k) [0..<prod_list (ly_shape l)]"
  using upos_rm_strides [of _ "ly_shape l"]
  by (simp add: positions_def lpos_def idot_map_int upos_def [symmetric] nat_int_add)

subsection \<open>Views\<close>

text \<open>
  The contract of a zero-copy operation: under its precondition it succeeds, and reading the
  result at coordinates \<open>cs\<close> reads the original at \<open>coord l a cs\<close>.
\<close>

locale view_op =
  fixes op :: "layout \<Rightarrow> 'a \<Rightarrow> layout option"
    and pre :: "layout \<Rightarrow> 'a \<Rightarrow> bool"
    and coord :: "layout \<Rightarrow> 'a \<Rightarrow> usize list \<Rightarrow> usize list"
  assumes op_view: "view_ok n l \<Longrightarrow> pre l a \<Longrightarrow>
    \<exists>l'. op l a = Some l' \<and> shape_ok l' \<and>
      (\<forall>cs. in_shape (ly_shape l') cs \<longrightarrow>
         in_shape (ly_shape l) (coord l a cs) \<and> lpos l' cs = lpos l (coord l a cs))"
begin

lemma op_ok:
  assumes "view_ok n l" "pre l a"
  shows "\<exists>l'. op l a = Some l' \<and> view_ok n l'"
  using op_view [OF assms] assms(1) by (auto simp: view_ok_def)

lemma op_index:
  assumes "view_ok n l" "pre l a" "op l a = Some l'" "in_shape (ly_shape l') cs"
  shows "\<exists>p < n. layout_index l' cs = Some p \<and> layout_index l (coord l a cs) = Some p"
proof -
  have sh: "in_shape (ly_shape l) (coord l a cs)" and pos: "lpos l' cs = lpos l (coord l a cs)"
    using op_view [OF assms(1,2)] assms(3,4) by auto
  have v': "view_ok n l'" using op_ok [OF assms(1,2)] assms(3) by simp
  show ?thesis
    using layout_index_ok [OF v' assms(4)] layout_index_ok [OF assms(1) sh] pos by simp
qed

lemma op_positions:
  assumes "view_ok n l" "pre l a" "op l a = Some l'"
  shows "positions l' = map (\<lambda>k. nat (lpos l (coord l a (unravel (ly_shape l') k)))) [0..<prod_list (ly_shape l')]"
  using op_view [OF assms(1,2)] assms(3) in_shape_unravel by (auto simp: positions_def)

end

subsubsection \<open>Permute and transpose\<close>

definition is_perm :: "usize list \<Rightarrow> nat \<Rightarrow> bool" where
  "is_perm axes r \<longleftrightarrow> length axes = r \<and> distinct axes \<and> (\<forall>a \<in> set axes. a < r)"

definition index_of :: "usize list \<Rightarrow> usize \<Rightarrow> nat" where
  "index_of axes d = length (takeWhile (\<lambda>x. x \<noteq> d) axes)"

definition permute_coords :: "usize list \<Rightarrow> usize list \<Rightarrow> usize list" where
  "permute_coords axes cs = map (\<lambda>d. cs ! index_of axes d) [0..<length axes]"

lemma is_perm_set: "is_perm axes r \<Longrightarrow> set axes = {..<r}"
  by (metis (no_types, lifting) card_lessThan card_subset_eq distinct_card finite_lessThan is_perm_def
      lessThan_iff subsetI)

lemma index_of_nth: "distinct axes \<Longrightarrow> i < length axes \<Longrightarrow> index_of axes (axes ! i) = i"
proof (induction axes arbitrary: i)
  case (Cons a axes)
  then show ?case by (cases i) (auto simp: index_of_def)
qed simp

lemma index_of_mem: "d \<in> set axes \<Longrightarrow> index_of axes d < length axes \<and> axes ! index_of axes d = d"
  unfolding index_of_def using nth_length_takeWhile [of "\<lambda>x. x \<noteq> d" axes]
  by (metis (mono_tags, lifting) length_takeWhile_le le_neq_implies_less takeWhile_eq_all_conv
      takeWhile_eq_take take_all_iff order_refl)

lemma perm_prod:
  assumes "is_perm axes (length ds)"
  shows "prod_list (map ((!) ds) axes) = prod_list (ds :: nat list)"
proof -
  have "prod_list (map ((!) ds) axes) = prod ((!) ds) (set axes)"
    using assms by (simp add: is_perm_def prod.distinct_set_conv_list)
  also have "set axes = set [0..<length ds]"
    using is_perm_set [OF assms] by (simp add: lessThan_atLeast0)
  also have "prod ((!) ds) (set [0..<length ds]) = prod_list (map ((!) ds) [0..<length ds])"
    by (rule prod.distinct_set_conv_list) simp
  finally show ?thesis by (simp add: map_nth)
qed

lemma perm_idot:
  assumes "is_perm axes (length ss)" "length cs = length ss"
  shows "idot cs (map ((!) ss) axes) = idot (permute_coords axes cs) ss"
proof -
  let ?r = "length ss"
  have ax: "length axes = ?r" "distinct axes" "set axes = {..<?r}"
    using assms(1) is_perm_set [OF assms(1)] by (simp_all add: is_perm_def)
  have bij: "bij_betw ((!) axes) {..<?r} {..<?r}"
    using ax by (metis bij_betw_nth)
  let ?g = "\<lambda>d. int (permute_coords axes cs ! d) * ss ! d"
  have "idot (permute_coords axes cs) ss = (\<Sum>d < ?r. ?g d)"
    using ax by (intro idot_conv_sum) (simp add: permute_coords_def)
  also have "\<dots> = (\<Sum>i < ?r. ?g (axes ! i))"
    by (rule sum.reindex_bij_betw [OF bij, symmetric])
  also have "\<dots> = (\<Sum>i < ?r. int (cs ! i) * ss ! (axes ! i))"
  proof (rule sum.cong)
    fix i assume "i \<in> {..<?r}"
    moreover from this have "axes ! i < ?r" using ax by (metis lessThan_iff nth_mem)
    ultimately show "?g (axes ! i) = int (cs ! i) * ss ! (axes ! i)"
      using ax by (simp add: permute_coords_def index_of_nth)
  qed simp
  also have "\<dots> = idot cs (map ((!) ss) axes)"
    using ax assms(2) by (subst idot_conv_sum) auto
  finally show ?thesis by simp
qed

lemma perm_in_shape:
  assumes "is_perm axes (length ds)" "in_shape (map ((!) ds) axes) cs"
  shows "in_shape ds (permute_coords axes cs)"
proof -
  have ax: "length axes = length ds" "set axes = {..<length ds}"
    using assms(1) is_perm_set [OF assms(1)] by (simp_all add: is_perm_def)
  have "cs ! index_of axes d < ds ! d" if "d < length ds" for d
    using index_of_mem [of d axes] ax that assms(2) by (auto simp: in_shape_iff)
  then show ?thesis using ax by (simp add: in_shape_iff permute_coords_def)
qed

lemma view_permuted:
  assumes v: "view_ok n l" and ax: "is_perm axes (length (ly_shape l))"
    and l': "l' = \<lparr>ly_shape = map ((!) (ly_shape l)) axes, ly_strides = map ((!) (ly_strides l)) axes, ly_offset = ly_offset l\<rparr>"
  shows "shape_ok l' \<and> (\<forall>cs. in_shape (ly_shape l') cs \<longrightarrow>
    in_shape (ly_shape l) (permute_coords axes cs) \<and> lpos l' cs = lpos l (permute_coords axes cs))"
proof -
  have "shape_ok l'"
    using view_okD [OF v] perm_prod [OF ax] ax by (auto simp: l' shape_ok_def is_perm_def)
  moreover have "lpos l' cs = lpos l (permute_coords axes cs)" if "in_shape (ly_shape l') cs" for cs
    using perm_idot [of axes "ly_strides l" cs] view_okD(1) [OF v] ax in_shape_length [OF that]
    by (simp add: lpos_def l' is_perm_def)
  ultimately show ?thesis using perm_in_shape [OF ax] l' by simp
qed

interpretation perm: view_op layout_permute "\<lambda>l axes. is_perm axes (rank (ly_shape l))" "\<lambda>l. permute_coords"
proof
  fix n l axes assume v: "view_ok n l" and ax: "is_perm axes (rank (ly_shape l))"
  have ax': "is_perm axes (length (ly_shape l))" using ax by (simp add: rank_def)
  have "mmap (vec_get (ly_shape l)) axes = Some (map ((!) (ly_shape l)) axes)"
    "mmap (vec_get (ly_strides l)) axes = Some (map ((!) (ly_strides l)) axes)"
    using ax' view_okD(1) [OF v] by (auto intro!: mmap_pure simp: is_perm_def rust_simps)
  then show "\<exists>l'. layout_permute l axes = Some l' \<and> shape_ok l' \<and>
      (\<forall>cs. in_shape (ly_shape l') cs \<longrightarrow>
         in_shape (ly_shape l) (permute_coords axes cs) \<and> lpos l' cs = lpos l (permute_coords axes cs))"
    using view_permuted [OF v ax' refl] ax by (simp add: layout_permute_def is_perm_def rust_simps)
qed

definition swap_axes :: "nat \<Rightarrow> usize \<times> usize \<Rightarrow> usize list" where
  "swap_axes r = (\<lambda>(i, j). [0..<r][i := j, j := i])"

lemma swap_axes_perm: "i < r \<Longrightarrow> j < r \<Longrightarrow> is_perm (swap_axes r (i, j)) r"
proof -
  assume ij: "i < r" "j < r"
  have "mset ([0..<r][i := [0..<r] ! j, j := [0..<r] ! i]) = mset [0..<r]"
    using ij by (intro mset_swap) simp_all
  then have "mset (swap_axes r (i, j)) = mset [0..<r]" using ij by (simp add: swap_axes_def)
  then show ?thesis
    by (metis is_perm_def atLeastLessThan_iff distinct_upt length_upt diff_zero mset_eq_imp_distinct_iff
        set_mset_mset set_upt size_mset)
qed

lemma swap_axes_map:
  "length xs = r \<Longrightarrow> i < r \<Longrightarrow> j < r \<Longrightarrow> map ((!) xs) (swap_axes r (i, j)) = xs[i := xs ! j, j := xs ! i]"
  by (rule nth_equalityI) (auto simp: swap_axes_def nth_list_update)

interpretation transp: view_op "\<lambda>l (i, j). layout_transpose l i j"
  "\<lambda>l (i, j). i < rank (ly_shape l) \<and> j < rank (ly_shape l)"
  "\<lambda>l ij. permute_coords (swap_axes (rank (ly_shape l)) ij)"
proof
  fix n l and a :: "usize \<times> usize"
  assume v: "view_ok n l" and pre: "case a of (i, j) \<Rightarrow> i < rank (ly_shape l) \<and> j < rank (ly_shape l)"
  obtain i j where a: "a = (i, j)" "i < length (ly_shape l)" "j < length (ly_shape l)"
    using pre by (cases a) (auto simp: rank_def)
  let ?ax = "swap_axes (length (ly_shape l)) (i, j)"
  have "layout_transpose l i j = Some \<lparr>ly_shape = map ((!) (ly_shape l)) ?ax,
      ly_strides = map ((!) (ly_strides l)) ?ax, ly_offset = ly_offset l\<rparr>"
    using a view_okD(1) [OF v] by (simp add: layout_transpose_def vec_swap_def swap_axes_map)
  then show "\<exists>l'. (case a of (i, j) \<Rightarrow> layout_transpose l i j) = Some l' \<and> shape_ok l' \<and>
      (\<forall>cs. in_shape (ly_shape l') cs \<longrightarrow>
         in_shape (ly_shape l) (permute_coords (swap_axes (rank (ly_shape l)) a) cs) \<and>
         lpos l' cs = lpos l (permute_coords (swap_axes (rank (ly_shape l)) a) cs))"
    using view_permuted [OF v swap_axes_perm refl, of i j] a by (simp add: rank_def)
qed

end
