(* ===== verification/Tensor_View_Ops.thy ===== *)
theory Tensor_View_Ops
  imports Tensor_View
begin

text \<open>
  The zero-copy operations that move the start of a layout (narrow, flip, slice) meet the
  contract of a view; the properties of all of them follow from it.
\<close>

subsection \<open>Shared facts\<close>

lemma idot_update_stride:
  "d < length ss \<Longrightarrow> length cs = length ss \<Longrightarrow> idot cs (ss[d := v]) = idot cs ss + int (cs ! d) * (v - ss ! d)"
proof (induction cs ss arbitrary: d rule: idot.induct)
  case (1 c cs s ss)
  then show ?case by (cases d) (auto simp: algebra_simps)
qed auto

lemma prod_list_le:
  "length xs = length ys \<Longrightarrow> (\<And>i. i < length ys \<Longrightarrow> xs ! i \<le> ys ! i) \<Longrightarrow> prod_list xs \<le> prod_list (ys :: nat list)"
proof (induction xs ys rule: list_induct2)
  case (Cons x xs y ys)
  from Cons.prems [of 0] have "x \<le> y" by simp
  moreover have "prod_list xs \<le> prod_list ys"
    using Cons.IH Cons.prems [of "Suc i" for i] by auto
  ultimately show ?case by (simp add: mult_le_mono)
qed simp

text \<open>A layout with smaller, non-zero dimensions.\<close>

lemma shape_ok_smaller:
  assumes v: "view_ok n l" and "length ds = length (ly_shape l)" "length ss = length ds"
    and "\<And>i. i < length ds \<Longrightarrow> 0 < ds ! i \<and> ds ! i \<le> ly_shape l ! i" "\<forall>s \<in> set ss. in_isize s"
  shows "shape_ok \<lparr>ly_shape = ds, ly_strides = ss, ly_offset = off\<rparr>"
proof -
  have "prod_list ds \<le> prod_list (ly_shape l)"
    using assms(2,4) by (intro prod_list_le) auto
  moreover have "0 < prod_list ds"
    using assms(4) by (subst prod_list_pos [symmetric]) (auto simp: in_set_conv_nth)
  ultimately show ?thesis
    using view_okD(3) [OF v] assms by (auto simp: shape_ok_def)
qed

lemma as_usize_pos: "view_ok n l \<Longrightarrow> in_shape (ly_shape l) cs \<Longrightarrow> as_usize (lpos l cs) = nat (lpos l cs)"
  using view_pos [of n l cs] view_okD(4) [of n l] by (intro as_usize_small) auto

lemma int_as_usize_pos: "view_ok n l \<Longrightarrow> in_shape (ly_shape l) cs \<Longrightarrow> int (as_usize (lpos l cs)) = lpos l cs"
  using view_pos(1) by (simp add: as_usize_pos)

lemma view_zeros: "view_ok n l \<Longrightarrow> in_shape (ly_shape l) (replicate (length (ly_shape l)) 0)"
  using view_prefix(1) [of n l 0 "[]"] by simp

lemma lpos_zeros: "lpos l (replicate k 0) = int (ly_offset l)"
  by (simp add: lpos_def idot_zero)

text \<open>A multiple of a stride is a distance of two elements as long as the coordinate exists.\<close>

lemma view_stride:
  assumes v: "view_ok n l" and d: "d < length (ly_shape l)" and c: "c < ly_shape l ! d"
  shows "in_isize (int c * ly_strides l ! d)" "in_isize (- (int c * ly_strides l ! d))"
    "in_isize (int (ly_offset l) + int c * ly_strides l ! d)"
    "0 \<le> int (ly_offset l) + int c * ly_strides l ! d"
proof -
  let ?z = "replicate (length (ly_shape l)) (0::nat)"
  have z: "in_shape (ly_shape l) ?z" using v by (rule view_zeros)
  have c: "in_shape (ly_shape l) (?z[d := c])" using z d c by (rule in_shape_update)
  have p: "lpos l (?z[d := c]) = int (ly_offset l) + int c * ly_strides l ! d"
    using d view_okD(1) [OF v] by (subst lpos_update) (auto simp: lpos_zeros)
  show "in_isize (int c * ly_strides l ! d)" "in_isize (- (int c * ly_strides l ! d))"
    using view_diff [OF v c z] view_diff [OF v z c] by (simp_all add: p lpos_zeros)
  show "in_isize (int (ly_offset l) + int c * ly_strides l ! d)"
    "0 \<le> int (ly_offset l) + int c * ly_strides l ! d"
    using view_pos [OF v c] by (simp_all add: p)
qed

subsection \<open>Narrow\<close>

definition narrow_pre :: "layout \<Rightarrow> usize \<times> usize \<times> usize \<Rightarrow> bool" where
  "narrow_pre l = (\<lambda>(dim, start, len). dim < rank (ly_shape l) \<and> 0 < len \<and> start + len \<le> ly_shape l ! dim)"

definition narrow_coords :: "layout \<Rightarrow> usize \<times> usize \<times> usize \<Rightarrow> usize list \<Rightarrow> usize list" where
  "narrow_coords l = (\<lambda>(dim, start, len) cs. cs[dim := cs ! dim + start])"

interpretation narrow: view_op "\<lambda>l (dim, start, len). layout_narrow l dim start len" narrow_pre narrow_coords
proof
  fix n l and a :: "usize \<times> usize \<times> usize"
  assume v: "view_ok n l" and pre: "narrow_pre l a"
  obtain dim start len where a: "a = (dim, start, len)" by (cases a)
  have d: "dim < length (ly_shape l)" "0 < len" "start + len \<le> ly_shape l ! dim"
    using pre by (auto simp: a narrow_pre_def rank_def)
  have s: "start < ly_shape l ! dim" using d by simp
  note st = view_stride [OF v d(1) s]
  note D = view_dim [OF v nth_mem [OF d(1)]]
  let ?off = "int (ly_offset l) + int start * ly_strides l ! dim"
  let ?l = "\<lparr>ly_shape = (ly_shape l)[dim := len], ly_strides = ly_strides l, ly_offset = nat ?off\<rparr>"
  have isz: "int start < isize_lim" using s D(2) by linarith
  have us: "as_usize ?off = nat ?off"
    using st by (intro as_usize_small) (auto simp: in_isize_def)
  have "layout_narrow l dim start len = Some ?l"
    using d s D st view_okD(1) [OF v] view_offset(2) [OF v] isz us
    by (simp add: layout_narrow_def rust_simps mult.commute)
  moreover have "shape_ok ?l"
  proof (rule shape_ok_smaller [OF v])
    show "0 < (ly_shape l)[dim := len] ! i \<and> (ly_shape l)[dim := len] ! i \<le> ly_shape l ! i"
      if "i < length ((ly_shape l)[dim := len])" for i
      using that d view_dim(1) [OF v] by (cases "i = dim") auto
  qed (use view_okD [OF v] in auto)
  moreover have "in_shape (ly_shape l) (cs[dim := cs ! dim + start]) \<and> lpos ?l cs = lpos l (cs[dim := cs ! dim + start])"
    if cs: "in_shape ((ly_shape l)[dim := len]) cs" for cs
  proof
    have len: "length cs = length (ly_shape l)" using in_shape_length [OF cs] by simp
    have c: "cs ! i < (ly_shape l)[dim := len] ! i" if "i < length (ly_shape l)" for i
      using cs that by (simp add: in_shape_iff)
    have c0: "cs ! dim + start < ly_shape l ! dim" using c [OF d(1)] d by simp
    have c1: "cs ! i < ly_shape l ! i" if "i < length (ly_shape l)" "i \<noteq> dim" for i
      using c [OF that(1)] that(2) by simp
    show "in_shape (ly_shape l) (cs[dim := cs ! dim + start])"
      using len c0 c1 d(1) by (simp add: in_shape_iff nth_list_update)
    show "lpos ?l cs = lpos l (cs[dim := cs ! dim + start])"
      using st(4) d len view_okD(1) [OF v] by (subst lpos_update) (auto simp: lpos_def)
  qed
  ultimately show "\<exists>l'. (case a of (dim, start, len) \<Rightarrow> layout_narrow l dim start len) = Some l' \<and> shape_ok l' \<and>
      (\<forall>cs. in_shape (ly_shape l') cs \<longrightarrow>
         in_shape (ly_shape l) (narrow_coords l a cs) \<and> lpos l' cs = lpos l (narrow_coords l a cs))"
    by (simp add: a narrow_coords_def)
qed

subsection \<open>Flip\<close>

definition flip_pre :: "layout \<Rightarrow> usize list \<Rightarrow> bool" where
  "flip_pre l axes \<longleftrightarrow> distinct axes \<and> (\<forall>a \<in> set axes. a < rank (ly_shape l))"

definition flip_coords :: "layout \<Rightarrow> usize list \<Rightarrow> usize list \<Rightarrow> usize list" where
  "flip_coords l axes cs = fold (\<lambda>a cs. cs[a := ly_shape l ! a - 1 - cs ! a]) axes cs"

lemma flip_coords_in_shape:
  assumes "in_shape (ly_shape l) cs" "\<forall>a \<in> set axes. a < length (ly_shape l)"
  shows "in_shape (ly_shape l) (flip_coords l axes cs)"
  using assms unfolding flip_coords_def
proof (induction axes arbitrary: cs)
  case (Cons a axes)
  have "cs ! a < ly_shape l ! a" using Cons.prems by (simp add: in_shape_iff)
  then have "in_shape (ly_shape l) (cs[a := ly_shape l ! a - 1 - cs ! a])"
    using Cons.prems by (intro in_shape_update) auto
  with Cons show ?case by simp
qed simp

lemma flip_coords_other: "d \<notin> set axes \<Longrightarrow> flip_coords l axes cs ! d = cs ! d"
  unfolding flip_coords_def by (induction axes arbitrary: cs) auto

lemma flip_coords_length [simp]: "length (flip_coords l axes cs) = length cs"
  unfolding flip_coords_def by (induction axes arbitrary: cs) auto

lemma flip_coords_snoc:
  "flip_coords l (axes @ [a]) cs =
     (flip_coords l axes cs)[a := ly_shape l ! a - 1 - flip_coords l axes cs ! a]"
  by (simp add: flip_coords_def)

text \<open>The state of the loop after the axes \<open>as\<close>: reading through it reads the flipped coordinates.\<close>

definition flip_inv :: "layout \<Rightarrow> usize list \<Rightarrow> isize list \<times> isize \<Rightarrow> bool" where
  "flip_inv l as = (\<lambda>(ss, adj). length ss = length (ly_strides l) \<and> (\<forall>s \<in> set ss. in_isize s) \<and>
     (\<forall>d < length ss. d \<notin> set as \<longrightarrow> ss ! d = ly_strides l ! d) \<and>
     (\<forall>cs. in_shape (ly_shape l) cs \<longrightarrow>
        int (ly_offset l) + adj + idot cs ss = lpos l (flip_coords l as cs)))"

lemma flip_inv_adj:
  assumes v: "view_ok n l" and inv: "flip_inv l as (ss, adj)" and as: "\<forall>a \<in> set as. a < length (ly_shape l)"
  shows "int (ly_offset l) + adj = lpos l (flip_coords l as (replicate (length (ly_shape l)) 0))"
    "in_shape (ly_shape l) (flip_coords l as (replicate (length (ly_shape l)) 0))"
  using inv view_zeros [OF v] flip_coords_in_shape [OF view_zeros [OF v] as]
  by (auto simp: flip_inv_def idot_zero dest: spec [of _ "replicate (length (ly_shape l)) 0"])

lemma flip_step:
  assumes v: "view_ok n l" and inv: "flip_inv l as (ss, adj)" and as: "\<forall>a \<in> set as. a < length (ly_shape l)"
    and a: "a < length (ly_shape l)" "a \<notin> set as"
  shows "\<exists>s'. flip_body l a (ss, adj) = Some s' \<and> flip_inv l (as @ [a]) s'"
proof (cases "1 < ly_shape l ! a")
  case True
  let ?D = "ly_shape l ! a" and ?s = "ly_strides l ! a"
  let ?p = "(int ?D - 1) * ?s" and ?z = "replicate (length (ly_shape l)) (0::nat)"
  note I = inv [unfolded flip_inv_def, simplified]
  have len: "length ss = length (ly_shape l)" using I view_okD(1) [OF v] by simp
  have ssa: "ss ! a = ?s" using I a len by simp
  have D: "int ?D < isize_lim" using view_dim(2) [OF v nth_mem [OF a(1)]] .
  have p: "in_isize ?p" and neg: "in_isize (- ?s)"
    using view_stride(1) [OF v a(1), of "?D - 1"] view_stride(2) [OF v a(1), of 1] True
    by (simp_all add: of_nat_diff)
  have z': "in_shape (ly_shape l) (flip_coords l (as @ [a]) ?z)"
    using as a(1) by (intro flip_coords_in_shape [OF view_zeros [OF v]]) auto
  have pos: "int (ly_offset l) + (adj + ?p) + idot cs (ss[a := - ?s]) = lpos l (flip_coords l (as @ [a]) cs)"
    if cs: "in_shape (ly_shape l) cs" for cs
  proof -
    have lc: "length cs = length (ly_shape l)" using in_shape_length [OF cs] .
    have ca: "cs ! a < ?D" using cs a(1) by (simp add: in_shape_iff)
    have "lpos l (flip_coords l (as @ [a]) cs) =
        lpos l (flip_coords l as cs) + (int (?D - 1 - cs ! a) - int (cs ! a)) * ?s"
      using a lc view_okD(1) [OF v] by (simp add: flip_coords_snoc lpos_update flip_coords_other)
    also have "int (?D - 1 - cs ! a) = int ?D - 1 - int (cs ! a)" using ca by simp
    finally show ?thesis
      using I cs a lc len ssa by (simp add: idot_update_stride algebra_simps)
  qed
  have "adj + ?p = lpos l (flip_coords l (as @ [a]) ?z) - lpos l ?z"
    using pos [OF view_zeros [OF v]] by (simp add: lpos_zeros idot_zero)
  then have "in_isize (adj + ?p)"
    using view_diff [OF v z' view_zeros [OF v]] by simp
  then have "flip_body l a (ss, adj) = Some (ss[a := - ?s], adj + ?p)"
    using True a len ssa D p neg view_okD(1) [OF v]
    by (simp add: flip_body_def rank_def rust_simps ineg_def in_isize_def)
  moreover have "flip_inv l (as @ [a]) (ss[a := - ?s], adj + ?p)"
    using I pos neg a set_update_subset_insert [of ss a "- ?s"] by (auto simp: flip_inv_def)
  ultimately show ?thesis by blast
next
  case False
  have D: "ly_shape l ! a = 1" using False view_dim(1) [OF v nth_mem [OF a(1)]] by simp
  have "flip_coords l (as @ [a]) cs = flip_coords l as cs" if cs: "in_shape (ly_shape l) cs" for cs
  proof -
    have "cs ! a = 0" using cs a(1) D by (metis in_shape_iff less_one)
    then show ?thesis
      using a in_shape_length [OF cs] by (simp add: flip_coords_snoc D flip_coords_other list_update_same_conv)
  qed
  then have "flip_inv l (as @ [a]) (ss, adj)" using inv by (auto simp: flip_inv_def)
  moreover have "flip_body l a (ss, adj) = Some (ss, adj)"
    using False a by (simp add: flip_body_def rank_def rust_simps)
  ultimately show ?thesis by blast
qed

interpretation flip: view_op layout_flip flip_pre flip_coords
proof
  fix n l axes
  assume v: "view_ok n l" and pre: "flip_pre l axes"
  have ax: "distinct axes" "\<forall>a \<in> set axes. a < length (ly_shape l)"
    using pre by (auto simp: flip_pre_def rank_def)
  have "\<exists>s. mfold (flip_body l) axes (ly_strides l, 0) = Some s \<and> flip_inv l axes s"
    using ax
  proof (induction axes rule: rev_induct)
    case Nil
    then show ?case using view_okD(6) [OF v] by (simp add: flip_inv_def lpos_def flip_coords_def)
  next
    case (snoc a axes)
    then obtain s where s: "mfold (flip_body l) axes (ly_strides l, 0) = Some s" "flip_inv l axes s" by auto
    obtain ss adj where [simp]: "s = (ss, adj)" by (cases s)
    have "\<exists>s'. flip_body l a s = Some s' \<and> flip_inv l (axes @ [a]) s'"
      using flip_step [OF v, of axes ss adj a] s snoc.prems by auto
    with s show ?case by (auto simp: mfold_append)
  qed
  then obtain ss adj where fold: "mfold (flip_body l) axes (ly_strides l, 0) = Some (ss, adj)"
    and inv: "flip_inv l axes (ss, adj)" by auto
  note z = flip_inv_adj [OF v inv ax(2)]
  let ?l = "\<lparr>ly_shape = ly_shape l, ly_strides = ss, ly_offset = as_usize (int (ly_offset l) + adj)\<rparr>"
  have off: "int (as_usize (int (ly_offset l) + adj)) = int (ly_offset l) + adj"
    using int_as_usize_pos [OF v z(2)] z(1) by simp
  have "layout_flip l axes = Some ?l"
    using fold view_offset(2) [OF v] view_pos [OF v z(2)]
    by (simp add: layout_flip_def z(1) rust_simps)
  moreover have "shape_ok ?l"
    using inv view_okD [OF v] by (auto simp: shape_ok_def flip_inv_def)
  moreover have "in_shape (ly_shape l) (flip_coords l axes cs) \<and> lpos ?l cs = lpos l (flip_coords l axes cs)"
    if "in_shape (ly_shape l) cs" for cs
    using inv that off flip_coords_in_shape [OF that ax(2)] by (simp add: flip_inv_def lpos_def)
  ultimately show "\<exists>l'. layout_flip l axes = Some l' \<and> shape_ok l' \<and>
      (\<forall>cs. in_shape (ly_shape l') cs \<longrightarrow>
         in_shape (ly_shape l) (flip_coords l axes cs) \<and> lpos l' cs = lpos l (flip_coords l axes cs))"
    by simp
qed

subsection \<open>Slices with positive steps\<close>

definition slice_pre :: "layout \<Rightarrow> slice list \<Rightarrow> bool" where
  "slice_pre l ss \<longleftrightarrow> length ss \<le> rank (ly_shape l) \<and>
     (\<forall>i < length ss. slice_ok (ss ! i) \<and> 0 < sl_step (ss ! i) \<and>
        slice_start (ss ! i) (ly_shape l ! i) < slice_stop (ss ! i) (ly_shape l ! i) \<and>
        in_isize (ly_strides l ! i * sl_step (ss ! i)))"

definition slice_coords :: "layout \<Rightarrow> slice list \<Rightarrow> usize list \<Rightarrow> usize list" where
  "slice_coords l ss cs = map (\<lambda>d. if d < length ss
     then slice_start (ss ! d) (ly_shape l ! d) + cs ! d * unsigned_abs (sl_step (ss ! d)) else cs ! d)
     [0..<length cs]"

text \<open>The loop state after \<open>i\<close> slices.\<close>

definition slice_state :: "layout \<Rightarrow> slice list \<Rightarrow> nat \<Rightarrow> shape \<times> isize list \<times> isize \<times> bool" where
  "slice_state l ss i =
     (map (\<lambda>d. if d < i then slice_len (ss ! d) (ly_shape l ! d) else ly_shape l ! d) [0..<length (ly_shape l)],
      map (\<lambda>d. if d < i then ly_strides l ! d * sl_step (ss ! d) else ly_strides l ! d) [0..<length (ly_shape l)],
      lpos l (map (\<lambda>d. if d < i then slice_start (ss ! d) (ly_shape l ! d) else 0) [0..<length (ly_shape l)]),
      False)"

lemma norm_start_ok:
  "slice_ok s \<Longrightarrow> int d < isize_lim \<Longrightarrow> norm_start (int d) s = Some (slice_start s d)"
  by (auto simp: norm_start_def slice_ok_def slice_start_def clamp_index_def rust_simps in_isize_def max_def)

lemma norm_end_ok:
  "slice_ok s \<Longrightarrow> int d < isize_lim \<Longrightarrow> norm_end (int d) s = Some (slice_stop s d)"
  by (auto simp: norm_end_def slice_ok_def slice_stop_def clamp_index_def rust_simps in_isize_def max_def
      split: option.splits)

lemma map_upt_update:
  "i < n \<Longrightarrow> (\<And>d. d < n \<Longrightarrow> d \<noteq> i \<Longrightarrow> f d = g d) \<Longrightarrow> (map f [0..<n])[i := g i] = map g [0..<n]"
  by (rule nth_equalityI) (auto simp: nth_list_update)

lemma slice_step_ok:
  assumes v: "view_ok n l" and pre: "slice_pre l ss" and i: "i < length ss"
  shows "slice_step l (i, ss ! i) (slice_state l ss i) = Some (slice_state l ss (Suc i))"
proof -
  let ?r = "length (ly_shape l)" and ?s = "ss ! i" and ?D = "ly_shape l ! i" and ?st = "ly_strides l ! i"
  have ir: "i < ?r" using pre i by (simp add: slice_pre_def rank_def)
  have ok: "slice_ok ?s" "0 < sl_step ?s" "slice_start ?s ?D < slice_stop ?s ?D" "in_isize (?st * sl_step ?s)"
    using pre i by (auto simp: slice_pre_def)
  have D: "int ?D < isize_lim" using view_dim(2) [OF v nth_mem [OF ir]] .
  have a: "slice_start ?s ?D < ?D" using ok(3) slice_stop_le [of ?s ?D] by linarith
  have ai: "int (slice_start ?s ?D) < isize_lim" using a D by linarith
  let ?c = "\<lambda>k. map (\<lambda>d. if d < k then slice_start (ss ! d) (ly_shape l ! d) else 0) [0..<?r]"
  have dims: "(map (\<lambda>d. if d < i then slice_len (ss ! d) (ly_shape l ! d) else ly_shape l ! d) [0..<?r])
      [i := slice_len ?s ?D] = fst (slice_state l ss (Suc i))"
    using ir unfolding slice_state_def fst_conv
    by (subst map_upt_update [symmetric, of i]) auto
  have strides: "(map (\<lambda>d. if d < i then ly_strides l ! d * sl_step (ss ! d) else ly_strides l ! d) [0..<?r])
      [i := ?st * sl_step ?s] = fst (snd (slice_state l ss (Suc i)))"
    using ir unfolding slice_state_def fst_conv snd_conv
    by (subst map_upt_update [symmetric, of i]) auto
  have "?c (Suc i) = (?c i)[i := slice_start ?s ?D]"
    using ir by (subst map_upt_update [symmetric, of i _ "\<lambda>d. if d < i then slice_start (ss ! d) (ly_shape l ! d) else 0"]) auto
  then have pos: "lpos l (?c (Suc i)) = lpos l (?c i) + ?st * int (slice_start ?s ?D)"
    using ir view_okD(1) [OF v] by (simp add: lpos_update mult.commute)
  have "in_shape (ly_shape l) (?c (Suc i))"
  proof -
    have "slice_start (ss ! d) (ly_shape l ! d) < ly_shape l ! d" if "d < Suc i" "d < ?r" for d
    proof -
      have "slice_start (ss ! d) (ly_shape l ! d) < slice_stop (ss ! d) (ly_shape l ! d)"
        using pre i that(1) by (simp add: slice_pre_def)
      then show ?thesis using slice_stop_le [of "ss ! d" "ly_shape l ! d"] by linarith
    qed
    then show ?thesis using view_dim(1) [OF v] by (auto simp: in_shape_iff)
  qed
  then have "in_isize (lpos l (?c i) + ?st * int (slice_start ?s ?D))"
    using view_pos(3) [OF v] pos by metis
  moreover have "in_isize (?st * int (slice_start ?s ?D))"
    using view_stride(1) [OF v ir a] by (simp add: mult.commute)
  moreover have "udiv_ceil (slice_stop ?s ?D - slice_start ?s ?D) (unsigned_abs (sl_step ?s)) = Some (slice_len ?s ?D)"
    using ok unsigned_abs_pos [of "sl_step ?s"] by (simp add: udiv_ceil_def slice_len_def)
  ultimately show ?thesis
    using ok ir D ai pos dims strides view_okD(1) [OF v]
    by (simp add: slice_step_def slice_state_def [of l ss i] norm_start_ok norm_end_ok rust_simps Let_def)
      (simp add: slice_state_def)
qed

lemma slice_loop_ok:
  assumes v: "view_ok n l" and pre: "slice_pre l ss"
  shows "mfold (slice_step l) (enumerate 0 (take (rank (ly_shape l)) ss))
     (ly_shape l, ly_strides l, as_isize (ly_offset l), False) = Some (slice_state l ss (length ss))"
proof -
  have ss: "take (rank (ly_shape l)) ss = ss" using pre by (simp add: slice_pre_def)
  have "map ((!) (ly_strides l)) [0..<length (ly_shape l)] = ly_strides l"
    using view_okD(1) [OF v] by (metis map_nth)
  moreover have "map (\<lambda>d. 0) [0..<length (ly_shape l)] = replicate (length (ly_shape l)) (0::nat)"
    by (simp add: map_replicate_const)
  ultimately have init: "(ly_shape l, ly_strides l, as_isize (ly_offset l), False) = slice_state l ss 0"
    using view_offset(2) [OF v] by (simp add: slice_state_def map_nth lpos_zeros)
  have "\<exists>s'. mfold (\<lambda>i. slice_step l (i, ss ! i)) [0..<length ss] (slice_state l ss 0) = Some s' \<and>
      s' = slice_state l ss (length ss)"
    by (rule mfold_upt) (auto simp: slice_step_ok [OF v pre])
  then have "mfold (\<lambda>i. slice_step l (i, ss ! i)) [0..<length ss] (slice_state l ss 0) =
      Some (slice_state l ss (length ss))" by blast
  then show ?thesis by (simp add: ss init enumerate_map mfold_map)
qed

lemma slice_coords_pos:
  assumes v: "view_ok n l" and pre: "slice_pre l ss" and st: "slice_state l ss (length ss) = (ds, st, off, c)"
    and cs: "in_shape ds cs"
  shows "in_shape (ly_shape l) (slice_coords l ss cs)" "off + idot cs st = lpos l (slice_coords l ss cs)"
proof -
  let ?r = "length (ly_shape l)"
  have ds: "ds = map (\<lambda>d. if d < length ss then slice_len (ss ! d) (ly_shape l ! d) else ly_shape l ! d) [0..<?r]"
    and strides: "st = map (\<lambda>d. if d < length ss then ly_strides l ! d * sl_step (ss ! d) else ly_strides l ! d) [0..<?r]"
    and off: "off = lpos l (map (\<lambda>d. if d < length ss then slice_start (ss ! d) (ly_shape l ! d) else 0) [0..<?r])"
    using st by (simp_all add: slice_state_def)
  have len: "length cs = ?r" using in_shape_length [OF cs] by (simp add: ds)
  have c: "cs ! d < ds ! d" if "d < ?r" for d using cs that by (simp add: in_shape_iff ds)
  have "slice_start (ss ! d) (ly_shape l ! d) + cs ! d * unsigned_abs (sl_step (ss ! d)) < ly_shape l ! d"
    if d: "d < length ss" "d < ?r" for d
  proof -
    let ?s = "ss ! d" and ?D = "ly_shape l ! d"
    have ok: "slice_ok ?s" "0 < sl_step ?s" "slice_start ?s ?D < slice_stop ?s ?D"
      using pre d by (auto simp: slice_pre_def)
    have "cs ! d < div_ceil (slice_stop ?s ?D - slice_start ?s ?D) (unsigned_abs (sl_step ?s))"
      using c [OF d(2)] d ok by (simp add: ds slice_len_def)
    then have "cs ! d * unsigned_abs (sl_step ?s) < slice_stop ?s ?D - slice_start ?s ?D"
      using unsigned_abs_pos [of "sl_step ?s"] ok by (simp add: less_div_ceil_iff)
    then show ?thesis using slice_stop_le [of ?s ?D] by linarith
  qed
  moreover have "cs ! d < ly_shape l ! d" if "\<not> d < length ss" "d < ?r" for d
    using c [OF that(2)] that by (simp add: ds)
  ultimately show "in_shape (ly_shape l) (slice_coords l ss cs)"
    using len by (simp add: in_shape_iff slice_coords_def)
  have step: "int (unsigned_abs (sl_step (ss ! d))) = sl_step (ss ! d)" if "d < length ss" for d
    using pre that by (auto simp: slice_pre_def unsigned_abs_def abs_of_pos)
  show "off + idot cs st = lpos l (slice_coords l ss cs)"
    using len view_okD(1) [OF v]
    by (simp add: off lpos_def idot_conv_sum slice_coords_def strides sum.distrib [symmetric])
      (rule sum.cong, simp_all add: step algebra_simps)
qed

interpretation slice: view_op "\<lambda>l ss. map_option fst (layout_slice l ss)" slice_pre slice_coords
proof
  fix n l ss
  assume v: "view_ok n l" and pre: "slice_pre l ss"
  obtain ds st off c where state: "slice_state l ss (length ss) = (ds, st, off, c)"
    by (metis prod_cases4)
  let ?l = "\<lparr>ly_shape = ds, ly_strides = st, ly_offset = as_usize off\<rparr>"
  have lens: "length ds = length (ly_shape l)" "length st = length ds" and c: "c = False"
    using state by (auto simp: slice_state_def)
  have dims: "0 < ds ! i \<and> ds ! i \<le> ly_shape l ! i" if i: "i < length ds" for i
  proof (cases "i < length ss")
    case True
    let ?s = "ss ! i" and ?D = "ly_shape l ! i"
    have ok: "0 < sl_step ?s" "slice_start ?s ?D < slice_stop ?s ?D"
      using pre True by (auto simp: slice_pre_def)
    have u: "0 < unsigned_abs (sl_step ?s)" using ok unsigned_abs_pos [of "sl_step ?s"] by simp
    have len: "ds ! i = div_ceil (slice_stop ?s ?D - slice_start ?s ?D) (unsigned_abs (sl_step ?s))"
      using state i lens True ok by (auto simp: slice_state_def slice_len_def)
    have "0 < ds ! i" unfolding len using u ok(2) by (simp add: less_div_ceil_iff)
    moreover have "?D * 1 \<le> ?D * unsigned_abs (sl_step ?s)"
      using u by (intro mult_le_mono2) simp
    then have "slice_stop ?s ?D - slice_start ?s ?D \<le> ?D * unsigned_abs (sl_step ?s)"
      using slice_stop_le [of ?s ?D] by linarith
    then have "ds ! i \<le> ?D" unfolding len using u by (simp add: div_ceil_le_iff)
    ultimately show ?thesis by simp
  next
    case False
    then have "ds ! i = ly_shape l ! i" using state i lens by (auto simp: slice_state_def)
    then show ?thesis using view_dim(1) [OF v nth_mem, of i] i lens by simp
  qed
  have "\<forall>s \<in> set st. in_isize s"
    using state pre view_okD(1,6) [OF v] by (auto simp: slice_state_def slice_pre_def)
  then have ok: "shape_ok ?l" using dims lens by (intro shape_ok_smaller [OF v]) auto
  have z: "in_shape ds (replicate (length ds) 0)" using dims by (simp add: in_shape_iff)
  note zp = slice_coords_pos [OF v pre state z, simplified idot_zero]
  have off: "int (as_usize off) = off" and nn: "0 \<le> off"
    using int_as_usize_pos [OF v zp(1)] view_pos(1) [OF v zp(1)] zp(2) by simp_all
  have "layout_slice l ss = Some (?l, False)"
    using slice_loop_ok [OF v pre] nn by (simp add: layout_slice_def state c rust_simps)
  moreover have "in_shape (ly_shape l) (slice_coords l ss cs) \<and> lpos ?l cs = lpos l (slice_coords l ss cs)"
    if "in_shape ds cs" for cs
    using slice_coords_pos [OF v pre state that] off by (simp add: lpos_def)
  ultimately show "\<exists>l'. map_option fst (layout_slice l ss) = Some l' \<and> shape_ok l' \<and>
      (\<forall>cs. in_shape (ly_shape l') cs \<longrightarrow>
         in_shape (ly_shape l) (slice_coords l ss cs) \<and> lpos l' cs = lpos l (slice_coords l ss cs))"
    using ok by simp
qed

subsection \<open>Properties\<close>

text \<open>
  Flip: for distinct axes the flipped layout stays within the buffer and reading it at any
  coordinates reads the original at the mirrored coordinates.
\<close>

theorem flip_correct:
  assumes "view_ok n l" "distinct axes" "\<forall>a \<in> set axes. a < rank (ly_shape l)"
  shows "\<exists>l'. layout_flip l axes = Some l' \<and> view_ok n l' \<and> (\<forall>cs. in_shape (ly_shape l') cs \<longrightarrow>
    (\<exists>p < n. layout_index l' cs = Some p \<and> layout_index l (flip_coords l axes cs) = Some p))"
proof -
  have pre: "flip_pre l axes" using assms by (simp add: flip_pre_def)
  from flip.op_ok [OF assms(1) pre] obtain l' where "layout_flip l axes = Some l'" "view_ok n l'" by auto
  with flip.op_index [OF assms(1) pre] show ?thesis by auto
qed

text \<open>
  The indices of a dimension of size \<open>d\<close> that a slice with a positive step selects: from its start, below its end, in steps.
\<close>

definition selected :: "slice \<Rightarrow> nat \<Rightarrow> nat set" where
  "selected s d = {i. slice_start s d \<le> i \<and> i < slice_stop s d \<and> nat (sl_step s) dvd i - slice_start s d}"

lemma card_selected:
  assumes "0 < sl_step s" "slice_start s d < slice_stop s d"
  shows "card (selected s d) = slice_len s d"
proof -
  let ?a = "slice_start s d" and ?n = "nat (sl_step s)" and ?len = "div_ceil (slice_stop s d - slice_start s d) (nat (sl_step s))"
  have n: "0 < ?n" using assms(1) by simp
  have "selected s d = (\<lambda>k. ?a + k * ?n) ` {..<?len}"
  proof (intro equalityI subsetI)
    fix i assume "i \<in> selected s d"
    then obtain k where "i = ?a + k * ?n" "i < slice_stop s d" by (auto simp: selected_def dvd_def mult.commute) (metis le_add_diff_inverse)
    moreover from this have "k < ?len" using n by (simp add: less_div_ceil_iff)
    ultimately show "i \<in> (\<lambda>k. ?a + k * ?n) ` {..<?len}" by blast
  next
    fix i assume "i \<in> (\<lambda>k. ?a + k * ?n) ` {..<?len}"
    then obtain k where "k < ?len" "i = ?a + k * ?n" by blast
    then show "i \<in> selected s d" using n by (simp add: selected_def less_div_ceil_iff)
  qed
  moreover have "inj_on (\<lambda>k. ?a + k * ?n) {..<?len}" using n by (simp add: inj_on_def)
  ultimately have "card (selected s d) = ?len" by (simp add: card_image)
  then show ?thesis using assms by (simp add: slice_len_def unsigned_abs_def abs_of_pos)
qed

lemma layout_slice_shape:
  assumes "view_ok n l" "slice_pre l ss" "layout_slice l ss = Some (l', c)"
  shows "\<not> c" "ly_shape l' = map (\<lambda>d. if d < length ss then card (selected (ss ! d) (ly_shape l ! d)) else ly_shape l ! d) [0..<rank (ly_shape l)]"
proof -
  have "c = snd (snd (snd (slice_state l ss (length ss)))) \<and> ly_shape l' = fst (slice_state l ss (length ss))"
    using slice_loop_ok [OF assms(1,2)] assms(3) by (auto simp: layout_slice_def split: bind_splits prod.splits)
  moreover have "card (selected (ss ! d) (ly_shape l ! d)) = slice_len (ss ! d) (ly_shape l ! d)" if "d < length ss" for d
    using assms(2) that by (intro card_selected) (simp_all add: slice_pre_def)
  ultimately show "\<not> c" "ly_shape l' = map (\<lambda>d. if d < length ss then card (selected (ss ! d) (ly_shape l ! d)) else ly_shape l ! d) [0..<rank (ly_shape l)]"
    by (simp_all add: slice_state_def rank_def)
qed

text \<open>
  C39. Slicing: with positive steps and non-empty ranges, \<open>Layout::slice\<close> gives a view within
  the buffer that needs no copy.  In every sliced dimension the view has exactly as many elements as the slice selects of the
  dimension, from its start below its end in steps, and the other dimensions are unchanged; its element at \<open>cs\<close> is the
  original's at \<open>start + cs * step\<close>.
\<close>

theorem slice_correct:
  assumes "view_ok n l" "slice_pre l ss"
  shows "\<exists>l'. layout_slice l ss = Some (l', False) \<and> view_ok n l' \<and>
    ly_shape l' = map (\<lambda>d. if d < length ss then card (selected (ss ! d) (ly_shape l ! d)) else ly_shape l ! d) [0..<rank (ly_shape l)] \<and>
    (\<forall>cs. in_shape (ly_shape l') cs \<longrightarrow>
      (\<exists>p < n. layout_index l' cs = Some p \<and> layout_index l (slice_coords l ss cs) = Some p))"
proof -
  from slice.op_ok [OF assms] obtain l' c where l': "layout_slice l ss = Some (l', c)" "view_ok n l'"
    by (auto simp: map_option_case split: option.splits)
  with slice.op_index [OF assms, of l'] layout_slice_shape [OF assms l'(1)] show ?thesis by auto
qed

text \<open>
  Permuting axes: the permuted layout stays within the buffer, has the same number of
  elements, and its element at \<open>cs\<close> is the original's at the inversely permuted coordinates.
\<close>

theorem permute_correct:
  assumes "view_ok n l" "is_perm axes (rank (ly_shape l))"
  shows "\<exists>l'. layout_permute l axes = Some l' \<and> view_ok n l' \<and> (\<forall>cs. in_shape (ly_shape l') cs \<longrightarrow>
    (\<exists>p < n. layout_index l' cs = Some p \<and> layout_index l (permute_coords axes cs) = Some p))"
proof -
  from perm.op_ok [OF assms] obtain l' where "layout_permute l axes = Some l'" "view_ok n l'" by auto
  with perm.op_index [OF assms] show ?thesis by auto
qed

text \<open>
  Reshaping a contiguous layout: for a layout that is contiguous from offset 0 and a new
  shape with as many elements, \<open>Layout::reshape\<close> succeeds and both layouts address the
  elements in the same order; for a layout that is not contiguous, or starts elsewhere, it
  declines.
\<close>

theorem layout_reshape_correct:
  assumes v: "view_ok n l" and elems: "prod_list ds = prod_list (ly_shape l)"
  shows "\<exists>r. layout_reshape l ds = Some r \<and>
    (case r of None \<Rightarrow> ly_strides l \<noteq> map int (rm_strides (ly_shape l)) \<or> ly_offset l \<noteq> 0
     | Some l' \<Rightarrow> ly_shape l' = ds \<and> positions l' = positions l)"
proof (cases "ly_strides l = map int (rm_strides (ly_shape l)) \<and> ly_offset l = 0")
  case True
  have ds: "0 < prod_list ds" "int (prod_list ds) < isize_lim"
    using view_okD(2,3) [OF v] elems by simp_all
  then obtain l' where l': "layout_contiguous ds = Some l'" "ly_shape l' = ds" "ly_offset l' = 0"
      "ly_strides l' = map int (rm_strides ds)" "view_ok (prod_list ds) l'"
    using layout_contiguous_ok by blast
  have "uproduct ds = Some (prod_list ds)" "uproduct (ly_shape l) = Some (prod_list (ly_shape l))"
    using view_fits [OF v] view_fits [OF l'(5)] l'(2) by (simp_all add: rust_simps)
  then have "layout_reshape l ds = Some (Some l')"
    using layout_is_contiguous_ok [OF v] True l'(1) elems
    by (simp add: layout_reshape_def layout_num_elements_def num_elements_def rust_simps)
  moreover have "positions l' = positions l"
    using True l' elems by (simp add: positions_contiguous)
  ultimately show ?thesis using l'(2) by simp
next
  case False
  then have "layout_reshape l ds = Some None"
    using layout_is_contiguous_ok [OF v] by (auto simp: layout_reshape_def)
  with False show ?thesis by simp
qed

subsection \<open>Witnesses\<close>

text \<open>A transposed and flipped layout of twelve elements, and its views.\<close>

definition demo_layout :: layout where
  "demo_layout = \<lparr>ly_shape = [3, 4], ly_strides = [4, 1], ly_offset = 0\<rparr>"

lemma demo_layout_ok: "view_ok 12 demo_layout"
proof -
  have "0 < prod_list [3::nat, 4]" "int (prod_list [3::nat, 4]) < isize_lim"
    by (simp_all add: isize_lim_def)
  from layout_contiguous_ok [OF this] obtain l where
    "ly_shape l = [3, 4]" "ly_offset l = 0" "ly_strides l = [4, 1]" "view_ok 12 l" by auto
  then show ?thesis by (cases l) (simp add: demo_layout_def)
qed

theorem strided_iter_collect_witness:
  "\<exists>it. StridedIter_new demo_layout = Some it \<and> iter_collect strided_next it = Some (positions demo_layout) \<and>
    (\<forall>p \<in> set (positions demo_layout). p < 12)"
  by (rule strided_iter_collect [OF demo_layout_ok])

theorem strided_blocks_cover_witness:
  "\<exists>b it starts. layout_strided_blocks demo_layout = Some b \<and> block_starts b = Some it \<and>
    iter_collect block_next it = Some starts \<and> cover starts (block_len b) = positions demo_layout"
  by (rule strided_blocks_cover [OF demo_layout_ok])

theorem flip_correct_witness:
  "\<exists>l'. layout_flip demo_layout [1] = Some l' \<and> view_ok 12 l' \<and> (\<forall>cs. in_shape (ly_shape l') cs \<longrightarrow>
    (\<exists>p < 12. layout_index l' cs = Some p \<and> layout_index demo_layout (flip_coords demo_layout [1] cs) = Some p))"
  by (rule flip_correct [OF demo_layout_ok]) (simp_all add: demo_layout_def rank_def)

theorem slice_correct_witness:
  "\<exists>l'. layout_slice demo_layout [\<lparr>sl_start = -2, sl_end = None, sl_step = 1\<rparr>, \<lparr>sl_start = 0, sl_end = Some 3, sl_step = 2\<rparr>] = Some (l', False) \<and>
    view_ok 12 l' \<and> length (ly_shape l') = 2"
proof -
  let ?ss = "[\<lparr>sl_start = -2, sl_end = None, sl_step = 1\<rparr>, \<lparr>sl_start = 0, sl_end = Some 3, sl_step = 2\<rparr>]"
  have "slice_pre demo_layout ?ss"
    by (auto simp: slice_pre_def demo_layout_def rank_def slice_ok_def slice_start_def slice_stop_def
        clamp_index_def in_isize_def isize_lim_def less_Suc_eq nth_Cons split: nat.splits)
  from slice_correct [OF demo_layout_ok this] show ?thesis by (auto simp: demo_layout_def rank_def)
qed

theorem permute_correct_witness:
  "\<exists>l'. layout_permute demo_layout [1, 0] = Some l' \<and> view_ok 12 l' \<and> (\<forall>cs. in_shape (ly_shape l') cs \<longrightarrow>
    (\<exists>p < 12. layout_index l' cs = Some p \<and> layout_index demo_layout (permute_coords [1, 0] cs) = Some p))"
  by (rule permute_correct [OF demo_layout_ok]) (simp add: is_perm_def demo_layout_def rank_def)

theorem layout_reshape_correct_witness:
  "\<exists>r. layout_reshape demo_layout [2, 6] = Some r \<and>
    (case r of None \<Rightarrow> ly_strides demo_layout \<noteq> map int (rm_strides (ly_shape demo_layout)) \<or> ly_offset demo_layout \<noteq> 0
     | Some l' \<Rightarrow> ly_shape l' = [2, 6] \<and> positions l' = positions demo_layout)"
  by (rule layout_reshape_correct [OF demo_layout_ok]) (simp add: demo_layout_def)

text \<open>
  An empty slice at the end of a flipped dimension trips the assertion on the new offset: the
  offset moves one element before the buffer although no element is selected.
\<close>

lemma slice_flipped_empty_panics:
  "\<exists>l. layout_flip \<lparr>ly_shape = [4], ly_strides = [1], ly_offset = 0\<rparr> [0] = Some l \<and>
    layout_slice l [\<lparr>sl_start = 4, sl_end = None, sl_step = 1\<rparr>] = None"
  by (simp add: layout_flip_def flip_body_def layout_slice_def slice_step_def norm_start_def norm_end_def
      rank_def rust_defs Let_def unsigned_abs_def)

end
