(* ===== verification/Ordered_Map.thy ===== *)
theory Ordered_Map
  imports Rust_Prelude
begin

text \<open>
  The ordered maps of the Rust standard library (\<open>BTreeMap\<close>, and \<open>BTreeSet\<close> as sorted lists):
  the interface the components rely on, the facts they share, and its implementation by
  association lists that are strictly sorted by key.
\<close>

subsection \<open>The interface\<close>

locale ordered_map =
  fixes emp :: 'm
    and get :: "'m \<Rightarrow> 'k::linorder \<Rightarrow> 'v option"
    and ins :: "'k \<Rightarrow> 'v \<Rightarrow> 'm \<Rightarrow> 'm"
    and rem :: "'k \<Rightarrow> 'm \<Rightarrow> 'm"
    and entries :: "'m \<Rightarrow> ('k \<times> 'v) list"
    and ok :: "'m \<Rightarrow> bool"
  assumes ok_emp: "ok emp"
    and ok_ins: "ok m \<Longrightarrow> ok (ins k v m)"
    and ok_rem: "ok m \<Longrightarrow> ok (rem k m)"
    and get_emp: "get emp k = None"
    and get_ins: "ok m \<Longrightarrow> get (ins k v m) k' = (if k' = k then Some v else get m k')"
    and get_rem: "ok m \<Longrightarrow> get (rem k m) k' = (if k' = k then None else get m k')"
    and entries_get: "ok m \<Longrightarrow> map_of (entries m) k = get m k"
    and entries_sorted: "ok m \<Longrightarrow> sorted_wrt (<) (map fst (entries m))"
begin

lemma entries_distinct: "ok m \<Longrightarrow> distinct (map fst (entries m))"
  using entries_sorted strict_sorted_iff by blast

lemma entries_mem: "ok m \<Longrightarrow> (k, v) \<in> set (entries m) \<longleftrightarrow> get m k = Some v"
  using entries_distinct [of m] entries_get [of m k] map_of_eq_Some_iff [of "entries m" k v] by simp

lemma dom_get: "ok m \<Longrightarrow> dom (get m) = fst ` set (entries m)"
  using dom_map_of_conv_image_fst [of "entries m"] entries_get [of m] by (simp add: dom_def)

lemma finite_dom: "ok m \<Longrightarrow> finite (dom (get m))"
  by (simp add: dom_get)

text \<open>Two maps with the same lookups have the same entries, in the same order.\<close>

lemma entries_ext:
  assumes "ok m" "ok m'" "\<And>k. get m k = get m' k"
  shows "entries m = entries m'"
proof -
  have "set (map fst (entries m)) = set (map fst (entries m'))"
    using dom_get [OF assms(1)] dom_get [OF assms(2)] assms(3) by (simp add: dom_def)
  then have keys: "map fst (entries m) = map fst (entries m')"
    using entries_sorted [OF assms(1)] entries_sorted [OF assms(2)]
    by (metis strict_sorted_equal)
  have "snd (entries m ! i) = snd (entries m' ! i)" if i: "i < length (entries m)" for i
  proof -
    have i': "i < length (entries m')" using i keys by (metis length_map)
    have k: "fst (entries m ! i) = fst (entries m' ! i)" using keys i i' by (metis nth_map)
    have "get m (fst (entries m ! i)) = Some (snd (entries m ! i))"
      using entries_mem [OF assms(1)] i by (metis nth_mem prod.collapse)
    moreover have "get m' (fst (entries m' ! i)) = Some (snd (entries m' ! i))"
      using entries_mem [OF assms(2)] i' by (metis nth_mem prod.collapse)
    ultimately show ?thesis using k assms(3) by simp
  qed
  moreover have "length (entries m) = length (entries m')" using keys by (metis length_map)
  moreover have "fst (entries m ! i) = fst (entries m' ! i)" if "i < length (entries m)" for i
    using keys that calculation(2) by (metis nth_map)
  ultimately show ?thesis
    by (intro nth_equalityI) (simp_all add: prod_eq_iff)
qed

lemma rem_ins_fresh: "ok m \<Longrightarrow> get m k = None \<Longrightarrow> entries (rem k (ins k v m)) = entries m"
  by (rule entries_ext) (auto simp: ok_ins ok_rem get_ins get_rem)

lemma ins_ins: "ok m \<Longrightarrow> entries (ins k v (ins k v' m)) = entries (ins k v m)"
  by (rule entries_ext) (auto simp: ok_ins get_ins)

lemma ins_same: "ok m \<Longrightarrow> get m k = Some v \<Longrightarrow> entries (ins k v m) = entries m"
  by (rule entries_ext) (auto simp: ok_ins get_ins)

text \<open>A sum over the entries, and how insertion and removal change it.\<close>

definition total :: "('k \<Rightarrow> 'v \<Rightarrow> nat) \<Rightarrow> 'm \<Rightarrow> nat" where
  "total f m = sum_list (map (\<lambda>(k, v). f k v) (entries m))"

lemma total_sum: "ok m \<Longrightarrow> total f m = (\<Sum>k \<in> dom (get m). f k (the (get m k)))"
proof -
  assume ok: "ok m"
  have "distinct (map fst (entries m))" using ok by (rule entries_distinct)
  then have "total f m = (\<Sum>x \<in> set (entries m). case x of (k, v) \<Rightarrow> f k v)"
    unfolding total_def by (metis distinct_map sum_list_distinct_conv_sum_set)
  also have "\<dots> = (\<Sum>k \<in> fst ` set (entries m). f k (the (get m k)))"
  proof (subst sum.reindex)
    show "inj_on fst (set (entries m))" using entries_distinct [OF ok] by (simp add: distinct_map)
    show "(\<Sum>x \<in> set (entries m). case x of (k, v) \<Rightarrow> f k v) =
        sum ((\<lambda>k. f k (the (get m k))) \<circ> fst) (set (entries m))"
      using entries_mem [OF ok] by (intro sum.cong) auto
  qed
  finally show ?thesis by (simp add: dom_get ok)
qed

lemma total_ins:
  assumes "ok m"
  shows "total f (ins k v m) + (case get m k of Some v' \<Rightarrow> f k v' | None \<Rightarrow> 0) = total f m + f k v"
proof -
  let ?D = "dom (get m) - {k}" and ?g = "\<lambda>k. f k (the (get m k))"
  have "dom (get (ins k v m)) = insert k ?D"
    using assms by (auto simp: dom_def get_ins)
  then have "total f (ins k v m) = (\<Sum>k' \<in> insert k ?D. f k' (the (get (ins k v m) k')))"
    using assms by (simp only: total_sum ok_ins)
  also have "\<dots> = f k v + (\<Sum>k' \<in> ?D. f k' (the (get (ins k v m) k')))"
    using assms finite_dom [OF assms] by (subst sum.insert) (simp_all add: get_ins)
  also have "(\<Sum>k' \<in> ?D. f k' (the (get (ins k v m) k'))) = sum ?g ?D"
    using assms by (intro sum.cong) (simp_all add: get_ins)
  finally have new: "total f (ins k v m) = f k v + sum ?g ?D" .
  have old: "total f m = sum ?g ?D + (case get m k of Some v' \<Rightarrow> f k v' | None \<Rightarrow> 0)"
  proof (cases "get m k")
    case None
    then have "?D = dom (get m)" by auto
    with None assms show ?thesis by (simp add: total_sum)
  next
    case (Some v')
    then have "k \<in> dom (get m)" by auto
    then have "sum ?g (dom (get m)) = ?g k + sum ?g ?D"
      using finite_dom [OF assms] by (intro sum.remove)
    with Some assms show ?thesis by (simp add: total_sum)
  qed
  from new old show ?thesis by simp
qed

lemma total_rem:
  assumes "ok m"
  shows "total f (rem k m) + (case get m k of Some v' \<Rightarrow> f k v' | None \<Rightarrow> 0) = total f m"
proof (cases "get m k")
  case None
  then have "\<And>k'. get (rem k m) k' = get m k'" using assms by (auto simp: get_rem)
  then have "entries (rem k m) = entries m" using assms by (intro entries_ext) (auto simp: ok_rem)
  with None show ?thesis by (simp add: total_def)
next
  case (Some v)
  have "\<And>k'. get (ins k v (rem k m)) k' = get m k'" using assms Some by (auto simp: get_ins get_rem ok_rem)
  then have "entries (ins k v (rem k m)) = entries m"
    using assms by (intro entries_ext) (auto simp: ok_rem ok_ins)
  then have "total f (ins k v (rem k m)) = total f m" by (simp add: total_def)
  then show ?thesis
    using total_ins [OF ok_rem [OF assms], of f k v k] Some by (simp add: get_rem assms)
qed

lemma total_emp: "entries emp = [] \<Longrightarrow> total f emp = 0"
  by (simp add: total_def)

lemma total_ge: "ok m \<Longrightarrow> get m k = Some v \<Longrightarrow> f k v \<le> total f m"
  using total_rem [of m f k] by simp

lemma total_ge2:
  assumes "ok m" "get m k = Some v" "get m k' = Some v'" "k \<noteq> k'"
  shows "f k v + f k' v' \<le> total f m"
  using total_rem [OF assms(1), of f k] total_ge [OF ok_rem [OF assms(1)], of k k' v' f] assms
  by (simp add: get_rem)

lemma total_0: "ok m \<Longrightarrow> total f m = 0 \<longleftrightarrow> (\<forall>k v. get m k = Some v \<longrightarrow> f k v = 0)"
  using entries_mem [of m] by (fastforce simp: total_def sum_list_eq_0_iff)

end

subsection \<open>Sorted association lists\<close>

fun om_insert :: "'k::linorder \<Rightarrow> 'v \<Rightarrow> ('k \<times> 'v) list \<Rightarrow> ('k \<times> 'v) list" where
  "om_insert k v [] = [(k, v)]"
| "om_insert k v ((k', v') # m) =
     (if k < k' then (k, v) # (k', v') # m
      else if k = k' then (k, v) # m
      else (k', v') # om_insert k v m)"

definition om_remove :: "'k \<Rightarrow> ('k \<times> 'v) list \<Rightarrow> ('k \<times> 'v) list" where
  "om_remove k m = filter (\<lambda>(k', _). k' \<noteq> k) m"

definition om_ok :: "('k::linorder \<times> 'v) list \<Rightarrow> bool" where
  "om_ok m \<longleftrightarrow> sorted_wrt (<) (map fst m)"

definition om_pop_first :: "('k \<times> 'v) list \<Rightarrow> (('k \<times> 'v) \<times> ('k \<times> 'v) list) option" where
  "om_pop_first m = (case m of [] \<Rightarrow> None | e # m' \<Rightarrow> Some (e, m'))"

lemma om_insert_keys: "fst ` set (om_insert k v m) = insert k (fst ` set m)"
proof (induction m)
  case (Cons e m)
  then show ?case by (cases e) (simp add: insert_commute)
qed simp

lemma om_insert_ok: "om_ok m \<Longrightarrow> om_ok (om_insert k v m)"
proof (induction m)
  case (Cons e m)
  obtain k' v' where e: "e = (k', v')" by (cases e)
  have "\<forall>x \<in> fst ` set (om_insert k v m). k' < x" if "k' < k"
    using Cons.prems that by (auto simp: om_insert_keys om_ok_def e)
  with Cons show ?case by (auto simp: om_ok_def e)
qed (simp add: om_ok_def)

lemma map_of_om_insert: "om_ok m \<Longrightarrow> map_of (om_insert k v m) k' = (if k' = k then Some v else map_of m k')"
  by (induction m) (auto simp: om_ok_def)

lemma map_of_om_remove: "map_of (om_remove k m) k' = (if k' = k then None else map_of m k')"
  by (induction m) (auto simp: om_remove_def)

lemma om_remove_ok: "om_ok m \<Longrightarrow> om_ok (om_remove k m)"
  unfolding om_ok_def om_remove_def
  by (induction m) (auto)

interpretation om: ordered_map "[]" map_of om_insert om_remove "\<lambda>m. m" om_ok
proof
  show "om_ok ([] :: ('a \<times> 'b) list)" by (simp add: om_ok_def)
  show "sorted_wrt (<) (map fst m)" if "om_ok m" for m :: "('a \<times> 'b) list"
    using that by (simp add: om_ok_def)
qed (simp_all add: om_insert_ok om_remove_ok map_of_om_insert map_of_om_remove)

lemmas om_simps [simp] = om_insert_ok om_remove_ok map_of_om_insert map_of_om_remove

lemma om_pop_first_spec:
  assumes "om_ok m" "om_pop_first m = Some ((k, v), m')"
  shows "om_ok m' \<and> m' = om_remove k m \<and> map_of m k = Some v \<and> (\<forall>k' \<in> dom (map_of m). k \<le> k')"
proof -
  have m: "m = (k, v) # m'" using assms(2) by (auto simp: om_pop_first_def split: list.splits)
  have lt: "\<forall>k' \<in> fst ` set m'. k < k'" using assms(1) by (simp add: m om_ok_def)
  then have "\<forall>e \<in> set m'. fst e \<noteq> k" by auto
  then have "om_remove k m = m'" by (auto simp: om_remove_def m filter_id_conv)
  moreover have "dom (map_of m) = insert k (fst ` set m')"
    by (auto simp: m dom_map_of_conv_image_fst)
  ultimately show ?thesis using assms(1) lt by (auto simp: om_ok_def m less_imp_le)
qed

subsection \<open>Ordered sets\<close>

text \<open>\<open>BTreeSet::insert\<close> answers whether the element is new; \<open>pop_first\<close> takes the least element.\<close>

definition bs_insert :: "'a::linorder \<Rightarrow> 'a list \<Rightarrow> bool \<times> 'a list" where
  "bs_insert x s = (x \<notin> set s, insort_insert x s)"

definition bs_pop_first :: "'a list \<Rightarrow> ('a \<times> 'a list) option" where
  "bs_pop_first s = (case s of [] \<Rightarrow> None | x # s' \<Rightarrow> Some (x, s'))"

definition bs_ok :: "'a::linorder list \<Rightarrow> bool" where
  "bs_ok s \<longleftrightarrow> sorted_wrt (<) s"

lemma bs_ok_insort: "bs_ok s \<Longrightarrow> bs_ok (insort_insert x s)"
  by (metis bs_ok_def distinct_insort_insert sorted_insort_insert strict_sorted_iff)

lemma bs_insert_set [simp]: "set (insort_insert x s) = insert x (set s)"
  by (rule set_insort_insert)

lemma bs_pop_first_spec:
  assumes "bs_ok s" "bs_pop_first s = Some (x, s')"
  shows "bs_ok s' \<and> set s' = set s - {x} \<and> x \<in> set s \<and> (\<forall>y \<in> set s. x \<le> y)"
  using assms by (auto simp: bs_pop_first_def bs_ok_def split: list.splits)

lemma bs_length: "bs_ok s \<Longrightarrow> length s = card (set s)"
  by (metis bs_ok_def distinct_card strict_sorted_iff)

end
