(* ===== verification/Llm_Runtime.thy ===== *)
theory Llm_Runtime
  imports Row_Major
begin

text \<open>
  The accounting part of the LLM runtime: \<open>ruLLM/src/runtime/shape.rs\<close> (storage views and
  dtypes), \<open>memory.rs\<close> (KV page geometry and the logical memory budget) and \<open>error.rs\<close> (the
  recovery policy).  The mutex around the budget makes every operation one atomic step, so a
  run of the budget is a sequence of steps.
\<close>

datatype runtime_error_kind =
    InvalidInput | Unsupported | DriverIncompatible | OutOfMemory | QueueFull | Cancelled
  | Numerical | DeviceLost | Synchronization | WorkerPanicked | Closed | Internal

record runtime_error =
  re_kind :: runtime_error_kind
  re_message :: string

definition re_invalid :: "string \<Rightarrow> runtime_error" where
  "re_invalid m = \<lparr>re_kind = InvalidInput, re_message = m\<rparr>"

text \<open>\<open>checked_mul(..).ok_or_else(..)\<close> and its relatives.\<close>

definition checked_mul :: "nat \<Rightarrow> nat \<Rightarrow> string \<Rightarrow> runtime_error + nat" where
  "checked_mul a b msg = (if a * b < usize_lim then Inr (a * b) else Inl (re_invalid msg))"

definition checked_add :: "nat \<Rightarrow> nat \<Rightarrow> string \<Rightarrow> runtime_error + nat" where
  "checked_add a b msg = (if a + b < usize_lim then Inr (a + b) else Inl (re_invalid msg))"

definition ok_then :: "'e + 'a \<Rightarrow> ('a \<Rightarrow> 'e + 'b) \<Rightarrow> 'e + 'b" where
  "ok_then r f = (case r of Inl e \<Rightarrow> Inl e | Inr a \<Rightarrow> f a)"

lemma ok_then_Inr [simp]: "ok_then r f = Inr b \<longleftrightarrow> (\<exists>a. r = Inr a \<and> f a = Inr b)"
  by (auto simp: ok_then_def split: sum.splits)

lemma ok_then_simps [simp]: "ok_then (Inr a) f = f a" "ok_then (Inl e) f = Inl e"
  by (simp_all add: ok_then_def)

lemma checked_mul_Inr [simp]: "checked_mul a b m = Inr c \<longleftrightarrow> c = a * b \<and> a * b < usize_lim"
  by (auto simp: checked_mul_def)

lemma checked_add_Inr [simp]: "checked_add a b m = Inr c \<longleftrightarrow> c = a + b \<and> a + b < usize_lim"
  by (auto simp: checked_add_def)

text \<open>\<open>try_fold\<close>\<close>

fun try_fold :: "('a \<Rightarrow> 's \<Rightarrow> 'e + 's) \<Rightarrow> 'a list \<Rightarrow> 's \<Rightarrow> 'e + 's" where
  "try_fold f [] s = Inr s"
| "try_fold f (x # xs) s = ok_then (f x s) (try_fold f xs)"

subsection \<open>Storage views\<close>

datatype tensor_dtype = F16 | BF16 | F32 | F64 | I8 | I4

definition dtype_bits :: "tensor_dtype \<Rightarrow> nat" where
  "dtype_bits d = (case d of F16 \<Rightarrow> 16 | BF16 \<Rightarrow> 16 | F32 \<Rightarrow> 32 | F64 \<Rightarrow> 64 | I8 \<Rightarrow> 8 | I4 \<Rightarrow> 4)"

definition dtype_storage_bytes :: "tensor_dtype \<Rightarrow> nat \<Rightarrow> runtime_error + nat" where
  "dtype_storage_bytes self elements =
     ok_then (checked_mul elements (dtype_bits self) ''tensor bit count overflow'') (\<lambda>bits.
       Inr (bits div 8 + (if bits mod 8 \<noteq> 0 then 1 else 0)))"

definition is_float :: "tensor_dtype \<Rightarrow> bool" where
  "is_float d \<longleftrightarrow> d \<in> {F16, BF16, F32, F64}"

record tensor_layout =
  tl_shape :: "usize list"
  tl_strides :: "usize list"
  tl_offset :: usize

definition tl_elements :: "tensor_layout \<Rightarrow> runtime_error + usize" where
  "tl_elements self =
     (if 0 \<in> set (tl_shape self) then Inr 0
      else try_fold (\<lambda>d n. checked_mul n d ''tensor element count overflow'') (tl_shape self) 1)"

definition span_body :: "usize \<times> usize \<Rightarrow> usize \<Rightarrow> runtime_error + usize" where
  "span_body = (\<lambda>(d, s) n.
     ok_then (checked_mul (d - 1) s ''tensor storage span overflow'') (\<lambda>span.
       checked_add n span ''tensor storage span overflow''))"

definition tl_storage_span :: "tensor_layout \<Rightarrow> runtime_error + usize" where
  "tl_storage_span self =
     (if 0 \<in> set (tl_shape self) then Inr 0
      else
        ok_then (try_fold span_body (zip (tl_shape self) (tl_strides self)) (tl_offset self)) (\<lambda>last.
          checked_add last 1 ''tensor last offset overflow''))"

definition tl_new :: "usize list \<Rightarrow> usize list \<Rightarrow> usize \<Rightarrow> runtime_error + tensor_layout" where
  "tl_new shape strides offset_elements =
     (if length shape \<noteq> length strides then Inl (re_invalid ''shape/stride rank mismatch'')
      else
        let value = \<lparr>tl_shape = shape, tl_strides = strides, tl_offset = offset_elements\<rparr> in
        ok_then (tl_elements value) (\<lambda>_. ok_then (tl_storage_span value) (\<lambda>_. Inr value)))"

text \<open>The loop of \<open>contiguous\<close>, from the innermost dimension out.\<close>

fun tl_contiguous_loop :: "usize list \<Rightarrow> usize list \<Rightarrow> usize \<Rightarrow> usize list \<Rightarrow> runtime_error + usize list" where
  "tl_contiguous_loop shape [] stride strides = Inr strides"
| "tl_contiguous_loop shape (i # is) stride strides =
     ok_then (checked_mul stride (shape ! i) ''contiguous stride overflow'') (\<lambda>stride'.
       tl_contiguous_loop shape is stride' (strides[i := stride]))"

definition tl_contiguous :: "usize list \<Rightarrow> runtime_error + tensor_layout" where
  "tl_contiguous shape =
     ok_then (if 0 \<notin> set shape
              then tl_contiguous_loop shape (rev [0..<length shape]) 1 (replicate (length shape) 0)
              else Inr (replicate (length shape) 0)) (\<lambda>strides.
       tl_new shape strides 0)"

definition tl_storage_bytes :: "tensor_layout \<Rightarrow> tensor_dtype \<Rightarrow> runtime_error + nat" where
  "tl_storage_bytes self dtype = ok_then (tl_storage_span self) (dtype_storage_bytes dtype)"

definition tl_is_contiguous :: "tensor_layout \<Rightarrow> bool" where
  "tl_is_contiguous self =
     (if 0 \<in> set (tl_shape self) then True
      else fold (\<lambda>(d, s) st.
          case st of None \<Rightarrow> None
          | Some expected \<Rightarrow>
              if 1 < d \<and> s \<noteq> expected then None
              else if expected * d < usize_lim then Some (expected * d) else None)
        (rev (zip (tl_shape self) (tl_strides self))) (Some 1) \<noteq> None)"

definition tl_validate_storage :: "tensor_layout \<Rightarrow> tensor_dtype \<Rightarrow> nat \<Rightarrow> runtime_error + unit" where
  "tl_validate_storage self dtype available_bytes =
     ok_then (tl_storage_bytes self dtype) (\<lambda>n.
       if available_bytes < n then Inl (re_invalid ''tensor view exceeds its storage allocation'')
       else Inr ())"

record attention_shape =
  at_batch :: usize
  at_query_heads :: usize
  at_kv_heads :: usize
  at_query_tokens :: usize
  at_cached_tokens :: usize
  at_head_dimension :: usize

definition attention_validate :: "attention_shape \<Rightarrow> runtime_error + unit" where
  "attention_validate self =
     (if 0 \<in> set [at_batch self, at_query_heads self, at_kv_heads self, at_query_tokens self,
           at_cached_tokens self, at_head_dimension self]
         \<or> at_query_heads self mod at_kv_heads self \<noteq> 0
         \<or> at_cached_tokens self < at_query_tokens self
      then Inl (re_invalid ''invalid attention dimensions or grouped-query head ratio'')
      else
        ok_then (tl_contiguous [at_batch self, at_query_heads self, at_query_tokens self, at_head_dimension self]) (\<lambda>_.
        ok_then (tl_contiguous [at_batch self, at_kv_heads self, at_cached_tokens self, at_head_dimension self]) (\<lambda>_.
        Inr ())))"

subsection \<open>KV page geometry\<close>

record kv_memory_geometry =
  kg_layers :: usize
  kg_kv_heads :: usize
  kg_head_dimension :: usize
  kg_tokens_per_page :: usize
  kg_dtype :: tensor_dtype

definition bytes_per_page :: "kv_memory_geometry \<Rightarrow> runtime_error + nat" where
  "bytes_per_page self =
     (let dimensions = [kg_layers self, kg_kv_heads self, kg_head_dimension self, kg_tokens_per_page self] in
      if 0 \<in> set dimensions \<or> \<not> is_float (kg_dtype self)
      then Inl (re_invalid ''dense KV geometry requires positive dimensions and a floating dtype'')
      else
        ok_then (try_fold (\<lambda>d n. checked_mul n d ''KV page size overflow'') dimensions 2)
          (dtype_storage_bytes (kg_dtype self)))"

definition page_capacity :: "kv_memory_geometry \<Rightarrow> nat \<Rightarrow> nat \<Rightarrow> nat \<Rightarrow> runtime_error + usize" where
  "page_capacity self available_bytes workspace_bytes headroom_bytes =
     ok_then (bytes_per_page self) (\<lambda>page.
     if available_bytes < workspace_bytes \<or> available_bytes - workspace_bytes < headroom_bytes
     then Inl \<lparr>re_kind = OutOfMemory, re_message = ''workspace and headroom exceed available memory''\<rparr>
     else
       let count = (available_bytes - workspace_bytes - headroom_bytes) div page in
       if count = 0 then Inl \<lparr>re_kind = OutOfMemory, re_message = ''no complete KV page fits''\<rparr>
       else Inr (min count (u32_lim - 1)))"

subsection \<open>The logical memory budget\<close>

record budget_state =
  bg_limit :: nat
  bg_reserved :: nat
  bg_peak :: nat

definition budget_new :: "nat \<Rightarrow> nat \<Rightarrow> runtime_error + budget_state" where
  "budget_new capacity_bytes headroom_bytes =
     (if headroom_bytes < capacity_bytes
      then Inr \<lparr>bg_limit = capacity_bytes - headroom_bytes, bg_reserved = 0, bg_peak = 0\<rparr>
      else Inl (re_invalid ''memory headroom leaves no usable capacity''))"

definition try_reserve :: "budget_state \<Rightarrow> nat \<Rightarrow> budget_state \<times> (runtime_error + nat)" where
  "try_reserve state bytes =
     (if bytes = 0 then (state, Inl (re_invalid ''memory reservation must be nonzero''))
      else if bg_reserved state + bytes < usize_lim \<and> bg_reserved state + bytes \<le> bg_limit state
      then (state\<lparr>bg_reserved := bg_reserved state + bytes,
                  bg_peak := max (bg_peak state) (bg_reserved state + bytes)\<rparr>, Inr bytes)
      else (state, Inl \<lparr>re_kind = OutOfMemory, re_message = ''logical device budget exhausted''\<rparr>))"

text \<open>\<open>Drop\<close> of a reservation; the subtraction saturates.\<close>

definition reservation_drop :: "budget_state \<Rightarrow> nat \<Rightarrow> budget_state" where
  "reservation_drop state bytes = state\<lparr>bg_reserved := bg_reserved state - bytes\<rparr>"

subsection \<open>Recovery decisions\<close>

datatype work_state = NotSubmitted | Quiescent | UnknownWork

datatype recovery_action =
    FailRequest
  | RetryWithTokenLimit usize
  | RetryPortable
  | QuarantineDevice

record recovery_policy =
  rp_max_retries :: usize
  rp_allow_portable :: bool

definition recovery_default :: recovery_policy where
  "recovery_default = \<lparr>rp_max_retries = 2, rp_allow_portable = True\<rparr>"

definition decide :: "recovery_policy \<Rightarrow> runtime_error_kind \<Rightarrow> work_state \<Rightarrow> bool \<Rightarrow> usize \<Rightarrow> usize \<Rightarrow> usize
    \<Rightarrow> bool \<Rightarrow> recovery_action" where
  "decide self error work committed_cache_intact attempts token_limit minimum_tokens already_portable =
     (if work = UnknownWork \<or> \<not> committed_cache_intact
         \<or> error \<in> {DeviceLost, Synchronization, WorkerPanicked, Internal}
      then QuarantineDevice
      else if rp_max_retries self \<le> attempts then FailRequest
      else if error = OutOfMemory \<and> 0 < minimum_tokens \<and> minimum_tokens < token_limit
      then RetryWithTokenLimit (max (token_limit div 2) minimum_tokens)
      else if error = Unsupported \<and> rp_allow_portable self \<and> \<not> already_portable
      then RetryPortable
      else FailRequest)"

subsection \<open>Logits\<close>

text \<open>
  A finite \<open>f32\<close> is a multiple of the smallest positive one, so \<open>F32_Fin k\<close> stands for \<open>k * 2 ^ -149\<close>; the
  two zeros are one value, which no comparison can tell apart.
\<close>

datatype f32 = F32_NaN | F32_NegInf | F32_Fin int | F32_Inf

fun f32_less :: "f32 \<Rightarrow> f32 \<Rightarrow> bool" where
  "f32_less F32_NaN y = False"
| "f32_less x F32_NaN = False"
| "f32_less F32_NegInf y = (y \<noteq> F32_NegInf)"
| "f32_less (F32_Fin k) y = (case y of F32_Fin l \<Rightarrow> k < l | _ \<Rightarrow> y = F32_Inf)"
| "f32_less F32_Inf y = False"

definition f32_is_finite :: "f32 \<Rightarrow> bool" where
  "f32_is_finite x = (case x of F32_Fin _ \<Rightarrow> True | _ \<Rightarrow> False)"

fun argmax_loop :: "(usize \<times> f32) list \<Rightarrow> (usize \<times> f32) option \<Rightarrow> runtime_error + (usize \<times> f32) option" where
  "argmax_loop [] best = Inr best"
| "argmax_loop ((i, x) # rest) best =
     (if x = F32_NaN \<or> x = F32_Inf
      then Inl \<lparr>re_kind = Numerical, re_message = ''logits contain NaN or positive infinity''\<rparr>
      else argmax_loop rest
        (if f32_is_finite x \<and> (case best of None \<Rightarrow> True | Some (_, maximum) \<Rightarrow> f32_less maximum x) then Some (i, x) else best))"

definition checked_argmax :: "f32 list \<Rightarrow> runtime_error + usize" where
  "checked_argmax logits =
     ok_then (argmax_loop (enumerate 0 logits) None) (\<lambda>best.
       case best of
         Some (i, _) \<Rightarrow> Inr i
       | None \<Rightarrow> Inl \<lparr>re_kind = Numerical, re_message = ''logits are empty or entirely masked''\<rparr>)"

subsection \<open>Storage accounting\<close>

lemma try_fold_span:
  "try_fold span_body (zip ds ss) n = Inr r \<Longrightarrow> length ss = length ds \<Longrightarrow>
   r = n + udot (map (\<lambda>d. d - 1) ds) ss"
proof (induction ds arbitrary: ss n)
  case (Cons d ds)
  then obtain s ss' where ss: "ss = s # ss'" "length ss' = length ds" by (cases ss) auto
  have "try_fold span_body (zip ds ss') (n + (d - 1) * s) = Inr r"
    using Cons.prems(1) by (auto simp: ss span_body_def)
  from Cons.IH [OF this ss(2)] show ?case by (simp add: ss)
qed simp

lemma udot_mono: "length cs = length bs \<Longrightarrow> (\<And>i. i < length bs \<Longrightarrow> cs ! i \<le> bs ! i) \<Longrightarrow> udot cs ss \<le> udot bs ss"
proof (induction cs bs arbitrary: ss rule: list_induct2)
  case (Cons c cs b bs)
  from Cons.prems [of 0] have "c \<le> b" by simp
  moreover have "udot cs ss \<le> udot bs ss" for ss
    using Cons.IH Cons.prems [of "Suc i" for i] by auto
  ultimately show ?case by (cases ss) (auto intro: add_mono mult_le_mono1)
qed simp

lemma tl_span_eq:
  assumes "tl_storage_span l = Inr span" "length (tl_strides l) = length (tl_shape l)" "0 \<notin> set (tl_shape l)"
  shows "span = tl_offset l + udot (map (\<lambda>d. d - 1) (tl_shape l)) (tl_strides l) + 1"
  using assms try_fold_span [of "tl_shape l" "tl_strides l" "tl_offset l"]
  by (auto simp: tl_storage_span_def)

lemma tl_span_covers:
  assumes "tl_storage_span l = Inr span" "length (tl_strides l) = length (tl_shape l)" "in_shape (tl_shape l) cs"
  shows "tl_offset l + udot cs (tl_strides l) < span"
proof -
  have "0 < prod_list (tl_shape l)" using assms(3) by (rule in_shape_prod_pos)
  then have "0 \<notin> set (tl_shape l)" using prod_list_pos [of "tl_shape l"] by auto
  then have "span = tl_offset l + udot (map (\<lambda>d. d - 1) (tl_shape l)) (tl_strides l) + 1"
    using assms tl_span_eq by blast
  moreover have "udot cs (tl_strides l) \<le> udot (map (\<lambda>d. d - 1) (tl_shape l)) (tl_strides l)"
    using assms(3) by (intro udot_mono) (auto simp: in_shape_iff Suc_leI less_imp_le_nat intro: diff_le_mono)
  ultimately show ?thesis by simp
qed

lemma storage_bytes_bits:
  assumes "dtype_storage_bytes d n = Inr b"
  shows "n * dtype_bits d \<le> 8 * b"
  using assms by (auto simp: dtype_storage_bytes_def split: if_splits)

text \<open>
  Storage validation is sound: when a view is constructed and its storage validated against
  an allocation, every element of the view, whatever its coordinates, lies entirely inside the
  allocation, sub-byte dtypes included.
\<close>

theorem validate_storage_safe:
  assumes "tl_new shape strides off = Inr l" "tl_validate_storage l dtype avail = Inr ()" "in_shape shape cs"
  shows "(off + udot cs strides + 1) * dtype_bits dtype \<le> 8 * avail"
proof -
  have l: "l = \<lparr>tl_shape = shape, tl_strides = strides, tl_offset = off\<rparr>" "length strides = length shape"
    using assms(1) by (auto simp: tl_new_def Let_def split: if_splits)
  obtain span b where b: "tl_storage_span l = Inr span" "dtype_storage_bytes dtype span = Inr b" "b \<le> avail"
    using assms(2) by (auto simp: tl_validate_storage_def tl_storage_bytes_def split: if_splits)
  have "off + udot cs strides + 1 \<le> span"
    using tl_span_covers [OF b(1), of cs] l assms(3) by simp
  then have "(off + udot cs strides + 1) * dtype_bits dtype \<le> span * dtype_bits dtype"
    by (rule mult_le_mono1)
  also have "\<dots> \<le> 8 * b" using b(2) by (rule storage_bytes_bits)
  finally show ?thesis using b(3) by simp
qed

theorem validate_storage_safe_witness:
  "(1 + udot [1, 2] [4, 1] + 1) * dtype_bits I4 \<le> 8 * 4"
  by (rule validate_storage_safe
      [of "[2, 3]" _ _ "\<lparr>tl_shape = [2, 3], tl_strides = [4, 1], tl_offset = 1\<rparr>"])
    (simp_all add: tl_new_def tl_elements_def span_body_def tl_storage_span_def tl_validate_storage_def tl_storage_bytes_def
      dtype_storage_bytes_def checked_mul_def checked_add_def dtype_bits_def usize_lim_def Let_def)

text \<open>
  Sizing the page pool: the pages \<open>page_capacity\<close> grants fit beside the workspace and the
  headroom, at least one is granted, and one more would not fit unless the count was capped by
  the 32-bit page table.
\<close>

theorem page_capacity_tight:
  assumes "page_capacity g available workspace headroom = Inr n"
  shows "\<exists>b. bytes_per_page g = Inr b \<and> 0 < n \<and> n * b + workspace + headroom \<le> available \<and>
    (n < u32_lim - 1 \<longrightarrow> available < (n + 1) * b + workspace + headroom)"
proof -
  obtain b where b: "bytes_per_page g = Inr b" and fit: "workspace + headroom \<le> available"
    and n: "n = min ((available - workspace - headroom) div b) (u32_lim - 1)"
    and pos: "(available - workspace - headroom) div b \<noteq> 0"
    using assms by (auto simp: page_capacity_def Let_def split: if_splits)
  let ?u = "available - workspace - headroom"
  have bp: "0 < b" using pos by (cases b) auto
  have "n * b \<le> ?u div b * b" unfolding n by (intro mult_le_mono1) simp
  then have "n * b \<le> ?u" using div_times_less_eq_dividend le_trans by blast
  moreover have "?u < (n + 1) * b" if "n < u32_lim - 1"
  proof -
    have "n = ?u div b" using that n by simp
    then show ?thesis using bp by (metis add.commute dividend_less_div_times mult.commute mult_Suc plus_1_eq_Suc)
  qed
  moreover have "0 < n" unfolding n using pos by (simp add: u32_lim_def)
  ultimately show ?thesis using b fit by auto
qed

theorem page_capacity_tight_witness:
  "\<exists>b. bytes_per_page \<lparr>kg_layers = 2, kg_kv_heads = 4, kg_head_dimension = 8, kg_tokens_per_page = 16, kg_dtype = F16\<rparr> = Inr b \<and>
    0 < (2::nat) \<and> 2 * b + 100 + 20 \<le> 10000 \<and>
    (2 < u32_lim - 1 \<longrightarrow> 10000 < (2 + 1) * b + 100 + 20)"
  by (rule page_capacity_tight)
    (simp add: page_capacity_def bytes_per_page_def dtype_storage_bytes_def checked_mul_def dtype_bits_def
      is_float_def usize_lim_def u32_lim_def Let_def)

subsection \<open>Runs of the memory budget\<close>

text \<open>The steps of the threads that share a budget; \<open>live\<close> are the reservations not yet dropped.\<close>

inductive budget_step :: "budget_state \<times> nat list \<Rightarrow> budget_state \<times> nat list \<Rightarrow> bool" where
  reserve: "try_reserve s n = (s', Inr b) \<Longrightarrow> budget_step (s, live) (s', b # live)"
| refuse: "try_reserve s n = (s', Inl e) \<Longrightarrow> budget_step (s, live) (s', live)"
| release: "b \<in> set live \<Longrightarrow> budget_step (s, live) (reservation_drop s b, remove1 b live)"

inductive_cases budget_stepE: "budget_step (s, live) t"

inductive budget_run :: "nat \<Rightarrow> nat \<Rightarrow> budget_state \<times> nat list \<Rightarrow> bool" for capacity headroom where
  start: "budget_new capacity headroom = Inr s \<Longrightarrow> budget_run capacity headroom (s, [])"
| step: "budget_run capacity headroom t \<Longrightarrow> budget_step t t' \<Longrightarrow> budget_run capacity headroom t'"

definition budget_inv :: "nat \<Rightarrow> nat \<Rightarrow> budget_state \<times> nat list \<Rightarrow> bool" where
  "budget_inv capacity headroom = (\<lambda>(s, live).
     bg_limit s = capacity - headroom \<and> bg_reserved s = sum_list live \<and>
     bg_reserved s \<le> bg_peak s \<and> bg_peak s \<le> bg_limit s)"

lemma sum_list_remove1: "(b::nat) \<in> set xs \<Longrightarrow> sum_list (remove1 b xs) = sum_list xs - b"
  by (induction xs) (auto simp: member_le_sum_list)

lemma budget_step_inv: "budget_inv c h t \<Longrightarrow> budget_step t t' \<Longrightarrow> budget_inv c h t'"
  by (erule budget_step.cases)
    (auto simp: budget_inv_def try_reserve_def reservation_drop_def sum_list_remove1 split: if_splits)

text \<open>
  C22. The memory budget under any interleaving of its users: the reserved amount is the sum of
  the live reservations, never exceeds the capacity less the headroom, and the recorded peak
  lies between the two.
\<close>

theorem budget_run_invariant:
  assumes "budget_run capacity headroom (s, live)"
  shows "bg_reserved s = sum_list live \<and> sum_list live \<le> bg_peak s \<and> bg_peak s \<le> capacity - headroom"
proof -
  have "budget_run capacity headroom t \<Longrightarrow> budget_inv capacity headroom t" for t
  proof (induction rule: budget_run.induct)
    case (start s)
    then show ?case by (auto simp: budget_inv_def budget_new_def split: if_splits)
  qed (rule budget_step_inv)
  from this [OF assms] show ?thesis by (auto simp: budget_inv_def)
qed

theorem budget_run_invariant_witness:
  "budget_run 100 10 (\<lparr>bg_limit = 90, bg_reserved = 30, bg_peak = 30\<rparr>, [30]) \<and>
   sum_list [30::nat] = 30 \<and> (30::nat) \<le> 100 - 10"
proof -
  let ?s0 = "\<lparr>bg_limit = 90, bg_reserved = 0, bg_peak = 0\<rparr>"
  let ?s1 = "\<lparr>bg_limit = 90, bg_reserved = 30, bg_peak = 30\<rparr>"
  have "budget_run 100 10 (?s0, [])"
    by (rule budget_run.start) (simp add: budget_new_def)
  moreover have "budget_step (?s0, []) (?s1, [30])"
    by (rule budget_step.reserve [where n = 30]) (simp add: try_reserve_def usize_lim_def)
  ultimately have run: "budget_run 100 10 (?s1, [30])" by (rule budget_run.step)
  with budget_run_invariant [OF run] show ?thesis by simp
qed

text \<open>
  Recovery decisions are safe: whatever the inputs, an action other than failing the request
  or quarantining the device is decided only when the work is known to be finished or never
  submitted, the committed cache is intact, the error is not one of the fatal kinds and retries
  remain; a reduced token limit is strictly smaller and not below the minimum.
\<close>

theorem decide_safe:
  assumes "decide p err work intact attempts limit minimum portable = a" "a \<noteq> FailRequest" "a \<noteq> QuarantineDevice"
  shows "work \<noteq> UnknownWork \<and> intact \<and> err \<notin> {DeviceLost, Synchronization, WorkerPanicked, Internal} \<and>
    attempts < rp_max_retries p \<and>
    (\<forall>n. a = RetryWithTokenLimit n \<longrightarrow> minimum \<le> n \<and> n < limit)"
  using assms by (auto simp: decide_def split: if_splits)

theorem decide_safe_witness:
  "decide recovery_default OutOfMemory Quiescent True 0 128 16 False = RetryWithTokenLimit 64 \<and>
   0 < rp_max_retries recovery_default \<and> (16::nat) \<le> 64 \<and> (64::nat) < 128"
proof -
  have d: "decide recovery_default OutOfMemory Quiescent True 0 128 16 False = RetryWithTokenLimit 64"
    by (simp add: decide_def recovery_default_def)
  with decide_safe [OF d] show ?thesis by simp
qed

end
