(* ===== verification/Paged_Kv.thy ===== *)
theory Paged_Kv
  imports Ordered_Map Llm_Runtime
begin

text \<open>
  The paged KV cache manager of \<open>ruLLM/src/paged_kv.rs\<close>: reference-counted physical pages, a
  prefix cache of published blocks with least-recently-released eviction, and the
  reserve/commit/cancel protocol of appends.

  A manager operation takes the manager and returns \<open>None\<close> when the code panics, and otherwise
  the manager after the call with the \<open>Result\<close> of the call; an error can leave a changed
  manager behind.  The hash \<open>chain\<close> (the standard library's default hasher) is the parameter
  \<open>h\<close> of the operations that call it.  Page numbers are 32-bit, counters 64-bit.
\<close>

datatype request_id = RequestId (request_num: nat)

datatype kv_reservation_id = KvReservationId (reservation_num: nat)

instantiation request_id :: linorder
begin
definition less_eq_request_id :: "request_id \<Rightarrow> request_id \<Rightarrow> bool" where
  "less_eq_request_id a b \<longleftrightarrow> request_num a \<le> request_num b"
definition less_request_id :: "request_id \<Rightarrow> request_id \<Rightarrow> bool" where
  "less_request_id a b \<longleftrightarrow> request_num a < request_num b"
instance
  by standard (auto simp: less_eq_request_id_def less_request_id_def request_id.expand)
end

instantiation kv_reservation_id :: linorder
begin
definition less_eq_kv_reservation_id :: "kv_reservation_id \<Rightarrow> kv_reservation_id \<Rightarrow> bool" where
  "less_eq_kv_reservation_id a b \<longleftrightarrow> reservation_num a \<le> reservation_num b"
definition less_kv_reservation_id :: "kv_reservation_id \<Rightarrow> kv_reservation_id \<Rightarrow> bool" where
  "less_kv_reservation_id a b \<longleftrightarrow> reservation_num a < reservation_num b"
instance
  by standard (auto simp: less_eq_kv_reservation_id_def less_kv_reservation_id_def kv_reservation_id.expand)
end

text \<open>\<open>KvPageId\<close>, an index of a physical page; hashes and token ids.\<close>

type_synonym kv_page_id = nat
type_synonym token = int
type_synonym block_key = "nat \<times> token list"

record paged_kv_config =
  cf_block_size :: usize
  cf_num_pages :: usize
  cf_max_sequence_length :: usize

datatype paged_kv_error =
    ConfigZero
  | ConfigTooManyPages
  | MemoryError runtime_error
  | SequenceExists request_id
  | SequenceMissing request_id
  | EmptyAppend
  | PendingReservation request_id kv_reservation_id
  | LengthOverflow
  | OverCapacity request_id usize usize
  | NotEnoughPages usize usize
  | ReservationOverflow
  | ReservationMissing kv_reservation_id
  | InconsistentReservation kv_reservation_id
  | RemovedSequence
  | NotOwner kv_reservation_id request_id
  | CommittedOverflow
  | LookaheadCountOverflow
  | LookaheadOverflow
  | LookaheadOverCapacity
  | LookaheadNoPages
  | InvalidLookaheadPrefix
  | PartialOutside usize usize
  | DuplicateReservation kv_reservation_id
  | RemovePending request_id kv_reservation_id

record sequence_state =
  sq_committed :: usize
  sq_pages :: "kv_page_id list"
  sq_pending :: "kv_reservation_id option"
  sq_registered :: usize
  sq_chain :: nat

record reservation_state =
  rv_request :: request_id
  rv_previous_pages :: usize
  rv_start :: usize
  rv_tokens :: usize

record cached_block =
  cb_key :: block_key
  cb_tick :: "nat option"

record paged_kv =
  kv_config :: paged_kv_config
  kv_free :: "kv_page_id list"
  kv_refs :: "nat list"
  kv_blocks :: "cached_block option list"
  kv_index :: "block_key \<rightharpoonup> kv_page_id"
  kv_evictable :: "(nat \<times> kv_page_id) list"
  kv_next_tick :: nat
  kv_prefix_caching :: bool
  kv_reused :: nat
  kv_sequences :: "(request_id \<times> sequence_state) list"
  kv_reservations :: "(kv_reservation_id \<times> reservation_state) list"
  kv_next_reservation :: nat

record append_reservation =
  ar_id :: kv_reservation_id
  ar_request :: request_id
  ar_start :: usize
  ar_tokens :: usize
  ar_context_length :: usize
  ar_new_pages :: "kv_page_id list"
  ar_block_table :: "kv_page_id list"

record sequence_snapshot =
  ss_request :: request_id
  ss_committed :: usize
  ss_block_table :: "kv_page_id list"
  ss_pending :: "kv_reservation_id option"

record cache_snapshot =
  cs_block_size :: usize
  cs_total_pages :: usize
  cs_free_pages :: usize
  cs_sequences :: "sequence_snapshot list"

type_synonym 'a kv_result = "(paged_kv \<times> (paged_kv_error + 'a)) option"

text \<open>The \<open>?\<close> operator on a call that may change the manager.\<close>

definition and_then :: "'a kv_result \<Rightarrow> (paged_kv \<Rightarrow> 'a \<Rightarrow> 'b kv_result) \<Rightarrow> 'b kv_result" where
  "and_then r f = do {
     (kv, v) \<leftarrow> r;
     (case v of Inl e \<Rightarrow> Some (kv, Inl e) | Inr a \<Rightarrow> f kv a)
   }"

definition CHAIN_ROOT :: nat where
  "CHAIN_ROOT = 0x527564614B560001"

subsection \<open>Configuration and construction\<close>

definition config_validate :: "paged_kv_config \<Rightarrow> paged_kv_error + unit" where
  "config_validate self =
     (if cf_block_size self = 0 \<or> cf_num_pages self = 0 \<or> cf_max_sequence_length self = 0 then Inl ConfigZero
      else if u32_lim - 1 < cf_num_pages self then Inl ConfigTooManyPages
      else Inr ())"

definition from_memory_budget :: "kv_memory_geometry \<Rightarrow> nat \<Rightarrow> nat \<Rightarrow> nat \<Rightarrow> usize \<Rightarrow> paged_kv_error + paged_kv_config" where
  "from_memory_budget geometry available_bytes workspace_bytes headroom_bytes max_sequence_length =
     (case page_capacity geometry available_bytes workspace_bytes headroom_bytes of
        Inl e \<Rightarrow> Inl (MemoryError e)
      | Inr num_pages \<Rightarrow>
          let config = \<lparr>cf_block_size = kg_tokens_per_page geometry, cf_num_pages = num_pages,
                cf_max_sequence_length = max_sequence_length\<rparr> in
          ok_then (config_validate config) (\<lambda>_. Inr config))"

definition kv_new :: "paged_kv_config \<Rightarrow> paged_kv_error + paged_kv" where
  "kv_new config =
     ok_then (config_validate config) (\<lambda>_. Inr
       \<lparr>kv_config = config, kv_free = [0..<cf_num_pages config],
        kv_refs = replicate (cf_num_pages config) 0, kv_blocks = replicate (cf_num_pages config) None,
        kv_index = Map.empty, kv_evictable = [], kv_next_tick = 0, kv_prefix_caching = False,
        kv_reused = 0, kv_sequences = [], kv_reservations = [], kv_next_reservation = 1\<rparr>)"

subsection \<open>Counters\<close>

definition available_pages :: "paged_kv \<Rightarrow> usize" where
  "available_pages self = length (kv_free self) + length (kv_evictable self)"

definition free_page_count :: "paged_kv \<Rightarrow> usize" where
  "free_page_count self = available_pages self"

definition allocated_page_count :: "paged_kv \<Rightarrow> usize option" where
  "allocated_page_count self = usub (cf_num_pages (kv_config self)) (available_pages self)"

definition cached_page_count :: "paged_kv \<Rightarrow> usize" where
  "cached_page_count self = length (kv_evictable self)"

definition sequence_count :: "paged_kv \<Rightarrow> usize" where
  "sequence_count self = length (kv_sequences self)"

definition reservation_count :: "paged_kv \<Rightarrow> usize" where
  "reservation_count self = length (kv_reservations self)"

subsection \<open>Pages\<close>

definition drop_cached_block :: "paged_kv \<Rightarrow> kv_page_id \<Rightarrow> paged_kv option" where
  "drop_cached_block self page = do {
     b \<leftarrow> vec_get (kv_blocks self) page;
     (case b of
        None \<Rightarrow> Some self
      | Some block \<Rightarrow> do {
          blocks \<leftarrow> vec_set (kv_blocks self) page None;
          let self' = self\<lparr>kv_blocks := blocks\<rparr>;
          Some (if kv_index self (cb_key block) = Some page
                then self'\<lparr>kv_index := (kv_index self)(cb_key block := None)\<rparr>
                else self')
        })
   }"

definition allocate_page :: "paged_kv \<Rightarrow> (paged_kv \<times> kv_page_id) option" where
  "allocate_page self = do {
     (self, page) \<leftarrow>
       (case bs_pop_first (kv_free self) of
          Some (page, rest) \<Rightarrow> Some (self\<lparr>kv_free := rest\<rparr>, page)
        | None \<Rightarrow> do {
            ((_, page), rest) \<leftarrow> om_pop_first (kv_evictable self);
            self \<leftarrow> drop_cached_block (self\<lparr>kv_evictable := rest\<rparr>) page;
            Some (self, page)
          });
     r \<leftarrow> vec_get (kv_refs self) page;
     rassert (r = 0);
     refs \<leftarrow> vec_set (kv_refs self) page 1;
     Some (self\<lparr>kv_refs := refs\<rparr>, page)
   }"

definition acquire_cached :: "paged_kv \<Rightarrow> kv_page_id \<Rightarrow> paged_kv option" where
  "acquire_cached self page = do {
     r \<leftarrow> vec_get (kv_refs self) page;
     self \<leftarrow>
       (if r = 0 then do {
          b \<leftarrow> vec_get (kv_blocks self) page;
          block \<leftarrow> b;
          (case cb_tick block of
             None \<Rightarrow> Some self
           | Some tick \<Rightarrow>
               Some (self\<lparr>kv_blocks := (kv_blocks self)[page := Some (block\<lparr>cb_tick := None\<rparr>)],
                          kv_evictable := om_remove tick (kv_evictable self)\<rparr>))
        }
        else Some self);
     rassert (r + 1 < u32_lim);
     refs \<leftarrow> vec_set (kv_refs self) page (r + 1);
     Some (self\<lparr>kv_refs := refs\<rparr>)
   }"

definition release_page :: "paged_kv \<Rightarrow> kv_page_id \<Rightarrow> paged_kv option" where
  "release_page self page = do {
     r \<leftarrow> vec_get (kv_refs self) page;
     rassert (0 < r);
     refs \<leftarrow> vec_set (kv_refs self) page (r - 1);
     let self = self\<lparr>kv_refs := refs\<rparr>;
     (if r - 1 \<noteq> 0 then Some self
      else do {
        b \<leftarrow> vec_get (kv_blocks self) page;
        (case b of
           Some block \<Rightarrow>
             if kv_prefix_caching self then do {
               let tick = kv_next_tick self;
               next \<leftarrow> uadd (kv_next_tick self) 1;
               blocks \<leftarrow> vec_set (kv_blocks self) page (Some (block\<lparr>cb_tick := Some tick\<rparr>));
               Some (self\<lparr>kv_next_tick := next, kv_blocks := blocks,
                          kv_evictable := om_insert tick page (kv_evictable self)\<rparr>)
             }
             else do {
               self \<leftarrow> drop_cached_block self page;
               rassert (fst (bs_insert page (kv_free self)));
               Some (self\<lparr>kv_free := snd (bs_insert page (kv_free self))\<rparr>)
             }
         | None \<Rightarrow> do {
               self \<leftarrow> drop_cached_block self page;
               rassert (fst (bs_insert page (kv_free self)));
               Some (self\<lparr>kv_free := snd (bs_insert page (kv_free self))\<rparr>)
             })
      })
   }"

text \<open>The loops \<open>for _ in 0..n { pages.push(self.allocate_page()) }\<close> and \<open>for page in released\<close>.\<close>

fun allocate_pages :: "nat \<Rightarrow> paged_kv \<Rightarrow> (paged_kv \<times> kv_page_id list) option" where
  "allocate_pages 0 self = Some (self, [])"
| "allocate_pages (Suc n) self = do {
     (self, p) \<leftarrow> allocate_page self;
     (self, ps) \<leftarrow> allocate_pages n self;
     Some (self, p # ps)
   }"

definition release_pages :: "kv_page_id list \<Rightarrow> paged_kv \<Rightarrow> paged_kv option" where
  "release_pages ps self = mfold (\<lambda>p kv. release_page kv p) ps self"

definition drop_to_free :: "kv_page_id \<Rightarrow> paged_kv \<Rightarrow> paged_kv option" where
  "drop_to_free page self = do {
     self \<leftarrow> drop_cached_block self page;
     Some (self\<lparr>kv_free := snd (bs_insert page (kv_free self))\<rparr>)
   }"

definition set_prefix_caching :: "paged_kv \<Rightarrow> bool \<Rightarrow> paged_kv option" where
  "set_prefix_caching self enabled =
     (let self = self\<lparr>kv_prefix_caching := enabled\<rparr> in
      if \<not> enabled then
        mfold drop_to_free (map snd (kv_evictable self)) (self\<lparr>kv_evictable := []\<rparr>)
      else Some self)"

subsection \<open>Sequences\<close>

definition kv_sequence :: "paged_kv \<Rightarrow> request_id \<Rightarrow> paged_kv_error + sequence_state" where
  "kv_sequence self request_id =
     (case map_of (kv_sequences self) request_id of
        Some s \<Rightarrow> Inr s
      | None \<Rightarrow> Inl (SequenceMissing request_id))"

definition set_sequence :: "paged_kv \<Rightarrow> request_id \<Rightarrow> sequence_state \<Rightarrow> paged_kv" where
  "set_sequence self request_id s = self\<lparr>kv_sequences := om_insert request_id s (kv_sequences self)\<rparr>"

definition create_sequence :: "paged_kv \<Rightarrow> request_id \<Rightarrow> unit kv_result" where
  "create_sequence self request_id =
     (if map_of (kv_sequences self) request_id \<noteq> None then Some (self, Inl (SequenceExists request_id))
      else Some (set_sequence self request_id
        \<lparr>sq_committed = 0, sq_pages = [], sq_pending = None, sq_registered = 0, sq_chain = CHAIN_ROOT\<rparr>, Inr ()))"

text \<open>\<open>&tokens[block * block_size..(block + 1) * block_size]\<close>\<close>

definition block_tokens :: "usize \<Rightarrow> token list \<Rightarrow> usize \<Rightarrow> token list option" where
  "block_tokens bs tokens block = sub_slice tokens (block * bs) ((block + 1) * bs)"

text \<open>The loop over the usable blocks, up to the first one that is not cached.\<close>

fun match_prefix :: "(nat \<Rightarrow> token list \<Rightarrow> nat) \<Rightarrow> token list \<Rightarrow> usize list \<Rightarrow> paged_kv \<Rightarrow> nat \<Rightarrow> kv_page_id list
    \<Rightarrow> (paged_kv \<times> nat \<times> kv_page_id list) option" where
  "match_prefix h tokens [] self parent pages = Some (self, parent, pages)"
| "match_prefix h tokens (block # blocks) self parent pages = do {
     bt \<leftarrow> block_tokens (cf_block_size (kv_config self)) tokens block;
     (case kv_index self (parent, bt) of
        None \<Rightarrow> Some (self, parent, pages)
      | Some page \<Rightarrow> do {
          self \<leftarrow> acquire_cached self page;
          match_prefix h tokens blocks self (h parent bt) (pages @ [page])
        })
   }"

definition create_sequence_with_prefix :: "(nat \<Rightarrow> token list \<Rightarrow> nat) \<Rightarrow> paged_kv \<Rightarrow> request_id \<Rightarrow> token list \<Rightarrow> usize kv_result" where
  "create_sequence_with_prefix h self request_id tokens =
     and_then (create_sequence self request_id) (\<lambda>self _.
     if \<not> kv_prefix_caching self \<or> length tokens \<le> 1 then Some (self, Inr 0)
     else do {
       let block_size = cf_block_size (kv_config self);
       rassert (block_size \<noteq> 0);
       let usable_blocks = (length tokens - 1) div block_size;
       (self, parent, pages) \<leftarrow> match_prefix h tokens [0..<usable_blocks] self CHAIN_ROOT [];
       matched \<leftarrow> umul (length pages) block_size;
       sequence \<leftarrow> map_of (kv_sequences self) request_id;
       let self = set_sequence self request_id
         (sequence\<lparr>sq_registered := length pages, sq_chain := parent, sq_committed := matched, sq_pages := pages\<rparr>);
       reused \<leftarrow> uadd (kv_reused self) matched;
       Some (self\<lparr>kv_reused := reused\<rparr>, Inr matched)
     })"

text \<open>\<open>while block < complete\<close>\<close>

fun register_loop :: "(nat \<Rightarrow> token list \<Rightarrow> nat) \<Rightarrow> token list \<Rightarrow> kv_page_id list \<Rightarrow> usize list \<Rightarrow> paged_kv \<Rightarrow> nat
    \<Rightarrow> (paged_kv \<times> nat) option" where
  "register_loop h tokens pages [] self parent = Some (self, parent)"
| "register_loop h tokens pages (block # blocks) self parent = do {
     bt \<leftarrow> block_tokens (cf_block_size (kv_config self)) tokens block;
     let key = (parent, bt);
     page \<leftarrow> vec_get pages block;
     self \<leftarrow>
       (if kv_index self key = None then do {
          b \<leftarrow> vec_get (kv_blocks self) page;
          Some (if b = None
            then self\<lparr>kv_index := (kv_index self)(key \<mapsto> page),
                      kv_blocks := (kv_blocks self)[page := Some \<lparr>cb_key = key, cb_tick = None\<rparr>]\<rparr>
            else self)
        }
        else Some self);
     register_loop h tokens pages blocks self (h parent bt)
   }"

definition register_prefix :: "(nat \<Rightarrow> token list \<Rightarrow> nat) \<Rightarrow> paged_kv \<Rightarrow> request_id \<Rightarrow> token list \<Rightarrow> unit kv_result" where
  "register_prefix h self request_id tokens =
     (if \<not> kv_prefix_caching self then Some (self, Inr ())
      else (case kv_sequence self request_id of
          Inl e \<Rightarrow> Some (self, Inl e)
        | Inr sequence \<Rightarrow> do {
            let block_size = cf_block_size (kv_config self);
            rassert (block_size \<noteq> 0);
            let committed = min (sq_committed sequence) (length tokens);
            let complete = committed div block_size;
            (self, parent) \<leftarrow> register_loop h tokens (sq_pages sequence) [sq_registered sequence..<complete]
              self (sq_chain sequence);
            sequence \<leftarrow> map_of (kv_sequences self) request_id;
            Some (set_sequence self request_id
              (sequence\<lparr>sq_registered := max (sq_registered sequence) complete, sq_chain := parent\<rparr>), Inr ())
          }))"

definition contains_sequence :: "paged_kv \<Rightarrow> request_id \<Rightarrow> bool" where
  "contains_sequence self request_id \<longleftrightarrow> map_of (kv_sequences self) request_id \<noteq> None"

definition committed_tokens :: "paged_kv \<Rightarrow> request_id \<Rightarrow> paged_kv_error + usize" where
  "committed_tokens self request_id = ok_then (kv_sequence self request_id) (\<lambda>s. Inr (sq_committed s))"

definition block_table :: "paged_kv \<Rightarrow> request_id \<Rightarrow> paged_kv_error + kv_page_id list" where
  "block_table self request_id = ok_then (kv_sequence self request_id) (\<lambda>s. Inr (sq_pages s))"

definition remove_sequence :: "paged_kv \<Rightarrow> request_id \<Rightarrow> unit kv_result" where
  "remove_sequence self request_id =
     (case kv_sequence self request_id of
        Inl e \<Rightarrow> Some (self, Inl e)
      | Inr sequence \<Rightarrow>
          (case sq_pending sequence of
             Some reservation \<Rightarrow> Some (self, Inl (RemovePending request_id reservation))
           | None \<Rightarrow> do {
               self \<leftarrow> release_pages (rev (sq_pages sequence))
                 (self\<lparr>kv_sequences := om_remove request_id (kv_sequences self)\<rparr>);
               Some (self, Inr ())
             }))"

definition kv_snapshot :: "paged_kv \<Rightarrow> cache_snapshot" where
  "kv_snapshot self =
     \<lparr>cs_block_size = cf_block_size (kv_config self), cs_total_pages = cf_num_pages (kv_config self),
      cs_free_pages = available_pages self,
      cs_sequences = map (\<lambda>(r, s). \<lparr>ss_request = r, ss_committed = sq_committed s,
        ss_block_table = sq_pages s, ss_pending = sq_pending s\<rparr>) (kv_sequences self)\<rparr>"

subsection \<open>Appends\<close>

definition can_append :: "paged_kv \<Rightarrow> request_id \<Rightarrow> usize \<Rightarrow> (paged_kv_error + bool) option" where
  "can_append self request_id token_count =
     (if token_count = 0 then Some (Inr False)
      else (case kv_sequence self request_id of
          Inl e \<Rightarrow> Some (Inl e)
        | Inr sequence \<Rightarrow>
            if sq_pending sequence \<noteq> None then Some (Inr False)
            else if \<not> sq_committed sequence + token_count < usize_lim then Some (Inr False)
            else
              let end' = sq_committed sequence + token_count in
              if cf_max_sequence_length (kv_config self) < end' then Some (Inr False)
              else do {
                required \<leftarrow> udiv_ceil end' (cf_block_size (kv_config self));
                Some (Inr (required - length (sq_pages sequence) \<le> available_pages self))
              }))"

definition begin_append :: "paged_kv \<Rightarrow> request_id \<Rightarrow> usize \<Rightarrow> append_reservation kv_result" where
  "begin_append self request_id token_count =
     (if token_count = 0 then Some (self, Inl EmptyAppend)
      else (case kv_sequence self request_id of
          Inl e \<Rightarrow> Some (self, Inl e)
        | Inr sequence \<Rightarrow>
            (case sq_pending sequence of
               Some r \<Rightarrow> Some (self, Inl (PendingReservation request_id r))
             | None \<Rightarrow>
                 let start_position = sq_committed sequence in
                 if \<not> start_position + token_count < usize_lim then Some (self, Inl LengthOverflow)
                 else
                   let context_length = start_position + token_count in
                   if cf_max_sequence_length (kv_config self) < context_length
                   then Some (self, Inl (OverCapacity request_id context_length (cf_max_sequence_length (kv_config self))))
                   else do {
                     let previous_page_count = length (sq_pages sequence);
                     required_pages \<leftarrow> udiv_ceil context_length (cf_block_size (kv_config self));
                     let additional_pages = required_pages - previous_page_count;
                     (if available_pages self < additional_pages
                      then Some (self, Inl (NotEnoughPages additional_pages (available_pages self)))
                      else if \<not> kv_next_reservation self + 1 < usize_lim then Some (self, Inl ReservationOverflow)
                      else do {
                        let rid = KvReservationId (kv_next_reservation self);
                        (self, new_pages) \<leftarrow> allocate_pages additional_pages
                          (self\<lparr>kv_next_reservation := kv_next_reservation self + 1\<rparr>);
                        sequence \<leftarrow> map_of (kv_sequences self) request_id;
                        let pages = sq_pages sequence @ new_pages;
                        let self = set_sequence self request_id (sequence\<lparr>sq_pages := pages, sq_pending := Some rid\<rparr>);
                        let self = self\<lparr>kv_reservations := om_insert rid
                          \<lparr>rv_request = request_id, rv_previous_pages = previous_page_count,
                           rv_start = start_position, rv_tokens = token_count\<rparr> (kv_reservations self)\<rparr>;
                        Some (self, Inr \<lparr>ar_id = rid, ar_request = request_id, ar_start = start_position,
                          ar_tokens = token_count, ar_context_length = context_length,
                          ar_new_pages = new_pages, ar_block_table = pages\<rparr>)
                      })
                   })))"

definition validate_reservation :: "paged_kv \<Rightarrow> kv_reservation_id \<Rightarrow> paged_kv_error + unit" where
  "validate_reservation self rid =
     (case map_of (kv_reservations self) rid of
        None \<Rightarrow> Inl (ReservationMissing rid)
      | Some reservation \<Rightarrow>
          ok_then (kv_sequence self (rv_request reservation)) (\<lambda>sequence.
          if sq_pending sequence \<noteq> Some rid \<or> sq_committed sequence \<noteq> rv_start reservation
             \<or> length (sq_pages sequence) < rv_previous_pages reservation
          then Inl (InconsistentReservation rid)
          else if \<not> rv_start reservation + rv_tokens reservation < usize_lim then Inl CommittedOverflow
          else Inr ()))"

fun validate_loop :: "paged_kv \<Rightarrow> kv_reservation_id set \<Rightarrow> kv_reservation_id list \<Rightarrow> paged_kv_error + unit" where
  "validate_loop self seen [] = Inr ()"
| "validate_loop self seen (rid # rids) =
     (if rid \<in> seen then Inl (DuplicateReservation rid)
      else ok_then (validate_reservation self rid) (\<lambda>_. validate_loop self (insert rid seen) rids))"

definition validate_reservations :: "paged_kv \<Rightarrow> kv_reservation_id list \<Rightarrow> paged_kv_error + unit" where
  "validate_reservations self rids = validate_loop self {} rids"

definition take_reservation :: "paged_kv \<Rightarrow> kv_reservation_id \<Rightarrow> reservation_state kv_result" where
  "take_reservation self rid =
     (case map_of (kv_reservations self) rid of
        None \<Rightarrow> Some (self, Inl (ReservationMissing rid))
      | Some r \<Rightarrow> Some (self\<lparr>kv_reservations := om_remove rid (kv_reservations self)\<rparr>, Inr r))"

definition commit_append :: "paged_kv \<Rightarrow> kv_reservation_id \<Rightarrow> usize kv_result" where
  "commit_append self rid =
     (case validate_reservation self rid of
        Inl e \<Rightarrow> Some (self, Inl e)
      | Inr _ \<Rightarrow>
          and_then (take_reservation self rid) (\<lambda>self reservation.
          (case map_of (kv_sequences self) (rv_request reservation) of
             None \<Rightarrow> Some (self, Inl RemovedSequence)
           | Some sequence \<Rightarrow>
               if sq_pending sequence \<noteq> Some rid then Some (self, Inl (NotOwner rid (rv_request reservation)))
               else if \<not> rv_start reservation + rv_tokens reservation < usize_lim
               then Some (self, Inl CommittedOverflow)
               else
                 let context_length = rv_start reservation + rv_tokens reservation in
                 Some (set_sequence self (rv_request reservation)
                   (sequence\<lparr>sq_committed := context_length, sq_pending := None\<rparr>), Inr context_length))))"

definition extend_append :: "paged_kv \<Rightarrow> kv_reservation_id \<Rightarrow> usize \<Rightarrow> append_reservation kv_result" where
  "extend_append self rid extra =
     (case validate_reservation self rid of
        Inl e \<Rightarrow> Some (self, Inl e)
      | Inr _ \<Rightarrow> do {
          reservation \<leftarrow> map_of (kv_reservations self) rid;
          let request_id = rv_request reservation;
          let start = rv_start reservation;
          (if \<not> rv_tokens reservation + extra < usize_lim then Some (self, Inl LookaheadCountOverflow)
           else
             let count = rv_tokens reservation + extra in
             if \<not> start + count < usize_lim then Some (self, Inl LookaheadOverflow)
             else
               let end' = start + count in
               if cf_max_sequence_length (kv_config self) < end' then Some (self, Inl LookaheadOverCapacity)
               else do {
                 sequence \<leftarrow> map_of (kv_sequences self) request_id;
                 required \<leftarrow> udiv_ceil end' (cf_block_size (kv_config self));
                 let additional = required - length (sq_pages sequence);
                 (if available_pages self < additional then Some (self, Inl LookaheadNoPages)
                  else do {
                    (self, new_pages) \<leftarrow> allocate_pages additional self;
                    sequence \<leftarrow> map_of (kv_sequences self) request_id;
                    let pages = sq_pages sequence @ new_pages;
                    let self = set_sequence self request_id (sequence\<lparr>sq_pages := pages\<rparr>);
                    reservation \<leftarrow> map_of (kv_reservations self) rid;
                    let self = self\<lparr>kv_reservations :=
                      om_insert rid (reservation\<lparr>rv_tokens := count\<rparr>) (kv_reservations self)\<rparr>;
                    Some (self, Inr \<lparr>ar_id = rid, ar_request = request_id, ar_start = start,
                      ar_tokens = count, ar_context_length = end',
                      ar_new_pages = new_pages, ar_block_table = pages\<rparr>)
                  })
               })
        })"

definition commit_append_partial :: "paged_kv \<Rightarrow> kv_reservation_id \<Rightarrow> usize \<Rightarrow> usize kv_result" where
  "commit_append_partial self rid token_count =
     (case map_of (kv_reservations self) rid of
        None \<Rightarrow> Some (self, Inl (ReservationMissing rid))
      | Some reservation \<Rightarrow>
          if token_count = 0 \<or> rv_tokens reservation < token_count
          then Some (self, Inl (PartialOutside token_count (rv_tokens reservation)))
          else do {
            let request_id = rv_request reservation;
            context_length \<leftarrow> uadd (rv_start reservation) token_count;
            needed_pages \<leftarrow> udiv_ceil context_length (cf_block_size (kv_config self));
            and_then (commit_append self rid) (\<lambda>self committed. do {
              sequence \<leftarrow> map_of (kv_sequences self) request_id;
              rassert (context_length \<le> committed);
              let released = (if needed_pages < length (sq_pages sequence)
                then drop needed_pages (sq_pages sequence) else []);
              let kept = (if needed_pages < length (sq_pages sequence)
                then take needed_pages (sq_pages sequence) else sq_pages sequence);
              self \<leftarrow> release_pages released (set_sequence self request_id
                (sequence\<lparr>sq_committed := context_length, sq_pages := kept\<rparr>));
              Some (self, Inr context_length)
            })
          })"

definition cancel_append :: "paged_kv \<Rightarrow> kv_reservation_id \<Rightarrow> unit kv_result" where
  "cancel_append self rid =
     (case validate_reservation self rid of
        Inl e \<Rightarrow> Some (self, Inl e)
      | Inr _ \<Rightarrow>
          and_then (take_reservation self rid) (\<lambda>self reservation.
          (case map_of (kv_sequences self) (rv_request reservation) of
             None \<Rightarrow> Some (self, Inl RemovedSequence)
           | Some sequence \<Rightarrow>
               if sq_pending sequence \<noteq> Some rid then Some (self, Inl (NotOwner rid (rv_request reservation)))
               else do {
                 rassert (rv_previous_pages reservation \<le> length (sq_pages sequence));
                 self \<leftarrow> release_pages (drop (rv_previous_pages reservation) (sq_pages sequence))
                   (set_sequence self (rv_request reservation)
                     (sequence\<lparr>sq_pages := take (rv_previous_pages reservation) (sq_pages sequence), sq_pending := None\<rparr>));
                 Some (self, Inr ())
               })))"

text \<open>Groups: \<open>expect\<close> on every call after the validation.\<close>

fun commit_loop :: "kv_reservation_id list \<Rightarrow> paged_kv \<Rightarrow> (paged_kv \<times> usize list) option" where
  "commit_loop [] self = Some (self, [])"
| "commit_loop (rid # rids) self = do {
     (self, r) \<leftarrow> commit_append self rid;
     (case r of
        Inl _ \<Rightarrow> None
      | Inr position \<Rightarrow> do {
          (self, positions) \<leftarrow> commit_loop rids self;
          Some (self, position # positions)
        })
   }"

definition commit_appends :: "paged_kv \<Rightarrow> kv_reservation_id list \<Rightarrow> usize list kv_result" where
  "commit_appends self rids =
     (case validate_reservations self rids of
        Inl e \<Rightarrow> Some (self, Inl e)
      | Inr _ \<Rightarrow> do { (self, positions) \<leftarrow> commit_loop rids self; Some (self, Inr positions) })"

fun cancel_loop :: "kv_reservation_id list \<Rightarrow> paged_kv \<Rightarrow> paged_kv option" where
  "cancel_loop [] self = Some self"
| "cancel_loop (rid # rids) self = do {
     (self, r) \<leftarrow> cancel_append self rid;
     (case r of Inl _ \<Rightarrow> None | Inr _ \<Rightarrow> cancel_loop rids self)
   }"

definition cancel_appends :: "paged_kv \<Rightarrow> kv_reservation_id list \<Rightarrow> unit kv_result" where
  "cancel_appends self rids =
     (case validate_reservations self rids of
        Inl e \<Rightarrow> Some (self, Inl e)
      | Inr _ \<Rightarrow> do { self \<leftarrow> cancel_loop rids self; Some (self, Inr ()) })"

definition commit_prefix_row :: "paged_kv \<Rightarrow> kv_reservation_id \<times> usize \<Rightarrow> (paged_kv \<times> usize) option" where
  "commit_prefix_row self = (\<lambda>(rid, count). do {
     reservation \<leftarrow> map_of (kv_reservations self) rid;
     let self = self\<lparr>kv_reservations := om_remove rid (kv_reservations self)\<rparr>;
     sequence \<leftarrow> map_of (kv_sequences self) (rv_request reservation);
     position \<leftarrow> uadd (rv_start reservation) count;
     keep \<leftarrow> udiv_ceil position (cf_block_size (kv_config self));
     rassert (keep \<le> length (sq_pages sequence));
     self \<leftarrow> release_pages (drop keep (sq_pages sequence))
       (set_sequence self (rv_request reservation)
         (sequence\<lparr>sq_pages := take keep (sq_pages sequence), sq_committed := position, sq_pending := None\<rparr>));
     Some (self, position)
   })"

fun commit_prefix_loop :: "(kv_reservation_id \<times> usize) list \<Rightarrow> paged_kv \<Rightarrow> (paged_kv \<times> usize list) option" where
  "commit_prefix_loop [] self = Some (self, [])"
| "commit_prefix_loop (row # rows) self = do {
     (self, position) \<leftarrow> commit_prefix_row self row;
     (self, positions) \<leftarrow> commit_prefix_loop rows self;
     Some (self, position # positions)
   }"

text \<open>The check of the consumed counts; the index of a missing reservation panics.\<close>

fun check_rows :: "paged_kv \<Rightarrow> (kv_reservation_id \<times> usize) list \<Rightarrow> (paged_kv_error + unit) option" where
  "check_rows self [] = Some (Inr ())"
| "check_rows self ((rid, count) # rows) =
     (if count = 0 then Some (Inl InvalidLookaheadPrefix)
      else do {
        reservation \<leftarrow> map_of (kv_reservations self) rid;
        (if rv_tokens reservation < count then Some (Inl InvalidLookaheadPrefix) else check_rows self rows)
      })"

definition commit_append_prefixes :: "paged_kv \<Rightarrow> (kv_reservation_id \<times> usize) list \<Rightarrow> usize list kv_result" where
  "commit_append_prefixes self rows =
     (case validate_reservations self (map fst rows) of
        Inl e \<Rightarrow> Some (self, Inl e)
      | Inr _ \<Rightarrow> do {
          c \<leftarrow> check_rows self rows;
          (case c of
             Inl e \<Rightarrow> Some (self, Inl e)
           | Inr _ \<Rightarrow> do { (self, positions) \<leftarrow> commit_prefix_loop rows self; Some (self, Inr positions) })
        })"

end
