(* ===== verification/Batch_Scheduler.thy ===== *)
theory Batch_Scheduler
  imports Paged_Kv "HOL-Library.Product_Lexorder"
begin

text \<open>
  The continuous batching scheduler of \<open>ruLLM/src/continuous_batch.rs\<close> with the lifecycle
  operations of \<open>continuous_batch/lifecycle.rs\<close> and the token selection of
  \<open>continuous_batch/sampling.rs\<close>: requests wait, are admitted into the paged KV cache, are
  prefilled in chunks, decode one token per batch or verify a speculative draft, and finish.

  An operation returns \<open>None\<close> when the code panics or does not return, and otherwise the
  scheduler after the call with the \<open>Result\<close> of the call.  The token sampler, which the scheduler
  stores and copies but never runs itself, is the type parameter \<open>'smp\<close>; the hash of the prefix
  cache is the parameter \<open>h\<close>.  Tokens are the integers of \<open>i32\<close>.
\<close>

subsection \<open>Data\<close>

record batch_config =
  bc_max_active_sequences :: usize
  bc_max_batch_tokens :: usize

datatype kv_admission_policy = OnDemand | ReserveSequenceCapacity

record batch_options =
  bo_max_pending_requests :: "usize option"
  bo_kv_admission :: kv_admission_policy

datatype batch_kind = Prefill | Decode | Verify

record speculative_config =
  sp_draft_tokens :: usize
  sp_ngram :: usize

record generation_config =
  gen_max_new_tokens :: usize
  gen_eos_token_ids :: "token list"

record scheduled_sequence =
  row_request :: request_id
  row_tokens :: "token list"
  row_start :: usize
  row_context :: usize
  row_block_table :: "kv_page_id list"
  row_reservation :: kv_reservation_id

record scheduled_batch =
  bt_id :: nat
  bt_kind :: batch_kind
  bt_sequences :: "scheduled_sequence list"

record finished_generation =
  fg_request :: request_id
  fg_prompt :: "token list"
  fg_generated :: "token list"
  fg_stopped_on_eos :: bool

record cancelled_generation =
  cg_request :: request_id
  cg_prompt :: "token list"
  cg_generated :: "token list"

datatype request_phase = NeedsPrefill | AwaitingDecode token | InFlight nat

record 'smp pending_request =
  pr_id :: request_id
  pr_prompt :: "token list"
  pr_generation :: generation_config
  pr_sampler :: "'smp option"

record 'smp active_request =
  aq_prompt :: "token list"
  aq_generation :: generation_config
  aq_sampler :: "'smp option"
  aq_eos :: "token set"
  aq_generated :: "token list"
  aq_history :: "token list"
  aq_admitted :: nat
  aq_phase :: request_phase

record 'smp scheduler =
  sc_config :: batch_config
  sc_options :: batch_options
  sc_kv :: paged_kv
  sc_pending :: "'smp pending_request list"
  sc_deferred :: "request_id set"
  sc_active :: "(request_id \<times> 'smp active_request) list"
  sc_finished :: "finished_generation list"
  sc_in_flight :: "scheduled_batch option"
  sc_prefer_prefill :: bool
  sc_next_request :: nat
  sc_next_batch :: nat
  sc_prefill_chunk :: "usize option"
  sc_ceiling :: "request_id option"
  sc_recompute :: bool
  sc_next_admission :: nat
  sc_preemptions :: nat
  sc_speculative :: "speculative_config option"
  sc_speculative_turn :: bool
  sc_drafted :: nat
  sc_accepted :: nat

datatype batch_error =
    BatchLimitsZero
  | PendingLimitZero
  | SpeculativeZero
  | KvError paged_kv_error
  | EmptyPrompt
  | PromptAboveBatch usize usize
  | RequestLengthOverflow
  | RequestTooLong usize usize
  | NegativeTokenId
  | NeedsPages usize usize
  | QueueFull
  | RequestIdOverflow
  | StillInFlight nat
  | BatchIdOverflow
  | PageBudgetExceeded
  | RequestDisappeared
  | NotInFlight nat
  | OtherInFlight nat nat
  | RowCountMismatch nat usize usize
  | NegativeGenerated
  | MissingRequest request_id
  | NotOwnedBy request_id nat
  | FailedNotOwner
  | VerifyMismatch
  | ContextOverflow
  | ContextExceedsU32
  | NoPhysicalPage
  | BlockTableOverflow
  | BlockTableAllocation
  | CancelInFlight request_id nat
  | LimitInFlight
  | LimitStrands usize usize
  | ArgmaxRows
  | NeedsLogits
  | LogitRows
  | MissingSampler
  | AllNaN
  | VocabularyOverflow
  | SamplingFailed

type_synonym ('smp, 'a) sched_result = "('smp scheduler \<times> (batch_error + 'a)) option"

text \<open>The \<open>?\<close> operator, and a call of the KV manager.\<close>

definition sched_then ::
  "('smp, 'a) sched_result \<Rightarrow> ('smp scheduler \<Rightarrow> 'a \<Rightarrow> ('smp, 'b) sched_result) \<Rightarrow> ('smp, 'b) sched_result" where
  "sched_then r f = do {
     (s, v) \<leftarrow> r;
     (case v of Inl e \<Rightarrow> Some (s, Inl e) | Inr a \<Rightarrow> f s a)
   }"

definition lift_kv :: "'smp scheduler \<Rightarrow> 'a kv_result \<Rightarrow> ('smp, 'a) sched_result" where
  "lift_kv s r = do {
     (kv, v) \<leftarrow> r;
     Some (s\<lparr>sc_kv := kv\<rparr>, case v of Inl e \<Rightarrow> Inl (KvError e) | Inr a \<Rightarrow> Inr a)
   }"

definition get_active :: "'smp scheduler \<Rightarrow> request_id \<Rightarrow> 'smp active_request option" where
  "get_active s r = map_of (sc_active s) r"

definition set_active :: "'smp scheduler \<Rightarrow> request_id \<Rightarrow> 'smp active_request \<Rightarrow> 'smp scheduler" where
  "set_active s r a = s\<lparr>sc_active := om_insert r a (sc_active s)\<rparr>"

subsection \<open>A scheduled batch\<close>

definition batch_size :: "scheduled_batch \<Rightarrow> usize" where
  "batch_size b = length (bt_sequences b)"

definition next_n :: "scheduled_batch \<Rightarrow> usize" where
  "next_n b = (case bt_sequences b of [] \<Rightarrow> 0 | row # _ \<Rightarrow> length (row_tokens row))"

definition token_matrix :: "scheduled_batch \<Rightarrow> token list" where
  "token_matrix b = concat (map row_tokens (bt_sequences b))"

fun row_lengths :: "usize \<Rightarrow> usize list \<Rightarrow> batch_error + nat list" where
  "row_lengths start [] = Inr []"
| "row_lengths start (offset # offsets) =
     (if \<not> start + offset + 1 < usize_lim then Inl ContextOverflow
      else if \<not> start + offset + 1 < u32_lim then Inl ContextExceedsU32
      else ok_then (row_lengths start offsets) (\<lambda>ls. Inr ((start + offset + 1) # ls)))"

fun context_lengths_of :: "scheduled_sequence list \<Rightarrow> batch_error + nat list" where
  "context_lengths_of [] = Inr []"
| "context_lengths_of (row # rows) =
     ok_then (row_lengths (row_start row) [0..<length (row_tokens row)]) (\<lambda>l.
     ok_then (context_lengths_of rows) (\<lambda>ls. Inr (l @ ls)))"

definition context_lengths :: "scheduled_batch \<Rightarrow> batch_error + nat list" where
  "context_lengths b = context_lengths_of (bt_sequences b)"

definition table_row :: "usize \<Rightarrow> nat \<times> scheduled_sequence \<Rightarrow> nat list \<Rightarrow> nat list option" where
  "table_row stride = (\<lambda>(row, sequence) table.
     mfold (\<lambda>(column, page) table. vec_set table (row * stride + column) page)
       (enumerate 0 (row_block_table sequence)) table)"

text \<open>\<open>try_reserve_exact\<close> refuses more than \<open>isize::MAX\<close> bytes; memory exhaustion is not modelled.\<close>

definition flattened_block_table :: "scheduled_batch \<Rightarrow> (batch_error + nat list \<times> usize) option" where
  "flattened_block_table b =
     (let stride = foldr max (map (\<lambda>row. length (row_block_table row)) (bt_sequences b)) 0 in
      if stride = 0 \<and> bt_sequences b \<noteq> [] then Some (Inl NoPhysicalPage)
      else if \<not> batch_size b * stride < usize_lim then Some (Inl BlockTableOverflow)
      else if \<not> int (4 * (batch_size b * stride)) < isize_lim then Some (Inl BlockTableAllocation)
      else do {
        table \<leftarrow> mfold (table_row stride) (enumerate 0 (bt_sequences b)) (replicate (batch_size b * stride) 0);
        Some (Inr (table, stride))
      })"

subsection \<open>Speculative drafts\<close>

text \<open>
  \<open>for start in (0..history.len() - n).rev()\<close>, for one pattern length.  The outer \<open>option\<close> is the
  overflow of \<open>from + draft_tokens\<close>, the inner one a scan without a match.
\<close>

fun ngram_scan :: "token list \<Rightarrow> usize \<Rightarrow> usize \<Rightarrow> usize list \<Rightarrow> token list option option" where
  "ngram_scan history n draft_tokens [] = Some None"
| "ngram_scan history n draft_tokens (start # starts) =
     (if take n (drop start history) = drop (length history - n) history then do {
        let from' = start + n;
        bound \<leftarrow> uadd from' draft_tokens;
        let to' = min bound (length history);
        (if from' < to' then Some (Some (take (to' - from') (drop from' history)))
         else ngram_scan history n draft_tokens starts)
      }
      else ngram_scan history n draft_tokens starts)"

fun ngram_lengths :: "token list \<Rightarrow> usize \<Rightarrow> usize list \<Rightarrow> token list option" where
  "ngram_lengths history draft_tokens [] = Some []"
| "ngram_lengths history draft_tokens (n # ns) = do {
     v \<leftarrow> ngram_scan history n draft_tokens (rev [0..<length history - n]);
     (case v of Some draft \<Rightarrow> Some draft | None \<Rightarrow> ngram_lengths history draft_tokens ns)
   }"

definition ngram_draft :: "token list \<Rightarrow> usize \<Rightarrow> usize \<Rightarrow> token list option" where
  "ngram_draft history ngram draft_tokens =
     ngram_lengths history draft_tokens (rev [1..<Suc (min ngram (length history - 1))])"

subsection \<open>Construction and settings\<close>

definition batch_config_validate :: "batch_config \<Rightarrow> batch_error + unit" where
  "batch_config_validate c =
     (if bc_max_active_sequences c = 0 \<or> bc_max_batch_tokens c = 0 then Inl BatchLimitsZero else Inr ())"

definition options_validate :: "batch_options \<Rightarrow> batch_error + unit" where
  "options_validate opts =
     (if bo_max_pending_requests opts = Some 0 then Inl PendingLimitZero else Inr ())"

definition with_options :: "batch_config \<Rightarrow> paged_kv_config \<Rightarrow> batch_options \<Rightarrow> batch_error + 'smp scheduler" where
  "with_options config kvc options =
     ok_then (batch_config_validate config) (\<lambda>_.
     ok_then (options_validate options) (\<lambda>_.
     (case kv_new kvc of
        Inl e \<Rightarrow> Inl (KvError e)
      | Inr kv \<Rightarrow> Inr
          \<lparr>sc_config = config, sc_options = options, sc_kv = kv, sc_pending = [], sc_deferred = {},
           sc_active = [], sc_finished = [], sc_in_flight = None, sc_prefer_prefill = True,
           sc_next_request = 1, sc_next_batch = 1, sc_prefill_chunk = None, sc_ceiling = None,
           sc_recompute = False, sc_next_admission = 0, sc_preemptions = 0, sc_speculative = None,
           sc_speculative_turn = False, sc_drafted = 0, sc_accepted = 0\<rparr>)))"

definition default_options :: batch_options where
  "default_options = \<lparr>bo_max_pending_requests = None, bo_kv_admission = OnDemand\<rparr>"

definition scheduler_new :: "batch_config \<Rightarrow> paged_kv_config \<Rightarrow> batch_error + 'smp scheduler" where
  "scheduler_new config kvc = with_options config kvc default_options"

definition new_paged :: "batch_config \<Rightarrow> paged_kv_config \<Rightarrow> batch_error + 'smp scheduler" where
  "new_paged config kvc =
     ok_then (scheduler_new config kvc) (\<lambda>s.
       Inr (s\<lparr>sc_prefill_chunk := Some (bc_max_batch_tokens config), sc_recompute := True\<rparr>))"

definition sched_set_prefix_caching :: "'smp scheduler \<Rightarrow> bool \<Rightarrow> 'smp scheduler option" where
  "sched_set_prefix_caching s enabled = do {
     kv \<leftarrow> set_prefix_caching (sc_kv s) enabled;
     Some (s\<lparr>sc_kv := kv\<rparr>)
   }"

definition set_speculative_decoding :: "'smp scheduler \<Rightarrow> speculative_config option \<Rightarrow> ('smp, unit) sched_result" where
  "set_speculative_decoding s config =
     (if (case config of Some c \<Rightarrow> sp_draft_tokens c = 0 \<or> sp_ngram c = 0 | None \<Rightarrow> False)
      then Some (s, Inl SpeculativeZero)
      else Some (s\<lparr>sc_speculative := config\<rparr>, Inr ()))"

definition request_page_budget :: "usize \<Rightarrow> generation_config \<Rightarrow> usize \<Rightarrow> usize option" where
  "request_page_budget prompt_length generation block_size = do {
     t \<leftarrow> uadd prompt_length (gen_max_new_tokens generation - 1);
     udiv_ceil t block_size
   }"

subsection \<open>Submission\<close>

definition required_pages :: "'smp scheduler \<Rightarrow> token list \<Rightarrow> generation_config \<Rightarrow> usize option" where
  "required_pages s prompt generation =
     (case bo_kv_admission (sc_options s) of
        OnDemand \<Rightarrow> udiv_ceil (length prompt) (cf_block_size (kv_config (sc_kv s)))
      | ReserveSequenceCapacity \<Rightarrow>
          request_page_budget (length prompt) generation (cf_block_size (kv_config (sc_kv s))))"

text \<open>The last part of the submission: the request takes the next id.\<close>

definition enqueue :: "'smp scheduler \<Rightarrow> token list \<Rightarrow> generation_config \<Rightarrow> 'smp option \<Rightarrow> ('smp, request_id) sched_result" where
  "enqueue s prompt generation sampler =
     (let rid = RequestId (sc_next_request s) in
      if \<not> sc_next_request s + 1 < usize_lim then Some (s, Inl RequestIdOverflow)
      else
        let s = s\<lparr>sc_next_request := sc_next_request s + 1\<rparr> in
        if gen_max_new_tokens generation = 0 then
          Some (s\<lparr>sc_finished := sc_finished s @ [\<lparr>fg_request = rid, fg_prompt = prompt, fg_generated = [],
            fg_stopped_on_eos = False\<rparr>]\<rparr>, Inr rid)
        else
          Some (s\<lparr>sc_pending := sc_pending s @ [\<lparr>pr_id = rid, pr_prompt = prompt, pr_generation = generation,
            pr_sampler = sampler\<rparr>]\<rparr>, Inr rid))"

definition submit_with_sampler ::
  "'smp scheduler \<Rightarrow> token list \<Rightarrow> generation_config \<Rightarrow> 'smp option \<Rightarrow> ('smp, request_id) sched_result" where
  "submit_with_sampler s prompt generation sampler =
     (if prompt = [] then Some (s, Inl EmptyPrompt)
      else if sc_prefill_chunk s = None \<and> bc_max_batch_tokens (sc_config s) < length prompt
      then Some (s, Inl (PromptAboveBatch (length prompt) (bc_max_batch_tokens (sc_config s))))
      else if \<not> length prompt + gen_max_new_tokens generation < usize_lim then Some (s, Inl RequestLengthOverflow)
      else
        let total_length = length prompt + gen_max_new_tokens generation; kv = kv_config (sc_kv s) in
        if cf_max_sequence_length kv < total_length
        then Some (s, Inl (RequestTooLong total_length (cf_max_sequence_length kv)))
        else if \<exists>t \<in> set (prompt @ gen_eos_token_ids generation). t < 0 then Some (s, Inl NegativeTokenId)
        else if 0 < gen_max_new_tokens generation then do {
          required \<leftarrow> required_pages s prompt generation;
          (if cf_num_pages kv < required then Some (s, Inl (NeedsPages required (cf_num_pages kv)))
           else if (case bo_max_pending_requests (sc_options s) of
               Some limit \<Rightarrow> limit \<le> length (sc_pending s) | None \<Rightarrow> False) then Some (s, Inl QueueFull)
           else enqueue s prompt generation sampler)
        }
        else enqueue s prompt generation sampler)"

definition submit :: "'smp scheduler \<Rightarrow> token list \<Rightarrow> generation_config \<Rightarrow> ('smp, request_id) sched_result" where
  "submit s prompt generation = submit_with_sampler s prompt generation None"

subsection \<open>Admission\<close>

text \<open>The budgets of the active requests are taken off the pool.\<close>

fun active_budget :: "usize \<Rightarrow> (request_id \<times> 'smp active_request) list \<Rightarrow> usize \<Rightarrow> (batch_error + usize) option" where
  "active_budget bs [] pages = Some (Inr pages)"
| "active_budget bs ((_, a) # rest) pages = do {
     b \<leftarrow> request_page_budget (length (aq_prompt a)) (aq_generation a) bs;
     (if pages < b then Some (Inl PageBudgetExceeded) else active_budget bs rest (pages - b))
   }"

fun position :: "('a \<Rightarrow> bool) \<Rightarrow> 'a list \<Rightarrow> usize option" where
  "position P [] = None"
| "position P (x # xs) = (if P x then Some 0 else map_option Suc (position P xs))"

definition ready_pending :: "'smp scheduler \<Rightarrow> 'smp pending_request \<Rightarrow> bool" where
  "ready_pending s p \<longleftrightarrow> pr_id p \<notin> sc_deferred s \<and>
     (case sc_ceiling s of Some ceiling \<Rightarrow> pr_id p < ceiling | None \<Rightarrow> True)"

definition admit :: "(nat \<Rightarrow> token list \<Rightarrow> nat) \<Rightarrow> 'smp scheduler \<Rightarrow> usize \<Rightarrow> ('smp, unit) sched_result" where
  "admit h s i = do {
     (p, rest) \<leftarrow> vec_remove (sc_pending s) i;
     let s = s\<lparr>sc_pending := rest\<rparr>;
     sched_then (lift_kv s (create_sequence_with_prefix h (sc_kv s) (pr_id p) (pr_prompt p))) (\<lambda>s _. do {
       next' \<leftarrow> uadd (sc_next_admission s) 1;
       Some (set_active (s\<lparr>sc_next_admission := next'\<rparr>) (pr_id p)
         \<lparr>aq_prompt = pr_prompt p, aq_generation = pr_generation p, aq_sampler = pr_sampler p,
          aq_eos = set (gen_eos_token_ids (pr_generation p)), aq_generated = [], aq_history = pr_prompt p,
          aq_admitted = sc_next_admission s, aq_phase = NeedsPrefill\<rparr>, Inr ())
     })
   }"

text \<open>
  \<open>while self.active.len() < max_active_sequences\<close>.  An iteration removes a pending request, so as
  many steps as there are pending requests are enough.
\<close>

fun promote_loop :: "(nat \<Rightarrow> token list \<Rightarrow> nat) \<Rightarrow> nat \<Rightarrow> usize \<Rightarrow> 'smp scheduler \<Rightarrow> ('smp, unit) sched_result" where
  "promote_loop h 0 pages s = Some (s, Inr ())"
| "promote_loop h (Suc n) pages s =
     (if \<not> length (sc_active s) < bc_max_active_sequences (sc_config s) then Some (s, Inr ())
      else (case position (ready_pending s) (sc_pending s) of
          None \<Rightarrow> Some (s, Inr ())
        | Some i \<Rightarrow>
            (case bo_kv_admission (sc_options s) of
               ReserveSequenceCapacity \<Rightarrow> do {
                 p \<leftarrow> vec_get (sc_pending s) i;
                 b \<leftarrow> request_page_budget (length (pr_prompt p)) (pr_generation p) (cf_block_size (kv_config (sc_kv s)));
                 (if pages < b then Some (s, Inr ())
                  else sched_then (admit h s i) (\<lambda>s _. promote_loop h n (pages - b) s))
               }
             | OnDemand \<Rightarrow> sched_then (admit h s i) (\<lambda>s _. promote_loop h n pages s))))"

definition promote_pending :: "(nat \<Rightarrow> token list \<Rightarrow> nat) \<Rightarrow> 'smp scheduler \<Rightarrow> ('smp, unit) sched_result" where
  "promote_pending h s = do {
     let pages = cf_num_pages (kv_config (sc_kv s));
     budget \<leftarrow>
       (case bo_kv_admission (sc_options s) of
          ReserveSequenceCapacity \<Rightarrow> active_budget (cf_block_size (kv_config (sc_kv s))) (sc_active s) pages
        | OnDemand \<Rightarrow> Some (Inr pages));
     (case budget of
        Inl e \<Rightarrow> Some (s, Inl e)
      | Inr pages \<Rightarrow> promote_loop h (length (sc_pending s)) pages s)
   }"

subsection \<open>Building a batch\<close>

definition scheduled_row :: "append_reservation \<Rightarrow> token list \<Rightarrow> scheduled_sequence" where
  "scheduled_row reservation token_ids =
     \<lparr>row_request = ar_request reservation, row_tokens = token_ids, row_start = ar_start reservation,
      row_context = ar_context_length reservation, row_block_table = ar_block_table reservation,
      row_reservation = ar_id reservation\<rparr>"

definition rollback_scheduled_rows :: "'smp scheduler \<Rightarrow> scheduled_sequence list \<Rightarrow> ('smp, unit) sched_result" where
  "rollback_scheduled_rows s rows = lift_kv s (cancel_appends (sc_kv s) (map row_reservation rows))"

definition mark_row :: "nat \<Rightarrow> scheduled_sequence \<Rightarrow> 'smp scheduler \<Rightarrow> ('smp, unit) sched_result" where
  "mark_row b row s =
     (case get_active s (row_request row) of
        None \<Rightarrow> Some (s, Inl RequestDisappeared)
      | Some a \<Rightarrow> Some (set_active s (row_request row) (a\<lparr>aq_phase := InFlight b\<rparr>), Inr ()))"

fun mark_rows :: "nat \<Rightarrow> scheduled_sequence list \<Rightarrow> 'smp scheduler \<Rightarrow> ('smp, unit) sched_result" where
  "mark_rows b [] s = Some (s, Inr ())"
| "mark_rows b (row # rows) s = sched_then (mark_row b row s) (\<lambda>s _. mark_rows b rows s)"

definition finish_schedule ::
  "'smp scheduler \<Rightarrow> batch_kind \<Rightarrow> scheduled_sequence list \<Rightarrow> ('smp, scheduled_batch option) sched_result" where
  "finish_schedule s kind rows =
     (if rows = [] then Some (s, Inr None)
      else
        let b = sc_next_batch s in
        if \<not> sc_next_batch s + 1 < usize_lim then
          sched_then (rollback_scheduled_rows s rows) (\<lambda>s _. Some (s, Inl BatchIdOverflow))
        else if \<exists>row \<in> set rows. get_active s (row_request row) = None then
          sched_then (rollback_scheduled_rows s rows) (\<lambda>s _. Some (s, Inl RequestDisappeared))
        else
          sched_then (mark_rows b rows (s\<lparr>sc_next_batch := sc_next_batch s + 1\<rparr>)) (\<lambda>s _.
            Some (s, Inr (Some \<lparr>bt_id = b, bt_kind = kind, bt_sequences = rows\<rparr>))))"

text \<open>\<open>match self.kv_cache.begin_append(..) { Err(error) => { rollback; return Err } .. }\<close>\<close>

definition reserve_row ::
  "'smp scheduler \<Rightarrow> scheduled_sequence list \<Rightarrow> request_id \<Rightarrow> token list \<Rightarrow> usize \<Rightarrow> ('smp, scheduled_sequence list) sched_result" where
  "reserve_row s rows r tokens n = do {
     (s, v) \<leftarrow> lift_kv s (begin_append (sc_kv s) r n);
     (case v of
        Inr reservation \<Rightarrow> Some (s, Inr (rows @ [scheduled_row reservation tokens]))
      | Inl e \<Rightarrow> sched_then (rollback_scheduled_rows s rows) (\<lambda>s _. Some (s, Inl e)))
   }"

fun decode_loop ::
  "(request_id \<times> token) list \<Rightarrow> scheduled_sequence list \<Rightarrow> 'smp scheduler \<Rightarrow> ('smp, scheduled_sequence list) sched_result" where
  "decode_loop [] rows s = Some (s, Inr rows)"
| "decode_loop ((r, token) # cs) rows s =
     (if bc_max_batch_tokens (sc_config s) \<le> length rows then Some (s, Inr rows)
      else do {
        ok \<leftarrow> can_append (sc_kv s) r 1;
        (case ok of
           Inl e \<Rightarrow> Some (s, Inl (KvError e))
         | Inr False \<Rightarrow> decode_loop cs rows s
         | Inr True \<Rightarrow> sched_then (reserve_row s rows r [token] 1) (\<lambda>s rows. decode_loop cs rows s))
      })"

definition decode_candidates :: "(request_id \<times> 'smp active_request) list \<Rightarrow> (request_id \<times> token) list" where
  "decode_candidates active =
     List.map_filter (\<lambda>(r, a). case aq_phase a of AwaitingDecode token \<Rightarrow> Some (r, token) | _ \<Rightarrow> None) active"

definition schedule_decode :: "'smp scheduler \<Rightarrow> ('smp, scheduled_batch option) sched_result" where
  "schedule_decode s =
     sched_then (decode_loop (decode_candidates (sc_active s)) [] s) (\<lambda>s rows. finish_schedule s Decode rows)"

definition prefill_chunk :: "'smp scheduler \<Rightarrow> request_id \<Rightarrow> 'smp active_request \<Rightarrow> batch_error + (usize \<times> usize \<times> bool)" where
  "prefill_chunk s r a =
     (case committed_tokens (sc_kv s) r of
        Inl e \<Rightarrow> Inl (KvError e)
      | Inr committed \<Rightarrow>
          let remaining = length (aq_history a) - committed;
              chunk = min (min remaining (case sc_prefill_chunk s of Some c \<Rightarrow> c | None \<Rightarrow> remaining))
                (bc_max_batch_tokens (sc_config s)) in
          Inr (committed, chunk, committed + chunk = length (aq_history a)))"

type_synonym prefill_buckets = "((usize \<times> bool) \<times> request_id list) list"

definition bucket_push :: "usize \<times> bool \<Rightarrow> request_id \<Rightarrow> prefill_buckets \<Rightarrow> prefill_buckets" where
  "bucket_push k r buckets =
     om_insert k ((case map_of buckets k of Some rs \<Rightarrow> rs | None \<Rightarrow> []) @ [r]) buckets"

fun collect_buckets :: "'smp scheduler \<Rightarrow> (request_id \<times> 'smp active_request) list \<Rightarrow> prefill_buckets \<Rightarrow> (batch_error + prefill_buckets) option" where
  "collect_buckets s [] buckets = Some (Inr buckets)"
| "collect_buckets s ((r, a) # rest) buckets =
     (case prefill_chunk s r a of
        Inl e \<Rightarrow> Some (Inl e)
      | Inr (start, len, _) \<Rightarrow>
          if aq_phase a = NeedsPrefill \<and> r \<notin> sc_deferred s \<and> 0 < len then do {
            ok \<leftarrow> can_append (sc_kv s) r len;
            (case ok of
               Inl e \<Rightarrow> Some (Inl (KvError e))
             | Inr b \<Rightarrow> collect_buckets s rest (if b then bucket_push (len, start \<noteq> 0) r buckets else buckets))
          }
          else collect_buckets s rest buckets)"

text \<open>The order of \<open>max_by\<close>: the tokens a bucket fills, then the older first request; keys are positive.\<close>

definition bucket_tokens :: "usize \<Rightarrow> (usize \<times> bool) \<times> request_id list \<Rightarrow> usize" where
  "bucket_tokens m = (\<lambda>((n, _), rs). min (length rs) (m div n) * n)"

definition bucket_less_eq :: "usize \<Rightarrow> (usize \<times> bool) \<times> request_id list \<Rightarrow> (usize \<times> bool) \<times> request_id list \<Rightarrow> bool" where
  "bucket_less_eq m x y \<longleftrightarrow> bucket_tokens m x < bucket_tokens m y \<or>
     bucket_tokens m x = bucket_tokens m y \<and> hd (snd y) \<le> hd (snd x)"

definition best_bucket :: "usize \<Rightarrow> prefill_buckets \<Rightarrow> ((usize \<times> bool) \<times> request_id list) option" where
  "best_bucket m buckets =
     (case buckets of
        [] \<Rightarrow> None
      | x # xs \<Rightarrow> Some (fold (\<lambda>y best. if bucket_less_eq m best y then y else best) xs x))"

fun prefill_loop ::
  "usize \<Rightarrow> usize \<Rightarrow> request_id list \<Rightarrow> scheduled_sequence list \<Rightarrow> 'smp scheduler \<Rightarrow> ('smp, scheduled_sequence list) sched_result" where
  "prefill_loop width max_rows [] rows s = Some (s, Inr rows)"
| "prefill_loop width max_rows (r # rs) rows s =
     (if max_rows \<le> length rows then Some (s, Inr rows)
      else do {
        ok \<leftarrow> can_append (sc_kv s) r width;
        (case ok of
           Inl e \<Rightarrow> Some (s, Inl (KvError e))
         | Inr False \<Rightarrow> prefill_loop width max_rows rs rows s
         | Inr True \<Rightarrow> do {
             a \<leftarrow> get_active s r;
             (case prefill_chunk s r a of
                Inl e \<Rightarrow> Some (s, Inl e)
              | Inr (start, len, _) \<Rightarrow> do {
                  rassert (len = width);
                  tokens \<leftarrow> sub_slice (aq_history a) start (start + len);
                  sched_then (reserve_row s rows r tokens width) (\<lambda>s rows. prefill_loop width max_rows rs rows s)
                })
           })
      })"

definition schedule_prefill :: "'smp scheduler \<Rightarrow> ('smp, scheduled_batch option) sched_result" where
  "schedule_prefill s = do {
     v \<leftarrow> collect_buckets s (sc_active s) [];
     (case v of
        Inl e \<Rightarrow> Some (s, Inl e)
      | Inr buckets \<Rightarrow>
          (case best_bucket (bc_max_batch_tokens (sc_config s)) buckets of
             None \<Rightarrow> Some (s, Inr None)
           | Some ((width, _), candidates) \<Rightarrow> do {
               rassert (width \<noteq> 0);
               sched_then (prefill_loop width (bc_max_batch_tokens (sc_config s) div width) candidates [] s)
                 (\<lambda>s rows. finish_schedule s Prefill rows)
             }))
   }"

text \<open>\<open>remaining\<close> is a checked subtraction; a draft is padded with its last token.\<close>

fun verify_candidates ::
  "'smp scheduler \<Rightarrow> speculative_config \<Rightarrow> (request_id \<times> 'smp active_request) list \<Rightarrow>
   (batch_error + (request_id \<times> token \<times> token list) list) option" where
  "verify_candidates s config [] = Some (Inr [])"
| "verify_candidates s config ((r, a) # rest) =
     (case aq_phase a of
        AwaitingDecode token \<Rightarrow> do {
          remaining \<leftarrow> usub (gen_max_new_tokens (aq_generation a)) (length (aq_generated a));
          (if aq_sampler a \<noteq> None \<or> remaining < 2 then verify_candidates s config rest
           else do {
             draft \<leftarrow> ngram_draft (aq_history a) (sp_ngram config) (sp_draft_tokens config);
             (if draft = [] then verify_candidates s config rest
              else do {
                ok \<leftarrow> can_append (sc_kv s) r (sp_draft_tokens config + 1);
                (case ok of
                   Inl e \<Rightarrow> Some (Inl (KvError e))
                 | Inr False \<Rightarrow> verify_candidates s config rest
                 | Inr True \<Rightarrow> do {
                     v \<leftarrow> verify_candidates s config rest;
                     Some (ok_then v (\<lambda>cs. Inr ((r, token, draft) # cs)))
                   })
              })
           })
        }
      | _ \<Rightarrow> verify_candidates s config rest)"

definition pad_draft :: "usize \<Rightarrow> token list \<Rightarrow> token list" where
  "pad_draft n draft = take n draft @ replicate (n - length draft) (last draft)"

fun verify_loop ::
  "usize \<Rightarrow> usize \<Rightarrow> (request_id \<times> token \<times> token list) list \<Rightarrow> scheduled_sequence list \<Rightarrow> 'smp scheduler \<Rightarrow>
   ('smp, scheduled_sequence list) sched_result" where
  "verify_loop width max_rows [] rows s = Some (s, Inr rows)"
| "verify_loop width max_rows ((r, token, draft) # cs) rows s =
     (if max_rows \<le> length rows then Some (s, Inr rows)
      else do {
        ok \<leftarrow> can_append (sc_kv s) r width;
        (case ok of
           Inl e \<Rightarrow> Some (s, Inl (KvError e))
         | Inr False \<Rightarrow> verify_loop width max_rows cs rows s
         | Inr True \<Rightarrow> do {
             rassert (draft \<noteq> []);
             sched_then (lift_kv s (begin_append (sc_kv s) r width)) (\<lambda>s reservation.
               verify_loop width max_rows cs
                 (rows @ [scheduled_row reservation (token # pad_draft (width - 1) draft)]) s)
           })
      })"

definition schedule_verify :: "'smp scheduler \<Rightarrow> ('smp, scheduled_batch option) sched_result" where
  "schedule_verify s =
     (case sc_speculative s of
        None \<Rightarrow> Some (s, Inr None)
      | Some config \<Rightarrow> do {
          width \<leftarrow> uadd (sp_draft_tokens config) 1;
          let max_rows = bc_max_batch_tokens (sc_config s) div width;
          (if max_rows = 0 then Some (s, Inr None)
           else do {
             v \<leftarrow> verify_candidates s config (sc_active s);
             (case v of
                Inl e \<Rightarrow> Some (s, Inl e)
              | Inr candidates \<Rightarrow>
                  sched_then (verify_loop width max_rows candidates [] s) (\<lambda>s rows. finish_schedule s Verify rows))
           })
        })"

definition try_prefill :: "'smp scheduler \<Rightarrow> ('smp, scheduled_batch option) sched_result" where
  "try_prefill s = sched_then (schedule_prefill s) (\<lambda>s v.
     case v of Some b \<Rightarrow> Some (s\<lparr>sc_prefer_prefill := False\<rparr>, Inr (Some b)) | None \<Rightarrow> Some (s, Inr None))"

text \<open>The part of \<open>try_schedule\<close> after the preferred prefill.\<close>

definition try_decode :: "'smp scheduler \<Rightarrow> ('smp, scheduled_batch option) sched_result" where
  "try_decode s =
     (let s = s\<lparr>sc_speculative_turn := \<not> sc_speculative_turn s\<rparr> in
      sched_then (if sc_speculative_turn s then schedule_verify s else Some (s, Inr None)) (\<lambda>s v.
        case v of
          Some b \<Rightarrow> Some (s\<lparr>sc_prefer_prefill := True\<rparr>, Inr (Some b))
        | None \<Rightarrow> sched_then (schedule_decode s) (\<lambda>s v.
            case v of
              Some b \<Rightarrow> Some (s\<lparr>sc_prefer_prefill := True\<rparr>, Inr (Some b))
            | None \<Rightarrow> try_prefill s)))"

definition try_schedule :: "'smp scheduler \<Rightarrow> ('smp, scheduled_batch option) sched_result" where
  "try_schedule s =
     sched_then (if sc_prefer_prefill s then try_prefill s else Some (s, Inr None)) (\<lambda>s v.
       case v of Some b \<Rightarrow> Some (s, Inr (Some b)) | None \<Rightarrow> try_decode s)"

fun page_holders :: "paged_kv \<Rightarrow> (request_id \<times> 'smp active_request) list \<Rightarrow> batch_error + (nat \<times> request_id) list" where
  "page_holders kv [] = Inr []"
| "page_holders kv ((r, a) # rest) =
     (case aq_phase a of
        InFlight _ \<Rightarrow> page_holders kv rest
      | _ \<Rightarrow>
          (case block_table kv r of
             Inl e \<Rightarrow> Inl (KvError e)
           | Inr table \<Rightarrow> ok_then (page_holders kv rest) (\<lambda>hs.
               Inr (if table \<noteq> [] then (aq_admitted a, r) # hs else hs))))"

definition preempt_newest :: "'smp scheduler \<Rightarrow> ('smp, bool) sched_result" where
  "preempt_newest s =
     (case page_holders (sc_kv s) (sc_active s) of
        Inl e \<Rightarrow> Some (s, Inl e)
      | Inr holders \<Rightarrow>
          if length holders \<le> 1 then Some (s, Inr False)
          else
            let victim = snd (fold max (tl holders) (hd holders)) in
            sched_then (lift_kv s (remove_sequence (sc_kv s) victim)) (\<lambda>s _.
            sched_then (lift_kv s (create_sequence (sc_kv s) victim)) (\<lambda>s _. do {
              a \<leftarrow> get_active s victim;
              preemptions \<leftarrow> uadd (sc_preemptions s) 1;
              Some ((set_active s victim (a\<lparr>aq_phase := NeedsPrefill\<rparr>))
                \<lparr>sc_preemptions := preemptions, sc_prefer_prefill := False\<rparr>, Inr True)
            })))"

partial_function (option) schedule_loop :: "'smp scheduler \<Rightarrow> ('smp, scheduled_batch option) sched_result" where
  "schedule_loop s =
     Option.bind (try_schedule s) (\<lambda>(s, v).
       (case v of
          Inl e \<Rightarrow> Some (s, Inl e)
        | Inr (Some b) \<Rightarrow> Some (s\<lparr>sc_in_flight := Some b\<rparr>, Inr (Some b))
        | Inr None \<Rightarrow>
            if \<not> sc_recompute s then Some (s, Inr None)
            else Option.bind (preempt_newest s) (\<lambda>(s, v).
              (case v of
                 Inl e \<Rightarrow> Some (s, Inl e)
               | Inr gained \<Rightarrow> if gained then schedule_loop s else Some (s, Inr None)))))"

definition schedule :: "(nat \<Rightarrow> token list \<Rightarrow> nat) \<Rightarrow> 'smp scheduler \<Rightarrow> ('smp, scheduled_batch option) sched_result" where
  "schedule h s =
     (case sc_in_flight s of
        Some b \<Rightarrow> Some (s, Inl (StillInFlight (bt_id b)))
      | None \<Rightarrow>
          if sc_next_batch s = usize_lim - 1 then Some (s, Inl BatchIdOverflow)
          else sched_then (promote_pending h s) (\<lambda>s _. schedule_loop s))"

subsection \<open>Completing a batch\<close>

definition take_batch :: "'smp scheduler \<Rightarrow> nat \<Rightarrow> ('smp, scheduled_batch) sched_result" where
  "take_batch s b =
     (case sc_in_flight s of
        None \<Rightarrow> Some (s, Inl (NotInFlight b))
      | Some batch \<Rightarrow>
          if bt_id batch \<noteq> b then Some (s, Inl (OtherInFlight b (bt_id batch)))
          else Some (s\<lparr>sc_in_flight := None\<rparr>, Inr batch))"

definition samples_token :: "'smp scheduler \<Rightarrow> scheduled_sequence \<Rightarrow> bool" where
  "samples_token s row =
     (case get_active s (row_request row) of Some a \<Rightarrow> length (aq_history a) \<le> row_context row | None \<Rightarrow> False)"

definition row_owner_error :: "'smp scheduler \<Rightarrow> nat \<Rightarrow> scheduled_sequence \<Rightarrow> batch_error option" where
  "row_owner_error s b row =
     (case get_active s (row_request row) of
        None \<Rightarrow> Some (MissingRequest (row_request row))
      | Some a \<Rightarrow> if aq_phase a \<noteq> InFlight b then Some (NotOwnedBy (row_request row) b) else None)"

fun find_map :: "('a \<Rightarrow> 'b option) \<Rightarrow> 'a list \<Rightarrow> 'b option" where
  "find_map f [] = None"
| "find_map f (x # xs) = (case f x of Some y \<Rightarrow> Some y | None \<Rightarrow> find_map f xs)"

fun register_rows :: "(nat \<Rightarrow> token list \<Rightarrow> nat) \<Rightarrow> scheduled_sequence list \<Rightarrow> 'smp scheduler \<Rightarrow> ('smp, unit) sched_result" where
  "register_rows h [] s = Some (s, Inr ())"
| "register_rows h (row # rows) s = do {
     a \<leftarrow> get_active s (row_request row);
     sched_then (lift_kv s (register_prefix h (sc_kv s) (row_request row) (aq_history a))) (\<lambda>s _.
       register_rows h rows s)
   }"

text \<open>The end of a request: it leaves the active map and the KV cache.\<close>

definition retire :: "'smp scheduler \<Rightarrow> request_id \<Rightarrow> 'smp active_request \<Rightarrow> bool \<Rightarrow> ('smp, unit) sched_result" where
  "retire s r a stopped_on_eos =
     (let s = s\<lparr>sc_active := om_remove r (sc_active s)\<rparr> in
      sched_then (lift_kv s (remove_sequence (sc_kv s) r)) (\<lambda>s _.
        Some (s\<lparr>sc_finished := sc_finished s @ [\<lparr>fg_request = r, fg_prompt = aq_prompt a,
          fg_generated = aq_generated a, fg_stopped_on_eos = stopped_on_eos\<rparr>]\<rparr>, Inr ())))"

definition complete_row :: "scheduled_sequence \<times> token \<Rightarrow> 'smp scheduler \<Rightarrow> ('smp, unit) sched_result" where
  "complete_row = (\<lambda>(row, token) s. do {
     a \<leftarrow> get_active s (row_request row);
     (if row_context row < length (aq_history a)
      then Some (set_active s (row_request row) (a\<lparr>aq_phase := NeedsPrefill\<rparr>), Inr ())
      else
        let a = a\<lparr>aq_generated := aq_generated a @ [token], aq_history := aq_history a @ [token]\<rparr>;
            stopped_on_eos = (token \<in> aq_eos a) in
        if stopped_on_eos \<or> gen_max_new_tokens (aq_generation a) \<le> length (aq_generated a)
        then retire (set_active s (row_request row) a) (row_request row) a stopped_on_eos
        else Some (set_active s (row_request row) (a\<lparr>aq_phase := AwaitingDecode token\<rparr>), Inr ()))
   })"

fun complete_rows :: "(scheduled_sequence \<times> token) list \<Rightarrow> 'smp scheduler \<Rightarrow> ('smp, unit) sched_result" where
  "complete_rows [] s = Some (s, Inr ())"
| "complete_rows (x # xs) s = sched_then (complete_row x s) (\<lambda>s _. complete_rows xs s)"

definition complete_batch ::
  "(nat \<Rightarrow> token list \<Rightarrow> nat) \<Rightarrow> 'smp scheduler \<Rightarrow> nat \<Rightarrow> token list \<Rightarrow> ('smp, unit) sched_result" where
  "complete_batch h s0 b tokens =
     sched_then (take_batch s0 b) (\<lambda>s batch.
       let rows = bt_sequences batch; restore = s\<lparr>sc_in_flight := Some batch\<rparr> in
       if length tokens \<noteq> length rows then Some (restore, Inl (RowCountMismatch b (length rows) (length tokens)))
       else if \<exists>(row, token) \<in> set (zip rows tokens). samples_token s row \<and> token < 0
       then Some (restore, Inl NegativeGenerated)
       else (case find_map (row_owner_error s b) rows of
           Some e \<Rightarrow> Some (restore, Inl e)
         | None \<Rightarrow> do {
             (s, v) \<leftarrow> lift_kv s (commit_append_prefixes (sc_kv s)
               (map (\<lambda>row. (row_reservation row, length (row_tokens row))) rows));
             (case v of
                Inl e \<Rightarrow> Some (s\<lparr>sc_in_flight := Some batch\<rparr>, Inl e)
              | Inr _ \<Rightarrow> sched_then (register_rows h rows s) (\<lambda>s _. complete_rows (zip rows tokens) s))
           }))"

definition restore_phase :: "batch_kind \<Rightarrow> scheduled_sequence \<Rightarrow> request_phase option" where
  "restore_phase kind row =
     (case kind of Prefill \<Rightarrow> Some NeedsPrefill | _ \<Rightarrow> do { t \<leftarrow> vec_get (row_tokens row) 0; Some (AwaitingDecode t) })"

definition restore_row :: "batch_kind \<Rightarrow> scheduled_sequence \<Rightarrow> 'smp scheduler \<Rightarrow> 'smp scheduler option" where
  "restore_row kind row s = do {
     a \<leftarrow> get_active s (row_request row);
     phase \<leftarrow> restore_phase kind row;
     Some (set_active s (row_request row) (a\<lparr>aq_phase := phase\<rparr>))
   }"

definition fail_batch :: "'smp scheduler \<Rightarrow> nat \<Rightarrow> ('smp, unit) sched_result" where
  "fail_batch s0 b =
     sched_then (take_batch s0 b) (\<lambda>s batch.
       if \<exists>row \<in> set (bt_sequences batch). row_owner_error s b row \<noteq> None
       then Some (s\<lparr>sc_in_flight := Some batch\<rparr>, Inl FailedNotOwner)
       else do {
         (s, v) \<leftarrow> lift_kv s (cancel_appends (sc_kv s) (map row_reservation (bt_sequences batch)));
         (case v of
            Inl e \<Rightarrow> Some (s\<lparr>sc_in_flight := Some batch\<rparr>, Inl e)
          | Inr _ \<Rightarrow> do { s \<leftarrow> mfold (restore_row (bt_kind batch)) (bt_sequences batch) s; Some (s, Inr ()) })
       })"

subsection \<open>Verifying drafts\<close>

text \<open>The inner loop over the predictions of a row; \<open>position\<close> counts from 0.\<close>

fun verify_row :: "token list \<Rightarrow> usize \<Rightarrow> token set \<Rightarrow> usize \<Rightarrow> usize \<Rightarrow> token list \<Rightarrow> token list \<Rightarrow> token list option" where
  "verify_row input width eos remaining pos [] produced = Some produced"
| "verify_row input width eos remaining pos (prediction # predictions) produced =
     (let produced = produced @ [prediction] in
      if length produced = remaining \<or> prediction \<in> eos then Some produced
      else if width \<le> pos + 1 then Some produced
      else do {
        t \<leftarrow> vec_get input (pos + 1);
        (if t \<noteq> prediction then Some produced
         else verify_row input width eos remaining (pos + 1) predictions produced)
      })"

definition verify_sequence ::
  "(nat \<Rightarrow> token list \<Rightarrow> nat) \<Rightarrow> usize \<Rightarrow> token list \<Rightarrow> nat \<times> scheduled_sequence \<Rightarrow> 'smp scheduler \<Rightarrow>
   ('smp, request_id \<times> token list) sched_result" where
  "verify_sequence h width argmax = (\<lambda>(i, row) s. do {
     predictions \<leftarrow> sub_slice argmax (i * width) ((i + 1) * width);
     (case get_active s (row_request row) of
        None \<Rightarrow> Some (s, Inl (MissingRequest (row_request row)))
      | Some a \<Rightarrow> do {
          remaining \<leftarrow> usub (gen_max_new_tokens (aq_generation a)) (length (aq_generated a));
          produced \<leftarrow> verify_row (row_tokens row) width (aq_eos a) remaining 0 predictions [];
          w \<leftarrow> usub width 1;
          drafted \<leftarrow> uadd (sc_drafted s) w;
          p \<leftarrow> usub (length produced) 1;
          accepted \<leftarrow> uadd (sc_accepted s) p;
          let s = s\<lparr>sc_drafted := drafted, sc_accepted := accepted\<rparr>;
          sched_then (lift_kv s (commit_append_partial (sc_kv s) (row_reservation row) (length produced))) (\<lambda>s _. do {
            a \<leftarrow> get_active s (row_request row);
            let a = a\<lparr>aq_history := aq_history a @ produced, aq_generated := aq_generated a @ produced\<rparr>;
            let s = set_active s (row_request row) a;
            rassert (produced \<noteq> []);
            let stopped_on_eos = (last produced \<in> aq_eos a);
            sched_then (lift_kv s (register_prefix h (sc_kv s) (row_request row) (aq_history a))) (\<lambda>s _.
              if stopped_on_eos \<or> gen_max_new_tokens (aq_generation a) \<le> length (aq_generated a)
              then sched_then (retire s (row_request row) a stopped_on_eos) (\<lambda>s _. Some (s, Inr (row_request row, produced)))
              else Some (set_active s (row_request row) (a\<lparr>aq_phase := AwaitingDecode (last produced)\<rparr>),
                Inr (row_request row, produced)))
          })
        })
   })"

fun verify_rows ::
  "(nat \<Rightarrow> token list \<Rightarrow> nat) \<Rightarrow> usize \<Rightarrow> token list \<Rightarrow> (nat \<times> scheduled_sequence) list \<Rightarrow> 'smp scheduler \<Rightarrow>
   ('smp, (request_id \<times> token list) list) sched_result" where
  "verify_rows h width argmax [] s = Some (s, Inr [])"
| "verify_rows h width argmax (x # xs) s =
     sched_then (verify_sequence h width argmax x s) (\<lambda>s y.
     sched_then (verify_rows h width argmax xs s) (\<lambda>s ys. Some (s, Inr (y # ys))))"

definition complete_verify_batch ::
  "(nat \<Rightarrow> token list \<Rightarrow> nat) \<Rightarrow> 'smp scheduler \<Rightarrow> nat \<Rightarrow> token list \<Rightarrow> ('smp, (request_id \<times> token list) list) sched_result" where
  "complete_verify_batch h s0 b argmax =
     sched_then (take_batch s0 b) (\<lambda>s batch. do {
       let width = next_n batch;
       total \<leftarrow> (if bt_kind batch \<noteq> Verify then Some 0 else umul (batch_size batch) width);
       (if bt_kind batch \<noteq> Verify \<or> length argmax \<noteq> total
        then Some (s\<lparr>sc_in_flight := Some batch\<rparr>, Inl VerifyMismatch)
        else verify_rows h width argmax (enumerate 0 (bt_sequences batch)) s)
     })"

definition lookahead_row ::
  "usize \<Rightarrow> scheduled_sequence \<Rightarrow> usize \<Rightarrow> (request_id \<times> append_reservation) list \<Rightarrow> 'smp scheduler \<Rightarrow>
   ('smp, usize \<times> (request_id \<times> append_reservation) list) sched_result" where
  "lookahead_row wanted row budget reserved s = do {
     a \<leftarrow> get_active s (row_request row);
     let remaining = gen_max_new_tokens (aq_generation a) - length (aq_generated a);
     left \<leftarrow> usub (cf_max_sequence_length (kv_config (sc_kv s))) (row_context row);
     let extra = min (min (min wanted budget) (remaining - 1)) left;
     total \<leftarrow> uadd (row_context row) extra;
     required \<leftarrow> udiv_ceil total (cf_block_size (kv_config (sc_kv s)));
     let pages = required - length (row_block_table row);
     (if 0 < extra \<and> pages \<le> free_page_count (sc_kv s)
      then sched_then (lift_kv s (extend_append (sc_kv s) (row_reservation row) extra)) (\<lambda>s reservation.
        Some (s, Inr (budget - extra, om_insert (row_request row) reservation reserved)))
      else Some (s, Inr (budget, reserved)))
   }"

fun lookahead_loop ::
  "usize \<Rightarrow> usize \<Rightarrow> scheduled_sequence list \<Rightarrow> (request_id \<times> append_reservation) list \<Rightarrow> 'smp scheduler \<Rightarrow>
   ('smp, (request_id \<times> append_reservation) list) sched_result" where
  "lookahead_loop wanted budget [] reserved s = Some (s, Inr reserved)"
| "lookahead_loop wanted budget (row # rows) reserved s =
     sched_then (lookahead_row wanted row budget reserved s) (\<lambda>s (budget, reserved).
       lookahead_loop wanted budget rows reserved s)"

definition reserve_lookahead ::
  "'smp scheduler \<Rightarrow> scheduled_batch \<Rightarrow> usize \<Rightarrow> ('smp, (request_id \<times> append_reservation) list) sched_result" where
  "reserve_lookahead s batch wanted =
     (if wanted = 0 \<or> bt_kind batch \<noteq> Decode then Some (s, Inr [])
      else lookahead_loop wanted (bc_max_batch_tokens (sc_config s) - batch_size batch) (bt_sequences batch) [] s)"

subsection \<open>Lifecycle\<close>

definition cancel :: "'smp scheduler \<Rightarrow> request_id \<Rightarrow> ('smp, cancelled_generation option) sched_result" where
  "cancel s r =
     (case position (\<lambda>p. pr_id p = r) (sc_pending s) of
        Some i \<Rightarrow> do {
          (p, rest) \<leftarrow> vec_remove (sc_pending s) i;
          Some (s\<lparr>sc_pending := rest, sc_deferred := sc_deferred s - {r}\<rparr>,
            Inr (Some \<lparr>cg_request = r, cg_prompt = pr_prompt p, cg_generated = []\<rparr>))
        }
      | None \<Rightarrow>
          (case get_active s r of
             None \<Rightarrow> Some (s, Inr None)
           | Some a \<Rightarrow>
               (case aq_phase a of
                  InFlight b \<Rightarrow> Some (s, Inl (CancelInFlight r b))
                | _ \<Rightarrow> sched_then (lift_kv s (remove_sequence (sc_kv s) r)) (\<lambda>s _.
                    Some (s\<lparr>sc_active := om_remove r (sc_active s), sc_deferred := sc_deferred s - {r}\<rparr>,
                      Inr (Some \<lparr>cg_request = r, cg_prompt = aq_prompt a, cg_generated = aq_generated a\<rparr>))))))"

definition is_idle :: "'smp scheduler \<Rightarrow> bool" where
  "is_idle s \<longleftrightarrow> sc_pending s = [] \<and> sc_active s = [] \<and> sc_in_flight s = None"

definition minimum_batch_token_limit :: "'smp scheduler \<Rightarrow> usize" where
  "minimum_batch_token_limit s =
     (if sc_prefill_chunk s \<noteq> None then 1
      else max (foldr max (map (\<lambda>p. length (pr_prompt p)) (sc_pending s) @
        map (\<lambda>x. length (aq_prompt (snd x))) (filter (\<lambda>x. aq_phase (snd x) = NeedsPrefill) (sc_active s))) 0) 1)"

definition batch_token_limit :: "'smp scheduler \<Rightarrow> usize" where
  "batch_token_limit s = bc_max_batch_tokens (sc_config s)"

definition set_batch_token_limit :: "'smp scheduler \<Rightarrow> usize \<Rightarrow> ('smp, unit) sched_result" where
  "set_batch_token_limit s limit =
     (if sc_in_flight s \<noteq> None then Some (s, Inl LimitInFlight)
      else if limit < minimum_batch_token_limit s then Some (s, Inl (LimitStrands limit (minimum_batch_token_limit s)))
      else Some (s\<lparr>sc_config := (sc_config s)\<lparr>bc_max_batch_tokens := limit\<rparr>\<rparr>, Inr ()))"

definition pop_finished :: "'smp scheduler \<Rightarrow> 'smp scheduler \<times> finished_generation option" where
  "pop_finished s = (case sc_finished s of [] \<Rightarrow> (s, None) | f # fs \<Rightarrow> (s\<lparr>sc_finished := fs\<rparr>, Some f))"

definition generated_tokens :: "'smp scheduler \<Rightarrow> request_id \<Rightarrow> token list option" where
  "generated_tokens s r = map_option aq_generated (get_active s r)"

record batch_snapshot =
  bs_pending_requests :: usize
  bs_active_requests :: usize
  bs_in_flight :: bool
  bs_finished_requests :: usize
  bs_free_kv_pages :: usize
  bs_total_kv_pages :: usize

definition sched_snapshot :: "'smp scheduler \<Rightarrow> batch_snapshot" where
  "sched_snapshot s =
     \<lparr>bs_pending_requests = length (sc_pending s), bs_active_requests = length (sc_active s),
      bs_in_flight = (sc_in_flight s \<noteq> None), bs_finished_requests = length (sc_finished s),
      bs_free_kv_pages = free_page_count (sc_kv s), bs_total_kv_pages = cf_num_pages (kv_config (sc_kv s))\<rparr>"

record paged_batch_snapshot = batch_snapshot +
  bs_preemptions :: nat
  bs_prefix_cached_tokens :: nat
  bs_drafted_tokens :: nat
  bs_accepted_draft_tokens :: nat

definition paged_snapshot :: "'smp scheduler \<Rightarrow> paged_batch_snapshot" where
  "paged_snapshot s =
     (let snapshot = sched_snapshot s in
      \<lparr>bs_pending_requests = bs_pending_requests snapshot, bs_active_requests = bs_active_requests snapshot,
       bs_in_flight = bs_in_flight snapshot, bs_finished_requests = bs_finished_requests snapshot,
       bs_free_kv_pages = bs_free_kv_pages snapshot, bs_total_kv_pages = bs_total_kv_pages snapshot,
       bs_preemptions = sc_preemptions s, bs_prefix_cached_tokens = kv_reused (sc_kv s),
       bs_drafted_tokens = sc_drafted s, bs_accepted_draft_tokens = sc_accepted s\<rparr>)"

subsection \<open>Selecting tokens\<close>

definition NO_TOKEN :: token where
  "NO_TOKEN = -1"

record 'smp token_selection =
  sel_batch_id :: nat
  sel_tokens :: "token list"
  sel_samplers :: "(request_id \<times> 'smp) list"

definition in_flight_batch :: "'smp scheduler \<Rightarrow> nat \<Rightarrow> batch_error + scheduled_batch" where
  "in_flight_batch s b =
     (case sc_in_flight s of
        Some batch \<Rightarrow> if bt_id batch = b then Inr batch else Inl (NotInFlight b)
      | None \<Rightarrow> Inl (NotInFlight b))"

definition batch_requires_logits :: "'smp scheduler \<Rightarrow> nat \<Rightarrow> batch_error + bool" where
  "batch_requires_logits s b =
     ok_then (in_flight_batch s b) (\<lambda>batch.
       Inr (\<exists>row \<in> set (bt_sequences batch). samples_token s row \<and>
         (case get_active s (row_request row) of Some a \<Rightarrow> aq_sampler a \<noteq> None | None \<Rightarrow> False)))"

definition complete_greedy_batch ::
  "(nat \<Rightarrow> token list \<Rightarrow> nat) \<Rightarrow> 'smp scheduler \<Rightarrow> nat \<Rightarrow> token list \<Rightarrow> ('smp, token list) sched_result" where
  "complete_greedy_batch h s b argmax =
     (case in_flight_batch s b of
        Inl e \<Rightarrow> Some (s, Inl e)
      | Inr batch \<Rightarrow>
          if length argmax \<noteq> length (bt_sequences batch) then Some (s, Inl ArgmaxRows)
          else
            let tokens = map (\<lambda>(row, token). if samples_token s row then token else NO_TOKEN)
              (zip (bt_sequences batch) argmax) in
            (case batch_requires_logits s b of
               Inl e \<Rightarrow> Some (s, Inl e)
             | Inr True \<Rightarrow> Some (s, Inl NeedsLogits)
             | Inr False \<Rightarrow> sched_then (complete_batch h s b tokens) (\<lambda>s _. Some (s, Inr tokens))))"

fun sampling_rows :: "'smp scheduler \<Rightarrow> scheduled_sequence list \<Rightarrow> batch_error + (request_id \<times> 'smp option) list" where
  "sampling_rows s [] = Inr []"
| "sampling_rows s (row # rows) =
     (case get_active s (row_request row) of
        None \<Rightarrow> Inl (MissingRequest (row_request row))
      | Some a \<Rightarrow> ok_then (sampling_rows s rows) (\<lambda>st. Inr ((row_request row, aq_sampler a) # st)))"

definition batch_sampling_state :: "'smp scheduler \<Rightarrow> nat \<Rightarrow> batch_error + (request_id \<times> 'smp option) list" where
  "batch_sampling_state s b =
     ok_then (in_flight_batch s b) (\<lambda>batch.
     ok_then (sampling_rows s (bt_sequences batch)) (\<lambda>rows.
       Inr (fold (\<lambda>(r, smp). om_insert r smp) rows [])))"

text \<open>
  \<open>select\<close> picks a token from the logits of a row and advances the sampler of its request;
  \<open>clear\<close> drops the workspace of a sampler.
\<close>

type_synonym 'smp select_state = "(request_id \<times> 'smp option) list \<times> token list \<times> (request_id \<times> 'smp) list"

definition select_row ::
  "(request_id \<Rightarrow> 'l list \<Rightarrow> 'smp option \<Rightarrow> (batch_error + token) \<times> 'smp option) \<Rightarrow> ('smp \<Rightarrow> 'smp) \<Rightarrow> 'smp scheduler \<Rightarrow> nat \<Rightarrow>
   'l list \<Rightarrow> usize \<Rightarrow> nat \<times> scheduled_sequence \<Rightarrow> 'smp select_state \<Rightarrow> (batch_error + 'smp select_state) option" where
  "select_row select clear s b logits vocabulary = (\<lambda>(i, row) (state, tokens, samplers).
     case row_owner_error s b row of
       Some e \<Rightarrow> Some (Inl e)
     | None \<Rightarrow>
         if \<not> samples_token s row then Some (Inr (state, tokens @ [NO_TOKEN], samplers))
         else do {
           values \<leftarrow> sub_slice logits (i * vocabulary) ((i + 1) * vocabulary);
           (case map_of state (row_request row) of
              None \<Rightarrow> Some (Inl MissingSampler)
            | Some current \<Rightarrow>
                (case select (row_request row) values current of
                   (Inl e, _) \<Rightarrow> Some (Inl e)
                 | (Inr token, next') \<Rightarrow>
                     Some (Inr (om_remove (row_request row) state, tokens @ [token],
                       samplers @ (case next' of Some n \<Rightarrow> [(row_request row, clear n)] | None \<Rightarrow> [])))))
         })"

fun try_loop :: "('a \<Rightarrow> 's \<Rightarrow> ('e + 's) option) \<Rightarrow> 'a list \<Rightarrow> 's \<Rightarrow> ('e + 's) option" where
  "try_loop f [] s = Some (Inr s)"
| "try_loop f (x # xs) s = try_op (f x s) (\<lambda>s. try_loop f xs s)"

definition select_batch_tokens_with ::
  "(request_id \<Rightarrow> 'l list \<Rightarrow> 'smp option \<Rightarrow> (batch_error + token) \<times> 'smp option) \<Rightarrow> ('smp \<Rightarrow> 'smp) \<Rightarrow> 'smp scheduler \<Rightarrow> nat \<Rightarrow>
   'l list \<Rightarrow> usize \<Rightarrow> (request_id \<times> 'smp option) list \<Rightarrow> (batch_error + 'smp token_selection) option" where
  "select_batch_tokens_with select clear s b logits vocabulary state =
     (case in_flight_batch s b of
        Inl e \<Rightarrow> Some (Inl e)
      | Inr batch \<Rightarrow>
          if vocabulary = 0 \<or> length (bt_sequences batch) * vocabulary \<noteq> length logits then Some (Inl LogitRows)
          else try_op (try_loop (select_row select clear s b logits vocabulary) (enumerate 0 (bt_sequences batch)) (state, [], []))
            (\<lambda>(_, tokens, samplers). Some (Inr \<lparr>sel_batch_id = b, sel_tokens = tokens, sel_samplers = samplers\<rparr>)))"

fun greedy_loop :: "(usize \<times> f32) list \<Rightarrow> (usize \<times> f32) option \<Rightarrow> (usize \<times> f32) option" where
  "greedy_loop [] best = best"
| "greedy_loop ((i, x) # rest) best =
     (if x = F32_NaN then greedy_loop rest best
      else greedy_loop rest (if (case best of None \<Rightarrow> True | Some (_, best_value) \<Rightarrow> f32_less best_value x) then Some (i, x) else best))"

definition greedy_token :: "f32 list \<Rightarrow> batch_error + token" where
  "greedy_token row_values =
     (case greedy_loop (enumerate 0 row_values) None of
        None \<Rightarrow> Inl AllNaN
      | Some (i, _) \<Rightarrow> if i < 2 ^ 31 then Inr (int i) else Inl VocabularyOverflow)"

text \<open>
  \<open>sample\<close> is \<open>TokenSampler::sample_with_history\<close>: it picks a token for the logits, the prompt and the
  generated tokens, and returns the sampler with its random state advanced.  The request is there:
  \<open>select_row\<close> looks it up before it asks for a choice.
\<close>

definition sampler_choice ::
  "('smp \<Rightarrow> f32 list \<Rightarrow> token list \<Rightarrow> token list \<Rightarrow> (unit + token) \<times> 'smp) \<Rightarrow> 'smp scheduler \<Rightarrow> request_id \<Rightarrow> f32 list \<Rightarrow>
   'smp option \<Rightarrow> (batch_error + token) \<times> 'smp option" where
  "sampler_choice sample s r values sampler =
     (case sampler of
        None \<Rightarrow> (greedy_token values, None)
      | Some smp \<Rightarrow>
          (case get_active s r of
             None \<Rightarrow> (Inl (MissingRequest r), Some smp)
           | Some a \<Rightarrow>
               (case sample smp values (aq_prompt a) (aq_generated a) of
                  (Inl _, smp') \<Rightarrow> (Inl SamplingFailed, Some smp')
                | (Inr t, smp') \<Rightarrow> (Inr t, Some smp'))))"

definition select_batch_tokens ::
  "('smp \<Rightarrow> f32 list \<Rightarrow> token list \<Rightarrow> token list \<Rightarrow> (unit + token) \<times> 'smp) \<Rightarrow> ('smp \<Rightarrow> 'smp) \<Rightarrow> 'smp scheduler \<Rightarrow> nat \<Rightarrow>
   f32 list \<Rightarrow> usize \<Rightarrow> (batch_error + 'smp token_selection) option" where
  "select_batch_tokens sample clear s b logits vocabulary =
     (case batch_sampling_state s b of
        Inl e \<Rightarrow> Some (Inl e)
      | Inr state \<Rightarrow> select_batch_tokens_with (sampler_choice sample s) clear s b logits vocabulary state)"

text \<open>\<open>new_sampler\<close> is \<open>TokenSampler::new_with_options\<close>.\<close>

definition submit_sampled ::
  "('c \<Rightarrow> unit + 'smp) \<Rightarrow> 'smp scheduler \<Rightarrow> token list \<Rightarrow> generation_config \<Rightarrow> 'c \<Rightarrow> ('smp, request_id) sched_result" where
  "submit_sampled new_sampler s prompt generation sampling =
     (case new_sampler sampling of
        Inl _ \<Rightarrow> Some (s, Inl SamplingFailed)
      | Inr smp \<Rightarrow> submit_with_sampler s prompt generation (Some smp))"

definition store_sampler :: "request_id \<times> 'smp \<Rightarrow> 'smp scheduler \<Rightarrow> 'smp scheduler" where
  "store_sampler = (\<lambda>(r, smp) s.
     case get_active s r of Some a \<Rightarrow> set_active s r (a\<lparr>aq_sampler := Some smp\<rparr>) | None \<Rightarrow> s)"

definition complete_selected_batch ::
  "(nat \<Rightarrow> token list \<Rightarrow> nat) \<Rightarrow> 'smp scheduler \<Rightarrow> 'smp token_selection \<Rightarrow> ('smp, token list) sched_result" where
  "complete_selected_batch h s selection =
     sched_then (complete_batch h s (sel_batch_id selection) (sel_tokens selection)) (\<lambda>s _.
       Some (fold store_sampler (sel_samplers selection) s, Inr (sel_tokens selection)))"

end
