(* ===== verification/Fenced_Scheduler.thy ===== *)
theory Fenced_Scheduler
  imports Batch_Scheduler
begin

text \<open>
  The synchronization gate of \<open>ruLLM/src/continuous_batch/fenced.rs\<close>: a scheduler whose batches run on a
  device, each under a completion fence.  A batch is committed or rolled back only after its fence
  has reported completion; when the state of the device is unknown the gate is quarantined.

  The fence and the launch are code of an adapter: \<open>'f\<close> is its fence type, \<open>poll\<close> its
  \<open>poll_complete\<close>, which returns the fence after the call and \<open>None\<close> when it panics; a launch is given by
  its result for the batch.  A panic of the adapter unwinds through the gate, which a caller may
  catch, so the state after it is part of the result (\<open>Unwound\<close>).
\<close>

datatype 'a poll = Pending | Ready 'a

record batch_launch_failure =
  lf_error :: runtime_error
  lf_work :: work_state
  lf_committed_cache_intact :: bool

datatype 'f launch_result = Launched 'f | LaunchFailed batch_launch_failure | LaunchPanicked

record ('smp, 'f) fenced_scheduler =
  fs_scheduler :: "'smp scheduler"
  fs_fence :: "(nat \<times> 'f \<times> bool) option"
  fs_quarantined :: bool

datatype gate_error =
    UntrackedWork
  | Quarantined
  | SchedulerError batch_error
  | AdapterError runtime_error
  | NoTrackedBatch
  | WrongFence
  | LogitShape
  | BadLogits runtime_error

definition gate_error_kind :: "gate_error \<Rightarrow> runtime_error_kind" where
  "gate_error_kind e = (case e of Quarantined \<Rightarrow> DeviceLost | AdapterError r \<Rightarrow> re_kind r | BadLogits r \<Rightarrow> re_kind r | _ \<Rightarrow> InvalidInput)"

datatype 'a unwind = Returned 'a | Unwound

type_synonym ('smp, 'f, 'a) gate_result = "(('smp, 'f) fenced_scheduler \<times> (gate_error + 'a) unwind) option"

definition fenced_new :: "'smp scheduler \<Rightarrow> gate_error + ('smp, 'f) fenced_scheduler" where
  "fenced_new scheduler =
     (if bs_in_flight (sched_snapshot scheduler) then Inl UntrackedWork
      else Inr \<lparr>fs_scheduler = scheduler, fs_fence = None, fs_quarantined = False\<rparr>)"

definition ensure_healthy :: "('smp, 'f) fenced_scheduler \<Rightarrow> gate_error + unit" where
  "ensure_healthy g = (if fs_quarantined g then Inl Quarantined else Inr ())"

text \<open>\<open>self.ensure_healthy()?\<close> followed by a call of the scheduler with \<open>map_err(Self::map_error)\<close>.\<close>

definition healthy_call :: "('smp, 'f) fenced_scheduler \<Rightarrow> ('smp scheduler \<Rightarrow> ('smp, 'a) sched_result) \<Rightarrow> ('smp, 'f, 'a) gate_result" where
  "healthy_call g op =
     (case ensure_healthy g of
        Inl e \<Rightarrow> Some (g, Returned (Inl e))
      | Inr _ \<Rightarrow> do {
          (s, v) \<leftarrow> op (fs_scheduler g);
          Some (g\<lparr>fs_scheduler := s\<rparr>, Returned (case v of Inl e \<Rightarrow> Inl (SchedulerError e) | Inr a \<Rightarrow> Inr a))
        })"

definition fenced_submit :: "('smp, 'f) fenced_scheduler \<Rightarrow> token list \<Rightarrow> generation_config \<Rightarrow> ('smp, 'f, request_id) gate_result" where
  "fenced_submit g prompt generation = healthy_call g (\<lambda>s. submit s prompt generation)"

definition fenced_submit_sampled ::
  "('c \<Rightarrow> unit + 'smp) \<Rightarrow> ('smp, 'f) fenced_scheduler \<Rightarrow> token list \<Rightarrow> generation_config \<Rightarrow> 'c \<Rightarrow> ('smp, 'f, request_id) gate_result" where
  "fenced_submit_sampled new_sampler g prompt generation sampling =
     healthy_call g (\<lambda>s. submit_sampled new_sampler s prompt generation sampling)"

definition fatal_kind :: "runtime_error_kind \<Rightarrow> bool" where
  "fatal_kind k \<longleftrightarrow> k \<in> {DeviceLost, Synchronization, WorkerPanicked, Internal}"

definition launch ::
  "(nat \<Rightarrow> token list \<Rightarrow> nat) \<Rightarrow> (scheduled_batch \<Rightarrow> 'f launch_result) \<Rightarrow> ('smp, 'f) fenced_scheduler \<Rightarrow>
   ('smp, 'f, scheduled_batch option) gate_result" where
  "launch h start g =
     (case ensure_healthy g of
        Inl e \<Rightarrow> Some (g, Returned (Inl e))
      | Inr _ \<Rightarrow> do {
          (s, v) \<leftarrow> schedule h (fs_scheduler g);
          let g = g\<lparr>fs_scheduler := s\<rparr>;
          (case v of
             Inl e \<Rightarrow> Some (g, Returned (Inl (SchedulerError e)))
           | Inr None \<Rightarrow> Some (g, Returned (Inr None))
           | Inr (Some batch) \<Rightarrow>
               let g = g\<lparr>fs_quarantined := True\<rparr> in
               (case start batch of
                  Launched fence \<Rightarrow>
                    Some (g\<lparr>fs_fence := Some (bt_id batch, fence, False), fs_quarantined := False\<rparr>, Returned (Inr (Some batch)))
                | LaunchPanicked \<Rightarrow> Some (g, Unwound)
                | LaunchFailed failure \<Rightarrow>
                    if lf_work failure \<noteq> UnknownWork \<and> lf_committed_cache_intact failure \<and> \<not> fatal_kind (re_kind (lf_error failure))
                    then do {
                      (s, v) \<leftarrow> fail_batch (fs_scheduler g) (bt_id batch);
                      let g = g\<lparr>fs_scheduler := s\<rparr>;
                      (case v of
                         Inl e \<Rightarrow> Some (g, Returned (Inl (SchedulerError e)))
                       | Inr _ \<Rightarrow> Some (g\<lparr>fs_quarantined := False\<rparr>, Returned (Inl (AdapterError (lf_error failure)))))
                    }
                    else Some (g, Returned (Inl (AdapterError (lf_error failure))))))
        })"

definition poll_fence ::
  "('f \<Rightarrow> 'f \<times> (runtime_error + unit) poll option) \<Rightarrow> nat \<Rightarrow> ('smp, 'f) fenced_scheduler \<Rightarrow>
   ('smp, 'f) fenced_scheduler \<times> (gate_error + unit poll) unwind" where
  "poll_fence poll b g =
     (case ensure_healthy g of
        Inl e \<Rightarrow> (g, Returned (Inl e))
      | Inr _ \<Rightarrow>
          (case fs_fence g of
             None \<Rightarrow> (g, Returned (Inl NoTrackedBatch))
           | Some (i, fence, completed) \<Rightarrow>
               if i \<noteq> b then (g, Returned (Inl WrongFence))
               else if completed then (g, Returned (Inr (Ready ())))
               else
                 let g = g\<lparr>fs_quarantined := True\<rparr> in
                 (case poll fence of
                    (fence, None) \<Rightarrow> (g\<lparr>fs_fence := Some (i, fence, completed)\<rparr>, Unwound)
                  | (fence, Some Pending) \<Rightarrow>
                      (g\<lparr>fs_fence := Some (i, fence, completed), fs_quarantined := False\<rparr>, Returned (Inr Pending))
                  | (fence, Some (Ready (Inr _))) \<Rightarrow>
                      (g\<lparr>fs_fence := Some (i, fence, True), fs_quarantined := False\<rparr>, Returned (Inr (Ready ())))
                  | (fence, Some (Ready (Inl e))) \<Rightarrow>
                      (g\<lparr>fs_fence := Some (i, fence, completed)\<rparr>, Returned (Inl (AdapterError e))))))"

text \<open>\<open>if self.poll_fence(batch_id)?.is_pending() { return Ok(Poll::Pending); }\<close>\<close>

definition when_ready ::
  "('smp, 'f) fenced_scheduler \<times> (gate_error + unit poll) unwind \<Rightarrow> (('smp, 'f) fenced_scheduler \<Rightarrow> ('smp, 'f, 'a poll) gate_result) \<Rightarrow>
   ('smp, 'f, 'a poll) gate_result" where
  "when_ready r k =
     (case r of
        (g, Unwound) \<Rightarrow> Some (g, Unwound)
      | (g, Returned (Inl e)) \<Rightarrow> Some (g, Returned (Inl e))
      | (g, Returned (Inr Pending)) \<Rightarrow> Some (g, Returned (Inr Pending))
      | (g, Returned (Inr (Ready _))) \<Rightarrow> k g)"

function chunks_exact :: "usize \<Rightarrow> 'a list \<Rightarrow> 'a list list" where
  "chunks_exact n xs = (if n = 0 \<or> length xs < n then [] else take n xs # chunks_exact n (drop n xs))"
  by pat_completeness auto
termination by (relation "measure (\<lambda>(n, xs). length xs)") auto

declare chunks_exact.simps [simp del]

fun check_logit_rows :: "f32 list list \<Rightarrow> runtime_error + unit" where
  "check_logit_rows [] = Inr ()"
| "check_logit_rows (row # rows) = ok_then (checked_argmax row) (\<lambda>_. check_logit_rows rows)"

definition try_complete_logits ::
  "(nat \<Rightarrow> token list \<Rightarrow> nat) \<Rightarrow> ('smp \<Rightarrow> f32 list \<Rightarrow> token list \<Rightarrow> token list \<Rightarrow> (unit + token) \<times> 'smp) \<Rightarrow> ('smp \<Rightarrow> 'smp) \<Rightarrow>
   ('f \<Rightarrow> 'f \<times> (runtime_error + unit) poll option) \<Rightarrow> nat \<Rightarrow> f32 list \<Rightarrow> usize \<Rightarrow> ('smp, 'f) fenced_scheduler \<Rightarrow>
   ('smp, 'f, token list poll) gate_result" where
  "try_complete_logits h sample clear poll b logits vocabulary g =
     when_ready (poll_fence poll b g) (\<lambda>g. do {
       batch \<leftarrow> sc_in_flight (fs_scheduler g);
       (if vocabulary = 0 \<or> batch_size batch * vocabulary \<noteq> length logits then Some (g, Returned (Inl LogitShape))
        else (case check_logit_rows (chunks_exact vocabulary logits) of
            Inl e \<Rightarrow> Some (g, Returned (Inl (BadLogits e)))
          | Inr _ \<Rightarrow> do {
              v \<leftarrow> select_batch_tokens sample clear (fs_scheduler g) b logits vocabulary;
              (case v of
                 Inl e \<Rightarrow> Some (g, Returned (Inl (SchedulerError e)))
               | Inr selected \<Rightarrow> do {
                   (s, v) \<leftarrow> complete_selected_batch h (fs_scheduler g) selected;
                   let g = g\<lparr>fs_scheduler := s\<rparr>;
                   (case v of
                      Inl e \<Rightarrow> Some (g, Returned (Inl (SchedulerError e)))
                    | Inr tokens \<Rightarrow> Some (g\<lparr>fs_fence := None\<rparr>, Returned (Inr (Ready tokens))))
                 })
            }))
     })"

definition try_rollback ::
  "('f \<Rightarrow> 'f \<times> (runtime_error + unit) poll option) \<Rightarrow> nat \<Rightarrow> ('smp, 'f) fenced_scheduler \<Rightarrow> ('smp, 'f, unit poll) gate_result" where
  "try_rollback poll b g =
     when_ready (poll_fence poll b g) (\<lambda>g. do {
       (s, v) \<leftarrow> fail_batch (fs_scheduler g) b;
       let g = g\<lparr>fs_scheduler := s\<rparr>;
       (case v of
          Inl e \<Rightarrow> Some (g, Returned (Inl (SchedulerError e)))
        | Inr _ \<Rightarrow> Some (g\<lparr>fs_fence := None\<rparr>, Returned (Inr (Ready ()))))
     })"

definition fenced_cancel :: "('smp, 'f) fenced_scheduler \<Rightarrow> request_id \<Rightarrow> ('smp, 'f, cancelled_generation option) gate_result" where
  "fenced_cancel g r = healthy_call g (\<lambda>s. cancel s r)"

definition fenced_set_batch_token_limit :: "('smp, 'f) fenced_scheduler \<Rightarrow> usize \<Rightarrow> ('smp, 'f, unit) gate_result" where
  "fenced_set_batch_token_limit g limit = healthy_call g (\<lambda>s. set_batch_token_limit s limit)"

definition fenced_pop_finished :: "('smp, 'f) fenced_scheduler \<Rightarrow> ('smp, 'f) fenced_scheduler \<times> finished_generation option" where
  "fenced_pop_finished g = (case pop_finished (fs_scheduler g) of (s, f) \<Rightarrow> (g\<lparr>fs_scheduler := s\<rparr>, f))"

text \<open>\<open>drop\<close>: the fences that are dropped; an unresolved one is forgotten, so what it owns is kept.\<close>

definition fenced_drop :: "('smp, 'f) fenced_scheduler \<Rightarrow> 'f list" where
  "fenced_drop g = (case fs_fence g of Some (_, fence, completed) \<Rightarrow> if completed then [fence] else [] | None \<Rightarrow> [])"

end
