(* ===== verification/Paged_Kv_Pool.thy ===== *)
theory Paged_Kv_Pool
  imports Paged_Kv
begin

text \<open>
  The physical pages of the KV cache manager: the free set, the reference counts, the cached
  blocks with their index and the eviction queue describe one partition of the pages, and every
  page operation keeps them consistent.  Clients see the pages through the interface
  \<open>page_pool\<close>.
\<close>

subsection \<open>Consistency of the page metadata\<close>

definition block_at :: "cached_block option list \<Rightarrow> kv_page_id \<Rightarrow> cached_block option" where
  "block_at blocks p = (if p < length blocks then blocks ! p else None)"

definition ref_at :: "nat list \<Rightarrow> kv_page_id \<Rightarrow> nat" where
  "ref_at refs p = (if p < length refs then refs ! p else 0)"

definition pool_ok :: "nat \<Rightarrow> kv_page_id list \<Rightarrow> nat list \<Rightarrow> cached_block option list \<Rightarrow>
    (block_key \<rightharpoonup> kv_page_id) \<Rightarrow> (nat \<times> kv_page_id) list \<Rightarrow> nat \<Rightarrow> bool" where
  "pool_ok n free refs blocks index evict tick \<longleftrightarrow>
     length refs = n \<and> length blocks = n \<and> bs_ok free \<and> om_ok evict \<and>
     (\<forall>p. p \<in> set free \<longleftrightarrow> p < n \<and> ref_at refs p = 0 \<and> block_at blocks p = None) \<and>
     (\<forall>t p. map_of evict t = Some p \<longleftrightarrow> (\<exists>b. block_at blocks p = Some b \<and> cb_tick b = Some t)) \<and>
     (\<forall>p b. block_at blocks p = Some b \<longrightarrow> (cb_tick b = None \<longleftrightarrow> 0 < ref_at refs p)) \<and>
     (\<forall>k p. index k = Some p \<longleftrightarrow> (\<exists>b. block_at blocks p = Some b \<and> cb_key b = k)) \<and>
     (\<forall>t p. map_of evict t = Some p \<longrightarrow> t < tick)"

definition pool_inv :: "paged_kv \<Rightarrow> bool" where
  "pool_inv kv \<longleftrightarrow> pool_ok (cf_num_pages (kv_config kv)) (kv_free kv) (kv_refs kv) (kv_blocks kv)
     (kv_index kv) (kv_evictable kv) (kv_next_tick kv)"

lemma block_at_update [simp]:
  "block_at (blocks[p := v]) q = (if q = p \<and> p < length blocks then v else block_at blocks q)"
  by (simp add: block_at_def)

lemma ref_at_update [simp]:
  "ref_at (refs[p := v]) q = (if q = p \<and> p < length refs then v else ref_at refs q)"
  by (simp add: ref_at_def)

lemma block_at_Some: "block_at blocks p = Some b \<Longrightarrow> p < length blocks \<and> blocks ! p = Some b"
  by (simp add: block_at_def split: if_splits)

text \<open>The conjuncts of the consistency of a pool.\<close>

lemma pool_okD:
  assumes "pool_ok n free refs blocks index evict tick"
  shows "length refs = n" "length blocks = n" "bs_ok free" "om_ok evict"
    "p \<in> set free \<longleftrightarrow> p < n \<and> ref_at refs p = 0 \<and> block_at blocks p = None"
    "map_of evict t = Some p \<longleftrightarrow> (\<exists>b. block_at blocks p = Some b \<and> cb_tick b = Some t)"
    "block_at blocks p = Some b \<Longrightarrow> cb_tick b = None \<longleftrightarrow> 0 < ref_at refs p"
    "index k = Some p \<longleftrightarrow> (\<exists>b. block_at blocks p = Some b \<and> cb_key b = k)"
    "map_of evict t = Some p \<Longrightarrow> t < tick"
  using assms unfolding pool_ok_def by blast+

text \<open>The free and the evictable pages are exactly the unreferenced ones.\<close>

lemma pool_available:
  assumes ok: "pool_ok n free refs blocks index evict tick"
  shows "length free + length evict = card {p. p < n \<and> ref_at refs p = 0}"
proof -
  note D = pool_okD [OF ok]
  have ev: "snd ` set evict = {p. p < n \<and> ref_at refs p = 0 \<and> block_at blocks p \<noteq> None}" (is "_ = ?E")
  proof (intro set_eqI iffI)
    fix p assume "p \<in> snd ` set evict"
    then obtain t where "(t, p) \<in> set evict" by auto
    then obtain b where b: "block_at blocks p = Some b" "cb_tick b = Some t"
      using D(4,6) om.entries_mem by metis
    then show "p \<in> ?E" using D(2) D(7) [OF b(1)] block_at_Some [OF b(1)] by auto
  next
    fix p assume p: "p \<in> ?E"
    then obtain b where b: "block_at blocks p = Some b" by auto
    then obtain t where "cb_tick b = Some t" using D(7) [OF b] p by auto
    then have "(t, p) \<in> set evict" using b D(4,6) om.entries_mem by metis
    then show "p \<in> snd ` set evict" by force
  qed
  have inj: "inj_on snd (set evict)"
  proof (rule inj_onI)
    fix x y assume xy: "x \<in> set evict" "y \<in> set evict" "snd x = snd y"
    obtain t p t' where [simp]: "x = (t, p)" "y = (t', p)" using xy(3) by (cases x; cases y) auto
    have "map_of evict t = Some p" "map_of evict t' = Some p"
      using xy(1,2) om.entries_mem [OF D(4)] by auto
    then show "x = y" using D(6) by auto
  qed
  have "distinct evict"
    using om.entries_distinct [OF D(4)] by (simp add: distinct_map)
  then have "length evict = card (snd ` set evict)"
    using inj by (simp add: card_image distinct_card)
  moreover have "length free = card (set free)" using D(3) by (rule bs_length)
  moreover have free: "set free = {p. p < n \<and> ref_at refs p = 0 \<and> block_at blocks p = None}"
    using D(5) by blast
  moreover have "{p. p < n \<and> ref_at refs p = 0} = set free \<union> ?E" "set free \<inter> ?E = {}"
    unfolding free by auto
  moreover have "finite ?E" by simp
  ultimately show ?thesis
    using card_Un_disjoint [of "set free" ?E] by (simp add: ev)
qed

subsection \<open>How the operations change the metadata\<close>

lemma pool_take_free:
  assumes ok: "pool_ok n free refs blocks index evict tick" and pop: "bs_pop_first free = Some (p, rest)"
  shows "pool_ok n rest (refs[p := 1]) blocks index evict tick"
proof -
  note D = pool_okD [OF ok]
  have r: "bs_ok rest" "set rest = set free - {p}" "p \<in> set free"
    using bs_pop_first_spec [OF D(3) pop] by auto
  have p: "p < n" "ref_at refs p = 0" "block_at blocks p = None" using D(5) r(3) by auto
  show ?thesis
    unfolding pool_ok_def using D p r by (simp add: pool_okD(6) [OF ok])
qed

lemma pool_take_evictable:
  assumes ok: "pool_ok n free refs blocks index evict tick"
    and b: "block_at blocks p = Some b" "cb_tick b = Some t"
  shows "pool_ok n free (refs[p := 1]) (blocks[p := None]) (index(cb_key b := None)) (om_remove t evict) tick"
proof -
  note D = pool_okD [OF ok]
  have p: "p < n" using block_at_Some [OF b(1)] D(2) by simp
  have r0: "ref_at refs p = 0" using D(7) [OF b(1)] b(2) by simp
  have other: "cb_tick b' \<noteq> Some t" "cb_key b' \<noteq> cb_key b" if "q \<noteq> p" "block_at blocks q = Some b'" for q b'
    using that b D(6) [of t p] D(6) [of t q] D(8) [of "cb_key b" p] D(8) [of "cb_key b" q] by auto
  show ?thesis
    unfolding pool_ok_def
  proof (intro conjI allI)
    show "q \<in> set free \<longleftrightarrow> q < n \<and> ref_at (refs[p := 1]) q = 0 \<and> block_at (blocks[p := None]) q = None" for q
      using D(5) [of q] D(1,2) p b(1) by auto
    show "map_of (om_remove t evict) u = Some q \<longleftrightarrow>
        (\<exists>b'. block_at (blocks[p := None]) q = Some b' \<and> cb_tick b' = Some u)" for u q
      using D(2) D(6) [of u q] p other [of q] b(2) by (auto simp: b)
    show "block_at (blocks[p := None]) q = Some b' \<longrightarrow> (cb_tick b' = None \<longleftrightarrow> 0 < ref_at (refs[p := 1]) q)" for q b'
      using D(1,2) D(7) [of q b'] p by auto
    show "(index(cb_key b := None)) k = Some q \<longleftrightarrow>
        (\<exists>b'. block_at (blocks[p := None]) q = Some b' \<and> cb_key b' = k)" for k q
      using D(2) D(8) [of k q] p other [of q] by (auto simp: b)
    show "map_of (om_remove t evict) u = Some q \<longrightarrow> u < tick" for u q
      using D(9) [of u q] by auto
  qed (use D in auto)
qed

lemma pool_acquire:
  assumes ok: "pool_ok n free refs blocks index evict tick"
    and b: "block_at blocks p = Some b" "cb_tick b = Some t"
  shows "pool_ok n free (refs[p := r + 1]) (blocks[p := Some (b\<lparr>cb_tick := None\<rparr>)]) index (om_remove t evict) tick"
proof -
  note D = pool_okD [OF ok]
  have p: "p < n" using block_at_Some [OF b(1)] D(2) by simp
  have other: "cb_tick b' \<noteq> Some t" if "q \<noteq> p" "block_at blocks q = Some b'" for q b'
    using that b D(6) [of t p] D(6) [of t q] by auto
  show ?thesis
    unfolding pool_ok_def
  proof (intro conjI allI)
    show "q \<in> set free \<longleftrightarrow> q < n \<and> ref_at (refs[p := r + 1]) q = 0 \<and>
        block_at (blocks[p := Some (b\<lparr>cb_tick := None\<rparr>)]) q = None" for q
      using D(5) [of q] D(1,2) p b(1) by auto
    show "map_of (om_remove t evict) u = Some q \<longleftrightarrow>
        (\<exists>b'. block_at (blocks[p := Some (b\<lparr>cb_tick := None\<rparr>)]) q = Some b' \<and> cb_tick b' = Some u)" for u q
      using D(2) D(6) [of u q] p other [of q] b(2) by (auto simp: b)
    show "block_at (blocks[p := Some (b\<lparr>cb_tick := None\<rparr>)]) q = Some b' \<longrightarrow>
        (cb_tick b' = None \<longleftrightarrow> 0 < ref_at (refs[p := r + 1]) q)" for q b'
      using D(1,2) D(7) [of q b'] p by auto
    show "index k = Some q \<longleftrightarrow>
        (\<exists>b'. block_at (blocks[p := Some (b\<lparr>cb_tick := None\<rparr>)]) q = Some b' \<and> cb_key b' = k)" for k q
      using D(2) D(8) [of k q] p by (auto simp: b)
    show "map_of (om_remove t evict) u = Some q \<longrightarrow> u < tick" for u q
      using D(9) [of u q] by auto
  qed (use D in auto)
qed

text \<open>Changing a positive count to another positive one.\<close>

lemma pool_count:
  assumes ok: "pool_ok n free refs blocks index evict tick" and r: "0 < ref_at refs p" "0 < r"
  shows "pool_ok n free (refs[p := r]) blocks index evict tick"
proof -
  note D = pool_okD [OF ok]
  have z: "ref_at (refs[p := r]) q = 0 \<longleftrightarrow> ref_at refs q = 0" for q using r by auto
  show ?thesis
    using ok unfolding pool_ok_def by (simp add: z del: ref_at_update) (simp add: z neq0_conv [symmetric] del: ref_at_update neq0_conv)
qed

lemma pool_release_cached:
  assumes ok: "pool_ok n free refs blocks index evict tick" and r: "0 < ref_at refs p" and b: "block_at blocks p = Some b"
  shows "pool_ok n free (refs[p := 0]) (blocks[p := Some (b\<lparr>cb_tick := Some tick\<rparr>)]) index (om_insert tick p evict) (tick + 1)"
proof -
  note D = pool_okD [OF ok]
  have p: "p < n" using block_at_Some [OF b] D(2) by simp
  have fresh: "cb_tick b' \<noteq> Some tick" if "block_at blocks q = Some b'" for q b'
    using that D(6) [of tick q] D(9) [of tick q] by auto
  have bt: "cb_tick b = None" using D(7) [OF b] r by simp
  show ?thesis
    unfolding pool_ok_def
  proof (intro conjI allI)
    show "q \<in> set free \<longleftrightarrow> q < n \<and> ref_at (refs[p := 0]) q = 0 \<and>
        block_at (blocks[p := Some (b\<lparr>cb_tick := Some tick\<rparr>)]) q = None" for q
      using D(5) [of q] D(1,2) p b r by auto
    show "map_of (om_insert tick p evict) u = Some q \<longleftrightarrow>
        (\<exists>b'. block_at (blocks[p := Some (b\<lparr>cb_tick := Some tick\<rparr>)]) q = Some b' \<and> cb_tick b' = Some u)" for u q
      using D(2,4) D(6) [of u q] p fresh [of q] bt by (auto simp: b)
    show "block_at (blocks[p := Some (b\<lparr>cb_tick := Some tick\<rparr>)]) q = Some b' \<longrightarrow>
        (cb_tick b' = None \<longleftrightarrow> 0 < ref_at (refs[p := 0]) q)" for q b'
      using D(1,2) D(7) [of q b'] p by auto
    show "index k = Some q \<longleftrightarrow>
        (\<exists>b'. block_at (blocks[p := Some (b\<lparr>cb_tick := Some tick\<rparr>)]) q = Some b' \<and> cb_key b' = k)" for k q
      using D(2) D(8) [of k q] p by (auto simp: b)
    show "map_of (om_insert tick p evict) u = Some q \<longrightarrow> u < tick + 1" for u q
      using D(4) D(9) [of u q] by auto
  qed (use D in auto)
qed

lemma pool_release_free:
  assumes ok: "pool_ok n free refs blocks index evict tick" and r: "0 < ref_at refs p" and b: "block_at blocks p = None"
  shows "pool_ok n (insort_insert p free) (refs[p := 0]) blocks index evict tick \<and> p \<notin> set free"
proof -
  note D = pool_okD [OF ok]
  have p: "p < n" using r D(1) by (simp add: ref_at_def split: if_splits)
  have "p \<notin> set free" using D(5) r by simp
  moreover have "pool_ok n (insort_insert p free) (refs[p := 0]) blocks index evict tick"
    unfolding pool_ok_def
  proof (intro conjI allI)
    show "q \<in> set (insort_insert p free) \<longleftrightarrow> q < n \<and> ref_at (refs[p := 0]) q = 0 \<and> block_at blocks q = None" for q
      using D(5) [of q] D(1) p b by auto
    show "block_at blocks q = Some b' \<longrightarrow> (cb_tick b' = None \<longleftrightarrow> 0 < ref_at (refs[p := 0]) q)" for q b'
      using D(7) [of q b'] b by auto
  qed (use D bs_ok_insort in auto)
  ultimately show ?thesis by simp
qed

text \<open>Dropping the block of a page that is referenced, and publishing a block for one.\<close>

lemma pool_drop:
  assumes ok: "pool_ok n free refs blocks index evict tick" and r: "0 < ref_at refs p" and b: "block_at blocks p = Some b"
  shows "pool_ok n free refs (blocks[p := None]) (index(cb_key b := None)) evict tick"
proof -
  note D = pool_okD [OF ok]
  have p: "p < n" using block_at_Some [OF b] D(2) by simp
  have bt: "cb_tick b = None" using D(7) [OF b] r by simp
  have other: "cb_key b' \<noteq> cb_key b" if "q \<noteq> p" "block_at blocks q = Some b'" for q b'
    using that b D(8) [of "cb_key b" p] D(8) [of "cb_key b" q] by auto
  show ?thesis
    unfolding pool_ok_def
  proof (intro conjI allI)
    show "q \<in> set free \<longleftrightarrow> q < n \<and> ref_at refs q = 0 \<and> block_at (blocks[p := None]) q = None" for q
      using D(5) [of q] r by auto
    show "map_of evict u = Some q \<longleftrightarrow>
        (\<exists>b'. block_at (blocks[p := None]) q = Some b' \<and> cb_tick b' = Some u)" for u q
      using D(2) D(6) [of u q] p bt by (auto simp: b)
    show "block_at (blocks[p := None]) q = Some b' \<longrightarrow> (cb_tick b' = None \<longleftrightarrow> 0 < ref_at refs q)" for q b'
      using D(7) [of q b'] by auto
    show "(index(cb_key b := None)) k = Some q \<longleftrightarrow>
        (\<exists>b'. block_at (blocks[p := None]) q = Some b' \<and> cb_key b' = k)" for k q
      using D(2) D(8) [of k q] p other [of q] by (auto simp: b)
  qed (use D in auto)
qed

lemma pool_publish:
  assumes ok: "pool_ok n free refs blocks index evict tick" and r: "0 < ref_at refs p"
    and b: "block_at blocks p = None" and k: "index key = None"
  shows "pool_ok n free refs (blocks[p := Some \<lparr>cb_key = key, cb_tick = None\<rparr>]) (index(key \<mapsto> p)) evict tick"
proof -
  note D = pool_okD [OF ok]
  have p: "p < n" using r D(1) by (simp add: ref_at_def split: if_splits)
  have other: "cb_key b' \<noteq> key" if "block_at blocks q = Some b'" for q b'
    using that k D(8) [of key q] by auto
  show ?thesis
    unfolding pool_ok_def
  proof (intro conjI allI)
    show "q \<in> set free \<longleftrightarrow> q < n \<and> ref_at refs q = 0 \<and>
        block_at (blocks[p := Some \<lparr>cb_key = key, cb_tick = None\<rparr>]) q = None" for q
      using D(5) [of q] r by auto
    show "map_of evict u = Some q \<longleftrightarrow>
        (\<exists>b'. block_at (blocks[p := Some \<lparr>cb_key = key, cb_tick = None\<rparr>]) q = Some b' \<and> cb_tick b' = Some u)" for u q
      using D(2) D(6) [of u q] p by (auto simp: b)
    show "block_at (blocks[p := Some \<lparr>cb_key = key, cb_tick = None\<rparr>]) q = Some b' \<longrightarrow>
        (cb_tick b' = None \<longleftrightarrow> 0 < ref_at refs q)" for q b'
      using D(2) D(7) [of q b'] r p by auto
    show "(index(key \<mapsto> p)) k = Some q \<longleftrightarrow>
        (\<exists>b'. block_at (blocks[p := Some \<lparr>cb_key = key, cb_tick = None\<rparr>]) q = Some b' \<and> cb_key b' = k)" for k q
      using D(2) D(8) [of k q] p other [of q] by (auto simp: b)
  qed (use D in auto)
qed

subsection \<open>The page operations\<close>

lemmas pool_inv_ok = pool_inv_def [THEN iffD1]

lemmas pool_inv_okD = pool_okD [OF pool_inv_ok]

text \<open>What the page operations do not touch.\<close>

definition kv_frame :: "paged_kv \<Rightarrow> paged_kv_config \<times> bool \<times> nat \<times> (request_id \<times> sequence_state) list \<times>
    (kv_reservation_id \<times> reservation_state) list \<times> nat" where
  "kv_frame kv = (kv_config kv, kv_prefix_caching kv, kv_reused kv, kv_sequences kv, kv_reservations kv,
     kv_next_reservation kv)"

definition published :: "paged_kv \<Rightarrow> kv_page_id \<Rightarrow> bool" where
  "published kv p \<longleftrightarrow> block_at (kv_blocks kv) p \<noteq> None"

definition kv_room :: "paged_kv \<Rightarrow> nat" where
  "kv_room kv = usize_lim - 1 - kv_next_tick kv"

lemma drop_cached_block_eq:
  assumes "pool_inv kv" "p < cf_num_pages (kv_config kv)"
  shows "drop_cached_block kv p = Some (case block_at (kv_blocks kv) p of
       None \<Rightarrow> kv
     | Some b \<Rightarrow> kv\<lparr>kv_blocks := (kv_blocks kv)[p := None], kv_index := (kv_index kv)(cb_key b := None)\<rparr>)"
proof (cases "block_at (kv_blocks kv) p")
  case (Some b)
  then have "kv_index kv (cb_key b) = Some p"
    using pool_inv_okD(8) [OF assms(1)] by blast
  with Some block_at_Some [OF Some] show ?thesis
    by (simp add: drop_cached_block_def rust_simps Let_def)
next
  case None
  have "p < length (kv_blocks kv)" using assms pool_inv_okD(2) by metis
  with None show ?thesis by (simp add: drop_cached_block_def rust_simps block_at_def)
qed

lemma allocate_page_ok:
  assumes inv: "pool_inv kv" and av: "0 < available_pages kv"
  shows "\<exists>kv' p. allocate_page kv = Some (kv', p) \<and> pool_inv kv' \<and> p < length (kv_refs kv) \<and>
    ref_at (kv_refs kv) p = 0 \<and> kv_refs kv' = (kv_refs kv)[p := 1] \<and> kv_frame kv' = kv_frame kv \<and>
    kv_room kv' = kv_room kv \<and> \<not> published kv' p \<and> (\<forall>q. q \<noteq> p \<longrightarrow> published kv' q = published kv q)"
proof (cases "bs_pop_first (kv_free kv)")
  case (Some x)
  obtain p rest where x: "x = (p, rest)" by (cases x)
  note D = pool_inv_okD [OF inv]
  have pf: "p \<in> set (kv_free kv)" using bs_pop_first_spec [OF D(3)] Some x by auto
  have p: "p < length (kv_refs kv)" "ref_at (kv_refs kv) p = 0" "block_at (kv_blocks kv) p = None"
    using D(5) [of p] pf D(1) by auto
  have "pool_inv (kv\<lparr>kv_free := rest, kv_refs := (kv_refs kv)[p := 1]\<rparr>)"
    using pool_take_free [OF pool_inv_ok [OF inv], of p rest] Some x by (simp add: pool_inv_def)
  moreover have "allocate_page kv = Some (kv\<lparr>kv_free := rest, kv_refs := (kv_refs kv)[p := 1]\<rparr>, p)"
    using Some x p by (simp add: allocate_page_def rust_simps ref_at_def)
  ultimately show ?thesis
    using p by (auto simp: kv_frame_def kv_room_def published_def)
next
  case None
  note D = pool_inv_okD [OF inv]
  have "kv_free kv = []" using None by (simp add: bs_pop_first_def split: list.splits)
  then obtain t p rest where e: "kv_evictable kv = (t, p) # rest"
    using av by (cases "kv_evictable kv") (auto simp: available_pages_def)
  then have pop: "om_pop_first (kv_evictable kv) = Some ((t, p), rest)" by (simp add: om_pop_first_def)
  have rest: "rest = om_remove t (kv_evictable kv)" and t: "map_of (kv_evictable kv) t = Some p"
    using om_pop_first_spec [OF D(4) pop] by auto
  obtain b where b: "block_at (kv_blocks kv) p = Some b" "cb_tick b = Some t" using D(6) t by blast
  have p: "p < length (kv_refs kv)" using block_at_Some [OF b(1)] D(1,2) by simp
  have r0: "ref_at (kv_refs kv) p = 0" using D(7) [OF b(1)] b(2) by simp
  have ix: "kv_index kv (cb_key b) = Some p" using D(8) b(1) by blast
  let ?kv = "kv\<lparr>kv_evictable := rest, kv_blocks := (kv_blocks kv)[p := None],
     kv_index := (kv_index kv)(cb_key b := None), kv_refs := (kv_refs kv)[p := 1]\<rparr>"
  have "allocate_page kv = Some (?kv, p)"
    using None pop b block_at_Some [OF b(1)] p r0 ix
    by (simp add: allocate_page_def drop_cached_block_def rust_simps Let_def ref_at_def)
  moreover have "pool_inv ?kv"
    using pool_take_evictable [OF pool_inv_ok [OF inv] b] by (simp add: pool_inv_def rest)
  ultimately show ?thesis
    using p r0 block_at_Some [OF b(1)] by (auto simp: kv_frame_def kv_room_def published_def)
qed

lemma release_page_ok:
  assumes inv: "pool_inv kv" and r: "0 < ref_at (kv_refs kv) p" and room: "0 < kv_room kv"
  shows "\<exists>kv'. release_page kv p = Some kv' \<and> pool_inv kv' \<and>
    kv_refs kv' = (kv_refs kv)[p := ref_at (kv_refs kv) p - 1] \<and> kv_frame kv' = kv_frame kv \<and>
    kv_room kv \<le> Suc (kv_room kv') \<and> (\<forall>q. 0 < ref_at (kv_refs kv') q \<longrightarrow> published kv' q = published kv q)"
proof -
  note D = pool_inv_okD [OF inv] and P = pool_inv_ok [OF inv]
  have p: "p < length (kv_refs kv)" "p < length (kv_blocks kv)" "ref_at (kv_refs kv) p = kv_refs kv ! p"
    using r D(1,2) by (auto simp: ref_at_def split: if_splits)
  let ?refs = "(kv_refs kv)[p := kv_refs kv ! p - 1]"
  consider (shared) "1 < kv_refs kv ! p"
    | (cached) b where "kv_refs kv ! p = 1" "block_at (kv_blocks kv) p = Some b" "kv_prefix_caching kv"
    | (dropped) b where "kv_refs kv ! p = 1" "block_at (kv_blocks kv) p = Some b" "\<not> kv_prefix_caching kv"
    | (plain) "kv_refs kv ! p = 1" "block_at (kv_blocks kv) p = None"
    using r p(3) by (cases "block_at (kv_blocks kv) p"; cases "kv_prefix_caching kv"; cases "kv_refs kv ! p = 1") auto
  then show ?thesis
  proof cases
    case shared
    then have "release_page kv p = Some (kv\<lparr>kv_refs := ?refs\<rparr>)"
      using p by (simp add: release_page_def rust_simps Let_def)
    moreover have "pool_inv (kv\<lparr>kv_refs := ?refs\<rparr>)"
      using pool_count [OF P r, of "kv_refs kv ! p - 1"] shared by (simp add: pool_inv_def)
    ultimately show ?thesis by (simp add: p kv_frame_def kv_room_def published_def)
  next
    case (cached b)
    have tick: "kv_next_tick kv + 1 < usize_lim" using room by (simp add: kv_room_def)
    let ?kv = "kv\<lparr>kv_refs := (kv_refs kv)[p := 0], kv_next_tick := kv_next_tick kv + 1,
       kv_blocks := (kv_blocks kv)[p := Some (b\<lparr>cb_tick := Some (kv_next_tick kv)\<rparr>)],
       kv_evictable := om_insert (kv_next_tick kv) p (kv_evictable kv)\<rparr>"
    have "release_page kv p = Some ?kv"
      using cached p tick block_at_Some [OF cached(2)] by (simp add: release_page_def rust_simps Let_def)
    moreover have "pool_inv ?kv"
      using pool_release_cached [OF P r cached(2)] by (simp add: pool_inv_def)
    ultimately show ?thesis
      using cached p room by (auto simp: kv_frame_def kv_room_def published_def)
  next
    case (dropped b)
    have ix: "kv_index kv (cb_key b) = Some p" using D(8) dropped(2) by blast
    note P1 = pool_drop [OF P r dropped(2)]
    have nb: "block_at ((kv_blocks kv)[p := None]) p = None" using p by simp
    note P2 = pool_release_free [OF P1 r nb]
    let ?kv = "kv\<lparr>kv_refs := (kv_refs kv)[p := 0], kv_blocks := (kv_blocks kv)[p := None],
       kv_index := (kv_index kv)(cb_key b := None), kv_free := insort_insert p (kv_free kv)\<rparr>"
    have "release_page kv p = Some ?kv"
      using dropped p ix P2 block_at_Some [OF dropped(2)]
      by (simp add: release_page_def drop_cached_block_def rust_simps Let_def bs_insert_def)
    moreover have "pool_inv ?kv" using P2 by (simp add: pool_inv_def)
    ultimately show ?thesis
      using dropped p by (auto simp: kv_frame_def kv_room_def published_def)
  next
    case plain
    note P2 = pool_release_free [OF P r plain(2)]
    let ?kv = "kv\<lparr>kv_refs := (kv_refs kv)[p := 0], kv_free := insort_insert p (kv_free kv)\<rparr>"
    have "release_page kv p = Some ?kv"
      using plain p P2
      by (simp add: release_page_def drop_cached_block_def rust_simps Let_def bs_insert_def block_at_def)
    moreover have "pool_inv ?kv" using P2 by (simp add: pool_inv_def)
    ultimately show ?thesis
      using plain p by (auto simp: kv_frame_def kv_room_def published_def)
  qed
qed

lemma acquire_cached_ok:
  assumes inv: "pool_inv kv" and ix: "kv_index kv k = Some p" and lim: "ref_at (kv_refs kv) p + 1 < u32_lim"
  shows "\<exists>kv'. acquire_cached kv p = Some kv' \<and> pool_inv kv' \<and> p < length (kv_refs kv) \<and>
    kv_refs kv' = (kv_refs kv)[p := ref_at (kv_refs kv) p + 1] \<and> kv_frame kv' = kv_frame kv \<and>
    kv_room kv' = kv_room kv \<and> kv_index kv' = kv_index kv \<and> published kv p \<and>
    (\<forall>q. published kv' q = published kv q)"
proof -
  note D = pool_inv_okD [OF inv] and P = pool_inv_ok [OF inv]
  obtain b where b: "block_at (kv_blocks kv) p = Some b" using D(8) ix by blast
  have p: "p < length (kv_refs kv)" "p < length (kv_blocks kv)" "ref_at (kv_refs kv) p = kv_refs kv ! p"
    "kv_blocks kv ! p = Some b"
    using block_at_Some [OF b] D(1,2) by (auto simp: ref_at_def)
  show ?thesis
  proof (cases "kv_refs kv ! p = 0")
    case True
    then obtain t where t: "cb_tick b = Some t" using D(7) [OF b] p(3) by auto
    let ?kv = "kv\<lparr>kv_blocks := (kv_blocks kv)[p := Some (b\<lparr>cb_tick := None\<rparr>)],
       kv_evictable := om_remove t (kv_evictable kv), kv_refs := (kv_refs kv)[p := 1]\<rparr>"
    have "acquire_cached kv p = Some ?kv"
      using p t True lim by (simp add: acquire_cached_def rust_simps)
    moreover have "pool_inv ?kv"
      using pool_acquire [OF P b t, of 0] by (simp add: pool_inv_def)
    ultimately show ?thesis
      using p b True by (auto simp: kv_frame_def kv_room_def published_def)
  next
    case False
    let ?kv = "kv\<lparr>kv_refs := (kv_refs kv)[p := kv_refs kv ! p + 1]\<rparr>"
    have "acquire_cached kv p = Some ?kv"
      using p False lim by (simp add: acquire_cached_def rust_simps)
    moreover have "pool_inv ?kv"
      using pool_count [OF P, of p "kv_refs kv ! p + 1"] False p by (simp add: pool_inv_def)
    ultimately show ?thesis
      using p b by (auto simp: kv_frame_def kv_room_def published_def)
  qed
qed

subsection \<open>The interface of the page pool\<close>

text \<open>
  What a client of the pool relies on: an allocation takes an unreferenced page, makes its count
  1 and leaves it unpublished; a release lowers the count of a referenced page; neither touches
  the client's part of the state, nor the publication of pages still referenced.
\<close>

locale page_pool =
  fixes alloc :: "'s \<Rightarrow> ('s \<times> nat) option"
    and allocs :: "nat \<Rightarrow> 's \<Rightarrow> ('s \<times> nat list) option"
    and free1 :: "'s \<Rightarrow> nat \<Rightarrow> 's option"
    and frees :: "nat list \<Rightarrow> 's \<Rightarrow> 's option"
    and refs :: "'s \<Rightarrow> nat list"
    and avail :: "'s \<Rightarrow> nat"
    and room :: "'s \<Rightarrow> nat"
    and pub :: "'s \<Rightarrow> nat \<Rightarrow> bool"
    and frame :: "'s \<Rightarrow> 'f"
    and inv :: "'s \<Rightarrow> bool"
  assumes alloc_ok: "inv s \<Longrightarrow> 0 < avail s \<Longrightarrow>
      \<exists>s' p. alloc s = Some (s', p) \<and> inv s' \<and> p < length (refs s) \<and> ref_at (refs s) p = 0 \<and>
        refs s' = (refs s)[p := 1] \<and> frame s' = frame s \<and> room s' = room s \<and> \<not> pub s' p \<and>
        (\<forall>q. q \<noteq> p \<longrightarrow> pub s' q = pub s q)"
    and free1_ok: "inv s \<Longrightarrow> 0 < ref_at (refs s) p \<Longrightarrow> 0 < room s \<Longrightarrow>
      \<exists>s'. free1 s p = Some s' \<and> inv s' \<and> refs s' = (refs s)[p := ref_at (refs s) p - 1] \<and>
        frame s' = frame s \<and> room s \<le> Suc (room s') \<and>
        (\<forall>q. 0 < ref_at (refs s') q \<longrightarrow> pub s' q = pub s q)"
    and avail_eq: "inv s \<Longrightarrow> avail s = card {p. p < length (refs s) \<and> ref_at (refs s) p = 0}"
    and allocs_0: "allocs 0 s = Some (s, [])"
    and allocs_Suc: "alloc s = Some (s1, p) \<Longrightarrow> allocs n s1 = Some (s2, ps) \<Longrightarrow> allocs (Suc n) s = Some (s2, p # ps)"
    and frees_Nil: "frees [] s = Some s"
    and frees_Cons: "free1 s p = Some s1 \<Longrightarrow> frees ps s1 = Some s2 \<Longrightarrow> frees (p # ps) s = Some s2"
begin

lemma avail_alloc:
  assumes "inv s" "inv s'" "p < length (refs s)" "ref_at (refs s) p = 0" "refs s' = (refs s)[p := 1]"
  shows "avail s' = avail s - 1"
proof -
  have "{q. q < length (refs s') \<and> ref_at (refs s') q = 0} = {q. q < length (refs s) \<and> ref_at (refs s) q = 0} - {p}"
    using assms(3,5) by auto
  then show ?thesis using assms by (simp add: avail_eq)
qed

text \<open>Allocating \<open>n\<close> pages gives \<open>n\<close> distinct unreferenced, now singly referenced pages.\<close>

lemma allocs_ok:
  assumes "inv s" "n \<le> avail s"
  shows "\<exists>s' ps. allocs n s = Some (s', ps) \<and> inv s' \<and> length ps = n \<and> distinct ps \<and>
    (\<forall>p \<in> set ps. p < length (refs s) \<and> ref_at (refs s) p = 0 \<and> \<not> pub s' p) \<and>
    length (refs s') = length (refs s) \<and> (\<forall>q. ref_at (refs s') q = (if q \<in> set ps then 1 else ref_at (refs s) q)) \<and>
    frame s' = frame s \<and> room s' = room s \<and> (\<forall>q. q \<notin> set ps \<longrightarrow> pub s' q = pub s q)"
  using assms
proof (induction n arbitrary: s)
  case 0
  then show ?case by (simp add: allocs_0)
next
  case (Suc n)
  then obtain s1 p where s1: "alloc s = Some (s1, p)" "inv s1" "p < length (refs s)" "ref_at (refs s) p = 0"
    "refs s1 = (refs s)[p := 1]" "frame s1 = frame s" "room s1 = room s" "\<not> pub s1 p" "\<forall>q. q \<noteq> p \<longrightarrow> pub s1 q = pub s q"
    using alloc_ok [of s] by auto
  have "n \<le> avail s1" using avail_alloc [OF Suc.prems(1) s1(2-5)] Suc.prems(2) by simp
  from Suc.IH [OF s1(2) this] obtain s2 ps where s2: "allocs n s1 = Some (s2, ps)" "inv s2" "length ps = n" "distinct ps"
    "\<forall>q \<in> set ps. q < length (refs s1) \<and> ref_at (refs s1) q = 0 \<and> \<not> pub s2 q"
    "length (refs s2) = length (refs s1)" "\<forall>q. ref_at (refs s2) q = (if q \<in> set ps then 1 else ref_at (refs s1) q)"
    "frame s2 = frame s1" "room s2 = room s1" "\<forall>q. q \<notin> set ps \<longrightarrow> pub s2 q = pub s1 q" by blast
  have "p \<notin> set ps" using s2(5) s1(3,5) by auto
  moreover have "ref_at (refs s) q = 0" if "q \<in> set ps" for q
    using s2(5) that s1(5) \<open>p \<notin> set ps\<close> by (auto split: if_splits)
  ultimately show ?case
    using allocs_Suc [OF s1(1) s2(1)] s1 s2 by (intro exI [of _ s2] exI [of _ "p # ps"]) auto
qed

text \<open>Releasing a list of pages lowers each count by the number of its occurrences.\<close>

lemma frees_ok:
  assumes "inv s" "\<And>p. count_list ps p \<le> ref_at (refs s) p" "length ps \<le> room s"
  shows "\<exists>s'. frees ps s = Some s' \<and> inv s' \<and> length (refs s') = length (refs s) \<and>
    (\<forall>q. ref_at (refs s') q = ref_at (refs s) q - count_list ps q) \<and> frame s' = frame s \<and>
    room s \<le> room s' + length ps \<and> (\<forall>q. 0 < ref_at (refs s') q \<longrightarrow> pub s' q = pub s q)"
  using assms
proof (induction ps arbitrary: s)
  case Nil
  then show ?case by (simp add: frees_Nil)
next
  case (Cons p ps)
  have rp: "0 < ref_at (refs s) p" using Cons.prems(2) [of p] by simp
  then have pl: "p < length (refs s)" by (simp add: ref_at_def split: if_splits)
  obtain s1 where s1: "free1 s p = Some s1" "inv s1" "refs s1 = (refs s)[p := ref_at (refs s) p - 1]"
    "frame s1 = frame s" "room s \<le> Suc (room s1)" "\<forall>q. 0 < ref_at (refs s1) q \<longrightarrow> pub s1 q = pub s q"
    using free1_ok [OF Cons.prems(1) rp] Cons.prems(3) by auto
  have cnt: "count_list ps q \<le> ref_at (refs s1) q" for q
    using Cons.prems(2) [of q] s1(3) pl by (auto split: if_splits)
  have rm: "length ps \<le> room s1" using Cons.prems(3) s1(5) by simp
  from Cons.IH [OF s1(2) cnt rm] obtain s2 where s2: "frees ps s1 = Some s2" "inv s2"
    "length (refs s2) = length (refs s1)" "\<forall>q. ref_at (refs s2) q = ref_at (refs s1) q - count_list ps q"
    "frame s2 = frame s1" "room s1 \<le> room s2 + length ps"
    "\<forall>q. 0 < ref_at (refs s2) q \<longrightarrow> pub s2 q = pub s1 q" by blast
  have "0 < ref_at (refs s1) q" if "0 < ref_at (refs s2) q" for q using that s2(4) by simp
  then show ?case
    using frees_Cons [OF s1(1) s2(1)] s1 s2 pl by (intro exI [of _ s2]) auto
qed

end

interpretation kvp: page_pool allocate_page allocate_pages release_page release_pages kv_refs available_pages
  kv_room published kv_frame pool_inv
proof
  fix s assume "pool_inv s"
  then show "available_pages s = card {p. p < length (kv_refs s) \<and> ref_at (kv_refs s) p = 0}"
    using pool_available [OF pool_inv_ok] pool_inv_okD(1) by (simp add: available_pages_def)
qed (assumption | rule allocate_page_ok release_page_ok | simp add: release_pages_def)+

end
