(* ===== verification/Paged_Kv_Inv.thy ===== *)
theory Paged_Kv_Inv
  imports Paged_Kv_Pool
begin

text \<open>
  The invariant of the whole KV cache manager: the reference count of a page is the number of
  times the block tables map it, every sequence has exactly the pages its length needs, pending
  appends and reservations correspond, and the pages a sequence may still write are its own.
\<close>

subsection \<open>The invariant\<close>

definition page_total :: "(request_id \<times> sequence_state) list \<Rightarrow> kv_page_id \<Rightarrow> nat" where
  "page_total seqs p = om.total (\<lambda>_ s. count_list (sq_pages s) p) seqs"

definition pages_of :: "sequence_state option \<Rightarrow> kv_page_id list" where
  "pages_of s = (case s of Some s' \<Rightarrow> sq_pages s' | None \<Rightarrow> [])"

text \<open>The pages from the first block not yet registered on are referenced once and not published.\<close>

definition tail_private :: "paged_kv \<Rightarrow> sequence_state \<Rightarrow> bool" where
  "tail_private kv s \<longleftrightarrow>
     (\<forall>i. sq_registered s \<le> i \<and> i < length (sq_pages s) \<longrightarrow>
        ref_at (kv_refs kv) (sq_pages s ! i) = 1 \<and> \<not> published kv (sq_pages s ! i))"

definition pending_ok :: "paged_kv \<Rightarrow> request_id \<Rightarrow> sequence_state \<Rightarrow> bool" where
  "pending_ok kv r s \<longleftrightarrow>
     (let bs = cf_block_size (kv_config kv) in
      case sq_pending s of
        None \<Rightarrow> length (sq_pages s) = div_ceil (sq_committed s) bs
      | Some rid \<Rightarrow>
          (case map_of (kv_reservations kv) rid of
             None \<Rightarrow> False
           | Some rv \<Rightarrow> rv_request rv = r \<and> rv_start rv = sq_committed s \<and> 0 < rv_tokens rv \<and>
               rv_start rv + rv_tokens rv \<le> cf_max_sequence_length (kv_config kv) \<and>
               rv_previous_pages rv = div_ceil (sq_committed s) bs \<and>
               length (sq_pages s) = div_ceil (rv_start rv + rv_tokens rv) bs))"

definition seq_ok :: "paged_kv \<Rightarrow> request_id \<Rightarrow> sequence_state \<Rightarrow> bool" where
  "seq_ok kv r s \<longleftrightarrow> sq_committed s \<le> cf_max_sequence_length (kv_config kv) \<and>
     sq_registered s * cf_block_size (kv_config kv) \<le> sq_committed s \<and>
     pending_ok kv r s \<and> tail_private kv s"

definition config_ok :: "paged_kv_config \<Rightarrow> bool" where
  "config_ok c \<longleftrightarrow> config_validate c = Inr () \<and> cf_max_sequence_length c < usize_lim"

definition kv_inv :: "paged_kv \<Rightarrow> bool" where
  "kv_inv kv \<longleftrightarrow> pool_inv kv \<and> config_ok (kv_config kv) \<and>
     om_ok (kv_sequences kv) \<and> om_ok (kv_reservations kv) \<and> kv_next_reservation kv < usize_lim \<and>
     (\<forall>p. ref_at (kv_refs kv) p = page_total (kv_sequences kv) p) \<and>
     (\<forall>r s. map_of (kv_sequences kv) r = Some s \<longrightarrow> seq_ok kv r s) \<and>
     (\<forall>rid rv. map_of (kv_reservations kv) rid = Some rv \<longrightarrow>
        reservation_num rid < kv_next_reservation kv \<and>
        (\<exists>s. map_of (kv_sequences kv) (rv_request rv) = Some s \<and> sq_pending s = Some rid))"

lemma kv_invD:
  assumes "kv_inv kv"
  shows "pool_inv kv" "config_ok (kv_config kv)" "om_ok (kv_sequences kv)" "om_ok (kv_reservations kv)"
    "kv_next_reservation kv < usize_lim" "ref_at (kv_refs kv) p = page_total (kv_sequences kv) p"
    "map_of (kv_sequences kv) r = Some s \<Longrightarrow> seq_ok kv r s"
    "map_of (kv_reservations kv) rid = Some rv \<Longrightarrow> reservation_num rid < kv_next_reservation kv"
    "map_of (kv_reservations kv) rid = Some rv \<Longrightarrow>
       \<exists>s. map_of (kv_sequences kv) (rv_request rv) = Some s \<and> sq_pending s = Some rid"
  using assms unfolding kv_inv_def by blast+

lemma config_okD:
  assumes "config_ok c"
  shows "0 < cf_block_size c" "0 < cf_num_pages c" "cf_num_pages c < u32_lim" "cf_max_sequence_length c < usize_lim"
    "0 < cf_max_sequence_length c"
  using assms by (auto simp: config_ok_def config_validate_def u32_lim_def split: if_splits)

subsection \<open>Counting\<close>

lemma count_list_distinct: "distinct xs \<Longrightarrow> count_list xs x = (if x \<in> set xs then 1 else 0)"
  by (induction xs) auto

lemma count_list_take_drop: "count_list (take k xs) x + count_list (drop k xs) x = count_list xs x"
  by (metis append_take_drop_id count_list_append)

lemma count_list_pos: "x \<in> set xs \<longleftrightarrow> 0 < count_list xs x"
  by (induction xs) auto

lemma count_list_two:
  assumes "i < j" "j < length xs" "xs ! i = x" "xs ! j = x"
  shows "2 \<le> count_list xs x"
proof -
  have "x \<in> set (take j xs)" using assms by (auto simp: in_set_conv_nth)
  moreover have "x \<in> set (drop j xs)" using assms(2,4) by (metis Cons_nth_drop_Suc list.set_intros(1))
  ultimately have "0 < count_list (take j xs) x" "0 < count_list (drop j xs) x"
    by (simp_all add: count_list_pos)
  then show ?thesis using count_list_take_drop [of j xs x] by linarith
qed

lemma page_total_ge: "om_ok seqs \<Longrightarrow> map_of seqs r = Some s \<Longrightarrow> count_list (sq_pages s) p \<le> page_total seqs p"
  unfolding page_total_def by (rule om.total_ge [where f = "\<lambda>_ s. count_list (sq_pages s) p"])

lemma page_total_ge2:
  "om_ok seqs \<Longrightarrow> map_of seqs r = Some s \<Longrightarrow> map_of seqs r' = Some s' \<Longrightarrow> r \<noteq> r' \<Longrightarrow>
   count_list (sq_pages s) p + count_list (sq_pages s') p \<le> page_total seqs p"
  unfolding page_total_def by (rule om.total_ge2 [where f = "\<lambda>_ s. count_list (sq_pages s) p"])

lemma page_total_change:
  assumes "om_ok seqs" "om_ok seqs'" "\<And>r'. map_of seqs' r' = (if r' = r then new else map_of seqs r')"
  shows "page_total seqs' p + count_list (pages_of (map_of seqs r)) p = page_total seqs p + count_list (pages_of new) p"
proof (cases new)
  case None
  have "seqs' = om_remove r seqs"
    by (rule om.entries_ext) (auto simp: assms None)
  then show ?thesis
    using om.total_rem [OF assms(1), of "\<lambda>_ s. count_list (sq_pages s) p" r] None
    by (auto simp: page_total_def pages_of_def split: option.splits)
next
  case (Some s)
  have "seqs' = om_insert r s seqs"
    by (rule om.entries_ext) (auto simp: assms Some)
  then show ?thesis
    using om.total_ins [OF assms(1), of "\<lambda>_ s. count_list (sq_pages s) p" r s] Some
    by (auto simp: page_total_def pages_of_def split: option.splits)
qed

subsection \<open>Changing one sequence\<close>

lemma tail_private_transfer:
  assumes inv: "kv_inv kv" and s: "map_of (kv_sequences kv) r = Some s" and tp: "tail_private kv s"
    and cfg: "kv_config kv' = kv_config kv"
    and same: "\<And>q. q \<in> set (sq_pages s) \<Longrightarrow> ref_at (kv_refs kv) q = 1 \<Longrightarrow> \<not> published kv q \<Longrightarrow>
      ref_at (kv_refs kv') q = 1 \<and> \<not> published kv' q"
  shows "tail_private kv' s"
  using tp same by (auto simp: tail_private_def cfg)

lemma kv_inv_change:
  assumes inv: "kv_inv kv" and pool: "pool_inv kv'" and cfg: "kv_config kv' = kv_config kv"
    and seqs: "om_ok (kv_sequences kv')"
      "\<And>r'. map_of (kv_sequences kv') r' = (if r' = r then new else map_of (kv_sequences kv) r')"
    and res: "om_ok (kv_reservations kv')"
    and keep: "\<And>rid rv. map_of (kv_reservations kv) rid = Some rv \<Longrightarrow> rv_request rv \<noteq> r \<Longrightarrow>
      map_of (kv_reservations kv') rid = Some rv"
    and bk: "\<And>rid rv. map_of (kv_reservations kv') rid = Some rv \<Longrightarrow>
      (if rv_request rv = r
       then (\<exists>s. new = Some s \<and> sq_pending s = Some rid) \<and> reservation_num rid < kv_next_reservation kv'
       else map_of (kv_reservations kv) rid = Some rv)"
    and nxt: "kv_next_reservation kv \<le> kv_next_reservation kv'" "kv_next_reservation kv' < usize_lim"
    and old: "old = map_of (kv_sequences kv) r"
    and refs: "\<And>q. ref_at (kv_refs kv') q + count_list (pages_of old) q =
      ref_at (kv_refs kv) q + count_list (pages_of new) q"
    and pages: "\<And>q. q \<in> set (pages_of new) \<Longrightarrow>
      q \<in> set (pages_of old) \<or> ref_at (kv_refs kv) q = 0 \<or> published kv q"
    and pub: "\<And>q. 0 < ref_at (kv_refs kv) q \<Longrightarrow> 0 < ref_at (kv_refs kv') q \<Longrightarrow> published kv' q \<Longrightarrow>
      published kv q \<or> q \<in> set (pages_of old)"
    and new_ok: "\<And>s. new = Some s \<Longrightarrow> seq_ok kv' r s"
  shows "kv_inv kv'"
proof -
  note D = kv_invD [OF inv]
  have total: "ref_at (kv_refs kv') p = page_total (kv_sequences kv') p" for p
    using page_total_change [OF D(3) seqs, of p] refs [of p] D(6) [of p] by (simp add: old)
  have seq: "seq_ok kv' r' s" if s: "map_of (kv_sequences kv') r' = Some s" for r' s
  proof (cases "r' = r")
    case True
    with s seqs(2) new_ok show ?thesis by auto
  next
    case False
    with s seqs(2) have s0: "map_of (kv_sequences kv) r' = Some s" by simp
    note ok = D(7) [OF s0]
    have "tail_private kv' s"
    proof (rule tail_private_transfer [OF inv s0 _ cfg])
      show "tail_private kv s" using ok by (simp add: seq_ok_def)
      fix q assume q: "q \<in> set (sq_pages s)" "ref_at (kv_refs kv) q = 1" "\<not> published kv q"
      have "count_list (pages_of old) q = 0"
      proof (cases old)
        case (Some s1)
        then show ?thesis
          using page_total_ge2 [OF D(3) s0, of r s1 q] False old D(6) [of q] q count_list_pos [of q "sq_pages s"]
          by (simp add: pages_of_def)
      qed (simp add: pages_of_def)
      moreover from this have "q \<notin> set (pages_of old)" by (simp add: count_list_pos)
      moreover from this have "q \<notin> set (pages_of new)" using pages [of q] q by auto
      then have "count_list (pages_of new) q = 0" by (simp add: count_notin)
      ultimately show "ref_at (kv_refs kv') q = 1 \<and> \<not> published kv' q"
        using refs [of q] pub [of q] q by auto
    qed
    moreover have "pending_ok kv' r' s"
      using ok keep False by (auto simp: seq_ok_def pending_ok_def Let_def cfg split: option.splits)
    ultimately show ?thesis using ok by (simp add: seq_ok_def cfg)
  qed
  have resv: "reservation_num rid < kv_next_reservation kv' \<and>
      (\<exists>s. map_of (kv_sequences kv') (rv_request rv) = Some s \<and> sq_pending s = Some rid)"
    if "map_of (kv_reservations kv') rid = Some rv" for rid rv
    using bk [OF that] D(8) [of rid rv] D(9) [of rid rv] nxt(1) seqs(2) by (auto split: if_splits)
  show ?thesis
    unfolding kv_inv_def using pool D(2) cfg seqs(1) res nxt(2) total seq resv by simp
qed

end
