(* ===== verification/Paged_Kv_Ops.thy ===== *)
theory Paged_Kv_Ops
  imports Paged_Kv_Inv
begin

text \<open>
  Every operation of the KV cache manager keeps the invariant, does not panic under it, and
  leaves the manager unchanged when it reports an error.
\<close>

subsection \<open>Frames\<close>

lemma kv_frameD:
  assumes "kv_frame kv' = kv_frame kv"
  shows "kv_config kv' = kv_config kv" "kv_prefix_caching kv' = kv_prefix_caching kv"
    "kv_reused kv' = kv_reused kv" "kv_sequences kv' = kv_sequences kv"
    "kv_reservations kv' = kv_reservations kv" "kv_next_reservation kv' = kv_next_reservation kv"
  using assms by (simp_all add: kv_frame_def)

lemma pool_client_simps [simp]:
  "pool_inv (kv\<lparr>kv_sequences := a\<rparr>) = pool_inv kv"
  "pool_inv (kv\<lparr>kv_reservations := b\<rparr>) = pool_inv kv"
  "pool_inv (kv\<lparr>kv_next_reservation := c\<rparr>) = pool_inv kv"
  "pool_inv (kv\<lparr>kv_reused := d\<rparr>) = pool_inv kv"
  "pool_inv (kv\<lparr>kv_prefix_caching := e\<rparr>) = pool_inv kv"
  "published (kv\<lparr>kv_sequences := a\<rparr>) = published kv"
  "published (kv\<lparr>kv_reservations := b\<rparr>) = published kv"
  "published (kv\<lparr>kv_next_reservation := c\<rparr>) = published kv"
  "published (kv\<lparr>kv_reused := d\<rparr>) = published kv"
  "published (kv\<lparr>kv_prefix_caching := e\<rparr>) = published kv"
  "kv_room (kv\<lparr>kv_sequences := a\<rparr>) = kv_room kv"
  "kv_room (kv\<lparr>kv_reservations := b\<rparr>) = kv_room kv"
  "kv_room (kv\<lparr>kv_next_reservation := c\<rparr>) = kv_room kv"
  "kv_room (kv\<lparr>kv_reused := d\<rparr>) = kv_room kv"
  "available_pages (kv\<lparr>kv_next_reservation := c\<rparr>) = available_pages kv"
  "available_pages (kv\<lparr>kv_sequences := a\<rparr>) = available_pages kv"
  "available_pages (kv\<lparr>kv_reservations := b\<rparr>) = available_pages kv"
  by (simp_all add: pool_inv_def published_def kv_room_def available_pages_def fun_eq_iff)

text \<open>What an operation may consume of the counters that only grow.\<close>

definition kv_spent :: "nat \<Rightarrow> paged_kv \<Rightarrow> paged_kv \<Rightarrow> bool" where
  "kv_spent n kv kv' \<longleftrightarrow> kv_room kv \<le> kv_room kv' + n \<and>
     kv_next_reservation kv' \<le> kv_next_reservation kv + n \<and> kv_reused kv' \<le> kv_reused kv + n"

lemma kv_spent_trans: "kv_spent m kv kv1 \<Longrightarrow> kv_spent n kv1 kv2 \<Longrightarrow> kv_spent (m + n) kv kv2"
  by (simp add: kv_spent_def)

lemma kv_spent_mono: "kv_spent m kv kv' \<Longrightarrow> m \<le> n \<Longrightarrow> kv_spent n kv kv'"
  by (simp add: kv_spent_def)

lemma set_sequence_fields [simp]:
  "kv_sequences (set_sequence kv r s) = om_insert r s (kv_sequences kv)"
  "kv_config (set_sequence kv r s) = kv_config kv" "kv_refs (set_sequence kv r s) = kv_refs kv"
  "kv_reservations (set_sequence kv r s) = kv_reservations kv"
  "kv_next_reservation (set_sequence kv r s) = kv_next_reservation kv"
  "kv_prefix_caching (set_sequence kv r s) = kv_prefix_caching kv"
  "kv_index (set_sequence kv r s) = kv_index kv" "kv_reused (set_sequence kv r s) = kv_reused kv"
  "pool_inv (set_sequence kv r s) = pool_inv kv" "published (set_sequence kv r s) = published kv"
  "kv_room (set_sequence kv r s) = kv_room kv"
  by (simp_all add: set_sequence_def)

lemma pages_referenced:
  assumes "kv_inv kv" "map_of (kv_sequences kv) r = Some s"
  shows "count_list (sq_pages s) q \<le> ref_at (kv_refs kv) q"
  using page_total_ge [OF kv_invD(3) [OF assms(1)] assms(2)] kv_invD(6) [OF assms(1)] by simp

lemma seq_length:
  assumes "kv_inv kv" "map_of (kv_sequences kv) r = Some s"
  shows "div_ceil (sq_committed s) (cf_block_size (kv_config kv)) \<le> length (sq_pages s)"
    "length (sq_pages s) \<le> cf_max_sequence_length (kv_config kv)"
    "sq_pending s = None \<Longrightarrow> length (sq_pages s) = div_ceil (sq_committed s) (cf_block_size (kv_config kv))"
proof -
  have bs: "0 < cf_block_size (kv_config kv)" using kv_invD(2) [OF assms(1)] by (rule config_okD)
  have le: "div_ceil a (cf_block_size (kv_config kv)) \<le> m" if "a \<le> m" for a m
    using bs that by (simp add: div_ceil_le_iff) (metis mult_le_mono2 nat_mult_1_right le_trans Suc_leI One_nat_def)
  have ok: "seq_ok kv r s" using kv_invD(7) [OF assms] .
  show "div_ceil (sq_committed s) (cf_block_size (kv_config kv)) \<le> length (sq_pages s)"
    using ok bs by (auto simp: seq_ok_def pending_ok_def Let_def intro: div_ceil_mono split: option.splits)
  show "length (sq_pages s) \<le> cf_max_sequence_length (kv_config kv)"
    using ok by (auto simp: seq_ok_def pending_ok_def Let_def split: option.splits intro: le)
  show "length (sq_pages s) = div_ceil (sq_committed s) (cf_block_size (kv_config kv))" if "sq_pending s = None"
    using ok that by (simp add: seq_ok_def pending_ok_def Let_def)
qed

lemma pending_reservation:
  assumes "kv_inv kv" "map_of (kv_reservations kv) rid = Some rv"
  shows "\<exists>s. map_of (kv_sequences kv) (rv_request rv) = Some s \<and> sq_pending s = Some rid \<and>
    rv_start rv = sq_committed s \<and> 0 < rv_tokens rv \<and>
    rv_start rv + rv_tokens rv \<le> cf_max_sequence_length (kv_config kv) \<and>
    rv_previous_pages rv = div_ceil (sq_committed s) (cf_block_size (kv_config kv)) \<and>
    length (sq_pages s) = div_ceil (rv_start rv + rv_tokens rv) (cf_block_size (kv_config kv))"
proof -
  obtain s where s: "map_of (kv_sequences kv) (rv_request rv) = Some s" "sq_pending s = Some rid"
    using kv_invD(9) [OF assms] by auto
  have "seq_ok kv (rv_request rv) s" using kv_invD(7) [OF assms(1) s(1)] .
  with s assms(2) show ?thesis by (simp add: seq_ok_def pending_ok_def Let_def)
qed

text \<open>Under the invariant a reservation is valid exactly when it exists.\<close>

lemma validate_reservation_eq:
  assumes "kv_inv kv"
  shows "validate_reservation kv rid =
    (if map_of (kv_reservations kv) rid = None then Inl (ReservationMissing rid) else Inr ())"
proof (cases "map_of (kv_reservations kv) rid")
  case (Some rv)
  obtain s where s: "map_of (kv_sequences kv) (rv_request rv) = Some s" "sq_pending s = Some rid"
    "rv_start rv = sq_committed s" "rv_start rv + rv_tokens rv \<le> cf_max_sequence_length (kv_config kv)"
    "rv_previous_pages rv = div_ceil (sq_committed s) (cf_block_size (kv_config kv))"
    using pending_reservation [OF assms Some] by auto
  have "rv_start rv + rv_tokens rv < usize_lim"
    using s(4) config_okD(4) [OF kv_invD(2) [OF assms]] by simp
  with Some s seq_length(1) [OF assms s(1)] show ?thesis
    by (simp add: validate_reservation_def kv_sequence_def not_less)
qed (simp add: validate_reservation_def)

lemma other_reservation:
  assumes "kv_inv kv" "map_of (kv_sequences kv) r = Some s"
    and "map_of (kv_reservations kv) rid = Some rv" "rv_request rv = r"
  shows "sq_pending s = Some rid"
  using kv_invD(9) [OF assms(1,3)] assms by auto

lemma kv_inv_next:
  assumes "kv_inv kv" "kv_next_reservation kv \<le> nx" "nx < usize_lim"
  shows "kv_inv (kv\<lparr>kv_next_reservation := nx\<rparr>)"
proof -
  have "seq_ok (kv\<lparr>kv_next_reservation := nx\<rparr>) r s = seq_ok kv r s" for r s
    by (simp add: seq_ok_def pending_ok_def tail_private_def Let_def split: option.splits)
  then show ?thesis
    using assms unfolding kv_inv_def by simp (blast intro: less_le_trans)
qed

subsection \<open>Creating sequences\<close>

lemma create_sequence_ok:
  assumes inv: "kv_inv kv"
  shows "\<exists>kv' v. create_sequence kv r = Some (kv', v) \<and> kv_inv kv' \<and>
    (case v of Inl e \<Rightarrow> kv' = kv \<and> map_of (kv_sequences kv) r \<noteq> None
     | Inr _ \<Rightarrow> map_of (kv_sequences kv) r = None \<and> kv' = set_sequence kv r
         \<lparr>sq_committed = 0, sq_pages = [], sq_pending = None, sq_registered = 0, sq_chain = CHAIN_ROOT\<rparr>)"
proof (cases "map_of (kv_sequences kv) r")
  case (Some s)
  with inv show ?thesis by (simp add: create_sequence_def)
next
  case None
  let ?s = "\<lparr>sq_committed = 0, sq_pages = [], sq_pending = None, sq_registered = 0, sq_chain = CHAIN_ROOT\<rparr>"
  note D = kv_invD [OF inv]
  have "kv_inv (set_sequence kv r ?s)"
  proof (rule kv_inv_change [OF inv, where r = r and new = "Some ?s" and old = None])
    fix rid rv assume "map_of (kv_reservations (set_sequence kv r ?s)) rid = Some rv"
    then show "if rv_request rv = r then (\<exists>s. Some ?s = Some s \<and> sq_pending s = Some rid) \<and>
        reservation_num rid < kv_next_reservation (set_sequence kv r ?s)
      else map_of (kv_reservations kv) rid = Some rv"
      using D(9) [of rid rv] None by auto
  next
    fix s assume "Some ?s = Some s"
    then show "seq_ok (set_sequence kv r ?s) r s"
      by (auto simp: seq_ok_def pending_ok_def tail_private_def Let_def)
  qed (use D None in \<open>auto simp: pages_of_def\<close>)
  with None show ?thesis by (simp add: create_sequence_def)
qed

subsection \<open>Allocating for an append\<close>

lemma allocate_for:
  assumes inv: "kv_inv kv" and n: "n \<le> available_pages kv"
  shows "\<exists>kv1 ps. allocate_pages n kv = Some (kv1, ps) \<and> pool_inv kv1 \<and> length ps = n \<and> distinct ps \<and>
    kv_frame kv1 = kv_frame kv \<and> kv_room kv1 = kv_room kv \<and>
    (\<forall>p \<in> set ps. ref_at (kv_refs kv) p = 0 \<and> \<not> published kv1 p) \<and>
    (\<forall>q. ref_at (kv_refs kv1) q = ref_at (kv_refs kv) q + count_list ps q) \<and>
    (\<forall>q. q \<notin> set ps \<longrightarrow> published kv1 q = published kv q)"
proof -
  from kvp.allocs_ok [OF kv_invD(1) [OF inv] n] obtain kv1 ps where
    a: "allocate_pages n kv = Some (kv1, ps)" "pool_inv kv1" "length ps = n" "distinct ps"
      "\<forall>p \<in> set ps. p < length (kv_refs kv) \<and> ref_at (kv_refs kv) p = 0 \<and> \<not> published kv1 p"
      "\<forall>q. ref_at (kv_refs kv1) q = (if q \<in> set ps then 1 else ref_at (kv_refs kv) q)"
      "kv_frame kv1 = kv_frame kv" "kv_room kv1 = kv_room kv" "\<forall>q. q \<notin> set ps \<longrightarrow> published kv1 q = published kv q"
    by blast
  then have "\<forall>q. ref_at (kv_refs kv1) q = ref_at (kv_refs kv) q + count_list ps q"
    by (auto simp: count_list_distinct count_notin)
  with a show ?thesis by auto
qed

text \<open>A sequence grown by freshly allocated pages, with its reservation.\<close>

lemma grow_inv:
  assumes inv: "kv_inv kv" and s: "map_of (kv_sequences kv) r = Some s"
    and pool: "pool_inv kv1" and frame: "kv_frame kv1 = kv_frame kv" and dist: "distinct ps"
    and fresh: "\<forall>p \<in> set ps. ref_at (kv_refs kv) p = 0 \<and> \<not> published kv1 p"
    and refs: "\<forall>q. ref_at (kv_refs kv1) q = ref_at (kv_refs kv) q + count_list ps q"
    and pub: "\<forall>q. q \<notin> set ps \<longrightarrow> published kv1 q = published kv q"
    and rv: "rv = \<lparr>rv_request = r, rv_previous_pages = div_ceil (sq_committed s) (cf_block_size (kv_config kv)),
      rv_start = sq_committed s, rv_tokens = c\<rparr>"
    and c: "0 < c" "sq_committed s + c \<le> cf_max_sequence_length (kv_config kv)"
    and len: "length (sq_pages s) + length ps = div_ceil (sq_committed s + c) (cf_block_size (kv_config kv))"
    and nxt: "kv_next_reservation kv \<le> nx" "nx < usize_lim" "reservation_num rid < nx"
    and own: "sq_pending s = None \<and> map_of (kv_reservations kv) rid = None \<or> sq_pending s = Some rid"
    and kv': "kv' = (set_sequence kv1 r (s\<lparr>sq_pages := sq_pages s @ ps, sq_pending := Some rid\<rparr>))
      \<lparr>kv_reservations := om_insert rid rv (kv_reservations kv1), kv_next_reservation := nx\<rparr>"
  shows "kv_inv kv'"
proof -
  note D = kv_invD [OF inv] and F = kv_frameD [OF frame]
  let ?s = "s\<lparr>sq_pages := sq_pages s @ ps, sq_pending := Some rid\<rparr>"
  have ok: "seq_ok kv r s" using D(7) [OF s] .
  have mine: "rid' = rid" if "map_of (kv_reservations kv) rid' = Some rv'" "rv_request rv' = r" for rid' rv'
    using other_reservation [OF inv s that] own by auto
  have rid_mine: "rv_request rv' = r" if "map_of (kv_reservations kv) rid = Some rv'" for rv'
    using own that D(7) [OF s] by (auto simp: seq_ok_def pending_ok_def Let_def)
  show ?thesis
  proof (rule kv_inv_change [OF inv, where r = r and new = "Some ?s" and old = "Some s"])
    show "pool_inv kv'" using pool by (simp add: kv')
    show "kv_config kv' = kv_config kv" by (simp add: kv' F)
    show "om_ok (kv_sequences kv')" "om_ok (kv_reservations kv')" using D(3,4) by (simp_all add: kv' F)
    show "map_of (kv_sequences kv') r' = (if r' = r then Some ?s else map_of (kv_sequences kv) r')" for r'
      using D(3) by (simp add: kv' F)
    show "map_of (kv_reservations kv') rid' = Some rv'"
      if "map_of (kv_reservations kv) rid' = Some rv'" "rv_request rv' \<noteq> r" for rid' rv'
      using that rid_mine [of rv'] D(4) by (auto simp: kv' F)
    show "if rv_request rv' = r then (\<exists>s. Some ?s = Some s \<and> sq_pending s = Some rid') \<and>
        reservation_num rid' < kv_next_reservation kv'
      else map_of (kv_reservations kv) rid' = Some rv'"
      if "map_of (kv_reservations kv') rid' = Some rv'" for rid' rv'
      using that mine [of rid' rv'] nxt D(4) by (auto simp: kv' F rv split: if_splits)
    show "kv_next_reservation kv \<le> kv_next_reservation kv'" "kv_next_reservation kv' < usize_lim"
      using nxt by (simp_all add: kv')
    show "Some s = map_of (kv_sequences kv) r" using s by simp
    show "ref_at (kv_refs kv') q + count_list (pages_of (Some s)) q =
        ref_at (kv_refs kv) q + count_list (pages_of (Some ?s)) q" for q
      using refs by (simp add: kv' pages_of_def)
    show "q \<in> set (pages_of (Some s)) \<or> ref_at (kv_refs kv) q = 0 \<or> published kv q"
      if "q \<in> set (pages_of (Some ?s))" for q
      using that fresh by (auto simp: pages_of_def)
    show "published kv q \<or> q \<in> set (pages_of (Some s))"
      if "0 < ref_at (kv_refs kv) q" "published kv' q" for q
      using that fresh pub by (auto simp: kv')
    fix t assume "Some ?s = Some t"
    then have t: "t = ?s" by simp
    have "tail_private kv' ?s"
      unfolding tail_private_def
    proof (intro allI impI)
      fix i assume i: "sq_registered ?s \<le> i \<and> i < length (sq_pages ?s)"
      show "ref_at (kv_refs kv') (sq_pages ?s ! i) = 1 \<and> \<not> published kv' (sq_pages ?s ! i)"
      proof (cases "i < length (sq_pages s)")
        case True
        then have p: "ref_at (kv_refs kv) (sq_pages s ! i) = 1" "\<not> published kv (sq_pages s ! i)"
          using ok i by (auto simp: seq_ok_def tail_private_def kv' F)
        then have "sq_pages s ! i \<notin> set ps" using fresh by force
        with p True refs pub show ?thesis by (simp add: kv' nth_append count_notin)
      next
        case False
        then have "sq_pages ?s ! i \<in> set ps" using i by (auto simp: nth_append intro!: nth_mem)
        with fresh refs dist show ?thesis by (auto simp: kv' count_list_distinct)
      qed
    qed
    moreover have "pending_ok kv' r ?s"
      using c len D(4) by (simp add: pending_ok_def Let_def kv' F rv)
    ultimately show "seq_ok kv' r t"
      using ok by (simp add: t seq_ok_def kv' F)
  qed
qed

text \<open>When an append can begin, and what it then produces.\<close>

definition begin_ready :: "paged_kv \<Rightarrow> request_id \<Rightarrow> usize \<Rightarrow> bool" where
  "begin_ready kv r n \<longleftrightarrow> n \<noteq> 0 \<and>
     (case map_of (kv_sequences kv) r of
        None \<Rightarrow> False
      | Some s \<Rightarrow> sq_pending s = None \<and> sq_committed s + n \<le> cf_max_sequence_length (kv_config kv) \<and>
          div_ceil (sq_committed s + n) (cf_block_size (kv_config kv)) - length (sq_pages s) \<le> available_pages kv) \<and>
     kv_next_reservation kv + 1 < usize_lim"

lemma begin_append_ready:
  assumes inv: "kv_inv kv" and ready: "begin_ready kv r n"
  shows "\<exists>kv' s ps. begin_append kv r n = Some (kv', Inr \<lparr>ar_id = KvReservationId (kv_next_reservation kv),
        ar_request = r, ar_start = sq_committed s, ar_tokens = n, ar_context_length = sq_committed s + n,
        ar_new_pages = ps, ar_block_table = sq_pages s @ ps\<rparr>) \<and>
      kv_inv kv' \<and> map_of (kv_sequences kv) r = Some s \<and>
      kv_sequences kv' = om_insert r (s\<lparr>sq_pages := sq_pages s @ ps,
        sq_pending := Some (KvReservationId (kv_next_reservation kv))\<rparr>) (kv_sequences kv) \<and>
      kv_reservations kv' = om_insert (KvReservationId (kv_next_reservation kv))
        \<lparr>rv_request = r, rv_previous_pages = length (sq_pages s), rv_start = sq_committed s, rv_tokens = n\<rparr>
        (kv_reservations kv) \<and>
      kv_config kv' = kv_config kv \<and> kv_room kv' = kv_room kv \<and>
      length (sq_pages s @ ps) = div_ceil (sq_committed s + n) (cf_block_size (kv_config kv)) \<and>
      (\<forall>q. ref_at (kv_refs kv') q = ref_at (kv_refs kv) q + count_list ps q) \<and>
      (\<forall>p \<in> set ps. ref_at (kv_refs kv) p = 0) \<and> kv_spent 1 kv kv'"
proof -
  note D = kv_invD [OF inv] and C = config_okD [OF kv_invD(2) [OF inv]]
  obtain s where s: "map_of (kv_sequences kv) r = Some s" "sq_pending s = None"
      "sq_committed s + n \<le> cf_max_sequence_length (kv_config kv)"
      "div_ceil (sq_committed s + n) (cf_block_size (kv_config kv)) - length (sq_pages s) \<le> available_pages kv"
    and n: "n \<noteq> 0" "kv_next_reservation kv + 1 < usize_lim"
    using ready by (auto simp: begin_ready_def split: option.splits)
  let ?m = "div_ceil (sq_committed s + n) (cf_block_size (kv_config kv)) - length (sq_pages s)"
  let ?rid = "KvReservationId (kv_next_reservation kv)" and ?nx = "kv_next_reservation kv + 1"
  let ?kv0 = "kv\<lparr>kv_next_reservation := ?nx\<rparr>"
  have lim: "sq_committed s + n < usize_lim" using s(3) C(4) by simp
  have l: "length (sq_pages s) = div_ceil (sq_committed s) (cf_block_size (kv_config kv))"
    using seq_length(3) [OF inv s(1,2)] .
  have "kv_inv ?kv0" using inv n(2) by (intro kv_inv_next) auto
  then obtain kv1 ps where a: "allocate_pages ?m ?kv0 = Some (kv1, ps)" "pool_inv kv1" "length ps = ?m" "distinct ps"
    "kv_frame kv1 = kv_frame ?kv0" "\<forall>p \<in> set ps. ref_at (kv_refs ?kv0) p = 0 \<and> \<not> published kv1 p"
    "\<forall>q. ref_at (kv_refs kv1) q = ref_at (kv_refs ?kv0) q + count_list ps q"
    "\<forall>q. q \<notin> set ps \<longrightarrow> published kv1 q = published ?kv0 q" "kv_room kv1 = kv_room ?kv0"
    using allocate_for [of ?kv0 ?m] s(4) by auto
  note F = kv_frameD [OF a(5)]
  have len: "length (sq_pages s) + length ps = div_ceil (sq_committed s + n) (cf_block_size (kv_config kv))"
    using a(3) l div_ceil_mono [OF C(1), of "sq_committed s" "sq_committed s + n"] by simp
  let ?kv' = "(set_sequence kv1 r (s\<lparr>sq_pages := sq_pages s @ ps, sq_pending := Some ?rid\<rparr>))
      \<lparr>kv_reservations := om_insert ?rid \<lparr>rv_request = r, rv_previous_pages = length (sq_pages s),
          rv_start = sq_committed s, rv_tokens = n\<rparr> (kv_reservations kv1), kv_next_reservation := ?nx\<rparr>"
  have fresh: "map_of (kv_reservations kv) ?rid = None"
    using D(8) [of ?rid] by (cases "map_of (kv_reservations kv) ?rid") auto
  have "kv_inv ?kv'"
    by (rule grow_inv [OF \<open>kv_inv ?kv0\<close> _ a(2) a(5) a(4) a(6) a(7) a(8) refl _ _ _ _ n(2), where r = r and s = s and c = n])
      (use s n l len fresh in auto)
  moreover have "kv1\<lparr>kv_next_reservation := ?nx\<rparr> = kv1" using F(6) by simp
  then have "begin_append kv r n = Some (?kv', Inr \<lparr>ar_id = ?rid,
        ar_request = r, ar_start = sq_committed s, ar_tokens = n, ar_context_length = sq_committed s + n,
        ar_new_pages = ps, ar_block_table = sq_pages s @ ps\<rparr>)"
    using s n lim a(1) C(1) F
    by (simp add: begin_append_def kv_sequence_def udiv_ceil_def Let_def not_less set_sequence_def)
  ultimately show ?thesis
    using s F len a(6,7,9) by (intro exI [of _ ?kv'] exI [of _ s] exI [of _ ps]) (simp add: kv_spent_def)
qed

lemma begin_append_refused:
  assumes inv: "kv_inv kv" and "\<not> begin_ready kv r n"
  shows "\<exists>e. begin_append kv r n = Some (kv, Inl e)"
proof -
  note C = config_okD [OF kv_invD(2) [OF inv]]
  show ?thesis
    using assms C
    by (auto simp: begin_append_def begin_ready_def kv_sequence_def udiv_ceil_def Let_def not_less
        split: option.splits)
qed

definition extend_ready :: "paged_kv \<Rightarrow> reservation_state \<Rightarrow> sequence_state \<Rightarrow> usize \<Rightarrow> bool" where
  "extend_ready kv rv s extra \<longleftrightarrow> rv_tokens rv + extra < usize_lim \<and>
     rv_start rv + (rv_tokens rv + extra) \<le> cf_max_sequence_length (kv_config kv) \<and>
     div_ceil (rv_start rv + (rv_tokens rv + extra)) (cf_block_size (kv_config kv)) - length (sq_pages s) \<le> available_pages kv"

lemma extend_append_ready:
  assumes inv: "kv_inv kv" and rv: "map_of (kv_reservations kv) rid = Some rv"
    and s: "map_of (kv_sequences kv) (rv_request rv) = Some s" and ready: "extend_ready kv rv s extra"
  shows "\<exists>kv' v ps. extend_append kv rid extra = Some (kv', Inr v) \<and> kv_inv kv' \<and> kv_config kv' = kv_config kv \<and>
    kv_room kv' = kv_room kv \<and> ar_request v = rv_request rv \<and>
    kv_sequences kv' = om_insert (rv_request rv) (s\<lparr>sq_pages := sq_pages s @ ps\<rparr>) (kv_sequences kv) \<and>
    kv_reservations kv' = om_insert rid (rv\<lparr>rv_tokens := rv_tokens rv + extra\<rparr>) (kv_reservations kv) \<and>
    kv_next_reservation kv' = kv_next_reservation kv \<and> kv_spent 0 kv kv'"
proof -
  note D = kv_invD [OF inv] and C = config_okD [OF kv_invD(2) [OF inv]]
  have p: "sq_pending s = Some rid" "rv_start rv = sq_committed s" "0 < rv_tokens rv"
    "rv_previous_pages rv = div_ceil (sq_committed s) (cf_block_size (kv_config kv))"
    "length (sq_pages s) = div_ceil (rv_start rv + rv_tokens rv) (cf_block_size (kv_config kv))"
    using pending_reservation [OF inv rv] s by auto
  let ?c = "rv_tokens rv + extra"
  let ?m = "div_ceil (rv_start rv + ?c) (cf_block_size (kv_config kv)) - length (sq_pages s)"
  have t: "?c < usize_lim" "rv_start rv + ?c \<le> cf_max_sequence_length (kv_config kv)" "?m \<le> available_pages kv"
    using ready by (simp_all add: extend_ready_def)
  then obtain kv1 ps where a: "allocate_pages ?m kv = Some (kv1, ps)" "pool_inv kv1" "length ps = ?m" "distinct ps"
    "kv_frame kv1 = kv_frame kv" "\<forall>p \<in> set ps. ref_at (kv_refs kv) p = 0 \<and> \<not> published kv1 p"
    "\<forall>q. ref_at (kv_refs kv1) q = ref_at (kv_refs kv) q + count_list ps q"
    "\<forall>q. q \<notin> set ps \<longrightarrow> published kv1 q = published kv q" "kv_room kv1 = kv_room kv"
    using allocate_for [OF inv, of ?m] by auto
  note F = kv_frameD [OF a(5)]
  have len: "length (sq_pages s) + length ps = div_ceil (sq_committed s + ?c) (cf_block_size (kv_config kv))"
    using a(3) p(2,5) div_ceil_mono [OF C(1), of "rv_start rv + rv_tokens rv" "rv_start rv + ?c"] by simp
  let ?s = "s\<lparr>sq_pages := sq_pages s @ ps, sq_pending := Some rid\<rparr>"
  have rv': "rv\<lparr>rv_tokens := ?c\<rparr> = \<lparr>rv_request = rv_request rv,
      rv_previous_pages = div_ceil (sq_committed s) (cf_block_size (kv_config kv)),
      rv_start = sq_committed s, rv_tokens = ?c\<rparr>"
    using p(2,4) by (cases rv) simp
  let ?kv' = "(set_sequence kv1 (rv_request rv) ?s)
      \<lparr>kv_reservations := om_insert rid (rv\<lparr>rv_tokens := ?c\<rparr>) (kv_reservations kv1),
        kv_next_reservation := kv_next_reservation kv\<rparr>"
  have "kv_inv ?kv'"
    by (rule grow_inv [OF inv s a(2) a(5) a(4) a(6) a(7) a(8) rv' _ _ len])
      (use t p D(5) D(8) [OF rv] in auto)
  moreover have eq: "?kv' = (set_sequence kv1 (rv_request rv) (s\<lparr>sq_pages := sq_pages s @ ps\<rparr>))
      \<lparr>kv_reservations := om_insert rid (rv\<lparr>rv_tokens := ?c\<rparr>) (kv_reservations kv1)\<rparr>"
    using F(6) p(1) by (cases kv1; cases s) (simp add: set_sequence_def)
  then have "\<exists>v. extend_append kv rid extra = Some (?kv', Inr v) \<and> ar_request v = rv_request rv"
    using inv rv s C t a(1) F
    by (simp add: extend_append_def validate_reservation_eq udiv_ceil_def Let_def not_less)
  moreover have "s\<lparr>sq_pages := sq_pages s @ ps\<rparr> = ?s" using p(1) by (cases s) simp
  ultimately show ?thesis using F a(9) by (intro exI [of _ ?kv'], elim exE conjE) (auto simp: kv_spent_def)
qed

lemma extend_append_refused:
  assumes inv: "kv_inv kv" and no: "\<And>rv s. map_of (kv_reservations kv) rid = Some rv \<Longrightarrow>
    map_of (kv_sequences kv) (rv_request rv) = Some s \<Longrightarrow> \<not> extend_ready kv rv s extra"
  shows "\<exists>e. extend_append kv rid extra = Some (kv, Inl e)"
proof (cases "map_of (kv_reservations kv) rid")
  case None
  then show ?thesis using inv by (simp add: extend_append_def validate_reservation_eq)
next
  case (Some rv)
  note C = config_okD [OF kv_invD(2) [OF inv]]
  obtain s where s: "map_of (kv_sequences kv) (rv_request rv) = Some s" using pending_reservation [OF inv Some] by auto
  show ?thesis
    using no [OF Some s] inv Some s C
    by (auto simp: extend_append_def extend_ready_def validate_reservation_eq udiv_ceil_def Let_def not_less)
qed

lemma extend_append_ok:
  assumes inv: "kv_inv kv"
  shows "\<exists>kv' v. extend_append kv rid extra = Some (kv', v) \<and> kv_inv kv' \<and> kv_config kv' = kv_config kv \<and>
    (\<forall>e. v = Inl e \<longrightarrow> kv' = kv)"
proof (cases "\<exists>rv s. map_of (kv_reservations kv) rid = Some rv \<and>
    map_of (kv_sequences kv) (rv_request rv) = Some s \<and> extend_ready kv rv s extra")
  case True
  then show ?thesis using extend_append_ready [OF inv] by blast
next
  case False
  then show ?thesis using extend_append_refused [OF inv, of rid extra] inv by blast
qed

subsection \<open>Settling an append\<close>

text \<open>
  A sequence that ends up with no pending append, a committed length \<open>c\<close> and its first \<open>k\<close>
  pages, while the other pages are released: the common end of commit, partial commit and
  cancellation.
\<close>

definition without_reservation :: "paged_kv \<Rightarrow> sequence_state \<Rightarrow> (kv_reservation_id \<times> reservation_state) list" where
  "without_reservation kv s =
     (case sq_pending s of Some rid \<Rightarrow> om_remove rid (kv_reservations kv) | None \<Rightarrow> kv_reservations kv)"

lemma settle:
  assumes inv: "kv_inv kv" and s: "map_of (kv_sequences kv) r = Some s"
    and c: "sq_committed s \<le> c" "c \<le> cf_max_sequence_length (kv_config kv)"
    and k: "k = div_ceil c (cf_block_size (kv_config kv))" "k \<le> length (sq_pages s)"
    and room: "length (sq_pages s) - k \<le> kv_room kv"
    and kv0: "kv0 = kv\<lparr>kv_sequences := om_insert r (s\<lparr>sq_committed := c, sq_pages := take k (sq_pages s),
      sq_pending := None\<rparr>) (kv_sequences kv), kv_reservations := without_reservation kv s\<rparr>"
  shows "\<exists>kv'. release_pages (drop k (sq_pages s)) kv0 = Some kv' \<and> kv_inv kv' \<and> kv_frame kv' = kv_frame kv0 \<and>
    kv_room kv \<le> kv_room kv' + (length (sq_pages s) - k) \<and>
    (\<forall>q. ref_at (kv_refs kv') q + count_list (drop k (sq_pages s)) q = ref_at (kv_refs kv) q)"
proof -
  note D = kv_invD [OF inv]
  let ?s = "s\<lparr>sq_committed := c, sq_pages := take k (sq_pages s), sq_pending := None\<rparr>"
  have cnt: "count_list (drop k (sq_pages s)) q \<le> ref_at (kv_refs kv0) q" for q
    using pages_referenced [OF inv s, of q] count_list_take_drop [of k "sq_pages s" q] by (simp add: kv0)
  have "pool_inv kv0" using D(1) by (simp add: kv0)
  moreover have "length (drop k (sq_pages s)) \<le> kv_room kv0" using room by (simp add: kv0)
  ultimately obtain kv' where r: "release_pages (drop k (sq_pages s)) kv0 = Some kv'" "pool_inv kv'"
    "\<forall>q. ref_at (kv_refs kv') q = ref_at (kv_refs kv0) q - count_list (drop k (sq_pages s)) q"
    "kv_frame kv' = kv_frame kv0" "kv_room kv0 \<le> kv_room kv' + length (drop k (sq_pages s))"
    "\<forall>q. 0 < ref_at (kv_refs kv') q \<longrightarrow> published kv' q = published kv0 q"
    using kvp.frees_ok [of kv0 "drop k (sq_pages s)"] cnt by blast
  note F = kv_frameD [OF r(4)]
  have refs: "ref_at (kv_refs kv') q + count_list (drop k (sq_pages s)) q = ref_at (kv_refs kv) q" for q
    using r(3) cnt [of q] by (simp add: kv0)
  have ok: "seq_ok kv r s" using D(7) [OF s] .
  have "kv_inv kv'"
  proof (rule kv_inv_change [OF inv, where r = r and new = "Some ?s" and old = "Some s"])
    show "pool_inv kv'" by fact
    show "kv_config kv' = kv_config kv" using F(1) by (simp add: kv0)
    show "om_ok (kv_sequences kv')" "om_ok (kv_reservations kv')"
      using D(3,4) F(4,5) by (simp_all add: kv0 without_reservation_def split: option.splits)
    show "map_of (kv_sequences kv') r' = (if r' = r then Some ?s else map_of (kv_sequences kv) r')" for r'
      using F(4) D(3) by (simp add: kv0)
    show "map_of (kv_reservations kv') rid = Some rv"
      if "map_of (kv_reservations kv) rid = Some rv" "rv_request rv \<noteq> r" for rid rv
      using that F(5) D(9) [OF that(1)] ok s
      by (auto simp: kv0 without_reservation_def seq_ok_def pending_ok_def Let_def split: option.splits)
    show "if rv_request rv = r then (\<exists>t. Some ?s = Some t \<and> sq_pending t = Some rid) \<and>
        reservation_num rid < kv_next_reservation kv'
      else map_of (kv_reservations kv) rid = Some rv"
      if "map_of (kv_reservations kv') rid = Some rv" for rid rv
      using that F(5) other_reservation [OF inv s, of rid rv]
      by (auto simp: kv0 without_reservation_def split: option.splits if_splits)
    show "kv_next_reservation kv \<le> kv_next_reservation kv'" "kv_next_reservation kv' < usize_lim"
      using F(6) D(5) by (simp_all add: kv0)
    show "Some s = map_of (kv_sequences kv) r" using s by simp
    show "ref_at (kv_refs kv') q + count_list (pages_of (Some s)) q =
        ref_at (kv_refs kv) q + count_list (pages_of (Some ?s)) q" for q
      using refs [of q] count_list_take_drop [of k "sq_pages s" q] by (simp add: pages_of_def)
    show "q \<in> set (pages_of (Some s)) \<or> ref_at (kv_refs kv) q = 0 \<or> published kv q"
      if "q \<in> set (pages_of (Some ?s))" for q
      using that by (auto simp: pages_of_def dest: in_set_takeD)
    show "published kv q \<or> q \<in> set (pages_of (Some s))"
      if "0 < ref_at (kv_refs kv') q" "published kv' q" for q
      using that r(6) by (auto simp: kv0)
    fix t assume "Some ?s = Some t"
    then have t: "t = ?s" by simp
    have "tail_private kv' ?s"
      unfolding tail_private_def
    proof (intro allI impI)
      fix i assume i: "sq_registered ?s \<le> i \<and> i < length (sq_pages ?s)"
      let ?p = "sq_pages s ! i"
      have p: "ref_at (kv_refs kv) ?p = 1" "\<not> published kv ?p"
        using ok i by (auto simp: seq_ok_def tail_private_def)
      have "0 < count_list (take k (sq_pages s)) ?p"
        using i by (subst count_list_pos [symmetric]) (auto simp: in_set_conv_nth)
      then have "ref_at (kv_refs kv') ?p = 1"
        using refs [of ?p] p(1) count_list_take_drop [of k "sq_pages s" ?p] pages_referenced [OF inv s, of ?p] by simp
      with p r(6) i show "ref_at (kv_refs kv') (sq_pages ?s ! i) = 1 \<and> \<not> published kv' (sq_pages ?s ! i)"
        by (simp add: kv0)
    qed
    moreover have "pending_ok kv' r ?s"
      using k F(1) by (simp add: pending_ok_def Let_def kv0)
    ultimately show "seq_ok kv' r t"
      using ok c F(1) by (simp add: t seq_ok_def kv0)
  qed
  with r refs show ?thesis by (auto simp: kv0)
qed

end
