(* ===== verification/Paged_Kv_Commit.thy ===== *)
theory Paged_Kv_Commit
  imports Paged_Kv_Ops
begin

text \<open>
  The operations that end an append: commit, partial commit and cancellation, alone and in
  groups, and the removal of a sequence.
\<close>

subsection \<open>Ending one append\<close>

lemma sq_update_swap:
  "s\<lparr>sq_pending := a, sq_committed := b\<rparr> = s\<lparr>sq_committed := b, sq_pending := a\<rparr>"
  "s\<lparr>sq_pending := a, sq_pages := c\<rparr> = s\<lparr>sq_pages := c, sq_pending := a\<rparr>"
  "s\<lparr>sq_pages := c, sq_committed := b\<rparr> = s\<lparr>sq_committed := b, sq_pages := c\<rparr>"
  "s\<lparr>sq_pages := sq_pages s\<rparr> = s"
  by simp_all

lemma kv_update_swap:
  "kv\<lparr>kv_reservations := a, kv_sequences := b\<rparr> = kv\<lparr>kv_sequences := b, kv_reservations := a\<rparr>"
  by simp

text \<open>What the end of an append promises to the group operations.\<close>

definition settled :: "nat \<Rightarrow> paged_kv \<Rightarrow> paged_kv \<Rightarrow> kv_reservation_id \<Rightarrow> bool" where
  "settled cost kv kv' rid \<longleftrightarrow> kv_inv kv' \<and> kv_config kv' = kv_config kv \<and>
     kv_reservations kv' = om_remove rid (kv_reservations kv) \<and> kv_spent cost kv kv'"

lemma settledI:
  assumes "sq_pending s = Some rid"
    and "kv_inv kv'" "kv_frame kv' = kv_frame kv0"
    and "kv0 = kv\<lparr>kv_sequences := x, kv_reservations := without_reservation kv s\<rparr>"
    and "kv_room kv \<le> kv_room kv' + cost"
  shows "settled cost kv kv' rid"
  using assms kv_frameD [OF assms(3)] by (simp add: settled_def without_reservation_def kv_spent_def)

lemma commit_append_eq:
  assumes inv: "kv_inv kv" and rv: "map_of (kv_reservations kv) rid = Some rv"
    and s: "map_of (kv_sequences kv) (rv_request rv) = Some s"
  shows "commit_append kv rid = Some (kv\<lparr>kv_sequences := om_insert (rv_request rv)
      (s\<lparr>sq_committed := rv_start rv + rv_tokens rv, sq_pending := None\<rparr>) (kv_sequences kv),
      kv_reservations := om_remove rid (kv_reservations kv)\<rparr>, Inr (rv_start rv + rv_tokens rv))"
proof -
  have "sq_pending s = Some rid" "rv_start rv + rv_tokens rv < usize_lim"
    using pending_reservation [OF inv rv] s config_okD(4) [OF kv_invD(2) [OF inv]] by auto
  then show ?thesis
    using rv s by (simp add: commit_append_def validate_reservation_eq [OF inv] and_then_def take_reservation_def
        Let_def set_sequence_def)
qed

lemma commit_append_ok:
  assumes inv: "kv_inv kv" and rv: "map_of (kv_reservations kv) rid = Some rv"
  shows "\<exists>kv' s. commit_append kv rid = Some (kv', Inr (rv_start rv + rv_tokens rv)) \<and> settled 0 kv kv' rid \<and>
    map_of (kv_sequences kv) (rv_request rv) = Some s \<and> sq_pending s = Some rid \<and>
    kv_sequences kv' = om_insert (rv_request rv)
      (s\<lparr>sq_committed := rv_start rv + rv_tokens rv, sq_pending := None\<rparr>) (kv_sequences kv)"
proof -
  obtain s where s: "map_of (kv_sequences kv) (rv_request rv) = Some s" "sq_pending s = Some rid"
    "rv_start rv = sq_committed s" "rv_start rv + rv_tokens rv \<le> cf_max_sequence_length (kv_config kv)"
    "length (sq_pages s) = div_ceil (rv_start rv + rv_tokens rv) (cf_block_size (kv_config kv))"
    using pending_reservation [OF inv rv] by auto
  let ?c = "rv_start rv + rv_tokens rv"
  have eq: "s\<lparr>sq_committed := ?c, sq_pages := take (length (sq_pages s)) (sq_pages s), sq_pending := None\<rparr> =
      s\<lparr>sq_committed := ?c, sq_pending := None\<rparr>" by (cases s) simp
  let ?kv0 = "kv\<lparr>kv_sequences := om_insert (rv_request rv) (s\<lparr>sq_committed := ?c, sq_pending := None\<rparr>)
      (kv_sequences kv), kv_reservations := without_reservation kv s\<rparr>"
  obtain kv' where kv': "release_pages (drop (length (sq_pages s)) (sq_pages s)) ?kv0 = Some kv'" "kv_inv kv'"
      "kv_frame kv' = kv_frame ?kv0" "kv_room kv \<le> kv_room kv' + (length (sq_pages s) - length (sq_pages s))"
    using settle [OF inv s(1), of ?c "length (sq_pages s)" ?kv0] s eq by auto
  have "kv' = ?kv0" using kv'(1) by (simp add: release_pages_def)
  moreover have "settled 0 kv kv' rid" using settledI [OF s(2) kv'(2,3) refl] kv'(4) by simp
  ultimately show ?thesis
    using commit_append_eq [OF inv rv s(1)] s(1,2) by (simp add: without_reservation_def)
qed

lemma cancel_append_ok:
  assumes inv: "kv_inv kv" and rv: "map_of (kv_reservations kv) rid = Some rv"
    and room: "cf_max_sequence_length (kv_config kv) \<le> kv_room kv"
  shows "\<exists>kv'. cancel_append kv rid = Some (kv', Inr ()) \<and>
    settled (cf_max_sequence_length (kv_config kv)) kv kv' rid \<and>
    (\<exists>s. map_of (kv_sequences kv) (rv_request rv) = Some s \<and> sq_pending s = Some rid \<and>
      kv_sequences kv' = om_insert (rv_request rv)
        (s\<lparr>sq_pages := take (rv_previous_pages rv) (sq_pages s), sq_pending := None\<rparr>) (kv_sequences kv) \<and>
      (\<forall>q. ref_at (kv_refs kv') q + count_list (drop (rv_previous_pages rv) (sq_pages s)) q = ref_at (kv_refs kv) q))"
proof -
  obtain s where s: "map_of (kv_sequences kv) (rv_request rv) = Some s" "sq_pending s = Some rid"
    "rv_start rv = sq_committed s"
    "rv_previous_pages rv = div_ceil (sq_committed s) (cf_block_size (kv_config kv))"
    using pending_reservation [OF inv rv] by auto
  let ?k = "rv_previous_pages rv"
  have k: "?k \<le> length (sq_pages s)" using seq_length(1) [OF inv s(1)] s(4) by simp
  have cm: "sq_committed s \<le> cf_max_sequence_length (kv_config kv)"
    using kv_invD(7) [OF inv s(1)] by (simp add: seq_ok_def)
  have eq: "s\<lparr>sq_committed := sq_committed s, sq_pages := take ?k (sq_pages s), sq_pending := None\<rparr> =
      s\<lparr>sq_pages := take ?k (sq_pages s), sq_pending := None\<rparr>" by (cases s) simp
  let ?kv0 = "kv\<lparr>kv_sequences := om_insert (rv_request rv) (s\<lparr>sq_pages := take ?k (sq_pages s), sq_pending := None\<rparr>)
      (kv_sequences kv), kv_reservations := without_reservation kv s\<rparr>"
  have rm: "length (sq_pages s) - ?k \<le> kv_room kv" using seq_length(2) [OF inv s(1)] room by simp
  obtain kv' where kv': "release_pages (drop ?k (sq_pages s)) ?kv0 = Some kv'" "kv_inv kv'"
      "kv_frame kv' = kv_frame ?kv0" "kv_room kv \<le> kv_room kv' + (length (sq_pages s) - ?k)"
      "\<forall>q. ref_at (kv_refs kv') q + count_list (drop ?k (sq_pages s)) q = ref_at (kv_refs kv) q"
    using settle [OF inv s(1) le_refl cm s(4) k rm, of ?kv0] eq by auto
  have "cancel_append kv rid = Some (kv', Inr ())"
    using rv s(1,2) k kv'(1)
    by (simp add: cancel_append_def validate_reservation_eq [OF inv] and_then_def take_reservation_def
        set_sequence_def without_reservation_def rust_simps kv_update_swap)
  moreover have "settled (cf_max_sequence_length (kv_config kv)) kv kv' rid" using settledI [OF s(2) kv'(2,3) refl] kv'(4) seq_length(2) [OF inv s(1)] by simp
  ultimately show ?thesis using s kv'(3,5) kv_frameD(4) [OF kv'(3)] by auto
qed

lemma settle_prefix:
  assumes inv: "kv_inv kv" and rv: "map_of (kv_reservations kv) rid = Some rv"
    and n: "0 < n" "n \<le> rv_tokens rv" and room: "cf_max_sequence_length (kv_config kv) \<le> kv_room kv"
  shows "\<exists>s k kv'. map_of (kv_sequences kv) (rv_request rv) = Some s \<and> sq_pending s = Some rid \<and>
    k = div_ceil (rv_start rv + n) (cf_block_size (kv_config kv)) \<and> k \<le> length (sq_pages s) \<and>
    rv_start rv + n < usize_lim \<and>
    release_pages (drop k (sq_pages s)) (kv\<lparr>kv_sequences := om_insert (rv_request rv)
      (s\<lparr>sq_committed := rv_start rv + n, sq_pages := take k (sq_pages s), sq_pending := None\<rparr>) (kv_sequences kv),
      kv_reservations := om_remove rid (kv_reservations kv)\<rparr>) = Some kv' \<and>
    kv_sequences kv' = om_insert (rv_request rv)
      (s\<lparr>sq_committed := rv_start rv + n, sq_pages := take k (sq_pages s), sq_pending := None\<rparr>) (kv_sequences kv) \<and>
    settled (cf_max_sequence_length (kv_config kv)) kv kv' rid"
proof -
  note C = config_okD [OF kv_invD(2) [OF inv]]
  obtain s where s: "map_of (kv_sequences kv) (rv_request rv) = Some s" "sq_pending s = Some rid"
    "rv_start rv = sq_committed s" "rv_start rv + rv_tokens rv \<le> cf_max_sequence_length (kv_config kv)"
    "length (sq_pages s) = div_ceil (rv_start rv + rv_tokens rv) (cf_block_size (kv_config kv))"
    using pending_reservation [OF inv rv] by auto
  let ?c = "rv_start rv + n" and ?k = "div_ceil (rv_start rv + n) (cf_block_size (kv_config kv))"
  have k: "?k \<le> length (sq_pages s)" using s(5) n(2) div_ceil_mono [OF C(1)] by simp
  have c: "sq_committed s \<le> ?c" "?c \<le> cf_max_sequence_length (kv_config kv)" using s(3,4) n(2) by simp_all
  have rm: "length (sq_pages s) - ?k \<le> kv_room kv" using seq_length(2) [OF inv s(1)] room by simp
  let ?kv0 = "kv\<lparr>kv_sequences := om_insert (rv_request rv)
      (s\<lparr>sq_committed := ?c, sq_pages := take ?k (sq_pages s), sq_pending := None\<rparr>) (kv_sequences kv),
      kv_reservations := without_reservation kv s\<rparr>"
  obtain kv' where kv': "release_pages (drop ?k (sq_pages s)) ?kv0 = Some kv'" "kv_inv kv'"
      "kv_frame kv' = kv_frame ?kv0" "kv_room kv \<le> kv_room kv' + (length (sq_pages s) - ?k)"
    using settle [OF inv s(1) c refl k rm, of ?kv0] by auto
  moreover have "settled (cf_max_sequence_length (kv_config kv)) kv kv' rid" using settledI [OF s(2) kv'(2,3) refl] kv'(4) seq_length(2) [OF inv s(1)] by simp
  moreover have "?c < usize_lim" using c(2) C(4) by simp
  ultimately show ?thesis using s(1,2) k kv_frameD(4) [OF kv'(3)] by (auto simp: without_reservation_def)
qed

lemma commit_append_partial_done:
  assumes inv: "kv_inv kv" and room: "cf_max_sequence_length (kv_config kv) \<le> kv_room kv"
    and rv: "map_of (kv_reservations kv) rid = Some rv" and n: "0 < n" "n \<le> rv_tokens rv"
  shows "\<exists>kv' s. commit_append_partial kv rid n = Some (kv', Inr (rv_start rv + n)) \<and>
    settled (cf_max_sequence_length (kv_config kv)) kv kv' rid \<and>
    map_of (kv_sequences kv) (rv_request rv) = Some s \<and> sq_pending s = Some rid \<and>
    kv_sequences kv' = om_insert (rv_request rv) (s\<lparr>sq_committed := rv_start rv + n,
      sq_pages := take (div_ceil (rv_start rv + n) (cf_block_size (kv_config kv))) (sq_pages s),
      sq_pending := None\<rparr>) (kv_sequences kv)"
proof -
  note C = config_okD [OF kv_invD(2) [OF inv]]
  obtain s k kv' where s: "map_of (kv_sequences kv) (rv_request rv) = Some s" "sq_pending s = Some rid"
    and k: "k = div_ceil (rv_start rv + n) (cf_block_size (kv_config kv))" "k \<le> length (sq_pages s)"
    and lim: "rv_start rv + n < usize_lim"
    and rel: "release_pages (drop k (sq_pages s)) (kv\<lparr>kv_sequences := om_insert (rv_request rv)
      (s\<lparr>sq_committed := rv_start rv + n, sq_pages := take k (sq_pages s), sq_pending := None\<rparr>) (kv_sequences kv),
      kv_reservations := om_remove rid (kv_reservations kv)\<rparr>) = Some kv'"
    and seqs: "kv_sequences kv' = om_insert (rv_request rv)
      (s\<lparr>sq_committed := rv_start rv + n, sq_pages := take k (sq_pages s), sq_pending := None\<rparr>) (kv_sequences kv)"
    and st: "settled (cf_max_sequence_length (kv_config kv)) kv kv' rid"
    using settle_prefix [OF inv rv n room] by blast
  let ?s1 = "s\<lparr>sq_committed := rv_start rv + rv_tokens rv, sq_pending := None\<rparr>"
  have ok: "om_ok (kv_sequences kv)" using kv_invD(3) [OF inv] .
  have ii: "om_insert r x (om_insert r y (kv_sequences kv)) = om_insert r x (kv_sequences kv)" for r x y
    using om.ins_ins [OF ok] .
  have all: "take k (sq_pages s) = sq_pages s" "drop k (sq_pages s) = []" if "\<not> k < length (sq_pages s)"
    using that by simp_all
  have dc: "udiv_ceil (rv_start rv + n) (cf_block_size (kv_config kv)) = Some k"
    using C(1) k(1) by (simp add: udiv_ceil_def)
  have "commit_append_partial kv rid n = Some (kv', Inr (rv_start rv + n))"
    using rv n lim rel ok all
    by (cases "k < length (sq_pages s)") (simp_all add: commit_append_partial_def commit_append_eq [OF inv rv s(1)]
        and_then_def dc Let_def set_sequence_def ii rust_simps kv_update_swap sq_update_swap)
  then show ?thesis using st s seqs k(1) by auto
qed

lemma commit_append_partial_refused:
  assumes "\<not> (\<exists>rv. map_of (kv_reservations kv) rid = Some rv \<and> 0 < n \<and> n \<le> rv_tokens rv)"
  shows "\<exists>e. commit_append_partial kv rid n = Some (kv, Inl e)"
  using assms by (auto simp: commit_append_partial_def split: option.splits)

subsection \<open>Groups\<close>

lemma validate_loop_eq:
  assumes "kv_inv kv"
  shows "validate_loop kv seen rids = Inr () \<longleftrightarrow>
    distinct rids \<and> set rids \<inter> seen = {} \<and> (\<forall>rid \<in> set rids. map_of (kv_reservations kv) rid \<noteq> None)"
  by (induction rids arbitrary: seen) (auto simp: validate_reservation_eq [OF assms])

lemma validate_reservations_eq:
  assumes "kv_inv kv"
  shows "validate_reservations kv rids = Inr () \<longleftrightarrow>
    distinct rids \<and> (\<forall>rid \<in> set rids. map_of (kv_reservations kv) rid \<noteq> None)"
  by (simp add: validate_reservations_def validate_loop_eq [OF assms])

text \<open>
  The contract a loop over a group of reservations relies on: a step settles its own reservation,
  changes only the sequence that owns it and spends at most \<open>cost\<close> ticks.  A loop of such steps
  over distinct pending reservations then settles them all.
\<close>

locale settle_group =
  fixes step :: "paged_kv \<Rightarrow> 'i \<Rightarrow> (paged_kv \<times> 'a) option"
    and loop :: "'i list \<Rightarrow> paged_kv \<Rightarrow> (paged_kv \<times> 'a list) option"
    and key :: "'i \<Rightarrow> kv_reservation_id"
    and valid :: "reservation_state \<Rightarrow> 'i \<Rightarrow> bool"
    and out :: "reservation_state \<Rightarrow> 'i \<Rightarrow> 'a"
    and upd :: "paged_kv_config \<Rightarrow> reservation_state \<Rightarrow> 'i \<Rightarrow> sequence_state \<Rightarrow> sequence_state"
    and cost :: "paged_kv_config \<Rightarrow> nat"
  assumes step_ok: "kv_inv kv \<Longrightarrow> map_of (kv_reservations kv) (key i) = Some rv \<Longrightarrow> valid rv i \<Longrightarrow>
      cost (kv_config kv) \<le> kv_room kv \<Longrightarrow>
      \<exists>kv' s. step kv i = Some (kv', out rv i) \<and> settled (cost (kv_config kv)) kv kv' (key i) \<and>
        map_of (kv_sequences kv) (rv_request rv) = Some s \<and> sq_pending s = Some (key i) \<and>
        kv_sequences kv' = om_insert (rv_request rv) (upd (kv_config kv) rv i s) (kv_sequences kv)"
    and upd_pending: "sq_pending (upd c rv i s) = None"
    and loop_Nil: "loop [] kv = Some (kv, [])"
    and loop_Cons: "step kv i = Some (kv1, a) \<Longrightarrow> loop is kv1 = Some (kv2, as) \<Longrightarrow>
      loop (i # is) kv = Some (kv2, a # as)"
begin

text \<open>What becomes of a sequence: settled when its pending append is in the group.\<close>

definition after :: "paged_kv \<Rightarrow> 'i list \<Rightarrow> sequence_state \<Rightarrow> sequence_state" where
  "after kv is s =
     (case find (\<lambda>i. sq_pending s = Some (key i)) is of
        None \<Rightarrow> s
      | Some i \<Rightarrow> upd (kv_config kv) (the (map_of (kv_reservations kv) (key i))) i s)"

definition pending_group :: "paged_kv \<Rightarrow> 'i list \<Rightarrow> bool" where
  "pending_group kv is \<longleftrightarrow> distinct (map key is) \<and>
     (\<forall>i \<in> set is. \<exists>rv. map_of (kv_reservations kv) (key i) = Some rv \<and> valid rv i)"

lemma after_step:
  assumes inv: "kv_inv kv" and rv: "map_of (kv_reservations kv) (key i) = Some rv"
    and s: "map_of (kv_sequences kv) (rv_request rv) = Some s" "sq_pending s = Some (key i)"
    and st: "settled c kv kv' (key i)" "kv_sequences kv' = om_insert (rv_request rv) (upd (kv_config kv) rv i s) (kv_sequences kv)"
    and dist: "key i \<notin> key ` set is"
    and t: "map_of (kv_sequences kv) r = Some t"
  shows "\<exists>t'. map_of (kv_sequences kv') r = Some t' \<and> after kv' is t' = after kv (i # is) t"
proof (cases "r = rv_request rv")
  case True
  then have "t = s" using t s by simp
  moreover have "map_of (kv_sequences kv') r = Some (upd (kv_config kv) rv i s)"
    using st(2) True kv_invD(3) [OF inv] by simp
  ultimately show ?thesis
    using s(2) rv by (simp add: after_def upd_pending find_None_iff [THEN iffD2])
next
  case False
  have ne: "sq_pending t \<noteq> Some (key i)"
    using kv_invD(7) [OF inv t] rv False by (auto simp: seq_ok_def pending_ok_def Let_def)
  have "map_of (kv_reservations kv') (key j) = map_of (kv_reservations kv) (key j)" if "j \<in> set is" for j
  proof -
    have "key j \<noteq> key i" using dist imageI [OF that, of key] by auto
    then show ?thesis using st(1) kv_invD(4) [OF inv] by (simp add: settled_def)
  qed
  moreover have "j \<in> set is" if "find (\<lambda>i. sq_pending t = Some (key i)) is = Some j" for j
    using that by (metis find_Some_iff nth_mem)
  ultimately have "after kv' is t = after kv is t"
    using st(1) by (simp add: after_def settled_def split: option.splits)
  with False ne t st(2) kv_invD(3) [OF inv] show ?thesis by (simp add: after_def)
qed

lemma loop_ok:
  assumes "kv_inv kv" "pending_group kv is" "length is * cost (kv_config kv) \<le> kv_room kv"
  shows "\<exists>kv'. loop is kv = Some (kv', map (\<lambda>i. out (the (map_of (kv_reservations kv) (key i))) i) is) \<and>
    kv_inv kv' \<and> kv_config kv' = kv_config kv \<and>
    (\<forall>r. map_of (kv_sequences kv') r = map_option (after kv is) (map_of (kv_sequences kv) r)) \<and>
    (\<forall>rid. map_of (kv_reservations kv') rid =
      (if rid \<in> key ` set is then None else map_of (kv_reservations kv) rid)) \<and>
    kv_spent (length is * cost (kv_config kv)) kv kv'"
  using assms
proof (induction "is" arbitrary: kv)
  case Nil
  then show ?case by (auto simp: loop_Nil after_def kv_spent_def intro: option.map_ident_strong [symmetric])
next
  case (Cons i js)
  obtain rv where rv: "map_of (kv_reservations kv) (key i) = Some rv" "valid rv i"
    using Cons.prems(2) by (auto simp: pending_group_def)
  obtain kv1 s where st: "step kv i = Some (kv1, out rv i)" "settled (cost (kv_config kv)) kv kv1 (key i)"
    "map_of (kv_sequences kv) (rv_request rv) = Some s" "sq_pending s = Some (key i)"
    "kv_sequences kv1 = om_insert (rv_request rv) (upd (kv_config kv) rv i s) (kv_sequences kv)"
    using step_ok [OF Cons.prems(1) rv] Cons.prems(3) by auto
  note S = st(2) [unfolded settled_def]
  have dist: "key i \<notin> key ` set js" using Cons.prems(2) by (auto simp: pending_group_def)
  then have ne: "key j \<noteq> key i" if "j \<in> set js" for j using imageI [OF that, of key] by auto
  have same: "map_of (kv_reservations kv1) rid = (if rid = key i then None else map_of (kv_reservations kv) rid)" for rid
    using S kv_invD(4) [OF Cons.prems(1)] by simp
  have grp: "pending_group kv1 js" using Cons.prems(2) dist by (auto simp: pending_group_def same image_iff)
  have rm: "length js * cost (kv_config kv1) \<le> kv_room kv1" using Cons.prems(3) S by (simp add: kv_spent_def)
  from Cons.IH [OF conjunct1 [OF S] grp rm] obtain kv2 where kv2:
    "loop js kv1 = Some (kv2, map (\<lambda>i. out (the (map_of (kv_reservations kv1) (key i))) i) js)" "kv_inv kv2"
    "kv_config kv2 = kv_config kv1"
    "\<forall>r. map_of (kv_sequences kv2) r = map_option (after kv1 js) (map_of (kv_sequences kv1) r)"
    "\<forall>rid. map_of (kv_reservations kv2) rid = (if rid \<in> key ` set js then None else map_of (kv_reservations kv1) rid)"
    "kv_spent (length js * cost (kv_config kv1)) kv1 kv2"
    by blast
  have sp: "kv_spent (length (i # js) * cost (kv_config kv)) kv kv2"
    using kv_spent_trans [of "cost (kv_config kv)" kv kv1 _ kv2] S kv2(6) by simp
  have "map (\<lambda>i. out (the (map_of (kv_reservations kv1) (key i))) i) js =
      map (\<lambda>i. out (the (map_of (kv_reservations kv) (key i))) i) js"
    by (simp add: same ne)
  moreover have "map_of (kv_sequences kv2) r = map_option (after kv (i # js)) (map_of (kv_sequences kv) r)" for r
  proof (cases "map_of (kv_sequences kv) r")
    case None
    then show ?thesis using kv2(4) st(3,5) kv_invD(3) [OF Cons.prems(1)] by auto
  next
    case (Some t)
    then show ?thesis
      using after_step [OF Cons.prems(1) rv(1) st(3,4,2,5) dist Some] kv2(4) by auto
  qed
  ultimately show ?case
    using loop_Cons [OF st(1) kv2(1)] kv2(2-5) sp S rv(1) by (auto simp: same)
qed

end

text \<open>The group operations and their steps.\<close>

definition expect_ok :: "'a kv_result \<Rightarrow> (paged_kv \<times> 'a) option" where
  "expect_ok r = (case r of Some (kv, Inr a) \<Rightarrow> Some (kv, a) | _ \<Rightarrow> None)"

definition commit_upd :: "paged_kv_config \<Rightarrow> reservation_state \<Rightarrow> kv_reservation_id \<Rightarrow> sequence_state \<Rightarrow> sequence_state" where
  "commit_upd c rv rid s = s\<lparr>sq_committed := rv_start rv + rv_tokens rv, sq_pending := None\<rparr>"

definition cancel_upd :: "paged_kv_config \<Rightarrow> reservation_state \<Rightarrow> kv_reservation_id \<Rightarrow> sequence_state \<Rightarrow> sequence_state" where
  "cancel_upd c rv rid s = s\<lparr>sq_pages := take (rv_previous_pages rv) (sq_pages s), sq_pending := None\<rparr>"

definition prefix_upd :: "paged_kv_config \<Rightarrow> reservation_state \<Rightarrow> kv_reservation_id \<times> usize \<Rightarrow> sequence_state \<Rightarrow> sequence_state" where
  "prefix_upd c rv row s = s\<lparr>sq_committed := rv_start rv + snd row,
     sq_pages := take (div_ceil (rv_start rv + snd row) (cf_block_size c)) (sq_pages s), sq_pending := None\<rparr>"

definition prefix_valid :: "reservation_state \<Rightarrow> kv_reservation_id \<times> usize \<Rightarrow> bool" where
  "prefix_valid rv row \<longleftrightarrow> 0 < snd row \<and> snd row \<le> rv_tokens rv"

interpretation cg: settle_group "\<lambda>kv rid. expect_ok (commit_append kv rid)" commit_loop "\<lambda>rid. rid"
  "\<lambda>_ _. True" "\<lambda>rv _. rv_start rv + rv_tokens rv" commit_upd "\<lambda>_. 0"
proof
  fix kv i rv assume "kv_inv kv" "map_of (kv_reservations kv) i = Some rv"
  from commit_append_ok [OF this] show "\<exists>kv' s. expect_ok (commit_append kv i) = Some (kv', rv_start rv + rv_tokens rv) \<and>
        settled 0 kv kv' i \<and> map_of (kv_sequences kv) (rv_request rv) = Some s \<and> sq_pending s = Some i \<and>
        kv_sequences kv' = om_insert (rv_request rv) (commit_upd (kv_config kv) rv i s) (kv_sequences kv)"
    by (auto simp: expect_ok_def commit_upd_def)
qed (auto simp: commit_upd_def expect_ok_def split: option.splits sum.splits prod.splits)

interpretation xg: settle_group "\<lambda>kv rid. expect_ok (cancel_append kv rid)"
  "\<lambda>rids kv. map_option (\<lambda>kv. (kv, map (\<lambda>_. ()) rids)) (cancel_loop rids kv)" "\<lambda>rid. rid"
  "\<lambda>_ _. True" "\<lambda>_ _. ()" cancel_upd cf_max_sequence_length
proof
  fix kv i rv assume "kv_inv kv" "map_of (kv_reservations kv) i = Some rv" "cf_max_sequence_length (kv_config kv) \<le> kv_room kv"
  from cancel_append_ok [OF this] show "\<exists>kv' s. expect_ok (cancel_append kv i) = Some (kv', ()) \<and>
        settled (cf_max_sequence_length (kv_config kv)) kv kv' i \<and>
        map_of (kv_sequences kv) (rv_request rv) = Some s \<and> sq_pending s = Some i \<and>
        kv_sequences kv' = om_insert (rv_request rv) (cancel_upd (kv_config kv) rv i s) (kv_sequences kv)"
    by (auto simp: expect_ok_def cancel_upd_def)
qed (auto simp: cancel_upd_def expect_ok_def split: option.splits sum.splits prod.splits)

lemma commit_prefix_row_ok:
  assumes inv: "kv_inv kv" and rv: "map_of (kv_reservations kv) (fst row) = Some rv" and v: "prefix_valid rv row"
    and room: "cf_max_sequence_length (kv_config kv) \<le> kv_room kv"
  shows "\<exists>kv' s. commit_prefix_row kv row = Some (kv', rv_start rv + snd row) \<and>
    settled (cf_max_sequence_length (kv_config kv)) kv kv' (fst row) \<and>
    map_of (kv_sequences kv) (rv_request rv) = Some s \<and> sq_pending s = Some (fst row) \<and>
    kv_sequences kv' = om_insert (rv_request rv) (prefix_upd (kv_config kv) rv row s) (kv_sequences kv)"
proof -
  obtain rid n where row: "row = (rid, n)" by (cases row)
  have bs: "0 < cf_block_size (kv_config kv)" using config_okD(1) [OF kv_invD(2) [OF inv]] .
  have n: "0 < n" "n \<le> rv_tokens rv" "map_of (kv_reservations kv) rid = Some rv"
    using v rv by (auto simp: prefix_valid_def row)
  show ?thesis
    using settle_prefix [OF inv n(3,1,2) room] n bs
    by (auto simp: row commit_prefix_row_def prefix_upd_def set_sequence_def udiv_ceil_def Let_def rust_simps
        kv_update_swap sq_update_swap)
qed

interpretation pg: settle_group commit_prefix_row commit_prefix_loop fst prefix_valid
  "\<lambda>rv row. rv_start rv + snd row" prefix_upd cf_max_sequence_length
  by unfold_locales (erule (3) commit_prefix_row_ok, simp_all add: prefix_upd_def)

subsection \<open>Outcomes of the group operations\<close>

text \<open>What a caller may rely on: no panic, the invariant again, and no change when an error is reported.\<close>

definition safe_result :: "paged_kv \<Rightarrow> 'a kv_result \<Rightarrow> bool" where
  "safe_result kv r \<longleftrightarrow> (\<exists>kv' v. r = Some (kv', v) \<and> kv_inv kv' \<and> kv_config kv' = kv_config kv \<and>
     (\<forall>e. v = Inl e \<longrightarrow> kv' = kv))"

lemma safe_resultI:
  "r = Some (kv', v) \<Longrightarrow> kv_inv kv' \<Longrightarrow> kv_config kv' = kv_config kv \<Longrightarrow> (\<And>e. v = Inl e \<Longrightarrow> kv' = kv) \<Longrightarrow> safe_result kv r"
  unfolding safe_result_def by blast

lemma safe_error: "kv_inv kv \<Longrightarrow> r = Some (kv, Inl e) \<Longrightarrow> safe_result kv r"
  by (erule safe_resultI [of r kv "Inl e", rotated]) auto

lemma validate_reservations_refused:
  assumes "kv_inv kv" "\<not> (distinct rids \<and> (\<forall>rid \<in> set rids. map_of (kv_reservations kv) rid \<noteq> None))"
  shows "\<exists>e. validate_reservations kv rids = Inl e"
  using assms validate_reservations_eq [OF assms(1), of rids] by (cases "validate_reservations kv rids") auto

text \<open>The sequences after a group: those whose pending append is in the group are settled.\<close>

definition commit_view :: "paged_kv \<Rightarrow> kv_reservation_id set \<Rightarrow> sequence_state \<Rightarrow> sequence_state" where
  "commit_view kv ended s =
     (case sq_pending s of
        None \<Rightarrow> s
      | Some rid \<Rightarrow> if rid \<in> ended then commit_upd (kv_config kv) (the (map_of (kv_reservations kv) rid)) rid s else s)"

definition cancel_view :: "paged_kv \<Rightarrow> kv_reservation_id set \<Rightarrow> sequence_state \<Rightarrow> sequence_state" where
  "cancel_view kv ended s =
     (case sq_pending s of
        None \<Rightarrow> s
      | Some rid \<Rightarrow> if rid \<in> ended then cancel_upd (kv_config kv) (the (map_of (kv_reservations kv) rid)) rid s else s)"

definition prefix_view :: "paged_kv \<Rightarrow> (kv_reservation_id \<times> usize) list \<Rightarrow> sequence_state \<Rightarrow> sequence_state" where
  "prefix_view kv rows s =
     (case sq_pending s of
        None \<Rightarrow> s
      | Some rid \<Rightarrow>
          (case map_of rows rid of
             None \<Rightarrow> s
           | Some n \<Rightarrow> prefix_upd (kv_config kv) (the (map_of (kv_reservations kv) rid)) (rid, n) s))"

lemma find_eq: "find (\<lambda>i. Some rid = Some i) is = (if rid \<in> set is then Some rid else None)"
  by (induction "is") auto

lemma find_fst: "find (\<lambda>i. Some rid = Some (fst i)) rows = map_option (Pair rid) (map_of rows rid)"
  by (induction rows) auto

lemma find_never: "find (\<lambda>i. False) is = None"
  by (induction "is") auto

lemma group_views:
  "cg.after kv rids = commit_view kv (set rids)" "xg.after kv rids = cancel_view kv (set rids)"
  "pg.after kv rows = prefix_view kv rows"
  unfolding cg.after_def xg.after_def pg.after_def commit_view_def cancel_view_def prefix_view_def fun_eq_iff
  by (auto simp: find_never find_eq [simplified] find_fst [simplified] split: option.splits)

text \<open>When a group is accepted, and what an accepted group gives.\<close>

abbreviation all_pending :: "paged_kv \<Rightarrow> kv_reservation_id list \<Rightarrow> bool" where
  "all_pending kv rids \<equiv> distinct rids \<and> (\<forall>rid \<in> set rids. map_of (kv_reservations kv) rid \<noteq> None)"

abbreviation rows_valid :: "paged_kv \<Rightarrow> (kv_reservation_id \<times> usize) list \<Rightarrow> bool" where
  "rows_valid kv rows \<equiv> distinct (map fst rows) \<and>
     (\<forall>row \<in> set rows. \<exists>rv. map_of (kv_reservations kv) (fst row) = Some rv \<and> 0 < snd row \<and> snd row \<le> rv_tokens rv)"

definition group_done :: "paged_kv \<Rightarrow> paged_kv \<Rightarrow> kv_reservation_id set \<Rightarrow> (sequence_state \<Rightarrow> sequence_state) \<Rightarrow> bool" where
  "group_done kv kv' ended view \<longleftrightarrow> kv_inv kv' \<and> kv_config kv' = kv_config kv \<and>
     (\<forall>r. map_of (kv_sequences kv') r = map_option view (map_of (kv_sequences kv) r)) \<and>
     (\<forall>rid. map_of (kv_reservations kv') rid = (if rid \<in> ended then None else map_of (kv_reservations kv) rid)) \<and>
     kv_spent (card ended * cf_max_sequence_length (kv_config kv)) kv kv'"

lemma commit_appends_done:
  assumes "kv_inv kv" "all_pending kv rids"
  shows "\<exists>kv'. commit_appends kv rids = Some (kv', Inr (map (\<lambda>rid.
      rv_start (the (map_of (kv_reservations kv) rid)) + rv_tokens (the (map_of (kv_reservations kv) rid))) rids)) \<and>
    group_done kv kv' (set rids) (commit_view kv (set rids))"
proof -
  have "cg.pending_group kv rids" using assms(2) by (auto simp: cg.pending_group_def)
  from cg.loop_ok [OF assms(1) this] assms show ?thesis
    by (auto intro: kv_spent_mono simp: commit_appends_def validate_reservations_eq [OF assms(1), THEN iffD2] group_views group_done_def)
qed

lemma cancel_appends_done:
  assumes "kv_inv kv" "all_pending kv rids" "length rids * cf_max_sequence_length (kv_config kv) \<le> kv_room kv"
  shows "\<exists>kv'. cancel_appends kv rids = Some (kv', Inr ()) \<and> group_done kv kv' (set rids) (cancel_view kv (set rids))"
proof -
  have "xg.pending_group kv rids" using assms(2) by (auto simp: xg.pending_group_def)
  from xg.loop_ok [OF assms(1) this assms(3)] assms(2) show ?thesis
    by (auto simp: distinct_card cancel_appends_def validate_reservations_eq [OF assms(1), THEN iffD2] group_views group_done_def)
qed

lemma group_refused:
  assumes "kv_inv kv" "\<not> all_pending kv rids"
  shows "\<exists>e. commit_appends kv rids = Some (kv, Inl e)" "\<exists>e. cancel_appends kv rids = Some (kv, Inl e)"
proof -
  obtain e where "validate_reservations kv rids = Inl e" using validate_reservations_refused [OF assms] by auto
  then show "\<exists>e. commit_appends kv rids = Some (kv, Inl e)" "\<exists>e. cancel_appends kv rids = Some (kv, Inl e)"
    by (simp_all add: commit_appends_def cancel_appends_def)
qed

lemma check_rows_eq:
  assumes "\<forall>row \<in> set rows. map_of (kv_reservations kv) (fst row) \<noteq> None"
  shows "check_rows kv rows = Some (if \<forall>row \<in> set rows. \<exists>rv. map_of (kv_reservations kv) (fst row) = Some rv \<and>
    0 < snd row \<and> snd row \<le> rv_tokens rv then Inr () else Inl InvalidLookaheadPrefix)"
  using assms
proof (induction kv rows rule: check_rows.induct)
  case (2 kv rid n rows)
  then obtain rv where "map_of (kv_reservations kv) rid = Some rv" by auto
  with 2 show ?case by (cases "n = 0"; cases "rv_tokens rv < n") simp_all
qed simp

lemma commit_append_prefixes_done:
  assumes "kv_inv kv" "rows_valid kv rows" "length rows * cf_max_sequence_length (kv_config kv) \<le> kv_room kv"
  shows "\<exists>kv'. commit_append_prefixes kv rows = Some (kv', Inr (map (\<lambda>row.
      rv_start (the (map_of (kv_reservations kv) (fst row))) + snd row) rows)) \<and>
    group_done kv kv' (fst ` set rows) (prefix_view kv rows)"
proof -
  have grp: "pg.pending_group kv rows" using assms(2) by (simp add: pg.pending_group_def prefix_valid_def)
  have "validate_reservations kv (map fst rows) = Inr ()"
    using assms(2) by (subst validate_reservations_eq [OF assms(1)]) auto
  moreover have "check_rows kv rows = Some (Inr ())" using assms(2) by (subst check_rows_eq) auto
  moreover have "card (fst ` set rows) = length rows" using assms(2) distinct_card [of "map fst rows"] by simp
  ultimately show ?thesis
    using pg.loop_ok [OF assms(1) grp assms(3)]
    by (auto simp: commit_append_prefixes_def group_views group_done_def)
qed

lemma commit_append_prefixes_refused:
  assumes "kv_inv kv" "\<not> rows_valid kv rows"
  shows "\<exists>e. commit_append_prefixes kv rows = Some (kv, Inl e)"
proof (cases "validate_reservations kv (map fst rows)")
  case (Inr u)
  then have ok: "distinct (map fst rows)" "\<forall>row \<in> set rows. map_of (kv_reservations kv) (fst row) \<noteq> None"
    using validate_reservations_eq [OF assms(1), of "map fst rows"] by auto
  then have "check_rows kv rows = Some (Inl InvalidLookaheadPrefix)" using assms(2) check_rows_eq [OF ok(2)] by simp
  with Inr show ?thesis by (simp add: commit_append_prefixes_def)
qed (simp add: commit_append_prefixes_def)

subsection \<open>Removing a sequence\<close>

lemma count_list_rev: "count_list (rev xs) x = count_list xs x"
  by (induction xs) auto

lemma remove_sequence_ok:
  assumes inv: "kv_inv kv" and s: "map_of (kv_sequences kv) r = Some s" "sq_pending s = None"
    and room: "cf_max_sequence_length (kv_config kv) \<le> kv_room kv"
  shows "\<exists>kv'. remove_sequence kv r = Some (kv', Inr ()) \<and> kv_inv kv' \<and> kv_config kv' = kv_config kv \<and>
    kv_sequences kv' = om_remove r (kv_sequences kv) \<and> kv_reservations kv' = kv_reservations kv \<and>
    (\<forall>q. ref_at (kv_refs kv') q + count_list (sq_pages s) q = ref_at (kv_refs kv) q) \<and>
    kv_spent (cf_max_sequence_length (kv_config kv)) kv kv'"
proof -
  note D = kv_invD [OF inv]
  let ?kv0 = "kv\<lparr>kv_sequences := om_remove r (kv_sequences kv)\<rparr>"
  have cnt: "count_list (rev (sq_pages s)) q \<le> ref_at (kv_refs ?kv0) q" for q
    using pages_referenced [OF inv s(1), of q] by (simp add: count_list_rev)
  have "length (rev (sq_pages s)) \<le> kv_room ?kv0" using seq_length(2) [OF inv s(1)] room by simp
  then obtain kv' where rel: "release_pages (rev (sq_pages s)) ?kv0 = Some kv'" "pool_inv kv'"
    "\<forall>q. ref_at (kv_refs kv') q = ref_at (kv_refs ?kv0) q - count_list (rev (sq_pages s)) q"
    "kv_frame kv' = kv_frame ?kv0" "\<forall>q. 0 < ref_at (kv_refs kv') q \<longrightarrow> published kv' q = published ?kv0 q"
    "kv_room ?kv0 \<le> kv_room kv' + length (rev (sq_pages s))"
    using kvp.frees_ok [of ?kv0 "rev (sq_pages s)"] cnt D(1) by auto
  note F = kv_frameD [OF rel(4)]
  have refs: "ref_at (kv_refs kv') q + count_list (sq_pages s) q = ref_at (kv_refs kv) q" for q
    using rel(3) cnt [of q] by (simp add: count_list_rev)
  have noresv: "rv_request rv \<noteq> r" if "map_of (kv_reservations kv) rid = Some rv" for rid rv
    using other_reservation [OF inv s(1) that] s(2) by auto
  have "kv_inv kv'"
  proof (rule kv_inv_change [OF inv, where r = r and new = None and old = "Some s"])
    show "om_ok (kv_sequences kv')" "om_ok (kv_reservations kv')" using D(3,4) F by simp_all
    show "map_of (kv_sequences kv') r' = (if r' = r then None else map_of (kv_sequences kv) r')" for r'
      using F D(3) by simp
    show "ref_at (kv_refs kv') q + count_list (pages_of (Some s)) q = ref_at (kv_refs kv) q + count_list (pages_of None) q" for q
      using refs [of q] by (simp add: pages_of_def)
    show "published kv q \<or> q \<in> set (pages_of (Some s))" if "0 < ref_at (kv_refs kv') q" "published kv' q" for q
      using that rel(5) by simp
  qed (use rel F D(5) s noresv in \<open>auto simp: pages_of_def\<close>)
  moreover have "remove_sequence kv r = Some (kv', Inr ())"
    using s rel(1) by (simp add: remove_sequence_def kv_sequence_def)
  moreover have "kv_spent (cf_max_sequence_length (kv_config kv)) kv kv'"
    using rel(6) F seq_length(2) [OF inv s(1)] by (simp add: kv_spent_def)
  ultimately show ?thesis using F refs by auto
qed

end
