(* ===== verification/Paged_Kv_Prefix.thy ===== *)
theory Paged_Kv_Prefix
  imports Paged_Kv_Commit
begin

text \<open>
  The prefix cache of the KV manager: registering the complete blocks of a sequence under their
  hash chain, and creating a sequence that reuses the longest cached chain of its prompt.
\<close>

subsection \<open>Blocks and chains\<close>

text \<open>The tokens of a block, and the hash chain before it.\<close>

definition block_of :: "usize \<Rightarrow> token list \<Rightarrow> usize \<Rightarrow> token list" where
  "block_of bs tokens i = take bs (drop (i * bs) tokens)"

fun chain_at :: "(nat \<Rightarrow> token list \<Rightarrow> nat) \<Rightarrow> usize \<Rightarrow> token list \<Rightarrow> nat \<Rightarrow> nat" where
  "chain_at h bs tokens 0 = CHAIN_ROOT"
| "chain_at h bs tokens (Suc i) = h (chain_at h bs tokens i) (block_of bs tokens i)"

definition block_key_at :: "(nat \<Rightarrow> token list \<Rightarrow> nat) \<Rightarrow> usize \<Rightarrow> token list \<Rightarrow> nat \<Rightarrow> block_key" where
  "block_key_at h bs tokens i = (chain_at h bs tokens i, block_of bs tokens i)"

lemma block_tokens_eq:
  assumes "(i + 1) * bs \<le> length tokens"
  shows "block_tokens bs tokens i = Some (block_of bs tokens i)"
  using assms by (simp add: block_tokens_def block_of_def sub_slice_def)

lemma block_fits: "i < n div bs \<Longrightarrow> (i + 1) * bs \<le> (n::nat)"
  by (metis Suc_eq_plus1 Suc_leI div_times_less_eq_dividend le_trans mult_le_mono1)

subsection \<open>Matching\<close>

lemma match_prefix_ok:
  assumes "pool_inv kv" "bs = cf_block_size (kv_config kv)" "i \<le> u"
    "\<And>j. j < u \<Longrightarrow> (j + 1) * bs \<le> length tokens" "\<And>p. ref_at (kv_refs kv) p + (u - i) < u32_lim"
  shows "\<exists>kv' ps. match_prefix h tokens [i..<u] kv (chain_at h bs tokens i) pages =
      Some (kv', chain_at h bs tokens (i + length ps), pages @ ps) \<and>
    pool_inv kv' \<and> kv_frame kv' = kv_frame kv \<and> kv_room kv' = kv_room kv \<and> kv_index kv' = kv_index kv \<and>
    (\<forall>q. published kv' q = published kv q) \<and> (\<forall>q \<in> set ps. published kv q) \<and>
    (\<forall>q. ref_at (kv_refs kv') q = ref_at (kv_refs kv) q + count_list ps q) \<and>
    i + length ps \<le> u \<and> (\<forall>j < length ps. kv_index kv (block_key_at h bs tokens (i + j)) = Some (ps ! j)) \<and>
    (i + length ps < u \<longrightarrow> kv_index kv (block_key_at h bs tokens (i + length ps)) = None)"
  using assms
proof (induction "u - i" arbitrary: i kv pages)
  case 0
  then show ?case by (intro exI [of _ kv] exI [of _ "[]"]) simp
next
  case (Suc d)
  then have iu: "i < u" by simp
  then have up: "[i..<u] = i # [Suc i..<u]" by (simp add: upt_conv_Cons)
  have bt: "block_tokens (cf_block_size (kv_config kv)) tokens i = Some (block_of bs tokens i)"
    using block_tokens_eq [OF Suc.prems(4) [OF iu]] Suc.prems(2) by simp
  show ?case
  proof (cases "kv_index kv (block_key_at h bs tokens i)")
    case None
    then show ?thesis
      using Suc.prems bt by (intro exI [of _ kv] exI [of _ "[]"]) (simp add: up block_key_at_def)
  next
    case (Some p)
    have "ref_at (kv_refs kv) p + 1 < u32_lim" using Suc.prems(5) [of p] iu by simp
    from acquire_cached_ok [OF Suc.prems(1) Some this] obtain kv1 where
      a: "acquire_cached kv p = Some kv1" "pool_inv kv1" "p < length (kv_refs kv)"
        "kv_refs kv1 = (kv_refs kv)[p := ref_at (kv_refs kv) p + 1]" "kv_frame kv1 = kv_frame kv"
        "kv_room kv1 = kv_room kv" "kv_index kv1 = kv_index kv" "published kv p"
        "\<forall>q. published kv1 q = published kv q" by auto
    have refs: "ref_at (kv_refs kv1) q + (u - Suc i) < u32_lim" for q
      using Suc.prems(5) [of q] a(3,4) iu by auto
    have cfg: "bs = cf_block_size (kv_config kv1)" using Suc.prems(2) kv_frameD(1) [OF a(5)] by simp
    have d: "d = u - Suc i" and le: "Suc i \<le> u" using Suc.hyps(2) iu by simp_all
    from Suc.hyps(1) [OF d a(2) cfg le Suc.prems(4) refs, of "pages @ [p]"]
    obtain kv' ps where r: "match_prefix h tokens [Suc i..<u] kv1 (chain_at h bs tokens (Suc i)) (pages @ [p]) =
        Some (kv', chain_at h bs tokens (Suc i + length ps), (pages @ [p]) @ ps)"
      "pool_inv kv'" "kv_frame kv' = kv_frame kv1" "kv_room kv' = kv_room kv1" "kv_index kv' = kv_index kv1"
      "\<forall>q. published kv' q = published kv1 q" "\<forall>q \<in> set ps. published kv1 q"
      "\<forall>q. ref_at (kv_refs kv') q = ref_at (kv_refs kv1) q + count_list ps q" "Suc i + length ps \<le> u"
      "\<forall>j < length ps. kv_index kv1 (block_key_at h bs tokens (Suc i + j)) = Some (ps ! j)"
      "Suc i + length ps < u \<longrightarrow> kv_index kv1 (block_key_at h bs tokens (Suc i + length ps)) = None"
      by blast
    have "match_prefix h tokens [i..<u] kv (chain_at h bs tokens i) pages =
        match_prefix h tokens [Suc i..<u] kv1 (chain_at h bs tokens (Suc i)) (pages @ [p])"
      using Some a(1) bt by (simp add: up block_key_at_def)
    moreover have "kv_index kv (block_key_at h bs tokens (i + j)) = Some ((p # ps) ! j)" if "j < length (p # ps)" for j
      using that Some r(10) a(7) by (cases j) auto
    ultimately show ?thesis
      using r a by (intro exI [of _ kv'] exI [of _ "p # ps"]) auto
  qed
qed

text \<open>The number of blocks a prompt may reuse: at least one token is left to compute.\<close>

definition usable_blocks :: "paged_kv \<Rightarrow> token list \<Rightarrow> nat" where
  "usable_blocks kv tokens =
     (if kv_prefix_caching kv then (length tokens - 1) div cf_block_size (kv_config kv) else 0)"

text \<open>What a prompt may ask of the counters: its length, the reference counts and the reuse counter.\<close>

definition prefix_room :: "paged_kv \<Rightarrow> token list \<Rightarrow> bool" where
  "prefix_room kv tokens \<longleftrightarrow> length tokens \<le> cf_max_sequence_length (kv_config kv) \<and>
     (\<forall>p < cf_num_pages (kv_config kv). ref_at (kv_refs kv) p + usable_blocks kv tokens < u32_lim) \<and>
     kv_reused kv + length tokens < usize_lim"

lemma usable_bound:
  assumes "kv_inv kv" "j < usable_blocks kv tokens"
  shows "(j + 1) * cf_block_size (kv_config kv) \<le> length tokens"
  using assms(2) block_fits [of j "length tokens - 1" "cf_block_size (kv_config kv)"]
  by (simp add: usable_blocks_def split: if_splits)

lemma prefix_room_refs:
  assumes "kv_inv kv" "prefix_room kv tokens"
  shows "ref_at (kv_refs kv) p + usable_blocks kv tokens < u32_lim"
proof (cases "p < cf_num_pages (kv_config kv)")
  case False
  then have z: "ref_at (kv_refs kv) p = 0"
    using pool_inv_okD(1) [OF kv_invD(1) [OF assms(1)]] by (simp add: ref_at_def)
  have "0 < cf_num_pages (kv_config kv)" using config_okD(2) [OF kv_invD(2) [OF assms(1)]] .
  then have "ref_at (kv_refs kv) 0 + usable_blocks kv tokens < u32_lim" using assms(2) by (auto simp: prefix_room_def)
  with z show ?thesis by simp
qed (use assms in \<open>simp add: prefix_room_def\<close>)

text \<open>A fresh sequence given the pages of a cached chain.\<close>

lemma share_inv:
  assumes inv: "kv_inv kv" and r: "map_of (kv_sequences kv) r = None"
    and pool: "pool_inv kv1" and seqs: "kv_sequences kv1 = om_insert r fresh (kv_sequences kv)"
    and cfg: "kv_config kv1 = kv_config kv" and res: "kv_reservations kv1 = kv_reservations kv"
    and nx: "kv_next_reservation kv1 = kv_next_reservation kv"
    and pub: "\<forall>q. published kv1 q = published kv q" "\<forall>q \<in> set ps. published kv q"
    and refs: "\<forall>q. ref_at (kv_refs kv1) q = ref_at (kv_refs kv) q + count_list ps q"
    and len: "length ps * cf_block_size (kv_config kv) \<le> cf_max_sequence_length (kv_config kv)"
  shows "kv_inv ((set_sequence kv1 r \<lparr>sq_committed = length ps * cf_block_size (kv_config kv), sq_pages = ps,
    sq_pending = None, sq_registered = length ps, sq_chain = c\<rparr>)\<lparr>kv_reused := m\<rparr>)" (is "kv_inv ?kv")
proof -
  note D = kv_invD [OF inv]
  let ?s = "\<lparr>sq_committed = length ps * cf_block_size (kv_config kv), sq_pages = ps,
    sq_pending = None, sq_registered = length ps, sq_chain = c\<rparr>"
  have bs: "0 < cf_block_size (kv_config kv)" using config_okD(1) [OF D(2)] .
  have "div_ceil (length ps * cf_block_size (kv_config kv)) (cf_block_size (kv_config kv)) = length ps"
    using bs by (simp add: div_ceil_def)
  moreover have none: "rv_request rv \<noteq> r" if "map_of (kv_reservations kv) rid = Some rv" for rid rv
    using D(9) [OF that] r by auto
  ultimately show ?thesis
    by (intro kv_inv_change [OF inv, where r = r and new = "Some ?s" and old = None])
      (use D(3,4,5) pool seqs cfg res nx pub refs len r none in
        \<open>auto simp: pages_of_def seq_ok_def pending_ok_def tail_private_def Let_def\<close>)
qed

lemma create_with_prefix_ok:
  assumes inv: "kv_inv kv" and r: "map_of (kv_sequences kv) r = None" and room: "prefix_room kv tokens"
  shows "\<exists>kv' ps. create_sequence_with_prefix h kv r tokens =
      Some (kv', Inr (length ps * cf_block_size (kv_config kv))) \<and> kv_inv kv' \<and>
    kv_sequences kv' = om_insert r \<lparr>sq_committed = length ps * cf_block_size (kv_config kv), sq_pages = ps,
      sq_pending = None, sq_registered = length ps,
      sq_chain = chain_at h (cf_block_size (kv_config kv)) tokens (length ps)\<rparr> (kv_sequences kv) \<and>
    kv_config kv' = kv_config kv \<and> length ps \<le> usable_blocks kv tokens \<and>
    (\<forall>j < length ps. kv_index kv (block_key_at h (cf_block_size (kv_config kv)) tokens j) = Some (ps ! j)) \<and>
    (length ps < usable_blocks kv tokens \<longrightarrow>
      kv_index kv (block_key_at h (cf_block_size (kv_config kv)) tokens (length ps)) = None) \<and>
    kv_spent (length tokens) kv kv' \<and> kv_reservations kv' = kv_reservations kv"
proof -
  note D = kv_invD [OF inv]
  let ?bs = "cf_block_size (kv_config kv)"
  let ?s0 = "\<lparr>sq_committed = 0, sq_pages = [], sq_pending = None, sq_registered = 0, sq_chain = CHAIN_ROOT\<rparr>"
  let ?kv0 = "set_sequence kv r ?s0"
  have cr: "create_sequence kv r = Some (?kv0, Inr ())" using r by (simp add: create_sequence_def)
  have bs: "0 < ?bs" using config_okD(1) [OF D(2)] .
  show ?thesis
  proof (cases "kv_prefix_caching kv \<and> 1 < length tokens")
    case False
    then have u: "usable_blocks kv tokens = 0" by (auto simp: usable_blocks_def)
    have "create_sequence_with_prefix h kv r tokens = Some (?kv0, Inr 0)"
      using False cr by (auto simp: create_sequence_with_prefix_def and_then_def)
    moreover have "kv_inv ?kv0" using create_sequence_ok [OF inv, of r] cr by auto
    ultimately show ?thesis
      using u by (intro exI [of _ ?kv0] exI [of _ "[]"]) (simp add: kv_spent_def)
  next
    case True
    let ?u = "(length tokens - 1) div ?bs"
    have u: "usable_blocks kv tokens = ?u" using True by (simp add: usable_blocks_def)
    have "\<exists>kv1 ps. match_prefix h tokens [0..<?u] ?kv0 (chain_at h ?bs tokens 0) [] =
        Some (kv1, chain_at h ?bs tokens (0 + length ps), [] @ ps) \<and>
      pool_inv kv1 \<and> kv_frame kv1 = kv_frame ?kv0 \<and> kv_room kv1 = kv_room ?kv0 \<and> kv_index kv1 = kv_index ?kv0 \<and>
      (\<forall>q. published kv1 q = published ?kv0 q) \<and> (\<forall>q \<in> set ps. published ?kv0 q) \<and>
      (\<forall>q. ref_at (kv_refs kv1) q = ref_at (kv_refs ?kv0) q + count_list ps q) \<and>
      0 + length ps \<le> ?u \<and> (\<forall>j < length ps. kv_index ?kv0 (block_key_at h ?bs tokens (0 + j)) = Some (ps ! j)) \<and>
      (0 + length ps < ?u \<longrightarrow> kv_index ?kv0 (block_key_at h ?bs tokens (0 + length ps)) = None)"
      by (rule match_prefix_ok)
        (use D(1) usable_bound [OF inv, of _ tokens] prefix_room_refs [OF inv room] in \<open>auto simp: u\<close>)
    then obtain kv1 ps where m: "match_prefix h tokens [0..<?u] ?kv0 CHAIN_ROOT [] =
        Some (kv1, chain_at h ?bs tokens (length ps), ps)"
      "pool_inv kv1" "kv_frame kv1 = kv_frame ?kv0"
      "\<forall>q. published kv1 q = published kv q" "\<forall>q \<in> set ps. published kv q"
      "\<forall>q. ref_at (kv_refs kv1) q = ref_at (kv_refs kv) q + count_list ps q" "length ps \<le> ?u"
      "\<forall>j < length ps. kv_index kv (block_key_at h ?bs tokens j) = Some (ps ! j)"
      "length ps < ?u \<longrightarrow> kv_index kv (block_key_at h ?bs tokens (length ps)) = None" "kv_room kv1 = kv_room kv"
      by auto
    note F = kv_frameD [OF m(3)]
    have le: "length ps * ?bs \<le> length tokens"
      using m(7) by (metis diff_le_self div_times_less_eq_dividend le_trans mult_le_mono1)
    then have len: "length ps * ?bs \<le> cf_max_sequence_length (kv_config kv)" "kv_reused kv + length ps * ?bs < usize_lim"
      using room by (auto simp: prefix_room_def)
    let ?kv' = "(set_sequence kv1 r \<lparr>sq_committed = length ps * ?bs, sq_pages = ps, sq_pending = None,
        sq_registered = length ps, sq_chain = chain_at h ?bs tokens (length ps)\<rparr>)
        \<lparr>kv_reused := kv_reused kv + length ps * ?bs\<rparr>"
    have "kv_inv ?kv'"
      by (rule share_inv [OF inv r m(2) _ _ _ _ m(4,5,6) len(1), where fresh = ?s0]) (simp_all add: F)
    moreover have "create_sequence_with_prefix h kv r tokens = Some (?kv', Inr (length ps * ?bs))"
      using True cr bs m(1) len F D(3) by (simp add: create_sequence_with_prefix_def and_then_def Let_def rust_simps)
    moreover have "kv_sequences ?kv' = om_insert r \<lparr>sq_committed = length ps * ?bs, sq_pages = ps, sq_pending = None,
        sq_registered = length ps, sq_chain = chain_at h ?bs tokens (length ps)\<rparr> (kv_sequences kv)"
      by (simp add: F om.ins_ins [OF D(3)])
    ultimately show ?thesis
      using m(7,8,9,10) F le by (intro exI [of _ ?kv'] exI [of _ ps]) (simp add: u kv_spent_def)
  qed
qed

subsection \<open>Registering\<close>

text \<open>Registration publishes pages that are referenced and not published yet.\<close>

lemma publish_ok:
  assumes "pool_inv kv" "0 < ref_at (kv_refs kv) p" "\<not> published kv p" "kv_index kv key = None"
  shows "pool_inv (kv\<lparr>kv_index := (kv_index kv)(key \<mapsto> p),
    kv_blocks := (kv_blocks kv)[p := Some \<lparr>cb_key = key, cb_tick = None\<rparr>]\<rparr>)"
  using pool_publish [OF pool_inv_ok [OF assms(1)] assms(2) _ assms(4)] assms(3)
  by (simp add: pool_inv_def published_def)

lemma register_loop_ok:
  assumes "pool_inv kv" "bs = cf_block_size (kv_config kv)" "i \<le> c" "c \<le> length pages"
    "\<And>j. j < c \<Longrightarrow> (j + 1) * bs \<le> length tokens"
    "\<And>j. i \<le> j \<Longrightarrow> j < c \<Longrightarrow> ch (Suc j) = h (ch j) (block_of bs tokens j)"
    "\<And>j. i \<le> j \<Longrightarrow> j < c \<Longrightarrow> 0 < ref_at (kv_refs kv) (pages ! j) \<and> \<not> published kv (pages ! j)"
    "\<And>j k. i \<le> j \<Longrightarrow> j < k \<Longrightarrow> k < c \<Longrightarrow> pages ! j \<noteq> pages ! k"
  shows "\<exists>kv'. register_loop h tokens pages [i..<c] kv (ch i) = Some (kv', ch c) \<and> pool_inv kv' \<and>
    kv_frame kv' = kv_frame kv \<and> kv_refs kv' = kv_refs kv \<and> kv_room kv' = kv_room kv \<and>
    (\<forall>q. published kv' q \<longrightarrow> published kv q \<or> q \<in> (!) pages ` {i..<c}) \<and>
    (\<forall>k. kv_index kv k \<noteq> None \<longrightarrow> kv_index kv' k = kv_index kv k) \<and>
    (\<forall>j. i \<le> j \<and> j < c \<longrightarrow> kv_index kv' (ch j, block_of bs tokens j) \<noteq> None)"
  using assms
proof (induction "c - i" arbitrary: i kv)
  case 0
  then show ?case by auto
next
  case (Suc d)
  then have ic: "i < c" by simp
  then have up: "[i..<c] = i # [Suc i..<c]" by (simp add: upt_conv_Cons)
  let ?k = "(ch i, block_of bs tokens i)" and ?p = "pages ! i"
  let ?kv1 = "if kv_index kv ?k = None then kv\<lparr>kv_index := (kv_index kv)(?k \<mapsto> ?p),
      kv_blocks := (kv_blocks kv)[?p := Some \<lparr>cb_key = ?k, cb_tick = None\<rparr>]\<rparr> else kv"
  have p: "0 < ref_at (kv_refs kv) ?p" "\<not> published kv ?p" using Suc.prems(7) [of i] ic by simp_all
  then have pl: "?p < length (kv_refs kv)" by (simp add: ref_at_def split: if_splits)
  then have pb: "?p < length (kv_blocks kv)" "kv_blocks kv ! ?p = None"
    using p(2) pool_inv_okD(1,2) [OF Suc.prems(1)] by (simp_all add: published_def block_at_def)
  have bt: "block_tokens (cf_block_size (kv_config kv)) tokens i = Some (block_of bs tokens i)"
    using block_tokens_eq [OF Suc.prems(5) [OF ic]] Suc.prems(2) by simp
  have step: "register_loop h tokens pages [i..<c] kv (ch i) = register_loop h tokens pages [Suc i..<c] ?kv1 (ch (Suc i))"
    using bt pb ic Suc.prems(4) Suc.prems(6) [OF le_refl ic] by (simp add: up Let_def rust_simps)
  have inv1: "pool_inv ?kv1" using publish_ok [OF Suc.prems(1) p] Suc.prems(1) by simp
  have pub1: "published ?kv1 q \<longleftrightarrow> published kv q \<or> (kv_index kv ?k = None \<and> q = ?p)" for q
    using pb by (auto simp: published_def)
  have fr: "kv_frame ?kv1 = kv_frame kv" "kv_refs ?kv1 = kv_refs kv" "kv_room ?kv1 = kv_room kv"
    "kv_config ?kv1 = kv_config kv" by (simp_all add: kv_frame_def kv_room_def)
  have d: "d = c - Suc i" and le: "Suc i \<le> c" using Suc.hyps(2) by simp_all
  have cfg: "bs = cf_block_size (kv_config ?kv1)" using Suc.prems(2) fr(4) by (simp only:)
  have own: "0 < ref_at (kv_refs ?kv1) (pages ! j) \<and> \<not> published ?kv1 (pages ! j)" if "Suc i \<le> j" "j < c" for j
    using Suc.prems(7) [of j] Suc.prems(8) [of i j] that by (simp only: fr(2) pub1) auto
  obtain kv' where kv': "register_loop h tokens pages [Suc i..<c] ?kv1 (ch (Suc i)) = Some (kv', ch c)" "pool_inv kv'"
    "kv_frame kv' = kv_frame ?kv1" "kv_refs kv' = kv_refs ?kv1" "kv_room kv' = kv_room ?kv1"
    "\<forall>q. published kv' q \<longrightarrow> published ?kv1 q \<or> q \<in> (!) pages ` {Suc i..<c}"
    "\<forall>k. kv_index ?kv1 k \<noteq> None \<longrightarrow> kv_index kv' k = kv_index ?kv1 k"
    "\<forall>j. Suc i \<le> j \<and> j < c \<longrightarrow> kv_index kv' (ch j, block_of bs tokens j) \<noteq> None"
    using Suc.hyps(1) [OF d inv1 cfg le Suc.prems(4,5,6) own Suc.prems(8)] by auto
  have "published kv q \<or> q \<in> (!) pages ` {i..<c}" if "published kv' q" for q
    using kv'(6) that pub1 [of q] ic by force
  moreover have "kv_index kv' ?k \<noteq> None" using kv'(7) by (cases "kv_index kv ?k") auto
  then have "kv_index kv' (ch j, block_of bs tokens j) \<noteq> None" if "i \<le> j" "j < c" for j
    using kv'(8) that by (cases "j = i") auto
  moreover have "kv_index kv' k = kv_index kv k" if "kv_index kv k \<noteq> None" for k
    using spec [OF kv'(7), of k] that by (cases "kv_index kv ?k = None"; cases "k = ?k") simp_all
  ultimately show ?case using kv'(1-5) by (intro exI [of _ kv']) (simp only: step fr, blast)
qed

fun chain_from :: "(nat \<Rightarrow> token list \<Rightarrow> nat) \<Rightarrow> usize \<Rightarrow> token list \<Rightarrow> nat \<Rightarrow> nat \<Rightarrow> nat \<Rightarrow> nat" where
  "chain_from h bs tokens parent i 0 = parent"
| "chain_from h bs tokens parent i (Suc n) = h (chain_from h bs tokens parent i n) (block_of bs tokens (i + n))"

lemma chain_from_at: "chain_from h bs tokens (chain_at h bs tokens i) i n = chain_at h bs tokens (i + n)"
  by (induction n) auto

text \<open>The number of blocks a registration may publish.\<close>

definition complete_blocks :: "paged_kv \<Rightarrow> sequence_state \<Rightarrow> token list \<Rightarrow> nat" where
  "complete_blocks kv s tokens = min (sq_committed s) (length tokens) div cf_block_size (kv_config kv)"

lemma private_once:
  assumes inv: "kv_inv kv" and s: "map_of (kv_sequences kv) r = Some s"
    and j: "sq_registered s \<le> j \<or> sq_registered s \<le> k" "j < k" "k < length (sq_pages s)"
  shows "sq_pages s ! j \<noteq> sq_pages s ! k"
proof
  assume eq: "sq_pages s ! j = sq_pages s ! k"
  have "tail_private kv s" using kv_invD(7) [OF inv s] by (simp add: seq_ok_def)
  then have "ref_at (kv_refs kv) (sq_pages s ! k) = 1" using j by (auto simp: tail_private_def)
  moreover have "2 \<le> count_list (sq_pages s) (sq_pages s ! k)" using count_list_two [OF j(2,3)] eq by blast
  ultimately show False using pages_referenced [OF inv s, of "sq_pages s ! k"] by simp
qed

lemma register_prefix_ok:
  assumes inv: "kv_inv kv" and s: "map_of (kv_sequences kv) r = Some s" and on: "kv_prefix_caching kv"
  shows "\<exists>kv'. register_prefix h kv r tokens = Some (kv', Inr ()) \<and> kv_inv kv' \<and> kv_frame kv' = kv_frame (kv
      \<lparr>kv_sequences := om_insert r (s\<lparr>sq_registered := max (sq_registered s) (complete_blocks kv s tokens),
        sq_chain := chain_from h (cf_block_size (kv_config kv)) tokens (sq_chain s) (sq_registered s)
          (complete_blocks kv s tokens - sq_registered s)\<rparr>) (kv_sequences kv)\<rparr>) \<and>
    kv_refs kv' = kv_refs kv \<and> kv_room kv' = kv_room kv \<and>
    (\<forall>k. kv_index kv k \<noteq> None \<longrightarrow> kv_index kv' k = kv_index kv k) \<and>
    (\<forall>j. sq_registered s \<le> j \<and> j < complete_blocks kv s tokens \<longrightarrow>
      kv_index kv' (chain_from h (cf_block_size (kv_config kv)) tokens (sq_chain s) (sq_registered s) (j - sq_registered s),
        block_of (cf_block_size (kv_config kv)) tokens j) \<noteq> None)"
proof -
  note D = kv_invD [OF inv]
  let ?bs = "cf_block_size (kv_config kv)" and ?c = "complete_blocks kv s tokens" and ?i = "sq_registered s"
  define ch where "ch j = chain_from h ?bs tokens (sq_chain s) ?i (j - ?i)" for j
  have bs: "0 < ?bs" using config_okD(1) [OF D(2)] .
  have ok: "seq_ok kv r s" using D(7) [OF s] .
  have cb: "?c * ?bs \<le> sq_committed s" "?c * ?bs \<le> length tokens"
    using div_times_less_eq_dividend [of "min (sq_committed s) (length tokens)" ?bs] by (simp_all add: complete_blocks_def)
  have cl: "?c \<le> length (sq_pages s)"
    using cb(1) seq_length(1) [OF inv s] bs by (simp add: div_ceil_le_iff) (meson le_trans mult_le_cancel2)
  have fits: "(j + 1) * ?bs \<le> length tokens" if "j < ?c" for j
    using cb(2) mult_le_mono1 [of "j + 1" ?c ?bs] that by simp
  have tp: "ref_at (kv_refs kv) (sq_pages s ! j) = 1 \<and> \<not> published kv (sq_pages s ! j)"
    if "?i \<le> j" "j < length (sq_pages s)" for j
    using ok that by (simp add: seq_ok_def tail_private_def)
  have chS: "ch (Suc j) = h (ch j) (block_of ?bs tokens j)" if "?i \<le> j" for j
    using that by (simp add: ch_def Suc_diff_le)
  have "\<exists>kv1. register_loop h tokens (sq_pages s) [?i..<?c] kv (sq_chain s) = Some (kv1, ch (max ?i ?c)) \<and> pool_inv kv1 \<and>
    kv_frame kv1 = kv_frame kv \<and> kv_refs kv1 = kv_refs kv \<and> kv_room kv1 = kv_room kv \<and>
    (\<forall>q. published kv1 q \<longrightarrow> published kv q \<or> q \<in> (!) (sq_pages s) ` {?i..<?c}) \<and>
    (\<forall>k. kv_index kv k \<noteq> None \<longrightarrow> kv_index kv1 k = kv_index kv k) \<and>
    (\<forall>j. ?i \<le> j \<and> j < ?c \<longrightarrow> kv_index kv1 (ch j, block_of ?bs tokens j) \<noteq> None)"
  proof (cases "?i \<le> ?c")
    case True
    have own: "0 < ref_at (kv_refs kv) (sq_pages s ! j) \<and> \<not> published kv (sq_pages s ! j)" if "?i \<le> j" "j < ?c" for j
      using tp [of j] that cl by simp
    have once: "sq_pages s ! j \<noteq> sq_pages s ! k" if "?i \<le> j" "j < k" "k < ?c" for j k
      using private_once [OF inv s] that cl by auto
    have "ch ?i = sq_chain s" by (simp add: ch_def)
    with register_loop_ok [where ch = ch and h = h and tokens = tokens, OF D(1) refl True cl fits chS own once] True show ?thesis by (auto simp: max_absorb2)
  next
    case False
    then show ?thesis using D(1) by (auto simp: ch_def)
  qed
  then obtain kv1 where kv1: "register_loop h tokens (sq_pages s) [?i..<?c] kv (sq_chain s) = Some (kv1, ch (max ?i ?c))"
    "pool_inv kv1" "kv_frame kv1 = kv_frame kv" "kv_refs kv1 = kv_refs kv"
    "\<forall>q. published kv1 q \<longrightarrow> published kv q \<or> q \<in> (!) (sq_pages s) ` {?i..<?c}"
    "\<forall>k. kv_index kv k \<noteq> None \<longrightarrow> kv_index kv1 k = kv_index kv k"
    "\<forall>j. ?i \<le> j \<and> j < ?c \<longrightarrow> kv_index kv1 (ch j, block_of ?bs tokens j) \<noteq> None" "kv_room kv1 = kv_room kv" by blast
  note F = kv_frameD [OF kv1(3)]
  let ?s = "s\<lparr>sq_registered := max ?i ?c, sq_chain := ch (max ?i ?c)\<rparr>"
  let ?kv' = "set_sequence kv1 r ?s"
  have "kv_inv ?kv'"
  proof (rule kv_inv_change [OF inv, where r = r and new = "Some ?s" and old = "Some s"])
    show "om_ok (kv_sequences ?kv')" "om_ok (kv_reservations ?kv')" using D(3,4) F by simp_all
    show "map_of (kv_sequences ?kv') r' = (if r' = r then Some ?s else map_of (kv_sequences kv) r')" for r'
      using D(3) F by simp
    show "if rv_request rv = r then (\<exists>t. Some ?s = Some t \<and> sq_pending t = Some rid) \<and>
        reservation_num rid < kv_next_reservation ?kv'
      else map_of (kv_reservations kv) rid = Some rv"
      if "map_of (kv_reservations ?kv') rid = Some rv" for rid rv
      using that other_reservation [OF inv s, of rid rv] D(8) [of rid rv] F by simp
    show "published kv q \<or> q \<in> set (pages_of (Some s))"
      if "0 < ref_at (kv_refs kv) q" "published ?kv' q" for q
      using that kv1(5) cl by (auto simp: pages_of_def)
    fix t assume "Some ?s = Some t"
    then have t: "t = ?s" by simp
    have "tail_private ?kv' ?s"
      unfolding tail_private_def
    proof (intro allI impI)
      fix i assume i: "sq_registered ?s \<le> i \<and> i < length (sq_pages ?s)"
      then have "sq_pages s ! x \<noteq> sq_pages s ! i" if "?i \<le> x" "x < ?c" for x
        using private_once [OF inv s, of x i] that by simp
      then have "sq_pages s ! i \<notin> (!) (sq_pages s) ` {?i..<?c}" by force
      then show "ref_at (kv_refs ?kv') (sq_pages ?s ! i) = 1 \<and> \<not> published ?kv' (sq_pages ?s ! i)"
        using tp [of i] i kv1(4,5) by auto
    qed
    moreover have "max ?i ?c * ?bs \<le> sq_committed s" using ok cb(1) by (simp add: seq_ok_def max_def)
    ultimately show "seq_ok ?kv' r t"
      using ok F by (cases "sq_pending s"; cases "map_of (kv_reservations kv) (the (sq_pending s))")
        (simp_all add: t seq_ok_def pending_ok_def Let_def)
  qed (use kv1 F D(5) s in \<open>auto simp: pages_of_def\<close>)
  moreover have "register_prefix h kv r tokens = Some (?kv', Inr ())"
    using on s kv1(1) bs F by (simp add: register_prefix_def kv_sequence_def complete_blocks_def Let_def rust_simps)
  moreover have "ch (max ?i ?c) = chain_from h ?bs tokens (sq_chain s) ?i (?c - ?i)"
    by (cases "?i \<le> ?c") (simp_all add: ch_def max_def)
  ultimately show ?thesis
    using kv1(4,6,7,8) F by (intro exI [of _ ?kv']) (simp add: kv_room_def kv_frame_def set_sequence_def ch_def [symmetric])
qed

subsection \<open>Switching the cache\<close>

lemma pool_unlist:
  assumes ok: "pool_ok n free refs blocks index ((t, p) # rest) tick" and b: "block_at blocks p = Some b"
  shows "pool_ok n (insort_insert p free) refs (blocks[p := None]) (index(cb_key b := None)) rest tick"
proof -
  note D = pool_okD [OF ok]
  have tb: "cb_tick b = Some t" using D(6) [of t p] b by simp
  have pl: "p < length refs" using block_at_Some [OF b] D(1,2) by simp
  then have r0: "refs ! p = 0" using D(7) [OF b] tb by (simp add: ref_at_def)
  have rest: "om_remove t ((t, p) # rest) = rest"
    using om_pop_first_spec [OF D(4), of t p rest] by (simp add: om_pop_first_def)
  have "pool_ok n free (refs[p := 1]) (blocks[p := None]) (index(cb_key b := None)) rest tick"
    using pool_take_evictable [OF ok b tb] rest by simp
  from pool_release_free [OF this, of p] have
    "pool_ok n (insort_insert p free) (refs[p := 1, p := 0]) (blocks[p := None]) (index(cb_key b := None)) rest tick"
    using pl D(1,2) by simp
  then show ?thesis using r0 by (simp add: list_update_same_conv [THEN iffD2, OF pl])
qed

lemma drop_evictable_ok:
  assumes "pool_inv (kv\<lparr>kv_evictable := ev\<rparr>)" "kv_evictable kv = []"
  shows "\<exists>kv'. mfold drop_to_free (map snd ev) kv = Some kv' \<and> pool_inv kv' \<and> kv_frame kv' = kv_frame kv \<and>
    kv_refs kv' = kv_refs kv \<and> kv_evictable kv' = [] \<and>
    (\<forall>q. 0 < ref_at (kv_refs kv) q \<longrightarrow> published kv' q = published kv q)"
  using assms
proof (induction ev arbitrary: kv)
  case Nil
  then have "kv\<lparr>kv_evictable := []\<rparr> = kv" by simp
  with Nil show ?case by simp
next
  case (Cons x ev)
  obtain t p where x: "x = (t, p)" by (cases x)
  note P = pool_inv_ok [OF Cons.prems(1), simplified] and D = pool_inv_okD [OF Cons.prems(1), simplified]
  obtain b where b: "block_at (kv_blocks kv) p = Some b" "cb_tick b = Some t"
    using D(6) [of t p] x by auto
  have ix: "kv_index kv (cb_key b) = Some p" using D(8) b(1) by blast
  have r0: "ref_at (kv_refs kv) p = 0" using D(7) [OF b(1)] b(2) by simp
  let ?kv = "kv\<lparr>kv_blocks := (kv_blocks kv)[p := None], kv_index := (kv_index kv)(cb_key b := None),
     kv_free := insort_insert p (kv_free kv)\<rparr>"
  have step: "drop_to_free p kv = Some ?kv"
    using block_at_Some [OF b(1)] ix
    by (simp add: drop_to_free_def drop_cached_block_def rust_simps bs_insert_def Let_def set_insort_insert)
  have "pool_inv (?kv\<lparr>kv_evictable := ev\<rparr>)"
    using pool_unlist [of _ _ _ _ _ t p ev] P b(1) by (simp add: pool_inv_def x)
  moreover have "kv_evictable ?kv = []" using Cons.prems(2) by simp
  moreover have "published ?kv q = published kv q" if "0 < ref_at (kv_refs kv) q" for q
    using that r0 by (auto simp: published_def)
  ultimately show ?case
    using Cons.IH [of ?kv] step by (auto simp: x kv_frame_def)
qed

lemma kv_inv_pool_only:
  assumes inv: "kv_inv kv" and "pool_inv kv'" "kv_config kv' = kv_config kv" "kv_sequences kv' = kv_sequences kv"
    "kv_reservations kv' = kv_reservations kv" "kv_next_reservation kv' = kv_next_reservation kv" "kv_refs kv' = kv_refs kv"
    and pub: "\<forall>q. 0 < ref_at (kv_refs kv) q \<longrightarrow> published kv' q = published kv q"
  shows "kv_inv kv'"
proof -
  note D = kv_invD [OF inv]
  have "seq_ok kv' r s" if s: "map_of (kv_sequences kv) r = Some s" for r s
  proof -
    have ok: "seq_ok kv r s" using D(7) [OF s] .
    then have "tail_private kv' s"
      using tail_private_transfer [OF inv s, of kv'] assms by (simp add: seq_ok_def)
    moreover have "pending_ok kv' r s = pending_ok kv r s" by (simp only: pending_ok_def assms(3,5))
    ultimately show ?thesis using ok assms(3) by (simp add: seq_ok_def)
  qed
  with inv assms show ?thesis unfolding kv_inv_def by simp
qed

lemma set_prefix_caching_ok:
  assumes inv: "kv_inv kv"
  shows "\<exists>kv'. set_prefix_caching kv on = Some kv' \<and> kv_inv kv' \<and> kv_sequences kv' = kv_sequences kv \<and>
    kv_config kv' = kv_config kv \<and> kv_reservations kv' = kv_reservations kv \<and> kv_refs kv' = kv_refs kv \<and>
    kv_prefix_caching kv' = on \<and> (\<not> on \<longrightarrow> kv_evictable kv' = [])"
proof (cases on)
  case True
  have "kv_inv (kv\<lparr>kv_prefix_caching := True\<rparr>)"
    using kv_invD(1) [OF inv] by (intro kv_inv_pool_only [OF inv]) simp_all
  with True show ?thesis by (simp add: set_prefix_caching_def Let_def)
next
  case False
  let ?kv = "kv\<lparr>kv_prefix_caching := False, kv_evictable := []\<rparr>"
  have "pool_inv (?kv\<lparr>kv_evictable := kv_evictable kv\<rparr>)" using kv_invD(1) [OF inv] by (simp add: pool_inv_def)
  then obtain kv' where kv': "mfold drop_to_free (map snd (kv_evictable kv)) ?kv = Some kv'" "pool_inv kv'"
    "kv_frame kv' = kv_frame ?kv" "kv_refs kv' = kv_refs ?kv" "kv_evictable kv' = []"
    "\<forall>q. 0 < ref_at (kv_refs ?kv) q \<longrightarrow> published kv' q = published ?kv q"
    using drop_evictable_ok [of "kv_evictable kv" ?kv] by auto
  note F = kv_frameD [OF kv'(3)]
  have "kv_inv kv'"
    by (rule kv_inv_pool_only [OF inv kv'(2)]) (use F kv'(4,6) in \<open>simp_all add: published_def\<close>)
  with False kv' F show ?thesis by (simp add: set_prefix_caching_def Let_def)
qed

subsection \<open>A new manager\<close>

lemma kv_new_inv:
  assumes "kv_new c = Inr kv" "cf_max_sequence_length c < usize_lim"
  shows "kv_inv kv"
proof -
  have c: "config_validate c = Inr ()" and kv: "kv = \<lparr>kv_config = c, kv_free = [0..<cf_num_pages c],
        kv_refs = replicate (cf_num_pages c) 0, kv_blocks = replicate (cf_num_pages c) None,
        kv_index = Map.empty, kv_evictable = [], kv_next_tick = 0, kv_prefix_caching = False,
        kv_reused = 0, kv_sequences = [], kv_reservations = [], kv_next_reservation = 1\<rparr>"
    using assms(1) by (auto simp: kv_new_def ok_then_def split: sum.splits)
  have "pool_inv kv"
    by (auto simp: kv pool_inv_def pool_ok_def bs_ok_def om_ok_def ref_at_def block_at_def sorted_wrt_upt split: if_splits)
  moreover have "config_ok c" using c assms(2) by (simp add: config_ok_def)
  moreover have "om_ok ([] :: (request_id \<times> sequence_state) list)" "om_ok ([] :: (kv_reservation_id \<times> reservation_state) list)"
    by (simp_all add: om_ok_def)
  moreover have "ref_at (replicate m 0) p = 0" for m p by (simp add: ref_at_def)
  moreover have "page_total [] p = 0" for p by (simp add: page_total_def om.total_def)
  ultimately show ?thesis unfolding kv_inv_def by (simp add: kv usize_lim_def)
qed

end
