(* ===== verification/Batch_Kv_View.thy ===== *)
theory Batch_Kv_View
  imports Paged_Kv_Prefix Batch_Scheduler
begin

text \<open>
  The KV cache manager as the scheduler uses it: of every sequence only the committed length and
  the pending append count.  Each operation the scheduler calls is a small change of this view;
  the counters that only grow are accounted for in one budget.
\<close>

subsection \<open>The view\<close>

type_synonym kv_view = "request_id \<Rightarrow> (usize \<times> (kv_reservation_id \<times> usize) option) option"

definition reservation_tokens :: "paged_kv \<Rightarrow> kv_reservation_id \<Rightarrow> usize" where
  "reservation_tokens kv rid = rv_tokens (the (map_of (kv_reservations kv) rid))"

definition pending_view :: "paged_kv \<Rightarrow> sequence_state \<Rightarrow> (kv_reservation_id \<times> usize) option" where
  "pending_view kv q = map_option (\<lambda>rid. (rid, reservation_tokens kv rid)) (sq_pending q)"

definition seq_view :: "paged_kv \<Rightarrow> kv_view" where
  "seq_view kv r = map_option (\<lambda>q. (sq_committed q, pending_view kv q)) (map_of (kv_sequences kv) r)"

definition kv_spare :: "paged_kv \<Rightarrow> nat \<Rightarrow> bool" where
  "kv_spare kv n \<longleftrightarrow> n \<le> kv_room kv \<and> kv_next_reservation kv + n < usize_lim \<and> kv_reused kv + n < usize_lim"

lemma spare_spent: "kv_spare kv (m + n) \<Longrightarrow> kv_spent m kv kv' \<Longrightarrow> kv_spare kv' n"
  by (simp add: kv_spare_def kv_spent_def)

lemma spare_mono: "kv_spare kv n \<Longrightarrow> m \<le> n \<Longrightarrow> kv_spare kv m"
  by (simp add: kv_spare_def)

text \<open>An operation that leads to a manager with the given view, spending at most \<open>n\<close>.\<close>

definition kv_to :: "nat \<Rightarrow> paged_kv \<Rightarrow> paged_kv \<Rightarrow> kv_view \<Rightarrow> bool" where
  "kv_to n kv kv' v \<longleftrightarrow> kv_inv kv' \<and> kv_config kv' = kv_config kv \<and> kv_spent n kv kv' \<and> seq_view kv' = v"

lemma kv_toD:
  assumes "kv_to n kv kv' v"
  shows "kv_inv kv'" "kv_config kv' = kv_config kv" "kv_spent n kv kv'" "seq_view kv' = v"
  using assms by (simp_all add: kv_to_def)

lemma seq_view_None: "seq_view kv r = None \<longleftrightarrow> map_of (kv_sequences kv) r = None"
  by (simp add: seq_view_def)

lemma seq_view_Some:
  "seq_view kv r = Some (c, p) \<longleftrightarrow>
     (\<exists>q. map_of (kv_sequences kv) r = Some q \<and> sq_committed q = c \<and> pending_view kv q = p)"
  by (auto simp: seq_view_def)

lemma pending_view_None [simp]: "pending_view kv q = None \<longleftrightarrow> sq_pending q = None"
  by (simp add: pending_view_def)

lemma view_pending:
  assumes inv: "kv_inv kv" and v: "seq_view kv r = Some (c, Some (rid, n))"
  shows "\<exists>q rv. map_of (kv_sequences kv) r = Some q \<and> sq_committed q = c \<and> sq_pending q = Some rid \<and>
    map_of (kv_reservations kv) rid = Some rv \<and> rv_request rv = r \<and> rv_start rv = c \<and> rv_tokens rv = n \<and>
    0 < n \<and> c + n \<le> cf_max_sequence_length (kv_config kv)"
proof -
  obtain q where q: "map_of (kv_sequences kv) r = Some q" "sq_committed q = c" "sq_pending q = Some rid"
    "reservation_tokens kv rid = n"
    using v by (auto simp: seq_view_Some pending_view_def)
  then show ?thesis
    using kv_invD(7) [OF inv q(1)]
    by (auto simp: seq_ok_def pending_ok_def Let_def reservation_tokens_def split: option.splits)
qed

lemma view_pending_inj:
  assumes "kv_inv kv" "seq_view kv r = Some (c, Some (rid, n))" "seq_view kv r' = Some (c', Some (rid, n'))"
  shows "r = r'"
  using view_pending [OF assms(1,2)] view_pending [OF assms(1,3)] by auto

lemma view_idle:
  assumes "kv_inv kv" "seq_view kv r = Some (c, None)"
  shows "\<exists>q. map_of (kv_sequences kv) r = Some q \<and> sq_committed q = c \<and> sq_pending q = None \<and>
    length (sq_pages q) = div_ceil c (cf_block_size (kv_config kv))"
  using assms(2) seq_length(3) [OF assms(1)] by (auto simp: seq_view_Some)

lemma view_committed: "kv_inv kv \<Longrightarrow> seq_view kv r = Some (c, p) \<Longrightarrow> c \<le> cf_max_sequence_length (kv_config kv)"
  using kv_invD(7) [of kv r] by (auto simp: seq_view_Some seq_ok_def)

text \<open>A change of one sequence and of its own reservation is a change of the view at one request.\<close>

lemma seq_view_upd:
  assumes "om_ok (kv_sequences kv)" "kv_sequences kv' = om_insert r q (kv_sequences kv)"
    and "\<And>r' q' rid. r' \<noteq> r \<Longrightarrow> map_of (kv_sequences kv) r' = Some q' \<Longrightarrow> sq_pending q' = Some rid \<Longrightarrow>
      map_of (kv_reservations kv') rid = map_of (kv_reservations kv) rid"
  shows "seq_view kv' = (seq_view kv)(r \<mapsto> (sq_committed q, pending_view kv' q))"
proof
  fix r'
  show "seq_view kv' r' = ((seq_view kv)(r \<mapsto> (sq_committed q, pending_view kv' q))) r'"
  proof (cases "r' = r")
    case False
    then show ?thesis
      using assms by (cases "map_of (kv_sequences kv) r'"; cases "sq_pending (the (map_of (kv_sequences kv) r'))")
        (auto simp: seq_view_def pending_view_def reservation_tokens_def)
  qed (use assms in \<open>simp add: seq_view_def\<close>)
qed

lemma pending_owner:
  assumes "kv_inv kv" "map_of (kv_sequences kv) r = Some q" "sq_pending q = Some rid"
  shows "\<exists>rv. map_of (kv_reservations kv) rid = Some rv \<and> rv_request rv = r"
  using kv_invD(7) [OF assms(1,2)] assms(3) by (auto simp: seq_ok_def pending_ok_def Let_def split: option.splits)

subsection \<open>Reserving\<close>

lemma can_append_iff:
  assumes inv: "kv_inv kv" and sp: "kv_spare kv 1" and v: "seq_view kv r = Some (c, p)"
  shows "can_append kv r n = Some (Inr (begin_ready kv r n))"
  using v sp config_okD [OF kv_invD(2) [OF inv]]
  by (auto simp: seq_view_Some can_append_def begin_ready_def kv_sequence_def udiv_ceil_def kv_spare_def Let_def not_less)

lemma begin_view:
  assumes inv: "kv_inv kv" and v: "seq_view kv r = Some (c, p)" and ready: "begin_ready kv r n"
  shows "p = None \<and> n \<noteq> 0 \<and> c + n \<le> cf_max_sequence_length (kv_config kv) \<and>
    (\<exists>kv' a. begin_append kv r n = Some (kv', Inr a) \<and> ar_request a = r \<and> ar_start a = c \<and>
      ar_context_length a = c + n \<and> length (ar_block_table a) = div_ceil (c + n) (cf_block_size (kv_config kv)) \<and>
      kv_to 1 kv kv' ((seq_view kv)(r \<mapsto> (c, Some (ar_id a, n)))))"
proof -
  obtain kv' s ps where b: "begin_append kv r n = Some (kv', Inr \<lparr>ar_id = KvReservationId (kv_next_reservation kv),
        ar_request = r, ar_start = sq_committed s, ar_tokens = n, ar_context_length = sq_committed s + n,
        ar_new_pages = ps, ar_block_table = sq_pages s @ ps\<rparr>)"
      "kv_inv kv'" "map_of (kv_sequences kv) r = Some s"
      "kv_sequences kv' = om_insert r (s\<lparr>sq_pages := sq_pages s @ ps,
        sq_pending := Some (KvReservationId (kv_next_reservation kv))\<rparr>) (kv_sequences kv)"
      "kv_reservations kv' = om_insert (KvReservationId (kv_next_reservation kv))
        \<lparr>rv_request = r, rv_previous_pages = length (sq_pages s), rv_start = sq_committed s, rv_tokens = n\<rparr>
        (kv_reservations kv)" "kv_config kv' = kv_config kv"
      "length (sq_pages s @ ps) = div_ceil (sq_committed s + n) (cf_block_size (kv_config kv))" "kv_spent 1 kv kv'"
    using begin_append_ready [OF inv ready] by blast
  have c: "sq_committed s = c" using v b(3) by (auto simp: seq_view_Some)
  have "rid' \<noteq> KvReservationId (kv_next_reservation kv)"
    if "map_of (kv_sequences kv) r' = Some q'" "sq_pending q' = Some rid'" for r' q' rid'
    using pending_owner [OF inv that] kv_invD(8) [OF inv, of rid'] by auto
  then have "seq_view kv' = (seq_view kv)(r \<mapsto> (c, Some (KvReservationId (kv_next_reservation kv), n)))"
    by (subst seq_view_upd [OF kv_invD(3) [OF inv] b(4)])
      (use b(5) kv_invD(4) [OF inv] in \<open>auto simp: c pending_view_def reservation_tokens_def\<close>)
  moreover have "p = None" "n \<noteq> 0" "c + n \<le> cf_max_sequence_length (kv_config kv)"
    using ready v c b(3) by (auto simp: begin_ready_def seq_view_Some)
  ultimately show ?thesis using b c by (auto simp: kv_to_def)
qed

lemma extend_view:
  assumes inv: "kv_inv kv" and v: "seq_view kv r = Some (c, Some (rid, n))"
  shows "(\<exists>e. extend_append kv rid extra = Some (kv, Inl e)) \<or>
    (\<exists>kv' a. extend_append kv rid extra = Some (kv', Inr a) \<and>
      kv_to 0 kv kv' ((seq_view kv)(r \<mapsto> (c, Some (rid, n + extra)))))"
proof -
  obtain q rv where q: "map_of (kv_sequences kv) r = Some q" "sq_committed q = c" "sq_pending q = Some rid"
    "map_of (kv_reservations kv) rid = Some rv" "rv_request rv = r" "rv_start rv = c" "rv_tokens rv = n"
    using view_pending [OF inv v] by blast
  show ?thesis
  proof (cases "extend_ready kv rv q extra")
    case True
    obtain kv' a ps where e: "extend_append kv rid extra = Some (kv', Inr a)" "kv_inv kv'" "kv_config kv' = kv_config kv"
      "kv_sequences kv' = om_insert r (q\<lparr>sq_pages := sq_pages q @ ps\<rparr>) (kv_sequences kv)"
      "kv_reservations kv' = om_insert rid (rv\<lparr>rv_tokens := rv_tokens rv + extra\<rparr>) (kv_reservations kv)"
      "kv_spent 0 kv kv'"
      using extend_append_ready [OF inv q(4) _ True] q(1,5) by auto
    have "rid' \<noteq> rid" if "r' \<noteq> r" "map_of (kv_sequences kv) r' = Some q'" "sq_pending q' = Some rid'" for r' q' rid'
      using pending_owner [OF inv that(2,3)] q(4,5) that(1) by auto
    then have "seq_view kv' = (seq_view kv)(r \<mapsto> (c, Some (rid, n + extra)))"
      by (subst seq_view_upd [OF kv_invD(3) [OF inv] e(4)])
        (use e(5) kv_invD(4) [OF inv] q in \<open>auto simp: pending_view_def reservation_tokens_def\<close>)
    with e show ?thesis by (auto simp: kv_to_def)
  next
    case False
    have "\<exists>e. extend_append kv rid extra = Some (kv, Inl e)"
      by (rule extend_append_refused [OF inv]) (use False q in auto)
    then show ?thesis by blast
  qed
qed

subsection \<open>Settling\<close>

lemma partial_view:
  assumes inv: "kv_inv kv" and v: "seq_view kv r = Some (c, Some (rid, n))"
    and k: "0 < k" "k \<le> n" and room: "kv_spare kv (cf_max_sequence_length (kv_config kv))"
  shows "\<exists>kv' x. commit_append_partial kv rid k = Some (kv', Inr x) \<and>
    kv_to (cf_max_sequence_length (kv_config kv)) kv kv' ((seq_view kv)(r \<mapsto> (c + k, None)))"
proof -
  obtain q rv where q: "map_of (kv_sequences kv) r = Some q" "sq_pending q = Some rid"
    "map_of (kv_reservations kv) rid = Some rv" "rv_request rv = r" "rv_start rv = c" "rv_tokens rv = n"
    using view_pending [OF inv v] by blast
  obtain kv' s where e: "commit_append_partial kv rid k = Some (kv', Inr (rv_start rv + k))"
    "settled (cf_max_sequence_length (kv_config kv)) kv kv' rid" "map_of (kv_sequences kv) r = Some s"
    "kv_sequences kv' = om_insert r (s\<lparr>sq_committed := rv_start rv + k,
      sq_pages := take (div_ceil (rv_start rv + k) (cf_block_size (kv_config kv))) (sq_pages s),
      sq_pending := None\<rparr>) (kv_sequences kv)"
    using commit_append_partial_done [OF inv _ q(3), of k] k q(4,6) room by (auto simp: kv_spare_def)
  have "rid' \<noteq> rid" if "r' \<noteq> r" "map_of (kv_sequences kv) r' = Some q'" "sq_pending q' = Some rid'" for r' q' rid'
    using pending_owner [OF inv that(2,3)] q(3,4) that(1) by auto
  then have "seq_view kv' = (seq_view kv)(r \<mapsto> (c + k, None))"
    by (subst seq_view_upd [OF kv_invD(3) [OF inv] e(4)])
      (use e(2) kv_invD(4) [OF inv] q(5) in \<open>auto simp: settled_def pending_view_def\<close>)
  with e(1,2) show ?thesis by (auto simp: kv_to_def settled_def)
qed

text \<open>A group of settled reservations: the requests whose pending append is in the group change.\<close>

definition settle_view :: "(usize \<Rightarrow> kv_reservation_id \<Rightarrow> usize option) \<Rightarrow> kv_view \<Rightarrow> kv_view" where
  "settle_view f v r =
     (case v r of
        Some (c, Some (rid, n)) \<Rightarrow> (case f c rid of Some c' \<Rightarrow> Some (c', None) | None \<Rightarrow> v r)
      | _ \<Rightarrow> v r)"

lemma group_view:
  assumes inv: "kv_inv kv" and g: "group_done kv kv' ended view"
    and q: "\<And>r q. map_of (kv_sequences kv) r = Some q \<Longrightarrow>
      (case sq_pending q of
         None \<Rightarrow> view q = q
       | Some rid \<Rightarrow> (case f (sq_committed q) rid of
           None \<Rightarrow> rid \<notin> ended \<and> view q = q
         | Some c \<Rightarrow> sq_committed (view q) = c \<and> sq_pending (view q) = None))"
  shows "kv_to (card ended * cf_max_sequence_length (kv_config kv)) kv kv' (settle_view f (seq_view kv))"
proof -
  note G = g [unfolded group_done_def]
  have "seq_view kv' r = settle_view f (seq_view kv) r" for r
  proof (cases "map_of (kv_sequences kv) r")
    case (Some s)
    then show ?thesis
      using q [OF Some] G
      by (cases "sq_pending s"; cases "f (sq_committed s) (the (sq_pending s))")
        (simp_all add: seq_view_def settle_view_def pending_view_def reservation_tokens_def)
  qed (use G in \<open>simp add: seq_view_def settle_view_def\<close>)
  with G show ?thesis by (auto simp: kv_to_def)
qed

lemma cancel_group_view:
  assumes inv: "kv_inv kv" and d: "distinct rids" and v: "\<And>rid. rid \<in> set rids \<Longrightarrow> \<exists>r c n. seq_view kv r = Some (c, Some (rid, n))"
    and room: "kv_spare kv (length rids * cf_max_sequence_length (kv_config kv))"
  shows "\<exists>kv'. cancel_appends kv rids = Some (kv', Inr ()) \<and>
    kv_to (length rids * cf_max_sequence_length (kv_config kv)) kv kv'
      (settle_view (\<lambda>c rid. if rid \<in> set rids then Some c else None) (seq_view kv))"
proof -
  have "\<forall>rid \<in> set rids. map_of (kv_reservations kv) rid \<noteq> None"
    using v view_pending [OF inv] by (metis option.distinct(1))
  then obtain kv' where kv': "cancel_appends kv rids = Some (kv', Inr ())"
    "group_done kv kv' (set rids) (cancel_view kv (set rids))"
    using cancel_appends_done [OF inv, of rids] d room by (auto simp: kv_spare_def)
  have "kv_to (card (set rids) * cf_max_sequence_length (kv_config kv)) kv kv'
      (settle_view (\<lambda>c rid. if rid \<in> set rids then Some c else None) (seq_view kv))"
    by (rule group_view [OF inv kv'(2)]) (auto simp: cancel_view_def cancel_upd_def split: option.splits)
  with kv'(1) show ?thesis by (simp add: distinct_card [OF d])
qed

lemma commit_group_view:
  assumes inv: "kv_inv kv" and d: "distinct (map fst rows)"
    and v: "\<And>rid k. (rid, k) \<in> set rows \<Longrightarrow> \<exists>r c n. seq_view kv r = Some (c, Some (rid, n)) \<and> 0 < k \<and> k \<le> n"
    and room: "kv_spare kv (length rows * cf_max_sequence_length (kv_config kv))"
  shows "\<exists>kv' x. commit_append_prefixes kv rows = Some (kv', Inr x) \<and>
    kv_to (length rows * cf_max_sequence_length (kv_config kv)) kv kv'
      (settle_view (\<lambda>c rid. map_option (\<lambda>k. c + k) (map_of rows rid)) (seq_view kv))"
proof -
  have ok: "\<exists>rv. map_of (kv_reservations kv) (fst row) = Some rv \<and> 0 < snd row \<and> snd row \<le> rv_tokens rv"
    if row: "row \<in> set rows" for row
  proof -
    obtain r c n where "seq_view kv r = Some (c, Some (fst row, n))" "0 < snd row" "snd row \<le> n"
      using v [of "fst row" "snd row"] row by auto
    then show ?thesis using view_pending [OF inv] by blast
  qed
  then obtain kv' x where kv': "commit_append_prefixes kv rows = Some (kv', Inr x)"
    "group_done kv kv' (fst ` set rows) (prefix_view kv rows)"
    using commit_append_prefixes_done [OF inv, of rows] d room by (auto simp: kv_spare_def)
  have st: "rv_start (the (map_of (kv_reservations kv) rid)) = sq_committed q"
    if "map_of (kv_sequences kv) r = Some q" "sq_pending q = Some rid" for r q rid
    using kv_invD(7) [OF inv that(1)] that(2)
    by (auto simp: seq_ok_def pending_ok_def Let_def split: option.splits)
  have nin: "rid \<notin> fst ` set rows" if "map_of rows rid = None" for rid using that by (simp add: map_of_eq_None_iff)
  have "kv_to (card (fst ` set rows) * cf_max_sequence_length (kv_config kv)) kv kv'
      (settle_view (\<lambda>c rid. map_option (\<lambda>k. c + k) (map_of rows rid)) (seq_view kv))"
    by (rule group_view [OF inv kv'(2)])
      (auto simp: prefix_view_def prefix_upd_def st nin split: option.splits)
  moreover have "card (fst ` set rows) = length rows" using distinct_card [OF d] by simp
  ultimately show ?thesis using kv'(1) by auto
qed

subsection \<open>Sequences\<close>

lemma remove_view:
  assumes inv: "kv_inv kv" and v: "seq_view kv r = Some (c, None)"
    and room: "kv_spare kv (cf_max_sequence_length (kv_config kv))"
  shows "\<exists>kv'. remove_sequence kv r = Some (kv', Inr ()) \<and>
    kv_to (cf_max_sequence_length (kv_config kv)) kv kv' ((seq_view kv)(r := None))"
proof -
  obtain q where q: "map_of (kv_sequences kv) r = Some q" "sq_pending q = None" using view_idle [OF inv v] by blast
  obtain kv' where e: "remove_sequence kv r = Some (kv', Inr ())" "kv_inv kv'" "kv_config kv' = kv_config kv"
    "kv_sequences kv' = om_remove r (kv_sequences kv)" "kv_reservations kv' = kv_reservations kv"
    "kv_spent (cf_max_sequence_length (kv_config kv)) kv kv'"
    using remove_sequence_ok [OF inv q] room by (auto simp: kv_spare_def)
  have "seq_view kv' = (seq_view kv)(r := None)"
    by (rule ext) (simp add: e(4,5) seq_view_def pending_view_def reservation_tokens_def)
  with e show ?thesis by (auto simp: kv_to_def)
qed

lemma create_view:
  assumes inv: "kv_inv kv" and v: "seq_view kv r = None"
  shows "\<exists>kv'. create_sequence kv r = Some (kv', Inr ()) \<and> kv_to 0 kv kv' ((seq_view kv)(r \<mapsto> (0, None)))"
proof -
  let ?q = "\<lparr>sq_committed = 0, sq_pages = [], sq_pending = None, sq_registered = 0, sq_chain = CHAIN_ROOT\<rparr>"
  have e: "create_sequence kv r = Some (set_sequence kv r ?q, Inr ())"
    using v by (simp add: create_sequence_def seq_view_None)
  have "seq_view (set_sequence kv r ?q) = (seq_view kv)(r \<mapsto> (0, None))"
    by (subst seq_view_upd [OF kv_invD(3) [OF inv]]) (auto simp: pending_view_def)
  moreover have "kv_inv (set_sequence kv r ?q)" using create_sequence_ok [OF inv, of r] e by auto
  ultimately show ?thesis using e by (auto simp: kv_to_def kv_spent_def)
qed

text \<open>Every reference count is bounded by the total length of the block tables.\<close>

lemma refs_bound:
  assumes inv: "kv_inv kv"
  shows "ref_at (kv_refs kv) p \<le> length (kv_sequences kv) * cf_max_sequence_length (kv_config kv)"
proof -
  let ?m = "cf_max_sequence_length (kv_config kv)"
  have le: "count_list (sq_pages (snd x)) p \<le> ?m" if "x \<in> set (kv_sequences kv)" for x
  proof -
    have "map_of (kv_sequences kv) (fst x) = Some (snd x)"
      using that om.entries_mem [OF kv_invD(3) [OF inv]] by (metis prod.collapse)
    from seq_length(2) [OF inv this] count_le_length [of "sq_pages (snd x)" p] show ?thesis by simp
  qed
  have "page_total (kv_sequences kv) p = sum_list (map (\<lambda>x. count_list (sq_pages (snd x)) p) (kv_sequences kv))"
    by (simp add: page_total_def om.total_def case_prod_unfold)
  also have "\<dots> \<le> sum_list (map (\<lambda>x. ?m) (kv_sequences kv))" using le by (rule sum_list_mono)
  finally show ?thesis using kv_invD(6) [OF inv] by (simp add: sum_list_triv)
qed

lemma create_prefix_view:
  assumes inv: "kv_inv kv" and v: "seq_view kv r = None"
    and len: "tokens \<noteq> []" "length tokens \<le> cf_max_sequence_length (kv_config kv)"
    and refs: "(length (kv_sequences kv) + 1) * cf_max_sequence_length (kv_config kv) < u32_lim"
    and room: "kv_spare kv (cf_max_sequence_length (kv_config kv))"
  shows "\<exists>kv' c. create_sequence_with_prefix h kv r tokens = Some (kv', Inr c) \<and> c < length tokens \<and>
    kv_to (cf_max_sequence_length (kv_config kv)) kv kv' ((seq_view kv)(r \<mapsto> (c, None)))"
proof -
  let ?m = "cf_max_sequence_length (kv_config kv)" and ?bs = "cf_block_size (kv_config kv)"
  have "usable_blocks kv tokens \<le> length tokens - 1" by (simp add: usable_blocks_def)
  then have "usable_blocks kv tokens \<le> ?m" using len(2) by linarith
  moreover have "ref_at (kv_refs kv) p + ?m < u32_lim" for p using refs_bound [OF inv, of p] refs by simp
  then have "ref_at (kv_refs kv) p + usable_blocks kv tokens < u32_lim" for p
    using calculation by (meson add_left_mono le_less_trans)
  ultimately have pr: "prefix_room kv tokens"
    using len(2) room by (auto simp: prefix_room_def kv_spare_def)
  have r: "map_of (kv_sequences kv) r = None" using v by (simp add: seq_view_None)
  obtain kv' ps where e: "create_sequence_with_prefix h kv r tokens = Some (kv', Inr (length ps * ?bs))" "kv_inv kv'"
    "kv_sequences kv' = om_insert r \<lparr>sq_committed = length ps * ?bs, sq_pages = ps,
      sq_pending = None, sq_registered = length ps, sq_chain = chain_at h ?bs tokens (length ps)\<rparr> (kv_sequences kv)"
    "kv_config kv' = kv_config kv" "length ps \<le> usable_blocks kv tokens" "kv_spent (length tokens) kv kv'"
    "kv_reservations kv' = kv_reservations kv"
    using create_with_prefix_ok [OF inv r pr, of h] by blast
  have "seq_view kv' = (seq_view kv)(r \<mapsto> (length ps * ?bs, None))"
    by (subst seq_view_upd [OF kv_invD(3) [OF inv] e(3)]) (auto simp: e(7) pending_view_def)
  moreover have "length ps * ?bs < length tokens"
  proof -
    have "length ps * ?bs \<le> usable_blocks kv tokens * ?bs" using e(5) by simp
    also have "\<dots> \<le> length tokens - 1" by (simp add: usable_blocks_def)
    finally show ?thesis using len(1) by (cases tokens) auto
  qed
  moreover have "kv_spent ?m kv kv'" using kv_spent_mono [OF e(6)] len(2) .
  ultimately show ?thesis using e(1,2,4) by (auto simp: kv_to_def)
qed

lemma register_view:
  assumes inv: "kv_inv kv" and v: "seq_view kv r = Some (c, p)"
  shows "\<exists>kv'. register_prefix h kv r tokens = Some (kv', Inr ()) \<and> kv_to 0 kv kv' (seq_view kv)"
proof (cases "kv_prefix_caching kv")
  case True
  obtain s where s: "map_of (kv_sequences kv) r = Some s" using v by (auto simp: seq_view_Some)
  obtain kv' where e: "register_prefix h kv r tokens = Some (kv', Inr ())" "kv_inv kv'"
    "kv_frame kv' = kv_frame (kv
      \<lparr>kv_sequences := om_insert r (s\<lparr>sq_registered := max (sq_registered s) (complete_blocks kv s tokens),
        sq_chain := chain_from h (cf_block_size (kv_config kv)) tokens (sq_chain s) (sq_registered s)
          (complete_blocks kv s tokens - sq_registered s)\<rparr>) (kv_sequences kv)\<rparr>)" "kv_room kv' = kv_room kv"
    using register_prefix_ok [OF inv s True, of h tokens] by blast
  note F = kv_frameD [OF e(3), simplified]
  have "seq_view kv' = seq_view kv"
    by (subst seq_view_upd [OF kv_invD(3) [OF inv] F(4)])
      (use s F(5) in \<open>auto simp: pending_view_def seq_view_def reservation_tokens_def\<close>)
  with e F show ?thesis by (auto simp: kv_to_def kv_spent_def)
next
  case False
  then show ?thesis using inv by (simp add: register_prefix_def kv_to_def kv_spent_def)
qed

end
