(* ===== verification/Batch_Sched_Inv.thy ===== *)
theory Batch_Sched_Inv
  imports Batch_Kv_View
begin

text \<open>
  The invariant of the scheduler.  Every active request owns one sequence of the KV cache; between
  batches the cached length of a request agrees with its phase, and while rows are reserved each
  row has its own request and its own pending append.
\<close>

subsection \<open>One request\<close>

definition request_ok :: "usize \<Rightarrow> 'smp active_request \<Rightarrow> bool" where
  "request_ok lim a \<longleftrightarrow> aq_history a = aq_prompt a @ aq_generated a \<and> aq_prompt a \<noteq> [] \<and>
     length (aq_generated a) < gen_max_new_tokens (aq_generation a) \<and>
     length (aq_prompt a) + gen_max_new_tokens (aq_generation a) \<le> lim \<and>
     aq_eos a = set (gen_eos_token_ids (aq_generation a))"

text \<open>A request that is in no batch, with \<open>c\<close> of its tokens in the cache.\<close>

definition at_rest :: "request_phase \<Rightarrow> token list \<Rightarrow> usize \<Rightarrow> bool" where
  "at_rest phase history c \<longleftrightarrow>
     (case phase of
        NeedsPrefill \<Rightarrow> c < length history
      | AwaitingDecode t \<Rightarrow> c + 1 = length history \<and> t = last history
      | InFlight _ \<Rightarrow> False)"

text \<open>The input of a batch of the given kind for a request with \<open>c\<close> cached tokens, and its row.\<close>

definition tokens_ok :: "batch_kind \<Rightarrow> token list \<Rightarrow> usize \<Rightarrow> token list \<Rightarrow> bool" where
  "tokens_ok kind history c tokens \<longleftrightarrow>
     (case kind of
        Prefill \<Rightarrow> c + length tokens \<le> length history \<and> tokens = take (length tokens) (drop c history)
      | Decode \<Rightarrow> c + 1 = length history \<and> tokens = [last history]
      | Verify \<Rightarrow> c + 1 = length history \<and> hd tokens = last history)"

definition row_ok :: "batch_kind \<Rightarrow> token list \<Rightarrow> usize \<Rightarrow> scheduled_sequence \<Rightarrow> bool" where
  "row_ok kind history c row \<longleftrightarrow> row_start row = c \<and> row_context row = c + length (row_tokens row) \<and>
     row_tokens row \<noteq> [] \<and> tokens_ok kind history c (row_tokens row)"

text \<open>The phase a request has before it enters a batch.\<close>

definition source_phase :: "batch_kind \<Rightarrow> token list \<Rightarrow> request_phase" where
  "source_phase kind tokens = (case kind of Prefill \<Rightarrow> NeedsPrefill | _ \<Rightarrow> AwaitingDecode (hd tokens))"

definition row_of :: "scheduled_sequence list \<Rightarrow> request_id \<Rightarrow> scheduled_sequence option" where
  "row_of rows r = find (\<lambda>row. row_request row = r) rows"

text \<open>
  What holds of a request: its entry of the KV view, its active entry and its row.  \<open>b\<close> is the
  batch the rows have been handed to, if any.
\<close>

definition slot :: "usize \<Rightarrow> (usize \<times> (kv_reservation_id \<times> usize) option) option \<Rightarrow> 'smp active_request option \<Rightarrow>
    batch_kind \<Rightarrow> scheduled_sequence option \<Rightarrow> nat option \<Rightarrow> bool" where
  "slot lim ve ao kind ro b \<longleftrightarrow>
     (case ao of
        None \<Rightarrow> ve = None \<and> ro = None
      | Some a \<Rightarrow> request_ok lim a \<and>
          (case ve of
             None \<Rightarrow> False
           | Some (c, p) \<Rightarrow>
               (case ro of
                  None \<Rightarrow> p = None \<and> at_rest (aq_phase a) (aq_history a) c
                | Some row \<Rightarrow> row_ok kind (aq_history a) c row \<and>
                    (\<exists>n. p = Some (row_reservation row, n) \<and> length (row_tokens row) \<le> n) \<and>
                    (case b of
                       None \<Rightarrow> aq_phase a = source_phase kind (row_tokens row)
                     | Some i \<Rightarrow> aq_phase a = InFlight i))))"

subsection \<open>The scheduler\<close>

abbreviation max_len :: "'smp scheduler \<Rightarrow> usize" where
  "max_len s \<equiv> cf_max_sequence_length (kv_config (sc_kv s))"

definition limits_ok :: "'smp scheduler \<Rightarrow> bool" where
  "limits_ok s \<longleftrightarrow> 0 < bc_max_batch_tokens (sc_config s) \<and> sc_prefill_chunk s \<noteq> Some 0 \<and>
     0 < bc_max_active_sequences (sc_config s) \<and> length (sc_active s) \<le> bc_max_active_sequences (sc_config s) \<and>
     bc_max_active_sequences (sc_config s) * max_len s < u32_lim \<and>
     (\<forall>c. sc_speculative s = Some c \<longrightarrow> 0 < sp_draft_tokens c \<and> max_len s + sp_draft_tokens c < usize_lim)"

definition queue_ok :: "'smp scheduler \<Rightarrow> bool" where
  "queue_ok s \<longleftrightarrow> distinct (map pr_id (sc_pending s)) \<and>
     (\<forall>p \<in> set (sc_pending s). get_active s (pr_id p) = None \<and> request_num (pr_id p) < sc_next_request s \<and>
        pr_prompt p \<noteq> [] \<and> 0 < gen_max_new_tokens (pr_generation p) \<and>
        length (pr_prompt p) + gen_max_new_tokens (pr_generation p) \<le> max_len s) \<and>
     (\<forall>r. get_active s r \<noteq> None \<longrightarrow> request_num r < sc_next_request s)"

definition core_inv :: "'smp scheduler \<Rightarrow> batch_kind \<Rightarrow> scheduled_sequence list \<Rightarrow> nat option \<Rightarrow> bool" where
  "core_inv s kind rows b \<longleftrightarrow> kv_inv (sc_kv s) \<and> om_ok (sc_active s) \<and> limits_ok s \<and> queue_ok s \<and>
     distinct (map row_request rows) \<and>
     (\<forall>r. slot (max_len s) (seq_view (sc_kv s) r) (get_active s r) kind (row_of rows r) b)"

definition batch_ok :: "'smp scheduler \<Rightarrow> scheduled_batch \<Rightarrow> bool" where
  "batch_ok s batch \<longleftrightarrow> bt_sequences batch \<noteq> [] \<and> bt_id batch < sc_next_batch s \<and>
     (\<forall>row \<in> set (bt_sequences batch). length (row_tokens row) = next_n batch) \<and>
     length (bt_sequences batch) * next_n batch \<le> bc_max_batch_tokens (sc_config s) \<and>
     core_inv s (bt_kind batch) (bt_sequences batch) (Some (bt_id batch))"

definition sched_inv :: "'smp scheduler \<Rightarrow> bool" where
  "sched_inv s \<longleftrightarrow> bc_max_batch_tokens (sc_config s) < usize_lim \<and>
     (case sc_in_flight s of None \<Rightarrow> core_inv s Prefill [] None | Some batch \<Rightarrow> batch_ok s batch)"

text \<open>The counters of the scheduler and of its KV cache have room for \<open>n\<close> more.\<close>

definition sched_spare :: "'smp scheduler \<Rightarrow> nat \<Rightarrow> bool" where
  "sched_spare s n \<longleftrightarrow> kv_spare (sc_kv s) n \<and> sc_next_admission s + n < usize_lim \<and>
     sc_preemptions s + n < usize_lim \<and> sc_drafted s + n < usize_lim \<and> sc_accepted s + n < usize_lim"

lemma sched_spare_mono: "sched_spare s n \<Longrightarrow> m \<le> n \<Longrightarrow> sched_spare s m"
  by (auto simp: sched_spare_def intro: spare_mono)

subsection \<open>Rows\<close>

lemma row_of_simps [simp]:
  "row_of [] r = None"
  "row_of (row # rows) r = (if row_request row = r then Some row else row_of rows r)"
  by (simp_all add: row_of_def)

lemma row_of_append: "row_of (rows @ rows') r = (case row_of rows r of None \<Rightarrow> row_of rows' r | Some row \<Rightarrow> Some row)"
  by (induction rows) auto

lemma row_of_None: "row_of rows r = None \<longleftrightarrow> r \<notin> row_request ` set rows"
  by (induction rows) auto

lemma row_of_Some: "row_of rows r = Some row \<Longrightarrow> row \<in> set rows \<and> row_request row = r"
  by (induction rows) (auto split: if_splits)

lemma row_of_mem: "distinct (map row_request rows) \<Longrightarrow> row \<in> set rows \<Longrightarrow> row_of rows (row_request row) = Some row"
  by (induction rows) (auto simp: image_iff)

lemma row_rest:
  assumes "row_ok kind history c row"
  shows "restore_phase kind row = Some (source_phase kind (row_tokens row)) \<and>
    at_rest (source_phase kind (row_tokens row)) history c"
  using assms by (cases "row_tokens row")
    (auto simp: row_ok_def tokens_ok_def restore_phase_def source_phase_def at_rest_def vec_get_def split: batch_kind.splits)

subsection \<open>Changing one request\<close>

lemma get_set_active [simp]:
  "om_ok (sc_active s) \<Longrightarrow> get_active (set_active s r a) r' = (if r' = r then Some a else get_active s r')"
  by (simp add: get_active_def set_active_def)

lemma set_active_fields [simp]:
  "sc_kv (set_active s r a) = sc_kv s" "sc_config (set_active s r a) = sc_config s"
  "sc_options (set_active s r a) = sc_options s" "sc_pending (set_active s r a) = sc_pending s"
  "sc_deferred (set_active s r a) = sc_deferred s" "sc_finished (set_active s r a) = sc_finished s"
  "sc_in_flight (set_active s r a) = sc_in_flight s" "sc_next_request (set_active s r a) = sc_next_request s"
  "sc_next_batch (set_active s r a) = sc_next_batch s" "sc_prefill_chunk (set_active s r a) = sc_prefill_chunk s"
  "sc_next_admission (set_active s r a) = sc_next_admission s" "sc_preemptions (set_active s r a) = sc_preemptions s"
  "sc_speculative (set_active s r a) = sc_speculative s" "sc_drafted (set_active s r a) = sc_drafted s"
  "sc_accepted (set_active s r a) = sc_accepted s" "sc_recompute (set_active s r a) = sc_recompute s"
  "sc_prefer_prefill (set_active s r a) = sc_prefer_prefill s" "sc_ceiling (set_active s r a) = sc_ceiling s"
  by (simp_all add: set_active_def)

lemma length_om_insert: "om_ok m \<Longrightarrow> length (om_insert k v m) = (if map_of m k = None then Suc (length m) else length m)"
  by (induction m) (force simp: om_ok_def dest: map_of_SomeD)+

lemma length_om_remove: "om_ok m \<Longrightarrow> length (om_remove k m) \<le> length m"
  by (simp add: om_remove_def)

lemma core_invD:
  assumes "core_inv s kind rows b"
  shows "kv_inv (sc_kv s)" "om_ok (sc_active s)" "limits_ok s" "queue_ok s" "distinct (map row_request rows)"
    "slot (max_len s) (seq_view (sc_kv s) r) (get_active s r) kind (row_of rows r) b"
  using assms by (auto simp: core_inv_def)

text \<open>A step that touches one request: everything else stays as it is.\<close>

lemma core_inv_step:
  assumes "core_inv s kind rows b" "kv_inv (sc_kv s')" "kv_config (sc_kv s') = kv_config (sc_kv s)"
    "om_ok (sc_active s')" "limits_ok s'" "queue_ok s'" "distinct (map row_request rows')"
    "\<And>r'. r' \<noteq> r \<Longrightarrow> seq_view (sc_kv s') r' = seq_view (sc_kv s) r' \<and> get_active s' r' = get_active s r' \<and>
      row_of rows' r' = row_of rows r'"
    "slot (max_len s') (seq_view (sc_kv s') r) (get_active s' r) kind (row_of rows' r) b"
  shows "core_inv s' kind rows' b"
  unfolding core_inv_def
proof (intro conjI allI)
  fix r'
  show "slot (max_len s') (seq_view (sc_kv s') r') (get_active s' r') kind (row_of rows' r') b"
    using assms(3,8,9) core_invD(6) [OF assms(1), of r'] by (cases "r' = r") simp_all
qed (use assms in auto)

lemma get_active_fields [simp]:
  "get_active (s\<lparr>sc_kv := kv\<rparr>) = get_active s" "get_active (s\<lparr>sc_config := c\<rparr>) = get_active s"
  "get_active (s\<lparr>sc_pending := p\<rparr>) = get_active s" "get_active (s\<lparr>sc_deferred := d\<rparr>) = get_active s"
  "get_active (s\<lparr>sc_finished := f\<rparr>) = get_active s" "get_active (s\<lparr>sc_in_flight := i\<rparr>) = get_active s"
  "get_active (s\<lparr>sc_prefer_prefill := x\<rparr>) = get_active s" "get_active (s\<lparr>sc_next_request := nr\<rparr>) = get_active s"
  "get_active (s\<lparr>sc_next_batch := nb\<rparr>) = get_active s" "get_active (s\<lparr>sc_next_admission := na\<rparr>) = get_active s"
  "get_active (s\<lparr>sc_preemptions := np\<rparr>) = get_active s" "get_active (s\<lparr>sc_speculative_turn := y\<rparr>) = get_active s"
  "get_active (s\<lparr>sc_drafted := dr\<rparr>) = get_active s" "get_active (s\<lparr>sc_accepted := ac\<rparr>) = get_active s"
  "get_active (s\<lparr>sc_speculative := sp\<rparr>) = get_active s"
  "get_active (s\<lparr>sc_active := om_remove r (sc_active s)\<rparr>) = (get_active s)(r := None)"
  by (simp_all add: get_active_def fun_eq_iff)

lemma kv_only [simp]:
  "kv_config kv = kv_config (sc_kv s) \<Longrightarrow> limits_ok (s\<lparr>sc_kv := kv\<rparr>) = limits_ok s"
  "kv_config kv = kv_config (sc_kv s) \<Longrightarrow> queue_ok (s\<lparr>sc_kv := kv\<rparr>) = queue_ok s"
  by (simp_all add: limits_ok_def queue_ok_def)

end
