(* ===== verification/Batch_Sched_Plan.thy ===== *)
theory Batch_Sched_Plan
  imports Batch_Sched_Inv
begin

text \<open>
  Building a batch.  The decode, prefill and verify loops reserve the rows of a batch the same
  way; their contract is proved once and gives the three schedulers.
\<close>

subsection \<open>Reserving one row\<close>

definition same_committed :: "paged_kv \<Rightarrow> paged_kv \<Rightarrow> bool" where
  "same_committed kv kv' \<longleftrightarrow> (\<forall>r. map_option fst (seq_view kv' r) = map_option fst (seq_view kv r))"

lemma same_committed_refl [simp]: "same_committed kv kv"
  by (simp add: same_committed_def)

lemma same_committed_trans: "same_committed kv kv1 \<Longrightarrow> same_committed kv1 kv2 \<Longrightarrow> same_committed kv kv2"
  by (simp add: same_committed_def)

lemma reserve_ok:
  assumes inv: "core_inv s kind rows None" and a: "get_active s r = Some a" "row_of rows r = None"
    and v: "seq_view (sc_kv s) r = Some (c, p)" and ready: "begin_ready (sc_kv s) r (length tokens)"
    and toks: "tokens_ok kind (aq_history a) c tokens" "aq_phase a = source_phase kind tokens"
  shows "\<exists>kv' res. begin_append (sc_kv s) r (length tokens) = Some (kv', Inr res) \<and>
    core_inv (s\<lparr>sc_kv := kv'\<rparr>) kind (rows @ [scheduled_row res tokens]) None \<and>
    row_request (scheduled_row res tokens) = r \<and> row_tokens (scheduled_row res tokens) = tokens \<and>
    kv_config kv' = kv_config (sc_kv s) \<and> kv_spent 1 (sc_kv s) kv' \<and>
    (\<forall>r'. r' \<noteq> r \<longrightarrow> seq_view kv' r' = seq_view (sc_kv s) r') \<and>
    same_committed (sc_kv s) kv'"
proof -
  note D = core_invD [OF inv]
  obtain kv' res where b: "begin_append (sc_kv s) r (length tokens) = Some (kv', Inr res)"
    "ar_request res = r" "ar_start res = c" "ar_context_length res = c + length tokens"
    "kv_to 1 (sc_kv s) kv' ((seq_view (sc_kv s))(r \<mapsto> (c, Some (ar_id res, length tokens))))"
    "p = None" "tokens \<noteq> []"
    using begin_view [OF D(1) v ready] by auto
  note K = kv_toD [OF b(5)]
  let ?row = "scheduled_row res tokens"
  have row: "row_request ?row = r" "row_tokens ?row = tokens" "row_reservation ?row = ar_id res"
    "row_ok kind (aq_history a) c ?row"
    using b toks by (simp_all add: scheduled_row_def row_ok_def)
  have "core_inv (s\<lparr>sc_kv := kv'\<rparr>) kind (rows @ [?row]) None"
  proof (rule core_inv_step [OF inv, where r = r])
    show "distinct (map row_request (rows @ [?row]))" using D(5) a(2) row(1) by (auto simp: row_of_None)
    show "slot (max_len (s\<lparr>sc_kv := kv'\<rparr>)) (seq_view (sc_kv (s\<lparr>sc_kv := kv'\<rparr>)) r) (get_active (s\<lparr>sc_kv := kv'\<rparr>) r) kind
        (row_of (rows @ [?row]) r) None"
      using D(6) [of r] a v K row b(6) toks(2) by (auto simp: slot_def row_of_append)
  qed (use D K row in \<open>auto simp: row_of_append split: option.splits\<close>)
  moreover have "same_committed (sc_kv s) kv'" using K(4) v by (auto simp: same_committed_def)
  ultimately show ?thesis using b row K by auto
qed

subsection \<open>A loop over candidates\<close>

locale row_loop =
  fixes loop :: "'c list \<Rightarrow> scheduled_sequence list \<Rightarrow> 'smp scheduler \<Rightarrow> ('smp, scheduled_sequence list) sched_result"
    and key :: "'c \<Rightarrow> request_id"
    and kind :: batch_kind
    and width :: usize
    and limit :: "'smp scheduler \<Rightarrow> usize"
    and toks :: "'c \<Rightarrow> 'smp scheduler \<Rightarrow> token list"
    and fit :: "'c \<Rightarrow> 'smp scheduler \<Rightarrow> bool"
  assumes loop_Nil: "loop [] rows s = Some (s, Inr rows)"
    and loop_stop: "limit s \<le> length rows \<Longrightarrow> loop (c # cs) rows s = Some (s, Inr rows)"
    and loop_skip: "length rows < limit s \<Longrightarrow> can_append (sc_kv s) (key c) width = Some (Inr False) \<Longrightarrow>
      loop (c # cs) rows s = loop cs rows s"
    and loop_take: "length rows < limit s \<Longrightarrow> can_append (sc_kv s) (key c) width = Some (Inr True) \<Longrightarrow> fit c s \<Longrightarrow>
      begin_append (sc_kv s) (key c) width = Some (kv', Inr res) \<Longrightarrow>
      loop (c # cs) rows s = loop cs (rows @ [scheduled_row res (toks c s)]) (s\<lparr>sc_kv := kv'\<rparr>)"
    and limit_kv: "limit (s\<lparr>sc_kv := kv\<rparr>) = limit s"
    and fit_kv: "fit c s \<Longrightarrow> seq_view kv (key c) = seq_view (sc_kv s) (key c) \<Longrightarrow> fit c (s\<lparr>sc_kv := kv\<rparr>)"
    and fit_tokens: "fit c s \<Longrightarrow> \<exists>a n p. get_active s (key c) = Some a \<and> seq_view (sc_kv s) (key c) = Some (n, p) \<and>
      tokens_ok kind (aq_history a) n (toks c s) \<and> aq_phase a = source_phase kind (toks c s) \<and> length (toks c s) = width"
begin

lemma loop_ok:
  assumes "core_inv s kind rows None" "\<And>c. c \<in> set cs \<Longrightarrow> fit c s \<and> row_of rows (key c) = None"
    "distinct (map key cs)" "kv_spare (sc_kv s) (Suc (length cs))"
  shows "\<exists>kv' new. loop cs rows s = Some (s\<lparr>sc_kv := kv'\<rparr>, Inr (rows @ new)) \<and>
    core_inv (s\<lparr>sc_kv := kv'\<rparr>) kind (rows @ new) None \<and> kv_config kv' = kv_config (sc_kv s) \<and>
    kv_spent (length cs) (sc_kv s) kv' \<and> (\<forall>row \<in> set new. length (row_tokens row) = width) \<and>
    (length rows \<le> limit s \<longrightarrow> length (rows @ new) \<le> limit s) \<and>
    same_committed (sc_kv s) kv' \<and>
    (new = [] \<longrightarrow> kv' = sc_kv s \<and>
      (length rows < limit s \<longrightarrow> (\<forall>c \<in> set cs. \<not> begin_ready (sc_kv s) (key c) width)))"
  using assms
proof (induction cs arbitrary: rows s)
  case Nil
  have "s\<lparr>sc_kv := sc_kv s\<rparr> = s" by simp
  with Nil show ?case by (intro exI [of _ "sc_kv s"] exI [of _ "[]"]) (simp add: loop_Nil kv_spent_def)
next
  case (Cons c cs)
  note inv = Cons.prems(1)
  note D = core_invD [OF inv]
  obtain a n p where f: "get_active s (key c) = Some a" "seq_view (sc_kv s) (key c) = Some (n, p)"
    "tokens_ok kind (aq_history a) n (toks c s)" "length (toks c s) = width" "aq_phase a = source_phase kind (toks c s)"
    using fit_tokens [of c s] Cons.prems(2) [of c] by auto
  have ca: "can_append (sc_kv s) (key c) width = Some (Inr (begin_ready (sc_kv s) (key c) width))"
    by (rule can_append_iff [OF D(1) _ f(2)]) (rule spare_mono [OF Cons.prems(4)], simp)
  have id: "s\<lparr>sc_kv := sc_kv s\<rparr> = s" by simp
  consider (stop) "limit s \<le> length rows" | (skip) "length rows < limit s" "\<not> begin_ready (sc_kv s) (key c) width"
    | (take) "length rows < limit s" "begin_ready (sc_kv s) (key c) width" by linarith
  then show ?case
  proof cases
    case stop
    then show ?thesis
      using inv by (intro exI [of _ "sc_kv s"] exI [of _ "[]"]) (simp add: loop_stop id kv_spent_def)
  next
    case skip
    have "loop (c # cs) rows s = loop cs rows s" using loop_skip skip ca by simp
    moreover have "kv_spare (sc_kv s) (Suc (length cs))" using spare_mono [OF Cons.prems(4)] by simp
    moreover obtain kv' new where IH: "loop cs rows s = Some (s\<lparr>sc_kv := kv'\<rparr>, Inr (rows @ new))"
      "core_inv (s\<lparr>sc_kv := kv'\<rparr>) kind (rows @ new) None" "kv_config kv' = kv_config (sc_kv s)"
      "kv_spent (length cs) (sc_kv s) kv'" "\<forall>row \<in> set new. length (row_tokens row) = width"
      "length rows \<le> limit s \<longrightarrow> length (rows @ new) \<le> limit s"
      "same_committed (sc_kv s) kv'"
      "new = [] \<longrightarrow> kv' = sc_kv s \<and> (length rows < limit s \<longrightarrow> (\<forall>c \<in> set cs. \<not> begin_ready (sc_kv s) (key c) width))"
      using Cons.IH [OF inv _ _ calculation(2)] Cons.prems(2,3) by auto
    moreover have "kv_spent (length (c # cs)) (sc_kv s) kv'" by (rule kv_spent_mono [OF IH(4)]) simp
    ultimately show ?thesis using skip(2) by (intro exI [of _ kv'] exI [of _ new]) simp
  next
    case take
    have rd: "begin_ready (sc_kv s) (key c) (length (toks c s))" using take(2) f(4) by simp
    obtain kv1 res where b: "begin_append (sc_kv s) (key c) width = Some (kv1, Inr res)"
      "core_inv (s\<lparr>sc_kv := kv1\<rparr>) kind (rows @ [scheduled_row res (toks c s)]) None"
      "row_request (scheduled_row res (toks c s)) = key c" "row_tokens (scheduled_row res (toks c s)) = toks c s"
      "kv_config kv1 = kv_config (sc_kv s)" "kv_spent 1 (sc_kv s) kv1"
      "\<forall>r'. r' \<noteq> key c \<longrightarrow> seq_view kv1 r' = seq_view (sc_kv s) r'"
      "same_committed (sc_kv s) kv1"
      using reserve_ok [OF inv f(1) _ f(2) rd f(3,5)] Cons.prems(2) [of c] f(4) by auto
    let ?s1 = "s\<lparr>sc_kv := kv1\<rparr>" and ?rows = "rows @ [scheduled_row res (toks c s)]"
    have step: "loop (c # cs) rows s = loop cs ?rows ?s1"
      using loop_take [OF take(1) _ _ b(1)] ca take(2) Cons.prems(2) [of c] by simp
    have ne: "key x \<noteq> key c" if "x \<in> set cs" for x using Cons.prems(3) imageI [OF that, of key] by auto
    have fit': "fit x ?s1 \<and> row_of ?rows (key x) = None" if "x \<in> set cs" for x
      using fit_kv [where c = x and s = s and kv = kv1] Cons.prems(2) [of x] that ne [OF that] b(3,7) by (auto simp: row_of_append)
    have sp: "kv_spare (sc_kv ?s1) (Suc (length cs))"
      using spare_spent [of "sc_kv s" 1 "Suc (length cs)" kv1] Cons.prems(4) b(6) by simp
    obtain kv2 new where IH: "loop cs ?rows ?s1 = Some (?s1\<lparr>sc_kv := kv2\<rparr>, Inr (?rows @ new))"
      "core_inv (?s1\<lparr>sc_kv := kv2\<rparr>) kind (?rows @ new) None" "kv_config kv2 = kv_config (sc_kv ?s1)"
      "kv_spent (length cs) (sc_kv ?s1) kv2" "\<forall>row \<in> set new. length (row_tokens row) = width"
      "length ?rows \<le> limit ?s1 \<longrightarrow> length (?rows @ new) \<le> limit ?s1"
      "same_committed (sc_kv ?s1) kv2"
      using Cons.IH [OF b(2) fit' _ sp] Cons.prems(3) by auto
    have "kv_spent (length (c # cs)) (sc_kv s) kv2" using kv_spent_trans [OF b(6)] IH(4) by simp
    then show ?thesis
      using IH step b(4,5) same_committed_trans [OF b(8)] f(4) take(1) limit_kv [where s = s and kv = kv1]
      by (intro exI [of _ kv2] exI [of _ "scheduled_row res (toks c s) # new"]) simp
  qed
qed

text \<open>The loop from no rows at all.\<close>

lemma plan:
  assumes inv: "core_inv s kind [] None" and fits: "\<And>c. c \<in> set cs \<Longrightarrow> fit c s"
    and d: "distinct (map key cs)" and sp: "kv_spare (sc_kv s) (Suc (length cs))"
  obtains kv' new where "loop cs [] s = Some (s\<lparr>sc_kv := kv'\<rparr>, Inr new)"
    "core_inv (s\<lparr>sc_kv := kv'\<rparr>) kind new None" "kv_config kv' = kv_config (sc_kv s)"
    "same_committed (sc_kv s) kv'" "\<forall>row \<in> set new. length (row_tokens row) = width" "length new \<le> limit s"
    "new = [] \<longrightarrow> kv' = sc_kv s \<and> (0 < limit s \<longrightarrow> (\<forall>c \<in> set cs. \<not> begin_ready (sc_kv s) (key c) width))"
proof -
  have f: "fit c s \<and> row_of [] (key c) = None" if "c \<in> set cs" for c using fits [OF that] by simp
  have "\<exists>kv' new. loop cs [] s = Some (s\<lparr>sc_kv := kv'\<rparr>, Inr ([] @ new)) \<and>
    core_inv (s\<lparr>sc_kv := kv'\<rparr>) kind ([] @ new) None \<and> kv_config kv' = kv_config (sc_kv s) \<and>
    kv_spent (length cs) (sc_kv s) kv' \<and> (\<forall>row \<in> set new. length (row_tokens row) = width) \<and>
    (length ([] :: scheduled_sequence list) \<le> limit s \<longrightarrow> length ([] @ new) \<le> limit s) \<and> same_committed (sc_kv s) kv' \<and>
    (new = [] \<longrightarrow> kv' = sc_kv s \<and> (length ([] :: scheduled_sequence list) < limit s \<longrightarrow>
      (\<forall>c \<in> set cs. \<not> begin_ready (sc_kv s) (key c) width)))"
    by (rule loop_ok [OF inv f d sp])
  then obtain kv' new where l: "loop cs [] s = Some (s\<lparr>sc_kv := kv'\<rparr>, Inr ([] @ new))"
    "core_inv (s\<lparr>sc_kv := kv'\<rparr>) kind ([] @ new) None" "kv_config kv' = kv_config (sc_kv s)"
    "\<forall>row \<in> set new. length (row_tokens row) = width" "same_committed (sc_kv s) kv'"
    "length ([] :: scheduled_sequence list) \<le> limit s \<longrightarrow> length ([] @ new) \<le> limit s"
    "new = [] \<longrightarrow> kv' = sc_kv s \<and> (length ([] :: scheduled_sequence list) < limit s \<longrightarrow>
      (\<forall>c \<in> set cs. \<not> begin_ready (sc_kv s) (key c) width))"
    by (elim exE conjE) (rule that)
  show thesis by (rule that [of kv' new]) (use l in auto)
qed

end

subsection \<open>Decoding\<close>

text \<open>A request that waits for its next decode step.\<close>

definition waiting :: "'smp scheduler \<Rightarrow> request_id \<Rightarrow> token \<Rightarrow> bool" where
  "waiting s r t \<longleftrightarrow> (\<exists>a n p. get_active s r = Some a \<and> seq_view (sc_kv s) r = Some (n, p) \<and>
     aq_phase a = AwaitingDecode t \<and> n + 1 = length (aq_history a) \<and> t = last (aq_history a))"

interpretation dl: row_loop decode_loop fst Decode 1 "\<lambda>s. bc_max_batch_tokens (sc_config s)"
  "\<lambda>c s. [snd c]" "\<lambda>c s. waiting s (fst c) (snd c)"
proof
  fix rows :: "scheduled_sequence list" and s :: "'smp scheduler" and c :: "request_id \<times> token" and cs kv' res
  assume "length rows < bc_max_batch_tokens (sc_config s)" "can_append (sc_kv s) (fst c) 1 = Some (Inr True)"
    "begin_append (sc_kv s) (fst c) 1 = Some (kv', Inr res)"
  then show "decode_loop (c # cs) rows s = decode_loop cs (rows @ [scheduled_row res [snd c]]) (s\<lparr>sc_kv := kv'\<rparr>)"
    by (cases c) (simp add: reserve_row_def lift_kv_def sched_then_def)
qed (auto simp: waiting_def tokens_ok_def source_phase_def split: prod.splits)

lemma decode_candidates_mem:
  assumes "om_ok (sc_active s)"
  shows "(r, t) \<in> set (decode_candidates (sc_active s)) \<longleftrightarrow> (\<exists>a. get_active s r = Some a \<and> aq_phase a = AwaitingDecode t)"
  using om.entries_mem [OF assms, of r]
  by (force simp: decode_candidates_def map_filter_def get_active_def split: request_phase.splits)

lemma decode_candidates_distinct: "om_ok m \<Longrightarrow> distinct (map fst (decode_candidates m))"
proof -
  have "distinct (map fst m) \<Longrightarrow> distinct (map fst (decode_candidates m))" for m :: "(request_id \<times> 'a active_request) list"
    by (induction m) (force simp: decode_candidates_def map_filter_def split: request_phase.splits)+
  then show "om_ok m \<Longrightarrow> ?thesis" using om.entries_distinct [of m] by simp
qed

subsection \<open>Prefill\<close>

definition chunk_len :: "'smp scheduler \<Rightarrow> 'smp active_request \<Rightarrow> usize \<Rightarrow> usize" where
  "chunk_len s a n =
     (let remaining = length (aq_history a) - n in
      min (min remaining (case sc_prefill_chunk s of Some c \<Rightarrow> c | None \<Rightarrow> remaining)) (bc_max_batch_tokens (sc_config s)))"

lemma prefill_chunk_view:
  "seq_view (sc_kv s) r = Some (n, p) \<Longrightarrow>
   prefill_chunk s r a = Inr (n, chunk_len s a n, n + chunk_len s a n = length (aq_history a))"
  by (auto simp: seq_view_Some prefill_chunk_def committed_tokens_def kv_sequence_def chunk_len_def Let_def)

definition chunk_tokens :: "usize \<Rightarrow> request_id \<Rightarrow> 'smp scheduler \<Rightarrow> token list" where
  "chunk_tokens width r s =
     (case (get_active s r, seq_view (sc_kv s) r) of
        (Some a, Some (n, _)) \<Rightarrow> take width (drop n (aq_history a))
      | _ \<Rightarrow> [])"

definition unfilled :: "usize \<Rightarrow> request_id \<Rightarrow> 'smp scheduler \<Rightarrow> bool" where
  "unfilled width r s \<longleftrightarrow> (\<exists>a n p. get_active s r = Some a \<and> seq_view (sc_kv s) r = Some (n, p) \<and>
     aq_phase a = NeedsPrefill \<and> n + width \<le> length (aq_history a) \<and> chunk_len s a n = width)"

interpretation pl: row_loop "prefill_loop width max_rows" "\<lambda>r. r" Prefill width "\<lambda>s. max_rows"
  "chunk_tokens width" "unfilled width" for width max_rows
proof
  fix rows :: "scheduled_sequence list" and s :: "'smp scheduler" and c cs kv' res
  assume "length rows < max_rows" "can_append (sc_kv s) c width = Some (Inr True)" "unfilled width c s"
    "begin_append (sc_kv s) c width = Some (kv', Inr res)"
  then show "prefill_loop width max_rows (c # cs) rows s =
      prefill_loop width max_rows cs (rows @ [scheduled_row res (chunk_tokens width c s)]) (s\<lparr>sc_kv := kv'\<rparr>)"
    by (auto simp: unfilled_def chunk_tokens_def prefill_chunk_view reserve_row_def lift_kv_def sched_then_def
        sub_slice_def rassert_def)
qed (auto simp: unfilled_def chunk_tokens_def chunk_len_def tokens_ok_def source_phase_def split: prod.splits)

subsection \<open>Verifying\<close>

lemma pad_draft_length [simp]: "length (pad_draft n d) = n"
  by (simp add: pad_draft_def)

interpretation vl: row_loop "verify_loop (Suc d) max_rows" fst Verify "Suc d" "\<lambda>s. max_rows"
  "\<lambda>c s. fst (snd c) # pad_draft d (snd (snd c))" "\<lambda>c s. waiting s (fst c) (fst (snd c)) \<and> snd (snd c) \<noteq> []" for d max_rows
proof
  fix rows :: "scheduled_sequence list" and s :: "'smp scheduler" and c :: "request_id \<times> token \<times> token list" and cs kv' res
  assume "length rows < max_rows" "can_append (sc_kv s) (fst c) (Suc d) = Some (Inr True)"
    "waiting s (fst c) (fst (snd c)) \<and> snd (snd c) \<noteq> []"
    "begin_append (sc_kv s) (fst c) (Suc d) = Some (kv', Inr res)"
  then show "verify_loop (Suc d) max_rows (c # cs) rows s =
      verify_loop (Suc d) max_rows cs (rows @ [scheduled_row res (fst (snd c) # pad_draft d (snd (snd c)))]) (s\<lparr>sc_kv := kv'\<rparr>)"
    by (cases c) (simp add: lift_kv_def sched_then_def rassert_def)
qed (auto simp: waiting_def tokens_ok_def source_phase_def split: prod.splits)

end
