(* ===== verification/Batch_Speculative.thy ===== *)
theory Batch_Speculative
  imports Batch_Scheduler
begin

text \<open>
  Speculative decoding: the draft a request gets from its own history, and the verification of a
  draft against the predictions of the model, compared with decoding one token at a time.
\<close>

subsection \<open>Drafts\<close>

text \<open>
  An occurrence of the last \<open>n\<close> tokens of the history that ends before the history does, so that
  at least one token follows it.
\<close>

definition occurs :: "token list \<Rightarrow> usize \<Rightarrow> usize \<Rightarrow> bool" where
  "occurs history n start \<longleftrightarrow> start + n < length history \<and>
     take n (drop start history) = drop (length history - n) history"

definition continuation :: "token list \<Rightarrow> usize \<Rightarrow> usize \<Rightarrow> usize \<Rightarrow> token list" where
  "continuation history n start k = take k (drop (start + n) history)"

lemma ngram_scan_spec:
  assumes "length history + k < usize_lim" "0 < k" "\<And>i. i \<in> set starts \<Longrightarrow> i + n < length history"
  shows "ngram_scan history n k starts =
    Some (map_option (\<lambda>i. continuation history n i k) (find (occurs history n) starts))"
  using assms(3)
proof (induction starts)
  case (Cons i starts)
  have i: "i + n < length history" using Cons.prems by simp
  have b: "i + n + k < usize_lim" using i assms(1) by simp
  have t: "take (min (i + n + k) (length history) - (i + n)) (drop (i + n) history) = continuation history n i k"
    using i by (auto simp: continuation_def min_def)
  show ?case
    using Cons i b t assms(2) by (simp add: occurs_def uadd_def Let_def)
qed simp

text \<open>The specification: the longest pattern that occurs before, at its most recent occurrence.\<close>

definition draft_spec :: "token list \<Rightarrow> usize \<Rightarrow> usize \<Rightarrow> token list \<Rightarrow> bool" where
  "draft_spec history ngram k draft \<longleftrightarrow>
     (if \<exists>n start. 0 < n \<and> n \<le> ngram \<and> occurs history n start
      then \<exists>n start. 0 < n \<and> n \<le> ngram \<and> occurs history n start \<and> draft = continuation history n start k \<and> draft \<noteq> [] \<and>
        (\<forall>start'. occurs history n start' \<longrightarrow> start' \<le> start) \<and>
        (\<forall>n' start'. n < n' \<and> n' \<le> ngram \<longrightarrow> \<not> occurs history n' start')
      else draft = [])"

lemma continuation_ne: "occurs history n start \<Longrightarrow> 0 < k \<Longrightarrow> continuation history n start k \<noteq> []"
  by (simp add: occurs_def continuation_def)

lemma find_rev_upt:
  "find P (rev [0..<m]) = Some i \<longleftrightarrow> i < m \<and> P i \<and> (\<forall>j. i < j \<and> j < m \<longrightarrow> \<not> P j)"
  "find P (rev [0..<m]) = None \<longleftrightarrow> (\<forall>j < m. \<not> P j)"
  by (induction m) (auto simp: less_Suc_eq)

lemma ngram_lengths_spec:
  assumes "length history + k < usize_lim" "0 < k" "\<forall>n \<in> set ns. 0 < n"
  shows "\<exists>d. ngram_lengths history k ns = Some d \<and>
    (case find (\<lambda>n. \<exists>i. occurs history n i) ns of
       None \<Rightarrow> d = []
     | Some n \<Rightarrow> \<exists>i. occurs history n i \<and> d = continuation history n i k \<and> (\<forall>j. occurs history n j \<longrightarrow> j \<le> i))"
  using assms(3)
proof (induction ns)
  case (Cons n ns)
  have len: "i < length history - n \<longleftrightarrow> i + n < length history" for i using Cons.prems by auto
  have scan: "ngram_scan history n k (rev [0..<length history - n]) =
      Some (map_option (\<lambda>i. continuation history n i k) (find (occurs history n) (rev [0..<length history - n])))"
    by (rule ngram_scan_spec [OF assms(1,2)]) (simp add: len)
  show ?case
  proof (cases "find (occurs history n) (rev [0..<length history - n])")
    case None
    then have "\<not> (\<exists>i. occurs history n i)" by (auto simp: find_rev_upt(2) len occurs_def)
    then show ?thesis using None scan Cons by simp
  next
    case (Some i)
    then have i: "occurs history n i" "\<forall>j. occurs history n j \<longrightarrow> j \<le> i"
      using find_rev_upt(1) [of "occurs history n" "length history - n" i]
      by (auto simp: len occurs_def not_less [symmetric])
    then have "\<exists>i. occurs history n i" by blast
    then show ?thesis using Some scan i by auto
  qed
qed simp

lemma find_rev_range:
  "find P (rev [1..<Suc m]) = Some n \<longleftrightarrow> 0 < n \<and> n \<le> m \<and> P n \<and> (\<forall>j. n < j \<and> j \<le> m \<longrightarrow> \<not> P j)"
  "find P (rev [1..<Suc m]) = None \<longleftrightarrow> (\<forall>j. 0 < j \<and> j \<le> m \<longrightarrow> \<not> P j)"
  by (induction m) (auto simp: le_Suc_eq Suc_le_eq)

lemma ngram_draft_ok:
  assumes "length history + k < usize_lim" "0 < k"
  shows "\<exists>d. ngram_draft history ngram k = Some d \<and> draft_spec history ngram k d"
proof -
  let ?m = "min ngram (length history - 1)" and ?P = "\<lambda>n. \<exists>i. occurs history n i"
  have pos: "\<forall>n \<in> set (rev [1..<Suc ?m]). 0 < n" unfolding set_rev set_upt by auto
  obtain d where d: "ngram_draft history ngram k = Some d"
    "case find ?P (rev [1..<Suc ?m]) of None \<Rightarrow> d = []
     | Some n \<Rightarrow> \<exists>i. occurs history n i \<and> d = continuation history n i k \<and> (\<forall>j. occurs history n j \<longrightarrow> j \<le> i)"
    using ngram_lengths_spec [OF assms pos] unfolding ngram_draft_def by blast
  have small: "n \<le> length history - 1" if "occurs history n i" for n i using that by (auto simp: occurs_def)
  show ?thesis
  proof (cases "find ?P (rev [1..<Suc ?m])")
    case None
    then have "\<not> (\<exists>n i. 0 < n \<and> n \<le> ngram \<and> occurs history n i)"
      using small unfolding find_rev_range(2) by auto
    then show ?thesis using d None by (auto simp: draft_spec_def)
  next
    case (Some n)
    then have n: "0 < n" "n \<le> ngram" "\<And>j i. n < j \<Longrightarrow> j \<le> ngram \<Longrightarrow> \<not> occurs history j i"
      using small unfolding find_rev_range(1) by auto
    obtain i where i: "occurs history n i" "d = continuation history n i k" "\<forall>j. occurs history n j \<longrightarrow> j \<le> i"
      using d(2) unfolding Some by (simp only: option.case) blast
    have "d \<noteq> []" unfolding i(2) by (rule continuation_ne [OF i(1) assms(2)])
    moreover have "\<exists>n start. 0 < n \<and> n \<le> ngram \<and> occurs history n start" using n i(1) by blast
    ultimately have "draft_spec history ngram k d"
      unfolding draft_spec_def using n i by (simp only: if_True) blast
    then show ?thesis using d(1) by blast
  qed
qed

subsection \<open>Verification\<close>

text \<open>Greedy decoding of a model that predicts the next token of a history.\<close>

fun greedy :: "(token list \<Rightarrow> token) \<Rightarrow> token set \<Rightarrow> nat \<Rightarrow> token list \<Rightarrow> token list" where
  "greedy model eos 0 history = []"
| "greedy model eos (Suc n) history =
     (let t = model history in t # (if t \<in> eos then [] else greedy model eos n (history @ [t])))"

text \<open>The predictions of the model for the inputs of a row.\<close>

definition row_predictions :: "(token list \<Rightarrow> token) \<Rightarrow> token list \<Rightarrow> token list \<Rightarrow> token list" where
  "row_predictions model history draft = map (\<lambda>i. model (history @ take i draft)) [0..<Suc (length draft)]"

text \<open>The tokens the verification accepts, as a recursion over the draft.\<close>

fun accepted :: "(token list \<Rightarrow> token) \<Rightarrow> token set \<Rightarrow> nat \<Rightarrow> token list \<Rightarrow> token list \<Rightarrow> token list" where
  "accepted model eos remaining history [] = [model history]"
| "accepted model eos remaining history (d # draft) =
     (let t = model history in
      if remaining = 1 \<or> t \<in> eos \<or> d \<noteq> t then [t]
      else t # accepted model eos (remaining - 1) (history @ [t]) draft)"

lemma row_predictions_Cons:
  "row_predictions model history (d # draft) = model history # row_predictions model (history @ [d]) draft"
  by (simp add: row_predictions_def upt_conv_Cons map_Suc_upt [symmetric] del: upt_Suc)

lemma verify_row_accepted:
  assumes "length input = pos + length draft + 1" "drop (pos + 1) input = draft" "length produced < remaining"
  shows "verify_row input (length input) eos remaining pos (row_predictions model history draft) produced =
    Some (produced @ accepted model eos (remaining - length produced) history draft)"
  using assms
proof (induction draft arbitrary: pos history produced)
  case Nil
  then show ?case by (simp add: row_predictions_def Let_def)
next
  case (Cons d draft)
  let ?t = "model history"
  have d: "input ! (pos + 1) = d" "drop (pos + 1 + 1) input = draft"
    using Cons.prems(1,2) by (metis add_less_cancel_left hd_drop_conv_nth le_add1 length_Cons less_add_one list.sel(1)
        not_less_eq_eq plus_1_eq_Suc add.commute less_Suc_eq_le, metis drop_Suc list.sel(3) tl_drop add.commute plus_1_eq_Suc)
  have g: "vec_get input (pos + 1) = Some d" using d(1) Cons.prems(1) by (simp add: vec_get_def)
  then have g': "vec_get input (Suc pos) = Some d" by simp
  show ?case
  proof (cases "length (produced @ [?t]) = remaining \<or> ?t \<in> eos \<or> d \<noteq> ?t")
    case True
    then show ?thesis
      using g' Cons.prems by (auto simp: row_predictions_Cons Let_def vec_get_def)
  next
    case False
    then have "verify_row input (length input) eos remaining (pos + 1) (row_predictions model (history @ [?t]) draft) (produced @ [?t]) =
        Some ((produced @ [?t]) @ accepted model eos (remaining - length (produced @ [?t])) (history @ [?t]) draft)"
      using Cons.IH [of "pos + 1" "produced @ [?t]" "history @ [?t]"] d(2) Cons.prems by simp
    then show ?thesis
      using False g' Cons.prems by (auto simp: row_predictions_Cons Let_def vec_get_def)
  qed
qed

lemma accepted_prefix:
  assumes "0 < remaining"
  shows "\<exists>k. accepted model eos remaining history draft = take k (greedy model eos remaining history) \<and>
    0 < k \<and> k \<le> length (greedy model eos remaining history) \<and> k \<le> length draft + 1 \<and>
    take (k - 1) (greedy model eos remaining history) = take (k - 1) draft \<and>
    (k = length (greedy model eos remaining history) \<or> k = length draft + 1 \<or>
      greedy model eos remaining history ! (k - 1) \<noteq> draft ! (k - 1))"
  using assms
proof (induction draft arbitrary: remaining history)
  case Nil
  then show ?case by (cases remaining) (auto simp: Let_def intro: exI [of _ 1])
next
  case (Cons d draft)
  obtain n where n: "remaining = Suc n" using Cons.prems by (cases remaining) auto
  let ?t = "model history"
  show ?case
  proof (cases "n = 0 \<or> ?t \<in> eos \<or> d \<noteq> ?t")
    case True
    then show ?thesis by (intro exI [of _ 1]) (auto simp: n Let_def)
  next
    case False
    then obtain k where k: "accepted model eos n (history @ [?t]) draft = take k (greedy model eos n (history @ [?t]))"
      "0 < k" "k \<le> length (greedy model eos n (history @ [?t]))" "k \<le> length draft + 1"
      "take (k - 1) (greedy model eos n (history @ [?t])) = take (k - 1) draft"
      "k = length (greedy model eos n (history @ [?t])) \<or> k = length draft + 1 \<or>
        greedy model eos n (history @ [?t]) ! (k - 1) \<noteq> draft ! (k - 1)"
      using Cons.IH [of n "history @ [?t]"] by auto
    then show ?thesis using False by (intro exI [of _ "Suc k"]) (cases k, auto simp: n Let_def)
  qed
qed

end
