(* ===== verification/Batch_Sched_Turn.thy ===== *)
theory Batch_Sched_Turn
  imports Batch_Sched_Plan Batch_Speculative
begin

text \<open>
  One turn of the scheduler: a decode, a prefill or a verify batch is planned, or there is no work
  of that kind.  A planned batch keeps the invariant and changes nothing but its own rows.
\<close>

subsection \<open>Handing out a batch\<close>

lemma map_fst_om_insert: "om_ok m \<Longrightarrow> map_of m k \<noteq> None \<Longrightarrow> map fst (om_insert k v m) = map fst m"
  by (induction m) (force simp: om_ok_def dest: map_of_SomeD split: if_splits)+

definition mark :: "nat \<Rightarrow> 'smp active_request \<Rightarrow> 'smp active_request" where
  "mark b a = a\<lparr>aq_phase := InFlight b\<rparr>"

lemma mark_simps [simp]:
  "aq_phase (mark b a) = InFlight b" "aq_history (mark b a) = aq_history a" "request_ok lim (mark b a) = request_ok lim a"
  "mark b (mark b a) = mark b a"
  by (simp_all add: mark_def request_ok_def)

lemma mark_rows_ok:
  assumes "om_ok (sc_active s)" "\<And>row. row \<in> set rows \<Longrightarrow> get_active s (row_request row) \<noteq> None"
  shows "\<exists>act. mark_rows b rows s = Some (s\<lparr>sc_active := act\<rparr>, Inr ()) \<and> om_ok act \<and>
    map fst act = map fst (sc_active s) \<and>
    (\<forall>r. map_of act r = (if row_of rows r = None then get_active s r else map_option (mark b) (get_active s r)))"
  using assms
proof (induction rows arbitrary: s)
  case Nil
  then show ?case by (intro exI [of _ "sc_active s"]) (simp add: get_active_def)
next
  case (Cons row rows)
  obtain a where a: "get_active s (row_request row) = Some a" using Cons.prems(2) [of row] by auto
  let ?s1 = "set_active s (row_request row) (mark b a)"
  have ok: "om_ok (sc_active ?s1)" using Cons.prems(1) by (simp add: set_active_def)
  have g: "get_active ?s1 r = (if r = row_request row then Some (mark b a) else get_active s r)" for r
    using Cons.prems(1) by simp
  obtain act where act: "mark_rows b rows ?s1 = Some (?s1\<lparr>sc_active := act\<rparr>, Inr ())" "om_ok act"
    "map fst act = map fst (sc_active ?s1)"
    "\<forall>r. map_of act r = (if row_of rows r = None then get_active ?s1 r else map_option (mark b) (get_active ?s1 r))"
    using Cons.IH [OF ok] Cons.prems(2) by (force simp: g)
  have "map fst (sc_active ?s1) = map fst (sc_active s)"
    using a Cons.prems(1) map_fst_om_insert [of "sc_active s" "row_request row"]
    by (simp add: set_active_def get_active_def)
  moreover have "?s1\<lparr>sc_active := act\<rparr> = s\<lparr>sc_active := act\<rparr>" by (simp add: set_active_def)
  moreover have "mark_rows b (row # rows) s = Some (?s1\<lparr>sc_active := act\<rparr>, Inr ())"
    using act(1) a by (simp add: mark_row_def sched_then_def mark_def)
  ultimately show ?case using act a by (intro exI [of _ act]) (auto simp: g)
qed

definition planned :: "'smp scheduler \<Rightarrow> 'smp scheduler \<Rightarrow> scheduled_batch \<Rightarrow> bool" where
  "planned s s' batch \<longleftrightarrow> batch_ok s' batch \<and> bt_id batch = sc_next_batch s \<and>
     (bt_kind batch = Verify \<longrightarrow> sc_speculative s \<noteq> None) \<and>
     (\<exists>kv act. s' = s\<lparr>sc_kv := kv, sc_active := act, sc_next_batch := Suc (sc_next_batch s)\<rparr> \<and>
        kv_config kv = kv_config (sc_kv s) \<and> same_committed (sc_kv s) kv) \<and>
     (\<forall>r. get_active s' r =
        (if row_of (bt_sequences batch) r = None then get_active s r
         else map_option (mark (bt_id batch)) (get_active s r))) \<and>
     (\<forall>row \<in> set (bt_sequences batch). \<exists>a. get_active s (row_request row) = Some a \<and>
        aq_phase a = source_phase (bt_kind batch) (row_tokens row))"

lemma row_active:
  assumes "core_inv s kind rows b" "row \<in> set rows"
  shows "\<exists>a c n. get_active s (row_request row) = Some a \<and> request_ok (max_len s) a \<and>
    seq_view (sc_kv s) (row_request row) = Some (c, Some (row_reservation row, n)) \<and> length (row_tokens row) \<le> n \<and>
    row_ok kind (aq_history a) c row \<and>
    (case b of None \<Rightarrow> aq_phase a = source_phase kind (row_tokens row) | Some i \<Rightarrow> aq_phase a = InFlight i)"
  using core_invD(6) [OF assms(1), of "row_request row"] row_of_mem [OF core_invD(5) [OF assms(1)] assms(2)]
  by (auto simp: slot_def split: option.splits)

lemma finish_ok:
  assumes inv: "core_inv (s\<lparr>sc_kv := kv\<rparr>) kind rows None" and rows: "rows \<noteq> []"
    and kv: "kv_config kv = kv_config (sc_kv s)" "same_committed (sc_kv s) kv"
    and room: "sc_next_batch s + 1 < usize_lim"
    and width: "\<forall>row \<in> set rows. length (row_tokens row) = w" "length rows * w \<le> bc_max_batch_tokens (sc_config s)"
    and spec: "kind = Verify \<Longrightarrow> sc_speculative s \<noteq> None"
  shows "\<exists>s' batch. finish_schedule (s\<lparr>sc_kv := kv\<rparr>) kind rows = Some (s', Inr (Some batch)) \<and> planned s s' batch"
proof -
  note D = core_invD [OF inv]
  let ?b = "sc_next_batch s" and ?t = "s\<lparr>sc_kv := kv, sc_next_batch := Suc (sc_next_batch s)\<rparr>"
  let ?batch = "\<lparr>bt_id = ?b, bt_kind = kind, bt_sequences = rows\<rparr>"
  have ne: "get_active s (row_request row) \<noteq> None" if "row \<in> set rows" for row
    using row_active [OF inv that] by auto
  obtain act where act: "mark_rows ?b rows ?t = Some (?t\<lparr>sc_active := act\<rparr>, Inr ())" "om_ok act"
    "map fst act = map fst (sc_active s)"
    "\<forall>r. map_of act r = (if row_of rows r = None then get_active s r else map_option (mark ?b) (get_active s r))"
    using mark_rows_ok [of ?t rows ?b] D(2) ne by auto
  let ?s' = "?t\<lparr>sc_active := act\<rparr>"
  have g: "get_active ?s' r = (if row_of rows r = None then get_active s r else map_option (mark ?b) (get_active s r))" for r
    using act(4) by (simp add: get_active_def)
  have "\<not> (\<exists>row \<in> set rows. get_active s (row_request row) = None)" using ne by auto
  then have fin: "finish_schedule (s\<lparr>sc_kv := kv\<rparr>) kind rows = Some (?s', Inr (Some ?batch))"
    using rows room act(1) by (auto simp: finish_schedule_def Let_def sched_then_def)
  have "core_inv ?s' kind rows (Some ?b)"
    unfolding core_inv_def
  proof (intro conjI allI)
    have len: "length act = length (sc_active s)" using act(3) by (metis length_map)
    show "limits_ok ?s'" using D(3) kv len by (simp add: limits_ok_def)
    show "queue_ok ?s'" using D(4) kv by (auto simp: queue_ok_def g split: if_splits)
    fix r
    show "slot (max_len ?s') (seq_view (sc_kv ?s') r) (get_active ?s' r) kind (row_of rows r) (Some ?b)"
      using D(6) [of r]
      by (cases "row_of rows r"; cases "get_active s r"; cases "seq_view kv r") (auto simp: g slot_def)
  qed (use D act in auto)
  moreover have "next_n ?batch = w" using rows width(1) by (cases rows) (auto simp: next_n_def)
  ultimately have "batch_ok ?s' ?batch" using rows width by (simp add: batch_ok_def)
  moreover have "\<exists>a. get_active s (row_request row) = Some a \<and> aq_phase a = source_phase kind (row_tokens row)"
    if "row \<in> set rows" for row
    using row_active [OF inv that] by auto
  moreover have "\<exists>kv' act'. ?s' = s\<lparr>sc_kv := kv', sc_active := act', sc_next_batch := Suc (sc_next_batch s)\<rparr> \<and>
      kv_config kv' = kv_config (sc_kv s) \<and> same_committed (sc_kv s) kv'"
    using kv by (intro exI [of _ kv] exI [of _ act]) simp
  ultimately have "planned s ?s' ?batch" using spec unfolding planned_def by (simp only: scheduled_batch.simps g) blast
  with fin show ?thesis by blast
qed

lemma slot_idle: "slot lim ve ao k None b \<Longrightarrow> slot lim ve ao k' None b'"
  by (cases ao; cases ve) (auto simp: slot_def)

lemma core_inv_idle: "core_inv s k [] b \<Longrightarrow> core_inv s k' [] b'"
  by (auto simp: core_inv_def intro: slot_idle)

text \<open>The outcome of planning: no candidate of this kind could be reserved, or a planned batch.\<close>

definition turn_outcome :: "('smp, scheduled_batch option) sched_result \<Rightarrow> 'smp scheduler \<Rightarrow> bool \<Rightarrow> bool" where
  "turn_outcome res s work \<longleftrightarrow> (res = Some (s, Inr None) \<and> \<not> work) \<or>
     (\<exists>s' batch. res = Some (s', Inr (Some batch)) \<and> planned s s' batch)"

lemma finish_outcome:
  assumes inv: "core_inv (s\<lparr>sc_kv := kv\<rparr>) kind rows None"
    and kv: "kv_config kv = kv_config (sc_kv s)" "same_committed (sc_kv s) kv"
    and room: "sc_next_batch s + 1 < usize_lim"
    and width: "\<forall>row \<in> set rows. length (row_tokens row) = w" "length rows * w \<le> bc_max_batch_tokens (sc_config s)"
    and spec: "kind = Verify \<Longrightarrow> sc_speculative s \<noteq> None"
    and none: "rows = [] \<Longrightarrow> kv = sc_kv s \<and> \<not> work"
  shows "turn_outcome (finish_schedule (s\<lparr>sc_kv := kv\<rparr>) kind rows) s work"
proof (cases "rows = []")
  case True
  then show ?thesis using none by (simp add: turn_outcome_def finish_schedule_def)
next
  case False
  then show ?thesis using finish_ok [OF inv False kv room width spec] by (auto simp: turn_outcome_def)
qed

subsection \<open>The decode turn\<close>

definition decodable :: "'smp scheduler \<Rightarrow> bool" where
  "decodable s \<longleftrightarrow> (\<exists>r a t. get_active s r = Some a \<and> aq_phase a = AwaitingDecode t \<and> begin_ready (sc_kv s) r 1)"

lemma resting:
  assumes "core_inv s kind [] b" "get_active s r = Some a"
  shows "\<exists>c. seq_view (sc_kv s) r = Some (c, None) \<and> request_ok (max_len s) a \<and> at_rest (aq_phase a) (aq_history a) c"
  using core_invD(6) [OF assms(1), of r] assms(2) by (auto simp: slot_def split: option.splits)

lemma waiting_iff:
  assumes "core_inv s kind [] b" "get_active s r = Some a" "aq_phase a = AwaitingDecode t"
  shows "waiting s r t"
  using resting [OF assms(1,2)] assms(2,3) by (auto simp: waiting_def at_rest_def)

lemma length_map_filter: "length (List.map_filter f xs) \<le> length xs"
  by (simp add: map_filter_def)

lemma schedule_decode_ok:
  assumes inv: "core_inv s kind [] None" and sp: "kv_spare (sc_kv s) (Suc (length (sc_active s)))"
    and room: "sc_next_batch s + 1 < usize_lim"
  shows "turn_outcome (schedule_decode s) s (decodable s)"
proof -
  note D = core_invD [OF inv]
  let ?cs = "decode_candidates (sc_active s)"
  have cs: "waiting s (fst c) (snd c)" if "c \<in> set ?cs" for c
    using that waiting_iff [OF inv] decode_candidates_mem [OF D(2), of "fst c" "snd c"] by auto
  have "length ?cs \<le> length (sc_active s)" by (simp add: decode_candidates_def length_map_filter)
  then have "kv_spare (sc_kv s) (Suc (length ?cs))" using spare_mono [OF sp] by simp
  note sp' = this
  obtain kv' new where l: "decode_loop ?cs [] s = Some (s\<lparr>sc_kv := kv'\<rparr>, Inr new)"
    "core_inv (s\<lparr>sc_kv := kv'\<rparr>) Decode new None" "kv_config kv' = kv_config (sc_kv s)" "same_committed (sc_kv s) kv'"
    "\<forall>row \<in> set new. length (row_tokens row) = 1" "length new \<le> bc_max_batch_tokens (sc_config s)"
    "new = [] \<longrightarrow> kv' = sc_kv s \<and>
      (0 < bc_max_batch_tokens (sc_config s) \<longrightarrow> (\<forall>c \<in> set ?cs. \<not> begin_ready (sc_kv s) (fst c) 1))"
    by (rule dl.plan [OF core_inv_idle [OF inv] cs decode_candidates_distinct [OF D(2)] sp']) (assumption | rule that)+
  have "\<not> decodable s" if "new = []"
    using l(7) that D(3) decode_candidates_mem [OF D(2)] by (force simp: limits_ok_def decodable_def)
  then have "turn_outcome (finish_schedule (s\<lparr>sc_kv := kv'\<rparr>) Decode new) s (decodable s)"
    by (intro finish_outcome [OF l(2,3,4) room l(5)]) (use l(6,7) in auto)
  then show ?thesis using l(1) by (simp add: schedule_decode_def sched_then_def)
qed

subsection \<open>The prefill turn\<close>

definition prefillable :: "'smp scheduler \<Rightarrow> bool" where
  "prefillable s \<longleftrightarrow> (\<exists>r a c. get_active s r = Some a \<and> aq_phase a = NeedsPrefill \<and> r \<notin> sc_deferred s \<and>
     seq_view (sc_kv s) r = Some (c, None) \<and> begin_ready (sc_kv s) r (chunk_len s a c))"

definition buckets_ok :: "'smp scheduler \<Rightarrow> request_id set \<Rightarrow> prefill_buckets \<Rightarrow> bool" where
  "buckets_ok s seen buckets \<longleftrightarrow> om_ok buckets \<and>
     (\<forall>w f rs. ((w, f), rs) \<in> set buckets \<longrightarrow> 0 < w \<and> w \<le> bc_max_batch_tokens (sc_config s) \<and> rs \<noteq> [] \<and> distinct rs \<and>
        set rs \<subseteq> seen \<and> (\<forall>r \<in> set rs. unfilled w r s \<and> begin_ready (sc_kv s) r w))"

lemma set_om_insert: "set (om_insert k v m) \<subseteq> insert (k, v) (set m)" "(k, v) \<in> set (om_insert k v m)"
  by (induction m) (auto split: if_splits)

lemma bucket_push_ok:
  assumes "buckets_ok s seen buckets" "0 < w" "w \<le> bc_max_batch_tokens (sc_config s)" "r \<notin> seen"
    "unfilled w r s" "begin_ready (sc_kv s) r w"
  shows "buckets_ok s (insert r seen) (bucket_push (w, f) r buckets)" "bucket_push (w, f) r buckets \<noteq> []"
proof -
  let ?old = "case map_of buckets (w, f) of Some rs \<Rightarrow> rs | None \<Rightarrow> []"
  have old: "set ?old \<subseteq> seen \<and> distinct ?old \<and> (\<forall>r \<in> set ?old. unfilled w r s \<and> begin_ready (sc_kv s) r w)"
  proof (cases "map_of buckets (w, f)")
    case (Some rs)
    then have "((w, f), rs) \<in> set buckets" by (rule map_of_SomeD)
    then show ?thesis using assms(1) Some unfolding buckets_ok_def by auto
  qed simp
  have mem: "x = ((w, f), ?old @ [r]) \<or> x \<in> set buckets" if "x \<in> set (bucket_push (w, f) r buckets)" for x
    using that set_om_insert(1) [of "(w, f)" "?old @ [r]" buckets] by (auto simp: bucket_push_def)
  have "om_ok (bucket_push (w, f) r buckets)" using assms(1) by (simp add: buckets_ok_def bucket_push_def)
  moreover have "0 < w' \<and> w' \<le> bc_max_batch_tokens (sc_config s) \<and> rs \<noteq> [] \<and> distinct rs \<and>
        set rs \<subseteq> insert r seen \<and> (\<forall>r \<in> set rs. unfilled w' r s \<and> begin_ready (sc_kv s) r w')"
    if "((w', g), rs) \<in> set (bucket_push (w, f) r buckets)" for w' g rs
    using mem [OF that]
  proof
    assume "((w', g), rs) = ((w, f), ?old @ [r])"
    then show ?thesis using old assms(2-6) by auto
  next
    assume "((w', g), rs) \<in> set buckets"
    then show ?thesis using assms(1) unfolding buckets_ok_def by blast
  qed
  ultimately show "buckets_ok s (insert r seen) (bucket_push (w, f) r buckets)" unfolding buckets_ok_def by blast
  show "bucket_push (w, f) r buckets \<noteq> []"
    using set_om_insert(2) [of "(w, f)" "?old @ [r]" buckets] by (auto simp: bucket_push_def)
qed

lemma collect_buckets_ok:
  assumes inv: "core_inv s kind [] None" and sp: "kv_spare (sc_kv s) 1"
  shows "buckets_ok s seen buckets \<Longrightarrow> distinct (map fst rest) \<Longrightarrow> fst ` set rest \<inter> seen = {} \<Longrightarrow>
    (\<And>r a. (r, a) \<in> set rest \<Longrightarrow> get_active s r = Some a) \<Longrightarrow>
    \<exists>bs. collect_buckets s rest buckets = Some (Inr bs) \<and> buckets_ok s (seen \<union> fst ` set rest) bs \<and>
      (bs = [] \<longrightarrow> buckets = [] \<and> (\<forall>(r, a) \<in> set rest. \<forall>c. aq_phase a = NeedsPrefill \<longrightarrow> r \<notin> sc_deferred s \<longrightarrow>
        seq_view (sc_kv s) r = Some (c, None) \<longrightarrow> \<not> begin_ready (sc_kv s) r (chunk_len s a c)))"
proof (induction rest arbitrary: buckets seen)
  case Nil
  then show ?case by simp
next
  case (Cons x rest)
  note D = core_invD [OF inv]
  obtain r a where x: "x = (r, a)" by (cases x)
  have a: "get_active s r = Some a" using Cons.prems(4) x by simp
  obtain c where c: "seq_view (sc_kv s) r = Some (c, None)" "at_rest (aq_phase a) (aq_history a) c"
    using resting [OF inv a] by blast
  let ?w = "chunk_len s a c"
  let ?go = "aq_phase a = NeedsPrefill \<and> r \<notin> sc_deferred s \<and> begin_ready (sc_kv s) r ?w"
  let ?bs = "if ?go then bucket_push (?w, c \<noteq> 0) r buckets else buckets"
  have zero: "\<not> begin_ready (sc_kv s) r 0" by (simp add: begin_ready_def)
  have step: "collect_buckets s (x # rest) buckets = collect_buckets s rest ?bs"
    using can_append_iff [OF D(1) sp c(1), of ?w] prefill_chunk_view [OF c(1), of a] zero
    by (cases "?w = 0") (auto simp: x)
  have ok: "buckets_ok s (insert r seen) ?bs \<and> (?go \<longrightarrow> ?bs \<noteq> [])"
  proof (cases ?go)
    case True
    have "r \<notin> seen" using Cons.prems(3) x by auto
    moreover have "0 < ?w" using True zero by (cases ?w) auto
    moreover have "?w \<le> bc_max_batch_tokens (sc_config s)" "?w \<le> length (aq_history a) - c"
      by (auto simp: chunk_len_def Let_def)
    moreover from this have "unfilled ?w r s" using True a c by (auto simp: unfilled_def at_rest_def)
    ultimately show ?thesis using bucket_push_ok [OF Cons.prems(1)] True by simp
  next
    case False
    have "buckets_ok s (insert r seen) buckets" using Cons.prems(1) unfolding buckets_ok_def by blast
    with False show ?thesis by auto
  qed
  have dis: "distinct (map fst rest)" "fst ` set rest \<inter> insert r seen = {}" using Cons.prems(2,3) x by auto
  have act: "get_active s r' = Some a'" if "(r', a') \<in> set rest" for r' a' using Cons.prems(4) that by simp
  obtain bs where bs: "collect_buckets s rest ?bs = Some (Inr bs)" "buckets_ok s (insert r seen \<union> fst ` set rest) bs"
    "bs = [] \<longrightarrow> ?bs = [] \<and> (\<forall>(r, a) \<in> set rest. \<forall>c. aq_phase a = NeedsPrefill \<longrightarrow> r \<notin> sc_deferred s \<longrightarrow>
        seq_view (sc_kv s) r = Some (c, None) \<longrightarrow> \<not> begin_ready (sc_kv s) r (chunk_len s a c))"
    using Cons.IH [OF conjunct1 [OF ok] dis act] by blast
  have "insert r seen \<union> fst ` set rest = seen \<union> fst ` set (x # rest)" using x by auto
  with bs ok step c x show ?case by (intro exI [of _ bs]) (auto split: if_splits)
qed

lemma best_bucket_mem: "buckets \<noteq> [] \<Longrightarrow> \<exists>x \<in> set buckets. best_bucket m buckets = Some x"
proof -
  have "fold (\<lambda>y best. if bucket_less_eq m best y then y else best) xs x \<in> insert x (set xs)" for xs x
    by (induction xs arbitrary: x) auto
  then show "buckets \<noteq> [] \<Longrightarrow> ?thesis" by (cases buckets) (auto simp: best_bucket_def)
qed

lemma schedule_prefill_ok:
  assumes inv: "core_inv s kind [] None" and sp: "kv_spare (sc_kv s) (Suc (length (sc_active s)))"
    and room: "sc_next_batch s + 1 < usize_lim"
  shows "turn_outcome (schedule_prefill s) s (prefillable s)"
proof -
  note D = core_invD [OF inv]
  let ?M = "bc_max_batch_tokens (sc_config s)"
  have sp1: "kv_spare (sc_kv s) 1" using spare_mono [OF sp] by simp
  have ent: "(r, a) \<in> set (sc_active s) \<longleftrightarrow> get_active s r = Some a" for r a
    using om.entries_mem [OF D(2)] by (simp add: get_active_def)
  obtain bs where bs: "collect_buckets s (sc_active s) [] = Some (Inr bs)" "buckets_ok s (fst ` set (sc_active s)) bs"
    "bs = [] \<longrightarrow> (\<forall>(r, a) \<in> set (sc_active s). \<forall>c. aq_phase a = NeedsPrefill \<longrightarrow> r \<notin> sc_deferred s \<longrightarrow>
        seq_view (sc_kv s) r = Some (c, None) \<longrightarrow> \<not> begin_ready (sc_kv s) r (chunk_len s a c))"
    using collect_buckets_ok [OF inv sp1, of "{}" "[]" "sc_active s"] om.entries_distinct [OF D(2)] ent
    by (auto simp: buckets_ok_def om_ok_def)
  show ?thesis
  proof (cases "bs = []")
    case True
    then have "\<not> prefillable s" using bs(3) ent by (fastforce simp: prefillable_def)
    then show ?thesis using bs(1) True by (simp add: schedule_prefill_def turn_outcome_def best_bucket_def)
  next
    case False
    then obtain w f rs where best: "best_bucket ?M bs = Some ((w, f), rs)" "((w, f), rs) \<in> set bs"
      using best_bucket_mem [of bs ?M] by (metis prod.collapse)
    then have b: "0 < w" "w \<le> ?M" "rs \<noteq> []" "distinct rs" "set rs \<subseteq> fst ` set (sc_active s)"
      "\<And>r. r \<in> set rs \<Longrightarrow> unfilled w r s \<and> begin_ready (sc_kv s) r w"
      using bs(2) unfolding buckets_ok_def by blast+
    have "length rs \<le> length (sc_active s)"
      using card_mono [OF _ b(5)] distinct_card [OF b(4)] distinct_card [OF om.entries_distinct [OF D(2)]] by simp
    then have "kv_spare (sc_kv s) (Suc (length rs))" using spare_mono [OF sp] by simp
    note sp' = this
    have fits: "unfilled w r s" if "r \<in> set rs" for r using b(6) [OF that] by simp
    have dd: "distinct (map (\<lambda>r. r) rs)" using b(4) by simp
    obtain kv' new where l: "prefill_loop w (?M div w) rs [] s = Some (s\<lparr>sc_kv := kv'\<rparr>, Inr new)"
      "core_inv (s\<lparr>sc_kv := kv'\<rparr>) Prefill new None" "kv_config kv' = kv_config (sc_kv s)"
      "same_committed (sc_kv s) kv'" "\<forall>row \<in> set new. length (row_tokens row) = w" "length new \<le> ?M div w"
      "new = [] \<longrightarrow> kv' = sc_kv s \<and> (0 < ?M div w \<longrightarrow> (\<forall>c \<in> set rs. \<not> begin_ready (sc_kv s) c w))"
      by (rule pl.plan [where max_rows = "?M div w", OF core_inv_idle [OF inv] fits dd sp']) (assumption | rule that)+
    have "new \<noteq> []" using l(7) b(6) [of "hd rs"] b(1-3) by (auto simp: div_greater_zero_iff)
    moreover have "length new * w \<le> ?M" using l(6) by (metis div_times_less_eq_dividend le_trans mult_le_mono1)
    ultimately have "turn_outcome (finish_schedule (s\<lparr>sc_kv := kv'\<rparr>) Prefill new) s (prefillable s)"
      by (intro finish_outcome [OF l(2,3,4) room l(5)]) auto
    then show ?thesis using l(1) bs(1) best(1) b(1) by (simp add: schedule_prefill_def sched_then_def rassert_def)
  qed
qed

subsection \<open>The verify turn\<close>

lemma verify_candidates_ok:
  assumes inv: "core_inv s kind [] None" and sp: "kv_spare (sc_kv s) 1" and cfg: "sc_speculative s = Some config"
  shows "distinct (map fst rest) \<Longrightarrow> (\<And>r a. (r, a) \<in> set rest \<Longrightarrow> get_active s r = Some a) \<Longrightarrow>
    \<exists>cs. verify_candidates s config rest = Some (Inr cs) \<and> distinct (map fst cs) \<and> fst ` set cs \<subseteq> fst ` set rest \<and>
      (\<forall>c \<in> set cs. waiting s (fst c) (fst (snd c)) \<and> snd (snd c) \<noteq> [])"
proof (induction rest)
  case (Cons x rest)
  note D = core_invD [OF inv]
  obtain r a where x: "x = (r, a)" by (cases x)
  have a: "get_active s r = Some a" using Cons.prems(2) x by simp
  obtain c where c: "seq_view (sc_kv s) r = Some (c, None)" "request_ok (max_len s) a" "at_rest (aq_phase a) (aq_history a) c"
    using resting [OF inv a] by blast
  obtain cs where cs: "verify_candidates s config rest = Some (Inr cs)" "distinct (map fst cs)"
    "fst ` set cs \<subseteq> fst ` set rest" "\<forall>c \<in> set cs. waiting s (fst c) (fst (snd c)) \<and> snd (snd c) \<noteq> []"
    using Cons by auto
  have new: "r \<notin> fst ` set cs" using Cons.prems(1) cs(3) x by auto
  show ?case
  proof (cases "aq_phase a")
    case (AwaitingDecode t)
    have lim: "0 < sp_draft_tokens config" "max_len s + sp_draft_tokens config < usize_lim"
      using D(3) cfg by (auto simp: limits_ok_def)
    have len: "length (aq_history a) \<le> max_len s" "length (aq_generated a) \<le> gen_max_new_tokens (aq_generation a)"
      using c(2) by (auto simp: request_ok_def)
    obtain d where d: "ngram_draft (aq_history a) (sp_ngram config) (sp_draft_tokens config) = Some d"
      using ngram_draft_ok [of "aq_history a" "sp_draft_tokens config" "sp_ngram config"] len(1) lim by auto
    have w: "waiting s r t" using waiting_iff [OF inv a AwaitingDecode] .
    show ?thesis
      using cs new d w AwaitingDecode len(2) can_append_iff [OF D(1) sp c(1), of "sp_draft_tokens config + 1"]
      by (cases "begin_ready (sc_kv s) r (sp_draft_tokens config + 1)") (auto simp: x usub_def)
  qed (use cs x in auto)
qed simp

lemma schedule_verify_ok:
  assumes inv: "core_inv s kind [] None" and sp: "kv_spare (sc_kv s) (Suc (length (sc_active s)))"
    and room: "sc_next_batch s + 1 < usize_lim"
  shows "turn_outcome (schedule_verify s) s False"
proof (cases "sc_speculative s")
  case None
  then show ?thesis by (simp add: schedule_verify_def turn_outcome_def)
next
  case (Some config)
  note D = core_invD [OF inv]
  let ?M = "bc_max_batch_tokens (sc_config s)" and ?d = "sp_draft_tokens config"
  have sp1: "kv_spare (sc_kv s) 1" using spare_mono [OF sp] by simp
  have w: "uadd ?d 1 = Some (Suc ?d)" using D(3) Some config_okD(5) [OF kv_invD(2) [OF D(1)]]
    by (auto simp: limits_ok_def uadd_def)
  have ent: "(r, a) \<in> set (sc_active s) \<longleftrightarrow> get_active s r = Some a" for r a
    using om.entries_mem [OF D(2)] by (simp add: get_active_def)
  obtain cs where cs: "verify_candidates s config (sc_active s) = Some (Inr cs)" "distinct (map fst cs)"
    "fst ` set cs \<subseteq> fst ` set (sc_active s)"
    "\<forall>c \<in> set cs. waiting s (fst c) (fst (snd c)) \<and> snd (snd c) \<noteq> []"
    using verify_candidates_ok [OF inv sp1 Some om.entries_distinct [OF D(2)]] ent by auto
  have "length cs \<le> length (sc_active s)"
    using card_mono [OF _ cs(3)] distinct_card [OF cs(2)] distinct_card [OF om.entries_distinct [OF D(2)]] by simp
  then have sp': "kv_spare (sc_kv s) (Suc (length cs))" using spare_mono [OF sp] by simp
  show ?thesis
  proof (cases "?M div Suc ?d = 0")
    case True
    then show ?thesis using Some w by (simp add: schedule_verify_def turn_outcome_def uadd_def)
  next
    case False
    have fits: "waiting s (fst c) (fst (snd c)) \<and> snd (snd c) \<noteq> []" if "c \<in> set cs" for c using cs(4) that by blast
    obtain kv' new where l: "verify_loop (Suc ?d) (?M div Suc ?d) cs [] s = Some (s\<lparr>sc_kv := kv'\<rparr>, Inr new)"
      "core_inv (s\<lparr>sc_kv := kv'\<rparr>) Verify new None" "kv_config kv' = kv_config (sc_kv s)"
      "same_committed (sc_kv s) kv'" "\<forall>row \<in> set new. length (row_tokens row) = Suc ?d" "length new \<le> ?M div Suc ?d"
      "new = [] \<longrightarrow> kv' = sc_kv s \<and> (0 < ?M div Suc ?d \<longrightarrow> (\<forall>c \<in> set cs. \<not> begin_ready (sc_kv s) (fst c) (Suc ?d)))"
      by (rule vl.plan [where max_rows = "?M div Suc ?d" and d = ?d, OF core_inv_idle [OF inv] fits cs(2) sp'])
        (assumption | rule that)+
    have "length new * Suc ?d \<le> ?M" using l(6) by (metis div_times_less_eq_dividend le_trans mult_le_mono1)
    then have "turn_outcome (finish_schedule (s\<lparr>sc_kv := kv'\<rparr>) Verify new) s False"
      by (intro finish_outcome [OF l(2,3,4) room l(5)]) (use l(7) Some in auto)
    then show ?thesis using l(1) cs(1) Some w False by (simp add: schedule_verify_def sched_then_def uadd_def)
  qed
qed

subsection \<open>A whole turn\<close>

text \<open>The two flags that steer the order of the turns are not part of the invariant.\<close>

definition flagged :: "'smp scheduler \<Rightarrow> bool \<Rightarrow> bool \<Rightarrow> 'smp scheduler" where
  "flagged s x y = s\<lparr>sc_prefer_prefill := x, sc_speculative_turn := y\<rparr>"

lemma flagged_simps [simp]:
  "flagged (flagged s x y) x' y' = flagged s x' y'" "sc_kv (flagged s x y) = sc_kv s"
  "sc_active (flagged s x y) = sc_active s" "get_active (flagged s x y) = get_active s"
  "sc_next_batch (flagged s x y) = sc_next_batch s" "sc_deferred (flagged s x y) = sc_deferred s"
  "sc_speculative_turn (flagged s x y) = y" "sc_prefer_prefill (flagged s x y) = x"
  "sc_config (flagged s x y) = sc_config s" "sc_pending (flagged s x y) = sc_pending s"
  "sc_recompute (flagged s x y) = sc_recompute s"  "sc_in_flight (flagged s x y) = sc_in_flight s"
  "sc_prefill_chunk (flagged s x y) = sc_prefill_chunk s" "sc_preemptions (flagged s x y) = sc_preemptions s"
  "sc_finished (flagged s x y) = sc_finished s" "sc_options (flagged s x y) = sc_options s"
  "sc_next_admission (flagged s x y) = sc_next_admission s" "sc_speculative (flagged s x y) = sc_speculative s"
  by (simp_all add: flagged_def get_active_def)

lemma flagged_self:
  "flagged s (sc_prefer_prefill s) (sc_speculative_turn s) = s"
  "s\<lparr>sc_prefer_prefill := x\<rparr> = flagged s x (sc_speculative_turn s)"
  "s\<lparr>sc_speculative_turn := y\<rparr> = flagged s (sc_prefer_prefill s) y"
  by (simp_all add: flagged_def)

lemma flagged_inv [simp]:
  "core_inv (flagged s x y) kind rows b = core_inv s kind rows b" "batch_ok (flagged s x y) batch = batch_ok s batch"
  "decodable (flagged s x y) = decodable s" "prefillable (flagged s x y) = prefillable s"
  by (simp_all add: core_inv_def limits_ok_def queue_ok_def batch_ok_def decodable_def prefillable_def flagged_def
      get_active_def chunk_len_def)

text \<open>A batch planned from a state, up to the flags.\<close>

definition planned_from :: "'smp scheduler \<Rightarrow> 'smp scheduler \<Rightarrow> scheduled_batch \<Rightarrow> bool" where
  "planned_from s s' batch \<longleftrightarrow> (\<exists>x y. planned (flagged s x y) (flagged s' x y) batch)"

lemma planned_flagged: "planned (flagged s x y) s' batch \<Longrightarrow> planned_from s (flagged s' x' y') batch"
proof -
  assume p: "planned (flagged s x y) s' batch"
  then have "flagged s' x y = s'" by (auto simp: planned_def flagged_def)
  then have "planned (flagged s x y) (flagged (flagged s' x' y') x y) batch" using p by simp
  then show ?thesis unfolding planned_from_def by blast
qed

definition runnable :: "'smp scheduler \<Rightarrow> bool" where
  "runnable s \<longleftrightarrow> decodable s \<or> prefillable s"

lemma try_schedule_ok:
  assumes inv: "core_inv s kind [] None" and sp: "kv_spare (sc_kv s) (Suc (length (sc_active s)))"
    and room: "sc_next_batch s + 1 < usize_lim"
  shows "(\<exists>x y. try_schedule s = Some (flagged s x y, Inr None) \<and> \<not> runnable s) \<or>
    (\<exists>s' batch. try_schedule s = Some (s', Inr (Some batch)) \<and> planned_from s s' batch)"
proof -
  let ?t = "flagged s (sc_prefer_prefill s) (\<not> sc_speculative_turn s)"
  have ok: "core_inv (flagged s x y) kind [] None" "kv_spare (sc_kv (flagged s x y)) (Suc (length (sc_active (flagged s x y))))"
    "sc_next_batch (flagged s x y) + 1 < usize_lim" for x y
    using assms by simp_all
  note pre = schedule_prefill_ok [OF ok] and dec = schedule_decode_ok [OF ok] and ver = schedule_verify_ok [OF ok]
  have pf: "(try_prefill (flagged s x y) = Some (flagged s x y, Inr None) \<and> \<not> prefillable s) \<or>
      (\<exists>s' batch. try_prefill (flagged s x y) = Some (s', Inr (Some batch)) \<and> planned_from s s' batch)" for x y
    using pre [of x y] by (auto simp: turn_outcome_def try_prefill_def sched_then_def planned_flagged flagged_self)
  have df: "(try_decode s = Some (?t, Inr None) \<and> \<not> runnable s) \<or>
      (\<exists>s' batch. try_decode s = Some (s', Inr (Some batch)) \<and> planned_from s s' batch)"
  proof -
    have v: "(if sc_speculative_turn ?t then schedule_verify ?t else Some (?t, Inr None)) = Some (?t, Inr None) \<or>
        (\<exists>s' batch. (if sc_speculative_turn ?t then schedule_verify ?t else Some (?t, Inr None)) = Some (s', Inr (Some batch)) \<and>
          planned ?t s' batch)"
      using ver [of "sc_prefer_prefill s" "\<not> sc_speculative_turn s"] by (auto simp: turn_outcome_def)
    show ?thesis
      using v dec [of "sc_prefer_prefill s" "\<not> sc_speculative_turn s"] pf [of "sc_prefer_prefill s" "\<not> sc_speculative_turn s"]
      by (auto simp: try_decode_def sched_then_def turn_outcome_def runnable_def planned_flagged flagged_self)
  qed
  show ?thesis
  proof (cases "\<exists>s' batch. sc_prefer_prefill s \<and> try_prefill s = Some (s', Inr (Some batch)) \<and> planned_from s s' batch")
    case True
    then show ?thesis by (auto simp: try_schedule_def sched_then_def)
  next
    case False
    then have "try_schedule s = try_decode s"
      using pf [of "sc_prefer_prefill s" "sc_speculative_turn s"] by (auto simp: try_schedule_def sched_then_def flagged_self)
    then show ?thesis using df by auto
  qed
qed

end
