(* ===== verification/Batch_Sched_Loop.thy ===== *)
theory Batch_Sched_Loop
  imports Batch_Sched_Turn
begin

text \<open>
  Preemption and the scheduling loop.  Every preemption leaves one request fewer with cached
  tokens, so the loop ends; it returns a planned batch, or nothing when no work is runnable.
\<close>

subsection \<open>Requests that hold pages\<close>

definition held :: "'smp scheduler \<Rightarrow> request_id set" where
  "held s = {r. \<exists>c. seq_view (sc_kv s) r = Some (c, None) \<and> 0 < c}"

lemma finite_held: "finite (held s)"
proof (rule finite_subset)
  show "held s \<subseteq> fst ` set (kv_sequences (sc_kv s))"
    by (auto simp: held_def seq_view_Some dest!: map_of_SomeD intro: rev_image_eqI)
qed simp

lemma div_ceil_pos: "0 < b \<Longrightarrow> 0 < div_ceil c b \<longleftrightarrow> 0 < c"
  by (cases "c = 0") (auto simp: div_ceil_def intro: Nat.gr0I)

lemma table_held:
  assumes inv: "core_inv s kind [] None" and a: "get_active s r = Some a"
  shows "\<exists>table. block_table (sc_kv s) r = Inr table \<and> (table \<noteq> [] \<longleftrightarrow> r \<in> held s) \<and> (\<forall>i. aq_phase a \<noteq> InFlight i)"
proof -
  note D = core_invD [OF inv]
  obtain c where c: "seq_view (sc_kv s) r = Some (c, None)" "at_rest (aq_phase a) (aq_history a) c"
    using resting [OF inv a] by blast
  obtain q where q: "map_of (kv_sequences (sc_kv s)) r = Some q"
    "length (sq_pages q) = div_ceil c (cf_block_size (kv_config (sc_kv s)))"
    using view_idle [OF D(1) c(1)] by blast
  have "sq_pages q \<noteq> [] \<longleftrightarrow> 0 < c"
    using q(2) div_ceil_pos [OF config_okD(1) [OF kv_invD(2) [OF D(1)]], of c] by auto
  then show ?thesis using q c by (auto simp: block_table_def kv_sequence_def held_def at_rest_def)
qed

lemma page_holders_ok:
  assumes inv: "core_inv s kind [] None"
  shows "(\<And>r a. (r, a) \<in> set rest \<Longrightarrow> get_active s r = Some a) \<Longrightarrow>
    page_holders (sc_kv s) rest = Inr (map (\<lambda>(r, a). (aq_admitted a, r)) (filter (\<lambda>(r, a). r \<in> held s) rest))"
proof (induction rest)
  case (Cons x rest)
  obtain r a where x: "x = (r, a)" by (cases x)
  have "get_active s r = Some a" using Cons.prems x by simp
  from table_held [OF inv this] Cons x show ?case by (auto split: request_phase.splits)
qed simp

lemma fold_max_mem: "fold max xs x \<in> insert x (set xs)" for x :: "'a::linorder"
  by (induction xs arbitrary: x) (auto simp: max_def)

lemma held_active:
  assumes "core_inv s kind [] None"
  shows "r \<in> held s \<Longrightarrow> get_active s r \<noteq> None"
  using core_invD(6) [OF assms, of r] by (auto simp: held_def slot_def split: option.splits)

subsection \<open>Preemption\<close>

definition forget_phase :: "'smp active_request \<Rightarrow> 'smp active_request" where
  "forget_phase a = a\<lparr>aq_phase := NeedsPrefill\<rparr>"

text \<open>The requests of two schedulers agree but for their phases.\<close>

definition same_requests :: "'smp scheduler \<Rightarrow> 'smp scheduler \<Rightarrow> bool" where
  "same_requests s s' \<longleftrightarrow> (\<forall>r. map_option forget_phase (get_active s' r) = map_option forget_phase (get_active s r))"

lemma same_requests_refl [simp]: "same_requests s s" "same_requests s (flagged s x y)" "same_requests (flagged s x y) s' = same_requests s s'"
  by (simp_all add: same_requests_def)

lemma same_requests_trans: "same_requests s s1 \<Longrightarrow> same_requests s1 s2 \<Longrightarrow> same_requests s s2"
  by (simp add: same_requests_def)

text \<open>What the loop may change before it plans a batch.\<close>

definition loop_frame :: "nat \<Rightarrow> 'smp scheduler \<Rightarrow> 'smp scheduler \<Rightarrow> bool" where
  "loop_frame n s s' \<longleftrightarrow> same_requests s s' \<and> kv_config (sc_kv s') = kv_config (sc_kv s) \<and>
     kv_spent n (sc_kv s) (sc_kv s') \<and> length (sc_active s') = length (sc_active s) \<and>
     s' = s\<lparr>sc_kv := sc_kv s', sc_active := sc_active s', sc_preemptions := sc_preemptions s',
        sc_prefer_prefill := sc_prefer_prefill s', sc_speculative_turn := sc_speculative_turn s'\<rparr> \<and>
     sc_preemptions s' \<le> sc_preemptions s + n"

lemma loop_frame_trans:
  assumes "loop_frame m s s1" "loop_frame n s1 s2"
  shows "loop_frame (m + n) s s2"
proof -
  note A = assms(1) [unfolded loop_frame_def] and B = assms(2) [unfolded loop_frame_def]
  have "s2 = s\<lparr>sc_kv := sc_kv s2, sc_active := sc_active s2, sc_preemptions := sc_preemptions s2,
      sc_prefer_prefill := sc_prefer_prefill s2, sc_speculative_turn := sc_speculative_turn s2\<rparr>"
    using A B by (cases s; cases s1; cases s2) simp
  moreover have "same_requests s s2" "kv_spent (m + n) (sc_kv s) (sc_kv s2)"
    using A B same_requests_trans kv_spent_trans by blast+
  ultimately show ?thesis using A B unfolding loop_frame_def by simp
qed

lemma loop_frame_flagged: "loop_frame 0 s (flagged s x y)"
  by (simp add: loop_frame_def same_requests_def kv_spent_def) (simp add: flagged_def)

lemma holder_ids: "map snd (map (\<lambda>(r, a). (f a, r)) (filter (\<lambda>(r, a). P r) xs)) = filter P (map fst xs)"
  by (induction xs) auto

lemma preempt_ok:
  assumes inv: "core_inv s kind [] None" and sp: "sched_spare s (max_len s + 1)"
  shows "(preempt_newest s = Some (s, Inr False) \<and> card (held s) \<le> 1) \<or>
    (\<exists>s'. preempt_newest s = Some (s', Inr True) \<and> core_inv s' kind [] None \<and> loop_frame (max_len s + 1) s s' \<and>
      card (held s') < card (held s))"
proof -
  note D = core_invD [OF inv]
  define hs where "hs = map (\<lambda>(r, a). (aq_admitted a, r)) (filter (\<lambda>(r, a). r \<in> held s) (sc_active s))"
  have ent: "(r, a) \<in> set (sc_active s) \<longleftrightarrow> get_active s r = Some a" for r a
    using om.entries_mem [OF D(2)] by (simp add: get_active_def)
  have ph: "page_holders (sc_kv s) (sc_active s) = Inr hs" unfolding hs_def by (rule page_holders_ok [OF inv]) (simp add: ent)
  have "map snd hs = filter (\<lambda>r. r \<in> held s) (map fst (sc_active s))" unfolding hs_def by (rule holder_ids)
  moreover have "held s \<subseteq> fst ` set (sc_active s)"
    using held_active [OF inv] ent by (metis fst_conv imageI not_None_eq subsetI)
  ultimately have ids: "set (map snd hs) = held s" "distinct (map snd hs)"
    using om.entries_distinct [OF D(2)] by auto
  have card: "length hs = card (held s)" using distinct_card [OF ids(2)] ids(1) by simp
  show ?thesis
  proof (cases "length hs \<le> 1")
    case True
    then show ?thesis using ph card by (simp add: preempt_newest_def)
  next
    case False
    define v where "v = snd (fold max (tl hs) (hd hs))"
    have "hs \<noteq> []" using False by (cases hs) auto
    then have "fold max (tl hs) (hd hs) \<in> set hs"
      using fold_max_mem [of "tl hs" "hd hs"] by (cases hs) auto
    then have "v \<in> set (map snd hs)" unfolding v_def set_map by (rule imageI)
    then have v: "v \<in> held s" using ids(1) by blast
    obtain a where a: "get_active s v = Some a" using held_active [OF inv v] by auto
    obtain c where c: "seq_view (sc_kv s) v = Some (c, None)" "0 < c" using v by (auto simp: held_def)
    obtain kv1 where kv1: "remove_sequence (sc_kv s) v = Some (kv1, Inr ())"
      "kv_to (max_len s) (sc_kv s) kv1 ((seq_view (sc_kv s))(v := None))"
      using remove_view [OF D(1) c(1)] sp spare_mono [of "sc_kv s" "max_len s + 1" "max_len s"]
      by (auto simp: sched_spare_def)
    note K1 = kv_toD [OF kv1(2)]
    obtain kv2 where kv2: "create_sequence kv1 v = Some (kv2, Inr ())" "kv_to 0 kv1 kv2 ((seq_view kv1)(v \<mapsto> (0, None)))"
      using create_view [OF K1(1), of v] K1(4) by auto
    note K2 = kv_toD [OF kv2(2)]
    let ?s' = "(set_active (s\<lparr>sc_kv := kv2\<rparr>) v (a\<lparr>aq_phase := NeedsPrefill\<rparr>))
        \<lparr>sc_preemptions := sc_preemptions s + 1, sc_prefer_prefill := False\<rparr>"
    have view: "seq_view kv2 = (seq_view (sc_kv s))(v \<mapsto> (0, None))" using K1(4) K2(4) by simp
    have cfg: "kv_config kv2 = kv_config (sc_kv s)" using K1(2) K2(2) by simp
    have pre: "Suc (sc_preemptions s) < usize_lim" using sp by (simp add: sched_spare_def)
    have e: "preempt_newest s = Some (?s', Inr True)"
      using ph False kv1(1) kv2(1) a pre
      by (simp add: preempt_newest_def Let_def v_def [symmetric] lift_kv_def sched_then_def set_active_def uadd_def)
    have g: "get_active ?s' r = (if r = v then Some (a\<lparr>aq_phase := NeedsPrefill\<rparr>) else get_active s r)" for r
      using D(2) by simp
    have len: "length (sc_active ?s') = length (sc_active s)"
      using a D(2) by (simp add: set_active_def length_om_insert get_active_def)
    have "core_inv ?s' kind [] None"
    proof (rule core_inv_step [OF inv, where r = v])
      show "om_ok (sc_active ?s')" using D(2) by (simp add: set_active_def)
      show "limits_ok ?s'" using D(3) cfg len by (simp add: limits_ok_def)
      show "queue_ok ?s'" using D(2,4) cfg a by (auto simp: queue_ok_def split: if_splits)
      show "slot (max_len ?s') (seq_view (sc_kv ?s') v) (get_active ?s' v) kind (row_of [] v) None"
        using D(2) D(6) [of v] a c cfg view by (auto simp: slot_def at_rest_def request_ok_def)
    qed (use K2(1) D(2) cfg view in auto)
    moreover have "loop_frame (max_len s + 1) s ?s'"
      unfolding loop_frame_def
    proof (intro conjI)
      show "same_requests s ?s'" using a D(2) by (simp add: same_requests_def forget_phase_def)
      show "kv_spent (max_len s + 1) (sc_kv s) (sc_kv ?s')"
        using kv_spent_mono [OF kv_spent_trans [OF K1(3) K2(3)], of "max_len s + 1"] by simp
      show "?s' = s\<lparr>sc_kv := sc_kv ?s', sc_active := sc_active ?s', sc_preemptions := sc_preemptions ?s',
          sc_prefer_prefill := sc_prefer_prefill ?s', sc_speculative_turn := sc_speculative_turn ?s'\<rparr>"
        by (simp add: set_active_def)
    qed (use cfg len in simp_all)
    moreover have h: "held ?s' = held s - {v}" using view by (auto simp: held_def)
    have "card (held ?s') < card (held s)" unfolding h by (rule card_Diff1_less [OF finite_held v])
    ultimately show ?thesis using e by blast
  qed
qed

subsection \<open>The loop\<close>

lemma loop_frameD:
  assumes "loop_frame n s s'"
  shows "same_requests s s'" "kv_config (sc_kv s') = kv_config (sc_kv s)" "length (sc_active s') = length (sc_active s)"
    "sc_next_batch s' = sc_next_batch s"
    "sc_recompute s' = sc_recompute s"
    "sc_pending s' = sc_pending s"
    "sc_finished s' = sc_finished s"
    "sc_in_flight s' = sc_in_flight s"
    "sc_config s' = sc_config s"
    "sc_next_request s' = sc_next_request s"
    "sc_deferred s' = sc_deferred s"
    "sc_options s' = sc_options s"
    "sc_next_admission s' = sc_next_admission s"
    "sc_drafted s' = sc_drafted s"
    "sc_accepted s' = sc_accepted s"
    "sc_speculative s' = sc_speculative s"
    "sc_prefill_chunk s' = sc_prefill_chunk s"
    "sc_ceiling s' = sc_ceiling s"
proof -
  have E: "s' = s\<lparr>sc_kv := sc_kv s', sc_active := sc_active s', sc_preemptions := sc_preemptions s',
        sc_prefer_prefill := sc_prefer_prefill s', sc_speculative_turn := sc_speculative_turn s'\<rparr>"
    using assms unfolding loop_frame_def by blast
  show "sc_next_batch s' = sc_next_batch s" using arg_cong [OF E, of sc_next_batch] by simp
  show "sc_recompute s' = sc_recompute s" using arg_cong [OF E, of sc_recompute] by simp
  show "sc_pending s' = sc_pending s" using arg_cong [OF E, of sc_pending] by simp
  show "sc_finished s' = sc_finished s" using arg_cong [OF E, of sc_finished] by simp
  show "sc_in_flight s' = sc_in_flight s" using arg_cong [OF E, of sc_in_flight] by simp
  show "sc_config s' = sc_config s" using arg_cong [OF E, of sc_config] by simp
  show "sc_next_request s' = sc_next_request s" using arg_cong [OF E, of sc_next_request] by simp
  show "sc_deferred s' = sc_deferred s" using arg_cong [OF E, of sc_deferred] by simp
  show "sc_options s' = sc_options s" using arg_cong [OF E, of sc_options] by simp
  show "sc_next_admission s' = sc_next_admission s" using arg_cong [OF E, of sc_next_admission] by simp
  show "sc_drafted s' = sc_drafted s" using arg_cong [OF E, of sc_drafted] by simp
  show "sc_accepted s' = sc_accepted s" using arg_cong [OF E, of sc_accepted] by simp
  show "sc_speculative s' = sc_speculative s" using arg_cong [OF E, of sc_speculative] by simp
  show "sc_prefill_chunk s' = sc_prefill_chunk s" using arg_cong [OF E, of sc_prefill_chunk] by simp
  show "sc_ceiling s' = sc_ceiling s" using arg_cong [OF E, of sc_ceiling] by simp
qed (use assms in \<open>auto simp: loop_frame_def\<close>)

lemma sched_spare_frame: "sched_spare s (m + n) \<Longrightarrow> loop_frame m s s' \<Longrightarrow> sched_spare s' n"
proof -
  assume a: "sched_spare s (m + n)" "loop_frame m s s'"
  note F = loop_frameD [OF a(2)]
  have "kv_spent m (sc_kv s) (sc_kv s')" "sc_preemptions s' \<le> sc_preemptions s + m"
    using a(2) unfolding loop_frame_def by blast+
  then show ?thesis using a(1) F spare_spent [of "sc_kv s" m n "sc_kv s'"] by (simp add: sched_spare_def)
qed

text \<open>The outcome of the loop: after a number of preemptions, either nothing can run or a batch is planned.\<close>

definition loop_outcome :: "('smp, scheduled_batch option) sched_result \<Rightarrow> 'smp scheduler \<Rightarrow> bool" where
  "loop_outcome res s \<longleftrightarrow> (\<exists>n s1. loop_frame n s s1 \<and> core_inv s1 Prefill [] None \<and>
     (res = Some (s1, Inr None) \<and> \<not> runnable s1 \<and> (sc_recompute s \<longrightarrow> card (held s1) \<le> 1) \<or>
      (\<exists>s' batch. res = Some (s'\<lparr>sc_in_flight := Some batch\<rparr>, Inr (Some batch)) \<and> planned_from s1 s' batch)))"

lemma runnable_flagged [simp]: "runnable (flagged s x y) = runnable s" "held (flagged s x y) = held s"
  by (simp_all add: runnable_def held_def)

lemma schedule_loop_ok:
  assumes "core_inv s Prefill [] None" "sc_next_batch s + 1 < usize_lim"
    "sched_spare s (card (held s) * (max_len s + 1) + (length (sc_active s) + max_len s + 2))"
  shows "loop_outcome (schedule_loop s) s"
  using assms
proof (induction "card (held s)" arbitrary: s rule: less_induct)
  case less
  let ?m = "max_len s + 1"
  have sp: "kv_spare (sc_kv s) (Suc (length (sc_active s)))"
    using less.prems(3) spare_mono [of "sc_kv s" _ "Suc (length (sc_active s))"] by (auto simp: sched_spare_def)
  from try_schedule_ok [OF less.prems(1) sp less.prems(2)] show ?case
  proof (elim disjE exE conjE)
    fix s' batch assume p: "try_schedule s = Some (s', Inr (Some batch))" "planned_from s s' batch"
    have "loop_frame 0 s s" using loop_frame_flagged [of s "sc_prefer_prefill s" "sc_speculative_turn s"] by (simp add: flagged_self)
    then show ?thesis
      using p less.prems(1) by (subst schedule_loop.simps) (auto simp: loop_outcome_def)
  next
    fix x y assume t: "try_schedule s = Some (flagged s x y, Inr None)" "\<not> runnable s"
    let ?t = "flagged s x y"
    have inv: "core_inv ?t Prefill [] None" using less.prems(1) by simp
    show ?thesis
    proof (cases "sc_recompute s")
      case False
      then have "schedule_loop s = Some (?t, Inr None)" using t(1) by (subst schedule_loop.simps) simp
      then show ?thesis using False t(2) inv loop_frame_flagged [of s x y] unfolding loop_outcome_def by auto
    next
      case True
      have sp1: "sched_spare ?t (max_len ?t + 1)"
        by (rule sched_spare_frame [of s 0, OF _ loop_frame_flagged]) (use less.prems(3) in \<open>auto intro: sched_spare_mono\<close>)
      from preempt_ok [OF inv sp1] show ?thesis
      proof (elim disjE exE conjE)
        assume f: "preempt_newest ?t = Some (?t, Inr False)" "card (held ?t) \<le> 1"
        then have "schedule_loop s = Some (?t, Inr None)" using True t(1) by (subst schedule_loop.simps) simp
        then show ?thesis using f t(2) inv loop_frame_flagged [of s x y] unfolding loop_outcome_def by auto
      next
        fix s1 assume p: "preempt_newest ?t = Some (s1, Inr True)" "core_inv s1 Prefill [] None"
          "loop_frame (max_len ?t + 1) ?t s1" "card (held s1) < card (held ?t)"
        have fr: "loop_frame ?m s s1" using loop_frame_trans [OF loop_frame_flagged p(3)] by simp
        note F = loop_frameD [OF fr]
        have e: "schedule_loop s = schedule_loop s1" using True t(1) p(1) by (subst schedule_loop.simps) simp
        have lt: "card (held s1) < card (held s)" using p(4) by simp
        then have "?m + card (held s1) * ?m \<le> card (held s) * ?m"
          by (metis Suc_leI mult_Suc mult_le_mono1)
        then have "sched_spare s (?m + (card (held s1) * ?m + (length (sc_active s) + max_len s + 2)))"
          using sched_spare_mono [OF less.prems(3)] by simp
        then have sp2: "sched_spare s1 (card (held s1) * (max_len s1 + 1) + (length (sc_active s1) + max_len s1 + 2))"
          using sched_spare_frame [OF _ fr] F(2,3) by simp
        have "loop_outcome (schedule_loop s1) s1" using less.hyps [OF lt p(2) _ sp2] less.prems(2) F(4) by simp
        then show ?thesis
          using loop_frame_trans [OF fr] F(5) unfolding loop_outcome_def e by metis
      qed
    qed
  qed
qed

end
