(* ===== verification/Batch_Sched_Admit.thy ===== *)
theory Batch_Sched_Admit
  imports Batch_Sched_Loop
begin

text \<open>
  Admission: pending requests enter the KV cache in order while there is room, and under the
  reserving policy only while the page budgets of all active requests fit the pool.
\<close>

subsection \<open>One admission\<close>

definition fresh_request :: "'smp pending_request \<Rightarrow> nat \<Rightarrow> 'smp active_request" where
  "fresh_request p n = \<lparr>aq_prompt = pr_prompt p, aq_generation = pr_generation p, aq_sampler = pr_sampler p,
     aq_eos = set (gen_eos_token_ids (pr_generation p)), aq_generated = [], aq_history = pr_prompt p,
     aq_admitted = n, aq_phase = NeedsPrefill\<rparr>"

lemma slot_dom: "slot lim ve ao kind ro b \<Longrightarrow> ve = None \<longleftrightarrow> ao = None"
  by (cases ao; cases ve) (auto simp: slot_def)

lemma sequences_length:
  assumes "core_inv s kind rows b"
  shows "length (kv_sequences (sc_kv s)) = length (sc_active s)"
proof -
  note D = core_invD [OF assms]
  have "fst ` set (kv_sequences (sc_kv s)) = fst ` set (sc_active s)"
  proof -
    have "map_of (kv_sequences (sc_kv s)) r = None \<longleftrightarrow> map_of (sc_active s) r = None" for r
      using slot_dom [OF D(6) [of r]] by (simp add: get_active_def seq_view_None)
    then show ?thesis by (auto simp: map_of_eq_None_iff)
  qed
  then show ?thesis
    using distinct_card [OF om.entries_distinct [OF D(2)]] distinct_card [OF om.entries_distinct [OF kv_invD(3) [OF D(1)]]]
    by simp
qed

text \<open>What admissions may change: requests only move from the queue to the active map.\<close>

definition only_admission :: "'smp scheduler \<Rightarrow> 'smp scheduler \<Rightarrow> bool" where
  "only_admission s s' \<longleftrightarrow>
     s' = s\<lparr>sc_kv := sc_kv s', sc_active := sc_active s', sc_pending := sc_pending s', sc_next_admission := sc_next_admission s'\<rparr>"

lemma only_admission_trans: "only_admission s s1 \<Longrightarrow> only_admission s1 s2 \<Longrightarrow> only_admission s s2"
  unfolding only_admission_def by (cases s; cases s1; cases s2) simp

lemma ready_pending_only: "only_admission s s' \<Longrightarrow> ready_pending s' = ready_pending s"
proof -
  assume e: "only_admission s s'"
  note E = e [unfolded only_admission_def]
  have "sc_deferred s' = sc_deferred s" "sc_ceiling s' = sc_ceiling s"
    using arg_cong [OF E, of sc_deferred] arg_cong [OF E, of sc_ceiling] by simp_all
  then show ?thesis by (simp add: ready_pending_def fun_eq_iff)
qed

definition admitted_frame :: "nat \<Rightarrow> 'smp scheduler \<Rightarrow> 'smp scheduler \<Rightarrow> bool" where
  "admitted_frame n s s' \<longleftrightarrow> kv_config (sc_kv s') = kv_config (sc_kv s) \<and> kv_spent n (sc_kv s) (sc_kv s') \<and>
     sc_next_admission s' \<le> sc_next_admission s + n \<and>
     only_admission s s' \<and>
     (\<forall>r a. get_active s r = Some a \<longrightarrow> get_active s' r = Some a) \<and>
     (\<forall>r a. get_active s' r = Some a \<longrightarrow> get_active s r = Some a \<or>
        (\<exists>p \<in> set (sc_pending s). \<exists>k. r = pr_id p \<and> a = fresh_request p k \<and> ready_pending s p)) \<and>
     set (sc_pending s') \<subseteq> set (sc_pending s) \<and>
     (\<forall>p \<in> set (sc_pending s). p \<in> set (sc_pending s') \<or> get_active s' (pr_id p) \<noteq> None)"

lemma admitted_frame_refl: "admitted_frame n s s"
  by (simp add: admitted_frame_def kv_spent_def only_admission_def)

lemma admitted_facts:
  assumes "admitted_frame n s s'"
  shows "only_admission s s'" "kv_spent n (sc_kv s) (sc_kv s')" "sc_next_admission s' \<le> sc_next_admission s + n"
    "get_active s r = Some a \<Longrightarrow> get_active s' r = Some a"
    "get_active s' r = Some a \<Longrightarrow> get_active s r = Some a \<or>
      (\<exists>p \<in> set (sc_pending s). \<exists>k. r = pr_id p \<and> a = fresh_request p k \<and> ready_pending s p)"
    "set (sc_pending s') \<subseteq> set (sc_pending s)"
    "p \<in> set (sc_pending s) \<Longrightarrow> p \<in> set (sc_pending s') \<or> get_active s' (pr_id p) \<noteq> None"
    "kv_config (sc_kv s') = kv_config (sc_kv s)"
  using assms unfolding admitted_frame_def by simp_all

lemma admitted_frame_trans:
  assumes "admitted_frame m s s1" "admitted_frame n s1 s2"
  shows "admitted_frame (m + n) s s2"
proof -
  note A = admitted_facts [OF assms(1)] and B = admitted_facts [OF assms(2)]
  have "get_active s r = Some a \<or> (\<exists>p \<in> set (sc_pending s). \<exists>k. r = pr_id p \<and> a = fresh_request p k \<and> ready_pending s p)"
    if "get_active s2 r = Some a" for r a
    using B(5) [OF that] A(5) [of r a] A(6) ready_pending_only [OF A(1)] by fastforce
  moreover have "p \<in> set (sc_pending s2) \<or> get_active s2 (pr_id p) \<noteq> None" if p: "p \<in> set (sc_pending s)" for p
  proof (cases "p \<in> set (sc_pending s1)")
    case False
    then obtain a where "get_active s1 (pr_id p) = Some a" using A(7) [OF p] by auto
    then show ?thesis using B(4) by simp
  qed (use B(7) in blast)
  ultimately show ?thesis
    unfolding admitted_frame_def
    using only_admission_trans [OF A(1) B(1)] kv_spent_trans [OF A(2) B(2)] A(3,4,6,8) B(3,4,6,8) by auto
qed

lemma admitted_frameD:
  assumes "admitted_frame n s s'"
  shows "kv_config (sc_kv s') = kv_config (sc_kv s)" "sc_next_batch s' = sc_next_batch s" "sc_recompute s' = sc_recompute s"
    "sc_finished s' = sc_finished s" "sc_in_flight s' = sc_in_flight s" "sc_config s' = sc_config s"
    "sc_next_request s' = sc_next_request s" "sc_deferred s' = sc_deferred s" "sc_options s' = sc_options s"
    "sc_ceiling s' = sc_ceiling s" "sc_drafted s' = sc_drafted s" "sc_accepted s' = sc_accepted s"
    "sc_preemptions s' = sc_preemptions s" "sc_prefill_chunk s' = sc_prefill_chunk s" "sc_speculative s' = sc_speculative s"
proof -
  have E: "s' = s\<lparr>sc_kv := sc_kv s', sc_active := sc_active s', sc_pending := sc_pending s',
      sc_next_admission := sc_next_admission s'\<rparr>"
    using assms unfolding admitted_frame_def only_admission_def by blast
  show "sc_next_batch s' = sc_next_batch s" using arg_cong [OF E, of sc_next_batch] by simp
  show "sc_recompute s' = sc_recompute s" using arg_cong [OF E, of sc_recompute] by simp
  show "sc_speculative s' = sc_speculative s" using arg_cong [OF E, of sc_speculative] by simp
  show "sc_finished s' = sc_finished s" using arg_cong [OF E, of sc_finished] by simp
  show "sc_in_flight s' = sc_in_flight s" using arg_cong [OF E, of sc_in_flight] by simp
  show "sc_config s' = sc_config s" using arg_cong [OF E, of sc_config] by simp
  show "sc_next_request s' = sc_next_request s" using arg_cong [OF E, of sc_next_request] by simp
  show "sc_deferred s' = sc_deferred s" using arg_cong [OF E, of sc_deferred] by simp
  show "sc_options s' = sc_options s" using arg_cong [OF E, of sc_options] by simp
  show "sc_ceiling s' = sc_ceiling s" using arg_cong [OF E, of sc_ceiling] by simp
  show "sc_drafted s' = sc_drafted s" using arg_cong [OF E, of sc_drafted] by simp
  show "sc_accepted s' = sc_accepted s" using arg_cong [OF E, of sc_accepted] by simp
  show "sc_preemptions s' = sc_preemptions s" using arg_cong [OF E, of sc_preemptions] by simp
  show "sc_prefill_chunk s' = sc_prefill_chunk s" using arg_cong [OF E, of sc_prefill_chunk] by simp
qed (use assms in \<open>simp add: admitted_frame_def\<close>)

lemma vec_remove_mem:
  assumes "i < length xs"
  shows "set xs = insert (xs ! i) (set (take i xs @ drop (Suc i) xs))"
    "distinct (map f xs) \<Longrightarrow> distinct (map f (take i xs @ drop (Suc i) xs)) \<and> f (xs ! i) \<notin> f ` set (take i xs @ drop (Suc i) xs)"
proof -
  note e = id_take_nth_drop [OF assms]
  show "set xs = insert (xs ! i) (set (take i xs @ drop (Suc i) xs))"
    by (subst (1) e) auto
  assume "distinct (map f xs)"
  then show "distinct (map f (take i xs @ drop (Suc i) xs)) \<and> f (xs ! i) \<notin> f ` set (take i xs @ drop (Suc i) xs)"
    by (subst (asm) e) auto
qed

lemma admit_ok:
  assumes inv: "core_inv s kind [] None" and i: "i < length (sc_pending s)" and ready: "ready_pending s (sc_pending s ! i)"
    and room: "length (sc_active s) < bc_max_active_sequences (sc_config s)" "sched_spare s (max_len s + 1)"
  shows "\<exists>s'. admit h s i = Some (s', Inr ()) \<and> core_inv s' kind [] None \<and> admitted_frame (max_len s + 1) s s' \<and>
    length (sc_active s') = Suc (length (sc_active s)) \<and>
    sc_pending s' = take i (sc_pending s) @ drop (Suc i) (sc_pending s) \<and>
    (\<exists>k. get_active s' = (get_active s)(pr_id (sc_pending s ! i) \<mapsto> fresh_request (sc_pending s ! i) k))"
proof -
  note D = core_invD [OF inv]
  define rest where "rest = take i (sc_pending s) @ drop (Suc i) (sc_pending s)"
  let ?p = "sc_pending s ! i"
  let ?r = "pr_id ?p" and ?m = "max_len s" and ?a = "fresh_request ?p (sc_next_admission s)"
  have p: "get_active s ?r = None" "pr_prompt ?p \<noteq> []" "0 < gen_max_new_tokens (pr_generation ?p)"
    "length (pr_prompt ?p) + gen_max_new_tokens (pr_generation ?p) \<le> ?m" "request_num ?r < sc_next_request s"
    using D(4) nth_mem [OF i] by (auto simp: queue_ok_def)
  have v: "seq_view (sc_kv s) ?r = None" using D(6) [of ?r] p(1) by (simp add: slot_def)
  have "(length (sc_active s) + 1) * ?m \<le> bc_max_active_sequences (sc_config s) * ?m" using room(1) by (intro mult_le_mono1) simp
  then have refs: "(length (kv_sequences (sc_kv s)) + 1) * ?m < u32_lim"
    using D(3) sequences_length [OF inv] by (simp add: limits_ok_def)
  have sp: "kv_spare (sc_kv s) ?m" using room(2) spare_mono [of "sc_kv s" "?m + 1" ?m] by (auto simp: sched_spare_def)
  have len: "length (pr_prompt ?p) \<le> ?m" using p(4) by simp
  obtain kv' c where c: "create_sequence_with_prefix h (sc_kv s) ?r (pr_prompt ?p) = Some (kv', Inr c)"
    "c < length (pr_prompt ?p)" "kv_to ?m (sc_kv s) kv' ((seq_view (sc_kv s))(?r \<mapsto> (c, None)))"
    using create_prefix_view [OF D(1) v p(2) len refs sp, of h] by blast
  note K = kv_toD [OF c(3)]
  let ?t = "s\<lparr>sc_pending := rest, sc_kv := kv', sc_next_admission := sc_next_admission s + 1\<rparr>"
  let ?s' = "set_active ?t ?r ?a"
  have na: "Suc (sc_next_admission s) < usize_lim" using room(2) by (simp add: sched_spare_def)
  have e: "admit h s i = Some (?s', Inr ())"
    using i c(1) na by (simp add: admit_def vec_remove_def lift_kv_def sched_then_def uadd_def fresh_request_def Let_def rest_def)
  have g: "get_active ?s' = (get_active s)(?r \<mapsto> ?a)" using D(2) by (simp add: fun_eq_iff)
  have la: "length (sc_active ?s') = Suc (length (sc_active s))"
    using p(1) D(2) by (simp add: set_active_def length_om_insert get_active_def)
  have pend: "distinct (map pr_id rest)" "?r \<notin> pr_id ` set rest" "set rest \<subseteq> set (sc_pending s)"
    using vec_remove_mem(1) [OF i] vec_remove_mem(2) [OF i, of pr_id] D(4) by (auto simp: queue_ok_def rest_def [symmetric])
  have "core_inv ?s' kind [] None"
  proof (rule core_inv_step [OF inv, where r = ?r])
    show "om_ok (sc_active ?s')" using D(2) by (simp add: set_active_def)
    show "limits_ok ?s'" using D(3) K(2) la room(1) by (simp add: limits_ok_def)
    show "queue_ok ?s'"
      unfolding queue_ok_def g
    proof (intro conjI ballI allI impI)
      fix q assume "q \<in> set (sc_pending ?s')"
      then have q: "q \<in> set rest" "q \<in> set (sc_pending s)" using pend(3) by auto
      then have "pr_id q \<noteq> ?r" using pend(2) by (metis image_eqI)
      then show "((get_active s)(?r \<mapsto> ?a)) (pr_id q) = None" using D(4) q(2) by (simp add: queue_ok_def)
    qed (use D(4) pend K(2) p(5) in \<open>auto simp: queue_ok_def split: if_splits\<close>)
    show "slot (max_len ?s') (seq_view (sc_kv ?s') ?r) (get_active ?s' ?r) kind (row_of [] ?r) None"
      unfolding g using K c(2) p(2,3,4) by (simp add: slot_def at_rest_def request_ok_def fresh_request_def)
    show "seq_view (sc_kv ?s') r' = seq_view (sc_kv s) r' \<and> get_active ?s' r' = get_active s r' \<and> row_of [] r' = row_of [] r'"
      if "r' \<noteq> ?r" for r' using that K(4) unfolding g by simp
  qed (use K in auto)
  moreover have "only_admission s ?s'" by (simp add: only_admission_def set_active_def)
  then have "admitted_frame (?m + 1) s ?s'"
    unfolding admitted_frame_def g using K p(1) pend(3) kv_spent_mono [OF K(3), of "?m + 1"] vec_remove_mem(1) [OF i, folded rest_def] nth_mem [OF i] ready
    by auto
  ultimately show ?thesis using e la g by (intro exI [of _ ?s']) (auto simp: rest_def)
qed

subsection \<open>Page budgets\<close>

definition budget :: "usize \<Rightarrow> 'smp active_request \<Rightarrow> usize" where
  "budget bs a = div_ceil (length (aq_prompt a) + (gen_max_new_tokens (aq_generation a) - 1)) bs"

definition pending_budget :: "usize \<Rightarrow> 'smp pending_request \<Rightarrow> usize" where
  "pending_budget bs p = div_ceil (length (pr_prompt p) + (gen_max_new_tokens (pr_generation p) - 1)) bs"

abbreviation block :: "'smp scheduler \<Rightarrow> usize" where
  "block s \<equiv> cf_block_size (kv_config (sc_kv s))"

definition budget_sum :: "'smp scheduler \<Rightarrow> usize" where
  "budget_sum s = om.total (\<lambda>_. budget (block s)) (sc_active s)"

lemma budget_fresh [simp]: "budget bs (fresh_request p k) = pending_budget bs p"
  by (simp add: budget_def pending_budget_def fresh_request_def)

lemma request_page_budget_ok:
  assumes "0 < bs" "n + gen_max_new_tokens g < usize_lim"
  shows "request_page_budget n g bs = Some (div_ceil (n + (gen_max_new_tokens g - 1)) bs)"
  using assms by (simp add: request_page_budget_def uadd_def udiv_ceil_def)

lemma active_budget_ok:
  assumes "0 < bs" "\<And>r a. (r, a) \<in> set xs \<Longrightarrow> length (aq_prompt a) + gen_max_new_tokens (aq_generation a) < usize_lim"
  shows "active_budget bs xs pages =
    Some (if (\<Sum>(r, a) \<leftarrow> xs. budget bs a) \<le> pages then Inr (pages - (\<Sum>(r, a) \<leftarrow> xs. budget bs a)) else Inl PageBudgetExceeded)"
  using assms(2)
proof (induction xs arbitrary: pages)
  case (Cons x xs)
  obtain r a where x: "x = (r, a)" by (cases x)
  have "request_page_budget (length (aq_prompt a)) (aq_generation a) bs = Some (budget bs a)"
    using request_page_budget_ok [OF assms(1)] Cons.prems [of r a] x by (simp add: budget_def)
  moreover have "active_budget bs xs q = Some (if (\<Sum>(r, a) \<leftarrow> xs. budget bs a) \<le> q
      then Inr (q - (\<Sum>(r, a) \<leftarrow> xs. budget bs a)) else Inl PageBudgetExceeded)" for q
    by (rule Cons.IH) (use Cons.prems in auto)
  ultimately show ?case using x by auto
qed simp

lemma active_bound:
  assumes "core_inv s kind rows b" "get_active s r = Some a"
  shows "length (aq_prompt a) + gen_max_new_tokens (aq_generation a) < usize_lim" "request_ok (max_len s) a"
proof -
  show "request_ok (max_len s) a"
    using core_invD(6) [OF assms(1), of r] assms(2) by (simp add: slot_def)
  then show "length (aq_prompt a) + gen_max_new_tokens (aq_generation a) < usize_lim"
    using config_okD(4) [OF kv_invD(2) [OF core_invD(1) [OF assms(1)]]] by (simp add: request_ok_def)
qed

text \<open>
  Under the reserving policy the budgets of the active requests fit the pool, and every waiting
  request fits it alone.
\<close>

definition budget_ok :: "'smp scheduler \<Rightarrow> bool" where
  "budget_ok s \<longleftrightarrow> bo_kv_admission (sc_options s) = ReserveSequenceCapacity \<longrightarrow>
     budget_sum s \<le> cf_num_pages (kv_config (sc_kv s)) \<and>
     (\<forall>p \<in> set (sc_pending s). pending_budget (block s) p \<le> cf_num_pages (kv_config (sc_kv s)))"

lemma budget_sum_get:
  assumes "om_ok (sc_active s)"
  shows "budget_sum s = (\<Sum>r \<in> dom (get_active s). budget (block s) (the (get_active s r)))"
  using om.total_sum [OF assms, of "\<lambda>_. budget (block s)"] by (simp add: budget_sum_def get_active_def [abs_def])

lemma finite_active: "finite (dom (get_active s))"
  by (simp add: get_active_def [abs_def] finite_dom_map_of)

subsection \<open>Promotion\<close>

lemma position_Some: "position P xs = Some i \<Longrightarrow> i < length xs \<and> P (xs ! i) \<and> (\<forall>j < i. \<not> P (xs ! j))"
  by (induction xs arbitrary: i) (auto split: if_splits simp: nth_Cons less_Suc_eq_0_disj split: nat.splits)

lemma position_None: "position P xs = None \<longleftrightarrow> (\<forall>x \<in> set xs. \<not> P x)"
  by (induction xs) auto

text \<open>Why an admission stops: no place, no ready request, or a first ready request above the budget.\<close>

definition admission_done :: "'smp scheduler \<Rightarrow> usize \<Rightarrow> bool" where
  "admission_done s pages \<longleftrightarrow> bc_max_active_sequences (sc_config s) \<le> length (sc_active s) \<or>
     (case position (ready_pending s) (sc_pending s) of
        None \<Rightarrow> True
      | Some i \<Rightarrow> bo_kv_admission (sc_options s) = ReserveSequenceCapacity \<and>
          pages < pending_budget (block s) (sc_pending s ! i))"

lemma budget_admitted:
  assumes "om_ok (sc_active s)" "om_ok (sc_active s')" "get_active s p = None"
    "get_active s' = (get_active s)(p \<mapsto> a)" "kv_config (sc_kv s') = kv_config (sc_kv s)"
  shows "budget_sum s' = budget_sum s + budget (block s) a"
proof -
  have "dom (get_active s') = insert p (dom (get_active s))" "p \<notin> dom (get_active s)" using assms(3,4) by auto
  then have "budget_sum s' = budget (block s) a + (\<Sum>r \<in> dom (get_active s). budget (block s) (the (get_active s' r)))"
    using finite_active [of s] assms(2,4,5) by (simp add: budget_sum_get)
  also have "(\<Sum>r \<in> dom (get_active s). budget (block s) (the (get_active s' r))) = budget_sum s"
    unfolding budget_sum_get [OF assms(1)] using assms(3,4) by (intro sum.cong) auto
  finally show ?thesis by simp
qed

lemma sched_spare_admitted:
  assumes "sched_spare s (m + n)" "admitted_frame m s s'"
  shows "sched_spare s' n"
  using assms(1) spare_spent [of "sc_kv s" m n "sc_kv s'"] admitted_facts(2,3) [OF assms(2)] admitted_frameD [OF assms(2)]
  by (simp add: sched_spare_def)

lemma promote_step:
  assumes "length (sc_active s) < bc_max_active_sequences (sc_config s)"
    "position (ready_pending s) (sc_pending s) = Some i" "i < length (sc_pending s)"
    "bo_kv_admission (sc_options s) = ReserveSequenceCapacity \<Longrightarrow>
      request_page_budget (length (pr_prompt (sc_pending s ! i))) (pr_generation (sc_pending s ! i)) (block s) = Some b \<and> b \<le> pages"
    "admit h s i = Some (s', Inr ())"
  shows "promote_loop h (Suc n) pages s =
    promote_loop h n (if bo_kv_admission (sc_options s) = ReserveSequenceCapacity then pages - b else pages) s'"
  using assms by (cases "bo_kv_admission (sc_options s)") (auto simp: sched_then_def vec_get_def)

lemma promote_loop_ok:
  assumes "core_inv s kind [] None" "length (sc_pending s) \<le> n" "sched_spare s (n * (max_len s + 1))"
  shows "\<exists>s' pages'. promote_loop h n pages s = Some (s', Inr ()) \<and> core_inv s' kind [] None \<and>
    admitted_frame (n * (max_len s + 1)) s s' \<and> admission_done s' pages' \<and>
    (bo_kv_admission (sc_options s) = ReserveSequenceCapacity \<longrightarrow> budget_sum s' + pages' = budget_sum s + pages)"
  using assms
proof (induction n arbitrary: s pages)
  case 0
  then show ?case by (intro exI [of _ s] exI [of _ pages]) (simp add: admitted_frame_refl admission_done_def)
next
  case (Suc n)
  note inv = Suc.prems(1)
  note D = core_invD [OF inv]
  let ?m = "max_len s + 1" and ?R = "bo_kv_admission (sc_options s) = ReserveSequenceCapacity"
  show ?case
  proof (cases "admission_done s pages")
    case True
    have "promote_loop h (Suc n) pages s = Some (s, Inr ())"
    proof (cases "position (ready_pending s) (sc_pending s)")
      case (Some i)
      have i: "i < length (sc_pending s)" using position_Some [OF Some] by simp
      then have q: "length (pr_prompt (sc_pending s ! i)) + gen_max_new_tokens (pr_generation (sc_pending s ! i)) \<le> max_len s"
        using D(4) nth_mem [OF i] by (auto simp: queue_ok_def)
      have "request_page_budget (length (pr_prompt (sc_pending s ! i))) (pr_generation (sc_pending s ! i)) (block s) =
          Some (pending_budget (block s) (sc_pending s ! i))"
        using request_page_budget_ok [OF config_okD(1)] q kv_invD(2) [OF D(1)] config_okD(4) [OF kv_invD(2) [OF D(1)]]
        by (simp add: pending_budget_def)
      then show ?thesis using True Some i by (auto simp: admission_done_def vec_get_def split: kv_admission_policy.splits)
    qed auto
    then show ?thesis using inv True by (intro exI [of _ s] exI [of _ pages]) (simp add: admitted_frame_refl)
  next
    case False
    then obtain i where lt: "length (sc_active s) < bc_max_active_sequences (sc_config s)"
      and pos: "position (ready_pending s) (sc_pending s) = Some i"
      and fits: "?R \<Longrightarrow> pending_budget (block s) (sc_pending s ! i) \<le> pages"
      by (auto simp: admission_done_def not_le split: option.splits)
    let ?p = "sc_pending s ! i" and ?b = "pending_budget (block s) (sc_pending s ! i)"
    let ?pages = "if ?R then pages - ?b else pages"
    have i: "i < length (sc_pending s)" using position_Some [OF pos] by simp
    have q: "length (pr_prompt ?p) + gen_max_new_tokens (pr_generation ?p) \<le> max_len s" "get_active s (pr_id ?p) = None"
      using D(4) nth_mem [OF i] by (auto simp: queue_ok_def)
    have rb: "request_page_budget (length (pr_prompt ?p)) (pr_generation ?p) (block s) = Some ?b"
      using request_page_budget_ok [OF config_okD(1)] q(1) kv_invD(2) [OF D(1)] config_okD(4) [OF kv_invD(2) [OF D(1)]]
      by (simp add: pending_budget_def)
    have sp: "sched_spare s ?m" using sched_spare_mono [OF Suc.prems(3)] by simp
    obtain s1 k where s1: "admit h s i = Some (s1, Inr ())" "core_inv s1 kind [] None" "admitted_frame ?m s s1"
      "sc_pending s1 = take i (sc_pending s) @ drop (Suc i) (sc_pending s)"
      "get_active s1 = (get_active s)(pr_id ?p \<mapsto> fresh_request ?p k)"
      using admit_ok [OF inv i _ lt sp, of h] position_Some [OF pos] by blast
    note F = admitted_frameD [OF s1(3)]
    have step: "promote_loop h (Suc n) pages s = promote_loop h n ?pages s1"
      by (rule promote_step [OF lt pos i _ s1(1)]) (use rb fits in auto)
    have "length (sc_pending s1) \<le> n" using Suc.prems(2) i s1(4) by simp
    moreover have "sched_spare s (?m + n * ?m)" using Suc.prems(3) by (simp only: mult_Suc)
    then have "sched_spare s1 (n * (max_len s1 + 1))" using sched_spare_admitted [OF _ s1(3)] F(1) by simp
    ultimately obtain s' pages' where IH: "promote_loop h n ?pages s1 = Some (s', Inr ())" "core_inv s' kind [] None"
      "admitted_frame (n * (max_len s1 + 1)) s1 s'" "admission_done s' pages'"
      "bo_kv_admission (sc_options s1) = ReserveSequenceCapacity \<longrightarrow> budget_sum s' + pages' = budget_sum s1 + ?pages"
      using Suc.IH [OF s1(2)] by blast
    have "admitted_frame (Suc n * ?m) s s'" using admitted_frame_trans [OF s1(3) IH(3)] by (simp only: F(1) mult_Suc)
    moreover have "budget_sum s' + pages' = budget_sum s + pages" if ?R
      using IH(5) that F(9) fits budget_admitted [OF D(2) core_invD(2) [OF s1(2)] q(2) s1(5) F(1)] by simp
    ultimately show ?thesis using IH step by (intro exI [of _ s'] exI [of _ pages']) simp
  qed
qed

lemma promote_pending_ok:
  assumes inv: "core_inv s kind [] None" and bud: "budget_ok s"
    and sp: "sched_spare s (length (sc_pending s) * (max_len s + 1))"
  shows "\<exists>s'. promote_pending h s = Some (s', Inr ()) \<and> core_inv s' kind [] None \<and>
    admitted_frame (length (sc_pending s) * (max_len s + 1)) s s' \<and> budget_ok s' \<and>
    admission_done s' (cf_num_pages (kv_config (sc_kv s')) - budget_sum s')"
proof -
  note D = core_invD [OF inv]
  let ?N = "cf_num_pages (kv_config (sc_kv s))" and ?R = "bo_kv_admission (sc_options s) = ReserveSequenceCapacity"
  have "active_budget (block s) (sc_active s) ?N = Some (if budget_sum s \<le> ?N then Inr (?N - budget_sum s) else Inl PageBudgetExceeded)"
    unfolding budget_sum_def om.total_def
    by (rule active_budget_ok [OF config_okD(1) [OF kv_invD(2) [OF D(1)]]])
      (use active_bound(1) [OF inv] om.entries_mem [OF D(2)] in \<open>auto simp: get_active_def\<close>)
  then have e: "promote_pending h s = promote_loop h (length (sc_pending s)) (if ?R then ?N - budget_sum s else ?N) s"
    using bud by (cases "bo_kv_admission (sc_options s)") (auto simp: promote_pending_def budget_ok_def Let_def)
  obtain s' pages' where l: "promote_loop h (length (sc_pending s)) (if ?R then ?N - budget_sum s else ?N) s = Some (s', Inr ())"
    "core_inv s' kind [] None" "admitted_frame (length (sc_pending s) * (max_len s + 1)) s s'" "admission_done s' pages'"
    "?R \<longrightarrow> budget_sum s' + pages' = budget_sum s + (if ?R then ?N - budget_sum s else ?N)"
    using promote_loop_ok [OF inv le_refl sp, of h "if ?R then ?N - budget_sum s else ?N"] by blast
  note F = admitted_frameD [OF l(3)] and A = admitted_facts [OF l(3)]
  have R: "budget_sum s' \<le> ?N \<and> pages' = ?N - budget_sum s'" if ?R
    using l(5) that bud by (auto simp: budget_ok_def)
  have "budget_ok s'" using R bud F(1,9) A(6) by (auto simp: budget_ok_def)
  moreover have "admission_done s' (cf_num_pages (kv_config (sc_kv s')) - budget_sum s')"
    using l(4) R F(1,9) by (cases "bo_kv_admission (sc_options s)") (auto simp: admission_done_def split: option.splits)
  ultimately show ?thesis using e l by auto
qed

subsection \<open>Scheduling\<close>

text \<open>
  A call of \<open>schedule\<close> between batches: pending requests are admitted, then the loop runs.  The
  counters have to allow one admission per waiting request and one preemption per active one.
\<close>

definition schedule_cost :: "'smp scheduler \<Rightarrow> nat" where
  "schedule_cost s = (length (sc_pending s) + bc_max_active_sequences (sc_config s) + 2) * (max_len s + 2)"

definition schedule_outcome :: "('smp, scheduled_batch option) sched_result \<Rightarrow> 'smp scheduler \<Rightarrow> bool" where
  "schedule_outcome res s \<longleftrightarrow> (\<exists>n s0. admitted_frame n s s0 \<and> core_inv s0 Prefill [] None \<and> budget_ok s0 \<and>
     admission_done s0 (cf_num_pages (kv_config (sc_kv s0)) - budget_sum s0) \<and> loop_outcome res s0)"

lemma card_held: "core_inv s kind [] None \<Longrightarrow> card (held s) \<le> length (sc_active s)"
proof -
  assume inv: "core_inv s kind [] None"
  have "held s \<subseteq> fst ` set (sc_active s)"
    using held_active [OF inv] by (force simp: get_active_def map_of_eq_None_iff)
  then show ?thesis using card_mono [of "fst ` set (sc_active s)" "held s"] card_image_le [of "set (sc_active s)" fst]
    by (meson List.finite_set card_length finite_imageI le_trans)
qed

lemma schedule_promotes:
  assumes inv: "sched_inv s" and idle: "sc_in_flight s = None" and bud: "budget_ok s"
    and room: "sc_next_batch s + 1 < usize_lim" "sched_spare s (schedule_cost s)"
  shows "\<exists>s1. schedule h s = schedule_loop s1 \<and> core_inv s1 Prefill [] None \<and>
    admitted_frame (length (sc_pending s) * (max_len s + 1)) s s1 \<and> budget_ok s1 \<and>
    admission_done s1 (cf_num_pages (kv_config (sc_kv s1)) - budget_sum s1) \<and> sc_next_batch s1 + 1 < usize_lim \<and>
    sched_spare s1 (card (held s1) * (max_len s1 + 1) + (length (sc_active s1) + max_len s1 + 2))"
proof -
  have core: "core_inv s Prefill [] None" using inv idle by (simp add: sched_inv_def)
  let ?P = "length (sc_pending s)" and ?m = "max_len s" and ?A = "bc_max_active_sequences (sc_config s)"
  have cost: "schedule_cost s = ?P * (?m + 1) + (?P + (?A + 2) * (?m + 2))"
    by (simp add: schedule_cost_def algebra_simps)
  then have sp: "sched_spare s (?P * (?m + 1))" using sched_spare_mono [OF room(2)] by simp
  obtain s1 where s1: "promote_pending h s = Some (s1, Inr ())" "core_inv s1 Prefill [] None"
    "admitted_frame (?P * (?m + 1)) s s1" "budget_ok s1" "admission_done s1 (cf_num_pages (kv_config (sc_kv s1)) - budget_sum s1)"
    using promote_pending_ok [OF core bud sp, of h] by blast
  note F = admitted_frameD [OF s1(3)]
  have len: "card (held s1) \<le> ?A" "length (sc_active s1) \<le> ?A"
    using card_held [OF s1(2)] core_invD(3) [OF s1(2)] F(6) by (simp_all add: limits_ok_def)
  have "card (held s1) * (?m + 1) + (length (sc_active s1) + ?m + 2) \<le> ?A * (?m + 1) + (?A + ?m + 2)"
    using len by (intro add_mono mult_le_mono1) auto
  also have "\<dots> \<le> ?P + (?A + 2) * (?m + 2)" by (simp add: algebra_simps)
  finally have "sched_spare s1 (card (held s1) * (max_len s1 + 1) + (length (sc_active s1) + max_len s1 + 2))"
    using sched_spare_mono [OF sched_spare_admitted [OF _ s1(3)]] room(2) cost F(1) by metis
  moreover have "schedule h s = schedule_loop s1"
    using idle room(1) s1(1) by (auto simp: schedule_def sched_then_def)
  ultimately show ?thesis using s1 room(1) F(2) by (intro exI [of _ s1]) simp
qed

lemma schedule_ok:
  assumes inv: "sched_inv s" and idle: "sc_in_flight s = None" and bud: "budget_ok s"
    and room: "sc_next_batch s + 1 < usize_lim" "sched_spare s (schedule_cost s)"
  shows "schedule_outcome (schedule h s) s"
proof -
  obtain s1 where s1: "schedule h s = schedule_loop s1" "core_inv s1 Prefill [] None"
    "admitted_frame (length (sc_pending s) * (max_len s + 1)) s s1" "budget_ok s1"
    "admission_done s1 (cf_num_pages (kv_config (sc_kv s1)) - budget_sum s1)" "sc_next_batch s1 + 1 < usize_lim"
    "sched_spare s1 (card (held s1) * (max_len s1 + 1) + (length (sc_active s1) + max_len s1 + 2))"
    using schedule_promotes [OF assms, of h] by blast
  then show ?thesis unfolding schedule_outcome_def using schedule_loop_ok [OF s1(2,6,7)] by metis
qed

end
