(* ===== verification/Batch_Sched_Complete.thy ===== *)
theory Batch_Sched_Complete
  imports Batch_Sched_Admit
begin

text \<open>
  Completing a batch.  The appends of the rows are committed together, then every row advances its
  request: a chunk of a prompt leaves it waiting for the next chunk, a produced token is appended
  and ends the request or makes it wait for its next decode step.
\<close>

subsection \<open>Advancing a request\<close>

definition pushed :: "'smp active_request \<Rightarrow> token list \<Rightarrow> 'smp active_request" where
  "pushed a ts = a\<lparr>aq_generated := aq_generated a @ ts, aq_history := aq_history a @ ts\<rparr>"

lemma pushed_fields:
  "aq_generated (pushed a ts) = aq_generated a @ ts" "aq_history (pushed a ts) = aq_history a @ ts"
  "aq_eos (pushed a ts) = aq_eos a" "aq_generation (pushed a ts) = aq_generation a" "aq_prompt (pushed a ts) = aq_prompt a"
  by (simp_all add: pushed_def)

definition ends :: "'smp active_request \<Rightarrow> token list \<Rightarrow> bool" where
  "ends a ts \<longleftrightarrow> last ts \<in> aq_eos a \<or> gen_max_new_tokens (aq_generation a) \<le> length (aq_generated a @ ts)"

definition finished_as :: "request_id \<Rightarrow> 'smp active_request \<Rightarrow> token list \<Rightarrow> finished_generation" where
  "finished_as r a ts = \<lparr>fg_request = r, fg_prompt = aq_prompt a, fg_generated = aq_generated a @ ts,
     fg_stopped_on_eos = (last ts \<in> aq_eos a)\<rparr>"

text \<open>The entry of a request after it received tokens, and the results it adds to the finished queue.\<close>

definition received :: "'smp active_request \<Rightarrow> token list \<Rightarrow> 'smp active_request option" where
  "received a ts = (if ends a ts then None else Some ((pushed a ts)\<lparr>aq_phase := AwaitingDecode (last ts)\<rparr>))"

definition results :: "request_id \<Rightarrow> 'smp active_request \<Rightarrow> token list \<Rightarrow> finished_generation list" where
  "results r a ts = (if ends a ts then [finished_as r a ts] else [])"

lemma request_ok_received:
  assumes "request_ok lim a" "received a ts = Some a'"
  shows "request_ok lim a'" "aq_history a' = aq_history a @ ts" "aq_phase a' = AwaitingDecode (last ts)"
proof -
  have a': "a' = (pushed a ts)\<lparr>aq_phase := AwaitingDecode (last ts)\<rparr>" "\<not> ends a ts"
    using assms(2) by (simp_all add: received_def split: if_splits)
  show "request_ok lim a'" "aq_history a' = aq_history a @ ts" "aq_phase a' = AwaitingDecode (last ts)"
    using assms(1) a'(2) unfolding a'(1) by (simp_all add: request_ok_def ends_def pushed_def)
qed

text \<open>The end of a step: the request is retired or waits for its next token.\<close>

lemma retire_ok:
  assumes kv: "kv_inv (sc_kv s)" and v: "seq_view (sc_kv s) r = Some (c, None)" and sp: "kv_spare (sc_kv s) (max_len s)"
  shows "\<exists>kv'. retire s r a e = Some (s\<lparr>sc_active := om_remove r (sc_active s), sc_kv := kv', sc_finished := sc_finished s @
      [\<lparr>fg_request = r, fg_prompt = aq_prompt a, fg_generated = aq_generated a, fg_stopped_on_eos = e\<rparr>]\<rparr>, Inr ()) \<and>
    kv_to (max_len s) (sc_kv s) kv' ((seq_view (sc_kv s))(r := None))"
  using remove_view [OF kv v sp] by (auto simp: retire_def Let_def lift_kv_def sched_then_def)

subsection \<open>Rows that are committed\<close>

definition done_slot :: "usize \<Rightarrow> (usize \<times> (kv_reservation_id \<times> usize) option) option \<Rightarrow> 'smp active_request option \<Rightarrow>
    batch_kind \<Rightarrow> scheduled_sequence option \<Rightarrow> nat \<Rightarrow> bool" where
  "done_slot lim ve ao kind ro b \<longleftrightarrow>
     (case ao of
        None \<Rightarrow> ve = None \<and> ro = None
      | Some a \<Rightarrow> request_ok lim a \<and>
          (\<exists>c. ve = Some (c, None) \<and>
            (case ro of
               None \<Rightarrow> at_rest (aq_phase a) (aq_history a) c
             | Some row \<Rightarrow> c = row_context row \<and> row_ok kind (aq_history a) (row_start row) row \<and> aq_phase a = InFlight b)))"

definition done_inv :: "'smp scheduler \<Rightarrow> batch_kind \<Rightarrow> scheduled_sequence list \<Rightarrow> nat \<Rightarrow> bool" where
  "done_inv s kind rows b \<longleftrightarrow> kv_inv (sc_kv s) \<and> om_ok (sc_active s) \<and> limits_ok s \<and> queue_ok s \<and>
     distinct (map row_request rows) \<and>
     (\<forall>r. done_slot (max_len s) (seq_view (sc_kv s) r) (get_active s r) kind (row_of rows r) b)"

lemma done_invD:
  assumes "done_inv s kind rows b"
  shows "kv_inv (sc_kv s)" "om_ok (sc_active s)" "limits_ok s" "queue_ok s" "distinct (map row_request rows)"
    "done_slot (max_len s) (seq_view (sc_kv s) r) (get_active s r) kind (row_of rows r) b"
  using assms by (auto simp: done_inv_def)

lemma done_idle: "done_slot lim ve ao kind None b \<Longrightarrow> slot lim ve ao Prefill None None"
  by (cases ao) (auto simp: done_slot_def slot_def)

lemma done_all: "done_inv s kind [] b \<Longrightarrow> core_inv s Prefill [] None"
  unfolding done_inv_def core_inv_def by (auto intro: done_idle)

lemma done_inv_step:
  assumes "done_inv s kind rows b" "kv_inv (sc_kv s')" "kv_config (sc_kv s') = kv_config (sc_kv s)"
    "om_ok (sc_active s')" "limits_ok s'" "queue_ok s'" "distinct (map row_request rows')"
    "\<And>r'. r' \<noteq> r \<Longrightarrow> seq_view (sc_kv s') r' = seq_view (sc_kv s) r' \<and> get_active s' r' = get_active s r' \<and>
      row_of rows' r' = row_of rows r'"
    "done_slot (max_len s') (seq_view (sc_kv s') r) (get_active s' r) kind (row_of rows' r) b"
  shows "done_inv s' kind rows' b"
  unfolding done_inv_def
proof (intro conjI allI)
  fix r'
  show "done_slot (max_len s') (seq_view (sc_kv s') r') (get_active s' r') kind (row_of rows' r') b"
    using assms(3,8,9) done_invD(6) [OF assms(1), of r'] by (cases "r' = r") simp_all
qed (use assms in auto)

lemma reservations_distinct:
  assumes inv: "core_inv s kind rows b"
  shows "distinct (map row_reservation rows)"
proof -
  note D = core_invD [OF inv]
  have "row_request x = row_request y"
    if m: "x \<in> set rows" "y \<in> set rows" "row_reservation x = row_reservation y" for x y
  proof -
    obtain c n where x: "seq_view (sc_kv s) (row_request x) = Some (c, Some (row_reservation x, n))"
      using row_active [OF inv m(1)] by blast
    obtain c' n' where y: "seq_view (sc_kv s) (row_request y) = Some (c', Some (row_reservation y, n'))"
      using row_active [OF inv m(2)] by blast
    show ?thesis using view_pending_inj [OF D(1) x] y m(3) by simp
  qed
  then have "inj_on row_reservation (set rows)" using D(5) unfolding distinct_map inj_on_def by blast
  then show ?thesis using D(5) by (simp add: distinct_map)
qed

lemma rows_length: "core_inv s kind rows b \<Longrightarrow> length rows \<le> length (sc_active s)"
proof -
  assume inv: "core_inv s kind rows b"
  have "row_request ` set rows \<subseteq> fst ` set (sc_active s)"
    using row_active [OF inv] unfolding get_active_def by (metis (no_types, lifting) fst_conv image_subsetI imageI map_of_SomeD)
  then have "card (row_request ` set rows) \<le> length (sc_active s)"
    using card_mono [of "fst ` set (sc_active s)"] card_image_le [of "set (sc_active s)" fst]
    by (meson List.finite_set card_length finite_imageI le_trans)
  then show ?thesis using distinct_card [OF core_invD(5) [OF inv]] by simp
qed

lemma commit_rows_ok:
  assumes inv: "core_inv s kind rows (Some b)" and sp: "kv_spare (sc_kv s) (length rows * max_len s)"
  shows "\<exists>kv' x. commit_append_prefixes (sc_kv s) (map (\<lambda>row. (row_reservation row, length (row_tokens row))) rows) =
      Some (kv', Inr x) \<and> done_inv (s\<lparr>sc_kv := kv'\<rparr>) kind rows b \<and> kv_config kv' = kv_config (sc_kv s) \<and>
    kv_spent (length rows * max_len s) (sc_kv s) kv'"
proof -
  note D = core_invD [OF inv]
  let ?rows = "map (\<lambda>row. (row_reservation row, length (row_tokens row))) rows"
  have dist: "distinct (map fst ?rows)" using reservations_distinct [OF inv] by (simp add: comp_def)
  have v: "\<exists>r c n. seq_view (sc_kv s) r = Some (c, Some (rid, n)) \<and> 0 < k \<and> k \<le> n" if m: "(rid, k) \<in> set ?rows" for rid k
  proof -
    obtain row where row: "row \<in> set rows" "rid = row_reservation row" "k = length (row_tokens row)" using m by auto
    then show ?thesis using row_active [OF inv row(1)] by (auto simp: row_ok_def)
  qed
  obtain kv' x where kv': "commit_append_prefixes (sc_kv s) ?rows = Some (kv', Inr x)"
    "kv_to (length rows * max_len s) (sc_kv s) kv'
      (settle_view (\<lambda>c rid. map_option (\<lambda>k. c + k) (map_of ?rows rid)) (seq_view (sc_kv s)))"
    using commit_group_view [OF D(1) dist v] sp by auto
  note K = kv_toD [OF kv'(2)]
  have mo: "map_of ?rows (row_reservation row) = Some (length (row_tokens row))" if "row \<in> set rows" for row
    using dist that by (intro map_of_is_SomeI) auto
  have "done_inv (s\<lparr>sc_kv := kv'\<rparr>) kind rows b"
    unfolding done_inv_def
  proof (intro conjI allI)
    fix r
    show "done_slot (max_len (s\<lparr>sc_kv := kv'\<rparr>)) (seq_view (sc_kv (s\<lparr>sc_kv := kv'\<rparr>)) r) (get_active (s\<lparr>sc_kv := kv'\<rparr>) r) kind
        (row_of rows r) b"
    proof (cases "row_of rows r")
      case None
      then have "slot (max_len s) (seq_view (sc_kv s) r) (get_active s r) kind None (Some b)" using D(6) [of r] by simp
      then show ?thesis
        unfolding None using K(2,4) by (cases "get_active s r") (auto simp: slot_def done_slot_def settle_view_def split: option.splits)
    next
      case (Some row)
      then have row: "row \<in> set rows" "row_request row = r" using row_of_Some by auto
      obtain a c n where a: "get_active s r = Some a" "request_ok (max_len s) a"
        "seq_view (sc_kv s) r = Some (c, Some (row_reservation row, n))" "row_ok kind (aq_history a) c row" "aq_phase a = InFlight b"
        using row_active [OF inv row(1)] unfolding row(2) by auto
      then have "seq_view kv' r = Some (c + length (row_tokens row), None)" using K(4) mo [OF row(1)] by (simp add: settle_view_def)
      with a K(2) Some show ?thesis by (simp add: done_slot_def row_ok_def)
    qed
  qed (use D K in auto)
  with kv' K show ?thesis by auto
qed

lemma register_rows_ok:
  assumes "done_inv s kind rows' b" "set rows \<subseteq> set rows'"
  shows "\<exists>kv'. register_rows h rows s = Some (s\<lparr>sc_kv := kv'\<rparr>, Inr ()) \<and> done_inv (s\<lparr>sc_kv := kv'\<rparr>) kind rows' b \<and>
    kv_config kv' = kv_config (sc_kv s) \<and> kv_spent 0 (sc_kv s) kv'"
  using assms
proof (induction rows arbitrary: s)
  case Nil
  then show ?case by (intro exI [of _ "sc_kv s"]) (simp add: kv_spent_def)
next
  case (Cons row rows)
  note D = done_invD [OF Cons.prems(1)]
  have "row_of rows' (row_request row) = Some row" using row_of_mem [OF D(5)] Cons.prems(2) by simp
  then obtain a c where a: "get_active s (row_request row) = Some a" "seq_view (sc_kv s) (row_request row) = Some (c, None)"
    using D(6) [of "row_request row"] by (auto simp: done_slot_def split: option.splits)
  obtain kv1 where kv1: "register_prefix h (sc_kv s) (row_request row) (aq_history a) = Some (kv1, Inr ())"
    "kv_to 0 (sc_kv s) kv1 (seq_view (sc_kv s))"
    using register_view [OF D(1) a(2)] by blast
  note K = kv_toD [OF kv1(2)]
  have "done_inv (s\<lparr>sc_kv := kv1\<rparr>) kind rows' b" using D K unfolding done_inv_def by simp
  then obtain kv' where kv': "register_rows h rows (s\<lparr>sc_kv := kv1\<rparr>) = Some (s\<lparr>sc_kv := kv'\<rparr>, Inr ())"
    "done_inv (s\<lparr>sc_kv := kv'\<rparr>) kind rows' b" "kv_config kv' = kv_config kv1" "kv_spent 0 kv1 kv'"
    using Cons.IH [of "s\<lparr>sc_kv := kv1\<rparr>"] Cons.prems(2) by auto
  then show ?case
    using kv1(1) a(1) K(2) kv_spent_trans [OF K(3) kv'(4)] by (intro exI [of _ kv']) (simp add: lift_kv_def sched_then_def)
qed

subsection \<open>Completing rows\<close>

text \<open>What a row and its token do to its request.\<close>

definition row_next :: "'smp active_request \<Rightarrow> scheduled_sequence \<Rightarrow> token \<Rightarrow> 'smp active_request option" where
  "row_next a row t =
     (if row_context row < length (aq_history a) then Some (a\<lparr>aq_phase := NeedsPrefill\<rparr>) else received a [t])"

definition row_results :: "'smp active_request \<Rightarrow> scheduled_sequence \<Rightarrow> token \<Rightarrow> finished_generation list" where
  "row_results a row t = (if row_context row < length (aq_history a) then [] else results (row_request row) a [t])"

text \<open>Only the requests, their sequences, the finished queue and the draft counters change.\<close>

definition only_rows :: "'smp scheduler \<Rightarrow> 'smp scheduler \<Rightarrow> bool" where
  "only_rows s s' \<longleftrightarrow> s' = s\<lparr>sc_kv := sc_kv s', sc_active := sc_active s', sc_finished := sc_finished s',
     sc_drafted := sc_drafted s', sc_accepted := sc_accepted s'\<rparr>"

lemma only_rows_trans: "only_rows s s1 \<Longrightarrow> only_rows s1 s2 \<Longrightarrow> only_rows s s2"
  unfolding only_rows_def by (cases s; cases s1; cases s2) simp

definition rows_frame :: "nat \<Rightarrow> 'smp scheduler \<Rightarrow> 'smp scheduler \<Rightarrow> (request_id \<Rightarrow> 'smp active_request option) \<Rightarrow>
    finished_generation list \<Rightarrow> bool" where
  "rows_frame n s s' g fin \<longleftrightarrow> get_active s' = g \<and> sc_finished s' = sc_finished s @ fin \<and>
     kv_config (sc_kv s') = kv_config (sc_kv s) \<and> kv_spent n (sc_kv s) (sc_kv s') \<and>
     sc_drafted s' \<le> sc_drafted s + n \<and> sc_accepted s' \<le> sc_accepted s + n \<and> only_rows s s'"

lemma rows_frameD:
  assumes "rows_frame n s s' g fin"
  shows "get_active s' = g" "sc_finished s' = sc_finished s @ fin" "kv_config (sc_kv s') = kv_config (sc_kv s)"
    "kv_spent n (sc_kv s) (sc_kv s')" "sc_drafted s' \<le> sc_drafted s + n" "sc_accepted s' \<le> sc_accepted s + n"
    "sc_config s' = sc_config s" "sc_options s' = sc_options s" "sc_pending s' = sc_pending s"
    "sc_deferred s' = sc_deferred s" "sc_in_flight s' = sc_in_flight s" "sc_next_request s' = sc_next_request s"
    "sc_next_batch s' = sc_next_batch s" "sc_next_admission s' = sc_next_admission s"
    "sc_preemptions s' = sc_preemptions s" "sc_speculative s' = sc_speculative s" "sc_prefill_chunk s' = sc_prefill_chunk s"
    "sc_recompute s' = sc_recompute s"
proof -
  note F = assms [unfolded rows_frame_def]
  show "get_active s' = g" "sc_finished s' = sc_finished s @ fin" "kv_config (sc_kv s') = kv_config (sc_kv s)"
    "kv_spent n (sc_kv s) (sc_kv s')" "sc_drafted s' \<le> sc_drafted s + n" "sc_accepted s' \<le> sc_accepted s + n"
    using F by blast+
  have "only_rows s s'" using F by blast
  then show "sc_config s' = sc_config s" "sc_options s' = sc_options s" "sc_pending s' = sc_pending s"
    "sc_deferred s' = sc_deferred s" "sc_in_flight s' = sc_in_flight s" "sc_next_request s' = sc_next_request s"
    "sc_next_batch s' = sc_next_batch s" "sc_next_admission s' = sc_next_admission s"
    "sc_preemptions s' = sc_preemptions s" "sc_speculative s' = sc_speculative s" "sc_prefill_chunk s' = sc_prefill_chunk s"
    "sc_recompute s' = sc_recompute s"
    unfolding only_rows_def by (cases s; cases s'; simp)+
qed

lemma rows_frame_refl: "rows_frame n s s (get_active s) []"
  by (simp add: rows_frame_def only_rows_def kv_spent_def)

lemma rows_frame_trans:
  assumes "rows_frame m s s1 g1 f1" "rows_frame n s1 s2 g2 f2"
  shows "rows_frame (m + n) s s2 g2 (f1 @ f2)"
  using rows_frameD(1-6) [OF assms(1)] rows_frameD(1-6) [OF assms(2)] kv_spent_trans
    only_rows_trans [of s s1 s2] assms
  by (simp add: rows_frame_def)

lemma rows_frame_mono: "rows_frame m s s' g fin \<Longrightarrow> m \<le> n \<Longrightarrow> rows_frame n s s' g fin"
  by (auto simp: rows_frame_def intro: kv_spent_mono)

lemma rows_frame_spare: "sched_spare s (m + n) \<Longrightarrow> rows_frame m s s' g fin \<Longrightarrow> sched_spare s' n"
  using spare_spent [of "sc_kv s" m n "sc_kv s'"] rows_frameD(4-6,14,15) [of m s s' g fin] by (simp add: sched_spare_def)

lemma limits_mono:
  assumes "limits_ok s" "length (sc_active s') \<le> length (sc_active s)" "kv_config (sc_kv s') = kv_config (sc_kv s)"
    "sc_config s' = sc_config s" "sc_prefill_chunk s' = sc_prefill_chunk s" "sc_speculative s' = sc_speculative s"
  shows "limits_ok s'"
  using assms by (auto simp: limits_ok_def)

lemma queue_mono:
  assumes "queue_ok s" "kv_config (sc_kv s') = kv_config (sc_kv s)" "sc_pending s' = sc_pending s"
    "sc_next_request s' = sc_next_request s" "\<And>r. get_active s r = None \<Longrightarrow> get_active s' r = None"
  shows "queue_ok s'"
proof -
  have "get_active s r \<noteq> None" if "get_active s' r \<noteq> None" for r
    using that assms(5) [of r] by (cases "get_active s r") auto
  then show ?thesis using assms(1) assms(5) unfolding queue_ok_def assms(2-4) by simp
qed

lemma complete_row_ok:
  assumes inv: "done_inv s kind (row # rows) b" and kind: "kind \<noteq> Verify" and spare: "sched_spare s (max_len s)"
  shows "\<exists>s' a. get_active s (row_request row) = Some a \<and> complete_row (row, t) s = Some (s', Inr ()) \<and>
    done_inv s' kind rows b \<and> rows_frame (max_len s) s s' ((get_active s)(row_request row := row_next a row t)) (row_results a row t)"
proof -
  note D = done_invD [OF inv]
  have sp: "kv_spare (sc_kv s) (max_len s)" using spare by (simp add: sched_spare_def)
  let ?r = "row_request row"
  obtain a where a: "get_active s ?r = Some a" "request_ok (max_len s) a"
    "seq_view (sc_kv s) ?r = Some (row_context row, None)" "row_ok kind (aq_history a) (row_start row) row"
    using D(6) [of ?r] by (auto simp: done_slot_def split: option.splits)
  have ctx: "row_context row \<le> length (aq_history a)"
    using a(4) kind by (cases kind) (auto simp: row_ok_def tokens_ok_def)
  have dist: "distinct (map row_request rows)" "row_of rows ?r = None" using D(5) by (auto simp: row_of_None)
  have keep: "\<exists>s'. complete_row (row, t) s = Some (s', Inr ()) \<and> done_inv s' kind rows b \<and>
      rows_frame (max_len s) s s' ((get_active s)(?r := row_next a row t)) (row_results a row t)"
    if eq: "complete_row (row, t) s = Some (set_active s ?r a', Inr ())" and nx: "row_next a row t = Some a'" "row_results a row t = []"
      and ok: "request_ok (max_len s) a'" "at_rest (aq_phase a') (aq_history a') (row_context row)" for a'
  proof (intro exI conjI)
    have g: "get_active (set_active s ?r a') = (get_active s)(?r \<mapsto> a')" using D(2) by (simp add: fun_eq_iff)
    have len: "length (sc_active (set_active s ?r a')) = length (sc_active s)"
      using a(1) D(2) by (simp add: set_active_def length_om_insert get_active_def)
    show "done_inv (set_active s ?r a') kind rows b"
    proof (rule done_inv_step [OF inv, where r = ?r])
      show "om_ok (sc_active (set_active s ?r a'))" using D(2) by (simp add: set_active_def)
      show "limits_ok (set_active s ?r a')" by (rule limits_mono [OF D(3)]) (simp_all add: len)
      show "queue_ok (set_active s ?r a')" by (rule queue_mono [OF D(4)]) (use a(1) in \<open>auto simp: g\<close>)
    qed (use D dist a ok g in \<open>auto simp: done_slot_def\<close>)
    show "rows_frame (max_len s) s (set_active s ?r a') ((get_active s)(?r := row_next a row t)) (row_results a row t)"
      using nx g by (simp add: rows_frame_def kv_spent_def) (simp add: set_active_def only_rows_def)
  qed (fact eq)
  show ?thesis
  proof (cases "row_context row < length (aq_history a)")
    case True
    let ?a = "a\<lparr>aq_phase := NeedsPrefill\<rparr>"
    have "complete_row (row, t) s = Some (set_active s ?r ?a, Inr ())" using a(1) True by (simp add: complete_row_def)
    moreover have "request_ok (max_len s) ?a" "at_rest (aq_phase ?a) (aq_history ?a) (row_context row)"
      using a(2) True by (simp_all add: request_ok_def at_rest_def)
    ultimately show ?thesis using keep [of ?a] a(1) True by (simp add: row_next_def row_results_def)
  next
    case False
    with ctx have full: "row_context row = length (aq_history a)" by simp
    let ?a = "pushed a [t]"
    show ?thesis
    proof (cases "ends a [t]")
      case False
      let ?a' = "?a\<lparr>aq_phase := AwaitingDecode t\<rparr>"
      have rc: "received a [t] = Some ?a'" using False by (simp add: received_def)
      have "complete_row (row, t) s = Some (set_active s ?r ?a', Inr ())"
        using a(1) full False by (simp add: complete_row_def ends_def pushed_def Let_def)
      moreover have "at_rest (aq_phase ?a') (aq_history ?a') (row_context row)" using full by (simp add: at_rest_def pushed_def)
      ultimately show ?thesis
        using keep [of ?a'] a(1) full rc False request_ok_received(1) [OF a(2) rc]
        by (simp add: row_next_def row_results_def results_def)
    next
      case True
      let ?t = "set_active s ?r ?a"
      obtain kv' where kv': "retire ?t ?r ?a (t \<in> aq_eos a) = Some (?t\<lparr>sc_active := om_remove ?r (sc_active ?t), sc_kv := kv',
          sc_finished := sc_finished ?t @ [\<lparr>fg_request = ?r, fg_prompt = aq_prompt ?a, fg_generated = aq_generated ?a,
            fg_stopped_on_eos = (t \<in> aq_eos a)\<rparr>]\<rparr>, Inr ())"
        "kv_to (max_len s) (sc_kv s) kv' ((seq_view (sc_kv s))(?r := None))"
        using retire_ok [of ?t ?r "row_context row" ?a "t \<in> aq_eos a"] D(1) a(3) sp by auto
      let ?s' = "?t\<lparr>sc_active := om_remove ?r (sc_active ?t), sc_kv := kv', sc_finished := sc_finished s @ [finished_as ?r a [t]]\<rparr>"
      note K = kv_toD [OF kv'(2)]
      have "complete_row (row, t) s = retire ?t ?r ?a (t \<in> aq_eos a)"
        using a(1) full True by (simp add: complete_row_def ends_def pushed_def Let_def)
      then have e: "complete_row (row, t) s = Some (?s', Inr ())"
        using kv'(1) by (simp add: finished_as_def pushed_def)
      have g: "get_active ?s' = (get_active s)(?r := None)" using D(2) by (auto simp: fun_eq_iff get_active_def set_active_def)
      have len: "length (sc_active ?s') \<le> length (sc_active s)"
        using length_om_remove [of "sc_active ?t" ?r] a(1) D(2) by (simp add: set_active_def length_om_insert get_active_def)
      have ok: "om_ok (sc_active ?s')" using D(2) by (simp add: set_active_def)
      have "done_inv ?s' kind rows b"
      proof (rule done_inv_step [OF inv, where r = ?r])
        show "limits_ok ?s'" by (rule limits_mono [OF D(3) len]) (use K in simp_all)
        show "queue_ok ?s'" by (rule queue_mono [OF D(4)]) (use K g in \<open>simp_all del: get_active_fields\<close>)
        show "done_slot (max_len ?s') (seq_view (sc_kv ?s') ?r) (get_active ?s' ?r) kind (row_of rows ?r) b"
          unfolding g using K dist(2) by (simp add: done_slot_def)
        show "seq_view (sc_kv ?s') r' = seq_view (sc_kv s) r' \<and> get_active ?s' r' = get_active s r' \<and>
            row_of rows r' = row_of (row # rows) r'" if "r' \<noteq> ?r" for r'
          unfolding g using that K by simp
      qed (use K ok dist in auto)
      moreover have "rows_frame (max_len s) s ?s' ((get_active s)(?r := row_next a row t)) (row_results a row t)"
        unfolding rows_frame_def g using K full True
        by (simp add: row_next_def row_results_def received_def results_def) (simp add: set_active_def only_rows_def)
      ultimately show ?thesis using a(1) e by blast
    qed
  qed
qed

subsection \<open>The loops over the rows of a batch\<close>

text \<open>
  What a loop over the rows does when every step changes its own request only: \<open>nx\<close> is the entry
  of the request after the step and \<open>rs\<close> what it adds to the finished queue.
\<close>

definition rows_next :: "('x \<Rightarrow> scheduled_sequence) \<Rightarrow> ('smp active_request \<Rightarrow> 'x \<Rightarrow> 'smp active_request option) \<Rightarrow>
    (request_id \<Rightarrow> 'smp active_request option) \<Rightarrow> 'x list \<Rightarrow> request_id \<Rightarrow> 'smp active_request option" where
  "rows_next row nx g xs r =
     (case find (\<lambda>x. row_request (row x) = r) xs of None \<Rightarrow> g r | Some x \<Rightarrow> Option.bind (g r) (\<lambda>a. nx a x))"

definition rows_out :: "('x \<Rightarrow> scheduled_sequence) \<Rightarrow> ('smp active_request \<Rightarrow> 'x \<Rightarrow> 'y list) \<Rightarrow>
    (request_id \<Rightarrow> 'smp active_request option) \<Rightarrow> 'x list \<Rightarrow> 'y list" where
  "rows_out row f g xs =
     concat (map (\<lambda>x. case g (row_request (row x)) of None \<Rightarrow> [] | Some a \<Rightarrow> f a x) xs)"

lemma rows_next_Nil [simp]: "rows_next row nx g [] = g"
  by (simp add: rows_next_def fun_eq_iff)

lemma rows_out_Nil [simp]: "rows_out row f g [] = []"
  by (simp add: rows_out_def)

lemma rows_next_Cons:
  assumes "g (row_request (row x)) = Some a" "row_request (row x) \<notin> (\<lambda>x. row_request (row x)) ` set xs"
  shows "rows_next row nx (g(row_request (row x) := nx a x)) xs = rows_next row nx g (x # xs)"
proof
  fix r
  have "find (\<lambda>y. row_request (row y) = row_request (row x)) xs = None" using assms(2) by (auto simp: find_None_iff image_iff)
  then show "rows_next row nx (g(row_request (row x) := nx a x)) xs r = rows_next row nx g (x # xs) r"
    using assms(1) by (auto simp: rows_next_def split: option.splits)
qed

lemma rows_out_Cons:
  assumes "g (row_request (row x)) = Some a" "row_request (row x) \<notin> (\<lambda>x. row_request (row x)) ` set xs"
  shows "f a x @ rows_out row f (g(row_request (row x) := e)) xs = rows_out row f g (x # xs)"
proof -
  have "row_request (row y) \<noteq> row_request (row x)" if "y \<in> set xs" for y using assms(2) that by (metis imageI)
  then show ?thesis using assms(1) by (simp add: rows_out_def cong: map_cong)
qed

locale completion_loop =
  fixes step :: "'x \<Rightarrow> 'smp scheduler \<Rightarrow> ('smp, 'y) sched_result"
    and loop :: "'x list \<Rightarrow> 'smp scheduler \<Rightarrow> ('smp, 'z) sched_result"
    and none :: 'z
    and more :: "'y \<Rightarrow> 'z \<Rightarrow> 'z"
    and row :: "'x \<Rightarrow> scheduled_sequence"
    and ok :: "'x \<Rightarrow> bool"
    and inv :: "'smp scheduler \<Rightarrow> scheduled_sequence list \<Rightarrow> bool"
    and nx :: "'smp active_request \<Rightarrow> 'x \<Rightarrow> 'smp active_request option"
    and rs :: "'smp active_request \<Rightarrow> 'x \<Rightarrow> finished_generation list"
    and out :: "'smp active_request \<Rightarrow> 'x \<Rightarrow> 'y"
    and k :: nat
  assumes loop_Nil: "loop [] s = Some (s, Inr none)"
    and loop_Cons: "loop (x # xs) s = sched_then (step x s) (\<lambda>s y. sched_then (loop xs s) (\<lambda>s z. Some (s, Inr (more y z))))"
    and inv_distinct: "inv s rows \<Longrightarrow> distinct (map row_request rows)"
    and step_ok: "inv s (row x # rows) \<Longrightarrow> ok x \<Longrightarrow> sched_spare s (k * max_len s) \<Longrightarrow>
      \<exists>s' a. get_active s (row_request (row x)) = Some a \<and> step x s = Some (s', Inr (out a x)) \<and> inv s' rows \<and>
        rows_frame (k * max_len s) s s' ((get_active s)(row_request (row x) := nx a x)) (rs a x)"
begin

lemma completes:
  assumes "inv s (map row xs)" "\<And>x. x \<in> set xs \<Longrightarrow> ok x" "sched_spare s (length xs * (k * max_len s))"
  shows "\<exists>s'. loop xs s = Some (s', Inr (foldr more (rows_out row (\<lambda>a x. [out a x]) (get_active s) xs) none)) \<and> inv s' [] \<and>
    rows_frame (length xs * (k * max_len s)) s s' (rows_next row nx (get_active s) xs) (rows_out row rs (get_active s) xs)"
  using assms
proof (induction xs arbitrary: s)
  case Nil
  then show ?case using rows_frame_refl [of 0 s] by (auto simp: loop_Nil)
next
  case (Cons x xs)
  let ?r = "row_request (row x)"
  have sp: "sched_spare s (k * max_len s + length xs * (k * max_len s))" using Cons.prems(3) by simp
  obtain s1 a where a: "get_active s ?r = Some a" "step x s = Some (s1, Inr (out a x))" "inv s1 (map row xs)"
    "rows_frame (k * max_len s) s s1 ((get_active s)(?r := nx a x)) (rs a x)"
    using step_ok [of s x "map row xs"] Cons.prems(1,2) sched_spare_mono [OF sp, of "k * max_len s"] by auto
  have ml: "max_len s1 = max_len s" using rows_frameD(3) [OF a(4)] by simp
  have nin: "?r \<notin> (\<lambda>x. row_request (row x)) ` set xs" using inv_distinct [OF Cons.prems(1)] by auto
  obtain s' where s': "loop xs s1 = Some (s', Inr (foldr more (rows_out row (\<lambda>a x. [out a x]) (get_active s1) xs) none))"
    "inv s' []" "rows_frame (length xs * (k * max_len s1)) s1 s' (rows_next row nx (get_active s1) xs) (rows_out row rs (get_active s1) xs)"
    using Cons.IH [of s1] a(3) Cons.prems(2) rows_frame_spare [OF sp a(4)] ml by auto
  have g: "get_active s1 = (get_active s)(?r := nx a x)" using rows_frameD(1) [OF a(4)] .
  have out: "rows_out row (\<lambda>a x. [out a x]) (get_active s) (x # xs) = out a x # rows_out row (\<lambda>a x. [out a x]) (get_active s1) xs"
    unfolding g using rows_out_Cons [of "get_active s" row x a xs "\<lambda>a x. [out a x]" "nx a x"] a(1) nin by simp
  have "rows_frame (length (x # xs) * (k * max_len s)) s s' (rows_next row nx (get_active s) (x # xs)) (rows_out row rs (get_active s) (x # xs))"
    using rows_frame_trans [OF a(4) s'(3)] unfolding ml g
    by (simp only: rows_next_Cons [of "get_active s" row x a xs nx, OF a(1) nin]
        rows_out_Cons [of "get_active s" row x a xs rs "nx a x", OF a(1) nin]) simp
  then show ?case unfolding out using a(2) s'(1,2) by (auto simp: loop_Cons sched_then_def)
qed

end

interpretation cr: completion_loop complete_row complete_rows "()" "\<lambda>_ _. ()" fst "\<lambda>_. True"
    "\<lambda>s rows. kind \<noteq> Verify \<and> done_inv s kind rows b" "\<lambda>a x. row_next a (fst x) (snd x)" "\<lambda>a x. row_results a (fst x) (snd x)"
    "\<lambda>_ _. ()" 1 for kind b
proof
  show "complete_rows (x # xs) s = sched_then (complete_row x s) (\<lambda>s y. sched_then (complete_rows xs s) (\<lambda>s z. Some (s, Inr ())))"
    for x xs and s :: "'a scheduler"
    by (simp add: sched_then_def split: bind_splits sum.splits)
  show "\<exists>s' a. get_active s (row_request (fst x)) = Some a \<and> complete_row x s = Some (s', Inr ()) \<and>
      (kind \<noteq> Verify \<and> done_inv s' kind rows b) \<and>
      rows_frame (1 * max_len s) s s' ((get_active s)(row_request (fst x) := row_next a (fst x) (snd x))) (row_results a (fst x) (snd x))"
    if "kind \<noteq> Verify \<and> done_inv s kind (fst x # rows) b" "sched_spare s (1 * max_len s)" for s :: "'a scheduler" and x rows
    using complete_row_ok [of s kind "fst x" rows b "snd x"] that by simp
qed (simp_all add: done_inv_def)

text \<open>The requests and the results of a batch whose rows received the given tokens.\<close>

definition batch_next :: "'smp scheduler \<Rightarrow> scheduled_batch \<Rightarrow> token list \<Rightarrow> request_id \<Rightarrow> 'smp active_request option" where
  "batch_next s batch tokens =
     rows_next fst (\<lambda>a x. row_next a (fst x) (snd x)) (get_active s) (zip (bt_sequences batch) tokens)"

definition batch_results :: "'smp scheduler \<Rightarrow> scheduled_batch \<Rightarrow> token list \<Rightarrow> finished_generation list" where
  "batch_results s batch tokens =
     rows_out fst (\<lambda>a x. row_results a (fst x) (snd x)) (get_active s) (zip (bt_sequences batch) tokens)"

definition complete_cost :: "'smp scheduler \<Rightarrow> nat" where
  "complete_cost s = 2 * (bc_max_active_sequences (sc_config s) * max_len s)"

lemma in_flight_inv:
  assumes "sched_inv s" "sc_in_flight s = Some batch"
  shows "core_inv s (bt_kind batch) (bt_sequences batch) (Some (bt_id batch))"
    "batch_ok s batch" "length (bt_sequences batch) * max_len s \<le> bc_max_active_sequences (sc_config s) * max_len s"
proof -
  show ok: "batch_ok s batch" using assms by (simp add: sched_inv_def)
  show inv: "core_inv s (bt_kind batch) (bt_sequences batch) (Some (bt_id batch))" using ok by (simp add: batch_ok_def)
  show "length (bt_sequences batch) * max_len s \<le> bc_max_active_sequences (sc_config s) * max_len s"
    using rows_length [OF inv] core_invD(3) [OF inv] by (intro mult_right_mono) (auto simp: limits_ok_def)
qed

lemma inv_fields [simp]:
  "core_inv (s\<lparr>sc_in_flight := i\<rparr>) kind rows b = core_inv s kind rows b"
  "sched_spare (s\<lparr>sc_in_flight := i\<rparr>) n = sched_spare s n"
  by (simp_all add: core_inv_def limits_ok_def queue_ok_def sched_spare_def)

lemma rows_owned:
  assumes "core_inv s kind rows (Some b)"
  shows "find_map (row_owner_error s b) rows = None" "\<not> (\<exists>row \<in> set rows. row_owner_error s b row \<noteq> None)"
proof -
  have own: "row_owner_error s b row = None" if "row \<in> set rows" for row
    using row_active [OF assms that] by (auto simp: row_owner_error_def)
  then show "\<not> (\<exists>row \<in> set rows. row_owner_error s b row \<noteq> None)" by simp
  from own show "find_map (row_owner_error s b) rows = None" by (induction rows) simp_all
qed

lemma complete_batch_ok:
  assumes inv: "sched_inv s" and fl: "sc_in_flight s = Some batch" and kind: "bt_kind batch \<noteq> Verify"
    and sp: "sched_spare s (complete_cost s)" and len: "length tokens = length (bt_sequences batch)"
    and tok: "\<And>row t. (row, t) \<in> set (zip (bt_sequences batch) tokens) \<Longrightarrow> samples_token s row \<Longrightarrow> 0 \<le> t"
  shows "\<exists>s'. complete_batch h s (bt_id batch) tokens = Some (s', Inr ()) \<and> sched_inv s' \<and>
    rows_frame (complete_cost s) (s\<lparr>sc_in_flight := None\<rparr>) s' (batch_next s batch tokens) (batch_results s batch tokens)"
proof -
  let ?rows = "bt_sequences batch" and ?t = "s\<lparr>sc_in_flight := None\<rparr>" and ?n = "length (bt_sequences batch) * max_len s"
  note I = in_flight_inv [OF inv fl]
  have "?n + ?n \<le> complete_cost s" using add_mono [OF I(3) I(3)] unfolding complete_cost_def mult_2 .
  then have sp2: "sched_spare s (?n + ?n)" using sched_spare_mono [OF sp] by blast
  then have kvsp: "kv_spare (sc_kv s) ?n" using sched_spare_mono [of s "?n + ?n" ?n] by (simp add: sched_spare_def)
  obtain kv1 x where kv1: "commit_append_prefixes (sc_kv s) (map (\<lambda>row. (row_reservation row, length (row_tokens row))) ?rows) =
      Some (kv1, Inr x)" "done_inv (?t\<lparr>sc_kv := kv1\<rparr>) (bt_kind batch) ?rows (bt_id batch)" "kv_config kv1 = kv_config (sc_kv s)"
    "kv_spent ?n (sc_kv s) kv1"
    using commit_rows_ok [of ?t "bt_kind batch" ?rows "bt_id batch"] I(1) kvsp by auto
  obtain kv2 where kv2: "register_rows h ?rows (?t\<lparr>sc_kv := kv1\<rparr>) = Some (?t\<lparr>sc_kv := kv2\<rparr>, Inr ())"
    "done_inv (?t\<lparr>sc_kv := kv2\<rparr>) (bt_kind batch) ?rows (bt_id batch)" "kv_config kv2 = kv_config kv1" "kv_spent 0 kv1 kv2"
    using register_rows_ok [OF kv1(2) subset_refl, of h] by auto
  let ?u = "?t\<lparr>sc_kv := kv2\<rparr>"
  have fr1: "rows_frame ?n ?t ?u (get_active s) []"
    using kv_spent_trans [OF kv1(4) kv2(4)] kv1(3) kv2(3) by (simp add: rows_frame_def only_rows_def)
  have ml: "max_len ?u = max_len s" using kv1(3) kv2(3) by simp
  have zip: "map fst (zip ?rows tokens) = ?rows" "length (zip ?rows tokens) = length ?rows" using len by simp_all
  have "sched_spare ?u ?n" using rows_frame_spare [OF _ fr1, of ?n] sp2 by simp
  then obtain s' where s': "complete_rows (zip ?rows tokens) ?u = Some (s', Inr ())"
    "done_inv s' (bt_kind batch) [] (bt_id batch)"
    "rows_frame ?n ?u s' (rows_next fst (\<lambda>a x. row_next a (fst x) (snd x)) (get_active ?u) (zip ?rows tokens))
       (rows_out fst (\<lambda>a x. row_results a (fst x) (snd x)) (get_active ?u) (zip ?rows tokens))"
    using cr.completes [of "bt_kind batch" ?u "zip ?rows tokens" "bt_id batch"] kv2(2) kind unfolding zip ml by auto
  have "rows_frame (?n + ?n) ?t s' (batch_next s batch tokens) (batch_results s batch tokens)"
    using rows_frame_trans [OF fr1 s'(3)] by (simp add: batch_next_def batch_results_def)
  moreover have "complete_batch h s (bt_id batch) tokens = Some (s', Inr ())"
  proof -
    have neg: "\<not> (\<exists>(row, t) \<in> set (zip ?rows tokens). samples_token ?t row \<and> t < 0)"
      using tok by (fastforce simp: samples_token_def)
    show ?thesis
      using fl len neg rows_owned(1) [of ?t "bt_kind batch" ?rows "bt_id batch"] I(1) kv1(1) kv2(1) s'(1)
      by (simp add: complete_batch_def take_batch_def sched_then_def lift_kv_def Let_def)
  qed
  moreover have "sched_inv s'"
    using done_all [OF s'(2)] rows_frameD(7,11) [OF s'(3)] inv by (simp add: sched_inv_def)
  ultimately show ?thesis using \<open>?n + ?n \<le> complete_cost s\<close> rows_frame_mono by blast
qed

end
