(* ===== verification/Batch_Sched_Verify.thy ===== *)
theory Batch_Sched_Verify
  imports Batch_Sched_Complete
begin

text \<open>
  Completing a batch of speculative drafts.  Every row accepts a non-empty prefix of the
  predictions, commits as many tokens as it accepted and gives the rest of its reservation back.
\<close>

subsection \<open>One row\<close>

lemma verify_row_total:
  assumes "length predictions = length input - pos" "pos < length input" "length produced < remaining"
  shows "\<exists>ts. verify_row input (length input) eos remaining pos predictions produced = Some (produced @ ts) \<and> ts \<noteq> [] \<and>
    length (produced @ ts) \<le> remaining \<and> ts = take (length ts) predictions \<and> set (butlast ts) \<inter> eos = {}"
  using assms
proof (induction predictions arbitrary: pos produced)
  case (Cons t predictions)
  have one: ?case if "verify_row input (length input) eos remaining pos (t # predictions) produced = Some (produced @ [t])"
    using that Cons.prems by (intro exI [of _ "[t]"]) auto
  show ?case
  proof (cases "length (produced @ [t]) = remaining \<or> t \<in> eos \<or> length input \<le> pos + 1 \<or> input ! (pos + 1) \<noteq> t")
    case True
    then show ?thesis using one Cons.prems by (auto simp: Let_def vec_get_def)
  next
    case False
    then have lt: "Suc pos < length input" "input ! Suc pos = t" by simp_all
    have len: "length predictions = length input - Suc pos" using Cons.prems(1) by simp
    obtain ts where ts: "verify_row input (length input) eos remaining (Suc pos) predictions (produced @ [t]) = Some ((produced @ [t]) @ ts)"
      "ts \<noteq> []" "length ((produced @ [t]) @ ts) \<le> remaining" "ts = take (length ts) predictions" "set (butlast ts) \<inter> eos = {}"
      using Cons.IH [of "Suc pos" "produced @ [t]"] Cons.prems(3) False lt(1) len by auto
    have "verify_row input (length input) eos remaining pos (t # predictions) produced = Some (produced @ t # ts)"
      using False lt ts(1) by (simp add: vec_get_def)
    then show ?thesis using ts False by (intro exI [of _ "t # ts"]) auto
  qed
qed simp

definition verified :: "token list \<Rightarrow> token set \<Rightarrow> usize \<Rightarrow> token list \<Rightarrow> token list" where
  "verified input eos remaining predictions = the (verify_row input (length input) eos remaining 0 predictions [])"

lemma verified_ok:
  assumes "length predictions = length input" "input \<noteq> []" "0 < remaining"
  shows "verify_row input (length input) eos remaining 0 predictions [] = Some (verified input eos remaining predictions)"
    "verified input eos remaining predictions \<noteq> []" "length (verified input eos remaining predictions) \<le> remaining"
    "length (verified input eos remaining predictions) \<le> length input"
    "verified input eos remaining predictions = take (length (verified input eos remaining predictions)) predictions"
    "set (butlast (verified input eos remaining predictions)) \<inter> eos = {}"
proof -
  obtain ts where ts: "verify_row input (length input) eos remaining 0 predictions [] = Some ts" "ts \<noteq> []"
    "length ts \<le> remaining" "ts = take (length ts) predictions" "set (butlast ts) \<inter> eos = {}"
    using verify_row_total [of predictions input 0 "[]" remaining eos] assms by auto
  have v: "verified input eos remaining predictions = ts" by (simp add: verified_def ts(1))
  have "length ts \<le> length predictions" using arg_cong [OF ts(4), of length] by simp
  then show "verify_row input (length input) eos remaining 0 predictions [] = Some (verified input eos remaining predictions)"
    "verified input eos remaining predictions \<noteq> []" "length (verified input eos remaining predictions) \<le> remaining"
    "length (verified input eos remaining predictions) \<le> length input"
    "verified input eos remaining predictions = take (length (verified input eos remaining predictions)) predictions"
    "set (butlast (verified input eos remaining predictions)) \<inter> eos = {}"
    unfolding v using ts assms(1) by simp_all
qed

text \<open>The tokens a request takes from its row of the predictions.\<close>

definition row_produced :: "usize \<Rightarrow> token list \<Rightarrow> 'smp active_request \<Rightarrow> nat \<times> scheduled_sequence \<Rightarrow> token list" where
  "row_produced width argmax a x =
     verified (row_tokens (snd x)) (aq_eos a) (gen_max_new_tokens (aq_generation a) - length (aq_generated a))
       (take width (drop (fst x * width) argmax))"

definition verifiable :: "usize \<Rightarrow> token list \<Rightarrow> nat \<times> scheduled_sequence \<Rightarrow> bool" where
  "verifiable width argmax x \<longleftrightarrow> Suc (fst x) * width \<le> length argmax \<and> length (row_tokens (snd x)) = width"

lemma row_produced_ok:
  assumes "verifiable width argmax x" "row_tokens (snd x) \<noteq> []" "request_ok lim a"
  shows "sub_slice argmax (fst x * width) ((fst x + 1) * width) = Some (take width (drop (fst x * width) argmax))"
    "verify_row (row_tokens (snd x)) width (aq_eos a) (gen_max_new_tokens (aq_generation a) - length (aq_generated a)) 0
       (take width (drop (fst x * width) argmax)) [] = Some (row_produced width argmax a x)"
    "row_produced width argmax a x \<noteq> []" "length (row_produced width argmax a x) \<le> length (row_tokens (snd x))"
proof -
  have w: "length (row_tokens (snd x)) = width" "fst x * width + width \<le> length argmax" using assms(1) by (simp_all add: verifiable_def add.commute)
  then have "length (take width (drop (fst x * width) argmax)) = length (row_tokens (snd x))" by simp
  moreover have "0 < gen_max_new_tokens (aq_generation a) - length (aq_generated a)" using assms(3) by (simp add: request_ok_def)
  ultimately have V: "length (take width (drop (fst x * width) argmax)) = length (row_tokens (snd x))" "row_tokens (snd x) \<noteq> []"
    "0 < gen_max_new_tokens (aq_generation a) - length (aq_generated a)" using assms(2) by simp_all
  show "sub_slice argmax (fst x * width) ((fst x + 1) * width) = Some (take width (drop (fst x * width) argmax))"
    using w by (simp add: sub_slice_def add.commute)
  show "verify_row (row_tokens (snd x)) width (aq_eos a) (gen_max_new_tokens (aq_generation a) - length (aq_generated a)) 0
       (take width (drop (fst x * width) argmax)) [] = Some (row_produced width argmax a x)"
    "row_produced width argmax a x \<noteq> []" "length (row_produced width argmax a x) \<le> length (row_tokens (snd x))"
    using verified_ok(1,2,4) [OF V, of "aq_eos a"] w(1) by (simp_all add: row_produced_def)
qed

lemma verify_sequence_eq:
  assumes a: "get_active s (row_request row) = Some a"
    and p: "sub_slice argmax (i * width) ((i + 1) * width) = Some ps" "length (aq_generated a) \<le> gen_max_new_tokens (aq_generation a)"
      "verify_row (row_tokens row) width (aq_eos a) (gen_max_new_tokens (aq_generation a) - length (aq_generated a)) 0 ps [] = Some ts"
      "ts \<noteq> []" "1 \<le> width" "sc_drafted s + width < usize_lim" "sc_accepted s + length ts < usize_lim"
    and kv1: "commit_append_partial (sc_kv s) (row_reservation row) (length ts) = Some (kv1, Inr x)"
    and kv2: "register_prefix h kv1 (row_request row) (aq_history a @ ts) = Some (kv2, Inr ())"
    and ok: "om_ok (sc_active s)"
  shows "verify_sequence h width argmax (i, row) s =
    (let t = (set_active (s\<lparr>sc_drafted := sc_drafted s + (width - 1), sc_accepted := sc_accepted s + (length ts - 1)\<rparr>)
       (row_request row) (pushed a ts))\<lparr>sc_kv := kv2\<rparr> in
     if ends a ts
     then sched_then (retire t (row_request row) (pushed a ts) (last ts \<in> aq_eos a)) (\<lambda>s _. Some (s, Inr (row_request row, ts)))
     else Some (set_active t (row_request row) ((pushed a ts)\<lparr>aq_phase := AwaitingDecode (last ts)\<rparr>), Inr (row_request row, ts)))"
proof -
  have n: "usub (gen_max_new_tokens (aq_generation a)) (length (aq_generated a)) =
      Some (gen_max_new_tokens (aq_generation a) - length (aq_generated a))"
    "usub width 1 = Some (width - 1)" "usub (length ts) 1 = Some (length ts - 1)"
    "uadd (sc_drafted s) (width - 1) = Some (sc_drafted s + (width - 1))"
    "uadd (sc_accepted s) (length ts - 1) = Some (sc_accepted s + (length ts - 1))"
    using p by (auto simp: usub_def uadd_def Suc_le_eq)
  have swap: "a\<lparr>aq_history := aq_history a @ ts, aq_generated := aq_generated a @ ts\<rparr> = pushed a ts"
    by (simp add: pushed_def)
  show ?thesis
    unfolding verify_sequence_def prod.case p(1) a n p(3) Option.bind.simps Option.option.case Let_def
    using a kv1 kv2 p(4)
    by (simp add: lift_kv_def sched_then_def rassert_def swap pushed_fields ends_def) (simp add: set_active_def)
qed

text \<open>The step from the state in which the request has its tokens to the state after the row.\<close>

lemma verify_settle:
  assumes inv: "core_inv s Verify (row # rows) (Some b)" and a: "get_active s (row_request row) = Some a"
    and kv: "kv_inv (sc_kv s')" "kv_config (sc_kv s') = kv_config (sc_kv s)"
    and v: "seq_view (sc_kv s') = (seq_view (sc_kv s))(row_request row := e)"
    and g: "get_active s' = (get_active s)(row_request row := ao)" and ok: "om_ok (sc_active s')"
    and len: "length (sc_active s') \<le> length (sc_active s)" and or: "only_rows s s'"
    and slot: "slot (max_len s) e ao Verify None (Some b)"
  shows "core_inv s' Verify rows (Some b)"
proof (rule core_inv_step [OF inv kv ok, where r = "row_request row"])
  note D = core_invD [OF inv]
  note E = or [unfolded only_rows_def]
  have cf: "sc_config s' = sc_config s" "sc_prefill_chunk s' = sc_prefill_chunk s" "sc_speculative s' = sc_speculative s"
    "sc_pending s' = sc_pending s" "sc_next_request s' = sc_next_request s"
    using arg_cong [OF E, of sc_config] arg_cong [OF E, of sc_prefill_chunk] arg_cong [OF E, of sc_speculative]
      arg_cong [OF E, of sc_pending] arg_cong [OF E, of sc_next_request] by simp_all
  show "limits_ok s'" by (rule limits_mono [OF D(3) len kv(2) cf(1-3)])
  show "queue_ok s'" by (rule queue_mono [OF D(4) kv(2) cf(4,5)]) (use g a in \<open>auto split: if_splits\<close>)
  show "distinct (map row_request rows)" using D(5) by simp
  show "slot (max_len s') (seq_view (sc_kv s') (row_request row)) (get_active s' (row_request row)) Verify
      (row_of rows (row_request row)) (Some b)"
    using slot D(5) kv(2) by (simp add: v g row_of_None [THEN iffD2])
  show "seq_view (sc_kv s') r' = seq_view (sc_kv s) r' \<and> get_active s' r' = get_active s r' \<and>
      row_of rows r' = row_of (row # rows) r'" if "r' \<noteq> row_request row" for r'
    using that by (simp add: v g)
qed

lemma verify_sequence_ok:
  assumes inv: "core_inv s Verify (snd x # rows) (Some b)" and ok: "verifiable width argmax x" and sp: "sched_spare s (2 * max_len s)"
  shows "\<exists>s' a. get_active s (row_request (snd x)) = Some a \<and>
    verify_sequence h width argmax x s = Some (s', Inr (row_request (snd x), row_produced width argmax a x)) \<and>
    core_inv s' Verify rows (Some b) \<and>
    rows_frame (2 * max_len s) s s' ((get_active s)(row_request (snd x) := received a (row_produced width argmax a x)))
      (results (row_request (snd x)) a (row_produced width argmax a x))"
proof -
  obtain i row where x: "x = (i, row)" by (cases x)
  let ?r = "row_request row"
  note D = core_invD [OF inv]
  obtain a c n where a: "get_active s ?r = Some a" "request_ok (max_len s) a"
    "seq_view (sc_kv s) ?r = Some (c, Some (row_reservation row, n))" "length (row_tokens row) \<le> n" "row_ok Verify (aq_history a) c row"
    using row_active [OF inv, of row] by (auto simp: x)
  define ts where "ts = row_produced width argmax a x"
  have tok: "row_tokens (snd x) \<noteq> []" using a(5) by (simp add: row_ok_def x)
  note P = row_produced_ok [OF ok tok a(2), folded ts_def]
  have w: "length (row_tokens row) = width" "1 \<le> width" using ok tok by (auto simp: verifiable_def x Suc_le_eq)
  have nb: "n \<le> max_len s" using view_pending [OF D(1) a(3)] by auto
  have lt: "0 < length ts" "length ts \<le> n" "length ts \<le> max_len s" "width \<le> max_len s" using P(3,4) a(4) w nb by (auto simp: x)
  have kvsp: "kv_spare (sc_kv s) (max_len s + max_len s)" using sp by (simp add: sched_spare_def mult_2)
  obtain kv1 y where kv1: "commit_append_partial (sc_kv s) (row_reservation row) (length ts) = Some (kv1, Inr y)"
    "kv_to (max_len s) (sc_kv s) kv1 ((seq_view (sc_kv s))(?r \<mapsto> (c + length ts, None)))"
    using partial_view [OF D(1) a(3) lt(1,2) spare_mono [OF kvsp]] by auto
  note K1 = kv_toD [OF kv1(2)]
  obtain kv2 where kv2: "register_prefix h kv1 ?r (aq_history a @ ts) = Some (kv2, Inr ())" "kv_to 0 kv1 kv2 (seq_view kv1)"
    using register_view [OF K1(1), of ?r "c + length ts" None h "aq_history a @ ts"] K1(4) by auto
  note K2 = kv_toD [OF kv2(2)]
  let ?u = "s\<lparr>sc_drafted := sc_drafted s + (width - 1), sc_accepted := sc_accepted s + (length ts - 1)\<rparr>"
  let ?t = "(set_active ?u ?r (pushed a ts))\<lparr>sc_kv := kv2\<rparr>"
  have room: "sc_drafted s + width < usize_lim" "sc_accepted s + length ts < usize_lim" using sp lt by (auto simp: sched_spare_def)
  have eq: "verify_sequence h width argmax x s = (if ends a ts
      then sched_then (retire ?t ?r (pushed a ts) (last ts \<in> aq_eos a)) (\<lambda>s _. Some (s, Inr (?r, ts)))
      else Some (set_active ?t ?r ((pushed a ts)\<lparr>aq_phase := AwaitingDecode (last ts)\<rparr>), Inr (?r, ts)))"
    using verify_sequence_eq [OF a(1) P(1) [unfolded x fst_conv] _ P(2) [unfolded x fst_conv snd_conv] P(3) w(2) room kv1(1) kv2(1) D(2)] a(2)
    by (simp add: x request_ok_def Let_def)
  have vt: "seq_view kv2 = (seq_view (sc_kv s))(?r \<mapsto> (c + length ts, None))" using K1(4) K2(4) by simp
  have ct: "kv_config kv2 = kv_config (sc_kv s)" "kv_spent (max_len s) (sc_kv s) kv2"
    using K1(2) K2(2) kv_spent_trans [OF K1(3) K2(3)] by simp_all
  show ?thesis
  proof (cases "ends a ts")
    case False
    let ?a = "(pushed a ts)\<lparr>aq_phase := AwaitingDecode (last ts)\<rparr>"
    let ?s' = "set_active ?t ?r ?a"
    have rc: "received a ts = Some ?a" using False by (simp add: received_def)
    have g: "get_active ?s' = (get_active s)(?r \<mapsto> ?a)" using D(2) by (auto simp: fun_eq_iff get_active_def set_active_def)
    have om: "om_ok (sc_active ?s')" using D(2) by (simp add: set_active_def)
    have len: "length (sc_active ?s') \<le> length (sc_active s)"
      using a(1) D(2) by (simp add: set_active_def length_om_insert get_active_def)
    have only: "only_rows s ?s'" by (simp add: only_rows_def set_active_def)
    have "slot (max_len s) (Some (c + length ts, None)) (Some ?a) Verify None (Some b)"
      using request_ok_received [OF a(2) rc] a(5) lt(1) by (simp add: slot_def at_rest_def row_ok_def tokens_ok_def)
    then have "core_inv ?s' Verify rows (Some b)"
      using verify_settle [OF inv [unfolded x snd_conv] a(1) _ _ _ g om len only, of "Some (c + length ts, None)"] K2(1) vt ct(1) by simp
    moreover have "rows_frame (2 * max_len s) s ?s' ((get_active s)(?r := received a ts)) (results ?r a ts)"
      unfolding rows_frame_def g rc using ct False lt kv_spent_mono [OF ct(2), of "2 * max_len s"]
      by (intro conjI only) (simp_all add: results_def)
    ultimately show ?thesis using a(1) eq False by (auto simp: x ts_def [symmetric, unfolded x])
  next
    case True
    have "kv_spare kv2 (max_len s)" using spare_spent [OF kvsp ct(2)] .
    then obtain kv' where kv': "retire ?t ?r (pushed a ts) (last ts \<in> aq_eos a) = Some (?t\<lparr>sc_active := om_remove ?r (sc_active ?t), sc_kv := kv',
        sc_finished := sc_finished ?t @ [\<lparr>fg_request = ?r, fg_prompt = aq_prompt (pushed a ts), fg_generated = aq_generated (pushed a ts),
          fg_stopped_on_eos = (last ts \<in> aq_eos a)\<rparr>]\<rparr>, Inr ())"
      "kv_to (max_len s) kv2 kv' ((seq_view kv2)(?r := None))"
      using retire_ok [of ?t ?r "c + length ts" "pushed a ts" "last ts \<in> aq_eos a"] K2(1) vt ct(1) by auto
    note K = kv_toD [OF kv'(2)]
    let ?s' = "?t\<lparr>sc_active := om_remove ?r (sc_active ?t), sc_kv := kv', sc_finished := sc_finished s @ [finished_as ?r a ts]\<rparr>"
    have g: "get_active ?s' = (get_active s)(?r := None)" using D(2) by (auto simp: fun_eq_iff get_active_def set_active_def)
    have om: "om_ok (sc_active ?s')" using D(2) by (simp add: set_active_def)
    have len: "length (sc_active ?s') \<le> length (sc_active s)"
      using length_om_remove [of "sc_active ?t" ?r] a(1) D(2) by (simp add: set_active_def length_om_insert get_active_def)
    have only: "only_rows s ?s'" by (simp add: only_rows_def set_active_def)
    have "core_inv ?s' Verify rows (Some b)"
      using verify_settle [OF inv [unfolded x snd_conv] a(1) _ _ _ g om len only, of None] K ct(1) vt by (simp add: slot_def)
    moreover have "rows_frame (2 * max_len s) s ?s' ((get_active s)(?r := received a ts)) (results ?r a ts)"
      unfolding rows_frame_def g using K(2) ct True lt kv_spent_trans [OF ct(2) K(3)]
      by (intro conjI only) (simp_all add: results_def received_def mult_2)
    moreover have "verify_sequence h width argmax x s = Some (?s', Inr (?r, ts))"
      using eq True kv'(1) by (simp add: sched_then_def finished_as_def pushed_fields)
    ultimately show ?thesis using a(1) by (auto simp: x ts_def [symmetric, unfolded x])
  qed
qed

subsection \<open>The batch\<close>

lemma foldr_Cons: "foldr (#) xs [] = xs"
  by (induction xs) simp_all

interpretation vr: completion_loop "verify_sequence h width argmax" "verify_rows h width argmax" "[]" "(#)" snd "verifiable width argmax"
    "\<lambda>s rows. core_inv s Verify rows (Some b)" "\<lambda>a x. received a (row_produced width argmax a x)"
    "\<lambda>a x. results (row_request (snd x)) a (row_produced width argmax a x)"
    "\<lambda>a x. (row_request (snd x), row_produced width argmax a x)" 2 for h width argmax b
  by unfold_locales (simp_all add: core_invD(5) verify_sequence_ok)

text \<open>The requests, the results and the report of a verified batch.\<close>

definition verify_next :: "'smp scheduler \<Rightarrow> scheduled_batch \<Rightarrow> token list \<Rightarrow> request_id \<Rightarrow> 'smp active_request option" where
  "verify_next s batch argmax =
     rows_next snd (\<lambda>a x. received a (row_produced (next_n batch) argmax a x)) (get_active s) (enumerate 0 (bt_sequences batch))"

definition verify_results :: "'smp scheduler \<Rightarrow> scheduled_batch \<Rightarrow> token list \<Rightarrow> finished_generation list" where
  "verify_results s batch argmax =
     rows_out snd (\<lambda>a x. results (row_request (snd x)) a (row_produced (next_n batch) argmax a x)) (get_active s)
       (enumerate 0 (bt_sequences batch))"

definition verify_report :: "'smp scheduler \<Rightarrow> scheduled_batch \<Rightarrow> token list \<Rightarrow> (request_id \<times> token list) list" where
  "verify_report s batch argmax =
     rows_out snd (\<lambda>a x. [(row_request (snd x), row_produced (next_n batch) argmax a x)]) (get_active s)
       (enumerate 0 (bt_sequences batch))"

lemma complete_verify_batch_ok:
  assumes inv: "sched_inv s" and fl: "sc_in_flight s = Some batch" and kind: "bt_kind batch = Verify"
    and sp: "sched_spare s (complete_cost s)" and len: "length argmax = length (bt_sequences batch) * next_n batch"
  shows "\<exists>s'. complete_verify_batch h s (bt_id batch) argmax = Some (s', Inr (verify_report s batch argmax)) \<and> sched_inv s' \<and>
    rows_frame (complete_cost s) (s\<lparr>sc_in_flight := None\<rparr>) s' (verify_next s batch argmax) (verify_results s batch argmax)"
proof -
  let ?t = "s\<lparr>sc_in_flight := None\<rparr>" and ?xs = "enumerate 0 (bt_sequences batch)" and ?w = "next_n batch"
  note I = in_flight_inv [OF inv fl]
  have cost: "length ?xs * (2 * max_len s) \<le> complete_cost s" using I(3) by (simp add: complete_cost_def)
  have ok: "verifiable ?w argmax x" if "x \<in> set ?xs" for x
  proof -
    have m: "fst x < length (bt_sequences batch)" "snd x \<in> set (bt_sequences batch)"
      using that nth_mem [of "fst x" "bt_sequences batch"] by (auto simp: in_set_enumerate_eq)
    have "Suc (fst x) * ?w \<le> length (bt_sequences batch) * ?w" using m(1) by (intro mult_right_mono) auto
    then show ?thesis using m(2) I(2) len by (simp add: verifiable_def batch_ok_def)
  qed
  obtain s' where s': "verify_rows h ?w argmax ?xs ?t = Some (s', Inr (foldr (#) (verify_report s batch argmax) []))"
    "core_inv s' Verify [] (Some (bt_id batch))"
    "rows_frame (length ?xs * (2 * max_len s)) ?t s' (verify_next s batch argmax) (verify_results s batch argmax)"
    using vr.completes [of ?t ?xs "bt_id batch" ?w argmax h] I(1) kind ok sched_spare_mono [OF sp cost]
    by (simp add: verify_report_def verify_next_def verify_results_def) blast
  have um: "umul (batch_size batch) ?w = Some (length (bt_sequences batch) * ?w)"
  proof -
    have "length (bt_sequences batch) * ?w < usize_lim" using I(2) inv by (simp add: batch_ok_def sched_inv_def)
    then show ?thesis by (simp add: umul_def batch_size_def)
  qed
  have "complete_verify_batch h s (bt_id batch) argmax = Some (s', Inr (verify_report s batch argmax))"
    using fl kind len um s'(1) foldr_Cons [of "verify_report s batch argmax"]
    by (simp add: complete_verify_batch_def take_batch_def sched_then_def Let_def umul_def batch_size_def)
  moreover have "sched_inv s'"
    using core_inv_idle [OF s'(2)] rows_frameD(7,11) [OF s'(3)] inv by (simp add: sched_inv_def)
  ultimately show ?thesis using rows_frame_mono [OF s'(3) cost] by blast
qed

end
