(* ===== verification/Batch_Sched_Life.thy ===== *)
theory Batch_Sched_Life
  imports Batch_Sched_Verify
begin

text \<open>
  The other operations of the scheduler: a failed batch gives its reservations back and restores
  its requests, submission and cancellation, the settings and the construction.
\<close>

subsection \<open>Failing a batch\<close>

definition restored :: "batch_kind \<Rightarrow> scheduled_sequence \<Rightarrow> 'smp active_request \<Rightarrow> 'smp active_request" where
  "restored kind row a = a\<lparr>aq_phase := source_phase kind (row_tokens row)\<rparr>"

definition restore_next :: "batch_kind \<Rightarrow> scheduled_sequence list \<Rightarrow> (request_id \<Rightarrow> 'smp active_request option) \<Rightarrow> request_id \<Rightarrow>
    'smp active_request option" where
  "restore_next kind rows g r = (case row_of rows r of None \<Rightarrow> g r | Some row \<Rightarrow> map_option (restored kind row) (g r))"

lemma restore_rows_ok:
  assumes "om_ok (sc_active s)" "distinct (map row_request rows)"
    "\<And>row. row \<in> set rows \<Longrightarrow> get_active s (row_request row) \<noteq> None \<and>
      restore_phase kind row = Some (source_phase kind (row_tokens row))"
  shows "\<exists>act. mfold (restore_row kind) rows s = Some (s\<lparr>sc_active := act\<rparr>) \<and> om_ok act \<and>
    map fst act = map fst (sc_active s) \<and> map_of act = restore_next kind rows (get_active s)"
  using assms
proof (induction rows arbitrary: s)
  case Nil
  then show ?case by (intro exI [of _ "sc_active s"]) (simp add: restore_next_def get_active_def fun_eq_iff)
next
  case (Cons row rows)
  let ?r = "row_request row"
  obtain a where a: "get_active s ?r = Some a" using Cons.prems(3) [of row] by auto
  let ?s1 = "set_active s ?r (restored kind row a)"
  have ok: "om_ok (sc_active ?s1)" using Cons.prems(1) by (simp add: set_active_def)
  have g: "get_active ?s1 r = (if r = ?r then Some (restored kind row a) else get_active s r)" for r
    using Cons.prems(1) by simp
  have rest: "get_active ?s1 (row_request row') \<noteq> None \<and> restore_phase kind row' = Some (source_phase kind (row_tokens row'))"
    if "row' \<in> set rows" for row'
    using Cons.prems(3) [of row'] that by (simp add: g)
  obtain act where act: "mfold (restore_row kind) rows ?s1 = Some (?s1\<lparr>sc_active := act\<rparr>)" "om_ok act"
    "map fst act = map fst (sc_active ?s1)" "map_of act = restore_next kind rows (get_active ?s1)"
    using Cons.IH [OF ok _ rest] Cons.prems(2) by auto
  have "map fst (sc_active ?s1) = map fst (sc_active s)"
    using a Cons.prems(1) map_fst_om_insert [of "sc_active s" ?r] by (simp add: set_active_def get_active_def)
  moreover have "?s1\<lparr>sc_active := act\<rparr> = s\<lparr>sc_active := act\<rparr>" by (simp add: set_active_def)
  moreover have "mfold (restore_row kind) (row # rows) s = Some (?s1\<lparr>sc_active := act\<rparr>)"
    using act(1) a Cons.prems(3) [of row] by (simp add: restore_row_def restored_def)
  moreover have "row_of rows ?r = None" using Cons.prems(2) by (simp add: row_of_None)
  then have "map_of act = restore_next kind (row # rows) (get_active s)"
    unfolding act(4) by (auto simp: restore_next_def g a fun_eq_iff split: option.splits)
  ultimately show ?case using act(2,3) by (intro exI [of _ act]) simp
qed

lemma restored_simps [simp]:
  "aq_history (restored kind row a) = aq_history a" "aq_phase (restored kind row a) = source_phase kind (row_tokens row)"
  "request_ok lim (restored kind row a) = request_ok lim a"
  by (simp_all add: restored_def request_ok_def)

text \<open>
  A failed batch: every row loses its reservation and keeps its cached tokens, its request has the
  phase it had before the batch, and everything else is as it was.
\<close>

lemma fail_batch_ok:
  assumes inv: "sched_inv s" and fl: "sc_in_flight s = Some batch" and sp: "sched_spare s (complete_cost s)"
  shows "\<exists>s'. fail_batch s (bt_id batch) = Some (s', Inr ()) \<and> sched_inv s' \<and>
    rows_frame (complete_cost s) (s\<lparr>sc_in_flight := None\<rparr>) s' (restore_next (bt_kind batch) (bt_sequences batch) (get_active s)) [] \<and>
    (\<forall>r. map_option fst (seq_view (sc_kv s') r) = map_option fst (seq_view (sc_kv s) r)) \<and>
    map fst (sc_active s') = map fst (sc_active s)"
proof -
  let ?rows = "bt_sequences batch" and ?k = "bt_kind batch" and ?t = "s\<lparr>sc_in_flight := None\<rparr>"
  let ?rids = "map row_reservation ?rows"
  note I = in_flight_inv [OF inv fl]
  note D = core_invD [OF I(1)]
  have cost: "length ?rows * max_len s \<le> complete_cost s" using I(3) unfolding complete_cost_def by linarith
  have kvsp: "kv_spare (sc_kv s) (length ?rids * max_len s)" using sched_spare_mono [OF sp cost] by (simp add: sched_spare_def)
  have "\<exists>r c n. seq_view (sc_kv s) r = Some (c, Some (rid, n))" if "rid \<in> set ?rids" for rid
    using that row_active [OF I(1)] by fastforce
  then obtain kv' where kv': "cancel_appends (sc_kv s) ?rids = Some (kv', Inr ())"
    "kv_to (length ?rids * max_len s) (sc_kv s) kv' (settle_view (\<lambda>c rid. if rid \<in> set ?rids then Some c else None) (seq_view (sc_kv s)))"
    using cancel_group_view [OF D(1) reservations_distinct [OF I(1)] _ kvsp] by blast
  note K = kv_toD [OF kv'(2)]
  let ?u = "?t\<lparr>sc_kv := kv'\<rparr>"
  have rw: "get_active ?u (row_request row) \<noteq> None \<and> restore_phase ?k row = Some (source_phase ?k (row_tokens row))"
    if "row \<in> set ?rows" for row
    using row_active [OF I(1) that] row_rest by auto
  obtain act where act: "mfold (restore_row ?k) ?rows ?u = Some (?u\<lparr>sc_active := act\<rparr>)" "om_ok act"
    "map fst act = map fst (sc_active s)" "map_of act = restore_next ?k ?rows (get_active s)"
    using restore_rows_ok [of ?u ?rows ?k] D(2,5) rw by auto
  let ?s' = "?u\<lparr>sc_active := act\<rparr>"
  have g: "get_active ?s' = restore_next ?k ?rows (get_active s)" using act(4) by (simp add: get_active_def [abs_def])
  have len: "length (sc_active ?s') = length (sc_active s)" using arg_cong [OF act(3), of length] by simp
  have slot': "slot (max_len ?s') (seq_view (sc_kv ?s') r) (get_active ?s' r) Prefill None None" for r
  proof (cases "row_of ?rows r")
    case None
    then have "slot (max_len s) (seq_view (sc_kv s) r) (get_active s r) ?k None (Some (bt_id batch))" using D(6) [of r] by simp
    then show ?thesis
      unfolding g restore_next_def None using K(2,4)
      by (cases "get_active s r") (auto simp: slot_def settle_view_def split: option.splits)
  next
    case (Some row)
    then have row: "row \<in> set ?rows" "row_request row = r" using row_of_Some by auto
    obtain a c n where a: "get_active s r = Some a" "request_ok (max_len s) a"
      "seq_view (sc_kv s) r = Some (c, Some (row_reservation row, n))" "row_ok ?k (aq_history a) c row"
      using row_active [OF I(1) row(1)] unfolding row(2) by auto
    have "seq_view kv' r = Some (c, None)" using K(4) a(3) row(1) by (simp add: settle_view_def)
    then show ?thesis
      unfolding g restore_next_def Some using a K(2) row_rest [OF a(4)] by (simp add: slot_def)
  qed
  have "core_inv ?s' Prefill [] None"
    unfolding core_inv_def
  proof (intro conjI allI)
    show "limits_ok ?s'" by (rule limits_mono [OF D(3)]) (use K(2) len in simp_all)
    show "queue_ok ?s'" by (rule queue_mono [OF D(4)]) (use K(2) in \<open>simp_all add: g restore_next_def split: option.splits\<close>)
  qed (use K(1) act(2) slot' in simp_all)
  then have "sched_inv ?s'" using inv by (simp add: sched_inv_def)
  moreover have "fail_batch s (bt_id batch) = Some (?s', Inr ())"
    using fl rows_owned(2) [of ?t ?k ?rows "bt_id batch"] I(1) kv'(1) act(1)
    by (simp add: fail_batch_def take_batch_def sched_then_def lift_kv_def)
  moreover have "rows_frame (complete_cost s) ?t ?s' (restore_next ?k ?rows (get_active s)) []"
    unfolding rows_frame_def g using K(2) kv_spent_mono [OF K(3), of "complete_cost s"] cost by (simp add: only_rows_def)
  moreover have "map_option fst (seq_view kv' r) = map_option fst (seq_view (sc_kv s) r)" for r
    unfolding K(4) by (auto simp: settle_view_def split: option.splits)
  ultimately show ?thesis using act(3) by auto
qed

text \<open>Failing the batch that was just planned gives every request back as it was.\<close>

lemma restore_planned:
  assumes "planned_from s s' batch"
  shows "restore_next (bt_kind batch) (bt_sequences batch) (get_active s') = get_active s"
proof
  fix r
  obtain x y where p: "planned (flagged s x y) (flagged s' x y) batch" using assms by (auto simp: planned_from_def)
  then have g: "get_active s' r = (if row_of (bt_sequences batch) r = None then get_active s r
      else map_option (mark (bt_id batch)) (get_active s r))"
    by (auto simp: planned_def)
  show "restore_next (bt_kind batch) (bt_sequences batch) (get_active s') r = get_active s r"
  proof (cases "row_of (bt_sequences batch) r")
    case (Some row)
    then have row: "row \<in> set (bt_sequences batch)" "row_request row = r" using row_of_Some by auto
    then obtain a where "get_active s r = Some a" "aq_phase a = source_phase (bt_kind batch) (row_tokens row)"
      using p by (auto simp: planned_def)
    then show ?thesis using g Some by (simp add: restore_next_def restored_def mark_def)
  qed (simp add: restore_next_def g)
qed

subsection \<open>Cancelling a request\<close>

definition removed :: "'smp scheduler \<Rightarrow> request_id \<Rightarrow> 'smp scheduler \<Rightarrow> bool" where
  "removed s r s' \<longleftrightarrow> get_active s' = (get_active s)(r := None) \<and> sc_pending s' = filter (\<lambda>p. pr_id p \<noteq> r) (sc_pending s) \<and>
     kv_config (sc_kv s') = kv_config (sc_kv s) \<and>
     s' = s\<lparr>sc_kv := sc_kv s', sc_active := sc_active s', sc_pending := sc_pending s', sc_deferred := sc_deferred s'\<rparr>"

lemma removed_facts:
  assumes "removed s r s'"
  shows "get_active s' = (get_active s)(r := None)" "sc_pending s' = filter (\<lambda>p. pr_id p \<noteq> r) (sc_pending s)"
    "kv_config (sc_kv s') = kv_config (sc_kv s)" "sc_finished s' = sc_finished s" "sc_config s' = sc_config s"
    "sc_prefill_chunk s' = sc_prefill_chunk s" "sc_speculative s' = sc_speculative s" "sc_options s' = sc_options s"
    "sc_next_request s' = sc_next_request s" "sc_in_flight s' = sc_in_flight s"
proof -
  have E: "s' = s\<lparr>sc_kv := sc_kv s', sc_active := sc_active s', sc_pending := sc_pending s', sc_deferred := sc_deferred s'\<rparr>"
    using assms unfolding removed_def by blast
  show "sc_finished s' = sc_finished s" "sc_config s' = sc_config s" "sc_prefill_chunk s' = sc_prefill_chunk s"
    "sc_speculative s' = sc_speculative s" "sc_options s' = sc_options s" "sc_next_request s' = sc_next_request s"
    "sc_in_flight s' = sc_in_flight s"
    using arg_cong [OF E, of sc_in_flight] arg_cong [OF E, of sc_finished] arg_cong [OF E, of sc_config] arg_cong [OF E, of sc_prefill_chunk]
      arg_cong [OF E, of sc_speculative] arg_cong [OF E, of sc_options] arg_cong [OF E, of sc_next_request] by simp_all
qed (use assms in \<open>auto simp: removed_def\<close>)

lemma remove_position:
  assumes "position (\<lambda>x. f x = k) xs = Some i" "distinct (map f xs)"
  shows "vec_remove xs i = Some (xs ! i, filter (\<lambda>x. f x \<noteq> k) xs) \<and> f (xs ! i) = k"
  using assms
proof (induction xs arbitrary: i)
  case (Cons x xs)
  show ?case
  proof (cases "f x = k")
    case True
    then have "filter (\<lambda>x. f x \<noteq> k) xs = xs" using Cons.prems(2) by (auto simp: filter_id_conv image_iff)
    then show ?thesis using True Cons.prems by (simp add: vec_remove_def)
  next
    case False
    then obtain j where j: "position (\<lambda>x. f x = k) xs = Some j" "i = Suc j" using Cons.prems(1) by auto
    then have "vec_remove xs j = Some (xs ! j, filter (\<lambda>x. f x \<noteq> k) xs) \<and> f (xs ! j) = k"
      using Cons.IH [of j] Cons.prems(2) by simp
    then show ?thesis using False j by (auto simp: vec_remove_def split: if_splits)
  qed
qed simp

lemma core_inv_in_flight:
  fixes s :: "'smp scheduler"
  assumes "sched_inv s"
  shows "\<exists>kind rows b. core_inv s kind rows b \<and> (b = None \<longrightarrow> rows = []) \<and>
    (\<forall>s' :: 'smp scheduler. core_inv s' kind rows b \<longrightarrow> sc_in_flight s' = sc_in_flight s \<longrightarrow> sc_next_batch s' = sc_next_batch s \<longrightarrow>
      sc_config s' = sc_config s \<longrightarrow> sched_inv s')"
proof (cases "sc_in_flight s")
  case None
  then have "core_inv s Prefill [] None" using assms by (simp add: sched_inv_def)
  then show ?thesis using assms None by (auto simp: sched_inv_def)
next
  case (Some batch)
  then have "batch_ok s batch" using assms by (simp add: sched_inv_def)
  then show ?thesis using assms Some by (intro exI [of _ "bt_kind batch"] exI [of _ "bt_sequences batch"] exI [of _ "Some (bt_id batch)"])
    (auto simp: sched_inv_def batch_ok_def)
qed

lemma queue_removed:
  assumes "queue_ok s" "removed s r s'"
  shows "queue_ok s'"
  using assms(1) unfolding queue_ok_def removed_facts(1-3,9) [OF assms(2)] by (auto simp: distinct_map_filter)

lemma budget_mono:
  assumes bud: "budget_ok s" and ok: "om_ok (sc_active s)" "om_ok (sc_active s')"
    and same: "kv_config (sc_kv s') = kv_config (sc_kv s)" "sc_options s' = sc_options s" "set (sc_pending s') \<subseteq> set (sc_pending s)"
    and act: "\<And>r a'. get_active s' r = Some a' \<Longrightarrow>
      \<exists>a. get_active s r = Some a \<and> aq_prompt a' = aq_prompt a \<and> aq_generation a' = aq_generation a"
  shows "budget_ok s'"
proof -
  let ?b = "\<lambda>s r. budget (block s) (the (get_active s r))"
  have "budget_sum s' = (\<Sum>r \<in> dom (get_active s'). ?b s' r)" by (rule budget_sum_get [OF ok(2)])
  also have "\<dots> = (\<Sum>r \<in> dom (get_active s'). ?b s r)"
    using act same(1) by (intro sum.cong) (fastforce simp: budget_def)+
  also have "\<dots> \<le> (\<Sum>r \<in> dom (get_active s). ?b s r)"
    using act by (intro sum_mono2 finite_active) (auto simp: dom_def)
  also have "\<dots> = budget_sum s" by (rule budget_sum_get [OF ok(1), symmetric])
  finally show ?thesis using bud same by (auto simp: budget_ok_def)
qed

lemma removed_ok:
  assumes inv: "core_inv s kind rows b" and rm: "removed s r s'" and row: "row_of rows r = None"
    and kv: "kv_inv (sc_kv s')" "seq_view (sc_kv s') = (seq_view (sc_kv s))(r := None)"
    and om: "om_ok (sc_active s')" "length (sc_active s') \<le> length (sc_active s)"
  shows "core_inv s' kind rows b" "budget_ok s \<Longrightarrow> budget_ok s'"
proof -
  note D = core_invD [OF inv]
  note R = removed_facts [OF rm]
  show "core_inv s' kind rows b"
  proof (rule core_inv_step [OF inv kv(1) R(3) om(1), where r = r])
    show "limits_ok s'" by (rule limits_mono [OF D(3) om(2) R(3) R(5-7)])
    show "queue_ok s'" by (rule queue_removed [OF D(4) rm])
  qed (use D(5) row in \<open>simp_all add: kv(2) R(1) slot_def\<close>)
  show "budget_ok s'" if "budget_ok s"
    by (rule budget_mono [OF that D(2) om(1) R(3,8)]) (auto simp: R(1,2) split: if_splits)
qed

text \<open>
  A cancellation has three answers: the request is in a batch and stays, it is unknown, or it is
  gone from the queue, the active map and the KV cache.
\<close>

lemma cancel_ok:
  fixes s :: "'a scheduler"
  assumes inv: "sched_inv s" and sp: "kv_spare (sc_kv s) (max_len s)"
  shows "(\<exists>s' c. cancel s r = Some (s', Inr (Some c)) \<and> cg_request c = r \<and> removed s r s' \<and> sched_inv s' \<and>
      (budget_ok s \<longrightarrow> budget_ok s') \<and> (r \<in> pr_id ` set (sc_pending s) \<or> get_active s r \<noteq> None) \<and> kv_spent (max_len s) (sc_kv s) (sc_kv s')) \<or>
    cancel s r = Some (s, Inr None) \<and> r \<notin> pr_id ` set (sc_pending s) \<and> get_active s r = None \<or>
    (\<exists>b a. cancel s r = Some (s, Inl (CancelInFlight r b)) \<and> get_active s r = Some a \<and> aq_phase a = InFlight b)"
proof -
  obtain kind rows b where core: "core_inv s kind rows b" and none: "b = None \<Longrightarrow> rows = []"
    and up: "\<And>s' :: 'a scheduler. core_inv s' kind rows b \<Longrightarrow> sc_in_flight s' = sc_in_flight s \<Longrightarrow> sc_next_batch s' = sc_next_batch s \<Longrightarrow>
      sc_config s' = sc_config s \<Longrightarrow> sched_inv s'"
    using core_inv_in_flight [OF inv] by blast
  note D = core_invD [OF core]
  show ?thesis
  proof (cases "position (\<lambda>p. pr_id p = r) (sc_pending s)")
    case (Some i)
    have i: "vec_remove (sc_pending s) i = Some (sc_pending s ! i, filter (\<lambda>p. pr_id p \<noteq> r) (sc_pending s))"
      using remove_position [of pr_id r, OF Some] D(4) by (simp add: queue_ok_def)
    have mem: "r \<in> pr_id ` set (sc_pending s)" using position_Some [OF Some] by force
    then have ga: "get_active s r = None" using D(4) by (auto simp: queue_ok_def)
    let ?s' = "s\<lparr>sc_pending := filter (\<lambda>p. pr_id p \<noteq> r) (sc_pending s), sc_deferred := sc_deferred s - {r}\<rparr>"
    have rm: "removed s r ?s'" using ga by (auto simp: removed_def fun_eq_iff)
    have v: "row_of rows r = None" "seq_view (sc_kv s) r = None" using D(6) [of r] ga by (simp_all add: slot_def)
    note R = removed_ok [OF core rm v(1)]
    have "core_inv ?s' kind rows b" "budget_ok s \<Longrightarrow> budget_ok ?s'" using R D(1,2) v(2) by (auto simp: fun_eq_iff)
    then show ?thesis using Some i mem rm up [of ?s'] by (auto simp: cancel_def kv_spent_def)
  next
    case None
    then have nm: "r \<notin> pr_id ` set (sc_pending s)" by (auto simp: position_None)
    show ?thesis
    proof (cases "get_active s r")
      case None
      with \<open>position _ _ = None\<close> nm show ?thesis by (simp add: cancel_def)
    next
      case (Some a)
      show ?thesis
      proof (cases "\<exists>b. aq_phase a = InFlight b")
        case True
        with Some \<open>position _ _ = None\<close> show ?thesis by (auto simp: cancel_def)
      next
        case False
        have row: "row_of rows r = None"
        proof (cases "row_of rows r")
          case (Some row)
          then show ?thesis using none D(6) [of r] \<open>get_active s r = Some a\<close> False
            by (cases b) (auto simp: slot_def split: option.splits)
        qed
        then obtain c where v: "seq_view (sc_kv s) r = Some (c, None)"
          using D(6) [of r] Some by (auto simp: slot_def split: option.splits)
        obtain kv' where kv': "remove_sequence (sc_kv s) r = Some (kv', Inr ())"
          "kv_to (max_len s) (sc_kv s) kv' ((seq_view (sc_kv s))(r := None))"
          using remove_view [OF D(1) v sp] by auto
        note K = kv_toD [OF kv'(2)]
        let ?s' = "s\<lparr>sc_kv := kv', sc_active := om_remove r (sc_active s), sc_deferred := sc_deferred s - {r}\<rparr>"
        have pend: "filter (\<lambda>p. pr_id p \<noteq> r) (sc_pending s) = sc_pending s" using nm by (auto simp: filter_id_conv)
        have g: "get_active ?s' = (get_active s)(r := None)" by (simp add: get_active_def fun_eq_iff)
        have rm: "removed s r ?s'" using K(2) pend g by (simp add: removed_def)
        have om: "om_ok (sc_active ?s')" "length (sc_active ?s') \<le> length (sc_active s)" using D(2) length_om_remove by simp_all
        note R = removed_ok [OF core rm row _ _ om]
        have "core_inv ?s' kind rows b" "budget_ok s \<Longrightarrow> budget_ok ?s'" using R K by auto
        moreover have "cancel s r = Some (?s', Inr (Some \<lparr>cg_request = r, cg_prompt = aq_prompt a, cg_generated = aq_generated a\<rparr>))"
          using \<open>position _ _ = None\<close> Some False kv'(1)
          by (cases "aq_phase a") (simp_all add: cancel_def lift_kv_def sched_then_def)
        ultimately show ?thesis using rm up [of ?s'] Some K(3) by (auto simp del: get_active_fields)
      qed
    qed
  qed
qed

subsection \<open>Reserving ahead\<close>

text \<open>
  A decode batch may extend its reservations for tokens to come.  An extension that does not fit is
  an error that leaves the cache as it is; the rows stay valid in both cases.
\<close>

definition extended :: "'smp scheduler \<Rightarrow> batch_kind \<Rightarrow> scheduled_sequence list \<Rightarrow> nat option \<Rightarrow> ('smp, 'a) sched_result \<Rightarrow> bool" where
  "extended s kind rows b res \<longleftrightarrow> (\<exists>kv' v. res = Some (s\<lparr>sc_kv := kv'\<rparr>, v) \<and> core_inv (s\<lparr>sc_kv := kv'\<rparr>) kind rows b \<and>
     kv_config kv' = kv_config (sc_kv s) \<and> kv_spent 0 (sc_kv s) kv')"

lemma extended_then:
  assumes "extended s kind rows b res" "\<And>kv' x. core_inv (s\<lparr>sc_kv := kv'\<rparr>) kind rows b \<Longrightarrow> extended (s\<lparr>sc_kv := kv'\<rparr>) kind rows b (f (s\<lparr>sc_kv := kv'\<rparr>) x)"
  shows "extended s kind rows b (sched_then res f)"
proof -
  obtain kv1 v where r: "res = Some (s\<lparr>sc_kv := kv1\<rparr>, v)" "core_inv (s\<lparr>sc_kv := kv1\<rparr>) kind rows b"
    "kv_config kv1 = kv_config (sc_kv s)" "kv_spent 0 (sc_kv s) kv1"
    using assms(1) by (auto simp: extended_def)
  show ?thesis
  proof (cases v)
    case (Inl e)
    then show ?thesis using r by (auto simp: extended_def sched_then_def)
  next
    case (Inr x)
    obtain kv2 w where "f (s\<lparr>sc_kv := kv1\<rparr>) x = Some (s\<lparr>sc_kv := kv2\<rparr>, w)" "core_inv (s\<lparr>sc_kv := kv2\<rparr>) kind rows b"
      "kv_config kv2 = kv_config kv1" "kv_spent 0 kv1 kv2"
      using assms(2) [OF r(2), of x] by (auto simp: extended_def)
    then show ?thesis using r Inr kv_spent_trans [OF r(4), of 0 kv2] by (auto simp: extended_def sched_then_def)
  qed
qed

lemma extended_self: "core_inv s kind rows b \<Longrightarrow> extended s kind rows b (Some (s, v))"
  by (auto simp: extended_def kv_spent_def intro!: exI [of _ "sc_kv s"])

lemma extend_row:
  assumes inv: "core_inv s kind rows (Some b)" and row: "row \<in> set rows"
  shows "extended s kind rows (Some b) (lift_kv s (extend_append (sc_kv s) (row_reservation row) extra))"
proof -
  note D = core_invD [OF inv]
  let ?r = "row_request row"
  obtain a c n where a: "get_active s ?r = Some a" "request_ok (max_len s) a" "seq_view (sc_kv s) ?r = Some (c, Some (row_reservation row, n))"
    "length (row_tokens row) \<le> n" "row_ok kind (aq_history a) c row" "aq_phase a = InFlight b"
    using row_active [OF inv row] by auto
  show ?thesis
  proof (cases "\<exists>e. extend_append (sc_kv s) (row_reservation row) extra = Some (sc_kv s, Inl e)")
    case True
    then show ?thesis using extended_self [OF inv] by (auto simp: lift_kv_def)
  next
    case False
    then obtain kv' ar where kv': "extend_append (sc_kv s) (row_reservation row) extra = Some (kv', Inr ar)"
      "kv_to 0 (sc_kv s) kv' ((seq_view (sc_kv s))(?r \<mapsto> (c, Some (row_reservation row, n + extra))))"
      using extend_view [OF D(1) a(3), of extra] by blast
    note K = kv_toD [OF kv'(2)]
    have "core_inv (s\<lparr>sc_kv := kv'\<rparr>) kind rows (Some b)"
      by (rule core_inv_step [OF inv, where r = ?r])
        (use D K a row_of_mem [OF D(5) row] in \<open>simp_all add: slot_def\<close>)
    then show ?thesis using kv'(1) K by (auto simp: extended_def lift_kv_def)
  qed
qed

lemma lookahead_row_ok:
  assumes inv: "core_inv s kind rows (Some b)" and row: "row \<in> set rows"
  shows "extended s kind rows (Some b) (lookahead_row wanted row pages reserved s)"
proof -
  note D = core_invD [OF inv]
  obtain a c n where a: "get_active s (row_request row) = Some a" "seq_view (sc_kv s) (row_request row) = Some (c, Some (row_reservation row, n))"
    "length (row_tokens row) \<le> n" "row_ok kind (aq_history a) c row"
    using row_active [OF inv row] by blast
  note C = config_okD [OF kv_invD(2) [OF D(1)]]
  have ctx: "row_context row \<le> max_len s" using view_pending [OF D(1) a(2)] a(3,4) by (auto simp: row_ok_def)
  let ?left = "max_len s - row_context row"
  let ?extra = "min (min (min wanted pages) (gen_max_new_tokens (aq_generation a) - length (aq_generated a) - 1)) ?left"
  have "row_context row + ?extra < usize_lim" using ctx C(4) by linarith
  then have arith: "usub (max_len s) (row_context row) = Some ?left" "uadd (row_context row) ?extra = Some (row_context row + ?extra)"
    "udiv_ceil (row_context row + ?extra) (block s) = Some (div_ceil (row_context row + ?extra) (block s))"
    using ctx C(1) by (simp_all add: usub_def uadd_def udiv_ceil_def)
  have ext: "extended s kind rows (Some b)
      (sched_then (lift_kv s (extend_append (sc_kv s) (row_reservation row) ?extra)) (\<lambda>s reservation.
        Some (s, Inr (pages - ?extra, om_insert (row_request row) reservation reserved))))"
    by (rule extended_then [OF extend_row [OF inv row]]) (rule extended_self)
  show ?thesis
    unfolding lookahead_row_def a(1) bind.bind_lunit Let_def arith
    by (cases "0 < ?extra \<and> div_ceil (row_context row + ?extra) (block s) - length (row_block_table row) \<le> free_page_count (sc_kv s)")
      (simp_all only: if_True if_False simp_thms ext extended_self [OF inv])
qed

lemma lookahead_loop_ok:
  assumes "core_inv s kind rows' (Some b)" "set rows \<subseteq> set rows'"
  shows "extended s kind rows' (Some b) (lookahead_loop wanted pages rows reserved s)"
  using assms
proof (induction rows arbitrary: s pages reserved)
  case Nil
  then show ?case by (simp add: extended_self)
next
  case (Cons row rows)
  show ?case
    unfolding lookahead_loop.simps
  proof (rule extended_then [OF lookahead_row_ok [OF Cons.prems(1)]])
    show "extended (s\<lparr>sc_kv := kv'\<rparr>) kind rows' (Some b)
        ((\<lambda>(pages, reserved). lookahead_loop wanted pages rows reserved (s\<lparr>sc_kv := kv'\<rparr>)) x)"
      if "core_inv (s\<lparr>sc_kv := kv'\<rparr>) kind rows' (Some b)" for kv' x
      using Cons.IH [OF that] Cons.prems(2) by (cases x) simp
  qed (use Cons.prems(2) in simp)
qed

lemma reserve_lookahead_ok:
  assumes inv: "sched_inv s" and fl: "sc_in_flight s = Some batch"
  shows "\<exists>kv' v. reserve_lookahead s batch wanted = Some (s\<lparr>sc_kv := kv'\<rparr>, v) \<and> sched_inv (s\<lparr>sc_kv := kv'\<rparr>) \<and>
    kv_config kv' = kv_config (sc_kv s) \<and> kv_spent 0 (sc_kv s) kv'"
proof -
  note I = in_flight_inv [OF inv fl]
  have "extended s (bt_kind batch) (bt_sequences batch) (Some (bt_id batch)) (reserve_lookahead s batch wanted)"
    unfolding reserve_lookahead_def
    by (split if_split) (intro conjI impI lookahead_loop_ok [OF I(1) subset_refl] extended_self [OF I(1)])
  then show ?thesis using inv fl I(2) unfolding extended_def by (force simp: sched_inv_def batch_ok_def)
qed

subsection \<open>Submitting a request\<close>

definition submitted :: "'smp scheduler \<Rightarrow> token list \<Rightarrow> generation_config \<Rightarrow> 'smp option \<Rightarrow> 'smp scheduler" where
  "submitted s prompt generation sampler =
     (if gen_max_new_tokens generation = 0
      then s\<lparr>sc_next_request := Suc (sc_next_request s), sc_finished := sc_finished s @
        [\<lparr>fg_request = RequestId (sc_next_request s), fg_prompt = prompt, fg_generated = [], fg_stopped_on_eos = False\<rparr>]\<rparr>
      else s\<lparr>sc_next_request := Suc (sc_next_request s), sc_pending := sc_pending s @
        [\<lparr>pr_id = RequestId (sc_next_request s), pr_prompt = prompt, pr_generation = generation, pr_sampler = sampler\<rparr>]\<rparr>)"

text \<open>The request as it is checked before it takes an id.\<close>

definition admissible :: "'smp scheduler \<Rightarrow> token list \<Rightarrow> generation_config \<Rightarrow> bool" where
  "admissible s prompt generation \<longleftrightarrow> prompt \<noteq> [] \<and> length prompt + gen_max_new_tokens generation \<le> max_len s \<and>
     (0 < gen_max_new_tokens generation \<longrightarrow> bo_kv_admission (sc_options s) = ReserveSequenceCapacity \<longrightarrow>
        div_ceil (length prompt + (gen_max_new_tokens generation - 1)) (block s) \<le> cf_num_pages (kv_config (sc_kv s)))"

lemma submit_cases:
  assumes kv: "kv_inv (sc_kv s)"
  shows "(\<exists>e. submit_with_sampler s prompt generation sampler = Some (s, Inl e)) \<or>
    submit_with_sampler s prompt generation sampler =
      Some (submitted s prompt generation sampler, Inr (RequestId (sc_next_request s))) \<and>
    admissible s prompt generation"
proof -
  have c: "0 < block s" "max_len s < usize_lim" using config_okD [OF kv_invD(2) [OF kv]] by auto
  have enq: "(\<exists>e. enqueue s prompt generation sampler = Some (s, Inl e)) \<or>
      enqueue s prompt generation sampler = Some (submitted s prompt generation sampler, Inr (RequestId (sc_next_request s)))"
    by (simp add: enqueue_def submitted_def Let_def)
  have req: "required_pages s prompt generation = Some (case bo_kv_admission (sc_options s) of
      OnDemand \<Rightarrow> div_ceil (length prompt) (block s)
    | ReserveSequenceCapacity \<Rightarrow> div_ceil (length prompt + (gen_max_new_tokens generation - 1)) (block s))"
    if "length prompt + gen_max_new_tokens generation < usize_lim"
    using c(1) request_page_budget_ok [OF c(1) that] by (simp add: required_pages_def udiv_ceil_def split: kv_admission_policy.splits)
  show ?thesis
  proof (cases "\<exists>e. submit_with_sampler s prompt generation sampler = Some (s, Inl e)")
    case False
    then have "submit_with_sampler s prompt generation sampler = enqueue s prompt generation sampler \<and> admissible s prompt generation"
      using req by (auto simp: submit_with_sampler_def Let_def admissible_def split: if_splits)
    with enq False show ?thesis by metis
  qed simp
qed

lemma submitted_inv:
  assumes inv: "sched_inv s" and adm: "admissible s prompt generation"
  shows "sched_inv (submitted s prompt generation sampler)"
    "budget_ok s \<Longrightarrow> budget_ok (submitted s prompt generation sampler)"
proof -
  let ?s' = "submitted s prompt generation sampler"
  have f: "sc_kv ?s' = sc_kv s" "sc_active ?s' = sc_active s" "sc_config ?s' = sc_config s" "get_active ?s' = get_active s"
    "sc_in_flight ?s' = sc_in_flight s" "sc_next_batch ?s' = sc_next_batch s" "sc_speculative ?s' = sc_speculative s"
    "sc_prefill_chunk ?s' = sc_prefill_chunk s" "sc_options ?s' = sc_options s" "sc_next_request ?s' = Suc (sc_next_request s)"
    by (simp_all add: submitted_def)
  have q: "queue_ok ?s'" if "queue_ok s"
  proof -
    have nid: "get_active s (RequestId (sc_next_request s)) = None" "RequestId (sc_next_request s) \<notin> pr_id ` set (sc_pending s)"
      using that unfolding queue_ok_def by (metis less_irrefl request_id.sel, metis imageE less_irrefl request_id.sel)
    show ?thesis using that adm nid by (fastforce simp: queue_ok_def submitted_def admissible_def less_Suc_eq)
  qed
  have core: "core_inv ?s' k rows b" if "core_inv s k rows b" for k rows b
    using that q by (simp add: core_inv_def f limits_ok_def)
  show "sched_inv ?s'" using inv core by (auto simp: sched_inv_def f batch_ok_def split: option.splits)
  show "budget_ok ?s'" if "budget_ok s"
    using that adm by (auto simp: budget_ok_def f budget_sum_def submitted_def admissible_def pending_budget_def)
qed

subsection \<open>Settings and construction\<close>

lemma set_prefix_caching_inv:
  fixes s :: "'smp scheduler"
  assumes inv: "sched_inv s"
  shows "\<exists>kv'. sched_set_prefix_caching s on = Some (s\<lparr>sc_kv := kv'\<rparr>) \<and> kv_config kv' = kv_config (sc_kv s) \<and>
    sched_inv (s\<lparr>sc_kv := kv'\<rparr>) \<and> seq_view kv' = seq_view (sc_kv s)"
proof -
  obtain kind rows b where core: "core_inv s kind rows b"
    and up: "\<And>s' :: 'smp scheduler. core_inv s' kind rows b \<Longrightarrow> sc_in_flight s' = sc_in_flight s \<Longrightarrow> sc_next_batch s' = sc_next_batch s \<Longrightarrow>
      sc_config s' = sc_config s \<Longrightarrow> sched_inv s'"
    using core_inv_in_flight [OF inv] by blast
  note D = core_invD [OF core]
  obtain kv' where kv': "set_prefix_caching (sc_kv s) on = Some kv'" "kv_inv kv'" "kv_sequences kv' = kv_sequences (sc_kv s)"
    "kv_config kv' = kv_config (sc_kv s)" "kv_reservations kv' = kv_reservations (sc_kv s)"
    using set_prefix_caching_ok [OF D(1), of on] by blast
  have v: "seq_view kv' = seq_view (sc_kv s)"
    using kv'(3,5) by (simp add: seq_view_def pending_view_def reservation_tokens_def fun_eq_iff cong: option.case_cong)
  have "core_inv (s\<lparr>sc_kv := kv'\<rparr>) kind rows b" using core kv'(2,4) v by (simp add: core_inv_def)
  then show ?thesis using kv' up [of "s\<lparr>sc_kv := kv'\<rparr>"] v by (auto simp: sched_set_prefix_caching_def)
qed

lemma set_speculative_inv:
  assumes inv: "sched_inv s" and ok: "\<And>c. config = Some c \<Longrightarrow> max_len s + sp_draft_tokens c < usize_lim"
    and eq: "set_speculative_decoding s config = Some (s', v)"
  shows "sched_inv s'"
proof (cases "s' = s")
  case False
  then have s': "s' = s\<lparr>sc_speculative := config\<rparr>" and c: "\<And>c. config = Some c \<Longrightarrow> 0 < sp_draft_tokens c"
    using eq by (auto simp: set_speculative_decoding_def split: if_splits option.splits)
  have "core_inv s' k rows b" if "core_inv s k rows b" for k rows b
    using that ok c by (simp add: s' core_inv_def limits_ok_def queue_ok_def)
  then show ?thesis using inv by (auto simp: s' sched_inv_def batch_ok_def split: option.splits)
qed (use inv in simp)

lemma set_batch_token_limit_inv:
  assumes inv: "sched_inv s" and lim: "limit < usize_lim" and eq: "set_batch_token_limit s limit = Some (s', v)"
  shows "sched_inv s'"
proof (cases "s' = s")
  case False
  then have s': "s' = s\<lparr>sc_config := (sc_config s)\<lparr>bc_max_batch_tokens := limit\<rparr>\<rparr>" and fl: "sc_in_flight s = None"
    and min: "minimum_batch_token_limit s \<le> limit"
    using eq by (auto simp: set_batch_token_limit_def split: if_splits)
  have "0 < limit" using min by (auto simp: minimum_batch_token_limit_def split: if_splits)
  then show ?thesis using inv fl lim by (simp add: s' sched_inv_def core_inv_def limits_ok_def queue_ok_def)
qed (use inv in simp)

lemma with_options_inv:
  assumes new: "with_options config kvc options = Inr s"
    and lim: "bc_max_batch_tokens config < usize_lim" "cf_max_sequence_length kvc < usize_lim"
      "bc_max_active_sequences config * cf_max_sequence_length kvc < u32_lim"
  shows "sched_inv s" "budget_ok s" "sc_in_flight s = None" "sc_finished s = []" "sc_pending s = []" "get_active s = Map.empty"
    "sc_next_request s = 1"
proof -
  obtain kv where kv: "kv_new kvc = Inr kv" "batch_config_validate config = Inr ()"
    and s: "s = \<lparr>sc_config = config, sc_options = options, sc_kv = kv, sc_pending = [], sc_deferred = {},
           sc_active = [], sc_finished = [], sc_in_flight = None, sc_prefer_prefill = True,
           sc_next_request = 1, sc_next_batch = 1, sc_prefill_chunk = None, sc_ceiling = None,
           sc_recompute = False, sc_next_admission = 0, sc_preemptions = 0, sc_speculative = None,
           sc_speculative_turn = False, sc_drafted = 0, sc_accepted = 0\<rparr>"
    using new by (auto simp: with_options_def ok_then_def split: sum.splits)
  have c: "kv_inv kv" "kv_config kv = kvc" "kv_sequences kv = []"
    using kv_new_inv [OF kv(1) lim(2)] kv(1) by (auto simp: kv_new_def ok_then_def split: sum.splits)
  have "0 < bc_max_batch_tokens config" "0 < bc_max_active_sequences config" using kv(2) by (auto simp: batch_config_validate_def split: if_splits)
  then show "sched_inv s"
    using c lim by (simp add: s sched_inv_def core_inv_def limits_ok_def queue_ok_def slot_def get_active_def seq_view_def om_ok_def)
  show "budget_ok s" by (simp add: s budget_ok_def budget_sum_def om.total_def)
  show "sc_in_flight s = None" "sc_finished s = []" "sc_pending s = []" "get_active s = Map.empty" "sc_next_request s = 1"
    by (simp_all add: s get_active_def [abs_def])
qed

end
