(* ===== verification/Batch_Sched_Run.thy ===== *)
theory Batch_Sched_Run
  imports Batch_Sched_Life Batch_Speculative
begin

text \<open>
  Whole runs of the scheduler.  A run is a sequence of calls of the public operations; the tokens
  handed to the completions are those of a model.  A ledger records what was submitted, delivered
  and cancelled.  In every state of a run the requests are accounted for and every finished
  request carries the tokens the model generates for it on its own.
\<close>

subsection \<open>A call of \<open>schedule\<close>\<close>

text \<open>What a call changes: requests are admitted and their phases move.\<close>

definition served :: "'smp scheduler \<Rightarrow> 'smp scheduler \<Rightarrow> bool" where
  "served s s' \<longleftrightarrow> sc_finished s' = sc_finished s \<and> sc_next_request s' = sc_next_request s \<and>
     kv_config (sc_kv s') = kv_config (sc_kv s) \<and> sc_config s' = sc_config s \<and> sc_options s' = sc_options s \<and>
     sc_speculative s' = sc_speculative s \<and>
     set (sc_pending s') \<subseteq> set (sc_pending s) \<and>
     dom (get_active s') \<union> pr_id ` set (sc_pending s') = dom (get_active s) \<union> pr_id ` set (sc_pending s) \<and>
     (\<forall>r a'. get_active s' r = Some a' \<longrightarrow>
        (\<exists>a. get_active s r = Some a \<and> forget_phase a' = forget_phase a) \<or>
        (\<exists>p \<in> set (sc_pending s). \<exists>k. r = pr_id p \<and> forget_phase a' = fresh_request p k))"

lemma same_requests_get:
  assumes "same_requests s s'"
  shows "get_active s' r = Some a' \<Longrightarrow> \<exists>a. get_active s r = Some a \<and> forget_phase a' = forget_phase a"
    "dom (get_active s') = dom (get_active s)"
proof -
  have e: "map_option forget_phase (get_active s' r) = map_option forget_phase (get_active s r)" for r
    using assms by (simp add: same_requests_def)
  show "\<exists>a. get_active s r = Some a \<and> forget_phase a' = forget_phase a" if "get_active s' r = Some a'"
    using e [of r] that by (cases "get_active s r") auto
  have "get_active s' r = None \<longleftrightarrow> get_active s r = None" for r using e [of r] by (metis map_option_is_None)
  then show "dom (get_active s') = dom (get_active s)" by (auto simp: dom_def)
qed

lemma forget_eq:
  assumes "forget_phase a' = forget_phase a"
  shows "aq_prompt a' = aq_prompt a" "aq_generation a' = aq_generation a" "aq_generated a' = aq_generated a"
    "aq_history a' = aq_history a" "aq_eos a' = aq_eos a"
  using arg_cong [OF assms, of aq_prompt] arg_cong [OF assms, of aq_generation] arg_cong [OF assms, of aq_generated]
    arg_cong [OF assms, of aq_history] arg_cong [OF assms, of aq_eos] by (simp_all add: forget_phase_def)

lemma planned_facts:
  fixes s :: "'a scheduler"
  assumes "planned_from s s' batch"
  shows "batch_ok s' batch" "same_requests s s'" "sc_finished s' = sc_finished s" "sc_next_request s' = sc_next_request s"
    "kv_config (sc_kv s') = kv_config (sc_kv s)" "sc_config s' = sc_config s" "sc_options s' = sc_options s"
    "sc_pending s' = sc_pending s" "om_ok (sc_active s')" "bt_id batch = sc_next_batch s"
    "bt_kind batch = Verify \<Longrightarrow> sc_speculative s \<noteq> None" "sc_speculative s' = sc_speculative s"
proof -
  obtain x y where p: "planned (flagged s x y) (flagged s' x y) batch" using assms by (auto simp: planned_from_def)
  then obtain kv act where e: "flagged s' x y = (flagged s x y)\<lparr>sc_kv := kv, sc_active := act, sc_next_batch := Suc (sc_next_batch s)\<rparr>"
    "kv_config kv = kv_config (sc_kv s)"
    by (auto simp: planned_def)
  show ok: "batch_ok s' batch" using p by (simp add: planned_def)
  then show "om_ok (sc_active s')" by (simp add: batch_ok_def core_inv_def)
  show "bt_id batch = sc_next_batch s" using p by (simp add: planned_def)
  show "sc_speculative s \<noteq> None" if "bt_kind batch = Verify" using p that by (auto simp: planned_def)
  show "sc_speculative s' = sc_speculative s" using arg_cong [OF e(1), of sc_speculative] by simp
  show "same_requests s s'"
    unfolding same_requests_def
  proof
    fix r
    have "get_active s' r = (if row_of (bt_sequences batch) r = None then get_active s r
        else map_option (mark (bt_id batch)) (get_active s r))"
      using p by (auto simp: planned_def)
    moreover have "forget_phase (mark (bt_id batch) a) = forget_phase a" for a :: "'a active_request"
      by (simp add: forget_phase_def mark_def)
    ultimately show "map_option forget_phase (get_active s' r) = map_option forget_phase (get_active s r)"
      by (cases "get_active s r") simp_all
  qed
  show "sc_finished s' = sc_finished s" "sc_config s' = sc_config s" "sc_options s' = sc_options s" "sc_pending s' = sc_pending s"
    using arg_cong [OF e(1), of sc_finished] arg_cong [OF e(1), of sc_config] arg_cong [OF e(1), of sc_options]
      arg_cong [OF e(1), of sc_pending] by simp_all
  show "sc_next_request s' = sc_next_request s" using arg_cong [OF e(1), of sc_next_request] by (simp add: flagged_def)
  show "kv_config (sc_kv s') = kv_config (sc_kv s)" using arg_cong [OF e(1), of sc_kv] e(2) by simp
qed

definition roomy :: "'smp scheduler \<Rightarrow> bool" where
  "roomy s \<longleftrightarrow> sc_next_batch s + 1 < usize_lim \<and> sched_spare s (max (schedule_cost s) (max (complete_cost s) (max_len s)))"

lemma roomyD:
  assumes "roomy s"
  shows "sc_next_batch s + 1 < usize_lim" "sched_spare s (schedule_cost s)" "sched_spare s (complete_cost s)"
    "kv_spare (sc_kv s) (max_len s)"
proof -
  have sp: "sched_spare s (max (schedule_cost s) (max (complete_cost s) (max_len s)))" using assms by (simp add: roomy_def)
  show "sc_next_batch s + 1 < usize_lim" using assms by (simp add: roomy_def)
  show "sched_spare s (schedule_cost s)" "sched_spare s (complete_cost s)" using sched_spare_mono [OF sp] by simp_all
  have "sched_spare s (max_len s)" using sched_spare_mono [OF sp] by simp
  then show "kv_spare (sc_kv s) (max_len s)" by (simp add: sched_spare_def)
qed

lemma served_loop:
  assumes adm: "admitted_frame n s s0" and fr: "loop_frame m s0 s1" and same: "same_requests s1 s'"
    and rest: "sc_finished s' = sc_finished s1" "sc_next_request s' = sc_next_request s1" "kv_config (sc_kv s') = kv_config (sc_kv s1)"
      "sc_config s' = sc_config s1" "sc_options s' = sc_options s1" "sc_pending s' = sc_pending s1"
      "sc_speculative s' = sc_speculative s1"
  shows "served s s'"
proof -
  note A = admitted_facts [OF adm] and B = admitted_frameD [OF adm] and L = loop_frameD [OF fr]
  have sr: "same_requests s0 s'" using same_requests_trans [OF L(1) same] .
  note G = same_requests_get [OF sr]
  have "(\<exists>a. get_active s r = Some a \<and> forget_phase a' = forget_phase a) \<or>
        (\<exists>p \<in> set (sc_pending s). \<exists>k. r = pr_id p \<and> forget_phase a' = fresh_request p k)" if g: "get_active s' r = Some a'" for r a'
  proof -
    obtain a where a: "get_active s0 r = Some a" "forget_phase a' = forget_phase a" using G(1) [OF g] by blast
    have "forget_phase (fresh_request p k) = fresh_request p k" for p :: "'a pending_request" and k
      by (simp add: forget_phase_def fresh_request_def)
    then show ?thesis using A(5) [OF a(1)] a(2) by metis
  qed
  moreover have "dom (get_active s') \<union> pr_id ` set (sc_pending s') = dom (get_active s) \<union> pr_id ` set (sc_pending s)"
  proof -
    have "dom (get_active s) \<subseteq> dom (get_active s0)" using A(4) by blast
    moreover have "dom (get_active s0) \<subseteq> dom (get_active s) \<union> pr_id ` set (sc_pending s)" using A(5) by blast
    moreover have "pr_id ` set (sc_pending s) \<subseteq> dom (get_active s0) \<union> pr_id ` set (sc_pending s0)" using A(7) by blast
    ultimately show ?thesis using A(6) unfolding G(2) rest(6) L(6) by blast
  qed
  ultimately show ?thesis unfolding served_def using A(6) B L rest by simp
qed

lemma schedule_served:
  assumes inv: "sched_inv s" and bud: "budget_ok s" and idle: "sc_in_flight s = None" and room: "roomy s"
  shows "\<exists>s' v. schedule h s = Some (s', Inr v) \<and> sched_inv s' \<and> budget_ok s' \<and> served s s' \<and> sc_in_flight s' = v \<and>
    (\<forall>batch. v = Some batch \<longrightarrow> bt_kind batch = Verify \<longrightarrow> sc_speculative s \<noteq> None)"
proof -
  note R = roomyD [OF room]
  obtain n s0 where s0: "admitted_frame n s s0" "core_inv s0 Prefill [] None" "budget_ok s0" "loop_outcome (schedule h s) s0"
    using schedule_ok [OF inv idle bud R(1,2), of h] unfolding schedule_outcome_def by blast
  obtain m s1 where s1: "loop_frame m s0 s1" "core_inv s1 Prefill [] None"
    "schedule h s = Some (s1, Inr None) \<and> \<not> runnable s1 \<and> (sc_recompute s0 \<longrightarrow> card (held s1) \<le> 1) \<or>
      (\<exists>s' batch. schedule h s = Some (s'\<lparr>sc_in_flight := Some batch\<rparr>, Inr (Some batch)) \<and> planned_from s1 s' batch)"
    using s0(4) unfolding loop_outcome_def by blast
  note L = loop_frameD [OF s1(1)] and B = admitted_frameD [OF s0(1)]
  have lim: "bc_max_batch_tokens (sc_config s1) < usize_lim" using inv L(9) B(6) by (simp add: sched_inv_def)
  have bud': "budget_ok s'" if "same_requests s1 s'" "om_ok (sc_active s')" "kv_config (sc_kv s') = kv_config (sc_kv s1)"
      "sc_options s' = sc_options s1" "sc_pending s' = sc_pending s1" for s'
  proof (rule budget_mono [OF s0(3) core_invD(2) [OF s0(2)] that(2)])
    show "\<exists>a. get_active s0 r = Some a \<and> aq_prompt a' = aq_prompt a \<and> aq_generation a' = aq_generation a"
      if "get_active s' r = Some a'" for r a'
      using same_requests_get(1) [OF same_requests_trans [OF L(1) \<open>same_requests s1 s'\<close>] that] forget_eq by metis
  qed (use that L in simp_all)
  from s1(3) show ?thesis
  proof (elim disjE exE conjE)
    assume none: "schedule h s = Some (s1, Inr None)"
    have "sched_inv s1" using s1(2) lim idle L(8) B(5) by (simp add: sched_inv_def)
    moreover have "served s s1" by (rule served_loop [OF s0(1) s1(1)]) simp_all
    moreover have "budget_ok s1" by (rule bud') (use core_invD(2) [OF s1(2)] in simp_all)
    ultimately show ?thesis using none idle L(8) B(5) by auto
  next
    fix t batch
    assume some: "schedule h s = Some (t\<lparr>sc_in_flight := Some batch\<rparr>, Inr (Some batch))" and p: "planned_from s1 t batch"
    note P = planned_facts [OF p]
    let ?s' = "t\<lparr>sc_in_flight := Some batch\<rparr>"
    have "same_requests s1 ?s'" using P(2) by (simp add: same_requests_def)
    moreover have "sched_inv ?s'" using P(1,6) lim by (simp add: sched_inv_def batch_ok_def)
    ultimately show ?thesis
      using some served_loop [OF s0(1) s1(1), of ?s'] bud' [of ?s'] P L(16) B(15) by (simp del: same_requests_refl)
  qed
qed

end
