(* ===== verification/Batch_Sched_Serve.thy ===== *)
theory Batch_Sched_Serve
  imports Batch_Sched_Run
begin

text \<open>
  What a run delivers: in every reachable state the requests are accounted for, and every finished
  request carries the tokens its model generates for it alone, whatever was batched, chunked,
  speculated, preempted, failed or cancelled around it.
\<close>

subsection \<open>Greedy generation in pieces\<close>

lemma greedy_split:
  assumes "0 < k" "k \<le> length (greedy model eos n history)"
  shows "greedy model eos n history = take k (greedy model eos n history) @
    (if last (take k (greedy model eos n history)) \<in> eos then []
     else greedy model eos (n - k) (history @ take k (greedy model eos n history)))"
  using assms
proof (induction n arbitrary: k history)
  case (Suc n)
  let ?t = "model history"
  obtain j where j: "k = Suc j" using Suc.prems(1) by (cases k) auto
  show ?case
  proof (cases "?t \<in> eos \<or> j = 0")
    case True
    then show ?thesis using Suc.prems(2) by (auto simp: j Let_def)
  next
    case False
    let ?g = "greedy model eos n (history @ [?t])"
    have g: "greedy model eos (Suc n) history = ?t # ?g" using False by (simp add: Let_def)
    define ts where "ts = take j ?g"
    have ts: "ts \<noteq> []" using Suc.prems(2) False by (auto simp: j g ts_def)
    have e: "?g = ts @ (if last ts \<in> eos then [] else greedy model eos (n - j) ((history @ [?t]) @ ts))"
      unfolding ts_def by (rule Suc.IH) (use Suc.prems(2) False in \<open>simp_all add: j g del: greedy.simps\<close>)
    have tk: "take (Suc j) (?t # ?g) = ?t # ts" by (simp add: ts_def)
    show ?thesis unfolding g j tk using ts by (subst e) simp
  qed
qed simp

text \<open>A request whose tokens so far are those of its model, and a result that is complete.\<close>

definition on_track :: "(token list \<Rightarrow> token) \<Rightarrow> 'smp active_request \<Rightarrow> bool" where
  "on_track model a \<longleftrightarrow> greedy model (aq_eos a) (gen_max_new_tokens (aq_generation a)) (aq_prompt a) =
     aq_generated a @ greedy model (aq_eos a) (gen_max_new_tokens (aq_generation a) - length (aq_generated a)) (aq_history a)"

definition complete_result :: "(token list \<Rightarrow> token) \<Rightarrow> generation_config \<Rightarrow> finished_generation \<Rightarrow> bool" where
  "complete_result model g f \<longleftrightarrow>
     fg_generated f = greedy model (set (gen_eos_token_ids g)) (gen_max_new_tokens g) (fg_prompt f) \<and>
     (fg_stopped_on_eos f \<longleftrightarrow> fg_generated f \<noteq> [] \<and> last (fg_generated f) \<in> set (gen_eos_token_ids g))"

text \<open>The tokens a request may receive in one step: a non-empty part of what its model generates.\<close>

definition next_piece :: "(token list \<Rightarrow> token) \<Rightarrow> 'smp active_request \<Rightarrow> token list \<Rightarrow> bool" where
  "next_piece model a ts \<longleftrightarrow> (\<exists>k. 0 < k \<and>
     k \<le> length (greedy model (aq_eos a) (gen_max_new_tokens (aq_generation a) - length (aq_generated a)) (aq_history a)) \<and>
     ts = take k (greedy model (aq_eos a) (gen_max_new_tokens (aq_generation a) - length (aq_generated a)) (aq_history a)))"

lemma received_track:
  assumes track: "on_track model a" and ok: "request_ok lim a" and piece: "next_piece model a ts"
  shows "received a ts = Some a' \<Longrightarrow> on_track model a'"
    "ends a ts \<Longrightarrow> complete_result model (aq_generation a) (finished_as r a ts)"
proof -
  let ?n = "gen_max_new_tokens (aq_generation a)" and ?m = "length (aq_generated a)"
  let ?g = "greedy model (aq_eos a) (?n - ?m) (aq_history a)"
  obtain k where k: "0 < k" "k \<le> length ?g" "ts = take k ?g" using piece by (auto simp: next_piece_def)
  have len: "length ts = k" "ts \<noteq> []" using k by auto
  have split: "?g = ts @ (if last ts \<in> aq_eos a then [] else greedy model (aq_eos a) (?n - ?m - k) (aq_history a @ ts))"
    using greedy_split [OF k(1,2)] unfolding k(3) [symmetric] .
  have whole: "greedy model (aq_eos a) ?n (aq_prompt a) =
      (aq_generated a @ ts) @ (if last ts \<in> aq_eos a then [] else greedy model (aq_eos a) (?n - ?m - k) (aq_history a @ ts))"
    using track split unfolding on_track_def by simp
  show "on_track model a'" if "received a ts = Some a'"
  proof -
    have a': "a' = (pushed a ts)\<lparr>aq_phase := AwaitingDecode (last ts)\<rparr>" "last ts \<notin> aq_eos a"
      using that by (simp_all add: received_def ends_def split: if_splits)
    show ?thesis using whole a'(2) unfolding a'(1) by (simp add: on_track_def pushed_def len diff_diff_eq)
  qed
  show "complete_result model (aq_generation a) (finished_as r a ts)" if "ends a ts"
  proof -
    have "(if last ts \<in> aq_eos a then [] else greedy model (aq_eos a) (?n - ?m - k) (aq_history a @ ts)) = []"
      using that len(1) by (auto simp: ends_def)
    then have "greedy model (aq_eos a) ?n (aq_prompt a) = aq_generated a @ ts" using whole by simp
    then show ?thesis using ok len(2) by (simp add: complete_result_def finished_as_def request_ok_def)
  qed
qed

text \<open>One token of the model, and the accepted part of a draft, are such pieces.\<close>

lemma next_piece_token:
  assumes "request_ok lim a"
  shows "next_piece model a [model (aq_history a)]"
proof -
  obtain n where "gen_max_new_tokens (aq_generation a) - length (aq_generated a) = Suc n"
    using assms by (metis Suc_diff_Suc request_ok_def)
  then show ?thesis by (auto simp: next_piece_def Let_def intro!: exI [of _ 1])
qed

lemma next_piece_verified:
  assumes ok: "request_ok lim a" and tok: "row_tokens row \<noteq> []"
  shows "next_piece model a (verified (row_tokens row) (aq_eos a) (gen_max_new_tokens (aq_generation a) - length (aq_generated a))
    (row_predictions model (aq_history a) (tl (row_tokens row))))"
proof -
  let ?rem = "gen_max_new_tokens (aq_generation a) - length (aq_generated a)"
  have pos: "0 < ?rem" using ok by (simp add: request_ok_def)
  have "verified (row_tokens row) (aq_eos a) ?rem (row_predictions model (aq_history a) (tl (row_tokens row))) =
      accepted model (aq_eos a) ?rem (aq_history a) (tl (row_tokens row))"
    using verify_row_accepted [of "row_tokens row" 0 "tl (row_tokens row)" "[]" ?rem "aq_eos a" model "aq_history a"] tok pos
    by (cases "row_tokens row") (simp_all add: verified_def)
  then show ?thesis using accepted_prefix [OF pos, of model "aq_eos a" "aq_history a" "tl (row_tokens row)"]
    by (auto simp: next_piece_def)
qed

subsection \<open>What the completion loops do to the set of requests\<close>

lemma rows_next_at:
  assumes "distinct (map (\<lambda>x. row_request (row x)) xs)" "x \<in> set xs"
  shows "rows_next row nx g xs (row_request (row x)) = Option.bind (g (row_request (row x))) (\<lambda>a. nx a x)"
proof -
  have "find (\<lambda>y. row_request (row y) = row_request (row x)) xs = Some x"
    using assms by (induction xs) (auto simp: image_iff)
  then show ?thesis by (simp add: rows_next_def)
qed

lemma rows_next_other:
  "r \<notin> (\<lambda>x. row_request (row x)) ` set xs \<Longrightarrow> rows_next row nx g xs r = g r"
  by (induction xs) (auto simp: rows_next_def)

definition finishes :: "('x \<Rightarrow> scheduled_sequence) \<Rightarrow> ('smp active_request \<Rightarrow> 'x \<Rightarrow> 'smp active_request option) \<Rightarrow>
    ('smp active_request \<Rightarrow> 'x \<Rightarrow> finished_generation list) \<Rightarrow> bool" where
  "finishes row nx rs \<longleftrightarrow> (\<forall>a x. map fg_request (rs a x) = (if nx a x = None then [row_request (row x)] else []))"

lemma finished_ids:
  assumes f: "finishes row nx rs" and act: "\<And>x. x \<in> set xs \<Longrightarrow> g (row_request (row x)) \<noteq> None"
    and dist: "distinct (map (\<lambda>x. row_request (row x)) xs)"
  shows "map fg_request (rows_out row rs g xs) =
      filter (\<lambda>r. rows_next row nx g xs r = None) (map (\<lambda>x. row_request (row x)) xs)"
    "dom (rows_next row nx g xs) = dom g - fg_request ` set (rows_out row rs g xs)"
proof -
  have one: "map fg_request (case g (row_request (row x)) of None \<Rightarrow> [] | Some a \<Rightarrow> rs a x) =
      filter (\<lambda>r. rows_next row nx g xs r = None) [row_request (row x)]" if x: "x \<in> set xs" for x
  proof -
    obtain a where a: "g (row_request (row x)) = Some a" using act [OF x] by auto
    have "map fg_request (rs a x) = (if nx a x = None then [row_request (row x)] else [])" using f by (simp add: finishes_def)
    then show ?thesis using a rows_next_at [OF dist x, of nx g] by (cases "nx a x") simp_all
  qed
  have "map fg_request (rows_out row rs g ys) = filter (\<lambda>r. rows_next row nx g xs r = None) (map (\<lambda>x. row_request (row x)) ys)"
    if "set ys \<subseteq> set xs" for ys
    using that
  proof (induction ys)
    case (Cons y ys)
    then show ?case using one [of y] by (simp add: rows_out_def del: filter.simps) simp
  qed simp
  then show ids: "map fg_request (rows_out row rs g xs) =
      filter (\<lambda>r. rows_next row nx g xs r = None) (map (\<lambda>x. row_request (row x)) xs)" by simp
  have "fg_request ` set (rows_out row rs g xs) = {r \<in> (\<lambda>x. row_request (row x)) ` set xs. rows_next row nx g xs r = None}"
    using arg_cong [OF ids, of set] by auto
  moreover have "rows_next row nx g xs r = None \<Longrightarrow> r \<notin> (\<lambda>x. row_request (row x)) ` set xs \<Longrightarrow> g r = None" for r
    by (simp add: rows_next_other)
  moreover have "g r \<noteq> None" if "rows_next row nx g xs r \<noteq> None" for r
  proof (cases "r \<in> (\<lambda>x. row_request (row x)) ` set xs")
    case True
    then show ?thesis using act by auto
  next
    case False
    then show ?thesis using that by (simp add: rows_next_other)
  qed
  ultimately show "dom (rows_next row nx g xs) = dom g - fg_request ` set (rows_out row rs g xs)"
    by (auto simp: dom_def)
qed

subsection \<open>The ledger\<close>

record ledger =
  lg_requests :: "request_id \<Rightarrow> (token list \<times> generation_config) option"
  lg_delivered :: "finished_generation list"
  lg_cancelled :: "request_id set"

definition empty_ledger :: ledger where
  "empty_ledger = \<lparr>lg_requests = Map.empty, lg_delivered = [], lg_cancelled = {}\<rparr>"

text \<open>Every submitted request is at exactly one place.\<close>

definition split_ids :: "'a set \<Rightarrow> 'a set \<Rightarrow> 'a list \<Rightarrow> 'a set \<Rightarrow> 'a set \<Rightarrow> bool" where
  "split_ids queued act ids cancelled taken \<longleftrightarrow> distinct ids \<and> queued \<inter> act = {} \<and>
     set ids \<inter> (queued \<union> act) = {} \<and> cancelled \<inter> (queued \<union> act \<union> set ids) = {} \<and>
     queued \<union> act \<union> set ids \<union> cancelled = taken"

lemma split_ids_finish:
  "split_ids w a ids c t \<Longrightarrow> distinct new \<Longrightarrow> set new \<subseteq> a \<Longrightarrow> split_ids w (a - set new) (ids @ new) c t"
  unfolding split_ids_def by (simp add: set_eq_iff) blast

lemma split_ids_cancel:
  "split_ids w a ids c t \<Longrightarrow> r \<in> w \<union> a \<Longrightarrow> split_ids (w - {r}) (a - {r}) ids (insert r c) t"
  unfolding split_ids_def by (simp add: set_eq_iff) blast

lemma split_ids_admit:
  "split_ids w a ids c t \<Longrightarrow> w' \<union> a' = w \<union> a \<Longrightarrow> w' \<inter> a' = {} \<Longrightarrow> split_ids w' a' ids c t"
  unfolding split_ids_def by simp

lemma split_ids_new:
  "split_ids w a ids c t \<Longrightarrow> r \<notin> t \<Longrightarrow> split_ids (insert r w) a ids c (insert r t)"
  "split_ids w a ids c t \<Longrightarrow> r \<notin> t \<Longrightarrow> split_ids w a (ids @ [r]) c (insert r t)"
  unfolding split_ids_def by auto

definition accounted :: "ledger \<Rightarrow> 'smp scheduler \<Rightarrow> bool" where
  "accounted l s \<longleftrightarrow>
     split_ids (pr_id ` set (sc_pending s)) (dom (get_active s)) (map fg_request (lg_delivered l @ sc_finished s)) (lg_cancelled l)
       (RequestId ` {1..<sc_next_request s}) \<and>
     dom (lg_requests l) = RequestId ` {1..<sc_next_request s} \<and> 1 \<le> sc_next_request s"

text \<open>The scheduler has the requests as they were submitted, and its tokens are those of the model.\<close>

definition truthful :: "(request_id \<Rightarrow> token list \<Rightarrow> token) \<Rightarrow> ledger \<Rightarrow> 'smp scheduler \<Rightarrow> bool" where
  "truthful model l s \<longleftrightarrow>
     (\<forall>p \<in> set (sc_pending s). lg_requests l (pr_id p) = Some (pr_prompt p, pr_generation p)) \<and>
     (\<forall>r a. get_active s r = Some a \<longrightarrow> lg_requests l r = Some (aq_prompt a, aq_generation a) \<and> on_track (model r) a) \<and>
     (\<forall>f \<in> set (lg_delivered l @ sc_finished s). \<exists>g. lg_requests l (fg_request f) = Some (fg_prompt f, g) \<and>
        complete_result (model (fg_request f)) g f)"

definition running :: "(request_id \<Rightarrow> token list \<Rightarrow> token) \<Rightarrow> ledger \<Rightarrow> 'smp scheduler \<Rightarrow> bool" where
  "running model l s \<longleftrightarrow> sched_inv s \<and> budget_ok s \<and> accounted l s \<and> truthful model l s"

text \<open>A step that only changes phases and admits.\<close>

lemma sched_inv_active: "sched_inv s \<Longrightarrow> om_ok (sc_active s)"
  by (auto simp: sched_inv_def batch_ok_def core_inv_def split: option.splits)

lemma sched_inv_queue: "sched_inv s \<Longrightarrow> queue_ok s"
  by (auto simp: sched_inv_def batch_ok_def core_inv_def split: option.splits)

lemma on_track_forget: "forget_phase a' = forget_phase a \<Longrightarrow> on_track m a' = on_track m a"
  using forget_eq [of a' a] by (simp add: on_track_def)

lemma served_running:
  assumes run: "running model l s" and s': "served s s'" "sched_inv s'" "budget_ok s'"
  shows "running model l s'"
proof -
  have ac: "accounted l s" and tr: "truthful model l s" using run by (simp_all add: running_def)
  have disj: "pr_id ` set (sc_pending s') \<inter> dom (get_active s') = {}"
    using sched_inv_queue [OF s'(2)] by (auto simp: queue_ok_def)
  have "accounted l s'"
  proof -
    let ?W = "pr_id ` set (sc_pending s)" and ?A = "dom (get_active s)"
    have "dom (get_active s') \<union> pr_id ` set (sc_pending s') = ?A \<union> ?W" using s'(1) unfolding served_def by blast
    then have eq: "pr_id ` set (sc_pending s') \<union> dom (get_active s') = ?W \<union> ?A" by blast
    have same: "sc_finished s' = sc_finished s" "sc_next_request s' = sc_next_request s" using s'(1) by (simp_all add: served_def)
    show ?thesis using ac split_ids_admit [OF _ eq disj] unfolding accounted_def same by blast
  qed
  moreover have "lg_requests l r = Some (aq_prompt a', aq_generation a') \<and> on_track (model r) a'" if g: "get_active s' r = Some a'" for r a'
  proof -
    consider (old) a where "get_active s r = Some a" "forget_phase a' = forget_phase a"
      | (new) p k where "p \<in> set (sc_pending s)" "r = pr_id p" "forget_phase a' = fresh_request p k"
      using s'(1) g unfolding served_def by blast
    then show ?thesis
    proof cases
      case old
      then show ?thesis using tr forget_eq [OF old(2)] on_track_forget [OF old(2)] by (simp add: truthful_def)
    next
      case new
      then have e: "forget_phase a' = forget_phase (fresh_request p k)" by (simp add: forget_phase_def fresh_request_def)
      show ?thesis using tr new(1,2) forget_eq(1,2) [OF e] on_track_forget [OF e]
        by (auto simp: truthful_def fresh_request_def on_track_def)
    qed
  qed
  moreover have "set (sc_pending s') \<subseteq> set (sc_pending s)" "sc_finished s' = sc_finished s" using s'(1) by (simp_all add: served_def)
  ultimately show ?thesis using s'(2,3) tr unfolding running_def truthful_def by auto
qed

text \<open>A completed batch.\<close>

definition row_true :: "(request_id \<Rightarrow> token list \<Rightarrow> token) \<Rightarrow> ('x \<Rightarrow> scheduled_sequence) \<Rightarrow>
    ('smp active_request \<Rightarrow> 'x \<Rightarrow> 'smp active_request option) \<Rightarrow> ('smp active_request \<Rightarrow> 'x \<Rightarrow> finished_generation list) \<Rightarrow>
    'smp active_request \<Rightarrow> 'x \<Rightarrow> bool" where
  "row_true model row nx rs a x \<longleftrightarrow>
     (\<forall>a'. nx a x = Some a' \<longrightarrow> aq_prompt a' = aq_prompt a \<and> aq_generation a' = aq_generation a \<and>
        on_track (model (row_request (row x))) a') \<and>
     (\<forall>f \<in> set (rs a x). fg_request f = row_request (row x) \<and> fg_prompt f = aq_prompt a \<and>
        complete_result (model (row_request (row x))) (aq_generation a) f)"

lemma completed_running:
  assumes run: "running model l s" and inv: "sched_inv s'"
    and fr: "rows_frame n (s\<lparr>sc_in_flight := None\<rparr>) s' (rows_next row nx (get_active s) xs) (rows_out row rs (get_active s) xs)"
    and f: "finishes row nx rs" and dist: "distinct (map (\<lambda>x. row_request (row x)) xs)"
    and st: "\<And>x. x \<in> set xs \<Longrightarrow> \<exists>a. get_active s (row_request (row x)) = Some a \<and> row_true model row nx rs a x"
  shows "running model l s'"
proof -
  have ac: "accounted l s" and tr: "truthful model l s" and bud: "budget_ok s" and inv0: "sched_inv s"
    using run by (simp_all add: running_def)
  note F = rows_frameD [OF fr]
  let ?out = "rows_out row rs (get_active s) xs" and ?nx = "rows_next row nx (get_active s) xs"
  have act: "get_active s (row_request (row x)) \<noteq> None" if "x \<in> set xs" for x using st [OF that] by auto
  have ids: "map fg_request ?out = filter (\<lambda>r. ?nx r = None) (map (\<lambda>x. row_request (row x)) xs)"
    "dom ?nx = dom (get_active s) - fg_request ` set ?out"
    using finished_ids [of row nx rs xs "get_active s"] f act dist by blast+
  have next_ok: "\<exists>a. get_active s r = Some a \<and> aq_prompt a' = aq_prompt a \<and> aq_generation a' = aq_generation a \<and>
      (on_track (model r) a \<longrightarrow> on_track (model r) a')" if g: "?nx r = Some a'" for r a'
  proof (cases "r \<in> (\<lambda>x. row_request (row x)) ` set xs")
    case True
    then obtain x where x: "x \<in> set xs" "r = row_request (row x)" by blast
    obtain a where "get_active s r = Some a" "row_true model row nx rs a x" using st [OF x(1)] x(2) by blast
    then show ?thesis using g rows_next_at [OF dist x(1), of nx "get_active s"] x(2) by (simp add: row_true_def)
  qed (use g in \<open>simp add: rows_next_other\<close>)
  have outs: "\<exists>a. get_active s (fg_request f) = Some a \<and> fg_prompt f = aq_prompt a \<and>
      complete_result (model (fg_request f)) (aq_generation a) f" if m: "f \<in> set ?out" for f
  proof -
    obtain x where x: "x \<in> set xs" "f \<in> set (case get_active s (row_request (row x)) of None \<Rightarrow> [] | Some a \<Rightarrow> rs a x)"
      using m unfolding rows_out_def by auto
    obtain a where "get_active s (row_request (row x)) = Some a" "row_true model row nx rs a x" using st [OF x(1)] by blast
    then show ?thesis using x(2) by (auto simp: row_true_def)
  qed
  have "accounted l s'"
  proof -
    have sub: "fg_request ` set ?out \<subseteq> dom (get_active s)" using outs by blast
    have "distinct (map fg_request ?out)" unfolding ids(1) using dist by simp
    then show ?thesis
      using ac split_ids_finish [of "pr_id ` set (sc_pending s)" "dom (get_active s)" "map fg_request (lg_delivered l @ sc_finished s)"
        "lg_cancelled l" "RequestId ` {1..<sc_next_request s}" "map fg_request ?out"] sub
      unfolding accounted_def F(1,2) ids(2) using F(9,12) by simp
  qed
  moreover have "truthful model l s'"
  proof -
    have "lg_requests l r = Some (aq_prompt a', aq_generation a') \<and> on_track (model r) a'" if "get_active s' r = Some a'" for r a'
      using next_ok [of r a'] that tr unfolding F(1) truthful_def by auto
    moreover have "\<exists>g. lg_requests l (fg_request f) = Some (fg_prompt f, g) \<and> complete_result (model (fg_request f)) g f"
      if m: "f \<in> set (lg_delivered l @ sc_finished s')" for f
    proof (cases "f \<in> set ?out")
      case True
      then show ?thesis using outs tr unfolding truthful_def by metis
    next
      case False
      then have "f \<in> set (lg_delivered l @ sc_finished s)" using m unfolding F(2) by auto
      then show ?thesis using tr unfolding truthful_def by blast
    qed
    ultimately show ?thesis using tr F(9) unfolding truthful_def by simp
  qed
  moreover have "budget_ok s'"
  proof (rule budget_mono [OF bud sched_inv_active [OF inv0] sched_inv_active [OF inv]])
    show "\<exists>a. get_active s r = Some a \<and> aq_prompt a' = aq_prompt a \<and> aq_generation a' = aq_generation a"
      if "get_active s' r = Some a'" for r a'
      using next_ok [of r a'] that unfolding F(1) by blast
  qed (use F in simp_all)
  ultimately show ?thesis using inv by (simp add: running_def)
qed

subsection \<open>Truthful completions\<close>

text \<open>
  The tokens of a batch are those of the model when every row that produces a token gets the model's
  token for the context of the row, and every position of a draft the token for its own prefix.
\<close>

definition row_history :: "'smp scheduler \<Rightarrow> scheduled_sequence \<Rightarrow> token list" where
  "row_history s row = (case get_active s (row_request row) of Some a \<Rightarrow> aq_history a | None \<Rightarrow> [])"

definition true_tokens :: "(request_id \<Rightarrow> token list \<Rightarrow> token) \<Rightarrow> 'smp scheduler \<Rightarrow> scheduled_batch \<Rightarrow> token list \<Rightarrow> bool" where
  "true_tokens model s batch tokens \<longleftrightarrow> length tokens = length (bt_sequences batch) \<and>
     (\<forall>(row, t) \<in> set (zip (bt_sequences batch) tokens).
        samples_token s row \<longrightarrow> t = model (row_request row) (take (row_context row) (row_history s row)))"

definition true_argmax :: "(request_id \<Rightarrow> token list \<Rightarrow> token) \<Rightarrow> 'smp scheduler \<Rightarrow> scheduled_batch \<Rightarrow> token list" where
  "true_argmax model s batch =
     concat (map (\<lambda>row. row_predictions (model (row_request row)) (row_history s row) (tl (row_tokens row))) (bt_sequences batch))"

lemma finishes_rows: "finishes fst (\<lambda>a x. row_next a (fst x) (snd x)) (\<lambda>a x. row_results a (fst x) (snd x))"
  by (simp add: finishes_def row_next_def row_results_def received_def results_def finished_as_def)

lemma finishes_verified:
  "finishes snd (\<lambda>a x. received a (f a x)) (\<lambda>a x. results (row_request (snd x)) a (f a x))"
  by (simp add: finishes_def received_def results_def finished_as_def)

lemma track_received:
  assumes "on_track m a" "request_ok lim a" "next_piece m a ts"
  shows "\<forall>a'. received a ts = Some a' \<longrightarrow> aq_prompt a' = aq_prompt a \<and> aq_generation a' = aq_generation a \<and> on_track m a'"
    "\<forall>f \<in> set (results r a ts). fg_request f = r \<and> fg_prompt f = aq_prompt a \<and> complete_result m (aq_generation a) f"
  using received_track [OF assms] by (auto simp: received_def results_def finished_as_def pushed_def split: if_splits)

lemma concat_chunk:
  assumes "\<And>xs. xs \<in> set xss \<Longrightarrow> length xs = w" "i < length xss"
  shows "take w (drop (i * w) (concat xss)) = xss ! i"
  using assms
proof (induction xss arbitrary: i)
  case (Cons xs xss)
  have len: "length xs = w" "\<And>ys. ys \<in> set xss \<Longrightarrow> length ys = w" using Cons.prems(1) by auto
  show ?case
  proof (cases i)
    case (Suc j)
    have "take w (drop (j * w) (concat xss)) = xss ! j" using Cons.IH [OF len(2)] Cons.prems(2) Suc by simp
    then show ?thesis using Suc len(1) by (simp add: drop_append)
  qed (use len(1) in simp)
qed simp

lemma complete_running:
  assumes run: "running model l s" and fl: "sc_in_flight s = Some batch" and kind: "bt_kind batch \<noteq> Verify" and room: "roomy s"
    and tok: "true_tokens model s batch tokens" and eq: "complete_batch h s (bt_id batch) tokens = Some (s', Inr u)"
  shows "running model l s'"
proof -
  have inv: "sched_inv s" and tr: "truthful model l s" using run by (simp_all add: running_def)
  let ?rows = "bt_sequences batch" let ?xs = "zip ?rows tokens"
  note I = in_flight_inv [OF inv fl] and D = core_invD(5) [OF in_flight_inv(1) [OF inv fl]]
  have len: "length tokens = length ?rows" using tok by (simp add: true_tokens_def)
  have "\<not> (\<exists>(row, t) \<in> set ?xs. samples_token s row \<and> t < 0)"
  proof
    assume "\<exists>(row, t) \<in> set ?xs. samples_token s row \<and> t < 0"
    then have "\<exists>e. complete_batch h s (bt_id batch) tokens = Some (s, Inl e)"
      using fl len by (auto simp: complete_batch_def take_batch_def sched_then_def Let_def samples_token_def)
    then show False using eq by simp
  qed
  then have nn: "0 \<le> t" if "(row, t) \<in> set ?xs" "samples_token s row" for row t using that by (fastforce simp: not_less)
  obtain s1 where s1: "complete_batch h s (bt_id batch) tokens = Some (s1, Inr ())" "sched_inv s1"
    "rows_frame (complete_cost s) (s\<lparr>sc_in_flight := None\<rparr>) s1 (batch_next s batch tokens) (batch_results s batch tokens)"
    using complete_batch_ok [OF inv fl kind roomyD(3) [OF room] len, where h = h] nn by blast
  have s': "s1 = s'" using eq s1(1) by simp
  show ?thesis
  proof (rule completed_running [OF run s1(2) [unfolded s'] s1(3) [unfolded s' batch_next_def batch_results_def] finishes_rows])
    have "map (\<lambda>x. row_request (fst x)) ?xs = map row_request ?rows"
      using arg_cong [OF map_fst_zip [OF len [symmetric]], of "map row_request"] unfolding map_map comp_def .
    then show "distinct (map (\<lambda>x. row_request (fst x)) ?xs)" using D by simp
    fix x assume x: "x \<in> set ?xs"
    obtain row t where xx: "x = (row, t)" by (cases x)
    have row: "row \<in> set ?rows" using x xx by (auto dest: set_zip_leftD)
    obtain a c where a: "get_active s (row_request row) = Some a" "request_ok (max_len s) a" "row_ok (bt_kind batch) (aq_history a) c row"
      using row_active [OF I(1) row] by blast
    have track: "on_track (model (row_request row)) a" using tr a(1) by (simp add: truthful_def)
    have ctx: "row_context row \<le> length (aq_history a)"
      using a(3) kind by (cases "bt_kind batch") (auto simp: row_ok_def tokens_ok_def)
    have "row_true model fst (\<lambda>a x. row_next a (fst x) (snd x)) (\<lambda>a x. row_results a (fst x) (snd x)) a x"
    proof (cases "row_context row < length (aq_history a)")
      case True
      then show ?thesis using track by (simp add: xx row_true_def row_next_def row_results_def on_track_def)
    next
      case False
      then have "t = model (row_request row) (aq_history a)"
        using tok x ctx a(1) unfolding xx true_tokens_def by (fastforce simp: samples_token_def row_history_def)
      then have "next_piece (model (row_request row)) a [t]" using next_piece_token [OF a(2)] by simp
      note T = track_received [OF track a(2) this]
      show ?thesis
        unfolding row_true_def xx row_next_def row_results_def fst_conv snd_conv if_not_P [OF False] by (rule conjI [OF T])
    qed
    then show "\<exists>a. get_active s (row_request (fst x)) = Some a \<and>
        row_true model fst (\<lambda>a x. row_next a (fst x) (snd x)) (\<lambda>a x. row_results a (fst x) (snd x)) a x"
      using a(1) by (simp add: xx)
  qed
qed

lemma verify_running:
  assumes run: "running model l s" and fl: "sc_in_flight s = Some batch" and kind: "bt_kind batch = Verify" and room: "roomy s"
    and eq: "complete_verify_batch h s (bt_id batch) (true_argmax model s batch) = Some (s', v)"
  shows "running model l s'"
proof -
  have inv: "sched_inv s" and tr: "truthful model l s" using run by (simp_all add: running_def)
  let ?rows = "bt_sequences batch" and ?w = "next_n batch" and ?am = "true_argmax model s batch"
  let ?preds = "\<lambda>row. row_predictions (model (row_request row)) (row_history s row) (tl (row_tokens row))"
  note I = in_flight_inv [OF inv fl] and D = core_invD(5) [OF in_flight_inv(1) [OF inv fl]]
  have tk: "row_tokens row \<noteq> []" "length (?preds row) = ?w" if "row \<in> set ?rows" for row
  proof -
    show ne: "row_tokens row \<noteq> []" using row_active [OF I(1) that] by (auto simp: row_ok_def)
    have "length (row_tokens row) = ?w" using I(2) that by (simp add: batch_ok_def)
    then show "length (?preds row) = ?w" using ne by (cases "row_tokens row") (simp_all add: row_predictions_def)
  qed
  have am: "?am = concat (map ?preds ?rows)" by (simp add: true_argmax_def)
  have "map length (map ?preds ?rows) = map (\<lambda>_. ?w) ?rows" using tk(2) by simp
  then have "length ?am = length ?rows * ?w"
    unfolding am length_concat by (simp only: sum_list_triv of_nat_id)
  then obtain s1 where s1: "complete_verify_batch h s (bt_id batch) ?am = Some (s1, Inr (verify_report s batch ?am))" "sched_inv s1"
    "rows_frame (complete_cost s) (s\<lparr>sc_in_flight := None\<rparr>) s1 (verify_next s batch ?am) (verify_results s batch ?am)"
    using complete_verify_batch_ok [OF inv fl kind roomyD(3) [OF room], where h = h] by blast
  have s': "s1 = s'" using eq s1(1) by simp
  show ?thesis
  proof (rule completed_running [OF run s1(2) [unfolded s'] s1(3) [unfolded s' verify_next_def verify_results_def] finishes_verified])
    have "map (\<lambda>x. row_request (snd x)) (enumerate 0 ?rows) = map row_request ?rows"
      using arg_cong [OF map_snd_enumerate [of 0 ?rows], of "map row_request"] unfolding map_map comp_def .
    then show "distinct (map (\<lambda>x. row_request (snd x)) (enumerate 0 ?rows))" using D by simp
    fix x assume x: "x \<in> set (enumerate 0 ?rows)"
    obtain i row where xx: "x = (i, row)" by (cases x)
    have i: "i < length ?rows" "?rows ! i = row" using x xx by (auto simp: in_set_enumerate_eq)
    then have row: "row \<in> set ?rows" by force
    obtain a where a: "get_active s (row_request row) = Some a" "request_ok (max_len s) a" using row_active [OF I(1) row] by blast
    have track: "on_track (model (row_request row)) a" using tr a(1) by (simp add: truthful_def)
    have "take ?w (drop (i * ?w) ?am) = ?preds row"
      unfolding am using concat_chunk [of "map ?preds ?rows" ?w i] tk(2) i by auto
    then have piece: "next_piece (model (row_request row)) a (row_produced ?w ?am a x)"
      using next_piece_verified [OF a(2) tk(1) [OF row], of "model (row_request row)"] a(1)
      by (simp add: row_produced_def xx row_history_def)
    have "row_true model snd (\<lambda>a x. received a (row_produced ?w ?am a x)) (\<lambda>a x. results (row_request (snd x)) a (row_produced ?w ?am a x)) a x"
      unfolding row_true_def xx snd_conv by (rule conjI [OF track_received [OF track a(2) piece [unfolded xx]]])
    then show "\<exists>a. get_active s (row_request (snd x)) = Some a \<and>
        row_true model snd (\<lambda>a x. received a (row_produced ?w ?am a x)) (\<lambda>a x. results (row_request (snd x)) a (row_produced ?w ?am a x)) a x"
      using a(1) xx by auto
  qed
qed

subsection \<open>The other operations\<close>

text \<open>A step that leaves the requests alone, up to their phases.\<close>

lemma quiet_running:
  assumes run: "running model l s" and inv: "sched_inv s'" and same: "same_requests s s'"
    and rest: "sc_finished s' = sc_finished s" "sc_next_request s' = sc_next_request s" "sc_options s' = sc_options s"
      "sc_pending s' = sc_pending s" "kv_config (sc_kv s') = kv_config (sc_kv s)"
  shows "running model l s'"
proof -
  have ac: "accounted l s" and tr: "truthful model l s" and bud: "budget_ok s" and inv0: "sched_inv s"
    using run by (simp_all add: running_def)
  note G = same_requests_get [OF same]
  have "budget_ok s'"
  proof (rule budget_mono [OF bud sched_inv_active [OF inv0] sched_inv_active [OF inv]])
    show "\<exists>a. get_active s r = Some a \<and> aq_prompt a' = aq_prompt a \<and> aq_generation a' = aq_generation a"
      if "get_active s' r = Some a'" for r a'
      using G(1) [OF that] forget_eq by metis
  qed (use rest in simp_all)
  moreover have "accounted l s'" using ac G(2) rest by (simp add: accounted_def)
  moreover have "lg_requests l r = Some (aq_prompt a', aq_generation a') \<and> on_track (model r) a'" if g: "get_active s' r = Some a'" for r a'
  proof -
    obtain a where a: "get_active s r = Some a" "forget_phase a' = forget_phase a" using G(1) [OF g] by blast
    show ?thesis using tr a(1) forget_eq [OF a(2)] on_track_forget [OF a(2)] by (simp add: truthful_def)
  qed
  ultimately show ?thesis using inv tr rest by (simp add: running_def truthful_def)
qed

lemma fail_running:
  assumes run: "running model l s" and fl: "sc_in_flight s = Some batch" and room: "roomy s"
    and eq: "fail_batch s (bt_id batch) = Some (s', v)"
  shows "running model l s'"
proof -
  have inv: "sched_inv s" using run by (simp add: running_def)
  obtain s1 where s1: "fail_batch s (bt_id batch) = Some (s1, Inr ())" "sched_inv s1"
    "rows_frame (complete_cost s) (s\<lparr>sc_in_flight := None\<rparr>) s1 (restore_next (bt_kind batch) (bt_sequences batch) (get_active s)) []"
    using fail_batch_ok [OF inv fl roomyD(3) [OF room]] by blast
  have s': "s1 = s'" using eq s1(1) by simp
  note F = rows_frameD [OF s1(3) [unfolded s']]
  have "same_requests s s'"
    unfolding same_requests_def F(1)
    by (auto simp: restore_next_def restored_def forget_phase_def option.map_comp comp_def map_option_case split: option.splits)
  then show ?thesis using quiet_running [OF run s1(2) [unfolded s']] F by simp
qed

lemma cancel_running:
  assumes run: "running model l s" and room: "roomy s" and eq: "cancel s r = Some (s', Inr (Some c))"
  shows "running model (l\<lparr>lg_cancelled := insert r (lg_cancelled l)\<rparr>) s'"
proof -
  have ac: "accounted l s" and tr: "truthful model l s" and bud: "budget_ok s" and inv: "sched_inv s"
    using run by (simp_all add: running_def)
  have C: "removed s r s'" "sched_inv s'" "budget_ok s'" "r \<in> pr_id ` set (sc_pending s) \<union> dom (get_active s)"
    using cancel_ok [OF inv roomyD(4) [OF room], of r] eq bud by auto
  note R = removed_facts [OF C(1)]
  note f = R(4,9)
  have "pr_id ` set (sc_pending s') = pr_id ` set (sc_pending s) - {r}" "dom (get_active s') = dom (get_active s) - {r}"
    unfolding R(1,2) by auto
  then have "accounted (l\<lparr>lg_cancelled := insert r (lg_cancelled l)\<rparr>) s'"
    using ac split_ids_cancel [OF _ C(4)] f by (simp add: accounted_def)
  moreover have "truthful model (l\<lparr>lg_cancelled := insert r (lg_cancelled l)\<rparr>) s'"
    using tr unfolding truthful_def R(1,2) f by (auto split: if_splits)
  ultimately show ?thesis using C(2,3) by (simp add: running_def)
qed

lemma pop_running:
  assumes run: "running model l s" and eq: "pop_finished s = (s', Some f)"
  shows "running model (l\<lparr>lg_delivered := lg_delivered l @ [f]\<rparr>) s'"
proof -
  obtain fs where fs: "sc_finished s = f # fs" "s' = s\<lparr>sc_finished := fs\<rparr>"
    using eq by (auto simp: pop_finished_def split: list.splits)
  have inv: "core_inv (s\<lparr>sc_finished := fs\<rparr>) k rows b = core_inv s k rows b" for k rows b
    by (simp add: core_inv_def limits_ok_def queue_ok_def)
  have "sched_inv s'" using run unfolding fs(2) by (auto simp: running_def sched_inv_def batch_ok_def inv split: option.splits)
  then show ?thesis using run fs(1) unfolding running_def fs(2)
    by (simp add: accounted_def truthful_def budget_ok_def budget_sum_def)
qed

lemma submit_running:
  assumes run: "running model l s" and eq: "submit_with_sampler s prompt g smp = Some (s', Inr r)"
  shows "running model (l\<lparr>lg_requests := (lg_requests l)(r \<mapsto> (prompt, g))\<rparr>) s'"
proof -
  have ac: "accounted l s" and tr: "truthful model l s" and bud: "budget_ok s" and inv: "sched_inv s"
    using run by (simp_all add: running_def)
  have "kv_inv (sc_kv s)" using inv by (auto simp: sched_inv_def batch_ok_def core_inv_def split: option.splits)
  then have S: "s' = submitted s prompt g smp" "r = RequestId (sc_next_request s)" "admissible s prompt g"
    using submit_cases [of s prompt g smp] eq by auto
  note inv' = submitted_inv [OF inv S(3), of smp]
  have ids: "RequestId ` {1..<Suc (sc_next_request s)} = insert r (RequestId ` {1..<sc_next_request s})"
    "r \<notin> RequestId ` {1..<sc_next_request s}"
    using ac by (auto simp: accounted_def S(2) atLeastLessThanSuc)
  have new: "lg_requests l r = None" using ac ids(2) unfolding accounted_def by blast
  have old: "r' \<noteq> r" if "lg_requests l r' = Some x" for r' x using new that by auto
  have next1: "sc_next_request s' = Suc (sc_next_request s)" "get_active s' = get_active s" by (simp_all add: S(1) submitted_def)
  have "accounted (l\<lparr>lg_requests := (lg_requests l)(r \<mapsto> (prompt, g))\<rparr>) s'"
  proof (cases "gen_max_new_tokens g = 0")
    case True
    then show ?thesis using ac split_ids_new(2) [OF _ ids(2), of _ _ "map fg_request (lg_delivered l @ sc_finished s)"] unfolding accounted_def next1 ids(1)
      by (simp add: S(1) submitted_def S(2) [symmetric])
  next
    case False
    then show ?thesis using ac split_ids_new(1) [OF _ ids(2)] unfolding accounted_def next1 ids(1)
      by (simp add: S(1) submitted_def S(2) [symmetric])
  qed
  moreover have "truthful model (l\<lparr>lg_requests := (lg_requests l)(r \<mapsto> (prompt, g))\<rparr>) s'"
  proof -
    have act: "lg_requests l r' = Some (aq_prompt a, aq_generation a) \<and> on_track (model r') a" if "get_active s r' = Some a" for r' a
      using tr that unfolding truthful_def by blast
    have pend: "lg_requests l (pr_id p) = Some (pr_prompt p, pr_generation p)" if "p \<in> set (sc_pending s)" for p
      using tr that unfolding truthful_def by blast
    have fin: "\<exists>g. lg_requests l (fg_request f) = Some (fg_prompt f, g) \<and> complete_result (model (fg_request f)) g f"
      if "f \<in> set (lg_delivered l @ sc_finished s)" for f
      using tr that unfolding truthful_def by blast
    have "complete_result (model r) g \<lparr>fg_request = r, fg_prompt = prompt, fg_generated = [], fg_stopped_on_eos = False\<rparr>"
      if "gen_max_new_tokens g = 0"
      using that by (simp add: complete_result_def)
    then show ?thesis
      using act pend fin old unfolding truthful_def next1(2) S(1) submitted_def S(2) [symmetric] by (auto; metis)
  qed
  ultimately show ?thesis using inv' bud by (simp add: running_def S(1))
qed

end
