(* ===== verification/Batch_Sampling.thy ===== *)
theory Batch_Sampling
  imports Batch_Sched_Serve
begin

text \<open>
  Selecting the tokens of a batch from its logits (\<open>continuous_batch/sampling.rs\<close>): the greedy choice
  against the strict argmax of \<open>runtime/numerics.rs\<close>, the selection loop, and storing the samplers of
  a completed batch.
\<close>

subsection \<open>The greatest logit\<close>

definition first_max :: "f32 list \<Rightarrow> usize \<Rightarrow> bool" where
  "first_max xs i \<longleftrightarrow> i < length xs \<and> xs ! i \<noteq> F32_NaN \<and>
     (\<forall>j < length xs. xs ! j \<noteq> F32_NaN \<longrightarrow> \<not> f32_less (xs ! i) (xs ! j) \<and> (j < i \<longrightarrow> f32_less (xs ! j) (xs ! i)))"

lemma f32_less_trans: "f32_less x y \<Longrightarrow> f32_less y z \<Longrightarrow> f32_less x z"
  by (cases x; cases y; cases z) (auto split: f32.splits)

lemma f32_less_irrefl [simp]: "\<not> f32_less x x"
  by (cases x) auto

lemma f32_less_total: "x \<noteq> F32_NaN \<Longrightarrow> y \<noteq> F32_NaN \<Longrightarrow> f32_less x y \<or> x = y \<or> f32_less y x"
  by (cases x; cases y) auto

text \<open>What a scan has found after a prefix.\<close>

definition best_of :: "f32 list \<Rightarrow> (usize \<times> f32) option \<Rightarrow> bool" where
  "best_of xs best \<longleftrightarrow>
     (case best of
        None \<Rightarrow> \<forall>x \<in> set xs. x = F32_NaN
      | Some (i, x) \<Rightarrow> first_max xs i \<and> x = xs ! i)"

lemma best_of_skip: "best_of xs best \<Longrightarrow> best_of (xs @ [F32_NaN]) best"
  by (auto simp: best_of_def first_max_def nth_append less_Suc_eq split: option.splits)

lemma best_of_step:
  assumes "best_of xs best" "x \<noteq> F32_NaN"
  shows "best_of (xs @ [x]) (if case best of None \<Rightarrow> True | Some (_, y) \<Rightarrow> f32_less y x then Some (length xs, x) else best)"
proof (cases best)
  case None
  then have "\<forall>y \<in> set xs. y = F32_NaN" using assms(1) by (simp add: best_of_def)
  then show ?thesis using None assms(2) by (auto simp: best_of_def first_max_def nth_append less_Suc_eq)
next
  case (Some b)
  obtain i y where b: "b = (i, y)" by (cases b)
  have m: "i < length xs" "y = xs ! i" "y \<noteq> F32_NaN"
    "\<And>j. j < length xs \<Longrightarrow> xs ! j \<noteq> F32_NaN \<Longrightarrow> \<not> f32_less y (xs ! j) \<and> (j < i \<longrightarrow> f32_less (xs ! j) y)"
    using assms(1) by (auto simp: Some b best_of_def first_max_def)
  show ?thesis
  proof (cases "f32_less y x")
    case True
    have "f32_less (xs ! j) x" if "j < length xs" "xs ! j \<noteq> F32_NaN" for j
      using m(4) [OF that] f32_less_total [OF that(2) m(3)] True f32_less_trans by blast
    moreover have "\<not> f32_less x (xs ! j)" if "j < length xs" "xs ! j \<noteq> F32_NaN" for j
      using calculation [OF that] f32_less_trans f32_less_irrefl by blast
    ultimately show ?thesis using True assms(2)
      by (auto simp: Some b best_of_def first_max_def nth_append less_Suc_eq)
  next
    case False
    then show ?thesis using m by (auto simp: Some b best_of_def first_max_def nth_append less_Suc_eq)
  qed
qed

lemma greedy_loop_best: "best_of done best \<Longrightarrow> best_of (done @ xs) (greedy_loop (enumerate (length done) xs) best)"
proof (induction xs arbitrary: "done" best)
  case (Cons x xs)
  show ?case
  proof (cases "x = F32_NaN")
    case True
    then show ?thesis using Cons.IH [OF best_of_skip [OF Cons.prems]] by simp
  next
    case False
    then show ?thesis using Cons.IH [OF best_of_step [OF Cons.prems False]] by simp
  qed
qed simp

lemma greedy_best: "best_of xs (greedy_loop (enumerate 0 xs) None)"
  using greedy_loop_best [of "[]" None xs] by (simp add: best_of_def)

lemma argmax_error: "(\<exists>x \<in> set xs. x = F32_NaN \<or> x = F32_Inf) \<Longrightarrow> \<exists>e. argmax_loop (enumerate n xs) best = Inl e \<and> re_kind e = Numerical"
  by (induction xs arbitrary: n best) auto

text \<open>
  The strict scan skips the masked entries, the greedy one starts from them; once a finite value
  has been seen they agree.
\<close>

lemma argmax_greedy:
  assumes "\<forall>x \<in> set xs. x \<noteq> F32_NaN \<and> x \<noteq> F32_Inf"
  shows "\<lbrakk>best = best' \<and> (\<forall>i x. best = Some (i, x) \<longrightarrow> f32_is_finite x) \<or> best = None \<and> (\<exists>i. best' = Some (i, F32_NegInf))\<rbrakk> \<Longrightarrow>
    \<exists>r. argmax_loop (enumerate n xs) best = Inr r \<and>
      (case r of None \<Rightarrow> best = None \<and> (\<forall>x \<in> set xs. \<not> f32_is_finite x)
       | Some (i, x) \<Rightarrow> greedy_loop (enumerate n xs) best' = Some (i, x) \<and> f32_is_finite x)"
  using assms
proof (induction xs arbitrary: n best best')
  case Nil
  then show ?case by (auto split: option.splits)
next
  case (Cons x xs)
  have ok: "\<forall>y \<in> set xs. y \<noteq> F32_NaN \<and> y \<noteq> F32_Inf" using Cons.prems(2) by simp
  show ?case
  proof (cases x)
    case F32_NegInf
    let ?b' = "if case best' of None \<Rightarrow> True | Some (_, y) \<Rightarrow> f32_less y F32_NegInf then Some (n, F32_NegInf) else best'"
    have "\<not> f32_less y F32_NegInf" for y by (cases y) simp_all
    then have "best = ?b' \<and> (\<forall>i x. best = Some (i, x) \<longrightarrow> f32_is_finite x) \<or> best = None \<and> (\<exists>i. ?b' = Some (i, F32_NegInf))"
      using Cons.prems(1) by (auto split: option.splits)
    from Cons.IH [OF this ok, of "Suc n"] obtain r where r: "argmax_loop (enumerate (Suc n) xs) best = Inr r"
      "case r of None \<Rightarrow> best = None \<and> (\<forall>x \<in> set xs. \<not> f32_is_finite x)
       | Some (i, x) \<Rightarrow> greedy_loop (enumerate (Suc n) xs) ?b' = Some (i, x) \<and> f32_is_finite x" by blast
    show ?thesis using r by (intro exI [of _ r], cases r) (simp_all add: F32_NegInf f32_is_finite_def)
  next
    case (F32_Fin k)
    let ?b = "if case best of None \<Rightarrow> True | Some (_, y) \<Rightarrow> f32_less y x then Some (n, x) else best"
    let ?b' = "if case best' of None \<Rightarrow> True | Some (_, y) \<Rightarrow> f32_less y x then Some (n, x) else best'"
    have e: "?b = ?b' \<and> (\<forall>i x. ?b = Some (i, x) \<longrightarrow> f32_is_finite x)" "?b \<noteq> None"
      using Cons.prems(1) F32_Fin by (auto simp: f32_is_finite_def split: option.splits)
    then have "?b = ?b' \<and> (\<forall>i x. ?b = Some (i, x) \<longrightarrow> f32_is_finite x) \<or> ?b = None \<and> (\<exists>i. ?b' = Some (i, F32_NegInf))" by blast
    from Cons.IH [OF this ok, of "Suc n"] obtain r where r: "argmax_loop (enumerate (Suc n) xs) ?b = Inr r"
      "case r of None \<Rightarrow> ?b = None \<and> (\<forall>x \<in> set xs. \<not> f32_is_finite x)
       | Some (i, x) \<Rightarrow> greedy_loop (enumerate (Suc n) xs) ?b' = Some (i, x) \<and> f32_is_finite x" by blast
    have fin: "f32_is_finite x" using F32_Fin by (simp add: f32_is_finite_def)
    have loops: "argmax_loop (enumerate n (x # xs)) best = argmax_loop (enumerate (Suc n) xs) ?b"
      "greedy_loop (enumerate n (x # xs)) best' = greedy_loop (enumerate (Suc n) xs) ?b'"
      using Cons.prems(2) fin by simp_all
    obtain i y where i: "r = Some (i, y)"
    proof (cases r)
      case None
      with r(2) have "?b = None" by (simp only: option.case)
      then show ?thesis using e(2) by contradiction
    qed auto
    show ?thesis
      unfolding loops using r(2) unfolding i by (intro exI [of _ r] conjI [OF r(1)]) (simp only: i option.case prod.case)
  qed (use Cons.prems(2) in simp_all)
qed

definition maskable :: "f32 list \<Rightarrow> bool" where
  "maskable xs \<longleftrightarrow> (\<forall>x \<in> set xs. x \<noteq> F32_NaN \<and> x \<noteq> F32_Inf) \<and> (\<exists>x \<in> set xs. f32_is_finite x)"

lemma checked_argmax_ok:
  assumes "maskable xs"
  shows "\<exists>i x. checked_argmax xs = Inr i \<and> first_max xs i \<and> greedy_loop (enumerate 0 xs) None = Some (i, x)"
proof -
  obtain r where r: "argmax_loop (enumerate 0 xs) None = Inr r"
    "case r of None \<Rightarrow> None = (None :: (nat \<times> f32) option) \<and> (\<forall>x \<in> set xs. \<not> f32_is_finite x)
     | Some (i, x) \<Rightarrow> greedy_loop (enumerate 0 xs) None = Some (i, x) \<and> f32_is_finite x"
    using argmax_greedy [of xs None None 0] assms unfolding maskable_def by blast
  then obtain i x where i: "r = Some (i, x)" "greedy_loop (enumerate 0 xs) None = Some (i, x)"
    using assms by (cases r) (auto simp: maskable_def)
  then have "first_max xs i" using greedy_best [of xs] by (simp add: best_of_def)
  then show ?thesis using r(1) i by (simp add: checked_argmax_def)
qed

lemma checked_argmax_refused:
  assumes "\<not> maskable xs"
  shows "\<exists>e. checked_argmax xs = Inl e \<and> re_kind e = Numerical"
proof (cases "\<exists>x \<in> set xs. x = F32_NaN \<or> x = F32_Inf")
  case True
  then show ?thesis using argmax_error [OF True, of 0 None] by (auto simp: checked_argmax_def)
next
  case False
  then have nf: "\<forall>x \<in> set xs. x \<noteq> F32_NaN \<and> x \<noteq> F32_Inf" "\<forall>x \<in> set xs. \<not> f32_is_finite x" using assms by (auto simp: maskable_def)
  obtain r where r: "argmax_loop (enumerate 0 xs) None = Inr r"
    "case r of None \<Rightarrow> None = (None :: (nat \<times> f32) option) \<and> (\<forall>x \<in> set xs. \<not> f32_is_finite x)
     | Some (i, x) \<Rightarrow> greedy_loop (enumerate 0 xs) None = Some (i, x) \<and> f32_is_finite x"
    using argmax_greedy [OF nf(1), of None None 0] by blast
  have "r = None"
  proof (cases r)
    case (Some p)
    obtain i x where p: "p = (i, x)" by (cases p)
    then have "first_max xs i" "x = xs ! i" "f32_is_finite x" using r(2) Some greedy_best [of xs] by (auto simp: best_of_def)
    then show ?thesis using nf(2) by (auto simp: first_max_def)
  qed
  then show ?thesis using r(1) by (simp add: checked_argmax_def)
qed

text \<open>
  C17. The strict argmax accepts exactly the rows without NaN and positive infinity that are not
  entirely masked; it returns the first position of the greatest value, which is also the token
  the scheduler picks greedily, and every other row is a numerical error.
\<close>

theorem checked_argmax_correct:
  "if (\<forall>x \<in> set xs. x \<noteq> F32_NaN \<and> x \<noteq> F32_Inf) \<and> (\<exists>x \<in> set xs. f32_is_finite x)
   then \<exists>i. checked_argmax xs = Inr i \<and> first_max xs i \<and>
     greedy_token xs = (if i < 2 ^ 31 then Inr (int i) else Inl VocabularyOverflow)
   else \<exists>e. checked_argmax xs = Inl e \<and> re_kind e = Numerical"
proof (cases "maskable xs")
  case True
  then obtain i x where "checked_argmax xs = Inr i" "first_max xs i" "greedy_loop (enumerate 0 xs) None = Some (i, x)"
    using checked_argmax_ok by blast
  then show ?thesis using True unfolding maskable_def [symmetric] by (simp add: greedy_token_def)
next
  case False
  then show ?thesis using checked_argmax_refused [of xs] unfolding maskable_def [symmetric] by simp
qed

theorem checked_argmax_correct_witness:
  "checked_argmax [F32_NegInf, F32_Fin 3, F32_Fin 3] = Inr 1 \<and> first_max [F32_NegInf, F32_Fin 3, F32_Fin 3] 1"
  using checked_argmax_correct [of "[F32_NegInf, F32_Fin 3, F32_Fin 3]"]
  by (simp add: f32_is_finite_def checked_argmax_def ok_then_def)

subsection \<open>Selecting the tokens of a batch\<close>

text \<open>The logits of a row and what is chosen from them.\<close>

definition row_logits :: "f32 list \<Rightarrow> usize \<Rightarrow> usize \<Rightarrow> f32 list" where
  "row_logits logits vocabulary i = take vocabulary (drop (i * vocabulary) logits)"

definition row_choice ::
  "('smp \<Rightarrow> f32 list \<Rightarrow> token list \<Rightarrow> token list \<Rightarrow> (unit + token) \<times> 'smp) \<Rightarrow> 'smp scheduler \<Rightarrow> f32 list \<Rightarrow> usize \<Rightarrow>
   nat \<Rightarrow> scheduled_sequence \<Rightarrow> batch_error + token" where
  "row_choice sample s logits vocabulary i row =
     (case get_active s (row_request row) of
        None \<Rightarrow> Inl (MissingRequest (row_request row))
      | Some a \<Rightarrow> fst (sampler_choice sample s (row_request row) (row_logits logits vocabulary i) (aq_sampler a)))"

text \<open>The rows of the batch with their samplers in the state of the selection.\<close>

definition selectable :: "'smp scheduler \<Rightarrow> nat \<Rightarrow> (request_id \<times> 'smp option) list \<Rightarrow> scheduled_sequence list \<Rightarrow> bool" where
  "selectable s b state rows \<longleftrightarrow> om_ok state \<and> distinct (map row_request rows) \<and>
     (\<forall>row \<in> set rows. \<exists>a. get_active s (row_request row) = Some a \<and> aq_phase a = InFlight b \<and>
        map_of state (row_request row) = Some (aq_sampler a))"

lemma selectable_tail:
  "selectable s b state (row # rows) \<Longrightarrow> selectable s b state rows"
  "selectable s b state (row # rows) \<Longrightarrow> selectable s b (om_remove (row_request row) state) rows"
proof -
  assume a: "selectable s b state (row # rows)"
  then show "selectable s b state rows" by (simp add: selectable_def)
  from a have "row_request row \<notin> row_request ` set rows" by (simp add: selectable_def)
  then have "row_request row' \<noteq> row_request row" if "row' \<in> set rows" for row' using imageI [OF that, of row_request] by metis
  then show "selectable s b (om_remove (row_request row) state) rows" using a by (simp add: selectable_def)
qed

lemma select_row_ok:
  assumes "selectable s b state (row # rows)" "(i + 1) * vocabulary \<le> length logits"
  shows "(\<exists>e. select_row (sampler_choice sample s) clear s b logits vocabulary (i, row) (state, tokens, samplers) = Some (Inl e)) \<or>
    (\<exists>t state' samplers'. select_row (sampler_choice sample s) clear s b logits vocabulary (i, row) (state, tokens, samplers) =
        Some (Inr (state', tokens @ [t], samplers')) \<and> selectable s b state' rows \<and>
      (samples_token s row \<longrightarrow> row_choice sample s logits vocabulary i row = Inr t))"
proof -
  obtain a where a: "get_active s (row_request row) = Some a" "aq_phase a = InFlight b" "map_of state (row_request row) = Some (aq_sampler a)"
    using assms(1) by (auto simp: selectable_def)
  have own: "row_owner_error s b row = None" using a by (simp add: row_owner_error_def)
  have sl: "sub_slice logits (i * vocabulary) ((i + 1) * vocabulary) = Some (row_logits logits vocabulary i)"
    using assms(2) by (simp add: sub_slice_def row_logits_def)
  let ?c = "sampler_choice sample s (row_request row) (row_logits logits vocabulary i) (aq_sampler a)"
  show ?thesis
  proof (cases "samples_token s row")
    case False
    then show ?thesis using own selectable_tail(1) [OF assms(1)] by (simp add: select_row_def)
  next
    case True
    note tail = selectable_tail(2) [OF assms(1)]
    obtain v n where c: "?c = (v, n)" by (cases ?c)
    then show ?thesis
      using True own sl a tail by (cases v) (simp_all add: select_row_def row_choice_def del: mult_Suc)
  qed
qed

lemma select_loop_ok:
  assumes "selectable s b state rows" "(n + length rows) * vocabulary \<le> length logits"
  shows "\<exists>v. try_loop (select_row (sampler_choice sample s) clear s b logits vocabulary) (enumerate n rows) (state, tokens, samplers) = Some v \<and>
    (\<forall>state' tokens' samplers'. v = Inr (state', tokens', samplers') \<longrightarrow>
      (\<exists>ts. tokens' = tokens @ ts \<and> length ts = length rows \<and>
        (\<forall>i < length rows. samples_token s (rows ! i) \<longrightarrow> row_choice sample s logits vocabulary (n + i) (rows ! i) = Inr (ts ! i))))"
  using assms
proof (induction rows arbitrary: n state tokens samplers)
  case (Cons row rows)
  let ?loop = "try_loop (select_row (sampler_choice sample s) clear s b logits vocabulary)"
  have "Suc n * vocabulary \<le> (n + length (row # rows)) * vocabulary" by (rule mult_le_mono1) simp
  then have le: "(n + 1) * vocabulary \<le> length logits" using Cons.prems(2) by (simp only: Suc_eq_plus1)
  from select_row_ok [OF Cons.prems(1) le, of sample clear tokens samplers] show ?case
  proof (elim disjE exE conjE)
    fix t state1 samplers1
    assume r: "select_row (sampler_choice sample s) clear s b logits vocabulary (n, row) (state, tokens, samplers) =
        Some (Inr (state1, tokens @ [t], samplers1))" and st: "selectable s b state1 rows"
      and t: "samples_token s row \<longrightarrow> row_choice sample s logits vocabulary n row = Inr t"
    have le': "(Suc n + length rows) * vocabulary \<le> length logits" using Cons.prems(2) by simp
    obtain v where v: "?loop (enumerate (Suc n) rows) (state1, tokens @ [t], samplers1) = Some v"
      "\<And>state' tokens' samplers'. v = Inr (state', tokens', samplers') \<Longrightarrow>
        \<exists>ts. tokens' = (tokens @ [t]) @ ts \<and> length ts = length rows \<and>
          (\<forall>i < length rows. samples_token s (rows ! i) \<longrightarrow> row_choice sample s logits vocabulary (Suc n + i) (rows ! i) = Inr (ts ! i))"
      using Cons.IH [OF st le', of "tokens @ [t]" samplers1] by blast
    have "\<exists>ts. tokens' = tokens @ ts \<and> length ts = length (row # rows) \<and>
        (\<forall>i < length (row # rows). samples_token s ((row # rows) ! i) \<longrightarrow>
          row_choice sample s logits vocabulary (n + i) ((row # rows) ! i) = Inr (ts ! i))"
      if v': "v = Inr (state', tokens', samplers')" for state' tokens' samplers'
    proof -
      obtain ts where ts: "tokens' = tokens @ t # ts" "length ts = length rows"
        "\<forall>i < length rows. samples_token s (rows ! i) \<longrightarrow> row_choice sample s logits vocabulary (Suc n + i) (rows ! i) = Inr (ts ! i)"
        using v(2) [OF v'] by auto
      then show ?thesis using t by (intro exI [of _ "t # ts"]) (auto simp: nth_Cons split: nat.splits)
    qed
    moreover have "?loop (enumerate n (row # rows)) (state, tokens, samplers) = Some v" using v(1) r by (simp add: try_op_def)
    ultimately show ?thesis by blast
  qed (simp add: try_op_def)
qed simp

lemma sampling_rows_ok:
  assumes "\<forall>row \<in> set rows. \<exists>a. get_active s (row_request row) = Some a"
  shows "sampling_rows s rows = Inr (map (\<lambda>row. (row_request row, aq_sampler (the (get_active s (row_request row))))) rows)"
  using assms by (induction rows) auto

lemma fold_om_insert:
  assumes "om_ok m"
  shows "om_ok (fold (\<lambda>(k, v). om_insert k v) xs m) \<and>
    map_of (fold (\<lambda>(k, v). om_insert k v) xs m) k = (case map_of (rev xs) k of Some v \<Rightarrow> Some v | None \<Rightarrow> map_of m k)"
  using assms
proof (induction xs arbitrary: m)
  case (Cons x xs)
  obtain a b where x: "x = (a, b)" by (cases x)
  have ok: "om_ok (om_insert a b m)" using Cons.prems by simp
  show ?case using Cons.IH [OF ok] Cons.prems by (cases "map_of (rev xs) k") (simp_all add: x map_add_def)
qed simp

lemma map_of_fold_om_insert:
  assumes "distinct (map fst xs)" "(k, v) \<in> set xs"
  shows "map_of (fold (\<lambda>(k, v). om_insert k v) xs []) k = Some v"
proof -
  have "map_of (rev xs) k = Some v" using assms by (intro map_of_is_SomeI) (simp_all add: rev_map [symmetric])
  then show ?thesis using fold_om_insert [of "[]" xs k] by (simp add: om_ok_def)
qed

text \<open>The logits are those of the model: what is chosen for a row that produces a token is its next one.\<close>

definition logits_true :: "(request_id \<Rightarrow> token list \<Rightarrow> token) \<Rightarrow>
    ('smp \<Rightarrow> f32 list \<Rightarrow> token list \<Rightarrow> token list \<Rightarrow> (unit + token) \<times> 'smp) \<Rightarrow> 'smp scheduler \<Rightarrow> scheduled_batch \<Rightarrow> f32 list \<Rightarrow> usize \<Rightarrow> bool" where
  "logits_true model sample s batch logits vocabulary \<longleftrightarrow>
     (\<forall>i < length (bt_sequences batch). let row = bt_sequences batch ! i in samples_token s row \<longrightarrow>
        row_choice sample s logits vocabulary i row = Inr (model (row_request row) (take (row_context row) (row_history s row))))"

lemma select_ok:
  assumes inv: "sched_inv s" and fl: "sc_in_flight s = Some batch"
  shows "\<exists>v. select_batch_tokens sample clear s (bt_id batch) logits vocabulary = Some v \<and>
    (\<forall>sel. v = Inr sel \<longrightarrow> sel_batch_id sel = bt_id batch \<and>
      (logits_true model sample s batch logits vocabulary \<longrightarrow> true_tokens model s batch (sel_tokens sel)))"
proof -
  let ?rows = "bt_sequences batch"
  let ?pairs = "map (\<lambda>row. (row_request row, aq_sampler (the (get_active s (row_request row))))) ?rows"
  let ?state = "fold (\<lambda>(r, smp). om_insert r smp) ?pairs []"
  note I = in_flight_inv [OF inv fl]
  have act: "\<exists>a. get_active s (row_request row) = Some a \<and> aq_phase a = InFlight (bt_id batch)" if "row \<in> set ?rows" for row
    using row_active [OF I(1) that] by auto
  have st: "batch_sampling_state s (bt_id batch) = Inr ?state"
    using fl sampling_rows_ok [of ?rows s] act by (simp add: batch_sampling_state_def in_flight_batch_def) blast
  have dist: "distinct (map fst ?pairs)" using core_invD(5) [OF I(1)] by (simp add: comp_def)
  have sel: "selectable s (bt_id batch) ?state ?rows"
    unfolding selectable_def
  proof (intro conjI ballI)
    show "om_ok ?state" using fold_om_insert [of "[]" ?pairs] by (simp add: om_ok_def)
    show "distinct (map row_request ?rows)" by (rule core_invD(5) [OF I(1)])
    fix row assume m: "row \<in> set ?rows"
    obtain a where a: "get_active s (row_request row) = Some a" "aq_phase a = InFlight (bt_id batch)" using act [OF m] by blast
    have "map_of ?state (row_request row) = Some (aq_sampler a)"
      by (rule map_of_fold_om_insert [OF dist]) (use m a in force)
    then show "\<exists>a. get_active s (row_request row) = Some a \<and> aq_phase a = InFlight (bt_id batch) \<and>
        map_of ?state (row_request row) = Some (aq_sampler a)" using a by blast
  qed
  show ?thesis
  proof (cases "vocabulary = 0 \<or> length ?rows * vocabulary \<noteq> length logits")
    case True
    then show ?thesis using st fl by (auto simp: select_batch_tokens_def select_batch_tokens_with_def in_flight_batch_def)
  next
    case False
    have le: "(0 + length ?rows) * vocabulary \<le> length logits" using False by simp
    obtain v where v: "try_loop (select_row (sampler_choice sample s) clear s (bt_id batch) logits vocabulary) (enumerate 0 ?rows) (?state, [], []) = Some v"
      "\<And>state' tokens' samplers'. v = Inr (state', tokens', samplers') \<Longrightarrow>
        \<exists>ts. tokens' = [] @ ts \<and> length ts = length ?rows \<and>
          (\<forall>i < length ?rows. samples_token s (?rows ! i) \<longrightarrow> row_choice sample s logits vocabulary (0 + i) (?rows ! i) = Inr (ts ! i))"
      using select_loop_ok [OF sel le, of sample clear "[]" "[]"] by blast
    have true: "true_tokens model s batch tokens'"
      if v': "v = Inr (state', tokens', samplers')" and lt: "logits_true model sample s batch logits vocabulary" for state' tokens' samplers'
    proof -
      obtain ts where ts: "tokens' = ts" "length ts = length ?rows"
        "\<And>i. i < length ?rows \<Longrightarrow> samples_token s (?rows ! i) \<Longrightarrow> row_choice sample s logits vocabulary i (?rows ! i) = Inr (ts ! i)"
        using v(2) [OF v'] by auto
      have "t = model (row_request row) (take (row_context row) (row_history s row))"
        if rt: "(row, t) \<in> set (zip ?rows ts)" and sm: "samples_token s row" for row t
      proof -
        obtain i where i: "i < length ?rows" "row = ?rows ! i" "t = ts ! i" using rt by (auto simp: in_set_zip)
        show ?thesis using ts(3) [OF i(1)] sm lt i unfolding logits_true_def by (auto simp: Let_def)
      qed
      then show ?thesis using ts(1,2) by (auto simp: true_tokens_def)
    qed
    have e: "select_batch_tokens sample clear s (bt_id batch) logits vocabulary =
        try_op (Some v) (\<lambda>(_, tokens, samplers). Some (Inr \<lparr>sel_batch_id = bt_id batch, sel_tokens = tokens, sel_samplers = samplers\<rparr>))"
      using st fl False v(1) by (simp add: select_batch_tokens_def select_batch_tokens_with_def in_flight_batch_def)
    show ?thesis
    proof (cases v)
      case (Inr w)
      obtain state' tokens' samplers' where w: "w = (state', tokens', samplers')" by (cases w)
      show ?thesis using e true Inr w by (simp add: try_op_def)
    qed (use e in \<open>simp add: try_op_def\<close>)
  qed
qed

subsection \<open>Completing a selection\<close>

text \<open>A sampler is stored beside its request; nothing else of the run depends on it.\<close>

definition with_sampler :: "request_id \<Rightarrow> 'smp \<Rightarrow> (request_id \<Rightarrow> 'smp active_request option) \<Rightarrow> request_id \<Rightarrow> 'smp active_request option" where
  "with_sampler r smp g r' = (if r' = r then map_option (\<lambda>a. a\<lparr>aq_sampler := Some smp\<rparr>) (g r) else g r')"

lemma store_sampler_fields:
  "sc_kv (store_sampler x s) = sc_kv s" "sc_config (store_sampler x s) = sc_config s" "sc_options (store_sampler x s) = sc_options s"
  "sc_pending (store_sampler x s) = sc_pending s" "sc_finished (store_sampler x s) = sc_finished s"
  "sc_in_flight (store_sampler x s) = sc_in_flight s" "sc_next_request (store_sampler x s) = sc_next_request s"
  "sc_next_batch (store_sampler x s) = sc_next_batch s" "sc_prefill_chunk (store_sampler x s) = sc_prefill_chunk s"
  "sc_speculative (store_sampler x s) = sc_speculative s"
  by (cases x; simp add: store_sampler_def split: option.splits)+

lemma store_sampler_active:
  assumes "om_ok (sc_active s)"
  shows "om_ok (sc_active (store_sampler (r, smp) s))" "length (sc_active (store_sampler (r, smp) s)) = length (sc_active s)"
    "get_active (store_sampler (r, smp) s) = with_sampler r smp (get_active s)"
proof -
  have "om_ok (sc_active (store_sampler (r, smp) s)) \<and> length (sc_active (store_sampler (r, smp) s)) = length (sc_active s) \<and>
    get_active (store_sampler (r, smp) s) r' = with_sampler r smp (get_active s) r'" for r'
    using assms by (auto simp: store_sampler_def with_sampler_def length_om_insert get_active_def set_active_def split: option.splits)
  then show "om_ok (sc_active (store_sampler (r, smp) s))" "length (sc_active (store_sampler (r, smp) s)) = length (sc_active s)"
    "get_active (store_sampler (r, smp) s) = with_sampler r smp (get_active s)" by blast+
qed

lemma slot_sampler [simp]: "slot lim ve (map_option (\<lambda>a. a\<lparr>aq_sampler := x\<rparr>) ao) kind ro b = slot lim ve ao kind ro b"
  by (cases ao; cases ve; cases ro; cases b) (simp_all add: slot_def request_ok_def split_beta)

lemma store_sampler_core:
  assumes "core_inv s kind rows b"
  shows "core_inv (store_sampler x s) kind rows b"
proof -
  obtain r smp where x: "x = (r, smp)" by (cases x)
  note D = core_invD [OF assms] and A = store_sampler_active [OF core_invD(2) [OF assms], of r smp] and F = store_sampler_fields [of x s]
  have "slot (max_len s) (seq_view (sc_kv s) r') (with_sampler r smp (get_active s) r') kind (row_of rows r') b" for r'
    using D(6) [of r'] by (cases "r' = r") (simp_all add: with_sampler_def)
  moreover have "limits_ok (store_sampler x s)" using D(3) A(2) F by (simp add: limits_ok_def x)
  moreover have "queue_ok (store_sampler x s)"
    using D(4) F A(3) by (auto simp: queue_ok_def x with_sampler_def)
  ultimately show ?thesis using D A F by (simp add: core_inv_def x)
qed

lemma store_sampler_inv: "sched_inv s \<Longrightarrow> sched_inv (store_sampler x s)"
  using store_sampler_core [of s _ _ _ x] store_sampler_fields [of x s]
  by (auto simp: sched_inv_def batch_ok_def split: option.splits)

lemma store_sampler_running:
  assumes run: "running model l s"
  shows "running model l (store_sampler x s)"
proof -
  obtain r smp where x: "x = (r, smp)" by (cases x)
  have inv: "sched_inv s" and ac: "accounted l s" and tr: "truthful model l s" and bud: "budget_ok s" using run by (simp_all add: running_def)
  note inv' = store_sampler_inv [OF inv, of x] and F = store_sampler_fields [of x s]
    and A = store_sampler_active(3) [OF sched_inv_active [OF inv], of r smp, folded x]
  have old: "\<exists>a. get_active s r' = Some a \<and> aq_prompt a' = aq_prompt a \<and> aq_generation a' = aq_generation a \<and> on_track m a' = on_track m a"
    if "get_active (store_sampler x s) r' = Some a'" for r' a' m
    using that unfolding A by (auto simp: with_sampler_def on_track_def split: if_splits)
  have "dom (get_active (store_sampler x s)) = dom (get_active s)" unfolding A by (auto simp: with_sampler_def split: if_splits)
  then have "accounted l (store_sampler x s)" using ac F by (simp add: accounted_def)
  moreover have "truthful model l (store_sampler x s)"
    unfolding truthful_def F
  proof (intro conjI allI impI)
    fix r' a' assume g: "get_active (store_sampler x s) r' = Some a'"
    obtain a where "get_active s r' = Some a" "aq_prompt a' = aq_prompt a" "aq_generation a' = aq_generation a"
      "on_track (model r') a' = on_track (model r') a" using old [OF g] by blast
    then show "lg_requests l r' = Some (aq_prompt a', aq_generation a')" "on_track (model r') a'" using tr by (simp_all add: truthful_def)
  qed (use tr in \<open>auto simp: truthful_def\<close>)
  moreover have "budget_ok (store_sampler x s)"
  proof (rule budget_mono [OF bud sched_inv_active [OF inv] sched_inv_active [OF inv']])
    show "\<exists>a. get_active s r' = Some a \<and> aq_prompt a' = aq_prompt a \<and> aq_generation a' = aq_generation a"
      if "get_active (store_sampler x s) r' = Some a'" for r' a'
      using old [OF that] by blast
  qed (simp_all add: F)
  ultimately show ?thesis using inv' by (simp add: running_def)
qed

lemma fold_store_sampler:
  "running model l s \<Longrightarrow> running model l (fold store_sampler xs s)"
  "sched_inv s \<Longrightarrow> sched_inv (fold store_sampler xs s)"
  "sc_in_flight (fold store_sampler xs s) = sc_in_flight s" "sc_speculative (fold store_sampler xs s) = sc_speculative s"
  by (induction xs arbitrary: s) (simp_all add: store_sampler_running store_sampler_inv store_sampler_fields)

lemma complete_selected_running:
  assumes run: "running model l s" and fl: "sc_in_flight s = Some batch" and kind: "bt_kind batch \<noteq> Verify" and room: "roomy s"
    and id: "sel_batch_id sel = bt_id batch" and tok: "true_tokens model s batch (sel_tokens sel)"
    and eq: "complete_selected_batch h s sel = Some (s', Inr u)"
  shows "running model l s'"
proof -
  obtain s1 where s1: "complete_batch h s (bt_id batch) (sel_tokens sel) = Some (s1, Inr ())" "s' = fold store_sampler (sel_samplers sel) s1"
    using eq id by (auto simp: complete_selected_batch_def sched_then_def split: bind_splits sum.splits)
  show ?thesis unfolding s1(2) by (rule fold_store_sampler(1) [OF complete_running [OF run fl kind room tok s1(1)]])
qed

end
