(* ===== verification/Batch_Sched_Reach.thy ===== *)
theory Batch_Sched_Reach
  imports Batch_Sampling
begin

text \<open>
  The states a scheduler can reach.  The public operations may be called in any order; the tokens
  handed to a completion are those of the model, and the clients that defer requests or hold back
  admissions may do so at any time.  The counters have to leave room for the call (\<open>roomy\<close>).  One use the code accepts is
  left out: a batch with drafts is completed by \<open>complete_verify_batch\<close> and not by \<open>complete_batch\<close>, which would commit
  the drafts unchecked.  What the device answers is defined on the history of the request (\<open>true_tokens\<close>), not on the tokens the
  batch carries.
\<close>

definition config_fits :: "batch_config \<Rightarrow> paged_kv_config \<Rightarrow> bool" where
  "config_fits config kvc \<longleftrightarrow> bc_max_batch_tokens config < usize_lim \<and> cf_max_sequence_length kvc < usize_lim \<and>
     bc_max_active_sequences config * cf_max_sequence_length kvc < u32_lim"

inductive serving :: "(nat \<Rightarrow> token list \<Rightarrow> nat) \<Rightarrow> (request_id \<Rightarrow> token list \<Rightarrow> token) \<Rightarrow> 'smp scheduler \<Rightarrow> ledger \<Rightarrow> bool"
  for h model where
  Start: "with_options config kvc options = Inr s \<Longrightarrow> config_fits config kvc \<Longrightarrow> serving h model s empty_ledger"
| Start_Paged: "new_paged config kvc = Inr s \<Longrightarrow> config_fits config kvc \<Longrightarrow> serving h model s empty_ledger"
| Submit: "serving h model s l \<Longrightarrow> submit_with_sampler s prompt g smp = Some (s', Inr r) \<Longrightarrow>
    serving h model s' (l\<lparr>lg_requests := (lg_requests l)(r \<mapsto> (prompt, g))\<rparr>)"
| Schedule: "serving h model s l \<Longrightarrow> roomy s \<Longrightarrow> schedule h s = Some (s', v) \<Longrightarrow> serving h model s' l"
| Complete: "serving h model s l \<Longrightarrow> roomy s \<Longrightarrow> sc_in_flight s = Some batch \<Longrightarrow> bt_kind batch \<noteq> Verify \<Longrightarrow>
    true_tokens model s batch tokens \<Longrightarrow> complete_batch h s (bt_id batch) tokens = Some (s', Inr u) \<Longrightarrow> serving h model s' l"
| Complete_Selected: "serving h model s l \<Longrightarrow> roomy s \<Longrightarrow> sc_in_flight s = Some batch \<Longrightarrow> bt_kind batch \<noteq> Verify \<Longrightarrow>
    sel_batch_id sel = bt_id batch \<Longrightarrow> true_tokens model s batch (sel_tokens sel) \<Longrightarrow>
    complete_selected_batch h s sel = Some (s', Inr ts) \<Longrightarrow> serving h model s' l"
| Complete_Verify: "serving h model s l \<Longrightarrow> roomy s \<Longrightarrow> sc_in_flight s = Some batch \<Longrightarrow> bt_kind batch = Verify \<Longrightarrow>
    complete_verify_batch h s (bt_id batch) (true_argmax model s batch) = Some (s', w) \<Longrightarrow> serving h model s' l"
| Fail: "serving h model s l \<Longrightarrow> roomy s \<Longrightarrow> sc_in_flight s = Some batch \<Longrightarrow>
    fail_batch s (bt_id batch) = Some (s', x) \<Longrightarrow> serving h model s' l"
| Lookahead: "serving h model s l \<Longrightarrow> sc_in_flight s = Some batch \<Longrightarrow>
    reserve_lookahead s batch wanted = Some (s', y) \<Longrightarrow> serving h model s' l"
| Cancel: "serving h model s l \<Longrightarrow> roomy s \<Longrightarrow> cancel s r = Some (s', Inr (Some c)) \<Longrightarrow>
    serving h model s' (l\<lparr>lg_cancelled := insert r (lg_cancelled l)\<rparr>)"
| Deliver: "serving h model s l \<Longrightarrow> pop_finished s = (s', Some f) \<Longrightarrow>
    serving h model s' (l\<lparr>lg_delivered := lg_delivered l @ [f]\<rparr>)"
| Prefix_Caching: "serving h model s l \<Longrightarrow> sched_set_prefix_caching s on = Some s' \<Longrightarrow> serving h model s' l"
| Speculate: "serving h model s l \<Longrightarrow> set_speculative_decoding s spec = Some (s', z) \<Longrightarrow>
    (\<forall>c. spec = Some c \<longrightarrow> max_len s + sp_draft_tokens c < usize_lim) \<Longrightarrow> serving h model s' l"
| Token_Limit: "serving h model s l \<Longrightarrow> set_batch_token_limit s limit = Some (s', z) \<Longrightarrow> limit < usize_lim \<Longrightarrow> serving h model s' l"
| Hold: "serving h model s l \<Longrightarrow> serving h model (s\<lparr>sc_deferred := deferred, sc_ceiling := ceiling\<rparr>) l"

lemma start_running:
  assumes "with_options config kvc options = Inr s" "config_fits config kvc"
  shows "running model empty_ledger s"
proof -
  note W = with_options_inv [OF assms(1)]
  have "sched_inv s" "budget_ok s" "sc_finished s = []" "sc_pending s = []" "get_active s = Map.empty" "sc_next_request s = 1"
    using W assms(2) by (auto simp: config_fits_def)
  then show ?thesis by (simp add: running_def accounted_def truthful_def empty_ledger_def split_ids_def)
qed

lemma sched_inv_paged:
  assumes "sched_inv s" "sc_in_flight s = None" "0 < n"
  shows "sched_inv (s\<lparr>sc_prefill_chunk := Some n, sc_recompute := True\<rparr>)"
proof -
  have "get_active (s\<lparr>sc_prefill_chunk := Some n, sc_recompute := True\<rparr>) = get_active s" by (simp add: get_active_def [abs_def])
  then show ?thesis using assms by (simp add: sched_inv_def core_inv_def limits_ok_def queue_ok_def)
qed

lemma start_paged_running:
  assumes "new_paged config kvc = Inr s" "config_fits config kvc"
  shows "running model empty_ledger s"
proof -
  obtain s0 where s0: "with_options config kvc default_options = Inr s0"
    "s = s0\<lparr>sc_prefill_chunk := Some (bc_max_batch_tokens config), sc_recompute := True\<rparr>"
    using assms(1) by (auto simp: new_paged_def scheduler_new_def ok_then_def split: sum.splits)
  have run: "running model empty_ledger s0" by (rule start_running [OF s0(1) assms(2)])
  have fl: "sc_in_flight s0 = None" "0 < bc_max_batch_tokens config"
    using s0(1) by (auto simp: with_options_def ok_then_def batch_config_validate_def split: sum.splits if_splits)
  show ?thesis
    by (rule quiet_running [OF run]) (use run fl in \<open>simp_all add: s0(2) running_def sched_inv_paged same_requests_def get_active_def\<close>)
qed

text \<open>Every reachable state satisfies the invariant of the runs.\<close>

lemma serving_running: "serving h model s l \<Longrightarrow> running model l s"
proof (induction rule: serving.induct)
  case (Start config kvc options s)
  then show ?case by (rule start_running)
next
  case (Start_Paged config kvc s)
  then show ?case by (rule start_paged_running)
next
  case (Submit s l prompt g smp s' r)
  then show ?case by (intro submit_running) auto
next
  case (Schedule s l s' v)
  show ?case
  proof (cases "sc_in_flight s")
    case None
    have "sched_inv s" "budget_ok s" using Schedule.IH by (simp_all add: running_def)
    from schedule_served [OF this None Schedule.hyps(2), of h] Schedule.hyps(3)
    show ?thesis using served_running [OF Schedule.IH] by auto
  next
    case (Some b)
    then have "s' = s" using Schedule.hyps(3) by (simp add: schedule_def)
    then show ?thesis using Schedule.IH by simp
  qed
next
  case (Complete s l batch tokens s' u)
  then show ?case by (intro complete_running [OF Complete.IH]) auto
next
  case (Complete_Selected s l batch sel s' ts)
  then show ?case by (intro complete_selected_running [OF Complete_Selected.IH]) auto
next
  case (Complete_Verify s l batch s' w)
  then show ?case by (intro verify_running [OF Complete_Verify.IH]) auto
next
  case (Fail s l batch s' x)
  then show ?case by (intro fail_running [OF Fail.IH]) auto
next
  case (Lookahead s l batch wanted s' y)
  have "sched_inv s" using Lookahead.IH by (simp add: running_def)
  then obtain kv' where "s' = s\<lparr>sc_kv := kv'\<rparr>" "sched_inv s'" "kv_config kv' = kv_config (sc_kv s)"
    using reserve_lookahead_ok [OF _ Lookahead.hyps(2), of wanted] Lookahead.hyps(3) by auto
  then show ?case by (intro quiet_running [OF Lookahead.IH]) (simp_all add: same_requests_def)
next
  case (Cancel s l r s' c)
  then show ?case by (intro cancel_running) auto
next
  case (Deliver s l s' f)
  then show ?case by (intro pop_running) auto
next
  case (Prefix_Caching s l on s')
  have "sched_inv s" using Prefix_Caching.IH by (simp add: running_def)
  then obtain kv' where "s' = s\<lparr>sc_kv := kv'\<rparr>" "sched_inv s'" "kv_config kv' = kv_config (sc_kv s)"
    using set_prefix_caching_inv [of s on] Prefix_Caching.hyps(2) by auto
  then show ?case by (intro quiet_running [OF Prefix_Caching.IH]) (simp_all add: same_requests_def)
next
  case (Speculate s l spec s' z)
  have "sched_inv s" using Speculate.IH by (simp add: running_def)
  then have "sched_inv s'" using set_speculative_inv [OF _ _ Speculate.hyps(2)] Speculate.hyps(3) by blast
  moreover have "s' = s \<or> s' = s\<lparr>sc_speculative := spec\<rparr>"
    using Speculate.hyps(2) by (auto simp: set_speculative_decoding_def split: if_splits)
  ultimately show ?case by (intro quiet_running [OF Speculate.IH]) (auto simp: same_requests_def)
next
  case (Token_Limit s l limit s' z)
  have "sched_inv s" using Token_Limit.IH by (simp add: running_def)
  then have "sched_inv s'" using set_batch_token_limit_inv [OF _ Token_Limit.hyps(3,2)] by blast
  moreover have "s' = s \<or> s' = s\<lparr>sc_config := (sc_config s)\<lparr>bc_max_batch_tokens := limit\<rparr>\<rparr>"
    using Token_Limit.hyps(2) by (auto simp: set_batch_token_limit_def split: if_splits)
  ultimately show ?case by (intro quiet_running [OF Token_Limit.IH]) (auto simp: same_requests_def)
next
  case (Hold s l ceiling deferred)
  have g: "get_active (s\<lparr>sc_deferred := deferred, sc_ceiling := ceiling\<rparr>) = get_active s" by (simp add: get_active_def [abs_def])
  have "core_inv (s\<lparr>sc_deferred := deferred, sc_ceiling := ceiling\<rparr>) k rows b = core_inv s k rows b" for k rows b
    by (simp add: core_inv_def limits_ok_def queue_ok_def g)
  then have "sched_inv (s\<lparr>sc_deferred := deferred, sc_ceiling := ceiling\<rparr>)"
    using Hold.IH by (auto simp: running_def sched_inv_def batch_ok_def split: option.splits)
  then show ?case by (intro quiet_running [OF Hold.IH]) (simp_all add: same_requests_def g)
qed

end
