(* ===== verification/Batch_Sched_Live.thy ===== *)
theory Batch_Sched_Live
  imports Batch_Sched_Reach
begin

text \<open>
  Progress under the reserving admission policy: the page budgets of the active requests fit the
  pool together, so the next tokens of every active request fit it too and no request can be stuck
  behind the pages of the others.
\<close>

subsection \<open>Pages in use\<close>

lemma used_pages:
  assumes inv: "kv_inv kv"
  shows "cf_num_pages (kv_config kv) \<le>
    available_pages kv + (\<Sum>r \<in> dom (map_of (kv_sequences kv)). length (sq_pages (the (map_of (kv_sequences kv) r))))"
proof -
  let ?n = "cf_num_pages (kv_config kv)" and ?D = "dom (map_of (kv_sequences kv))"
  let ?pages = "\<lambda>r. sq_pages (the (map_of (kv_sequences kv) r))"
  have len: "length (kv_refs kv) = ?n" using pool_inv_okD(1) [OF kv_invD(1) [OF inv]] .
  let ?U = "{p. p < ?n \<and> ref_at (kv_refs kv) p = 0}" and ?R = "{p. p < ?n \<and> 0 < ref_at (kv_refs kv) p}"
  have av: "available_pages kv = card ?U" using kvp.avail_eq [OF kv_invD(1) [OF inv]] len by simp
  have "{..<?n} = ?U \<union> ?R" "?U \<inter> ?R = {}" by auto
  then have n: "?n = card ?U + card ?R" using card_Un_disjoint [of ?U ?R] by (metis (no_types, lifting) card_lessThan finite_Un finite_lessThan)
  have fin: "finite ?D" by (rule finite_dom_map_of)
  have "?R \<subseteq> (\<Union>r \<in> ?D. set (?pages r))"
  proof
    fix p assume "p \<in> ?R"
    then have "0 < page_total (kv_sequences kv) p" using kv_invD(6) [OF inv, of p] by simp
    then have "0 < (\<Sum>r \<in> ?D. count_list (?pages r) p)"
      using om.total_sum [OF kv_invD(3) [OF inv], of "\<lambda>_ s. count_list (sq_pages s) p"] by (simp add: page_total_def)
    then obtain r where "r \<in> ?D" "count_list (?pages r) p \<noteq> 0" by (metis (no_types, lifting) less_numeral_extra(3) sum.neutral)
    then show "p \<in> (\<Union>r \<in> ?D. set (?pages r))" by (metis UN_I count_notin)
  qed
  then have "card ?R \<le> card (\<Union>r \<in> ?D. set (?pages r))" using fin by (intro card_mono) auto
  also have "\<dots> \<le> (\<Sum>r \<in> ?D. card (set (?pages r)))" using fin by (rule card_UN_le)
  also have "\<dots> \<le> (\<Sum>r \<in> ?D. length (?pages r))" by (intro sum_mono card_length)
  finally show ?thesis using n av by simp
qed

subsection \<open>Every active request can go on\<close>

lemma history_budget:
  assumes "request_ok lim a" "c \<le> length (aq_history a)" "0 < bs"
  shows "div_ceil c bs \<le> budget bs a"
  unfolding budget_def using assms by (intro div_ceil_mono) (auto simp: request_ok_def)

lemma reserve_ready:
  assumes inv: "core_inv s kind [] None" and bud: "budget_ok s" and pol: "bo_kv_admission (sc_options s) = ReserveSequenceCapacity"
    and a: "get_active s r = Some a" and v: "seq_view (sc_kv s) r = Some (c, None)"
    and n: "0 < n" "c + n \<le> length (aq_history a)" and room: "kv_spare (sc_kv s) 1"
  shows "begin_ready (sc_kv s) r n"
proof -
  note D = core_invD [OF inv] and C = config_okD [OF kv_invD(2) [OF core_invD(1) [OF inv]]]
  let ?A = "dom (get_active s)" and ?seq = "map_of (kv_sequences (sc_kv s))"
  let ?b = "\<lambda>r. budget (block s) (the (get_active s r))" and ?p = "\<lambda>r. length (sq_pages (the (?seq r)))"
  have dom: "dom ?seq = ?A" using slot_dom [OF D(6)] by (auto simp: seq_view_None dom_def)
  have pages: "?p r' \<le> ?b r'" if r': "r' \<in> ?A" for r'
  proof -
    obtain a' where a': "get_active s r' = Some a'" using r' by auto
    obtain c' where c': "seq_view (sc_kv s) r' = Some (c', None)" "request_ok (max_len s) a'" "at_rest (aq_phase a') (aq_history a') c'"
      using resting [OF inv a'] by blast
    obtain q where q: "?seq r' = Some q" "length (sq_pages q) = div_ceil c' (block s)" using view_idle [OF D(1) c'(1)] by blast
    have "c' \<le> length (aq_history a')" using c'(3) by (auto simp: at_rest_def split: request_phase.splits)
    then show ?thesis using history_budget [OF c'(2) _ C(1)] q a' by simp
  qed
  have ra: "r \<in> ?A" using a by auto
  obtain q where q: "?seq r = Some q" "sq_committed q = c" "sq_pending q = None" using view_idle [OF D(1) v] by blast
  have ok: "request_ok (max_len s) a" using active_bound(2) [OF inv a] .
  have "div_ceil (c + n) (block s) \<le> ?b r" using history_budget [OF ok n(2) C(1)] a by simp
  moreover have "?b r + (\<Sum>r' \<in> ?A - {r}. ?b r') \<le> cf_num_pages (kv_config (sc_kv s))"
    using bud pol budget_sum_get [OF D(2)] sum.remove [OF finite_active ra, of ?b] by (simp add: budget_ok_def)
  moreover have "(\<Sum>r' \<in> ?A - {r}. ?p r') \<le> (\<Sum>r' \<in> ?A - {r}. ?b r')" using pages by (intro sum_mono) auto
  moreover have "cf_num_pages (kv_config (sc_kv s)) \<le> available_pages (sc_kv s) + (?p r + (\<Sum>r' \<in> ?A - {r}. ?p r'))"
    using used_pages [OF D(1)] sum.remove [OF finite_active ra, of ?p] unfolding dom by simp
  ultimately have "div_ceil (c + n) (block s) - length (sq_pages q) \<le> available_pages (sc_kv s)" using q(1) by simp
  moreover have "c + n \<le> max_len s" using n(2) ok by (auto simp: request_ok_def)
  ultimately show ?thesis using q n(1) room by (simp add: begin_ready_def kv_spare_def)
qed

lemma active_runnable:
  assumes inv: "core_inv s Prefill [] None" and bud: "budget_ok s" and pol: "bo_kv_admission (sc_options s) = ReserveSequenceCapacity"
    and a: "get_active s r = Some a" "r \<notin> sc_deferred s" and room: "kv_spare (sc_kv s) 1"
  shows "runnable s"
proof -
  obtain c where c: "seq_view (sc_kv s) r = Some (c, None)" "request_ok (max_len s) a" "at_rest (aq_phase a) (aq_history a) c"
    using resting [OF inv a(1)] by blast
  note ready = reserve_ready [OF inv bud pol a(1) c(1) _ _ room]
  show ?thesis
  proof (cases "aq_phase a")
    case NeedsPrefill
    then have lt: "c < length (aq_history a)" using c(3) by (simp add: at_rest_def)
    have "0 < chunk_len s a c" "c + chunk_len s a c \<le> length (aq_history a)"
      using lt core_invD(3) [OF inv] by (auto simp: chunk_len_def limits_ok_def Let_def split: option.splits)
    then have "prefillable s" using NeedsPrefill a c(1) ready unfolding prefillable_def by blast
    then show ?thesis by (simp add: runnable_def)
  next
    case (AwaitingDecode t)
    then have "decodable s" using a(1) c ready [of 1] by (auto simp: decodable_def at_rest_def)
    then show ?thesis by (simp add: runnable_def)
  qed (use c(3) in \<open>simp add: at_rest_def\<close>)
qed

text \<open>A call of \<open>schedule\<close> plans a batch when some request can be served.\<close>

definition servable :: "'smp scheduler \<Rightarrow> bool" where
  "servable s \<longleftrightarrow> (\<exists>r. get_active s r \<noteq> None \<and> r \<notin> sc_deferred s) \<or>
     (sc_active s = [] \<and> (\<exists>p \<in> set (sc_pending s). ready_pending s p))"

lemma admitted_ready:
  assumes adone: "admission_done s0 (cf_num_pages (kv_config (sc_kv s0)) - budget_sum s0)" and inv: "core_inv s0 Prefill [] None"
    and bud: "budget_ok s0" and adm: "admitted_frame n s s0" and sv: "servable s"
  shows "\<exists>r. get_active s0 r \<noteq> None \<and> r \<notin> sc_deferred s0"
proof (cases "\<exists>r. get_active s r \<noteq> None \<and> r \<notin> sc_deferred s")
  case True
  then show ?thesis using admitted_facts(4) [OF adm] admitted_frameD(8) [OF adm] by (metis not_None_eq)
next
  case False
  note F = admitted_frameD [OF adm] and A = admitted_facts [OF adm]
  obtain p where p: "sc_active s = []" "p \<in> set (sc_pending s)" "ready_pending s p" using sv False unfolding servable_def by blast
  have rp: "ready_pending s0 = ready_pending s" using F(8,10) by (simp add: ready_pending_def fun_eq_iff)
  have none: "get_active s r = None" for r using p(1) by (simp add: get_active_def)
  have "sc_active s0 \<noteq> []"
  proof
    assume e: "sc_active s0 = []"
    then have "p \<in> set (sc_pending s0)" using A(7) [OF p(2)] by (simp add: get_active_def)
    then obtain i where i: "position (ready_pending s0) (sc_pending s0) = Some i"
      using position_None [of "ready_pending s0"] p(3) rp by (metis not_None_eq)
    have "sc_pending s0 ! i \<in> set (sc_pending s0)" using position_Some [OF i] by auto
    moreover have "budget_sum s0 = 0" using e by (simp add: budget_sum_def om.total_def)
    ultimately show False
      using adone e i bud core_invD(3) [OF inv] by (auto simp: admission_done_def limits_ok_def budget_ok_def)
  qed
  then obtain r a where ra: "get_active s0 r = Some a"
    using om.entries_mem [OF core_invD(2) [OF inv]] by (cases "sc_active s0") (auto simp: get_active_def)
  then obtain p' where "r = pr_id p'" "ready_pending s p'" using A(5) [OF ra] none by auto
  then show ?thesis using ra F(8) by (auto simp: ready_pending_def)
qed

lemma schedule_plans:
  assumes inv: "sched_inv s" and bud: "budget_ok s" and idle: "sc_in_flight s = None" and room: "roomy s"
    and pol: "bo_kv_admission (sc_options s) = ReserveSequenceCapacity" and sv: "servable s"
  shows "\<exists>n s0 s' batch. admitted_frame n s s0 \<and> core_inv s0 Prefill [] None \<and> planned_from s0 s' batch \<and>
    schedule h s = Some (s'\<lparr>sc_in_flight := Some batch\<rparr>, Inr (Some batch))"
proof -
  note R = roomyD [OF room]
  obtain s0 where s0: "schedule h s = schedule_loop s0" "core_inv s0 Prefill [] None"
    "admitted_frame (length (sc_pending s) * (max_len s + 1)) s s0" "budget_ok s0"
    "admission_done s0 (cf_num_pages (kv_config (sc_kv s0)) - budget_sum s0)" "sc_next_batch s0 + 1 < usize_lim"
    "sched_spare s0 (card (held s0) * (max_len s0 + 1) + (length (sc_active s0) + max_len s0 + 2))"
    using schedule_promotes [OF inv idle bud R(1,2), of h] by blast
  obtain r a where r: "get_active s0 r = Some a" "r \<notin> sc_deferred s0" using admitted_ready [OF s0(5,2,4,3) sv] by auto
  have sp: "kv_spare (sc_kv s0) (Suc (length (sc_active s0)))" "kv_spare (sc_kv s0) 1"
    using s0(7) spare_mono [of "sc_kv s0" _ "Suc (length (sc_active s0))"] spare_mono [of "sc_kv s0" _ 1]
    by (auto simp: sched_spare_def)
  have "bo_kv_admission (sc_options s0) = ReserveSequenceCapacity" using pol admitted_frameD(9) [OF s0(3)] by simp
  then have "runnable s0" using active_runnable [OF s0(2,4) _ r sp(2)] by simp
  then obtain s' batch where "try_schedule s0 = Some (s', Inr (Some batch))" "planned_from s0 s' batch"
    using try_schedule_ok [OF s0(2) sp(1) s0(6)] by auto
  then show ?thesis using s0 by (auto simp: schedule_loop.simps [of s0])
qed

end
