(* ===== verification/Paged_Kv_Run.thy ===== *)
theory Paged_Kv_Run
  imports Paged_Kv_Prefix
begin

text \<open>
  Histories of the KV cache manager: any sequence of calls from a new manager, and what every
  reachable manager guarantees.
\<close>

subsection \<open>Operations and histories\<close>

datatype kv_op =
    SetPrefixCaching bool
  | CreateSequence request_id
  | CreateWithPrefix request_id "token list"
  | RegisterPrefix request_id "token list"
  | RemoveSequence request_id
  | BeginAppend request_id usize
  | ExtendAppend kv_reservation_id usize
  | CommitAppend kv_reservation_id
  | CommitPartial kv_reservation_id usize
  | CancelAppend kv_reservation_id
  | CommitAppends "kv_reservation_id list"
  | CancelAppends "kv_reservation_id list"
  | CommitPrefixes "(kv_reservation_id \<times> usize) list"

definition forget :: "'a kv_result \<Rightarrow> unit kv_result" where
  "forget r = map_option (\<lambda>(kv, v). (kv, case v of Inl e \<Rightarrow> Inl e | Inr _ \<Rightarrow> Inr ())) r"

fun kv_apply :: "(nat \<Rightarrow> token list \<Rightarrow> nat) \<Rightarrow> paged_kv \<Rightarrow> kv_op \<Rightarrow> unit kv_result" where
  "kv_apply h kv (SetPrefixCaching b) = map_option (\<lambda>kv. (kv, Inr ())) (set_prefix_caching kv b)"
| "kv_apply h kv (CreateSequence r) = create_sequence kv r"
| "kv_apply h kv (CreateWithPrefix r tokens) = forget (create_sequence_with_prefix h kv r tokens)"
| "kv_apply h kv (RegisterPrefix r tokens) = register_prefix h kv r tokens"
| "kv_apply h kv (RemoveSequence r) = remove_sequence kv r"
| "kv_apply h kv (BeginAppend r n) = forget (begin_append kv r n)"
| "kv_apply h kv (ExtendAppend rid n) = forget (extend_append kv rid n)"
| "kv_apply h kv (CommitAppend rid) = forget (commit_append kv rid)"
| "kv_apply h kv (CommitPartial rid n) = forget (commit_append_partial kv rid n)"
| "kv_apply h kv (CancelAppend rid) = cancel_append kv rid"
| "kv_apply h kv (CommitAppends rids) = forget (commit_appends kv rids)"
| "kv_apply h kv (CancelAppends rids) = cancel_appends kv rids"
| "kv_apply h kv (CommitPrefixes rows) = forget (commit_append_prefixes kv rows)"

text \<open>
  The counters have room for a call: releases take ticks of a 64-bit clock, a reused prefix raises
  32-bit reference counts and a 64-bit statistics counter.
\<close>

fun op_room :: "paged_kv \<Rightarrow> kv_op \<Rightarrow> bool" where
  "op_room kv (CreateWithPrefix r tokens) \<longleftrightarrow> prefix_room kv tokens"
| "op_room kv (RemoveSequence r) \<longleftrightarrow> cf_max_sequence_length (kv_config kv) \<le> kv_room kv"
| "op_room kv (CommitPartial rid n) \<longleftrightarrow> cf_max_sequence_length (kv_config kv) \<le> kv_room kv"
| "op_room kv (CancelAppend rid) \<longleftrightarrow> cf_max_sequence_length (kv_config kv) \<le> kv_room kv"
| "op_room kv (CancelAppends rids) \<longleftrightarrow> length rids * cf_max_sequence_length (kv_config kv) \<le> kv_room kv"
| "op_room kv (CommitPrefixes rows) \<longleftrightarrow> length rows * cf_max_sequence_length (kv_config kv) \<le> kv_room kv"
| "op_room kv _ \<longleftrightarrow> True"

inductive kv_reach :: "(nat \<Rightarrow> token list \<Rightarrow> nat) \<Rightarrow> paged_kv_config \<Rightarrow> paged_kv \<Rightarrow> bool"
  for h :: "nat \<Rightarrow> token list \<Rightarrow> nat" and c :: paged_kv_config where
  start: "kv_new c = Inr kv \<Longrightarrow> cf_max_sequence_length c < usize_lim \<Longrightarrow> kv_reach h c kv"
| step: "kv_reach h c kv \<Longrightarrow> op_room kv oper \<Longrightarrow> kv_apply h kv oper = Some (kv', v) \<Longrightarrow> kv_reach h c kv'"

lemma safe_forget: "safe_result kv r \<Longrightarrow> safe_result kv (forget r)"
proof -
  assume "safe_result kv r"
  then obtain kv' v where "r = Some (kv', v)" "kv_inv kv'" "kv_config kv' = kv_config kv" "\<forall>e. v = Inl e \<longrightarrow> kv' = kv"
    by (auto simp: safe_result_def)
  then show ?thesis by (cases v) (auto simp: safe_result_def forget_def)
qed

lemma safe_create: "kv_inv kv \<Longrightarrow> safe_result kv (create_sequence kv r)"
  using create_sequence_ok [of kv r] by (cases "map_of (kv_sequences kv) r")
    (auto simp: safe_result_def create_sequence_def)

lemma safe_create_prefix:
  assumes "kv_inv kv" "prefix_room kv tokens"
  shows "safe_result kv (create_sequence_with_prefix h kv r tokens)"
proof (cases "map_of (kv_sequences kv) r")
  case None
  then show ?thesis using create_with_prefix_ok [OF assms(1) _ assms(2), of r h] by (auto simp: safe_result_def)
next
  case (Some s)
  then show ?thesis
    using assms(1) by (auto intro!: safe_error simp: create_sequence_with_prefix_def create_sequence_def and_then_def)
qed

lemma safe_register: "kv_inv kv \<Longrightarrow> safe_result kv (register_prefix h kv r tokens)"
proof (cases "kv_prefix_caching kv \<and> map_of (kv_sequences kv) r \<noteq> None")
  case True
  assume inv: "kv_inv kv"
  from True obtain s where s: "map_of (kv_sequences kv) r = Some s" by auto
  with register_prefix_ok [OF inv s, of h tokens] True show ?thesis by (auto simp: safe_result_def kv_frame_def)
next
  case False
  assume "kv_inv kv"
  with False show ?thesis by (auto simp: safe_result_def register_prefix_def kv_sequence_def)
qed

lemma safe_remove:
  assumes "kv_inv kv" "cf_max_sequence_length (kv_config kv) \<le> kv_room kv"
  shows "safe_result kv (remove_sequence kv r)"
proof (cases "\<exists>s. map_of (kv_sequences kv) r = Some s \<and> sq_pending s = None")
  case True
  then obtain s where "map_of (kv_sequences kv) r = Some s" "sq_pending s = None" by blast
  from remove_sequence_ok [OF assms(1) this assms(2)] show ?thesis by (auto simp: safe_result_def)
next
  case False
  then have "\<exists>e. remove_sequence kv r = Some (kv, Inl e)"
    by (auto simp: remove_sequence_def kv_sequence_def split: option.splits)
  then show ?thesis using assms(1) by (auto intro: safe_error)
qed

lemma safe_begin: "kv_inv kv \<Longrightarrow> safe_result kv (begin_append kv r n)"
  using begin_append_ready [of kv r n] begin_append_refused [of kv r n]
  by (cases "begin_ready kv r n") (auto simp: safe_result_def)

lemma missing_reservation:
  assumes "kv_inv kv" "map_of (kv_reservations kv) rid = None"
  shows "commit_append kv rid = Some (kv, Inl (ReservationMissing rid))"
    "cancel_append kv rid = Some (kv, Inl (ReservationMissing rid))"
  using assms by (simp_all add: commit_append_def cancel_append_def validate_reservation_eq)

lemma safe_commit: "kv_inv kv \<Longrightarrow> safe_result kv (commit_append kv rid)"
  using commit_append_ok [of kv rid] missing_reservation(1) [of kv rid]
  by (cases "map_of (kv_reservations kv) rid") (auto simp: safe_result_def settled_def)

lemma safe_cancel:
  "kv_inv kv \<Longrightarrow> cf_max_sequence_length (kv_config kv) \<le> kv_room kv \<Longrightarrow> safe_result kv (cancel_append kv rid)"
  using cancel_append_ok [of kv rid] missing_reservation(2) [of kv rid]
  by (cases "map_of (kv_reservations kv) rid") (auto simp: safe_result_def settled_def)

lemma safe_partial:
  assumes "kv_inv kv" "cf_max_sequence_length (kv_config kv) \<le> kv_room kv"
  shows "safe_result kv (commit_append_partial kv rid n)"
proof (cases "\<exists>rv. map_of (kv_reservations kv) rid = Some rv \<and> 0 < n \<and> n \<le> rv_tokens rv")
  case True
  then obtain rv where rv: "map_of (kv_reservations kv) rid = Some rv" "0 < n" "n \<le> rv_tokens rv" by auto
  from commit_append_partial_done [OF assms rv] show ?thesis by (auto simp: safe_result_def settled_def)
next
  case False
  from commit_append_partial_refused [OF False] show ?thesis using assms(1) by (auto intro: safe_error)
qed

lemma safe_groups:
  assumes "kv_inv kv"
  shows "safe_result kv (commit_appends kv rids)"
    "length rids * cf_max_sequence_length (kv_config kv) \<le> kv_room kv \<Longrightarrow> safe_result kv (cancel_appends kv rids)"
    "length rows * cf_max_sequence_length (kv_config kv) \<le> kv_room kv \<Longrightarrow> safe_result kv (commit_append_prefixes kv rows)"
proof -
  note R = group_refused [OF assms, of rids] and S = commit_append_prefixes_refused [OF assms, of rows]
  show "safe_result kv (commit_appends kv rids)"
    using commit_appends_done [OF assms, of rids] R(1) assms
    by (cases "all_pending kv rids") (auto simp: safe_result_def group_done_def)
  show "safe_result kv (cancel_appends kv rids)"
    if "length rids * cf_max_sequence_length (kv_config kv) \<le> kv_room kv"
    using cancel_appends_done [OF assms _ that] R(2) assms
    by (cases "all_pending kv rids") (auto simp: safe_result_def group_done_def)
  show "safe_result kv (commit_append_prefixes kv rows)"
    if "length rows * cf_max_sequence_length (kv_config kv) \<le> kv_room kv"
    using commit_append_prefixes_done [OF assms _ that] S assms
    by (cases "rows_valid kv rows") (auto simp: safe_result_def group_done_def)
qed

lemma apply_safe:
  assumes "kv_inv kv" "op_room kv oper"
  shows "safe_result kv (kv_apply h kv oper)"
proof (cases oper)
  case (SetPrefixCaching b)
  then show ?thesis using set_prefix_caching_ok [OF assms(1), of b] by (auto simp: safe_result_def)
next
  case (ExtendAppend rid n)
  have "safe_result kv (extend_append kv rid n)"
    using extend_append_ok [OF assms(1), of rid n] by (simp add: safe_result_def)
  then show ?thesis using ExtendAppend by (simp add: safe_forget)
qed (use assms in \<open>auto intro: safe_forget safe_create safe_create_prefix safe_register safe_remove safe_begin safe_commit
    safe_cancel safe_partial safe_groups\<close>)

lemma reach_inv: "kv_reach h c kv \<Longrightarrow> kv_inv kv \<and> kv_config kv = c"
proof (induction rule: kv_reach.induct)
  case (start kv)
  then show ?case using kv_new_inv by (auto simp: kv_new_def ok_then_def split: sum.splits)
next
  case (step kv oper kv' v)
  then show ?case using apply_safe [of kv oper h] by (auto simp: safe_result_def)
qed

lemmas reach_kv_inv = reach_inv [THEN conjunct1]

text \<open>
  C3. Safety of the KV cache manager: in every state reachable from a new manager by any sequence
  of calls, the next call does not panic, gives a state that satisfies the invariant again
  (page metadata partitioned and indexed consistently, reference counts equal to the number of
  block-table entries, page counts equal to what the lengths need, reservations and pending
  appends in correspondence, unregistered pages private), and changes nothing when it reports an
  error.  The counters have room for the call, and a prompt has a length the cache can count (\<open>op_room\<close>).
\<close>

theorem kv_manager_safe:
  assumes "kv_reach h c kv" "op_room kv oper"
  shows "safe_result kv (kv_apply h kv oper)"
  using apply_safe [OF reach_kv_inv [OF assms(1)] assms(2)] .

subsection \<open>What every reachable manager guarantees\<close>

lemma referenced_iff_mapped:
  assumes "kv_inv kv"
  shows "0 < ref_at (kv_refs kv) p \<longleftrightarrow> (\<exists>r s. map_of (kv_sequences kv) r = Some s \<and> p \<in> set (sq_pages s))"
proof
  assume "0 < ref_at (kv_refs kv) p"
  then have "0 < (\<Sum>(r, s) \<leftarrow> kv_sequences kv. count_list (sq_pages s) p)"
    using kv_invD(6) [OF assms, of p] by (simp add: page_total_def om.total_def)
  then obtain r s where "(r, s) \<in> set (kv_sequences kv)" "0 < count_list (sq_pages s) p"
    by (auto simp: sum_list_eq_0_iff neq0_conv [symmetric] simp del: neq0_conv)
  then show "\<exists>r s. map_of (kv_sequences kv) r = Some s \<and> p \<in> set (sq_pages s)"
    using om.entries_mem [OF kv_invD(3) [OF assms]] count_list_pos by metis
next
  assume "\<exists>r s. map_of (kv_sequences kv) r = Some s \<and> p \<in> set (sq_pages s)"
  then show "0 < ref_at (kv_refs kv) p"
    using pages_referenced [OF assms, of _ _ p] count_list_pos by (metis less_le_trans)
qed

text \<open>
  C16. Page conservation: in every reachable state the number of allocated pages the manager
  reports is the number of distinct pages mapped by the block tables, so no page is leaked and
  none is handed out while still counted as free.
\<close>

theorem page_conservation:
  assumes "kv_reach h c kv"
  shows "allocated_page_count kv =
    Some (card {p. \<exists>r s. map_of (kv_sequences kv) r = Some s \<and> p \<in> set (sq_pages s)})"
proof -
  have inv: "kv_inv kv" using reach_kv_inv [OF assms] .
  let ?n = "cf_num_pages (kv_config kv)"
  have len: "length (kv_refs kv) = ?n" using pool_inv_okD(1) [OF kv_invD(1) [OF inv]] .
  let ?U = "{p. p < ?n \<and> ref_at (kv_refs kv) p = 0}" and ?R = "{p. 0 < ref_at (kv_refs kv) p}"
  have av: "available_pages kv = card ?U" using kvp.avail_eq [OF kv_invD(1) [OF inv]] len by simp
  have "{..<?n} = ?U \<union> ?R" "?U \<inter> ?R = {}"
    using len by (auto simp: ref_at_def split: if_splits)
  moreover have "finite ?R" using len by (intro finite_subset [of ?R "{..<?n}"]) (auto simp: ref_at_def split: if_splits)
  ultimately have "?n = card ?U + card ?R"
    using card_Un_disjoint [of ?U ?R] by (metis (no_types, lifting) card_lessThan finite_Un finite_lessThan)
  then show ?thesis
    using av referenced_iff_mapped [OF inv] by (simp add: allocated_page_count_def usub_def)
qed

text \<open>
  C15. Exclusive writes: the page that holds a position of a pending append is in the owner's block
  table, is referenced exactly once, is not published in the prefix cache, and no other entry of
  any block table maps it.  Writing the reserved tokens can therefore not disturb another sequence
  or a cached prefix.
\<close>

theorem reserved_pages_exclusive:
  assumes reach: "kv_reach h c kv" and rv: "map_of (kv_reservations kv) rid = Some rv"
    and pos: "rv_start rv \<le> i" "i < rv_start rv + rv_tokens rv"
  shows "\<exists>s. map_of (kv_sequences kv) (rv_request rv) = Some s \<and> i div cf_block_size c < length (sq_pages s) \<and>
    (let p = sq_pages s ! (i div cf_block_size c) in
      ref_at (kv_refs kv) p = 1 \<and> (\<forall>k. kv_index kv k \<noteq> Some p) \<and>
      (\<forall>r' s' j. map_of (kv_sequences kv) r' = Some s' \<and> j < length (sq_pages s') \<and> sq_pages s' ! j = p \<longrightarrow>
        r' = rv_request rv \<and> j = i div cf_block_size c))"
proof -
  have inv: "kv_inv kv" and cfg: "kv_config kv = c" using reach_inv [OF reach] by auto
  have bs: "0 < cf_block_size c" using config_okD(1) [OF kv_invD(2) [OF inv]] cfg by simp
  obtain s where s: "map_of (kv_sequences kv) (rv_request rv) = Some s" "rv_start rv = sq_committed s"
    "length (sq_pages s) = div_ceil (rv_start rv + rv_tokens rv) (cf_block_size c)"
    using pending_reservation [OF inv rv] cfg by auto
  let ?k = "i div cf_block_size c" and ?p = "sq_pages s ! (i div cf_block_size c)"
  have ok: "seq_ok kv (rv_request rv) s" using kv_invD(7) [OF inv s(1)] .
  have "\<not> length (sq_pages s) \<le> ?k"
    using pos(2) bs s(3) by (auto simp: div_ceil_le_iff) (metis div_times_less_eq_dividend leD le_trans)
  then have k: "?k < length (sq_pages s)" by simp
  have reg: "sq_registered s \<le> ?k"
    using ok pos(1) s(2) bs cfg by (simp add: seq_ok_def less_eq_div_iff_mult_less_eq)
  have p: "ref_at (kv_refs kv) ?p = 1" "\<not> published kv ?p"
    using ok reg k by (auto simp: seq_ok_def tail_private_def)
  have "kv_index kv key \<noteq> Some ?p" for key
    using p(2) pool_inv_okD(8) [OF kv_invD(1) [OF inv], of key ?p] by (auto simp: published_def)
  moreover have "r' = rv_request rv \<and> j = ?k"
    if o: "map_of (kv_sequences kv) r' = Some s'" "j < length (sq_pages s')" "sq_pages s' ! j = ?p" for r' s' j
  proof (rule ccontr)
    assume ne: "\<not> (r' = rv_request rv \<and> j = ?k)"
    have mem: "0 < count_list (sq_pages s') ?p" "0 < count_list (sq_pages s) ?p"
      using nth_mem [OF o(2)] nth_mem [OF k] o(3) by (simp_all add: count_list_pos [symmetric])
    show False
    proof (cases "r' = rv_request rv")
      case True
      then have "s' = s" "j \<noteq> ?k" using o s ne by auto
      then have "2 \<le> count_list (sq_pages s) ?p"
        using count_list_two [of j ?k "sq_pages s" ?p] count_list_two [of ?k j "sq_pages s" ?p] o k by (cases "j < ?k") auto
      then show False using pages_referenced [OF inv s(1), of ?p] p(1) by simp
    next
      case False
      then show False
        using page_total_ge2 [OF kv_invD(3) [OF inv] o(1) s(1), of ?p] kv_invD(6) [OF inv, of ?p] mem p(1) by simp
    qed
  qed
  ultimately show ?thesis using s(1) k p(1) unfolding Let_def by blast
qed

end
