(* ===== verification/Paged_Kv_Spec.thy ===== *)
theory Paged_Kv_Spec
  imports Paged_Kv_Run
begin

text \<open>
  The contracts of the single operations of the KV cache manager in every reachable state, and a
  small history on which they are evaluated.
\<close>

subsection \<open>A small history\<close>

fun kv_run :: "(nat \<Rightarrow> token list \<Rightarrow> nat) \<Rightarrow> paged_kv \<Rightarrow> kv_op list \<Rightarrow> paged_kv option" where
  "kv_run h kv [] = Some kv"
| "kv_run h kv (oper # opers) = do { rassert (op_room kv oper); (kv', _) \<leftarrow> kv_apply h kv oper; kv_run h kv' opers }"

lemma run_reach: "kv_reach h c kv \<Longrightarrow> kv_run h kv opers = Some kv' \<Longrightarrow> kv_reach h c kv'"
  by (induction opers arbitrary: kv) (auto split: bind_splits simp: rassert_def split: if_splits intro: kv_reach.step)

definition demo_config :: paged_kv_config where
  "demo_config = \<lparr>cf_block_size = 2, cf_num_pages = 4, cf_max_sequence_length = 8\<rparr>"

definition demo_hash :: "nat \<Rightarrow> token list \<Rightarrow> nat" where
  "demo_hash parent tokens = parent + length tokens"

lemmas kv_eval = kv_new_def config_validate_def rust_defs forget_def set_prefix_caching_def create_sequence_def
  set_sequence_def begin_append_def kv_sequence_def available_pages_def allocate_page_def commit_append_def
  validate_reservation_def take_reservation_def and_then_def register_prefix_def block_tokens_def
  create_sequence_with_prefix_def acquire_cached_def bs_pop_first_def om_remove_def
  less_eq_request_id_def less_request_id_def less_eq_kv_reservation_id_def less_kv_reservation_id_def
  prefix_room_def usable_blocks_def ref_at_def kv_room_def Let_def

lemma demo_loops:
  "allocate_pages 3 kv = allocate_pages (Suc (Suc (Suc 0))) kv"
  "replicate 4 x = [x, x, x, x]" "[0..<4] = [0, 1, 2, 3]"
  by (simp_all add: numeral_eq_Suc upt_rec)

definition demo_new :: paged_kv where
  "demo_new = \<lparr>kv_config = demo_config, kv_free = [0, 1, 2, 3], kv_refs = [0, 0, 0, 0],
     kv_blocks = [None, None, None, None], kv_index = Map.empty, kv_evictable = [], kv_next_tick = 0,
     kv_prefix_caching = False, kv_reused = 0, kv_sequences = [], kv_reservations = [], kv_next_reservation = 1\<rparr>"

definition demo_created :: paged_kv where
  "demo_created = demo_new\<lparr>kv_prefix_caching := True, kv_sequences := [(RequestId 1,
     \<lparr>sq_committed = 0, sq_pages = [], sq_pending = None, sq_registered = 0, sq_chain = CHAIN_ROOT\<rparr>)]\<rparr>"

definition demo_reserved :: paged_kv where
  "demo_reserved = demo_created\<lparr>kv_free := [3], kv_refs := [1, 1, 1, 0], kv_next_reservation := 2,
     kv_sequences := [(RequestId 1, \<lparr>sq_committed = 0, sq_pages = [0, 1, 2], sq_pending = Some (KvReservationId 1),
       sq_registered = 0, sq_chain = CHAIN_ROOT\<rparr>)],
     kv_reservations := [(KvReservationId 1,
       \<lparr>rv_request = RequestId 1, rv_previous_pages = 0, rv_start = 0, rv_tokens = 5\<rparr>)]\<rparr>"

definition demo_committed :: paged_kv where
  "demo_committed = demo_reserved\<lparr>kv_sequences := [(RequestId 1, \<lparr>sq_committed = 5, sq_pages = [0, 1, 2],
     sq_pending = None, sq_registered = 0, sq_chain = CHAIN_ROOT\<rparr>)], kv_reservations := []\<rparr>"

definition demo_registered :: paged_kv where
  "demo_registered = demo_committed\<lparr>
     kv_index := [(CHAIN_ROOT, [10, 11]) \<mapsto> 0, (CHAIN_ROOT + 2, [12, 13]) \<mapsto> 1],
     kv_blocks := [Some \<lparr>cb_key = (CHAIN_ROOT, [10, 11]), cb_tick = None\<rparr>,
       Some \<lparr>cb_key = (CHAIN_ROOT + 2, [12, 13]), cb_tick = None\<rparr>, None, None],
     kv_sequences := [(RequestId 1, \<lparr>sq_committed = 5, sq_pages = [0, 1, 2], sq_pending = None,
       sq_registered = 2, sq_chain = CHAIN_ROOT + 4\<rparr>)]\<rparr>"

lemma demo_steps:
  "kv_new demo_config = Inr demo_new"
  "kv_run demo_hash demo_new [SetPrefixCaching True, CreateSequence (RequestId 1)] = Some demo_created"
  "kv_apply demo_hash demo_created (BeginAppend (RequestId 1) 5) = Some (demo_reserved, Inr ())"
  "kv_apply demo_hash demo_reserved (CommitAppend (KvReservationId 1)) = Some (demo_committed, Inr ())"
  "kv_apply demo_hash demo_committed (RegisterPrefix (RequestId 1) [10, 11, 12, 13, 14]) = Some (demo_registered, Inr ())"
  by (simp add: demo_config_def demo_new_def kv_new_def config_validate_def u32_lim_def demo_loops)
    (simp add: demo_new_def demo_created_def kv_eval demo_loops,
     simp add: demo_new_def demo_config_def demo_created_def demo_reserved_def kv_eval demo_loops,
     simp add: demo_new_def demo_created_def demo_config_def demo_reserved_def demo_committed_def kv_eval demo_loops,
     simp add: demo_new_def demo_created_def demo_config_def demo_reserved_def demo_committed_def demo_registered_def
       demo_hash_def kv_eval demo_loops)

lemma demo_reach:
  "kv_reach demo_hash demo_config demo_created" "kv_reach demo_hash demo_config demo_reserved"
  "kv_reach demo_hash demo_config demo_committed" "kv_reach demo_hash demo_config demo_registered"
proof -
  have "kv_reach demo_hash demo_config demo_new"
    by (rule kv_reach.start [OF demo_steps(1)]) (simp add: demo_config_def usize_lim_def)
  from run_reach [OF this demo_steps(2)] show c: "kv_reach demo_hash demo_config demo_created" .
  from kv_reach.step [OF c _ demo_steps(3)] show r: "kv_reach demo_hash demo_config demo_reserved" by simp
  from kv_reach.step [OF r _ demo_steps(4)] show m: "kv_reach demo_hash demo_config demo_committed" by simp
  from kv_reach.step [OF m _ demo_steps(5)] show "kv_reach demo_hash demo_config demo_registered" by simp
qed

lemmas demo_defs = demo_new_def demo_created_def demo_config_def demo_reserved_def demo_committed_def demo_registered_def

theorem kv_manager_safe_witness:
  "safe_result demo_reserved (kv_apply demo_hash demo_reserved (CancelAppend (KvReservationId 1)))"
  by (rule kv_manager_safe [OF demo_reach(2)]) (simp add: demo_defs kv_room_def usize_lim_def)

theorem page_conservation_witness:
  "allocated_page_count demo_registered =
    Some (card {p. \<exists>r s. map_of (kv_sequences demo_registered) r = Some s \<and> p \<in> set (sq_pages s)})"
  by (rule page_conservation [OF demo_reach(4)])

theorem reserved_pages_exclusive_witness:
  "\<exists>s. map_of (kv_sequences demo_reserved) (RequestId 1) = Some s \<and> 3 div cf_block_size demo_config < length (sq_pages s) \<and>
    (let p = sq_pages s ! (3 div cf_block_size demo_config) in
      ref_at (kv_refs demo_reserved) p = 1 \<and> (\<forall>k. kv_index demo_reserved k \<noteq> Some p) \<and>
      (\<forall>r' s' j. map_of (kv_sequences demo_reserved) r' = Some s' \<and> j < length (sq_pages s') \<and> sq_pages s' ! j = p \<longrightarrow>
        r' = RequestId 1 \<and> j = 3 div cf_block_size demo_config))"
  using reserved_pages_exclusive [OF demo_reach(2), of "KvReservationId 1"
      "\<lparr>rv_request = RequestId 1, rv_previous_pages = 0, rv_start = 0, rv_tokens = 5\<rparr>" 3]
  by (simp only: reservation_state.simps) (simp add: demo_reserved_def)

subsection \<open>Appends\<close>

text \<open>
  C19. An append begins exactly when the dry run says so: in a reachable state with reservation
  numbers left, \<open>can_append\<close> answers true if and only if \<open>begin_append\<close> succeeds.
\<close>

theorem can_append_iff_begin:
  assumes "kv_reach h c kv" "kv_next_reservation kv + 1 < usize_lim"
  shows "can_append kv r n = Some (Inr True) \<longleftrightarrow> (\<exists>kv' a. begin_append kv r n = Some (kv', Inr a))"
proof -
  have inv: "kv_inv kv" using reach_kv_inv [OF assms(1)] .
  note C = config_okD [OF kv_invD(2) [OF inv]]
  have "can_append kv r n = Some (Inr True) \<longleftrightarrow> begin_ready kv r n"
    using C assms(2) by (auto simp: can_append_def begin_ready_def kv_sequence_def udiv_ceil_def Let_def not_less
        split: option.splits)
  also have "begin_ready kv r n \<longleftrightarrow> (\<exists>kv' a. begin_append kv r n = Some (kv', Inr a))"
    using begin_append_ready [OF inv, of r n] begin_append_refused [OF inv, of r n]
    by (cases "begin_ready kv r n") auto
  finally show ?thesis .
qed

theorem can_append_iff_begin_witness:
  "(can_append demo_created (RequestId 1) 5 = Some (Inr True) \<longleftrightarrow>
     (\<exists>kv' a. begin_append demo_created (RequestId 1) 5 = Some (kv', Inr a))) \<and>
   can_append demo_created (RequestId 1) 5 = Some (Inr True)"
proof
  show "can_append demo_created (RequestId 1) 5 = Some (Inr True) \<longleftrightarrow>
     (\<exists>kv' a. begin_append demo_created (RequestId 1) 5 = Some (kv', Inr a))"
    by (rule can_append_iff_begin [OF demo_reach(1)]) (simp add: demo_defs usize_lim_def)
  show "can_append demo_created (RequestId 1) 5 = Some (Inr True)"
    by (simp add: can_append_def demo_defs kv_eval)
qed

text \<open>
  What a successful append reservation promises: the block table has exactly the pages the new
  length needs, it extends the old one by pages no sequence referenced, the reservation starts at
  the committed length and is recorded under a number not used before.
\<close>

theorem begin_append_contract:
  assumes "kv_reach h c kv" "begin_append kv r n = Some (kv', Inr a)"
  shows "\<exists>s. map_of (kv_sequences kv) r = Some s \<and> sq_pending s = None \<and> ar_start a = sq_committed s \<and>
    ar_context_length a = sq_committed s + n \<and> ar_context_length a \<le> cf_max_sequence_length c \<and>
    ar_block_table a = sq_pages s @ ar_new_pages a \<and>
    length (ar_block_table a) = div_ceil (ar_context_length a) (cf_block_size c) \<and>
    (\<forall>p \<in> set (ar_new_pages a). ref_at (kv_refs kv) p = 0) \<and>
    block_table kv' r = Inr (ar_block_table a) \<and> committed_tokens kv' r = Inr (sq_committed s) \<and>
    map_of (kv_reservations kv) (ar_id a) = None \<and>
    map_of (kv_reservations kv') (ar_id a) = Some \<lparr>rv_request = r, rv_previous_pages = length (sq_pages s),
      rv_start = sq_committed s, rv_tokens = n\<rparr>"
proof -
  have inv: "kv_inv kv" and cfg: "kv_config kv = c" using reach_inv [OF assms(1)] by auto
  have ready: "begin_ready kv r n" using begin_append_refused [OF inv, of r n] assms(2) by auto
  have fresh: "map_of (kv_reservations kv) (KvReservationId (kv_next_reservation kv)) = None"
    using kv_invD(8) [OF inv, of "KvReservationId (kv_next_reservation kv)"]
    by (cases "map_of (kv_reservations kv) (KvReservationId (kv_next_reservation kv))") auto
  have ok: "om_ok (kv_sequences kv)" "om_ok (kv_reservations kv)" using kv_invD(3,4) [OF inv] by auto
  from begin_append_ready [OF inv ready] assms(2) obtain s ps where
    a: "a = \<lparr>ar_id = KvReservationId (kv_next_reservation kv),
        ar_request = r, ar_start = sq_committed s, ar_tokens = n, ar_context_length = sq_committed s + n,
        ar_new_pages = ps, ar_block_table = sq_pages s @ ps\<rparr>"
    "map_of (kv_sequences kv) r = Some s"
    "kv_sequences kv' = om_insert r (s\<lparr>sq_pages := sq_pages s @ ps,
        sq_pending := Some (KvReservationId (kv_next_reservation kv))\<rparr>) (kv_sequences kv)"
    "kv_reservations kv' = om_insert (KvReservationId (kv_next_reservation kv))
        \<lparr>rv_request = r, rv_previous_pages = length (sq_pages s), rv_start = sq_committed s, rv_tokens = n\<rparr>
        (kv_reservations kv)"
    "length (sq_pages s @ ps) = div_ceil (sq_committed s + n) (cf_block_size (kv_config kv))"
    "\<forall>p \<in> set ps. ref_at (kv_refs kv) p = 0" by auto
  with ready fresh cfg ok show ?thesis
    by (auto simp: begin_ready_def block_table_def committed_tokens_def kv_sequence_def)
qed

lemma demo_begin:
  "begin_append demo_created (RequestId 1) 5 = Some (demo_reserved, Inr \<lparr>ar_id = KvReservationId 1,
     ar_request = RequestId 1, ar_start = 0, ar_tokens = 5, ar_context_length = 5,
     ar_new_pages = [0, 1, 2], ar_block_table = [0, 1, 2]\<rparr>)"
  by (simp add: demo_defs kv_eval demo_loops)

theorem begin_append_contract_witness:
  "\<exists>s. map_of (kv_sequences demo_created) (RequestId 1) = Some s \<and> (\<forall>p \<in> set [0, 1, 2]. ref_at (kv_refs demo_created) p = 0)"
  using begin_append_contract [OF demo_reach(1) demo_begin] by auto

text \<open>
  Cancelling an append undoes it: after a successful \<open>begin_append\<close> its cancellation succeeds and
  restores the block tables, the reservations and every reference count, so the same number of
  pages is available again.  (Cached prefixes evicted by the reservation stay evicted.)
\<close>

theorem begin_cancel_roundtrip:
  assumes reach: "kv_reach h c kv" and bg: "begin_append kv r n = Some (kv1, Inr a)"
    and room: "cf_max_sequence_length c \<le> kv_room kv"
  shows "\<exists>kv2. cancel_append kv1 (ar_id a) = Some (kv2, Inr ()) \<and> kv_sequences kv2 = kv_sequences kv \<and>
    kv_reservations kv2 = kv_reservations kv \<and> kv_refs kv2 = kv_refs kv \<and> available_pages kv2 = available_pages kv"
proof -
  have inv: "kv_inv kv" and cfg: "kv_config kv = c" using reach_inv [OF reach] by auto
  note D = kv_invD [OF inv]
  have ready: "begin_ready kv r n" using begin_append_refused [OF inv, of r n] bg by auto
  let ?rid = "KvReservationId (kv_next_reservation kv)"
  obtain s ps where k1: "ar_id a = ?rid" "kv_inv kv1" "map_of (kv_sequences kv) r = Some s"
    "kv_sequences kv1 = om_insert r (s\<lparr>sq_pages := sq_pages s @ ps, sq_pending := Some ?rid\<rparr>) (kv_sequences kv)"
    "kv_reservations kv1 = om_insert ?rid
        \<lparr>rv_request = r, rv_previous_pages = length (sq_pages s), rv_start = sq_committed s, rv_tokens = n\<rparr>
        (kv_reservations kv)" "kv_config kv1 = kv_config kv" "kv_room kv1 = kv_room kv"
    "\<forall>q. ref_at (kv_refs kv1) q = ref_at (kv_refs kv) q + count_list ps q"
    using begin_append_ready [OF inv ready] bg by auto
  have pend: "sq_pending s = None" using ready k1(3) by (simp add: begin_ready_def)
  have fresh: "map_of (kv_reservations kv) ?rid = None"
    using D(8) [of ?rid] by (cases "map_of (kv_reservations kv) ?rid") auto
  have rv: "map_of (kv_reservations kv1) ?rid = Some
      \<lparr>rv_request = r, rv_previous_pages = length (sq_pages s), rv_start = sq_committed s, rv_tokens = n\<rparr>"
    using k1(5) D(4) by simp
  have rm: "cf_max_sequence_length (kv_config kv1) \<le> kv_room kv1" using room k1(6,7) cfg by simp
  have upd: "s\<lparr>sq_pages := sq_pages s @ ps, sq_pending := Some ?rid, sq_pages := sq_pages s, sq_pending := None\<rparr> = s"
    using pend by simp
  obtain kv2 where k2: "cancel_append kv1 ?rid = Some (kv2, Inr ())"
    "settled (cf_max_sequence_length (kv_config kv1)) kv1 kv2 ?rid"
    "kv_sequences kv2 = om_insert r s (kv_sequences kv1)"
    "\<forall>q. ref_at (kv_refs kv2) q + count_list ps q = ref_at (kv_refs kv1) q"
    using cancel_append_ok [OF k1(2) rv rm] k1(3,4) D(3) upd by auto
  have "kv_sequences kv2 = kv_sequences kv"
    using k2(3) k1(3,4) om.ins_ins [OF D(3)] om.ins_same [OF D(3)] by simp
  moreover have "kv_reservations kv2 = kv_reservations kv"
    using k2(2) k1(5) om.rem_ins_fresh [OF D(4) fresh] by (simp add: settled_def)
  moreover have refs: "kv_refs kv2 = kv_refs kv"
  proof (rule nth_equalityI)
    have "kv_inv kv2" "kv_config kv2 = kv_config kv" using k2(2) k1(6) by (auto simp: settled_def)
    then show l: "length (kv_refs kv2) = length (kv_refs kv)"
      using pool_inv_okD(1) [OF kv_invD(1)] inv by metis
    fix i assume "i < length (kv_refs kv2)"
    then show "kv_refs kv2 ! i = kv_refs kv ! i" using k2(4) k1(8) l by (auto simp: ref_at_def dest: spec [of _ i])
  qed
  moreover have "available_pages kv2 = available_pages kv"
    using kvp.avail_eq [OF kv_invD(1) [OF inv]] kvp.avail_eq [of kv2] k2(2) refs kv_invD(1) [of kv2]
    by (simp add: settled_def)
  ultimately show ?thesis using k2(1) k1(1) by auto
qed

theorem begin_cancel_roundtrip_witness:
  "\<exists>kv2. cancel_append demo_reserved (KvReservationId 1) = Some (kv2, Inr ()) \<and> kv_sequences kv2 = kv_sequences demo_created \<and>
    kv_refs kv2 = kv_refs demo_created \<and> available_pages kv2 = available_pages demo_created"
  using begin_cancel_roundtrip [OF demo_reach(1) demo_begin] by (auto simp: demo_defs kv_room_def usize_lim_def)

subsection \<open>Groups\<close>

text \<open>
  A group commit is all or nothing: when the reservations are distinct and all pending, every
  one is committed (each owner's committed length moves to the end of its reservation, every other
  sequence is unchanged, exactly these reservations disappear) and the positions are returned in
  order; otherwise an error is reported and the manager is unchanged.
\<close>

theorem commit_appends_atomic:
  assumes "kv_reach h c kv"
  shows "if distinct rids \<and> (\<forall>rid \<in> set rids. map_of (kv_reservations kv) rid \<noteq> None)
    then \<exists>kv'. commit_appends kv rids = Some (kv', Inr (map (\<lambda>rid.
          rv_start (the (map_of (kv_reservations kv) rid)) + rv_tokens (the (map_of (kv_reservations kv) rid))) rids)) \<and>
        group_done kv kv' (set rids) (commit_view kv (set rids))
    else \<exists>e. commit_appends kv rids = Some (kv, Inl e)"
  using commit_appends_done [OF reach_kv_inv [OF assms]] group_refused(1) [OF reach_kv_inv [OF assms]] by (simp only: split: if_split) blast

theorem commit_appends_atomic_witness:
  "\<exists>kv'. commit_appends demo_reserved [KvReservationId 1] = Some (kv', Inr [5]) \<and>
    group_done demo_reserved kv' {KvReservationId 1} (commit_view demo_reserved {KvReservationId 1})"
  using commit_appends_atomic [OF demo_reach(2), of "[KvReservationId 1]"] by (simp add: demo_reserved_def)

text \<open>
  A group cancellation is all or nothing: distinct pending reservations are all cancelled and
  each owner goes back to the pages it had before the append; otherwise an error is reported and
  the manager is unchanged.
\<close>

theorem cancel_appends_atomic:
  assumes "kv_reach h c kv" "length rids * cf_max_sequence_length c \<le> kv_room kv"
  shows "if distinct rids \<and> (\<forall>rid \<in> set rids. map_of (kv_reservations kv) rid \<noteq> None)
    then \<exists>kv'. cancel_appends kv rids = Some (kv', Inr ()) \<and>
      group_done kv kv' (set rids) (cancel_view kv (set rids))
    else \<exists>e. cancel_appends kv rids = Some (kv, Inl e)"
proof -
  have inv: "kv_inv kv" "length rids * cf_max_sequence_length (kv_config kv) \<le> kv_room kv"
    using reach_inv [OF assms(1)] assms(2) by auto
  show ?thesis
    using cancel_appends_done [OF inv(1) _ inv(2)] group_refused(2) [OF inv(1)] by (simp only: split: if_split) blast
qed

theorem cancel_appends_atomic_witness:
  "\<exists>kv'. cancel_appends demo_reserved [KvReservationId 1] = Some (kv', Inr ()) \<and>
    group_done demo_reserved kv' {KvReservationId 1} (cancel_view demo_reserved {KvReservationId 1})"
  using cancel_appends_atomic [OF demo_reach(2), of "[KvReservationId 1]"] by (simp add: demo_defs kv_room_def usize_lim_def)

text \<open>
  C21. The commit of a consumed prefix of each of several speculative appends is all or nothing:
  when the reservations are distinct and pending and every consumed count lies between 1 and the
  reserved count, each owner is committed up to its consumed count and keeps exactly the pages that
  length needs; otherwise an error is reported and the manager is unchanged.
\<close>

theorem commit_append_prefixes_atomic:
  assumes "kv_reach h c kv" "length rows * cf_max_sequence_length c \<le> kv_room kv"
  shows "if distinct (map fst rows) \<and> (\<forall>row \<in> set rows. \<exists>rv. map_of (kv_reservations kv) (fst row) = Some rv \<and>
        0 < snd row \<and> snd row \<le> rv_tokens rv)
    then \<exists>kv'. commit_append_prefixes kv rows = Some (kv', Inr (map (\<lambda>row.
          rv_start (the (map_of (kv_reservations kv) (fst row))) + snd row) rows)) \<and>
        group_done kv kv' (fst ` set rows) (prefix_view kv rows)
    else \<exists>e. commit_append_prefixes kv rows = Some (kv, Inl e)"
proof -
  have inv: "kv_inv kv" "length rows * cf_max_sequence_length (kv_config kv) \<le> kv_room kv"
    using reach_inv [OF assms(1)] assms(2) by auto
  show ?thesis
    using commit_append_prefixes_done [OF inv(1) _ inv(2)] commit_append_prefixes_refused [OF inv(1)]
    by (simp only: split: if_split) blast
qed

theorem commit_append_prefixes_atomic_witness:
  "\<exists>kv'. commit_append_prefixes demo_reserved [(KvReservationId 1, 3)] = Some (kv', Inr [3]) \<and>
    group_done demo_reserved kv' {KvReservationId 1} (prefix_view demo_reserved [(KvReservationId 1, 3)])"
  using commit_append_prefixes_atomic [OF demo_reach(2), of "[(KvReservationId 1, 3)]"]
  by (simp add: demo_defs kv_room_def usize_lim_def)

subsection \<open>Prefixes, removal and eviction\<close>

text \<open>
  C20. A new sequence reuses the longest cached prefix of its prompt: it starts with the pages of
  the cached blocks in order, the first block after them is not cached (or no token would be left
  to compute), and its committed length is that of the reused blocks.  The counters have room for the call and the prompt has a length
  the cache can count (\<open>prefix_room\<close>).
\<close>

theorem create_with_prefix_longest:
  assumes reach: "kv_reach h c kv" and r: "\<not> contains_sequence kv r" and room: "prefix_room kv tokens"
  shows "\<exists>kv' ps. create_sequence_with_prefix h kv r tokens = Some (kv', Inr (length ps * cf_block_size c)) \<and>
    block_table kv' r = Inr ps \<and> committed_tokens kv' r = Inr (length ps * cf_block_size c) \<and>
    length ps \<le> usable_blocks kv tokens \<and>
    (\<forall>j < length ps. kv_index kv (block_key_at h (cf_block_size c) tokens j) = Some (ps ! j)) \<and>
    (length ps < usable_blocks kv tokens \<longrightarrow> kv_index kv (block_key_at h (cf_block_size c) tokens (length ps)) = None)"
proof -
  have inv: "kv_inv kv" and cfg: "kv_config kv = c" using reach_inv [OF reach] by auto
  have "map_of (kv_sequences kv) r = None" using r by (simp add: contains_sequence_def)
  from create_with_prefix_ok [OF inv this room, of h] kv_invD(3) [OF inv] cfg show ?thesis
    by (auto simp: block_table_def committed_tokens_def kv_sequence_def)
qed

lemma demo_refs: "ref_at (kv_refs demo_registered) p \<le> 1"
  by (auto simp: demo_defs ref_at_def nth_Cons split: nat.splits)

lemma demo_prefix:
  "\<not> contains_sequence demo_registered (RequestId 2)" "prefix_room demo_registered [10, 11, 12, 13, 15]"
proof -
  show "\<not> contains_sequence demo_registered (RequestId 2)" by (simp add: demo_defs contains_sequence_def)
  have "ref_at (kv_refs demo_registered) p + usable_blocks demo_registered [10, 11, 12, 13, 15] < u32_lim" for p
    using demo_refs [of p] by (simp add: usable_blocks_def u32_lim_def) (simp add: demo_defs)
  then show "prefix_room demo_registered [10, 11, 12, 13, 15]"
    by (simp add: prefix_room_def) (simp add: demo_defs usize_lim_def)
qed

theorem create_with_prefix_longest_witness:
  "\<exists>kv' ps. create_sequence_with_prefix demo_hash demo_registered (RequestId 2) [10, 11, 12, 13, 15] =
      Some (kv', Inr (length ps * cf_block_size demo_config)) \<and> block_table kv' (RequestId 2) = Inr ps"
  using create_with_prefix_longest [OF demo_reach(4) demo_prefix] by blast

text \<open>
  Registration makes a prefix reusable: once the complete blocks of a committed sequence are
  registered, a new sequence with the same prompt reuses all of them (all but the last when the
  prompt has no further token), whatever the hash function.
\<close>

theorem register_then_reuse:
  assumes reach: "kv_reach h c kv" and s: "map_of (kv_sequences kv) r = Some s" and on: "kv_prefix_caching kv"
    and fresh: "sq_registered s = 0" "sq_chain s = CHAIN_ROOT"
    and r': "\<not> contains_sequence kv r'" and room: "prefix_room kv tokens"
  shows "\<exists>kv1 kv2 m. register_prefix h kv r tokens = Some (kv1, Inr ()) \<and>
    create_sequence_with_prefix h kv1 r' tokens = Some (kv2, Inr m) \<and>
    min (complete_blocks kv s tokens) (usable_blocks kv tokens) * cf_block_size c \<le> m"
proof -
  have inv: "kv_inv kv" and cfg: "kv_config kv = c" using reach_inv [OF reach] by auto
  let ?bs = "cf_block_size c"
  from register_prefix_ok [OF inv s on, of h tokens] fresh cfg obtain kv1 x where
    k1: "register_prefix h kv r tokens = Some (kv1, Inr ())" "kv_inv kv1"
      "kv_frame kv1 = kv_frame (kv\<lparr>kv_sequences := om_insert r x (kv_sequences kv)\<rparr>)" "kv_refs kv1 = kv_refs kv"
      "\<forall>j. j < complete_blocks kv s tokens \<longrightarrow>
        kv_index kv1 (chain_from h ?bs tokens CHAIN_ROOT 0 j, block_of ?bs tokens j) \<noteq> None"
    by auto
  note F = kv_frameD [OF k1(3)]
  have chain: "chain_from h ?bs tokens CHAIN_ROOT 0 j = chain_at h ?bs tokens j" for j
    using chain_from_at [of h ?bs tokens 0 j] by simp
  have none: "map_of (kv_sequences kv1) r' = None"
    using r' s F(4) kv_invD(3) [OF inv] by (auto simp: contains_sequence_def)
  have u1: "usable_blocks kv1 tokens = usable_blocks kv tokens" using F by (simp add: usable_blocks_def)
  moreover have "prefix_room kv1 tokens" using F room k1(4) by (simp add: prefix_room_def u1)
  ultimately have u: "usable_blocks kv1 tokens = usable_blocks kv tokens" "prefix_room kv1 tokens" .
  have c1: "kv_config kv1 = c" using F(1) cfg by simp
  from create_with_prefix_ok [OF k1(2) none u(2), of h, unfolded u(1) c1] obtain kv2 and ps :: "kv_page_id list" where
    k2: "create_sequence_with_prefix h kv1 r' tokens = Some (kv2, Inr (length ps * ?bs))"
      "length ps < usable_blocks kv tokens \<longrightarrow> kv_index kv1 (block_key_at h ?bs tokens (length ps)) = None"
    by blast
  have "complete_blocks kv s tokens \<le> length ps \<or> usable_blocks kv tokens \<le> length ps"
    using k2(2) k1(5) [THEN spec, of "length ps"] chain by (auto simp: block_key_at_def not_less)
  then have "min (complete_blocks kv s tokens) (usable_blocks kv tokens) \<le> length ps" by auto
  then show ?thesis using k1(1) k2(1) by auto
qed

lemma demo_refs_committed: "kv_refs demo_committed = kv_refs demo_registered"
  by (simp add: demo_registered_def)

theorem register_then_reuse_witness:
  "\<exists>kv1 kv2 m. register_prefix demo_hash demo_committed (RequestId 1) [10, 11, 12, 13, 14] = Some (kv1, Inr ()) \<and>
    create_sequence_with_prefix demo_hash kv1 (RequestId 2) [10, 11, 12, 13, 14] = Some (kv2, Inr m) \<and> 4 \<le> m"
proof -
  let ?t = "[10, 11, 12, 13, 14]"
  have "ref_at (kv_refs demo_committed) p + usable_blocks demo_committed ?t < u32_lim" for p
    using demo_refs [of p] by (simp add: demo_refs_committed usable_blocks_def u32_lim_def) (simp add: demo_defs)
  then have room: "prefix_room demo_committed ?t"
    by (simp add: prefix_room_def) (simp add: demo_defs usize_lim_def)
  let ?s = "\<lparr>sq_committed = 5, sq_pages = [0, 1, 2], sq_pending = None, sq_registered = 0, sq_chain = CHAIN_ROOT\<rparr>"
  have s: "map_of (kv_sequences demo_committed) (RequestId 1) = Some ?s" by (simp add: demo_committed_def)
  show ?thesis
    using register_then_reuse [OF demo_reach(3) s _ _ _ _ room, of "RequestId 2"]
    by (simp add: complete_blocks_def usable_blocks_def contains_sequence_def)
      (simp add: demo_defs)
qed

text \<open>
  Removing a sequence without a pending append releases exactly its pages: its entry is gone,
  every other sequence is unchanged, and each reference count drops by the number of times the
  sequence mapped the page.
\<close>

theorem remove_sequence_releases:
  assumes reach: "kv_reach h c kv" and s: "map_of (kv_sequences kv) r = Some s" "sq_pending s = None"
    and room: "cf_max_sequence_length c \<le> kv_room kv"
  shows "\<exists>kv'. remove_sequence kv r = Some (kv', Inr ()) \<and>
    (\<forall>r'. map_of (kv_sequences kv') r' = (if r' = r then None else map_of (kv_sequences kv) r')) \<and>
    (\<forall>p. ref_at (kv_refs kv') p + count_list (sq_pages s) p = ref_at (kv_refs kv) p)"
proof -
  have inv: "kv_inv kv" and cfg: "kv_config kv = c" using reach_inv [OF reach] by auto
  show ?thesis
    using remove_sequence_ok [OF inv s] room cfg kv_invD(3) [OF inv] by auto
qed

theorem remove_sequence_releases_witness:
  "\<exists>kv'. remove_sequence demo_registered (RequestId 1) = Some (kv', Inr ()) \<and>
    (\<forall>p. ref_at (kv_refs kv') p + count_list [0, 1, 2] p = ref_at (kv_refs demo_registered) p)"
proof -
  let ?s = "\<lparr>sq_committed = 5, sq_pages = [0, 1, 2], sq_pending = None, sq_registered = 2, sq_chain = CHAIN_ROOT + 4\<rparr>"
  have "map_of (kv_sequences demo_registered) (RequestId 1) = Some ?s" by (simp add: demo_registered_def)
  moreover have "cf_max_sequence_length demo_config \<le> kv_room demo_registered"
    by (simp add: demo_defs kv_room_def usize_lim_def)
  ultimately show ?thesis using remove_sequence_releases [OF demo_reach(4), of "RequestId 1" ?s]
    by (simp only: sequence_state.simps) blast
qed

text \<open>
  Which page an allocation takes: the lowest free page as long as there is one, and the cached
  prefixes are left alone; only then the cached page released longest ago, whose index entry is
  removed.
\<close>

theorem allocate_page_policy:
  assumes reach: "kv_reach h c kv" and al: "allocate_page kv = Some (kv', p)"
  shows "if kv_free kv \<noteq> [] then p \<in> set (kv_free kv) \<and> (\<forall>q \<in> set (kv_free kv). p \<le> q) \<and> kv_index kv' = kv_index kv
    else (\<exists>t. map_of (kv_evictable kv) t = Some p \<and> (\<forall>t' \<in> dom (map_of (kv_evictable kv)). t \<le> t')) \<and>
      (\<forall>k. kv_index kv' k = (if kv_index kv k = Some p then None else kv_index kv k))"
proof -
  have pool: "pool_inv kv" using kv_invD(1) [OF reach_kv_inv [OF reach]] .
  note D = pool_inv_okD [OF pool]
  show ?thesis
  proof (cases "kv_free kv")
    case (Cons q rest)
    then have pop: "bs_pop_first (kv_free kv) = Some (q, rest)" by (simp add: bs_pop_first_def)
    then have "p = q" "kv_index kv' = kv_index kv"
      using al by (auto simp: allocate_page_def vec_get_def vec_set_def rassert_def split: if_splits)
    then show ?thesis using bs_pop_first_spec [OF D(3) pop] Cons by auto
  next
    case Nil
    then obtain t q rest where e: "om_pop_first (kv_evictable kv) = Some ((t, q), rest)"
      using al by (auto simp: allocate_page_def bs_pop_first_def om_pop_first_def split: list.splits)
    have t: "map_of (kv_evictable kv) t = Some q" "\<forall>t' \<in> dom (map_of (kv_evictable kv)). t \<le> t'"
      using om_pop_first_spec [OF D(4) e] by auto
    then obtain b where b: "block_at (kv_blocks kv) q = Some b" using D(6) by blast
    have ix: "kv_index kv k = Some q \<longleftrightarrow> k = cb_key b" for k using D(8) [of k q] b by auto
    have "p = q \<and> kv_index kv' = (kv_index kv)(cb_key b := None)"
      using al Nil e block_at_Some [OF b] ix [of "cb_key b"]
      by (auto simp: allocate_page_def bs_pop_first_def drop_cached_block_def vec_get_def vec_set_def rassert_def Let_def
          split: if_splits)
    then show ?thesis using Nil t ix by auto
  qed
qed

theorem allocate_page_policy_witness:
  "allocate_page demo_registered = Some (demo_registered\<lparr>kv_free := [], kv_refs := [1, 1, 1, 1]\<rparr>, 3) \<and>
   3 \<in> set (kv_free demo_registered)"
proof -
  have *: "allocate_page demo_registered = Some (demo_registered\<lparr>kv_free := [], kv_refs := [1, 1, 1, 1]\<rparr>, 3)"
    by (simp add: demo_defs kv_eval)
  with allocate_page_policy [OF demo_reach(4) *] show ?thesis by (simp add: demo_defs)
qed

end
