(* ===== verification/Batch_Sched_Demo.thy ===== *)
theory Batch_Sched_Demo
  imports Batch_Sched_Live Paged_Kv_Spec
begin

text \<open>
  A run of the scheduler on concrete data: one request with a prompt of two tokens generates two
  tokens in a prefill batch and a decode batch.  The properties of the runs are instantiated on it.
\<close>

definition tiny_batch :: batch_config where
  "tiny_batch = \<lparr>bc_max_active_sequences = 1, bc_max_batch_tokens = 4\<rparr>"

definition tiny_kv :: paged_kv_config where
  "tiny_kv = \<lparr>cf_block_size = 2, cf_num_pages = 2, cf_max_sequence_length = 4\<rparr>"

definition tiny_generation :: generation_config where
  "tiny_generation = \<lparr>gen_max_new_tokens = 2, gen_eos_token_ids = []\<rparr>"

text \<open>The model counts on from the last token.\<close>

definition counting :: "request_id \<Rightarrow> token list \<Rightarrow> token" where
  "counting r history = last history + 1"

definition tiny_cache :: paged_kv where
  "tiny_cache = \<lparr>kv_config = tiny_kv, kv_free = [0, 1], kv_refs = [0, 0], kv_blocks = [None, None], kv_index = Map.empty,
     kv_evictable = [], kv_next_tick = 0, kv_prefix_caching = False, kv_reused = 0, kv_sequences = [],
     kv_reservations = [], kv_next_reservation = 1\<rparr>"

definition tiny_new :: "unit scheduler" where
  "tiny_new = \<lparr>sc_config = tiny_batch, sc_options = default_options, sc_kv = tiny_cache, sc_pending = [], sc_deferred = {},
     sc_active = [], sc_finished = [], sc_in_flight = None, sc_prefer_prefill = True, sc_next_request = 1, sc_next_batch = 1,
     sc_prefill_chunk = Some 4, sc_ceiling = None, sc_recompute = True, sc_next_admission = 0, sc_preemptions = 0,
     sc_speculative = None, sc_speculative_turn = False, sc_drafted = 0, sc_accepted = 0\<rparr>"

definition tiny_waiting :: "unit scheduler" where
  "tiny_waiting = tiny_new\<lparr>sc_next_request := 2,
     sc_pending := [\<lparr>pr_id = RequestId 1, pr_prompt = [5, 6], pr_generation = tiny_generation, pr_sampler = None\<rparr>]\<rparr>"

definition tiny_request :: "token list \<Rightarrow> request_phase \<Rightarrow> unit active_request" where
  "tiny_request generated phase = \<lparr>aq_prompt = [5, 6], aq_generation = tiny_generation, aq_sampler = None, aq_eos = {},
     aq_generated = generated, aq_history = [5, 6] @ generated, aq_admitted = 0, aq_phase = phase\<rparr>"

definition tiny_prefill :: scheduled_batch where
  "tiny_prefill = \<lparr>bt_id = 1, bt_kind = Prefill, bt_sequences = [\<lparr>row_request = RequestId 1, row_tokens = [5, 6], row_start = 0,
     row_context = 2, row_block_table = [0], row_reservation = KvReservationId 1\<rparr>]\<rparr>"

definition tiny_prefilling :: "unit scheduler" where
  "tiny_prefilling = tiny_new\<lparr>sc_next_request := 2, sc_next_batch := 2, sc_next_admission := 1, sc_prefer_prefill := False,
     sc_active := [(RequestId 1, tiny_request [] (InFlight 1))], sc_in_flight := Some tiny_prefill,
     sc_kv := tiny_cache\<lparr>kv_free := [1], kv_refs := [1, 0], kv_next_reservation := 2,
       kv_sequences := [(RequestId 1, \<lparr>sq_committed = 0, sq_pages = [0], sq_pending = Some (KvReservationId 1),
         sq_registered = 0, sq_chain = CHAIN_ROOT\<rparr>)],
       kv_reservations := [(KvReservationId 1, \<lparr>rv_request = RequestId 1, rv_previous_pages = 0, rv_start = 0, rv_tokens = 2\<rparr>)]\<rparr>\<rparr>"

definition tiny_ready :: "unit scheduler" where
  "tiny_ready = tiny_prefilling\<lparr>sc_active := [(RequestId 1, tiny_request [7] (AwaitingDecode 7))], sc_in_flight := None,
     sc_kv := (sc_kv tiny_prefilling)\<lparr>kv_reservations := [],
       kv_sequences := [(RequestId 1, \<lparr>sq_committed = 2, sq_pages = [0], sq_pending = None, sq_registered = 0, sq_chain = CHAIN_ROOT\<rparr>)]\<rparr>\<rparr>"

definition tiny_decode :: scheduled_batch where
  "tiny_decode = \<lparr>bt_id = 2, bt_kind = Decode, bt_sequences = [\<lparr>row_request = RequestId 1, row_tokens = [7], row_start = 2,
     row_context = 3, row_block_table = [0, 1], row_reservation = KvReservationId 2\<rparr>]\<rparr>"

definition tiny_decoding :: "unit scheduler" where
  "tiny_decoding = tiny_ready\<lparr>sc_active := [(RequestId 1, tiny_request [7] (InFlight 2))], sc_in_flight := Some tiny_decode,
     sc_next_batch := 3, sc_prefer_prefill := True, sc_speculative_turn := True,
     sc_kv := (sc_kv tiny_ready)\<lparr>kv_free := [], kv_refs := [1, 1], kv_next_reservation := 3,
       kv_sequences := [(RequestId 1, \<lparr>sq_committed = 2, sq_pages = [0, 1], sq_pending = Some (KvReservationId 2),
         sq_registered = 0, sq_chain = CHAIN_ROOT\<rparr>)],
       kv_reservations := [(KvReservationId 2, \<lparr>rv_request = RequestId 1, rv_previous_pages = 1, rv_start = 2, rv_tokens = 1\<rparr>)]\<rparr>\<rparr>"

definition tiny_finished :: "unit scheduler" where
  "tiny_finished = tiny_decoding\<lparr>sc_active := [], sc_in_flight := None,
     sc_finished := [\<lparr>fg_request = RequestId 1, fg_prompt = [5, 6], fg_generated = [7, 8], fg_stopped_on_eos = False\<rparr>],
     sc_kv := (sc_kv tiny_decoding)\<lparr>kv_free := [0, 1], kv_refs := [0, 0], kv_sequences := [], kv_reservations := []\<rparr>\<rparr>"

lemmas tiny_defs = tiny_batch_def tiny_kv_def tiny_generation_def tiny_cache_def tiny_new_def tiny_waiting_def tiny_request_def
  tiny_prefill_def tiny_prefilling_def tiny_ready_def tiny_decode_def tiny_decoding_def tiny_finished_def default_options_def

lemmas sched_eval = promote_pending_def ready_pending_def admit_def lift_kv_def sched_then_def set_active_def get_active_def
  try_schedule_def try_prefill_def try_decode_def schedule_prefill_def prefill_chunk_def bucket_push_def bucket_tokens_def
  bucket_less_eq_def best_bucket_def reserve_row_def finish_schedule_def mark_row_def scheduled_row_def schedule_decode_def
  decode_candidates_def schedule_verify_def can_append_def less_eq_prod_def committed_tokens_def
  complete_batch_def take_batch_def samples_token_def row_owner_error_def complete_row_def retire_def ok_then_def
  commit_append_prefixes_def validate_reservations_def commit_prefix_row_def release_pages_def release_page_def bs_insert_def
  remove_sequence_def drop_cached_block_def insort_insert_key_def

lemma tiny_loops:
  "allocate_pages 1 kv = allocate_pages (Suc 0) kv" "replicate 2 x = [x, x]" "[0..<2] = [0, 1]" "Suc (Suc 0) = 2"
  by (simp_all add: numeral_eq_Suc upt_rec)

lemma tiny_start: "new_paged tiny_batch tiny_kv = Inr tiny_new"
  by (simp add: new_paged_def scheduler_new_def with_options_def batch_config_validate_def options_validate_def tiny_defs
      kv_eval ok_then_def tiny_loops)

lemma tiny_submit: "submit_with_sampler tiny_new [5, 6] tiny_generation None = Some (tiny_waiting, Inr (RequestId 1))"
  by (simp add: submit_with_sampler_def enqueue_def required_pages_def tiny_defs kv_eval)

lemma tiny_schedule: "schedule demo_hash tiny_waiting = Some (tiny_prefilling, Inr (Some tiny_prefill))"
  by (simp add: schedule_def schedule_loop.simps sched_eval tiny_defs kv_eval tiny_loops)

lemma tiny_complete: "complete_batch demo_hash tiny_prefilling 1 [7] = Some (tiny_ready, Inr ())"
  by (simp add: sched_eval tiny_defs kv_eval tiny_loops)

lemma tiny_schedule_decode: "schedule demo_hash tiny_ready = Some (tiny_decoding, Inr (Some tiny_decode))"
  by (simp add: schedule_def schedule_loop.simps sched_eval tiny_defs kv_eval tiny_loops)

lemma tiny_complete_decode: "complete_batch demo_hash tiny_decoding 2 [8] = Some (tiny_finished, Inr ())"
  by (simp add: sched_eval tiny_defs kv_eval tiny_loops)

text \<open>The run is one of the runs of the scheduler.\<close>

lemma tiny_fields:
  "sc_config tiny_waiting = tiny_batch" "sc_config tiny_prefilling = tiny_batch" "sc_config tiny_ready = tiny_batch"
  "sc_config tiny_decoding = tiny_batch" "sc_in_flight tiny_prefilling = Some tiny_prefill" "sc_in_flight tiny_decoding = Some tiny_decode"
  "sc_in_flight tiny_waiting = None" "sc_in_flight tiny_ready = None"
  "bt_id tiny_prefill = 1" "bt_id tiny_decode = 2" "bt_kind tiny_prefill = Prefill" "bt_kind tiny_decode = Decode"
  by (simp_all add: tiny_defs)

lemma tiny_roomy: "roomy tiny_waiting" "roomy tiny_prefilling" "roomy tiny_ready" "roomy tiny_decoding"
  by (simp_all add: roomy_def schedule_cost_def complete_cost_def sched_spare_def kv_spare_def kv_room_def tiny_defs usize_lim_def)

lemma tiny_true: "true_tokens counting tiny_prefilling tiny_prefill [7]" "true_tokens counting tiny_decoding tiny_decode [8]"
  by (simp_all add: true_tokens_def row_history_def counting_def samples_token_def get_active_def tiny_defs)

definition tiny_ledger :: ledger where
  "tiny_ledger = empty_ledger\<lparr>lg_requests := [RequestId 1 \<mapsto> ([5, 6], tiny_generation)]\<rparr>"

lemma tiny_serving:
  "serving demo_hash counting tiny_waiting tiny_ledger" "serving demo_hash counting tiny_prefilling tiny_ledger"
  "serving demo_hash counting tiny_ready tiny_ledger" "serving demo_hash counting tiny_decoding tiny_ledger"
  "serving demo_hash counting tiny_finished tiny_ledger"
proof -
  have "serving demo_hash counting tiny_new empty_ledger"
    by (rule serving.Start_Paged [OF tiny_start]) (simp add: config_fits_def tiny_defs usize_lim_def u32_lim_def)
  from serving.Submit [OF this tiny_submit] show a: "serving demo_hash counting tiny_waiting tiny_ledger"
    by (simp add: tiny_ledger_def empty_ledger_def)
  show b: "serving demo_hash counting tiny_prefilling tiny_ledger"
    by (rule serving.Schedule [OF a tiny_roomy(1) tiny_schedule])
  show c: "serving demo_hash counting tiny_ready tiny_ledger"
    using serving.Complete [OF b tiny_roomy(2) tiny_fields(5) _ tiny_true(1)] tiny_complete tiny_fields(9,11) by simp
  show d: "serving demo_hash counting tiny_decoding tiny_ledger"
    by (rule serving.Schedule [OF c tiny_roomy(3) tiny_schedule_decode])
  show "serving demo_hash counting tiny_finished tiny_ledger"
    using serving.Complete [OF d tiny_roomy(4) tiny_fields(6) _ tiny_true(2)] tiny_complete_decode tiny_fields(10,12) by simp
qed

text \<open>The same request under the reserving admission policy.\<close>

definition tiny_options :: batch_options where
  "tiny_options = \<lparr>bo_max_pending_requests = None, bo_kv_admission = ReserveSequenceCapacity\<rparr>"

definition tiny_reserving :: "unit scheduler" where
  "tiny_reserving = tiny_waiting\<lparr>sc_options := tiny_options, sc_prefill_chunk := None, sc_recompute := False\<rparr>"

lemma tiny_start_reserving: "with_options tiny_batch tiny_kv tiny_options =
    Inr (tiny_new\<lparr>sc_options := tiny_options, sc_prefill_chunk := None, sc_recompute := False\<rparr>)"
  by (simp add: with_options_def batch_config_validate_def options_validate_def tiny_options_def tiny_defs kv_eval ok_then_def tiny_loops)

lemma tiny_submit_reserving:
  "submit_with_sampler (tiny_new\<lparr>sc_options := tiny_options, sc_prefill_chunk := None, sc_recompute := False\<rparr>) [5, 6] tiny_generation None =
    Some (tiny_reserving, Inr (RequestId 1))"
  by (simp add: submit_with_sampler_def enqueue_def required_pages_def request_page_budget_def tiny_options_def tiny_reserving_def
      tiny_defs kv_eval)

lemma tiny_serving_reserving: "serving demo_hash counting tiny_reserving tiny_ledger"
proof -
  have "serving demo_hash counting (tiny_new\<lparr>sc_options := tiny_options, sc_prefill_chunk := None, sc_recompute := False\<rparr>) empty_ledger"
    by (rule serving.Start [OF tiny_start_reserving]) (simp add: config_fits_def tiny_defs usize_lim_def u32_lim_def)
  from serving.Submit [OF this tiny_submit_reserving] show ?thesis by (simp add: tiny_ledger_def empty_ledger_def)
qed

lemma tiny_reserving_facts: "roomy tiny_reserving" "sc_in_flight tiny_reserving = None"
  "bo_kv_admission (sc_options tiny_reserving) = ReserveSequenceCapacity" "servable tiny_reserving"
  by (simp_all add: roomy_def schedule_cost_def complete_cost_def sched_spare_def kv_spare_def kv_room_def tiny_defs usize_lim_def
      tiny_reserving_def tiny_options_def servable_def ready_pending_def)

end
