(* ===== verification/Batch_Sched_Props.thy ===== *)
theory Batch_Sched_Props
  imports Batch_Sched_Demo
begin

text \<open>
  The properties of the continuous batching scheduler, over its reachable states.
\<close>

text \<open>
  Rows whose reservations are committed: the second loop of \<open>complete_batch\<close> returns for them, whatever kind of batch they
  are of.
\<close>

definition rows_ready :: "scheduled_sequence list \<Rightarrow> 'smp scheduler \<Rightarrow> bool" where
  "rows_ready rows s \<longleftrightarrow> kv_inv (sc_kv s) \<and> om_ok (sc_active s) \<and> distinct (map row_request rows) \<and>
     (\<forall>row \<in> set rows. \<exists>a c. get_active s (row_request row) = Some a \<and> seq_view (sc_kv s) (row_request row) = Some (c, None))"

lemma done_inv_ready: "done_inv s kind rows b \<Longrightarrow> rows_ready rows s"
proof -
  assume inv: "done_inv s kind rows b"
  note D = done_invD [OF inv]
  have "\<exists>a c. get_active s (row_request row) = Some a \<and> seq_view (sc_kv s) (row_request row) = Some (c, None)" if "row \<in> set rows" for row
    using D(6) [of "row_request row"] row_of_mem [OF D(5) that] by (auto simp: done_slot_def split: option.splits)
  then show ?thesis using D(1,2,5) by (simp add: rows_ready_def)
qed

lemma complete_row_returns:
  assumes ready: "rows_ready (row # rows) s" and sp: "kv_spare (sc_kv s) (max_len s + n)"
  shows "\<exists>s'. complete_row (row, t) s = Some (s', Inr ()) \<and> rows_ready rows s' \<and> kv_spare (sc_kv s') n \<and> max_len s' = max_len s \<and>
    sc_in_flight s' = sc_in_flight s \<and> sc_speculative s' = sc_speculative s"
proof -
  let ?r = "row_request row"
  obtain a c where a: "get_active s ?r = Some a" "seq_view (sc_kv s) ?r = Some (c, None)" using ready by (auto simp: rows_ready_def)
  have R: "kv_inv (sc_kv s)" "om_ok (sc_active s)" using ready by (simp_all add: rows_ready_def)
  have sp1: "kv_spare (sc_kv s) n" "kv_spare (sc_kv s) (max_len s)" using sp by (simp_all add: kv_spare_def)
  have set: "rows_ready rows (set_active s ?r a')" for a'
    using ready R(2) by (auto simp: rows_ready_def set_active_def get_active_def)
  let ?a = "a\<lparr>aq_generated := aq_generated a @ [t], aq_history := aq_history a @ [t]\<rparr>"
  have kv: "kv_inv (sc_kv (set_active s ?r ?a))" "seq_view (sc_kv (set_active s ?r ?a)) ?r = Some (c, None)"
    "kv_spare (sc_kv (set_active s ?r ?a)) (max_len (set_active s ?r ?a))" using R(1) a(2) sp1(2) by simp_all
  obtain kv' where kv': "retire (set_active s ?r ?a) ?r ?a (t \<in> aq_eos a) =
      Some ((set_active s ?r ?a)\<lparr>sc_active := om_remove ?r (sc_active (set_active s ?r ?a)), sc_kv := kv', sc_finished := sc_finished s @
      [\<lparr>fg_request = ?r, fg_prompt = aq_prompt ?a, fg_generated = aq_generated ?a, fg_stopped_on_eos = (t \<in> aq_eos a)\<rparr>]\<rparr>, Inr ())"
    "kv_to (max_len s) (sc_kv s) kv' ((seq_view (sc_kv s))(?r := None))"
    using retire_ok [OF kv, of ?a "t \<in> aq_eos a"] by auto
  note K = kv_toD [OF kv'(2)]
  let ?s1 = "(set_active s ?r ?a)\<lparr>sc_active := om_remove ?r (sc_active (set_active s ?r ?a)), sc_kv := kv', sc_finished := sc_finished s @
      [\<lparr>fg_request = ?r, fg_prompt = aq_prompt ?a, fg_generated = aq_generated ?a, fg_stopped_on_eos = (t \<in> aq_eos a)\<rparr>]\<rparr>"
  have ne: "row_request x \<noteq> ?r" if "x \<in> set rows" for x
  proof -
    have "?r \<notin> row_request ` set rows" using ready by (simp add: rows_ready_def)
    then show ?thesis using imageI [OF that, of row_request] by metis
  qed
  have "rows_ready rows ?s1" "kv_spare kv' n" "max_len ?s1 = max_len s"
    using ready ne R(2) K(1,2,4) spare_spent [OF sp K(3)] by (auto simp: rows_ready_def set_active_def get_active_def)
  then show ?thesis
    using a set sp1(1) kv'(1) by (cases "row_context row < length (aq_history a)") (auto simp: complete_row_def Let_def)
qed

lemma complete_rows_return:
  assumes "rows_ready (map fst xs) s" "kv_spare (sc_kv s) (length xs * max_len s)"
  shows "\<exists>s'. complete_rows xs s = Some (s', Inr ()) \<and> sc_in_flight s' = sc_in_flight s \<and> sc_speculative s' = sc_speculative s"
  using assms
proof (induction xs arbitrary: s)
  case (Cons x xs)
  obtain row t where x: "x = (row, t)" by (cases x)
  obtain s1 where s1: "complete_row (row, t) s = Some (s1, Inr ())" "rows_ready (map fst xs) s1" "kv_spare (sc_kv s1) (length xs * max_len s)"
    "max_len s1 = max_len s" "sc_in_flight s1 = sc_in_flight s" "sc_speculative s1 = sc_speculative s"
    using complete_row_returns [of row "map fst xs" s "length xs * max_len s" t] Cons.prems by (auto simp: x)
  then show ?case using Cons.IH [OF s1(2)] by (auto simp: x sched_then_def)
qed simp

lemma complete_batch_returns:
  assumes run: "running model l s" and room: "roomy s"
  shows "(\<exists>s'. complete_batch h s b tokens = Some (s', Inr ()) \<and> sc_in_flight s' = None \<and> sc_speculative s' = sc_speculative s) \<or>
    (\<exists>e. complete_batch h s b tokens = Some (s, Inl e))"
proof (cases "sc_in_flight s")
  case None
  then show ?thesis by (simp add: complete_batch_def take_batch_def sched_then_def)
next
  case (Some batch)
  have inv: "sched_inv s" using run by (simp add: running_def)
  let ?rows = "bt_sequences batch" and ?t = "s\<lparr>sc_in_flight := None\<rparr>" and ?n = "length (bt_sequences batch) * max_len s"
  let ?bad = "bt_id batch \<noteq> b \<or> length tokens \<noteq> length ?rows \<or> (\<exists>(row, t) \<in> set (zip ?rows tokens). samples_token s row \<and> t < 0)"
  show ?thesis
  proof (cases ?bad)
    case True
    then have "\<exists>e. complete_batch h s b tokens = Some (s, Inl e)"
      using Some by (auto simp: complete_batch_def take_batch_def sched_then_def Let_def samples_token_def)
    then show ?thesis by blast
  next
    case False
    note I = in_flight_inv [OF inv Some]
    have "?n + ?n \<le> complete_cost s" using add_mono [OF I(3) I(3)] unfolding complete_cost_def mult_2 .
    then have kvsp: "kv_spare (sc_kv s) (?n + ?n)"
      using sched_spare_mono [OF roomyD(3) [OF room]] by (auto simp: sched_spare_def)
    then have kvsp1: "kv_spare (sc_kv s) ?n" by (simp add: kv_spare_def)
    obtain kv1 x where kv1: "commit_append_prefixes (sc_kv s) (map (\<lambda>row. (row_reservation row, length (row_tokens row))) ?rows) = Some (kv1, Inr x)"
      "done_inv (?t\<lparr>sc_kv := kv1\<rparr>) (bt_kind batch) ?rows (bt_id batch)" "kv_config kv1 = kv_config (sc_kv s)" "kv_spent ?n (sc_kv s) kv1"
      using commit_rows_ok [of ?t "bt_kind batch" ?rows "bt_id batch"] I(1) kvsp1 by auto
    obtain kv2 where kv2: "register_rows h ?rows (?t\<lparr>sc_kv := kv1\<rparr>) = Some (?t\<lparr>sc_kv := kv2\<rparr>, Inr ())"
      "done_inv (?t\<lparr>sc_kv := kv2\<rparr>) (bt_kind batch) ?rows (bt_id batch)" "kv_config kv2 = kv_config kv1" "kv_spent 0 kv1 kv2"
      using register_rows_ok [OF kv1(2) subset_refl, of h] by auto
    have zip: "map fst (zip ?rows tokens) = ?rows" "length (zip ?rows tokens) = length ?rows" using False by simp_all
    have "kv_spare kv2 ?n" using spare_spent [of kv1 0 ?n kv2] spare_spent [OF kvsp kv1(4)] kv2(4) by simp
    then obtain s' where s': "complete_rows (zip ?rows tokens) (?t\<lparr>sc_kv := kv2\<rparr>) = Some (s', Inr ())" "sc_in_flight s' = None"
      "sc_speculative s' = sc_speculative s"
      using complete_rows_return [of "zip ?rows tokens" "?t\<lparr>sc_kv := kv2\<rparr>"] done_inv_ready [OF kv2(2)] kv1(3) kv2(3) zip by auto
    have neg: "\<not> (\<exists>(row, t) \<in> set (zip ?rows tokens). samples_token ?t row \<and> t < 0)" using False by (auto simp: samples_token_def)
    have "complete_batch h s b tokens = Some (s', Inr ())"
      using Some False neg rows_owned(1) [of ?t "bt_kind batch" ?rows "bt_id batch"] I(1) kv1(1) kv2(1) s'(1)
      by (simp add: complete_batch_def take_batch_def sched_then_def lift_kv_def Let_def)
    then show ?thesis using s'(2,3) by blast
  qed
qed

lemma complete_verify_returns:
  assumes run: "running model l s" and room: "roomy s"
  shows "(\<exists>s' v. complete_verify_batch h s b argmax = Some (s', Inr v) \<and> sched_inv s') \<or>
    (\<exists>e. complete_verify_batch h s b argmax = Some (s, Inl e))"
proof (cases "sc_in_flight s")
  case None
  then show ?thesis by (simp add: complete_verify_batch_def take_batch_def sched_then_def)
next
  case (Some batch)
  have inv: "sched_inv s" using run by (simp add: running_def)
  have um: "length (bt_sequences batch) * next_n batch < usize_lim"
    using in_flight_inv(2) [OF inv Some] inv by (auto simp: batch_ok_def sched_inv_def)
  show ?thesis
  proof (cases "bt_id batch = b \<and> bt_kind batch = Verify \<and> length argmax = length (bt_sequences batch) * next_n batch")
    case True
    then show ?thesis using complete_verify_batch_ok [OF inv Some _ roomyD(3) [OF room], of argmax h] by blast
  next
    case False
    then have "\<exists>e. complete_verify_batch h s b argmax = Some (s, Inl e)"
      using Some um by (auto simp: complete_verify_batch_def take_batch_def sched_then_def Let_def umul_def batch_size_def)
    then show ?thesis by blast
  qed
qed

lemma fail_batch_returns:
  assumes run: "running model l s" and room: "roomy s"
  shows "(\<exists>s'. fail_batch s b = Some (s', Inr ()) \<and> sched_inv s' \<and> sc_in_flight s' = None \<and> sc_speculative s' = sc_speculative s) \<or>
    (\<exists>e. fail_batch s b = Some (s, Inl e))"
proof (cases "sc_in_flight s")
  case None
  then show ?thesis by (simp add: fail_batch_def take_batch_def sched_then_def)
next
  case (Some batch)
  have inv: "sched_inv s" using run by (simp add: running_def)
  show ?thesis
  proof (cases "bt_id batch = b")
    case True
    obtain s' where s': "fail_batch s (bt_id batch) = Some (s', Inr ())" "sched_inv s'"
      "rows_frame (complete_cost s) (s\<lparr>sc_in_flight := None\<rparr>) s' (restore_next (bt_kind batch) (bt_sequences batch) (get_active s)) []"
      using fail_batch_ok [OF inv Some roomyD(3) [OF room]] by blast
    then show ?thesis using rows_frameD(11,16) [OF s'(3)] True by simp
  next
    case False
    then show ?thesis using Some by (simp add: fail_batch_def take_batch_def sched_then_def)
  qed
qed

subsection \<open>Safety\<close>

text \<open>
  C2. In every state the scheduler can reach, with counters that leave room for the call, none of its main operations panics
  or runs forever: scheduling, submitting, cancelling, failing a batch, completing a batch with one token per row and verifying drafts
  all return, for any arguments and any kind of batch in flight, and a call that answers with an error has left the scheduler
  unchanged.  The reachable states are those of runs that complete a batch with drafts by verifying it: \<open>complete_batch\<close> also accepts
  such a batch and returns, as stated here, but commits its drafts unchecked, and what follows that misuse is not covered.
\<close>

theorem scheduler_never_panics:
  assumes "serving h model s l" "roomy s"
  shows "(\<exists>s' v. schedule h s = Some (s', v) \<and> (\<forall>e. v = Inl e \<longrightarrow> s' = s)) \<and>
    (\<exists>s' v. submit_with_sampler s prompt g smp = Some (s', v) \<and> (\<forall>e. v = Inl e \<longrightarrow> s' = s)) \<and>
    (\<exists>s' v. cancel s r = Some (s', v) \<and> (\<forall>e. v = Inl e \<longrightarrow> s' = s)) \<and>
    (\<exists>s' v. fail_batch s b = Some (s', v) \<and> (\<forall>e. v = Inl e \<longrightarrow> s' = s)) \<and>
    (\<exists>s' v. complete_verify_batch h s b argmax = Some (s', v) \<and> (\<forall>e. v = Inl e \<longrightarrow> s' = s)) \<and>
    (\<exists>s' v. complete_batch h s b tokens = Some (s', v) \<and> (\<forall>e. v = Inl e \<longrightarrow> s' = s))"
proof (intro conjI)
  have run: "running model l s" using serving_running [OF assms(1)] .
  then have inv: "sched_inv s" and bud: "budget_ok s" by (simp_all add: running_def)
  show "\<exists>s' v. schedule h s = Some (s', v) \<and> (\<forall>e. v = Inl e \<longrightarrow> s' = s)"
  proof (cases "sc_in_flight s")
    case None
    then show ?thesis using schedule_served [OF inv bud None assms(2), of h] by auto
  qed (simp add: schedule_def)
  have kv: "kv_inv (sc_kv s)" using inv by (auto simp: sched_inv_def batch_ok_def core_inv_def split: option.splits)
  show "\<exists>s' v. submit_with_sampler s prompt g smp = Some (s', v) \<and> (\<forall>e. v = Inl e \<longrightarrow> s' = s)"
    using submit_cases [OF kv, of prompt g smp] by auto
  show "\<exists>s' v. cancel s r = Some (s', v) \<and> (\<forall>e. v = Inl e \<longrightarrow> s' = s)"
    using cancel_ok [OF inv roomyD(4) [OF assms(2)], of r] by auto
  show "\<exists>s' v. fail_batch s b = Some (s', v) \<and> (\<forall>e. v = Inl e \<longrightarrow> s' = s)"
    using fail_batch_returns [OF run assms(2), of b] by auto
  show "\<exists>s' v. complete_verify_batch h s b argmax = Some (s', v) \<and> (\<forall>e. v = Inl e \<longrightarrow> s' = s)"
    using complete_verify_returns [OF run assms(2), of h b argmax] by auto
  show "\<exists>s' v. complete_batch h s b tokens = Some (s', v) \<and> (\<forall>e. v = Inl e \<longrightarrow> s' = s)" 
    using complete_batch_returns [OF run assms(2), of h b tokens] by auto
qed

theorem scheduler_never_panics_witness:
  "\<exists>s' v. complete_batch demo_hash tiny_decoding 2 [8, 9] = Some (s', v) \<and> (v = Inl (RowCountMismatch 2 1 2) \<longrightarrow> s' = tiny_decoding)"
  using scheduler_never_panics [OF tiny_serving(4) tiny_roomy(4), of "[]" tiny_generation None "RequestId 1" 2 "[]" "[8, 9]"] by auto

text \<open>
  C10. A batch the scheduler hands out is well formed: it is in flight under a fresh id, has at
  least one row, its rows belong to different requests and different reservations, all have the
  same positive number of tokens, together they fit the token limit of the batch, and every row
  continues its request where the cache ends.
\<close>

theorem scheduled_batch_bounds:
  assumes "serving h model s l" "roomy s" "sc_in_flight s = None" "schedule h s = Some (s', Inr (Some batch))"
  shows "sc_in_flight s' = Some batch \<and> bt_sequences batch \<noteq> [] \<and>
    distinct (map row_request (bt_sequences batch)) \<and> distinct (map row_reservation (bt_sequences batch)) \<and> 0 < next_n batch \<and>
    length (bt_sequences batch) * next_n batch \<le> bc_max_batch_tokens (sc_config s') \<and>
    length (bt_sequences batch) \<le> bc_max_active_sequences (sc_config s') \<and>
    list_all (\<lambda>row. length (row_tokens row) = next_n batch \<and> row_context row = row_start row + next_n batch \<and>
      row_context row \<le> max_len s' \<and> map_option fst (seq_view (sc_kv s') (row_request row)) = Some (row_start row))
      (bt_sequences batch)"
proof -
  have run: "running model l s" using serving_running [OF assms(1)] .
  have inv': "sched_inv s'" "sc_in_flight s' = Some batch"
    using schedule_served [of s h] run assms(2-4) by (auto simp: running_def)
  note I = in_flight_inv [OF inv']
  have B: "bt_sequences batch \<noteq> []" "\<And>row. row \<in> set (bt_sequences batch) \<Longrightarrow> length (row_tokens row) = next_n batch"
    "length (bt_sequences batch) * next_n batch \<le> bc_max_batch_tokens (sc_config s')"
    using I(2) by (auto simp: batch_ok_def)
  have row: "row_tokens row \<noteq> []" "row_context row = row_start row + length (row_tokens row)" "row_context row \<le> max_len s'"
    "map_option fst (seq_view (sc_kv s') (row_request row)) = Some (row_start row)" if m: "row \<in> set (bt_sequences batch)" for row
  proof -
    obtain a c n where "get_active s' (row_request row) = Some a" and a: "seq_view (sc_kv s') (row_request row) = Some (c, Some (row_reservation row, n))"
      "length (row_tokens row) \<le> n" "row_ok (bt_kind batch) (aq_history a) c row"
      using row_active [OF I(1) m] by blast
    then show "row_tokens row \<noteq> []" "row_context row = row_start row + length (row_tokens row)"
      "map_option fst (seq_view (sc_kv s') (row_request row)) = Some (row_start row)" by (auto simp: row_ok_def)
    show "row_context row \<le> max_len s'" using view_pending [OF core_invD(1) [OF I(1)] a(1)] a(2,3) by (auto simp: row_ok_def)
  qed
  have "0 < next_n batch"
    using B(1) row(1) [of "hd (bt_sequences batch)"] B(2) [of "hd (bt_sequences batch)"] by (metis hd_in_set length_greater_0_conv)
  moreover have "length (bt_sequences batch) \<le> bc_max_active_sequences (sc_config s')"
    using rows_length [OF I(1)] core_invD(3) [OF I(1)] by (auto simp: limits_ok_def)
  moreover have "list_all (\<lambda>row. length (row_tokens row) = next_n batch \<and> row_context row = row_start row + next_n batch \<and>
      row_context row \<le> max_len s' \<and> map_option fst (seq_view (sc_kv s') (row_request row)) = Some (row_start row))
      (bt_sequences batch)"
    unfolding list_all_iff using B(2) row(2-4) by auto
  ultimately show ?thesis
    using B(1,3) inv'(2) core_invD(5) [OF I(1)] reservations_distinct [OF I(1)] by simp
qed

theorem scheduled_batch_bounds_witness:
  "length (bt_sequences tiny_decode) * next_n tiny_decode \<le> bc_max_batch_tokens (sc_config tiny_decoding)"
  using scheduled_batch_bounds [OF tiny_serving(3) tiny_roomy(3) tiny_fields(8) tiny_schedule_decode] by simp

subsection \<open>What a run delivers\<close>

text \<open>
  C8. No request is lost or answered twice: in every reachable state each submitted request is at
  exactly one place, the queue, the active requests, the finished results (delivered or not) or
  the cancelled ones, and no other request is anywhere.
\<close>

theorem requests_accounted:
  assumes "serving h model s l"
  shows "distinct (map fg_request (lg_delivered l @ sc_finished s)) \<and>
    pr_id ` set (sc_pending s) \<inter> dom (get_active s) = {} \<and>
    fg_request ` set (lg_delivered l @ sc_finished s) \<inter> (pr_id ` set (sc_pending s) \<union> dom (get_active s)) = {} \<and>
    lg_cancelled l \<inter> (pr_id ` set (sc_pending s) \<union> dom (get_active s) \<union> fg_request ` set (lg_delivered l @ sc_finished s)) = {} \<and>
    pr_id ` set (sc_pending s) \<union> dom (get_active s) \<union> fg_request ` set (lg_delivered l @ sc_finished s) \<union> lg_cancelled l =
      dom (lg_requests l)"
proof -
  have "accounted l s" using serving_running [OF assms] by (simp add: running_def)
  then show ?thesis unfolding accounted_def split_ids_def set_map by (elim conjE) (intro conjI, assumption+, simp only:)
qed

theorem requests_accounted_witness:
  "dom (get_active tiny_finished) \<union> fg_request ` set (lg_delivered tiny_ledger @ sc_finished tiny_finished) =
    dom (lg_requests tiny_ledger)"
  using requests_accounted [OF tiny_serving(5)] by (simp add: tiny_defs tiny_ledger_def empty_ledger_def get_active_def)

text \<open>
  C1. Whatever was batched together, split into chunks, speculated, preempted, failed or cancelled
  around it, a finished request carries exactly the tokens its model generates greedily for its
  prompt: up to the first end token or the requested number of tokens, and it is marked as stopped
  exactly when it ended on an end token.
\<close>

theorem finished_is_greedy:
  assumes "serving h model s l" "f \<in> set (lg_delivered l @ sc_finished s)"
  shows "\<exists>g. lg_requests l (fg_request f) = Some (fg_prompt f, g) \<and>
    fg_generated f = greedy (model (fg_request f)) (set (gen_eos_token_ids g)) (gen_max_new_tokens g) (fg_prompt f) \<and>
    (fg_stopped_on_eos f \<longleftrightarrow> fg_generated f \<noteq> [] \<and> last (fg_generated f) \<in> set (gen_eos_token_ids g))"
proof -
  have "truthful model l s" using serving_running [OF assms(1)] by (simp add: running_def)
  then show ?thesis using assms(2) unfolding truthful_def complete_result_def by blast
qed

theorem finished_is_greedy_witness:
  "[7, 8] = greedy (counting (RequestId 1)) {} 2 [5, 6]"
  using finished_is_greedy [OF tiny_serving(5), of "hd (sc_finished tiny_finished)"]
  by (simp add: tiny_defs tiny_ledger_def empty_ledger_def)

subsection \<open>Errors and cancellation\<close>

text \<open>
  C11. Failing the batch in flight undoes it: the batch is gone, no row holds a reservation any
  more, no request has lost a cached token or a generated one, every request of the batch waits in
  the phase its kind of batch starts from, and nothing is added to the finished results.
\<close>

theorem failed_batch_loses_nothing:
  assumes "serving h model s l" "roomy s" "sc_in_flight s = Some batch"
  shows "\<exists>s'. fail_batch s (bt_id batch) = Some (s', Inr ()) \<and> sc_in_flight s' = None \<and> sc_finished s' = sc_finished s \<and>
    sc_pending s' = sc_pending s \<and>
    (\<forall>r. map_option fst (seq_view (sc_kv s') r) = map_option fst (seq_view (sc_kv s) r) \<and>
      get_active s' r = (case row_of (bt_sequences batch) r of None \<Rightarrow> get_active s r
        | Some row \<Rightarrow> map_option (\<lambda>a. a\<lparr>aq_phase := source_phase (bt_kind batch) (row_tokens row)\<rparr>) (get_active s r)) \<and>
      (get_active s r \<noteq> None \<longrightarrow> (\<exists>c. seq_view (sc_kv s') r = Some (c, None))))"
proof -
  have inv: "sched_inv s" using serving_running [OF assms(1)] by (simp add: running_def)
  obtain s' where s': "fail_batch s (bt_id batch) = Some (s', Inr ())" "sched_inv s'"
    "rows_frame (complete_cost s) (s\<lparr>sc_in_flight := None\<rparr>) s' (restore_next (bt_kind batch) (bt_sequences batch) (get_active s)) []"
    "\<And>r. map_option fst (seq_view (sc_kv s') r) = map_option fst (seq_view (sc_kv s) r)"
    using fail_batch_ok [OF inv assms(3) roomyD(3) [OF assms(2)]] by blast
  note F = rows_frameD [OF s'(3)]
  have g: "get_active s' r = (case row_of (bt_sequences batch) r of None \<Rightarrow> get_active s r
        | Some row \<Rightarrow> map_option (\<lambda>a. a\<lparr>aq_phase := source_phase (bt_kind batch) (row_tokens row)\<rparr>) (get_active s r))" for r
    unfolding F(1) restore_next_def restored_def [abs_def] ..
  have "core_inv s' Prefill [] None" using s'(2) F(11) by (simp add: sched_inv_def)
  then have idle: "\<exists>c. seq_view (sc_kv s') r = Some (c, None)" if "get_active s r \<noteq> None" for r
    using resting [of s' Prefill None r] that by (fastforce simp: g split: option.splits)
  show ?thesis using s'(1,4) F(2,9,11) g idle by (intro exI [of _ s']) simp
qed

theorem failed_batch_loses_nothing_witness:
  "\<exists>s'. fail_batch tiny_decoding 2 = Some (s', Inr ()) \<and> get_active s' (RequestId 1) = Some (tiny_request [7] (AwaitingDecode 7))"
proof -
  obtain s' where s': "fail_batch tiny_decoding 2 = Some (s', Inr ())"
    "\<And>r. get_active s' r = (case row_of (bt_sequences tiny_decode) r of None \<Rightarrow> get_active tiny_decoding r
        | Some row \<Rightarrow> map_option (\<lambda>a. a\<lparr>aq_phase := source_phase (bt_kind tiny_decode) (row_tokens row)\<rparr>) (get_active tiny_decoding r))"
    using failed_batch_loses_nothing [OF tiny_serving(4) tiny_roomy(4) tiny_fields(6)] unfolding tiny_fields(10) by blast
  then show ?thesis by (simp add: tiny_defs get_active_def source_phase_def)
qed

text \<open>A request that is gone from the queue, the active requests and the KV cache, while the others stay.\<close>

definition taken_out :: "'smp scheduler \<Rightarrow> request_id \<Rightarrow> 'smp scheduler \<Rightarrow> bool" where
  "taken_out s r s' \<longleftrightarrow> get_active s' = (get_active s)(r := None) \<and> sc_pending s' = filter (\<lambda>p. pr_id p \<noteq> r) (sc_pending s) \<and>
     seq_view (sc_kv s') = (seq_view (sc_kv s))(r := None) \<and> sc_finished s' = sc_finished s \<and> sc_in_flight s' = sc_in_flight s"

lemma active_not_pending:
  assumes "sched_inv s" "get_active s r = Some a"
  shows "position (\<lambda>p. pr_id p = r) (sc_pending s) = None"
proof -
  obtain kind rows b where "core_inv s kind rows b" using core_inv_in_flight [OF assms(1)] by blast
  then show ?thesis using core_invD(4) [of s kind rows b] assms(2) by (auto simp: queue_ok_def position_None)
qed

lemma cancel_unknown: "r \<notin> pr_id ` set (sc_pending s) \<Longrightarrow> get_active s r = None \<Longrightarrow> cancel s r = Some (s, Inr None)"
  by (auto simp: cancel_def split: option.splits dest!: position_Some)

lemma cancel_in_flight:
  assumes "sched_inv s" "get_active s r = Some a" "aq_phase a = InFlight b"
  shows "cancel s r = Some (s, Inl (CancelInFlight r b))"
  using active_not_pending [OF assms(1,2)] assms(2,3) by (simp add: cancel_def)

lemma cancel_pending:
  assumes inv: "sched_inv s" and p: "p \<in> set (sc_pending s)" "pr_id p = r"
  shows "\<exists>s'. cancel s r = Some (s', Inr (Some \<lparr>cg_request = r, cg_prompt = pr_prompt p, cg_generated = []\<rparr>)) \<and> taken_out s r s'"
proof -
  obtain kind rows b where core: "core_inv s kind rows b" using core_inv_in_flight [OF inv] by blast
  note D = core_invD [OF core]
  have dist: "distinct (map pr_id (sc_pending s))" using D(4) by (simp add: queue_ok_def)
  have "\<exists>i. position (\<lambda>p. pr_id p = r) (sc_pending s) = Some i"
    using position_None [of "\<lambda>p. pr_id p = r" "sc_pending s"] p by (cases "position (\<lambda>p. pr_id p = r) (sc_pending s)") auto
  then obtain i where i: "position (\<lambda>p. pr_id p = r) (sc_pending s) = Some i" by blast
  note R = remove_position [of pr_id r, OF i dist]
  have "sc_pending s ! i \<in> set (sc_pending s)" using position_Some [OF i] by simp
  then have "sc_pending s ! i = p" using dist p R by (auto simp: distinct_map dest: inj_onD)
  moreover have ga: "get_active s r = None" using p D(4) by (auto simp: queue_ok_def)
  moreover have "seq_view (sc_kv s) r = None" using D(6) [of r] ga by (simp add: slot_def)
  ultimately show ?thesis using i R by (auto simp: cancel_def taken_out_def fun_eq_iff)
qed

lemma cancel_active:
  assumes inv: "sched_inv s" and sp: "kv_spare (sc_kv s) (max_len s)" and a: "get_active s r = Some a" "\<forall>b. aq_phase a \<noteq> InFlight b"
  shows "\<exists>s'. cancel s r = Some (s', Inr (Some \<lparr>cg_request = r, cg_prompt = aq_prompt a, cg_generated = aq_generated a\<rparr>)) \<and> taken_out s r s'"
proof -
  obtain kind rows b where core: "core_inv s kind rows b" and none: "b = None \<Longrightarrow> rows = []" using core_inv_in_flight [OF inv] by blast
  note D = core_invD [OF core]
  note nm = active_not_pending [OF inv a(1)]
  have "row_of rows r = None"
  proof (cases "row_of rows r")
    case (Some row)
    then show ?thesis using none D(6) [of r] a by (cases b) (auto simp: slot_def split: option.splits)
  qed
  then obtain c where v: "seq_view (sc_kv s) r = Some (c, None)" using D(6) [of r] a by (auto simp: slot_def split: option.splits)
  obtain kv' where kv': "remove_sequence (sc_kv s) r = Some (kv', Inr ())" "kv_to (max_len s) (sc_kv s) kv' ((seq_view (sc_kv s))(r := None))"
    using remove_view [OF D(1) v sp] by auto
  let ?s' = "s\<lparr>sc_kv := kv', sc_active := om_remove r (sc_active s), sc_deferred := sc_deferred s - {r}\<rparr>"
  have "cancel s r = Some (?s', Inr (Some \<lparr>cg_request = r, cg_prompt = aq_prompt a, cg_generated = aq_generated a\<rparr>))"
    using nm a kv'(1) by (cases "aq_phase a") (simp_all add: cancel_def lift_kv_def sched_then_def)
  moreover have "filter (\<lambda>p. pr_id p \<noteq> r) (sc_pending s) = sc_pending s" using nm by (auto simp: filter_id_conv position_None)
  ultimately show ?thesis using kv_toD(4) [OF kv'(2)] by (auto simp: taken_out_def get_active_def fun_eq_iff)
qed

text \<open>
  C14. Cancelling answers by where the request is.  A request of the batch in flight is refused with an error and nothing
  changes; an unknown request is answered with nothing and nothing changes; a queued request leaves the queue and its prompt is
  returned, with no generated tokens; an active request that is not in flight leaves the active requests and the KV cache, and its
  prompt and the tokens generated so far are returned.  Nobody else is touched.
\<close>

theorem cancel_outcome:
  assumes "serving h model s l" "roomy s"
  shows "(\<forall>a b. get_active s r = Some a \<longrightarrow> aq_phase a = InFlight b \<longrightarrow> cancel s r = Some (s, Inl (CancelInFlight r b))) \<and>
    (r \<notin> pr_id ` set (sc_pending s) \<longrightarrow> get_active s r = None \<longrightarrow> cancel s r = Some (s, Inr None)) \<and>
    (\<forall>p \<in> set (sc_pending s). pr_id p = r \<longrightarrow>
      (\<exists>s'. cancel s r = Some (s', Inr (Some \<lparr>cg_request = r, cg_prompt = pr_prompt p, cg_generated = []\<rparr>)) \<and> taken_out s r s')) \<and>
    (\<forall>a. get_active s r = Some a \<longrightarrow> (\<forall>b. aq_phase a \<noteq> InFlight b) \<longrightarrow>
      (\<exists>s'. cancel s r = Some (s', Inr (Some \<lparr>cg_request = r, cg_prompt = aq_prompt a, cg_generated = aq_generated a\<rparr>)) \<and> taken_out s r s'))"
proof -
  have inv: "sched_inv s" using serving_running [OF assms(1)] by (simp add: running_def)
  show ?thesis
    using cancel_pending [OF inv] cancel_active [OF inv roomyD(4) [OF assms(2)]] cancel_in_flight [OF inv] cancel_unknown [of r s]
    by (intro conjI allI ballI impI) blast+
qed

theorem cancel_outcome_witness:
  "cancel tiny_decoding (RequestId 1) = Some (tiny_decoding, Inl (CancelInFlight (RequestId 1) 2))"
proof -
  have "\<exists>a. get_active tiny_decoding (RequestId 1) = Some a \<and> aq_phase a = InFlight 2" by (simp add: get_active_def tiny_defs)
  then show ?thesis using cancel_outcome [OF tiny_serving(4) tiny_roomy(4), of "RequestId 1"] by blast
qed

subsection \<open>Speculative decoding\<close>

text \<open>
  C12. Verifying a draft against the predictions of a model accepts a non-empty prefix of what the
  model generates greedily: all tokens before the last accepted one were guessed by the draft, and
  the accepted part ends only with the generation, with the draft, or at the first wrong guess.
\<close>

theorem verify_row_greedy:
  assumes "input \<noteq> []" "0 < remaining"
  shows "\<exists>k. verify_row input (length input) eos remaining 0 (row_predictions model history (tl input)) [] =
      Some (take k (greedy model eos remaining history)) \<and>
    0 < k \<and> k \<le> length (greedy model eos remaining history) \<and> k \<le> length input \<and>
    take (k - 1) (greedy model eos remaining history) = take (k - 1) (tl input) \<and>
    (k = length (greedy model eos remaining history) \<or> k = length input \<or>
      greedy model eos remaining history ! (k - 1) \<noteq> tl input ! (k - 1))"
proof -
  have "verify_row input (length input) eos remaining 0 (row_predictions model history (tl input)) [] =
      Some (accepted model eos remaining history (tl input))"
    using verify_row_accepted [of input 0 "tl input" "[]" remaining eos model history] assms by (cases input) simp_all
  then show ?thesis
    using accepted_prefix [OF assms(2), of model eos history "tl input"] assms(1) by (cases input) auto
qed

theorem verify_row_greedy_witness:
  "\<exists>k. verify_row [6, 7, 8, 5] (length [6, 7, 8, 5 :: token]) {} 5 0
      (row_predictions (counting (RequestId 1)) [5, 6] (tl [6, 7, 8, 5])) [] = Some (take k [7, 8, 9, 10, 11]) \<and> 0 < k"
proof -
  have g: "greedy (counting (RequestId 1)) {} 5 [5, 6] = [7, 8, 9, 10, 11]" by (simp add: counting_def numeral_eq_Suc)
  have "[6, 7, 8, 5 :: token] \<noteq> []" "0 < (5 :: nat)" by simp_all
  from verify_row_greedy [OF this, of "{}" "counting (RequestId 1)" "[5, 6]"] show ?thesis unfolding g by blast
qed

text \<open>
  C13. The draft of a request is found and is what its specification says: the tokens that followed
  the most recent earlier occurrence of the longest repeated suffix of the history, at most as many
  as asked for, and no draft when no suffix is repeated.
\<close>

theorem ngram_draft_longest_match:
  assumes "length history + k < usize_lim" "0 < k"
  shows "\<exists>d. ngram_draft history ngram k = Some d \<and>
    ((\<forall>n. 0 < n \<and> n \<le> ngram \<longrightarrow> \<not> (\<exists>i. occurs history n i)) \<and> d = [] \<or>
     (\<exists>n i. 0 < n \<and> n \<le> ngram \<and> occurs history n i \<and> d = continuation history n i k \<and> d \<noteq> [] \<and>
       (\<forall>j. occurs history n j \<longrightarrow> j \<le> i) \<and>
       (\<forall>m. n < m \<and> m \<le> ngram \<longrightarrow> \<not> (\<exists>j. occurs history m j))))"
proof -
  obtain d where d: "ngram_draft history ngram k = Some d" "draft_spec history ngram k d" using ngram_draft_ok [OF assms] by blast
  show ?thesis
  proof (cases "\<exists>n start. 0 < n \<and> n \<le> ngram \<and> occurs history n start")
    case True
    then have "\<exists>n start. 0 < n \<and> n \<le> ngram \<and> occurs history n start \<and> d = continuation history n start k \<and> d \<noteq> [] \<and>
        (\<forall>start'. occurs history n start' \<longrightarrow> start' \<le> start) \<and>
        (\<forall>n' start'. n < n' \<and> n' \<le> ngram \<longrightarrow> \<not> occurs history n' start')"
      using d(2) unfolding draft_spec_def by (simp only: if_True)
    then show ?thesis using d(1) by blast
  next
    case False
    then have "d = []" using d(2) unfolding draft_spec_def by (simp only: if_False)
    then show ?thesis using d(1) False by blast
  qed
qed

theorem ngram_draft_longest_match_witness: "\<exists>d. ngram_draft [1, 2, 3, 1, 2] 3 2 = Some d \<and> d = [3, 1]"
proof -
  have o2: "occurs [1, 2, 3, 1, 2] 2 0" by (simp add: occurs_def)
  have n: "m \<le> 3 \<Longrightarrow> occurs [1, 2, 3, 1, 2] m j \<Longrightarrow> m = 0 \<or> m = 1 \<and> j = 1 \<or> m = 2 \<and> j = 0" for m j :: nat
    by (cases m; cases j; auto simp: occurs_def numeral_eq_Suc less_Suc_eq le_Suc_eq)
  have "length [1, 2, 3, 1, 2 :: token] + 2 < usize_lim" "0 < (2 :: nat)" by (simp_all add: usize_lim_def)
  from ngram_draft_longest_match [OF this, of 3] obtain d where d: "ngram_draft [1, 2, 3, 1, 2] 3 2 = Some d"
    "(\<forall>n. 0 < n \<and> n \<le> 3 \<longrightarrow> \<not> (\<exists>i. occurs [1, 2, 3, 1, 2] n i)) \<and> d = [] \<or>
     (\<exists>n i. 0 < n \<and> n \<le> 3 \<and> occurs [1, 2, 3, 1, 2] n i \<and> d = continuation [1, 2, 3, 1, 2] n i 2 \<and> d \<noteq> [] \<and>
       (\<forall>j. occurs [1, 2, 3, 1, 2] n j \<longrightarrow> j \<le> i) \<and>
       (\<forall>m. n < m \<and> m \<le> 3 \<longrightarrow> \<not> (\<exists>j. occurs [1, 2, 3, 1, 2] m j)))"
    by (elim exE conjE) (rule that)
  then obtain k i where k: "0 < k" "k \<le> 3" "occurs [1, 2, 3, 1, 2] k i" "d = continuation [1, 2, 3, 1, 2] k i 2"
    "\<forall>m. k < m \<and> m \<le> 3 \<longrightarrow> \<not> (\<exists>j. occurs [1, 2, 3, 1, 2] m j)"
    using o2 by (elim disjE exE conjE) auto
  moreover have "\<not> k < 2" using k(5) o2 by auto
  ultimately have "k = 2" "i = 0" using n [OF k(2,3)] by auto
  then show ?thesis using d(1) k(4) by (simp add: continuation_def)
qed

subsection \<open>Progress\<close>

text \<open>
  C9. Under the reserving admission policy no request starves for pages: whenever an active
  request is not held back, or none is active and a waiting request is ready, a call of
  \<open>schedule\<close> hands out a batch.
\<close>

theorem schedule_makes_progress:
  assumes "serving h model s l" "roomy s" "sc_in_flight s = None"
    "bo_kv_admission (sc_options s) = ReserveSequenceCapacity" "servable s"
  shows "\<exists>s' batch. schedule h s = Some (s', Inr (Some batch)) \<and> sc_in_flight s' = Some batch \<and> bt_sequences batch \<noteq> []"
proof -
  have run: "running model l s" using serving_running [OF assms(1)] .
  then obtain s' batch where e: "schedule h s = Some (s'\<lparr>sc_in_flight := Some batch\<rparr>, Inr (Some batch))"
    using schedule_plans [of s h] assms(2-5) by (auto simp: running_def)
  then have "sched_inv (s'\<lparr>sc_in_flight := Some batch\<rparr>)" using schedule_served [of s h] run assms(2,3) by (auto simp: running_def)
  then have "bt_sequences batch \<noteq> []" by (simp add: sched_inv_def batch_ok_def)
  then show ?thesis using e by simp
qed

theorem schedule_makes_progress_witness:
  "\<exists>s' batch. schedule demo_hash tiny_reserving = Some (s', Inr (Some batch)) \<and> sc_in_flight s' = Some batch \<and> bt_sequences batch \<noteq> []"
  by (rule schedule_makes_progress [OF tiny_serving_reserving tiny_reserving_facts])

end
