(* ===== verification/Fenced_Run.thy ===== *)
theory Fenced_Run
  imports Fenced_Scheduler Batch_Sched_Props
begin

text \<open>
  Runs of the fence-gated scheduler.  A state of a run is the gate, the ledger of the requests and
  the set of batches whose fence has reported completion.  The adapter is arbitrary: every launch
  and every poll may succeed, fail or panic.  A call of \<open>try_complete_logits\<close> that commits is given logits
  whose choices are the model's, and one row of them per request, so it is not used to commit a batch with drafts:
  such a batch of a speculating scheduler is launched and rolled back.  A call that does not commit may
  have any logits.
\<close>

subsection \<open>The steps of a gate\<close>

text \<open>Counters with room for scheduling a batch and rolling it back in one call.\<close>

definition gate_room :: "(nat \<Rightarrow> token list \<Rightarrow> nat) \<Rightarrow> 'smp scheduler \<Rightarrow> bool" where
  "gate_room h s \<longleftrightarrow> roomy s \<and> (\<forall>s' v. schedule h s = Some (s', v) \<longrightarrow> roomy s')"

text \<open>The batches a poll reports as complete.\<close>

definition reported :: "('f \<Rightarrow> 'f \<times> (runtime_error + unit) poll option) \<Rightarrow> nat \<Rightarrow> ('smp, 'f) fenced_scheduler \<Rightarrow> nat set" where
  "reported poll b g =
     (case fs_fence g of
        Some (i, fence, completed) \<Rightarrow>
          if \<not> fs_quarantined g \<and> i = b \<and> \<not> completed \<and> snd (poll fence) = Some (Ready (Inr ())) then {b} else {}
      | None \<Rightarrow> {})"

definition submit_entry :: "ledger \<Rightarrow> token list \<Rightarrow> generation_config \<Rightarrow> (gate_error + request_id) unwind \<Rightarrow> ledger" where
  "submit_entry l prompt g v =
     (case v of Returned (Inr r) \<Rightarrow> l\<lparr>lg_requests := (lg_requests l)(r \<mapsto> (prompt, g))\<rparr> | _ \<Rightarrow> l)"

definition cancel_entry :: "ledger \<Rightarrow> request_id \<Rightarrow> (gate_error + cancelled_generation option) unwind \<Rightarrow> ledger" where
  "cancel_entry l r v = (case v of Returned (Inr (Some c)) \<Rightarrow> l\<lparr>lg_cancelled := insert r (lg_cancelled l)\<rparr> | _ \<Rightarrow> l)"

type_synonym ('smp, 'f) gate_state = "('smp, 'f) fenced_scheduler \<times> ledger \<times> nat set"

inductive gate_step :: "(nat \<Rightarrow> token list \<Rightarrow> nat) \<Rightarrow> (request_id \<Rightarrow> token list \<Rightarrow> token) \<Rightarrow>
    ('smp \<Rightarrow> f32 list \<Rightarrow> token list \<Rightarrow> token list \<Rightarrow> (unit + token) \<times> 'smp) \<Rightarrow> ('smp \<Rightarrow> 'smp) \<Rightarrow>
    ('smp, 'f) gate_state \<Rightarrow> ('smp, 'f) gate_state \<Rightarrow> bool"
  for h model sample clear where
  Submit: "fenced_submit g prompt gen = Some (g', v) \<Longrightarrow> gate_step h model sample clear (g, l, C) (g', submit_entry l prompt gen v, C)"
| Submit_Sampled: "fenced_submit_sampled (\<lambda>_ :: unit. made) g prompt gen () = Some (g', v) \<Longrightarrow>
    gate_step h model sample clear (g, l, C) (g', submit_entry l prompt gen v, C)"
| Launch: "gate_room h (fs_scheduler g) \<Longrightarrow> launch h start g = Some (g', w) \<Longrightarrow>
    gate_step h model sample clear (g, l, C) (g', l, C)"
| Complete: "roomy (fs_scheduler g) \<Longrightarrow> try_complete_logits h sample clear poll b logits vocabulary g = Some (g', x) \<Longrightarrow>
    (\<forall>tokens batch. x = Returned (Inr (Ready tokens)) \<longrightarrow> sc_in_flight (fs_scheduler g) = Some batch \<longrightarrow>
      bt_kind batch \<noteq> Verify \<and> logits_true model sample (fs_scheduler g) batch logits vocabulary) \<Longrightarrow>
    gate_step h model sample clear (g, l, C) (g', l, C \<union> reported poll b g)"
| Rollback: "roomy (fs_scheduler g) \<Longrightarrow> try_rollback poll b g = Some (g', y) \<Longrightarrow>
    gate_step h model sample clear (g, l, C) (g', l, C \<union> reported poll b g)"
| Cancel: "roomy (fs_scheduler g) \<Longrightarrow> fenced_cancel g r = Some (g', z) \<Longrightarrow>
    gate_step h model sample clear (g, l, C) (g', cancel_entry l r z, C)"
| Token_Limit: "fenced_set_batch_token_limit g limit = Some (g', u) \<Longrightarrow> limit < usize_lim \<Longrightarrow>
    gate_step h model sample clear (g, l, C) (g', l, C)"
| Deliver: "fenced_pop_finished g = (g', Some f) \<Longrightarrow>
    gate_step h model sample clear (g, l, C) (g', l\<lparr>lg_delivered := lg_delivered l @ [f]\<rparr>, C)"

inductive gated :: "(nat \<Rightarrow> token list \<Rightarrow> nat) \<Rightarrow> (request_id \<Rightarrow> token list \<Rightarrow> token) \<Rightarrow>
    ('smp \<Rightarrow> f32 list \<Rightarrow> token list \<Rightarrow> token list \<Rightarrow> (unit + token) \<times> 'smp) \<Rightarrow> ('smp \<Rightarrow> 'smp) \<Rightarrow> ('smp, 'f) gate_state \<Rightarrow> bool"
  for h model sample clear where
  Wrap: "serving h model s l \<Longrightarrow> fenced_new s = Inr g \<Longrightarrow> gated h model sample clear (g, l, {})"
| Step: "gated h model sample clear x \<Longrightarrow> gate_step h model sample clear x y \<Longrightarrow> gated h model sample clear y"

subsection \<open>The invariant of a gate\<close>

definition tracked :: "('smp, 'f) fenced_scheduler \<Rightarrow> nat set \<Rightarrow> bool" where
  "tracked g C \<longleftrightarrow>
     (case fs_fence g of
        None \<Rightarrow> fs_quarantined g \<or> sc_in_flight (fs_scheduler g) = None
      | Some (b, _, completed) \<Rightarrow>
          (\<exists>batch. sc_in_flight (fs_scheduler g) = Some batch \<and> bt_id batch = b) \<and> (completed \<longrightarrow> b \<in> C))"

definition gate_inv :: "(nat \<Rightarrow> token list \<Rightarrow> nat) \<Rightarrow> (request_id \<Rightarrow> token list \<Rightarrow> token) \<Rightarrow> ('smp, 'f) gate_state \<Rightarrow> bool" where
  "gate_inv h model = (\<lambda>(g, l, C). serving h model (fs_scheduler g) l \<and> tracked g C \<and>
     (fs_quarantined g \<longrightarrow> sc_in_flight (fs_scheduler g) \<noteq> None))"

text \<open>A call that leaves the batch in flight alone.\<close>

definition calm :: "'smp scheduler \<Rightarrow> 'smp scheduler \<Rightarrow> bool" where
  "calm s s' \<longleftrightarrow> sc_in_flight s' = sc_in_flight s"

lemma fs_scheduler_self: "fs_scheduler g = s \<Longrightarrow> g\<lparr>fs_scheduler := s\<rparr> = g"
  by auto

lemma calm_inv:
  assumes "gate_inv h model (g, l, C)" "serving h model s' l'" "calm (fs_scheduler g) s'"
  shows "gate_inv h model (g\<lparr>fs_scheduler := s'\<rparr>, l', C) \<and> sc_in_flight s' = sc_in_flight (fs_scheduler g)"
  using assms by (auto simp: gate_inv_def calm_def tracked_def split: option.splits)

lemma healthy_call_cases:
  assumes "healthy_call g op = Some (g', v)"
  obtains (refused) "fs_quarantined g" "g' = g" "v = Returned (Inl Quarantined)"
  | (called) s' w where "\<not> fs_quarantined g" "op (fs_scheduler g) = Some (s', w)" "g' = g\<lparr>fs_scheduler := s'\<rparr>"
      "v = Returned (case w of Inl e \<Rightarrow> Inl (SchedulerError e) | Inr a \<Rightarrow> Inr a)"
  using assms by (auto simp: healthy_call_def ensure_healthy_def split: if_splits bind_splits)

lemma submit_calm:
  assumes "serving h model s l" "submit_with_sampler s prompt gen smp = Some (s', w)"
  shows "calm s s'" "(\<exists>e. w = Inl e \<and> s' = s) \<or> (\<exists>r. w = Inr r \<and> serving h model s' (l\<lparr>lg_requests := (lg_requests l)(r \<mapsto> (prompt, gen))\<rparr>))"
proof -
  have "sched_inv s" using serving_running [OF assms(1)] by (simp add: running_def)
  then have kv: "kv_inv (sc_kv s)" by (auto simp: sched_inv_def batch_ok_def core_inv_def split: option.splits)
  have s': "s' = s \<or> s' = submitted s prompt gen smp" "(\<exists>e. w = Inl e \<and> s' = s) \<or> (\<exists>r. w = Inr r)"
    using submit_cases [OF kv, of prompt gen smp] assms(2) by auto
  then show "calm s s'" by (auto simp: calm_def submitted_def)
  show "(\<exists>e. w = Inl e \<and> s' = s) \<or> (\<exists>r. w = Inr r \<and> serving h model s' (l\<lparr>lg_requests := (lg_requests l)(r \<mapsto> (prompt, gen))\<rparr>))"
    using s'(2) serving.Submit [OF assms(1)] assms(2) by blast
qed

lemma submit_step:
  assumes inv: "gate_inv h model (g, l, C)" and eq: "healthy_call g (\<lambda>s. submit_with_sampler s prompt gen smp) = Some (g', v)"
  shows "gate_inv h model (g', submit_entry l prompt gen v, C) \<and> sc_in_flight (fs_scheduler g') = sc_in_flight (fs_scheduler g)"
  using eq
proof (cases rule: healthy_call_cases)
  case refused
  then show ?thesis using inv by (simp add: submit_entry_def)
next
  case (called s' w)
  have sv: "serving h model (fs_scheduler g) l" using inv by (simp add: gate_inv_def)
  note S = submit_calm [OF sv called(2)]
  from S(2) show ?thesis
  proof (elim disjE exE conjE)
    fix e assume "w = Inl e" "s' = fs_scheduler g"
    then show ?thesis using inv called by (simp add: submit_entry_def)
  next
    fix r assume r: "w = Inr r" "serving h model s' (l\<lparr>lg_requests := (lg_requests l)(r \<mapsto> (prompt, gen))\<rparr>)"
    show ?thesis using calm_inv [OF inv r(2) S(1)] called r(1) by (simp add: submit_entry_def)
  qed
qed

lemma cancel_step:
  assumes inv: "gate_inv h model (g, l, C)" and room: "roomy (fs_scheduler g)" and eq: "fenced_cancel g r = Some (g', v)"
  shows "gate_inv h model (g', cancel_entry l r v, C) \<and> sc_in_flight (fs_scheduler g') = sc_in_flight (fs_scheduler g)"
  using eq [unfolded fenced_cancel_def]
proof (cases rule: healthy_call_cases)
  case refused
  then show ?thesis using inv by (simp add: cancel_entry_def)
next
  case (called s' w)
  have sv: "serving h model (fs_scheduler g) l" using inv by (simp add: gate_inv_def)
  have inv0: "sched_inv (fs_scheduler g)" using serving_running [OF sv] by (simp add: running_def)
  have "(\<exists>c. w = Inr (Some c) \<and> removed (fs_scheduler g) r s') \<or> s' = fs_scheduler g \<and> (\<forall>c. w \<noteq> Inr (Some c))"
    using cancel_ok [OF inv0 roomyD(4) [OF room], of r] called(2) by auto
  then show ?thesis
  proof (elim disjE exE conjE)
    fix c assume c: "w = Inr (Some c)" "removed (fs_scheduler g) r s'"
    have "calm (fs_scheduler g) s'" using removed_facts [OF c(2)] by (simp add: calm_def)
    from calm_inv [OF inv serving.Cancel [OF sv room called(2) [unfolded c(1)]] this]
    show ?thesis using called c(1) by (simp add: cancel_entry_def)
  qed (use called inv in \<open>auto simp: cancel_entry_def split: sum.splits option.splits\<close>)
qed

lemma limit_step:
  assumes inv: "gate_inv h model (g, l, C)" and lim: "limit < usize_lim" and eq: "fenced_set_batch_token_limit g limit = Some (g', v)"
  shows "gate_inv h model (g', l, C) \<and> sc_in_flight (fs_scheduler g') = sc_in_flight (fs_scheduler g)"
  using eq [unfolded fenced_set_batch_token_limit_def]
proof (cases rule: healthy_call_cases)
  case (called s' w)
  have "serving h model (fs_scheduler g) l" using inv by (simp add: gate_inv_def)
  moreover have "calm (fs_scheduler g) s'" using called(2) by (auto simp: set_batch_token_limit_def calm_def split: if_splits)
  ultimately show ?thesis using calm_inv [OF inv serving.Token_Limit [OF _ called(2) lim]] called(3) by simp
qed (use inv in simp)

lemma deliver_step:
  assumes inv: "gate_inv h model (g, l, C)" and eq: "fenced_pop_finished g = (g', Some f)"
  shows "gate_inv h model (g', l\<lparr>lg_delivered := lg_delivered l @ [f]\<rparr>, C) \<and>
    sc_in_flight (fs_scheduler g') = sc_in_flight (fs_scheduler g)"
proof -
  obtain s' where s': "pop_finished (fs_scheduler g) = (s', Some f)" "g' = g\<lparr>fs_scheduler := s'\<rparr>"
    using eq by (auto simp: fenced_pop_finished_def split: prod.splits)
  have "calm (fs_scheduler g) s'" using s'(1) by (auto simp: pop_finished_def calm_def split: list.splits)
  moreover have "serving h model (fs_scheduler g) l" using inv by (simp add: gate_inv_def)
  ultimately show ?thesis using calm_inv [OF inv serving.Deliver [OF _ s'(1)]] s'(2) by simp
qed

subsection \<open>Polling and resolving a batch\<close>

lemma poll_fence_ok:
  assumes inv: "gate_inv h model (g, l, C)" and eq: "poll_fence poll b g = (g1, r)"
  shows "gate_inv h model (g1, l, C \<union> reported poll b g) \<and> fs_scheduler g1 = fs_scheduler g \<and>
    (r = Returned (Inr (Ready ())) \<longrightarrow> \<not> fs_quarantined g1 \<and> b \<in> C \<union> reported poll b g \<and>
      (\<exists>batch. sc_in_flight (fs_scheduler g) = Some batch \<and> bt_id batch = b))"
proof (cases "fs_quarantined g \<or> fs_fence g = None")
  case True
  then have "g1 = g" "r \<noteq> Returned (Inr (Ready ()))" "reported poll b g = {}"
    using eq by (auto simp: poll_fence_def ensure_healthy_def reported_def split: option.splits if_splits)
  then show ?thesis using inv by simp
next
  case False
  then obtain i fence completed where fence: "fs_fence g = Some (i, fence, completed)" and q: "\<not> fs_quarantined g" by auto
  have t: "\<exists>batch. sc_in_flight (fs_scheduler g) = Some batch \<and> bt_id batch = i" "completed \<longrightarrow> i \<in> C"
    using inv fence by (auto simp: gate_inv_def tracked_def)
  show ?thesis
  proof (cases "i \<noteq> b \<or> completed")
    case True
    then have "g1 = g" "reported poll b g = {}" "r = Returned (Inr (Ready ())) \<longrightarrow> i = b \<and> completed"
      using eq fence q by (auto simp: poll_fence_def ensure_healthy_def reported_def split: if_splits)
    then show ?thesis using inv t q by auto
  next
    case False
    obtain f' w where w: "poll fence = (f', w)" by (cases "poll fence")
    have "poll_fence poll b g =
        (case w of None \<Rightarrow> (g\<lparr>fs_quarantined := True, fs_fence := Some (i, f', False)\<rparr>, Unwound)
         | Some Pending \<Rightarrow> (g\<lparr>fs_fence := Some (i, f', False), fs_quarantined := False\<rparr>, Returned (Inr Pending))
         | Some (Ready (Inr _)) \<Rightarrow> (g\<lparr>fs_fence := Some (i, f', True), fs_quarantined := False\<rparr>, Returned (Inr (Ready ())))
         | Some (Ready (Inl e)) \<Rightarrow> (g\<lparr>fs_quarantined := True, fs_fence := Some (i, f', False)\<rparr>, Returned (Inl (AdapterError e))))"
      using False fence q w by (simp add: poll_fence_def ensure_healthy_def split: option.splits poll.splits sum.splits)
    then show ?thesis
      using eq inv t False fence q w
      by (auto simp: gate_inv_def tracked_def reported_def split: option.splits poll.splits sum.splits)
  qed
qed

text \<open>What resolving the tracked batch leads to: the scheduler is as before, or the batch was reported and is gone.\<close>

definition resolved :: "('smp, 'f) fenced_scheduler \<Rightarrow> nat \<Rightarrow> ('smp, 'f, 'a poll) gate_result \<Rightarrow>
    (('smp, 'f) fenced_scheduler \<Rightarrow> bool) \<Rightarrow> bool \<Rightarrow> ('smp scheduler \<Rightarrow> 'a \<Rightarrow> bool) \<Rightarrow> bool" where
  "resolved g b res keep done_ok P \<longleftrightarrow>
     (\<exists>g' v. res = Some (g', v) \<and> fs_scheduler g' = fs_scheduler g \<and> keep g' \<and> (\<forall>a. v \<noteq> Returned (Inr (Ready a)))) \<or>
     (\<exists>g1 s' a. res = Some (g1\<lparr>fs_scheduler := s', fs_fence := None\<rparr>, Returned (Inr (Ready a))) \<and> \<not> fs_quarantined g1 \<and> done_ok \<and>
        (\<exists>batch. sc_in_flight (fs_scheduler g) = Some batch \<and> bt_id batch = b) \<and>
        sc_in_flight s' = None \<and> P s' a)"

lemma when_ready_resolved:
  assumes inv: "gate_inv h model (g, l, C)"
    and k: "\<And>g1 batch. gate_inv h model (g1, l, C \<union> reported poll b g) \<Longrightarrow> \<not> fs_quarantined g1 \<Longrightarrow> fs_scheduler g1 = fs_scheduler g \<Longrightarrow>
      sc_in_flight (fs_scheduler g) = Some batch \<Longrightarrow> bt_id batch = b \<Longrightarrow>
      (\<exists>e. k g1 = Some (g1, Returned (Inl e))) \<or>
      (\<exists>s' a. k g1 = Some (g1\<lparr>fs_scheduler := s', fs_fence := None\<rparr>, Returned (Inr (Ready a))) \<and>
        sc_in_flight s' = None \<and> P s' a)"
  shows "resolved g b (when_ready (poll_fence poll b g) k) (\<lambda>g'. gate_inv h model (g', l, C \<union> reported poll b g))
    (b \<in> C \<union> reported poll b g) P"
proof -
  obtain g1 r where r: "poll_fence poll b g = (g1, r)" by (cases "poll_fence poll b g")
  note A = poll_fence_ok [OF inv r]
  show ?thesis
  proof (cases "r = Returned (Inr (Ready ()))")
    case True
    then obtain batch where ready: "\<not> fs_quarantined g1" "b \<in> C \<union> reported poll b g"
      "sc_in_flight (fs_scheduler g) = Some batch" "bt_id batch = b" using A by blast
    have w: "when_ready (poll_fence poll b g) k = k g1" using r True by (simp add: when_ready_def)
    show ?thesis
      using k [of g1 batch] A ready unfolding resolved_def w by blast
  next
    case False
    then have "\<exists>v. when_ready (poll_fence poll b g) k = Some (g1, v) \<and> (\<forall>a. v \<noteq> Returned (Inr (Ready a)))"
      unfolding r by (auto simp: when_ready_def split: unwind.splits sum.splits poll.splits)
    then show ?thesis using A unfolding resolved_def by blast
  qed
qed

lemma gate_inv_running:
  assumes "gate_inv h model (g, l, C)"
  shows "running model l (fs_scheduler g)" "sched_inv (fs_scheduler g)" "serving h model (fs_scheduler g) l"
  using assms serving_running [of h model "fs_scheduler g" l] by (auto simp: gate_inv_def running_def)

lemma rollback_resolved:
  assumes inv: "gate_inv h model (g, l, C)" and room: "roomy (fs_scheduler g)"
  shows "resolved g b (try_rollback poll b g) (\<lambda>g'. gate_inv h model (g', l, C \<union> reported poll b g)) (b \<in> C \<union> reported poll b g)
    (\<lambda>s' a. fail_batch (fs_scheduler g) b = Some (s', Inr ()))"
  unfolding try_rollback_def
  using fail_batch_returns [OF gate_inv_running(1) [OF inv] room, of b]
  by (intro when_ready_resolved [OF inv]) (auto simp: Let_def fs_scheduler_self)

lemma check_logit_rows_ok: "check_logit_rows rows = Inr u \<longleftrightarrow> (\<forall>row \<in> set rows. \<exists>i. checked_argmax row = Inr i)"
  by (induction rows) auto

lemma complete_selected_returns:
  assumes run: "running model l s" and room: "roomy s"
  shows "(\<exists>s'. complete_selected_batch h s sel = Some (s', Inr (sel_tokens sel)) \<and> sc_in_flight s' = None) \<or>
    (\<exists>e. complete_selected_batch h s sel = Some (s, Inl e))"
  using complete_batch_returns [OF run room, of h "sel_batch_id sel" "sel_tokens sel"]
  by (auto simp: complete_selected_batch_def sched_then_def fold_store_sampler)

lemma complete_resolved:
  assumes inv: "gate_inv h model (g, l, C)" and room: "roomy (fs_scheduler g)"
  shows "resolved g b (try_complete_logits h sample clear poll b logits vocabulary g)
    (\<lambda>g'. gate_inv h model (g', l, C \<union> reported poll b g)) (b \<in> C \<union> reported poll b g)
    (\<lambda>s' a. \<exists>sel. select_batch_tokens sample clear (fs_scheduler g) b logits vocabulary = Some (Inr sel) \<and> a = sel_tokens sel \<and>
      complete_selected_batch h (fs_scheduler g) sel = Some (s', Inr a))"
  unfolding try_complete_logits_def
proof (rule when_ready_resolved [OF inv], goal_cases)
  case (1 g1 batch)
  note R = gate_inv_running [OF inv]
  obtain v where v: "select_batch_tokens sample clear (fs_scheduler g) b logits vocabulary = Some v"
    using select_ok [OF R(2) 1(4), of sample clear logits vocabulary] 1(5) by blast
  have c: "(\<exists>s'. complete_selected_batch h (fs_scheduler g) sel = Some (s', Inr (sel_tokens sel)) \<and> sc_in_flight s' = None) \<or>
      (\<exists>e. complete_selected_batch h (fs_scheduler g) sel = Some (fs_scheduler g, Inl e))" for sel
    using complete_selected_returns [OF R(1) room, of h sel] by simp
  show ?case
  proof (cases v)
    case (Inl e)
    then show ?thesis using v 1 by (simp add: Let_def split: sum.splits)
  next
    case (Inr sel)
    from c [of sel] show ?thesis
      using v Inr 1 by (elim disjE exE conjE) (simp_all add: Let_def fs_scheduler_self split: sum.splits)
  qed
qed

lemma resolved_inv:
  assumes "resolved g b res (\<lambda>g'. gate_inv h model (g', l, C)) ok P" "res = Some (g', v)"
    "\<And>s' a. v = Returned (Inr (Ready a)) \<Longrightarrow> P s' a \<Longrightarrow> serving h model s' l"
  shows "gate_inv h model (g', l, C)"
  using assms unfolding resolved_def by (auto simp: gate_inv_def tracked_def)

lemma rollback_step:
  assumes inv: "gate_inv h model (g, l, C)" and room: "roomy (fs_scheduler g)" and eq: "try_rollback poll b g = Some (g', v)"
  shows "gate_inv h model (g', l, C \<union> reported poll b g)"
proof (cases "\<exists>batch. sc_in_flight (fs_scheduler g) = Some batch \<and> bt_id batch = b")
  case True
  then obtain batch where fl: "sc_in_flight (fs_scheduler g) = Some batch" "bt_id batch = b" by blast
  show ?thesis
    using resolved_inv [OF rollback_resolved [OF inv room] eq] serving.Fail [OF gate_inv_running(3) [OF inv] room fl(1)] fl(2) by blast
next
  case False
  then show ?thesis using rollback_resolved [OF inv room, of b poll] eq unfolding resolved_def by auto
qed

lemma complete_step:
  assumes inv: "gate_inv h model (g, l, C)" and room: "roomy (fs_scheduler g)"
    and eq: "try_complete_logits h sample clear poll b logits vocabulary g = Some (g', v)"
    and lt: "\<And>tokens batch. v = Returned (Inr (Ready tokens)) \<Longrightarrow> sc_in_flight (fs_scheduler g) = Some batch \<Longrightarrow>
      bt_kind batch \<noteq> Verify \<and> logits_true model sample (fs_scheduler g) batch logits vocabulary"
  shows "gate_inv h model (g', l, C \<union> reported poll b g)"
proof (cases "\<exists>batch. sc_in_flight (fs_scheduler g) = Some batch \<and> bt_id batch = b")
  case True
  then obtain batch where fl: "sc_in_flight (fs_scheduler g) = Some batch" "bt_id batch = b" by blast
  note R = gate_inv_running [OF inv]
  show ?thesis
  proof (rule resolved_inv [OF complete_resolved [OF inv room] eq])
    fix s' a
    assume ready: "v = Returned (Inr (Ready a))"
    note lt = lt [OF ready fl(1)]
    assume "\<exists>sel. select_batch_tokens sample clear (fs_scheduler g) b logits vocabulary = Some (Inr sel) \<and> a = sel_tokens sel \<and>
      complete_selected_batch h (fs_scheduler g) sel = Some (s', Inr a)"
    then obtain sel where sel: "select_batch_tokens sample clear (fs_scheduler g) b logits vocabulary = Some (Inr sel)"
      "complete_selected_batch h (fs_scheduler g) sel = Some (s', Inr a)" by blast
    have "sel_batch_id sel = bt_id batch" "true_tokens model (fs_scheduler g) batch (sel_tokens sel)"
      using select_ok [OF R(2) fl(1), of sample clear logits vocabulary model] sel(1) lt fl(2) by auto
    then show "serving h model s' l" using serving.Complete_Selected [OF R(3) room fl(1)] lt sel(2) by blast
  qed
next
  case False
  then show ?thesis using complete_resolved [OF inv room, of b sample clear poll logits vocabulary] eq unfolding resolved_def by auto
qed

lemma launch_ok:
  assumes inv: "gate_inv h model (g, l, C)" and room: "gate_room h (fs_scheduler g)"
  shows "\<exists>g' v. launch h start g = Some (g', v) \<and> gate_inv h model (g', l, C) \<and>
    (fs_quarantined g \<or> sc_in_flight (fs_scheduler g) \<noteq> None \<longrightarrow> g' = g)"
proof (cases "fs_quarantined g \<or> sc_in_flight (fs_scheduler g) \<noteq> None")
  case True
  then have "\<exists>v. launch h start g = Some (g, v)" by (auto simp: launch_def ensure_healthy_def schedule_def)
  then show ?thesis using inv by blast
next
  case False
  note R = gate_inv_running [OF inv]
  have bud: "budget_ok (fs_scheduler g)" using R(1) by (simp add: running_def)
  have room1: "roomy (fs_scheduler g)" using room by (simp add: gate_room_def)
  have idle: "sc_in_flight (fs_scheduler g) = None" "fs_fence g = None" "\<not> fs_quarantined g"
    using False inv by (auto simp: gate_inv_def tracked_def split: option.splits)
  obtain s' v where s': "schedule h (fs_scheduler g) = Some (s', Inr v)" "served (fs_scheduler g) s'" "sc_in_flight s' = v"
    using schedule_served [OF R(2) bud idle(1) room1, of h] by blast
  have sv': "serving h model s' l" by (rule serving.Schedule [OF R(3) room1 s'(1)])
  have room2: "roomy s'" using room s'(1) by (simp add: gate_room_def)
  show ?thesis
  proof (cases v)
    case None
    then show ?thesis using s'(1,3) sv' idle by (simp add: launch_def ensure_healthy_def gate_inv_def tracked_def)
  next
    case (Some batch)
    have fl: "sc_in_flight s' = Some batch" using s'(3) Some by simp
    obtain s2 where s2: "fail_batch s' (bt_id batch) = Some (s2, Inr ())" "sc_in_flight s2 = None"
      using fail_batch_returns [OF serving_running [OF sv'] room2, of "bt_id batch"] fail_batch_ok [OF _ fl roomyD(3) [OF room2]]
        serving_running [OF sv'] by (fastforce simp: running_def)
    have sv2: "serving h model s2 l" by (rule serving.Fail [OF sv' room2 fl s2(1)])
    show ?thesis
      using s'(1) Some sv' fl s2 sv2 idle
      by (cases "start batch") (auto simp: launch_def ensure_healthy_def Let_def gate_inv_def tracked_def)
  qed
qed

text \<open>Every step keeps the invariant, and the batch in flight unless its fence was reported complete.\<close>

definition kept :: "('smp, 'f) fenced_scheduler \<Rightarrow> ('smp, 'f) fenced_scheduler \<Rightarrow> nat set \<Rightarrow> bool" where
  "kept g g' C \<longleftrightarrow> (\<forall>batch. sc_in_flight (fs_scheduler g) = Some batch \<longrightarrow>
     sc_in_flight (fs_scheduler g') = Some batch \<or> bt_id batch \<in> C \<and> \<not> fs_quarantined g')"

lemma kept_same: "sc_in_flight (fs_scheduler g') = sc_in_flight (fs_scheduler g) \<Longrightarrow> kept g g' C"
  by (simp add: kept_def)

lemma resolved_kept:
  assumes "resolved g b res keep (b \<in> C) P" "res = Some (g', v)"
  shows "kept g g' C"
  using assms unfolding resolved_def kept_def by auto

lemma gate_step_ok:
  "gate_step h model sample clear x y \<Longrightarrow> gate_inv h model x \<Longrightarrow> gate_inv h model y \<and> kept (fst x) (fst y) (snd (snd y))"
proof (induction rule: gate_step.induct)
  case (Submit g prompt gen g' v l C)
  then show ?case using submit_step [of h model g l C] by (simp add: fenced_submit_def submit_def kept_same)
next
  case (Submit_Sampled made g prompt gen g' v l C)
  show ?case
  proof (cases made)
    case (Inl e)
    have "healthy_call g (\<lambda>s. Some (s, Inl SamplingFailed)) = Some (g', v)"
      using Submit_Sampled(1) Inl by (simp add: fenced_submit_sampled_def submit_sampled_def)
    then show ?thesis using Submit_Sampled(2) by (cases rule: healthy_call_cases) (auto simp: submit_entry_def kept_same)
  next
    case (Inr smp)
    then show ?thesis
      using Submit_Sampled submit_step [of h model g l C] by (simp add: fenced_submit_sampled_def submit_sampled_def kept_same)
  qed
next
  case (Launch g start g' w l C)
  then obtain v where L: "launch h start g = Some (g', v)" "gate_inv h model (g', l, C)" "sc_in_flight (fs_scheduler g) \<noteq> None \<longrightarrow> g' = g"
    using launch_ok [of h model g l C start] by auto
  then have "kept g g' C" by (cases "sc_in_flight (fs_scheduler g)") (simp_all add: kept_def)
  then show ?case using L(2) by simp
next
  case (Complete g poll b logits vocabulary g' x l C)
  then have "gate_inv h model (g', l, C \<union> reported poll b g)" using complete_step [of h model g l C] by blast
  moreover have "kept g g' (C \<union> reported poll b g)"
    using resolved_kept [OF complete_resolved [OF Complete.prems Complete.hyps(1)] Complete.hyps(2)] .
  ultimately show ?case by simp
next
  case (Rollback g poll b g' y l C)
  then have "gate_inv h model (g', l, C \<union> reported poll b g)" using rollback_step by blast
  moreover have "kept g g' (C \<union> reported poll b g)"
    using resolved_kept [OF rollback_resolved [OF Rollback.prems Rollback.hyps(1)] Rollback.hyps(2)] .
  ultimately show ?case by simp
next
  case (Cancel g r g' z l C)
  then show ?case using cancel_step [of h model g l C] by (simp add: kept_same)
next
  case (Token_Limit g limit g' u l C)
  then show ?case using limit_step [of h model g l C] by (simp add: kept_same)
next
  case (Deliver g g' f l C)
  then show ?case using deliver_step [of h model g l C] by (simp add: kept_same)
qed

text \<open>What a quarantined gate may still change: results that are already finished are delivered.\<close>

definition frozen :: "('smp, 'f) fenced_scheduler \<Rightarrow> ('smp, 'f) fenced_scheduler \<Rightarrow> bool" where
  "frozen g g' \<longleftrightarrow> fs_quarantined g' = fs_quarantined g \<and> fs_fence g' = fs_fence g \<and>
     (\<exists>fin. fs_scheduler g' = (fs_scheduler g)\<lparr>sc_finished := fin\<rparr>)"

lemma frozen_refl [simp]: "frozen g g"
  unfolding frozen_def by (intro conjI refl exI [of _ "sc_finished (fs_scheduler g)"]) simp

lemma frozen_trans: "frozen g g1 \<Longrightarrow> frozen g1 g2 \<Longrightarrow> frozen g g2"
  unfolding frozen_def by (elim conjE exE) (intro conjI, simp_all, metis scheduler.update_convs(7))

lemma quarantined_step:
  "gate_step h model sample clear x y \<Longrightarrow> fs_quarantined (fst x) \<Longrightarrow> frozen (fst x) (fst y) \<and> snd (snd y) = snd (snd x)"
proof (induction rule: gate_step.induct)
  case (Deliver g g' f l C)
  then show ?case by (auto simp: fenced_pop_finished_def pop_finished_def frozen_def split: list.splits)
qed (auto simp: fenced_submit_def fenced_submit_sampled_def fenced_cancel_def fenced_set_batch_token_limit_def healthy_call_def
    launch_def try_complete_logits_def try_rollback_def poll_fence_def when_ready_def ensure_healthy_def reported_def
    split: option.splits)

lemma resolved_atomic:
  assumes "resolved g b res keep ok P"
  shows "\<exists>g' v. res = Some (g', v) \<and> ((\<exists>a. v = Returned (Inr (Ready a))) \<or> fs_scheduler g' = fs_scheduler g)"
  using assms unfolding resolved_def by (elim disjE exE conjE) auto

lemma gated_inv: "gated h model sample clear x \<Longrightarrow> gate_inv h model x"
proof (induction rule: gated.induct)
  case (Wrap s l g)
  then have "g = \<lparr>fs_scheduler = s, fs_fence = None, fs_quarantined = False\<rparr>" "sc_in_flight s = None"
    by (auto simp: fenced_new_def sched_snapshot_def split: if_splits)
  then show ?case using Wrap by (simp add: gate_inv_def tracked_def)
next
  case (Step x y)
  then show ?case using gate_step_ok by blast
qed

subsection \<open>A run on concrete data\<close>

text \<open>The request of the scheduler's demonstration behind a gate whose fences carry nothing.\<close>

definition tiny_gate :: "(unit, unit) fenced_scheduler" where
  "tiny_gate = \<lparr>fs_scheduler = tiny_waiting, fs_fence = None, fs_quarantined = False\<rparr>"

definition tiny_launched :: "(unit, unit) fenced_scheduler" where
  "tiny_launched = \<lparr>fs_scheduler = tiny_prefilling, fs_fence = Some (1, (), False), fs_quarantined = False\<rparr>"

definition tiny_lost :: "(unit, unit) fenced_scheduler" where
  "tiny_lost = \<lparr>fs_scheduler = tiny_prefilling, fs_fence = None, fs_quarantined = True\<rparr>"

definition tiny_resolved :: "(unit, unit) fenced_scheduler" where
  "tiny_resolved = \<lparr>fs_scheduler = tiny_ready, fs_fence = None, fs_quarantined = False\<rparr>"

definition tiny_logits :: "f32 list" where
  "tiny_logits = [F32_NegInf, F32_Fin 1, F32_Fin 2, F32_Fin 3, F32_Fin 0, F32_NegInf, F32_Fin 3, F32_Fin 9]"

definition no_sampler :: "unit \<Rightarrow> f32 list \<Rightarrow> token list \<Rightarrow> token list \<Rightarrow> (unit + token) \<times> unit" where
  "no_sampler smp values prompt generated = (Inl (), smp)"

definition answers :: "(runtime_error + unit) poll option \<Rightarrow> unit \<Rightarrow> unit \<times> (runtime_error + unit) poll option" where
  "answers v fence = (fence, v)"

abbreviation "tiny_gated \<equiv> gated demo_hash counting no_sampler id"
abbreviation "tiny_step \<equiv> gate_step demo_hash counting no_sampler id"

lemma tiny_gate_room: "gate_room demo_hash tiny_waiting" "gate_room demo_hash tiny_prefilling"
  using tiny_roomy tiny_schedule by (auto simp: gate_room_def schedule_def tiny_fields)

lemma tiny_launch:
  "launch demo_hash (\<lambda>_. Launched ()) tiny_gate = Some (tiny_launched, Returned (Inr (Some tiny_prefill)))"
  "launch demo_hash (\<lambda>_. LaunchPanicked) tiny_gate = Some (tiny_lost, Unwound)"
  by (simp_all add: launch_def ensure_healthy_def tiny_gate_def tiny_launched_def tiny_lost_def tiny_schedule tiny_fields)

lemma tiny_select:
  "select_batch_tokens no_sampler id tiny_prefilling 1 tiny_logits 8 =
    Some (Inr \<lparr>sel_batch_id = 1, sel_tokens = [7], sel_samplers = []\<rparr>)"
  by (simp add: select_batch_tokens_def select_batch_tokens_with_def batch_sampling_state_def in_flight_batch_def select_row_def
      sampler_choice_def greedy_token_def row_owner_error_def samples_token_def get_active_def try_op_def sub_slice_def
      ok_then_def tiny_logits_def tiny_defs)

lemma tiny_resolve:
  "try_complete_logits demo_hash no_sampler id (answers (Some (Ready (Inr ())))) 1 tiny_logits 8 tiny_launched =
    Some (tiny_resolved, Returned (Inr (Ready [7])))"
proof -
  have "check_logit_rows (chunks_exact 8 tiny_logits) = Inr ()"
    by (simp add: chunks_exact.simps tiny_logits_def checked_argmax_def f32_is_finite_def ok_then_def)
  moreover have "length tiny_logits = 8" "batch_size tiny_prefill = 1" by (simp_all add: tiny_logits_def batch_size_def tiny_defs)
  ultimately show ?thesis
    by (simp add: try_complete_logits_def poll_fence_def ensure_healthy_def tiny_launched_def answers_def when_ready_def
        tiny_select [simplified] complete_selected_batch_def sched_then_def tiny_complete [simplified] tiny_resolved_def tiny_fields)
qed

lemma tiny_wait:
  "try_rollback (answers (Some Pending)) 1 tiny_launched = Some (tiny_launched, Returned (Inr Pending))"
  "try_rollback (answers (Some Pending)) 1 tiny_lost = Some (tiny_lost, Returned (Inl Quarantined))"
  by (simp_all add: try_rollback_def poll_fence_def ensure_healthy_def tiny_launched_def tiny_lost_def answers_def when_ready_def)

lemma tiny_logits_true: "logits_true counting no_sampler tiny_prefilling tiny_prefill tiny_logits 8"
  by (simp add: logits_true_def row_choice_def row_logits_def sampler_choice_def greedy_token_def row_history_def counting_def
      get_active_def tiny_logits_def tiny_defs)

lemma tiny_gated:
  "tiny_gated (tiny_gate, tiny_ledger, {})" "tiny_gated (tiny_launched, tiny_ledger, {})" "tiny_gated (tiny_lost, tiny_ledger, {})"
  "tiny_gated (tiny_resolved, tiny_ledger, {1})"
proof -
  have "fenced_new tiny_waiting = Inr tiny_gate" by (simp add: fenced_new_def sched_snapshot_def tiny_gate_def tiny_fields)
  then show a: "tiny_gated (tiny_gate, tiny_ledger, {})" by (rule gated.Wrap [OF tiny_serving(1)])
  have room: "gate_room demo_hash (fs_scheduler tiny_gate)" using tiny_gate_room(1) by (simp add: tiny_gate_def)
  show b: "tiny_gated (tiny_launched, tiny_ledger, {})" by (rule gated.Step [OF a gate_step.Launch [OF room tiny_launch(1)]])
  show "tiny_gated (tiny_lost, tiny_ledger, {})" by (rule gated.Step [OF a gate_step.Launch [OF room tiny_launch(2)]])
  have "roomy (fs_scheduler tiny_launched)" "\<forall>tokens batch. Returned (Inr (Ready [7])) = (Returned (Inr (Ready tokens)) :: (gate_error + token list poll) unwind) \<longrightarrow>
      sc_in_flight (fs_scheduler tiny_launched) = Some batch \<longrightarrow>
      bt_kind batch \<noteq> Verify \<and> logits_true counting no_sampler (fs_scheduler tiny_launched) batch tiny_logits 8"
    using tiny_roomy(2) tiny_logits_true by (auto simp: tiny_launched_def tiny_fields tiny_prefill_def)
  from gated.Step [OF b gate_step.Complete [OF this(1) tiny_resolve this(2)]] show "tiny_gated (tiny_resolved, tiny_ledger, {1})"
    by (simp add: reported_def tiny_launched_def answers_def)
qed

subsection \<open>Properties\<close>

text \<open>
  C5. A run through the gate is a run of the scheduler, whatever launches and polls do, provided that the calls
  that commit a batch are given logits whose choices are the model's and do not commit a batch with drafts, which
  the gate has no operation for (launching and rolling such a batch back is covered): the wrapped
  scheduler is in a state its own operations reach with the tokens of the model, so everything
  proved about its runs holds behind the gate; and unless the gate is quarantined its fence tracks
  exactly the batch in flight.
\<close>

theorem gated_serves:
  assumes "gated h model sample clear (g, l, C)"
  shows "serving h model (fs_scheduler g) l \<and>
    (\<not> fs_quarantined g \<longrightarrow> (\<forall>b. (\<exists>f c. fs_fence g = Some (b, f, c)) \<longleftrightarrow>
      (\<exists>batch. sc_in_flight (fs_scheduler g) = Some batch \<and> bt_id batch = b)))"
  using gated_inv [OF assms] by (auto simp: gate_inv_def tracked_def split: option.splits)

theorem gated_serves_witness:
  "serving demo_hash counting tiny_ready tiny_ledger"
  using gated_serves [OF tiny_gated(4)] by (simp add: tiny_resolved_def)

text \<open>
  C4. Device work is never released early: in every reachable state each step leaves the batch in
  flight with its KV reservations pending, unless the fence of this batch has reported completion.
\<close>

theorem fence_before_release:
  assumes "gated h model sample clear (g, l, C)" "gate_step h model sample clear (g, l, C) (g', l', C')"
    "sc_in_flight (fs_scheduler g) = Some batch"
  shows "sc_in_flight (fs_scheduler g') = Some batch \<and>
      list_all (\<lambda>row. \<exists>c n. seq_view (sc_kv (fs_scheduler g')) (row_request row) = Some (c, Some (row_reservation row, n))) (bt_sequences batch) \<or>
    bt_id batch \<in> C' \<and> \<not> fs_quarantined g'"
proof -
  have S: "gate_inv h model (g', l', C')" "kept g g' C'" using gate_step_ok [OF assms(2) gated_inv [OF assms(1)]] by simp_all
  have "list_all (\<lambda>row. \<exists>c n. seq_view (sc_kv (fs_scheduler g')) (row_request row) = Some (c, Some (row_reservation row, n))) (bt_sequences batch)"
    if fl: "sc_in_flight (fs_scheduler g') = Some batch"
    using row_active [OF in_flight_inv(1) [OF gate_inv_running(2) [OF S(1)] fl]] unfolding list_all_iff by blast
  then show ?thesis using S(2) assms(3) by (auto simp: kept_def)
qed

theorem fence_before_release_witness:
  "list_all (\<lambda>row. \<exists>c n. seq_view (sc_kv tiny_prefilling) (row_request row) = Some (c, Some (row_reservation row, n)))
    (bt_sequences tiny_prefill)"
proof -
  have "roomy (fs_scheduler tiny_launched)" "sc_in_flight (fs_scheduler tiny_launched) = Some tiny_prefill"
    using tiny_roomy(2) by (simp_all add: tiny_launched_def tiny_fields)
  moreover have "reported (answers (Some Pending)) 1 tiny_launched = {}" by (simp add: reported_def tiny_launched_def answers_def)
  ultimately show ?thesis
    using fence_before_release [OF tiny_gated(2) gate_step.Rollback [OF _ tiny_wait(1)]] by (simp add: tiny_launched_def)
qed

text \<open>
  C6. A quarantined gate stays as it is: no sequence of calls changes anything but the delivery of
  results that were finished before, and the batch whose fate is unknown keeps its pages.
\<close>

theorem quarantine_is_final:
  assumes "gated h model sample clear (g, l, C)" "fs_quarantined g"
    "rtranclp (gate_step h model sample clear) (g, l, C) (g', l', C')"
  shows "fs_quarantined g' \<and> fs_fence g' = fs_fence g \<and> C' = C \<and> sc_in_flight (fs_scheduler g) \<noteq> None \<and>
    fs_scheduler g' = (fs_scheduler g)\<lparr>sc_finished := sc_finished (fs_scheduler g')\<rparr>"
proof -
  have "frozen g (fst y) \<and> snd (snd y) = C" if "rtranclp (gate_step h model sample clear) (g, l, C) y" for y
    using that
  proof (induction rule: rtranclp_induct)
    case (step y z)
    then have "fs_quarantined (fst y)" using assms(2) by (simp add: frozen_def)
    then show ?case using quarantined_step [OF step.hyps(2)] step.IH frozen_trans by metis
  qed simp
  then have e: "frozen g g'" "C' = C" using assms(3) by fastforce+
  have "sc_in_flight (fs_scheduler g) \<noteq> None" using gated_inv [OF assms(1)] assms(2) by (simp add: gate_inv_def)
  then show ?thesis using e assms(2) by (auto simp: frozen_def)
qed

theorem quarantine_is_final_witness: "fs_quarantined tiny_lost \<and> sc_in_flight (fs_scheduler tiny_lost) \<noteq> None"
proof -
  have "roomy (fs_scheduler tiny_lost)" "fs_quarantined tiny_lost" using tiny_roomy(2) by (simp_all add: tiny_lost_def)
  then show ?thesis
    using quarantine_is_final [OF tiny_gated(3) _ r_into_rtranclp [where r = tiny_step, OF gate_step.Rollback [OF _ tiny_wait(2)]]] by blast
qed

text \<open>
  C7. Launching a batch, completing it from logits and rolling it back never panic on their own, whatever the adapter does and
  whatever the logits are, and resolving a batch is all or nothing: a call that does not answer with the tokens, a pending fence and refused logits
  included, leaves the scheduler with its caches and samplers as it was.
\<close>

theorem gate_calls_atomic:
  assumes "gated h model sample clear (g, l, C)" "gate_room h (fs_scheduler g)"
  shows "(\<exists>g' v. launch h start g = Some (g', v)) \<and>
    (\<exists>g' v. try_complete_logits h sample clear poll b logits vocabulary g = Some (g', v) \<and>
      ((\<exists>ts. v = Returned (Inr (Ready ts))) \<or> fs_scheduler g' = fs_scheduler g)) \<and>
    (\<exists>g' v. try_rollback poll b g = Some (g', v) \<and> (v = Returned (Inr (Ready ())) \<or> fs_scheduler g' = fs_scheduler g))"
proof -
  have inv: "gate_inv h model (g, l, C)" using gated_inv [OF assms(1)] .
  have room: "roomy (fs_scheduler g)" using assms(2) by (simp add: gate_room_def)
  show ?thesis
    using launch_ok [OF inv assms(2), of start]
      resolved_atomic [OF complete_resolved [OF inv room, of b sample clear poll logits vocabulary]]
      resolved_atomic [OF rollback_resolved [OF inv room, of b poll]] by auto
qed

theorem gate_calls_atomic_witness:
  "\<exists>g' v. try_complete_logits demo_hash no_sampler id (answers (Some Pending)) 1 [F32_NaN] 1 tiny_launched = Some (g', v) \<and>
    ((\<exists>ts. v = Returned (Inr (Ready ts))) \<or> fs_scheduler g' = tiny_prefilling)"
proof -
  have "gate_room demo_hash (fs_scheduler tiny_launched)" "fs_scheduler tiny_launched = tiny_prefilling"
    using tiny_gate_room(2) by (simp_all add: tiny_launched_def)
  then show ?thesis using gate_calls_atomic [OF tiny_gated(2), where vocabulary = 1 and logits = "[F32_NaN]" and b = 1
    and poll = "answers (Some Pending)" and start = "\<lambda>_. LaunchPanicked"] by simp
qed

end
