(* ===== verification/Prefix_Tiers.thy ===== *)
theory Prefix_Tiers
  imports Paged_Kv "HOL-Library.List_Lexorder"
begin

text \<open>
  The tiered prefix cache of \<open>ruLLM/src/prefix_cache.rs\<close>: computed prompts are kept on the device, then
  serialized in host memory, then in files, each tier within its budget and each evicting the entry
  used longest ago.  Keys are token lists in the order of \<open>Vec<i32>\<close>.

  The tensor backend and the model are the type parameters of the code; what it calls of them is
  the record \<open>backend\<close>, functions of their arguments.  The file system is the record \<open>disk_io\<close> of functions on a world \<open>'w\<close>, which may
  fail in any way.  An operation returns \<open>None\<close> when the code panics or does not return, and otherwise
  the cache and the world after the call with its \<open>Result\<close>.  The bytes counted by \<open>host_bytes\<close> are in
  memory, so their sum does not overflow.
\<close>

subsection \<open>Data\<close>

type_synonym bytes = "nat list"
type_synonym path = string

record model_limits =
  ml_vocab_size :: usize
  ml_max_sequence_length :: usize

record ('c, 'l) prefilled_prompt =
  pp_model_id :: string
  pp_limits :: model_limits
  pp_tokens :: "token list"
  pp_cache :: 'c
  pp_logits :: 'l

record tensor_data =
  td_shape :: "usize list"
  td_is_float :: bool
  td_element_size :: usize
  td_bytes :: bytes

record 'i payload =
  pl_version :: nat
  pl_model_id :: string
  pl_limits :: model_limits
  pl_tokens :: "token list"
  pl_item :: 'i
  pl_logits :: tensor_data

record ('c, 'l, 'i) backend =
  be_dims :: "'l \<Rightarrow> usize \<times> usize \<times> usize"
  be_on_device :: "'l \<Rightarrow> bool"
  be_position :: "'c \<Rightarrow> usize"
  be_new_cache :: 'c
  be_forward :: "token list \<Rightarrow> 'c \<Rightarrow> (unit + 'l) \<times> 'c"
  be_sync :: "unit + unit"
  be_capture_generation :: "'c \<Rightarrow> string \<Rightarrow> unit + 'i"
  be_into_data :: "'l \<Rightarrow> unit + tensor_data"
  be_encode :: "'i payload \<Rightarrow> unit + bytes"
  be_decode :: "bytes \<Rightarrow> 'i payload option"
  be_restore_generation :: "'i \<Rightarrow> string \<Rightarrow> usize \<Rightarrow> unit + 'c"
  be_load :: "tensor_data \<Rightarrow> 'l"

datatype create_result = Created | AlreadyExists | CreateFailed

record 'w disk_io =
  io_path :: "nat \<Rightarrow> path"
  io_remove :: "path \<Rightarrow> 'w \<Rightarrow> 'w \<times> bool"
  io_read :: "path \<Rightarrow> 'w \<Rightarrow> 'w \<times> bytes option"
  io_create_new :: "path \<Rightarrow> 'w \<Rightarrow> 'w \<times> create_result"
  io_write :: "path \<Rightarrow> bytes \<Rightarrow> 'w \<Rightarrow> 'w \<times> bool"

record prefix_cache_config =
  cc_block_tokens :: usize
  cc_device_entries :: usize
  cc_host_bytes :: usize
  cc_disk_directory :: "path option"
  cc_disk_bytes :: usize

record prefix_cache_stats =
  st_lookups :: nat
  st_hits :: nat
  st_reused_tokens :: nat
  st_device_entries :: usize
  st_host_bytes :: usize
  st_disk_bytes :: usize

datatype ('c, 'l) tier = Device "('c, 'l) prefilled_prompt" | Host bytes | Disk path usize

record ('c, 'l) tier_entry =
  en_tier :: "('c, 'l) tier"
  en_used :: nat

record ('c, 'l) tiered_cache =
  pc_model_id :: string
  pc_limits :: model_limits
  pc_config :: prefix_cache_config
  pc_entries :: "(token list \<times> ('c, 'l) tier_entry) list"
  pc_tick :: nat
  pc_stats :: prefix_cache_stats

datatype prefix_error =
    PrefixDiffers
  | ExportPosition
  | HandoffPrompt
  | NoModelIdentity
  | BlockSizeZero
  | NoDiskDirectory
  | IoError
  | DiskOverflow
  | NothingEvictable
  | InvalidPrompt
  | ModelError
  | PrefillIncomplete
  | NoCompletedState
  | KeyPosition
  | IncompletePrefix
  | CaptureError
  | PayloadDiffers

type_synonym ('c, 'l, 'w, 'a) cache_result = "(('c, 'l) tiered_cache \<times> 'w \<times> (prefix_error + 'a)) option"

definition cache_then ::
  "('c, 'l, 'w, 'a) cache_result \<Rightarrow> (('c, 'l) tiered_cache \<Rightarrow> 'w \<Rightarrow> 'a \<Rightarrow> ('c, 'l, 'w, 'b) cache_result) \<Rightarrow>
   ('c, 'l, 'w, 'b) cache_result" where
  "cache_then r f = Option.bind r (\<lambda>(p, w, v). case v of Inl e \<Rightarrow> Some (p, w, Inl e) | Inr a \<Rightarrow> f p w a)"

subsection \<open>A prefilled prompt\<close>

definition starts_with :: "token list \<Rightarrow> token list \<Rightarrow> bool" where
  "starts_with xs ys \<longleftrightarrow> take (length ys) xs = ys"

definition pp_validate ::
  "('c, 'l, 'i) backend \<Rightarrow> ('c, 'l) prefilled_prompt \<Rightarrow> string \<Rightarrow> model_limits \<Rightarrow> token list \<Rightarrow> prefix_error + unit" where
  "pp_validate be self model_id limits prompt =
     (case be_dims be (pp_logits self) of (batch, sequence, vocabulary) \<Rightarrow>
        if model_id = [] \<or> pp_model_id self \<noteq> model_id \<or> pp_limits self \<noteq> limits \<or> pp_tokens self = []
           \<or> \<not> starts_with prompt (pp_tokens self) \<or> batch \<noteq> 1 \<or> sequence \<noteq> 1
           \<or> vocabulary \<noteq> ml_vocab_size limits \<or> \<not> be_on_device be (pp_logits self)
        then Inl PrefixDiffers else Inr ())"

definition valid_tokens :: "model_limits \<Rightarrow> token list \<Rightarrow> bool" where
  "valid_tokens limits tokens \<longleftrightarrow> tokens \<noteq> [] \<and> length tokens \<le> ml_max_sequence_length limits \<and>
     (\<forall>t \<in> set tokens. 0 \<le> t \<and> nat t < ml_vocab_size limits)"

definition capture :: "('c, 'l, 'i) backend \<Rightarrow> ('c, 'l) prefilled_prompt \<Rightarrow> prefix_error + bytes" where
  "capture be prefix =
     (case be_sync be of Inl _ \<Rightarrow> Inl CaptureError | Inr _ \<Rightarrow>
      (case be_capture_generation be (pp_cache prefix) (pp_model_id prefix) of Inl _ \<Rightarrow> Inl CaptureError | Inr item \<Rightarrow>
      (case be_into_data be (pp_logits prefix) of Inl _ \<Rightarrow> Inl CaptureError | Inr logits \<Rightarrow>
      (case be_encode be \<lparr>pl_version = 1, pl_model_id = pp_model_id prefix, pl_limits = pp_limits prefix, pl_tokens = pp_tokens prefix,
           pl_item = item, pl_logits = logits\<rparr> of Inl _ \<Rightarrow> Inl CaptureError | Inr bs \<Rightarrow> Inr bs))))"

definition restore :: "('c, 'l, 'i) backend \<Rightarrow> bytes \<Rightarrow> string \<Rightarrow> model_limits \<Rightarrow> prefix_error + ('c, 'l) prefilled_prompt" where
  "restore be bs model_id limits =
     (case be_decode be bs of
        None \<Rightarrow> Inl PayloadDiffers
      | Some pl \<Rightarrow>
          let logits = pl_logits pl in
          if pl_version pl \<noteq> 1 \<or> pl_model_id pl \<noteq> model_id \<or> pl_limits pl \<noteq> limits \<or> \<not> valid_tokens limits (pl_tokens pl)
             \<or> td_shape logits \<noteq> [1, 1, ml_vocab_size limits] \<or> \<not> td_is_float logits
             \<or> umul (ml_vocab_size limits) (td_element_size logits) \<noteq> Some (length (td_bytes logits))
          then Inl PayloadDiffers
          else (case be_restore_generation be (pl_item pl) model_id (length (pl_tokens pl)) of
              Inl _ \<Rightarrow> Inl PayloadDiffers
            | Inr cache \<Rightarrow>
                let prefix = \<lparr>pp_model_id = pl_model_id pl, pp_limits = limits, pp_tokens = pl_tokens pl, pp_cache = cache,
                      pp_logits = be_load be logits\<rparr> in
                ok_then (pp_validate be prefix model_id limits (pp_tokens prefix)) (\<lambda>_. Inr prefix)))"

definition pp_export :: "('c, 'l, 'i) backend \<Rightarrow> ('c, 'l) prefilled_prompt \<Rightarrow> prefix_error + bytes" where
  "pp_export be self =
     ok_then (pp_validate be self (pp_model_id self) (pp_limits self) (pp_tokens self)) (\<lambda>_.
       if be_position be (pp_cache self) \<noteq> length (pp_tokens self) then Inl ExportPosition else capture be self)"

definition pp_import ::
  "('c, 'l, 'i) backend \<Rightarrow> bytes \<Rightarrow> string \<Rightarrow> model_limits \<Rightarrow> token list \<Rightarrow> prefix_error + ('c, 'l) prefilled_prompt" where
  "pp_import be bs model_id limits expected =
     ok_then (restore be bs model_id limits) (\<lambda>prefix.
       if pp_tokens prefix \<noteq> expected then Inl HandoffPrompt else Inr prefix)"

subsection \<open>Eviction\<close>

definition is_device :: "('c, 'l) tier_entry \<Rightarrow> bool" where
  "is_device e = (case en_tier e of Device _ \<Rightarrow> True | _ \<Rightarrow> False)"

definition is_host :: "('c, 'l) tier_entry \<Rightarrow> bool" where
  "is_host e = (case en_tier e of Host _ \<Rightarrow> True | _ \<Rightarrow> False)"

definition is_disk :: "('c, 'l) tier_entry \<Rightarrow> bool" where
  "is_disk e = (case en_tier e of Disk _ _ \<Rightarrow> True | _ \<Rightarrow> False)"

text \<open>\<open>filter(..).min_by_key(|(_, e)| e.used)\<close>, which returns the first minimum.\<close>

definition oldest :: "(('c, 'l) tier_entry \<Rightarrow> bool) \<Rightarrow> (token list \<times> ('c, 'l) tier_entry) list \<Rightarrow> token list option" where
  "oldest P entries =
     (case filter (\<lambda>x. P (snd x)) entries of
        [] \<Rightarrow> None
      | x # xs \<Rightarrow> Some (fst (fold (\<lambda>y best. if en_used (snd y) < en_used (snd best) then y else best) xs x)))"

definition evict_disk :: "'w disk_io \<Rightarrow> ('c, 'l) tiered_cache \<Rightarrow> 'w \<Rightarrow> ('c, 'l, 'w, unit) cache_result" where
  "evict_disk io self w =
     (case oldest is_disk (pc_entries self) of
        None \<Rightarrow> Some (self, w, Inl NothingEvictable)
      | Some old \<Rightarrow> do {
          e \<leftarrow> map_of (pc_entries self) old;
          (case en_tier e of
             Disk path sz \<Rightarrow>
               (case io_remove io path w of
                  (w, False) \<Rightarrow> Some (self, w, Inl IoError)
                | (w, True) \<Rightarrow> do {
                    left \<leftarrow> usub (st_disk_bytes (pc_stats self)) sz;
                    Some (self\<lparr>pc_stats := (pc_stats self)\<lparr>st_disk_bytes := left\<rparr>, pc_entries := om_remove old (pc_entries self)\<rparr>,
                      w, Inr ())
                  })
           | _ \<Rightarrow> None)
        })"

definition saturating_add :: "usize \<Rightarrow> usize \<Rightarrow> usize" where
  "saturating_add a b = min (a + b) (usize_lim - 1)"

definition saturating_mul :: "usize \<Rightarrow> usize \<Rightarrow> usize" where
  "saturating_mul a b = min (a * b) (usize_lim - 1)"

text \<open>
  \<open>while self.stats.disk_bytes.saturating_add(n) > self.config.disk_bytes { self.evict_disk()?; }\<close>, with
  \<open>n = 0\<close> for the loop of \<open>reopen_disk\<close>.
\<close>

partial_function (option) evict_loop ::
  "'w disk_io \<Rightarrow> usize \<Rightarrow> ('c, 'l) tiered_cache \<Rightarrow> 'w \<Rightarrow> ('c, 'l, 'w, unit) cache_result" where
  [code]: "evict_loop io n self w =
     (if cc_disk_bytes (pc_config self) < saturating_add (st_disk_bytes (pc_stats self)) n
      then Option.bind (evict_disk io self w) (\<lambda>(self, w, v). case v of Inl e \<Rightarrow> Some (self, w, Inl e) | Inr _ \<Rightarrow> evict_loop io n self w)
      else Some (self, w, Inr ()))"

text \<open>The search for a file name that does not exist; the serial number is a \<open>u64\<close>.\<close>

function create_loop :: "'w disk_io \<Rightarrow> nat \<Rightarrow> 'w \<Rightarrow> ('w \<times> path option) option" where
  "create_loop io serial w =
     (case io_create_new io (io_path io serial) w of
        (w, Created) \<Rightarrow> Some (w, Some (io_path io serial))
      | (w, AlreadyExists) \<Rightarrow> if serial + 1 < usize_lim then create_loop io (serial + 1) w else None
      | (w, CreateFailed) \<Rightarrow> Some (w, None))"
  by pat_completeness auto
termination by (relation "measure (\<lambda>(io, serial, w). usize_lim - serial)") auto

definition put_disk ::
  "'w disk_io \<Rightarrow> token list \<Rightarrow> bytes \<Rightarrow> nat \<Rightarrow> ('c, 'l) tiered_cache \<Rightarrow> 'w \<Rightarrow> ('c, 'l, 'w, unit) cache_result" where
  "put_disk io key bs used self w =
     (if cc_disk_bytes (pc_config self) < length bs \<or> cc_disk_bytes (pc_config self) = 0 then Some (self, w, Inr ())
      else cache_then (evict_loop io (length bs) self w) (\<lambda>self w _. do {
        _ \<leftarrow> cc_disk_directory (pc_config self);
        (w, created) \<leftarrow> create_loop io (pc_tick self) w;
        (case created of
           None \<Rightarrow> Some (self, w, Inl IoError)
         | Some path \<Rightarrow>
             (case io_write io path bs w of
                (w, False) \<Rightarrow> Some (self, fst (io_remove io path w), Inl IoError)
              | (w, True) \<Rightarrow> do {
                  total \<leftarrow> uadd (st_disk_bytes (pc_stats self)) (length bs);
                  Some (self\<lparr>pc_stats := (pc_stats self)\<lparr>st_disk_bytes := total\<rparr>,
                             pc_entries := om_insert key \<lparr>en_tier = Disk path (length bs), en_used = used\<rparr> (pc_entries self)\<rparr>,
                    w, Inr ())
                }))
      }))"

subsection \<open>Inserting\<close>

definition set_entry :: "('c, 'l) tiered_cache \<Rightarrow> token list \<Rightarrow> ('c, 'l) tier_entry \<Rightarrow> ('c, 'l) tiered_cache" where
  "set_entry self key e = self\<lparr>pc_entries := om_insert key e (pc_entries self)\<rparr>"

definition drop_entry :: "('c, 'l) tiered_cache \<Rightarrow> token list \<Rightarrow> ('c, 'l) tiered_cache" where
  "drop_entry self key = self\<lparr>pc_entries := om_remove key (pc_entries self)\<rparr>"

definition set_device :: "('c, 'l) tiered_cache \<Rightarrow> usize \<Rightarrow> ('c, 'l) tiered_cache" where
  "set_device self n = self\<lparr>pc_stats := (pc_stats self)\<lparr>st_device_entries := n\<rparr>\<rparr>"

definition set_host :: "('c, 'l) tiered_cache \<Rightarrow> usize \<Rightarrow> ('c, 'l) tiered_cache" where
  "set_host self n = self\<lparr>pc_stats := (pc_stats self)\<lparr>st_host_bytes := n\<rparr>\<rparr>"

text \<open>One round of the loop over the device tier.\<close>

definition demote_device ::
  "('c, 'l, 'i) backend \<Rightarrow> 'w disk_io \<Rightarrow> ('c, 'l) tiered_cache \<Rightarrow> 'w \<Rightarrow> ('c, 'l, 'w, unit) cache_result" where
  "demote_device be io self w = do {
     key \<leftarrow> oldest is_device (pc_entries self);
     e \<leftarrow> map_of (pc_entries self) key;
     let self = drop_entry self key;
     n \<leftarrow> usub (st_device_entries (pc_stats self)) 1;
     let self = set_device self n;
     (case en_tier e of
        Device prefix \<Rightarrow>
          if cc_host_bytes (pc_config self) = 0 \<and> cc_disk_bytes (pc_config self) = 0 then Some (self, w, Inr ())
          else (case capture be prefix of
              Inl err \<Rightarrow> Some (set_device (set_entry self key \<lparr>en_tier = Device prefix, en_used = en_used e\<rparr>) (n + 1), w, Inl err)
            | Inr bs \<Rightarrow>
                if length bs \<le> cc_host_bytes (pc_config self)
                then Some (set_entry (set_host self (st_host_bytes (pc_stats self) + length bs)) key
                  \<lparr>en_tier = Host bs, en_used = en_used e\<rparr>, w, Inr ())
                else put_disk io key bs (en_used e) self w)
      | _ \<Rightarrow> None)
   }"

partial_function (option) device_loop ::
  "('c, 'l, 'i) backend \<Rightarrow> 'w disk_io \<Rightarrow> ('c, 'l) tiered_cache \<Rightarrow> 'w \<Rightarrow> ('c, 'l, 'w, unit) cache_result" where
  [code]: "device_loop be io self w =
     (if cc_device_entries (pc_config self) < st_device_entries (pc_stats self)
      then Option.bind (demote_device be io self w) (\<lambda>(self, w, v). case v of Inl e \<Rightarrow> Some (self, w, Inl e) | Inr _ \<Rightarrow> device_loop be io self w)
      else Some (self, w, Inr ()))"

definition demote_host :: "'w disk_io \<Rightarrow> ('c, 'l) tiered_cache \<Rightarrow> 'w \<Rightarrow> ('c, 'l, 'w, unit) cache_result" where
  "demote_host io self w = do {
     key \<leftarrow> oldest is_host (pc_entries self);
     e \<leftarrow> map_of (pc_entries self) key;
     let self = drop_entry self key;
     (case en_tier e of
        Host bs \<Rightarrow> do {
          n \<leftarrow> usub (st_host_bytes (pc_stats self)) (length bs);
          put_disk io key bs (en_used e) (set_host self n) w
        }
      | _ \<Rightarrow> None)
   }"

partial_function (option) host_loop :: "'w disk_io \<Rightarrow> ('c, 'l) tiered_cache \<Rightarrow> 'w \<Rightarrow> ('c, 'l, 'w, unit) cache_result" where
  [code]: "host_loop io self w =
     (if cc_host_bytes (pc_config self) < st_host_bytes (pc_stats self)
      then Option.bind (demote_host io self w) (\<lambda>(self, w, v). case v of Inl e \<Rightarrow> Some (self, w, Inl e) | Inr _ \<Rightarrow> host_loop io self w)
      else Some (self, w, Inr ()))"

definition caching_off :: "('c, 'l) tiered_cache \<Rightarrow> bool" where
  "caching_off self \<longleftrightarrow> cc_device_entries (pc_config self) = 0 \<and> cc_host_bytes (pc_config self) = 0 \<and> cc_disk_bytes (pc_config self) = 0"

definition cache_insert ::
  "('c, 'l, 'i) backend \<Rightarrow> 'w disk_io \<Rightarrow> ('c, 'l) prefilled_prompt \<Rightarrow> ('c, 'l) tiered_cache \<Rightarrow> 'w \<Rightarrow> ('c, 'l, 'w, unit) cache_result" where
  "cache_insert be io prefix self w =
     (case pp_validate be prefix (pc_model_id self) (pc_limits self) (pp_tokens prefix) of
        Inl e \<Rightarrow> Some (self, w, Inl e)
      | Inr _ \<Rightarrow>
          if be_position be (pp_cache prefix) \<noteq> length (pp_tokens prefix) then Some (self, w, Inl IncompletePrefix)
          else if caching_off self then Some (self, w, Inr ())
          else do {
            tick \<leftarrow> uadd (pc_tick self) 1;
            let self = self\<lparr>pc_tick := tick\<rparr>;
            (case map_of (pc_entries self) (pp_tokens prefix) of
               Some e \<Rightarrow> Some (set_entry self (pp_tokens prefix) (e\<lparr>en_used := tick\<rparr>), w, Inr ())
             | None \<Rightarrow> do {
                 let self = set_entry self (pp_tokens prefix) \<lparr>en_tier = Device prefix, en_used = tick\<rparr>;
                 n \<leftarrow> uadd (st_device_entries (pc_stats self)) 1;
                 cache_then (device_loop be io (set_device self n) w) (\<lambda>self w _. host_loop io self w)
               })
          })"

subsection \<open>Looking up\<close>

text \<open>\<open>keys().filter(|key| prompt.starts_with(key)).max_by_key(|key| key.len())\<close>, which returns the last maximum.\<close>

definition longest_key :: "token list \<Rightarrow> (token list \<times> ('c, 'l) tier_entry) list \<Rightarrow> token list option" where
  "longest_key prompt entries =
     (case filter (starts_with prompt) (map fst entries) of
        [] \<Rightarrow> None
      | x # xs \<Rightarrow> Some (fold (\<lambda>y best. if length best \<le> length y then y else best) xs x))"

definition load_entry ::
  "('c, 'l, 'i) backend \<Rightarrow> 'w disk_io \<Rightarrow> ('c, 'l) tiered_cache \<Rightarrow> ('c, 'l) tier \<Rightarrow> 'w \<Rightarrow> 'w \<times> (prefix_error + ('c, 'l) prefilled_prompt)" where
  "load_entry be io self t w =
     (case t of
        Device prefix \<Rightarrow> (w, Inr prefix)
      | Host bs \<Rightarrow> (w, restore be bs (pc_model_id self) (pc_limits self))
      | Disk path _ \<Rightarrow>
          (case io_read io path w of
             (w, None) \<Rightarrow> (w, Inl IoError)
           | (w, Some bs) \<Rightarrow> (w, restore be bs (pc_model_id self) (pc_limits self))))"

definition check_loaded ::
  "('c, 'l, 'i) backend \<Rightarrow> ('c, 'l) tiered_cache \<Rightarrow> token list \<Rightarrow> token list \<Rightarrow> ('c, 'l) prefilled_prompt \<Rightarrow>
   prefix_error + ('c, 'l) prefilled_prompt" where
  "check_loaded be self prompt key result =
     ok_then (pp_validate be result (pc_model_id self) (pc_limits self) prompt) (\<lambda>_.
       if be_position be (pp_cache result) \<noteq> length key then Inl KeyPosition else Inr result)"

text \<open>A prefix that cannot be restored is dropped; the bytes of a file stay counted.\<close>

definition drop_failed :: "('c, 'l) tiered_cache \<Rightarrow> token list \<Rightarrow> ('c, 'l) tier \<Rightarrow> ('c, 'l) tiered_cache option" where
  "drop_failed self key t =
     (let self = drop_entry self key in
      case t of
        Device _ \<Rightarrow> do { n \<leftarrow> usub (st_device_entries (pc_stats self)) 1; Some (set_device self n) }
      | Host bs \<Rightarrow> do { n \<leftarrow> usub (st_host_bytes (pc_stats self)) (length bs); Some (set_host self n) }
      | Disk _ _ \<Rightarrow> Some self)"

definition count_hit :: "('c, 'l) tiered_cache \<Rightarrow> token list \<Rightarrow> ('c, 'l) tiered_cache option" where
  "count_hit self key = do {
     hits \<leftarrow> uadd (st_hits (pc_stats self)) 1;
     reused \<leftarrow> uadd (st_reused_tokens (pc_stats self)) (length key);
     Some (self\<lparr>pc_stats := (pc_stats self)\<lparr>st_hits := hits, st_reused_tokens := reused\<rparr>\<rparr>)
   }"

partial_function (option) lookup_loop ::
  "('c, 'l, 'i) backend \<Rightarrow> 'w disk_io \<Rightarrow> token list \<Rightarrow> ('c, 'l) tiered_cache \<Rightarrow> 'w \<Rightarrow>
   ('c, 'l, 'w, ('c, 'l) prefilled_prompt option) cache_result" where
  [code]: "lookup_loop be io prompt self w =
     (case longest_key prompt (pc_entries self) of
        None \<Rightarrow> Some (self, w, Inr None)
      | Some key \<Rightarrow> Option.bind (map_of (pc_entries self) key) (\<lambda>e.
          let self = set_entry self key (e\<lparr>en_used := pc_tick self\<rparr>) in
          (case load_entry be io self (en_tier e) w of (w, loaded) \<Rightarrow>
             (case ok_then loaded (check_loaded be self prompt key) of
                Inl _ \<Rightarrow> Option.bind (drop_failed self key (en_tier e)) (\<lambda>self. lookup_loop be io prompt self w)
              | Inr result \<Rightarrow> Option.bind (count_hit self key) (\<lambda>self. Some (self, w, Inr (Some result)))))))"

definition lookup ::
  "('c, 'l, 'i) backend \<Rightarrow> 'w disk_io \<Rightarrow> token list \<Rightarrow> ('c, 'l) tiered_cache \<Rightarrow> 'w \<Rightarrow>
   ('c, 'l, 'w, ('c, 'l) prefilled_prompt option) cache_result" where
  "lookup be io prompt self w = do {
     n \<leftarrow> uadd (st_lookups (pc_stats self)) 1;
     tick \<leftarrow> uadd (pc_tick self) 1;
     lookup_loop be io prompt (self\<lparr>pc_stats := (pc_stats self)\<lparr>st_lookups := n\<rparr>, pc_tick := tick\<rparr>) w
   }"

subsection \<open>Prefilling\<close>

definition piece_end :: "('c, 'l) tiered_cache \<Rightarrow> token list \<Rightarrow> usize \<Rightarrow> usize option" where
  "piece_end self prompt start =
     (if caching_off self then Some (length prompt)
      else if cc_block_tokens (pc_config self) = 0 then None
      else Some (min (saturating_mul (start div cc_block_tokens (pc_config self) + 1) (cc_block_tokens (pc_config self))) (length prompt)))"

definition prefill_piece ::
  "('c, 'l, 'i) backend \<Rightarrow> ('c, 'l) tiered_cache \<Rightarrow> token list \<Rightarrow> usize \<Rightarrow> usize \<Rightarrow> 'c \<Rightarrow> prefix_error + ('c, 'l) prefilled_prompt" where
  "prefill_piece be self prompt start end' cache =
     (case be_forward be (take (end' - start) (drop start prompt)) cache of
        (Inl _, _) \<Rightarrow> Inl ModelError
      | (Inr logits, cache) \<Rightarrow>
          (case be_sync be of
             Inl _ \<Rightarrow> Inl ModelError
           | Inr _ \<Rightarrow>
               let prefix = \<lparr>pp_model_id = pc_model_id self, pp_limits = pc_limits self, pp_tokens = take end' prompt,
                     pp_cache = cache, pp_logits = logits\<rparr> in
               ok_then (pp_validate be prefix (pc_model_id self) (pc_limits self) prompt) (\<lambda>_.
                 if be_position be (pp_cache prefix) \<noteq> end' then Inl PrefillIncomplete else Inr prefix)))"

partial_function (option) fill_loop ::
  "('c, 'l, 'i) backend \<Rightarrow> 'w disk_io \<Rightarrow> token list \<Rightarrow> usize \<Rightarrow> 'c \<Rightarrow> ('c, 'l) prefilled_prompt option \<Rightarrow> ('c, 'l) tiered_cache \<Rightarrow> 'w \<Rightarrow>
   ('c, 'l, 'w, ('c, 'l) prefilled_prompt option) cache_result" where
  [code]: "fill_loop be io prompt start cache result self w =
     (if start < length prompt
      then Option.bind (piece_end self prompt start) (\<lambda>end'.
        (case prefill_piece be self prompt start end' cache of
           Inl e \<Rightarrow> Some (self, w, Inl e)
         | Inr prefix \<Rightarrow> Option.bind (cache_insert be io prefix self w) (\<lambda>(self, w, _).
             fill_loop be io prompt end' (pp_cache prefix) (Some prefix) self w)))
      else Some (self, w, Inr result))"

definition prefill ::
  "('c, 'l, 'i) backend \<Rightarrow> 'w disk_io \<Rightarrow> token list \<Rightarrow> ('c, 'l) tiered_cache \<Rightarrow> 'w \<Rightarrow> ('c, 'l, 'w, ('c, 'l) prefilled_prompt) cache_result" where
  "prefill be io prompt self w =
     (if \<not> valid_tokens (pc_limits self) prompt then Some (self, w, Inl InvalidPrompt)
      else cache_then (lookup be io prompt self w) (\<lambda>self w existing.
        let (cache, start) = (case existing of Some prefix \<Rightarrow> (pp_cache prefix, length (pp_tokens prefix)) | None \<Rightarrow> (be_new_cache be, 0)) in
        cache_then (fill_loop be io prompt start cache existing self w) (\<lambda>self w result.
          Some (self, w, case result of Some prefix \<Rightarrow> Inr prefix | None \<Rightarrow> Inl NoCompletedState))))"

subsection \<open>Opening\<close>

text \<open>
  A file of the cache directory as \<open>reopen_disk\<close> sees it: whether its type and name are those of a
  payload, its length, and its header, or an error on the way.
\<close>

record disk_file =
  df_path :: path
  df_is_payload :: bool
  df_size :: usize
  df_header :: "(nat \<times> string \<times> model_limits \<times> token list) option"

fun reopen_files ::
  "'w disk_io \<Rightarrow> (unit + disk_file) list \<Rightarrow> ('c, 'l) tiered_cache \<Rightarrow> 'w \<Rightarrow> ('c, 'l, 'w, unit) cache_result" where
  "reopen_files io [] self w = Some (self, w, Inr ())"
| "reopen_files io (Inl _ # files) self w = Some (self, w, Inl IoError)"
| "reopen_files io (Inr file # files) self w =
     (if \<not> df_is_payload file then reopen_files io files self w
      else (case df_header file of
          None \<Rightarrow> reopen_files io files self w
        | Some (version, id', limits, tokens) \<Rightarrow>
            if version \<noteq> 1 \<or> id' \<noteq> pc_model_id self \<or> limits \<noteq> pc_limits self \<or> \<not> valid_tokens limits tokens
            then reopen_files io files self w
            else do {
              tick \<leftarrow> uadd (pc_tick self) 1;
              let self = self\<lparr>pc_tick := tick\<rparr>;
              (if map_of (pc_entries self) tokens \<noteq> None
               then (case io_remove io (df_path file) w of
                   (w, False) \<Rightarrow> Some (self, w, Inl IoError)
                 | (w, True) \<Rightarrow> reopen_files io files self w)
               else if \<not> st_disk_bytes (pc_stats self) + df_size file < usize_lim then Some (self, w, Inl DiskOverflow)
               else reopen_files io files
                 ((set_entry self tokens \<lparr>en_tier = Disk (df_path file) (df_size file), en_used = tick\<rparr>)
                  \<lparr>pc_stats := (pc_stats self)\<lparr>st_disk_bytes := st_disk_bytes (pc_stats self) + df_size file\<rparr>\<rparr>) w)
            }))"

definition reopen_disk ::
  "'w disk_io \<Rightarrow> (unit + (unit + disk_file) list) \<Rightarrow> ('c, 'l) tiered_cache \<Rightarrow> 'w \<Rightarrow> ('c, 'l, 'w, unit) cache_result" where
  "reopen_disk io listing self w =
     (if cc_disk_directory (pc_config self) = None \<or> cc_disk_bytes (pc_config self) = 0 then Some (self, w, Inr ())
      else (case listing of
          Inl _ \<Rightarrow> Some (self, w, Inl IoError)
        | Inr files \<Rightarrow> cache_then (reopen_files io files self w) (\<lambda>self w _. evict_loop io 0 self w)))"

text \<open>\<open>join_model\<close> gives the directory of a model (a hash of its identity) and whether it could be created.\<close>

definition cache_new ::
  "(path \<Rightarrow> string \<Rightarrow> path \<times> bool) \<Rightarrow> 'w disk_io \<Rightarrow> (unit + (unit + disk_file) list) \<Rightarrow> string \<Rightarrow> model_limits \<Rightarrow> prefix_cache_config \<Rightarrow> 'w \<Rightarrow>
   ('w \<times> (prefix_error + ('c, 'l) tiered_cache)) option" where
  "cache_new join_model io listing model_id limits config w =
     (if model_id = [] then Some (w, Inl NoModelIdentity)
      else if cc_block_tokens config = 0 then Some (w, Inl BlockSizeZero)
      else if 0 < cc_disk_bytes config \<and> cc_disk_directory config = None then Some (w, Inl NoDiskDirectory)
      else
        let (directory, ok) = (case cc_disk_directory config of
              Some d \<Rightarrow> (case join_model d model_id of (d', ok) \<Rightarrow> (Some d', ok)) | None \<Rightarrow> (None, True)) in
        if \<not> ok then Some (w, Inl IoError)
        else do {
          (cache, w, v) \<leftarrow> reopen_disk io listing
            \<lparr>pc_model_id = model_id, pc_limits = limits, pc_config = config\<lparr>cc_disk_directory := directory\<rparr>, pc_entries = [], pc_tick = 0,
             pc_stats = \<lparr>st_lookups = 0, st_hits = 0, st_reused_tokens = 0, st_device_entries = 0, st_host_bytes = 0, st_disk_bytes = 0\<rparr>\<rparr> w;
          Some (w, case v of Inl e \<Rightarrow> Inl e | Inr _ \<Rightarrow> Inr cache)
        })"

end
