(* ===== verification/Prefix_Tiers_Inv.thy ===== *)
theory Prefix_Tiers_Inv
  imports Prefix_Tiers
begin

text \<open>
  The invariant of the tiered prefix cache: the statistics count what the entries hold, the files
  stay within their budget, and every prompt on the device is complete and stands under its own
  tokens.  \<open>good\<close> is what else is known of the prompts that are put in.
\<close>

subsection \<open>Sums over the entries\<close>

definition tally :: "('e \<Rightarrow> nat) \<Rightarrow> ('k \<times> 'e) list \<Rightarrow> nat" where
  "tally f es = sum_list (map (\<lambda>x. f (snd x)) es)"

lemma tally_simps [simp]: "tally f [] = 0" "tally f (x # xs) = f (snd x) + tally f xs"
  by (simp_all add: tally_def)

definition at_key :: "('e \<Rightarrow> nat) \<Rightarrow> ('k \<times> 'e) list \<Rightarrow> 'k \<Rightarrow> nat" where
  "at_key f es k = (case map_of es k of Some e \<Rightarrow> f e | None \<Rightarrow> 0)"

lemma tally_insert: "om_ok es \<Longrightarrow> tally f (om_insert k e es) + at_key f es k = tally f es + f e"
proof (induction es)
  case (Cons x es)
  obtain a b where x: "x = (a, b)" by (cases x)
  have ok: "om_ok es" using Cons.prems by (simp add: om_ok_def)
  have "k \<notin> fst ` set es" if "k \<le> a" using Cons.prems that by (auto simp: om_ok_def x)
  then have "map_of es k = None" if "k \<le> a" using that by (simp add: map_of_eq_None_iff)
  then show ?case using Cons.IH [OF ok] by (auto simp: x at_key_def split: option.splits)
qed (simp add: at_key_def)

lemma tally_remove: "om_ok es \<Longrightarrow> tally f (om_remove k es) + at_key f es k = tally f es"
proof (induction es)
  case (Cons x es)
  obtain a b where x: "x = (a, b)" by (cases x)
  have ok: "om_ok es" using Cons.prems by (simp add: om_ok_def)
  have "a \<notin> fst ` set es" using Cons.prems by (force simp: om_ok_def x)
  then have "map_of es a = None" by (simp add: map_of_eq_None_iff)
  then show ?case using Cons.IH [OF ok] by (auto simp: x at_key_def om_remove_def)
qed (simp add: at_key_def om_remove_def)

definition device_size :: "('c, 'l) tier_entry \<Rightarrow> nat" where
  "device_size e = (if is_device e then 1 else 0)"

definition host_size :: "('c, 'l) tier_entry \<Rightarrow> nat" where
  "host_size e = (case en_tier e of Host bs \<Rightarrow> length bs | _ \<Rightarrow> 0)"

definition disk_size :: "('c, 'l) tier_entry \<Rightarrow> nat" where
  "disk_size e = (case en_tier e of Disk _ n \<Rightarrow> n | _ \<Rightarrow> 0)"

lemmas size_defs = device_size_def host_size_def disk_size_def is_device_def is_host_def is_disk_def

lemma tally_member: "map_of es k = Some e \<Longrightarrow> f e \<le> tally f es"
  by (induction es) (auto split: if_splits)

lemma tally_zero: "tally f es = 0 \<Longrightarrow> map_of es k = Some e \<Longrightarrow> f e = 0"
  using tally_member [of es k e f] by simp

subsection \<open>Choosing an entry\<close>

lemma fold_oldest:
  fixes x :: "'k \<times> ('c, 'l) tier_entry"
  defines "step \<equiv> \<lambda>y best :: 'k \<times> ('c, 'l) tier_entry. if en_used (snd y) < en_used (snd best) then y else best"
  shows "fold step xs x \<in> set (x # xs)" "\<forall>y \<in> set (x # xs). en_used (snd (fold step xs x)) \<le> en_used (snd y)"
proof -
  have "fold step xs x \<in> set (x # xs) \<and> (\<forall>y \<in> set (x # xs). en_used (snd (fold step xs x)) \<le> en_used (snd y))"
  proof (induction xs arbitrary: x)
    case (Cons a xs)
    from Cons.IH [of "step a x"] show ?case
      by (auto simp: step_def split: if_splits)
  qed simp
  then show "fold step xs x \<in> set (x # xs)" "\<forall>y \<in> set (x # xs). en_used (snd (fold step xs x)) \<le> en_used (snd y)" by blast+
qed

lemma oldest_Some:
  assumes "om_ok es" "oldest P es = Some k"
  shows "\<exists>e. map_of es k = Some e \<and> P e \<and> (\<forall>k' e'. map_of es k' = Some e' \<longrightarrow> P e' \<longrightarrow> en_used e \<le> en_used e')"
proof -
  obtain x xs where f: "filter (\<lambda>x. P (snd x)) es = x # xs" using assms(2) by (auto simp: oldest_def split: list.splits)
  let ?m = "fold (\<lambda>y best. if en_used (snd y) < en_used (snd best) then y else best) xs x"
  have k: "k = fst ?m" using assms(2) f by (simp add: oldest_def)
  have mem: "?m \<in> set (filter (\<lambda>x. P (snd x)) es)" unfolding f by (rule fold_oldest(1))
  have le: "\<forall>y \<in> set (filter (\<lambda>x. P (snd x)) es). en_used (snd ?m) \<le> en_used (snd y)" unfolding f by (rule fold_oldest(2))
  have "map_of es k = Some (snd ?m)" using mem om.entries_mem [OF assms(1), of k "snd ?m"] by (simp add: k)
  moreover have "en_used (snd ?m) \<le> en_used e'" if "map_of es k' = Some e'" "P e'" for k' e'
    using le that by (force dest: map_of_SomeD)
  ultimately show ?thesis using mem by auto
qed

lemma oldest_None: "oldest P es = None \<longleftrightarrow> (\<forall>x \<in> set es. \<not> P (snd x))"
proof -
  have "oldest P es = None \<longleftrightarrow> filter (\<lambda>x. P (snd x)) es = []" by (simp add: oldest_def split: list.splits)
  then show ?thesis by (simp add: filter_empty_conv)
qed

lemma starts_with_same: "starts_with xs ys \<Longrightarrow> starts_with xs zs \<Longrightarrow> length ys = length zs \<Longrightarrow> ys = zs"
  unfolding starts_with_def by metis

lemma fold_longest:
  "(fold (\<lambda>y best. if length best \<le> length y then y else best) xs x) \<in> set (x # xs) \<and>
   (\<forall>y \<in> set (x # xs). length y \<le> length (fold (\<lambda>y best. if length best \<le> length y then y else best) xs x))"
proof (induction xs arbitrary: x)
  case (Cons a xs)
  from Cons.IH [of "if length x \<le> length a then a else x"] show ?case by (auto split: if_splits)
qed simp

lemma longest_key_Some:
  assumes "longest_key prompt es = Some k"
  shows "k \<in> fst ` set es" "starts_with prompt k" "\<forall>k' \<in> fst ` set es. starts_with prompt k' \<longrightarrow> length k' \<le> length k"
proof -
  obtain x xs where f: "filter (starts_with prompt) (map fst es) = x # xs" using assms by (auto simp: longest_key_def split: list.splits)
  let ?m = "fold (\<lambda>y best. if length best \<le> length y then y else best) xs x"
  have k: "k = ?m" using assms f by (simp add: longest_key_def)
  have "k \<in> set (filter (starts_with prompt) (map fst es))" unfolding f k using fold_longest by blast
  then show "k \<in> fst ` set es" "starts_with prompt k" by auto
  have "\<forall>y \<in> set (filter (starts_with prompt) (map fst es)). length y \<le> length k" unfolding f k using fold_longest by blast
  then show "\<forall>k' \<in> fst ` set es. starts_with prompt k' \<longrightarrow> length k' \<le> length k" by auto
qed

lemma longest_key_None: "longest_key prompt es = None \<longleftrightarrow> (\<forall>k \<in> fst ` set es. \<not> starts_with prompt k)"
proof -
  have "longest_key prompt es = None \<longleftrightarrow> filter (starts_with prompt) (map fst es) = []" by (simp add: longest_key_def split: list.splits)
  then show ?thesis by (simp add: filter_empty_conv)
qed

subsection \<open>The invariant\<close>

definition on_device :: "('c, 'l, 'i) backend \<Rightarrow> (('c, 'l) prefilled_prompt \<Rightarrow> bool) \<Rightarrow> ('c, 'l) tiered_cache \<Rightarrow> token list \<Rightarrow>
    ('c, 'l) tier_entry \<Rightarrow> bool" where
  "on_device be good self k e \<longleftrightarrow>
     (case en_tier e of
        Device p \<Rightarrow> pp_tokens p = k \<and> be_position be (pp_cache p) = length k \<and>
          pp_validate be p (pc_model_id self) (pc_limits self) k = Inr () \<and> good p
      | _ \<Rightarrow> True)"

definition cache_inv :: "('c, 'l, 'i) backend \<Rightarrow> (('c, 'l) prefilled_prompt \<Rightarrow> bool) \<Rightarrow> ('c, 'l) tiered_cache \<Rightarrow> bool" where
  "cache_inv be good self \<longleftrightarrow> om_ok (pc_entries self) \<and>
     st_device_entries (pc_stats self) = tally device_size (pc_entries self) \<and>
     st_host_bytes (pc_stats self) = tally host_size (pc_entries self) \<and>
     tally disk_size (pc_entries self) \<le> st_disk_bytes (pc_stats self) \<and>
     st_disk_bytes (pc_stats self) \<le> cc_disk_bytes (pc_config self) \<and> Suc (cc_disk_bytes (pc_config self)) < usize_lim \<and>
     (0 < cc_disk_bytes (pc_config self) \<longrightarrow> cc_disk_directory (pc_config self) \<noteq> None) \<and>
     0 < cc_block_tokens (pc_config self) \<and>
     (\<forall>k e. map_of (pc_entries self) k = Some e \<longrightarrow> on_device be good self k e)"

text \<open>The same without the budget of the files, which holds while the directory is being reopened.\<close>

definition cache_shape :: "('c, 'l, 'i) backend \<Rightarrow> (('c, 'l) prefilled_prompt \<Rightarrow> bool) \<Rightarrow> ('c, 'l) tiered_cache \<Rightarrow> bool" where
  "cache_shape be good self \<longleftrightarrow> om_ok (pc_entries self) \<and>
     st_device_entries (pc_stats self) = tally device_size (pc_entries self) \<and>
     st_host_bytes (pc_stats self) = tally host_size (pc_entries self) \<and>
     tally disk_size (pc_entries self) \<le> st_disk_bytes (pc_stats self) \<and>
     Suc (cc_disk_bytes (pc_config self)) < usize_lim \<and>
     (0 < cc_disk_bytes (pc_config self) \<longrightarrow> cc_disk_directory (pc_config self) \<noteq> None) \<and>
     0 < cc_block_tokens (pc_config self) \<and>
     (\<forall>k e. map_of (pc_entries self) k = Some e \<longrightarrow> on_device be good self k e)"

lemma cache_inv_shape: "cache_inv be good p \<longleftrightarrow> cache_shape be good p \<and> st_disk_bytes (pc_stats p) \<le> cc_disk_bytes (pc_config p)"
  unfolding cache_inv_def cache_shape_def by blast

text \<open>What the loops leave alone.\<close>

definition same_setup :: "('c, 'l) tiered_cache \<Rightarrow> ('c, 'l) tiered_cache \<Rightarrow> bool" where
  "same_setup p p' \<longleftrightarrow> pc_model_id p' = pc_model_id p \<and> pc_limits p' = pc_limits p \<and> pc_config p' = pc_config p \<and> pc_tick p' = pc_tick p \<and>
     st_lookups (pc_stats p') = st_lookups (pc_stats p) \<and> st_hits (pc_stats p') = st_hits (pc_stats p) \<and>
     st_reused_tokens (pc_stats p') = st_reused_tokens (pc_stats p)"

lemma same_setup_refl [simp]: "same_setup p p"
  by (simp add: same_setup_def)

lemma same_setup_trans: "same_setup p q \<Longrightarrow> same_setup q r \<Longrightarrow> same_setup p r"
  by (simp add: same_setup_def)

lemma on_device_setup: "same_setup p p' \<Longrightarrow> on_device be good p' k e = on_device be good p k e"
  by (simp add: on_device_def same_setup_def split: tier.splits)

lemma cache_shape_remove:
  assumes inv: "cache_shape be good p" and k: "map_of (pc_entries p) k = Some e" and same: "same_setup p p'"
    and en: "pc_entries p' = om_remove k (pc_entries p)"
    and st: "st_device_entries (pc_stats p') = st_device_entries (pc_stats p) - device_size e"
      "st_host_bytes (pc_stats p') = st_host_bytes (pc_stats p) - host_size e"
      "st_disk_bytes (pc_stats p) - disk_size e \<le> st_disk_bytes (pc_stats p')"
  shows "cache_shape be good p'"
proof -
  note I = inv [unfolded cache_shape_def]
  have ok: "om_ok (pc_entries p)" using I by blast
  have t: "tally f (pc_entries p') + f e = tally f (pc_entries p)" for f
    using tally_remove [OF ok, of f k] k by (simp add: at_key_def en)
  have d: "on_device be good p' k' e'" if "map_of (pc_entries p') k' = Some e'" for k' e'
    unfolding on_device_setup [OF same] using that I ok by (auto simp: en split: if_splits)
  have c: "pc_config p' = pc_config p" using same by (simp add: same_setup_def)
  have "om_ok (pc_entries p')" using ok by (simp add: en)
  moreover have "st_device_entries (pc_stats p') = tally device_size (pc_entries p')"
    "st_host_bytes (pc_stats p') = tally host_size (pc_entries p')" using st(1,2) I t [of device_size] t [of host_size] by linarith+
  moreover have "tally disk_size (pc_entries p') \<le> st_disk_bytes (pc_stats p')" using st(3) I t [of disk_size] by linarith
  ultimately show ?thesis using I d unfolding cache_shape_def c by auto
qed

lemma cache_inv_remove:
  assumes inv: "cache_inv be good p" and k: "map_of (pc_entries p) k = Some e" and same: "same_setup p p'"
    and en: "pc_entries p' = om_remove k (pc_entries p)"
    and st: "st_device_entries (pc_stats p') = st_device_entries (pc_stats p) - device_size e"
      "st_host_bytes (pc_stats p') = st_host_bytes (pc_stats p) - host_size e"
      "st_disk_bytes (pc_stats p) - disk_size e \<le> st_disk_bytes (pc_stats p')" "st_disk_bytes (pc_stats p') \<le> st_disk_bytes (pc_stats p)"
  shows "cache_inv be good p'"
proof -
  have "cache_shape be good p'" by (rule cache_shape_remove [OF _ k same en st(1-3)]) (use inv in \<open>simp add: cache_inv_shape\<close>)
  then show ?thesis using inv st(4) same by (simp add: cache_inv_shape same_setup_def)
qed

lemma cache_inv_insert:
  assumes inv: "cache_inv be good p" and k: "map_of (pc_entries p) k = None" and same: "same_setup p p'"
    and en: "pc_entries p' = om_insert k e (pc_entries p)" and e: "on_device be good p k e"
    and st: "st_device_entries (pc_stats p') = st_device_entries (pc_stats p) + device_size e"
      "st_host_bytes (pc_stats p') = st_host_bytes (pc_stats p) + host_size e"
      "st_disk_bytes (pc_stats p') = st_disk_bytes (pc_stats p) + disk_size e"
      "st_disk_bytes (pc_stats p) + disk_size e \<le> cc_disk_bytes (pc_config p)"
  shows "cache_inv be good p'"
proof -
  note I = inv [unfolded cache_inv_def]
  have ok: "om_ok (pc_entries p)" using I by blast
  have t: "tally f (pc_entries p') = tally f (pc_entries p) + f e" for f
    using tally_insert [OF ok, of f k e] k by (simp add: at_key_def en)
  have d: "on_device be good p' k' e'" if "map_of (pc_entries p') k' = Some e'" for k' e'
    unfolding on_device_setup [OF same] using that I e ok by (auto simp: en split: if_splits)
  have c: "pc_config p' = pc_config p" using same by (simp add: same_setup_def)
  have "om_ok (pc_entries p')" using ok by (simp add: en)
  moreover have "st_device_entries (pc_stats p') = tally device_size (pc_entries p')"
    "st_host_bytes (pc_stats p') = tally host_size (pc_entries p')" using st(1,2) I t [of device_size] t [of host_size] by linarith+
  moreover have "tally disk_size (pc_entries p') \<le> st_disk_bytes (pc_stats p')" using st(3) I t [of disk_size] by linarith
  ultimately show ?thesis using st(3,4) I d unfolding cache_inv_def c by auto
qed

text \<open>Only the use of an entry changes, or counters that no entry is behind.\<close>

lemma cache_inv_touch:
  assumes inv: "cache_inv be good p" and k: "map_of (pc_entries p) k = Some e"
  shows "cache_inv be good (set_entry p k (e\<lparr>en_used := u\<rparr>))"
proof -
  note I = inv [unfolded cache_inv_def]
  have ok: "om_ok (pc_entries p)" using I by blast
  have f: "f (e\<lparr>en_used := u\<rparr>) = f e \<Longrightarrow> tally f (om_insert k (e\<lparr>en_used := u\<rparr>) (pc_entries p)) = tally f (pc_entries p)" for f
    using tally_insert [OF ok, of f k "e\<lparr>en_used := u\<rparr>"] k by (simp add: at_key_def)
  have same: "same_setup p (set_entry p k (e\<lparr>en_used := u\<rparr>))" by (simp add: same_setup_def set_entry_def)
  have "on_device be good p k' (e\<lparr>en_used := u\<rparr>) = on_device be good p k' e" for k' by (simp add: on_device_def)
  then have "on_device be good (set_entry p k (e\<lparr>en_used := u\<rparr>)) k' e'"
    if "map_of (om_insert k (e\<lparr>en_used := u\<rparr>) (pc_entries p)) k' = Some e'" for k' e'
    unfolding on_device_setup [OF same] using that I k ok by (auto split: if_splits)
  then show ?thesis using I f [of device_size] f [of host_size] f [of disk_size]
    unfolding cache_inv_def by (simp add: set_entry_def size_defs)
qed

lemma cache_inv_counters:
  assumes "cache_inv be good p"
  shows "cache_inv be good (p\<lparr>pc_tick := t\<rparr>)" "cache_inv be good (p\<lparr>pc_stats := (pc_stats p)\<lparr>st_lookups := a\<rparr>\<rparr>)"
    "cache_inv be good (p\<lparr>pc_stats := (pc_stats p)\<lparr>st_hits := b, st_reused_tokens := c\<rparr>\<rparr>)"
  using assms by (auto simp: cache_inv_def on_device_def split: tier.splits)

subsection \<open>The disk tier\<close>

text \<open>Eviction only removes files.\<close>

definition fewer_files :: "('c, 'l) tiered_cache \<Rightarrow> ('c, 'l) tiered_cache \<Rightarrow> bool" where
  "fewer_files p p' \<longleftrightarrow> same_setup p p' \<and> st_device_entries (pc_stats p') = st_device_entries (pc_stats p) \<and>
     st_host_bytes (pc_stats p') = st_host_bytes (pc_stats p) \<and> st_disk_bytes (pc_stats p') \<le> st_disk_bytes (pc_stats p) \<and>
     (\<forall>k. map_of (pc_entries p') k = map_of (pc_entries p) k \<or> map_of (pc_entries p') k = None)"

lemma fewer_files_refl [simp]: "fewer_files p p"
  by (simp add: fewer_files_def)

lemma fewer_files_trans: "fewer_files p q \<Longrightarrow> fewer_files q r \<Longrightarrow> fewer_files p r"
  unfolding fewer_files_def using same_setup_trans le_trans by metis

lemma evict_disk_shape:
  assumes inv: "cache_shape be good p"
  shows "\<exists>p' w' v. evict_disk io p w = Some (p', w', v) \<and> cache_shape be good p' \<and> fewer_files p p' \<and>
    (v = Inr () \<longrightarrow> length (pc_entries p') < length (pc_entries p))"
proof (cases "oldest is_disk (pc_entries p)")
  case None
  then show ?thesis using inv by (simp add: evict_disk_def)
next
  case (Some k)
  note I = inv [unfolded cache_shape_def]
  have ok: "om_ok (pc_entries p)" using I by blast
  obtain e where e: "map_of (pc_entries p) k = Some e" "is_disk e" using oldest_Some [OF ok Some] by blast
  then obtain path n where t: "en_tier e = Disk path n" by (auto simp: is_disk_def split: tier.splits)
  obtain w' b where w: "io_remove io path w = (w', b)" by (cases "io_remove io path w")
  have n: "disk_size e = n" using t by (simp add: disk_size_def)
  have u: "n \<le> st_disk_bytes (pc_stats p)" using tally_member [OF e(1), of disk_size] I n by linarith
  let ?p' = "p\<lparr>pc_stats := (pc_stats p)\<lparr>st_disk_bytes := st_disk_bytes (pc_stats p) - n\<rparr>, pc_entries := om_remove k (pc_entries p)\<rparr>"
  show ?thesis
  proof (cases b)
    case True
    have "evict_disk io p w = Some (?p', w', Inr ())" using Some e(1) t w True u by (simp add: evict_disk_def usub_def)
    moreover have "cache_shape be good ?p'"
      by (rule cache_shape_remove [OF inv e(1)]) (use t n in \<open>simp_all add: same_setup_def size_defs\<close>)
    moreover have "length (om_remove k (pc_entries p)) < length (pc_entries p)"
      using e(1) by (auto simp: om_remove_def intro!: length_filter_less dest: map_of_SomeD)
    moreover have "fewer_files p ?p'" by (simp add: fewer_files_def same_setup_def)
    ultimately show ?thesis by auto
  next
    case False
    then show ?thesis using Some e(1) t w inv by (simp add: evict_disk_def)
  qed
qed

lemma evict_loop_shape:
  assumes "cache_shape be good p"
  shows "\<exists>p' w' v. evict_loop io n p w = Some (p', w', v) \<and> cache_shape be good p' \<and> fewer_files p p' \<and>
    (v = Inr () \<longrightarrow> saturating_add (st_disk_bytes (pc_stats p')) n \<le> cc_disk_bytes (pc_config p'))"
  using assms
proof (induction "length (pc_entries p)" arbitrary: p w rule: less_induct)
  case less
  show ?case
  proof (cases "cc_disk_bytes (pc_config p) < saturating_add (st_disk_bytes (pc_stats p)) n")
    case True
    obtain p1 w1 v1 where e: "evict_disk io p w = Some (p1, w1, v1)" "cache_shape be good p1" "fewer_files p p1"
      "v1 = Inr () \<longrightarrow> length (pc_entries p1) < length (pc_entries p)"
      using evict_disk_shape [OF less.prems, of io w] by blast
    show ?thesis
    proof (cases v1)
      case (Inl x)
      then have "evict_loop io n p w = Some (p1, w1, Inl x)" using True e(1) by (subst evict_loop.simps) simp
      then show ?thesis using e(2,3) by simp
    next
      case (Inr x)
      then have "length (pc_entries p1) < length (pc_entries p)" using e(4) by simp
      from less.hyps [OF this e(2), of w1] fewer_files_trans [OF e(3)] True e(1) Inr show ?thesis
        by (subst evict_loop.simps) auto
    qed
  next
    case False
    then show ?thesis using less.prems by (subst evict_loop.simps) simp
  qed
qed

lemma evict_loop_ok:
  assumes "cache_inv be good p"
  shows "\<exists>p' w' v. evict_loop io n p w = Some (p', w', v) \<and> cache_inv be good p' \<and> fewer_files p p' \<and>
    (v = Inr () \<longrightarrow> saturating_add (st_disk_bytes (pc_stats p')) n \<le> cc_disk_bytes (pc_config p'))"
proof -
  obtain p' w' v where e: "evict_loop io n p w = Some (p', w', v)" "cache_shape be good p'" "fewer_files p p'"
    "v = Inr () \<longrightarrow> saturating_add (st_disk_bytes (pc_stats p')) n \<le> cc_disk_bytes (pc_config p')"
    using evict_loop_shape [of be good p io n w] assms by (auto simp: cache_inv_shape)
  have "cache_inv be good p'" using e(2,3) assms by (simp add: cache_inv_shape fewer_files_def same_setup_def)
  then show ?thesis using e by blast
qed

text \<open>The directory has a free name within reach of the serial numbers the cache starts from.\<close>

definition names_left :: "'w disk_io \<Rightarrow> bool" where
  "names_left io \<longleftrightarrow> (\<forall>serial w. 2 * serial < usize_lim \<longrightarrow> create_loop io serial w \<noteq> None)"

lemma put_disk_ok:
  assumes inv: "cache_inv be good p" and k: "map_of (pc_entries p) k = None" and names: "names_left io" "2 * pc_tick p < usize_lim"
  shows "\<exists>p' w' v. put_disk io k bs u p w = Some (p', w', v) \<and> cache_inv be good p' \<and> same_setup p p' \<and>
    st_device_entries (pc_stats p') = st_device_entries (pc_stats p) \<and> st_host_bytes (pc_stats p') = st_host_bytes (pc_stats p) \<and>
    (\<forall>k'. k' \<noteq> k \<longrightarrow> map_of (pc_entries p') k' = map_of (pc_entries p) k' \<or> map_of (pc_entries p') k' = None) \<and>
    (\<forall>e. map_of (pc_entries p') k = Some e \<longrightarrow> is_disk e)"
proof (cases "cc_disk_bytes (pc_config p) < length bs \<or> cc_disk_bytes (pc_config p) = 0")
  case True
  then show ?thesis using inv k by (simp add: put_disk_def)
next
  case False
  obtain p1 w1 v1 where e: "evict_loop io (length bs) p w = Some (p1, w1, v1)" "cache_inv be good p1" "fewer_files p p1"
    "v1 = Inr () \<longrightarrow> saturating_add (st_disk_bytes (pc_stats p1)) (length bs) \<le> cc_disk_bytes (pc_config p1)"
    using evict_loop_ok [OF inv, of io "length bs" w] by blast
  note F = e(3) [unfolded fewer_files_def]
  have k1: "map_of (pc_entries p1) k = None" using F k by metis
  have s1: "pc_tick p1 = pc_tick p" "pc_config p1 = pc_config p" using F by (simp_all add: same_setup_def)
  obtain d where d: "cc_disk_directory (pc_config p1) = Some d" using e(2) False s1 by (auto simp: cache_inv_def)
  have keep: "\<forall>k'. k' \<noteq> k \<longrightarrow> map_of (pc_entries p1) k' = map_of (pc_entries p) k' \<or> map_of (pc_entries p1) k' = None" using F by simp
  show ?thesis
  proof (cases v1)
    case (Inl x)
    then show ?thesis using False e(1,2) F k1 by (simp add: put_disk_def cache_then_def)
  next
    case (Inr x)
    then have "saturating_add (st_disk_bytes (pc_stats p1)) (length bs) \<le> cc_disk_bytes (pc_config p1)" using e(4) by simp
    then have fit: "st_disk_bytes (pc_stats p1) + length bs \<le> cc_disk_bytes (pc_config p1)" "st_disk_bytes (pc_stats p1) + length bs < usize_lim"
      using e(2) by (auto simp: saturating_add_def cache_inv_def min_def split: if_splits)
    obtain w2 c where c: "create_loop io (pc_tick p1) w1 = Some (w2, c)" using names s1 by (fastforce simp: names_left_def)
    show ?thesis
    proof (cases c)
      case None
      then show ?thesis using False e(1,2) F k1 Inr d c by (simp add: put_disk_def cache_then_def)
    next
      case (Some path)
      obtain w3 b where b: "io_write io path bs w2 = (w3, b)" by (cases "io_write io path bs w2")
      let ?p' = "p1\<lparr>pc_stats := (pc_stats p1)\<lparr>st_disk_bytes := st_disk_bytes (pc_stats p1) + length bs\<rparr>,
        pc_entries := om_insert k \<lparr>en_tier = Disk path (length bs), en_used = u\<rparr> (pc_entries p1)\<rparr>"
      have inv': "cache_inv be good ?p'"
        by (rule cache_inv_insert [OF e(2) k1, where e = "\<lparr>en_tier = Disk path (length bs), en_used = u\<rparr>"]) (use fit in \<open>simp_all add: same_setup_def size_defs on_device_def\<close>)
      have res: "put_disk io k bs u p w = (if b then Some (?p', w3, Inr ()) else Some (p1, fst (io_remove io path w3), Inl IoError))"
        using False e(1) Inr d c Some b fit(2) by (simp add: put_disk_def cache_then_def uadd_def)
      have ok1: "om_ok (pc_entries p1)" using e(2) by (simp add: cache_inv_def)
      have "same_setup p ?p'" using F by (simp add: same_setup_def)
      then show ?thesis
        using res inv' e(2) F k1 keep ok1 by (cases b) (simp_all add: is_disk_def)
    qed
  qed
qed

end
