(* ===== verification/Prefix_Tiers_Ops.thy ===== *)
theory Prefix_Tiers_Ops
  imports Prefix_Tiers_Inv
begin

text \<open>
  The operations of the tiered prefix cache against its invariant, for every behaviour of the file
  system and of the backend.
\<close>

subsection \<open>Demoting entries\<close>

lemma oldest_exists:
  assumes ok: "om_ok es" and pos: "0 < tally f es" and f: "\<And>e. \<not> P e \<Longrightarrow> f e = 0"
  shows "\<exists>k e. oldest P es = Some k \<and> map_of es k = Some e \<and> P e"
proof (cases "oldest P es")
  case None
  then have "tally f es = 0" using f by (auto simp: oldest_None tally_def)
  then show ?thesis using pos by simp
next
  case (Some k)
  then show ?thesis using oldest_Some [OF ok Some] by blast
qed

lemma set_simps [simp]:
  "pc_entries (set_device p n) = pc_entries p" "pc_entries (set_host p n) = pc_entries p"
  "pc_config (set_device p n) = pc_config p" "pc_config (set_host p n) = pc_config p"
  "pc_config (drop_entry p k) = pc_config p" "pc_config (set_entry p k e) = pc_config p"
  "pc_stats (drop_entry p k) = pc_stats p" "pc_stats (set_entry p k e) = pc_stats p"
  "pc_entries (drop_entry p k) = om_remove k (pc_entries p)" "pc_entries (set_entry p k e) = om_insert k e (pc_entries p)"
  "st_host_bytes (pc_stats (set_device p n)) = st_host_bytes (pc_stats p)" "st_device_entries (pc_stats (set_device p n)) = n"
  "st_device_entries (pc_stats (set_host p n)) = st_device_entries (pc_stats p)" "st_host_bytes (pc_stats (set_host p n)) = n"
  "st_disk_bytes (pc_stats (set_device p n)) = st_disk_bytes (pc_stats p)" "st_disk_bytes (pc_stats (set_host p n)) = st_disk_bytes (pc_stats p)"
  "pc_tick (set_device p n) = pc_tick p" "pc_tick (set_host p n) = pc_tick p" "pc_tick (drop_entry p k) = pc_tick p" "pc_tick (set_entry p k e) = pc_tick p"
  "pc_model_id (set_device p n) = pc_model_id p" "pc_model_id (set_host p n) = pc_model_id p"
  "pc_model_id (drop_entry p k) = pc_model_id p" "pc_model_id (set_entry p k e) = pc_model_id p"
  "pc_limits (set_device p n) = pc_limits p" "pc_limits (set_host p n) = pc_limits p"
  "pc_limits (drop_entry p k) = pc_limits p" "pc_limits (set_entry p k e) = pc_limits p"
  "same_setup p (set_device q n) = same_setup p q" "same_setup p (set_host q n) = same_setup p q"
  "same_setup p (drop_entry q k) = same_setup p q" "same_setup p (set_entry q k e) = same_setup p q"
  "same_setup (set_device p n) q = same_setup p q" "same_setup (set_host p n) q = same_setup p q"
  "same_setup (drop_entry p k) q = same_setup p q" "same_setup (set_entry p k e) q = same_setup p q"
  by (simp_all add: set_device_def set_host_def drop_entry_def set_entry_def same_setup_def)

lemma demote_device_ok:
  assumes inv: "cache_inv be good p" and pos: "0 < st_device_entries (pc_stats p)" and names: "names_left io" "2 * pc_tick p < usize_lim"
  shows "\<exists>p' w' v. demote_device be io p w = Some (p', w', v) \<and> cache_inv be good p' \<and> same_setup p p' \<and>
    st_device_entries (pc_stats p') \<le> st_device_entries (pc_stats p) \<and>
    (v = Inr () \<longrightarrow> Suc (st_device_entries (pc_stats p')) = st_device_entries (pc_stats p))"
proof -
  note I = inv [unfolded cache_inv_def]
  have ok: "om_ok (pc_entries p)" using I by blast
  have "0 < tally device_size (pc_entries p)" using pos I by simp
  then obtain k e where k: "oldest is_device (pc_entries p) = Some k" "map_of (pc_entries p) k = Some e" "is_device e"
    using oldest_exists [OF ok, of device_size is_device] by (auto simp: device_size_def)
  obtain pp where t: "en_tier e = Device pp" using k(3) by (auto simp: is_device_def split: tier.splits)
  let ?n = "st_device_entries (pc_stats p) - 1"
  let ?q = "set_device (drop_entry p k) ?n"
  have q: "cache_inv be good ?q"
    by (rule cache_inv_remove [OF inv k(2)]) (use t in \<open>simp_all add: size_defs\<close>)
  have kq: "map_of (pc_entries ?q) k = None" using ok by simp
  have tq: "2 * pc_tick ?q < usize_lim" using names(2) by simp
  have base: "demote_device be io p w =
      (if cc_host_bytes (pc_config p) = 0 \<and> cc_disk_bytes (pc_config p) = 0 then Some (?q, w, Inr ())
       else (case capture be pp of
           Inl err \<Rightarrow> Some (set_device (set_entry ?q k \<lparr>en_tier = Device pp, en_used = en_used e\<rparr>) (?n + 1), w, Inl err)
         | Inr bs \<Rightarrow>
             if length bs \<le> cc_host_bytes (pc_config p)
             then Some (set_entry (set_host ?q (st_host_bytes (pc_stats p) + length bs)) k \<lparr>en_tier = Host bs, en_used = en_used e\<rparr>, w, Inr ())
             else put_disk io k bs (en_used e) ?q w))"
    using k t pos by (simp add: demote_device_def usub_def Let_def split: sum.splits)
  show ?thesis
  proof (cases "cc_host_bytes (pc_config p) = 0 \<and> cc_disk_bytes (pc_config p) = 0")
    case True
    then show ?thesis using base q pos by simp
  next
    case False
    show ?thesis
    proof (cases "capture be pp")
      case (Inl err)
      let ?e = "\<lparr>en_tier = Device pp, en_used = en_used e\<rparr>"
      have "on_device be good p k e" using I k(2) by blast
      then have "on_device be good ?q k ?e" using on_device_setup [of p ?q be good k ?e] t by (simp add: on_device_def)
      then have "cache_inv be good (set_device (set_entry ?q k ?e) (?n + 1))"
        by (intro cache_inv_insert [OF q kq, where e = ?e]) (use q in \<open>simp_all add: size_defs cache_inv_def\<close>)
      then show ?thesis using base False Inl pos by simp
    next
      case (Inr bs)
      show ?thesis
      proof (cases "length bs \<le> cc_host_bytes (pc_config p)")
        case True
        let ?e = "\<lparr>en_tier = Host bs, en_used = en_used e\<rparr>"
        have "cache_inv be good (set_entry (set_host ?q (st_host_bytes (pc_stats p) + length bs)) k ?e)"
          by (rule cache_inv_insert [OF q kq, where e = ?e]) (use q in \<open>simp_all add: size_defs cache_inv_def on_device_def\<close>)
        then show ?thesis using base False Inr True pos by simp
      next
        case False
        from put_disk_ok [OF q kq names(1) tq, of bs "en_used e" w] show ?thesis
          using base \<open>\<not> (cc_host_bytes _ = 0 \<and> _)\<close> Inr False pos by auto
      qed
    qed
  qed
qed

lemma device_loop_ok:
  assumes "cache_inv be good p" "names_left io" "2 * pc_tick p < usize_lim"
  shows "\<exists>p' w' v. device_loop be io p w = Some (p', w', v) \<and> cache_inv be good p' \<and> same_setup p p' \<and>
    st_device_entries (pc_stats p') \<le> st_device_entries (pc_stats p) \<and>
    (v = Inr () \<longrightarrow> st_device_entries (pc_stats p') \<le> cc_device_entries (pc_config p))"
  using assms
proof (induction "st_device_entries (pc_stats p)" arbitrary: p w rule: less_induct)
  case less
  show ?case
  proof (cases "cc_device_entries (pc_config p) < st_device_entries (pc_stats p)")
    case True
    obtain p1 w1 v1 where d: "demote_device be io p w = Some (p1, w1, v1)" "cache_inv be good p1" "same_setup p p1"
      "st_device_entries (pc_stats p1) \<le> st_device_entries (pc_stats p)"
      "v1 = Inr () \<longrightarrow> Suc (st_device_entries (pc_stats p1)) = st_device_entries (pc_stats p)"
      using demote_device_ok [OF less.prems(1) _ less.prems(2,3), of w] True by auto
    show ?thesis
    proof (cases v1)
      case (Inl x)
      then have "device_loop be io p w = Some (p1, w1, Inl x)" using True d(1) by (subst device_loop.simps) simp
      then show ?thesis using d(2-4) by simp
    next
      case (Inr x)
      have lt: "st_device_entries (pc_stats p1) < st_device_entries (pc_stats p)" using d(5) Inr by simp
      have same: "pc_tick p1 = pc_tick p" "pc_config p1 = pc_config p" using d(3) by (simp_all add: same_setup_def)
      have "device_loop be io p w = device_loop be io p1 w1" using True d(1) Inr by (subst device_loop.simps) simp
      then show ?thesis using less.hyps [OF lt d(2) less.prems(2), of w1] less.prems(3) same d(4) same_setup_trans [OF d(3)] by fastforce
    qed
  next
    case False
    then show ?thesis using less.prems by (subst device_loop.simps) simp
  qed
qed

definition hosts :: "('c, 'l) tiered_cache \<Rightarrow> token list set" where
  "hosts p = {k. \<exists>e. map_of (pc_entries p) k = Some e \<and> is_host e}"

lemma finite_hosts [simp]: "finite (hosts p)"
proof -
  have "hosts p \<subseteq> dom (map_of (pc_entries p))" by (auto simp: hosts_def)
  then show ?thesis using finite_dom_map_of finite_subset by blast
qed

lemma demote_host_ok:
  fixes p :: "('a, 'b) tiered_cache"
  assumes inv: "cache_inv be good p" and pos: "0 < st_host_bytes (pc_stats p)" and names: "names_left io" "2 * pc_tick p < usize_lim"
  shows "\<exists>p' w' v. demote_host io p w = Some (p', w', v) \<and> cache_inv be good p' \<and> same_setup p p' \<and>
    st_device_entries (pc_stats p') = st_device_entries (pc_stats p) \<and> card (hosts p') < card (hosts p)"
proof -
  note I = inv [unfolded cache_inv_def]
  have ok: "om_ok (pc_entries p)" using I by blast
  have nz: "host_size e = 0" if "\<not> is_host e" for e :: "('a, 'b) tier_entry" using that by (auto simp: size_defs split: tier.splits)
  have "0 < tally host_size (pc_entries p)" using pos I by simp
  then obtain k e where k: "oldest is_host (pc_entries p) = Some k" "map_of (pc_entries p) k = Some e" "is_host e"
    using oldest_exists [OF ok, of host_size is_host] nz by blast
  obtain bs where t: "en_tier e = Host bs" using k(3) by (auto simp: is_host_def split: tier.splits)
  have le: "length bs \<le> st_host_bytes (pc_stats p)" using tally_member [OF k(2), of host_size] I t by (simp add: host_size_def)
  let ?q = "set_host (drop_entry p k) (st_host_bytes (pc_stats p) - length bs)"
  have q: "cache_inv be good ?q"
    by (rule cache_inv_remove [OF inv k(2)]) (use t in \<open>simp_all add: size_defs\<close>)
  have kq: "map_of (pc_entries ?q) k = None" using ok by simp
  obtain p' w' v where p': "put_disk io k bs (en_used e) ?q w = Some (p', w', v)" "cache_inv be good p'" "same_setup ?q p'"
    "st_device_entries (pc_stats p') = st_device_entries (pc_stats ?q)"
    "\<forall>k'. k' \<noteq> k \<longrightarrow> map_of (pc_entries p') k' = map_of (pc_entries ?q) k' \<or> map_of (pc_entries p') k' = None"
    "\<forall>e. map_of (pc_entries p') k = Some e \<longrightarrow> is_disk e"
    using put_disk_ok [OF q kq names(1), of bs "en_used e" w] names(2) by auto
  have "hosts p' \<subseteq> hosts p - {k}"
  proof
    fix k' assume "k' \<in> hosts p'"
    then obtain e' where e': "map_of (pc_entries p') k' = Some e'" "is_host e'" by (auto simp: hosts_def)
    have "k' \<noteq> k" using p'(6) e' by (auto simp: size_defs split: tier.splits)
    moreover have "map_of (pc_entries p) k' = Some e'" using p'(5) e'(1) calculation ok by (metis map_of_om_remove option.distinct(1) set_simps(2,9))
    ultimately show "k' \<in> hosts p - {k}" using e'(2) by (auto simp: hosts_def)
  qed
  moreover have "k \<in> hosts p" using k by (auto simp: hosts_def)
  ultimately have "hosts p' \<subset> hosts p" by blast
  then have "card (hosts p') < card (hosts p)" by (rule psubset_card_mono [OF finite_hosts])
  then show ?thesis using p' k t le by (simp add: demote_host_def usub_def Let_def)
qed

lemma host_loop_ok:
  assumes "cache_inv be good p" "names_left io" "2 * pc_tick p < usize_lim"
  shows "\<exists>p' w' v. host_loop io p w = Some (p', w', v) \<and> cache_inv be good p' \<and> same_setup p p' \<and>
    st_device_entries (pc_stats p') = st_device_entries (pc_stats p) \<and>
    (v = Inr () \<longrightarrow> st_host_bytes (pc_stats p') \<le> cc_host_bytes (pc_config p))"
  using assms
proof (induction "card (hosts p)" arbitrary: p w rule: less_induct)
  case less
  show ?case
  proof (cases "cc_host_bytes (pc_config p) < st_host_bytes (pc_stats p)")
    case True
    obtain p1 w1 v1 where d: "demote_host io p w = Some (p1, w1, v1)" "cache_inv be good p1" "same_setup p p1"
      "st_device_entries (pc_stats p1) = st_device_entries (pc_stats p)" "card (hosts p1) < card (hosts p)"
      using demote_host_ok [OF less.prems(1) _ less.prems(2,3), of w] True by auto
    show ?thesis
    proof (cases v1)
      case (Inl x)
      then have "host_loop io p w = Some (p1, w1, Inl x)" using True d(1) by (subst host_loop.simps) simp
      then show ?thesis using d(2-4) by simp
    next
      case (Inr x)
      have same: "pc_tick p1 = pc_tick p" "pc_config p1 = pc_config p" using d(3) by (simp_all add: same_setup_def)
      have "host_loop io p w = host_loop io p1 w1" using True d(1) Inr by (subst host_loop.simps) simp
      then show ?thesis using less.hyps [OF d(5,2) less.prems(2), of w1] less.prems(3) same d(4) same_setup_trans [OF d(3)] by fastforce
    qed
  next
    case False
    then show ?thesis using less.prems by (subst host_loop.simps) simp
  qed
qed

subsection \<open>Inserting\<close>

text \<open>What a call that inserts changes: at most \<open>n\<close> more ticks and entries on the device.\<close>

definition grown :: "nat \<Rightarrow> ('c, 'l) tiered_cache \<Rightarrow> ('c, 'l) tiered_cache \<Rightarrow> bool" where
  "grown n p p' \<longleftrightarrow> pc_model_id p' = pc_model_id p \<and> pc_limits p' = pc_limits p \<and> pc_config p' = pc_config p \<and>
     pc_tick p' \<le> pc_tick p + n \<and> st_device_entries (pc_stats p') \<le> st_device_entries (pc_stats p) + n"

lemma grown_refl [simp]: "grown n p p"
  by (simp add: grown_def)

lemma grown_trans: "grown m p q \<Longrightarrow> grown n q r \<Longrightarrow> grown (m + n) p r"
  by (simp add: grown_def)

lemma grown_mono: "grown m p q \<Longrightarrow> m \<le> n \<Longrightarrow> grown n p q"
  by (auto simp: grown_def)

definition cache_room :: "nat \<Rightarrow> ('c, 'l) tiered_cache \<Rightarrow> bool" where
  "cache_room n p \<longleftrightarrow> 2 * (pc_tick p + n) < usize_lim \<and> st_device_entries (pc_stats p) + n < usize_lim"

lemma cache_room_mono: "cache_room n p \<Longrightarrow> m \<le> n \<Longrightarrow> cache_room m p"
  by (auto simp: cache_room_def)

lemma cache_room_grown: "cache_room (m + n) p \<Longrightarrow> grown m p q \<Longrightarrow> cache_room n q"
  by (auto simp: cache_room_def grown_def)

lemma insert_new_ok:
  assumes inv: "cache_inv be good p" and names: "names_left io" and room: "cache_room 1 p" and good: "good pp"
    and ok: "pp_validate be pp (pc_model_id p) (pc_limits p) (pp_tokens pp) = Inr ()" "be_position be (pp_cache pp) = length (pp_tokens pp)"
    and on: "\<not> caching_off p" and new: "map_of (pc_entries p) (pp_tokens pp) = None"
  shows "\<exists>p' w' v. cache_insert be io pp p w = Some (p', w', v) \<and> cache_inv be good p' \<and> grown 1 p p' \<and>
    (v = Inr () \<longrightarrow> st_device_entries (pc_stats p') \<le> cc_device_entries (pc_config p) \<and> st_host_bytes (pc_stats p') \<le> cc_host_bytes (pc_config p))"
proof -
  let ?e = "\<lparr>en_tier = Device pp, en_used = pc_tick p + 1\<rparr>" and ?t = "p\<lparr>pc_tick := pc_tick p + 1\<rparr>"
  let ?q = "set_device (set_entry ?t (pp_tokens pp) ?e) (st_device_entries (pc_stats p) + 1)"
  have inv1: "cache_inv be good ?t" by (rule cache_inv_counters [OF inv])
  have "on_device be good ?t (pp_tokens pp) ?e" using ok good by (simp add: on_device_def)
  then have q: "cache_inv be good ?q"
    by (intro cache_inv_insert [OF inv1, where e = ?e and k = "pp_tokens pp"]) (use new inv in \<open>simp_all add: size_defs cache_inv_def\<close>)
  have tick: "2 * pc_tick ?q < usize_lim" "pc_tick p + 1 < usize_lim" "st_device_entries (pc_stats p) + 1 < usize_lim"
    using room by (simp_all add: cache_room_def)
  have run: "cache_insert be io pp p w = cache_then (device_loop be io ?q w) (\<lambda>self w _. host_loop io self w)"
    using ok on new tick(2,3) by (simp add: cache_insert_def uadd_def Let_def)
  obtain p1 w1 v1 where d: "device_loop be io ?q w = Some (p1, w1, v1)" "cache_inv be good p1" "same_setup ?q p1"
    "st_device_entries (pc_stats p1) \<le> st_device_entries (pc_stats ?q)"
    "v1 = Inr () \<longrightarrow> st_device_entries (pc_stats p1) \<le> cc_device_entries (pc_config ?q)"
    using device_loop_ok [OF q names tick(1), of w] by blast
  have g: "grown 1 p p1" using d(3,4) by (simp add: grown_def same_setup_def)
  show ?thesis
  proof (cases v1)
    case (Inl x)
    then show ?thesis using run d(1,2) g by (simp add: cache_then_def)
  next
    case (Inr x)
    have t1: "2 * pc_tick p1 < usize_lim" "pc_config p1 = pc_config p" using d(3) tick(1) by (simp_all add: same_setup_def)
    obtain p2 w2 v2 where h: "host_loop io p1 w1 = Some (p2, w2, v2)" "cache_inv be good p2" "same_setup p1 p2"
      "st_device_entries (pc_stats p2) = st_device_entries (pc_stats p1)"
      "v2 = Inr () \<longrightarrow> st_host_bytes (pc_stats p2) \<le> cc_host_bytes (pc_config p1)"
      using host_loop_ok [OF d(2) names t1(1), of w1] by blast
    have "grown 1 p p2" using g h(3,4) by (simp add: grown_def same_setup_def)
    then show ?thesis using run d(1,5) h Inr t1(2) by (simp add: cache_then_def)
  qed
qed

lemma cache_insert_ok:
  assumes inv: "cache_inv be good p" and names: "names_left io" and room: "cache_room 1 p" and good: "good pp"
  shows "\<exists>p' w' v. cache_insert be io pp p w = Some (p', w', v) \<and> cache_inv be good p' \<and> grown 1 p p' \<and>
    (v = Inr () \<and> \<not> caching_off p \<and> map_of (pc_entries p) (pp_tokens pp) = None \<longrightarrow>
      st_device_entries (pc_stats p') \<le> cc_device_entries (pc_config p) \<and> st_host_bytes (pc_stats p') \<le> cc_host_bytes (pc_config p))"
proof (cases "pp_validate be pp (pc_model_id p) (pc_limits p) (pp_tokens pp) = Inr () \<and>
    be_position be (pp_cache pp) = length (pp_tokens pp) \<and> \<not> caching_off p")
  case True
  show ?thesis
  proof (cases "map_of (pc_entries p) (pp_tokens pp)")
    case None
    then show ?thesis using insert_new_ok [where io = io and w = w, OF inv names room good] True by simp
  next
    case (Some e)
    have "pc_tick p + 1 < usize_lim" using room by (simp add: cache_room_def)
    then have "cache_insert be io pp p w =
        Some (set_entry (p\<lparr>pc_tick := pc_tick p + 1\<rparr>) (pp_tokens pp) (e\<lparr>en_used := pc_tick p + 1\<rparr>), w, Inr ())"
      using True Some by (simp add: cache_insert_def uadd_def Let_def)
    moreover have "cache_inv be good (set_entry (p\<lparr>pc_tick := pc_tick p + 1\<rparr>) (pp_tokens pp) (e\<lparr>en_used := pc_tick p + 1\<rparr>))"
      by (rule cache_inv_touch [OF cache_inv_counters(1) [OF inv]]) (simp add: Some)
    ultimately show ?thesis using Some by (simp add: grown_def set_entry_def)
  qed
next
  case False
  then have "\<exists>v. cache_insert be io pp p w = Some (p, w, v) \<and> (v = Inr () \<longrightarrow> caching_off p)"
    by (cases "pp_validate be pp (pc_model_id p) (pc_limits p) (pp_tokens pp)") (auto simp: cache_insert_def)
  then show ?thesis using inv by auto
qed

subsection \<open>Looking up\<close>

abbreviation keys :: "('c, 'l) tiered_cache \<Rightarrow> token list set" where
  "keys p \<equiv> dom (map_of (pc_entries p))"

text \<open>
  What a lookup finds: the longest key that is a prefix of the prompt and could be restored; the
  longer ones that could not are gone.
\<close>

definition found :: "('c, 'l, 'i) backend \<Rightarrow> (('c, 'l) prefilled_prompt \<Rightarrow> bool) \<Rightarrow> token list \<Rightarrow> ('c, 'l) tiered_cache \<Rightarrow>
    ('c, 'l) tiered_cache \<Rightarrow> ('c, 'l) prefilled_prompt option \<Rightarrow> bool" where
  "found be good prompt p p' v \<longleftrightarrow> keys p' \<subseteq> keys p \<and> (\<forall>k \<in> keys p - keys p'. starts_with prompt k) \<and>
     (case v of
        None \<Rightarrow> \<forall>k \<in> keys p'. \<not> starts_with prompt k
      | Some r \<Rightarrow> \<exists>key \<in> keys p'. starts_with prompt key \<and> (\<forall>k \<in> keys p'. starts_with prompt k \<longrightarrow> length k \<le> length key) \<and>
          (\<forall>k \<in> keys p - keys p'. length key < length k) \<and>
          pp_validate be r (pc_model_id p) (pc_limits p) prompt = Inr () \<and> be_position be (pp_cache r) = length key \<and> good r)"

definition counted :: "nat \<Rightarrow> ('c, 'l) tiered_cache \<Rightarrow> ('c, 'l) tiered_cache \<Rightarrow> bool" where
  "counted n p p' \<longleftrightarrow> grown 0 p p' \<and> st_lookups (pc_stats p') = st_lookups (pc_stats p) \<and> st_hits (pc_stats p') \<le> st_hits (pc_stats p) + 1 \<and>
     st_reused_tokens (pc_stats p') \<le> st_reused_tokens (pc_stats p) + n"

lemma drop_failed_ok:
  assumes inv: "cache_inv be good p" and k: "map_of (pc_entries p) k = Some e"
  shows "\<exists>p'. drop_failed p k (en_tier e) = Some p' \<and> cache_inv be good p' \<and> same_setup p p' \<and> pc_entries p' = om_remove k (pc_entries p) \<and>
    st_device_entries (pc_stats p') \<le> st_device_entries (pc_stats p)"
proof -
  note I = inv [unfolded cache_inv_def]
  have le: "device_size e \<le> st_device_entries (pc_stats p)" "host_size e \<le> st_host_bytes (pc_stats p)"
    using tally_member [OF k, of device_size] tally_member [OF k, of host_size] I by simp_all
  let ?p' = "case en_tier e of Device _ \<Rightarrow> set_device (drop_entry p k) (st_device_entries (pc_stats p) - 1)
    | Host bs \<Rightarrow> set_host (drop_entry p k) (st_host_bytes (pc_stats p) - length bs) | Disk _ _ \<Rightarrow> drop_entry p k"
  have "drop_failed p k (en_tier e) = Some ?p'"
    using le by (cases "en_tier e") (simp_all add: drop_failed_def usub_def size_defs)
  moreover have "cache_inv be good ?p'"
    by (rule cache_inv_remove [OF inv k]; cases "en_tier e") (simp_all add: size_defs)
  ultimately show ?thesis by (cases "en_tier e") simp_all
qed

lemma load_entry_good:
  assumes inv: "cache_inv be good p" and k: "map_of (pc_entries p) k = Some e"
    and rest: "\<And>bs r. restore be bs (pc_model_id p) (pc_limits p) = Inr r \<Longrightarrow> good r"
    and l: "load_entry be io p (en_tier e) w = (w', Inr r)"
  shows "good r"
proof (cases "en_tier e")
  case (Device pp)
  have "on_device be good p k e" using inv k by (auto simp: cache_inv_def)
  then show ?thesis using Device l by (simp add: on_device_def load_entry_def)
next
  case (Host bs)
  then show ?thesis using l rest by (auto simp: load_entry_def)
next
  case (Disk path n)
  then show ?thesis using l rest by (auto simp: load_entry_def split: prod.splits option.splits)
qed


lemma keys_set_entry [simp]: "om_ok (pc_entries p) \<Longrightarrow> keys (set_entry p k e) = insert k (keys p)"
  by (auto split: if_splits)

lemma found_hit:
  assumes k: "longest_key prompt (pc_entries p) = Some key" and same: "keys p' = keys p"
    and r: "check_loaded be p prompt key r = Inr r" "good r"
  shows "found be good prompt p p' (Some r)"
proof -
  have K: "key \<in> keys p" "starts_with prompt key" "\<forall>k \<in> keys p. starts_with prompt k \<longrightarrow> length k \<le> length key"
    using longest_key_Some [OF k] by (auto simp: dom_map_of_conv_image_fst)
  have "pp_validate be r (pc_model_id p) (pc_limits p) prompt = Inr ()" "be_position be (pp_cache r) = length key"
    using r(1) by (auto simp: check_loaded_def ok_then_def split: sum.splits if_splits)
  then show ?thesis using K r(2) unfolding found_def same option.case by blast
qed

lemma found_drop:
  assumes k: "longest_key prompt (pc_entries p) = Some key" and p1: "keys p1 = keys p - {key}" "pc_model_id p1 = pc_model_id p" "pc_limits p1 = pc_limits p"
    and f: "found be good prompt p1 p2 v"
  shows "found be good prompt p p2 v"
proof -
  have K: "key \<in> keys p" "starts_with prompt key" "\<And>k. k \<in> keys p \<Longrightarrow> starts_with prompt k \<Longrightarrow> length k \<le> length key"
    using longest_key_Some [OF k] by (auto simp: dom_map_of_conv_image_fst)
  have lt: "length k < length key" if "k \<in> keys p1" "starts_with prompt k" for k
    using K(2) K(3) [of k] starts_with_same [of prompt k key] that p1(1) by (auto simp: le_less)
  have sub: "keys p2 \<subseteq> keys p" "\<forall>k \<in> keys p - keys p2. starts_with prompt k" using f p1(1) K(2) by (auto simp: found_def)
  show ?thesis
  proof (cases v)
    case None
    then show ?thesis using f sub by (simp add: found_def)
  next
    case (Some r)
    from f [unfolded found_def Some] obtain key' where key': "key' \<in> keys p2" "starts_with prompt key'" "key' \<in> keys p1"
      "\<forall>k \<in> keys p2. starts_with prompt k \<longrightarrow> length k \<le> length key'" "\<forall>k \<in> keys p1 - keys p2. length key' < length k"
      "pp_validate be r (pc_model_id p) (pc_limits p) prompt = Inr () \<and> be_position be (pp_cache r) = length key' \<and> good r"
      unfolding p1(2,3) option.case by blast
    have "\<forall>k \<in> keys p - keys p2. length key' < length k" using key'(5) lt [OF key'(3,2)] p1(1) by blast
    then show ?thesis using sub key'(1,2,4,6) unfolding found_def Some option.case by blast
  qed
qed

lemma check_loaded_same: "check_loaded be p prompt key r = Inr r' \<Longrightarrow> r' = r"
  by (auto simp: check_loaded_def ok_then_def split: sum.splits if_splits)

lemma count_hit_ok:
  assumes "cache_inv be good p" "st_hits (pc_stats p) + 1 < usize_lim" "st_reused_tokens (pc_stats p) + length key < usize_lim"
  shows "\<exists>p'. count_hit p key = Some p' \<and> cache_inv be good p' \<and> pc_entries p' = pc_entries p \<and> counted (length key) p p'"
  using assms(2,3) cache_inv_counters(3) [OF assms(1)] by (simp add: count_hit_def uadd_def counted_def grown_def)

lemma counted_mono: "counted m p p' \<Longrightarrow> m \<le> n \<Longrightarrow> counted n p p'"
  by (simp add: counted_def)

lemma counted_setup: "same_setup p q \<Longrightarrow> st_device_entries (pc_stats q) \<le> st_device_entries (pc_stats p) \<Longrightarrow> counted n q r \<Longrightarrow> counted n p r"
  by (simp add: counted_def grown_def same_setup_def)

lemma starts_with_length: "starts_with xs ys \<Longrightarrow> length ys \<le> length xs"
  unfolding starts_with_def by (metis length_take min.cobounded1 nat_le_linear min.absorb2)

text \<open>The counters of a lookup are \<open>u64\<close>; none is about to overflow.\<close>

definition lookup_room :: "token list \<Rightarrow> ('c, 'l) tiered_cache \<Rightarrow> bool" where
  "lookup_room prompt p \<longleftrightarrow> st_lookups (pc_stats p) + 1 < usize_lim \<and> pc_tick p + 1 < usize_lim \<and> st_hits (pc_stats p) + 1 < usize_lim \<and>
     st_reused_tokens (pc_stats p) + length prompt < usize_lim"

lemma lookup_loop_ok:
  assumes "cache_inv be good p" and rest: "\<And>bs r. restore be bs (pc_model_id p) (pc_limits p) = Inr r \<Longrightarrow> good r"
    and "st_hits (pc_stats p) + 1 < usize_lim" "st_reused_tokens (pc_stats p) + length prompt < usize_lim"
  shows "\<exists>p' w' v. lookup_loop be io prompt p w = Some (p', w', Inr v) \<and> cache_inv be good p' \<and> counted (length prompt) p p' \<and>
    found be good prompt p p' v"
  using assms
proof (induction "length (pc_entries p)" arbitrary: p w rule: less_induct)
  case less
  have ok: "om_ok (pc_entries p)" using less.prems(1) by (simp add: cache_inv_def)
  show ?case
  proof (cases "longest_key prompt (pc_entries p)")
    case None
    then have "found be good prompt p p None" by (auto simp: found_def longest_key_None dom_map_of_conv_image_fst)
    moreover have "counted (length prompt) p p" by (simp add: counted_def)
    ultimately show ?thesis using None less.prems(1) by (subst lookup_loop.simps) auto
  next
    case (Some key)
    note K = longest_key_Some [OF Some]
    have in_p: "key \<in> keys p" using K(1) by (simp add: dom_map_of_conv_image_fst)
    then obtain e where e: "map_of (pc_entries p) key = Some e" by auto
    let ?q = "set_entry p key (e\<lparr>en_used := pc_tick p\<rparr>)"
    have q: "cache_inv be good ?q" "keys ?q = keys p" using cache_inv_touch [OF less.prems(1) e] in_p ok by (simp, auto split: if_splits)
    have eq: "map_of (pc_entries ?q) key = Some (e\<lparr>en_used := pc_tick p\<rparr>)" using ok by simp
    obtain w1 l where l: "load_entry be io ?q (en_tier e) w = (w1, l)" by fastforce
    show ?thesis
    proof (cases "ok_then l (check_loaded be ?q prompt key)")
      case (Inr r)
      then obtain r1 where l1: "l = Inr r1" "check_loaded be ?q prompt key r1 = Inr r" by (cases l) (auto simp: ok_then_def)
      have c: "l = Inr r" "check_loaded be ?q prompt key r = Inr r" using l1 check_loaded_same [OF l1(2)] by auto
      have good: "good r" using load_entry_good [where r = r and io = io and w = w and w' = w1, OF q(1) eq] less.prems(2) l c(1) by simp
      have len: "length key \<le> length prompt" using starts_with_length K(2) .
      obtain p' where p': "count_hit ?q key = Some p'" "cache_inv be good p'" "pc_entries p' = pc_entries ?q" "counted (length key) ?q p'"
        using count_hit_ok [OF q(1), of key] less.prems(3,4) len by auto
      have "check_loaded be p prompt key r = Inr r" using c(2) by (simp add: check_loaded_def)
      then have "found be good prompt p p' (Some r)" using found_hit [where p' = p', OF Some] good p'(3) q(2) by simp
      moreover have "counted (length prompt) p p'"
        using counted_mono [OF p'(4) len] counted_setup [of p ?q "length prompt" p'] by simp
      moreover have "lookup_loop be io prompt p w = Some (p', w1, Inr (Some r))"
        using Some e l c p'(1) by (subst lookup_loop.simps) (simp add: Let_def ok_then_def)
      ultimately show ?thesis using p'(2) by blast
    next
      case (Inl x)
      obtain p1 where p1: "drop_failed ?q key (en_tier e) = Some p1" "cache_inv be good p1" "same_setup ?q p1"
        "pc_entries p1 = om_remove key (pc_entries ?q)" "st_device_entries (pc_stats p1) \<le> st_device_entries (pc_stats ?q)"
        using drop_failed_ok [OF q(1) eq] by auto
      have same: "same_setup p p1" using p1(3) by simp
      have k1: "keys p1 = keys p - {key}" unfolding p1(4) using ok by (auto split: if_splits)
      have dist: "length es = card (dom (map_of es))" if "om_ok es" for es :: "(token list \<times> ('a, 'b) tier_entry) list"
        using that distinct_card [of "map fst es"] by (simp add: om_ok_def strict_sorted_iff dom_map_of_conv_image_fst)
      have "om_ok (pc_entries p1)" using p1(2) by (simp add: cache_inv_def)
      then have lt: "length (pc_entries p1) < length (pc_entries p)"
        unfolding dist [OF ok] using dist k1 card_Diff1_less [OF finite_dom_map_of in_p] by simp
      have run: "lookup_loop be io prompt p w = lookup_loop be io prompt p1 w1"
        using Some e l Inl p1(1) by (subst lookup_loop.simps) (simp add: Let_def)
      note S = same [unfolded same_setup_def]
      obtain p2 w2 v where r: "lookup_loop be io prompt p1 w1 = Some (p2, w2, Inr v)" "cache_inv be good p2" "counted (length prompt) p1 p2"
        "found be good prompt p1 p2 v"
        using less.hyps [OF lt p1(2), of w1] less.prems(2-4) S by auto
      have "found be good prompt p p2 v" by (rule found_drop [OF Some k1 _ _ r(4)]) (use S in simp_all)
      moreover have "counted (length prompt) p p2" using counted_setup [OF same _ r(3)] p1(5) by simp
      ultimately show ?thesis using run r(1,2) by auto
    qed
  qed
qed

lemma lookup_ok:
  assumes inv: "cache_inv be good p" and rest: "\<And>bs r. restore be bs (pc_model_id p) (pc_limits p) = Inr r \<Longrightarrow> good r"
    and room: "lookup_room prompt p"
  shows "\<exists>p' w' v. lookup be io prompt p w = Some (p', w', Inr v) \<and> cache_inv be good p' \<and> grown 1 p p' \<and>
    found be good prompt p p' v"
proof -
  let ?q = "p\<lparr>pc_stats := (pc_stats p)\<lparr>st_lookups := st_lookups (pc_stats p) + 1\<rparr>, pc_tick := pc_tick p + 1\<rparr>"
  have "cache_inv be good (p\<lparr>pc_stats := (pc_stats p)\<lparr>st_lookups := st_lookups (pc_stats p) + 1\<rparr>\<rparr>)" by (rule cache_inv_counters(2) [OF inv])
  then have q: "cache_inv be good ?q" using cache_inv_counters(1) by fastforce
  have run: "lookup be io prompt p w = lookup_loop be io prompt ?q w"
    using room by (simp add: lookup_def lookup_room_def uadd_def)
  obtain p' w' v where p': "lookup_loop be io prompt ?q w = Some (p', w', Inr v)" "cache_inv be good p'" "counted (length prompt) ?q p'"
    "found be good prompt ?q p' v"
    using lookup_loop_ok [OF q, of prompt io w] rest room by (auto simp: lookup_room_def)
  have "grown 1 p p'" using p'(3) by (simp add: counted_def grown_def)
  moreover have "found be good prompt p p' v" using p'(4) by (cases v) (simp_all add: found_def)
  ultimately show ?thesis using run p'(1,2) by auto
qed

end
