(* ===== verification/Prefix_Tiers_Fill.thy ===== *)
theory Prefix_Tiers_Fill
  imports Prefix_Tiers_Ops
begin

text \<open>
  Prefilling through the tiered prefix cache, and opening it: the loops end, keep the invariant, and
  a prompt that comes back covers all of its tokens.
\<close>

subsection \<open>Pieces\<close>

lemma piece_end_ok:
  assumes "0 < cc_block_tokens (pc_config p)" "start < length prompt" "length prompt < usize_lim"
  shows "\<exists>e. piece_end p prompt start = Some e \<and> start < e \<and> e \<le> length prompt"
proof (cases "caching_off p")
  case True
  then show ?thesis using assms by (simp add: piece_end_def)
next
  case False
  let ?b = "cc_block_tokens (pc_config p)"
  have "start < (start div ?b + 1) * ?b" using assms(1) by (simp add: dividend_less_div_times)
  then have "start < min (saturating_mul (start div ?b + 1) ?b) (length prompt)"
    using assms(2,3) by (simp add: saturating_mul_def)
  then show ?thesis using False assms(1) by (simp add: piece_end_def)
qed

lemma prefill_piece_setup:
  "pc_model_id q = pc_model_id p \<Longrightarrow> pc_limits q = pc_limits p \<Longrightarrow> prefill_piece be q prompt s e c = prefill_piece be p prompt s e c"
  by (simp add: prefill_piece_def split: prod.splits sum.splits)

lemma prefill_piece_Inr:
  assumes "prefill_piece be p prompt s e c = Inr r"
  shows "pp_tokens r = take e prompt" "pp_validate be r (pc_model_id p) (pc_limits p) prompt = Inr ()" "be_position be (pp_cache r) = e"
    "be_forward be (take (e - s) (drop s prompt)) c = (Inr (pp_logits r), pp_cache r)"
    "pp_model_id r = pc_model_id p" "pp_limits r = pc_limits p"
  using assms by (auto simp: prefill_piece_def ok_then_def Let_def split: prod.splits sum.splits if_splits)

lemma prefill_piece_Inl: "prefill_piece be p prompt s e c = Inl x \<Longrightarrow> x \<in> {ModelError, PrefixDiffers, PrefillIncomplete}"
  by (auto simp: prefill_piece_def pp_validate_def ok_then_def Let_def split: prod.splits sum.splits if_splits)

text \<open>What a result of the loop says: the whole prompt, or an error of one of the pieces.\<close>

definition filled :: "('c, 'l, 'i) backend \<Rightarrow> (('c, 'l) prefilled_prompt \<Rightarrow> bool) \<Rightarrow> (usize \<Rightarrow> 'c \<Rightarrow> bool) \<Rightarrow> token list \<Rightarrow>
    ('c, 'l) tiered_cache \<Rightarrow> prefix_error + ('c, 'l) prefilled_prompt \<Rightarrow> bool" where
  "filled be good at prompt p v \<longleftrightarrow>
     (case v of
        Inr r \<Rightarrow> pp_tokens r = prompt \<and> pp_validate be r (pc_model_id p) (pc_limits p) prompt = Inr () \<and> good r
      | Inl x \<Rightarrow> \<exists>s e c. s < e \<and> e \<le> length prompt \<and> at s c \<and> prefill_piece be p prompt s e c = Inl x)"

lemma filled_setup:
  assumes "pc_model_id q = pc_model_id p" "pc_limits q = pc_limits p"
  shows "filled be good at prompt q v = filled be good at prompt p v"
  unfolding filled_def prefill_piece_setup [OF assms] assms by (rule refl)

definition completed :: "prefix_error + ('c, 'l) prefilled_prompt option \<Rightarrow> prefix_error + ('c, 'l) prefilled_prompt" where
  "completed v = (case v of Inl e \<Rightarrow> Inl e | Inr None \<Rightarrow> Inl NoCompletedState | Inr (Some r) \<Rightarrow> Inr r)"

lemma fill_loop_ok:
  assumes "cache_inv be good p" and names: "names_left io" and "cache_room (length prompt - start) p"
    and len: "length prompt < usize_lim" "start \<le> length prompt" and "at start cache"
    and step: "\<And>s e c r. s < e \<Longrightarrow> e \<le> length prompt \<Longrightarrow> at s c \<Longrightarrow> prefill_piece be p prompt s e c = Inr r \<Longrightarrow> good r \<and> at e (pp_cache r)"
    and "case result of None \<Rightarrow> start < length prompt
      | Some r \<Rightarrow> pp_tokens r = take start prompt \<and> pp_validate be r (pc_model_id p) (pc_limits p) prompt = Inr () \<and> good r"
  shows "\<exists>p' w' v. fill_loop be io prompt start cache result p w = Some (p', w', v) \<and> cache_inv be good p' \<and>
    grown (length prompt - start) p p' \<and> filled be good at prompt p (completed v)"
  using assms
proof (induction "length prompt - start" arbitrary: start cache result p w rule: less_induct)
  case less
  show ?case
  proof (cases "start < length prompt")
    case False
    then obtain r where "result = Some r" "pp_tokens r = prompt" "pp_validate be r (pc_model_id p) (pc_limits p) prompt = Inr ()" "good r"
      using less.prems(5,8) by (cases result) auto
    then show ?thesis using False less.prems(1) by (subst fill_loop.simps) (simp add: filled_def completed_def)
  next
    case True
    have "0 < cc_block_tokens (pc_config p)" using less.prems(1) by (simp add: cache_inv_def)
    then obtain e where e: "piece_end p prompt start = Some e" "start < e" "e \<le> length prompt"
      using piece_end_ok [OF _ True less.prems(4)] by blast
    show ?thesis
    proof (cases "prefill_piece be p prompt start e cache")
      case (Inl x)
      then have "filled be good at prompt p (Inl x)" using e less.prems(6) by (auto simp: filled_def)
      then show ?thesis using True e(1) Inl less.prems(1) by (subst fill_loop.simps) (simp add: completed_def)
    next
      case (Inr r)
      note R = prefill_piece_Inr [OF Inr]
      have gr: "good r" "at e (pp_cache r)" using less.prems(7) [OF e(2,3) less.prems(6) Inr] by auto
      have room1: "cache_room 1 p" by (rule cache_room_mono [OF less.prems(3)]) (use True in linarith)
      obtain p1 w1 v1 where i: "cache_insert be io r p w = Some (p1, w1, v1)" "cache_inv be good p1" "grown 1 p p1"
        using cache_insert_ok [where io = io and w = w, OF less.prems(1,2) room1 gr(1)] by blast
      have same: "pc_model_id p1 = pc_model_id p" "pc_limits p1 = pc_limits p" using i(3) by (simp_all add: grown_def)
      note piece = prefill_piece_setup [OF same]
      have room: "cache_room (length prompt - e) p1"
        by (rule cache_room_grown [OF cache_room_mono [OF less.prems(3)] i(3)]) (use e in linarith)
      have lt: "length prompt - e < length prompt - start" using e by linarith
      have run: "fill_loop be io prompt start cache result p w = fill_loop be io prompt e (pp_cache r) (Some r) p1 w1"
        using True e(1) Inr i(1) by (subst fill_loop.simps) simp
      obtain p2 w2 v where l: "fill_loop be io prompt e (pp_cache r) (Some r) p1 w1 = Some (p2, w2, v)" "cache_inv be good p2"
        "grown (length prompt - e) p1 p2" "filled be good at prompt p1 (completed v)"
        using less.hyps [OF lt i(2) less.prems(2) room less.prems(4) e(3) gr(2), of "Some r" w1] less.prems(7) R(1,2) gr(1) same
        by (auto simp: piece)
      have "filled be good at prompt p (completed v)" using l(4) unfolding filled_setup [OF same] .
      moreover have "grown (length prompt - start) p p2" by (rule grown_mono [OF grown_trans [OF i(3) l(3)]]) (use lt in linarith)
      ultimately show ?thesis using run l(1,2) by auto
    qed
  qed
qed

lemma prefill_ok:
  assumes inv: "cache_inv be good p" and names: "names_left io" and room: "lookup_room prompt p" "cache_room (Suc (length prompt)) p"
    and valid: "valid_tokens (pc_limits p) prompt" and len: "length prompt < usize_lim"
    and rest: "\<And>bs r. restore be bs (pc_model_id p) (pc_limits p) = Inr r \<Longrightarrow> good r"
    and at: "at 0 (be_new_cache be)" "\<And>r. good r \<Longrightarrow> starts_with prompt (pp_tokens r) \<Longrightarrow> at (length (pp_tokens r)) (pp_cache r)"
    and step: "\<And>s e c r. s < e \<Longrightarrow> e \<le> length prompt \<Longrightarrow> at s c \<Longrightarrow> prefill_piece be p prompt s e c = Inr r \<Longrightarrow> good r \<and> at e (pp_cache r)"
  shows "\<exists>p' w' v. prefill be io prompt p w = Some (p', w', v) \<and> cache_inv be good p' \<and> grown (Suc (length prompt)) p p' \<and>
    filled be good at prompt p v"
proof -
  obtain p1 w1 v1 where l: "lookup be io prompt p w = Some (p1, w1, Inr v1)" "cache_inv be good p1" "grown 1 p p1"
    "found be good prompt p p1 v1" using lookup_ok [where io = io and w = w and prompt = prompt, OF inv] rest room(1) by blast
  have same: "pc_model_id p1 = pc_model_id p" "pc_limits p1 = pc_limits p" using l(3) by (simp_all add: grown_def)
  note piece = prefill_piece_setup [OF same]
  let ?start = "case v1 of Some r \<Rightarrow> length (pp_tokens r) | None \<Rightarrow> 0" and ?c = "case v1 of Some r \<Rightarrow> pp_cache r | None \<Rightarrow> be_new_cache be"
  have r: "starts_with prompt (pp_tokens r)" "pp_validate be r (pc_model_id p) (pc_limits p) prompt = Inr ()" "good r" if "v1 = Some r" for r
    using l(4) that by (auto simp: found_def pp_validate_def split: prod.splits if_splits)
  have start: "?start \<le> length prompt" "at ?start ?c" using r(1,3) at starts_with_length by (auto split: option.splits)
  have res: "case v1 of None \<Rightarrow> ?start < length prompt
      | Some r \<Rightarrow> pp_tokens r = take ?start prompt \<and> pp_validate be r (pc_model_id p1) (pc_limits p1) prompt = Inr () \<and> good r"
    using r valid by (auto simp: same starts_with_def valid_tokens_def split: option.splits)
  have "cache_room (length prompt) p1" by (rule cache_room_grown [OF _ l(3)]) (use room(2) in simp)
  then have room1: "cache_room (length prompt - ?start) p1" by (rule cache_room_mono) simp
  obtain p2 w2 v where f: "fill_loop be io prompt ?start ?c v1 p1 w1 = Some (p2, w2, v)" "cache_inv be good p2"
    "grown (length prompt - ?start) p1 p2" "filled be good at prompt p1 (completed v)"
    using fill_loop_ok [where at = at and w = w1, OF l(2) names room1 len start _ res] step by (auto simp: piece)
  have "prefill be io prompt p w = Some (p2, w2, completed v)"
    using valid l(1) f(1) by (auto simp: prefill_def cache_then_def completed_def split: sum.splits option.splits)
  moreover have "grown (Suc (length prompt)) p p2" by (rule grown_mono [OF grown_trans [OF l(3) f(3)]]) simp
  moreover have "filled be good at prompt p (completed v)" using f(4) unfolding filled_setup [OF same] .
  ultimately show ?thesis using f(2) by blast
qed

subsection \<open>Opening\<close>

definition add_file :: "token list \<Rightarrow> disk_file \<Rightarrow> ('c, 'l) tiered_cache \<Rightarrow> ('c, 'l) tiered_cache" where
  "add_file tokens df self = (set_entry self tokens \<lparr>en_tier = Disk (df_path df) (df_size df), en_used = pc_tick self\<rparr>)
     \<lparr>pc_stats := (pc_stats self)\<lparr>st_disk_bytes := st_disk_bytes (pc_stats self) + df_size df\<rparr>\<rparr>"

lemma add_file_ok:
  assumes inv: "cache_shape be good p" and new: "map_of (pc_entries p) tokens = None"
  shows "cache_shape be good (add_file tokens df p)" "grown 0 p (add_file tokens df p)"
proof -
  let ?e = "\<lparr>en_tier = Disk (df_path df) (df_size df), en_used = pc_tick p\<rparr> :: ('a, 'b) tier_entry"
  note I = inv [unfolded cache_shape_def]
  have ok: "om_ok (pc_entries p)" using I by blast
  have t: "tally f (om_insert tokens ?e (pc_entries p)) = tally f (pc_entries p) + f ?e" for f
    using tally_insert [OF ok, of f tokens ?e] new by (simp add: at_key_def)
  have d: "on_device be good (add_file tokens df p) k e" if "map_of (om_insert tokens ?e (pc_entries p)) k = Some e" for k e
    using that I ok by (auto simp: on_device_def add_file_def split: if_splits tier.splits)
  show "grown 0 p (add_file tokens df p)" by (simp add: add_file_def grown_def)
  have "pc_entries (add_file tokens df p) = om_insert tokens ?e (pc_entries p)" "pc_config (add_file tokens df p) = pc_config p"
    "st_device_entries (pc_stats (add_file tokens df p)) = st_device_entries (pc_stats p)"
    "st_host_bytes (pc_stats (add_file tokens df p)) = st_host_bytes (pc_stats p)"
    "st_disk_bytes (pc_stats (add_file tokens df p)) = st_disk_bytes (pc_stats p) + df_size df" by (simp_all add: add_file_def)
  then show "cache_shape be good (add_file tokens df p)"
    using I ok d unfolding cache_shape_def by (simp add: t size_defs)
qed

lemma cache_shape_tick: "cache_shape be good p \<Longrightarrow> cache_shape be good (p\<lparr>pc_tick := t\<rparr>)"
  by (auto simp: cache_shape_def on_device_def split: tier.splits)

lemma reopen_known:
  assumes "df_header df = Some (version, id', limits, tokens)" "io_remove io (df_path df) w = (w1, b)"
  shows "reopen_files io (Inr df # files) p w =
    (if \<not> df_is_payload df \<or> version \<noteq> 1 \<or> id' \<noteq> pc_model_id p \<or> limits \<noteq> pc_limits p \<or> \<not> valid_tokens limits tokens
     then reopen_files io files p w
     else if \<not> pc_tick p + 1 < usize_lim then None
     else if map_of (pc_entries p) tokens \<noteq> None
     then (if b then reopen_files io files (p\<lparr>pc_tick := pc_tick p + 1\<rparr>) w1 else Some (p\<lparr>pc_tick := pc_tick p + 1\<rparr>, w1, Inl IoError))
     else if \<not> st_disk_bytes (pc_stats p) + df_size df < usize_lim then Some (p\<lparr>pc_tick := pc_tick p + 1\<rparr>, w, Inl DiskOverflow)
     else reopen_files io files (add_file tokens df (p\<lparr>pc_tick := pc_tick p + 1\<rparr>)) w)"
  using assms by (simp add: uadd_def add_file_def)

lemma reopen_file:
  assumes inv: "cache_shape be good p" and tick: "pc_tick p + 1 < usize_lim"
  shows "\<exists>q w1. cache_shape be good q \<and> grown 1 p q \<and>
    ((\<exists>x. reopen_files io (Inr df # files) p w = Some (q, w1, Inl x)) \<or> reopen_files io (Inr df # files) p w = reopen_files io files q w1)"
proof -
  let ?q = "p\<lparr>pc_tick := pc_tick p + 1\<rparr>"
  have q: "cache_shape be good ?q" "grown 1 p ?q" using cache_shape_tick [OF inv] by (simp_all add: grown_def)
  have p: "cache_shape be good p" "grown 1 p p" using inv by simp_all
  obtain w1 b where rm: "io_remove io (df_path df) w = (w1, b)" by fastforce
  consider "reopen_files io (Inr df # files) p w = reopen_files io files p w"
    | "\<exists>x. reopen_files io (Inr df # files) p w = Some (?q, w1, Inl x)"
    | "\<exists>x. reopen_files io (Inr df # files) p w = Some (?q, w, Inl x)"
    | "reopen_files io (Inr df # files) p w = reopen_files io files ?q w1"
    | tokens where "map_of (pc_entries p) tokens = None" "reopen_files io (Inr df # files) p w = reopen_files io files (add_file tokens df ?q) w"
  proof (cases "df_header df")
    case (Some h)
    obtain version id' limits tokens where h: "h = (version, id', limits, tokens)" by (cases h)
    note reopen_known [OF Some [unfolded h] rm, of files p]
    then show ?thesis using that tick by (metis (full_types))
  qed (use that in simp)
  then show ?thesis
  proof cases
    case (5 tokens)
    then show ?thesis using add_file_ok [OF q(1), of tokens df] grown_trans [OF q(2)] by fastforce
  qed (use p q in blast)+
qed

lemma reopen_files_ok:
  assumes "cache_shape be good p" "pc_tick p + length files < usize_lim"
  shows "\<exists>p' w' v. reopen_files io files p w = Some (p', w', v) \<and> cache_shape be good p' \<and> grown (length files) p p'"
  using assms
proof (induction files arbitrary: p w)
  case (Cons f files)
  show ?case
  proof (cases f)
    case (Inl x)
    then show ?thesis using Cons.prems by simp
  next
    case (Inr df)
    obtain q w1 where q: "cache_shape be good q" "grown 1 p q"
      "(\<exists>x. reopen_files io (f # files) p w = Some (q, w1, Inl x)) \<or> reopen_files io (f # files) p w = reopen_files io files q w1"
      using reopen_file [where io = io and df = df and files = files and w = w, OF Cons.prems(1)] Cons.prems(2) Inr by auto
    have len: "pc_tick q + length files < usize_lim" using q(2) Cons.prems(2) by (simp add: grown_def)
    have "grown (length (f # files)) p r" if "grown (length files) q r" for r using grown_trans [OF q(2) that] by simp
    moreover have "grown (length (f # files)) p q" using q(2) by (simp add: grown_def)
    ultimately show ?thesis using q(1,3) Cons.IH [OF q(1) len, of w1] by metis
  qed
qed simp

lemma reopen_disk_ok:
  assumes inv: "cache_inv be good p" and tick: "case listing of Inr files \<Rightarrow> pc_tick p + length files < usize_lim | Inl _ \<Rightarrow> True"
  shows "\<exists>p' w' v. reopen_disk io listing p w = Some (p', w', v) \<and> (v = Inr () \<longrightarrow> cache_inv be good p') \<and>
    pc_model_id p' = pc_model_id p \<and> pc_limits p' = pc_limits p \<and> pc_config p' = pc_config p"
proof (cases "cc_disk_directory (pc_config p) = None \<or> cc_disk_bytes (pc_config p) = 0")
  case True
  then show ?thesis using inv by (simp add: reopen_disk_def)
next
  case False
  show ?thesis
  proof (cases listing)
    case (Inl x)
    then show ?thesis using False by (auto simp: reopen_disk_def)
  next
    case (Inr files)
    obtain p1 w1 v1 where f: "reopen_files io files p w = Some (p1, w1, v1)" "cache_shape be good p1" "grown (length files) p p1"
      using reopen_files_ok [of be good p files io w] inv tick Inr by (auto simp: cache_inv_shape)
    obtain p2 w2 v2 where e: "evict_loop io 0 p1 w1 = Some (p2, w2, v2)" "cache_shape be good p2" "fewer_files p1 p2"
      "v2 = Inr () \<longrightarrow> saturating_add (st_disk_bytes (pc_stats p2)) 0 \<le> cc_disk_bytes (pc_config p2)"
      using evict_loop_shape [where io = io and n = 0 and w = w1, OF f(2)] by blast
    have "v2 = Inr () \<longrightarrow> cache_inv be good p2"
      using e(2,4) by (auto simp: cache_inv_shape saturating_add_def cache_shape_def)
    then show ?thesis using False Inr f(1,3) e(1,3)
      by (cases v1) (auto simp: reopen_disk_def cache_then_def grown_def fewer_files_def same_setup_def)
  qed
qed

lemma cache_new_ok:
  assumes "Suc (cc_disk_bytes config) < usize_lim" "case listing of Inr files \<Rightarrow> length files < usize_lim | Inl _ \<Rightarrow> True"
  shows "\<exists>w' v. cache_new join_model io listing model_id limits config w = Some (w', v) \<and>
    (\<forall>p. v = Inr p \<longrightarrow> cache_inv be good p \<and> pc_model_id p = model_id \<and> pc_limits p = limits)"
proof (cases "model_id = [] \<or> cc_block_tokens config = 0 \<or> 0 < cc_disk_bytes config \<and> cc_disk_directory config = None")
  case True
  then show ?thesis by (auto simp: cache_new_def)
next
  case False
  obtain d ok where d: "(case cc_disk_directory config of Some d \<Rightarrow> (case join_model d model_id of (d', ok) \<Rightarrow> (Some d', ok)) | None \<Rightarrow> (None, True)) = (d, ok)"
    by fastforce
  have dn: "d = None \<longleftrightarrow> cc_disk_directory config = None" using d by (auto split: option.splits prod.splits)
  let ?p = "\<lparr>pc_model_id = model_id, pc_limits = limits, pc_config = config\<lparr>cc_disk_directory := d\<rparr>, pc_entries = [], pc_tick = 0,
    pc_stats = \<lparr>st_lookups = 0, st_hits = 0, st_reused_tokens = 0, st_device_entries = 0, st_host_bytes = 0, st_disk_bytes = 0\<rparr>\<rparr>"
  have inv: "cache_inv be good ?p" using False assms(1) dn by (auto simp: cache_inv_def om_ok_def)
  have tick: "case listing of Inr files \<Rightarrow> pc_tick ?p + length files < usize_lim | Inl _ \<Rightarrow> True" using assms(2) by (simp split: sum.splits)
  obtain p' w' v where r: "reopen_disk io listing ?p w = Some (p', w', v)" "v = Inr () \<longrightarrow> cache_inv be good p'"
    "pc_model_id p' = model_id" "pc_limits p' = limits" using reopen_disk_ok [where io = io and w = w, OF inv tick] by auto
  have "cache_new join_model io listing model_id limits config w =
      (if ok then Some (w', case v of Inl e \<Rightarrow> Inl e | Inr _ \<Rightarrow> Inr p') else Some (w, Inl IoError))"
    using False d r(1) unfolding cache_new_def by auto
  then show ?thesis using r(2-4) by (cases v; cases ok) auto
qed

end
