(* ===== verification/Prefix_Tiers_Keep.thy ===== *)
theory Prefix_Tiers_Keep
  imports Prefix_Tiers_Fill
begin

text \<open>
  What the operations of the tiered prefix cache keep, of the cache and the file system together: a property that
  survives the few ways in which they change an entry or call the file system survives every operation.
  It is used twice, for the bytes of lost files below and for the provenance of the prompts in \<open>Prefix_Tiers_Run\<close>.
\<close>

subsection \<open>Loops\<close>

text \<open>One round of the loops that run an operation until a budget is met, and the loop that finds a free name.\<close>

lemma round_keeps:
  assumes "(if c then Option.bind r (\<lambda>(p, w, v). case v of Inl e \<Rightarrow> Some (p, w, Inl e) | Inr _ \<Rightarrow> loop p w) else Some (p, w, Inr ())) = Some y"
    and "K p w" and "\<And>p' w' v. r = Some (p', w', v) \<Longrightarrow> K p' w'" and "\<And>p w y. loop p w = Some y \<Longrightarrow> K p w \<Longrightarrow> K (fst y) (fst (snd y))"
  shows "K (fst y) (fst (snd y))"
proof (cases c)
  case True
  then obtain p1 w1 v1 where r: "r = Some (p1, w1, v1)" "(case v1 of Inl e \<Rightarrow> Some (p1, w1, Inl e) | Inr _ \<Rightarrow> loop p1 w1) = Some y"
    using assms(1) by (cases r) auto
  then show ?thesis using assms(3) [OF r(1)] assms(4) by (cases v1) auto
qed (use assms(1,2) in auto)

lemma evict_loop_rule:
  assumes run: "evict_loop io n p w = Some y" and start: "K p w" and op: "\<And>p w p' w' v. K p w \<Longrightarrow> evict_disk io p w = Some (p', w', v) \<Longrightarrow> K p' w'"
  shows "K (fst y) (fst (snd y))"
proof -
  have "K p w \<longrightarrow> io = io \<longrightarrow> K (fst y) (fst (snd y))"
  proof (rule evict_loop.raw_induct [where P = "\<lambda>io' n p w y. K p w \<longrightarrow> io' = io \<longrightarrow> K (fst y) (fst (snd y))", OF _ run], intro impI, goal_cases)
    case (1 loop io' n p w y)
    show ?case by (rule round_keeps [where K = K, OF 1(2,3)]) (use 1(1,4) op [OF 1(3)] in auto)
  qed
  then show ?thesis using start by simp
qed

lemma device_loop_rule:
  assumes run: "device_loop be io p w = Some y" and start: "K p w" and op: "\<And>p w p' w' v. K p w \<Longrightarrow> demote_device be io p w = Some (p', w', v) \<Longrightarrow> K p' w'"
  shows "K (fst y) (fst (snd y))"
proof -
  have "K p w \<longrightarrow> be = be \<and> io = io \<longrightarrow> K (fst y) (fst (snd y))"
  proof (rule device_loop.raw_induct [where P = "\<lambda>be' io' p w y. K p w \<longrightarrow> be' = be \<and> io' = io \<longrightarrow> K (fst y) (fst (snd y))", OF _ run], intro impI, goal_cases)
    case (1 loop be' io' p w y)
    show ?case by (rule round_keeps [where K = K, OF 1(2,3)]) (use 1(1,4) op [OF 1(3)] in auto)
  qed
  then show ?thesis using start by simp
qed

lemma host_loop_rule:
  assumes run: "host_loop io p w = Some y" and start: "K p w" and op: "\<And>p w p' w' v. K p w \<Longrightarrow> demote_host io p w = Some (p', w', v) \<Longrightarrow> K p' w'"
  shows "K (fst y) (fst (snd y))"
proof -
  have "K p w \<longrightarrow> io = io \<longrightarrow> K (fst y) (fst (snd y))"
  proof (rule host_loop.raw_induct [where P = "\<lambda>io' p w y. K p w \<longrightarrow> io' = io \<longrightarrow> K (fst y) (fst (snd y))", OF _ run], intro impI, goal_cases)
    case (1 loop io' p w y)
    show ?case by (rule round_keeps [where K = K, OF 1(2,3)]) (use 1(1,4) op [OF 1(3)] in auto)
  qed
  then show ?thesis using start by simp
qed

text \<open>Evicting does not bring back a key.\<close>

definition absent :: "token list \<Rightarrow> ('c, 'l) tiered_cache \<Rightarrow> bool" where
  "absent k p \<longleftrightarrow> om_ok (pc_entries p) \<and> map_of (pc_entries p) k = None"

lemma evict_disk_absent: "absent k p \<Longrightarrow> evict_disk io p w = Some (p', w', v) \<Longrightarrow> absent k p'"
  by (auto simp: evict_disk_def absent_def split: option.splits tier.splits prod.splits bool.splits bind_splits)

lemma evict_loop_absent: "evict_loop io n p w = Some y \<Longrightarrow> absent k p \<Longrightarrow> absent k (fst y)"
  by (rule evict_loop_rule [where K = "\<lambda>p w. absent k p"]) (auto intro: evict_disk_absent)

lemma create_loop_step:
  assumes "io_create_new io (io_path io serial) w = (w1, c)"
  shows "create_loop io serial w = (case c of Created \<Rightarrow> Some (w1, Some (io_path io serial))
    | AlreadyExists \<Rightarrow> if serial + 1 < usize_lim then create_loop io (serial + 1) w1 else None | CreateFailed \<Rightarrow> Some (w1, None))"
  by (subst create_loop.simps) (simp only: assms prod.case)

subsection \<open>The changes an operation is made of\<close>

locale cache_laws =
  fixes be :: "('c, 'l, 'i) backend" and io :: "'w disk_io" and model_id :: string and limits :: model_limits
    and prompt_ok :: "('c, 'l) prefilled_prompt \<Rightarrow> bool" and bytes_ok :: "bytes \<Rightarrow> bool"
    and keeps :: "('c, 'l) tiered_cache \<Rightarrow> 'w \<Rightarrow> bool"
  assumes sorted: "keeps p w \<Longrightarrow> om_ok (pc_entries p)"
    and same_model: "keeps p w \<Longrightarrow> pc_model_id p = model_id \<and> pc_limits p = limits"
    and remove: "keeps p w \<Longrightarrow> io_remove io path w = (w', ok) \<Longrightarrow> keeps p w'"
    and read: "keeps p w \<Longrightarrow> io_read io path w = (w', content) \<Longrightarrow> keeps p w'"
    and read_bytes: "keeps p w \<Longrightarrow> io_read io path w = (w', Some bs) \<Longrightarrow> bytes_ok bs"
    and create: "keeps p w \<Longrightarrow> io_create_new io path w = (w', made) \<Longrightarrow> keeps p w'"
    and write_bytes: "keeps p w \<Longrightarrow> bytes_ok bs \<Longrightarrow> io_write io path bs w = (w', ok) \<Longrightarrow> keeps p w'"
    and counters: "keeps p w \<Longrightarrow> pc_model_id p' = pc_model_id p \<Longrightarrow> pc_limits p' = pc_limits p \<Longrightarrow> pc_entries p' = pc_entries p \<Longrightarrow>
      st_disk_bytes (pc_stats p') = st_disk_bytes (pc_stats p) \<Longrightarrow> keeps p' w"
    and drop: "keeps p w \<Longrightarrow> keeps (drop_entry p k) w"
    and evict: "keeps p w \<Longrightarrow> map_of (pc_entries p) k = Some e \<Longrightarrow> en_tier e = Disk path n \<Longrightarrow> n \<le> st_disk_bytes (pc_stats p) \<Longrightarrow>
      keeps (p\<lparr>pc_stats := (pc_stats p)\<lparr>st_disk_bytes := st_disk_bytes (pc_stats p) - n\<rparr>, pc_entries := om_remove k (pc_entries p)\<rparr>) w"
    and store: "keeps p w \<Longrightarrow> map_of (pc_entries p) k = None \<Longrightarrow>
      keeps (p\<lparr>pc_stats := (pc_stats p)\<lparr>st_disk_bytes := st_disk_bytes (pc_stats p) + n\<rparr>,
        pc_entries := om_insert k \<lparr>en_tier = Disk path n, en_used = u\<rparr> (pc_entries p)\<rparr>) w"
    and put_device: "keeps p w \<Longrightarrow> map_of (pc_entries p) k = None \<Longrightarrow> prompt_ok pp \<Longrightarrow> keeps (set_entry p k \<lparr>en_tier = Device pp, en_used = u\<rparr>) w"
    and put_host: "keeps p w \<Longrightarrow> map_of (pc_entries p) k = None \<Longrightarrow> bytes_ok bs \<Longrightarrow> keeps (set_entry p k \<lparr>en_tier = Host bs, en_used = u\<rparr>) w"
    and touch: "keeps p w \<Longrightarrow> map_of (pc_entries p) k = Some e \<Longrightarrow> keeps (set_entry p k (e\<lparr>en_used := u\<rparr>)) w"
    and device_ok: "keeps p w \<Longrightarrow> map_of (pc_entries p) k = Some e \<Longrightarrow> en_tier e = Device pp \<Longrightarrow> prompt_ok pp"
    and host_ok: "keeps p w \<Longrightarrow> map_of (pc_entries p) k = Some e \<Longrightarrow> en_tier e = Host bs \<Longrightarrow> bytes_ok bs"
    and captured: "keeps p w \<Longrightarrow> prompt_ok pp \<Longrightarrow> capture be pp = Inr bs \<Longrightarrow> bytes_ok bs"
    and restored: "keeps p w \<Longrightarrow> bytes_ok bs \<Longrightarrow> restore be bs model_id limits = Inr r \<Longrightarrow> prompt_ok r"
begin

lemma keeps_setters:
  assumes "keeps p w"
  shows "keeps (set_device p n) w" "keeps (set_host p n) w" "keeps (p\<lparr>pc_tick := t\<rparr>) w"
  by (rule counters [OF assms]; simp)+

subsection \<open>The disk tier\<close>

lemma evict_disk_keeps:
  assumes "keeps p w" "evict_disk io p w = Some (p', w', v)"
  shows "keeps p' w'"
proof (cases "oldest is_disk (pc_entries p)")
  case None
  then show ?thesis using assms by (simp add: evict_disk_def)
next
  case (Some k)
  obtain e where e: "map_of (pc_entries p) k = Some e" "is_disk e" using oldest_Some [OF sorted [OF assms(1)] Some] by blast
  then obtain path n where t: "en_tier e = Disk path n" by (auto simp: is_disk_def split: tier.splits)
  obtain w1 ok where w: "io_remove io path w = (w1, ok)" by fastforce
  have k1: "keeps p w1" by (rule remove [OF assms(1) w])
  show ?thesis
    using assms(2) Some e(1) t w k1 evict [OF k1 e(1) t] by (auto simp: evict_disk_def usub_def split: bool.splits if_splits)
qed

lemma evict_loop_keeps: "evict_loop io n p w = Some y \<Longrightarrow> keeps p w \<Longrightarrow> keeps (fst y) (fst (snd y))"
  by (rule evict_loop_rule [where K = keeps]) (auto dest: evict_disk_keeps)

lemma create_loop_keeps: "create_loop io serial w = Some (w', path) \<Longrightarrow> keeps p w \<Longrightarrow> keeps p w'"
proof (induction "usize_lim - serial" arbitrary: serial w rule: less_induct)
  case less
  obtain w1 c where w1: "io_create_new io (io_path io serial) w = (w1, c)" by fastforce
  have k: "keeps p w1" by (rule create [OF less.prems(2) w1])
  note eq = less.prems(1) [unfolded create_loop_step [OF w1]]
  show ?case
  proof (cases c)
    case AlreadyExists
    then have s: "serial + 1 < usize_lim" "create_loop io (serial + 1) w1 = Some (w', path)" using eq by (simp_all split: if_splits del: create_loop.simps)
    show ?thesis by (rule less.hyps [OF _ s(2) k]) (use s(1) in linarith)
  qed (use eq k in simp_all)
qed

lemma put_disk_keeps:
  assumes k: "keeps p w" and new: "map_of (pc_entries p) key = None" and bs: "bytes_ok bs" and eq: "put_disk io key bs u p w = Some y"
  shows "keeps (fst y) (fst (snd y))"
proof (cases "cc_disk_bytes (pc_config p) < length bs \<or> cc_disk_bytes (pc_config p) = 0")
  case True
  then show ?thesis using eq k by (auto simp: put_disk_def)
next
  case False
  then obtain p1 w1 v1 where e: "evict_loop io (length bs) p w = Some (p1, w1, v1)" using eq by (auto simp: put_disk_def cache_then_def split: bind_splits)
  have k1: "keeps p1 w1" and n1: "map_of (pc_entries p1) key = None" using evict_loop_keeps [OF e k] evict_loop_absent [OF e, of key] sorted [OF k] new by (simp_all add: absent_def)
  show ?thesis
  proof (cases v1)
    case (Inl x)
    then show ?thesis using eq False e k1 by (auto simp: put_disk_def cache_then_def)
  next
    case (Inr x)
    obtain w2 c where c: "create_loop io (pc_tick p1) w1 = Some (w2, c)" using eq False e Inr by (auto simp: put_disk_def cache_then_def split: bind_splits)
    have k2: "keeps p1 w2" by (rule create_loop_keeps [OF c k1])
    show ?thesis
    proof (cases c)
      case None
      then show ?thesis using eq False e Inr c k2 by (auto simp: put_disk_def cache_then_def split: bind_splits)
    next
      case (Some path)
      obtain w3 ok where w3: "io_write io path bs w2 = (w3, ok)" by fastforce
      have k3: "keeps p1 w3" by (rule write_bytes [OF k2 bs w3])
      obtain w4 ok' where w4: "io_remove io path w3 = (w4, ok')" by fastforce
      show ?thesis
        using eq False e Inr c Some w3 w4 remove [OF k3 w4] store [OF k3 n1]
        by (auto simp: put_disk_def cache_then_def uadd_def split: bind_splits if_splits bool.splits)
    qed
  qed
qed

subsection \<open>Demoting and inserting\<close>

lemma demote_device_keeps:
  assumes k: "keeps p w" and eq: "demote_device be io p w = Some (p', w', v)"
  shows "keeps p' w'"
proof -
  obtain key where key: "oldest is_device (pc_entries p) = Some key" using eq by (auto simp: demote_device_def split: bind_splits)
  obtain e where e: "map_of (pc_entries p) key = Some e" "is_device e" using oldest_Some [OF sorted [OF k] key] by blast
  then obtain pp where t: "en_tier e = Device pp" by (auto simp: is_device_def split: tier.splits)
  have n: "1 \<le> st_device_entries (pc_stats p)" using eq key e(1) by (auto simp: demote_device_def usub_def Let_def split: bind_splits if_splits)
  let ?q = "set_device (drop_entry p key) (st_device_entries (pc_stats p) - 1)"
  have q: "keeps ?q w" by (rule keeps_setters(1) [OF drop [OF k]])
  have new: "map_of (pc_entries ?q) key = None" "map_of (pc_entries (set_host ?q m)) key = None" for m using sorted [OF k] by simp_all
  have pp: "prompt_ok pp" by (rule device_ok [OF k e(1) t])
  show ?thesis
  proof (cases "cc_host_bytes (pc_config p) = 0 \<and> cc_disk_bytes (pc_config p) = 0")
    case True
    then show ?thesis using eq key e t n q by (simp add: demote_device_def usub_def Let_def)
  next
    case False
    show ?thesis
    proof (cases "capture be pp")
      case (Inl x)
      then show ?thesis using eq key e t n False keeps_setters(1) [OF put_device [OF q new(1) pp]] by (auto simp: demote_device_def usub_def Let_def)
    next
      case (Inr bs)
      note bs = captured [OF k pp Inr]
      show ?thesis
        using eq key e t n False Inr put_host [OF keeps_setters(2) [OF q] new(2) bs] put_disk_keeps [OF q new(1) bs]
        by (auto simp: demote_device_def usub_def Let_def split: if_splits)
    qed
  qed
qed

lemma demote_host_keeps:
  assumes k: "keeps p w" and eq: "demote_host io p w = Some (p', w', v)"
  shows "keeps p' w'"
proof -
  obtain key where key: "oldest is_host (pc_entries p) = Some key" using eq by (auto simp: demote_host_def split: bind_splits)
  obtain e where e: "map_of (pc_entries p) key = Some e" "is_host e" using oldest_Some [OF sorted [OF k] key] by blast
  then obtain bs where t: "en_tier e = Host bs" by (auto simp: is_host_def split: tier.splits)
  obtain n where n: "put_disk io key bs (en_used e) (set_host (drop_entry p key) n) w = Some (p', w', v)"
    using eq key e t by (auto simp: demote_host_def Let_def split: bind_splits)
  have "map_of (pc_entries (set_host (drop_entry p key) n)) key = None" using sorted [OF k] by simp
  from put_disk_keeps [OF keeps_setters(2) [OF drop [OF k]] this host_ok [OF k e(1) t] n] show ?thesis by simp
qed

lemma cache_insert_keeps:
  assumes k: "keeps p w" and pp: "prompt_ok pp" and eq: "cache_insert be io pp p w = Some (p', w', v)"
  shows "keeps p' w'"
proof (cases "p' = p \<and> w' = w")
  case False
  let ?t = "p\<lparr>pc_tick := pc_tick p + 1\<rparr>"
  note k1 = keeps_setters(3) [OF k, of "pc_tick p + 1"]
  show ?thesis
  proof (cases "map_of (pc_entries p) (pp_tokens pp)")
    case (Some e)
    then have "p' = set_entry ?t (pp_tokens pp) (e\<lparr>en_used := pc_tick p + 1\<rparr>)" "w' = w"
      using eq False by (auto simp: cache_insert_def uadd_def Let_def split: sum.splits if_splits bind_splits)
    then show ?thesis using touch [OF k1, of "pp_tokens pp" e] Some by simp
  next
    case None
    let ?q = "\<lambda>n. set_device (set_entry ?t (pp_tokens pp) \<lparr>en_tier = Device pp, en_used = pc_tick p + 1\<rparr>) n"
    obtain n where n: "cache_then (device_loop be io (?q n) w) (\<lambda>p w _. host_loop io p w) = Some (p', w', v)"
      using eq False None by (auto simp: cache_insert_def uadd_def Let_def split: sum.splits if_splits bind_splits)
    have q: "keeps (?q n) w" by (rule keeps_setters(1) [OF put_device [OF k1 _ pp]]) (use None in simp)
    obtain p1 w1 v1 where d: "device_loop be io (?q n) w = Some (p1, w1, v1)" using n by (auto simp: cache_then_def split: bind_splits)
    have k2: "keeps p1 w1" using device_loop_rule [where K = keeps, OF d q] demote_device_keeps by simp
    show ?thesis
      using n d k2 host_loop_rule [where K = keeps and io = io and p = p1 and w = w1 and y = "(p', w', v)"] demote_host_keeps
      by (cases v1) (auto simp: cache_then_def)
  qed
qed (use k in simp)

subsection \<open>Looking up\<close>

lemma drop_failed_keeps:
  assumes k: "keeps p w" and eq: "drop_failed p key t = Some p'"
  shows "keeps p' w"
proof -
  note d = drop [OF k, of key]
  show ?thesis using eq d keeps_setters(1,2) [OF d] by (cases t) (auto simp: drop_failed_def Let_def split: bind_splits)
qed

lemma load_entry_keeps:
  assumes k: "keeps p w" and e: "map_of (pc_entries p) key = Some e" and l: "load_entry be io p (en_tier e) w = (w', v)"
  shows "keeps p w'" "v = Inr r \<Longrightarrow> prompt_ok r"
proof -
  show "keeps p w'"
    using k l read [OF k] by (cases "en_tier e") (auto simp: load_entry_def split: prod.splits option.splits)
  show "prompt_ok r" if v: "v = Inr r"
  proof (cases "en_tier e")
    case (Device pp)
    then show ?thesis using l v device_ok [OF k e] by (simp add: load_entry_def)
  next
    case (Host bs)
    then show ?thesis using l v restored [OF k host_ok [OF k e Host]] same_model [OF k] by (simp add: load_entry_def)
  next
    case (Disk path n)
    obtain w1 c where c: "io_read io path w = (w1, c)" by fastforce
    then obtain bs where "c = Some bs" "restore be bs model_id limits = Inr r"
      using Disk l v same_model [OF k] by (auto simp: load_entry_def split: option.splits)
    then show ?thesis using restored [OF k read_bytes [OF k]] c by blast
  qed
qed

text \<open>One round of a lookup.\<close>

lemma lookup_round:
  assumes k: "keeps p w" and e: "map_of (pc_entries p) key = Some e"
    and l: "load_entry be io (set_entry p key (e\<lparr>en_used := u\<rparr>)) (en_tier e) w = (w', loaded)"
  shows "keeps (set_entry p key (e\<lparr>en_used := u\<rparr>)) w'" "loaded = Inr r \<Longrightarrow> prompt_ok r"
proof -
  have t: "keeps (set_entry p key (e\<lparr>en_used := u\<rparr>)) w" by (rule touch [OF k e])
  have m: "map_of (pc_entries (set_entry p key (e\<lparr>en_used := u\<rparr>))) key = Some (e\<lparr>en_used := u\<rparr>)" using sorted [OF k] by simp
  show "keeps (set_entry p key (e\<lparr>en_used := u\<rparr>)) w'" "loaded = Inr r \<Longrightarrow> prompt_ok r"
    using load_entry_keeps [OF t m] l by auto
qed

definition lookup_kept :: "('c, 'l) tiered_cache \<times> 'w \<times> (prefix_error + ('c, 'l) prefilled_prompt option) \<Rightarrow> bool" where
  "lookup_kept y \<longleftrightarrow> keeps (fst y) (fst (snd y)) \<and> (\<forall>r. snd (snd y) = Inr (Some r) \<longrightarrow> prompt_ok r)"

lemma lookup_loop_keeps:
  assumes run: "lookup_loop be io prompt p w = Some y" and k: "keeps p w"
  shows "lookup_kept y"
proof -
  have "keeps p w \<longrightarrow> be = be \<and> io = io \<longrightarrow> lookup_kept y"
  proof (rule lookup_loop.raw_induct [where P = "\<lambda>be' io' prompt p w y. keeps p w \<longrightarrow> be' = be \<and> io' = io \<longrightarrow> lookup_kept y", OF _ run], intro impI, goal_cases)
    case (1 loop be' io' prompt p w y)
    note IH = 1(1) and k = 1(3)
    have id: "be' = be" "io' = io" using 1(4) by auto
    show ?case
    proof (cases "longest_key prompt (pc_entries p)")
      case None
      then show ?thesis using 1(2) k by (auto simp: lookup_kept_def)
    next
      case (Some key)
      obtain e where e: "map_of (pc_entries p) key = Some e" using 1(2) Some by (auto split: bind_splits)
      let ?q = "set_entry p key (e\<lparr>en_used := pc_tick p\<rparr>)"
      obtain w1 l where l: "load_entry be io ?q (en_tier e) w = (w1, l)" by fastforce
      note L = lookup_round [OF k e l]
      show ?thesis
      proof (cases "ok_then l (check_loaded be ?q prompt key)")
        case (Inl x)
        then obtain p1 where p1: "drop_failed ?q key (en_tier e) = Some p1" "loop be io prompt p1 w1 = Some y"
          using 1(2) Some e l by (auto simp: id Let_def split: bind_splits)
        then show ?thesis using IH [OF p1(2)] drop_failed_keeps [OF L(1) p1(1)] by simp
      next
        case (Inr r)
        then obtain p1 where p1: "count_hit ?q key = Some p1" "y = (p1, w1, Inr (Some r))"
          using 1(2) Some e l by (auto simp: id Let_def split: bind_splits)
        have "l = Inr r" using Inr by (cases l) (auto simp: ok_then_def dest: check_loaded_same)
        moreover have "keeps p1 w1" by (rule counters [OF L(1)]) (use p1(1) in \<open>auto simp: count_hit_def split: bind_splits\<close>)
        ultimately show ?thesis using L(2) p1(2) by (simp add: lookup_kept_def)
      qed
    qed
  qed
  then show ?thesis using k by simp
qed

lemma lookup_keeps:
  assumes "lookup be io prompt p w = Some y" "keeps p w"
  shows "lookup_kept y"
proof -
  obtain n t where run: "lookup_loop be io prompt (p\<lparr>pc_stats := (pc_stats p)\<lparr>st_lookups := n\<rparr>, pc_tick := t\<rparr>) w = Some y"
    using assms(1) by (auto simp: lookup_def split: bind_splits)
  show ?thesis by (rule lookup_loop_keeps [OF run counters [OF assms(2)]]) simp_all
qed

subsection \<open>Prefilling\<close>

lemma piece_end_bounds:
  assumes "piece_end p prompt start = Some e" "start < length prompt" "length prompt < usize_lim"
  shows "start < e" "e \<le> length prompt"
proof -
  have "start < e \<and> e \<le> length prompt"
  proof (cases "caching_off p")
    case True
    then show ?thesis using assms by (simp add: piece_end_def)
  next
    case False
    then have "0 < cc_block_tokens (pc_config p)" using assms(1) by (auto simp: piece_end_def split: if_splits)
    then show ?thesis using piece_end_ok [OF _ assms(2,3), of p] assms(1) by auto
  qed
  then show "start < e" "e \<le> length prompt" by simp_all
qed

text \<open>
  The pieces of a prompt: \<open>at s c\<close> says that \<open>c\<close> is a state of the model after \<open>s\<close> tokens.  A piece that starts from one
  ends in one, with a prompt that may be stored.
\<close>

definition pieces_ok :: "(usize \<Rightarrow> 'c \<Rightarrow> bool) \<Rightarrow> token list \<Rightarrow> bool" where
  "pieces_ok at prompt \<longleftrightarrow> (\<forall>p :: ('c, 'l) tiered_cache. \<forall>s e c r. pc_model_id p = model_id \<longrightarrow> pc_limits p = limits \<longrightarrow>
     s < e \<longrightarrow> e \<le> length prompt \<longrightarrow> at s c \<longrightarrow> prefill_piece be p prompt s e c = Inr r \<longrightarrow> prompt_ok r \<and> at e (pp_cache r))"

definition piece_fails :: "(usize \<Rightarrow> 'c \<Rightarrow> bool) \<Rightarrow> token list \<Rightarrow> prefix_error \<Rightarrow> bool" where
  "piece_fails at prompt x \<longleftrightarrow> (\<exists>p :: ('c, 'l) tiered_cache. \<exists>s e c. pc_model_id p = model_id \<and> pc_limits p = limits \<and>
     s < e \<and> e \<le> length prompt \<and> at s c \<and> prefill_piece be p prompt s e c = Inl x)"

definition fill_kept :: "(usize \<Rightarrow> 'c \<Rightarrow> bool) \<Rightarrow> token list \<Rightarrow> ('c, 'l) tiered_cache \<times> 'w \<times> (prefix_error + ('c, 'l) prefilled_prompt option) \<Rightarrow> bool" where
  "fill_kept at prompt y \<longleftrightarrow> keeps (fst y) (fst (snd y)) \<and>
     (case snd (snd y) of Inr r \<Rightarrow> \<forall>pp. r = Some pp \<longrightarrow> prompt_ok pp | Inl x \<Rightarrow> piece_fails at prompt x)"

lemma fill_loop_keeps:
  assumes "fill_loop be io prompt start cache result p w = Some y" "keeps p w" "length prompt < usize_lim"
    "at start cache" "\<forall>pp. result = Some pp \<longrightarrow> prompt_ok pp" "pieces_ok at prompt"
  shows "fill_kept at prompt y"
  using assms
proof (induction "length prompt - start" arbitrary: start cache result p w rule: less_induct)
  case less
  note k = less.prems(2)
  show ?case
  proof (cases "start < length prompt")
    case False
    then have "y = (p, w, Inr result)" using less.prems(1) by (subst (asm) fill_loop.simps) simp
    then show ?thesis using k less.prems(5) by (simp add: fill_kept_def)
  next
    case True
    note eq = less.prems(1) [unfolded fill_loop.simps [of be io prompt start cache result p w]]
    obtain e where e: "piece_end p prompt start = Some e" using eq True by (auto split: bind_splits)
    note b = piece_end_bounds [OF e True less.prems(3)]
    show ?thesis
    proof (cases "prefill_piece be p prompt start e cache")
      case (Inl x)
      then have "piece_fails at prompt x" using same_model [OF k] b less.prems(4) unfolding piece_fails_def by blast
      then show ?thesis using eq True e Inl k by (auto simp: fill_kept_def)
    next
      case (Inr r)
      have r: "prompt_ok r" "at e (pp_cache r)" using less.prems(4,6) same_model [OF k] b Inr unfolding pieces_ok_def by blast+
      obtain p1 w1 v1 where i: "cache_insert be io r p w = Some (p1, w1, v1)" "fill_loop be io prompt e (pp_cache r) (Some r) p1 w1 = Some y"
        using eq True e Inr by (auto split: bind_splits)
      show ?thesis
        by (rule less.hyps [OF _ i(2) cache_insert_keeps [OF k r(1) i(1)] less.prems(3) r(2) _ less.prems(6)]) (use b r(1) in auto)
    qed
  qed
qed

lemma prefill_keeps:
  assumes run: "prefill be io prompt p w = Some (p', w', v)" and k: "keeps p w" and len: "length prompt < usize_lim" and pieces: "pieces_ok at prompt"
    and at: "at 0 (be_new_cache be)"
    and found: "\<And>p1 w1 v1. lookup be io prompt p w = Some (p1, w1, v1) \<Longrightarrow>
      \<exists>r. v1 = Inr r \<and> (\<forall>pp. r = Some pp \<longrightarrow> prompt_ok pp \<longrightarrow> at (length (pp_tokens pp)) (pp_cache pp))"
  shows "keeps p' w' \<and> (case v of Inr r \<Rightarrow> prompt_ok r | Inl x \<Rightarrow> x \<in> {InvalidPrompt, NoCompletedState} \<or> piece_fails at prompt x)"
proof (cases "valid_tokens (pc_limits p) prompt")
  case False
  then show ?thesis using run k by (auto simp: prefill_def)
next
  case True
  obtain p1 w1 v1 where l: "lookup be io prompt p w = Some (p1, w1, v1)" using run True by (auto simp: prefill_def cache_then_def split: bind_splits)
  obtain r where r: "v1 = Inr r" "\<forall>pp. r = Some pp \<longrightarrow> prompt_ok pp \<longrightarrow> at (length (pp_tokens pp)) (pp_cache pp)" using found [OF l] by blast
  have L: "keeps p1 w1" "\<forall>pp. r = Some pp \<longrightarrow> prompt_ok pp" using lookup_keeps [OF l k] r(1) by (simp_all add: lookup_kept_def)
  let ?start = "case r of Some pp \<Rightarrow> length (pp_tokens pp) | None \<Rightarrow> 0" and ?c = "case r of Some pp \<Rightarrow> pp_cache pp | None \<Rightarrow> be_new_cache be"
  have "at ?start ?c" using at r(2) L(2) by (auto split: option.splits)
  moreover obtain y where f: "fill_loop be io prompt ?start ?c r p1 w1 = Some y"
    using run True l r(1) by (cases r) (auto simp: prefill_def cache_then_def split: bind_splits)
  ultimately have F: "fill_kept at prompt y" using fill_loop_keeps [OF f L(1) len _ L(2) pieces] by blast
  obtain p2 w2 v2 where y: "y = (p2, w2, v2)" by (cases y)
  have "p' = p2 \<and> w' = w2 \<and> v = completed v2"
    using run True l r(1) f y by (cases r) (auto simp: prefill_def cache_then_def completed_def split: sum.splits option.splits)
  then show ?thesis using F by (auto simp: fill_kept_def y completed_def split: sum.splits option.splits)
qed

subsection \<open>Opening\<close>

lemma add_file_keeps:
  assumes "keeps p w" "map_of (pc_entries p) tokens = None"
  shows "keeps (add_file tokens df p) w"
proof -
  have "add_file tokens df p = p\<lparr>pc_stats := (pc_stats p)\<lparr>st_disk_bytes := st_disk_bytes (pc_stats p) + df_size df\<rparr>,
      pc_entries := om_insert tokens \<lparr>en_tier = Disk (df_path df) (df_size df), en_used = pc_tick p\<rparr> (pc_entries p)\<rparr>"
    by (intro tiered_cache.equality) (simp_all add: add_file_def set_entry_def)
  then show ?thesis using store [OF assms] by simp
qed

lemma reopen_files_keeps: "reopen_files io files p w = Some y \<Longrightarrow> keeps p w \<Longrightarrow> keeps (fst y) (fst (snd y))"
proof (induction files arbitrary: p w)
  case (Cons f files)
  show ?case
  proof (cases f)
    case (Inr df)
    obtain w1 b where rm: "io_remove io (df_path df) w = (w1, b)" by fastforce
    let ?t = "p\<lparr>pc_tick := pc_tick p + 1\<rparr>"
    note t = keeps_setters(3) [OF Cons.prems(2), of "pc_tick p + 1"]
    have "reopen_files io files p w = Some y \<or> (fst y, fst (snd y)) \<in> {(?t, w1), (?t, w)} \<or> reopen_files io files ?t w1 = Some y \<or>
        (\<exists>tokens. map_of (pc_entries p) tokens = None \<and> reopen_files io files (add_file tokens df ?t) w = Some y)"
    proof (cases "df_header df")
      case (Some h)
      obtain version id' lim tokens where h: "h = (version, id', lim, tokens)" by (cases h)
      show ?thesis
        using Cons.prems(1) unfolding Inr reopen_known [OF Some [unfolded h] rm] by (auto split: if_splits)
    qed (use Cons.prems(1) Inr in \<open>auto split: if_splits\<close>)
    then show ?thesis
    proof (elim disjE exE conjE)
      assume "(fst y, fst (snd y)) \<in> {(?t, w1), (?t, w)}"
      then show ?thesis using t remove [OF t rm] by auto
    next
      fix tokens assume "map_of (pc_entries p) tokens = None" "reopen_files io files (add_file tokens df ?t) w = Some y"
      then show ?thesis using Cons.IH add_file_keeps [OF t] by simp
    qed (use Cons.IH Cons.prems(2) remove [OF t rm] in blast)+
  qed (use Cons.prems in auto)
qed auto

lemma cache_new_keeps:
  assumes "cache_new join_model io listing model_id limits config w = Some (w', Inr p)"
    and fresh: "\<And>p. pc_model_id p = model_id \<Longrightarrow> pc_limits p = limits \<Longrightarrow> pc_entries p = [] \<Longrightarrow> st_disk_bytes (pc_stats p) = 0 \<Longrightarrow> keeps p w"
  shows "keeps p w'"
proof -
  obtain d where run: "reopen_disk io listing \<lparr>pc_model_id = model_id, pc_limits = limits, pc_config = config\<lparr>cc_disk_directory := d\<rparr>,
      pc_entries = [], pc_tick = 0, pc_stats = \<lparr>st_lookups = 0, st_hits = 0, st_reused_tokens = 0, st_device_entries = 0, st_host_bytes = 0, st_disk_bytes = 0\<rparr>\<rparr> w =
      Some (p, w', Inr ())" (is "reopen_disk io listing ?p w = _")
    using assms(1) by (auto simp: cache_new_def Let_def split: if_splits prod.splits option.splits bind_splits sum.splits)
  have "keeps ?p w" by (rule fresh) simp_all
  then obtain p0 where p0: "reopen_disk io listing p0 w = Some (p, w', Inr ())" "keeps p0 w" using run by blast
  show ?thesis
  proof (cases listing)
    case (Inl x)
    then show ?thesis using p0 by (auto simp: reopen_disk_def split: if_splits)
  next
    case (Inr files)
    show ?thesis
    proof (cases "cc_disk_directory (pc_config p0) = None \<or> cc_disk_bytes (pc_config p0) = 0")
      case True
      then show ?thesis using p0 by (simp add: reopen_disk_def)
    next
      case False
      then obtain p1 w1 u where r: "reopen_files io files p0 w = Some (p1, w1, Inr u)" "evict_loop io 0 p1 w1 = Some (p, w', Inr ())"
        using p0(1) Inr by (auto simp: reopen_disk_def cache_then_def split: bind_splits sum.splits)
      show ?thesis using evict_loop_keeps [OF r(2)] reopen_files_keeps [OF r(1) p0(2)] by simp
    qed
  qed
qed

end

subsection \<open>Bytes of files that are lost\<close>

text \<open>The bytes that are counted although no entry is behind them.\<close>

definition stranded :: "('c, 'l) tiered_cache \<Rightarrow> nat" where
  "stranded p = st_disk_bytes (pc_stats p) - tally disk_size (pc_entries p)"

definition strands :: "string \<Rightarrow> model_limits \<Rightarrow> nat \<Rightarrow> ('c, 'l) tiered_cache \<Rightarrow> bool" where
  "strands model_id limits c p \<longleftrightarrow> om_ok (pc_entries p) \<and> pc_model_id p = model_id \<and> pc_limits p = limits \<and>
     c + tally disk_size (pc_entries p) \<le> st_disk_bytes (pc_stats p)"

lemma strands_entry:
  assumes "strands model_id limits c p" "om_ok (pc_entries p) \<Longrightarrow> disk_size e = at_key disk_size (pc_entries p) k"
  shows "strands model_id limits c (set_entry p k e)"
  using assms tally_insert [of "pc_entries p" disk_size k e] by (auto simp: strands_def)

lemma strands_remove:
  assumes "strands model_id limits c p"
  shows "strands model_id limits c (drop_entry p k)"
    "map_of (pc_entries p) k = Some e \<Longrightarrow> en_tier e = Disk path n \<Longrightarrow>
      strands model_id limits c (p\<lparr>pc_stats := (pc_stats p)\<lparr>st_disk_bytes := st_disk_bytes (pc_stats p) - n\<rparr>, pc_entries := om_remove k (pc_entries p)\<rparr>)"
  using assms tally_remove [of "pc_entries p" disk_size k] by (auto simp: strands_def at_key_def disk_size_def)

interpretation lost: cache_laws be io model_id limits "\<lambda>_. True" "\<lambda>_. True" "\<lambda>p w. strands model_id limits c p"
  for be io model_id limits c
proof (unfold_locales, goal_cases)
  case (8 p w p')
  then show ?case by (simp add: strands_def)
next
  case (11 p w k path n u)
  then show ?case using tally_insert [of "pc_entries p" disk_size k "\<lparr>en_tier = Disk path n, en_used = u\<rparr>"] by (simp add: strands_def at_key_def disk_size_def)
next
  case (12 p w k pp u)
  then show ?case by (intro strands_entry) (simp_all add: at_key_def disk_size_def)
next
  case (13 p w k bs u)
  then show ?case by (intro strands_entry) (simp_all add: at_key_def disk_size_def)
next
  case (14 p w k e u)
  then show ?case by (intro strands_entry) (simp_all add: at_key_def disk_size_def)
qed (simp_all add: strands_remove, simp_all add: strands_def)

text \<open>A payload that does not fit beside the lost bytes is refused, whatever could be evicted.\<close>

lemma put_disk_refused:
  assumes inv: "cache_inv be good p" and size: "length bs \<le> cc_disk_bytes (pc_config p)" and full: "cc_disk_bytes (pc_config p) < stranded p + length bs"
  shows "\<exists>p' w' e. put_disk io key bs u p w = Some (p', w', Inl e)"
proof -
  have I: "om_ok (pc_entries p)" "tally disk_size (pc_entries p) \<le> st_disk_bytes (pc_stats p)" "st_disk_bytes (pc_stats p) \<le> cc_disk_bytes (pc_config p)"
    "Suc (cc_disk_bytes (pc_config p)) < usize_lim" using inv by (simp_all add: cache_inv_def)
  obtain p1 w1 v1 where e: "evict_loop io (length bs) p w = Some (p1, w1, v1)" "fewer_files p p1"
    "v1 = Inr () \<longrightarrow> saturating_add (st_disk_bytes (pc_stats p1)) (length bs) \<le> cc_disk_bytes (pc_config p1)"
    using evict_loop_ok [OF inv, of io "length bs" w] by blast
  have "strands (pc_model_id p) (pc_limits p) (stranded p) p" using I by (simp add: strands_def stranded_def)
  from lost.evict_loop_keeps [OF e(1) this] have "stranded p \<le> st_disk_bytes (pc_stats p1)" by (simp add: strands_def)
  then have "cc_disk_bytes (pc_config p) < saturating_add (st_disk_bytes (pc_stats p1)) (length bs)" using full I(4) by (simp add: saturating_add_def)
  moreover have "pc_config p1 = pc_config p" using e(2) by (simp add: fewer_files_def same_setup_def)
  ultimately obtain x where "v1 = Inl x" using e(3) by (cases v1) auto
  moreover have "cc_disk_bytes (pc_config p) \<noteq> 0" using size full I(2,3) by (auto simp: stranded_def)
  ultimately show ?thesis using e(1) size by (simp add: put_disk_def cache_then_def)
qed

end
