(* ===== verification/Prefix_Tiers_Recall.thy ===== *)
theory Prefix_Tiers_Recall
  imports Prefix_Tiers_Ops
begin

text \<open>
  What a lookup in the tiered prefix cache answers, as a search through the prefixes of the prompt, the longest first: the
  first one that is stored and can be restored is the answer, and the stored ones before it that
  could not be restored are lost.
\<close>

subsection \<open>The reference\<close>

definition usable :: "('c, 'l, 'i) backend \<Rightarrow> ('c, 'l) tiered_cache \<Rightarrow> token list \<Rightarrow> token list \<Rightarrow> ('c, 'l) prefilled_prompt \<Rightarrow> bool" where
  "usable be p prompt key r \<longleftrightarrow> pp_validate be r (pc_model_id p) (pc_limits p) prompt = Inr () \<and> be_position be (pp_cache r) = length key"

definition revive :: "('c, 'l, 'i) backend \<Rightarrow> ('c, 'l) tiered_cache \<Rightarrow> token list \<Rightarrow> token list \<Rightarrow> bytes \<Rightarrow> ('c, 'l) prefilled_prompt option" where
  "revive be p prompt key bs =
     (case restore be bs (pc_model_id p) (pc_limits p) of Inl _ \<Rightarrow> None | Inr r \<Rightarrow> if usable be p prompt key r then Some r else None)"

definition recover :: "('c, 'l, 'i) backend \<Rightarrow> 'w disk_io \<Rightarrow> ('c, 'l) tiered_cache \<Rightarrow> token list \<Rightarrow> token list \<Rightarrow> ('c, 'l) tier \<Rightarrow> 'w \<Rightarrow>
    'w \<times> ('c, 'l) prefilled_prompt option" where
  "recover be io p prompt key t w =
     (case t of
        Device pp \<Rightarrow> (w, if usable be p prompt key pp then Some pp else None)
      | Host bs \<Rightarrow> (w, revive be p prompt key bs)
      | Disk path _ \<Rightarrow> (fst (io_read io path w), Option.bind (snd (io_read io path w)) (revive be p prompt key)))"

fun recall :: "('c, 'l, 'i) backend \<Rightarrow> 'w disk_io \<Rightarrow> ('c, 'l) tiered_cache \<Rightarrow> token list \<Rightarrow> token list list \<Rightarrow> 'w \<Rightarrow>
    'w \<times> token list list \<times> (token list \<times> ('c, 'l) prefilled_prompt) option" where
  "recall be io p prompt [] w = (w, [], None)"
| "recall be io p prompt (k # ks) w =
     (case map_of (pc_entries p) k of
        None \<Rightarrow> recall be io p prompt ks w
      | Some e \<Rightarrow>
          (case recover be io p prompt k (en_tier e) w of
             (w, Some r) \<Rightarrow> (w, [], Some (k, r))
           | (w, None) \<Rightarrow> (case recall be io p prompt ks w of (w, lost, hit) \<Rightarrow> (w, k # lost, hit))))"

definition longest_first :: "token list \<Rightarrow> nat \<Rightarrow> token list list" where
  "longest_first prompt n = map (\<lambda>i. take i prompt) (rev [0..<n])"

lemma longest_first_simps [simp]: "longest_first prompt 0 = []" "longest_first prompt (Suc n) = take n prompt # longest_first prompt n"
  by (simp_all add: longest_first_def)

lemma longest_first_mem: "k \<in> set (longest_first prompt n) \<longleftrightarrow> (\<exists>i < n. k = take i prompt)"
  by (auto simp: longest_first_def)

subsection \<open>The code against it\<close>

lemma recover_load:
  assumes "load_entry be io p t w = (w', loaded)"
  shows "recover be io p prompt key t w = (w', case ok_then loaded (check_loaded be p prompt key) of Inl _ \<Rightarrow> None | Inr r \<Rightarrow> Some r)"
proof -
  have c: "(case ok_then (Inr r) (check_loaded be p prompt key) of Inl _ \<Rightarrow> None | Inr r \<Rightarrow> Some r) = (if usable be p prompt key r then Some r else None)" for r
    by (auto simp: ok_then_def check_loaded_def usable_def split: sum.splits)
  have b: "(case ok_then (restore be bs (pc_model_id p) (pc_limits p)) (check_loaded be p prompt key) of Inl _ \<Rightarrow> None | Inr r \<Rightarrow> Some r) = revive be p prompt key bs" for bs
  proof (cases "restore be bs (pc_model_id p) (pc_limits p)")
    case (Inr r)
    then show ?thesis using c [of r] by (simp add: revive_def)
  qed (simp add: revive_def ok_then_def)
  show ?thesis
  proof (cases t)
    case (Disk path sz)
    obtain w1 content where "io_read io path w = (w1, content)" by fastforce
    then show ?thesis using assms Disk b by (cases content) (auto simp: load_entry_def recover_def ok_then_def [of "Inl IoError"])
  qed (use assms b c in \<open>auto simp: load_entry_def recover_def\<close>)
qed

lemma recover_setup: "pc_model_id q = pc_model_id p \<Longrightarrow> pc_limits q = pc_limits p \<Longrightarrow> recover be io q prompt k t w = recover be io p prompt k t w"
proof -
  assume "pc_model_id q = pc_model_id p" "pc_limits q = pc_limits p"
  moreover from this have u: "usable be q prompt k = usable be p prompt k" by (simp add: fun_eq_iff usable_def)
  ultimately have "revive be q prompt k = revive be p prompt k" by (simp add: fun_eq_iff revive_def u split: sum.splits)
  then show ?thesis using u by (simp add: recover_def split: tier.splits)
qed

lemma recall_cong:
  assumes "pc_model_id q = pc_model_id p" "pc_limits q = pc_limits p"
    and "\<And>k. k \<in> set ks \<Longrightarrow> map_option en_tier (map_of (pc_entries q) k) = map_option en_tier (map_of (pc_entries p) k)"
  shows "recall be io q prompt ks w = recall be io p prompt ks w"
  using assms(3)
proof (induction ks arbitrary: w)
  case (Cons k ks)
  note IH = Cons.IH [OF Cons.prems [OF list.set_intros(2)]]
  have "map_option en_tier (map_of (pc_entries q) k) = map_option en_tier (map_of (pc_entries p) k)" by (rule Cons.prems) simp
  then show ?case
    by (cases "map_of (pc_entries q) k"; cases "map_of (pc_entries p) k") (simp_all add: IH recover_setup [OF assms(1,2)])
qed simp

text \<open>What a lookup leaves: the entries but the lost ones, the bytes of all files, one hit more when there was one.\<close>

definition answered :: "('c, 'l) tiered_cache \<Rightarrow> ('c, 'l) tiered_cache \<Rightarrow> token list list \<Rightarrow> (token list \<times> ('c, 'l) prefilled_prompt) option \<Rightarrow> bool" where
  "answered p p' lost hit \<longleftrightarrow> keys p' = keys p - set lost \<and> set lost \<subseteq> keys p \<and>
     (\<forall>k \<in> keys p'. map_option en_tier (map_of (pc_entries p') k) = map_option en_tier (map_of (pc_entries p) k)) \<and>
     st_disk_bytes (pc_stats p') = st_disk_bytes (pc_stats p) \<and>
     st_hits (pc_stats p') = st_hits (pc_stats p) + (if hit = None then 0 else 1) \<and>
     st_reused_tokens (pc_stats p') = st_reused_tokens (pc_stats p) + (case hit of None \<Rightarrow> 0 | Some (k, _) \<Rightarrow> length k)"

lemma longest_key_eq:
  assumes "take n prompt \<in> keys p" "n \<le> length prompt" "\<forall>k \<in> keys p. starts_with prompt k \<longrightarrow> length k < Suc n"
  shows "longest_key prompt (pc_entries p) = Some (take n prompt)"
proof -
  have t: "starts_with prompt (take n prompt)" "length (take n prompt) = n" using assms(2) by (simp_all add: starts_with_def)
  then have "longest_key prompt (pc_entries p) \<noteq> None" using assms(1) unfolding longest_key_None dom_map_of_conv_image_fst by blast
  then obtain key where key: "longest_key prompt (pc_entries p) = Some key" by blast
  note K = longest_key_Some [OF key]
  have "key \<in> keys p" "length (take n prompt) \<le> length key" using K(1,3) t(1) assms(1) unfolding dom_map_of_conv_image_fst by blast+
  then have "n \<le> length key" "length key < Suc n" using K(2) t(2) assms(3) by simp_all
  then show ?thesis using starts_with_same [OF K(2) t(1)] t(2) key by simp
qed

lemma lookup_loop_recall:
  assumes "cache_inv be good p" "st_hits (pc_stats p) + 1 < usize_lim" "st_reused_tokens (pc_stats p) + length prompt < usize_lim"
    "n \<le> Suc (length prompt)" "\<forall>k \<in> keys p. starts_with prompt k \<longrightarrow> length k < n"
  shows "\<exists>p'. lookup_loop be io prompt p w =
      Some (p', fst (recall be io p prompt (longest_first prompt n) w), Inr (map_option snd (snd (snd (recall be io p prompt (longest_first prompt n) w))))) \<and>
    answered p p' (fst (snd (recall be io p prompt (longest_first prompt n) w))) (snd (snd (recall be io p prompt (longest_first prompt n) w)))"
  using assms
proof (induction n arbitrary: p w)
  case 0
  then have "longest_key prompt (pc_entries p) = None" by (auto simp: longest_key_None dom_map_of_conv_image_fst)
  then have "lookup_loop be io prompt p w = Some (p, w, Inr None)" by (subst lookup_loop.simps) simp
  then show ?case by (auto simp: answered_def)
next
  case (Suc n)
  have n: "n \<le> length prompt" using Suc.prems(4) by simp
  let ?k = "take n prompt"
  have ok: "om_ok (pc_entries p)" using Suc.prems(1) by (simp add: cache_inv_def)
  have only: "starts_with prompt k \<Longrightarrow> length k = n \<Longrightarrow> k = ?k" for k by (simp add: starts_with_def)
  show ?case
  proof (cases "map_of (pc_entries p) ?k")
    case None
    then have "\<forall>k \<in> keys p. starts_with prompt k \<longrightarrow> length k < n" using Suc.prems(5) only by (metis domIff less_Suc_eq)
    then show ?thesis using Suc.IH [OF Suc.prems(1-3)] n None by simp
  next
    case (Some e)
    have key: "longest_key prompt (pc_entries p) = Some ?k" by (rule longest_key_eq [OF _ n Suc.prems(5)]) (use Some in auto)
    let ?q = "set_entry p ?k (e\<lparr>en_used := pc_tick p\<rparr>)"
    have q: "cache_inv be good ?q" "keys ?q = keys p" using cache_inv_touch [OF Suc.prems(1) Some] Some ok by (simp, auto split: if_splits)
    have eq: "map_of (pc_entries ?q) ?k = Some (e\<lparr>en_used := pc_tick p\<rparr>)" using ok by simp
    obtain w1 l where l: "load_entry be io ?q (en_tier e) w = (w1, l)" by fastforce
    have rec: "recover be io p prompt ?k (en_tier e) w = (w1, case ok_then l (check_loaded be ?q prompt ?k) of Inl _ \<Rightarrow> None | Inr r \<Rightarrow> Some r)"
      using recover_load [OF l, of prompt ?k] recover_setup [of ?q p be io prompt ?k "en_tier e" w] by simp
    show ?thesis
    proof (cases "ok_then l (check_loaded be ?q prompt ?k)")
      case (Inr r)
      have rec: "recover be io p prompt ?k (en_tier e) w = (w1, Some r)" unfolding rec Inr by simp
      let ?p' = "?q\<lparr>pc_stats := (pc_stats ?q)\<lparr>st_hits := st_hits (pc_stats p) + 1, st_reused_tokens := st_reused_tokens (pc_stats p) + n\<rparr>\<rparr>"
      have "count_hit ?q ?k = Some ?p'" using Suc.prems(2,3) n by (simp add: count_hit_def uadd_def)
      then have "lookup_loop be io prompt p w = Some (?p', w1, Inr (Some r))"
        using key Some l Inr by (subst lookup_loop.simps) (auto simp: Let_def ok_then_def)
      moreover have "answered p ?p' [] (Some (?k, r))"
        using q(2) Some ok n unfolding answered_def by (simp add: dom_def)
      ultimately show ?thesis using Some rec by (intro exI [of _ ?p']) simp
    next
      case (Inl x)
      have rec: "recover be io p prompt ?k (en_tier e) w = (w1, None)" unfolding rec Inl by simp
      obtain p1 where p1: "drop_failed ?q ?k (en_tier e) = Some p1" "cache_inv be good p1" "same_setup ?q p1" "pc_entries p1 = om_remove ?k (pc_entries ?q)"
        using drop_failed_ok [OF q(1) eq] by auto
      have d: "st_disk_bytes (pc_stats p1) = st_disk_bytes (pc_stats p)"
        using p1(1) by (cases "en_tier e") (auto simp: drop_failed_def Let_def usub_def split: bind_splits if_splits)
      have disk: "st_disk_bytes (pc_stats p1) = st_disk_bytes (pc_stats p)" "st_hits (pc_stats p1) = st_hits (pc_stats p)" "st_reused_tokens (pc_stats p1) = st_reused_tokens (pc_stats p)"
        "pc_model_id p1 = pc_model_id p" "pc_limits p1 = pc_limits p"
        using d p1(3) by (simp_all add: same_setup_def set_entry_def)
      have k1: "keys p1 = keys p - {?k}" "map_of (pc_entries p1) k = (if k = ?k then None else map_of (pc_entries p) k)" for k
        unfolding p1(4) using ok Some by (auto split: if_splits)
      have lt: "\<forall>k \<in> keys p1. starts_with prompt k \<longrightarrow> length k < n" using Suc.prems(5) only unfolding k1(1) by (metis DiffE insertI1 less_Suc_eq)
      have "recall be io p1 prompt (longest_first prompt n) w1 = recall be io p prompt (longest_first prompt n) w1"
        by (rule recall_cong) (use disk k1(2) n in \<open>auto simp: longest_first_mem dest!: arg_cong [where f = length]\<close>)
      moreover obtain p2 where p2: "lookup_loop be io prompt p1 w1 =
          Some (p2, fst (recall be io p1 prompt (longest_first prompt n) w1), Inr (map_option snd (snd (snd (recall be io p1 prompt (longest_first prompt n) w1)))))"
        "answered p1 p2 (fst (snd (recall be io p1 prompt (longest_first prompt n) w1))) (snd (snd (recall be io p1 prompt (longest_first prompt n) w1)))"
        using Suc.IH [OF p1(2) _ _ _ lt, of w1] Suc.prems(2,3) disk n by auto
      moreover have "lookup_loop be io prompt p w = lookup_loop be io prompt p1 w1"
        using key Some l Inl p1(1) by (subst lookup_loop.simps) (simp add: Let_def)
      moreover have "answered p p2 (?k # lost) hit" if "answered p1 p2 lost hit" for lost hit
        using that Some k1 disk unfolding answered_def by auto
      ultimately show ?thesis using Some rec by (auto split: prod.splits)
    qed
  qed
qed

text \<open>A whole lookup, which searches all prefixes of the prompt.\<close>

definition recalled :: "('c, 'l, 'i) backend \<Rightarrow> 'w disk_io \<Rightarrow> token list \<Rightarrow> ('c, 'l) tiered_cache \<Rightarrow> 'w \<Rightarrow>
    'w \<times> token list list \<times> (token list \<times> ('c, 'l) prefilled_prompt) option" where
  "recalled be io prompt p w = recall be io p prompt (longest_first prompt (Suc (length prompt))) w"

lemma lookup_recall:
  assumes inv: "cache_inv be good p" and room: "lookup_room prompt p" and r: "recalled be io prompt p w = (w', lost, hit)"
  shows "\<exists>p'. lookup be io prompt p w = Some (p', w', Inr (map_option snd hit)) \<and> answered p p' lost hit"
proof -
  let ?q = "p\<lparr>pc_stats := (pc_stats p)\<lparr>st_lookups := st_lookups (pc_stats p) + 1\<rparr>, pc_tick := pc_tick p + 1\<rparr>"
  have "cache_inv be good (p\<lparr>pc_stats := (pc_stats p)\<lparr>st_lookups := st_lookups (pc_stats p) + 1\<rparr>\<rparr>)" by (rule cache_inv_counters(2) [OF inv])
  then have q: "cache_inv be good ?q" using cache_inv_counters(1) by fastforce
  have run: "lookup be io prompt p w = lookup_loop be io prompt ?q w"
    using room by (simp add: lookup_def lookup_room_def uadd_def)
  have rq: "recall be io ?q prompt (longest_first prompt (Suc (length prompt))) w = (w', lost, hit)"
    using r recall_cong [of ?q p "longest_first prompt (Suc (length prompt))" be io prompt w] by (simp add: recalled_def)
  have "\<forall>k \<in> keys ?q. starts_with prompt k \<longrightarrow> length k < Suc (length prompt)" using starts_with_length by (auto simp: less_Suc_eq_le)
  then have "\<exists>p'. lookup_loop be io prompt ?q w = Some (p', w', Inr (map_option snd hit)) \<and> answered ?q p' lost hit"
    using lookup_loop_recall [OF q _ _ order.refl, of prompt io w] rq room by (simp add: lookup_room_def del: longest_first_simps)
  then show ?thesis unfolding run by (auto simp: answered_def)
qed

text \<open>
  An entry on the device is never lost, one in host memory only when its bytes do not restore, and what is lost and hit are prefixes of
  the prompt, the lost ones longer.
\<close>

definition beyond_recall :: "('c, 'l, 'i) backend \<Rightarrow> ('c, 'l) tiered_cache \<Rightarrow> token list \<Rightarrow> token list \<Rightarrow> ('c, 'l) tier_entry \<Rightarrow> bool" where
  "beyond_recall be p prompt k e =
     (case en_tier e of Device _ \<Rightarrow> False | Host bs \<Rightarrow> revive be p prompt k bs = None | Disk path _ \<Rightarrow> True)"

lemma recall_facts:
  assumes inv: "cache_inv be good p" and r: "recall be io p prompt (longest_first prompt n) w = (w', lost, hit)" and n: "n \<le> Suc (length prompt)"
  shows "k \<in> set lost \<Longrightarrow> starts_with prompt k \<and> length k < n \<and> (\<exists>e. map_of (pc_entries p) k = Some e \<and> beyond_recall be p prompt k e)"
    "hit = Some (key, pp) \<Longrightarrow> starts_with prompt key \<and> length key < n \<and> key \<in> keys p \<and> usable be p prompt key pp \<and> (\<forall>k \<in> set lost. length key < length k)"
proof -
  have "(\<forall>k \<in> set lost. starts_with prompt k \<and> length k < n \<and> (\<exists>e. map_of (pc_entries p) k = Some e \<and> beyond_recall be p prompt k e)) \<and>
    (\<forall>key pp. hit = Some (key, pp) \<longrightarrow> starts_with prompt key \<and> length key < n \<and> key \<in> keys p \<and> usable be p prompt key pp \<and> (\<forall>k \<in> set lost. length key < length k))"
    using r n
  proof (induction n arbitrary: w w' lost hit)
    case (Suc n)
    let ?k = "take n prompt"
    have n: "n \<le> Suc (length prompt)" "length ?k = n" "starts_with prompt ?k" using Suc.prems(2) by (simp_all add: starts_with_def)
    show ?case
    proof (cases "map_of (pc_entries p) ?k")
      case None
      then have "recall be io p prompt (longest_first prompt n) w = (w', lost, hit)" using Suc.prems(1) by simp
      from Suc.IH [OF this n(1)] show ?thesis by auto
    next
      case (Some e)
      obtain w1 c where c: "recover be io p prompt ?k (en_tier e) w = (w1, c)" by fastforce
      show ?thesis
      proof (cases c)
        case (Some pp)
        have "usable be p prompt ?k pp"
          using c Some by (cases "en_tier e") (auto simp: recover_def revive_def split: if_splits sum.splits bind_splits)
        then show ?thesis using Suc.prems(1) Some \<open>map_of _ _ = Some e\<close> c n by auto
      next
        case None
        obtain lost' where l: "recall be io p prompt (longest_first prompt n) w1 = (w', lost', hit)" "lost = ?k # lost'"
          using Suc.prems(1) None \<open>map_of _ _ = Some e\<close> c by (auto split: prod.splits)
        have "on_device be good p ?k e" using inv Some by (auto simp: cache_inv_def)
        then have "beyond_recall be p prompt ?k e"
          using c None n(3) by (auto simp: beyond_recall_def on_device_def recover_def usable_def pp_validate_def split: tier.splits prod.splits if_splits)
        then show ?thesis using Suc.IH [OF l(1) n(1)] Some l(2) n(2,3) by auto
      qed
    qed
  qed simp
  then show "k \<in> set lost \<Longrightarrow> starts_with prompt k \<and> length k < n \<and> (\<exists>e. map_of (pc_entries p) k = Some e \<and> beyond_recall be p prompt k e)"
    "hit = Some (key, pp) \<Longrightarrow> starts_with prompt key \<and> length key < n \<and> key \<in> keys p \<and> usable be p prompt key pp \<and> (\<forall>k \<in> set lost. length key < length k)"
    by blast+
qed

end
