(* ===== verification/Prefix_Tiers_Run.thy ===== *)
theory Prefix_Tiers_Run
  imports Prefix_Tiers_Keep Prefix_Tiers_Recall "HOL-Library.Sublist"
begin

text \<open>
  The tiered prefix cache in use: the caches that calls lead to from an opened one, a model that
  computes the same state in one piece or in several, and where the prompts of a cache come from: what
  is on the device, in host memory and in files was computed by the model, if the files hold only what processes wrote.
\<close>

subsection \<open>Reachable caches\<close>

text \<open>
  \<open>good\<close> is what is known of the prompts that callers put in themselves.  Files may change between the
  calls.
\<close>

inductive cache_reach :: "('c, 'l, 'i) backend \<Rightarrow> 'w disk_io \<Rightarrow> (('c, 'l) prefilled_prompt \<Rightarrow> bool) \<Rightarrow> string \<Rightarrow> model_limits \<Rightarrow>
    ('c, 'l) tiered_cache \<Rightarrow> bool" for be io good model_id limits where
  Opened: "Suc (cc_disk_bytes config) < usize_lim \<Longrightarrow> (case listing of Inr files \<Rightarrow> length files < usize_lim | Inl _ \<Rightarrow> True) \<Longrightarrow>
    cache_new join_model io listing model_id limits config w = Some (w', Inr p) \<Longrightarrow> cache_reach be io good model_id limits p"
| Inserted: "cache_reach be io good model_id limits p \<Longrightarrow> cache_room 1 p \<Longrightarrow> good pp \<Longrightarrow> cache_insert be io pp p w = Some (p', w', v) \<Longrightarrow>
    cache_reach be io good model_id limits p'"
| Looked: "cache_reach be io good model_id limits p \<Longrightarrow> lookup_room prompt p \<Longrightarrow> lookup be io prompt p w = Some (p', w', v) \<Longrightarrow>
    cache_reach be io good model_id limits p'"
| Filled: "cache_reach be io good model_id limits p \<Longrightarrow> lookup_room prompt p \<Longrightarrow> cache_room (Suc (length prompt)) p \<Longrightarrow>
    length prompt < usize_lim \<Longrightarrow> prefill be io prompt p w = Some (p', w', v) \<Longrightarrow> cache_reach be io good model_id limits p'"

definition reach_inv :: "('c, 'l, 'i) backend \<Rightarrow> (('c, 'l) prefilled_prompt \<Rightarrow> bool) \<Rightarrow> string \<Rightarrow> model_limits \<Rightarrow> ('c, 'l) tiered_cache \<Rightarrow> bool" where
  "reach_inv be good model_id limits p \<longleftrightarrow> cache_inv be good p \<and> model_id \<noteq> [] \<and> pc_model_id p = model_id \<and> pc_limits p = limits"

lemma cache_new_id: "cache_new join_model io listing model_id limits config w = Some (w', Inr p) \<Longrightarrow> model_id \<noteq> []"
  by (auto simp: cache_new_def)

lemma cache_reach_inv_gen:
  assumes reach: "cache_reach be io good model_id limits p" and names: "names_left io"
    and rest: "\<And>bs r. restore be bs model_id limits = Inr r \<Longrightarrow> good r"
    and fill: "\<And>p prompt w. reach_inv be good model_id limits p \<Longrightarrow> lookup_room prompt p \<Longrightarrow> cache_room (Suc (length prompt)) p \<Longrightarrow>
      length prompt < usize_lim \<Longrightarrow> valid_tokens limits prompt \<Longrightarrow>
      \<exists>p' w' v. prefill be io prompt p w = Some (p', w', v) \<and> cache_inv be good p' \<and> grown (Suc (length prompt)) p p'"
  shows "reach_inv be good model_id limits p"
  using reach
proof (induction rule: cache_reach.induct)
  case (Opened config listing join_model w w' p)
  from cache_new_ok [where be = be and good = good and io = io and w = w and join_model = join_model and
      model_id = model_id and limits = limits, OF Opened.hyps(1,2)] Opened.hyps(3)
  show ?case using cache_new_id [OF Opened.hyps(3)] by (auto simp: reach_inv_def)
next
  case (Inserted p pp w p' w' v)
  note I = Inserted.IH [unfolded reach_inv_def]
  from cache_insert_ok [where pp = pp and w = w, OF _ names Inserted.hyps(2), of be good] Inserted.hyps(3,4) I
  show ?case by (auto simp: reach_inv_def grown_def)
next
  case (Looked p prompt w p' w' v)
  note I = Looked.IH [unfolded reach_inv_def]
  from lookup_ok [where io = io and w = w, OF _ _ Looked.hyps(2), of be good] rest Looked.hyps(3) I
  show ?case by (auto simp: reach_inv_def grown_def)
next
  case (Filled p prompt w p' w' v)
  note I = Filled.IH [unfolded reach_inv_def]
  show ?case
  proof (cases "valid_tokens limits prompt")
    case True
    from fill [OF Filled.IH Filled.hyps(2-4) True, of w] Filled.hyps(5) I show ?thesis by (auto simp: reach_inv_def grown_def)
  next
    case False
    then show ?thesis using Filled.IH Filled.hyps(5) I by (simp add: prefill_def)
  qed
qed

lemma prefill_inv:
  assumes inv: "cache_inv be (\<lambda>_. True) p" and names: "names_left io" and room: "lookup_room prompt p" "cache_room (Suc (length prompt)) p"
    and len: "length prompt < usize_lim"
  shows "\<exists>p' w' v. prefill be io prompt p w = Some (p', w', v) \<and> cache_inv be (\<lambda>_. True) p' \<and>
    grown (Suc (length prompt)) p p' \<and>
    (if valid_tokens (pc_limits p) prompt then filled be (\<lambda>_. True) (\<lambda>_ _. True) prompt p v else v = Inl InvalidPrompt)"
proof (cases "valid_tokens (pc_limits p) prompt")
  case True
  have "\<exists>p' w' v. prefill be io prompt p w = Some (p', w', v) \<and> cache_inv be (\<lambda>_. True) p' \<and> grown (Suc (length prompt)) p p' \<and>
    filled be (\<lambda>_. True) (\<lambda>_ _. True) prompt p v"
    by (rule prefill_ok [OF inv names room True len]) simp_all
  then show ?thesis using True by simp
next
  case False
  then show ?thesis using inv by (simp add: prefill_def)
qed

lemma cache_reach_inv:
  assumes "cache_reach be io (\<lambda>_. True) model_id limits p" "names_left io"
  shows "reach_inv be (\<lambda>_. True) model_id limits p"
  using prefill_inv [OF _ assms(2)] by (intro cache_reach_inv_gen [OF assms]) (simp_all add: reach_inv_def, blast)

text \<open>The calls on a cache that is there, in any order.\<close>

inductive cache_later :: "('c, 'l, 'i) backend \<Rightarrow> 'w disk_io \<Rightarrow> ('c, 'l) tiered_cache \<Rightarrow> ('c, 'l) tiered_cache \<Rightarrow> bool" for be io p where
  Now: "cache_later be io p p"
| Insert: "cache_later be io p q \<Longrightarrow> cache_room 1 q \<Longrightarrow> cache_insert be io pp q w = Some (q', w', v) \<Longrightarrow> cache_later be io p q'"
| Look: "cache_later be io p q \<Longrightarrow> lookup_room prompt q \<Longrightarrow> lookup be io prompt q w = Some (q', w', v') \<Longrightarrow> cache_later be io p q'"
| Fill: "cache_later be io p q \<Longrightarrow> lookup_room prompt q \<Longrightarrow> cache_room (Suc (length prompt)) q \<Longrightarrow> length prompt < usize_lim \<Longrightarrow>
    prefill be io prompt q w = Some (q', w', v'') \<Longrightarrow> cache_later be io p q'"

lemma later_reach:
  "cache_later be io p q \<Longrightarrow> cache_reach be io (\<lambda>_. True) model_id limits p \<Longrightarrow> cache_reach be io (\<lambda>_. True) model_id limits q"
  by (induction rule: cache_later.induct) (blast intro: cache_reach.Inserted [OF _ _ TrueI] cache_reach.Looked cache_reach.Filled)+

text \<open>The bytes of lost files stay lost.\<close>

lemma later_stranded:
  assumes "cache_later be io p q" "cache_reach be io (\<lambda>_. True) model_id limits p" "names_left io"
  shows "stranded p \<le> stranded q"
proof -
  have start: "strands model_id limits (stranded p) p"
    using cache_reach_inv [OF assms(2,3)] by (simp add: reach_inv_def cache_inv_def strands_def stranded_def)
  have "strands model_id limits (stranded p) q"
    using assms(1)
  proof (induction rule: cache_later.induct)
    case (Insert q pp w q' w' v)
    then show ?case using lost.cache_insert_keeps [OF Insert.IH TrueI Insert.hyps(3)] by simp
  next
    case (Look q prompt w q' w' v')
    then show ?case using lost.lookup_keeps [OF Look.hyps(3) Look.IH] by (simp add: lost.lookup_kept_def)
  next
    case (Fill q prompt w q' w' v'')
    have r: "reach_inv be (\<lambda>_. True) model_id limits q" by (rule cache_reach_inv [OF later_reach [OF Fill.hyps(1) assms(2)] assms(3)])
    have "\<exists>r. v1 = Inr r" if "lookup be io prompt q w = Some (p1, w1, v1)" for p1 w1 v1
      using lookup_ok [OF _ _ Fill.hyps(2), of be "\<lambda>_. True" io w] r that by (auto simp: reach_inv_def)
    then show ?case
      using lost.prefill_keeps [OF Fill.hyps(5) Fill.IH Fill.hyps(4), where at = "\<lambda>_ _. True"] by (simp add: lost.pieces_ok_def)
  qed (rule start)
  then have "stranded p + tally disk_size (pc_entries q) \<le> st_disk_bytes (pc_stats q)" by (simp add: strands_def)
  then show ?thesis by (simp add: stranded_def [of q])
qed

subsection \<open>A causal model\<close>

text \<open>
  What the cache relies on in the model: the state after a prompt and its logits depend on the tokens
  alone, and a piece run on the state of what came before gives the state of the whole.
\<close>

definition causal :: "('c, 'l, 'i) backend \<Rightarrow> model_limits \<Rightarrow> (token list \<Rightarrow> 'c) \<Rightarrow> (token list \<Rightarrow> 'l) \<Rightarrow> bool" where
  "causal be limits state out \<longleftrightarrow> be_new_cache be = state [] \<and> be_sync be = Inr () \<and>
     (\<forall>xs. be_position be (state xs) = length xs \<and> be_dims be (out xs) = (1, 1, ml_vocab_size limits) \<and> be_on_device be (out xs)) \<and>
     (\<forall>xs ys. ys \<noteq> [] \<longrightarrow> valid_tokens limits (xs @ ys) \<longrightarrow> be_forward be ys (state xs) = (Inr (out (xs @ ys)), state (xs @ ys)))"

definition honest :: "(token list \<Rightarrow> 'c) \<Rightarrow> (token list \<Rightarrow> 'l) \<Rightarrow> ('c, 'l) prefilled_prompt \<Rightarrow> bool" where
  "honest state out r \<longleftrightarrow> pp_cache r = state (pp_tokens r) \<and> pp_logits r = out (pp_tokens r)"

text \<open>The whole prompt in one piece, without a cache.\<close>

definition uncached_prefill :: "('c, 'l, 'i) backend \<Rightarrow> ('c, 'l) tiered_cache \<Rightarrow> token list \<Rightarrow> prefix_error + ('c, 'l) prefilled_prompt" where
  "uncached_prefill be self prompt = prefill_piece be self prompt 0 (length prompt) (be_new_cache be)"

lemma take_drop_piece: "s \<le> e \<Longrightarrow> take s xs @ take (e - s) (drop s xs) = take e xs"
  by (metis le_add_diff_inverse take_add)

lemma valid_tokens_take: "valid_tokens limits xs \<Longrightarrow> 0 < e \<Longrightarrow> valid_tokens limits (take e xs)"
  by (auto simp: valid_tokens_def dest: in_set_takeD)

lemma causal_piece:
  assumes c: "causal be (pc_limits p) state out" and id: "pc_model_id p \<noteq> []" and v: "valid_tokens (pc_limits p) prompt"
    and se: "s < e" "e \<le> length prompt"
  shows "prefill_piece be p prompt s e (state (take s prompt)) =
    Inr \<lparr>pp_model_id = pc_model_id p, pp_limits = pc_limits p, pp_tokens = take e prompt, pp_cache = state (take e prompt), pp_logits = out (take e prompt)\<rparr>"
proof -
  note C = c [unfolded causal_def]
  have "valid_tokens (pc_limits p) (take s prompt @ take (e - s) (drop s prompt))"
    using valid_tokens_take [OF v] se by (simp add: take_drop_piece)
  then have f: "be_forward be (take (e - s) (drop s prompt)) (state (take s prompt)) = (Inr (out (take e prompt)), state (take e prompt))"
    using C se by (auto simp: take_drop_piece)
  have "take e prompt \<noteq> []" using se by auto
  then show ?thesis using C id se f by (simp add: prefill_piece_def pp_validate_def starts_with_def ok_then_def)
qed

subsection \<open>Payloads and files\<close>

text \<open>What the serialization, the record of a generation and the tensor data promise: nothing is lost.\<close>

definition lossless :: "('c, 'l, 'i) backend \<Rightarrow> model_limits \<Rightarrow> bool" where
  "lossless be limits \<longleftrightarrow> (\<forall>pl bs. be_encode be pl = Inr bs \<longrightarrow> be_decode be bs = Some pl) \<and>
     (\<forall>c id' i. be_capture_generation be c id' = Inr i \<longrightarrow> be_restore_generation be i id' (be_position be c) = Inr c) \<and>
     (\<forall>l d. be_into_data be l = Inr d \<longrightarrow> be_dims be l = (1, 1, ml_vocab_size limits) \<longrightarrow> be_load be d = l \<and>
        td_shape d = [1, 1, ml_vocab_size limits] \<and> td_is_float d \<and>
        umul (ml_vocab_size limits) (td_element_size d) = Some (length (td_bytes d)))"

text \<open>The format delimits itself, as MessagePack does: an encoding that is cut off, or nothing at all, is not decoded.\<close>

definition self_delimiting :: "('c, 'l, 'i) backend \<Rightarrow> bool" where
  "self_delimiting be \<longleftrightarrow> be_decode be [] = None \<and> (\<forall>pl bs cs. be_encode be pl = Inr bs \<longrightarrow> strict_prefix cs bs \<longrightarrow> be_decode be cs = None)"

text \<open>
  What the calls of the file system do to the contents of its files: a file that is read is unchanged, removing removes at most the
  file, a new file is empty, and a file that is written holds all or, when the call fails, a first part of the bytes.
\<close>

definition file_system :: "'w disk_io \<Rightarrow> ('w \<Rightarrow> path \<Rightarrow> bytes option) \<Rightarrow> bool" where
  "file_system io files \<longleftrightarrow>
     (\<forall>path w w' ok. io_remove io path w = (w', ok) \<longrightarrow> files w' = files w \<or> files w' = (files w)(path := None)) \<and>
     (\<forall>path w w' content. io_read io path w = (w', content) \<longrightarrow> files w' = files w \<and> (\<forall>bs. content = Some bs \<longrightarrow> files w path = Some bs)) \<and>
     (\<forall>path w w' made. io_create_new io path w = (w', made) \<longrightarrow> files w' = (if made = Created then (files w)(path \<mapsto> []) else files w)) \<and>
     (\<forall>path bs w w' ok. io_write io path bs w = (w', ok) \<longrightarrow> files w' = files w \<and> \<not> ok \<or>
        (\<exists>cs. prefix cs bs \<and> (ok \<longrightarrow> cs = bs) \<and> files w' = (files w)(path \<mapsto> cs)))"

text \<open>
  A complete prompt, which is what the model computes when it is one of this model; and bytes that a process has written of
  such a prompt, all of them or a first part.
\<close>

definition complete_prompt :: "('c, 'l, 'i) backend \<Rightarrow> string \<Rightarrow> model_limits \<Rightarrow> (token list \<Rightarrow> 'c) \<Rightarrow> (token list \<Rightarrow> 'l) \<Rightarrow> ('c, 'l) prefilled_prompt \<Rightarrow> bool" where
  "complete_prompt be model_id limits state out r \<longleftrightarrow> pp_validate be r (pp_model_id r) (pp_limits r) (pp_tokens r) = Inr () \<and>
     be_position be (pp_cache r) = length (pp_tokens r) \<and> (pp_model_id r = model_id \<and> pp_limits r = limits \<longrightarrow> honest state out r)"

definition written :: "('c, 'l, 'i) backend \<Rightarrow> string \<Rightarrow> model_limits \<Rightarrow> (token list \<Rightarrow> 'c) \<Rightarrow> (token list \<Rightarrow> 'l) \<Rightarrow> bytes \<Rightarrow> bool" where
  "written be model_id limits state out bs \<longleftrightarrow> bs = [] \<or>
     (\<exists>r full. complete_prompt be model_id limits state out r \<and> capture be r = Inr full \<and> prefix bs full)"

lemma capture_restore:
  assumes "lossless be limits" "pp_validate be r (pp_model_id r) (pp_limits r) (pp_tokens r) = Inr ()" "be_position be (pp_cache r) = length (pp_tokens r)"
    and "capture be r = Inr bs"
  shows "be_decode be bs \<noteq> None" "restore be bs model_id limits = Inr r' \<Longrightarrow> r' = r \<and> pp_model_id r = model_id \<and> pp_limits r = limits"
    "pp_model_id r = model_id \<Longrightarrow> pp_limits r = limits \<Longrightarrow> valid_tokens limits (pp_tokens r) \<Longrightarrow> restore be bs model_id limits = Inr r"
proof -
  obtain item logits where c: "be_capture_generation be (pp_cache r) (pp_model_id r) = Inr item" "be_into_data be (pp_logits r) = Inr logits"
    "be_encode be \<lparr>pl_version = 1, pl_model_id = pp_model_id r, pl_limits = pp_limits r, pl_tokens = pp_tokens r, pl_item = item, pl_logits = logits\<rparr> = Inr bs"
    using assms(4) by (auto simp: capture_def split: sum.splits)
  note L = assms(1) [unfolded lossless_def]
  have d: "be_decode be bs = Some \<lparr>pl_version = 1, pl_model_id = pp_model_id r, pl_limits = pp_limits r, pl_tokens = pp_tokens r, pl_item = item, pl_logits = logits\<rparr>"
    using L c(3) by blast
  then show "be_decode be bs \<noteq> None" by simp
  have g: "be_restore_generation be item (pp_model_id r) (length (pp_tokens r)) = Inr (pp_cache r)" using L c(1) assms(3) by metis
  have dims: "be_dims be (pp_logits r) = (1, 1, ml_vocab_size (pp_limits r))" using assms(2) by (auto simp: pp_validate_def split: prod.splits if_splits)
  have l: "be_load be logits = pp_logits r" "td_shape logits = [1, 1, ml_vocab_size limits]" "td_is_float logits"
    "umul (ml_vocab_size limits) (td_element_size logits) = Some (length (td_bytes logits))" if "pp_limits r = limits" using L c(2) dims that by blast+
  have res: "restore be bs model_id limits = Inr r" if m: "pp_model_id r = model_id" "pp_limits r = limits" "valid_tokens limits (pp_tokens r)"
  proof -
    let ?r = "\<lparr>pp_model_id = pp_model_id r, pp_limits = limits, pp_tokens = pp_tokens r, pp_cache = pp_cache r, pp_logits = pp_logits r\<rparr>"
    have eta: "?r = r" using m by (cases r) simp
    have "restore be bs model_id limits = ok_then (pp_validate be ?r model_id limits (pp_tokens r)) (\<lambda>_. Inr ?r)"
      using m d g l by (simp add: restore_def Let_def del: umul_Some)
    then show ?thesis unfolding eta using m assms(2) by (simp add: ok_then_def)
  qed
  then show "restore be bs model_id limits = Inr r" if "pp_model_id r = model_id" "pp_limits r = limits" "valid_tokens limits (pp_tokens r)"
    using that by blast
  show "r' = r \<and> pp_model_id r = model_id \<and> pp_limits r = limits" if r': "restore be bs model_id limits = Inr r'"
  proof -
    have m: "pp_model_id r = model_id" "pp_limits r = limits" "valid_tokens limits (pp_tokens r)" using r' d by (auto simp: restore_def Let_def split: if_splits)
    then show ?thesis using r' res by simp
  qed
qed

lemma written_restored:
  assumes "lossless be limits" "self_delimiting be" "written be model_id limits state out bs" "restore be bs model_id limits = Inr r"
  shows "complete_prompt be model_id limits state out r \<and> pp_model_id r = model_id \<and> pp_limits r = limits"
proof -
  have dec: "be_decode be bs \<noteq> None" using assms(4) by (auto simp: restore_def split: option.splits)
  then have "bs \<noteq> []" using assms(2) by (auto simp: self_delimiting_def)
  then obtain r0 full where r0: "complete_prompt be model_id limits state out r0" "capture be r0 = Inr full" "prefix bs full"
    using assms(3) by (auto simp: written_def)
  have "\<exists>pl. be_encode be pl = Inr full" using r0(2) by (auto simp: capture_def split: sum.splits)
  then have "bs = full" using dec assms(2) r0(3) unfolding self_delimiting_def by (metis strict_prefix_def)
  then have "r = r0 \<and> pp_model_id r0 = model_id \<and> pp_limits r0 = limits"
    using capture_restore(2) [OF assms(1) _ _ r0(2) [folded \<open>bs = full\<close>] assms(4)] r0(1) by (simp add: complete_prompt_def)
  then show ?thesis using r0(1) by simp
qed

subsection \<open>Where prompts come from\<close>

text \<open>
  A cache that is used while the directory holds only what processes have written of prompts the model computes, in whole or in
  part.  Between the calls files may disappear and appear.
\<close>

definition written_files :: "('c, 'l, 'i) backend \<Rightarrow> string \<Rightarrow> model_limits \<Rightarrow> (token list \<Rightarrow> 'c) \<Rightarrow> (token list \<Rightarrow> 'l) \<Rightarrow> (path \<Rightarrow> bytes option) \<Rightarrow> bool" where
  "written_files be model_id limits state out fs \<longleftrightarrow> (\<forall>path bs. fs path = Some bs \<longrightarrow> written be model_id limits state out bs)"

inductive cache_use :: "('c, 'l, 'i) backend \<Rightarrow> 'w disk_io \<Rightarrow> ('w \<Rightarrow> bool) \<Rightarrow> (('c, 'l) prefilled_prompt \<Rightarrow> bool) \<Rightarrow> string \<Rightarrow> model_limits \<Rightarrow>
    ('c, 'l) tiered_cache \<Rightarrow> bool" for be io sound good model_id limits where
  Open: "Suc (cc_disk_bytes config) < usize_lim \<Longrightarrow> (case listing of Inr files \<Rightarrow> length files < usize_lim | Inl _ \<Rightarrow> True) \<Longrightarrow> sound w \<Longrightarrow>
    cache_new join_model io listing model_id limits config w = Some (w', Inr p) \<Longrightarrow> cache_use be io sound good model_id limits p"
| Insert: "cache_use be io sound good model_id limits p \<Longrightarrow> cache_room 1 p \<Longrightarrow> good pp \<Longrightarrow> sound w \<Longrightarrow>
    cache_insert be io pp p w = Some (p', w', v) \<Longrightarrow> cache_use be io sound good model_id limits p'"
| Look: "cache_use be io sound good model_id limits p \<Longrightarrow> lookup_room prompt p \<Longrightarrow> sound w \<Longrightarrow> lookup be io prompt p w = Some (p', w', v') \<Longrightarrow>
    cache_use be io sound good model_id limits p'"
| Fill: "cache_use be io sound good model_id limits p \<Longrightarrow> lookup_room prompt p \<Longrightarrow> cache_room (Suc (length prompt)) p \<Longrightarrow>
    length prompt < usize_lim \<Longrightarrow> sound w \<Longrightarrow> prefill be io prompt p w = Some (p', w', v'') \<Longrightarrow> cache_use be io sound good model_id limits p'"

lemma cache_use_reach: "cache_use be io sound good model_id limits p \<Longrightarrow> cache_reach be io (\<lambda>_. True) model_id limits p"
  by (induction rule: cache_use.induct)
    (blast intro: cache_reach.Opened cache_reach.Inserted [OF _ _ TrueI] cache_reach.Looked cache_reach.Filled)+

definition own_prompt :: "('c, 'l, 'i) backend \<Rightarrow> string \<Rightarrow> model_limits \<Rightarrow> (token list \<Rightarrow> 'c) \<Rightarrow> (token list \<Rightarrow> 'l) \<Rightarrow> ('c, 'l) prefilled_prompt \<Rightarrow> bool" where
  "own_prompt be model_id limits state out r \<longleftrightarrow> complete_prompt be model_id limits state out r \<and> pp_model_id r = model_id \<and> pp_limits r = limits"

definition trusted :: "('c, 'l, 'i) backend \<Rightarrow> string \<Rightarrow> model_limits \<Rightarrow> (token list \<Rightarrow> 'c) \<Rightarrow> (token list \<Rightarrow> 'l) \<Rightarrow> ('c, 'l) tiered_cache \<Rightarrow> bool" where
  "trusted be model_id limits state out p \<longleftrightarrow> om_ok (pc_entries p) \<and> pc_model_id p = model_id \<and> pc_limits p = limits \<and>
     (\<forall>k e. map_of (pc_entries p) k = Some e \<longrightarrow>
       (case en_tier e of Device pp \<Rightarrow> own_prompt be model_id limits state out pp | Host bs \<Rightarrow> written be model_id limits state out bs | Disk _ _ \<Rightarrow> True))"

lemma file_systemD:
  assumes "file_system io files"
  shows "io_remove io path w = (w', ok) \<Longrightarrow> files w' = files w \<or> files w' = (files w)(path := None)"
    "io_read io path w = (w', content) \<Longrightarrow> files w' = files w \<and> (\<forall>bs. content = Some bs \<longrightarrow> files w path = Some bs)"
    "io_create_new io path w = (w', made) \<Longrightarrow> files w' = (if made = Created then (files w)(path \<mapsto> []) else files w)"
    "io_write io path bs w = (w', ok) \<Longrightarrow> files w' = files w \<or> (\<exists>cs. prefix cs bs \<and> files w' = (files w)(path \<mapsto> cs))"
  using assms unfolding file_system_def by blast+

lemma written_prefix: "written be model_id limits state out bs \<Longrightarrow> prefix cs bs \<Longrightarrow> written be model_id limits state out cs"
  unfolding written_def using prefix_order.trans by auto

lemma trusted_laws:
  assumes fs: "file_system io files" and lossless: "lossless be limits" and self: "self_delimiting be"
  shows "cache_laws be io model_id limits (own_prompt be model_id limits state out) (written be model_id limits state out)
    (\<lambda>p w. trusted be model_id limits state out p \<and> written_files be model_id limits state out (files w))"
proof (unfold_locales, goal_cases)
  case (3 p w path w' ok)
  then show ?case using file_systemD(1) [OF fs 3(2)] by (auto simp: written_files_def split: if_splits)
next
  case (4 p w path w' content)
  then show ?case using file_systemD(2) [OF fs 4(2)] by simp
next
  case (5 p w path w' bs)
  then show ?case using file_systemD(2) [OF fs 5(2)] by (auto simp: written_files_def)
next
  case (6 p w path w' made)
  then show ?case using file_systemD(3) [OF fs 6(2)] by (auto simp: written_files_def written_def split: if_splits)
next
  case (7 p w bs path w' ok)
  then show ?case using file_systemD(4) [OF fs 7(3)] written_prefix [OF 7(2)] by (auto simp: written_files_def split: if_splits)
next
  case (17 p w pp bs)
  then show ?case by (auto simp: written_def own_prompt_def)
next
  case (18 p w bs r)
  then show ?case using written_restored [OF lossless self 18(2,3)] by (simp add: own_prompt_def)
qed (auto simp: trusted_def set_entry_def drop_entry_def split: if_splits tier.splits)

text \<open>A prefill that starts from trusted entries ends in them, and returns what the model computes.\<close>

lemma trusted_prefill:
  fixes be :: "('c, 'l, 'i) backend"
  assumes names: "names_left io" and fs: "file_system io files" and lossless: "lossless be limits" and self: "self_delimiting be"
    and causal: "causal be limits state out" and inv: "reach_inv be (\<lambda>_. True) model_id limits p"
    and trusted: "trusted be model_id limits state out p" "written_files be model_id limits state out (files w)"
    and room: "lookup_room prompt p" "cache_room (Suc (length prompt)) p" and valid: "valid_tokens limits prompt" and len: "length prompt < usize_lim"
  shows "\<exists>p' w'. prefill be io prompt p w = Some (p', w', Inr \<lparr>pp_model_id = model_id, pp_limits = limits, pp_tokens = prompt,
      pp_cache = state prompt, pp_logits = out prompt\<rparr>) \<and> trusted be model_id limits state out p'"
proof -
  let ?at = "\<lambda>s c. c = state (take s prompt)"
  note laws = trusted_laws [OF fs lossless self, of model_id state out]
  have I: "cache_inv be (\<lambda>_. True) p" "model_id \<noteq> []" "pc_model_id p = model_id" "pc_limits p = limits" using inv by (simp_all add: reach_inv_def)
  have piece: "prefill_piece be q prompt s e (state (take s prompt)) = Inr \<lparr>pp_model_id = model_id, pp_limits = limits, pp_tokens = take e prompt,
      pp_cache = state (take e prompt), pp_logits = out (take e prompt)\<rparr>" if "pc_model_id q = model_id" "pc_limits q = limits" "s < e" "e \<le> length prompt" for q :: "('c, 'l) tiered_cache" and s e
    using causal_piece [of be q state out prompt s e] causal that I(2) valid by simp
  have pieces: "cache_laws.pieces_ok be model_id limits (own_prompt be model_id limits state out) ?at prompt"
    unfolding cache_laws.pieces_ok_def [OF laws]
  proof (intro allI impI)
    fix q :: "('c, 'l) tiered_cache" and s e c r
    assume q: "pc_model_id q = model_id" "pc_limits q = limits" "s < e" "e \<le> length prompt" "c = state (take s prompt)" and r: "prefill_piece be q prompt s e c = Inr r"
    have "pp_validate be r model_id limits (pp_tokens r) = Inr ()"
      using prefill_piece_Inr(1,2) [OF r] q(1,2) by (auto simp: pp_validate_def starts_with_def split: prod.splits if_splits)
    then show "own_prompt be model_id limits state out r \<and> pp_cache r = state (take e prompt)"
      using piece [OF q(1-4)] r q prefill_piece_Inr(1,3) [OF r] by (auto simp: own_prompt_def complete_prompt_def honest_def)
  qed
  have found: "\<exists>r. v1 = Inr r \<and> (\<forall>pp. r = Some pp \<longrightarrow> own_prompt be model_id limits state out pp \<longrightarrow> pp_cache pp = state (take (length (pp_tokens pp)) prompt))"
    if l: "lookup be io prompt p w = Some (p1, w1, v1)" for p1 w1 v1
  proof -
    obtain r where r: "v1 = Inr r" "found be (\<lambda>_. True) prompt p p1 r" using lookup_ok [OF I(1) _ room(1), of io w] l by auto
    have "take (length (pp_tokens pp)) prompt = pp_tokens pp" if "r = Some pp" for pp
      using r(2) that by (auto simp: found_def pp_validate_def starts_with_def split: prod.splits if_splits)
    then show ?thesis using r(1) by (auto simp: own_prompt_def complete_prompt_def honest_def)
  qed
  obtain p' w' v where run: "prefill be io prompt p w = Some (p', w', v)" "filled be (\<lambda>_. True) (\<lambda>_ _. True) prompt p v"
    using prefill_inv [OF I(1) names room len, of w] valid I(4) by auto
  have "be_new_cache be = state (take 0 prompt)" using causal by (simp add: causal_def)
  then have K: "(trusted be model_id limits state out p' \<and> written_files be model_id limits state out (files w')) \<and>
    (case v of Inr r \<Rightarrow> own_prompt be model_id limits state out r
     | Inl x \<Rightarrow> x \<in> {InvalidPrompt, NoCompletedState} \<or> cache_laws.piece_fails be model_id limits ?at prompt x)"
    using found by (rule cache_laws.prefill_keeps [OF laws run(1) conjI [OF trusted] len pieces])
  show ?thesis
  proof (cases v)
    case (Inl x)
    then have "x \<in> {ModelError, PrefixDiffers, PrefillIncomplete}" using run(2) by (auto simp: filled_def dest!: prefill_piece_Inl)
    moreover have "\<not> cache_laws.piece_fails be model_id limits ?at prompt x"
      unfolding cache_laws.piece_fails_def [OF laws] using piece by force
    ultimately show ?thesis using K Inl by auto
  next
    case (Inr r)
    then have "own_prompt be model_id limits state out r" "pp_tokens r = prompt" using K run(2) by (simp_all add: filled_def)
    then have "r = \<lparr>pp_model_id = model_id, pp_limits = limits, pp_tokens = prompt, pp_cache = state prompt, pp_logits = out prompt\<rparr>"
      by (cases r) (simp add: own_prompt_def complete_prompt_def honest_def)
    then show ?thesis using run(1) Inr K by simp
  qed
qed

lemma cache_use_trusted:
  assumes names: "names_left io" and fs: "file_system io files" and lossless: "lossless be limits" and self: "self_delimiting be"
    and causal: "causal be limits state out"
    and use: "cache_use be io (\<lambda>w. written_files be model_id limits state out (files w)) (honest state out) model_id limits p"
  shows "trusted be model_id limits state out p"
  using use
proof (induction rule: cache_use.induct)
  case (Open config listing w join_model w' p)
  note laws = trusted_laws [OF fs lossless self, of model_id state out]
  show ?case using cache_laws.cache_new_keeps [OF laws Open.hyps(4)] Open.hyps(3) by (simp add: trusted_def om_ok_def)
next
  case (Insert p pp w p' w' v)
  note laws = trusted_laws [OF fs lossless self, of model_id state out]
  have id: "pc_model_id p = model_id" "pc_limits p = limits" using Insert.IH by (simp_all add: trusted_def)
  show ?case
  proof (cases "pp_validate be pp model_id limits (pp_tokens pp) = Inr () \<and> be_position be (pp_cache pp) = length (pp_tokens pp)")
    case True
    then have "own_prompt be model_id limits state out pp"
      using Insert.hyps(3) by (auto simp: own_prompt_def complete_prompt_def pp_validate_def split: prod.splits if_splits)
    then show ?thesis using cache_laws.cache_insert_keeps [OF laws conjI [OF Insert.IH Insert.hyps(4)] _ Insert.hyps(5)] by blast
  next
    case False
    then have "p' = p" using Insert.hyps(5) id by (auto simp: cache_insert_def split: sum.splits if_splits)
    then show ?thesis using Insert.IH by simp
  qed
next
  case (Look p prompt w p' w' v')
  note laws = trusted_laws [OF fs lossless self, of model_id state out]
  show ?case
    using cache_laws.lookup_keeps [OF laws Look.hyps(4) conjI [OF Look.IH Look.hyps(3)]] by (simp add: cache_laws.lookup_kept_def [OF laws])
next
  case (Fill p prompt w p' w' v'')
  have inv: "reach_inv be (\<lambda>_. True) model_id limits p" by (rule cache_reach_inv [OF cache_use_reach [OF Fill.hyps(1)] names])
  show ?case
  proof (cases "valid_tokens limits prompt")
    case True
    then show ?thesis
      using trusted_prefill [OF names fs lossless self causal inv Fill.IH Fill.hyps(5,2,3) True Fill.hyps(4)] Fill.hyps(6) by auto
  next
    case False
    then have "p' = p" using Fill.hyps(6) inv by (simp add: prefill_def reach_inv_def)
    then show ?thesis using Fill.IH by simp
  qed
qed

end
