(* ===== verification/Prefix_Tiers_Demo.thy ===== *)
theory Prefix_Tiers_Demo
  imports Prefix_Tiers_Run "HOL-Library.Code_Target_Nat"
begin

text \<open>
  A small model and a directory that holds one file, on which the properties of the tiered prefix
  cache are shown to apply: the state of the model is its tokens, its logits the last of them.
\<close>

definition small_limits :: model_limits where
  "small_limits = \<lparr>ml_vocab_size = 4, ml_max_sequence_length = 8\<rparr>"

definition small_out :: "token list \<Rightarrow> token" where
  "small_out xs = (if xs = [] then 0 else last xs)"

definition small_data :: "nat \<Rightarrow> tensor_data" where
  "small_data n = \<lparr>td_shape = [1, 1, 4], td_is_float = True, td_element_size = 1, td_bytes = replicate 4 n\<rparr>"

text \<open>A payload is written as its tokens and its state, each after their number, and the value of its logits.\<close>

definition small_payload :: "bytes \<Rightarrow> bytes \<Rightarrow> nat \<Rightarrow> token list payload" where
  "small_payload ts is l = \<lparr>pl_version = 1, pl_model_id = ''m'', pl_limits = small_limits, pl_tokens = map int ts, pl_item = map int is,
     pl_logits = small_data l\<rparr>"

definition small_bytes :: "bytes \<Rightarrow> bytes \<Rightarrow> nat \<Rightarrow> bytes" where
  "small_bytes ts is l = length ts # ts @ length is # is @ [l]"

definition small_split :: "bytes \<Rightarrow> (bytes \<times> bytes \<times> nat) option" where
  "small_split bs =
     (case bs of [] \<Rightarrow> None | n # xs \<Rightarrow>
       (case drop n xs of [] \<Rightarrow> None | m # ys \<Rightarrow> if length ys = Suc m then Some (take n xs, take m ys, last ys) else None))"

definition small_encode :: "token list payload \<Rightarrow> unit + bytes" where
  "small_encode pl =
     (let ts = map nat (pl_tokens pl); is = map nat (pl_item pl); l = hd (td_bytes (pl_logits pl)) in
      if pl = small_payload ts is l then Inr (small_bytes ts is l) else Inl ())"

definition small_be :: "(token list, token, token list) backend" where
  "small_be = \<lparr>be_dims = \<lambda>_. (1, 1, 4), be_on_device = \<lambda>_. True, be_position = length, be_new_cache = [],
     be_forward = \<lambda>ys c. (Inr (small_out (c @ ys)), c @ ys), be_sync = Inr (),
     be_capture_generation = \<lambda>c _. Inr c, be_into_data = \<lambda>l. if 0 \<le> l then Inr (small_data (nat l)) else Inl (),
     be_encode = small_encode, be_decode = \<lambda>bs. map_option (\<lambda>(ts, is, l). small_payload ts is l) (small_split bs),
     be_restore_generation = \<lambda>i _ n. if length i = n then Inr i else Inl (),
     be_load = \<lambda>td. int (hd (td_bytes td))\<rparr>"

definition small_io :: "(path \<times> bytes) option disk_io" where
  "small_io = \<lparr>io_path = \<lambda>n. replicate n (CHR ''a''),
     io_remove = \<lambda>p w. (case w of Some (q, b) \<Rightarrow> if q = p then (None, True) else (w, False) | None \<Rightarrow> (w, False)),
     io_read = \<lambda>p w. (w, case w of Some (q, b) \<Rightarrow> if q = p then Some b else None | None \<Rightarrow> None),
     io_create_new = \<lambda>p w. (case w of Some (q, b) \<Rightarrow> (w, if q = p then AlreadyExists else CreateFailed) | None \<Rightarrow> (Some (p, []), Created)),
     io_write = \<lambda>p bs w. (case w of Some (q, b) \<Rightarrow> if q = p then (Some (p, bs), True) else (w, False) | None \<Rightarrow> (w, False))\<rparr>"

definition small_config :: prefix_cache_config where
  "small_config = \<lparr>cc_block_tokens = 2, cc_device_entries = 1, cc_host_bytes = 7, cc_disk_directory = Some ''d'', cc_disk_bytes = 9\<rparr>"

definition small_prompt :: "token list \<Rightarrow> (token list, token) prefilled_prompt" where
  "small_prompt xs = \<lparr>pp_model_id = ''m'', pp_limits = small_limits, pp_tokens = xs, pp_cache = xs, pp_logits = small_out xs\<rparr>"

definition small_cache :: "(token list \<times> (token list, token) tier_entry) list \<Rightarrow> nat \<Rightarrow> prefix_cache_stats \<Rightarrow> (token list, token) tiered_cache" where
  "small_cache es tick stats = \<lparr>pc_model_id = ''m'', pc_limits = small_limits, pc_config = small_config, pc_entries = es, pc_tick = tick, pc_stats = stats\<rparr>"

text \<open>The cache as it is opened, after the prompt 1 2 3, and after the prompt 1 2 0.\<close>

definition small_p0 :: "(token list, token) tiered_cache" where
  "small_p0 = small_cache [] 0 \<lparr>st_lookups = 0, st_hits = 0, st_reused_tokens = 0, st_device_entries = 0, st_host_bytes = 0, st_disk_bytes = 0\<rparr>"

definition small_p1 :: "(token list, token) tiered_cache" where
  "small_p1 = small_cache [([1, 2], \<lparr>en_tier = Host [2, 1, 2, 2, 1, 2, 2], en_used = 2\<rparr>), ([1, 2, 3], \<lparr>en_tier = Device (small_prompt [1, 2, 3]), en_used = 3\<rparr>)]
     3 \<lparr>st_lookups = 1, st_hits = 0, st_reused_tokens = 0, st_device_entries = 1, st_host_bytes = 7, st_disk_bytes = 0\<rparr>"

definition small_p2 :: "(token list, token) tiered_cache" where
  "small_p2 = small_cache [([1, 2], \<lparr>en_tier = Host [2, 1, 2, 2, 1, 2, 2], en_used = 4\<rparr>), ([1, 2, 0], \<lparr>en_tier = Device (small_prompt [1, 2, 0]), en_used = 5\<rparr>),
       ([1, 2, 3], \<lparr>en_tier = Disk ''aaaaa'' 9, en_used = 3\<rparr>)]
     5 \<lparr>st_lookups = 2, st_hits = 1, st_reused_tokens = 2, st_device_entries = 1, st_host_bytes = 7, st_disk_bytes = 9\<rparr>"

text \<open>The cache whose file has disappeared, and after the next prompt.\<close>

definition small_p3 :: "(token list, token) tiered_cache" where
  "small_p3 = small_cache [([1, 2], \<lparr>en_tier = Host [2, 1, 2, 2, 1, 2, 2], en_used = 6\<rparr>), ([1, 2, 0], \<lparr>en_tier = Device (small_prompt [1, 2, 0]), en_used = 5\<rparr>)]
     6 \<lparr>st_lookups = 3, st_hits = 2, st_reused_tokens = 4, st_device_entries = 1, st_host_bytes = 7, st_disk_bytes = 9\<rparr>"

definition small_p4 :: "(token list, token) tiered_cache" where
  "small_p4 = small_cache [([1, 2], \<lparr>en_tier = Host [2, 1, 2, 2, 1, 2, 2], en_used = 6\<rparr>), ([3], \<lparr>en_tier = Device (small_prompt [3]), en_used = 7\<rparr>)]
     7 \<lparr>st_lookups = 3, st_hits = 2, st_reused_tokens = 4, st_device_entries = 1, st_host_bytes = 7, st_disk_bytes = 9\<rparr>"

text \<open>The directory after the second prompt.\<close>

definition small_world :: "(path \<times> bytes) option" where
  "small_world = Some (''aaaaa'', [3, 1, 2, 3, 3, 1, 2, 3, 3])"

lemmas small_defs = small_p0_def small_p1_def small_p2_def small_p3_def small_p4_def small_cache_def small_prompt_def small_config_def small_limits_def small_be_def small_io_def small_out_def

text \<open>The loops over files, in a form that is evaluated one step at a time.\<close>

lemma evict_loop_code [code]: "evict_loop io n self w =
  (if cc_disk_bytes (pc_config self) < saturating_add (st_disk_bytes (pc_stats self)) n
   then let r = evict_disk io self w in
     if Option.is_none r then None
     else if isl (snd (snd (the r))) then r
     else evict_loop io n (fst (the r)) (fst (snd (the r)))
   else Some (self, w, Inr ()))"
  by (subst evict_loop.simps) (auto simp: Let_def Option.is_none_def split: option.splits sum.splits)

lemma create_loop_code [code]: "create_loop io serial w =
  (let r = io_create_new io (io_path io serial) w in
   if snd r = Created then Some (fst r, Some (io_path io serial))
   else if snd r = AlreadyExists then (if serial + 1 < usize_lim then create_loop io (serial + 1) (fst r) else None)
   else Some (fst r, None))"
  by (subst create_loop.simps) (auto simp: Let_def split: prod.splits create_result.splits simp del: create_loop.simps)

declare create_loop.simps [simp del]

lemma small_opened: "cache_new (\<lambda>d _. (d, True)) small_io (Inr []) ''m'' small_limits small_config None = Some (None, Inr small_p0)"
  by (simp add: cache_new_def reopen_disk_def cache_then_def evict_loop.simps saturating_add_def small_defs)

lemma small_fill1: "prefill small_be small_io [1, 2, 3] small_p0 None = Some (small_p1, None, Inr (small_prompt [1, 2, 3]))"
  by code_simp

lemma small_fill2: "prefill small_be small_io [1, 2, 0] small_p1 None = Some (small_p2, small_world, Inr (small_prompt [1, 2, 0]))"
  by code_simp

lemma small_room:
  "lookup_room [1, 2, 3] small_p0" "cache_room (Suc (length [1, 2, 3 :: token])) small_p0" "lookup_room [1, 2, 0] small_p1" "cache_room (Suc (length [1, 2, 0 :: token])) small_p1"
  "lookup_room [1, 2, 3] small_p2" "cache_room (Suc (length [1, 2, 3 :: token])) small_p2" "cache_room 1 small_p2"
  "cache_room 1 small_p3"
  by (simp_all add: lookup_room_def cache_room_def usize_lim_def small_defs)

lemma small_valid: "valid_tokens small_limits [1, 2, 3]" "length [1, 2, 3 :: token] < usize_lim"
  by (simp_all add: valid_tokens_def small_limits_def usize_lim_def)

lemma small_names: "names_left small_io"
proof -
  have fresh: "replicate n (CHR ''a'') \<noteq> CHR ''a'' # replicate n (CHR ''a'')" for n by (metis impossible_Cons order.refl)
  have "create_loop small_io n w \<noteq> None" if n: "2 * n < usize_lim" for n w
  proof (cases w)
    case None
    then show ?thesis by (subst create_loop_code) (simp add: small_io_def)
  next
    case (Some f)
    obtain q b where f: "f = (q, b)" by (cases f)
    have stop: "create_loop small_io (Suc n) (Some (io_path small_io n, b)) = Some (Some (io_path small_io n, b), None)"
      using fresh [of n] by (subst create_loop_code) (simp add: small_io_def)
    have "Suc n < usize_lim" using n by (simp add: usize_lim_def)
    then show ?thesis using stop Some f by (subst create_loop_code) (auto simp: small_io_def)
  qed
  then show ?thesis by (simp add: names_left_def)
qed

lemma small_causal: "causal small_be small_limits (\<lambda>xs. xs) small_out"
  by (simp add: causal_def small_be_def small_limits_def)

lemma small_split_bytes: "small_split (small_bytes ts is l) = Some (ts, is, l)"
  by (simp add: small_split_def small_bytes_def)

lemma small_split_Some:
  assumes "small_split bs = Some (ts, is, l)"
  shows "bs = small_bytes ts is l"
proof -
  obtain n xs m ys where bs: "bs = n # xs" "drop n xs = m # ys" "length ys = Suc m" "ts = take n xs" "is = take m ys" "l = last ys"
    using assms by (auto simp: small_split_def split: list.splits if_splits)
  have "n < length xs" using bs(2) by (metis drop_all leI list.distinct(1))
  then have "length ts = n" "length is = m" using bs(3-5) by simp_all
  moreover have "xs = ts @ m # ys" using bs(2,4) by (metis append_take_drop_id)
  moreover have "ys = is @ [l]" using bs(3,5,6) by (metis append_butlast_last_id butlast_conv_take diff_Suc_1 length_0_conv nat.distinct(1))
  ultimately show ?thesis unfolding bs(1) small_bytes_def by simp
qed

lemma small_bytes_prefix: "prefix (small_bytes ts' is' l') (small_bytes ts is l) \<Longrightarrow> small_bytes ts' is' l' = small_bytes ts is l"
  by (auto simp: small_bytes_def prefix_def)

lemma small_self_delimiting: "self_delimiting small_be"
proof -
  have "small_split cs = None" if "strict_prefix cs (small_bytes ts is l)" for cs ts "is" l
  proof (rule ccontr)
    assume "small_split cs \<noteq> None"
    then obtain ts' is' l' where "small_split cs = Some (ts', is', l')" by auto
    then have "cs = small_bytes ts' is' l'" by (rule small_split_Some)
    then show False using that small_bytes_prefix by (auto simp: strict_prefix_def)
  qed
  moreover have "small_split [] = None" by (simp add: small_split_def)
  ultimately show ?thesis by (auto simp: self_delimiting_def small_be_def small_encode_def Let_def split: if_splits)
qed

lemma small_lossless: "lossless small_be small_limits"
proof -
  have "map_option (\<lambda>(ts, is, l). small_payload ts is l) (small_split bs) = Some pl" if "small_encode pl = Inr bs" for pl bs
    using that by (auto simp: small_encode_def Let_def small_split_bytes split: if_splits)
  then show ?thesis by (auto simp: lossless_def small_be_def small_data_def small_limits_def usize_lim_def split: if_splits)
qed

definition small_files :: "(path \<times> bytes) option \<Rightarrow> path \<Rightarrow> bytes option" where
  "small_files w = (case w of None \<Rightarrow> Map.empty | Some (q, b) \<Rightarrow> [q \<mapsto> b])"

lemma small_file_system: "file_system small_io small_files"
  by (auto simp: file_system_def small_io_def small_files_def split: option.splits if_splits)

text \<open>The file is what the process wrote of the prompt 1 2 3.\<close>

lemma small_written:
  "written_files small_be ''m'' small_limits (\<lambda>xs. xs) small_out (small_files None)"
  "written_files small_be ''m'' small_limits (\<lambda>xs. xs) small_out (small_files small_world)"
proof -
  have "complete_prompt small_be ''m'' small_limits (\<lambda>xs. xs) small_out (small_prompt [1, 2, 3])"
    by (simp add: complete_prompt_def honest_def pp_validate_def starts_with_def small_defs)
  moreover have "capture small_be (small_prompt [1, 2, 3]) = Inr [3, 1, 2, 3, 3, 1, 2, 3, 3]" by code_simp
  ultimately have "written small_be ''m'' small_limits (\<lambda>xs. xs) small_out [3, 1, 2, 3, 3, 1, 2, 3, 3]" unfolding written_def by blast
  then show "written_files small_be ''m'' small_limits (\<lambda>xs. xs) small_out (small_files small_world)"
    by (auto simp: written_files_def small_files_def small_world_def split: if_splits)
qed (simp add: written_files_def small_files_def)

lemma small_use:
  "cache_use small_be small_io (\<lambda>w. written_files small_be ''m'' small_limits (\<lambda>xs. xs) small_out (small_files w)) good ''m'' small_limits small_p2"
  (is "cache_use _ _ ?sound _ _ _ _")
proof -
  have "cache_use small_be small_io ?sound good ''m'' small_limits small_p0"
    by (rule cache_use.Open [where sound = ?sound and w = None, OF _ _ small_written(1) small_opened]) (simp_all add: small_config_def usize_lim_def)
  then have "cache_use small_be small_io ?sound good ''m'' small_limits small_p1"
    by (rule cache_use.Fill [where sound = ?sound and w = None, OF _ small_room(1,2) _ small_written(1) small_fill1]) (simp_all add: usize_lim_def)
  then show ?thesis
    by (rule cache_use.Fill [where sound = ?sound and w = None, OF _ small_room(3,4) _ small_written(1) small_fill2]) (simp_all add: usize_lim_def)
qed

lemma small_reach: "cache_reach small_be small_io (\<lambda>_. True) ''m'' small_limits small_p2"
  by (rule cache_use_reach [OF small_use])

end
