(* ===== verification/Prefix_Tiers_Props.thy ===== *)
theory Prefix_Tiers_Props
  imports Prefix_Tiers_Demo
begin

text \<open>
  The properties of the tiered prefix cache, for every behaviour of the file system and of the tensor
  backend that is not named in a hypothesis, each with an instance on the small model of
  \<open>Prefix_Tiers_Demo\<close>.
\<close>

subsection \<open>Filling through the cache\<close>

text \<open>
C31. Caching is transparent.  A cache is opened over any files, used for inserting prompts the model computed, looking up
and prefilling, and then prefills a valid prompt: the call returns exactly what the model computes of the
whole prompt in one piece on an empty state, whatever was cached, evicted, demoted, lost or failed to be read
or written.  The conditions are on the surroundings.  The model is causal: a piece run on the state of what
came before gives the state of the whole.  Serialization is lossless and delimits itself, so that an encoding cut off in a
failed write does not decode.  The file system keeps what is written, and the files the process finds when
it makes a call hold, in whole or in part, only what processes wrote of prompts they computed: the code has no
other protection against a file that decodes to a wrong state.
\<close>

theorem prefill_transparent:
  assumes "names_left io" "file_system io files" "lossless be limits" "self_delimiting be" "causal be limits state out"
    and "cache_use be io (\<lambda>w. written_files be model_id limits state out (files w)) (honest state out) model_id limits p"
    and "written_files be model_id limits state out (files w)"
    and "lookup_room prompt p" "cache_room (Suc (length prompt)) p" "valid_tokens limits prompt" "length prompt < usize_lim"
  shows "\<exists>p' w'. prefill be io prompt p w = Some (p', w', uncached_prefill be p prompt) \<and>
    uncached_prefill be p prompt = Inr \<lparr>pp_model_id = model_id, pp_limits = limits, pp_tokens = prompt,
      pp_cache = state prompt, pp_logits = out prompt\<rparr>"
proof -
  have inv: "reach_inv be (\<lambda>_. True) model_id limits p" by (rule cache_reach_inv [OF cache_use_reach [OF assms(6)] assms(1)])
  note H = trusted_prefill [OF assms(1-5) inv cache_use_trusted [OF assms(1-6)] assms(7-11)]
  have "be_new_cache be = state (take 0 prompt)" "0 < length prompt" using assms(5,10) by (auto simp: causal_def valid_tokens_def)
  then have "uncached_prefill be p prompt = Inr \<lparr>pp_model_id = model_id, pp_limits = limits, pp_tokens = prompt, pp_cache = state prompt, pp_logits = out prompt\<rparr>"
    using causal_piece [of be p state out prompt 0 "length prompt"] assms(5,10) inv by (simp add: uncached_prefill_def reach_inv_def)
  then show ?thesis using H by auto
qed

theorem prefill_transparent_witness:
  "\<exists>p' w'. prefill small_be small_io [1, 2, 3] small_p2 small_world = Some (p', w', uncached_prefill small_be small_p2 [1, 2, 3]) \<and>
    uncached_prefill small_be small_p2 [1, 2, 3] = Inr (small_prompt [1, 2, 3])"
  using prefill_transparent [OF small_names small_file_system small_lossless small_self_delimiting small_causal small_use small_written(2) small_room(5,6) small_valid]
  unfolding small_prompt_def .

text \<open>
C35. A prefill always returns, whatever the model, its payloads and the files do.  An invalid prompt is
refused without a change; otherwise the result covers all of the prompt and passes the check of the
cache, or it is the failure of a piece: the model's, a result of the wrong shape or an incomplete state.
\<close>

theorem prefill_outcome:
  assumes "names_left io" "cache_reach be io (\<lambda>_. True) model_id limits p" "lookup_room prompt p" "cache_room (Suc (length prompt)) p"
    and "length prompt < usize_lim"
  shows "\<exists>p' w' v. prefill be io prompt p w = Some (p', w', v) \<and> (\<not> valid_tokens limits prompt \<longrightarrow> p' = p \<and> w' = w \<and> v = Inl InvalidPrompt) \<and>
    (valid_tokens limits prompt \<longrightarrow> v \<in> Inl ` {ModelError, PrefixDiffers, PrefillIncomplete} \<or>
      (\<exists>r. v = Inr r \<and> pp_tokens r = prompt \<and> pp_validate be r model_id limits prompt = Inr ()))"
proof (cases "valid_tokens limits prompt")
  case True
  note I = cache_reach_inv [OF assms(2,1), unfolded reach_inv_def]
  obtain p' w' v where r: "prefill be io prompt p w = Some (p', w', v)" "filled be (\<lambda>_. True) (\<lambda>_ _. True) prompt p v"
    using prefill_inv [OF _ assms(1,3-5), of be w] I True by auto
  have "v \<in> Inl ` {ModelError, PrefixDiffers, PrefillIncomplete} \<or>
      (\<exists>r. v = Inr r \<and> pp_tokens r = prompt \<and> pp_validate be r model_id limits prompt = Inr ())"
  proof (cases v)
    case (Inl x)
    then have "x \<in> {ModelError, PrefixDiffers, PrefillIncomplete}" using r(2) by (auto simp: filled_def dest!: prefill_piece_Inl)
    then show ?thesis using Inl by blast
  next
    case (Inr x)
    then show ?thesis using r(2) I by (simp add: filled_def)
  qed
  then show ?thesis using r(1) True by auto
next
  case False
  then show ?thesis using cache_reach_inv [OF assms(2,1)] by (simp add: prefill_def reach_inv_def)
qed

theorem prefill_outcome_witness:
  "\<exists>p' w' v. prefill small_be small_io [1, 2, 3] small_p2 None = Some (p', w', v) \<and>
    (v \<in> Inl ` {ModelError, PrefixDiffers, PrefillIncomplete} \<or>
      (\<exists>r. v = Inr r \<and> pp_tokens r = [1, 2, 3] \<and> pp_validate small_be r ''m'' small_limits [1, 2, 3] = Inr ()))"
  using prefill_outcome [OF small_names small_reach small_room(5,6) small_valid(2), of None] small_valid(1) by blast

subsection \<open>The tiers\<close>

text \<open>
C32. The statistics are exact.  In every reachable cache the number of device entries and of host bytes are
those of the entries, the bytes of the files are counted and within the disk budget, and a prompt on
the device is complete and stands under its own tokens.
\<close>

theorem tiers_accounted:
  assumes "names_left io" "cache_reach be io (\<lambda>_. True) model_id limits p"
  shows "st_device_entries (pc_stats p) = tally device_size (pc_entries p) \<and> st_host_bytes (pc_stats p) = tally host_size (pc_entries p) \<and>
    tally disk_size (pc_entries p) \<le> st_disk_bytes (pc_stats p) \<and> st_disk_bytes (pc_stats p) \<le> cc_disk_bytes (pc_config p) \<and>
    (\<forall>k e pp. map_of (pc_entries p) k = Some e \<longrightarrow> en_tier e = Device pp \<longrightarrow>
      pp_tokens pp = k \<and> be_position be (pp_cache pp) = length k \<and> pp_validate be pp model_id limits k = Inr ())"
proof -
  note I = cache_reach_inv [OF assms(2,1), unfolded reach_inv_def]
  have "pp_tokens pp = k \<and> be_position be (pp_cache pp) = length k \<and> pp_validate be pp model_id limits k = Inr ()"
    if "map_of (pc_entries p) k = Some e" "en_tier e = Device pp" for k e pp
  proof -
    have "on_device be (\<lambda>_. True) p k e" using I that(1) by (auto simp: cache_inv_def)
    then show ?thesis using I that(2) by (simp add: on_device_def)
  qed
  then show ?thesis using I by (simp add: cache_inv_def)
qed

theorem tiers_accounted_witness:
  "st_device_entries (pc_stats small_p2) = tally device_size (pc_entries small_p2) \<and> st_disk_bytes (pc_stats small_p2) \<le> cc_disk_bytes (pc_config small_p2)"
  using tiers_accounted [OF small_names small_reach] by blast

text \<open>
C33. An insertion into a reachable cache always returns.  A prompt of another model, of the wrong shape or
with an incomplete state is refused without a change.  The disk budget holds after every insertion, and
after a new prompt was taken in so do the device and the host budget.
\<close>

theorem insert_within_budgets:
  assumes "names_left io" "cache_reach be io (\<lambda>_. True) model_id limits p" "cache_room 1 p"
  shows "\<exists>p' w' v. cache_insert be io pp p w = Some (p', w', v) \<and>
    (pp_validate be pp model_id limits (pp_tokens pp) \<noteq> Inr () \<or> be_position be (pp_cache pp) \<noteq> length (pp_tokens pp) \<longrightarrow>
      p' = p \<and> w' = w \<and> v \<in> {Inl PrefixDiffers, Inl IncompletePrefix}) \<and>
    st_disk_bytes (pc_stats p') \<le> cc_disk_bytes (pc_config p') \<and>
    (v = Inr () \<and> \<not> caching_off p \<and> pp_tokens pp \<notin> keys p \<longrightarrow>
      st_device_entries (pc_stats p') \<le> cc_device_entries (pc_config p') \<and> st_host_bytes (pc_stats p') \<le> cc_host_bytes (pc_config p'))"
proof -
  note I = cache_reach_inv [OF assms(2,1), unfolded reach_inv_def]
  obtain p' w' v where r: "cache_insert be io pp p w = Some (p', w', v)" "cache_inv be (\<lambda>_. True) p'" "grown 1 p p'"
    "v = Inr () \<and> \<not> caching_off p \<and> map_of (pc_entries p) (pp_tokens pp) = None \<longrightarrow>
      st_device_entries (pc_stats p') \<le> cc_device_entries (pc_config p) \<and> st_host_bytes (pc_stats p') \<le> cc_host_bytes (pc_config p)"
    using cache_insert_ok [OF _ assms(1,3), of be "\<lambda>_. True" pp w] I by auto
  have "p' = p \<and> w' = w \<and> v \<in> {Inl PrefixDiffers, Inl IncompletePrefix}"
    if "pp_validate be pp model_id limits (pp_tokens pp) \<noteq> Inr () \<or> be_position be (pp_cache pp) \<noteq> length (pp_tokens pp)"
    using that r(1) I by (auto simp: cache_insert_def pp_validate_def split: prod.splits if_splits)
  moreover have "pc_config p' = pc_config p" using r(3) by (simp add: grown_def)
  moreover have "pp_tokens pp \<notin> keys p \<longleftrightarrow> map_of (pc_entries p) (pp_tokens pp) = None" by auto
  ultimately show ?thesis using r(1,2,4) unfolding cache_inv_def by auto
qed

theorem insert_within_budgets_witness:
  "\<exists>p' w' v. cache_insert small_be small_io (small_prompt [3]) small_p2 None = Some (p', w', v) \<and>
    st_disk_bytes (pc_stats p') \<le> cc_disk_bytes (pc_config p')"
  using insert_within_budgets [OF small_names small_reach small_room(7), of "small_prompt [3]" None] by blast

text \<open>
C34. A lookup in a reachable cache answers as the search through the prefixes of the prompt, the longest first, does: the
answer is the first stored one that is on the device or whose bytes, in host memory or read from the file, restore to a
prompt that passes the check and stands at the key, and the entries that are dropped are exactly the stored
ones before it whose restoring failed.  No entry on the device is dropped, one in host memory only when its bytes do not restore.
All other entries stay in their tier, the answer is under the longest key left that is a prefix of the prompt, and without an
answer no prefix of the prompt is left.  A hit is counted with its tokens.
\<close>

theorem lookup_longest_prefix:
  assumes "names_left io" "cache_reach be io (\<lambda>_. True) model_id limits p" "lookup_room prompt p"
    and "recalled be io prompt p w = (w', lost, hit)"
  shows "\<exists>p'. lookup be io prompt p w = Some (p', w', Inr (map_option snd hit)) \<and> answered p p' lost hit \<and>
    (\<forall>k \<in> set lost. starts_with prompt k \<and> (\<exists>e. map_of (pc_entries p) k = Some e \<and> beyond_recall be p prompt k e)) \<and>
    (hit = None \<longrightarrow> (\<forall>k \<in> keys p'. \<not> starts_with prompt k)) \<and>
    (\<forall>key r. hit = Some (key, r) \<longrightarrow> key \<in> keys p' \<and> starts_with prompt key \<and> (\<forall>k \<in> keys p'. starts_with prompt k \<longrightarrow> length k \<le> length key) \<and>
      (\<forall>k \<in> set lost. length key < length k) \<and> pp_validate be r model_id limits prompt = Inr () \<and> be_position be (pp_cache r) = length key)"
proof -
  have I: "cache_inv be (\<lambda>_. True) p" "pc_model_id p = model_id" "pc_limits p = limits"
    using cache_reach_inv [OF assms(2,1)] by (simp_all add: reach_inv_def)
  obtain p' where p': "lookup be io prompt p w = Some (p', w', Inr (map_option snd hit))" "answered p p' lost hit"
    using lookup_recall [OF I(1) assms(3,4)] by blast
  note F = recall_facts [OF I(1) assms(4) [unfolded recalled_def] order.refl]
  have f: "found be (\<lambda>_. True) prompt p p' (map_option snd hit)" using lookup_ok [OF I(1) _ assms(3), of io w] p'(1) by auto
  have none: "hit = None \<longrightarrow> (\<forall>k \<in> keys p'. \<not> starts_with prompt k)" using f unfolding found_def by force
  have some: "key \<in> keys p' \<and> starts_with prompt key \<and> (\<forall>k \<in> keys p'. starts_with prompt k \<longrightarrow> length k \<le> length key) \<and>
      (\<forall>k \<in> set lost. length key < length k) \<and> pp_validate be r model_id limits prompt = Inr () \<and> be_position be (pp_cache r) = length key"
    if hit: "hit = Some (key, r)" for key r
  proof -
    note R = F(2) [OF hit]
    have "key \<in> keys p'" using R p'(2) by (auto simp: answered_def)
    moreover have "\<forall>k \<in> keys p'. starts_with prompt k \<longrightarrow> length k \<le> length key" using f hit R by (auto simp: found_def usable_def)
    ultimately show ?thesis using R I(2,3) by (simp add: usable_def)
  qed
  show ?thesis using p' F(1) none some by blast
qed

theorem lookup_longest_prefix_witness:
  "\<exists>p'. lookup small_be small_io [1, 2, 3] small_p2 None = Some (p', None, Inr (Some (small_prompt [1, 2]))) \<and>
    answered small_p2 p' [[1, 2, 3]] (Some ([1, 2], small_prompt [1, 2]))"
proof -
  have "recalled small_be small_io [1, 2, 3] small_p2 None = (None, [[1, 2, 3]], Some ([1, 2], small_prompt [1, 2]))" by code_simp
  from lookup_longest_prefix [OF small_names small_reach small_room(5) this] show ?thesis by auto
qed

subsection \<open>A prompt from elsewhere\<close>

text \<open>
C37. An imported prompt is well formed: it belongs to the model with its limits, has the expected tokens,
which are tokens of the vocabulary, and logits of one position over the vocabulary on the device.
\<close>

theorem import_well_formed:
  assumes "pp_import be bs model_id limits expected = Inr r"
  shows "model_id \<noteq> [] \<and> pp_model_id r = model_id \<and> pp_limits r = limits \<and> pp_tokens r = expected \<and> valid_tokens limits expected \<and>
    be_dims be (pp_logits r) = (1, 1, ml_vocab_size limits) \<and> be_on_device be (pp_logits r)"
  using assms
  by (auto simp: pp_import_def restore_def pp_validate_def ok_then_def Let_def split: sum.splits option.splits if_splits prod.splits)

theorem import_well_formed_witness:
  "pp_tokens (small_prompt [1, 2]) = [1, 2] \<and> valid_tokens small_limits [1, 2]"
proof -
  have "pp_import small_be [2, 1, 2, 2, 1, 2, 2] ''m'' small_limits [1, 2] = Inr (small_prompt [1, 2])" by code_simp
  from import_well_formed [OF this] show ?thesis by blast
qed

text \<open>
C36. A prompt survives the handoff.  When serialization, the record of a generation and the data of the
logits are lossless, what one process exports of a prompt with valid tokens another one imports
unchanged.
\<close>

theorem handoff_roundtrip:
  assumes "lossless be (pp_limits r)" "valid_tokens (pp_limits r) (pp_tokens r)" "pp_export be r = Inr bs"
  shows "pp_import be bs (pp_model_id r) (pp_limits r) (pp_tokens r) = Inr r"
proof -
  have v: "pp_validate be r (pp_model_id r) (pp_limits r) (pp_tokens r) = Inr ()" "be_position be (pp_cache r) = length (pp_tokens r)"
    "capture be r = Inr bs"
    using assms(3) by (auto simp: pp_export_def ok_then_def split: sum.splits if_splits)
  have "restore be bs (pp_model_id r) (pp_limits r) = Inr r" by (rule capture_restore(3) [OF assms(1) v refl refl assms(2)])
  then show ?thesis by (simp add: pp_import_def ok_then_def)
qed

theorem handoff_roundtrip_witness:
  "pp_import small_be [2, 1, 2, 2, 1, 2, 2] ''m'' small_limits [1, 2] = Inr (small_prompt [1, 2])"
proof -
  have id: "pp_model_id (small_prompt [1, 2]) = ''m''" "pp_limits (small_prompt [1, 2]) = small_limits" "pp_tokens (small_prompt [1, 2]) = [1, 2]"
    by (simp_all add: small_prompt_def)
  have "valid_tokens small_limits [1, 2]" by (simp add: valid_tokens_def small_limits_def)
  moreover have "pp_export small_be (small_prompt [1, 2]) = Inr [2, 1, 2, 2, 1, 2, 2]" by code_simp
  ultimately show ?thesis using handoff_roundtrip [of small_be "small_prompt [1, 2]" "[2, 1, 2, 2, 1, 2, 2]"] small_lossless unfolding id by blast
qed

subsection \<open>Files that are lost\<close>

text \<open>
C38. The bytes of a file that cannot be restored stay counted after its entry is gone.  A lookup in a reachable cache leaves the
count of the disk bytes as it is, so that the bytes of the disk entries it drops are counted without an entry.  No later
insertion, lookup or prefill gives them back, and from then on writing any payload that does not fit into the
disk budget beside them fails, whatever else is evicted and although the directory may be empty.
\<close>

theorem lost_file_blocks_disk:
  assumes "names_left io" "cache_reach be io (\<lambda>_. True) model_id limits p" "lookup_room prompt p"
    and "lookup be io prompt p w = Some (p1, w1, v)" "cache_later be io p1 q"
  shows "st_disk_bytes (pc_stats p1) = st_disk_bytes (pc_stats p) \<and>
    stranded p1 + tally disk_size (pc_entries p1) = stranded p + tally disk_size (pc_entries p) \<and> stranded p1 \<le> stranded q \<and>
    (\<forall>key bs used w2. length bs \<le> cc_disk_bytes (pc_config q) \<longrightarrow> cc_disk_bytes (pc_config q) < stranded q + length bs \<longrightarrow>
      (\<exists>q' w' e. put_disk io key bs used q w2 = Some (q', w', Inl e)))"
proof -
  have I: "cache_inv be (\<lambda>_. True) p" using cache_reach_inv [OF assms(2,1)] by (simp add: reach_inv_def)
  have r1: "cache_reach be io (\<lambda>_. True) model_id limits p1" by (rule cache_reach.Looked [OF assms(2-4)])
  have I1: "cache_inv be (\<lambda>_. True) p1" using cache_reach_inv [OF r1 assms(1)] by (simp add: reach_inv_def)
  have Iq: "cache_inv be (\<lambda>_. True) q" using cache_reach_inv [OF later_reach [OF assms(5) r1] assms(1)] by (simp add: reach_inv_def)
  obtain w' lost hit where r: "recalled be io prompt p w = (w', lost, hit)" by (cases "recalled be io prompt p w")
  have s: "st_disk_bytes (pc_stats p1) = st_disk_bytes (pc_stats p)" using lookup_recall [OF I assms(3) r] assms(4) by (auto simp: answered_def)
  then have "stranded p1 + tally disk_size (pc_entries p1) = stranded p + tally disk_size (pc_entries p)"
    using I I1 by (simp add: stranded_def cache_inv_def)
  then show ?thesis by (intro conjI allI impI s later_stranded [OF assms(5) r1 assms(1)] put_disk_refused [OF Iq])
qed

theorem lost_file_blocks_disk_witness:
  "stranded small_p2 = 0 \<and> 9 \<le> stranded small_p4 \<and> filter (\<lambda>x. is_disk (snd x)) (pc_entries small_p4) = [] \<and>
    (\<exists>q' w' e. put_disk small_io [3] [1, 3, 1, 3, 3] 7 small_p4 None = Some (q', w', Inl e))"
proof -
  have "lookup small_be small_io [1, 2, 3] small_p2 None = Some (small_p3, None, Inr (Some (small_prompt [1, 2])))" by code_simp
  moreover have "cache_insert small_be small_io (small_prompt [3]) small_p3 None = Some (small_p4, None, Inl NothingEvictable)" by code_simp
  then have "cache_later small_be small_io small_p3 small_p4" by (rule cache_later.Insert [OF cache_later.Now small_room(8)])
  ultimately have L: "\<forall>key bs used w2. length bs \<le> cc_disk_bytes (pc_config small_p4) \<longrightarrow> cc_disk_bytes (pc_config small_p4) < stranded small_p4 + length bs \<longrightarrow>
      (\<exists>q' w' e. put_disk small_io key bs used small_p4 w2 = Some (q', w', Inl e))"
    using lost_file_blocks_disk [OF small_names small_reach small_room(5)] by blast
  have "stranded small_p2 = 0" "stranded small_p3 = 9" "stranded small_p4 = 9" "cc_disk_bytes (pc_config small_p4) = 9" by code_simp+
  moreover have "filter (\<lambda>x. is_disk (snd x)) (pc_entries small_p4) = []" by (simp add: small_defs is_disk_def)
  ultimately show ?thesis using L [rule_format, of "[1, 3, 1, 3, 3]" "[3]" 7 None] by simp
qed

end
