(* ===== verification/Device_Memory.thy ===== *)
theory Device_Memory
  imports Rust_Prelude "HOL-Library.Word" "HOL-Library.Monad_Syntax"
begin

unbundle bit_operations_syntax

text \<open>
  The reusable memory of a device, \<open>ruda-runtime/src/runtime/memory_management/memory_pool\<close>: a page is one
  storage buffer cut into slices, a sliced pool is a list of pages.  A user owns a slice through
  counted references to its descriptor; the descriptor holds the position of the slice, packed in 64
  bits, and is updated when slices move.

  The descriptors and the guards of the pages are shared objects, so they live in an explicit store:
  \<open>ms_strong\<close> is the number of references to a descriptor (\<open>Arc::strong_count\<close>), \<open>ms_loc\<close> its packed
  location, \<open>ms_guards\<close> the counter of a page.  The device is a record of functions on a world
  \<open>'w\<close>.  An operation returns \<open>None\<close> when the code panics.  Sizes are \<open>u64\<close>; the sums over the slices of a
  page are bounded by its size.
\<close>

subsection \<open>Storage\<close>

record storage_utilization =
  su_offset :: nat
  su_size :: nat

record storage_handle =
  sh_id :: nat
  sh_utilization :: storage_utilization

abbreviation sh_size :: "storage_handle \<Rightarrow> nat" where
  "sh_size h \<equiv> su_size (sh_utilization h)"

abbreviation sh_offset :: "storage_handle \<Rightarrow> nat" where
  "sh_offset h \<equiv> su_offset (sh_utilization h)"

definition offset_start :: "storage_handle \<Rightarrow> nat \<Rightarrow> storage_handle option" where
  "offset_start self offset_bytes = do {
     offset \<leftarrow> uadd (sh_offset self) offset_bytes;
     sz \<leftarrow> usub (sh_size self) offset_bytes;
     Some (self\<lparr>sh_utilization := \<lparr>su_offset = offset, su_size = sz\<rparr>\<rparr>)
   }"

definition offset_end :: "storage_handle \<Rightarrow> nat \<Rightarrow> storage_handle option" where
  "offset_end self offset_bytes = do {
     sz \<leftarrow> usub (sh_size self) offset_bytes;
     Some (self\<lparr>sh_utilization := \<lparr>su_offset = sh_offset self, su_size = sz\<rparr>\<rparr>)
   }"

record 'w compute_storage =
  cs_alloc :: "nat \<Rightarrow> 'w \<Rightarrow> 'w \<times> (unit + storage_handle)"
  cs_dealloc :: "nat \<Rightarrow> 'w \<Rightarrow> 'w"
  cs_fresh_id :: "'w \<Rightarrow> 'w \<times> nat"

datatype page_mapping = Eager | Lazy

definition mapping_allocate :: "'w compute_storage \<Rightarrow> page_mapping \<Rightarrow> nat \<Rightarrow> 'w \<Rightarrow> 'w \<times> (unit + storage_handle)" where
  "mapping_allocate cs self size' w =
     (case self of
        Eager \<Rightarrow> cs_alloc cs size' w
      | Lazy \<Rightarrow> (case cs_fresh_id cs w of (w, i) \<Rightarrow> (w, Inr \<lparr>sh_id = i, sh_utilization = \<lparr>su_offset = 0, su_size = size'\<rparr>\<rparr>)))"

definition is_mapped :: "page_mapping \<Rightarrow> bool" where
  "is_mapped self \<longleftrightarrow> self = Eager"

subsection \<open>Locations and descriptors\<close>

record memory_location =
  lo_pool :: "8 word"
  lo_page :: "16 word"
  lo_slice :: "32 word"
  lo_init :: "8 word"

definition loc_to_bits :: "memory_location \<Rightarrow> 64 word" where
  "loc_to_bits self = ucast (lo_pool self) OR push_bit 8 (ucast (lo_page self)) OR push_bit 24 (ucast (lo_slice self)) OR push_bit 56 (ucast (lo_init self))"

definition loc_from_bits :: "64 word \<Rightarrow> memory_location" where
  "loc_from_bits bits = \<lparr>lo_pool = ucast bits, lo_page = ucast (drop_bit 8 bits), lo_slice = ucast (drop_bit 24 bits), lo_init = ucast (drop_bit 56 bits)\<rparr>"

definition location_new :: "8 word \<Rightarrow> 16 word \<Rightarrow> 32 word \<Rightarrow> memory_location" where
  "location_new pool page sl = \<lparr>lo_pool = pool, lo_page = page, lo_slice = sl, lo_init = 1\<rparr>"

definition location_uninit :: memory_location where
  "location_uninit = \<lparr>lo_pool = 0, lo_page = 0, lo_slice = 0, lo_init = 0\<rparr>"

record mem_store =
  ms_next :: nat
  ms_strong :: "nat \<Rightarrow> nat"
  ms_loc :: "nat \<Rightarrow> 64 word"
  ms_next_page :: nat
  ms_guards :: "nat \<Rightarrow> nat"

definition descriptor_location :: "mem_store \<Rightarrow> nat \<Rightarrow> memory_location" where
  "descriptor_location s d = loc_from_bits (ms_loc s d)"

definition update_location :: "nat \<Rightarrow> memory_location \<Rightarrow> mem_store \<Rightarrow> mem_store" where
  "update_location d l s = s\<lparr>ms_loc := (ms_loc s)(d := loc_to_bits l)\<rparr>"

definition update_slice :: "nat \<Rightarrow> 32 word \<Rightarrow> mem_store \<Rightarrow> mem_store" where
  "update_slice d n s = update_location d (descriptor_location s d\<lparr>lo_slice := n\<rparr>) s"

definition descriptor_update_page :: "nat \<Rightarrow> 16 word \<Rightarrow> mem_store \<Rightarrow> mem_store" where
  "descriptor_update_page d n s = update_location d (descriptor_location s d\<lparr>lo_page := n\<rparr>) s"

definition new_handle :: "mem_store \<Rightarrow> (mem_store \<times> nat) option" where
  "new_handle s =
     (if ms_next s = usize_lim - 1 then None
      else Some (s\<lparr>ms_next := ms_next s + 1, ms_strong := (ms_strong s)(ms_next s := 1), ms_loc := (ms_loc s)(ms_next s := loc_to_bits location_uninit)\<rparr>,
        ms_next s))"

definition clone_handle :: "nat \<Rightarrow> mem_store \<Rightarrow> mem_store" where
  "clone_handle d s = s\<lparr>ms_strong := (ms_strong s)(d := ms_strong s d + 1)\<rparr>"

definition drop_handle :: "nat \<Rightarrow> mem_store \<Rightarrow> mem_store" where
  "drop_handle d s = s\<lparr>ms_strong := (ms_strong s)(d := ms_strong s d - 1)\<rparr>"

definition handle_is_free :: "mem_store \<Rightarrow> nat \<Rightarrow> bool" where
  "handle_is_free s d \<longleftrightarrow> ms_strong s d \<le> 1"

definition guarded :: "mem_store \<Rightarrow> nat \<Rightarrow> bool" where
  "guarded s page \<longleftrightarrow> ms_guards s page \<noteq> 0"

definition page_guard :: "nat \<Rightarrow> mem_store \<Rightarrow> mem_store" where
  "page_guard page s = s\<lparr>ms_guards := (ms_guards s)(page := ms_guards s page + 1)\<rparr>"

definition page_unguard :: "nat \<Rightarrow> mem_store \<Rightarrow> mem_store" where
  "page_unguard page s = s\<lparr>ms_guards := (ms_guards s)(page := ms_guards s page - 1)\<rparr>"

definition new_page_ref :: "mem_store \<Rightarrow> mem_store \<times> nat" where
  "new_page_ref s = (s\<lparr>ms_next_page := ms_next_page s + 1, ms_guards := (ms_guards s)(ms_next_page s := 0)\<rparr>, ms_next_page s)"

subsection \<open>Slices\<close>

record mem_slice =
  sl_mapped :: bool
  sl_page :: nat
  sl_storage :: storage_handle
  sl_handle :: nat
  sl_padding :: nat
  sl_cursor :: nat

definition slice_new :: "storage_handle \<Rightarrow> nat \<Rightarrow> mem_store \<Rightarrow> (mem_store \<times> mem_slice) option" where
  "slice_new storage padding s = do {
     (s, h) \<leftarrow> new_handle s;
     let (s, page) = new_page_ref s;
     Some (s, \<lparr>sl_mapped = True, sl_page = page, sl_storage = storage, sl_handle = h, sl_padding = padding, sl_cursor = 0\<rparr>)
   }"

definition slice_is_free :: "mem_store \<Rightarrow> mem_slice \<Rightarrow> bool" where
  "slice_is_free s sl \<longleftrightarrow> handle_is_free s (sl_handle sl) \<and> \<not> guarded s (sl_page sl)"

definition effective_size :: "mem_slice \<Rightarrow> nat" where
  "effective_size sl = sh_size (sl_storage sl) + sl_padding sl"

definition calculate_padding :: "nat \<Rightarrow> nat \<Rightarrow> nat option" where
  "calculate_padding size' alignment =
     (if alignment = 0 then None
      else Some (if size' mod alignment \<noteq> 0 then alignment - size' mod alignment else 0))"

subsection \<open>Pages\<close>

text \<open>\<open>slices_tmp\<close> is scratch space of \<open>coalesce\<close>, empty between the calls.\<close>

record memory_page =
  pg_mapped :: bool
  pg_page :: nat
  pg_storage :: storage_handle
  pg_slices :: "mem_slice list"
  pg_alignment :: nat
  pg_location_base :: memory_location

definition page_new :: "storage_handle \<Rightarrow> nat \<Rightarrow> memory_location \<Rightarrow> page_mapping \<Rightarrow> mem_store \<Rightarrow> (mem_store \<times> memory_page) option" where
  "page_new storage alignment base mapping s = do {
     let (s, page) = new_page_ref s;
     (s, sl) \<leftarrow> slice_new storage 0 s;
     let sl = sl\<lparr>sl_mapped := is_mapped mapping, sl_page := page\<rparr>;
     let s = update_location (sl_handle sl) (base\<lparr>lo_slice := 0\<rparr>) s;
     Some (s, \<lparr>pg_mapped = is_mapped mapping, pg_page = page, pg_storage = storage, pg_slices = [sl], pg_alignment = alignment,
       pg_location_base = base\<rparr>)
   }"

definition page_materialize :: "'w compute_storage \<Rightarrow> memory_page \<Rightarrow> 'w \<Rightarrow> memory_page \<times> 'w \<times> (unit + nat)" where
  "page_materialize cs self w =
     (if pg_mapped self then (self, w, Inr (sh_id (pg_storage self)))
      else (case cs_alloc cs (sh_size (pg_storage self)) w of
          (w, Inl e) \<Rightarrow> (self, w, Inl e)
        | (w, Inr real) \<Rightarrow>
            (self\<lparr>pg_slices := map (\<lambda>sl. sl\<lparr>sl_storage := (sl_storage sl)\<lparr>sh_id := sh_id real\<rparr>, sl_mapped := True\<rparr>) (pg_slices self),
                  pg_storage := real, pg_mapped := True\<rparr>, w, Inr (sh_id real))))"

text \<open>
  The slice takes over the reference \<open>new\<close>; its former handle and \<open>reserved\<close> are dropped.
\<close>

definition page_bind :: "nat \<Rightarrow> nat \<Rightarrow> nat \<Rightarrow> memory_page \<Rightarrow> mem_store \<Rightarrow> (mem_store \<times> memory_page) option" where
  "page_bind reserved new cursor self s =
     (let i = unat (lo_slice (descriptor_location s reserved)) in
      if i < length (pg_slices self)
      then let sl = pg_slices self ! i;
               s = update_location new (descriptor_location s reserved) s in
           Some (drop_handle reserved (drop_handle (sl_handle sl) s),
             self\<lparr>pg_slices := (pg_slices self)[i := sl\<lparr>sl_cursor := cursor, sl_handle := new\<rparr>]\<rparr>)
      else None)"

record memory_usage =
  mu_number_allocs :: nat
  mu_bytes_in_use :: nat
  mu_bytes_padding :: nat
  mu_bytes_reserved :: nat

definition no_usage :: memory_usage where
  "no_usage = \<lparr>mu_number_allocs = 0, mu_bytes_in_use = 0, mu_bytes_padding = 0, mu_bytes_reserved = 0\<rparr>"

definition usage_combine :: "memory_usage \<Rightarrow> memory_usage \<Rightarrow> memory_usage" where
  "usage_combine a b = \<lparr>mu_number_allocs = mu_number_allocs a + mu_number_allocs b, mu_bytes_in_use = mu_bytes_in_use a + mu_bytes_in_use b,
     mu_bytes_padding = mu_bytes_padding a + mu_bytes_padding b, mu_bytes_reserved = mu_bytes_reserved a + mu_bytes_reserved b\<rparr>"

definition page_memory_usage :: "mem_store \<Rightarrow> memory_page \<Rightarrow> memory_usage" where
  "page_memory_usage s self = fold (\<lambda>sl usage.
     let usage = usage\<lparr>mu_bytes_reserved := mu_bytes_reserved usage + effective_size sl\<rparr> in
     if slice_is_free s sl then usage
     else usage\<lparr>mu_number_allocs := mu_number_allocs usage + 1, mu_bytes_in_use := mu_bytes_in_use usage + sh_size (sl_storage sl),
       mu_bytes_padding := mu_bytes_padding usage + sl_padding sl\<rparr>) (pg_slices self) no_usage"

text \<open>The amounts of \<open>summary\<close> that \<open>cleanup\<close> compares.\<close>

definition amount_free :: "mem_store \<Rightarrow> memory_page \<Rightarrow> nat" where
  "amount_free s self = fold (\<lambda>sl n. if slice_is_free s sl then n + effective_size sl else n) (pg_slices self) 0"

definition amount_total :: "memory_page \<Rightarrow> nat" where
  "amount_total self = sh_size (pg_storage self)"

text \<open>The first slice that is large enough and that nobody refers to.\<close>

fun find_slot :: "mem_store \<Rightarrow> nat \<Rightarrow> nat \<Rightarrow> mem_slice list \<Rightarrow> nat option" where
  "find_slot s effective i [] = None"
| "find_slot s effective i (sl # sls) =
     (if effective \<le> effective_size sl \<and> handle_is_free s (sl_handle sl) then Some i else find_slot s effective (i + 1) sls)"

definition update_later :: "nat \<Rightarrow> mem_slice list \<Rightarrow> mem_store \<Rightarrow> mem_store" where
  "update_later n sls s = fold (\<lambda>(i, sl). update_slice (sl_handle sl) (word_of_nat i)) (drop n (enumerate 0 sls)) s"

definition add_new_slice :: "nat \<Rightarrow> nat \<Rightarrow> mem_slice \<Rightarrow> memory_page \<Rightarrow> mem_store \<Rightarrow> mem_store \<times> memory_page" where
  "add_new_slice index_previous reserved_size_previous new self s =
     (let previous = pg_slices self ! index_previous;
          previous = previous\<lparr>sl_storage := (sl_storage previous)\<lparr>sh_utilization := (sh_utilization (sl_storage previous))\<lparr>su_size := reserved_size_previous\<rparr>\<rparr>\<rparr>;
          index_new = index_previous + 1;
          s = update_location (sl_handle new) ((pg_location_base self)\<lparr>lo_slice := word_of_nat index_new\<rparr>) s;
          slices = take index_previous (pg_slices self) @ previous # new # drop index_new (pg_slices self) in
      (update_later (index_new + 1) slices s, self\<lparr>pg_slices := slices\<rparr>))"

definition page_try_reserve :: "nat \<Rightarrow> memory_page \<Rightarrow> mem_store \<Rightarrow> (mem_store \<times> memory_page \<times> nat option) option" where
  "page_try_reserve size' self s =
     (if guarded s (pg_page self) then Some (s, self, None)
      else do {
        padding \<leftarrow> calculate_padding size' (pg_alignment self);
        effective \<leftarrow> uadd size' padding;
        (case find_slot s effective 0 (pg_slices self) of
           None \<Rightarrow> Some (s, self, None)
         | Some index \<Rightarrow>
             let slice = pg_slices self ! index;
                 available = effective_size slice;
                 s = clone_handle (sl_handle slice) s;
                 storage_old = (sl_storage slice)\<lparr>sh_utilization := (sh_utilization (sl_storage slice))\<lparr>su_size := available\<rparr>\<rparr>;
                 used = slice\<lparr>sl_storage := (sl_storage slice)\<lparr>sh_utilization := (sh_utilization (sl_storage slice))\<lparr>su_size := size'\<rparr>\<rparr>,
                   sl_padding := padding\<rparr>;
                 self = self\<lparr>pg_slices := (pg_slices self)[index := used]\<rparr> in
             if effective < available
             then do {
               storage \<leftarrow> offset_start storage_old effective;
               (s, new) \<leftarrow> slice_new storage 0 s;
               let new = new\<lparr>sl_mapped := pg_mapped self, sl_page := pg_page self\<rparr>;
               let (s, self) = add_new_slice index size' new self s;
               Some (s, self, Some (sl_handle slice))
             }
             else Some (s, self, Some (sl_handle slice)))
      })"

fun free_run :: "mem_store \<Rightarrow> nat \<Rightarrow> nat \<Rightarrow> mem_slice list \<Rightarrow> bool" where
  "free_run s needed free [] = False"
| "free_run s needed free (sl # sls) =
     (let free = (if slice_is_free s sl then min (free + effective_size sl) (usize_lim - 1) else 0) in
      needed \<le> free \<or> free_run s needed free sls)"

definition page_can_reserve :: "mem_store \<Rightarrow> nat \<Rightarrow> memory_page \<Rightarrow> bool option" where
  "page_can_reserve s size' self =
     (if guarded s (pg_page self) then Some False
      else do {
        padding \<leftarrow> calculate_padding size' (pg_alignment self);
        (if size' + padding < usize_lim then Some (free_run s (size' + padding) 0 (pg_slices self)) else Some False)
      })"

definition page_find_at :: "memory_location \<Rightarrow> memory_page \<Rightarrow> mem_slice option" where
  "page_find_at location self =
     (if unat (lo_slice location) < length (pg_slices self) then Some (pg_slices self ! unat (lo_slice location)) else None)"

definition page_update_page :: "16 word \<Rightarrow> memory_page \<Rightarrow> mem_store \<Rightarrow> mem_store \<times> memory_page" where
  "page_update_page page self s =
     (fold (\<lambda>sl. descriptor_update_page (sl_handle sl) page) (pg_slices self) s,
      self\<lparr>pg_location_base := (pg_location_base self)\<lparr>lo_page := page\<rparr>\<rparr>)"

datatype pool_error = PageIndexExhausted | StorageFailed | SliceNotFound | IdentityChanged

text \<open>The slice of an allocation whose data has moved gets a handle of its own; the old one is dropped.\<close>

definition page_release_relocated :: "nat \<Rightarrow> memory_page \<Rightarrow> mem_store \<Rightarrow> (mem_store \<times> memory_page \<times> (pool_error + unit)) option" where
  "page_release_relocated allocation self s =
     (let location = descriptor_location s allocation; i = unat (lo_slice location) in
      if \<not> i < length (pg_slices self) then Some (s, self, Inl SliceNotFound)
      else let slice = pg_slices self ! i in
        if sl_handle slice \<noteq> allocation then Some (s, self, Inl IdentityChanged)
        else do {
          (s, replacement) \<leftarrow> new_handle s;
          let s = drop_handle (sl_handle slice) (update_location replacement location s);
          Some (s, self\<lparr>pg_slices := (pg_slices self)[i := slice\<lparr>sl_handle := replacement, sl_cursor := 0\<rparr>]\<rparr>, Inr ())
        })"

subsection \<open>Merging free slices\<close>

fun adjacent_free :: "mem_store \<Rightarrow> mem_slice list \<Rightarrow> bool" where
  "adjacent_free s (x # y # sls) \<longleftrightarrow> slice_is_free s x \<and> slice_is_free s y \<or> adjacent_free s (y # sls)"
| "adjacent_free s _ \<longleftrightarrow> False"

definition flush_run ::
  "storage_handle \<Rightarrow> memory_location \<Rightarrow> mem_slice \<Rightarrow> nat \<Rightarrow> nat \<Rightarrow> mem_slice list \<Rightarrow> mem_store \<Rightarrow> (mem_store \<times> mem_slice list) option" where
  "flush_run storage base first size' count output s = do {
     (s, slice) \<leftarrow> (if 1 < count then do {
         (s, merged) \<leftarrow> slice_new (storage\<lparr>sh_utilization := \<lparr>su_offset = sh_offset (sl_storage first), su_size = size'\<rparr>\<rparr>) 0 s;
         Some (drop_handle (sl_handle first) s, merged\<lparr>sl_mapped := sl_mapped first, sl_page := sl_page first\<rparr>)
       } else Some (s, first));
     Some (update_location (sl_handle slice) (base\<lparr>lo_slice := word_of_nat (length output)\<rparr>) s, output @ [slice])
   }"

fun coalesce_loop ::
  "storage_handle \<Rightarrow> memory_location \<Rightarrow> nat \<Rightarrow> mem_slice list \<Rightarrow> mem_slice option \<Rightarrow> nat \<Rightarrow> nat \<Rightarrow> mem_slice list \<Rightarrow> mem_store \<Rightarrow>
   (mem_store \<times> mem_slice list) option" where
  "coalesce_loop storage base index [] pending size' count output s =
     (case pending of Some first \<Rightarrow> flush_run storage base first size' count output s | None \<Rightarrow> Some (s, output))"
| "coalesce_loop storage base index (sl # sls) pending size' count output s =
     (if slice_is_free s sl
      then (case pending of
          None \<Rightarrow> coalesce_loop storage base (index + 1) sls (Some sl) (size' + effective_size sl) (count + 1) output s
        | Some first \<Rightarrow>
            coalesce_loop storage base (index + 1) sls (Some first) (size' + effective_size sl) (count + 1) output (drop_handle (sl_handle sl) s))
      else do {
        (s, output, size', count) \<leftarrow> (case pending of
            Some first \<Rightarrow> do { (s, output) \<leftarrow> flush_run storage base first size' count output s; Some (s, output, 0, 0) }
          | None \<Rightarrow> Some (s, output, size', count));
        let s = (if index \<noteq> length output then update_slice (sl_handle sl) (word_of_nat (length output)) s else s);
        coalesce_loop storage base (index + 1) sls None size' count (output @ [sl]) s
      })"

definition page_coalesce :: "memory_page \<Rightarrow> mem_store \<Rightarrow> (mem_store \<times> memory_page) option" where
  "page_coalesce self s =
     (if \<not> adjacent_free s (pg_slices self) then Some (s, self)
      else do {
        (s, slices) \<leftarrow> coalesce_loop (pg_storage self) (pg_location_base self) 0 (pg_slices self) None 0 0 [] s;
        Some (s, self\<lparr>pg_slices := slices\<rparr>)
      })"

subsection \<open>The sliced pool\<close>

text \<open>\<open>pages_tmp\<close> is scratch space of \<open>cleanup\<close>.\<close>

record sliced_pool =
  sp_pages :: "(memory_page \<times> nat) list"
  sp_page_size :: nat
  sp_alignment :: nat
  sp_max_alloc_size :: nat
  sp_location_base :: memory_location

definition pool_new :: "nat \<Rightarrow> nat \<Rightarrow> nat \<Rightarrow> 8 word \<Rightarrow> sliced_pool" where
  "pool_new page_size max_slice_size alignment pool_pos =
     \<lparr>sp_pages = [], sp_page_size = page_size, sp_alignment = alignment, sp_max_alloc_size = max_slice_size,
      sp_location_base = location_new pool_pos 0 0\<rparr>"

definition pool_accept :: "nat \<Rightarrow> sliced_pool \<Rightarrow> bool option" where
  "pool_accept size' self =
     (if size' \<le> sp_max_alloc_size self then Some True
      else if size' \<le> sp_page_size self then do {
        unused \<leftarrow> umul (sp_page_size self - size') 5;
        Some (unused < sp_page_size self)
      }
      else Some False)"

fun any_page :: "mem_store \<Rightarrow> nat \<Rightarrow> (memory_page \<times> nat) list \<Rightarrow> bool option" where
  "any_page s size' [] = Some False"
| "any_page s size' ((page, i) # pages) = do {
     b \<leftarrow> page_can_reserve s size' page;
     (if b then Some True else any_page s size' pages)
   }"

definition pool_can_reserve :: "mem_store \<Rightarrow> nat \<Rightarrow> sliced_pool \<Rightarrow> bool option" where
  "pool_can_reserve s size' self = any_page s size' (sp_pages self)"

fun try_pages :: "nat \<Rightarrow> (memory_page \<times> nat) list \<Rightarrow> mem_store \<Rightarrow> (mem_store \<times> (memory_page \<times> nat) list \<times> nat option) option" where
  "try_pages size' [] s = Some (s, [], None)"
| "try_pages size' ((page, i) # pages) s = do {
     (s, page) \<leftarrow> page_coalesce page s;
     (s, page, r) \<leftarrow> page_try_reserve size' page s;
     (case r of
        Some h \<Rightarrow> Some (s, (page, i) # pages, Some h)
      | None \<Rightarrow> do {
          (s, pages, r) \<leftarrow> try_pages size' pages s;
          Some (s, (page, i) # pages, r)
        })
   }"

definition pool_try_reserve :: "nat \<Rightarrow> sliced_pool \<Rightarrow> mem_store \<Rightarrow> (mem_store \<times> sliced_pool \<times> nat option) option" where
  "pool_try_reserve size' self s = do {
     (s, pages, r) \<leftarrow> try_pages size' (sp_pages self) s;
     Some (s, self\<lparr>sp_pages := pages\<rparr>, r)
   }"

definition pool_alloc ::
  "'w compute_storage \<Rightarrow> page_mapping \<Rightarrow> nat \<Rightarrow> sliced_pool \<Rightarrow> mem_store \<Rightarrow> 'w \<Rightarrow> (mem_store \<times> sliced_pool \<times> 'w \<times> (pool_error + nat)) option" where
  "pool_alloc cs mapping size' self s w =
     (if \<not> length (sp_pages self) < 2 ^ 16 then Some (s, self, w, Inl PageIndexExhausted)
      else (case mapping_allocate cs mapping (sp_page_size self) w of
          (w, Inl _) \<Rightarrow> Some (s, self, w, Inl StorageFailed)
        | (w, Inr storage) \<Rightarrow> do {
            (s, page) \<leftarrow> page_new storage (sp_alignment self) ((sp_location_base self)\<lparr>lo_page := word_of_nat (length (sp_pages self))\<rparr>) mapping s;
            (s, page, returned) \<leftarrow> page_try_reserve size' page s;
            h \<leftarrow> returned;
            Some (s, self\<lparr>sp_pages := sp_pages self @ [(page, sh_id storage)]\<rparr>, w, Inr h)
          }))"

text \<open>How \<open>MemoryManagement::reserve\<close> uses the pool that accepts the size: what it holds first, then a new page.\<close>

definition pool_reserve ::
  "'w compute_storage \<Rightarrow> page_mapping \<Rightarrow> nat \<Rightarrow> sliced_pool \<Rightarrow> mem_store \<Rightarrow> 'w \<Rightarrow> (mem_store \<times> sliced_pool \<times> 'w \<times> (pool_error + nat)) option" where
  "pool_reserve cs mapping size' self s w = do {
     (s, self, r) \<leftarrow> pool_try_reserve size' self s;
     (case r of
        Some h \<Rightarrow> Some (s, self, w, Inr h)
      | None \<Rightarrow> pool_alloc cs mapping size' self s w)
   }"

text \<open>Indexing \<open>pages\<close> out of range panics; a slice that does not exist is an error.\<close>

definition pool_find_at :: "memory_location \<Rightarrow> sliced_pool \<Rightarrow> mem_slice option option" where
  "pool_find_at location self =
     (if unat (lo_page location) < length (sp_pages self) then Some (page_find_at location (fst (sp_pages self ! unat (lo_page location)))) else None)"

definition pool_bind :: "nat \<Rightarrow> nat \<Rightarrow> nat \<Rightarrow> sliced_pool \<Rightarrow> mem_store \<Rightarrow> (mem_store \<times> sliced_pool) option" where
  "pool_bind reserved assigned cursor self s =
     (let j = unat (lo_page (descriptor_location s reserved)) in
      if j < length (sp_pages self)
      then (case sp_pages self ! j of (page, i) \<Rightarrow> do {
          (s, page) \<leftarrow> page_bind reserved assigned cursor page s;
          Some (s, self\<lparr>sp_pages := (sp_pages self)[j := (page, i)]\<rparr>)
        })
      else None)"

definition pool_materialize :: "'w compute_storage \<Rightarrow> nat \<Rightarrow> sliced_pool \<Rightarrow> mem_store \<Rightarrow> 'w \<Rightarrow> (sliced_pool \<times> 'w \<times> (pool_error + unit)) option" where
  "pool_materialize cs binding self s w = do {
     found \<leftarrow> pool_find_at (descriptor_location s binding) self;
     (case found of
        None \<Rightarrow> Some (self, w, Inl SliceNotFound)
      | Some _ \<Rightarrow>
          let j = unat (lo_page (descriptor_location s binding)) in
          (case sp_pages self ! j of (page, i) \<Rightarrow>
             (case page_materialize cs page w of
                (page, w, Inl _) \<Rightarrow> Some (self\<lparr>sp_pages := (sp_pages self)[j := (page, i)]\<rparr>, w, Inl StorageFailed)
              | (page, w, Inr i) \<Rightarrow> Some (self\<lparr>sp_pages := (sp_pages self)[j := (page, i)]\<rparr>, w, Inr ()))))
   }"

definition pool_release_relocated :: "nat \<Rightarrow> sliced_pool \<Rightarrow> mem_store \<Rightarrow> (mem_store \<times> sliced_pool \<times> (pool_error + unit)) option" where
  "pool_release_relocated allocation self s =
     (let j = unat (lo_page (descriptor_location s allocation)) in
      if j < length (sp_pages self)
      then (case sp_pages self ! j of (page, i) \<Rightarrow> do {
          (s, page, ok) \<leftarrow> page_release_relocated allocation page s;
          Some (s, self\<lparr>sp_pages := (sp_pages self)[j := (page, i)]\<rparr>, ok)
        })
      else None)"

definition pool_memory_usage :: "mem_store \<Rightarrow> sliced_pool \<Rightarrow> memory_usage" where
  "pool_memory_usage s self = fold (\<lambda>(page, _) usage. usage_combine usage (page_memory_usage s page)) (sp_pages self) no_usage"

text \<open>\<open>kept\<close> is \<open>pages_tmp\<close>.  The handles of the slices of a page that is given back are dropped with it.\<close>

fun cleanup_loop ::
  "'w compute_storage \<Rightarrow> nat \<Rightarrow> (memory_page \<times> nat) list \<Rightarrow> (memory_page \<times> nat) list \<Rightarrow> mem_store \<Rightarrow> 'w \<Rightarrow>
   (mem_store \<times> (memory_page \<times> nat) list \<times> 'w) option" where
  "cleanup_loop cs index [] kept s w = Some (s, kept, w)"
| "cleanup_loop cs index ((page, i) # pages) kept s w = do {
     (s, page) \<leftarrow> page_coalesce page s;
     (if amount_free s page = amount_total page
      then cleanup_loop cs (index + 1) pages kept (fold (\<lambda>sl. drop_handle (sl_handle sl)) (pg_slices page) s)
        (if pg_mapped page then cs_dealloc cs i w else w)
      else
        let page_pos = (word_of_nat (length kept) :: 16 word);
            (s, page) = (if index \<noteq> unat page_pos then page_update_page page_pos page s else (s, page)) in
        cleanup_loop cs (index + 1) pages (kept @ [(page, i)]) s w)
   }"

definition pool_cleanup :: "'w compute_storage \<Rightarrow> bool \<Rightarrow> sliced_pool \<Rightarrow> mem_store \<Rightarrow> 'w \<Rightarrow> (mem_store \<times> sliced_pool \<times> 'w) option" where
  "pool_cleanup cs explicit self s w =
     (if \<not> explicit then Some (s, self, w)
      else do {
        (s, pages, w) \<leftarrow> cleanup_loop cs 0 (sp_pages self) [] s w;
        Some (s, self\<lparr>sp_pages := pages\<rparr>, w)
      })"

end
