(* ===== verification/Device_Bytes.thy ===== *)
theory Device_Bytes
  imports Device_Memory
begin

text \<open>
  The storage of the CPU, \<open>ruda-runtime/src/runtime/storage/bytes_cpu.rs\<close>: buffers of bytes behind identifiers, and a
  registry of the ranges that are being read or written.

  An allocation is shared by the storage, the resources and the leases that own it; \<open>bs_heap\<close> holds all of them,
  by the identifier they were made with, so a resource or a lease always finds its allocation there, and \<open>bs_memory\<close> the
  identifiers that can still be looked up.  Whether the
  allocator finds memory is the argument \<open>gives\<close>.  The pins of a resource and the barrier are not part of the model.
\<close>

datatype bytes_access_error = UnknownStorage nat | InvalidRange nat nat nat | BorrowConflict "nat \<times> nat" "nat \<times> nat"

record borrow_region =
  rg_start :: nat
  rg_end :: nat
  rg_writable :: bool

record allocated_bytes =
  ab_bytes :: "8 word list"
  ab_borrows :: "borrow_region list"

record bytes_storage =
  bs_next :: nat
  bs_heap :: "nat \<rightharpoonup> allocated_bytes"
  bs_memory :: "nat set"

record bytes_resource =
  re_allocation :: nat
  re_start :: nat
  re_end :: nat

record borrow_lease =
  le_allocation :: nat
  le_region :: borrow_region

subsection \<open>Allocating\<close>

definition bytes_alignment :: nat where
  "bytes_alignment = 4"

text \<open>\<open>Layout::from_size_align\<close>: the size, rounded up to the alignment, fits \<open>isize\<close>.\<close>

definition layout_ok :: "nat \<Rightarrow> bool" where
  "layout_ok size' \<longleftrightarrow> size' + bytes_alignment \<le> nat isize_lim"

definition bytes_alloc :: "(nat \<Rightarrow> nat \<Rightarrow> bool) \<Rightarrow> nat \<Rightarrow> bytes_storage \<Rightarrow> bytes_storage \<times> (unit + storage_handle)" where
  "bytes_alloc gives size' self =
     (if \<not> layout_ok size' then (self, Inl ())
      else
        let i = bs_next self; self = self\<lparr>bs_next := i + 1\<rparr> in
        if size' \<noteq> 0 \<and> \<not> gives i size' then (self, Inl ())
        else (self\<lparr>bs_heap := (bs_heap self)(i \<mapsto> \<lparr>ab_bytes = replicate size' 0, ab_borrows = []\<rparr>), bs_memory := insert i (bs_memory self)\<rparr>,
          Inr \<lparr>sh_id = i, sh_utilization = \<lparr>su_offset = 0, su_size = size'\<rparr>\<rparr>))"

definition bytes_dealloc :: "nat \<Rightarrow> bytes_storage \<Rightarrow> bytes_storage" where
  "bytes_dealloc i self = self\<lparr>bs_memory := bs_memory self - {i}\<rparr>"

definition storage_id_new :: "bytes_storage \<Rightarrow> bytes_storage \<times> nat" where
  "storage_id_new self = (self\<lparr>bs_next := bs_next self + 1\<rparr>, bs_next self)"

definition bytes_storage_ops :: "(nat \<Rightarrow> nat \<Rightarrow> bool) \<Rightarrow> bytes_storage compute_storage" where
  "bytes_storage_ops gives = \<lparr>cs_alloc = bytes_alloc gives, cs_dealloc = bytes_dealloc, cs_fresh_id = storage_id_new\<rparr>"

definition bytes_default :: bytes_storage where
  "bytes_default = \<lparr>bs_next = 0, bs_heap = Map.empty, bs_memory = {}\<rparr>"

subsection \<open>Resources and leases\<close>

definition bytes_try_get :: "storage_handle \<Rightarrow> bytes_storage \<Rightarrow> bytes_access_error + bytes_resource" where
  "bytes_try_get handle self =
     (if sh_id handle \<notin> bs_memory self then Inl (UnknownStorage (sh_id handle))
      else (case bs_heap self (sh_id handle) of
          None \<Rightarrow> Inl (UnknownStorage (sh_id handle))
        | Some allocation \<Rightarrow>
            let invalid = InvalidRange (sh_offset handle) (sh_size handle) (length (ab_bytes allocation)) in
            (case uadd (sh_offset handle) (sh_size handle) of
               None \<Rightarrow> Inl invalid
             | Some e \<Rightarrow>
                 if length (ab_bytes allocation) < e then Inl invalid
                 else Inr \<lparr>re_allocation = sh_id handle, re_start = sh_offset handle, re_end = e\<rparr>)))"

definition regions_overlap :: "borrow_region \<Rightarrow> borrow_region \<Rightarrow> bool" where
  "regions_overlap region existing \<longleftrightarrow> rg_start region < rg_end region \<and> rg_start existing < rg_end existing \<and>
     rg_start region < rg_end existing \<and> rg_start existing < rg_end region"

fun borrow_conflict :: "borrow_region \<Rightarrow> borrow_region list \<Rightarrow> borrow_region option" where
  "borrow_conflict region [] = None"
| "borrow_conflict region (existing # borrows) =
     (if regions_overlap region existing \<and> (rg_writable region \<or> rg_writable existing) then Some existing else borrow_conflict region borrows)"

definition lease_acquire :: "bytes_resource \<Rightarrow> bool \<Rightarrow> bytes_storage \<Rightarrow> bytes_storage \<times> (bytes_access_error + borrow_lease)" where
  "lease_acquire resource writable self =
     (case bs_heap self (re_allocation resource) of
        None \<Rightarrow> (self, Inl (UnknownStorage (re_allocation resource)))
      | Some allocation \<Rightarrow>
          let region = \<lparr>rg_start = re_start resource, rg_end = re_end resource, rg_writable = writable\<rparr> in
          (case borrow_conflict region (ab_borrows allocation) of
             Some existing \<Rightarrow> (self, Inl (BorrowConflict (rg_start region, rg_end region) (rg_start existing, rg_end existing)))
           | None \<Rightarrow>
               (self\<lparr>bs_heap := (bs_heap self)(re_allocation resource \<mapsto> allocation\<lparr>ab_borrows := ab_borrows allocation @ [region]\<rparr>)\<rparr>,
                Inr \<lparr>le_allocation = re_allocation resource, le_region = region\<rparr>)))"

text \<open>\<open>swap_remove\<close>: the last entry takes the place of the one that goes.\<close>

definition swap_remove :: "'a list \<Rightarrow> nat \<Rightarrow> 'a list" where
  "swap_remove xs i = butlast (xs[i := last xs])"

fun position_of :: "'a \<Rightarrow> 'a list \<Rightarrow> nat option" where
  "position_of x [] = None"
| "position_of x (y # ys) = (if y = x then Some 0 else map_option Suc (position_of x ys))"

text \<open>Dropping a lease panics when its range is not registered.\<close>

definition lease_drop :: "borrow_lease \<Rightarrow> bytes_storage \<Rightarrow> bytes_storage option" where
  "lease_drop lease self = do {
     allocation \<leftarrow> bs_heap self (le_allocation lease);
     index \<leftarrow> position_of (le_region lease) (ab_borrows allocation);
     Some (self\<lparr>bs_heap := (bs_heap self)(le_allocation lease \<mapsto> allocation\<lparr>ab_borrows := swap_remove (ab_borrows allocation) index\<rparr>)\<rparr>)
   }"

definition lease_len :: "borrow_lease \<Rightarrow> nat" where
  "lease_len lease = rg_end (le_region lease) - rg_start (le_region lease)"

definition as_slice :: "borrow_lease \<Rightarrow> bytes_storage \<Rightarrow> 8 word list option" where
  "as_slice lease self = do {
     allocation \<leftarrow> bs_heap self (le_allocation lease);
     Some (take (lease_len lease) (drop (rg_start (le_region lease)) (ab_bytes allocation)))
   }"

text \<open>\<open>copy_from_slice\<close> panics when the lengths differ.\<close>

definition write_slice :: "borrow_lease \<Rightarrow> 8 word list \<Rightarrow> bytes_storage \<Rightarrow> bytes_storage option" where
  "write_slice lease bytes self = do {
     allocation \<leftarrow> bs_heap self (le_allocation lease);
     _ \<leftarrow> rassert (length bytes = lease_len lease);
     Some (self\<lparr>bs_heap := (bs_heap self)(le_allocation lease \<mapsto> allocation\<lparr>ab_bytes :=
       take (rg_start (le_region lease)) (ab_bytes allocation) @ bytes @ drop (rg_start (le_region lease) + length bytes) (ab_bytes allocation)\<rparr>)\<rparr>)
   }"

abbreviation try_write :: "bytes_resource \<Rightarrow> bytes_storage \<Rightarrow> bytes_storage \<times> (bytes_access_error + borrow_lease)" where
  "try_write resource \<equiv> lease_acquire resource True"

abbreviation try_read :: "bytes_resource \<Rightarrow> bytes_storage \<Rightarrow> bytes_storage \<times> (bytes_access_error + borrow_lease)" where
  "try_read resource \<equiv> lease_acquire resource False"

text \<open>
  \<open>relocation_copy\<close>: the guards of an earlier line are dropped when a later one fails.
\<close>

definition relocation_copy :: "storage_handle \<Rightarrow> storage_handle \<Rightarrow> bytes_storage \<Rightarrow> (bytes_storage \<times> (bytes_access_error + unit)) option" where
  "relocation_copy source target self =
     (case bytes_try_get source self of
        Inl e \<Rightarrow> Some (self, Inl e)
      | Inr source \<Rightarrow>
     (case bytes_try_get target self of
        Inl e \<Rightarrow> Some (self, Inl e)
      | Inr target \<Rightarrow>
     (case try_read source self of
        (self, Inl e) \<Rightarrow> Some (self, Inl e)
      | (self, Inr read) \<Rightarrow>
     (case try_write target self of
        (self, Inl e) \<Rightarrow> do { self \<leftarrow> lease_drop read self; Some (self, Inl e) }
      | (self, Inr write) \<Rightarrow> do {
          bytes \<leftarrow> as_slice read self;
          self \<leftarrow> write_slice write bytes self;
          self \<leftarrow> lease_drop write self;
          self \<leftarrow> lease_drop read self;
          Some (self, Inr ())
        }))))"

end
