(* ===== verification/Device_Page.thy ===== *)
theory Device_Page
  imports Device_Memory
begin

text \<open>
  The slices of a memory page: they tile its buffer, each under a descriptor that knows its
  position, and reserving and merging leave the slices in use where they are.
\<close>

subsection \<open>Packed locations\<close>

lemma loc_roundtrip [simp]: "loc_from_bits (loc_to_bits l) = l"
proof -
  have "ucast (loc_to_bits l) = lo_pool l"
    by (rule bit_word_eqI) (auto simp: loc_to_bits_def bit_simps)
  moreover have "ucast (drop_bit 8 (loc_to_bits l)) = lo_page l"
    by (rule bit_word_eqI) (auto simp: loc_to_bits_def bit_simps dest: bit_imp_le_length)
  moreover have "ucast (drop_bit 24 (loc_to_bits l)) = lo_slice l"
    by (rule bit_word_eqI) (auto simp: loc_to_bits_def bit_simps dest: bit_imp_le_length)
  moreover have "ucast (drop_bit 56 (loc_to_bits l)) = lo_init l"
    by (rule bit_word_eqI) (auto simp: loc_to_bits_def bit_simps dest: bit_imp_le_length)
  ultimately show ?thesis by (cases l) (simp add: loc_from_bits_def)
qed

subsection \<open>The store\<close>

lemma store_simps [simp]:
  "descriptor_location (update_location d l s) d' = (if d' = d then l else descriptor_location s d')"
  "descriptor_location (clone_handle d s) d' = descriptor_location s d'" "descriptor_location (drop_handle d s) d' = descriptor_location s d'"
  "ms_strong (update_location d l s) = ms_strong s" "ms_next (update_location d l s) = ms_next s"
  "ms_guards (update_location d l s) = ms_guards s" "ms_next_page (update_location d l s) = ms_next_page s"
  "ms_strong (clone_handle d s) d' = (if d' = d then ms_strong s d + 1 else ms_strong s d')"
  "ms_strong (drop_handle d s) d' = (if d' = d then ms_strong s d - 1 else ms_strong s d')"
  "ms_next (clone_handle d s) = ms_next s" "ms_next (drop_handle d s) = ms_next s"
  "ms_guards (clone_handle d s) = ms_guards s" "ms_guards (drop_handle d s) = ms_guards s"
  "ms_next_page (clone_handle d s) = ms_next_page s" "ms_next_page (drop_handle d s) = ms_next_page s"
  by (simp_all add: descriptor_location_def update_location_def clone_handle_def drop_handle_def)

lemma update_slice_simps [simp]:
  "descriptor_location (update_slice d n s) d' = (if d' = d then descriptor_location s d\<lparr>lo_slice := n\<rparr> else descriptor_location s d')"
  "ms_strong (update_slice d n s) = ms_strong s" "ms_next (update_slice d n s) = ms_next s"
  "ms_guards (update_slice d n s) = ms_guards s" "ms_next_page (update_slice d n s) = ms_next_page s"
  by (simp_all add: update_slice_def)

lemma update_page_simps [simp]:
  "descriptor_location (descriptor_update_page d n s) d' = (if d' = d then descriptor_location s d\<lparr>lo_page := n\<rparr> else descriptor_location s d')"
  "ms_strong (descriptor_update_page d n s) = ms_strong s" "ms_next (descriptor_update_page d n s) = ms_next s"
  "ms_guards (descriptor_update_page d n s) = ms_guards s" "ms_next_page (descriptor_update_page d n s) = ms_next_page s"
  by (simp_all add: descriptor_update_page_def)

lemma slice_free_simps [simp]:
  "slice_is_free (update_location d l s) sl = slice_is_free s sl" "slice_is_free (update_slice d n s) sl = slice_is_free s sl"
  by (simp_all add: slice_is_free_def handle_is_free_def guarded_def)

text \<open>A new slice has a fresh descriptor and a fresh page counter.\<close>

lemma slice_new_eq:
  assumes "ms_next s + 1 < usize_lim"
  shows "\<exists>s'. slice_new st pad s = Some (s', \<lparr>sl_mapped = True, sl_page = ms_next_page s, sl_storage = st, sl_handle = ms_next s, sl_padding = pad, sl_cursor = 0\<rparr>) \<and>
    ms_next s' = ms_next s + 1 \<and> ms_strong s' = (ms_strong s)(ms_next s := 1) \<and> ms_next_page s' = ms_next_page s + 1 \<and>
    ms_guards s' = (ms_guards s)(ms_next_page s := 0) \<and> (\<forall>d. d \<noteq> ms_next s \<longrightarrow> descriptor_location s' d = descriptor_location s d)"
  using assms by (simp add: slice_new_def new_handle_def new_page_ref_def Let_def descriptor_location_def)

text \<open>
  What an operation on the slices with the handles \<open>A\<close> leaves alone: all other descriptors, the guards,
  and the references to handles in use.
\<close>

definition quiet :: "nat set \<Rightarrow> mem_store \<Rightarrow> mem_store \<Rightarrow> bool" where
  "quiet A s s' \<longleftrightarrow> ms_next s \<le> ms_next s' \<and> ms_next_page s \<le> ms_next_page s' \<and>
     (\<forall>g < ms_next_page s. ms_guards s' g = ms_guards s g) \<and>
     (\<forall>d < ms_next s. d \<notin> A \<longrightarrow> ms_strong s' d = ms_strong s d \<and> descriptor_location s' d = descriptor_location s d) \<and>
     (\<forall>d < ms_next s. 2 \<le> ms_strong s d \<longrightarrow> ms_strong s' d = ms_strong s d)"

lemma quiet_refl [simp]: "quiet A s s"
  by (simp add: quiet_def)

lemma quiet_trans:
  assumes "quiet A s s1" "quiet B s1 s2" "\<And>d. d \<in> B \<Longrightarrow> d < ms_next s \<Longrightarrow> d \<in> A"
  shows "quiet A s s2"
proof -
  have "d < ms_next s1" if "d < ms_next s" for d using assms(1) that by (simp add: quiet_def)
  moreover have "g < ms_next_page s1" if "g < ms_next_page s" for g using assms(1) that by (simp add: quiet_def)
  moreover have "ms_next s \<le> ms_next s2" "ms_next_page s \<le> ms_next_page s2" using assms(1,2) by (simp_all add: quiet_def)
  ultimately show ?thesis using assms unfolding quiet_def by metis
qed

lemma quiet_mono: "quiet A s s' \<Longrightarrow> A \<subseteq> B \<Longrightarrow> quiet B s s'"
  unfolding quiet_def by blast

subsection \<open>Tiled slices\<close>

abbreviation handles :: "mem_slice list \<Rightarrow> nat list" where
  "handles sls \<equiv> map sl_handle sls"

fun tiles :: "nat \<Rightarrow> nat \<Rightarrow> mem_slice list \<Rightarrow> nat \<Rightarrow> bool" where
  "tiles a off [] e \<longleftrightarrow> off = e"
| "tiles a off (sl # sls) e \<longleftrightarrow> sh_offset (sl_storage sl) = off \<and> 0 < effective_size sl \<and> a dvd off \<and> tiles a (off + effective_size sl) sls e"

lemma tiles_append: "tiles a off (xs @ ys) e \<longleftrightarrow> (\<exists>m. tiles a off xs m \<and> tiles a m ys e)"
  by (induction xs arbitrary: off) auto

lemma tiles_le: "tiles a off sls e \<Longrightarrow> off \<le> e"
  by (induction sls arbitrary: off) force+

lemma tiles_member:
  assumes "tiles a off sls e" "sl \<in> set sls"
  shows "off \<le> sh_offset (sl_storage sl) \<and> sh_offset (sl_storage sl) + effective_size sl \<le> e \<and> a dvd sh_offset (sl_storage sl)"
  using assms by (induction sls arbitrary: off) (force dest: tiles_le)+

text \<open>Different slices do not overlap.\<close>

lemma tiles_disjoint:
  assumes "tiles a off sls e" "i < j" "j < length sls"
  shows "sh_offset (sl_storage (sls ! i)) + effective_size (sls ! i) \<le> sh_offset (sl_storage (sls ! j))"
  using assms
proof (induction sls arbitrary: off i j)
  case (Cons sl sls)
  obtain j' where j: "j = Suc j'" using Cons.prems(2) by (cases j) auto
  show ?case
  proof (cases i)
    case 0
    have "sls ! j' \<in> set sls" using Cons.prems(3) j by simp
    then show ?thesis using tiles_member [of a "off + effective_size sl" sls e "sls ! j'"] Cons.prems(1) 0 j by auto
  next
    case (Suc i')
    then show ?thesis using Cons.IH [of "off + effective_size sl" i' j'] Cons.prems j by simp
  qed
qed simp

text \<open>The descriptors know their positions.\<close>

definition at_slice :: "memory_location \<Rightarrow> nat \<Rightarrow> memory_location" where
  "at_slice base i = base\<lparr>lo_slice := word_of_nat i\<rparr>"

lemma at_slice_update [simp]: "base\<lparr>lo_slice := word_of_nat j\<rparr> = at_slice base j" "at_slice (at_slice base i) j = at_slice base j"
  by (simp_all add: at_slice_def)

definition located :: "mem_store \<Rightarrow> memory_location \<Rightarrow> nat \<Rightarrow> mem_slice list \<Rightarrow> bool" where
  "located s base n sls \<longleftrightarrow> (\<forall>i < length sls. descriptor_location s (sl_handle (sls ! i)) = at_slice base (n + i))"

lemma located_simps [simp]:
  "located s base n []" "located s base n (sl # sls) \<longleftrightarrow> descriptor_location s (sl_handle sl) = at_slice base n \<and> located s base (Suc n) sls"
  by (auto simp: located_def nth_Cons split: nat.splits)

lemma located_append [simp]: "located s base n (xs @ ys) \<longleftrightarrow> located s base n xs \<and> located s base (n + length xs) ys"
  by (induction xs arbitrary: n) auto

lemma located_counts [simp]: "located (drop_handle d s) base n sls = located s base n sls" "located (clone_handle d s) base n sls = located s base n sls"
  by (simp_all add: located_def)

lemma located_cong: "(\<And>d. d \<in> set (handles sls) \<Longrightarrow> descriptor_location s' d = descriptor_location s d) \<Longrightarrow> located s' base n sls = located s base n sls"
  by (simp add: located_def)

definition owned :: "mem_store \<Rightarrow> mem_slice list \<Rightarrow> bool" where
  "owned s sls \<longleftrightarrow> distinct (handles sls) \<and> (\<forall>d \<in> set (handles sls). d < ms_next s \<and> 1 \<le> ms_strong s d)"

text \<open>The handles somebody else refers to, with what they stand for.\<close>

definition held_slices :: "mem_store \<Rightarrow> mem_slice list \<Rightarrow> (nat \<times> storage_handle) set" where
  "held_slices s sls = {(sl_handle sl, sl_storage sl) |sl. sl \<in> set sls \<and> 2 \<le> ms_strong s (sl_handle sl)}"

lemma held_simps [simp]:
  "held_slices s [] = {}" "held_slices s (xs @ ys) = held_slices s xs \<union> held_slices s ys"
  "held_slices s (sl # sls) = (if 2 \<le> ms_strong s (sl_handle sl) then {(sl_handle sl, sl_storage sl)} else {}) \<union> held_slices s sls"
  by (auto simp: held_slices_def)

lemma held_cong: "(\<And>d. d \<in> set (handles sls) \<Longrightarrow> ms_strong s' d = ms_strong s d) \<Longrightarrow> held_slices s' sls = held_slices s sls"
  by (auto simp: held_slices_def)

text \<open>All slices of a page share its buffer, its mapping and its guard.\<close>

definition uniform :: "bool \<Rightarrow> nat \<Rightarrow> nat \<Rightarrow> mem_slice list \<Rightarrow> bool" where
  "uniform m g i sls \<longleftrightarrow> (\<forall>sl \<in> set sls. sl_mapped sl = m \<and> sl_page sl = g \<and> sh_id (sl_storage sl) = i)"

lemma uniform_simps [simp]:
  "uniform m g i []" "uniform m g i (xs @ ys) \<longleftrightarrow> uniform m g i xs \<and> uniform m g i ys"
  "uniform m g i (sl # sls) \<longleftrightarrow> (sl_mapped sl = m \<and> sl_page sl = g \<and> sh_id (sl_storage sl) = i) \<and> uniform m g i sls"
  by (auto simp: uniform_def)

lemma free_unguarded: "\<not> guarded s g \<Longrightarrow> sl_page sl = g \<Longrightarrow> slice_is_free s sl \<longleftrightarrow> ms_strong s (sl_handle sl) \<le> 1"
  by (simp add: slice_is_free_def handle_is_free_def)

text \<open>There is a free slice of at least \<open>n\<close> bytes.\<close>

definition free_slot :: "mem_store \<Rightarrow> nat \<Rightarrow> mem_slice list \<Rightarrow> bool" where
  "free_slot s n sls \<longleftrightarrow> (\<exists>sl \<in> set sls. ms_strong s (sl_handle sl) \<le> 1 \<and> n \<le> effective_size sl)"

lemma slot_simps [simp]:
  "\<not> free_slot s n []" "free_slot s n (xs @ ys) \<longleftrightarrow> free_slot s n xs \<or> free_slot s n ys"
  "free_slot s n (sl # sls) \<longleftrightarrow> ms_strong s (sl_handle sl) \<le> 1 \<and> n \<le> effective_size sl \<or> free_slot s n sls"
  by (auto simp: free_slot_def)

lemma slot_cong: "(\<And>d. d \<in> set (handles sls) \<Longrightarrow> ms_strong s' d = ms_strong s d) \<Longrightarrow> free_slot s' n sls = free_slot s n sls"
  by (auto simp: free_slot_def)

subsection \<open>Merging\<close>

definition pend :: "mem_slice option \<Rightarrow> mem_slice list" where
  "pend p = (case p of None \<Rightarrow> [] | Some f \<Rightarrow> [f])"

lemma pend_simps [simp]: "pend None = []" "pend (Some f) = [f]"
  by (simp_all add: pend_def)

lemma owned_append: "owned s (xs @ ys) \<longleftrightarrow> owned s xs \<and> owned s ys \<and> set (handles xs) \<inter> set (handles ys) = {}"
  by (auto simp: owned_def)

lemma owned_quiet:
  assumes "owned s sls" "quiet A s s'" "set (handles sls) \<inter> A = {}"
  shows "owned s' sls"
proof -
  have "ms_strong s' d = ms_strong s d" "d < ms_next s'" if "d \<in> set (handles sls)" for d
    using assms that unfolding owned_def quiet_def by (blast, force)
  then show ?thesis using assms(1) unfolding owned_def by metis
qed

lemma quiet_same:
  assumes "quiet A s s'" "owned s sls" "set (handles sls) \<inter> A = {}" "d \<in> set (handles sls)"
  shows "ms_strong s' d = ms_strong s d" "descriptor_location s' d = descriptor_location s d"
  using assms unfolding owned_def quiet_def by blast+

lemma quiet_guarded: "quiet A s s' \<Longrightarrow> g < ms_next_page s \<Longrightarrow> guarded s' g = guarded s g"
  by (simp add: quiet_def guarded_def)

lemma flush_ok:
  assumes own: "owned s (outs @ f # sls)" and one: "ms_strong s (sl_handle f) = 1" and room: "ms_next s + 1 < usize_lim"
    and uni: "uniform m g (sh_id st) [f]" and g: "\<not> guarded s g" "g < ms_next_page s"
    and sz: "count = 1 \<longrightarrow> size' = effective_size f" and c: "1 \<le> count"
  shows "\<exists>s' sl. flush_run st base f size' count outs s = Some (s', outs @ [sl]) \<and> effective_size sl = size' \<and>
    sh_offset (sl_storage sl) = sh_offset (sl_storage f) \<and> uniform m g (sh_id st) [sl] \<and> quiet {sl_handle f} s s' \<and>
    ms_strong s' (sl_handle sl) = 1 \<and> descriptor_location s' (sl_handle sl) = at_slice base (length outs) \<and> ms_next s' \<le> ms_next s + 1 \<and>
    sl_handle sl < ms_next s' \<and> (sl_handle sl = sl_handle f \<or> sl_handle sl = ms_next s)"
proof (cases "count = 1")
  case True
  let ?s' = "update_location (sl_handle f) (at_slice base (length outs)) s"
  have "quiet {sl_handle f} s ?s'" by (simp add: quiet_def)
  moreover have "sl_handle f < ms_next s" using own by (simp add: owned_def)
  ultimately show ?thesis using True uni sz one by (simp add: flush_run_def)
next
  case False
  let ?st = "st\<lparr>sh_utilization := \<lparr>su_offset = sh_offset (sl_storage f), su_size = size'\<rparr>\<rparr>"
  obtain s1 where n: "slice_new ?st 0 s = Some (s1, \<lparr>sl_mapped = True, sl_page = ms_next_page s, sl_storage = ?st, sl_handle = ms_next s, sl_padding = 0, sl_cursor = 0\<rparr>)"
    "ms_next s1 = ms_next s + 1" "ms_strong s1 = (ms_strong s)(ms_next s := 1)" "ms_next_page s1 = ms_next_page s + 1"
    "ms_guards s1 = (ms_guards s)(ms_next_page s := 0)" "\<forall>d. d \<noteq> ms_next s \<longrightarrow> descriptor_location s1 d = descriptor_location s d"
    using slice_new_eq [OF room] by blast
  let ?sl = "\<lparr>sl_mapped = sl_mapped f, sl_page = sl_page f, sl_storage = ?st, sl_handle = ms_next s, sl_padding = 0, sl_cursor = 0\<rparr>"
  let ?s' = "update_location (ms_next s) (at_slice base (length outs)) (drop_handle (sl_handle f) s1)"
  have f: "sl_handle f < ms_next s" using own by (simp add: owned_def)
  have run: "flush_run st base f size' count outs s = Some (?s', outs @ [?sl])" using False c n(1) by (simp add: flush_run_def)
  have "quiet {sl_handle f} s ?s'" using n one f by (auto simp: quiet_def)
  then show ?thesis using run uni n f by (auto simp: effective_size_def)
qed

lemma update_slice_quiet [simp]: "quiet {d} s (update_slice d n s)"
  by (simp add: quiet_def)

lemma drop_free_quiet: "ms_strong s d \<le> 1 \<Longrightarrow> quiet {d} s (drop_handle d s)"
  by (simp add: quiet_def)

text \<open>The state of the loop: \<open>outs\<close> and a pending free run are merged, \<open>sls\<close> is left, all of it tiles the page.\<close>

record merge_env =
  me_align :: nat
  me_end :: nat
  me_storage :: storage_handle
  me_base :: memory_location
  me_guard :: nat
  me_mapped :: bool

definition run_pending :: "merge_env \<Rightarrow> nat \<Rightarrow> mem_slice option \<Rightarrow> nat \<Rightarrow> nat \<Rightarrow> mem_store \<Rightarrow> bool" where
  "run_pending v off pending size' count s \<longleftrightarrow>
     (case pending of
        None \<Rightarrow> size' = 0 \<and> count = 0
      | Some f \<Rightarrow> sh_offset (sl_storage f) = off \<and> me_align v dvd off \<and> 0 < size' \<and> ms_strong s (sl_handle f) = 1 \<and> 1 \<le> count \<and>
          (count = 1 \<longrightarrow> size' = effective_size f))"

definition merging :: "merge_env \<Rightarrow> nat \<Rightarrow> mem_slice list \<Rightarrow> mem_slice option \<Rightarrow> nat \<Rightarrow> nat \<Rightarrow> mem_slice list \<Rightarrow> mem_store \<Rightarrow> bool" where
  "merging v index sls pending size' count outs s \<longleftrightarrow>
     (\<exists>off. tiles (me_align v) 0 outs off \<and> tiles (me_align v) (off + size') sls (me_end v) \<and> run_pending v off pending size' count s) \<and>
     owned s (outs @ pend pending @ sls) \<and> located s (me_base v) 0 outs \<and> located s (me_base v) index sls \<and>
     uniform (me_mapped v) (me_guard v) (sh_id (me_storage v)) (outs @ pend pending @ sls) \<and>
     \<not> guarded s (me_guard v) \<and> me_guard v < ms_next_page s \<and> ms_next s + length (pend pending @ sls) < usize_lim \<and> me_end v < usize_lim"

definition merged :: "merge_env \<Rightarrow> mem_slice list \<Rightarrow> mem_store \<Rightarrow> bool" where
  "merged v out s \<longleftrightarrow> tiles (me_align v) 0 out (me_end v) \<and> owned s out \<and> located s (me_base v) 0 out \<and>
     uniform (me_mapped v) (me_guard v) (sh_id (me_storage v)) out"

lemma merging_flush:
  assumes "merging v index sls (Some f) size' count outs s"
  shows "\<exists>s' sl. flush_run (me_storage v) (me_base v) f size' count outs s = Some (s', outs @ [sl]) \<and>
    merging v index sls None 0 0 (outs @ [sl]) s' \<and> quiet {sl_handle f} s s' \<and> effective_size sl = size' \<and> ms_strong s' (sl_handle sl) = 1 \<and>
    ms_next s' \<le> ms_next s + 1 \<and> (sl_handle sl = sl_handle f \<or> sl_handle sl = ms_next s)"
proof -
  obtain off where t: "tiles (me_align v) 0 outs off" "tiles (me_align v) (off + size') sls (me_end v)"
    and p: "sh_offset (sl_storage f) = off" "me_align v dvd off" "0 < size'" "ms_strong s (sl_handle f) = 1" "1 \<le> count"
      "count = 1 \<longrightarrow> size' = effective_size f"
    using assms by (auto simp: merging_def run_pending_def)
  have own: "owned s (outs @ f # sls)" and uni: "uniform (me_mapped v) (me_guard v) (sh_id (me_storage v)) (outs @ f # sls)"
    and loc: "located s (me_base v) 0 outs" "located s (me_base v) index sls" and g: "\<not> guarded s (me_guard v)" "me_guard v < ms_next_page s"
    and room: "ms_next s + 1 + length sls < usize_lim" and e: "me_end v < usize_lim"
    using assms by (simp_all add: merging_def)
  have uni1: "uniform (me_mapped v) (me_guard v) (sh_id (me_storage v)) [f]" using uni by simp
  obtain s' sl where r: "flush_run (me_storage v) (me_base v) f size' count outs s = Some (s', outs @ [sl])" "effective_size sl = size'"
    "sh_offset (sl_storage sl) = sh_offset (sl_storage f)" "uniform (me_mapped v) (me_guard v) (sh_id (me_storage v)) [sl]" "quiet {sl_handle f} s s'"
    "ms_strong s' (sl_handle sl) = 1" "descriptor_location s' (sl_handle sl) = at_slice (me_base v) (length outs)" "ms_next s' \<le> ms_next s + 1"
    "sl_handle sl < ms_next s'" "sl_handle sl = sl_handle f \<or> sl_handle sl = ms_next s"
    using flush_ok [where base = "me_base v", OF own p(4) _ uni1 g p(6,5)] room by auto
  have out: "owned s (outs @ sls)" "set (handles (outs @ sls)) \<inter> {sl_handle f} = {}" using own by (auto simp: owned_def)
  note same = quiet_same [OF r(5) out]
  have "ms_next s \<notin> set (handles (outs @ sls))" using out(1) unfolding owned_def by blast
  moreover have "sl_handle f \<notin> set (handles (outs @ sls))" using out(2) by blast
  ultimately have "sl_handle sl \<notin> set (handles (outs @ sls))" using r(10) by metis
  then have own': "owned s' ((outs @ [sl]) @ sls)" using owned_quiet [OF out(1) r(5) out(2)] r(6,9) by (auto simp: owned_def)
  have loc': "located s' (me_base v) 0 (outs @ [sl])" "located s' (me_base v) index sls"
    using loc r(7) same located_cong [where sls = outs and s = s and s' = s'] located_cong [where sls = sls and s = s and s' = s'] by auto
  have t': "tiles (me_align v) 0 (outs @ [sl]) (off + size')" using t(1) p r(2,3) by (auto simp: tiles_append)
  have "merging v index sls None 0 0 (outs @ [sl]) s'"
    unfolding merging_def using t' t(2) own' loc' uni r(4,8) room e quiet_guarded [OF r(5) g(2)] g r(5)
    by (auto simp: run_pending_def quiet_def)
  then show ?thesis using r by blast
qed

lemma merging_keep:
  assumes m: "merging v index (sl # sls) None 0 0 outs s" and s': "s' = (if index \<noteq> length outs then update_slice (sl_handle sl) (word_of_nat (length outs)) s else s)"
  shows "merging v (index + 1) sls None 0 0 (outs @ [sl]) s'" "quiet {sl_handle sl} s s'" "ms_strong s' = ms_strong s" "ms_next s' = ms_next s"
proof -
  show q: "quiet {sl_handle sl} s s'" and st: "ms_strong s' = ms_strong s" "ms_next s' = ms_next s" by (simp_all add: s')
  obtain off where t: "tiles (me_align v) 0 outs off" "tiles (me_align v) off (sl # sls) (me_end v)" using m by (auto simp: merging_def)
  have own: "owned s (outs @ sl # sls)" and loc: "located s (me_base v) 0 outs" "located s (me_base v) (Suc index) sls"
    "descriptor_location s (sl_handle sl) = at_slice (me_base v) index"
    using m by (simp_all add: merging_def)
  have out: "owned s (outs @ sls)" "set (handles (outs @ sls)) \<inter> {sl_handle sl} = {}" using own by (auto simp: owned_def)
  note same = quiet_same [OF q out]
  have "descriptor_location s' (sl_handle sl) = at_slice (me_base v) (length outs)" using loc(3) by (simp add: s')
  then have loc': "located s' (me_base v) 0 (outs @ [sl])" "located s' (me_base v) (Suc index) sls"
    using loc same located_cong [where sls = outs and s = s and s' = s'] located_cong [where sls = sls and s = s and s' = s'] by auto
  have own': "owned s' ((outs @ [sl]) @ sls)" using own by (simp add: owned_def st)
  have t': "tiles (me_align v) 0 (outs @ [sl]) (off + effective_size sl)" using t by (auto simp: tiles_append)
  show "merging v (index + 1) sls None 0 0 (outs @ [sl]) s'"
    unfolding merging_def using t' t(2) own' loc' m by (auto simp: merging_def run_pending_def s' guarded_def)
qed

lemma free_run_cong:
  "(\<And>sl. sl \<in> set sls \<Longrightarrow> slice_is_free s' sl = slice_is_free s sl) \<Longrightarrow> free_run s' n f sls = free_run s n f sls"
  by (induction sls arbitrary: f) (auto simp: Let_def)

text \<open>The outcome of merging: the slices in use stay, and a free slice is as large as the run it came from.\<close>

definition merge_result :: "merge_env \<Rightarrow> mem_slice list \<Rightarrow> mem_slice option \<Rightarrow> nat \<Rightarrow> mem_slice list \<Rightarrow> mem_store \<Rightarrow> mem_store \<Rightarrow> mem_slice list \<Rightarrow> bool" where
  "merge_result v sls pending size' outs s s' out \<longleftrightarrow> merged v out s' \<and> quiet (set (handles (pend pending @ sls))) s s' \<and>
     held_slices s' out = held_slices s (outs @ sls) \<and> ms_next s' \<le> ms_next s + length (pend pending @ sls) \<and>
     (\<forall>n > 0. free_slot s' n out \<longleftrightarrow> free_slot s n outs \<or> n \<le> size' \<or> free_run s n size' sls)"

lemma merge_result_step:
  assumes r: "merge_result v sls None 0 (outs @ [x]) s1 s2 out" and q: "quiet A s s1" and own: "owned s outs" "owned s sls"
    and A: "set (handles outs) \<inter> A = {}" "set (handles sls) \<inter> A = {}" "A \<subseteq> B" "set (handles sls) \<subseteq> B"
    and x: "held_slices s1 [x] = H" "\<And>n. free_slot s1 n [x] = X n" and n: "ms_next s1 \<le> ms_next s + k" and g: "me_guard v < ms_next_page s"
    and uni: "uniform (me_mapped v) (me_guard v) (sh_id (me_storage v)) sls"
  shows "merged v out s2 \<and> quiet B s s2 \<and> held_slices s2 out = held_slices s outs \<union> H \<union> held_slices s sls \<and> ms_next s2 \<le> ms_next s + k + length sls \<and>
    (\<forall>n > 0. free_slot s2 n out \<longleftrightarrow> free_slot s n outs \<or> X n \<or> free_run s n 0 sls)"
proof -
  note so = quiet_same(1) [OF q own(1) A(1)] and ss = quiet_same(1) [OF q own(2) A(2)]
  have "slice_is_free s1 sl = slice_is_free s sl" if "sl \<in> set sls" for sl
    using ss [of "sl_handle sl"] that uni quiet_guarded [OF q g] by (simp add: slice_is_free_def handle_is_free_def uniform_def)
  then have fr: "free_run s1 n 0 sls = free_run s n 0 sls" for n by (rule free_run_cong)
  have h: "held_slices s1 outs = held_slices s outs" "held_slices s1 sls = held_slices s sls" using so ss held_cong by blast+
  have sl: "free_slot s1 n outs = free_slot s n outs" for n using so slot_cong by blast
  have "quiet (set (handles sls)) s1 s2" using r by (simp add: merge_result_def)
  then have "quiet B s s2" using quiet_trans [OF quiet_mono [OF q A(3)]] A(4) by blast
  moreover have "held_slices s2 out = held_slices s outs \<union> H \<union> held_slices s sls" using r h x(1) by (auto simp: merge_result_def)
  moreover have "free_slot s2 n out \<longleftrightarrow> free_slot s n outs \<or> X n \<or> free_run s n 0 sls" if "0 < n" for n
    using r sl [of n] x(2) [of n] fr [of n] that by (auto simp: merge_result_def)
  ultimately show ?thesis using r n by (auto simp: merge_result_def)
qed

lemma coalesce_loop_done:
  assumes m: "merging v index [] pending size' count outs s"
  shows "\<exists>s' out. coalesce_loop (me_storage v) (me_base v) index [] pending size' count outs s = Some (s', out) \<and>
    merge_result v [] pending size' outs s s' out"
proof (cases pending)
  case None
  then have "merged v outs s" "size' = 0" using m by (auto simp: merging_def run_pending_def merged_def)
  then show ?thesis using None by (simp add: merge_result_def)
next
  case (Some f)
  obtain s' sl where r: "flush_run (me_storage v) (me_base v) f size' count outs s = Some (s', outs @ [sl])"
    "merging v index [] None 0 0 (outs @ [sl]) s'" "quiet {sl_handle f} s s'" "effective_size sl = size'" "ms_strong s' (sl_handle sl) = 1"
    "ms_next s' \<le> ms_next s + 1"
    using merging_flush [OF m [unfolded Some]] by blast
  have own: "owned s outs" "set (handles outs) \<inter> {sl_handle f} = {}" using m Some by (auto simp: merging_def owned_def)
  note same = quiet_same(1) [OF r(3) own]
  have "held_slices s' outs = held_slices s outs" "free_slot s' n outs = free_slot s n outs" for n using same held_cong slot_cong by blast+
  moreover have "merged v (outs @ [sl]) s'" using r(2) by (auto simp: merging_def merged_def run_pending_def)
  ultimately have "merge_result v [] pending size' outs s s' (outs @ [sl])"
    using r(3-6) Some by (simp add: merge_result_def)
  then show ?thesis using r(1) Some by simp
qed

lemma merging_free:
  assumes m: "merging v index (sl # sls) pending size' count outs s" and free: "slice_is_free s sl"
  shows "merging v (index + 1) sls (Some (case pending of None \<Rightarrow> sl | Some f \<Rightarrow> f)) (size' + effective_size sl) (count + 1) outs
      (if pending = None then s else drop_handle (sl_handle sl) s)"
    "ms_strong s (sl_handle sl) = 1" "size' + effective_size sl < usize_lim"
proof -
  obtain off where t: "tiles (me_align v) 0 outs off" "tiles (me_align v) (off + size') (sl # sls) (me_end v)" "run_pending v off pending size' count s"
    using m by (auto simp: merging_def)
  have own: "owned s (outs @ pend pending @ sl # sls)" using m by (simp add: merging_def)
  show one: "ms_strong s (sl_handle sl) = 1" using free own by (auto simp: slice_is_free_def handle_is_free_def owned_def)
  show "size' + effective_size sl < usize_lim" using t(2) tiles_le [of "me_align v" "off + size' + effective_size sl" sls "me_end v"] m by (simp add: merging_def)
  show "merging v (index + 1) sls (Some (case pending of None \<Rightarrow> sl | Some f \<Rightarrow> f)) (size' + effective_size sl) (count + 1) outs
      (if pending = None then s else drop_handle (sl_handle sl) s)"
  proof (cases pending)
    case None
    then show ?thesis using m t one by (auto simp: merging_def run_pending_def)
  next
    case (Some f)
    let ?s = "drop_handle (sl_handle sl) s"
    have d: "sl_handle sl \<notin> set (handles (outs @ f # sls))" using own Some by (auto simp: owned_def)
    have "owned ?s (outs @ f # sls)" using own d Some by (auto simp: owned_def)
    moreover have "located ?s (me_base v) 0 outs" "located ?s (me_base v) (Suc index) sls" using m by (simp_all add: merging_def)
    moreover have "run_pending v off (Some f) (size' + effective_size sl) (count + 1) ?s" using t(3) d Some by (auto simp: run_pending_def)
    ultimately show ?thesis using m t Some by (auto simp: merging_def guarded_def add.assoc)
  qed
qed

lemma coalesce_loop_ok:
  assumes "merging v index sls pending size' count outs s"
  shows "\<exists>s' out. coalesce_loop (me_storage v) (me_base v) index sls pending size' count outs s = Some (s', out) \<and>
    merge_result v sls pending size' outs s s' out"
  using assms
proof (induction sls arbitrary: index pending size' count outs s)
  case Nil
  then show ?case by (rule coalesce_loop_done)
next
  case (Cons sl sls)
  have keep: "\<exists>s' out. coalesce_loop (me_storage v) (me_base v) i (sl # sls) None 0 0 outs0 s0 = Some (s', out) \<and>
      merge_result v (sl # sls) None 0 outs0 s0 s' out"
    if m: "merging v i (sl # sls) None 0 0 outs0 s0" and busy: "\<not> slice_is_free s0 sl" for i outs0 s0
  proof -
    obtain s1 where s1: "s1 = (if i \<noteq> length outs0 then update_slice (sl_handle sl) (word_of_nat (length outs0)) s0 else s0)" by simp
    note K = merging_keep [OF m s1]
    obtain s' out where r: "coalesce_loop (me_storage v) (me_base v) (i + 1) sls None 0 0 (outs0 @ [sl]) s1 = Some (s', out)"
      "merge_result v sls None 0 (outs0 @ [sl]) s1 s' out" using Cons.IH [OF K(1)] by blast
    have two: "2 \<le> ms_strong s0 (sl_handle sl)" using busy m by (auto simp: merging_def free_unguarded)
    have own: "owned s0 outs0" "owned s0 sls" "set (handles outs0) \<inter> {sl_handle sl} = {}" "set (handles sls) \<inter> {sl_handle sl} = {}"
      using m by (auto simp: merging_def owned_def)
    have x: "held_slices s1 [sl] = {(sl_handle sl, sl_storage sl)}" "free_slot s1 n [sl] = False" for n using two K(3) by simp_all
    have "merged v out s' \<and> quiet (set (handles (sl # sls))) s0 s' \<and> held_slices s' out = held_slices s0 outs0 \<union> {(sl_handle sl, sl_storage sl)} \<union> held_slices s0 sls \<and>
        ms_next s' \<le> ms_next s0 + 0 + length sls \<and> (\<forall>n > 0. free_slot s' n out \<longleftrightarrow> free_slot s0 n outs0 \<or> False \<or> free_run s0 n 0 sls)"
      by (rule merge_result_step [OF r(2) K(2) own _ _ x]) (use m K(4) in \<open>auto simp: merging_def\<close>)
    then have "merge_result v (sl # sls) None 0 outs0 s0 s' out" using two busy by (auto simp: merge_result_def)
    moreover have "coalesce_loop (me_storage v) (me_base v) i (sl # sls) None 0 0 outs0 s0 = Some (s', out)"
      using busy r(1) s1 by simp
    ultimately show ?thesis by blast
  qed
  show ?case
  proof (cases "slice_is_free s sl")
    case True
    note F = merging_free [OF Cons.prems True]
    obtain s' out where r: "coalesce_loop (me_storage v) (me_base v) (index + 1) sls (Some (case pending of None \<Rightarrow> sl | Some f \<Rightarrow> f))
        (size' + effective_size sl) (count + 1) outs (if pending = None then s else drop_handle (sl_handle sl) s) = Some (s', out)"
      "merge_result v sls (Some (case pending of None \<Rightarrow> sl | Some f \<Rightarrow> f)) (size' + effective_size sl) outs
        (if pending = None then s else drop_handle (sl_handle sl) s) s' out" using Cons.IH [OF F(1)] by blast
    have run: "coalesce_loop (me_storage v) (me_base v) index (sl # sls) pending size' count outs s = Some (s', out)"
      using True r(1) by (cases pending) simp_all
    have fr: "free_run s n size' (sl # sls) \<longleftrightarrow> n \<le> size' + effective_size sl \<or> free_run s n (size' + effective_size sl) sls" for n
    proof -
      have "min (size' + effective_size sl) (usize_lim - 1) = size' + effective_size sl" using F(3) by (simp add: min_absorb1)
      then show ?thesis using True by (simp add: Let_def)
    qed
    have "merge_result v (sl # sls) pending size' outs s s' out"
    proof (cases pending)
      case None
      then have "size' = 0" using Cons.prems by (auto simp: merging_def run_pending_def)
      then show ?thesis using r(2) None F(2) fr by (auto simp: merge_result_def)
    next
      case (Some f)
      let ?s = "drop_handle (sl_handle sl) s"
      have q: "quiet {sl_handle sl} s ?s" using F(2) by (simp add: drop_free_quiet)
      have own: "owned s (outs @ f # sls)" "set (handles (outs @ f # sls)) \<inter> {sl_handle sl} = {}"
        using Cons.prems Some by (auto simp: merging_def owned_def)
      note same = quiet_same(1) [OF q own]
      have h: "held_slices ?s (outs @ sls) = held_slices s (outs @ sls)" by (rule held_cong) (rule same, auto)
      have so: "free_slot ?s n outs = free_slot s n outs" for n by (rule slot_cong) (rule same, auto)
      have "free_run ?s n (size' + effective_size sl) sls = free_run s n (size' + effective_size sl) sls" for n
        by (rule free_run_cong) (use same in \<open>auto simp: slice_is_free_def handle_is_free_def guarded_def\<close>)
      moreover have q2: "quiet (set (handles (f # sls))) ?s s'" using r(2) Some by (simp add: merge_result_def)
      have q1: "quiet (set (handles (f # sl # sls))) s ?s" by (rule quiet_mono [OF q]) simp
      have "quiet (set (handles (f # sl # sls))) s s'" by (rule quiet_trans [OF q1 q2]) auto
      ultimately show ?thesis using r(2) Some F(2) fr h so by (auto simp: merge_result_def)
    qed
    then show ?thesis using run by blast
  next
    case False
    show ?thesis
    proof (cases pending)
      case None
      then have "size' = 0" "count = 0" using Cons.prems by (auto simp: merging_def run_pending_def)
      then show ?thesis using keep [of index outs s] Cons.prems False None by simp
    next
      case (Some f)
      obtain s0 msl where r: "flush_run (me_storage v) (me_base v) f size' count outs s = Some (s0, outs @ [msl])"
        "merging v index (sl # sls) None 0 0 (outs @ [msl]) s0" "quiet {sl_handle f} s s0" "effective_size msl = size'" "ms_strong s0 (sl_handle msl) = 1"
        "ms_next s0 \<le> ms_next s + 1"
        using merging_flush [OF Cons.prems [unfolded Some]] by blast
      have own: "owned s outs" "owned s (sl # sls)" "set (handles outs) \<inter> {sl_handle f} = {}" "set (handles (sl # sls)) \<inter> {sl_handle f} = {}"
        using Cons.prems Some by (auto simp: merging_def owned_def)
      have g: "me_guard v < ms_next_page s" "uniform (me_mapped v) (me_guard v) (sh_id (me_storage v)) (sl # sls)" using Cons.prems by (auto simp: merging_def)
      have "slice_is_free s0 sl = slice_is_free s sl"
        using quiet_same(1) [OF r(3) own(2,4), of "sl_handle sl"] quiet_guarded [OF r(3) g(1)] g(2) by (simp add: slice_is_free_def handle_is_free_def)
      then have busy: "\<not> slice_is_free s0 sl" using False by simp
      obtain s' out where k: "coalesce_loop (me_storage v) (me_base v) index (sl # sls) None 0 0 (outs @ [msl]) s0 = Some (s', out)"
        "merge_result v (sl # sls) None 0 (outs @ [msl]) s0 s' out" using keep [OF r(2) busy] by blast
      have x: "held_slices s0 [msl] = {}" "free_slot s0 n [msl] = (n \<le> size')" for n using r(4,5) by simp_all
      have "merged v out s' \<and> quiet (set (handles (f # sl # sls))) s s' \<and> held_slices s' out = held_slices s outs \<union> {} \<union> held_slices s (sl # sls) \<and>
          ms_next s' \<le> ms_next s + 1 + length (sl # sls) \<and> (\<forall>n > 0. free_slot s' n out \<longleftrightarrow> free_slot s n outs \<or> n \<le> size' \<or> free_run s n 0 (sl # sls))"
        by (rule merge_result_step [OF k(2) r(3) own _ _ x r(6) g]) auto
      moreover have "free_run s n size' (sl # sls) = free_run s n 0 (sl # sls)" for n using False by simp
      ultimately have "merge_result v (sl # sls) pending size' outs s s' out" using Some by (auto simp: merge_result_def)
      moreover have "coalesce_loop (me_storage v) (me_base v) index (sl # sls) pending size' count outs s = Some (s', out)"
        using k(1) Some r(1) False busy by simp
      ultimately show ?thesis by blast
    qed
  qed
qed

subsection \<open>The invariant of a page\<close>

definition page_ok :: "mem_store \<Rightarrow> memory_page \<Rightarrow> bool" where
  "page_ok s pg \<longleftrightarrow> tiles (pg_alignment pg) 0 (pg_slices pg) (sh_size (pg_storage pg)) \<and> owned s (pg_slices pg) \<and>
     located s (pg_location_base pg) 0 (pg_slices pg) \<and> uniform (pg_mapped pg) (pg_page pg) (sh_id (pg_storage pg)) (pg_slices pg) \<and>
     pg_page pg < ms_next_page s \<and> 0 < pg_alignment pg \<and> sh_size (pg_storage pg) < usize_lim"

definition same_page :: "memory_page \<Rightarrow> memory_page \<Rightarrow> bool" where
  "same_page pg pg' \<longleftrightarrow> pg' = pg\<lparr>pg_slices := pg_slices pg'\<rparr>"

lemma same_pageD:
  assumes "same_page pg pg'"
  shows "pg_mapped pg' = pg_mapped pg" "pg_page pg' = pg_page pg" "pg_storage pg' = pg_storage pg" "pg_alignment pg' = pg_alignment pg"
    "pg_location_base pg' = pg_location_base pg"
  using assms [unfolded same_page_def] by (metis memory_page.select_convs memory_page.surjective memory_page.update_convs)+

lemma same_page_refl [simp]: "same_page pg pg"
  by (simp add: same_page_def)

lemma same_page_slices [simp]: "same_page pg (pg\<lparr>pg_slices := sls\<rparr>)"
  by (simp add: same_page_def)

lemma adjacent_unguarded: "adjacent_free s sls \<Longrightarrow> uniform m g i sls \<Longrightarrow> \<not> guarded s g"
  by (induction s sls rule: adjacent_free.induct) (auto simp: slice_is_free_def)

lemma free_run_spaced:
  assumes "\<not> adjacent_free s sls" "\<not> guarded s g" "uniform m g i sls" "\<forall>sl \<in> set sls. effective_size sl < usize_lim" "0 < n"
  shows "free_run s n 0 sls \<longleftrightarrow> free_slot s n sls"
  using assms
proof (induction s sls rule: adjacent_free.induct [case_names Pair Empty One])
  case (Pair s x y sls)
  have f: "slice_is_free s x \<longleftrightarrow> ms_strong s (sl_handle x) \<le> 1" using Pair by (intro free_unguarded) auto
  have IH: "free_run s n 0 (y # sls) \<longleftrightarrow> free_slot s n (y # sls)" using Pair by simp
  have "effective_size x < usize_lim" using Pair by simp
  then have "min (effective_size x) (usize_lim - 1) = effective_size x" by (simp add: min_absorb1)
  moreover have "slice_is_free s x \<Longrightarrow> free_run s n (effective_size x) (y # sls) = free_run s n 0 (y # sls)" using Pair by simp
  ultimately show ?case using IH f Pair(6) by (cases "slice_is_free s x") (simp_all add: Let_def)
next
  case (One s x)
  have f: "slice_is_free s x \<longleftrightarrow> ms_strong s (sl_handle x) \<le> 1" using One by (intro free_unguarded) auto
  have "effective_size x < usize_lim" using One by simp
  then have "min (effective_size x) (usize_lim - 1) = effective_size x" by (simp add: min_absorb1)
  then show ?case using f One(5) by (simp add: Let_def)
qed simp

lemma tiles_sizes: "tiles a off sls e \<Longrightarrow> \<forall>sl \<in> set sls. effective_size sl \<le> e"
  using tiles_member by fastforce

definition page_env :: "memory_page \<Rightarrow> merge_env" where
  "page_env pg = \<lparr>me_align = pg_alignment pg, me_end = sh_size (pg_storage pg), me_storage = pg_storage pg, me_base = pg_location_base pg,
     me_guard = pg_page pg, me_mapped = pg_mapped pg\<rparr>"

text \<open>
  Merging keeps what is in use; afterwards there is a free slice of \<open>n\<close> bytes exactly when there was a
  run of free slices with as many.
\<close>

lemma page_coalesce_ok:
  assumes ok: "page_ok s pg" and room: "ms_next s + length (pg_slices pg) < usize_lim"
  shows "\<exists>s' pg'. page_coalesce pg s = Some (s', pg') \<and> page_ok s' pg' \<and> same_page pg pg' \<and> quiet (set (handles (pg_slices pg))) s s' \<and>
    held_slices s' (pg_slices pg') = held_slices s (pg_slices pg) \<and> ms_next s' \<le> ms_next s + length (pg_slices pg) \<and>
    (\<not> guarded s (pg_page pg) \<longrightarrow> (\<forall>n > 0. free_slot s' n (pg_slices pg') \<longleftrightarrow> free_run s n 0 (pg_slices pg)))"
proof (cases "adjacent_free s (pg_slices pg)")
  case True
  note K = ok [unfolded page_ok_def]
  have g: "\<not> guarded s (pg_page pg)" using adjacent_unguarded [OF True] K by blast
  have m: "merging (page_env pg) 0 (pg_slices pg) None 0 0 [] s"
    using K g room by (simp add: merging_def page_env_def run_pending_def)
  obtain s' out where r: "coalesce_loop (pg_storage pg) (pg_location_base pg) 0 (pg_slices pg) None 0 0 [] s = Some (s', out)"
    "merge_result (page_env pg) (pg_slices pg) None 0 [] s s' out"
    using coalesce_loop_ok [OF m] by (auto simp: page_env_def)
  have "ms_next_page s \<le> ms_next_page s'" using r(2) by (simp add: merge_result_def quiet_def)
  then have "page_ok s' (pg\<lparr>pg_slices := out\<rparr>)" using K r(2) by (simp add: merge_result_def merged_def page_env_def page_ok_def)
  moreover have "page_coalesce pg s = Some (s', pg\<lparr>pg_slices := out\<rparr>)" using True r(1) by (simp add: page_coalesce_def)
  ultimately show ?thesis using r(2) by (simp add: merge_result_def)
next
  case False
  note K = ok [unfolded page_ok_def]
  have "\<forall>sl \<in> set (pg_slices pg). effective_size sl < usize_lim" using tiles_sizes K by fastforce
  then have "free_slot s n (pg_slices pg) \<longleftrightarrow> free_run s n 0 (pg_slices pg)" if "\<not> guarded s (pg_page pg)" "0 < n" for n
    using free_run_spaced [OF False that(1) _ _ that(2)] K by blast
  then show ?thesis using False ok by (simp add: page_coalesce_def)
qed

end
