(* ===== verification/Device_Reserve.thy ===== *)
theory Device_Reserve
  imports Device_Page
begin

text \<open>
  Reserving, binding and releasing slices of a memory page.
\<close>

subsection \<open>Reserving\<close>

lemma find_slot_Some:
  "find_slot s n i sls = Some k \<Longrightarrow> \<exists>xs sl ys. sls = xs @ sl # ys \<and> k = i + length xs \<and> n \<le> effective_size sl \<and> ms_strong s (sl_handle sl) \<le> 1"
proof (induction sls arbitrary: i)
  case (Cons sl sls)
  show ?case
  proof (cases "n \<le> effective_size sl \<and> handle_is_free s (sl_handle sl)")
    case True
    then show ?thesis using Cons.prems by (intro exI [of _ "[]"]) (auto simp: handle_is_free_def)
  next
    case False
    then obtain xs sl' ys where "sls = xs @ sl' # ys" "k = i + 1 + length xs" "n \<le> effective_size sl'" "ms_strong s (sl_handle sl') \<le> 1"
      using Cons.IH [of "i + 1"] Cons.prems by (auto split: if_splits)
    then show ?thesis by (intro exI [of _ "sl # xs"]) auto
  qed
qed simp

lemma find_slot_None: "find_slot s n i sls = None \<longleftrightarrow> \<not> free_slot s n sls"
  by (induction sls arbitrary: i) (auto simp: handle_is_free_def)

lemma update_later_eq: "update_later n sls = fold (\<lambda>(i, sl). update_slice (sl_handle sl) (word_of_nat i)) (zip [n..<length sls] (drop n sls))"
  by (simp add: update_later_def enumerate_eq_zip drop_zip fun_eq_iff)

lemma fold_update_slice:
  fixes n :: nat
  assumes "located s base m sls" "distinct (handles sls)"
  defines "s' \<equiv> fold (\<lambda>(i, sl). update_slice (sl_handle sl) (word_of_nat i)) (zip [n..<n + length sls] sls) s"
  shows "located s' base n sls \<and> ms_strong s' = ms_strong s \<and> ms_next s' = ms_next s \<and> ms_guards s' = ms_guards s \<and> ms_next_page s' = ms_next_page s \<and>
    (\<forall>d. d \<notin> set (handles sls) \<longrightarrow> descriptor_location s' d = descriptor_location s d)"
  using assms(1,2) unfolding s'_def
proof (induction sls arbitrary: s m n)
  case (Cons sl sls)
  let ?s = "update_slice (sl_handle sl) (word_of_nat n) s"
  have "sl_handle sl \<notin> set (handles sls)" using Cons.prems(2) by simp
  then have "descriptor_location ?s d = descriptor_location s d" if "d \<in> set (handles sls)" for d using that by (metis update_slice_simps(1))
  then have l: "located ?s base (Suc m) sls" using Cons.prems(1) located_cong [of sls ?s s] by simp
  have z: "zip [n..<n + length (sl # sls)] (sl # sls) = (n, sl) # zip [Suc n..<Suc n + length sls] sls" by (simp add: upt_conv_Cons del: upt_Suc)
  show ?case unfolding z using Cons.IH [OF l, of "Suc n"] Cons.prems by auto
qed simp

lemma calculate_padding_ok:
  assumes "0 < a"
  shows "\<exists>padding. calculate_padding n a = Some padding \<and> padding < a \<and> a dvd n + padding"
proof (cases "n mod a = 0")
  case False
  have "n mod a < a" "a * (n div a) + n mod a = n" using assms by simp_all
  then have "n + (a - n mod a) = a * (n div a) + a" by linarith
  then have "n + (a - n mod a) = a * (n div a + 1)" by simp
  then show ?thesis using False assms by (simp add: calculate_padding_def)
qed (use assms in \<open>auto simp: calculate_padding_def\<close>)

text \<open>The slice that is handed out, and the rest of a larger one.\<close>

definition used_slice :: "mem_slice \<Rightarrow> nat \<Rightarrow> nat \<Rightarrow> mem_slice" where
  "used_slice sl size' padding = sl\<lparr>sl_storage := (sl_storage sl)\<lparr>sh_utilization := (sh_utilization (sl_storage sl))\<lparr>su_size := size'\<rparr>\<rparr>, sl_padding := padding\<rparr>"

lemma used_slice_simps [simp]:
  "sl_handle (used_slice sl n p) = sl_handle sl" "effective_size (used_slice sl n p) = n + p" "sh_offset (sl_storage (used_slice sl n p)) = sh_offset (sl_storage sl)"
  "sh_size (sl_storage (used_slice sl n p)) = n" "sh_id (sl_storage (used_slice sl n p)) = sh_id (sl_storage sl)"
  "sl_mapped (used_slice sl n p) = sl_mapped sl" "sl_page (used_slice sl n p) = sl_page sl"
  by (simp_all add: used_slice_def effective_size_def)

lemma used_slice_again [simp]:
  "(used_slice sl n p)\<lparr>sl_storage := (sl_storage (used_slice sl n p))\<lparr>sh_utilization := (sh_utilization (sl_storage (used_slice sl n p)))\<lparr>su_size := n\<rparr>\<rparr>\<rparr> =
   used_slice sl n p"
  by (cases sl) (simp add: used_slice_def)

text \<open>The outcome of a reservation: a slice nobody used, of the size asked for, now in use.\<close>

definition reserved :: "nat \<Rightarrow> memory_page \<Rightarrow> mem_store \<Rightarrow> memory_page \<Rightarrow> mem_store \<Rightarrow> nat \<Rightarrow> bool" where
  "reserved size' pg s pg' s' h \<longleftrightarrow> ms_strong s h = 1 \<and> ms_strong s' h = 2 \<and> h \<in> set (handles (pg_slices pg)) \<and>
     (\<exists>st. held_slices s' (pg_slices pg') = insert (h, st) (held_slices s (pg_slices pg)) \<and> sh_size st = size' \<and> sh_id st = sh_id (pg_storage pg) \<and>
       pg_alignment pg dvd sh_offset st \<and> sh_offset st + size' \<le> sh_size (pg_storage pg))"

lemma held_clone:
  "h \<notin> set (handles xs) \<Longrightarrow> held_slices (clone_handle h s) xs = held_slices s xs"
  by (rule held_cong) (metis store_simps(8))

lemma reserve_whole:
  assumes ok: "page_ok s pg" and sls: "pg_slices pg = xs @ sl # ys" and one: "ms_strong s (sl_handle sl) \<le> 1" and eff: "effective_size sl = size' + padding"
  defines "s' \<equiv> clone_handle (sl_handle sl) s" and "pg' \<equiv> pg\<lparr>pg_slices := xs @ used_slice sl size' padding # ys\<rparr>"
  shows "page_ok s' pg' \<and> reserved size' pg s pg' s' (sl_handle sl) \<and> quiet (set (handles (pg_slices pg))) s s' \<and> ms_next s' = ms_next s"
proof -
  note K = ok [unfolded page_ok_def sls]
  have d: "sl_handle sl \<notin> set (handles (xs @ ys))" "ms_strong s (sl_handle sl) = 1" using K one by (auto simp: owned_def)
  have "tiles (pg_alignment pg) 0 (xs @ used_slice sl size' padding # ys) (sh_size (pg_storage pg))" using K eff by (auto simp: tiles_append)
  moreover have "owned s' (xs @ used_slice sl size' padding # ys)" using K by (auto simp: owned_def s'_def)
  moreover have "located s' (pg_location_base pg) 0 (xs @ used_slice sl size' padding # ys)" using K by (simp add: s'_def)
  ultimately have "page_ok s' pg'" using K by (simp add: page_ok_def pg'_def s'_def)
  moreover have "held_slices s' (pg_slices pg') = insert (sl_handle sl, sl_storage (used_slice sl size' padding)) (held_slices s (pg_slices pg))"
    using d held_clone [of "sl_handle sl"] by (simp add: pg'_def s'_def sls)
  moreover have "sh_offset (sl_storage sl) + effective_size sl \<le> sh_size (pg_storage pg) \<and> pg_alignment pg dvd sh_offset (sl_storage sl)"
    using tiles_member [of "pg_alignment pg" 0 "xs @ sl # ys" "sh_size (pg_storage pg)" sl] K by simp
  then have "\<exists>st. st = sl_storage (used_slice sl size' padding) \<and> sh_size st = size' \<and> sh_id st = sh_id (pg_storage pg) \<and> pg_alignment pg dvd sh_offset st \<and>
      sh_offset st + size' \<le> sh_size (pg_storage pg)" using K eff by auto
  ultimately show ?thesis using d by (auto simp: reserved_def s'_def sls quiet_def)
qed

lemma reserve_split:
  assumes ok: "page_ok s pg" and sls: "pg_slices pg = xs @ sl # ys" and one: "ms_strong s (sl_handle sl) \<le> 1"
    and eff: "size' + padding < effective_size sl" and pad: "pg_alignment pg dvd size' + padding" "0 < size'" and room: "ms_next s + 1 < usize_lim"
  shows "\<exists>s1 s' new. slice_new \<lparr>sh_id = sh_id (pg_storage pg), sh_utilization = \<lparr>su_offset = sh_offset (sl_storage sl) + (size' + padding), su_size = effective_size sl - (size' + padding)\<rparr>\<rparr> 0
      (clone_handle (sl_handle sl) s) = Some (s1, new) \<and>
    add_new_slice (length xs) size' (new\<lparr>sl_mapped := pg_mapped pg, sl_page := pg_page pg\<rparr>) (pg\<lparr>pg_slices := xs @ used_slice sl size' padding # ys\<rparr>) s1 =
      (s', pg\<lparr>pg_slices := xs @ used_slice sl size' padding # new\<lparr>sl_mapped := pg_mapped pg, sl_page := pg_page pg\<rparr> # ys\<rparr>) \<and>
    page_ok s' (pg\<lparr>pg_slices := xs @ used_slice sl size' padding # new\<lparr>sl_mapped := pg_mapped pg, sl_page := pg_page pg\<rparr> # ys\<rparr>) \<and>
    reserved size' pg s (pg\<lparr>pg_slices := xs @ used_slice sl size' padding # new\<lparr>sl_mapped := pg_mapped pg, sl_page := pg_page pg\<rparr> # ys\<rparr>) s' (sl_handle sl) \<and>
    quiet (set (handles (pg_slices pg))) s s' \<and> ms_next s' = ms_next s + 1"
proof -
  note K = ok [unfolded page_ok_def sls]
  have d: "sl_handle sl \<notin> set (handles (xs @ ys))" "ms_strong s (sl_handle sl) = 1" using K one by (auto simp: owned_def)
  have lt: "h < ms_next s" if "h \<in> set (handles (xs @ sl # ys))" for h using K that by (auto simp: owned_def)
  let ?st = "\<lparr>sh_id = sh_id (pg_storage pg), sh_utilization = \<lparr>su_offset = sh_offset (sl_storage sl) + (size' + padding), su_size = effective_size sl - (size' + padding)\<rparr>\<rparr>"
  let ?s0 = "clone_handle (sl_handle sl) s"
  obtain s1 where n: "slice_new ?st 0 ?s0 = Some (s1, \<lparr>sl_mapped = True, sl_page = ms_next_page s, sl_storage = ?st, sl_handle = ms_next s, sl_padding = 0, sl_cursor = 0\<rparr>)"
    "ms_next s1 = ms_next s + 1" "ms_strong s1 = (ms_strong ?s0)(ms_next s := 1)" "ms_next_page s1 = ms_next_page s + 1"
    "ms_guards s1 = (ms_guards s)(ms_next_page s := 0)" "\<forall>d. d \<noteq> ms_next s \<longrightarrow> descriptor_location s1 d = descriptor_location s d"
    using slice_new_eq [of ?s0 ?st 0] room by auto
  let ?new = "\<lparr>sl_mapped = pg_mapped pg, sl_page = pg_page pg, sl_storage = ?st, sl_handle = ms_next s, sl_padding = 0, sl_cursor = 0\<rparr>"
  let ?u = "used_slice sl size' padding"
  let ?s2 = "update_location (ms_next s) (at_slice (pg_location_base pg) (Suc (length xs))) s1"
  let ?sls = "xs @ ?u # ?new # ys"
  let ?s' = "update_later (Suc (Suc (length xs))) ?sls ?s2"
  have "located s (pg_location_base pg) (Suc (length xs)) ys" using K by simp
  moreover have hy: "ms_next s \<notin> set (handles (xs @ sl # ys))" using lt by blast
  have "descriptor_location ?s2 h = descriptor_location s h" if "h \<in> set (handles ys)" for h
  proof -
    have "h < ms_next s" using lt [of h] that by simp
    then show ?thesis using n(6) by simp
  qed
  ultimately have l2: "located ?s2 (pg_location_base pg) (Suc (length xs)) ys"
    using located_cong [where sls = ys and s = s and s' = ?s2] by blast
  have later: "?s' = fold (\<lambda>(i, sl). update_slice (sl_handle sl) (word_of_nat i)) (zip [Suc (Suc (length xs))..<Suc (Suc (length xs)) + length ys] ys) ?s2"
    by (simp add: update_later_eq)
  have dy: "distinct (handles ys)" using K by (auto simp: owned_def)
  have F: "located ?s' (pg_location_base pg) (Suc (Suc (length xs))) ys" "ms_strong ?s' = ms_strong ?s2" "ms_next ?s' = ms_next ?s2"
    "ms_guards ?s' = ms_guards ?s2" "ms_next_page ?s' = ms_next_page ?s2"
    "\<And>d. d \<notin> set (handles ys) \<Longrightarrow> descriptor_location ?s' d = descriptor_location ?s2 d"
    unfolding later using fold_update_slice [OF l2 dy, of "Suc (Suc (length xs))"] by auto
  have locs: "descriptor_location ?s' h = descriptor_location s h" if "h \<in> set (handles (xs @ [sl]))" for h
  proof -
    have "h \<in> set (handles xs) \<or> h = sl_handle sl" using that by auto
    moreover have "set (handles xs) \<inter> set (handles ys) = {}" "sl_handle sl \<notin> set (handles ys)" using K by (simp_all add: owned_def)
    ultimately have "h \<notin> set (handles ys)" by blast
    moreover have "h < ms_next s" using lt [of h] that by auto
    ultimately show ?thesis using F(6) n(6) by simp
  qed
  have "descriptor_location ?s' (ms_next s) = at_slice (pg_location_base pg) (Suc (length xs))" using F(6) hy by simp
  moreover have "located ?s' (pg_location_base pg) 0 (xs @ [?u])"
  proof -
    have "located ?s' (pg_location_base pg) 0 xs" using K located_cong [where sls = xs and s = s and s' = ?s'] locs by (metis Un_iff located_append map_append set_append)
    moreover have "descriptor_location ?s' (sl_handle sl) = at_slice (pg_location_base pg) (length xs)" using locs [of "sl_handle sl"] K by simp
    ultimately show ?thesis by simp
  qed
  ultimately have loc: "located ?s' (pg_location_base pg) 0 ?sls" using F(1) by simp
  have strong: "ms_strong ?s' h = ms_strong s h" if "h \<in> set (handles (xs @ ys))" for h
  proof -
    have "h \<noteq> sl_handle sl" using that d(1) by blast
    moreover have "h < ms_next s" using lt [of h] that by auto
    ultimately show ?thesis using F(2) n(3) by simp
  qed
  have two: "ms_strong ?s' (sl_handle sl) = 2" "ms_strong ?s' (ms_next s) = 1" using F(2) n(3) d(2) hy by auto
  have "distinct (handles ?sls)" using K hy by (auto simp: owned_def)
  moreover have "h < ms_next ?s' \<and> 1 \<le> ms_strong ?s' h" if "h \<in> set (handles ?sls)" for h
  proof -
    have "h \<in> set (handles (xs @ ys)) \<or> h = sl_handle sl \<or> h = ms_next s" using that by auto
    then consider "h \<in> set (handles (xs @ ys))" | "h = sl_handle sl" | "h = ms_next s" by blast
    then show ?thesis
    proof cases
      case 1
      then have "1 \<le> ms_strong s h" "h < ms_next s" using K lt by (auto simp: owned_def)
      then show ?thesis using strong [OF 1] F(3) n(2) by simp
    qed (use two lt [of h] F(3) n(2) in auto)
  qed
  ultimately have own: "owned ?s' ?sls" by (simp add: owned_def)
  have off: "sh_offset (sl_storage sl) + effective_size sl \<le> sh_size (pg_storage pg) \<and> pg_alignment pg dvd sh_offset (sl_storage sl)"
    using tiles_member [of "pg_alignment pg" 0 "xs @ sl # ys" "sh_size (pg_storage pg)" sl] K by simp
  have "effective_size ?new = effective_size sl - (size' + padding)" by (simp add: effective_size_def)
  then have "tiles (pg_alignment pg) 0 ?sls (sh_size (pg_storage pg))"
    using K eff pad off by (auto simp: tiles_append)
  then have ok': "page_ok ?s' (pg\<lparr>pg_slices := ?sls\<rparr>)" using K own loc F(5) n(4) by (simp add: page_ok_def)
  have "held_slices ?s' xs = held_slices s xs" "held_slices ?s' ys = held_slices s ys" using strong by (auto intro!: held_cong)
  then have "held_slices ?s' ?sls = insert (sl_handle sl, sl_storage ?u) (held_slices s (xs @ sl # ys))" using two d(2) by auto
  moreover have "sh_size (sl_storage ?u) = size' \<and> sh_id (sl_storage ?u) = sh_id (pg_storage pg) \<and> pg_alignment pg dvd sh_offset (sl_storage ?u) \<and>
      sh_offset (sl_storage ?u) + size' \<le> sh_size (pg_storage pg)" using K eff off by simp
  ultimately have res: "reserved size' pg s (pg\<lparr>pg_slices := ?sls\<rparr>) ?s' (sl_handle sl)"
    unfolding reserved_def sls using two d(2) by auto
  have "quiet (set (handles (xs @ sl # ys))) s ?s'"
    unfolding quiet_def using F(2-6) n d(2) hy by auto
  moreover have "add_new_slice (length xs) size' ?new (pg\<lparr>pg_slices := xs @ ?u # ys\<rparr>) s1 = (?s', pg\<lparr>pg_slices := ?sls\<rparr>)"
    by (simp add: add_new_slice_def Let_def)
  moreover have "ms_next ?s' = ms_next s + 1" using F(3) n(2) by simp
  ultimately show ?thesis using n(1) ok' res by (simp add: sls)
qed

text \<open>
  Reserving hands out a free slice when there is one of the padded size; otherwise, and while a recorded graph
  guards the page, it changes nothing.
\<close>

lemma page_try_reserve_ok:
  assumes ok: "page_ok s pg" and pos: "0 < size'" and pad: "calculate_padding size' (pg_alignment pg) = Some padding" "size' + padding < usize_lim"
    and room: "ms_next s + 1 < usize_lim"
  shows "\<exists>s' pg' r. page_try_reserve size' pg s = Some (s', pg', r) \<and> page_ok s' pg' \<and> same_page pg pg' \<and> quiet (set (handles (pg_slices pg))) s s' \<and>
    ms_next s' \<le> ms_next s + 1 \<and> (r = None \<longleftrightarrow> guarded s (pg_page pg) \<or> \<not> free_slot s (size' + padding) (pg_slices pg)) \<and>
    (case r of None \<Rightarrow> s' = s \<and> pg' = pg | Some h \<Rightarrow> reserved size' pg s pg' s' h)"
proof (cases "guarded s (pg_page pg) \<or> \<not> free_slot s (size' + padding) (pg_slices pg)")
  case True
  then have "page_try_reserve size' pg s = Some (s, pg, None)"
    using pad find_slot_None [of s "size' + padding" 0 "pg_slices pg"] by (auto simp: page_try_reserve_def uadd_def)
  then show ?thesis using ok True by simp
next
  case False
  then obtain k where k: "find_slot s (size' + padding) 0 (pg_slices pg) = Some k"
    using find_slot_None [of s "size' + padding" 0 "pg_slices pg"] by auto
  obtain xs sl ys where sls: "pg_slices pg = xs @ sl # ys" "k = length xs" "size' + padding \<le> effective_size sl" "ms_strong s (sl_handle sl) \<le> 1"
    using find_slot_Some [OF k] by auto
  have dvd: "pg_alignment pg dvd size' + padding"
    using calculate_padding_ok [of "pg_alignment pg" size'] ok pad by (auto simp: page_ok_def)
  have upd: "(pg_slices pg)[k := used_slice sl size' padding] = xs @ used_slice sl size' padding # ys" "pg_slices pg ! k = sl" using sls by simp_all
  note unf = page_try_reserve_def uadd_def used_slice_def [symmetric] Let_def
  show ?thesis
  proof (cases "size' + padding < effective_size sl")
    case True
    let ?new = "\<lambda>new. pg\<lparr>pg_slices := xs @ used_slice sl size' padding # new\<lparr>sl_mapped := pg_mapped pg, sl_page := pg_page pg\<rparr> # ys\<rparr>"
    obtain s1 s' new where r: "slice_new \<lparr>sh_id = sh_id (pg_storage pg), sh_utilization = \<lparr>su_offset = sh_offset (sl_storage sl) + (size' + padding), su_size = effective_size sl - (size' + padding)\<rparr>\<rparr> 0
        (clone_handle (sl_handle sl) s) = Some (s1, new)"
      "add_new_slice (length xs) size' (new\<lparr>sl_mapped := pg_mapped pg, sl_page := pg_page pg\<rparr>) (pg\<lparr>pg_slices := xs @ used_slice sl size' padding # ys\<rparr>) s1 = (s', ?new new)"
      "page_ok s' (?new new)" "reserved size' pg s (?new new) s' (sl_handle sl)" "quiet (set (handles (pg_slices pg))) s s'" "ms_next s' = ms_next s + 1"
      using reserve_split [OF ok sls(1,4) True dvd pos room] by blast
    have "sh_offset (sl_storage sl) + effective_size sl \<le> sh_size (pg_storage pg)" "sh_id (sl_storage sl) = sh_id (pg_storage pg)"
      using tiles_member [of "pg_alignment pg" 0 "pg_slices pg" "sh_size (pg_storage pg)" sl] ok sls(1) by (auto simp: page_ok_def)
    moreover have "sh_size (pg_storage pg) < usize_lim" using ok by (simp add: page_ok_def)
    ultimately have "offset_start ((sl_storage sl)\<lparr>sh_utilization := (sh_utilization (sl_storage sl))\<lparr>su_size := effective_size sl\<rparr>\<rparr>) (size' + padding) =
        Some \<lparr>sh_id = sh_id (pg_storage pg), sh_utilization = \<lparr>su_offset = sh_offset (sl_storage sl) + (size' + padding), su_size = effective_size sl - (size' + padding)\<rparr>\<rparr>"
      using True by (simp add: offset_start_def uadd_def usub_def)
    then have "page_try_reserve size' pg s = Some (s', ?new new, Some (sl_handle sl))"
      using False k pad upd True r(1,2) sls(2) by (simp add: unf)
    then show ?thesis using r(3-6) False by simp
  next
    case whole: False
    then have eff: "effective_size sl = size' + padding" using sls(3) by simp
    note W = reserve_whole [OF ok sls(1,4) eff]
    have "page_try_reserve size' pg s = Some (clone_handle (sl_handle sl) s, pg\<lparr>pg_slices := xs @ used_slice sl size' padding # ys\<rparr>, Some (sl_handle sl))"
      using False k pad upd whole by (simp add: unf)
    then show ?thesis using W False by simp
  qed
qed

end
