(* ===== verification/Device_Page_Ops.thy ===== *)
theory Device_Page_Ops
  imports Device_Reserve
begin

text \<open>
  The other operations of a memory page: creating it, binding a handle, moving it to another
  position of its pool, giving it a buffer, releasing a slice whose data has moved.
\<close>

subsection \<open>What an operation on other slices leaves alone\<close>

definition keeps :: "nat set \<Rightarrow> mem_store \<Rightarrow> mem_store \<Rightarrow> bool" where
  "keeps A s s' \<longleftrightarrow> ms_next s \<le> ms_next s' \<and> ms_next_page s \<le> ms_next_page s' \<and> (\<forall>g < ms_next_page s. ms_guards s' g = ms_guards s g) \<and>
     (\<forall>d < ms_next s. d \<notin> A \<longrightarrow> ms_strong s' d = ms_strong s d \<and> descriptor_location s' d = descriptor_location s d)"

lemma quiet_keeps: "quiet A s s' \<Longrightarrow> keeps A s s'"
  by (simp add: quiet_def keeps_def)

lemma keeps_refl [simp]: "keeps A s s"
  by (simp add: keeps_def)

lemma keeps_trans:
  assumes "keeps A s s1" "keeps B s1 s2" "\<And>d. d \<in> B \<Longrightarrow> d < ms_next s \<Longrightarrow> d \<in> A"
  shows "keeps A s s2"
proof -
  have "d < ms_next s1" if "d < ms_next s" for d using assms(1) that by (simp add: keeps_def)
  moreover have "g < ms_next_page s1" if "g < ms_next_page s" for g using assms(1) that by (simp add: keeps_def)
  moreover have "ms_next s \<le> ms_next s2" "ms_next_page s \<le> ms_next_page s2" using assms(1,2) by (simp_all add: keeps_def)
  ultimately show ?thesis using assms unfolding keeps_def by metis
qed

lemma keeps_mono: "keeps A s s' \<Longrightarrow> A \<subseteq> B \<Longrightarrow> keeps B s s'"
  unfolding keeps_def by blast

lemma keeps_guarded: "keeps A s s' \<Longrightarrow> g < ms_next_page s \<Longrightarrow> guarded s' g = guarded s g"
  by (simp add: keeps_def guarded_def)

text \<open>The state of a page as its slices see it.\<close>

definition page_same :: "mem_store \<Rightarrow> mem_store \<Rightarrow> memory_page \<Rightarrow> bool" where
  "page_same s s' pg \<longleftrightarrow> held_slices s' (pg_slices pg) = held_slices s (pg_slices pg) \<and> (\<forall>sl \<in> set (pg_slices pg). slice_is_free s' sl = slice_is_free s sl) \<and>
     guarded s' (pg_page pg) = guarded s (pg_page pg)"

lemma page_frame:
  assumes ok: "page_ok s pg" and k: "keeps A s s'" and A: "set (handles (pg_slices pg)) \<inter> A = {}"
  shows "page_ok s' pg" "page_same s s' pg"
proof -
  note K = ok [unfolded page_ok_def]
  have lt: "d < ms_next s" if "d \<in> set (handles (pg_slices pg))" for d using K that unfolding owned_def by blast
  have same: "ms_strong s' d = ms_strong s d" "descriptor_location s' d = descriptor_location s d" if "d \<in> set (handles (pg_slices pg))" for d
    using k A lt [OF that] that unfolding keeps_def by blast+
  have "ms_next s \<le> ms_next s'" using k by (simp add: keeps_def)
  then have "owned s' (pg_slices pg)" using K same(1) unfolding owned_def by (metis order_less_le_trans)
  moreover have "located s' (pg_location_base pg) 0 (pg_slices pg)"
    using K located_cong [where sls = "pg_slices pg" and s = s and s' = s'] same(2) by blast
  moreover have "pg_page pg < ms_next_page s'" using K k by (simp add: keeps_def)
  ultimately show "page_ok s' pg" using K by (simp add: page_ok_def)
  have g: "guarded s' (pg_page pg) = guarded s (pg_page pg)" using keeps_guarded [OF k] K by blast
  moreover have "held_slices s' (pg_slices pg) = held_slices s (pg_slices pg)" using same(1) held_cong by blast
  moreover have "slice_is_free s' sl = slice_is_free s sl" if "sl \<in> set (pg_slices pg)" for sl
    using that same(1) [of "sl_handle sl"] g K by (simp add: slice_is_free_def handle_is_free_def uniform_def)
  ultimately show "page_same s s' pg" by (simp add: page_same_def)
qed

subsection \<open>Positions\<close>

lemma at_slice_sel [simp]:
  "lo_slice (at_slice base i) = word_of_nat i" "lo_page (at_slice base i) = lo_page base" "lo_pool (at_slice base i) = lo_pool base"
  "lo_init (at_slice base i) = lo_init base"
  by (simp_all add: at_slice_def del: at_slice_update)

lemma at_slice_zero [simp]: "base\<lparr>lo_slice := 0\<rparr> = at_slice base 0"
  by (simp add: at_slice_def del: at_slice_update)

lemma tiles_index:
  assumes "tiles a off sls e" "i < length sls" "0 < a"
  shows "off + i * a \<le> sh_offset (sl_storage (sls ! i))"
  using assms
proof (induction sls arbitrary: off i)
  case (Cons sl sls)
  show ?case
  proof (cases i)
    case 0
    then show ?thesis using Cons.prems by simp
  next
    case (Suc j)
    then have "sls \<noteq> []" using Cons.prems(2) by auto
    then have "a dvd off + effective_size sl" using Cons.prems(1) by (cases sls) simp_all
    moreover have "a dvd off" "0 < effective_size sl" using Cons.prems(1) by simp_all
    ultimately have "a \<le> effective_size sl" by (metis dvd_add_right_iff dvd_imp_le)
    moreover have "off + effective_size sl + j * a \<le> sh_offset (sl_storage (sls ! j))"
      using Cons.IH [of "off + effective_size sl" j] Cons.prems Suc by simp
    ultimately show ?thesis using Suc by simp
  qed
qed simp

text \<open>A slice is found at its position as long as the indices fit 32 bits.\<close>

definition page_fits :: "memory_page \<Rightarrow> bool" where
  "page_fits pg \<longleftrightarrow> sh_size (pg_storage pg) \<le> 2 ^ 32 * pg_alignment pg"

lemma page_index:
  assumes "page_ok s pg" "page_fits pg" "i < length (pg_slices pg)"
  shows "i < 2 ^ 32" "unat (lo_slice (descriptor_location s (sl_handle (pg_slices pg ! i)))) = i"
    "lo_page (descriptor_location s (sl_handle (pg_slices pg ! i))) = lo_page (pg_location_base pg)"
    "lo_pool (descriptor_location s (sl_handle (pg_slices pg ! i))) = lo_pool (pg_location_base pg)"
    "lo_init (descriptor_location s (sl_handle (pg_slices pg ! i))) = lo_init (pg_location_base pg)"
proof -
  note K = assms(1) [unfolded page_ok_def]
  have "i * pg_alignment pg \<le> sh_offset (sl_storage (pg_slices pg ! i))"
    using tiles_index [of "pg_alignment pg" 0 "pg_slices pg" "sh_size (pg_storage pg)" i] K assms(3) by simp
  moreover have "sh_offset (sl_storage (pg_slices pg ! i)) < sh_size (pg_storage pg)"
  proof -
    have "tiles (pg_alignment pg) 0 (take i (pg_slices pg) @ pg_slices pg ! i # drop (Suc i) (pg_slices pg)) (sh_size (pg_storage pg))"
      using K id_take_nth_drop [OF assms(3)] by simp
    then show ?thesis by (auto simp: tiles_append dest: tiles_le)
  qed
  ultimately have "i * pg_alignment pg < 2 ^ 32 * pg_alignment pg" using assms(2) unfolding page_fits_def by linarith
  then show i: "i < 2 ^ 32" using mult_less_cancel2 by blast
  have "descriptor_location s (sl_handle (pg_slices pg ! i)) = at_slice (pg_location_base pg) i"
    using K assms(3) by (simp add: located_def)
  moreover have "unat (word_of_nat i :: 32 word) = i" using i by (simp add: unat_of_nat)
  ultimately show "unat (lo_slice (descriptor_location s (sl_handle (pg_slices pg ! i)))) = i"
    "lo_page (descriptor_location s (sl_handle (pg_slices pg ! i))) = lo_page (pg_location_base pg)"
    "lo_pool (descriptor_location s (sl_handle (pg_slices pg ! i))) = lo_pool (pg_location_base pg)"
    "lo_init (descriptor_location s (sl_handle (pg_slices pg ! i))) = lo_init (pg_location_base pg)"
    by simp_all
qed

subsection \<open>Creating a page\<close>

lemma page_new_ok:
  assumes st: "sh_offset st = 0" "0 < sh_size st" "sh_size st < usize_lim" and a: "0 < a" and room: "ms_next s + 1 < usize_lim"
  shows "\<exists>s' pg. page_new st a base mapping s = Some (s', pg) \<and> page_ok s' pg \<and> keeps {} s s' \<and> pg_storage pg = st \<and> pg_alignment pg = a \<and>
    pg_location_base pg = base \<and> pg_mapped pg = is_mapped mapping \<and> \<not> guarded s' (pg_page pg) \<and> held_slices s' (pg_slices pg) = {} \<and>
    (\<forall>n. free_slot s' n (pg_slices pg) \<longleftrightarrow> n \<le> sh_size st) \<and> ms_next s' = ms_next s + 1 \<and> handles (pg_slices pg) = [ms_next s]"
proof -
  obtain s1 g where g: "new_page_ref s = (s1, g)" "g = ms_next_page s" "ms_next_page s1 = ms_next_page s + 1" "ms_guards s1 = (ms_guards s)(g := 0)"
    "ms_next s1 = ms_next s" "ms_strong s1 = ms_strong s" "\<And>d. descriptor_location s1 d = descriptor_location s d"
    by (simp add: new_page_ref_def descriptor_location_def)
  obtain s2 where n: "slice_new st 0 s1 = Some (s2, \<lparr>sl_mapped = True, sl_page = ms_next_page s1, sl_storage = st, sl_handle = ms_next s, sl_padding = 0, sl_cursor = 0\<rparr>)"
    "ms_next s2 = ms_next s + 1" "ms_strong s2 = (ms_strong s)(ms_next s := 1)" "ms_next_page s2 = ms_next_page s + 2"
    "ms_guards s2 = (ms_guards s1)(ms_next_page s1 := 0)" "\<forall>d. d \<noteq> ms_next s \<longrightarrow> descriptor_location s2 d = descriptor_location s1 d"
    using slice_new_eq [of s1 st 0] room g(3,5,6) by auto
  let ?sl = "\<lparr>sl_mapped = is_mapped mapping, sl_page = g, sl_storage = st, sl_handle = ms_next s, sl_padding = 0, sl_cursor = 0\<rparr>"
  let ?s' = "update_location (ms_next s) (at_slice base 0) s2"
  let ?pg = "\<lparr>pg_mapped = is_mapped mapping, pg_page = g, pg_storage = st, pg_slices = [?sl], pg_alignment = a, pg_location_base = base\<rparr>"
  have run: "page_new st a base mapping s = Some (?s', ?pg)"
    using g(1) n(1) by (simp add: page_new_def Let_def)
  have eff: "effective_size ?sl = sh_size st" by (simp add: effective_size_def)
  have "page_ok ?s' ?pg" using st a n g eff by (simp add: page_ok_def owned_def)
  moreover have "keeps {} s ?s'" using n g by (simp add: keeps_def)
  moreover have "\<not> guarded ?s' g" using n(5) g by (simp add: guarded_def)
  ultimately show ?thesis using run n(2,3) eff by simp
qed

subsection \<open>Binding and releasing\<close>

lemma page_split:
  assumes "page_ok s pg" "page_fits pg" "h \<in> set (handles (pg_slices pg))"
  obtains xs sl ys where "pg_slices pg = xs @ sl # ys" "sl_handle sl = h" "h \<notin> set (handles (xs @ ys))"
    "unat (lo_slice (descriptor_location s h)) = length xs" "descriptor_location s h = at_slice (pg_location_base pg) (length xs)"
proof -
  obtain sl where "sl \<in> set (pg_slices pg)" and h: "h = sl_handle sl" using assms(3) by auto
  then obtain xs ys where sls: "pg_slices pg = xs @ sl # ys" by (meson split_list)
  have "sl_handle sl \<notin> set (handles (xs @ ys))" using assms(1) sls by (simp add: page_ok_def owned_def)
  moreover have "unat (lo_slice (descriptor_location s h)) = length xs"
    using page_index(2) [OF assms(1,2), of "length xs"] sls h by simp
  moreover have "descriptor_location s h = at_slice (pg_location_base pg) (length xs)" using assms(1) sls h by (simp add: page_ok_def)
  ultimately show ?thesis using that [OF sls] h by blast
qed

text \<open>A slice gets another handle.\<close>

lemma page_rehandle:
  fixes c :: nat
  assumes ok: "page_ok s pg" and sls: "pg_slices pg = xs @ sl # ys" and new: "new \<notin> set (handles (xs @ ys))" "new < ms_next s'" "1 \<le> ms_strong s' new"
    and loc: "descriptor_location s' new = at_slice (pg_location_base pg) (length xs)"
    and k: "keeps {sl_handle sl, new} s s'"
  defines "pg' \<equiv> pg\<lparr>pg_slices := xs @ sl\<lparr>sl_handle := new, sl_cursor := c\<rparr> # ys\<rparr>"
  shows "page_ok s' pg' \<and> held_slices s' (pg_slices pg') = held_slices s (xs @ ys) \<union> (if 2 \<le> ms_strong s' new then {(new, sl_storage sl)} else {})"
proof -
  note K = ok [unfolded page_ok_def sls]
  let ?sl = "sl\<lparr>sl_handle := new, sl_cursor := c\<rparr>"
  have own: "owned s (xs @ ys)" and d: "sl_handle sl \<notin> set (handles (xs @ ys))" using K by (auto simp: owned_def)
  have same: "ms_strong s' d = ms_strong s d" "descriptor_location s' d = descriptor_location s d" if "d \<in> set (handles (xs @ ys))" for d
  proof -
    have "d < ms_next s" using own that unfolding owned_def by blast
    moreover have "d \<noteq> sl_handle sl" "d \<noteq> new" using that d new(1) by blast+
    ultimately show "ms_strong s' d = ms_strong s d" "descriptor_location s' d = descriptor_location s d" using k by (simp_all add: keeps_def)
  qed
  have mono: "ms_next s \<le> ms_next s'" "ms_next_page s \<le> ms_next_page s'" using k by (simp_all add: keeps_def)
  have "d < ms_next s' \<and> 1 \<le> ms_strong s' d" if "d \<in> set (handles (xs @ ys))" for d
    using own that same(1) [OF that] mono(1) unfolding owned_def by (metis order_less_le_trans)
  then have "owned s' (xs @ ?sl # ys)" using own new unfolding owned_def by auto
  moreover have "located s' (pg_location_base pg) 0 (xs @ ?sl # ys)"
  proof -
    have "located s' (pg_location_base pg) 0 xs = located s (pg_location_base pg) 0 xs" by (rule located_cong) (rule same(2), simp)
    moreover have "located s' (pg_location_base pg) (Suc (length xs)) ys = located s (pg_location_base pg) (Suc (length xs)) ys"
      by (rule located_cong) (rule same(2), simp)
    ultimately show ?thesis using K loc by simp
  qed
  moreover have "tiles (pg_alignment pg) 0 (xs @ ?sl # ys) (sh_size (pg_storage pg))" using K by (auto simp: tiles_append effective_size_def)
  ultimately have "page_ok s' pg'" using K mono(2) by (simp add: page_ok_def pg'_def)
  moreover have "held_slices s' (xs @ ys) = held_slices s (xs @ ys)" by (rule held_cong) (rule same(1))
  ultimately show ?thesis by (auto simp: pg'_def)
qed

lemma page_bind_ok:
  assumes ok: "page_ok s pg" "page_fits pg" and h: "h \<in> set (handles (pg_slices pg))" "2 \<le> ms_strong s h"
    and new: "new \<notin> set (handles (pg_slices pg))" "new < ms_next s" "1 \<le> ms_strong s new"
  shows "\<exists>s' pg' st. page_bind h new cursor pg s = Some (s', pg') \<and> page_ok s' pg' \<and> same_page pg pg' \<and> keeps {h, new} s s' \<and> ms_next s' = ms_next s \<and>
    (h, st) \<in> held_slices s (pg_slices pg) \<and> ms_strong s' new = ms_strong s new \<and> ms_strong s' h = ms_strong s h - 2 \<and>
    held_slices s' (pg_slices pg') = (held_slices s (pg_slices pg) - {(h, st)}) \<union> (if 2 \<le> ms_strong s new then {(new, st)} else {})"
proof -
  obtain xs sl ys where sp: "pg_slices pg = xs @ sl # ys" "sl_handle sl = h" "h \<notin> set (handles (xs @ ys))"
    "unat (lo_slice (descriptor_location s h)) = length xs" "descriptor_location s h = at_slice (pg_location_base pg) (length xs)"
    using page_split [OF ok h(1)] by blast
  let ?s' = "drop_handle h (drop_handle h (update_location new (descriptor_location s h) s))"
  let ?pg' = "pg\<lparr>pg_slices := xs @ sl\<lparr>sl_handle := new, sl_cursor := cursor\<rparr> # ys\<rparr>"
  have hn: "new \<noteq> h" using new(1) h(1) by blast
  have run: "page_bind h new cursor pg s = Some (?s', ?pg')" using sp by (cases sl) (simp add: page_bind_def Let_def)
  have "keeps {sl_handle sl, new} s ?s'" using sp(2) by (simp add: keeps_def)
  moreover have "new \<notin> set (handles (xs @ ys))" using new(1) sp(1) by simp
  ultimately have R: "page_ok ?s' ?pg' \<and> held_slices ?s' (pg_slices ?pg') = held_slices s (xs @ ys) \<union> (if 2 \<le> ms_strong ?s' new then {(new, sl_storage sl)} else {})"
    using page_rehandle [OF ok(1) sp(1), where new = new and s' = ?s' and c = cursor] new hn sp(5) by simp
  have "held_slices s (pg_slices pg) = insert (h, sl_storage sl) (held_slices s (xs @ ys))" using sp(1,2) h(2) by auto
  moreover have "(h, sl_storage sl) \<notin> held_slices s (xs @ ys)" using sp(3) by (auto simp: held_slices_def)
  ultimately show ?thesis using run R hn sp(2) by (auto simp: keeps_def)
qed

lemma new_handle_eq:
  assumes "ms_next s + 1 < usize_lim"
  shows "\<exists>s'. new_handle s = Some (s', ms_next s) \<and> ms_next s' = ms_next s + 1 \<and> ms_strong s' = (ms_strong s)(ms_next s := 1) \<and>
    ms_next_page s' = ms_next_page s \<and> ms_guards s' = ms_guards s \<and> (\<forall>d. d \<noteq> ms_next s \<longrightarrow> descriptor_location s' d = descriptor_location s d) \<and>
    descriptor_location s' (ms_next s) = location_uninit"
  using assms by (simp add: new_handle_def descriptor_location_def)

lemma page_release_ok:
  assumes ok: "page_ok s pg" "page_fits pg" and h: "h \<in> set (handles (pg_slices pg))" "2 \<le> ms_strong s h" and room: "ms_next s + 1 < usize_lim"
  shows "\<exists>s' pg' st. page_release_relocated h pg s = Some (s', pg', Inr ()) \<and> page_ok s' pg' \<and> same_page pg pg' \<and> keeps {h} s s' \<and>
    ms_next s' = ms_next s + 1 \<and> (h, st) \<in> held_slices s (pg_slices pg) \<and> held_slices s' (pg_slices pg') = held_slices s (pg_slices pg) - {(h, st)} \<and>
    ms_strong s' h = ms_strong s h - 1"
proof -
  obtain xs sl ys where sp: "pg_slices pg = xs @ sl # ys" "sl_handle sl = h" "h \<notin> set (handles (xs @ ys))"
    "unat (lo_slice (descriptor_location s h)) = length xs" "descriptor_location s h = at_slice (pg_location_base pg) (length xs)"
    using page_split [OF ok h(1)] by blast
  let ?new = "ms_next s"
  obtain s1 where n: "new_handle s = Some (s1, ?new)" "ms_next s1 = ms_next s + 1" "ms_strong s1 = (ms_strong s)(?new := 1)"
    "ms_next_page s1 = ms_next_page s" "ms_guards s1 = ms_guards s" "\<forall>d. d \<noteq> ?new \<longrightarrow> descriptor_location s1 d = descriptor_location s d"
    using new_handle_eq [OF room] by blast
  let ?s' = "drop_handle h (update_location ?new (descriptor_location s h) s1)"
  let ?pg' = "pg\<lparr>pg_slices := xs @ sl\<lparr>sl_handle := ?new, sl_cursor := 0\<rparr> # ys\<rparr>"
  have lt: "d < ?new" if "d \<in> set (handles (pg_slices pg))" for d using ok(1) that unfolding page_ok_def owned_def by blast
  have hn: "h < ?new" using lt [OF h(1)] .
  have run: "page_release_relocated h pg s = Some (?s', ?pg', Inr ())"
    using sp n(1) by (cases sl) (simp add: page_release_relocated_def Let_def)
  have k: "keeps {h} s ?s'" using n by (simp add: keeps_def)
  then have "keeps {sl_handle sl, ?new} s ?s'" using sp(2) keeps_mono by blast
  moreover have "?new \<notin> set (handles (xs @ ys))"
  proof
    assume "?new \<in> set (handles (xs @ ys))"
    then show False using lt [of ?new] sp(1) by simp
  qed
  moreover have "ms_strong ?s' ?new = 1" using n(3) hn by simp
  ultimately have R: "page_ok ?s' ?pg' \<and> held_slices ?s' (pg_slices ?pg') = held_slices s (xs @ ys)"
    using page_rehandle [OF ok(1) sp(1), where new = ?new and s' = ?s' and c = 0] n(2) sp(5) by simp
  have "held_slices s (pg_slices pg) = insert (h, sl_storage sl) (held_slices s (xs @ ys))" using sp(1,2) h(2) by auto
  moreover have "(h, sl_storage sl) \<notin> held_slices s (xs @ ys)" using sp(3) by (auto simp: held_slices_def)
  ultimately show ?thesis using run R k hn n by auto
qed

subsection \<open>Giving a page a buffer\<close>

definition backed :: "nat \<Rightarrow> mem_slice \<Rightarrow> mem_slice" where
  "backed i sl = sl\<lparr>sl_storage := (sl_storage sl)\<lparr>sh_id := i\<rparr>, sl_mapped := True\<rparr>"

lemma backed_simps [simp]:
  "sl_handle (backed i sl) = sl_handle sl" "effective_size (backed i sl) = effective_size sl" "sh_offset (sl_storage (backed i sl)) = sh_offset (sl_storage sl)"
  "sl_storage (backed i sl) = (sl_storage sl)\<lparr>sh_id := i\<rparr>" "sl_page (backed i sl) = sl_page sl" "sl_mapped (backed i sl)"
  by (simp_all add: backed_def effective_size_def)

lemma tiles_backed [simp]: "tiles a off (map (backed i) sls) e = tiles a off sls e"
  by (induction sls arbitrary: off) simp_all

lemma held_backed: "held_slices s (map (backed i) sls) = (\<lambda>(h, st). (h, st\<lparr>sh_id := i\<rparr>)) ` held_slices s sls"
  by (induction sls) (simp_all add: image_Un)

lemma page_backed_ok:
  assumes ok: "page_ok s pg" and real: "sh_size real = sh_size (pg_storage pg)"
  defines "pg' \<equiv> pg\<lparr>pg_slices := map (backed (sh_id real)) (pg_slices pg), pg_storage := real, pg_mapped := True\<rparr>"
  shows "page_ok s pg'" "held_slices s (pg_slices pg') = (\<lambda>(h, st). (h, st\<lparr>sh_id := sh_id real\<rparr>)) ` held_slices s (pg_slices pg)"
proof -
  note K = ok [unfolded page_ok_def]
  have hs: "handles (map (backed (sh_id real)) (pg_slices pg)) = handles (pg_slices pg)" by simp
  then have "owned s (map (backed (sh_id real)) (pg_slices pg))" using K unfolding owned_def by metis
  moreover have "located s (pg_location_base pg) 0 (map (backed (sh_id real)) (pg_slices pg))" using K by (simp add: located_def)
  moreover have "uniform True (pg_page pg) (sh_id real) (map (backed (sh_id real)) (pg_slices pg))" using K by (auto simp: uniform_def)
  ultimately show "page_ok s pg'" using K real by (simp add: page_ok_def pg'_def)
  show "held_slices s (pg_slices pg') = (\<lambda>(h, st). (h, st\<lparr>sh_id := sh_id real\<rparr>)) ` held_slices s (pg_slices pg)"
    using held_backed by (simp add: pg'_def)
qed

lemma page_materialize_eq:
  "page_materialize cs pg w = (if pg_mapped pg then (pg, w, Inr (sh_id (pg_storage pg)))
     else (case cs_alloc cs (sh_size (pg_storage pg)) w of (w, Inl e) \<Rightarrow> (pg, w, Inl e)
       | (w, Inr real) \<Rightarrow> (pg\<lparr>pg_slices := map (backed (sh_id real)) (pg_slices pg), pg_storage := real, pg_mapped := True\<rparr>, w, Inr (sh_id real))))"
proof -
  have "(\<lambda>sl. sl\<lparr>sl_storage := (sl_storage sl)\<lparr>sh_id := i\<rparr>, sl_mapped := True\<rparr>) = backed i" for i by (simp add: fun_eq_iff backed_def)
  then show ?thesis by (simp add: page_materialize_def split: prod.splits sum.splits)
qed

subsection \<open>Moving a page\<close>

lemma fold_update_page:
  fixes s :: mem_store and p :: "16 word"
  assumes "distinct (handles sls)"
  defines "s' \<equiv> fold (\<lambda>sl. descriptor_update_page (sl_handle sl) p) sls s"
  shows "ms_strong s' = ms_strong s \<and> ms_next s' = ms_next s \<and> ms_guards s' = ms_guards s \<and> ms_next_page s' = ms_next_page s \<and>
    (\<forall>d. descriptor_location s' d = (if d \<in> set (handles sls) then descriptor_location s d\<lparr>lo_page := p\<rparr> else descriptor_location s d))"
  using assms(1) unfolding s'_def
proof (induction sls arbitrary: s)
  case (Cons sl sls)
  have "sl_handle sl \<notin> set (handles sls)" using Cons.prems by simp
  then show ?case using Cons.IH [of "descriptor_update_page (sl_handle sl) p s"] Cons.prems by auto
qed simp

lemma page_update_page_ok:
  assumes ok: "page_ok s pg" and u: "page_update_page p pg s = (s', pg')"
  shows "page_ok s' pg'" "keeps (set (handles (pg_slices pg))) s s'" "pg' = pg\<lparr>pg_location_base := (pg_location_base pg)\<lparr>lo_page := p\<rparr>\<rparr>"
    "page_same s s' pg'" "ms_next s' = ms_next s" "ms_strong s' = ms_strong s"
proof -
  note K = ok [unfolded page_ok_def]
  have d: "distinct (handles (pg_slices pg))" using K by (simp add: owned_def)
  have s': "s' = fold (\<lambda>sl. descriptor_update_page (sl_handle sl) p) (pg_slices pg) s"
    and pg': "pg' = pg\<lparr>pg_location_base := (pg_location_base pg)\<lparr>lo_page := p\<rparr>\<rparr>" using u by (simp_all add: page_update_page_def)
  note F = fold_update_page [OF d, of p s, folded s']
  show "pg' = pg\<lparr>pg_location_base := (pg_location_base pg)\<lparr>lo_page := p\<rparr>\<rparr>" "ms_next s' = ms_next s" "ms_strong s' = ms_strong s" using F pg' by simp_all
  show "keeps (set (handles (pg_slices pg))) s s'" using F by (simp add: keeps_def)
  have "owned s' (pg_slices pg)" using K F by (simp add: owned_def)
  moreover have "located s' ((pg_location_base pg)\<lparr>lo_page := p\<rparr>) 0 (pg_slices pg)"
    using K F by (simp add: located_def at_slice_def del: at_slice_update)
  ultimately show "page_ok s' pg'" using K F by (simp add: page_ok_def pg')
  show "page_same s s' pg'" using F by (simp add: page_same_def pg' held_slices_def slice_is_free_def handle_is_free_def guarded_def)
qed

end
