(* ===== verification/Device_Pool.thy ===== *)
theory Device_Pool
  imports Device_Page_Ops
begin

text \<open>
  The sliced pool: its pages, the allocations it has handed out, and what each operation does to them.
\<close>

subsection \<open>Merging and reserving on one page\<close>

lemma same_page_trans:
  assumes "same_page a b" "same_page b c"
  shows "same_page a c"
  unfolding same_page_def using same_pageD [OF assms(1)] same_pageD [OF assms(2)] by (intro memory_page.equality) simp_all

text \<open>The handles after merging are handles of the page or new ones.\<close>

lemma flush_handles:
  assumes "flush_run st base f n c outs s = Some (s', out)"
  shows "ms_next s \<le> ms_next s' \<and> set (handles out) \<subseteq> set (handles (outs @ [f])) \<union> {ms_next s..}"
  using assms by (auto simp: flush_run_def slice_new_def new_handle_def new_page_ref_def Let_def split: if_splits bind_splits)

lemma coalesce_handles:
  "coalesce_loop st base i sls pending n c outs s = Some (s', out) \<Longrightarrow>
    ms_next s \<le> ms_next s' \<and> set (handles out) \<subseteq> set (handles (outs @ pend pending @ sls)) \<union> {ms_next s..}"
proof (induction sls arbitrary: i pending n c outs s)
  case Nil
  then show ?case using flush_handles by (fastforce split: option.splits)
next
  case (Cons sl sls)
  show ?case
  proof (cases "slice_is_free s sl")
    case True
    then have r: "coalesce_loop st base (i + 1) sls (Some (case pending of None \<Rightarrow> sl | Some f \<Rightarrow> f)) (n + effective_size sl) (c + 1) outs
        (if pending = None then s else drop_handle (sl_handle sl) s) = Some (s', out)"
      using Cons.prems by (simp split: option.splits)
    show ?thesis using Cons.IH [OF r] by (cases pending) (simp_all, blast+)
  next
    case False
    obtain s1 outs1 n1 c1 where f: "(case pending of Some first \<Rightarrow> do { (s, outs) \<leftarrow> flush_run st base first n c outs s; Some (s, outs, 0, 0) }
        | None \<Rightarrow> Some (s, outs, n, c)) = Some (s1, outs1, n1, c1)"
      and r: "coalesce_loop st base (i + 1) sls None n1 c1 (outs1 @ [sl])
        (if i \<noteq> length outs1 then update_slice (sl_handle sl) (word_of_nat (length outs1)) s1 else s1) = Some (s', out)"
      using Cons.prems False by (auto simp: Let_def split: bind_splits)
    have o: "ms_next s \<le> ms_next s1 \<and> set (handles outs1) \<subseteq> set (handles (outs @ pend pending)) \<union> {ms_next s..}"
    proof (cases pending)
      case None
      then show ?thesis using f by simp
    next
      case (Some first)
      then show ?thesis using f flush_handles [of st base first n c outs s s1 outs1] by (auto split: bind_splits)
    qed
    have "ms_next (if i \<noteq> length outs1 then update_slice (sl_handle sl) (word_of_nat (length outs1)) s1 else s1) = ms_next s1" by simp
    then have IH: "ms_next s1 \<le> ms_next s' \<and> set (handles out) \<subseteq> set (handles ((outs1 @ [sl]) @ sls)) \<union> {ms_next s1..}"
      using Cons.IH [OF r] by simp
    then have "ms_next s \<le> ms_next s'" using o by linarith
    moreover have "d \<in> set (handles (outs @ pend pending @ sl # sls)) \<union> {ms_next s..}" if "d \<in> set (handles out)" for d
    proof -
      have "d \<in> set (handles outs1) \<or> d = sl_handle sl \<or> d \<in> set (handles sls) \<or> ms_next s1 \<le> d"
        using subsetD [OF conjunct2 [OF IH] that] by (simp add: disj_ac)
      moreover have "d \<in> set (handles outs1) \<Longrightarrow> d \<in> set (handles (outs @ pend pending)) \<or> ms_next s \<le> d"
        using subsetD [OF conjunct2 [OF o]] by simp
      ultimately show ?thesis using o by auto
    qed
    ultimately show ?thesis by blast
  qed
qed

lemma page_coalesce_handles:
  assumes "page_coalesce pg s = Some (s', pg')"
  shows "set (handles (pg_slices pg')) \<subseteq> set (handles (pg_slices pg)) \<union> {ms_next s..}"
proof (cases "adjacent_free s (pg_slices pg)")
  case True
  then obtain out where "coalesce_loop (pg_storage pg) (pg_location_base pg) 0 (pg_slices pg) None 0 0 [] s = Some (s', out)" "pg_slices pg' = out"
    using assms by (auto simp: page_coalesce_def split: bind_splits)
  then show ?thesis using coalesce_handles [of "pg_storage pg" "pg_location_base pg" 0 "pg_slices pg" None 0 0 "[]" s] by simp
qed (use assms in \<open>simp add: page_coalesce_def\<close>)

lemma can_reserve_eq:
  assumes "calculate_padding size' (pg_alignment pg) = Some padding" "size' + padding < usize_lim"
  shows "page_can_reserve s size' pg = Some (\<not> guarded s (pg_page pg) \<and> free_run s (size' + padding) 0 (pg_slices pg))"
  using assms by (simp add: page_can_reserve_def)

text \<open>What a reservation promises about the allocation it returns.\<close>

definition granted :: "nat \<Rightarrow> nat \<Rightarrow> nat \<Rightarrow> storage_handle \<Rightarrow> bool" where
  "granted size' a bytes st \<longleftrightarrow> sh_size st = size' \<and> a dvd sh_offset st \<and> sh_offset st + size' \<le> bytes"

definition allocated :: "(nat \<times> storage_handle) set \<Rightarrow> nat \<Rightarrow> nat \<Rightarrow> nat \<Rightarrow> nat set \<Rightarrow> nat option \<Rightarrow> mem_store \<Rightarrow> (nat \<times> storage_handle) set \<Rightarrow> bool" where
  "allocated H size' a bytes ids r s' H' \<longleftrightarrow>
     (case r of
        None \<Rightarrow> H' = H
      | Some h \<Rightarrow> ms_strong s' h = 2 \<and> h \<notin> fst ` H \<and> (\<exists>st. H' = insert (h, st) H \<and> granted size' a bytes st \<and> sh_id st \<in> ids))"

lemma reserved_allocated:
  assumes "reserved size' pg s pg' s' h"
  shows "allocated (held_slices s (pg_slices pg)) size' (pg_alignment pg) (sh_size (pg_storage pg)) {sh_id (pg_storage pg)} (Some h) s' (held_slices s' (pg_slices pg'))"
proof -
  have "h \<notin> fst ` held_slices s (pg_slices pg)" using assms by (auto simp: reserved_def held_slices_def)
  then show ?thesis using assms by (auto simp: reserved_def allocated_def granted_def)
qed

lemma page_reserve_ok:
  assumes ok: "page_ok s pg" and pos: "0 < size'" and pad: "calculate_padding size' (pg_alignment pg) = Some padding" "size' + padding < usize_lim"
    and room: "ms_next s + length (pg_slices pg) + 1 < usize_lim"
  shows "\<exists>s1 pg1 s' pg' r. page_coalesce pg s = Some (s1, pg1) \<and> page_try_reserve size' pg1 s1 = Some (s', pg', r) \<and> page_ok s' pg' \<and> same_page pg pg' \<and>
    quiet (set (handles (pg_slices pg))) s s' \<and> ms_next s' \<le> ms_next s + length (pg_slices pg) + 1 \<and>
    page_can_reserve s size' pg = Some (r \<noteq> None) \<and>
    allocated (held_slices s (pg_slices pg)) size' (pg_alignment pg) (sh_size (pg_storage pg)) {sh_id (pg_storage pg)} r s' (held_slices s' (pg_slices pg'))"
proof -
  obtain s1 pg1 where c: "page_coalesce pg s = Some (s1, pg1)" "page_ok s1 pg1" "same_page pg pg1" "quiet (set (handles (pg_slices pg))) s s1"
    "held_slices s1 (pg_slices pg1) = held_slices s (pg_slices pg)" "ms_next s1 \<le> ms_next s + length (pg_slices pg)"
    "\<not> guarded s (pg_page pg) \<longrightarrow> (\<forall>n > 0. free_slot s1 n (pg_slices pg1) \<longleftrightarrow> free_run s n 0 (pg_slices pg))"
    using page_coalesce_ok [OF ok] room by auto
  note same = same_pageD [OF c(3)]
  obtain s' pg' r where t: "page_try_reserve size' pg1 s1 = Some (s', pg', r)" "page_ok s' pg'" "same_page pg1 pg'" "quiet (set (handles (pg_slices pg1))) s1 s'"
    "ms_next s' \<le> ms_next s1 + 1" "r = None \<longleftrightarrow> guarded s1 (pg_page pg1) \<or> \<not> free_slot s1 (size' + padding) (pg_slices pg1)"
    "case r of None \<Rightarrow> s' = s1 \<and> pg' = pg1 | Some h \<Rightarrow> reserved size' pg1 s1 pg' s' h"
    using page_try_reserve_ok [OF c(2) pos, of padding] pad same c(6) room by auto
  have "pg_page pg < ms_next_page s" using ok by (simp add: page_ok_def)
  then have g: "guarded s1 (pg_page pg) = guarded s (pg_page pg)" using quiet_guarded [OF c(4)] by blast
  have "page_can_reserve s size' pg = Some (r \<noteq> None)" using can_reserve_eq [OF pad] t(6) g c(7) same pos by auto
  moreover have "allocated (held_slices s (pg_slices pg)) size' (pg_alignment pg) (sh_size (pg_storage pg)) {sh_id (pg_storage pg)} r s' (held_slices s' (pg_slices pg'))"
  proof (cases r)
    case None
    then show ?thesis using t(7) c(5) by (simp add: allocated_def)
  next
    case (Some h)
    then show ?thesis using reserved_allocated [of size' pg1 s1 pg' s' h] t(7) same c(5) by simp
  qed
  moreover have "same_page pg pg'" using c(3) t(3) by (rule same_page_trans)
  moreover have "quiet (set (handles (pg_slices pg))) s s'"
    using quiet_trans [OF c(4) t(4)] page_coalesce_handles [OF c(1)] by force
  ultimately show ?thesis using c(1,6) t(1,2,5) by auto
qed

subsection \<open>The pages of a pool\<close>

definition settings_ok :: "sliced_pool \<Rightarrow> bool" where
  "settings_ok p \<longleftrightarrow> 0 < sp_alignment p \<and> sp_alignment p dvd sp_page_size p \<and> 0 < sp_page_size p \<and> sp_page_size p < usize_lim \<and>
     sp_page_size p \<le> 2 ^ 32 * sp_alignment p \<and> sp_max_alloc_size p \<le> sp_page_size p \<and> lo_init (sp_location_base p) = 1"

definition page_in :: "sliced_pool \<Rightarrow> mem_store \<Rightarrow> nat \<Rightarrow> memory_page \<times> nat \<Rightarrow> bool" where
  "page_in p s n x \<longleftrightarrow> page_ok s (fst x) \<and> pg_location_base (fst x) = (sp_location_base p)\<lparr>lo_page := word_of_nat n\<rparr> \<and>
     pg_alignment (fst x) = sp_alignment p \<and> sh_size (pg_storage (fst x)) = sp_page_size p \<and> snd x = sh_id (pg_storage (fst x))"

fun pages_ok :: "sliced_pool \<Rightarrow> mem_store \<Rightarrow> nat \<Rightarrow> (memory_page \<times> nat) list \<Rightarrow> bool" where
  "pages_ok p s n [] \<longleftrightarrow> True"
| "pages_ok p s n (x # xs) \<longleftrightarrow> page_in p s n x \<and> pages_ok p s (Suc n) xs"

lemma pages_ok_append: "pages_ok p s n (xs @ ys) \<longleftrightarrow> pages_ok p s n xs \<and> pages_ok p s (n + length xs) ys"
  by (induction xs arbitrary: n) auto

lemma pages_ok_nth: "pages_ok p s n xs \<Longrightarrow> i < length xs \<Longrightarrow> page_in p s (n + i) (xs ! i)"
proof (induction xs arbitrary: n i)
  case (Cons x xs)
  then show ?case using Cons.IH [of "Suc n" "i - 1"] by (cases i) auto
qed simp

definition page_handles :: "memory_page \<times> nat \<Rightarrow> nat set" where
  "page_handles x = set (handles (pg_slices (fst x)))"

definition all_handles :: "(memory_page \<times> nat) list \<Rightarrow> nat set" where
  "all_handles xs = (\<Union>x \<in> set xs. page_handles x)"

lemma all_handles_simps [simp]:
  "all_handles [] = {}" "all_handles (x # xs) = page_handles x \<union> all_handles xs" "all_handles (xs @ ys) = all_handles xs \<union> all_handles ys"
  by (auto simp: all_handles_def)

definition slice_count :: "(memory_page \<times> nat) list \<Rightarrow> nat" where
  "slice_count xs = sum_list (map (\<lambda>x. length (pg_slices (fst x))) xs)"

lemma slice_count_simps [simp]: "slice_count [] = 0" "slice_count (x # xs) = length (pg_slices (fst x)) + slice_count xs"
  by (simp_all add: slice_count_def)

text \<open>The allocations in use, by their handles.\<close>

definition pages_held :: "mem_store \<Rightarrow> (memory_page \<times> nat) list \<Rightarrow> (nat \<times> storage_handle) set" where
  "pages_held s xs = (\<Union>x \<in> set xs. held_slices s (pg_slices (fst x)))"

lemma pages_held_simps [simp]:
  "pages_held s [] = {}" "pages_held s (x # xs) = held_slices s (pg_slices (fst x)) \<union> pages_held s xs" "pages_held s (xs @ ys) = pages_held s xs \<union> pages_held s ys"
  by (auto simp: pages_held_def)

lemma held_handles: "(h, st) \<in> held_slices s (pg_slices (fst x)) \<Longrightarrow> h \<in> page_handles x"
  by (auto simp: held_slices_def page_handles_def)

lemma pages_held_handles: "(h, st) \<in> pages_held s xs \<Longrightarrow> h \<in> all_handles xs"
  using held_handles by (fastforce simp: pages_held_def all_handles_def)

lemma page_in_location:
  assumes "page_in p s n x" "d \<in> page_handles x"
  shows "lo_page (descriptor_location s d) = word_of_nat n" "lo_init (descriptor_location s d) = lo_init (sp_location_base p)" "d < ms_next s" "1 \<le> ms_strong s d"
proof -
  have ok: "page_ok s (fst x)" and base: "pg_location_base (fst x) = (sp_location_base p)\<lparr>lo_page := word_of_nat n\<rparr>" using assms(1) by (simp_all add: page_in_def)
  obtain i where i: "i < length (pg_slices (fst x))" "d = sl_handle (pg_slices (fst x) ! i)"
    using assms(2) by (auto simp: page_handles_def in_set_conv_nth)
  have "descriptor_location s d = at_slice (pg_location_base (fst x)) i" using ok i by (simp add: page_ok_def located_def)
  then show "lo_page (descriptor_location s d) = word_of_nat n" "lo_init (descriptor_location s d) = lo_init (sp_location_base p)" using base by simp_all
  show "d < ms_next s" "1 \<le> ms_strong s d" using ok assms(2) unfolding page_ok_def owned_def page_handles_def by blast+
qed

lemma page_word: "n < 2 ^ 16 \<Longrightarrow> m < 2 ^ 16 \<Longrightarrow> (word_of_nat n :: 16 word) = word_of_nat m \<longleftrightarrow> n = m"
  by (simp add: word_of_nat_eq_iff take_bit_nat_eq_self)

lemma pages_disjoint:
  assumes "page_in p s n x" "pages_ok p s m xs" "n < m" "m + length xs \<le> 2 ^ 16"
  shows "page_handles x \<inter> all_handles xs = {}"
proof -
  have "page_handles x \<inter> page_handles y = {}" if y: "y \<in> set xs" for y
  proof -
    obtain i where i: "i < length xs" "y = xs ! i" using y by (auto simp: in_set_conv_nth)
    have "page_in p s (m + i) y" using pages_ok_nth [OF assms(2) i(1)] i(2) by simp
    moreover have "(word_of_nat n :: 16 word) \<noteq> word_of_nat (m + i)" using page_word [of n "m + i"] assms(3,4) i(1) by simp
    ultimately show ?thesis using page_in_location(1) [OF assms(1)] page_in_location(1) [of p s "m + i" y] by (metis disjoint_iff)
  qed
  then show ?thesis by (auto simp: all_handles_def)
qed

lemma page_in_frame:
  assumes "page_in p s n x" "keeps A s s'" "page_handles x \<inter> A = {}"
  shows "page_in p s' n x" "page_same s s' (fst x)"
  using assms page_frame [of s "fst x" A s'] by (simp_all add: page_in_def page_handles_def)

lemma pages_frame:
  assumes "pages_ok p s n xs" "keeps A s s'" "all_handles xs \<inter> A = {}"
  shows "pages_ok p s' n xs \<and> pages_held s' xs = pages_held s xs \<and> (\<forall>x \<in> set xs. page_same s s' (fst x))"
  using assms
proof (induction xs arbitrary: n)
  case (Cons x xs)
  have d: "page_handles x \<inter> A = {}" "all_handles xs \<inter> A = {}" using Cons.prems(3) by auto
  have "page_in p s n x" "pages_ok p s (Suc n) xs" using Cons.prems(1) by simp_all
  note F = page_in_frame [OF this(1) Cons.prems(2) d(1)] and IH = Cons.IH [OF this(2) Cons.prems(2) d(2)]
  show ?case using F IH by (simp add: page_same_def)
qed simp

lemma page_same_can_reserve:
  assumes "page_same s s' pg"
  shows "page_can_reserve s' n pg = page_can_reserve s n pg"
proof -
  have "free_run s' k 0 (pg_slices pg) = free_run s k 0 (pg_slices pg)" for k
    using assms by (intro free_run_cong) (simp add: page_same_def)
  then show ?thesis using assms by (cases "calculate_padding n (pg_alignment pg)") (simp_all add: page_can_reserve_def page_same_def)
qed

subsection \<open>Reserving on the first page with room\<close>

lemma page_in_same:
  assumes "page_in p s n (pg, i)" "same_page pg pg'" "page_ok s' pg'"
  shows "page_in p s' n (pg', i)"
  using assms same_pageD [OF assms(2)] by (simp add: page_in_def)

text \<open>The buffers of the pages, and which of them exist.\<close>

definition page_buffer :: "memory_page \<times> nat \<Rightarrow> nat \<times> bool" where
  "page_buffer x = (snd x, pg_mapped (fst x))"

lemma buffers_snd:
  assumes "map page_buffer xs = map page_buffer ys"
  shows "map snd xs = map snd ys" "length xs = length ys"
proof -
  have "map snd zs = map fst (map page_buffer zs)" for zs by (simp add: page_buffer_def comp_def)
  then show "map snd xs = map snd ys" using assms by metis
  show "length xs = length ys" using assms by (metis length_map)
qed

definition pages_can_reserve :: "mem_store \<Rightarrow> nat \<Rightarrow> (memory_page \<times> nat) list \<Rightarrow> bool" where
  "pages_can_reserve s size' xs \<longleftrightarrow> (\<exists>x \<in> set xs. page_can_reserve s size' (fst x) = Some True)"

lemma allocated_add:
  assumes "allocated H size' a bytes ids r s' H'" "\<And>h. r = Some h \<Longrightarrow> h \<notin> fst ` G" "ids \<subseteq> ids'"
  shows "allocated (G \<union> H) size' a bytes ids' r s' (G \<union> H')"
  using assms by (cases r) (auto simp: allocated_def image_Un)

lemma allocated_in: "allocated H size' a bytes ids (Some h) s' H' \<Longrightarrow> h \<in> fst ` H'"
  by (force simp: allocated_def)

lemma disjoint_held:
  assumes "page_in p s n x" "pages_ok p s m xs" "n < m" "m + length xs \<le> 2 ^ 16"
  shows "h \<in> fst ` held_slices s (pg_slices (fst x)) \<Longrightarrow> h \<notin> fst ` pages_held s xs"
  using pages_disjoint [OF assms] held_handles [of _ _ s x] pages_held_handles [of _ _ s xs] by fastforce

lemma try_pages_ok:
  assumes "pages_ok p s n xs" "n + length xs \<le> 2 ^ 16" "0 < size'" "calculate_padding size' (sp_alignment p) = Some padding" "size' + padding < usize_lim"
    "ms_next s + slice_count xs + length xs < usize_lim"
  shows "\<exists>s' xs' r. try_pages size' xs s = Some (s', xs', r) \<and> pages_ok p s' n xs' \<and> map page_buffer xs' = map page_buffer xs \<and> quiet (all_handles xs) s s' \<and>
    ms_next s' \<le> ms_next s + slice_count xs + length xs \<and> (r \<noteq> None \<longleftrightarrow> pages_can_reserve s size' xs) \<and>
    allocated (pages_held s xs) size' (sp_alignment p) (sp_page_size p) (set (map snd xs)) r s' (pages_held s' xs')"
  using assms
proof (induction xs arbitrary: n s)
  case Nil
  then show ?case by (simp add: pages_can_reserve_def allocated_def)
next
  case (Cons x xs)
  obtain pg i where x: "x = (pg, i)" by (cases x)
  have pin: "page_in p s n (pg, i)" and rest: "pages_ok p s (Suc n) xs" using Cons.prems(1) x by simp_all
  have ok: "page_ok s pg" and conf: "pg_alignment pg = sp_alignment p" "sh_size (pg_storage pg) = sp_page_size p" "i = sh_id (pg_storage pg)"
    using pin by (simp_all add: page_in_def)
  have dj: "page_handles x \<inter> all_handles xs = {}" using pages_disjoint [OF pin rest] Cons.prems(2) x by simp
  obtain s1 pg1 s2 pg2 r where r: "page_coalesce pg s = Some (s1, pg1)" "page_try_reserve size' pg1 s1 = Some (s2, pg2, r)" "page_ok s2 pg2" "same_page pg pg2"
    "quiet (page_handles x) s s2" "ms_next s2 \<le> ms_next s + length (pg_slices pg) + 1" "page_can_reserve s size' pg = Some (r \<noteq> None)"
    "allocated (held_slices s (pg_slices pg)) size' (sp_alignment p) (sp_page_size p) {i} r s2 (held_slices s2 (pg_slices pg2))"
    using page_reserve_ok [OF ok Cons.prems(3), of padding] Cons.prems(4-6) conf x by (auto simp: page_handles_def)
  have pin2: "page_in p s2 n (pg2, i)" by (rule page_in_same [OF pin r(4,3)])
  have buf: "page_buffer (pg2, i) = page_buffer x" using same_pageD(1) [OF r(4)] x by (simp add: page_buffer_def)
  have F: "pages_ok p s2 (Suc n) xs" "pages_held s2 xs = pages_held s xs" "\<forall>x \<in> set xs. page_same s s2 (fst x)"
    using pages_frame [OF rest quiet_keeps [OF r(5)]] dj by (auto simp: Int_commute)
  show ?case
  proof (cases r)
    case (Some h)
    have "h \<in> fst ` held_slices s2 (pg_slices (fst (pg2, i)))" using allocated_in [OF r(8) [unfolded Some]] by simp
    then have "h \<notin> fst ` pages_held s xs" using disjoint_held [OF pin2 F(1), of h] F(2) Cons.prems(2) by simp
    then have "allocated (pages_held s xs \<union> held_slices s (pg_slices pg)) size' (sp_alignment p) (sp_page_size p) (insert i (set (map snd xs))) r s2
        (pages_held s2 xs \<union> held_slices s2 (pg_slices pg2))"
      using allocated_add [OF r(8), of "pages_held s xs"] Some F(2) by simp
    moreover have "quiet (page_handles x \<union> all_handles xs) s s2" by (rule quiet_mono [OF r(5)]) simp
    moreover have "pages_can_reserve s size' (x # xs)" using r(7) Some x by (simp add: pages_can_reserve_def)
    ultimately show ?thesis using r(1,2,6) pin2 F(1) Some x buf by (simp add: Un_commute)
  next
    case None
    have c: "pages_can_reserve s2 size' xs = pages_can_reserve s size' xs"
      using F(3) page_same_can_reserve unfolding pages_can_reserve_def by metis
    obtain s' xs' r' where t: "try_pages size' xs s2 = Some (s', xs', r')" "pages_ok p s' (Suc n) xs'" "map page_buffer xs' = map page_buffer xs" "quiet (all_handles xs) s2 s'"
      "ms_next s' \<le> ms_next s2 + slice_count xs + length xs" "r' \<noteq> None \<longleftrightarrow> pages_can_reserve s2 size' xs"
      "allocated (pages_held s2 xs) size' (sp_alignment p) (sp_page_size p) (set (map snd xs)) r' s' (pages_held s' xs')"
      using Cons.IH [OF F(1)] Cons.prems(2-6) r(6) x by auto
    have dj2: "page_handles (pg2, i) \<inter> all_handles xs = {}" using pages_disjoint [OF pin2 F(1)] Cons.prems(2) by simp
    note G = page_in_frame [OF pin2 quiet_keeps [OF t(4)] dj2]
    have len: "length xs' = length xs" using buffers_snd(2) [OF t(3)] .
    have H: "held_slices s' (pg_slices pg2) = held_slices s (pg_slices pg)" using G(2) r(8) None by (simp add: page_same_def allocated_def)
    have "h \<notin> fst ` held_slices s (pg_slices pg)" if "r' = Some h" for h
      using disjoint_held [OF G(1) t(2), of h] allocated_in [OF t(7) [unfolded that]] H len Cons.prems(2) by auto
    then have "allocated (held_slices s (pg_slices pg) \<union> pages_held s xs) size' (sp_alignment p) (sp_page_size p) (insert i (set (map snd xs))) r' s'
        (held_slices s' (pg_slices pg2) \<union> pages_held s' xs')"
      unfolding H using allocated_add [OF t(7), of "held_slices s (pg_slices pg)" "insert i (set (map snd xs))"] F(2) by auto
    moreover have "quiet (page_handles x \<union> all_handles xs) s s'"
      using quiet_trans [OF quiet_mono [OF r(5)] t(4)] by blast
    moreover have "r' \<noteq> None \<longleftrightarrow> pages_can_reserve s size' (x # xs)"
      using r(7) None t(6) c x by (auto simp: pages_can_reserve_def)
    ultimately show ?thesis using r(1,2,6) t(1-3,5) G(1) None x buf by simp
  qed
qed

end
