(* ===== verification/Device_Pool_Ops.thy ===== *)
theory Device_Pool_Ops
  imports Device_Pool
begin

text \<open>
  The operations of the sliced pool keep its invariant and the allocations in use.  The storage of
  the device is an interface: it issues a new identifier with each buffer.
\<close>

subsection \<open>The storage interface\<close>

locale device_storage =
  fixes cs :: "'w compute_storage" and issued :: "'w \<Rightarrow> nat set"
  assumes alloc_new: "cs_alloc cs n w = (w', Inr h) \<Longrightarrow>
      sh_offset h = 0 \<and> sh_size h = n \<and> sh_id h \<notin> issued w \<and> insert (sh_id h) (issued w) \<subseteq> issued w'"
    and alloc_failed: "cs_alloc cs n w = (w', Inl e) \<Longrightarrow> issued w \<subseteq> issued w'"
    and fresh_new: "cs_fresh_id cs w = (w', i) \<Longrightarrow> i \<notin> issued w \<and> insert i (issued w) \<subseteq> issued w'"
    and dealloc_issued: "issued w \<subseteq> issued (cs_dealloc cs i w)"
begin

lemma mapping_new:
  assumes "mapping_allocate cs mapping n w = (w', Inr h)"
  shows "sh_offset h = 0 \<and> sh_size h = n \<and> sh_id h \<notin> issued w \<and> insert (sh_id h) (issued w) \<subseteq> issued w'"
  using assms alloc_new fresh_new by (cases mapping) (auto simp: mapping_allocate_def split: prod.splits)

lemma mapping_failed:
  assumes "mapping_allocate cs mapping n w = (w', Inl e)"
  shows "issued w \<subseteq> issued w'"
  using assms alloc_failed by (cases mapping) (auto simp: mapping_allocate_def split: prod.splits)

end

text \<open>
  What the pool does with its buffers, seen from the device: it asks for one, gives a planned one its memory, or
  gives some back.
\<close>

definition give_back :: "'w compute_storage \<Rightarrow> (memory_page \<times> nat) list \<Rightarrow> 'w \<Rightarrow> 'w" where
  "give_back cs xs w = fold (\<lambda>x w. if pg_mapped (fst x) then cs_dealloc cs (snd x) w else w) xs w"

inductive buffer_step :: "'w compute_storage \<Rightarrow> nat \<Rightarrow> (nat \<times> bool) list \<times> 'w \<Rightarrow> (nat \<times> bool) list \<times> 'w \<Rightarrow> bool" for cs n where
  same: "buffer_step cs n (B, w) (B, w)"
| refused: "mapping_allocate cs mapping n w = (w', Inl e) \<Longrightarrow> buffer_step cs n (B, w) (B, w')"
| grow: "mapping_allocate cs mapping n w = (w', Inr st) \<Longrightarrow> buffer_step cs n (B, w) (B @ [(sh_id st, is_mapped mapping)], w')"
| filled: "mapping_allocate cs Eager n w = (w', Inr st) \<Longrightarrow> buffer_step cs n (B @ (i, False) # C, w) (B @ (sh_id st, True) # C, w')"
| give: "buffer_step cs n (map page_buffer xs, w) (map page_buffer (filter (\<lambda>x. \<not> P x) xs), give_back cs (filter P xs) w)"

abbreviation buffers :: "sliced_pool \<Rightarrow> (nat \<times> bool) list" where
  "buffers p \<equiv> map page_buffer (sp_pages p)"

subsection \<open>The invariant of a pool\<close>

lemma page_in_upd [simp]: "page_in (p\<lparr>sp_pages := xs\<rparr>) = page_in p"
  by (simp add: page_in_def fun_eq_iff)

lemma pages_ok_upd [simp]: "pages_ok (p\<lparr>sp_pages := xs\<rparr>) s n ys = pages_ok p s n ys"
  by (induction ys arbitrary: n) simp_all

lemma settings_ok_upd [simp]: "settings_ok (p\<lparr>sp_pages := xs\<rparr>) = settings_ok p"
  by (simp add: settings_ok_def)

definition sliced_ok :: "nat set \<Rightarrow> mem_store \<Rightarrow> sliced_pool \<Rightarrow> bool" where
  "sliced_ok I s p \<longleftrightarrow> settings_ok p \<and> length (sp_pages p) \<le> 2 ^ 16 \<and> pages_ok p s 0 (sp_pages p) \<and> distinct (map snd (sp_pages p)) \<and>
     set (map snd (sp_pages p)) \<subseteq> I"

definition pool_held :: "mem_store \<Rightarrow> sliced_pool \<Rightarrow> (nat \<times> storage_handle) set" where
  "pool_held s p = pages_held s (sp_pages p)"

lemma pool_ok_mono: "sliced_ok I s p \<Longrightarrow> I \<subseteq> J \<Longrightarrow> sliced_ok J s p"
  by (auto simp: sliced_ok_def)

lemma pages_handles_lt:
  assumes "pages_ok p s n xs" "d \<in> all_handles xs"
  shows "d < ms_next s" "1 \<le> ms_strong s d" "lo_init (descriptor_location s d) = lo_init (sp_location_base p)"
proof -
  obtain i where i: "i < length xs" "d \<in> page_handles (xs ! i)" using assms(2) by (auto simp: all_handles_def in_set_conv_nth)
  show "d < ms_next s" "1 \<le> ms_strong s d" "lo_init (descriptor_location s d) = lo_init (sp_location_base p)"
    using page_in_location [OF pages_ok_nth [OF assms(1) i(1)] i(2)] by simp_all
qed

lemma padding_fits:
  assumes "0 < a" "a dvd m" "size' \<le> m" "calculate_padding size' a = Some padding"
  shows "size' + padding \<le> m"
proof -
  have P: "padding < a" "a dvd size' + padding" using calculate_padding_ok [OF assms(1), of size'] assms(4) by auto
  obtain k where k: "m = a * k" using assms(2) by (auto simp: dvd_def)
  obtain j where j: "size' + padding = a * j" using P(2) by (auto simp: dvd_def)
  have "a * j < a * (k + 1)" using assms(3) P(1) k j by simp
  then have "j \<le> k" using mult_less_cancel1 [of a j "k + 1"] by linarith
  then show ?thesis using k j by simp
qed

lemma pool_padding:
  assumes "settings_ok p" "size' \<le> sp_page_size p"
  shows "\<exists>padding. calculate_padding size' (sp_alignment p) = Some padding \<and> size' + padding \<le> sp_page_size p \<and> size' + padding < usize_lim"
proof -
  obtain padding where c: "calculate_padding size' (sp_alignment p) = Some padding"
    using calculate_padding_ok [of "sp_alignment p" size'] assms(1) by (auto simp: settings_ok_def)
  then show ?thesis using padding_fits [OF _ _ assms(2) c] assms(1) by (auto simp: settings_ok_def)
qed

lemma pool_accept_fits:
  assumes "settings_ok p" "pool_accept size' p = Some True"
  shows "size' \<le> sp_page_size p"
  using assms by (auto simp: pool_accept_def settings_ok_def split: if_splits)

subsection \<open>Reserving\<close>

lemma any_page_eq:
  assumes "pages_ok p s n xs" "calculate_padding size' (sp_alignment p) = Some padding" "size' + padding < usize_lim"
  shows "any_page s size' xs = Some (pages_can_reserve s size' xs)"
  using assms(1)
proof (induction xs arbitrary: n)
  case (Cons x xs)
  obtain pg i where x: "x = (pg, i)" by (cases x)
  have "pg_alignment pg = sp_alignment p" using Cons.prems x by (simp add: page_in_def)
  then have "page_can_reserve s size' pg = Some (\<not> guarded s (pg_page pg) \<and> free_run s (size' + padding) 0 (pg_slices pg))"
    using can_reserve_eq assms(2,3) by simp
  then show ?case using Cons.IH [of "Suc n"] Cons.prems x by (auto simp: pages_can_reserve_def)
qed (simp add: pages_can_reserve_def)

lemma pool_try_reserve_ok:
  assumes ok: "sliced_ok I s p" and size: "0 < size'" "size' \<le> sp_page_size p" and room: "ms_next s + slice_count (sp_pages p) + length (sp_pages p) < usize_lim"
  shows "\<exists>s' p' r. pool_try_reserve size' p s = Some (s', p', r) \<and> sliced_ok I s' p' \<and> p' = p\<lparr>sp_pages := sp_pages p'\<rparr> \<and> quiet (all_handles (sp_pages p)) s s' \<and>
    ms_next s' \<le> ms_next s + slice_count (sp_pages p) + length (sp_pages p) \<and> pool_can_reserve s size' p = Some (r \<noteq> None) \<and>
    map page_buffer (sp_pages p') = map page_buffer (sp_pages p) \<and>
    allocated (pool_held s p) size' (sp_alignment p) (sp_page_size p) (set (map snd (sp_pages p))) r s' (pool_held s' p')"
proof -
  note K = ok [unfolded sliced_ok_def]
  obtain padding where pad: "calculate_padding size' (sp_alignment p) = Some padding" "size' + padding < usize_lim" using pool_padding K size(2) by blast
  have pages: "pages_ok p s 0 (sp_pages p)" "0 + length (sp_pages p) \<le> 2 ^ 16" using K by simp_all
  obtain s' xs' r where t: "try_pages size' (sp_pages p) s = Some (s', xs', r)" "pages_ok p s' 0 xs'" "map page_buffer xs' = map page_buffer (sp_pages p)"
    "quiet (all_handles (sp_pages p)) s s'" "ms_next s' \<le> ms_next s + slice_count (sp_pages p) + length (sp_pages p)" "r \<noteq> None \<longleftrightarrow> pages_can_reserve s size' (sp_pages p)"
    "allocated (pages_held s (sp_pages p)) size' (sp_alignment p) (sp_page_size p) (set (map snd (sp_pages p))) r s' (pages_held s' xs')"
    using try_pages_ok [OF pages size(1) pad room] by blast
  have "sliced_ok I s' (p\<lparr>sp_pages := xs'\<rparr>)" using K t(2) buffers_snd [OF t(3)] by (simp add: sliced_ok_def)
  moreover have "pool_can_reserve s size' p = Some (r \<noteq> None)" using any_page_eq [OF pages(1) pad] t(6) by (simp add: pool_can_reserve_def)
  ultimately show ?thesis using t(1,3-5,7) by (simp add: pool_try_reserve_def pool_held_def)
qed

text \<open>
  A new page is appended; the request that caused it gets its first slice.  An error leaves the pool
  as it was.
\<close>

context device_storage
begin

lemma pool_alloc_ok:
  assumes ok: "sliced_ok (issued w) s p" and size: "0 < size'" "size' \<le> sp_page_size p" and room: "ms_next s + 2 < usize_lim"
  shows "\<exists>s' p' w' r. pool_alloc cs mapping size' p s w = Some (s', p', w', r) \<and> sliced_ok (issued w') s' p' \<and> issued w \<subseteq> issued w' \<and>
    p' = p\<lparr>sp_pages := sp_pages p'\<rparr> \<and> buffer_step cs (sp_page_size p) (buffers p, w) (buffers p', w') \<and>
    (case r of
       Inl e \<Rightarrow> s' = s \<and> p' = p \<and> (e = PageIndexExhausted \<and> length (sp_pages p) = 2 ^ 16 \<or> e = StorageFailed \<and> mapping_allocate cs mapping (sp_page_size p) w = (w', Inl ()))
     | Inr h \<Rightarrow> keeps {} s s' \<and> ms_next s \<le> h \<and> (\<exists>pg i. sp_pages p' = sp_pages p @ [(pg, i)] \<and> pg_mapped pg = is_mapped mapping \<and> i \<notin> issued w \<and>
         allocated (pool_held s p) size' (sp_alignment p) (sp_page_size p) {i} (Some h) s' (pool_held s' p')))"
proof (cases "length (sp_pages p) < 2 ^ 16")
  case False
  then show ?thesis using ok buffer_step.same by (simp add: pool_alloc_def sliced_ok_def)
next
  case short: True
  note K = ok [unfolded sliced_ok_def]
  obtain w' r where m: "mapping_allocate cs mapping (sp_page_size p) w = (w', r)" by fastforce
  show ?thesis
  proof (cases r)
    case (Inl e)
    then show ?thesis using m short mapping_failed [of mapping "sp_page_size p" w w' e] ok pool_ok_mono buffer_step.refused by (fastforce simp: pool_alloc_def)
  next
    case (Inr st)
    have st: "sh_offset st = 0" "sh_size st = sp_page_size p" "sh_id st \<notin> issued w" "insert (sh_id st) (issued w) \<subseteq> issued w'"
      using mapping_new [OF m [unfolded Inr]] by auto
    have set: "0 < sp_page_size p" "sp_page_size p < usize_lim" "0 < sp_alignment p" using K by (simp_all add: settings_ok_def)
    let ?base = "(sp_location_base p)\<lparr>lo_page := word_of_nat (length (sp_pages p))\<rparr>"
    obtain s1 pg where n: "page_new st (sp_alignment p) ?base mapping s = Some (s1, pg)" "page_ok s1 pg" "keeps {} s s1" "pg_storage pg = st" "pg_alignment pg = sp_alignment p"
      "pg_location_base pg = ?base" "pg_mapped pg = is_mapped mapping" "\<not> guarded s1 (pg_page pg)" "held_slices s1 (pg_slices pg) = {}"
      "\<forall>n. free_slot s1 n (pg_slices pg) \<longleftrightarrow> n \<le> sh_size st" "ms_next s1 = ms_next s + 1" "handles (pg_slices pg) = [ms_next s]"
      using page_new_ok [of st "sp_alignment p" s ?base mapping] st set room by auto
    obtain padding where pad: "calculate_padding size' (sp_alignment p) = Some padding" "size' + padding \<le> sp_page_size p" "size' + padding < usize_lim"
      using pool_padding K size(2) by blast
    obtain s2 pg2 h where t: "page_try_reserve size' pg s1 = Some (s2, pg2, Some h)" "page_ok s2 pg2" "same_page pg pg2" "quiet (set (handles (pg_slices pg))) s1 s2"
      "reserved size' pg s1 pg2 s2 h"
      using page_try_reserve_ok [OF n(2) size(1), of padding] n(5,8,10,11) pad st(2) room by auto
    note same = same_pageD [OF t(3)]
    have k: "keeps {} s s2" using keeps_trans [OF n(3) quiet_keeps [OF t(4)]] n(12) by simp
    have F: "pages_ok p s2 0 (sp_pages p)" "pages_held s2 (sp_pages p) = pages_held s (sp_pages p)" using pages_frame [of p s 0 "sp_pages p" "{}" s2] K k by auto
    have pin: "page_in p s2 (length (sp_pages p)) (pg2, sh_id st)" using t(2) same n(4-6) st(2) by (simp add: page_in_def)
    let ?p = "p\<lparr>sp_pages := sp_pages p @ [(pg2, sh_id st)]\<rparr>"
    have "sliced_ok (issued w') s2 ?p" using K F(1) pin short st(3,4) by (auto simp: sliced_ok_def pages_ok_append)
    moreover have h: "h = ms_next s" using t(5) n(12) by (simp add: reserved_def)
    have "h \<notin> fst ` pages_held s (sp_pages p)"
      using pages_held_handles [of h _ s "sp_pages p"] pages_handles_lt [of p s 0 "sp_pages p" h] K h by fastforce
    then have "allocated (pool_held s p) size' (sp_alignment p) (sp_page_size p) {sh_id st} (Some h) s2 (pool_held s2 ?p)"
      using allocated_add [OF reserved_allocated [OF t(5)], of "pages_held s (sp_pages p)"] n(4,5,9) st(2) F(2) by (simp add: pool_held_def)
    moreover have "pool_alloc cs mapping size' p s w = Some (s2, ?p, w', Inr h)" using short m Inr n(1) t(1) by (simp add: pool_alloc_def)
    moreover have "buffer_step cs (sp_page_size p) (buffers p, w) (buffers ?p, w')"
      using buffer_step.grow [OF m [unfolded Inr], of "buffers p"] same(1) n(7) by (simp add: page_buffer_def)
    ultimately show ?thesis using st(3,4) k h same(1) n(7) by auto
  qed
qed

end

subsection \<open>Operations on one page of the pool\<close>

lemma pages_replace:
  assumes ok: "pages_ok p s n (ys @ x # zs)" and x': "page_in p s' (n + length ys) x'" and k: "keeps A s s'" and A: "all_handles (ys @ zs) \<inter> A = {}"
  shows "pages_ok p s' n (ys @ x' # zs)" "pages_held s' (ys @ x' # zs) = pages_held s (ys @ zs) \<union> held_slices s' (pg_slices (fst x'))"
proof -
  have d: "all_handles ys \<inter> A = {}" "all_handles zs \<inter> A = {}" using A by auto
  have o: "pages_ok p s n ys" "pages_ok p s (Suc (n + length ys)) zs" using ok by (simp_all add: pages_ok_append)
  note F = pages_frame [OF o(1) k d(1)] pages_frame [OF o(2) k d(2)]
  show "pages_ok p s' n (ys @ x' # zs)" using F x' by (simp add: pages_ok_append)
  show "pages_held s' (ys @ x' # zs) = pages_held s (ys @ zs) \<union> held_slices s' (pg_slices (fst x'))" using F by auto
qed

text \<open>The page a handle of the pool lies on.\<close>

lemma pool_page:
  assumes ok: "sliced_ok I s p" and h: "h \<in> all_handles (sp_pages p)"
  obtains ys pg i zs where "sp_pages p = ys @ (pg, i) # zs" "h \<in> set (handles (pg_slices pg))" "unat (lo_page (descriptor_location s h)) = length ys"
    "page_in p s (length ys) (pg, i)" "page_ok s pg" "page_fits pg" "page_handles (pg, i) \<inter> all_handles (ys @ zs) = {}"
proof -
  note K = ok [unfolded sliced_ok_def]
  obtain j where j: "j < length (sp_pages p)" "h \<in> page_handles (sp_pages p ! j)" using h by (auto simp: all_handles_def in_set_conv_nth)
  obtain pg i where x: "sp_pages p ! j = (pg, i)" by fastforce
  let ?ys = "take j (sp_pages p)" and ?zs = "drop (Suc j) (sp_pages p)"
  have sp: "sp_pages p = ?ys @ (pg, i) # ?zs" "length ?ys = j" using id_take_nth_drop [OF j(1)] x j(1) by simp_all
  have o: "pages_ok p s 0 (?ys @ (pg, i) # ?zs)" using K sp(1) by simp
  then have o3: "pages_ok p s 0 ?ys" "page_in p s j (pg, i)" "pages_ok p s (Suc j) ?zs" using sp(2) by (simp_all add: pages_ok_append)
  have l: "j < 2 ^ 16" "Suc j + length ?zs \<le> 2 ^ 16" using K j(1) by auto
  have "unat (word_of_nat j :: 16 word) = j" using l(1) by (simp add: unat_of_nat)
  then have loc: "unat (lo_page (descriptor_location s h)) = j" using page_in_location(1) [OF o3(2)] j(2) x by simp
  have "page_handles (pg, i) \<inter> all_handles ?zs = {}" using pages_disjoint [OF o3(2,3)] l(2) by simp
  moreover have "page_handles (pg, i) \<inter> page_handles y = {}" if y: "y \<in> set ?ys" for y
  proof -
    obtain k where k: "k < length ?ys" "y = ?ys ! k" using y by (auto simp: in_set_conv_nth)
    have "page_in p s k y" using pages_ok_nth [OF o3(1) k(1)] k(2) by simp
    moreover have "pages_ok p s j [(pg, i)]" using o3(2) by simp
    ultimately show ?thesis using pages_disjoint [of p s k y j "[(pg, i)]"] k(1) l(1) by (auto simp: Int_commute)
  qed
  then have "page_handles (pg, i) \<inter> all_handles ?ys = {}" unfolding all_handles_def by blast
  ultimately have dj: "page_handles (pg, i) \<inter> all_handles (?ys @ ?zs) = {}" by auto
  have "page_ok s pg" "page_fits pg" using o3(2) K by (simp_all add: page_in_def page_fits_def settings_ok_def)
  then show ?thesis using that [OF sp(1)] j(2) x loc o3(2) dj sp(2) by (simp add: page_handles_def)
qed

text \<open>A binding moves an allocation to a handle of the user.\<close>

definition unbound :: "mem_store \<Rightarrow> nat \<Rightarrow> bool" where
  "unbound s d \<longleftrightarrow> d < ms_next s \<and> 1 \<le> ms_strong s d \<and> descriptor_location s d = location_uninit"

lemma unbound_not_held:
  assumes "sliced_ok I s p" "unbound s d"
  shows "d \<notin> all_handles (sp_pages p)"
proof
  assume "d \<in> all_handles (sp_pages p)"
  then have "lo_init (descriptor_location s d) = 1" using pages_handles_lt(3) [of p s 0 "sp_pages p" d] assms(1) by (simp add: sliced_ok_def settings_ok_def)
  then show False using assms(2) by (simp add: unbound_def location_uninit_def)
qed

lemma pool_replace_ok:
  assumes ok: "sliced_ok I s p" and sp: "sp_pages p = ys @ (pg, i) # zs" and pin: "page_in p s' (length ys) (pg', i')" and k: "keeps A s s'"
    and A: "all_handles (ys @ zs) \<inter> A = {}" and ids: "i' = i \<or> i' \<notin> I" and J: "insert i' I \<subseteq> J"
  defines "p' \<equiv> p\<lparr>sp_pages := (sp_pages p)[length ys := (pg', i')]\<rparr>"
  shows "sliced_ok J s' p'" "pool_held s' p' = pages_held s (ys @ zs) \<union> held_slices s' (pg_slices pg')" "sp_pages p' = ys @ (pg', i') # zs"
proof -
  note K = ok [unfolded sliced_ok_def sp]
  show e: "sp_pages p' = ys @ (pg', i') # zs" by (simp add: p'_def sp)
  have "pages_ok p s 0 (ys @ (pg, i) # zs)" using K by blast
  note R = pages_replace [OF this _ k A, of "(pg', i')"]
  show "pool_held s' p' = pages_held s (ys @ zs) \<union> held_slices s' (pg_slices pg')" using R(2) pin e by (simp add: pool_held_def)
  have "distinct (map snd (ys @ (pg', i') # zs))" "set (map snd (ys @ (pg', i') # zs)) \<subseteq> J" using K ids J by auto
  then show "sliced_ok J s' p'" using K R(1) pin e by (simp add: sliced_ok_def) (simp add: p'_def)
qed

lemma pool_bind_ok:
  assumes ok: "sliced_ok I s p" and h: "h \<in> all_handles (sp_pages p)" "2 \<le> ms_strong s h" and new: "unbound s new"
  shows "\<exists>s' p' st. pool_bind h new cursor p s = Some (s', p') \<and> sliced_ok I s' p' \<and> keeps {h, new} s s' \<and> ms_next s' = ms_next s \<and>
    p' = p\<lparr>sp_pages := sp_pages p'\<rparr> \<and> map page_buffer (sp_pages p') = map page_buffer (sp_pages p) \<and> (h, st) \<in> pool_held s p \<and> ms_strong s' new = ms_strong s new \<and>
    pool_held s' p' = (pool_held s p - {(h, st)}) \<union> (if 2 \<le> ms_strong s new then {(new, st)} else {})"
proof -
  obtain ys pg i zs where g: "sp_pages p = ys @ (pg, i) # zs" "h \<in> set (handles (pg_slices pg))" "unat (lo_page (descriptor_location s h)) = length ys"
    "page_in p s (length ys) (pg, i)" "page_ok s pg" "page_fits pg" "page_handles (pg, i) \<inter> all_handles (ys @ zs) = {}"
    using pool_page [OF ok h(1)] by blast
  have nn: "new \<notin> page_handles (pg, i)" "new \<notin> all_handles (ys @ zs)" using unbound_not_held [OF ok new] g(1) by auto
  have hn: "h \<notin> all_handles (ys @ zs)" using g(2,7) by (auto simp: page_handles_def)
  obtain s' pg' st where b: "page_bind h new cursor pg s = Some (s', pg')" "page_ok s' pg'" "same_page pg pg'" "keeps {h, new} s s'" "ms_next s' = ms_next s"
    "(h, st) \<in> held_slices s (pg_slices pg)" "ms_strong s' new = ms_strong s new"
    "held_slices s' (pg_slices pg') = (held_slices s (pg_slices pg) - {(h, st)}) \<union> (if 2 \<le> ms_strong s new then {(new, st)} else {})"
    using page_bind_ok [OF g(5,6,2) h(2), of new cursor] new nn(1) by (auto simp: unbound_def page_handles_def)
  have pin: "page_in p s' (length ys) (pg', i)" by (rule page_in_same [OF g(4) b(3,2)])
  have i: "insert i I \<subseteq> I" using ok g(1) by (auto simp: sliced_ok_def)
  have A: "all_handles (ys @ zs) \<inter> {h, new} = {}" using hn nn(2) by blast
  note R = pool_replace_ok [OF ok g(1) pin b(4) A _ i, simplified]
  have "(h, st) \<notin> pages_held s (ys @ zs)" using hn pages_held_handles by blast
  moreover have "pool_held s p = pages_held s (ys @ zs) \<union> held_slices s (pg_slices pg)" using g(1) by (auto simp: pool_held_def)
  ultimately have "pool_held s' (p\<lparr>sp_pages := (sp_pages p)[length ys := (pg', i)]\<rparr>) =
      (pool_held s p - {(h, st)}) \<union> (if 2 \<le> ms_strong s new then {(new, st)} else {})" "(h, st) \<in> pool_held s p"
    using R(2) b(6,8) by auto
  moreover have "pool_bind h new cursor p s = Some (s', p\<lparr>sp_pages := (sp_pages p)[length ys := (pg', i)]\<rparr>)"
    using g(1,3) b(1) by (simp add: pool_bind_def Let_def)
  moreover have "map page_buffer (ys @ (pg', i) # zs) = map page_buffer (sp_pages p)" using same_pageD(1) [OF b(3)] g(1) by (simp add: page_buffer_def)
  ultimately show ?thesis using R(1,3) b(4,5,7) by auto
qed

text \<open>Data that has moved elsewhere leaves a free slice.\<close>

lemma pool_release_ok:
  assumes ok: "sliced_ok I s p" and h: "h \<in> all_handles (sp_pages p)" "2 \<le> ms_strong s h" and room: "ms_next s + 1 < usize_lim"
  shows "\<exists>s' p' st. pool_release_relocated h p s = Some (s', p', Inr ()) \<and> sliced_ok I s' p' \<and> keeps {h} s s' \<and> p' = p\<lparr>sp_pages := sp_pages p'\<rparr> \<and>
    map page_buffer (sp_pages p') = map page_buffer (sp_pages p) \<and> (h, st) \<in> pool_held s p \<and> pool_held s' p' = pool_held s p - {(h, st)}"
proof -
  obtain ys pg i zs where g: "sp_pages p = ys @ (pg, i) # zs" "h \<in> set (handles (pg_slices pg))" "unat (lo_page (descriptor_location s h)) = length ys"
    "page_in p s (length ys) (pg, i)" "page_ok s pg" "page_fits pg" "page_handles (pg, i) \<inter> all_handles (ys @ zs) = {}"
    using pool_page [OF ok h(1)] by blast
  have hn: "h \<notin> all_handles (ys @ zs)" using g(2,7) by (auto simp: page_handles_def)
  obtain s' pg' st where b: "page_release_relocated h pg s = Some (s', pg', Inr ())" "page_ok s' pg'" "same_page pg pg'" "keeps {h} s s'"
    "(h, st) \<in> held_slices s (pg_slices pg)" "held_slices s' (pg_slices pg') = held_slices s (pg_slices pg) - {(h, st)}"
    using page_release_ok [OF g(5,6,2) h(2) room] by blast
  have pin: "page_in p s' (length ys) (pg', i)" by (rule page_in_same [OF g(4) b(3,2)])
  have i: "insert i I \<subseteq> I" using ok g(1) by (auto simp: sliced_ok_def)
  have A: "all_handles (ys @ zs) \<inter> {h} = {}" using hn by blast
  note R = pool_replace_ok [OF ok g(1) pin b(4) A _ i, simplified]
  have "(h, st) \<notin> pages_held s (ys @ zs)" using hn pages_held_handles by blast
  moreover have "pool_held s p = pages_held s (ys @ zs) \<union> held_slices s (pg_slices pg)" using g(1) by (auto simp: pool_held_def)
  ultimately have "pool_held s' (p\<lparr>sp_pages := (sp_pages p)[length ys := (pg', i)]\<rparr>) = pool_held s p - {(h, st)}" "(h, st) \<in> pool_held s p"
    using R(2) b(5,6) by auto
  moreover have "pool_release_relocated h p s = Some (s', p\<lparr>sp_pages := (sp_pages p)[length ys := (pg', i)]\<rparr>, Inr ())"
    using g(1,3) b(1) by (simp add: pool_release_relocated_def Let_def)
  moreover have "map page_buffer (ys @ (pg', i) # zs) = map page_buffer (sp_pages p)" using same_pageD(1) [OF b(3)] g(1) by (simp add: page_buffer_def)
  ultimately show ?thesis using R(1,3) b(4) by auto
qed

text \<open>Looking an allocation up finds its slice.\<close>

lemma pool_find_ok:
  assumes ok: "sliced_ok I s p" and h: "h \<in> all_handles (sp_pages p)"
  obtains ys pg i zs xs sl xs' where "sp_pages p = ys @ (pg, i) # zs" "pg_slices pg = xs @ sl # xs'" "sl_handle sl = h"
    "pool_find_at (descriptor_location s h) p = Some (Some sl)" "unat (lo_page (descriptor_location s h)) = length ys"
proof -
  obtain ys pg i zs where g: "sp_pages p = ys @ (pg, i) # zs" "h \<in> set (handles (pg_slices pg))" "unat (lo_page (descriptor_location s h)) = length ys"
    "page_in p s (length ys) (pg, i)" "page_ok s pg" "page_fits pg" "page_handles (pg, i) \<inter> all_handles (ys @ zs) = {}"
    by (rule pool_page [OF ok h])
  obtain xs sl xs' where l: "pg_slices pg = xs @ sl # xs'" "sl_handle sl = h" "unat (lo_slice (descriptor_location s h)) = length xs"
    using page_split [OF g(5,6,2)] by blast
  have "pool_find_at (descriptor_location s h) p = Some (Some sl)" using g(1,3) l by (simp add: pool_find_at_def page_find_at_def)
  then show ?thesis by (rule that [OF g(1) l(1,2) _ g(3)])
qed

definition rebacked :: "nat \<Rightarrow> nat \<Rightarrow> nat \<times> storage_handle \<Rightarrow> nat \<times> storage_handle" where
  "rebacked i j x = (if sh_id (snd x) = i then (fst x, (snd x)\<lparr>sh_id := j\<rparr>) else x)"

lemma rebacked_simps [simp]: "fst (rebacked i j x) = fst x" "sh_utilization (snd (rebacked i j x)) = sh_utilization (snd x)"
  by (simp_all add: rebacked_def)

lemma page_held_id: "page_in p s n x \<Longrightarrow> (h, st) \<in> held_slices s (pg_slices (fst x)) \<Longrightarrow> sh_id st = snd x"
  by (auto simp: page_in_def page_ok_def uniform_def held_slices_def)

lemma pages_held_id: "pages_ok p s n xs \<Longrightarrow> (h, st) \<in> pages_held s xs \<Longrightarrow> sh_id st \<in> set (map snd xs)"
  by (induction xs arbitrary: n) (auto dest: page_held_id)

text \<open>The pool after a page on which \<open>h\<close> lies has got the buffer \<open>real\<close>.\<close>

lemma pool_backed_ok:
  assumes ok: "sliced_ok I s p" and sp: "sp_pages p = ys @ (pg, i) # zs" and pin: "page_in p s (length ys) (pg, i)"
    and real: "sh_size real = sp_page_size p" "sh_id real \<notin> I" "insert (sh_id real) I \<subseteq> J"
  defines "pg' \<equiv> pg\<lparr>pg_slices := map (backed (sh_id real)) (pg_slices pg), pg_storage := real, pg_mapped := True\<rparr>"
  defines "p' \<equiv> p\<lparr>sp_pages := (sp_pages p)[length ys := (pg', sh_id real)]\<rparr>"
  shows "sliced_ok J s p'" "pool_held s p' = rebacked i (sh_id real) ` pool_held s p" "all_handles (sp_pages p') = all_handles (sp_pages p)"
proof -
  have P: "page_ok s pg" "sh_size (pg_storage pg) = sp_page_size p" "i = sh_id (pg_storage pg)" using pin by (simp_all add: page_in_def)
  note B = page_backed_ok [OF P(1), of real, folded pg'_def]
  have pin': "page_in p s (length ys) (pg', sh_id real)" using B(1) pin real(1) P(2) by (simp add: page_in_def pg'_def)
  note R = pool_replace_ok [OF ok sp pin' keeps_refl [of "{}"], of J, folded p'_def]
  show "sliced_ok J s p'" using R(1) real(2,3) by simp
  have e: "sp_pages p' = ys @ (pg', sh_id real) # zs" using R(3) real(2,3) by simp
  show "all_handles (sp_pages p') = all_handles (sp_pages p)" unfolding e sp by (simp add: page_handles_def pg'_def)
  have "rebacked i (sh_id real) x = x" if "x \<in> pages_held s (ys @ zs)" for x
  proof -
    have "pages_ok p s 0 ys" "pages_ok p s (Suc (length ys)) zs" "i \<notin> set (map snd (ys @ zs))" using ok sp by (auto simp: sliced_ok_def pages_ok_append)
    then have "sh_id (snd x) \<noteq> i" using that pages_held_id [of p s 0 ys "fst x" "snd x"] pages_held_id [of p s "Suc (length ys)" zs "fst x" "snd x"] by auto
    then show ?thesis by (simp add: rebacked_def)
  qed
  then have o: "rebacked i (sh_id real) ` pages_held s (ys @ zs) = pages_held s (ys @ zs)" by force
  have eq: "rebacked i (sh_id real) x = (\<lambda>(h, st). (h, st\<lparr>sh_id := sh_id real\<rparr>)) x" if "x \<in> held_slices s (pg_slices pg)" for x
    using that page_held_id [OF pin, of "fst x" "snd x"] by (simp add: rebacked_def split: prod.splits)
  have "rebacked i (sh_id real) ` held_slices s (pg_slices pg) = held_slices s (pg_slices pg')"
    using image_cong [OF refl eq] B(2) P(2) real(1) by simp
  moreover have "pool_held s p = pages_held s (ys @ zs) \<union> held_slices s (pg_slices pg)" using sp by (auto simp: pool_held_def)
  ultimately show "pool_held s p' = rebacked i (sh_id real) ` pool_held s p" using R(2) real(2,3) o by (simp add: image_Un)
qed

context device_storage
begin

text \<open>A page that was only planned gets a real buffer; its allocations move to it.\<close>

lemma pool_materialize_ok:
  assumes ok: "sliced_ok (issued w) s p" and h: "h \<in> all_handles (sp_pages p)"
  shows "\<exists>p' w' r. pool_materialize cs h p s w = Some (p', w', r) \<and> sliced_ok (issued w') s p' \<and> issued w \<subseteq> issued w' \<and> p' = p\<lparr>sp_pages := sp_pages p'\<rparr> \<and>
    buffer_step cs (sp_page_size p) (buffers p, w) (buffers p', w') \<and> (\<exists>i j. pool_held s p' = rebacked i j ` pool_held s p) \<and> fst ` pool_held s p' = fst ` pool_held s p \<and> all_handles (sp_pages p') = all_handles (sp_pages p) \<and>
    (r = Inl StorageFailed \<and> p' = p \<or> r = Inr () \<and> (\<exists>sl. pool_find_at (descriptor_location s h) p' = Some (Some sl) \<and> sl_handle sl = h \<and> sl_mapped sl))"
proof -
  obtain ys pg i zs where g: "sp_pages p = ys @ (pg, i) # zs" "h \<in> set (handles (pg_slices pg))" "unat (lo_page (descriptor_location s h)) = length ys"
    "page_in p s (length ys) (pg, i)" "page_ok s pg" "page_fits pg" "page_handles (pg, i) \<inter> all_handles (ys @ zs) = {}"
    by (rule pool_page [OF ok h])
  obtain sl where f: "pool_find_at (descriptor_location s h) p = Some (Some sl)" "sl_handle sl = h" by (rule pool_find_ok [OF ok h])
  show ?thesis
  proof (cases "pg_mapped pg")
    case True
    have "sl \<in> set (pg_slices pg)" using f(1) g(1,3) by (auto simp: pool_find_at_def page_find_at_def split: if_splits)
    then have "sl_mapped sl" using g(5) True by (simp add: page_ok_def uniform_def)
    moreover have "pool_materialize cs h p s w = Some (p, w, Inr ())"
      using f(1) g(1,3,4) True by (simp add: pool_materialize_def page_materialize_def page_in_def Let_def)
    moreover have "rebacked 0 0 = id" by (simp add: rebacked_def fun_eq_iff)
    ultimately show ?thesis using ok f buffer_step.same by (auto intro!: exI [of _ "0 :: nat"])
  next
    case False
    obtain w' r where a: "cs_alloc cs (sp_page_size p) w = (w', r)" by fastforce
    have sz: "sh_size (pg_storage pg) = sp_page_size p" using g(4) by (simp add: page_in_def)
    show ?thesis
    proof (cases r)
      case (Inl e)
      have "pool_materialize cs h p s w = Some (p, w', Inl StorageFailed)"
        using f(1) g(1,3) False a Inl sz by (simp add: pool_materialize_def page_materialize_def Let_def)
      moreover have "rebacked 0 0 = id" by (simp add: rebacked_def fun_eq_iff)
      moreover have "issued w \<subseteq> issued w'" using alloc_failed a Inl by blast
      moreover have "buffer_step cs (sp_page_size p) (buffers p, w) (buffers p, w')" using a Inl by (intro buffer_step.refused [of cs Eager]) (simp add: mapping_allocate_def)
      ultimately show ?thesis using ok pool_ok_mono by (auto intro!: exI [of _ "0 :: nat"])
    next
      case (Inr real)
      have L: "sh_size real = sp_page_size p" "sh_id real \<notin> issued w" "insert (sh_id real) (issued w) \<subseteq> issued w'" using alloc_new [OF a [unfolded Inr]] by auto
      let ?pg' = "pg\<lparr>pg_slices := map (backed (sh_id real)) (pg_slices pg), pg_storage := real, pg_mapped := True\<rparr>"
      let ?p' = "p\<lparr>sp_pages := (sp_pages p)[length ys := (?pg', sh_id real)]\<rparr>"
      note B = pool_backed_ok [OF ok g(1,4) L]
      have run: "pool_materialize cs h p s w = Some (?p', w', Inr ())"
        using f(1) g(1,3) False a Inr sz by (simp add: pool_materialize_def page_materialize_eq Let_def)
      have "h \<in> all_handles (sp_pages ?p')" using B(3) h by simp
      then obtain sl' where f': "pool_find_at (descriptor_location s h) ?p' = Some (Some sl')" "sl_handle sl' = h" using pool_find_ok [OF B(1)] by blast
      then have "sl' = backed (sh_id real) (pg_slices pg ! unat (lo_slice (descriptor_location s h)))"
        using g(1,3) by (auto simp: pool_find_at_def page_find_at_def split: if_splits)
      then have "sl_mapped sl'" by simp
      moreover have "fst ` pool_held s ?p' = fst ` pool_held s p" unfolding B(2) by (simp add: image_image)
      moreover have "mapping_allocate cs Eager (sp_page_size p) w = (w', Inr real)" using a Inr by (simp add: mapping_allocate_def)
      then have "buffer_step cs (sp_page_size p) (buffers p, w) (buffers ?p', w')"
        using buffer_step.filled [of cs "sp_page_size p" w w' real "map page_buffer ys" i "map page_buffer zs"] g(1) False by (simp add: page_buffer_def)
      ultimately show ?thesis using run B f' L(3) by auto
    qed
  qed
qed

end

end
