(* ===== verification/Device_Pool_Clean.thy ===== *)
theory Device_Pool_Clean
  imports Device_Pool_Ops
begin

text \<open>
  Cleaning a pool up: the pages nobody uses go back to the device, the others close the gaps.
\<close>

subsection \<open>Idle pages\<close>

definition page_idle :: "mem_store \<Rightarrow> memory_page \<Rightarrow> bool" where
  "page_idle s pg \<longleftrightarrow> \<not> guarded s (pg_page pg) \<and> held_slices s (pg_slices pg) = {}"

lemma held_empty: "owned s sls \<Longrightarrow> held_slices s sls = {} \<longleftrightarrow> (\<forall>sl \<in> set sls. ms_strong s (sl_handle sl) \<le> 1)"
  by (auto simp: held_slices_def owned_def not_le)

lemma fold_free:
  "fold (\<lambda>sl n. if P sl then n + effective_size sl else n) sls m = m + sum_list (map effective_size (filter P sls))"
  by (induction sls arbitrary: m) simp_all

lemma tiles_sum: "tiles a off sls e \<Longrightarrow> off + sum_list (map effective_size sls) = e"
  by (induction sls arbitrary: off) (fastforce simp: add.assoc [symmetric])+

lemma filter_all_sum:
  assumes "\<forall>sl \<in> set sls. 0 < effective_size sl"
  shows "sum_list (map effective_size (filter P sls)) = sum_list (map effective_size sls) \<longleftrightarrow> (\<forall>sl \<in> set sls. P sl)"
  using assms
proof (induction sls)
  case (Cons sl sls)
  have "sum_list (map effective_size (filter P sls)) \<le> sum_list (map effective_size sls)" by (induction sls) auto
  then show ?case using Cons by auto
qed simp

lemma tiles_positive: "tiles a off sls e \<Longrightarrow> \<forall>sl \<in> set sls. 0 < effective_size sl"
  by (induction sls arbitrary: off) auto

lemma amounts_idle:
  assumes ok: "page_ok s pg" and pos: "0 < sh_size (pg_storage pg)"
  shows "amount_free s pg = amount_total pg \<longleftrightarrow> page_idle s pg"
proof -
  note K = ok [unfolded page_ok_def]
  have t: "tiles (pg_alignment pg) 0 (pg_slices pg) (sh_size (pg_storage pg))" using K by blast
  have ne: "pg_slices pg \<noteq> []" using t pos by (cases "pg_slices pg") auto
  have "amount_free s pg = amount_total pg \<longleftrightarrow> (\<forall>sl \<in> set (pg_slices pg). slice_is_free s sl)"
    using filter_all_sum [OF tiles_positive [OF t]] tiles_sum [OF t] by (simp add: amount_free_def amount_total_def fold_free)
  also have "\<dots> \<longleftrightarrow> page_idle s pg"
    using K ne held_empty [of s "pg_slices pg"] by (auto simp: page_idle_def slice_is_free_def handle_is_free_def uniform_def neq_Nil_conv)
  finally show ?thesis .
qed

lemma page_same_idle: "page_same s s' pg \<Longrightarrow> page_idle s' pg = page_idle s pg"
  by (simp add: page_same_def page_idle_def)

lemma fold_drop_quiet:
  "(\<forall>d \<in> set (handles sls). ms_strong s d \<le> 1) \<Longrightarrow> quiet (set (handles sls)) s (fold (\<lambda>sl. drop_handle (sl_handle sl)) sls s) \<and>
    ms_next (fold (\<lambda>sl. drop_handle (sl_handle sl)) sls s) = ms_next s"
proof (induction sls arbitrary: s)
  case (Cons sl sls)
  let ?s = "drop_handle (sl_handle sl) s"
  have "quiet {sl_handle sl} s ?s" using Cons.prems by (simp add: drop_free_quiet)
  then have q: "quiet (set (handles (sl # sls))) s ?s" by (rule quiet_mono) simp
  have IH: "quiet (set (handles sls)) ?s (fold (\<lambda>sl. drop_handle (sl_handle sl)) sls ?s) \<and> ms_next (fold (\<lambda>sl. drop_handle (sl_handle sl)) sls ?s) = ms_next ?s"
    using Cons.prems by (intro Cons.IH) auto
  show ?case using quiet_trans [OF q conjunct1 [OF IH]] IH by auto
qed simp

subsection \<open>The loop\<close>

lemma lists_disjoint:
  assumes "pages_ok p s 0 kept" "length kept \<le> index" "pages_ok p s index xs" "index + length xs \<le> 2 ^ 16"
  shows "all_handles kept \<inter> all_handles xs = {}"
proof -
  have "page_handles y \<inter> all_handles xs = {}" if y: "y \<in> set kept" for y
  proof -
    obtain k where k: "k < length kept" "y = kept ! k" using y by (auto simp: in_set_conv_nth)
    have "page_in p s k y" using pages_ok_nth [OF assms(1) k(1)] k(2) by simp
    then show ?thesis using pages_disjoint [OF _ assms(3)] k(1) assms(2,4) by simp
  qed
  then show ?thesis unfolding all_handles_def by blast
qed

definition cleaning :: "sliced_pool \<Rightarrow> nat \<Rightarrow> (memory_page \<times> nat) list \<Rightarrow> (memory_page \<times> nat) list \<Rightarrow> mem_store \<Rightarrow> bool" where
  "cleaning p index xs kept s \<longleftrightarrow> settings_ok p \<and> pages_ok p s 0 kept \<and> pages_ok p s index xs \<and> length kept \<le> index \<and> index + length xs \<le> 2 ^ 16 \<and>
     ms_next s + slice_count xs < usize_lim"

definition cleaned :: "sliced_pool \<Rightarrow> (memory_page \<times> nat) list \<Rightarrow> (memory_page \<times> nat) list \<Rightarrow> mem_store \<Rightarrow> mem_store \<Rightarrow> (memory_page \<times> nat) list \<Rightarrow> bool" where
  "cleaned p xs kept s s' out \<longleftrightarrow> pages_ok p s' 0 out \<and> pages_held s' out = pages_held s kept \<union> pages_held s xs \<and>
     map page_buffer out = map page_buffer kept @ map page_buffer (filter (\<lambda>x. \<not> page_idle s (fst x)) xs) \<and> quiet (all_handles xs) s s' \<and>
     ms_next s' \<le> ms_next s + slice_count xs"

text \<open>What becomes of one page.\<close>

lemma clean_page:
  assumes pin: "page_in p s index (pg, i)" and set: "settings_ok p" and room: "ms_next s + length (pg_slices pg) < usize_lim"
  shows "\<exists>s1 pg1. page_coalesce pg s = Some (s1, pg1) \<and> (amount_free s1 pg1 = amount_total pg1 \<longleftrightarrow> page_idle s pg) \<and> pg_mapped pg1 = pg_mapped pg \<and>
    (page_idle s pg \<longrightarrow> quiet (page_handles (pg, i)) s (fold (\<lambda>sl. drop_handle (sl_handle sl)) (pg_slices pg1) s1) \<and>
      ms_next (fold (\<lambda>sl. drop_handle (sl_handle sl)) (pg_slices pg1) s1) \<le> ms_next s + length (pg_slices pg)) \<and>
    (\<forall>n s2 pg2. (if index \<noteq> n then page_update_page (word_of_nat n) pg1 s1 else (s1, pg1)) = (s2, pg2) \<longrightarrow>
      page_in p s2 n (pg2, i) \<and> pg_mapped pg2 = pg_mapped pg \<and> held_slices s2 (pg_slices pg2) = held_slices s (pg_slices pg) \<and> quiet (page_handles (pg, i)) s s2 \<and>
      ms_next s2 \<le> ms_next s + length (pg_slices pg))"
proof -
  have ok: "page_ok s pg" and sz: "sh_size (pg_storage pg) = sp_page_size p" "0 < sp_page_size p" using pin set by (simp_all add: page_in_def settings_ok_def)
  obtain s1 pg1 where c: "page_coalesce pg s = Some (s1, pg1)" "page_ok s1 pg1" "same_page pg pg1" "quiet (set (handles (pg_slices pg))) s s1"
    "held_slices s1 (pg_slices pg1) = held_slices s (pg_slices pg)" "ms_next s1 \<le> ms_next s + length (pg_slices pg)"
    using page_coalesce_ok [OF ok room] by blast
  note same = same_pageD [OF c(3)]
  have g: "guarded s1 (pg_page pg) = guarded s (pg_page pg)" using quiet_guarded [OF c(4)] ok by (simp add: page_ok_def)
  have idle: "page_idle s1 pg1 = page_idle s pg" using g c(5) same(2) by (simp add: page_idle_def)
  have am: "amount_free s1 pg1 = amount_total pg1 \<longleftrightarrow> page_idle s pg" using amounts_idle [OF c(2)] idle sz same(3) by simp
  have q: "quiet (page_handles (pg, i)) s s2" if "quiet (set (handles (pg_slices pg1))) s1 s2" for s2
    unfolding page_handles_def fst_conv by (rule quiet_trans [OF c(4) that]) (use page_coalesce_handles [OF c(1)] in force)
  have own: "owned s1 (pg_slices pg1)" using c(2) by (simp add: page_ok_def)
  have dropped: "quiet (page_handles (pg, i)) s (fold (\<lambda>sl. drop_handle (sl_handle sl)) (pg_slices pg1) s1) \<and>
      ms_next (fold (\<lambda>sl. drop_handle (sl_handle sl)) (pg_slices pg1) s1) \<le> ms_next s + length (pg_slices pg)" if "page_idle s pg"
  proof -
    have "held_slices s1 (pg_slices pg1) = {}" using that idle by (simp add: page_idle_def)
    then have "\<forall>d \<in> set (handles (pg_slices pg1)). ms_strong s1 d \<le> 1" using held_empty [OF own] by auto
    then show ?thesis using fold_drop_quiet [of "pg_slices pg1" s1] q c(6) by auto
  qed
  have pin1: "page_in p s1 index (pg1, i)" by (rule page_in_same [OF pin c(3,2)])
  have moved: "page_in p s2 n (pg2, i) \<and> pg_mapped pg2 = pg_mapped pg \<and> held_slices s2 (pg_slices pg2) = held_slices s (pg_slices pg) \<and> quiet (page_handles (pg, i)) s s2 \<and> ms_next s2 \<le> ms_next s + length (pg_slices pg)"
    if u: "(if index \<noteq> n then page_update_page (word_of_nat n) pg1 s1 else (s1, pg1)) = (s2, pg2)" for n s2 pg2
  proof (cases "index = n")
    case True
    then show ?thesis using u pin1 c(5,6) q [of s1] same(1) by simp
  next
    case False
    then have u': "page_update_page (word_of_nat n) pg1 s1 = (s2, pg2)" using u by simp
    note U = page_update_page_ok [OF c(2) u']
    have "quiet (set (handles (pg_slices pg1))) s1 s2" using U(2,6) by (simp add: quiet_def keeps_def)
    moreover have "page_in p s2 n (pg2, i)" using U(1,3) pin1 by (simp add: page_in_def)
    moreover have "held_slices s2 (pg_slices pg2) = held_slices s (pg_slices pg)" using U(3,4) c(5) by (simp add: page_same_def)
    ultimately show ?thesis using q U(3,5) c(6) same(1) by simp
  qed
  show ?thesis using c(1) am same(1) dropped moved by blast
qed

lemma pages_idle_frame:
  assumes "pages_ok p s n xs" "keeps A s s'" "all_handles xs \<inter> A = {}"
  shows "filter (\<lambda>x. page_idle s' (fst x)) xs = filter (\<lambda>x. page_idle s (fst x)) xs"
    "filter (\<lambda>x. \<not> page_idle s' (fst x)) xs = filter (\<lambda>x. \<not> page_idle s (fst x)) xs"
  using pages_frame [OF assms] page_same_idle by (auto intro!: filter_cong)

lemma cleanup_loop_ok:
  assumes "cleaning p index xs kept s"
  shows "\<exists>s' out. cleanup_loop cs index xs kept s w = Some (s', out, give_back cs (filter (\<lambda>x. page_idle s (fst x)) xs) w) \<and> cleaned p xs kept s s' out"
  using assms
proof (induction xs arbitrary: index kept s w)
  case Nil
  then show ?case by (simp add: cleaning_def cleaned_def give_back_def)
next
  case (Cons x xs)
  obtain pg i where x: "x = (pg, i)" by (cases x)
  note C = Cons.prems [unfolded cleaning_def]
  have pin: "page_in p s index (pg, i)" and rest: "pages_ok p s (Suc index) xs" and keep: "pages_ok p s 0 kept" using C x by simp_all
  have dr: "all_handles xs \<inter> page_handles (pg, i) = {}" using pages_disjoint [OF pin rest] C x by auto
  have "pages_ok p s index [(pg, i)]" using pin by simp
  then have dk: "all_handles kept \<inter> page_handles (pg, i) = {}" using lists_disjoint [OF keep, of index "[(pg, i)]"] C by simp
  have room: "ms_next s + length (pg_slices pg) < usize_lim" using C x by simp
  obtain s1 pg1 where c: "page_coalesce pg s = Some (s1, pg1)" "amount_free s1 pg1 = amount_total pg1 \<longleftrightarrow> page_idle s pg" "pg_mapped pg1 = pg_mapped pg"
    "page_idle s pg \<longrightarrow> quiet (page_handles (pg, i)) s (fold (\<lambda>sl. drop_handle (sl_handle sl)) (pg_slices pg1) s1) \<and>
      ms_next (fold (\<lambda>sl. drop_handle (sl_handle sl)) (pg_slices pg1) s1) \<le> ms_next s + length (pg_slices pg)"
    "\<forall>n s2 pg2. (if index \<noteq> n then page_update_page (word_of_nat n) pg1 s1 else (s1, pg1)) = (s2, pg2) \<longrightarrow>
      page_in p s2 n (pg2, i) \<and> pg_mapped pg2 = pg_mapped pg \<and> held_slices s2 (pg_slices pg2) = held_slices s (pg_slices pg) \<and> quiet (page_handles (pg, i)) s s2 \<and>
      ms_next s2 \<le> ms_next s + length (pg_slices pg)"
    using clean_page [OF pin conjunct1 [OF C] room] by (elim exE conjE) (rule that)
  have step: "\<exists>s' out. cleanup_loop cs (index + 1) xs kept2 s2 w2 = Some (s', out, give_back cs (filter (\<lambda>x. page_idle s (fst x)) xs) w2) \<and>
      pages_ok p s' 0 out \<and> pages_held s' out = pages_held s2 kept2 \<union> pages_held s xs \<and>
      map page_buffer out = map page_buffer kept2 @ map page_buffer (filter (\<lambda>x. \<not> page_idle s (fst x)) xs) \<and> quiet (all_handles (x # xs)) s s' \<and>
      ms_next s' \<le> ms_next s + slice_count (x # xs)"
    if q: "quiet (page_handles (pg, i)) s s2" and n: "ms_next s2 \<le> ms_next s + length (pg_slices pg)" and k2: "pages_ok p s2 0 kept2" "length kept2 \<le> index + 1" for kept2 s2 w2
  proof -
    note F = pages_frame [OF rest quiet_keeps [OF q] dr] and I = pages_idle_frame [OF rest quiet_keeps [OF q] dr]
    have "cleaning p (index + 1) xs kept2 s2" using C F k2 n x by (simp add: cleaning_def)
    from Cons.IH [OF this, of w2] obtain s' out where r: "cleanup_loop cs (index + 1) xs kept2 s2 w2 = Some (s', out, give_back cs (filter (\<lambda>x. page_idle s2 (fst x)) xs) w2)"
      "cleaned p xs kept2 s2 s' out" by blast
    have "quiet (all_handles xs) s2 s'" using r(2) by (simp add: cleaned_def)
    then have "quiet (all_handles (x # xs)) s s'" using quiet_trans [OF quiet_mono [OF q]] x by (metis Un_iff all_handles_simps(2) sup_ge1)
    then show ?thesis using r F I n x by (auto simp: cleaned_def)
  qed
  have "length kept < 2 ^ 16" using C by simp
  then have pos: "unat (word_of_nat (length kept) :: 16 word) = length kept" by (simp add: unat_of_nat)
  show ?case
  proof (cases "page_idle s pg")
    case True
    let ?s2 = "fold (\<lambda>sl. drop_handle (sl_handle sl)) (pg_slices pg1) s1"
    have q: "quiet (page_handles (pg, i)) s ?s2" "ms_next ?s2 \<le> ms_next s + length (pg_slices pg)" using c(4) True by simp_all
    note F = pages_frame [OF keep quiet_keeps [OF q(1)] dk]
    have "length kept \<le> index + 1" using C by simp
    then show ?thesis using step [OF q, of kept "if pg_mapped pg then cs_dealloc cs i w else w"] F c(1-3) True x
      by (auto simp: cleaned_def give_back_def page_idle_def)
  next
    case False
    obtain s2 pg2 where u: "(if index \<noteq> length kept then page_update_page (word_of_nat (length kept)) pg1 s1 else (s1, pg1)) = (s2, pg2)" by fastforce
    have q: "page_in p s2 (length kept) (pg2, i)" "held_slices s2 (pg_slices pg2) = held_slices s (pg_slices pg)" "quiet (page_handles (pg, i)) s s2"
      "ms_next s2 \<le> ms_next s + length (pg_slices pg)" using c(5) u by blast+
    have buf: "page_buffer (pg2, i) = page_buffer x" using c(5) u x by (simp add: page_buffer_def)
    note F = pages_frame [OF keep quiet_keeps [OF q(3)] dk]
    have "pages_ok p s2 0 (kept @ [(pg2, i)])" using F q(1) by (simp add: pages_ok_append)
    moreover have "length (kept @ [(pg2, i)]) \<le> index + 1" using C by simp
    moreover have "pages_held s2 (kept @ [(pg2, i)]) = pages_held s kept \<union> held_slices s (pg_slices pg)" using F q(2) by auto
    ultimately show ?thesis using step [OF q(3,4), of "kept @ [(pg2, i)]" w] c(1,2) u False x buf pos
      by (auto simp: cleaned_def)
  qed
qed

lemma pool_cleanup_ok:
  assumes ok: "sliced_ok I s p" and room: "ms_next s + slice_count (sp_pages p) < usize_lim"
  shows "\<exists>s' p'. pool_cleanup cs True p s w = Some (s', p', give_back cs (filter (\<lambda>x. page_idle s (fst x)) (sp_pages p)) w) \<and> sliced_ok I s' p' \<and>
    p' = p\<lparr>sp_pages := sp_pages p'\<rparr> \<and> pool_held s' p' = pool_held s p \<and> quiet (all_handles (sp_pages p)) s s' \<and>
    map page_buffer (sp_pages p') = map page_buffer (filter (\<lambda>x. \<not> page_idle s (fst x)) (sp_pages p))"
proof -
  note K = ok [unfolded sliced_ok_def]
  have "cleaning p 0 (sp_pages p) [] s" using K room by (simp add: cleaning_def)
  from cleanup_loop_ok [OF this, of cs w] obtain s' out where r: "cleanup_loop cs 0 (sp_pages p) [] s w = Some (s', out, give_back cs (filter (\<lambda>x. page_idle s (fst x)) (sp_pages p)) w)"
    "cleaned p (sp_pages p) [] s s' out" by blast
  have buf: "map page_buffer out = map page_buffer (filter (\<lambda>x. \<not> page_idle s (fst x)) (sp_pages p))" using r(2) by (simp add: cleaned_def)
  note ids = buffers_snd(1) [OF buf]
  have "length out \<le> length (sp_pages p)" using ids by (metis length_filter_le length_map)
  moreover have "distinct (map snd out)" "set (map snd out) \<subseteq> I" using K unfolding ids by (auto simp: distinct_map_filter)
  ultimately have "sliced_ok I s' (p\<lparr>sp_pages := out\<rparr>)" using K r(2) by (auto simp: sliced_ok_def cleaned_def)
  then show ?thesis using r buf by (simp add: pool_cleanup_def pool_held_def cleaned_def)
qed

end
