(* ===== verification/Device_Run.thy ===== *)
theory Device_Run
  imports Device_Pool_Clean
begin

text \<open>
  Runs of a pool and its users: reserving, cloning and dropping handles, binding, cleaning up, in any order.
\<close>

subsection \<open>Reserving from a pool\<close>

text \<open>Handles somebody refers to keep their references.\<close>

definition counts_kept :: "mem_store \<Rightarrow> mem_store \<Rightarrow> bool" where
  "counts_kept s s' \<longleftrightarrow> (\<forall>d < ms_next s. 2 \<le> ms_strong s d \<longrightarrow> ms_strong s' d = ms_strong s d)"

lemma quiet_counts: "quiet A s s' \<Longrightarrow> counts_kept s s'"
  by (simp add: quiet_def counts_kept_def)

lemma counts_kept_trans: "counts_kept s s1 \<Longrightarrow> counts_kept s1 s2 \<Longrightarrow> ms_next s \<le> ms_next s1 \<Longrightarrow> counts_kept s s2"
  unfolding counts_kept_def by (metis order_less_le_trans)

lemma allocated_ids: "allocated H n a b ids r s H' \<Longrightarrow> ids \<subseteq> ids' \<Longrightarrow> allocated H n a b ids' r s H'"
  using allocated_add [of H n a b ids r s H' "{}" ids'] by simp

definition reserve_outcome :: "sliced_pool \<Rightarrow> nat \<Rightarrow> mem_store \<Rightarrow> nat set \<Rightarrow> bool \<Rightarrow> mem_store \<Rightarrow> sliced_pool \<Rightarrow> (pool_error + nat) \<Rightarrow> bool" where
  "reserve_outcome p size' s I refused s' p' r \<longleftrightarrow>
     (case r of
        Inl e \<Rightarrow> pool_held s' p' = pool_held s p \<and> pool_can_reserve s size' p = Some False \<and>
          (e = PageIndexExhausted \<and> length (sp_pages p) = 2 ^ 16 \<or> e = StorageFailed \<and> refused)
      | Inr h \<Rightarrow> allocated (pool_held s p) size' (sp_alignment p) (sp_page_size p) I (Some h) s' (pool_held s' p') \<and>
          length (sp_pages p') = length (sp_pages p) + (if pool_can_reserve s size' p = Some True then 0 else 1))"

context device_storage
begin

lemma pool_reserve_ok:
  assumes ok: "sliced_ok (issued w) s p" and size: "0 < size'" "pool_accept size' p = Some True"
    and room: "ms_next s + slice_count (sp_pages p) + length (sp_pages p) + 2 < usize_lim"
  shows "\<exists>s' p' w' r. pool_reserve cs mapping size' p s w = Some (s', p', w', r) \<and> sliced_ok (issued w') s' p' \<and> issued w \<subseteq> issued w' \<and>
    p' = p\<lparr>sp_pages := sp_pages p'\<rparr> \<and> buffer_step cs (sp_page_size p) (buffers p, w) (buffers p', w') \<and> counts_kept s s' \<and> reserve_outcome p size' s (issued w') (mapping_allocate cs mapping (sp_page_size p) w = (w', Inl ())) s' p' r"
proof -
  have set: "settings_ok p" using ok by (simp add: sliced_ok_def)
  have le: "size' \<le> sp_page_size p" using pool_accept_fits [OF set size(2)] .
  obtain s1 p1 r1 where t: "pool_try_reserve size' p s = Some (s1, p1, r1)" "sliced_ok (issued w) s1 p1" "p1 = p\<lparr>sp_pages := sp_pages p1\<rparr>"
    "quiet (all_handles (sp_pages p)) s s1" "ms_next s1 \<le> ms_next s + slice_count (sp_pages p) + length (sp_pages p)"
    "pool_can_reserve s size' p = Some (r1 \<noteq> None)" "map page_buffer (sp_pages p1) = map page_buffer (sp_pages p)"
    "allocated (pool_held s p) size' (sp_alignment p) (sp_page_size p) (set (map snd (sp_pages p))) r1 s1 (pool_held s1 p1)"
    using pool_try_reserve_ok [OF ok size(1) le] room by auto
  have len: "length (sp_pages p1) = length (sp_pages p)" using buffers_snd(2) [OF t(7)] .
  have conf: "sp_page_size p1 = sp_page_size p" "sp_alignment p1 = sp_alignment p"
    using t(3) by (metis sliced_pool.select_convs(2,3) sliced_pool.surjective sliced_pool.update_convs(1))+
  have ids: "set (map snd (sp_pages p)) \<subseteq> issued w" using ok by (simp add: sliced_ok_def)
  note c1 = quiet_counts [OF t(4)]
  show ?thesis
  proof (cases r1)
    case (Some h)
    then have "pool_reserve cs mapping size' p s w = Some (s1, p1, w, Inr h)" using t(1) by (simp add: pool_reserve_def)
    moreover have "reserve_outcome p size' s (issued w) R s1 p1 (Inr h)" for R
      using allocated_ids [OF t(8) ids] Some t(6) len by (simp add: reserve_outcome_def)
    moreover have "buffer_step cs (sp_page_size p) (buffers p, w) (buffers p1, w)" unfolding t(7) by (rule buffer_step.same)
    ultimately show ?thesis using t(2,3) c1 by blast
  next
    case None
    have H: "pool_held s1 p1 = pool_held s p" using t(8) None by (simp add: allocated_def)
    have can: "pool_can_reserve s size' p = Some False" using t(6) None by simp
    obtain s' p' w' r where a: "pool_alloc cs mapping size' p1 s1 w = Some (s', p', w', r)" "sliced_ok (issued w') s' p'" "issued w \<subseteq> issued w'"
      "p' = p1\<lparr>sp_pages := sp_pages p'\<rparr>" "buffer_step cs (sp_page_size p1) (buffers p1, w) (buffers p', w')"
      "case r of
         Inl e \<Rightarrow> s' = s1 \<and> p' = p1 \<and> (e = PageIndexExhausted \<and> length (sp_pages p1) = 2 ^ 16 \<or> e = StorageFailed \<and> mapping_allocate cs mapping (sp_page_size p1) w = (w', Inl ()))
       | Inr h \<Rightarrow> keeps {} s1 s' \<and> ms_next s1 \<le> h \<and> (\<exists>pg i. sp_pages p' = sp_pages p1 @ [(pg, i)] \<and> pg_mapped pg = is_mapped mapping \<and> i \<notin> issued w \<and>
           allocated (pool_held s1 p1) size' (sp_alignment p1) (sp_page_size p1) {i} (Some h) s' (pool_held s' p'))"
      using pool_alloc_ok [OF t(2) size(1), of mapping] le conf t(5) room by auto
    have run: "pool_reserve cs mapping size' p s w = Some (s', p', w', r)" using t(1) None a(1) by (simp add: pool_reserve_def)
    have "p' = p\<lparr>sp_pages := sp_pages p'\<rparr>" using a(4) t(3)
      by (metis sliced_pool.update_convs(1) sliced_pool.surjective sliced_pool.select_convs(1))
    moreover have "counts_kept s s' \<and> reserve_outcome p size' s (issued w') (mapping_allocate cs mapping (sp_page_size p) w = (w', Inl ())) s' p' r"
    proof (cases r)
      case (Inl e)
      then show ?thesis using a(6) c1 H can len conf by (auto simp: reserve_outcome_def)
    next
      case (Inr h)
      then have k: "keeps {} s1 s'" and al: "\<exists>pg i. sp_pages p' = sp_pages p1 @ [(pg, i)] \<and>
          allocated (pool_held s1 p1) size' (sp_alignment p1) (sp_page_size p1) {i} (Some h) s' (pool_held s' p')" using a(6) by auto
      then obtain pg i where pi: "sp_pages p' = sp_pages p1 @ [(pg, i)]"
        "allocated (pool_held s1 p1) size' (sp_alignment p1) (sp_page_size p1) {i} (Some h) s' (pool_held s' p')" by blast
      have "{i} \<subseteq> issued w'" using a(2) pi(1) by (simp add: sliced_ok_def)
      then have "allocated (pool_held s p) size' (sp_alignment p) (sp_page_size p) (issued w') (Some h) s' (pool_held s' p')"
        using allocated_ids [OF pi(2)] H conf by simp
      moreover have "counts_kept s1 s'" using k by (simp add: keeps_def counts_kept_def)
      then have "counts_kept s s'" using counts_kept_trans [OF c1] t(4) by (simp add: quiet_def)
      ultimately show ?thesis using Inr pi(1) len can by (simp add: reserve_outcome_def)
    qed
    ultimately show ?thesis using run a(2,3) a(5) [unfolded t(7) conf(1)] by blast
  qed
qed

end

subsection \<open>Steps\<close>

type_synonym 'w pool_state = "sliced_pool \<times> mem_store \<times> 'w"

text \<open>
  What a user may do: the handles it passes are handles it holds a reference to besides the pool's own.
  A guard belongs to a page of the pool.  The identifiers of handles are not exhausted.
\<close>

datatype pool_event =
  EvReserve page_mapping nat | EvNewHandle | EvClone nat | EvDrop nat | EvBind nat nat nat | EvMaterialize nat | EvRelease nat | EvCleanup bool |
  EvGuard nat | EvUnguard nat

definition in_hand :: "sliced_pool \<Rightarrow> mem_store \<Rightarrow> nat \<Rightarrow> bool" where
  "in_hand p s d \<longleftrightarrow> d < ms_next s \<and> (if d \<in> all_handles (sp_pages p) then 2 \<le> ms_strong s d else 1 \<le> ms_strong s d)"

definition ids_left :: "sliced_pool \<Rightarrow> mem_store \<Rightarrow> bool" where
  "ids_left p s \<longleftrightarrow> ms_next s + slice_count (sp_pages p) + length (sp_pages p) + 2 < usize_lim"

inductive pool_step :: "'w compute_storage \<Rightarrow> 'w pool_state \<Rightarrow> pool_event \<Rightarrow> 'w pool_state \<Rightarrow> bool" for cs where
  reserve: "ids_left p s \<Longrightarrow> 0 < size' \<Longrightarrow> pool_accept size' p = Some True \<Longrightarrow> pool_reserve cs mapping size' p s w = Some (s', p', w', r) \<Longrightarrow>
    pool_step cs (p, s, w) (EvReserve mapping size') (p', s', w')"
| new: "ids_left p s \<Longrightarrow> new_handle s = Some (s', d) \<Longrightarrow> pool_step cs (p, s, w) EvNewHandle (p, s', w)"
| clone: "in_hand p s d \<Longrightarrow> pool_step cs (p, s, w) (EvClone d) (p, clone_handle d s, w)"
| drop: "in_hand p s d \<Longrightarrow> pool_step cs (p, s, w) (EvDrop d) (p, drop_handle d s, w)"
| bind: "in_hand p s d \<Longrightarrow> d \<in> all_handles (sp_pages p) \<Longrightarrow> unbound s new \<Longrightarrow> pool_bind d new cursor p s = Some (s', p') \<Longrightarrow>
    pool_step cs (p, s, w) (EvBind d new cursor) (p', s', w)"
| materialize: "in_hand p s d \<Longrightarrow> d \<in> all_handles (sp_pages p) \<Longrightarrow> pool_materialize cs d p s w = Some (p', w', r) \<Longrightarrow>
    pool_step cs (p, s, w) (EvMaterialize d) (p', s, w')"
| release: "ids_left p s \<Longrightarrow> in_hand p s d \<Longrightarrow> d \<in> all_handles (sp_pages p) \<Longrightarrow> pool_release_relocated d p s = Some (s', p', ok) \<Longrightarrow>
    pool_step cs (p, s, w) (EvRelease d) (p', s', w)"
| cleanup: "ids_left p s \<Longrightarrow> pool_cleanup cs explicit p s w = Some (s', p', w') \<Longrightarrow> pool_step cs (p, s, w) (EvCleanup explicit) (p', s', w')"
| guard: "g \<in> (\<lambda>x. pg_page (fst x)) ` set (sp_pages p) \<Longrightarrow> pool_step cs (p, s, w) (EvGuard g) (p, page_guard g s, w)"
| unguard: "guarded s g \<Longrightarrow> pool_step cs (p, s, w) (EvUnguard g) (p, page_unguard g s, w)"

inductive_cases pool_stepE: "pool_step cs (p, s, w) e (p', s', w')"

lemmas pool_step_cases = pool_stepE [consumes 1, case_names reserve new clone drop bind materialize release cleanup guard unguard]

inductive pool_reach :: "'w compute_storage \<Rightarrow> 'w pool_state \<Rightarrow> bool" for cs where
  start: "settings_ok (pool_new page_size max_slice alignment pos) \<Longrightarrow> pool_reach cs (pool_new page_size max_slice alignment pos, s, w)"
| step: "pool_reach cs x \<Longrightarrow> pool_step cs x e y \<Longrightarrow> pool_reach cs y"

text \<open>Counting references and guarding leave the slices where they are.\<close>

lemma page_ok_counts:
  assumes "page_ok s pg" "ms_next s' = ms_next s" "ms_next_page s' = ms_next_page s" "\<And>d. descriptor_location s' d = descriptor_location s d"
    "\<And>d. d \<in> set (handles (pg_slices pg)) \<Longrightarrow> 1 \<le> ms_strong s' d"
  shows "page_ok s' pg"
  using assms by (auto simp: page_ok_def owned_def located_def)

lemma pool_ok_counts:
  assumes ok: "sliced_ok I s p" and s': "ms_next s' = ms_next s" "ms_next_page s' = ms_next_page s" "\<And>d. descriptor_location s' d = descriptor_location s d"
    and pos: "\<And>d. d \<in> all_handles (sp_pages p) \<Longrightarrow> 1 \<le> ms_strong s' d"
  shows "sliced_ok I s' p"
proof -
  have "pages_ok p s n xs \<Longrightarrow> (\<And>d. d \<in> all_handles xs \<Longrightarrow> 1 \<le> ms_strong s' d) \<Longrightarrow> pages_ok p s' n xs" for n xs
  proof (induction xs arbitrary: n)
    case (Cons x xs)
    have "page_ok s' (fst x)" using Cons.prems page_ok_counts [OF _ s'] by (simp add: page_in_def page_handles_def)
    then show ?case using Cons by (simp add: page_in_def)
  qed simp
  then show ?thesis using ok pos by (simp add: sliced_ok_def)
qed

lemma pool_ok_handles:
  assumes "sliced_ok I s p" "d \<in> all_handles (sp_pages p)"
  shows "d < ms_next s" "1 \<le> ms_strong s d"
  using pages_handles_lt [of p s 0 "sp_pages p" d] assms by (simp_all add: sliced_ok_def)

lemma pool_ok_keeps: "sliced_ok I s p \<Longrightarrow> keeps {} s s' \<Longrightarrow> sliced_ok I s' p"
  using pages_frame [of p s 0 "sp_pages p" "{}" s'] by (simp add: sliced_ok_def)

lemma page_guard_simps [simp]:
  "ms_next (page_guard g s) = ms_next s" "ms_next_page (page_guard g s) = ms_next_page s" "ms_strong (page_guard g s) = ms_strong s"
  "descriptor_location (page_guard g s) d = descriptor_location s d"
  "ms_next (page_unguard g s) = ms_next s" "ms_next_page (page_unguard g s) = ms_next_page s" "ms_strong (page_unguard g s) = ms_strong s"
  "descriptor_location (page_unguard g s) d = descriptor_location s d"
  by (simp_all add: page_guard_def page_unguard_def descriptor_location_def)

lemma cleanup_issued: "(\<And>i w. issued w \<subseteq> issued (cs_dealloc cs i w)) \<Longrightarrow> issued w \<subseteq> issued (give_back cs xs w)"
  unfolding give_back_def by (induction xs arbitrary: w) (auto, blast+)

subsection \<open>The invariant of a run\<close>

lemma pool_held_iff:
  "(h, st) \<in> pool_held s p \<longleftrightarrow> 2 \<le> ms_strong s h \<and> (\<exists>x \<in> set (sp_pages p). \<exists>sl \<in> set (pg_slices (fst x)). h = sl_handle sl \<and> st = sl_storage sl)"
  by (auto simp: pool_held_def pages_held_def held_slices_def)

lemma pool_held_handles: "(h, st) \<in> pool_held s p \<Longrightarrow> h \<in> all_handles (sp_pages p)"
  unfolding pool_held_def by (rule pages_held_handles)

lemma pool_held_keeps: "sliced_ok I s p \<Longrightarrow> keeps {} s s' \<Longrightarrow> pool_held s' p = pool_held s p"
  using pages_frame [of p s 0 "sp_pages p" "{}" s'] by (simp add: sliced_ok_def pool_held_def)

lemma new_handle_keeps:
  assumes "new_handle s = Some (s', d)"
  shows "keeps {} s s'"
proof -
  have "s' = s\<lparr>ms_next := ms_next s + 1, ms_strong := (ms_strong s)(ms_next s := 1), ms_loc := (ms_loc s)(ms_next s := loc_to_bits location_uninit)\<rparr>"
    using assms by (auto simp: new_handle_def split: if_splits)
  then show ?thesis by (simp add: keeps_def descriptor_location_def)
qed

text \<open>
  A step keeps the invariant, and an allocation stays where it is as long as somebody besides the pool refers to
  it, unless the user gives it up by binding another handle or by releasing it.
\<close>

definition gives_up :: "pool_event \<Rightarrow> nat \<Rightarrow> bool" where
  "gives_up e h \<longleftrightarrow> (case e of EvBind d _ _ \<Rightarrow> d = h | EvRelease d \<Rightarrow> d = h | _ \<Rightarrow> False)"

definition backs :: "pool_event \<Rightarrow> bool" where
  "backs e \<longleftrightarrow> (case e of EvMaterialize _ \<Rightarrow> True | _ \<Rightarrow> False)"

context device_storage
begin

definition state_ok :: "'w pool_state \<Rightarrow> bool" where
  "state_ok x \<longleftrightarrow> (case x of (p, s, w) \<Rightarrow> sliced_ok (issued w) s p)"

lemma step_ok:
  assumes "pool_step cs (p, s, w) e (p', s', w')" "state_ok (p, s, w)"
  shows "state_ok (p', s', w') \<and> p' = p\<lparr>sp_pages := sp_pages p'\<rparr> \<and> buffer_step cs (sp_page_size p) (buffers p, w) (buffers p', w') \<and>
    (\<forall>h st. (h, st) \<in> pool_held s p \<longrightarrow> 2 \<le> ms_strong s' h \<longrightarrow> \<not> gives_up e h \<longrightarrow>
      (\<exists>st'. (h, st') \<in> pool_held s' p' \<and> sh_utilization st' = sh_utilization st \<and> (\<not> backs e \<longrightarrow> st' = st)))"
proof -
  have ok: "sliced_ok (issued w) s p" using assms(2) by (simp add: state_ok_def)
  from assms(1) show ?thesis
  proof (cases rule: pool_step_cases)
    case (reserve size' mapping r)
    obtain s1 p1 w1 r1 where R: "pool_reserve cs mapping size' p s w = Some (s1, p1, w1, r1)" "sliced_ok (issued w1) s1 p1" "p1 = p\<lparr>sp_pages := sp_pages p1\<rparr>"
      "reserve_outcome p size' s (issued w1) (mapping_allocate cs mapping (sp_page_size p) w = (w1, Inl ())) s1 p1 r1" "buffer_step cs (sp_page_size p) (buffers p, w) (buffers p1, w1)"
      using pool_reserve_ok [OF ok reserve(3,4) reserve(2) [unfolded ids_left_def], of mapping] by blast
    have "pool_held s p \<subseteq> pool_held s1 p1" using R(4) by (cases r1) (auto simp: reserve_outcome_def allocated_def)
    then show ?thesis using R(1-3,5) reserve(5) by (auto simp: state_ok_def)
  next
    case (new d)
    note k = new_handle_keeps [OF new(5)]
    show ?thesis using pool_ok_keeps [OF ok k] pool_held_keeps [OF ok k] new buffer_step.same by (auto simp: state_ok_def)
  next
    case (clone d)
    have "sliced_ok (issued w) (clone_handle d s) p" by (rule pool_ok_counts [OF ok]) (use pool_ok_handles [OF ok] in auto)
    then show ?thesis using clone buffer_step.same by (auto simp: state_ok_def pool_held_iff)
  next
    case (drop d)
    have "sliced_ok (issued w) (drop_handle d s) p" by (rule pool_ok_counts [OF ok]) (use pool_ok_handles [OF ok] drop in \<open>auto simp: in_hand_def\<close>)
    then show ?thesis using drop buffer_step.same by (auto simp: state_ok_def pool_held_iff)
  next
    case (bind d new cursor)
    have two: "2 \<le> ms_strong s d" using bind by (simp add: in_hand_def)
    obtain s1 p1 st where B: "pool_bind d new cursor p s = Some (s1, p1)" "sliced_ok (issued w) s1 p1" "p1 = p\<lparr>sp_pages := sp_pages p1\<rparr>" "buffers p1 = buffers p"
      "pool_held s1 p1 = (pool_held s p - {(d, st)}) \<union> (if 2 \<le> ms_strong s new then {(new, st)} else {})"
      using pool_bind_ok [OF ok bind(4) two bind(5), of cursor] by blast
    then show ?thesis using bind buffer_step.same by (auto simp: state_ok_def gives_up_def)
  next
    case (materialize d r)
    obtain p1 w1 r1 i j where M: "pool_materialize cs d p s w = Some (p1, w1, r1)" "sliced_ok (issued w1) s p1" "p1 = p\<lparr>sp_pages := sp_pages p1\<rparr>" "buffer_step cs (sp_page_size p) (buffers p, w) (buffers p1, w1)"
      "pool_held s p1 = rebacked i j ` pool_held s p"
      using pool_materialize_ok [OF ok materialize(4)] by (elim exE conjE) (rule that)
    have stays: "\<exists>st'. (h, st') \<in> pool_held s p1 \<and> sh_utilization st' = sh_utilization st" if "(h, st) \<in> pool_held s p" for h st
    proof -
      have "(h, snd (rebacked i j (h, st))) \<in> rebacked i j ` pool_held s p" by (rule image_eqI [OF _ that]) (simp add: prod_eq_iff)
      then show ?thesis unfolding M(5) by (intro exI [of _ "snd (rebacked i j (h, st))"]) simp
    qed
    have "p' = p1" "w' = w1" "s' = s" "backs e" using M(1) materialize by (simp_all add: backs_def)
    then show ?thesis using M(2-4) stays by (simp add: state_ok_def)
  next
    case (release d okr)
    have two: "2 \<le> ms_strong s d" using release by (simp add: in_hand_def)
    obtain s1 p1 st where B: "pool_release_relocated d p s = Some (s1, p1, Inr ())" "sliced_ok (issued w) s1 p1" "p1 = p\<lparr>sp_pages := sp_pages p1\<rparr>" "buffers p1 = buffers p"
      "pool_held s1 p1 = pool_held s p - {(d, st)}"
      using pool_release_ok [OF ok release(5) two] release(3) by (auto simp: ids_left_def)
    then show ?thesis using release buffer_step.same by (auto simp: state_ok_def gives_up_def)
  next
    case (cleanup explicit)
    show ?thesis
    proof (cases explicit)
      case True
      obtain s1 p1 where C: "pool_cleanup cs True p s w = Some (s1, p1, give_back cs (filter (\<lambda>x. page_idle s (fst x)) (sp_pages p)) w)" "sliced_ok (issued w) s1 p1"
        "p1 = p\<lparr>sp_pages := sp_pages p1\<rparr>" "pool_held s1 p1 = pool_held s p"
        "buffers p1 = map page_buffer (filter (\<lambda>x. \<not> page_idle s (fst x)) (sp_pages p))"
        using pool_cleanup_ok [OF ok, of cs w] cleanup(2) by (auto simp: ids_left_def)
      have "issued w \<subseteq> issued (give_back cs (filter (\<lambda>x. page_idle s (fst x)) (sp_pages p)) w)" by (rule cleanup_issued) (rule dealloc_issued)
      moreover have "buffer_step cs (sp_page_size p) (buffers p, w) (buffers p1, give_back cs (filter (\<lambda>x. page_idle s (fst x)) (sp_pages p)) w)"
        unfolding C(5) by (rule buffer_step.give)
      ultimately show ?thesis using C cleanup True pool_ok_mono by (auto simp: state_ok_def)
    qed (use cleanup ok buffer_step.same in \<open>auto simp: pool_cleanup_def state_ok_def\<close>)
  next
    case (guard g)
    have "sliced_ok (issued w) (page_guard g s) p" by (rule pool_ok_counts [OF ok]) (use pool_ok_handles [OF ok] in auto)
    then show ?thesis using guard buffer_step.same by (auto simp: state_ok_def pool_held_iff)
  next
    case (unguard g)
    have "sliced_ok (issued w) (page_unguard g s) p" by (rule pool_ok_counts [OF ok]) (use pool_ok_handles [OF ok] in auto)
    then show ?thesis using unguard buffer_step.same by (auto simp: state_ok_def pool_held_iff)
  qed
qed

lemma reach_ok: "pool_reach cs x \<Longrightarrow> state_ok x"
proof (induction rule: pool_reach.induct)
  case (start page_size max_slice alignment pos s w)
  then show ?case by (simp add: state_ok_def sliced_ok_def pool_new_def)
next
  case (step x e y)
  then show ?case using step_ok by (cases x; cases y) blast
qed

end

subsection \<open>Buffers that exist\<close>

text \<open>A storage that knows the sizes of the buffers it has.\<close>

locale live_storage = device_storage +
  fixes live :: "'a \<Rightarrow> nat \<Rightarrow> nat option"
  assumes alloc_live: "cs_alloc cs n w = (w', Inr h) \<Longrightarrow> live w' = (live w)(sh_id h \<mapsto> n)"
    and alloc_failed_live: "cs_alloc cs n w = (w', Inl e) \<Longrightarrow> live w' = live w"
    and fresh_live: "cs_fresh_id cs w = (w', i) \<Longrightarrow> live w' = live w"
    and dealloc_live: "live (cs_dealloc cs i w) = (live w)(i := None)"
begin

definition buffers_live :: "nat \<Rightarrow> (nat \<times> bool) list \<times> 'a \<Rightarrow> bool" where
  "buffers_live n x \<longleftrightarrow> distinct (map fst (fst x)) \<and> set (map fst (fst x)) \<subseteq> issued (snd x) \<and>
     (\<forall>i. (i, True) \<in> set (fst x) \<longrightarrow> live (snd x) i = Some n)"

lemma mapping_live:
  assumes "mapping_allocate cs mapping n w = (w', Inr h)"
  shows "live w' = (if is_mapped mapping then (live w)(sh_id h \<mapsto> n) else live w)"
  using assms alloc_live fresh_live by (cases mapping) (auto simp: mapping_allocate_def is_mapped_def split: prod.splits)

lemma give_back_live:
  "live (give_back cs xs w) i = (if (i, True) \<in> page_buffer ` set xs then None else live w i)"
  unfolding give_back_def by (induction xs arbitrary: w) (auto simp: dealloc_live page_buffer_def)

lemma buffer_step_live:
  assumes "buffer_step cs n x y" "buffers_live n x"
  shows "buffers_live n y"
  using assms
proof (cases rule: buffer_step.cases)
  case (refused mapping w w' e B)
  have "live w' = live w" using refused(3) alloc_failed_live by (cases mapping) (auto simp: mapping_allocate_def split: prod.splits)
  then show ?thesis using assms(2) refused mapping_failed [OF refused(3)] by (auto simp: buffers_live_def)
next
  case (grow mapping w w' st B)
  then show ?thesis using assms(2) mapping_new [OF grow(3)] mapping_live [OF grow(3)] by (auto simp: buffers_live_def)
next
  case (filled w w' st B i C)
  then show ?thesis using assms(2) mapping_new [OF filled(3)] mapping_live [OF filled(3)] by (auto simp: buffers_live_def is_mapped_def)
next
  case (give xs w P)
  have B: "distinct (map snd xs)" "snd ` set xs \<subseteq> issued w" "\<And>x. x \<in> set xs \<Longrightarrow> pg_mapped (fst x) \<Longrightarrow> live w (snd x) = Some n"
    using assms(2) give(1) by (auto simp: buffers_live_def page_buffer_def comp_def)
  have inj: "x = y" if "x \<in> set xs" "y \<in> set xs" "snd x = snd y" for x y using B(1) that by (auto simp: distinct_map inj_on_def)
  have w: "issued w \<subseteq> issued (give_back cs (filter P xs) w)" by (rule cleanup_issued) (rule dealloc_issued)
  have "live (give_back cs (filter P xs) w) (snd x) = Some n" if x: "x \<in> set xs" "\<not> P x" "pg_mapped (fst x)" for x
  proof -
    have "(snd x, True) \<notin> page_buffer ` set (filter P xs)" using inj [OF x(1)] x(2) by (auto simp: page_buffer_def)
    then show ?thesis using B(3) x by (simp add: give_back_live)
  qed
  then show ?thesis using give B(1,2) w by (auto simp: buffers_live_def page_buffer_def comp_def distinct_map_filter)
qed simp

text \<open>Every page of a run that has memory has its buffer on the device.\<close>

lemma reach_live: "pool_reach cs x \<Longrightarrow> (case x of (p, s, w) \<Rightarrow> buffers_live (sp_page_size p) (buffers p, w))"
proof (induction rule: pool_reach.induct)
  case (start page_size max_slice alignment pos s w)
  then show ?case by (simp add: buffers_live_def pool_new_def)
next
  case (step x e y)
  obtain p s w p' s' w' where xy: "x = (p, s, w)" "y = (p', s', w')" by (cases x; cases y)
  have S: "p' = p\<lparr>sp_pages := sp_pages p'\<rparr>" "buffer_step cs (sp_page_size p) (buffers p, w) (buffers p', w')"
    using step_ok [of p s w e p' s' w'] step.hyps reach_ok xy by auto
  have "sp_page_size p' = sp_page_size p" using S(1) by (metis sliced_pool.select_convs(2) sliced_pool.surjective sliced_pool.update_convs(1))
  then show ?case using buffer_step_live [OF S(2)] step.IH xy by simp
qed

end

end
