(* ===== verification/Device_Bytes_Inv.thy ===== *)
theory Device_Bytes_Inv
  imports Device_Bytes Device_Run "HOL-Library.Multiset"
begin

text \<open>
  The CPU storage implements the storage interface, and its registry keeps writers apart from everybody else.
\<close>

subsection \<open>The storage interface\<close>

definition bytes_issued :: "bytes_storage \<Rightarrow> nat set" where
  "bytes_issued w = {i. i < bs_next w}"

definition bytes_live :: "bytes_storage \<Rightarrow> nat \<Rightarrow> nat option" where
  "bytes_live w i = (if i \<in> bs_memory w then map_option (\<lambda>a. length (ab_bytes a)) (bs_heap w i) else None)"

interpretation bytes: live_storage "bytes_storage_ops gives" bytes_issued bytes_live for gives
proof (unfold_locales, goal_cases)
  case (1 n w w' h)
  then show ?case by (auto simp: bytes_storage_ops_def bytes_alloc_def bytes_issued_def Let_def split: if_splits)
next
  case (2 n w w' e)
  then show ?case by (auto simp: bytes_storage_ops_def bytes_alloc_def bytes_issued_def Let_def split: if_splits)
next
  case (3 w w' i)
  then show ?case by (auto simp: bytes_storage_ops_def storage_id_new_def bytes_issued_def)
next
  case (4 w i)
  then show ?case by (simp add: bytes_storage_ops_def bytes_dealloc_def bytes_issued_def)
next
  case (5 n w w' h)
  then show ?case by (auto simp: bytes_storage_ops_def bytes_alloc_def bytes_live_def Let_def fun_eq_iff split: if_splits)
next
  case (6 n w w' e)
  then show ?case by (auto simp: bytes_storage_ops_def bytes_alloc_def bytes_live_def Let_def fun_eq_iff split: if_splits)
next
  case (7 w w' i)
  then show ?case by (auto simp: bytes_storage_ops_def storage_id_new_def bytes_live_def fun_eq_iff)
next
  case (8 i w)
  then show ?case by (simp add: bytes_storage_ops_def bytes_dealloc_def bytes_live_def fun_eq_iff)
qed

subsection \<open>Lists\<close>

lemma mset_swap_remove:
  assumes "i < length xs"
  shows "mset (swap_remove xs i) = mset xs - {#xs ! i#}"
proof (cases xs rule: rev_cases)
  case (snoc ys y)
  show ?thesis
  proof (cases "i = length ys")
    case True
    then show ?thesis using snoc by (simp add: swap_remove_def)
  next
    case False
    then have "swap_remove xs i = ys[i := y]" "i < length ys" using assms snoc by (simp_all add: swap_remove_def list_update_append)
    then show ?thesis using snoc by (simp add: mset_update nth_append)
  qed
qed (use assms in simp)

lemma position_of_Some: "position_of x xs = Some i \<Longrightarrow> i < length xs \<and> xs ! i = x"
  by (induction xs arbitrary: i) (auto split: if_splits)

lemma position_of_None: "position_of x xs = None \<longleftrightarrow> x \<notin> set xs"
  by (induction xs) auto

subsection \<open>Exclusive regions\<close>

definition compatible :: "borrow_region \<Rightarrow> borrow_region \<Rightarrow> bool" where
  "compatible a b \<longleftrightarrow> \<not> (regions_overlap a b \<and> (rg_writable a \<or> rg_writable b))"

lemma compatible_sym: "compatible a b = compatible b a"
  by (auto simp: compatible_def regions_overlap_def)

lemma borrow_conflict_None: "borrow_conflict r bs = None \<longleftrightarrow> (\<forall>b \<in> set bs. compatible r b)"
  by (induction bs) (auto simp: compatible_def)

lemma borrow_conflict_Some: "borrow_conflict r bs = Some b \<Longrightarrow> b \<in> set bs \<and> \<not> compatible r b"
  by (induction bs) (auto simp: compatible_def split: if_splits)

definition exclusive :: "borrow_region multiset \<Rightarrow> bool" where
  "exclusive M \<longleftrightarrow> (\<forall>a b. {#a, b#} \<subseteq># M \<longrightarrow> compatible a b)"

lemma exclusive_mono: "exclusive M \<Longrightarrow> N \<subseteq># M \<Longrightarrow> exclusive N"
  unfolding exclusive_def using subset_mset.order_trans by blast

lemma exclusive_add:
  assumes "exclusive M" "\<And>b. b \<in># M \<Longrightarrow> compatible r b"
  shows "exclusive (add_mset r M)"
  unfolding exclusive_def
proof (intro allI impI)
  fix a b assume sub: "{#a, b#} \<subseteq># add_mset r M"
  consider "a = r" | "b = r" | "a \<noteq> r" "b \<noteq> r" by blast
  then show "compatible a b"
  proof cases
    case 1
    then have "b \<in># M" using sub by (simp add: single_subset_iff)
    then show ?thesis using assms(2) 1 by simp
  next
    case 2
    then have "a \<in># M" using sub by (simp add: add_mset_commute single_subset_iff)
    then show ?thesis using assms(2) 2 compatible_sym by blast
  next
    case 3
    have "{#a, b#} \<subseteq># M"
    proof (rule mset_subset_eqI)
      fix c
      have "count {#a, b#} c \<le> count (add_mset r M) c" using sub by (rule mset_subset_eq_count)
      then show "count {#a, b#} c \<le> count M c" using 3 by (cases "c = r") auto
    qed
    then show ?thesis using assms(1) by (simp add: exclusive_def)
  qed
qed

subsection \<open>Runs with live guards\<close>

definition resource_ok :: "bytes_storage \<Rightarrow> bytes_resource \<Rightarrow> bool" where
  "resource_ok b r \<longleftrightarrow> (\<exists>al. bs_heap b (re_allocation r) = Some al \<and> re_start r \<le> re_end r \<and> re_end r \<le> length (ab_bytes al))"

lemma try_get_ok: "bytes_try_get h b = Inr r \<Longrightarrow> resource_ok b r \<and> re_allocation r = sh_id h \<and> re_start r = sh_offset h \<and> re_end r = sh_offset h + sh_size h"
  by (auto simp: bytes_try_get_def resource_ok_def Let_def split: if_splits option.splits)

inductive lease_run :: "(nat \<Rightarrow> nat \<Rightarrow> bool) \<Rightarrow> bytes_storage \<times> borrow_lease multiset \<Rightarrow> bool" for gives where
  start: "lease_run gives (bytes_default, {#})"
| alloc: "lease_run gives (b, L) \<Longrightarrow> bytes_alloc gives n b = (b', r) \<Longrightarrow> lease_run gives (b', L)"
| fresh: "lease_run gives (b, L) \<Longrightarrow> storage_id_new b = (b', i) \<Longrightarrow> lease_run gives (b', L)"
| dealloc: "lease_run gives (b, L) \<Longrightarrow> lease_run gives (bytes_dealloc i b, L)"
| acquire: "lease_run gives (b, L) \<Longrightarrow> resource_ok b r \<Longrightarrow> lease_acquire r wr b = (b', Inr l) \<Longrightarrow> lease_run gives (b', add_mset l L)"
| release: "lease_run gives (b, L) \<Longrightarrow> l \<in># L \<Longrightarrow> lease_drop l b = Some b' \<Longrightarrow> lease_run gives (b', L - {#l#})"
| wrote: "lease_run gives (b, L) \<Longrightarrow> l \<in># L \<Longrightarrow> rg_writable (le_region l) \<Longrightarrow> write_slice l bytes b = Some b' \<Longrightarrow> lease_run gives (b', L)"

definition regions :: "nat \<Rightarrow> borrow_lease multiset \<Rightarrow> borrow_region multiset" where
  "regions a L = image_mset le_region (filter_mset (\<lambda>l. le_allocation l = a) L)"

lemma regions_simps [simp]:
  "regions a {#} = {#}" "regions a (add_mset l L) = (if le_allocation l = a then add_mset (le_region l) (regions a L) else regions a L)"
  by (simp_all add: regions_def)

lemma regions_remove: "l \<in># L \<Longrightarrow> regions a (L - {#l#}) = (if le_allocation l = a then regions a L - {#le_region l#} else regions a L)"
  by (auto simp: regions_def image_mset_Diff)

lemma regions_in: "l \<in># L \<Longrightarrow> le_region l \<in># regions (le_allocation l) L"
  by (auto simp: regions_def)

definition lease_fits :: "bytes_storage \<Rightarrow> borrow_lease \<Rightarrow> bool" where
  "lease_fits b l \<longleftrightarrow> (\<exists>al. bs_heap b (le_allocation l) = Some al \<and> rg_start (le_region l) \<le> rg_end (le_region l) \<and> rg_end (le_region l) \<le> length (ab_bytes al))"

definition registered :: "borrow_lease multiset \<Rightarrow> nat \<Rightarrow> allocated_bytes \<Rightarrow> bool" where
  "registered L a al \<longleftrightarrow> mset (ab_borrows al) = regions a L \<and> exclusive (regions a L)"

definition lease_inv :: "bytes_storage \<Rightarrow> borrow_lease multiset \<Rightarrow> bool" where
  "lease_inv b L \<longleftrightarrow> (\<forall>a al. bs_heap b a = Some al \<longrightarrow> a < bs_next b \<and> registered L a al) \<and> (\<forall>l \<in># L. lease_fits b l)"

lemma lease_invD:
  assumes "lease_inv b L"
  shows "bs_heap b a = Some al \<Longrightarrow> a < bs_next b \<and> registered L a al" "l \<in># L \<Longrightarrow> lease_fits b l"
  using assms by (auto simp: lease_inv_def)

lemma acquire_inv:
  assumes inv: "lease_inv b L" and r: "resource_ok b r" and a: "lease_acquire r wr b = (b', Inr l)"
  shows "lease_inv b' (add_mset l L)"
proof -
  let ?rg = "\<lparr>rg_start = re_start r, rg_end = re_end r, rg_writable = wr\<rparr>"
  obtain al where al: "bs_heap b (re_allocation r) = Some al" "re_start r \<le> re_end r" "re_end r \<le> length (ab_bytes al)" using r by (auto simp: resource_ok_def)
  have c: "borrow_conflict ?rg (ab_borrows al) = None" and b': "b' = b\<lparr>bs_heap := (bs_heap b)(re_allocation r \<mapsto> al\<lparr>ab_borrows := ab_borrows al @ [?rg]\<rparr>)\<rparr>"
    and l: "l = \<lparr>le_allocation = re_allocation r, le_region = ?rg\<rparr>"
    using a al(1) by (auto simp: lease_acquire_def Let_def split: option.splits)
  have R: "registered L (re_allocation r) al" using lease_invD(1) [OF inv al(1)] by simp
  have "exclusive (add_mset ?rg (regions (re_allocation r) L))"
  proof (rule exclusive_add)
    show "compatible ?rg x" if "x \<in># regions (re_allocation r) L" for x
      using c that R by (simp add: borrow_conflict_None registered_def flip: set_mset_mset)
  qed (use R in \<open>simp add: registered_def\<close>)
  then have "registered (add_mset l L) (re_allocation r) (al\<lparr>ab_borrows := ab_borrows al @ [?rg]\<rparr>)" using R l by (simp add: registered_def)
  moreover have "registered (add_mset l L) i x" if "registered L i x" "i \<noteq> re_allocation r" for i x using that l by (simp add: registered_def)
  moreover have "lease_fits b' x" if "lease_fits b x" for x using that al(1) b' by (auto simp: lease_fits_def)
  moreover have "lease_fits b' l" using al l b' by (simp add: lease_fits_def)
  ultimately show ?thesis using inv al(1) unfolding lease_inv_def by (simp add: b')
qed

text \<open>Dropping a live lease finds its entry; exactly that entry goes.\<close>

lemma release_inv:
  assumes inv: "lease_inv b L" and l: "l \<in># L"
  shows "\<exists>b'. lease_drop l b = Some b' \<and> lease_inv b' (L - {#l#})"
proof -
  let ?a = "le_allocation l"
  obtain al where al: "bs_heap b ?a = Some al" using lease_invD(2) [OF inv l] by (auto simp: lease_fits_def)
  have R: "mset (ab_borrows al) = regions ?a L" "exclusive (regions ?a L)" using lease_invD(1) [OF inv al] by (simp_all add: registered_def)
  have "le_region l \<in> set (ab_borrows al)" using regions_in [OF l] R(1) by (metis set_mset_mset)
  then obtain i where i: "position_of (le_region l) (ab_borrows al) = Some i" using position_of_None by fastforce
  note P = position_of_Some [OF i]
  let ?al = "al\<lparr>ab_borrows := swap_remove (ab_borrows al) i\<rparr>"
  let ?b = "b\<lparr>bs_heap := (bs_heap b)(?a \<mapsto> ?al)\<rparr>"
  have drop: "lease_drop l b = Some ?b" using al i by (simp add: lease_drop_def)
  have "mset (ab_borrows ?al) = regions ?a (L - {#l#})" using mset_swap_remove [of i "ab_borrows al"] P R(1) regions_remove [OF l] by simp
  moreover have "exclusive (regions ?a (L - {#l#}))" using exclusive_mono [OF R(2)] regions_remove [OF l] by simp
  ultimately have "registered (L - {#l#}) ?a ?al" by (simp add: registered_def)
  moreover have "registered (L - {#l#}) j x" if "registered L j x" "j \<noteq> ?a" for j x using that regions_remove [OF l] by (simp add: registered_def)
  moreover have "lease_fits ?b x" if "x \<in># L - {#l#}" for x
    using lease_invD(2) [OF inv in_diffD [OF that]] al by (auto simp: lease_fits_def)
  ultimately show ?thesis using drop inv al unfolding lease_inv_def by simp
qed

lemma write_inv:
  assumes inv: "lease_inv b L" and l: "l \<in># L" and w: "write_slice l bytes b = Some b'"
  shows "lease_inv b' L"
proof -
  let ?a = "le_allocation l"
  obtain al where al: "bs_heap b ?a = Some al" "rg_start (le_region l) \<le> rg_end (le_region l)" "rg_end (le_region l) \<le> length (ab_bytes al)"
    using lease_invD(2) [OF inv l] by (auto simp: lease_fits_def)
  let ?al = "al\<lparr>ab_bytes := take (rg_start (le_region l)) (ab_bytes al) @ bytes @ drop (rg_start (le_region l) + length bytes) (ab_bytes al)\<rparr>"
  have b': "b' = b\<lparr>bs_heap := (bs_heap b)(?a \<mapsto> ?al)\<rparr>" and len: "length bytes = lease_len l" using w al(1) by (auto simp: write_slice_def split: bind_splits)
  have "length (ab_bytes ?al) = length (ab_bytes al)" using len al(2,3) by (simp add: lease_len_def)
  then have "lease_fits b' x" if "lease_fits b x" for x using that al(1) b' by (auto simp: lease_fits_def)
  moreover have "registered L ?a ?al" using lease_invD(1) [OF inv al(1)] by (simp add: registered_def)
  ultimately show ?thesis using inv al(1) unfolding lease_inv_def by (auto simp: b')
qed

lemma alloc_inv:
  assumes inv: "lease_inv b L" and a: "bytes_alloc gives n b = (b', r)"
  shows "lease_inv b' L"
proof -
  have "regions (bs_next b) L = {#}"
  proof -
    have "le_allocation l \<noteq> bs_next b" if "l \<in># L" for l using lease_invD(2) [OF inv that] lease_invD(1) [OF inv] by (fastforce simp: lease_fits_def)
    then show ?thesis by (auto simp: regions_def)
  qed
  then have new: "registered L (bs_next b) \<lparr>ab_bytes = replicate n 0, ab_borrows = []\<rparr>" by (simp add: registered_def exclusive_def)
  have fits: "lease_fits b x \<Longrightarrow> x \<in># L \<Longrightarrow> lease_fits b' x" for x
    using a lease_invD(1) [OF inv] by (fastforce simp: bytes_alloc_def lease_fits_def Let_def split: if_splits)
  have "bs_heap b' i = Some x \<Longrightarrow> i < bs_next b' \<and> registered L i x" for i x
    using a new lease_invD(1) [OF inv, of i x] by (auto simp: bytes_alloc_def Let_def split: if_splits)
  then show ?thesis using fits lease_invD(2) [OF inv] by (auto simp: lease_inv_def)
qed

lemma run_inv: "lease_run gives x \<Longrightarrow> lease_inv (fst x) (snd x)"
proof (induction rule: lease_run.induct)
  case start
  then show ?case by (simp add: lease_inv_def bytes_default_def)
next
  case (alloc b L n b' r)
  then show ?case using alloc_inv by simp
next
  case (fresh b L b' i)
  then show ?case by (auto simp: lease_inv_def lease_fits_def storage_id_new_def less_Suc_eq)
next
  case (dealloc b L i)
  then show ?case by (simp add: lease_inv_def lease_fits_def bytes_dealloc_def)
next
  case (acquire b L r wr b' l)
  then show ?case using acquire_inv by simp
next
  case (release b L l b')
  then show ?case using release_inv [of b L l] by auto
next
  case (wrote b L l bytes b')
  then show ?case using write_inv by simp
qed

subsection \<open>What guards see\<close>

definition overwrite :: "nat \<Rightarrow> 'a list \<Rightarrow> 'a list \<Rightarrow> 'a list" where
  "overwrite n ys xs = take n xs @ ys @ drop (n + length ys) xs"

lemma overwrite_nth:
  assumes "n + length ys \<le> length xs" "i < length xs"
  shows "overwrite n ys xs ! i = (if n \<le> i \<and> i < n + length ys then ys ! (i - n) else xs ! i)"
  using assms by (auto simp: overwrite_def nth_append not_less)

lemma overwrite_length [simp]: "n + length ys \<le> length xs \<Longrightarrow> length (overwrite n ys xs) = length xs"
  by (simp add: overwrite_def)

definition window :: "nat \<Rightarrow> nat \<Rightarrow> 'a list \<Rightarrow> 'a list" where
  "window a k xs = take k (drop a xs)"

lemma window_apart:
  assumes "n + length ys \<le> length xs" "a + k \<le> length xs" "a + k \<le> n \<or> n + length ys \<le> a \<or> k = 0 \<or> ys = []"
  shows "window a k (overwrite n ys xs) = window a k xs"
  unfolding window_def using assms by (intro nth_equalityI) (auto simp: overwrite_nth)

lemma window_written: "n + length ys \<le> length xs \<Longrightarrow> window n (length ys) (overwrite n ys xs) = ys"
  by (simp add: window_def overwrite_def)

definition bytes_of :: "bytes_storage \<Rightarrow> nat \<Rightarrow> 8 word list option" where
  "bytes_of b a = map_option ab_bytes (bs_heap b a)"

lemma as_slice_eq: "as_slice l b = map_option (window (rg_start (le_region l)) (lease_len l)) (bytes_of b (le_allocation l))"
  by (cases "bs_heap b (le_allocation l)") (simp_all add: as_slice_def bytes_of_def window_def)

lemma acquire_bytes: "lease_acquire r wr b = (b', x) \<Longrightarrow> bytes_of b' = bytes_of b \<and> bs_memory b' = bs_memory b"
  by (auto simp: lease_acquire_def bytes_of_def Let_def fun_eq_iff split: option.splits)

lemma drop_bytes: "lease_drop l b = Some b' \<Longrightarrow> bytes_of b' = bytes_of b \<and> bs_memory b' = bs_memory b"
  by (auto simp: lease_drop_def bytes_of_def fun_eq_iff split: bind_splits)

lemma write_bytes:
  assumes "write_slice l ys b = Some b'"
  shows "\<exists>xs. bytes_of b (le_allocation l) = Some xs \<and> length ys = lease_len l \<and>
    bytes_of b' = (bytes_of b)(le_allocation l \<mapsto> overwrite (rg_start (le_region l)) ys xs) \<and> bs_memory b' = bs_memory b"
  using assms by (auto simp: write_slice_def bytes_of_def overwrite_def fun_eq_iff split: bind_splits)

lemma fits_bytes: "lease_fits b l \<longleftrightarrow> (\<exists>xs. bytes_of b (le_allocation l) = Some xs \<and> rg_start (le_region l) + lease_len l \<le> length xs \<and> rg_start (le_region l) \<le> rg_end (le_region l))"
  by (auto simp: lease_fits_def bytes_of_def lease_len_def)

lemma pair_compatible:
  assumes inv: "lease_inv b L" and l: "{#l1, l2#} \<subseteq># L" and a: "le_allocation l1 = le_allocation l2"
  shows "compatible (le_region l1) (le_region l2)"
proof -
  have "l1 \<in># L" using l by (meson insert_subset_eq_iff)
  then obtain al where "bs_heap b (le_allocation l1) = Some al" using lease_invD(2) [OF inv] by (auto simp: lease_fits_def)
  then have "exclusive (regions (le_allocation l1) L)" using lease_invD(1) [OF inv] by (auto simp: registered_def)
  moreover have "{#le_region l1, le_region l2#} = regions (le_allocation l1) {#l1, l2#}" using a by simp
  then have "{#le_region l1, le_region l2#} \<subseteq># regions (le_allocation l1) L"
    using l unfolding regions_def by (metis image_mset_subseteq_mono multiset_filter_mono)
  ultimately show ?thesis by (simp add: exclusive_def)
qed

lemma write_isolated:
  assumes inv: "lease_inv b L" and l: "{#l1, l2#} \<subseteq># L" and w: "rg_writable (le_region l1)" "write_slice l1 ys b = Some b'"
  shows "as_slice l2 b' = as_slice l2 b"
proof -
  have L: "l1 \<in># L" "l2 \<in># L" using l by (auto dest: mset_subset_eqD)
  obtain xs where x: "bytes_of b (le_allocation l1) = Some xs" "length ys = lease_len l1"
    "bytes_of b' = (bytes_of b)(le_allocation l1 \<mapsto> overwrite (rg_start (le_region l1)) ys xs)" using write_bytes [OF w(2)] by blast
  show ?thesis
  proof (cases "le_allocation l1 = le_allocation l2")
    case True
    note c = pair_compatible [OF inv l True]
    have f: "rg_start (le_region l1) + lease_len l1 \<le> length xs" "rg_start (le_region l1) \<le> rg_end (le_region l1)"
      "rg_start (le_region l2) + lease_len l2 \<le> length xs" "rg_start (le_region l2) \<le> rg_end (le_region l2)"
      using lease_invD(2) [OF inv L(1)] lease_invD(2) [OF inv L(2)] x(1) True by (auto simp: fits_bytes)
    have "window (rg_start (le_region l2)) (lease_len l2) (overwrite (rg_start (le_region l1)) ys xs) = window (rg_start (le_region l2)) (lease_len l2) xs"
      by (rule window_apart) (use c w(1) f x(2) in \<open>auto simp: compatible_def regions_overlap_def lease_len_def\<close>)
    then show ?thesis using x(1,3) True by (simp add: as_slice_eq)
  next
    case False
    then show ?thesis using x(3) by (simp add: as_slice_eq)
  qed
qed

subsection \<open>Granting and copying\<close>

definition resource_lease :: "bytes_resource \<Rightarrow> bool \<Rightarrow> borrow_lease" where
  "resource_lease r wr = \<lparr>le_allocation = re_allocation r, le_region = \<lparr>rg_start = re_start r, rg_end = re_end r, rg_writable = wr\<rparr>\<rparr>"

text \<open>A range is granted exactly when no live guard conflicts with it.\<close>

lemma acquire_iff:
  fixes wr :: bool
  assumes inv: "lease_inv b L" and r: "resource_ok b r"
  defines "l \<equiv> resource_lease r wr"
  shows "(\<exists>b'. lease_acquire r wr b = (b', Inr l)) \<longleftrightarrow> (\<forall>x \<in># L. le_allocation x = re_allocation r \<longrightarrow> compatible (le_region l) (le_region x))"
    and "lease_acquire r wr b = (b', Inr l') \<Longrightarrow> l' = l"
proof -
  obtain al where al: "bs_heap b (re_allocation r) = Some al" using r by (auto simp: resource_ok_def)
  have "mset (ab_borrows al) = regions (re_allocation r) L" using lease_invD(1) [OF inv al] by (simp add: registered_def)
  then have "set (ab_borrows al) = le_region ` {x. x \<in># L \<and> le_allocation x = re_allocation r}" by (auto simp: regions_def simp flip: set_mset_mset)
  then have "borrow_conflict (le_region l) (ab_borrows al) = None \<longleftrightarrow> (\<forall>x \<in># L. le_allocation x = re_allocation r \<longrightarrow> compatible (le_region l) (le_region x))"
    by (auto simp: borrow_conflict_None)
  moreover have "lease_acquire r wr b = (case borrow_conflict (le_region l) (ab_borrows al) of
      Some e \<Rightarrow> (b, Inl (BorrowConflict (rg_start (le_region l), rg_end (le_region l)) (rg_start e, rg_end e)))
    | None \<Rightarrow> (b\<lparr>bs_heap := (bs_heap b)(re_allocation r \<mapsto> al\<lparr>ab_borrows := ab_borrows al @ [le_region l]\<rparr>)\<rparr>, Inr l))"
    using al by (simp add: lease_acquire_def Let_def l_def resource_lease_def split: option.splits)
  ultimately show "(\<exists>b'. lease_acquire r wr b = (b', Inr l)) \<longleftrightarrow> (\<forall>x \<in># L. le_allocation x = re_allocation r \<longrightarrow> compatible (le_region l) (le_region x))"
    "lease_acquire r wr b = (b', Inr l') \<Longrightarrow> l' = l"
    by (auto split: option.splits)
qed

lemma resource_ok_bytes: "resource_ok b r \<longleftrightarrow> (\<exists>xs. bytes_of b (re_allocation r) = Some xs \<and> re_start r \<le> re_end r \<and> re_end r \<le> length xs)"
  by (auto simp: resource_ok_def bytes_of_def)

lemma relocation_copy_ok:
  assumes inv: "lease_inv b {#}" and g: "bytes_try_get st1 b = Inr r1" "bytes_try_get st2 b = Inr r2" and eq: "sh_size st1 = sh_size st2"
    and apart: "sh_id st1 \<noteq> sh_id st2 \<or> sh_offset st1 + sh_size st1 \<le> sh_offset st2 \<or> sh_offset st2 + sh_size st2 \<le> sh_offset st1"
  shows "\<exists>b' xs1 xs2. relocation_copy st1 st2 b = Some (b', Inr ()) \<and> lease_inv b' {#} \<and> bs_memory b' = bs_memory b \<and>
    bytes_of b (sh_id st1) = Some xs1 \<and> bytes_of b (sh_id st2) = Some xs2 \<and> sh_offset st2 + sh_size st2 \<le> length xs2 \<and> sh_offset st1 + sh_size st1 \<le> length xs1 \<and>
    bytes_of b' = (bytes_of b)(sh_id st2 \<mapsto> overwrite (sh_offset st2) (window (sh_offset st1) (sh_size st1) xs1) xs2)"
proof -
  note R1 = try_get_ok [OF g(1)] and R2 = try_get_ok [OF g(2)]
  let ?l1 = "resource_lease r1 False" and ?l2 = "resource_lease r2 True"
  obtain b1 where a1: "try_read r1 b = (b1, Inr ?l1)" using acquire_iff(1) [OF inv, of r1 False] R1 by auto
  note i1 = acquire_inv [OF inv conjunct1 [OF R1] a1] and y1 = acquire_bytes [OF a1]
  have r2: "resource_ok b1 r2" using R2 y1 by (auto simp: resource_ok_bytes)
  have "\<exists>b2. try_write r2 b1 = (b2, Inr ?l2)"
    using acquire_iff(1) [OF i1 r2, of True] R1 R2 apart by (auto simp: resource_lease_def compatible_def regions_overlap_def)
  then obtain b2 where a2: "try_write r2 b1 = (b2, Inr ?l2)" ..
  note i2 = acquire_inv [OF i1 r2 a2] and y2 = acquire_bytes [OF a2]
  obtain xs1 xs2 where x: "bytes_of b (sh_id st1) = Some xs1" "sh_offset st1 + sh_size st1 \<le> length xs1" "bytes_of b (sh_id st2) = Some xs2"
    "sh_offset st2 + sh_size st2 \<le> length xs2" using R1 R2 by (auto simp: resource_ok_bytes)
  let ?ys = "window (sh_offset st1) (sh_size st1) xs1"
  have read: "as_slice ?l1 b2 = Some ?ys" using x(1) y1 y2 R1 by (simp add: as_slice_eq resource_lease_def lease_len_def)
  have len: "length ?ys = sh_size st2" using x(2) eq by (simp add: window_def)
  obtain b3 where w: "write_slice ?l2 ?ys b2 = Some b3"
  proof -
    have "bytes_of b2 (sh_id st2) = Some xs2" using x(3) y1 y2 by simp
    then obtain al where "bs_heap b2 (sh_id st2) = Some al" by (auto simp: bytes_of_def)
    then show ?thesis using that len R2 by (simp add: write_slice_def resource_lease_def lease_len_def rassert_def)
  qed
  have i3: "lease_inv b3 {#?l2, ?l1#}" by (rule write_inv [OF i2 _ w]) simp
  have y3: "bytes_of b3 = (bytes_of b)(sh_id st2 \<mapsto> overwrite (sh_offset st2) ?ys xs2)" "bs_memory b3 = bs_memory b"
    using write_bytes [OF w] y1 y2 x(3) R2 by (auto simp: resource_lease_def)
  obtain b4 where d4: "lease_drop ?l2 b3 = Some b4" "lease_inv b4 {#?l1#}" using release_inv [OF i3, of ?l2] by auto
  obtain b5 where d5: "lease_drop ?l1 b4 = Some b5" "lease_inv b5 {#}" using release_inv [OF d4(2), of ?l1] by auto
  have "relocation_copy st1 st2 b = Some (b5, Inr ())" using g a1 a2 read w d4(1) d5(1) by (simp add: relocation_copy_def)
  moreover have "bytes_of b5 = bytes_of b3" "bs_memory b5 = bs_memory b3" using drop_bytes [OF d4(1)] drop_bytes [OF d5(1)] by simp_all
  ultimately show ?thesis using d5(2) x y3 by auto
qed

end
