(* ===== verification/Device_Demo.thy ===== *)
theory Device_Demo
  imports Device_Bytes_Inv
begin

text \<open>
  A small pool on the CPU storage: one page of 64 bytes with an alignment of 8, on which 10 bytes are reserved twice.
\<close>

abbreviation cpu :: "bytes_storage compute_storage" where
  "cpu \<equiv> bytes_storage_ops (\<lambda>_ _. True)"

definition demo_base :: memory_location where
  "demo_base = location_new 0 0 0"

definition demo_part :: "nat \<Rightarrow> nat \<Rightarrow> storage_handle" where
  "demo_part off n = \<lparr>sh_id = 0, sh_utilization = \<lparr>su_offset = off, su_size = n\<rparr>\<rparr>"

definition demo_slice :: "nat \<Rightarrow> nat \<Rightarrow> nat \<Rightarrow> nat \<Rightarrow> mem_slice" where
  "demo_slice off n h pad = \<lparr>sl_mapped = True, sl_page = 0, sl_storage = demo_part off n, sl_handle = h, sl_padding = pad, sl_cursor = 0\<rparr>"

definition demo_pool :: "mem_slice list \<Rightarrow> sliced_pool" where
  "demo_pool sls = (pool_new 64 64 8 0)\<lparr>sp_pages := [(\<lparr>pg_mapped = True, pg_page = 0, pg_storage = demo_part 0 64, pg_slices = sls, pg_alignment = 8,
     pg_location_base = demo_base\<rparr>, 0)]\<rparr>"

definition demo_s0 :: mem_store where
  "demo_s0 = \<lparr>ms_next = 0, ms_strong = (\<lambda>_. 0), ms_loc = (\<lambda>_. 0), ms_next_page = 0, ms_guards = (\<lambda>_. 0)\<rparr>"

definition demo_s1 :: mem_store where
  "demo_s1 = \<lparr>ms_next = 2, ms_strong = (\<lambda>_. 0)(0 := 2, 1 := 1),
     ms_loc = (\<lambda>_. 0)(0 := loc_to_bits (at_slice demo_base 0), 1 := loc_to_bits (at_slice demo_base 1)), ms_next_page = 3, ms_guards = (\<lambda>_. 0)(0 := 0, 1 := 0, 2 := 0)\<rparr>"

definition demo_s2 :: mem_store where
  "demo_s2 = \<lparr>ms_next = 3, ms_strong = (\<lambda>_. 0)(0 := 2, 1 := 2, 2 := 1),
     ms_loc = (\<lambda>_. 0)(0 := loc_to_bits (at_slice demo_base 0), 1 := loc_to_bits (at_slice demo_base 1), 2 := loc_to_bits (at_slice demo_base 2)),
     ms_next_page = 4, ms_guards = (\<lambda>_. 0)(0 := 0, 1 := 0, 2 := 0, 3 := 0)\<rparr>"

definition demo_w :: bytes_storage where
  "demo_w = \<lparr>bs_next = 1, bs_heap = [0 \<mapsto> \<lparr>ab_bytes = replicate 64 0, ab_borrows = []\<rparr>], bs_memory = {0}\<rparr>"

definition demo_p1 :: sliced_pool where
  "demo_p1 = demo_pool [demo_slice 0 10 0 6, demo_slice 16 48 1 0]"

definition demo_p2 :: sliced_pool where
  "demo_p2 = demo_pool [demo_slice 0 10 0 6, demo_slice 16 10 1 6, demo_slice 32 32 2 0]"

lemma demo_limits: "usize_lim = 18446744073709551616" "isize_lim = 9223372036854775808" "(2 :: nat) ^ 16 = 65536" "(2 :: nat) ^ 32 = 4294967296"
  by (simp_all add: usize_lim_def isize_lim_def)

lemmas demo_eval = demo_limits pool_reserve_def pool_try_reserve_def pool_alloc_def pool_new_def mapping_allocate_def bytes_storage_ops_def bytes_alloc_def layout_ok_def
  bytes_alignment_def bytes_default_def page_new_def new_page_ref_def slice_new_def new_handle_def Let_def is_mapped_def
  page_try_reserve_def guarded_def calculate_padding_def uadd_def usub_def handle_is_free_def effective_size_def update_location_def clone_handle_def
  offset_start_def add_new_slice_def update_later_def update_slice_def descriptor_location_def page_coalesce_def slice_is_free_def location_new_def
  demo_base_def demo_part_def demo_slice_def demo_pool_def demo_p1_def demo_p2_def demo_s0_def demo_s1_def demo_s2_def demo_w_def pool_accept_def umul_def ids_left_def
  settings_ok_def

lemma demo_reserve1: "pool_reserve cpu Eager 10 (pool_new 64 64 8 0) demo_s0 bytes_default = Some (demo_s1, demo_p1, demo_w, Inr 0)"
  by (simp add: demo_eval numeral_2_eq_2 numeral_3_eq_3)

lemma demo_reserve2: "pool_reserve cpu Eager 10 demo_p1 demo_s1 demo_w = Some (demo_s2, demo_p2, demo_w, Inr 1)"
  by (simp add: demo_eval numeral_2_eq_2 numeral_3_eq_3)

lemma demo_settings: "settings_ok (pool_new 64 64 8 0)" "pool_accept 10 (pool_new 64 64 8 0) = Some True" "pool_accept 10 demo_p1 = Some True"
    "ids_left (pool_new 64 64 8 0) demo_s0" "ids_left demo_p1 demo_s1" "ids_left demo_p2 demo_s2"
  by (simp_all add: demo_eval)

lemma demo_pool_reach: "pool_reach cpu (demo_p2, demo_s2, demo_w)"
proof -
  have "pool_reach cpu (pool_new 64 64 8 0, demo_s0, bytes_default)" by (rule pool_reach.start) (rule demo_settings)
  moreover have "pool_step cpu (pool_new 64 64 8 0, demo_s0, bytes_default) (EvReserve Eager 10) (demo_p1, demo_s1, demo_w)"
    by (rule pool_step.reserve [OF demo_settings(4) _ demo_settings(2) demo_reserve1]) simp
  moreover have "pool_step cpu (demo_p1, demo_s1, demo_w) (EvReserve Eager 10) (demo_p2, demo_s2, demo_w)"
    by (rule pool_step.reserve [OF demo_settings(5) _ demo_settings(3) demo_reserve2]) simp
  ultimately show ?thesis using pool_reach.step by metis
qed

lemma demo_held: "pool_held demo_s2 demo_p2 = {(0, demo_part 0 10), (1, demo_part 16 10)}"
  by (auto simp: pool_held_def demo_p2_def demo_pool_def demo_slice_def demo_s2_def)

lemma demo_buffers: "buffers demo_p2 = [(0, True)]"
  by (simp add: demo_p2_def demo_pool_def page_buffer_def)

lemma demo_run: "lease_run (\<lambda>_ _. True) (demo_w, {#})"
proof (rule lease_run.alloc [OF lease_run.start])
  show "bytes_alloc (\<lambda>_ _. True) 64 bytes_default = (demo_w, Inr (demo_part 0 64))" by (simp add: demo_eval)
qed

end
