(* ===== verification/Device_Props.thy ===== *)
theory Device_Props
  imports Device_Demo
begin

text \<open>
  The properties of the device memory: allocations are disjoint and stay where they are, a reservation
  succeeds when it can, cleaning up gives back exactly the idle pages, and guards on the CPU keep writers apart.
\<close>

subsection \<open>Allocations of a pool\<close>

lemma held_page:
  assumes ok: "sliced_ok I s p" and h: "(h, st) \<in> pool_held s p"
  obtains j k where "j < length (sp_pages p)" "k < length (pg_slices (fst (sp_pages p ! j)))" "h = sl_handle (pg_slices (fst (sp_pages p ! j)) ! k)"
    "st = sl_storage (pg_slices (fst (sp_pages p ! j)) ! k)" "page_in p s j (sp_pages p ! j)" "sh_id st = snd (sp_pages p ! j)"
proof -
  obtain j k where jk: "j < length (sp_pages p)" "k < length (pg_slices (fst (sp_pages p ! j)))" "h = sl_handle (pg_slices (fst (sp_pages p ! j)) ! k)"
    "st = sl_storage (pg_slices (fst (sp_pages p ! j)) ! k)"
    using h unfolding pool_held_iff by (auto simp: in_set_conv_nth)
  have pin: "page_in p s j (sp_pages p ! j)" using pages_ok_nth [of p s 0 "sp_pages p" j] ok jk(1) by (simp add: sliced_ok_def)
  then have "sh_id st = snd (sp_pages p ! j)" using jk(2,4) by (auto simp: page_in_def page_ok_def uniform_def)
  then show ?thesis using that jk pin by blast
qed

lemma page_in_tiles: "page_in p s j x \<Longrightarrow> tiles (sp_alignment p) 0 (pg_slices (fst x)) (sp_page_size p)"
  unfolding page_in_def page_ok_def by metis

lemma held_bounds:
  assumes ok: "sliced_ok I s p" and h: "(h, st) \<in> pool_held s p"
  shows "sp_alignment p dvd sh_offset st" "sh_offset st + sh_size st \<le> sp_page_size p"
proof -
  obtain j k where jk: "k < length (pg_slices (fst (sp_pages p ! j)))" "st = sl_storage (pg_slices (fst (sp_pages p ! j)) ! k)" "page_in p s j (sp_pages p ! j)"
    using held_page [OF ok h] by metis
  from tiles_member [OF page_in_tiles [OF jk(3)] nth_mem [OF jk(1)]] show "sp_alignment p dvd sh_offset st" "sh_offset st + sh_size st \<le> sp_page_size p"
    using jk(2) by (auto simp: effective_size_def)
qed

lemma held_disjoint:
  assumes ok: "sliced_ok I s p" and h: "(h1, st1) \<in> pool_held s p" "(h2, st2) \<in> pool_held s p" "h1 \<noteq> h2"
  shows "sh_id st1 \<noteq> sh_id st2 \<or> sh_offset st1 + sh_size st1 \<le> sh_offset st2 \<or> sh_offset st2 + sh_size st2 \<le> sh_offset st1"
proof -
  obtain j k where a: "j < length (sp_pages p)" "k < length (pg_slices (fst (sp_pages p ! j)))" "h1 = sl_handle (pg_slices (fst (sp_pages p ! j)) ! k)"
    "st1 = sl_storage (pg_slices (fst (sp_pages p ! j)) ! k)" "page_in p s j (sp_pages p ! j)" "sh_id st1 = snd (sp_pages p ! j)" by (rule held_page [OF ok h(1)])
  obtain j' k' where b: "j' < length (sp_pages p)" "k' < length (pg_slices (fst (sp_pages p ! j')))" "h2 = sl_handle (pg_slices (fst (sp_pages p ! j')) ! k')"
    "st2 = sl_storage (pg_slices (fst (sp_pages p ! j')) ! k')" "page_in p s j' (sp_pages p ! j')" "sh_id st2 = snd (sp_pages p ! j')" by (rule held_page [OF ok h(2)])
  show ?thesis
  proof (cases "j = j'")
    case True
    note t = page_in_tiles [OF a(5)]
    have "k \<noteq> k'" using a(3) b(3) h(3) True by auto
    then consider "k < k'" | "k' < k" by linarith
    then show ?thesis
    proof cases
      case 1
      then show ?thesis using tiles_disjoint [OF t 1] a(4) b(2,4) True by (simp add: effective_size_def)
    next
      case 2
      then show ?thesis using tiles_disjoint [OF t 2] a(2,4) b(4) True by (simp add: effective_size_def)
    qed
  next
    case False
    have "distinct (map snd (sp_pages p))" using ok by (simp add: sliced_ok_def)
    then have "snd (sp_pages p ! j) \<noteq> snd (sp_pages p ! j')" using False a(1) b(1) nth_eq_iff_index_eq [of "map snd (sp_pages p)" j j'] by simp
    then show ?thesis using a(6) b(6) by simp
  qed
qed

lemma held_found:
  assumes ok: "sliced_ok I s p" and h: "(h, st) \<in> pool_held s p"
  shows "\<exists>sl. pool_find_at (descriptor_location s h) p = Some (Some sl) \<and> sl_handle sl = h \<and> sl_storage sl = st"
proof -
  obtain j k where a: "j < length (sp_pages p)" "k < length (pg_slices (fst (sp_pages p ! j)))" "h = sl_handle (pg_slices (fst (sp_pages p ! j)) ! k)"
    "st = sl_storage (pg_slices (fst (sp_pages p ! j)) ! k)" "page_in p s j (sp_pages p ! j)" "sh_id st = snd (sp_pages p ! j)" by (rule held_page [OF ok h])
  have set: "settings_ok p" "j < 2 ^ 16" using ok a(1) by (simp_all add: sliced_ok_def)
  have "h \<in> page_handles (sp_pages p ! j)" using a(2,3) by (simp add: page_handles_def)
  then have "unat (lo_page (descriptor_location s h)) = j" using page_in_location(1) [OF a(5)] set(2) by (simp add: unat_of_nat)
  moreover have "page_ok s (fst (sp_pages p ! j))" "page_fits (fst (sp_pages p ! j))" using a(5) set(1) by (simp_all add: page_in_def page_fits_def settings_ok_def)
  then have "unat (lo_slice (descriptor_location s h)) = k" using page_index(2) [of s _ k] a(2,3) by blast
  ultimately show ?thesis using a(1-4) by (simp add: pool_find_at_def page_find_at_def)
qed

subsection \<open>The pool\<close>

lemma reach_pool_ok:
  assumes "device_storage cs issued" "pool_reach cs (p, s, w)"
  shows "sliced_ok (issued w) s p"
  using device_storage.reach_ok [OF assms] by (simp add: device_storage.state_ok_def [OF assms(1)])

text \<open>
  C23. In every state a pool reaches, by any sequence of reservations, clones, drops, bindings, relocations, cleanups and guards,
  each allocation somebody refers to is found under its descriptor, aligned and inside its page, and two of them
  never share a byte.
\<close>

theorem pool_allocations_disjoint:
  assumes "device_storage cs issued" "pool_reach cs (p, s, w)" "(h1, st1) \<in> pool_held s p"
  shows "(\<exists>sl. pool_find_at (descriptor_location s h1) p = Some (Some sl) \<and> sl_handle sl = h1 \<and> sl_storage sl = st1) \<and>
    sp_alignment p dvd sh_offset st1 \<and> sh_offset st1 + sh_size st1 \<le> sp_page_size p \<and>
    (\<forall>h2 st2. (h2, st2) \<in> pool_held s p \<longrightarrow> h1 \<noteq> h2 \<longrightarrow>
      sh_id st1 \<noteq> sh_id st2 \<or> sh_offset st1 + sh_size st1 \<le> sh_offset st2 \<or> sh_offset st2 + sh_size st2 \<le> sh_offset st1)"
proof -
  note ok = reach_pool_ok [OF assms(1,2)]
  show ?thesis using held_found [OF ok assms(3)] held_bounds [OF ok assms(3)] held_disjoint [OF ok assms(3)] by blast
qed

theorem pool_allocations_disjoint_witness:
  "(\<exists>sl. pool_find_at (descriptor_location demo_s2 1) demo_p2 = Some (Some sl) \<and> sl_handle sl = 1 \<and> sl_storage sl = demo_part 16 10) \<and> 8 dvd (16 :: nat) \<and>
   (demo_part 16 10 \<noteq> demo_part 0 10)"
  using pool_allocations_disjoint [OF bytes.device_storage_axioms demo_pool_reach, of 1 "demo_part 16 10"] demo_held
  by (auto simp: demo_part_def)

text \<open>
  C26. \<open>can_reserve\<close> changes nothing and answers whether \<open>try_reserve\<close>, which merges free slices first, will find
  room: for every positive size up to the page size the two agree, and a failed attempt keeps every allocation.
\<close>

theorem pool_can_reserve_exact:
  assumes "device_storage cs issued" "pool_reach cs (p, s, w)" "0 < size'" "size' \<le> sp_page_size p" "ids_left p s"
  shows "\<exists>s' p' r. pool_try_reserve size' p s = Some (s', p', r) \<and> pool_can_reserve s size' p = Some (r \<noteq> None) \<and>
    (r = None \<longrightarrow> pool_held s' p' = pool_held s p)"
proof -
  have room: "ms_next s + slice_count (sp_pages p) + length (sp_pages p) < usize_lim" using assms(5) by (simp add: ids_left_def)
  show ?thesis using pool_try_reserve_ok [OF reach_pool_ok [OF assms(1,2)] assms(3,4) room] by (auto simp: allocated_def)
qed

theorem pool_can_reserve_exact_witness:
  "\<exists>s' p' r. pool_try_reserve 33 demo_p2 demo_s2 = Some (s', p', r) \<and> pool_can_reserve demo_s2 33 demo_p2 = Some (r \<noteq> None)"
  using pool_can_reserve_exact [OF bytes.device_storage_axioms demo_pool_reach _ _ demo_settings(6), of 33] by (auto simp: demo_p2_def demo_pool_def pool_new_def)

text \<open>
  C24. Reserving a size the pool accepts never panics.  It hands out an allocation of exactly that size nobody else has,
  aligned and inside its page, on a new page only when no page has room, and everything handed out before stays; it fails
  only when there are 65536 pages or the device refuses a buffer, and then nothing in use has changed.
\<close>

theorem pool_reserve_outcome:
  assumes "device_storage cs issued" "pool_reach cs (p, s, w)" "0 < size'" "pool_accept size' p = Some True" "ids_left p s"
  shows "\<exists>s' p' w' r. pool_reserve cs mapping size' p s w = Some (s', p', w', r) \<and> counts_kept s s' \<and>
    (case r of
       Inl e \<Rightarrow> pool_held s' p' = pool_held s p \<and> pool_can_reserve s size' p = Some False \<and>
         (e = PageIndexExhausted \<and> length (sp_pages p) = 2 ^ 16 \<or> e = StorageFailed \<and> mapping_allocate cs mapping (sp_page_size p) w = (w', Inl ()))
     | Inr h \<Rightarrow> ms_strong s' h = 2 \<and> h \<notin> fst ` pool_held s p \<and>
         (\<exists>st. pool_held s' p' = insert (h, st) (pool_held s p) \<and> sh_size st = size' \<and> sp_alignment p dvd sh_offset st \<and>
           sh_offset st + size' \<le> sp_page_size p) \<and>
         length (sp_pages p') = length (sp_pages p) + (if pool_can_reserve s size' p = Some True then 0 else 1))"
proof -
  obtain s' p' w' r where R: "pool_reserve cs mapping size' p s w = Some (s', p', w', r)" "counts_kept s s'"
    "reserve_outcome p size' s (issued w') (mapping_allocate cs mapping (sp_page_size p) w = (w', Inl ())) s' p' r"
    using device_storage.pool_reserve_ok [OF assms(1) reach_pool_ok [OF assms(1,2)] assms(3,4) assms(5) [unfolded ids_left_def], of mapping] by blast
  show ?thesis using R by (intro exI [of _ s'] exI [of _ p'] exI [of _ w'] exI [of _ r]) (cases r, auto simp: reserve_outcome_def allocated_def granted_def)
qed

theorem pool_reserve_outcome_witness:
  "\<exists>s' p' w' h st. pool_reserve cpu Lazy 10 demo_p2 demo_s2 demo_w = Some (s', p', w', Inr h) \<and> h \<notin> {0, 1} \<and>
     pool_held s' p' = {(h, st), (0, demo_part 0 10), (1, demo_part 16 10)} \<and> sh_size st = 10"
proof -
  have a: "pool_accept 10 demo_p2 = Some True" by (simp add: demo_eval)
  have c: "pool_can_reserve demo_s2 10 demo_p2 = Some True" by (simp add: demo_eval pool_can_reserve_def page_can_reserve_def)
  show ?thesis using pool_reserve_outcome [OF bytes.device_storage_axioms demo_pool_reach _ a demo_settings(6), of Lazy, simplified]
    apply (elim exE conjE)
    subgoal for s' p' w' r using c demo_held by (cases r) auto
    done
qed

text \<open>
  C25. Whatever the pool does, merging, splitting, moving pages, cleaning up: an allocation keeps its handle, its offset and its
  size, and its buffer unless a planned page gets its memory, as long as somebody besides the pool refers to it and no
  binding or relocation has given it up.
\<close>

theorem allocation_stays:
  assumes "device_storage cs issued" "pool_reach cs (p, s, w)" "pool_step cs (p, s, w) e (p', s', w')" "(h, st) \<in> pool_held s p" "2 \<le> ms_strong s' h" "\<not> gives_up e h"
  shows "\<exists>st' sl. (h, st') \<in> pool_held s' p' \<and> sh_utilization st' = sh_utilization st \<and> (\<not> backs e \<longrightarrow> st' = st) \<and>
    pool_find_at (descriptor_location s' h) p' = Some (Some sl) \<and> sl_handle sl = h \<and> sl_storage sl = st'"
proof -
  have "device_storage.state_ok issued (p, s, w)" using device_storage.reach_ok [OF assms(1,2)] .
  then obtain st' where st': "(h, st') \<in> pool_held s' p'" "sh_utilization st' = sh_utilization st" "\<not> backs e \<longrightarrow> st' = st"
    using device_storage.step_ok [OF assms(1,3)] assms(4-6) by blast
  have "sliced_ok (issued w') s' p'" by (rule reach_pool_ok [OF assms(1)]) (rule pool_reach.step [OF assms(2,3)])
  then show ?thesis using st' held_found by blast
qed

theorem allocation_stays_witness:
  "\<exists>sl. pool_find_at (descriptor_location (drop_handle 0 demo_s2) 1) demo_p2 = Some (Some sl) \<and> sl_handle sl = 1 \<and> sl_storage sl = demo_part 16 10"
proof -
  have "in_hand demo_p2 demo_s2 0" by (simp add: in_hand_def demo_s2_def)
  note d = pool_step.drop [OF this, of cpu demo_w]
  have "(1, demo_part 16 10) \<in> pool_held demo_s2 demo_p2" "2 \<le> ms_strong (drop_handle 0 demo_s2) 1" "\<not> gives_up (EvDrop 0) 1" "\<not> backs (EvDrop 0)"
    using demo_held by (simp_all add: gives_up_def backs_def demo_s2_def)
  then show ?thesis using allocation_stays [OF bytes.device_storage_axioms demo_pool_reach d] by blast
qed

text \<open>
  C27. An explicit cleanup gives back to the device exactly the buffers of the pages nobody uses and no recorded graph guards,
  keeps the other pages in order, and every allocation in use is found at its new position.
\<close>

theorem cleanup_gives_back_idle:
  assumes "device_storage cs issued" "pool_reach cs (p, s, w)" "ids_left p s"
  shows "\<exists>s' p'. pool_cleanup cs True p s w = Some (s', p', give_back cs (filter (\<lambda>x. page_idle s (fst x)) (sp_pages p)) w) \<and>
    buffers p' = map page_buffer (filter (\<lambda>x. \<not> page_idle s (fst x)) (sp_pages p)) \<and> pool_held s' p' = pool_held s p \<and>
    (\<forall>h st. (h, st) \<in> pool_held s p \<longrightarrow> (\<exists>sl. pool_find_at (descriptor_location s' h) p' = Some (Some sl) \<and> sl_handle sl = h \<and> sl_storage sl = st))"
proof -
  have "ms_next s + slice_count (sp_pages p) < usize_lim" using assms(3) by (simp add: ids_left_def)
  then obtain s' p' where C: "pool_cleanup cs True p s w = Some (s', p', give_back cs (filter (\<lambda>x. page_idle s (fst x)) (sp_pages p)) w)" "sliced_ok (issued w) s' p'"
    "pool_held s' p' = pool_held s p" "buffers p' = map page_buffer (filter (\<lambda>x. \<not> page_idle s (fst x)) (sp_pages p))"
    using pool_cleanup_ok [OF reach_pool_ok [OF assms(1,2)], of cs w] by blast
  then show ?thesis using held_found [OF C(2)] by auto
qed

theorem cleanup_gives_back_idle_witness:
  "\<exists>s' p'. pool_cleanup cpu True demo_p2 (drop_handle 1 (drop_handle 0 demo_s2)) demo_w = Some (s', p', demo_w\<lparr>bs_memory := {}\<rparr>) \<and> buffers p' = []"
proof -
  let ?s = "drop_handle 1 (drop_handle 0 demo_s2)"
  have "in_hand demo_p2 demo_s2 0" "in_hand demo_p2 (drop_handle 0 demo_s2) 1" by (simp_all add: in_hand_def demo_s2_def)
  from pool_step.drop [OF this(1), of cpu demo_w] pool_step.drop [OF this(2), of cpu demo_w]
  have r: "pool_reach cpu (demo_p2, ?s, demo_w)" by (rule pool_reach.step [OF pool_reach.step [OF demo_pool_reach]])
  have i: "ids_left demo_p2 ?s" using demo_settings(6) by (simp add: ids_left_def)
  have "page_idle ?s (fst x)" if "x \<in> set (sp_pages demo_p2)" for x
    using that by (auto simp: page_idle_def guarded_def demo_p2_def demo_pool_def demo_slice_def demo_s2_def)
  then have "filter (\<lambda>x. page_idle ?s (fst x)) (sp_pages demo_p2) = sp_pages demo_p2" "filter (\<lambda>x. \<not> page_idle ?s (fst x)) (sp_pages demo_p2) = []"
    by (auto simp: filter_id_conv filter_empty_conv)
  moreover have "give_back cpu (sp_pages demo_p2) demo_w = demo_w\<lparr>bs_memory := {}\<rparr>"
    by (simp add: give_back_def demo_p2_def demo_pool_def bytes_storage_ops_def bytes_dealloc_def demo_w_def)
  ultimately show ?thesis using cleanup_gives_back_idle [OF bytes.device_storage_axioms r i] by auto
qed

subsection \<open>The CPU storage\<close>



text \<open>
  C28. Guards on the CPU storage are sound: whatever was allocated, released, borrowed and dropped before, a write through a live
  write guard changes nothing another live guard sees, dropping a live guard never panics, and a further range is granted exactly when
  it overlaps no writer, nor any guard at all if it is for writing.
\<close>

theorem live_guards_isolated:
  assumes "lease_run gives (b, L)" "{#l1, l2#} \<subseteq># L" "rg_writable (le_region l1)" "write_slice l1 ys b = Some b'" "resource_ok b r"
  shows "as_slice l2 b' = as_slice l2 b \<and> (\<exists>b''. lease_drop l1 b' = Some b'') \<and> (\<exists>b''. lease_drop l2 b' = Some b'') \<and>
    ((\<exists>b'' l. lease_acquire r wr b = (b'', Inr l)) \<longleftrightarrow>
      (\<forall>x \<in># L. le_allocation x = re_allocation r \<longrightarrow>
        \<not> (regions_overlap (le_region (resource_lease r wr)) (le_region x) \<and> (wr \<or> rg_writable (le_region x)))))"
proof -
  have inv: "lease_inv b L" using run_inv [OF assms(1)] by simp
  have l: "l1 \<in># L" "l2 \<in># L" using assms(2) by (auto dest: mset_subset_eqD)
  note inv' = write_inv [OF inv l(1) assms(4)]
  have "(\<exists>b'' l. lease_acquire r wr b = (b'', Inr l)) \<longleftrightarrow> (\<exists>b''. lease_acquire r wr b = (b'', Inr (resource_lease r wr)))"
    using acquire_iff(2) [OF inv assms(5)] by metis
  then show ?thesis
    using write_isolated [OF inv assms(2-4)] release_inv [OF inv' l(1)] release_inv [OF inv' l(2)] acquire_iff(1) [OF inv assms(5), of wr]
    by (auto simp: compatible_def resource_lease_def)
qed

lemma demo_guards:
  "\<exists>b. lease_run (\<lambda>_ _. True) (b, {#resource_lease \<lparr>re_allocation = 0, re_start = 16, re_end = 26\<rparr> False, resource_lease \<lparr>re_allocation = 0, re_start = 0, re_end = 2\<rparr> True#}) \<and>
    (\<exists>b'. write_slice (resource_lease \<lparr>re_allocation = 0, re_start = 0, re_end = 2\<rparr> True) [7, 7] b = Some b') \<and>
    resource_ok b \<lparr>re_allocation = 0, re_start = 0, re_end = 2\<rparr>"
proof -
  let ?r1 = "\<lparr>re_allocation = 0, re_start = 0, re_end = 2\<rparr> :: bytes_resource" and ?r2 = "\<lparr>re_allocation = 0, re_start = 16, re_end = 26\<rparr> :: bytes_resource"
  define b1 where "b1 = fst (lease_acquire ?r1 True demo_w)"
  define b2 where "b2 = fst (lease_acquire ?r2 False b1)"
  have r: "resource_ok demo_w ?r1" "resource_ok b1 ?r2" "resource_ok b2 ?r1"
    by (simp_all add: resource_ok_def b1_def b2_def demo_w_def lease_acquire_def Let_def regions_overlap_def)
  have "lease_acquire ?r1 True demo_w = (b1, Inr (resource_lease ?r1 True))" "lease_acquire ?r2 False b1 = (b2, Inr (resource_lease ?r2 False))"
    by (simp_all add: b1_def b2_def demo_w_def lease_acquire_def Let_def regions_overlap_def resource_lease_def)
  from lease_run.acquire [OF lease_run.acquire [OF demo_run r(1) this(1)] r(2) this(2)]
  have "lease_run (\<lambda>_ _. True) (b2, {#resource_lease ?r2 False, resource_lease ?r1 True#})" .
  moreover have "\<exists>b'. write_slice (resource_lease ?r1 True) [7, 7] b2 = Some b'"
    by (simp add: write_slice_def b2_def b1_def demo_w_def lease_acquire_def Let_def regions_overlap_def resource_lease_def lease_len_def rassert_def)
  ultimately show ?thesis using r(3) by blast
qed

theorem live_guards_isolated_witness:
  "\<exists>b b'. write_slice (resource_lease \<lparr>re_allocation = 0, re_start = 0, re_end = 2\<rparr> True) [7, 7] b = Some b' \<and>
    as_slice (resource_lease \<lparr>re_allocation = 0, re_start = 16, re_end = 26\<rparr> False) b' = as_slice (resource_lease \<lparr>re_allocation = 0, re_start = 16, re_end = 26\<rparr> False) b \<and>
    \<not> (\<exists>b'' l. lease_acquire \<lparr>re_allocation = 0, re_start = 0, re_end = 2\<rparr> False b = (b'', Inr l))"
proof -
  let ?r1 = "\<lparr>re_allocation = 0, re_start = 0, re_end = 2\<rparr> :: bytes_resource" and ?r2 = "\<lparr>re_allocation = 0, re_start = 16, re_end = 26\<rparr> :: bytes_resource"
  obtain b b' where g: "lease_run (\<lambda>_ _. True) (b, {#resource_lease ?r2 False, resource_lease ?r1 True#})"
    "write_slice (resource_lease ?r1 True) [7, 7] b = Some b'" "resource_ok b ?r1" using demo_guards by blast
  have "{#resource_lease ?r1 True, resource_lease ?r2 False#} \<subseteq># {#resource_lease ?r2 False, resource_lease ?r1 True#}" by (simp add: add_mset_commute)
  from live_guards_isolated [OF g(1) this _ g(2,3), of False] show ?thesis using g(2) by (auto simp: resource_lease_def regions_overlap_def)
qed





subsection \<open>Empty allocations\<close>

text \<open>
  The size zero is outside the properties above: an empty slice does not count for \<open>cleanup\<close>, so a page whose only allocation is
  empty is given back while a user still refers to it, and looking that allocation up then indexes a page that does not exist.
\<close>

lemma empty_allocation_lost:
  "\<exists>s p s' p' w'. pool_try_reserve 0 demo_p1 (drop_handle 0 demo_s1) = Some (s, p, Some 2) \<and> ms_strong s 2 = 2 \<and>
     pool_cleanup cpu True p s demo_w = Some (s', p', w') \<and> ms_strong s' 2 = 1 \<and> pool_find_at (descriptor_location s' 2) p' = None"
  by (simp add: demo_eval drop_handle_def flush_run_def pool_cleanup_def amount_free_def amount_total_def pool_find_at_def numeral_2_eq_2 numeral_3_eq_3)

end
