(* ===== verification/Spec2Isabelle.thy ===== *)
theory Spec2Isabelle
  imports Tensor_Text Tensor_View_Ops Fenced_Run Prefix_Tiers_Props Device_Props
begin

text \<open>
  RUDA is a stack for tensor computing and language model inference written in Rust.  This
  development models and verifies its device-independent logic: how an inference server decides
  what to compute, where the results live, how tensors are indexed, and how a device shares its
  memory out.

  The parts build on each other.  Requests enter the continuous batching scheduler, which reserves
  pages of the KV cache manager for the tokens of a batch, hands the batch to a device through the
  fence gate, and commits or cancels the reservations when the device is done.  The tiered prefix
  cache keeps computed prompts beside it.  The tensors of the device live in slices of pooled
  buffers, and host code addresses their elements through strided layouts.

  \<^bold>\<open>Conventions.\<close>  A function that can panic (an index out of bounds, an \<open>expect\<close>, a failed checked
  operation in a debug build) or that may not return has an \<open>option\<close> result, and \<open>None\<close> is the panic;
  an error value of the code is \<open>Inl\<close> of a sum whose constructors name the error site, since the
  messages carry no further control flow.  A \<open>&mut self\<close> method takes the state and returns it beside
  its result, also when it returns an error.  \<open>usize\<close> and \<open>u64\<close> are natural numbers with the limit
  \<open>usize_lim = 2 ^ 64\<close> written out at every operation that can overflow, \<open>isize\<close> and token ids are
  integers, \<open>BTreeMap\<close> and \<open>BTreeSet\<close> are sorted lists (\<open>Ordered_Map\<close>), \<open>HashMap\<close> is a map.  \<open>Rust_Prelude\<close> holds
  these primitives and the simplification sets that carry the component proofs.

  \<^bold>\<open>Inference (ruLLM/src).\<close>
  \<^item> \<open>Llm_Runtime\<close>: \<open>runtime/shape.rs\<close>, \<open>runtime/memory.rs\<close>, \<open>runtime/error.rs\<close>.  Strided layouts with checked
    arithmetic and their storage validation, the page geometry and the shared memory budget, error
    kinds and the recovery decision.
  \<^item> \<open>Paged_Kv\<close>: \<open>paged_kv.rs\<close>, the KV cache manager; one definition per method.  \<open>Paged_Kv_Pool\<close> states
    the interface of its page pool as a locale (what an allocation and a release promise) and
    interprets it on the code; \<open>Paged_Kv_Inv\<close> has the invariant of the manager, \<open>Paged_Kv_Ops\<close>, \<open>Paged_Kv_Commit\<close>
    and \<open>Paged_Kv_Prefix\<close> prove the operations against it, \<open>Paged_Kv_Run\<close> the reachable states, \<open>Paged_Kv_Spec\<close>
    the contracts of the single operations.
  \<^item> \<open>Batch_Scheduler\<close>: \<open>continuous_batch.rs\<close>, \<open>continuous_batch/lifecycle.rs\<close>, \<open>continuous_batch/sampling.rs\<close>,
    the continuous batching scheduler on top of the manager.  The random sampler is a type
    parameter, the hash of the prefix cache a function parameter.
  \<^item> \<open>Batch_Kv_View\<close> abstracts the manager to what the scheduler sees: per request, the number of cached
    tokens and the pending append; every manager call is a function on this view.
  \<^item> \<open>Batch_Sched_Inv\<close>: the invariant of the scheduler, which ties the phase of every request to its
    view.  \<open>Batch_Sched_Plan\<close> treats the three loops that reserve rows as instances of one locale, \<open>Batch_Sched_Turn\<close>
    the decode, prefill and verify turns, \<open>Batch_Sched_Loop\<close> the scheduling loop with preemption and its
    termination (the number of requests holding pages falls), \<open>Batch_Sched_Admit\<close> the admission.
  \<^item> \<open>Batch_Sched_Complete\<close> and \<open>Batch_Sched_Verify\<close>: the two completion loops as instances of one locale;
    \<open>Batch_Sched_Life\<close>: failing a batch, reserving ahead, cancelling, submitting, the settings.
  \<^item> \<open>Batch_Speculative\<close>: drafts from repeated suffixes and their verification, against greedy decoding.
  \<^item> \<open>Batch_Sched_Run\<close>, \<open>Batch_Sched_Serve\<close>, \<open>Batch_Sched_Reach\<close>: whole runs.  The inductive relation \<open>serving\<close> allows
    the public operations in any order, but a batch with drafts is completed only by verifying it; a ledger records submissions,
    deliveries and cancellations.  The answers of the device are those of a model on the history of the request.  In every reachable state the requests are accounted for and every finished
    request carries the greedy tokens of its model.  \<open>Batch_Sched_Live\<close> proves progress under the
    reserving admission policy.  \<open>Batch_Sched_Demo\<close> evaluates a run on concrete data and \<open>Batch_Sched_Props\<close>
    states the properties.
  \<^item> \<open>Batch_Sampling\<close>: \<open>continuous_batch/sampling.rs\<close>, choosing the tokens of a batch from its logits, against the
    strict argmax of \<open>runtime/numerics.rs\<close>.
  \<^item> \<open>Fenced_Scheduler\<close> and \<open>Fenced_Run\<close>: \<open>continuous_batch/fenced.rs\<close>, the gate that holds a batch until its device
    fence reports completion.  Launches and polls are arguments that may succeed, fail or panic.  The
    runs of a gate are runs of the scheduler (a refinement), nothing is released before the fence,
    and quarantine is final.  A speculating scheduler may be wrapped; since the gate cannot verify drafts, its batches with drafts are
    launched and rolled back but not committed.
  \<^item> \<open>Prefix_Tiers\<close>: \<open>prefix_cache.rs\<close>, prompts kept on the device, in host memory and in files.  The tensor
    backend is the record \<open>backend\<close>, the file system the record \<open>disk_io\<close>; both may fail in any way.
    \<open>Prefix_Tiers_Inv\<close> has the invariant (statistics, budgets, completeness of prompts), \<open>Prefix_Tiers_Ops\<close> and
    \<open>Prefix_Tiers_Fill\<close> the operations against it and the termination of their loops.  \<open>Prefix_Tiers_Recall\<close> has a reference for
    the lookup, a search through the prefixes of the prompt, and proves that the code answers as it does.  \<open>Prefix_Tiers_Keep\<close>
    states as the locale \<open>cache_laws\<close> what a property of the cache and the files has to survive so that every operation keeps it; it is
    interpreted for the bytes that are counted for lost files, and its laws are proved for the provenance of prompts in \<open>Prefix_Tiers_Run\<close>, which has
    the reachable caches.  \<open>Prefix_Tiers_Demo\<close> is a concrete model and \<open>Prefix_Tiers_Props\<close> states the properties: prefilling through the cache
    computes what the model computes, when the model is causal, serialization is lossless and delimits itself, and files hold only
    what processes wrote.

  \<^bold>\<open>Device memory (ruda-runtime/src/runtime).\<close>
  \<^item> \<open>Device_Memory\<close>: \<open>memory_management/memory_pool/\<close>, the memory page, the sliced pool and the packed locations of
    their slices.  Descriptors and page guards are shared objects, so their reference counts are in an
    explicit store; the device is a record of functions on a world.
  \<^item> \<open>Device_Page\<close>, \<open>Device_Reserve\<close>, \<open>Device_Page_Ops\<close>: the slices of a page tile its buffer, and every operation keeps
    that and the slices in use.  \<open>Device_Pool\<close>, \<open>Device_Pool_Ops\<close>, \<open>Device_Pool_Clean\<close>: the same for the pool.  The
    locale \<open>device_storage\<close> is what the pool asks of the storage: a new identifier with each buffer.
  \<^item> \<open>Device_Run\<close>: the users of a pool reserve, clone, drop, bind and clean up in any order (\<open>pool_step\<close>, \<open>pool_reach\<close>).
    The locale \<open>live_storage\<close> extends the interface by the sizes of the buffers that can be looked up.
  \<^item> \<open>Device_Bytes\<close>: \<open>storage/bytes_cpu.rs\<close>, the storage of the CPU with its registry of borrowed ranges;
    \<open>Device_Bytes_Inv\<close> interprets both locales on it and has the invariant of the registry, \<open>Device_Demo\<close> a
    concrete run.  \<open>Device_Props\<close> states the properties, also those of the pool and the CPU storage
    together: live allocations are disjoint and can be accessed independently of each other.

  \<^bold>\<open>Tensor indexing (ruda-core/src/tensor).\<close>
  \<^item> \<open>Row_Major\<close>: row-major ranks, strides and coordinates, the common reference of the theories below.
  \<^item> \<open>Tensor_Index\<close> (\<open>indexing/wrapping.rs\<close>), \<open>Tensor_Shape\<close> (\<open>shape.rs\<close>, \<open>metadata.rs\<close>, \<open>strides.rs\<close>), \<open>Tensor_Striding\<close> and \<open>Tensor_Reshape\<close>
    (\<open>striding/\<close>), \<open>Tensor_Slice\<close> (\<open>slice/\<close>), \<open>Tensor_Text\<close> (the textual forms of slices and shapes), \<open>Tensor_Layout\<close>, \<open>Tensor_View\<close>
    and \<open>Tensor_View_Ops\<close> (\<open>host/layout.rs\<close>, \<open>host/strided_index.rs\<close>).  Operations on shapes, strides and views are
    related to the elements they address.

  \<^bold>\<open>Bounds.\<close>  The manager and the scheduler count reservations, ticks, admissions, preemptions and
  drafts in 64-bit counters that never wrap in the code; a statement about a call assumes that the
  counters have room for it (\<open>kv_room\<close>, \<open>kv_spare\<close>, \<open>sched_spare\<close>, \<open>roomy\<close>), and every operation states how much of
  it it spends.  The reference counts of pages are 32-bit, so the number of sequences times their
  length has to stay below \<open>2 ^ 32\<close> (\<open>config_fits\<close>).  Loops of the code are structural recursions over the
  list they walk; the admission loop has the length of the queue as fuel, which is enough because
  every iteration removes a request; the scheduling loop is a partial function with a proof that
  it returns.  The loops of the prefix cache are partial functions or recursions on a measure, again
  with a proof that they return; its clock and its count of device entries have room for a call (\<open>cache_room\<close>).  The
  pool of device memory packs positions in 16 and 32 bits: a page is at most \<open>2 ^ 32\<close> times the
  alignment and a pool has at most 65536 pages; the identifiers
  of descriptors are not exhausted (\<open>ids_left\<close>), and reservations have a positive size.

  \<^bold>\<open>Not modelled.\<close>  Device execution and the numeric kernels (floating point on generic backends),
  the model loaders, the HTTP front ends, the network transfer of prefixes, the random sampler
  (\<open>TokenSampler\<close>), wall-clock measurements, the vendor bindings, the kernel compiler and the training
  stack.  Threads: the mutex of the memory budget, the atomic counters of descriptors and the
  registry of the CPU storage are sequences of atomic steps.  Of the device memory, the choice among
  pools, graph capture, adaptive relocation, the pools with one allocation per page, failure marks,
  resource pins, the relocation barrier, weak bindings (\<open>WeakMemoryBinding::upgrade\<close>, which can bring back the descriptor of a free slice) and
  the exhaustion of the storage identifiers.  Of the scheduler, the state after a batch with drafts was given to
  \<open>complete_batch\<close>, which accepts it.  Memory exhaustion of the host allocator is modelled only
  where the code reports it as an error (a storage that finds no memory); capacity overflows are.
\<close>

end
